(* ===== verification/Prelude.thy ===== *)
theory Prelude
  imports Main "HOL-Library.Char_ord" "HOL-Library.List_Lexorder" "HOL-Library.Word"
begin

text \<open>
  Shared vocabulary of the development: bytes and strings, results of fallible code, ordered
  maps and sets, big-endian integers, UTF-8, and text splitting. A Rust \<open>u8\<close> is a \<open>char\<close>
  (HOL characters are exactly the 256 byte values, ordered by value through
  \<open>HOL-Library.Char_ord\<close>), so \<open>&[u8]\<close>, \<open>Vec<u8>\<close> and the bytes of a \<open>String\<close> are character
  lists, compared lexicographically by byte through \<open>HOL-Library.List_Lexorder\<close>, which is Rust's
  order on \<open>str\<close> and \<open>[u8]\<close>.
\<close>

named_theorems result_simps "inversion of results of fallible code"
named_theorems omap_simps "lookups in ordered maps"

section \<open>Bytes and results\<close>

type_synonym byte = char
type_synonym bytes = "char list"

text \<open>Rust's \<open>Result<A, E>\<close> is \<open>'e + 'a\<close>; \<open>ebind\<close> is the \<open>?\<close> operator.\<close>

fun ebind :: "'e + 'a \<Rightarrow> ('a \<Rightarrow> 'e + 'b) \<Rightarrow> 'e + 'b" where
  "ebind (Inl e) f = Inl e"
| "ebind (Inr x) f = f x"

fun emap_err :: "('e \<Rightarrow> 'f) \<Rightarrow> 'e + 'a \<Rightarrow> 'f + 'a" where
  "emap_err g (Inl e) = Inl (g e)"
| "emap_err g (Inr x) = Inr x"

definition ok_or :: "'e \<Rightarrow> 'a option \<Rightarrow> 'e + 'a" where
  "ok_or e x = (case x of None \<Rightarrow> Inl e | Some y \<Rightarrow> Inr y)"

definition guard :: "bool \<Rightarrow> 'e \<Rightarrow> 'e + unit" where
  "guard b e = (if b then Inr () else Inl e)"

text \<open>\<open>iter().map(f).collect::<Result<Vec<_>>>()\<close>: the first error wins.\<close>

fun emap :: "('a \<Rightarrow> 'e + 'b) \<Rightarrow> 'a list \<Rightarrow> 'e + 'b list" where
  "emap f [] = Inr []"
| "emap f (x # xs) = ebind (f x) (\<lambda>y. ebind (emap f xs) (\<lambda>ys. Inr (y # ys)))"

lemma ebind_Inr_iff [result_simps]: "ebind r f = Inr y \<longleftrightarrow> (\<exists>x. r = Inr x \<and> f x = Inr y)"
  by (cases r) auto

lemma ebind_Inl_iff: "ebind r f = Inl e \<longleftrightarrow> r = Inl e \<or> (\<exists>x. r = Inr x \<and> f x = Inl e)"
  by (cases r) auto

lemma emap_err_Inr_iff [result_simps]: "emap_err g r = Inr x \<longleftrightarrow> r = Inr x"
  by (cases r) auto

lemma ok_or_Inr_iff [result_simps]: "ok_or e x = Inr y \<longleftrightarrow> x = Some y"
  by (auto simp: ok_or_def split: option.splits)

lemma guard_Inr_iff [result_simps]: "guard b e = Inr u \<longleftrightarrow> b"
  by (auto simp: guard_def)

lemma guard_simps [simp]: "guard True e = Inr ()" "guard False e = Inl e"
  by (simp_all add: guard_def)

lemma emap_Inr_iff: "emap f xs = Inr ys \<longleftrightarrow> list_all2 (\<lambda>x y. f x = Inr y) xs ys"
  by (induction xs arbitrary: ys) (auto simp: result_simps list_all2_Cons1)

section \<open>Ordered maps and sets\<close>

text \<open>
  A \<open>BTreeMap\<close> is an association list with strictly ascending keys, so that iteration is the
  list itself; \<open>map_of\<close> is \<open>get\<close>. A \<open>BTreeSet\<close> is a strictly ascending list.
\<close>

type_synonym ('k, 'v) omap = "('k \<times> 'v) list"

definition omap_ok :: "('k::linorder \<times> 'v) list \<Rightarrow> bool" where
  "omap_ok m \<longleftrightarrow> sorted_wrt (<) (map fst m)"

fun omap_insert :: "'k::linorder \<Rightarrow> 'v \<Rightarrow> ('k \<times> 'v) list \<Rightarrow> ('k \<times> 'v) list" where
  "omap_insert k v [] = [(k, v)]"
| "omap_insert k v ((k', v') # m) =
     (if k < k' then (k, v) # (k', v') # m
      else if k = k' then (k, v) # m
      else (k', v') # omap_insert k v m)"

definition omap_remove :: "'k \<Rightarrow> ('k \<times> 'v) list \<Rightarrow> ('k \<times> 'v) list" where
  "omap_remove k m = filter (\<lambda>(k', v). k' \<noteq> k) m"

definition omap_has :: "('k \<times> 'v) list \<Rightarrow> 'k \<Rightarrow> bool" where
  "omap_has m k \<longleftrightarrow> map_of m k \<noteq> None"

lemma omap_ok_Nil [simp]: "omap_ok []"
  by (simp add: omap_ok_def)

lemma omap_ok_Cons [simp]:
  "omap_ok ((k, v) # m) \<longleftrightarrow> (\<forall>k' \<in> fst ` set m. k < k') \<and> omap_ok m"
  by (auto simp: omap_ok_def)

lemma omap_okD_distinct: "omap_ok m \<Longrightarrow> distinct (map fst m)"
  by (simp add: omap_ok_def strict_sorted_iff)

lemma keys_omap_insert [simp]: "fst ` set (omap_insert k v m) = insert k (fst ` set m)"
  by (induction k v m rule: omap_insert.induct) auto

lemma omap_insert_ok [simp, intro]: "omap_ok m \<Longrightarrow> omap_ok (omap_insert k v m)"
  by (induction k v m rule: omap_insert.induct) auto

lemma map_of_omap_insert [omap_simps]:
  "omap_ok m \<Longrightarrow> map_of (omap_insert k v m) = (map_of m)(k \<mapsto> v)"
  by (induction k v m rule: omap_insert.induct)
     (auto simp: fun_eq_iff)

lemma keys_omap_remove: "fst ` set (omap_remove k m) = fst ` set m - {k}"
  by (force simp: omap_remove_def)

lemma omap_remove_ok [simp, intro]: "omap_ok m \<Longrightarrow> omap_ok (omap_remove k m)"
  by (induction m) (auto simp: omap_remove_def)

lemma map_of_omap_remove [omap_simps]:
  "map_of (omap_remove k m) = (map_of m)(k := None)"
  by (induction m) (auto simp: omap_remove_def fun_eq_iff)

lemma omap_has_iff: "omap_has m k \<longleftrightarrow> k \<in> fst ` set m"
  by (auto simp: omap_has_def map_of_eq_None_iff)

lemma omap_map_of_iff: "omap_ok m \<Longrightarrow> map_of m k = Some v \<longleftrightarrow> (k, v) \<in> set m"
  by (simp add: omap_okD_distinct)

lemma omap_inj: "omap_ok m \<Longrightarrow> (k, v) \<in> set m \<Longrightarrow> (k, w) \<in> set m \<Longrightarrow> v = w"
  by (metis omap_map_of_iff option.inject)

lemma omap_filter_ok [intro]: "omap_ok m \<Longrightarrow> omap_ok (filter P m)"
  by (induction m) auto

lemma map_of_filter_omap:
  "omap_ok m \<Longrightarrow>
   map_of (filter P m) k =
     (case map_of m k of None \<Rightarrow> None | Some v \<Rightarrow> if P (k, v) then Some v else None)"
proof (induction m)
  case (Cons a m)
  obtain k' v where a: "a = (k', v)" by force
  with Cons.prems have "map_of m k' = None"
    by (auto simp: map_of_eq_None_iff)
  with Cons show ?case by (cases "k = k'") (auto simp: a)
qed simp

text \<open>An ordered map is determined by its lookups.\<close>

lemma omap_extI:
  assumes "omap_ok m" "omap_ok n" "map_of m = map_of n"
  shows "m = n"
proof -
  have pairs: "set m = set n"
    using assms by (auto simp flip: omap_map_of_iff)
  have "inj_on fst (set m \<union> set n)"
    using omap_okD_distinct [OF assms(1)] pairs by (simp add: distinct_map)
  then show ?thesis
    using assms(1,2) pairs unfolding omap_ok_def strict_sorted_iff
    by (intro map_sorted_distinct_set_unique [of fst]) auto
qed

text \<open>\<open>collect::<BTreeMap>()\<close> of a list of pairs: later pairs win.\<close>

definition omap_of :: "('k::linorder \<times> 'v) list \<Rightarrow> ('k \<times> 'v) list" where
  "omap_of xs = fold (\<lambda>(k, v) m. omap_insert k v m) xs []"

lemma fold_omap_insert:
  "omap_ok m \<Longrightarrow> omap_ok (fold (\<lambda>(k, v) m. omap_insert k v m) xs m) \<and>
   map_of (fold (\<lambda>(k, v) m. omap_insert k v m) xs m) = map_of m ++ map_of (rev xs)"
proof (induction xs arbitrary: m)
  case (Cons x xs)
  obtain k v where x: "x = (k, v)" by force
  have "map_of (omap_insert k v m) ++ map_of (rev xs) = map_of m ++ map_of (rev (x # xs))"
    by (simp add: x map_of_omap_insert [OF Cons.prems])
  with Cons.IH [of "omap_insert k v m"] Cons.prems show ?case by (simp add: x)
qed simp

lemma omap_of_ok [simp, intro]: "omap_ok (omap_of xs)"
  using fold_omap_insert [of "[]" xs] by (simp add: omap_of_def)

lemma map_of_omap_of [omap_simps]: "map_of (omap_of xs) = map_of (rev xs)"
  using fold_omap_insert [of "[]" xs] by (simp add: omap_of_def)

lemma map_of_functional:
  "(\<And>k v w. (k, v) \<in> set xs \<Longrightarrow> (k, w) \<in> set xs \<Longrightarrow> v = w) \<Longrightarrow>
   map_of xs k = Some v \<longleftrightarrow> (k, v) \<in> set xs"
  by (metis map_of_SomeD weak_map_of_SomeI)

lemma set_map_filter: "y \<in> set (List.map_filter f xs) \<longleftrightarrow> (\<exists>x \<in> set xs. f x = Some y)"
  by (force simp: List.map_filter_def)

lemma in_fst_image: "q \<in> fst ` S \<longleftrightarrow> (\<exists>e. (q, e) \<in> S)"
  by force

text \<open>\<open>collect::<BTreeSet>()\<close> and \<open>BTreeSet::insert\<close>.\<close>

definition oset_of :: "'a::linorder list \<Rightarrow> 'a list" where
  "oset_of xs = fold insort_insert xs []"

definition oset_ok :: "'a::linorder list \<Rightarrow> bool" where
  "oset_ok xs \<longleftrightarrow> sorted_wrt (<) xs"

lemma oset_ok_iff: "oset_ok xs \<longleftrightarrow> sorted xs \<and> distinct xs"
  by (simp add: oset_ok_def strict_sorted_iff)

lemma oset_insert_ok [simp, intro]: "oset_ok xs \<Longrightarrow> oset_ok (insort_insert x xs)"
  by (simp add: oset_ok_iff sorted_insort_insert distinct_insort_insert)

lemma oset_fold:
  "set (fold insort_insert xs ys) = set xs \<union> set ys \<and>
   (oset_ok ys \<longrightarrow> oset_ok (fold insort_insert xs ys))"
  by (induction xs arbitrary: ys) (auto simp: set_insort_insert)

lemma set_oset_of [simp]: "set (oset_of xs) = set xs"
  using oset_fold [of xs "[]"] by (simp add: oset_of_def)

lemma oset_of_ok [simp, intro]: "oset_ok (oset_of xs)"
  using oset_fold [of xs "[]"] by (simp add: oset_of_def oset_ok_def)

lemma oset_extI: "oset_ok xs \<Longrightarrow> oset_ok ys \<Longrightarrow> set xs = set ys \<Longrightarrow> xs = ys"
  by (simp add: oset_ok_iff sorted_distinct_set_unique)

section \<open>Big-endian integers\<close>

text \<open>\<open>be_bytes k n\<close> is \<open>to_be_bytes\<close> of a \<open>k\<close>-byte integer, \<open>be_val\<close> is \<open>from_be_bytes\<close>.\<close>

fun be_bytes :: "nat \<Rightarrow> nat \<Rightarrow> bytes" where
  "be_bytes 0 n = []"
| "be_bytes (Suc k) n = be_bytes k (n div 256) @ [char_of n]"

definition be_val :: "bytes \<Rightarrow> nat" where
  "be_val bs = foldl (\<lambda>acc b. acc * 256 + of_char b) 0 bs"

lemma length_be_bytes [simp]: "length (be_bytes k n) = k"
  by (induction k arbitrary: n) auto

lemma be_val_Nil [simp]: "be_val [] = 0"
  by (simp add: be_val_def)

lemma be_val_snoc [simp]: "be_val (bs @ [b]) = be_val bs * 256 + of_char b"
  by (simp add: be_val_def)

lemma be_val_be_bytes: "be_val (be_bytes k n) = n mod 256 ^ k"
proof (induction k arbitrary: n)
  case (Suc k)
  have "n div 256 mod 256 ^ k * 256 + n mod 256 = n mod (256 * 256 ^ k)"
    by (simp add: mod_mult2_eq)
  then show ?case by (simp add: Suc)
qed simp

lemma of_char_less_256 [simp]: "of_char (c :: char) < (256 :: nat)"
  by (metis char_of_nat of_char_of mod_less_divisor zero_less_numeral of_char_mod_256)

lemma be_val_less: "be_val bs < 256 ^ length bs"
proof (induction bs rule: rev_induct)
  case (snoc b bs)
  have "be_val bs * 256 + of_char b < (be_val bs + 1) * 256"
    using of_char_less_256 [of b] by simp
  also have "\<dots> \<le> 256 ^ length bs * 256"
    using snoc by (intro mult_right_mono) auto
  finally show ?case by (simp add: mult.commute)
qed simp

lemma char_of_byte_sum: "char_of (n * 256 + of_char b :: nat) = b"
  by (metis add.commute char_of_char char_of_mod_256 mod_mult_self1)

lemma be_bytes_be_val: "length bs = k \<Longrightarrow> be_bytes k (be_val bs) = bs"
proof (induction bs arbitrary: k rule: rev_induct)
  case (snoc b bs)
  then obtain k' where "k = Suc k'" "length bs = k'" by auto
  with snoc.IH [of k'] show ?case by (simp add: char_of_byte_sum)
qed auto

section \<open>UTF-8\<close>

text \<open>
  A Rust \<open>str\<close> is a byte string that \<open>std::str::from_utf8\<close> accepts: the well-formed
  sequences of the Unicode standard, with no overlong form and no surrogate.
\<close>

definition u8_in :: "byte \<Rightarrow> nat \<Rightarrow> nat \<Rightarrow> bool" where
  "u8_in b lo hi \<longleftrightarrow> lo \<le> of_char b \<and> of_char b \<le> hi"

abbreviation utf8_cont :: "byte \<Rightarrow> bool" where
  "utf8_cont b \<equiv> u8_in b 128 191"

definition utf8_2 :: "byte \<Rightarrow> byte \<Rightarrow> bool" where
  "utf8_2 a b \<longleftrightarrow> u8_in a 194 223 \<and> utf8_cont b"

definition utf8_3 :: "byte \<Rightarrow> byte \<Rightarrow> byte \<Rightarrow> bool" where
  "utf8_3 a b c \<longleftrightarrow>
     (u8_in a 224 224 \<and> u8_in b 160 191 \<or> u8_in a 225 236 \<and> utf8_cont b
      \<or> u8_in a 237 237 \<and> u8_in b 128 159 \<or> u8_in a 238 239 \<and> utf8_cont b) \<and> utf8_cont c"

definition utf8_4 :: "byte \<Rightarrow> byte \<Rightarrow> byte \<Rightarrow> byte \<Rightarrow> bool" where
  "utf8_4 a b c d \<longleftrightarrow>
     (u8_in a 240 240 \<and> u8_in b 144 191 \<or> u8_in a 241 243 \<and> utf8_cont b
      \<or> u8_in a 244 244 \<and> u8_in b 128 143) \<and> utf8_cont c \<and> utf8_cont d"

lemma utf8_conts:
  "utf8_2 a b \<Longrightarrow> utf8_cont b"
  "utf8_3 a b c \<Longrightarrow> utf8_cont b \<and> utf8_cont c"
  "utf8_4 a b c d \<Longrightarrow> utf8_cont b \<and> utf8_cont c \<and> utf8_cont d"
  by (auto simp: utf8_2_def utf8_3_def utf8_4_def u8_in_def)

text \<open>The number of bytes of the first character, 0 where no character starts.\<close>

fun utf8_head :: "bytes \<Rightarrow> nat" where
  "utf8_head [] = 0"
| "utf8_head (a # r) =
     (if u8_in a 0 127 then 1
      else if 1 \<le> length r \<and> utf8_2 a (r ! 0) then 2
      else if 2 \<le> length r \<and> utf8_3 a (r ! 0) (r ! 1) then 3
      else if 3 \<le> length r \<and> utf8_4 a (r ! 0) (r ! 1) (r ! 2) then 4
      else 0)"

function utf8 :: "bytes \<Rightarrow> bool" where
  "utf8 bs = (if bs = [] then True
              else if utf8_head bs = 0 then False else utf8 (drop (utf8_head bs) bs))"
  by pat_completeness auto
termination
  by (relation "measure length") auto

declare utf8.simps [simp del]

lemma utf8_Nil [simp]: "utf8 []"
  by (simp add: utf8.simps)

lemma utf8_step:
  "bs \<noteq> [] \<Longrightarrow> utf8 bs \<longleftrightarrow> utf8_head bs \<noteq> 0 \<and> utf8 (drop (utf8_head bs) bs)"
  by (subst utf8.simps) simp

lemma utf8_head_le: "utf8_head bs \<le> length bs"
  by (cases bs) auto

lemma utf8_head_append: "utf8_head xs \<noteq> 0 \<Longrightarrow> utf8_head (xs @ ys) = utf8_head xs"
  by (cases xs) (auto simp: nth_append split: if_splits)

lemma utf8_head_cont:
  assumes "1 \<le> i" "i < utf8_head bs"
  shows "utf8_cont (bs ! i)"
proof -
  obtain a r where bs: "bs = a # r" using assms by (cases bs) auto
  have "i = 1 \<or> i = 2 \<or> i = 3" "utf8_head bs \<le> 4"
    using assms by (auto simp: bs split: if_splits)
  then show ?thesis using assms
    by (auto simp: bs numeral_2_eq_2 numeral_3_eq_3 dest: utf8_conts split: if_splits)
qed

lemma utf8_head_take:
  assumes "utf8_head (xs @ ys) \<le> length xs" "xs \<noteq> []"
  shows "utf8_head xs = utf8_head (xs @ ys)"
proof -
  obtain a r where "xs = a # r" using assms by (cases xs) auto
  then show ?thesis using assms(1)
    by (auto simp: nth_append split: if_splits)
qed

lemma utf8_ascii: "\<forall>b \<in> set bs. u8_in b 0 127 \<Longrightarrow> utf8 bs"
  by (induction bs) (auto simp: utf8.simps)

lemma utf8_append: "utf8 xs \<Longrightarrow> utf8 (xs @ ys) = utf8 ys"
proof (induction xs rule: utf8.induct)
  case (1 xs)
  show ?case
  proof (cases "xs = []")
    case False
    with 1 have h: "utf8_head xs \<noteq> 0" "utf8 (drop (utf8_head xs) xs)"
      by (simp_all add: utf8_step [of xs])
    with 1 have "utf8 (drop (utf8_head xs) xs @ ys) = utf8 ys" using False by blast
    with h False utf8_head_append [OF h(1)] utf8_head_le [of xs] show ?thesis
      by (simp add: utf8_step [of "xs @ ys"])
  qed simp
qed

text \<open>Cutting valid text where a character starts leaves valid text.\<close>

lemma utf8_cut:
  "utf8 (xs @ ys) \<Longrightarrow> ys = [] \<or> \<not> utf8_cont (hd ys) \<Longrightarrow> utf8 xs"
proof (induction "length xs" arbitrary: xs rule: less_induct)
  case less
  let ?h = "utf8_head (xs @ ys)"
  show ?case
  proof (cases "xs = []")
    case False
    with less.prems have h: "?h \<noteq> 0" "utf8 (drop ?h (xs @ ys))"
      by (simp_all add: utf8_step [of "xs @ ys"])
    have le: "?h \<le> length xs"
    proof (rule ccontr)
      assume gt: "\<not> ?h \<le> length xs"
      then have "ys \<noteq> []" using utf8_head_le [of "xs @ ys"] by auto
      moreover have "utf8_cont ((xs @ ys) ! length xs)"
        using gt False by (intro utf8_head_cont) (cases xs, auto)
      ultimately show False using less.prems(2) by (simp add: nth_append hd_conv_nth)
    qed
    then have "utf8 (drop ?h xs @ ys)" "length (drop ?h xs) < length xs"
      using h False by (simp_all del: utf8_head.simps)
    then have "utf8 (drop ?h xs)"
      using less.hyps less.prems(2) by blast
    then show ?thesis
      unfolding utf8_step [OF False] utf8_head_take [OF le False] using h(1) by blast
  qed simp
qed

section \<open>Text\<close>

text \<open>\<open>str::split(c)\<close>: one part more than separators, so the empty text has one empty part.\<close>

fun split_on :: "char \<Rightarrow> string \<Rightarrow> string list" where
  "split_on c [] = [[]]"
| "split_on c (x # xs) =
     (if x = c then [] # split_on c xs
      else (case split_on c xs of [] \<Rightarrow> [[x]] | y # ys \<Rightarrow> (x # y) # ys))"

fun join_with :: "char \<Rightarrow> string list \<Rightarrow> string" where
  "join_with c [] = []"
| "join_with c [x] = x"
| "join_with c (x # y # ys) = x @ [c] @ join_with c (y # ys)"

lemma split_on_nonempty [simp]: "split_on c s \<noteq> []"
  by (induction s) (auto split: list.splits)

lemma join_split_on [simp]: "join_with c (split_on c s) = s"
proof (induction s)
  case (Cons x xs)
  then show ?case
    by (cases "split_on c xs"; cases "tl (split_on c xs)") auto
qed simp

lemma split_on_free: "p \<in> set (split_on c s) \<Longrightarrow> c \<notin> set p"
  by (induction s arbitrary: p) (fastforce split: list.splits if_splits)+

lemma split_on_no_sep: "c \<notin> set s \<Longrightarrow> split_on c s = [s]"
  by (induction s) auto

lemma split_on_append_sep: "split_on c (s @ c # t) = split_on c s @ split_on c t"
proof (induction s)
  case (Cons x s)
  then show ?case by (cases "split_on c s") auto
qed simp

text \<open>\<open>Vec<String>::join(sep)\<close>.\<close>

fun join_str :: "string \<Rightarrow> string list \<Rightarrow> string" where
  "join_str sep [] = []"
| "join_str sep [x] = x"
| "join_str sep (x # y # ys) = x @ sep @ join_str sep (y # ys)"

text \<open>Decimal digits, as \<open>Display\<close> prints an unsigned integer.\<close>

fun dec_str :: "nat \<Rightarrow> string" where
  "dec_str n = (if n < 10 then [char_of (48 + n)] else dec_str (n div 10) @ [char_of (48 + n mod 10)])"

declare dec_str.simps [simp del]

text \<open>\<open>saturating_add\<close> of \<open>u64\<close>.\<close>

definition u64_max :: nat where
  "u64_max = 18446744073709551615"

definition sat_add64 :: "nat \<Rightarrow> nat \<Rightarrow> nat" where
  "sat_add64 a b = min (a + b) u64_max"

end
