(* ===== verification/Domain.thy ===== *)
theory Domain
  imports Prelude "HOL-Library.Sublist"
begin

text \<open>
  \<open>src/domain.rs\<close>, with the error type of \<open>src/lib.rs\<close>: object IDs, version numbers, repository
  paths, operation IDs, file entries, manifests, changesets and the identity of World versions.
  Normalisation and the collision radar, which share the \<open>WorldIndex\<close> trait, are in the
  theory \<open>Normalize\<close>. SHA-256 (crate \<open>sha2\<close>) and the JSON encoder (crate \<open>serde_json\<close>) are
  parameters of the definitions that use them.
\<close>

section \<open>Object IDs\<close>

text \<open>An \<open>ObjectId\<close> is its 32 bytes; \<open>oid_ok\<close> is the fixed array length.\<close>

type_synonym object_id = bytes

definition oid_ok :: "object_id \<Rightarrow> bool" where
  "oid_ok i \<longleftrightarrow> length i = 32"

definition hex_digit :: "nat \<Rightarrow> char" where
  "hex_digit n = (if n < 10 then char_of (48 + n) else char_of (87 + n))"

definition hex_byte :: "byte \<Rightarrow> string" where
  "hex_byte b = [hex_digit (of_char b div 16), hex_digit (of_char b mod 16)]"

text \<open>\<open>Display\<close>: two lowercase digits per byte.\<close>

definition oid_display :: "object_id \<Rightarrow> string" where
  "oid_display i = concat (map hex_byte i)"

section \<open>Errors\<close>

text \<open>
  \<open>javelin::Error\<close>. Payloads formatted by other crates (paths, SQLite and I/O errors) are their
  text. The quoted path that \<open>RepoPath::parse\<close> appends with \<open>{value:?}\<close> is left out of its message.
\<close>

datatype error =
    NotInitialized string
  | InvalidInput string
  | MissingObject object_id
  | CorruptObject object_id
  | WrongObjectKind object_id
  | ObjectTooLarge object_id nat nat
  | MissingVersion "64 word"
  | CorruptRepository string
  | UnsupportedFormat int
  | LayerPublished string string
  | MissingAgentTrace
  | OperationIdReused string
  | Storage string
  | Io string
  | Busy string
  | Unsupported string
  | RefreshConflict "string list"

fun error_code :: "error \<Rightarrow> string" where
  "error_code (NotInitialized _) = ''not_initialized''"
| "error_code (InvalidInput _) = ''invalid_input''"
| "error_code (MissingObject _) = ''missing_object''"
| "error_code (CorruptObject _) = ''corrupt_object''"
| "error_code (WrongObjectKind _) = ''wrong_object_kind''"
| "error_code (ObjectTooLarge _ _ _) = ''object_too_large''"
| "error_code (MissingVersion _) = ''missing_version''"
| "error_code (CorruptRepository _) = ''corrupt_repository''"
| "error_code (UnsupportedFormat _) = ''unsupported_format''"
| "error_code (LayerPublished _ _) = ''layer_published''"
| "error_code MissingAgentTrace = ''missing_agent_trace''"
| "error_code (OperationIdReused _) = ''operation_id_reused''"
| "error_code (Storage _) = ''storage_error''"
| "error_code (Io _) = ''io_error''"
| "error_code (Busy _) = ''busy''"
| "error_code (Unsupported _) = ''unsupported''"
| "error_code (RefreshConflict _) = ''refresh_conflict''"

fun int_display :: "int \<Rightarrow> string" where
  "int_display i = (if i < 0 then ''-'' @ dec_str (nat (- i)) else dec_str (nat i))"

fun error_display :: "error \<Rightarrow> string" where
  "error_display (NotInitialized p) = ''repository is not initialized at '' @ p"
| "error_display (InvalidInput m) = ''invalid input: '' @ m"
| "error_display (MissingObject i) = ''missing object '' @ oid_display i"
| "error_display (CorruptObject i) = ''corrupt object '' @ oid_display i"
| "error_display (WrongObjectKind i) = ''object '' @ oid_display i @ '' has the wrong kind''"
| "error_display (ObjectTooLarge i sz limit) =
     ''object '' @ oid_display i @ '' has '' @ dec_str sz
     @ '' bytes, exceeding read limit '' @ dec_str limit"
| "error_display (MissingVersion v) =
     ''World version '' @ dec_str (unat v) @ '' does not exist''"
| "error_display (CorruptRepository m) = ''corrupt repository: '' @ m"
| "error_display (UnsupportedFormat n) = ''unsupported repository format '' @ int_display n"
| "error_display (LayerPublished layer operation) =
     ''Layer LayerId('' @ [CHR 0x22] @ layer @ [CHR 0x22]
     @ '') was published by operation '' @ operation"
| "error_display MissingAgentTrace =
     ''Agent publication requires a context Blob or explicit missing-trace override''"
| "error_display (OperationIdReused operation) =
     ''operation ID '' @ operation @ '' was already used with different input''"
| "error_display (Storage m) =
     ''storage error: '' @ m @ ''; if publication was attempted, reopen and retry the same operation ID and input''"
| "error_display (Io m) = ''filesystem error: '' @ m"
| "error_display (Busy m) = ''busy: '' @ m @ ''; nothing changed, retry after writers close''"
| "error_display (Unsupported m) = ''unsupported: '' @ m"
| "error_display (RefreshConflict ps) =
     ''local edits conflict with the head at '' @ join_str '', '' ps
     @ ''; nothing was changed. Resolve these paths, then refresh again''"

section \<open>Parsing IDs\<close>

definition is_digit :: "char \<Rightarrow> bool" where
  "is_digit c \<longleftrightarrow> u8_in c 48 57"

definition is_alnum :: "char \<Rightarrow> bool" where
  "is_alnum c \<longleftrightarrow> is_digit c \<or> u8_in c 65 90 \<or> u8_in c 97 122"

definition is_hex :: "char \<Rightarrow> bool" where
  "is_hex c \<longleftrightarrow> is_digit c \<or> u8_in c 97 102"

definition hex_val :: "char \<Rightarrow> nat" where
  "hex_val c = (if is_digit c then of_char c - 48 else of_char c - 87)"

fun hex_bytes :: "string \<Rightarrow> bytes" where
  "hex_bytes (a # b # s) = char_of (hex_val a * 16 + hex_val b) # hex_bytes s"
| "hex_bytes _ = []"

definition oid_parse :: "string \<Rightarrow> error + object_id" where
  "oid_parse value =
     (if length value \<noteq> 64 \<or> \<not> list_all is_hex value
      then Inl (InvalidInput ''object ID must be 64 lowercase hex digits'')
      else Inr (hex_bytes value))"

datatype object_kind = Blob | ManifestKind | Checkpoint | Tree

fun kind_byte :: "object_kind \<Rightarrow> byte" where
  "kind_byte Blob = CHR 0x01"
| "kind_byte ManifestKind = CHR 0x02"
| "kind_byte Checkpoint = CHR 0x03"
| "kind_byte Tree = CHR 0x04"

definition kind_decode :: "int \<Rightarrow> error + object_kind" where
  "kind_decode k =
     (if k = 1 then Inr Blob else if k = 2 then Inr ManifestKind
      else if k = 3 then Inr Checkpoint else if k = 4 then Inr Tree
      else Inl (CorruptRepository ''unknown object kind''))"

text \<open>\<open>ObjectId::hash\<close>; \<open>sha\<close> is SHA-256 of the bytes fed to it.\<close>

definition object_hash :: "(bytes \<Rightarrow> bytes) \<Rightarrow> object_kind \<Rightarrow> bytes \<Rightarrow> object_id" where
  "object_hash sha kind bs = sha (''javelin-object-v1'' @ [CHR 0x00] @ [kind_byte kind] @ bs)"

section \<open>Version numbers, paths and operation IDs\<close>

definition version_new :: "64 word \<Rightarrow> error + 64 word" where
  "version_new value =
     (if value > 9223372036854775807
      then Inl (InvalidInput ''World version exceeds storage range'') else Inr value)"

definition version_ok :: "64 word \<Rightarrow> bool" where
  "version_ok v \<longleftrightarrow> v \<le> 9223372036854775807"

text \<open>\<open>as i64\<close> reinterprets the word; \<open>decode\<close> takes an \<open>i64\<close>.\<close>

definition version_sql :: "64 word \<Rightarrow> int" where
  "version_sql v = sint v"

definition version_decode :: "int \<Rightarrow> error + 64 word" where
  "version_decode value =
     (if value < 0 then Inl (CorruptRepository ''negative World version'')
      else Inr (word_of_int value))"

definition MAX_PATH :: nat where "MAX_PATH = 4096"
definition MAX_DEPTH :: nat where "MAX_DEPTH = 256"

definition ascii_lower :: "char \<Rightarrow> char" where
  "ascii_lower c = (if u8_in c 65 90 then char_of (of_char c + 32 :: nat) else c)"

definition eq_ignore_case :: "string \<Rightarrow> string \<Rightarrow> bool" where
  "eq_ignore_case a b \<longleftrightarrow> map ascii_lower a = map ascii_lower b"

definition valid_name :: "string \<Rightarrow> bool" where
  "valid_name name \<longleftrightarrow>
     name \<noteq> [] \<and> name \<noteq> ''.'' \<and> name \<noteq> ''..'' \<and> \<not> eq_ignore_case name ''.javelin''
     \<and> list_all (\<lambda>c. c \<notin> {CHR 0x5C, CHR '':'', CHR 0x00, CHR ''/''}) name"

definition path_ok :: "string \<Rightarrow> bool" where
  "path_ok value \<longleftrightarrow>
     \<not> (value = [] \<or> length value > MAX_PATH
        \<or> length (split_on CHR ''/'' value) > MAX_DEPTH
        \<or> \<not> list_all valid_name (split_on CHR ''/'' value))"

definition path_parse :: "string \<Rightarrow> error + string" where
  "path_parse value =
     (if path_ok value then Inr value
      else Inl (InvalidInput ''invalid repository-relative path''))"

text \<open>\<open>match_indices('/')\<close>, and the proper ancestors of a path, nearest last.\<close>

fun slash_indices :: "string \<Rightarrow> nat list" where
  "slash_indices [] = []"
| "slash_indices (c # s) =
     (if c = CHR ''/'' then [0] else []) @ map Suc (slash_indices s)"

definition ancestors :: "string \<Rightarrow> string list" where
  "ancestors p = map (\<lambda>i. take i p) (slash_indices p)"

definition descendant_range :: "string \<Rightarrow> string \<times> string" where
  "descendant_range p = (p @ ''/'', p @ ''0'')"

definition op_char :: "char \<Rightarrow> bool" where
  "op_char c \<longleftrightarrow> is_alnum c \<or> c \<in> {CHR ''-'', CHR ''_'', CHR ''.''}"

definition operation_ok :: "string \<Rightarrow> bool" where
  "operation_ok value \<longleftrightarrow>
     \<not> (value = [] \<or> length value > 128 \<or> \<not> list_all op_char value)"

definition operation_parse :: "string \<Rightarrow> error + string" where
  "operation_parse value =
     (if operation_ok value then Inr value
      else Inl (InvalidInput
         (''operation ID must contain 1..128 ASCII letters, digits, '-', '_' or '.'' @ [CHR 0x27])))"

section \<open>Round trips and path facts\<close>

lemma is_hex_digit: "n < 16 \<Longrightarrow> is_hex (hex_digit n)"
  by (auto simp: is_hex_def is_digit_def hex_digit_def u8_in_def)

lemma hex_val_digit: "n < 16 \<Longrightarrow> hex_val (hex_digit n) = n"
  by (auto simp: hex_val_def is_digit_def hex_digit_def u8_in_def)

lemma hex_val_less: "is_hex c \<Longrightarrow> hex_val c < 16"
  by (auto simp: is_hex_def is_digit_def hex_val_def u8_in_def)

lemma hex_digit_val: "is_hex c \<Longrightarrow> hex_digit (hex_val c) = c"
  by (auto simp: is_hex_def is_digit_def hex_val_def hex_digit_def u8_in_def)

lemma length_oid_display: "length (oid_display i) = 2 * length i"
  by (induction i) (auto simp: oid_display_def hex_byte_def)

lemma hex_bytes_display: "hex_bytes (oid_display i) = i"
proof (induction i)
  case (Cons b i)
  have "of_char b div 16 < (16::nat)" using of_char_less_256 [of b] by linarith
  then show ?case using Cons by (simp add: oid_display_def hex_byte_def hex_val_digit)
qed (simp add: oid_display_def)

lemma all_hex_display: "list_all is_hex (oid_display i)"
proof (induction i)
  case (Cons b i)
  have "of_char b div 16 < (16::nat)" using of_char_less_256 [of b] by linarith
  then show ?case using Cons by (simp add: oid_display_def hex_byte_def is_hex_digit)
qed (simp add: oid_display_def)

lemma display_hex_bytes:
  "even (length s) \<Longrightarrow> list_all is_hex s \<Longrightarrow>
   oid_display (hex_bytes s) = s \<and> 2 * length (hex_bytes s) = length s"
proof (induction s rule: hex_bytes.induct)
  case (1 a b s)
  then have ab: "is_hex a" "is_hex b" by auto
  have bound: "hex_val a * 16 + hex_val b < 256"
    using hex_val_less [OF ab(1)] hex_val_less [OF ab(2)] by linarith
  have "hex_byte (char_of (hex_val a * 16 + hex_val b)) = [a, b]"
    using bound hex_val_less [OF ab(2)] hex_digit_val ab by (simp add: hex_byte_def)
  with 1 show ?case by (simp add: oid_display_def)
qed (auto simp: oid_display_def)

definition below :: "string \<Rightarrow> string \<Rightarrow> bool" where
  "below p q \<longleftrightarrow> prefix (p @ ''/'') q"

lemma below_iff: "below p q \<longleftrightarrow> (\<exists>r. q = p @ ''/'' @ r)"
  by (auto simp: below_def prefix_def)

lemma below_irrefl [simp]: "\<not> below p p"
  by (auto simp: below_iff)

lemma below_trans: "below p q \<Longrightarrow> below q r \<Longrightarrow> below p r"
  by (auto simp: below_iff)

lemma set_slash_indices: "i \<in> set (slash_indices p) \<longleftrightarrow> i < length p \<and> p ! i = CHR ''/''"
proof (induction p arbitrary: i)
  case (Cons c p)
  then show ?case by (cases i) auto
qed simp

lemma set_ancestors: "a \<in> set (ancestors q) \<longleftrightarrow> below a q"
proof
  assume "a \<in> set (ancestors q)"
  then obtain i where "i < length q" "q ! i = CHR ''/''" "a = take i q"
    by (auto simp: ancestors_def set_slash_indices)
  then have "q = a @ ''/'' @ drop (Suc i) q"
    by (metis append_Cons append_Nil id_take_nth_drop)
  then show "below a q" by (auto simp: below_iff)
next
  assume "below a q"
  then obtain r where "q = a @ ''/'' @ r" by (auto simp: below_iff)
  then show "a \<in> set (ancestors q)"
    by (auto simp: ancestors_def set_slash_indices intro!: image_eqI [of _ _ "length a"])
qed

lemma lex_descendants: "p @ ''/'' \<le> q \<and> q < p @ ''0'' \<longleftrightarrow> below p q"
proof (induction p arbitrary: q)
  case Nil
  show ?case
  proof (cases q)
    case (Cons c r)
    have "CHR ''/'' \<le> c \<and> c < CHR ''0'' \<longleftrightarrow> c = CHR ''/''"
      by (auto simp: less_eq_char_def less_char_def simp flip: of_char_eq_iff [where 'a = nat])
    then show ?thesis
      by (auto simp: Cons below_iff)
  qed (simp add: below_iff)
next
  case (Cons a p)
  show ?case
  proof (cases q)
    case (Cons b r)
    have "below (a # p) (b # r) \<longleftrightarrow> a = b \<and> below p r"
      by (auto simp: below_iff)
    then show ?thesis using Cons.IH [of r] Cons by auto
  qed (simp add: below_iff)
qed

lemma path_ok_split:
  "path_ok p \<longleftrightarrow> length p \<le> MAX_PATH \<and> length (split_on CHR ''/'' p) \<le> MAX_DEPTH
     \<and> list_all valid_name (split_on CHR ''/'' p)"
proof -
  have "\<not> list_all valid_name (split_on CHR ''/'' [])" by (simp add: valid_name_def)
  then show ?thesis by (cases "p = []") (auto simp: path_ok_def)
qed

lemma path_ok_below: "path_ok q \<Longrightarrow> below a q \<Longrightarrow> path_ok a"
  by (auto simp: path_ok_split below_iff split_on_append_sep)

section \<open>File entries, manifests and changesets\<close>

text \<open>\<open>FileEntry\<close>, with the derived order of its variants and fields.\<close>

datatype file_entry = Regular (fe_content: object_id) (fe_executable: bool) | Symlink (fe_target: object_id)

fun entry_content :: "file_entry \<Rightarrow> object_id" where
  "entry_content (Regular content _) = content"
| "entry_content (Symlink target) = target"

fun entry_rank :: "file_entry \<Rightarrow> nat \<times> object_id \<times> bool" where
  "entry_rank (Regular c x) = (0, c, x)"
| "entry_rank (Symlink t) = (1, t, False)"

instantiation file_entry :: linorder
begin

definition less_eq_file_entry :: "file_entry \<Rightarrow> file_entry \<Rightarrow> bool" where
  "less_eq_file_entry a b \<longleftrightarrow>
     (case (entry_rank a, entry_rank b) of ((v, c, x), (w, d, y)) \<Rightarrow>
        v < w \<or> v = w \<and> (c < d \<or> c = d \<and> x \<le> y))"

definition less_file_entry :: "file_entry \<Rightarrow> file_entry \<Rightarrow> bool" where
  "less_file_entry a b \<longleftrightarrow> a \<le> b \<and> \<not> b \<le> a"

instance
proof
  fix a b c :: file_entry
  show "a < b \<longleftrightarrow> a \<le> b \<and> \<not> b \<le> a" by (rule less_file_entry_def)
  show "a \<le> a" by (simp add: less_eq_file_entry_def split: prod.splits)
  show "a \<le> b \<Longrightarrow> b \<le> c \<Longrightarrow> a \<le> c"
    by (auto simp: less_eq_file_entry_def split: prod.splits)
  show "a \<le> b \<Longrightarrow> b \<le> a \<Longrightarrow> a = b"
    by (cases a; cases b) (auto simp: less_eq_file_entry_def)
  show "a \<le> b \<or> b \<le> a"
    by (auto simp: less_eq_file_entry_def split: prod.splits)
qed

end

text \<open>\<open>Choice\<close>: how an owner resolves one conflicting path.\<close>

datatype choice = Ours | Theirs | Content bytes "bool option"

type_synonym manifest = "(string, file_entry) omap"
type_synonym changes = "(string, file_entry option) omap"

text \<open>\<open>entry(key).or_default().push(x)\<close>.\<close>

definition omap_push :: "'k::linorder \<Rightarrow> 'v \<Rightarrow> ('k, 'v list) omap \<Rightarrow> ('k, 'v list) omap" where
  "omap_push k x m =
     omap_insert k ((case map_of m k of None \<Rightarrow> [] | Some xs \<Rightarrow> xs) @ [x]) m"

text \<open>\<open>Manifest::renames_to\<close>: the paths of one side that the other lacks, grouped by entry.\<close>

definition only_in :: "manifest \<Rightarrow> manifest \<Rightarrow> (file_entry, string list) omap" where
  "only_in a b =
     fold (\<lambda>(path, entry) groups.
       if omap_has b path then groups else omap_push entry path groups) a []"

definition renames_to :: "manifest \<Rightarrow> manifest \<Rightarrow> (string, string) omap" where
  "renames_to self later =
     (let removed = only_in self later; added = only_in later self in
      fold (\<lambda>(entry, origins) renames.
        case (origins, map_of added entry) of
          ([from], Some [to]) \<Rightarrow> omap_insert from to renames
        | _ \<Rightarrow> renames) removed [])"

text \<open>Inserting entries one by one, refusing a path given twice.\<close>

fun collect_unique :: "string \<Rightarrow> (string \<times> 'a) list \<Rightarrow> (string, 'a) omap \<Rightarrow> error + (string, 'a) omap" where
  "collect_unique msg [] m = Inr m"
| "collect_unique msg ((k, v) # xs) m =
     (if omap_has m k then Inl (InvalidInput msg) else collect_unique msg xs (omap_insert k v m))"

definition manifest_new :: "(string \<times> file_entry) list \<Rightarrow> error + manifest" where
  "manifest_new entries =
     ebind (collect_unique ''duplicate manifest path'' entries []) (\<lambda>m.
       if list_ex (\<lambda>path. list_ex (omap_has m) (ancestors path)) (map fst m)
       then Inl (InvalidInput ''file and descendant paths collide'') else Inr m)"

definition changes_new :: "(string \<times> file_entry option) list \<Rightarrow> error + changes" where
  "changes_new entries = collect_unique ''duplicate changed path'' entries []"

text \<open>\<open>SparseChanges::apply\<close>: the child snapshot.\<close>

definition changes_apply :: "changes \<Rightarrow> manifest \<Rightarrow> manifest" where
  "changes_apply changes entries =
     fold (\<lambda>(path, after) m.
       case after of Some entry \<Rightarrow> omap_insert path entry m | None \<Rightarrow> omap_remove path m)
       changes entries"

text \<open>
  Canonical bytes: \<open>json\<close> is \<open>serde_json::to_vec\<close> of the map, \<open>unjson\<close> is \<open>from_slice\<close>, whose
  errors are their text.
\<close>

definition changes_from_bytes ::
  "(changes \<Rightarrow> bytes) \<Rightarrow> (bytes \<Rightarrow> string + (string \<times> file_entry option) list) \<Rightarrow>
   bytes \<Rightarrow> error + changes" where
  "changes_from_bytes json unjson bs =
     ebind (emap_err (\<lambda>e. InvalidInput (''invalid changes encoding: '' @ e)) (unjson bs)) (\<lambda>encoded.
     ebind (emap (\<lambda>(path, entry). ebind (path_parse path) (\<lambda>p. Inr (p, entry))) encoded) (\<lambda>entries.
     ebind (changes_new entries) (\<lambda>changes.
       if json changes \<noteq> bs then Inl (InvalidInput ''noncanonical changes encoding'')
       else Inr changes)))"

definition manifest_decode ::
  "(manifest \<Rightarrow> bytes) \<Rightarrow> (bytes \<Rightarrow> string + (string \<times> file_entry) list) \<Rightarrow>
   bytes \<Rightarrow> error + manifest" where
  "manifest_decode json unjson bs =
     ebind (emap_err (\<lambda>e. CorruptRepository (''invalid manifest encoding: '' @ e)) (unjson bs)) (\<lambda>encoded.
     ebind (emap (\<lambda>(path, entry). ebind (path_parse path) (\<lambda>p. Inr (p, entry))) encoded) (\<lambda>entries.
     ebind (manifest_new entries) (\<lambda>manifest.
       if json manifest \<noteq> bs then Inl (CorruptRepository ''noncanonical manifest encoding'')
       else Inr manifest)))"

section \<open>Version identity\<close>

text \<open>\<open>VersionHasher\<close>: the bytes fed so far. SHA-256 of a stream is that of the whole.\<close>

record version_hasher =
  vh_fed :: bytes

definition hasher_new :: "object_id option \<Rightarrow> object_id \<Rightarrow> version_hasher" where
  "hasher_new parent tree =
     \<lparr>vh_fed = ''javelin-version-v2'' @ [CHR 0x00]
        @ (case parent of None \<Rightarrow> replicate 32 CHR 0x00 | Some p \<Rightarrow> p) @ tree\<rparr>"

definition hasher_update :: "bytes \<Rightarrow> version_hasher \<Rightarrow> version_hasher" where
  "hasher_update bs h = h\<lparr>vh_fed := vh_fed h @ bs\<rparr>"

definition hasher_finish :: "(bytes \<Rightarrow> bytes) \<Rightarrow> version_hasher \<Rightarrow> object_id" where
  "hasher_finish sha h = sha (vh_fed h)"

definition version_id ::
  "(bytes \<Rightarrow> bytes) \<Rightarrow> (changes \<Rightarrow> bytes) \<Rightarrow> object_id option \<Rightarrow> object_id \<Rightarrow> changes \<Rightarrow> object_id" where
  "version_id sha json parent tree changes =
     hasher_finish sha (hasher_update (json changes) (hasher_new parent tree))"

definition genesis_version_id :: "(bytes \<Rightarrow> bytes) \<Rightarrow> (changes \<Rightarrow> bytes) \<Rightarrow> object_id" where
  "genesis_version_id sha json =
     version_id sha json None (object_hash sha Tree [CHR 0x00]) []"

section \<open>Facts on manifests and changesets\<close>

definition manifest_ok :: "manifest \<Rightarrow> bool" where
  "manifest_ok m \<longleftrightarrow> omap_ok m \<and> (\<forall>q \<in> set (map fst m). \<forall>p \<in> set (map fst m). \<not> below p q)"

lemma collect_unique_Inr:
  "collect_unique msg xs m = Inr r \<Longrightarrow> omap_ok m \<Longrightarrow>
   omap_ok r \<and> map_of r = map_of m ++ map_of xs \<and> distinct (map fst xs)
   \<and> fst ` set xs \<inter> fst ` set m = {}"
proof (induction msg xs m rule: collect_unique.induct)
  case (2 msg k v xs m)
  then have k: "k \<notin> fst ` set m" and r: "collect_unique msg xs (omap_insert k v m) = Inr r"
    by (auto simp: omap_has_iff split: if_splits)
  from 2 k r have ih: "omap_ok r" "map_of r = map_of (omap_insert k v m) ++ map_of xs"
      "distinct (map fst xs)" "fst ` set xs \<inter> fst ` set (omap_insert k v m) = {}"
    by (auto simp: omap_has_iff)
  then have "k \<notin> fst ` set xs" by simp
  then have "map_of r = map_of m ++ map_of ((k, v) # xs)"
    using ih(2) 2(3) by (auto simp: omap_simps fun_eq_iff map_add_def map_of_eq_None_iff split: option.splits)
  moreover have "distinct (map fst ((k, v) # xs))" "fst ` set ((k, v) # xs) \<inter> fst ` set m = {}"
    using ih k \<open>k \<notin> fst ` set xs\<close> by auto
  ultimately show ?case using ih(1) by blast
qed simp

lemma collect_unique_distinct:
  "distinct (map fst xs) \<Longrightarrow> fst ` set xs \<inter> fst ` set m = {} \<Longrightarrow>
   \<exists>r. collect_unique msg xs m = Inr r"
  by (induction msg xs m rule: collect_unique.induct) (auto simp: omap_has_iff)

lemma collect_unique_omap: "omap_ok xs \<Longrightarrow> collect_unique msg xs [] = Inr xs"
  using collect_unique_distinct [of xs "[]" msg] collect_unique_Inr [of msg xs "[]"]
  by (fastforce dest: omap_okD_distinct intro: omap_extI)

lemma changes_apply_fold:
  "omap_ok c \<Longrightarrow> omap_ok m \<Longrightarrow>
   omap_ok (changes_apply c m) \<and>
   map_of (changes_apply c m) p = (case map_of c p of None \<Rightarrow> map_of m p | Some after \<Rightarrow> after)"
  unfolding changes_apply_def
proof (induction c arbitrary: m)
  case (Cons a c)
  obtain k after where a: "a = (k, after)" by force
  with Cons.prems have "map_of c k = None" by (auto simp: map_of_eq_None_iff)
  with Cons show ?case
    by (cases after; cases "p = k") (auto simp: a omap_simps split: option.splits)
qed simp

lemma changes_apply_ok: "omap_ok c \<Longrightarrow> omap_ok m \<Longrightarrow> omap_ok (changes_apply c m)"
  using changes_apply_fold by blast

lemma map_of_changes_apply [omap_simps]:
  "omap_ok c \<Longrightarrow> omap_ok m \<Longrightarrow>
   map_of (changes_apply c m) p = (case map_of c p of None \<Rightarrow> map_of m p | Some after \<Rightarrow> after)"
  using changes_apply_fold by blast

definition group_at :: "('k::linorder, 'v list) omap \<Rightarrow> 'k \<Rightarrow> 'v list" where
  "group_at m k = (case map_of m k of None \<Rightarrow> [] | Some xs \<Rightarrow> xs)"

definition groups_ok :: "('k::linorder, 'v list) omap \<Rightarrow> bool" where
  "groups_ok m \<longleftrightarrow> omap_ok m \<and> (\<forall>k. map_of m k \<noteq> Some [])"

lemma omap_push_group:
  "groups_ok m \<Longrightarrow> groups_ok (omap_push k x m) \<and>
   group_at (omap_push k x m) k' = group_at m k' @ (if k' = k then [x] else [])"
  by (auto simp: groups_ok_def omap_push_def omap_simps group_at_def)

lemma group_at_Some: "groups_ok m \<Longrightarrow> map_of m k = Some xs \<longleftrightarrow> xs \<noteq> [] \<and> group_at m k = xs"
  by (auto simp: groups_ok_def group_at_def split: option.splits)

lemma fold_push_groups:
  "groups_ok g \<Longrightarrow>
   groups_ok (fold (\<lambda>(path, entry) groups. if P path then groups else omap_push entry path groups) a g)
   \<and> group_at (fold (\<lambda>(path, entry) groups. if P path then groups else omap_push entry path groups) a g) e
       = group_at g e @ map fst (filter (\<lambda>(path, entry). entry = e \<and> \<not> P path) a)"
proof (induction a arbitrary: g)
  case (Cons x a)
  then show ?case using omap_push_group [of g] by (cases x) auto
qed simp

lemma only_in_groups:
  "groups_ok (only_in a b) \<and>
   group_at (only_in a b) e = map fst (filter (\<lambda>(path, entry). entry = e \<and> \<not> omap_has b path) a)"
  using fold_push_groups [of "[]" "omap_has b" a e]
  by (simp add: only_in_def groups_ok_def group_at_def)

lemma distinct_set_singleton: "distinct xs \<Longrightarrow> set xs = {x} \<Longrightarrow> xs = [x]"
  by (cases xs; cases "tl xs") auto

lemma only_in_singleton:
  assumes "omap_ok a"
  shows "map_of (only_in a b) e = Some [p] \<longleftrightarrow>
    map_of a p = Some e \<and> map_of b p = None \<and>
    (\<forall>q. map_of a q = Some e \<longrightarrow> map_of b q = None \<longrightarrow> q = p)" (is "?l \<longleftrightarrow> ?r")
proof -
  let ?f = "filter (\<lambda>(path, entry). entry = e \<and> \<not> omap_has b path) a"
  have f: "(q, e') \<in> set ?f \<longleftrightarrow> map_of a q = Some e \<and> e' = e \<and> map_of b q = None" for q e'
    using assms by (auto simp: omap_map_of_iff omap_has_def)
  have d: "distinct (map fst ?f)"
    using assms omap_filter_ok omap_okD_distinct by blast
  have "?l \<longleftrightarrow> map fst ?f = [p]"
    using only_in_groups [of a b e] group_at_Some [of "only_in a b" e "[p]"] by (simp only:) blast
  also have "\<dots> \<longleftrightarrow> set (map fst ?f) = {p}"
    using d distinct_set_singleton by (metis list.set(1) list.set(2))
  also have "\<dots> \<longleftrightarrow> ?r"
  proof -
    have "set (map fst ?f) = {q. map_of a q = Some e \<and> map_of b q = None}"
      unfolding set_eq_iff list.set_map in_fst_image f mem_Collect_eq by simp
    then have "set (map fst ?f) = {p} \<longleftrightarrow> (\<forall>q. (map_of a q = Some e \<and> map_of b q = None) = (q = p))"
      by (simp only: set_eq_iff mem_Collect_eq singleton_iff)
    then show ?thesis by metis
  qed
  finally show ?thesis .
qed

lemma only_in_ok: "omap_ok (only_in a b)"
  using only_in_groups [of a b] by (auto simp: groups_ok_def)

text \<open>The fold over the removed groups: origins of different entries differ.\<close>

definition rename_pair :: "(file_entry, string list) omap \<Rightarrow> file_entry \<times> string list \<Rightarrow> (string \<times> string) option" where
  "rename_pair added g =
     (case (snd g, map_of added (fst g)) of ([from], Some [to]) \<Rightarrow> Some (from, to) | _ \<Rightarrow> None)"

lemma rename_pair_Some:
  "rename_pair added (e, origins) = Some (from, to) \<longleftrightarrow>
   origins = [from] \<and> map_of added e = Some [to]"
  by (auto simp: rename_pair_def split: list.splits option.splits)

lemma renames_to_omap_of:
  "renames_to a b = omap_of (List.map_filter (rename_pair (only_in b a)) (only_in a b))"
proof -
  have "fold (\<lambda>(entry, origins) renames.
          case (origins, map_of added entry) of ([from], Some [to]) \<Rightarrow> omap_insert from to renames
          | _ \<Rightarrow> renames) gs m
      = fold (\<lambda>(k, v) m. omap_insert k v m) (List.map_filter (rename_pair added) gs) m" for added gs m
    by (induction gs arbitrary: m)
       (auto simp: rename_pair_def List.map_filter_simps split: list.splits option.splits)
  then show ?thesis by (simp add: renames_to_def omap_of_def)
qed

lemma renames_to_ok: "omap_ok (renames_to a b)"
  by (simp add: renames_to_omap_of)

lemma renames_to_lookup:
  assumes "omap_ok a" "omap_ok b"
  shows "map_of (renames_to a b) from = Some to \<longleftrightarrow>
    (\<exists>e. map_of (only_in a b) e = Some [from] \<and> map_of (only_in b a) e = Some [to])"
proof -
  let ?ps = "List.map_filter (rename_pair (only_in b a)) (only_in a b)"
  have mem: "(x, y) \<in> set ?ps \<longleftrightarrow>
      (\<exists>e. map_of (only_in a b) e = Some [x] \<and> map_of (only_in b a) e = Some [y])" for x y
    using omap_map_of_iff [OF only_in_ok]
    by (auto simp: set_map_filter Bex_def rename_pair_Some)
  have "y = z" if y: "(x, y) \<in> set (rev ?ps)" and z: "(x, z) \<in> set (rev ?ps)" for x y z
  proof -
    from y z obtain e e' where e: "map_of (only_in a b) e = Some [x]" "map_of (only_in b a) e = Some [y]"
        and e': "map_of (only_in a b) e' = Some [x]" "map_of (only_in b a) e' = Some [z]"
      unfolding set_rev mem by blast
    have "map_of a x = Some e" "map_of a x = Some e'"
      using e(1) e'(1) by (simp_all only: only_in_singleton [OF assms(1)])
    with e(2) e'(2) show ?thesis by simp
  qed
  then have "map_of (rev ?ps) from = Some to \<longleftrightarrow> (from, to) \<in> set (rev ?ps)"
    by (rule map_of_functional)
  then show ?thesis
    unfolding renames_to_omap_of map_of_omap_of set_rev mem .
qed

lemma emap_path_entries:
  "emap (\<lambda>(path, entry). ebind (path_parse path) (\<lambda>p. Inr (p, entry))) xs = Inr ys \<longleftrightarrow>
   ys = xs \<and> (\<forall>p \<in> fst ` set xs. path_ok p)"
  by (induction xs arbitrary: ys) (auto simp: result_simps path_parse_def split: if_splits)

text \<open>The bytes that the version hash covers determine parent, root and changeset.\<close>

lemma hasher_fed_inj:
  assumes "vh_fed (hasher_update b (hasher_new (Some p) t)) = vh_fed (hasher_update c (hasher_new (Some q) u))"
    and "oid_ok p" "oid_ok q" "oid_ok t" "oid_ok u"
  shows "p = q \<and> t = u \<and> b = c"
  using assms by (simp add: hasher_update_def hasher_new_def oid_ok_def)

lemma fold_hasher_update:
  "vh_fed (fold hasher_update parts h) = vh_fed h @ concat parts"
  by (induction parts arbitrary: h) (auto simp: hasher_update_def)

text \<open>
  The identity of the newest version of a history, newest first, over World 0. It is the parent
  link that each accepted version adds.
\<close>

fun chain_id ::
  "(bytes \<Rightarrow> bytes) \<Rightarrow> (changes \<Rightarrow> bytes) \<Rightarrow> (object_id \<times> changes) list \<Rightarrow> object_id" where
  "chain_id sha json [] = genesis_version_id sha json"
| "chain_id sha json ((tree, c) # older) =
     version_id sha json (Some (chain_id sha json older)) tree c"

text \<open>The bytes hashed along a history.\<close>

fun chain_inputs ::
  "(bytes \<Rightarrow> bytes) \<Rightarrow> (changes \<Rightarrow> bytes) \<Rightarrow> (object_id \<times> changes) list \<Rightarrow> bytes set" where
  "chain_inputs sha json [] = {}"
| "chain_inputs sha json ((tree, c) # older) =
     insert (vh_fed (hasher_update (json c) (hasher_new (Some (chain_id sha json older)) tree)))
       (chain_inputs sha json older)"

lemma chain_id_ok: "(\<And>x. length (sha x) = 32) \<Longrightarrow> oid_ok (chain_id sha json vs)"
  by (cases vs rule: list.exhaust)
     (auto simp: oid_ok_def genesis_version_id_def version_id_def hasher_finish_def)

section \<open>Properties\<close>

text \<open>\<open>ObjectId::parse\<close> accepts exactly the text that \<open>Display\<close> prints for a 32-byte ID, and
  reads back that ID: parsing and printing are inverse, and one ID has one text.\<close>

theorem object_id_roundtrip: "oid_parse s = Inr i \<longleftrightarrow> oid_ok i \<and> oid_display i = s"
proof
  assume "oid_parse s = Inr i"
  then show "oid_ok i \<and> oid_display i = s"
    using display_hex_bytes [of s] by (auto simp: oid_parse_def oid_ok_def split: if_splits)
next
  assume "oid_ok i \<and> oid_display i = s"
  then show "oid_parse s = Inr i"
    using length_oid_display [of i] all_hex_display [of i] hex_bytes_display [of i]
    by (auto simp: oid_parse_def oid_ok_def)
qed

text \<open>the half-open text range \<open>descendant_range\<close> that every store scan uses holds exactly the
  paths strictly below a path, in Rust's byte order: a path lies in it just when the directory is one of
  its ancestors.\<close>

theorem descendant_range_exact:
  "fst (descendant_range p) \<le> q \<and> q < snd (descendant_range p) \<longleftrightarrow> p \<in> set (ancestors q)"
  using lex_descendants [of p q] by (simp add: descendant_range_def set_ancestors)

text \<open>every proper ancestor of a valid repository path is itself a valid path, so the merge
  engine's \<open>expect("prefix of a valid path")\<close> never fires and prefixes need no second check.\<close>

theorem ancestors_of_valid_path_parse:
  assumes "path_parse q = Inr r" and "a \<in> set (ancestors q)"
  shows "path_parse a = Inr a"
  using assms path_ok_below by (auto simp: path_parse_def set_ancestors split: if_splits)

theorem ancestors_of_valid_path_parse_witness:
  "path_parse ''src/a'' = Inr ''src/a'' \<and> ''src'' \<in> set (ancestors ''src/a'')
   \<and> path_parse ''src'' = Inr ''src''"
proof -
  have h: "path_parse ''src/a'' = Inr ''src/a''" "''src'' \<in> set (ancestors ''src/a'')"
    by code_simp+
  with ancestors_of_valid_path_parse [OF h] show ?thesis by blast
qed

text \<open>\<open>Manifest::new\<close> accepts a list of entries exactly when no path is given twice and no path is
  a directory of another; the manifest then holds exactly the given entries.\<close>

theorem manifest_new_exact:
  "manifest_new es = Inr m \<longleftrightarrow> distinct (map fst es) \<and> manifest_ok m \<and> map_of m = map_of es"
proof
  assume new: "manifest_new es = Inr m"
  then have u: "collect_unique ''duplicate manifest path'' es [] = Inr m"
    and free: "\<not> list_ex (\<lambda>path. list_ex (omap_has m) (ancestors path)) (map fst m)"
    by (auto simp: manifest_new_def result_simps split: if_splits)
  have "\<forall>q \<in> set (map fst m). \<forall>p \<in> set (map fst m). \<not> below p q"
    using free by (fastforce simp: list_ex_iff omap_has_iff set_ancestors)
  with collect_unique_Inr [OF u] show "distinct (map fst es) \<and> manifest_ok m \<and> map_of m = map_of es"
    by (simp add: manifest_ok_def)
next
  assume r: "distinct (map fst es) \<and> manifest_ok m \<and> map_of m = map_of es"
  then obtain r where u: "collect_unique ''duplicate manifest path'' es [] = Inr r"
    using collect_unique_distinct [of es "[]"] by auto
  then have "r = m"
    using r collect_unique_Inr [OF u] by (intro omap_extI) (auto simp: manifest_ok_def)
  moreover have "\<not> list_ex (\<lambda>path. list_ex (omap_has m) (ancestors path)) (map fst m)"
    using r by (fastforce simp: list_ex_iff omap_has_iff set_ancestors manifest_ok_def)
  ultimately show "manifest_new es = Inr m"
    using u by (simp add: manifest_new_def)
qed

text \<open>a rename that \<open>Manifest::renames_to\<close> reports is exactly a path the later manifest drops and
  a path it adds with the same entry, each the only one of its side with that entry; every such pair is
  reported.\<close>

theorem renames_to_exact:
  assumes "manifest_ok a" and "manifest_ok b"
  shows "map_of (renames_to a b) from = Some to \<longleftrightarrow>
    (\<exists>e. map_of a from = Some e \<and> map_of b from = None \<and> map_of b to = Some e \<and> map_of a to = None
       \<and> (\<forall>p. map_of a p = Some e \<longrightarrow> map_of b p = None \<longrightarrow> p = from)
       \<and> (\<forall>p. map_of b p = Some e \<longrightarrow> map_of a p = None \<longrightarrow> p = to))"
proof -
  have ok: "omap_ok a" "omap_ok b" using assms by (auto simp: manifest_ok_def)
  show ?thesis
    unfolding renames_to_lookup [OF ok] only_in_singleton [OF ok(1)] only_in_singleton [OF ok(2)]
    by blast
qed

theorem renames_to_exact_witness:
  "map_of (renames_to [(''a'', Symlink ''x''), (''c'', Symlink ''y'')]
                      [(''c'', Symlink ''y''), (''d'', Symlink ''x'')]) ''a'' = Some ''d''"
proof -
  let ?a = "[(''a'', Symlink ''x''), (''c'', Symlink ''y'')]"
  let ?b = "[(''c'', Symlink ''y''), (''d'', Symlink ''x'')]"
  have ok: "manifest_ok ?a" "manifest_ok ?b"
    by (auto simp: manifest_ok_def below_iff)
  show ?thesis
    by (subst renames_to_exact [OF ok]) (auto split: if_splits)
qed

text \<open>decoding canonical changeset bytes. Whatever the JSON library does, accepted bytes are the
  canonical encoding of the result, so one changeset has one byte form; and if the library reads back
  what it wrote, every valid changeset's encoding is accepted and decodes to it.\<close>

theorem changes_bytes_canonical:
  assumes "omap_ok c \<Longrightarrow> unjson (json c) = Inr c" and "\<And>e. unjson bs = Inr e \<Longrightarrow> omap_ok e"
  shows "changes_from_bytes json unjson bs = Inr c \<longleftrightarrow>
    bs = json c \<and> omap_ok c \<and> (\<forall>p \<in> fst ` set c. path_ok p)"
proof
  assume "changes_from_bytes json unjson bs = Inr c"
  then obtain e where e: "unjson bs = Inr e" "\<forall>p \<in> fst ` set e. path_ok p" "changes_new e = Inr c" "json c = bs"
    by (auto simp: changes_from_bytes_def result_simps emap_path_entries split: if_splits)
  moreover have "c = e"
    using e(3) collect_unique_omap [OF assms(2) [OF e(1)]] by (simp add: changes_new_def)
  ultimately show "bs = json c \<and> omap_ok c \<and> (\<forall>p \<in> fst ` set c. path_ok p)"
    using assms(2) by auto
next
  assume r: "bs = json c \<and> omap_ok c \<and> (\<forall>p \<in> fst ` set c. path_ok p)"
  have "emap (\<lambda>(path, entry). ebind (path_parse path) (\<lambda>p. Inr (p, entry))) c = Inr c"
    using r by (simp add: emap_path_entries)
  then show "changes_from_bytes json unjson bs = Inr c"
    using r assms(1) collect_unique_omap [of c] by (simp add: changes_from_bytes_def changes_new_def)
qed

theorem changes_bytes_canonical_witness:
  "changes_from_bytes (\<lambda>_. ''tombstone'') (\<lambda>_. Inr [(''a'', None)]) ''tombstone'' = Inr [(''a'', None)]"
proof -
  have "path_ok ''a''" by code_simp
  then show ?thesis
    by (subst changes_bytes_canonical) auto
qed

text \<open>\<open>SparseChanges::apply\<close> gives each changed path its new entry, removes each deleted one, and
  leaves every other path as it was.\<close>

theorem changes_apply_lookup:
  assumes "omap_ok c" and "omap_ok m"
  shows "omap_ok (changes_apply c m) \<and>
    map_of (changes_apply c m) p = (case map_of c p of Some after \<Rightarrow> after | None \<Rightarrow> map_of m p)"
  using changes_apply_fold [OF assms] by (simp split: option.splits)

theorem changes_apply_lookup_witness:
  "map_of (changes_apply [(''a'', None)] [(''a'', Symlink ''x''), (''b'', Symlink ''y'')]) ''a'' = None"
proof -
  have ok: "omap_ok [(''a'', None :: file_entry option)]" "omap_ok [(''a'', Symlink ''x''), (''b'', Symlink ''y'')]"
    by auto
  show ?thesis using changes_apply_lookup [OF ok, of "''a''"] by simp
qed

lemma chain_id_inj:
  assumes "chain_id sha json vs = chain_id sha json ws" and "length vs = length ws"
    and "inj_on sha (chain_inputs sha json vs \<union> chain_inputs sha json ws)"
    and "\<And>x. length (sha x) = 32" and "inj_on json (snd ` set (vs @ ws))"
    and "\<forall>v \<in> set (vs @ ws). oid_ok (fst v)"
  shows "vs = ws"
  using assms(2,1,3,5,6)
proof (induction vs ws rule: list_induct2)
  case (Cons v vs w ws)
  obtain t c u d where v: "v = (t, c)" and w: "w = (u, d)" by fastforce
  have "chain_id sha json vs = chain_id sha json ws \<and> t = u \<and> json c = json d"
  proof (rule hasher_fed_inj)
    show "vh_fed (hasher_update (json c) (hasher_new (Some (chain_id sha json vs)) t)) =
          vh_fed (hasher_update (json d) (hasher_new (Some (chain_id sha json ws)) u))"
      by (rule inj_onD [OF Cons.prems(2)])
         (use Cons.prems(1) in \<open>simp_all add: v w version_id_def hasher_finish_def\<close>)
  qed (use Cons.prems(4) chain_id_ok [of sha] assms(4) v w in auto)
  moreover from this have "vs = ws"
    using Cons.prems by (intro Cons.IH) (auto simp: v w intro: inj_on_subset)
  moreover have "json c = json d \<Longrightarrow> c = d"
    by (rule inj_onD [OF Cons.prems(3)]) (auto simp: v w)
  ultimately show ?case by (simp add: v w)
qed simp

text \<open>version identity is tamper-evident. Two histories of the same length whose newest versions
  have the same ID are the same history, root by root and changeset by changeset, unless SHA-256
  collides on the bytes the two histories hash.\<close>

theorem version_chain_tamper_evident:
  assumes "chain_id sha json vs = chain_id sha json ws" and "length vs = length ws"
    and "inj_on sha (chain_inputs sha json vs \<union> chain_inputs sha json ws)"
    and "\<And>x. length (sha x) = 32" and "inj_on json (snd ` set (vs @ ws))"
    and "\<forall>v \<in> set (vs @ ws). oid_ok (fst v)"
  shows "vs = ws"
  by (rule chain_id_inj [OF assms])

theorem version_chain_tamper_evident_witness:
  "[(replicate 32 CHR ''t'', [(''a'', None)])] = [(replicate 32 CHR ''t'', [(''a'', None :: file_entry option)])]"
  by (rule version_chain_tamper_evident
        [where sha = "\<lambda>_. replicate 32 CHR 0x00" and json = "\<lambda>_. ''tombstone''"])
     (simp_all add: oid_ok_def)

text \<open>hashing a changeset in pieces as they arrive, as fetch does, gives the identity of the whole
  changeset however it was cut.\<close>

theorem version_hash_in_parts:
  assumes "concat parts = json c"
  shows "hasher_finish sha (fold hasher_update parts (hasher_new p t)) = version_id sha json p t c"
  using assms by (simp add: hasher_finish_def version_id_def fold_hasher_update) (simp add: hasher_update_def)

theorem version_hash_in_parts_witness:
  "hasher_finish id (fold hasher_update [''tomb'', ''stone''] (hasher_new None ''t''))
   = version_id id (\<lambda>_. ''tombstone'') None ''t'' []"
  by (rule version_hash_in_parts) simp

end
