(* ===== verification/Chunk.thy ===== *)
theory Chunk
  imports Domain
begin

text \<open>
  The tree objects of \<open>src/tree.rs\<close>: items and nodes, the chunk encoding and its decoder, the lookups
  inside one chunk, and the \<open>Chunker\<close> that cuts a level of items at content-defined boundaries. Levels
  and tags are \<open>u8\<close> values as naturals; SHA-256 is the parameter \<open>sha\<close>. The theorems show that one
  chunk has one byte form, that cutting keeps every item within the decoder's size bound, and that a
  boundary makes the chunks after it independent of the items before it.
\<close>

section \<open>Items and chunks\<close>

definition FORCE :: nat where "FORCE = 64 * 1024"
definition TARGET :: nat where "TARGET = 2048"
definition MAX_LEVEL :: nat where "MAX_LEVEL = 32"
definition ITEM :: nat where "ITEM = 35"
definition MAX_CHUNK :: nat where "MAX_CHUNK = 1 + FORCE + ITEM + MAX_PATH"

abbreviation (input) CHILD :: nat where "CHILD \<equiv> 0"
abbreviation (input) REGULAR :: nat where "REGULAR \<equiv> 1"
abbreviation (input) EXECUTABLE :: nat where "EXECUTABLE \<equiv> 2"
abbreviation (input) SYMLINK :: nat where "SYMLINK \<equiv> 3"
abbreviation (input) DIR :: nat where "DIR \<equiv> 4"

datatype node = File file_entry | Dir object_id

fun node_file :: "node \<Rightarrow> file_entry option" where
  "node_file (File e) = Some e"
| "node_file (Dir i) = None"

fun node_dir :: "node \<Rightarrow> object_id option" where
  "node_dir (Dir i) = Some i"
| "node_dir (File e) = None"

record item =
  it_name :: string
  it_tag :: nat
  it_id :: object_id

fun item_new :: "string \<Rightarrow> node \<Rightarrow> item" where
  "item_new name (File (Regular content executable)) =
     \<lparr>it_name = name, it_tag = (if executable then EXECUTABLE else REGULAR), it_id = content\<rparr>"
| "item_new name (File (Symlink target)) = \<lparr>it_name = name, it_tag = SYMLINK, it_id = target\<rparr>"
| "item_new name (Dir i) = \<lparr>it_name = name, it_tag = DIR, it_id = i\<rparr>"

definition item_node :: "item \<Rightarrow> node" where
  "item_node i =
     (if it_tag i = REGULAR \<or> it_tag i = EXECUTABLE
      then File (Regular (it_id i) (it_tag i = EXECUTABLE))
      else if it_tag i = SYMLINK then File (Symlink (it_id i))
      else Dir (it_id i))"

definition item_len :: "item \<Rightarrow> nat" where
  "item_len i = ITEM + length (it_name i)"

record chunk =
  ch_level :: nat
  ch_items :: "item list"

definition item_encode :: "item \<Rightarrow> bytes" where
  "item_encode i = char_of (it_tag i) # be_bytes 2 (length (it_name i)) @ it_name i @ it_id i"

definition chunk_encode :: "chunk \<Rightarrow> bytes" where
  "chunk_encode c = char_of (ch_level c) # concat (map item_encode (ch_items c))"

definition bad_chunk :: "string \<Rightarrow> error + 'a" where
  "bad_chunk why = Inl (InvalidInput (''malformed tree chunk: '' @ why))"

text \<open>The \<open>while let\<close> loop; \<open>items\<close> is in order of arrival.\<close>

function decode_items :: "nat \<Rightarrow> bytes \<Rightarrow> item list \<Rightarrow> error + item list" where
  "decode_items level rest items =
     (case rest of
        tag # a # b # tail \<Rightarrow>
          (let len = be_val [a, b]; name = take len tail; t = of_char tag in
           if length tail < len + 32 then bad_chunk ''truncated item''
           else if \<not> utf8 name then bad_chunk ''name is not UTF-8''
           else if \<not> valid_name name then bad_chunk ''invalid name''
           else if items \<noteq> [] \<and> name \<le> it_name (last items)
             then bad_chunk ''names are not strictly ascending''
           else if (level = 0) = (t = CHILD) \<or> t > DIR then bad_chunk ''tag invalid for level''
           else decode_items level (drop (len + 32) tail)
             (items @ [\<lparr>it_name = name, it_tag = t, it_id = take 32 (drop len tail)\<rparr>]))
      | _ \<Rightarrow> if rest \<noteq> [] then bad_chunk ''trailing bytes'' else Inr items)"
  by pat_completeness auto
termination
  by (relation "measure (\<lambda>(_, rest, _). length rest)") auto

declare decode_items.simps [simp del]

definition chunk_decode :: "bytes \<Rightarrow> error + chunk" where
  "chunk_decode bytes =
     (if length bytes > MAX_CHUNK then bad_chunk ''too large''
      else case bytes of
        [] \<Rightarrow> bad_chunk ''empty''
      | l # rest \<Rightarrow>
          (let level = of_char l in
           if level > MAX_LEVEL then bad_chunk ''level too high''
           else ebind (decode_items level rest []) (\<lambda>items.
             if level > 0 \<and> items = [] then bad_chunk ''empty internal chunk''
             else Inr \<lparr>ch_level = level, ch_items = items\<rparr>)))"

definition chunk_children :: "chunk \<Rightarrow> object_id list" where
  "chunk_children c = map it_id (filter (\<lambda>i. it_tag i = CHILD) (ch_items c))"

definition chunk_entries :: "chunk \<Rightarrow> (string \<times> node) list" where
  "chunk_entries c = map (\<lambda>i. (it_name i, item_node i)) (filter (\<lambda>i. it_tag i \<noteq> CHILD) (ch_items c))"

definition child_links :: "chunk \<Rightarrow> (string \<times> object_id) list" where
  "child_links c = map (\<lambda>i. (it_name i, it_id i)) (filter (\<lambda>i. it_tag i = CHILD) (ch_items c))"

definition partition_point :: "('a \<Rightarrow> bool) \<Rightarrow> 'a list \<Rightarrow> nat" where
  "partition_point P xs = length (takeWhile P xs)"

definition child_for :: "chunk \<Rightarrow> string \<Rightarrow> (string \<times> object_id) option" where
  "child_for c name =
     (let index = partition_point (\<lambda>i. it_name i < name) (ch_items c) in
      if index < length (ch_items c) \<and> it_tag (ch_items c ! index) = CHILD
      then Some (it_name (ch_items c ! index), it_id (ch_items c ! index)) else None)"

definition chunk_last :: "chunk \<Rightarrow> string" where
  "chunk_last c = (if ch_items c = [] then [] else it_name (last (ch_items c)))"

definition joined :: "string \<Rightarrow> string \<Rightarrow> error + string" where
  "joined pre name =
     (let path = pre @ name in
      if length path > MAX_PATH \<or> length (filter (\<lambda>c. c = CHR ''/'') path) \<ge> MAX_DEPTH
      then Inl (InvalidInput ''tree path exceeds path limits'') else Inr path)"

definition empty_tree :: "(bytes \<Rightarrow> bytes) \<Rightarrow> object_id" where
  "empty_tree sha = object_hash sha Tree [CHR 0x00]"

section \<open>Cutting a level\<close>

record chunker =
  ck_level :: nat
  ck_items :: "item list"
  ck_size :: nat

definition chunker_new :: "nat \<Rightarrow> chunker" where
  "chunker_new level = \<lparr>ck_level = level, ck_items = [], ck_size = 0\<rparr>"

definition SPREAD :: nat where "SPREAD = TARGET * TARGET * 7 div 11"

definition boundary :: "(bytes \<Rightarrow> bytes) \<Rightarrow> nat \<Rightarrow> string \<Rightarrow> nat \<Rightarrow> nat \<Rightarrow> bool" where
  "boundary sha level name len size' =
     (let hash = sha (''javelin-tree-v1'' @ [CHR 0x00] @ [char_of level] @ name);
          h = be_val (take 4 hash)
      in h * SPREAD < (len * size') * 2 ^ 32)"

definition chunker_take :: "chunker \<Rightarrow> chunk \<times> chunker" where
  "chunker_take ck = (\<lparr>ch_level = ck_level ck, ch_items = ck_items ck\<rparr>, ck\<lparr>ck_items := [], ck_size := 0\<rparr>)"

definition chunker_push ::
  "(bytes \<Rightarrow> bytes) \<Rightarrow> item \<Rightarrow> chunker \<Rightarrow> chunk option \<times> chunker" where
  "chunker_push sha i ck =
     (let len = item_len i; size' = ck_size ck + len;
          cut = ck_items ck \<noteq> [] \<and> (size' \<ge> FORCE \<or> boundary sha (ck_level ck) (it_name i) len size');
          ck' = ck\<lparr>ck_size := size', ck_items := ck_items ck @ [i]\<rparr>
      in if cut then (case chunker_take ck' of (c, ck'') \<Rightarrow> (Some c, ck'')) else (None, ck'))"

definition chunker_finish :: "chunker \<Rightarrow> chunk option" where
  "chunker_finish ck = (if ck_items ck \<noteq> [] then Some (fst (chunker_take ck)) else None)"

text \<open>The items of one level pushed in order, and the chunks of \<open>build_level\<close>.\<close>

fun cut_items :: "(bytes \<Rightarrow> bytes) \<Rightarrow> item list \<Rightarrow> chunker \<Rightarrow> chunk list \<times> chunker" where
  "cut_items sha [] ck = ([], ck)"
| "cut_items sha (i # is) ck =
     (case chunker_push sha i ck of (done', ck) \<Rightarrow>
      (case cut_items sha is ck of (chunks, ck) \<Rightarrow>
        ((case done' of None \<Rightarrow> chunks | Some c \<Rightarrow> c # chunks), ck)))"

definition cut_level :: "(bytes \<Rightarrow> bytes) \<Rightarrow> nat \<Rightarrow> item list \<Rightarrow> chunk list" where
  "cut_level sha level items =
     (case cut_items sha items (chunker_new level) of (chunks, ck) \<Rightarrow>
      chunks @ (case chunker_finish ck of None \<Rightarrow> [] | Some c \<Rightarrow> [c]))"

section \<open>The chunk encoding\<close>

definition item_ok :: "nat \<Rightarrow> item \<Rightarrow> bool" where
  "item_ok level i \<longleftrightarrow>
     length (it_name i) < 256 ^ 2 \<and> utf8 (it_name i) \<and> valid_name (it_name i) \<and> length (it_id i) = 32
     \<and> (level = 0) \<noteq> (it_tag i = CHILD) \<and> it_tag i \<le> DIR"

definition chunk_ok :: "chunk \<Rightarrow> bool" where
  "chunk_ok c \<longleftrightarrow>
     ch_level c \<le> MAX_LEVEL \<and> list_all (item_ok (ch_level c)) (ch_items c)
     \<and> sorted_wrt (\<lambda>i j. it_name i < it_name j) (ch_items c)
     \<and> (0 < ch_level c \<longrightarrow> ch_items c \<noteq> [])
     \<and> 1 + sum_list (map item_len (ch_items c)) \<le> MAX_CHUNK"

lemma length_item_encode: "length (it_id i) = 32 \<Longrightarrow> length (item_encode i) = item_len i"
  by (simp add: item_encode_def item_len_def ITEM_def)

lemma length_items_encode:
  "list_all (item_ok level) is \<Longrightarrow> length (concat (map item_encode is)) = sum_list (map item_len is)"
  by (induction "is") (auto simp: item_ok_def length_item_encode)

lemma of_char_char_of_small: "n < 256 \<Longrightarrow> of_char (char_of (n :: nat) :: char) = n"
  by simp

text \<open>One item at a time.\<close>

definition ascending :: "item list \<Rightarrow> item list \<Rightarrow> bool" where
  "ascending items new \<longleftrightarrow>
     sorted_wrt (\<lambda>i j. it_name i < it_name j) new
     \<and> (items \<noteq> [] \<longrightarrow> new \<noteq> [] \<longrightarrow> it_name (last items) < it_name (hd new))"

lemma ascending_Cons:
  "ascending items (i # new) \<longleftrightarrow>
   (items \<noteq> [] \<longrightarrow> it_name (last items) < it_name i) \<and> ascending (items @ [i]) new"
proof -
  have "sorted_wrt (\<lambda>i j. it_name i < it_name j) (i # new) \<longleftrightarrow>
      sorted_wrt (\<lambda>i j. it_name i < it_name j) new \<and> (new \<noteq> [] \<longrightarrow> it_name i < it_name (hd new))"
    by (cases new) (auto intro: less_trans)
  then show ?thesis by (auto simp: ascending_def)
qed

lemma decode_item:
  assumes "item_ok level i" "items \<noteq> [] \<longrightarrow> it_name (last items) < it_name i"
  shows "decode_items level (item_encode i @ rest) items = decode_items level rest (items @ [i])"
proof -
  obtain n t d where i: "i = \<lparr>it_name = n, it_tag = t, it_id = d\<rparr>" by (cases i)
  obtain a b where ab: "be_bytes 2 (length n) = [a, b]"
    using length_be_bytes [of 2 "length n"] by (auto simp: length_Suc_conv numeral_2_eq_2)
  have len: "be_val [a, b] = length n"
    using be_val_be_bytes [of 2 "length n"] assms(1) by (simp add: ab item_ok_def i)
  have tag: "t < 256" using assms(1) by (simp add: item_ok_def i)
  show ?thesis
    using assms tag unfolding item_encode_def i
    by (subst decode_items.simps) (auto simp: ab len item_ok_def Let_def)
qed

lemma decode_items_encode:
  "list_all (item_ok level) new \<Longrightarrow> ascending items new \<Longrightarrow>
   decode_items level (concat (map item_encode new)) items = Inr (items @ new)"
proof (induction new arbitrary: items)
  case Nil
  then show ?case by (subst decode_items.simps) simp
next
  case (Cons i new)
  then show ?case by (simp add: decode_item ascending_Cons)
qed

lemma decode_items_Inr:
  "decode_items level rest items = Inr out \<Longrightarrow>
   \<exists>new. out = items @ new \<and> rest = concat (map item_encode new) \<and> list_all (item_ok level) new
     \<and> ascending items new"
proof (induction level rest items arbitrary: out rule: decode_items.induct)
  case (1 level rest items)
  consider (item) tag a b tail where "rest = tag # a # b # tail"
    | (stop) "\<nexists>tag a b tail. rest = tag # a # b # tail"
    by (metis list.exhaust)
  then show ?case
  proof cases
    case stop
    then have "rest = [] \<and> out = items"
      using "1.prems" by (subst (asm) decode_items.simps) (auto simp: bad_chunk_def split: list.splits if_splits)
    then show ?thesis by (intro exI [of _ "[]"]) (simp add: ascending_def)
  next
    case item
    let ?len = "be_val [a, b]" and ?t = "of_char tag :: nat"
    let ?name = "take ?len tail"
    let ?i = "\<lparr>it_name = ?name, it_tag = ?t, it_id = take 32 (drop ?len tail)\<rparr>"
    have ok: "\<not> length tail < ?len + 32" "utf8 ?name" "valid_name ?name"
        "\<not> (items \<noteq> [] \<and> ?name \<le> it_name (last items))" "\<not> ((level = 0) = (?t = CHILD) \<or> ?t > DIR)"
      and rec: "decode_items level (drop (?len + 32) tail) (items @ [?i]) = Inr out"
      using "1.prems" unfolding item
      by (subst (asm) decode_items.simps; auto simp: bad_chunk_def Let_def split: if_splits)+
    have ih: "\<exists>new. out = (items @ [?i]) @ new \<and> drop (?len + 32) tail = concat (map item_encode new)
        \<and> list_all (item_ok level) new \<and> ascending (items @ [?i]) new"
      by (rule "1.IH" [OF item refl refl refl]) (use ok rec in blast)+
    then obtain new where new: "out = (items @ [?i]) @ new" "drop (?len + 32) tail = concat (map item_encode new)"
        "list_all (item_ok level) new" "ascending (items @ [?i]) new" by blast
    have len: "length ?name = ?len" "?len < 256 ^ 2"
      using ok(1) be_val_less [of "[a, b]"] by simp_all
    have "item_ok level ?i" using ok len by (auto simp: item_ok_def)
    moreover have "rest = item_encode ?i @ drop (?len + 32) tail"
    proof -
      have "be_bytes 2 ?len = [a, b]" by (rule be_bytes_be_val) simp
      moreover have "tail = ?name @ take 32 (drop ?len tail) @ drop (?len + 32) tail"
        by (metis add.commute append_take_drop_id drop_drop)
      ultimately show ?thesis using len(1) by (simp add: item_encode_def item)
    qed
    moreover have "ascending items (?i # new)" using ok(4) new(4) by (auto simp: ascending_Cons not_le)
    ultimately show ?thesis using new by (intro exI [of _ "?i # new"]) simp
  qed
qed

lemma chunk_decode_iff:
  "chunk_decode bytes = Inr c \<longleftrightarrow> chunk_ok c \<and> chunk_encode c = bytes"
proof
  assume h: "chunk_decode bytes = Inr c"
  then obtain l rest items where d: "bytes = l # rest" "of_char l \<le> MAX_LEVEL" "length bytes \<le> MAX_CHUNK"
      "decode_items (of_char l) rest [] = Inr items" "0 < (of_char l :: nat) \<longrightarrow> items \<noteq> []"
      "c = \<lparr>ch_level = of_char l, ch_items = items\<rparr>"
    by (auto simp: chunk_decode_def bad_chunk_def Let_def result_simps split: if_splits list.splits)
  have i: "rest = concat (map item_encode items)" "list_all (item_ok (of_char l)) items" "ascending [] items"
    using decode_items_Inr [OF d(4)] by auto
  show "chunk_ok c \<and> chunk_encode c = bytes"
    using d i length_items_encode [OF i(2)] by (auto simp: chunk_ok_def chunk_encode_def ascending_def)
next
  assume h: "chunk_ok c \<and> chunk_encode c = bytes"
  then have ok: "list_all (item_ok (ch_level c)) (ch_items c)" "ascending [] (ch_items c)"
    by (auto simp: chunk_ok_def ascending_def)
  have "ch_level c < 256" using h by (simp add: chunk_ok_def MAX_LEVEL_def)
  moreover have "length bytes \<le> MAX_CHUNK"
    using h length_items_encode [OF ok(1)] by (auto simp: chunk_encode_def chunk_ok_def)
  ultimately show "chunk_decode bytes = Inr c"
    using h decode_items_encode [OF ok]
    by (auto simp: chunk_decode_def chunk_encode_def chunk_ok_def)
qed

text \<open>one tree chunk has one byte form. \<open>Chunk::decode\<close> accepts exactly the encodings of well-formed chunks
(valid, ascending names; tags that fit the level; the size bound) and returns the chunk encoded.\<close>

theorem chunk_bytes_canonical:
  "chunk_decode bytes = Inr c \<longleftrightarrow> chunk_ok c \<and> chunk_encode c = bytes"
  by (rule chunk_decode_iff)

text \<open>a directory entry survives its item: the node read back from the item of a name and node is the node.\<close>

theorem item_node_roundtrip: "item_node (item_new name n) = n \<and> it_name (item_new name n) = name"
  by (induction name n rule: item_new.induct) (simp_all add: item_node_def)

section \<open>Lookups in a chunk\<close>

text \<open>the child chunk that could hold a name is the first whose last name is at least the name; there is none
exactly when every child ends before it.\<close>

theorem child_for_first:
  assumes "chunk_ok c" "0 < ch_level c"
  shows "child_for c name =
    (case filter (\<lambda>i. name \<le> it_name i) (ch_items c) of [] \<Rightarrow> None | i # _ \<Rightarrow> Some (it_name i, it_id i))"
proof -
  have tags: "\<forall>i \<in> set (ch_items c). it_tag i = CHILD"
    using assms by (auto simp: chunk_ok_def list_all_iff item_ok_def)
  have "sorted_wrt (\<lambda>i j. it_name i < it_name j) (ch_items c)" using assms(1) by (simp add: chunk_ok_def)
  then have "sorted_wrt (\<lambda>i j. it_name i < it_name j) is \<Longrightarrow> \<forall>i \<in> set is. it_tag i = CHILD \<Longrightarrow>
    (let index = length (takeWhile (\<lambda>i. it_name i < name) is) in
      if index < length is \<and> it_tag (is ! index) = CHILD
      then Some (it_name (is ! index), it_id (is ! index)) else None)
    = (case filter (\<lambda>i. name \<le> it_name i) is of [] \<Rightarrow> None | i # _ \<Rightarrow> Some (it_name i, it_id i))" for "is"
    by (induction "is") (auto simp: Let_def not_less not_le)
  with tags \<open>sorted_wrt _ (ch_items c)\<close> show ?thesis
    by (simp add: child_for_def partition_point_def)
qed

theorem child_for_first_witness:
  "child_for \<lparr>ch_level = 1, ch_items =
      [\<lparr>it_name = ''b'', it_tag = 0, it_id = replicate 32 CHR ''x''\<rparr>,
       \<lparr>it_name = ''d'', it_tag = 0, it_id = replicate 32 CHR ''y''\<rparr>]\<rparr> ''c''
   = Some (''d'', replicate 32 CHR ''y'')"
proof -
  let ?c = "\<lparr>ch_level = 1, ch_items =
      [\<lparr>it_name = ''b'', it_tag = 0, it_id = replicate 32 CHR ''x''\<rparr>,
       \<lparr>it_name = ''d'', it_tag = 0, it_id = replicate 32 CHR ''y''\<rparr>]\<rparr>"
  have names: "utf8 ''b''" "utf8 ''d''" by (auto intro!: utf8_ascii simp: u8_in_def)
  have v: "valid_name ''b''" "valid_name ''d''" by (auto simp: valid_name_def eq_ignore_case_def)
  have "chunk_ok ?c"
    using names v by (simp add: chunk_ok_def item_ok_def item_len_def MAX_LEVEL_def MAX_CHUNK_def FORCE_def ITEM_def MAX_PATH_def)
  from child_for_first [OF this, of "''c''"] show ?thesis by simp
qed

section \<open>What cutting keeps\<close>

definition chunker_ok :: "chunker \<Rightarrow> bool" where
  "chunker_ok ck \<longleftrightarrow>
     ck_size ck = sum_list (map item_len (ck_items ck)) \<and> (length (ck_items ck) \<ge> 2 \<longrightarrow> ck_size ck < FORCE)"

lemma chunker_new_ok [simp]: "chunker_ok (chunker_new l)" "ck_items (chunker_new l) = []" "ck_level (chunker_new l) = l"
  by (simp_all add: chunker_ok_def chunker_new_def)

lemma push_Some:
  assumes "chunker_push sha i ck = (Some c, ck')"
  shows "ck_items ck \<noteq> []" "c = \<lparr>ch_level = ck_level ck, ch_items = ck_items ck @ [i]\<rparr>"
    "ck' = chunker_new (ck_level ck)"
  using assms by (cases ck; auto simp: chunker_push_def chunker_take_def chunker_new_def Let_def split: if_splits)+

lemma push_None:
  assumes "chunker_push sha i ck = (None, ck')"
  shows "ck_items ck' = ck_items ck @ [i]" "ck_level ck' = ck_level ck"
    "chunker_ok ck \<Longrightarrow> chunker_ok ck'"
  using assms by (auto simp: chunker_push_def chunker_take_def chunker_ok_def Let_def split: if_splits)

lemma cut_items_append:
  "cut_items sha (xs @ ys) ck =
   (case cut_items sha xs ck of (cs, ck) \<Rightarrow> (case cut_items sha ys ck of (ds, ck) \<Rightarrow> (cs @ ds, ck)))"
  by (induction xs arbitrary: ck) (auto simp: split_def split: option.split)

text \<open>Every chunk cut from a level: its level, at least two items, and the size bound.\<close>

definition cut_chunk_ok :: "nat \<Rightarrow> chunk \<Rightarrow> bool" where
  "cut_chunk_ok level c \<longleftrightarrow>
     ch_level c = level \<and> ch_items c \<noteq> []
     \<and> ((\<forall>i \<in> set (ch_items c). length (it_name i) \<le> MAX_PATH) \<longrightarrow>
          1 + sum_list (map item_len (ch_items c)) \<le> MAX_CHUNK)"

lemma chunker_chunk_ok:
  assumes "chunker_ok ck"
  shows "cut_chunk_ok (ck_level ck) \<lparr>ch_level = ck_level ck, ch_items = ck_items ck @ [i]\<rparr>"
proof -
  have "sum_list (map item_len (ck_items ck)) < FORCE"
    if "\<forall>i \<in> set (ck_items ck). length (it_name i) \<le> MAX_PATH"
  proof (cases "length (ck_items ck) \<ge> 2")
    case True
    then show ?thesis using assms by (auto simp: chunker_ok_def)
  next
    case False
    then consider "ck_items ck = []" | j where "ck_items ck = [j]"
      by (cases "ck_items ck" rule: remdups_adj.cases) auto
    then show ?thesis
      using that by cases (auto simp: FORCE_def item_len_def ITEM_def MAX_PATH_def)
  qed
  then show ?thesis by (auto simp: cut_chunk_ok_def MAX_CHUNK_def item_len_def)
qed

lemma cut_items_spec:
  assumes "cut_items sha is ck = (cs, ck')" "chunker_ok ck" "ck_level ck = level"
  shows "concat (map ch_items cs) @ ck_items ck' = ck_items ck @ is \<and> chunker_ok ck' \<and> ck_level ck' = level
    \<and> list_all (cut_chunk_ok level) cs \<and> (\<forall>c \<in> set cs. length (ch_items c) \<ge> 2)"
  using assms
proof (induction "is" arbitrary: ck cs)
  case (Cons i "is")
  obtain d ck1 where p: "chunker_push sha i ck = (d, ck1)" by fastforce
  obtain ds where r: "cut_items sha is ck1 = (ds, ck')" using Cons.prems(1) p by (auto split: prod.splits)
  show ?case
  proof (cases d)
    case None
    note q = push_None [OF p [unfolded None]]
    show ?thesis using Cons.IH [OF r q(3)] Cons.prems p r None q by auto
  next
    case (Some c)
    note q = push_Some [OF p [unfolded Some]]
    have c: "cut_chunk_ok level c" using chunker_chunk_ok [OF Cons.prems(2), of i] q(2) Cons.prems(3) by simp
    have l: "length (ch_items c) \<ge> 2" using q(1,2) by (cases "ck_items ck") auto
    show ?thesis
      using Cons.IH [OF r] Cons.prems p r Some q c l by auto
  qed
qed auto

lemma chunker_finish_cases:
  "chunker_finish ck = (if ck_items ck = [] then None else Some \<lparr>ch_level = ck_level ck, ch_items = ck_items ck\<rparr>)"
  by (simp add: chunker_finish_def chunker_take_def)

lemma finish_chunk_ok:
  assumes "chunker_ok ck" "ck_items ck \<noteq> []"
  shows "cut_chunk_ok (ck_level ck) \<lparr>ch_level = ck_level ck, ch_items = ck_items ck\<rparr>"
proof -
  have "1 + sum_list (map item_len (ck_items ck)) \<le> MAX_CHUNK"
    if b: "\<forall>i \<in> set (ck_items ck). length (it_name i) \<le> MAX_PATH"
  proof (cases "length (ck_items ck) \<ge> 2")
    case True
    then show ?thesis using assms(1) by (auto simp: chunker_ok_def MAX_CHUNK_def)
  next
    case False
    then obtain j where "ck_items ck = [j]" using assms(2) by (cases "ck_items ck" rule: remdups_adj.cases) auto
    then show ?thesis using b by (auto simp: FORCE_def item_len_def ITEM_def MAX_PATH_def MAX_CHUNK_def)
  qed
  then show ?thesis using assms(2) by (simp add: cut_chunk_ok_def)
qed

text \<open>cutting a level. The chunks hold exactly the items pushed, in order; every chunk but the last holds at
least two items, so a level of two or more items gets strictly fewer chunks and building upward ends; and as
long as names keep the path limit, no chunk exceeds the size the decoder accepts.\<close>

theorem cut_level_spec:
  "concat (map ch_items (cut_level sha level items)) = items
   \<and> list_all (cut_chunk_ok level) (cut_level sha level items)
   \<and> (2 \<le> length items \<longrightarrow> length (cut_level sha level items) < length items)"
proof -
  obtain cs ck where c: "cut_items sha items (chunker_new level) = (cs, ck)" by fastforce
  have s: "concat (map ch_items cs) @ ck_items ck = items" "chunker_ok ck" "ck_level ck = level"
      "list_all (cut_chunk_ok level) cs" "\<forall>c \<in> set cs. length (ch_items c) \<ge> 2"
    using cut_items_spec [OF c chunker_new_ok(1) chunker_new_ok(3)] by simp_all
  have two: "2 * length cs \<le> length (concat (map ch_items cs))"
    using s(5) by (induction cs) auto
  show ?thesis
  proof (cases "ck_items ck = []")
    case True
    then have "cut_level sha level items = cs" by (simp add: cut_level_def c chunker_finish_cases)
    then show ?thesis using s True two by auto
  next
    case False
    let ?c = "\<lparr>ch_level = level, ch_items = ck_items ck\<rparr>"
    have e: "cut_level sha level items = cs @ [?c]" using False s(3) by (simp add: cut_level_def c chunker_finish_cases)
    have len: "length items = length (concat (map ch_items cs)) + length (ck_items ck)"
      using s(1) by (metis length_append)
    have "cut_chunk_ok level ?c" using finish_chunk_ok [OF s(2) False] s(3) by simp
    moreover have "0 < length (ck_items ck)" using False by simp
    ultimately have "2 \<le> length items \<longrightarrow> length (cs @ [?c]) < length items"
    proof (cases "cs = []")
      case True
      then show ?thesis by simp
    next
      case cs: False
      have "0 < length cs" "0 < length (ck_items ck)" using cs False by simp_all
      then have "length cs + 1 < length items" using len two by linarith
      then show ?thesis by simp
    qed
    then show ?thesis using s(1,4) e \<open>cut_chunk_ok level ?c\<close> by auto
  qed
qed

theorem cut_level_spec_witness:
  "length (cut_level (\<lambda>_. replicate 32 CHR 0x00) 0
     [\<lparr>it_name = ''a'', it_tag = 1, it_id = replicate 32 CHR ''x''\<rparr>,
      \<lparr>it_name = ''b'', it_tag = 1, it_id = replicate 32 CHR ''x''\<rparr>]) < 2"
  using cut_level_spec [of "\<lambda>_. replicate 32 CHR 0x00" 0
     "[\<lparr>it_name = ''a'', it_tag = 1, it_id = replicate 32 CHR ''x''\<rparr>,
       \<lparr>it_name = ''b'', it_tag = 1, it_id = replicate 32 CHR ''x''\<rparr>]"] by simp

text \<open>boundaries make cutting local. When the chunker is empty after a run of items, that is, right after a
boundary, the chunks of a longer level are the chunks of the run followed by those of the rest, cut as if the
run were not there; so an edit can only change the chunks around it.\<close>

theorem cut_level_local:
  assumes "snd (cut_items sha xs (chunker_new level)) = chunker_new level"
  shows "cut_level sha level (xs @ ys) = cut_level sha level xs @ cut_level sha level ys"
  using assms
  by (simp add: cut_level_def cut_items_append split_def chunker_finish_cases)

theorem cut_level_local_witness:
  "let i = \<lparr>it_name = ''a'', it_tag = 1, it_id = replicate 32 CHR ''x''\<rparr>;
       j = \<lparr>it_name = ''b'', it_tag = 1, it_id = replicate 32 CHR ''x''\<rparr>;
       k = \<lparr>it_name = ''c'', it_tag = 1, it_id = replicate 32 CHR ''x''\<rparr>;
       sha = \<lambda>_. replicate 32 CHR 0x00
   in cut_level sha 0 ([i, j] @ [k]) = cut_level sha 0 [i, j] @ cut_level sha 0 [k]"
proof -
  have z: "be_val (replicate 4 CHR 0x00) = 0"
    by (simp add: numeral_eq_Suc be_val_def)
  have "snd (cut_items (\<lambda>_. replicate 32 CHR 0x00)
      [\<lparr>it_name = ''a'', it_tag = 1, it_id = replicate 32 CHR ''x''\<rparr>,
       \<lparr>it_name = ''b'', it_tag = 1, it_id = replicate 32 CHR ''x''\<rparr>] (chunker_new 0)) = chunker_new 0"
    by (simp add: chunker_push_def chunker_new_def chunker_take_def boundary_def item_len_def ITEM_def Let_def z)
  from cut_level_local [OF this] show ?thesis unfolding Let_def by blast
qed

end
