(* ===== verification/Wire.thy ===== *)
theory Wire
  imports Chunk
begin

text \<open>
  The wire primitives of \<open>crates/javelin-protocol/src/codec/wire.rs\<close> and the field types of
  \<open>codec/hosting.rs\<close>. A \<open>Reader\<close> method is a function from the remaining bytes to a refusal or a value
  and the rest; a \<open>put_*\<close> helper is the bytes it appends. The locale \<open>field\<close> is the contract of one
  field: reading returns a value exactly when the bytes start with that value's only encoding. Every
  field of the format is an interpretation of it, and \<open>field_get\<close> collects the resulting equations.
\<close>

named_theorems field_get

section \<open>Errors and limits\<close>

record protocol_error =
  pe_code :: string
  pe_detail :: string

definition protocol_error_new :: "string \<Rightarrow> string \<Rightarrow> protocol_error" where
  "protocol_error_new code detail = \<lparr>pe_code = code, pe_detail = detail\<rparr>"

text \<open>\<open>From<javelin::Error>\<close>.\<close>

definition from_error :: "error \<Rightarrow> protocol_error" where
  "from_error e = protocol_error_new (error_code e) (error_display e)"

definition malformed :: "string \<Rightarrow> protocol_error" where
  "malformed detail = protocol_error_new ''malformed'' detail"

definition limit_exceeded :: "string \<Rightarrow> protocol_error" where
  "limit_exceeded detail = protocol_error_new ''limit_exceeded'' detail"

definition truncated :: protocol_error where
  "truncated = protocol_error_new ''truncated'' ''stream ended inside a frame''"

definition MAX_FRAME :: nat where "MAX_FRAME = 16 * 2 ^ 20"
definition MAX_BLOB :: nat where "MAX_BLOB = 8 * 2 ^ 20"
definition MAX_TREE :: nat where "MAX_TREE = MAX_CHUNK"
definition MAX_CHECKPOINT :: nat where "MAX_CHECKPOINT = MAX_BLOB"
definition MAX_OBJECTS :: nat where "MAX_OBJECTS = 1024"
definition MAX_WANT :: nat where "MAX_WANT = 4096"
definition MAX_CHANGESET_PART :: nat where "MAX_CHANGESET_PART = MAX_BLOB"
definition MAX_CHANGESET :: nat where "MAX_CHANGESET = 2 ^ 30"
definition MAX_FETCH_PATHS :: nat where "MAX_FETCH_PATHS = 2 ^ 20"
definition MAX_DETAIL :: nat where "MAX_DETAIL = 1024"
definition MAX_COMMENT :: nat where "MAX_COMMENT = 64 * 2 ^ 10"
definition MAX_DETAILS_URL :: nat where "MAX_DETAILS_URL = 2 * 2 ^ 10"
definition MAX_SUMMARY :: nat where "MAX_SUMMARY = 64 * 2 ^ 10"

section \<open>Field types\<close>

datatype kind = KBlob | KCheckpoint | KTree

fun kind_code :: "kind \<Rightarrow> byte" where
  "kind_code KBlob = char_of (1::nat)"
| "kind_code KCheckpoint = char_of (3::nat)"
| "kind_code KTree = char_of (4::nat)"

fun kind_limit :: "kind \<Rightarrow> nat" where
  "kind_limit KBlob = MAX_BLOB"
| "kind_limit KCheckpoint = MAX_CHECKPOINT"
| "kind_limit KTree = MAX_TREE"

fun kind_id :: "(bytes \<Rightarrow> bytes) \<Rightarrow> kind \<Rightarrow> bytes \<Rightarrow> object_id" where
  "kind_id sha KBlob bs = object_hash sha Blob bs"
| "kind_id sha KCheckpoint bs = object_hash sha Checkpoint bs"
| "kind_id sha KTree bs = object_hash sha Tree bs"

datatype role = Read | Review | Maintain

fun role_code :: "role \<Rightarrow> byte" where
  "role_code Read = char_of (1::nat)"
| "role_code Review = char_of (2::nat)"
| "role_code Maintain = char_of (3::nat)"

datatype visibility = Public | Private

fun visibility_code :: "visibility \<Rightarrow> byte" where
  "visibility_code Public = char_of (0::nat)"
| "visibility_code Private = char_of (1::nat)"

datatype layer_status = LActive | LPublished | LDiscarded

fun layer_status_code :: "layer_status \<Rightarrow> byte" where
  "layer_status_code LActive = char_of (0::nat)"
| "layer_status_code LPublished = char_of (1::nat)"
| "layer_status_code LDiscarded = char_of (2::nat)"

datatype request_status = ROpen | RPublished | RClosed

fun request_status_code :: "request_status \<Rightarrow> byte" where
  "request_status_code ROpen = char_of (0::nat)"
| "request_status_code RPublished = char_of (1::nat)"
| "request_status_code RClosed = char_of (2::nat)"

text \<open>Layer IDs share the rule of operation IDs; request IDs also allow a colon.\<close>

definition layer_parse :: "string \<Rightarrow> error + string" where
  "layer_parse value = ebind (operation_parse value) (\<lambda>_. Inr value)"

definition request_ok :: "string \<Rightarrow> bool" where
  "request_ok value \<longleftrightarrow>
     value \<noteq> [] \<and> length value \<le> 128 \<and> list_all (\<lambda>c. is_alnum c \<or> c \<in> set ''-_.:'') value"

definition request_parse :: "string \<Rightarrow> protocol_error + string" where
  "request_parse value =
     (if request_ok value then Inr value
      else Inl (protocol_error_new ''malformed'' ''invalid Publish Request ID''))"

datatype attribution = Human | Agent "object_id option" bool

datatype conclusion = Success | Failure | Neutral | Cancelled | TimedOut | Skipped

fun conclusion_code :: "conclusion \<Rightarrow> byte" where
  "conclusion_code Success = char_of (0::nat)"
| "conclusion_code Failure = char_of (1::nat)"
| "conclusion_code Neutral = char_of (2::nat)"
| "conclusion_code Cancelled = char_of (3::nat)"
| "conclusion_code TimedOut = char_of (4::nat)"
| "conclusion_code Skipped = char_of (5::nat)"

definition conclusion_from_code :: "byte \<Rightarrow> conclusion option" where
  "conclusion_from_code c =
     (let n = of_char c :: nat in
      if n = 0 then Some Success else if n = 1 then Some Failure else if n = 2 then Some Neutral
      else if n = 3 then Some Cancelled else if n = 4 then Some TimedOut
      else if n = 5 then Some Skipped else None)"

fun conclusion_str :: "conclusion \<Rightarrow> string" where
  "conclusion_str Success = ''success''"
| "conclusion_str Failure = ''failure''"
| "conclusion_str Neutral = ''neutral''"
| "conclusion_str Cancelled = ''cancelled''"
| "conclusion_str TimedOut = ''timed_out''"
| "conclusion_str Skipped = ''skipped''"

definition conclusion_parse :: "string \<Rightarrow> conclusion option" where
  "conclusion_parse name =
     List.find (\<lambda>c. conclusion_str c = name) [Success, Failure, Neutral, Cancelled, TimedOut, Skipped]"

section \<open>The reader\<close>

type_synonym 'a reader = "bytes \<Rightarrow> protocol_error + ('a \<times> bytes)"

definition rbind :: "'a reader \<Rightarrow> ('a \<Rightarrow> 'b reader) \<Rightarrow> 'b reader" where
  "rbind m f r = ebind (m r) (\<lambda>(x, r). f x r)"

definition rret :: "'a \<Rightarrow> 'a reader" where
  "rret x r = Inr (x, r)"

definition rerr :: "protocol_error \<Rightarrow> 'a reader" where
  "rerr e r = Inl e"

definition rlift :: "protocol_error + 'a \<Rightarrow> 'a reader" where
  "rlift x r = (case x of Inl e \<Rightarrow> Inl e | Inr v \<Rightarrow> Inr (v, r))"

definition r_take :: "nat \<Rightarrow> bytes reader" where
  "r_take n r =
     (if n > length r then Inl (malformed ''message ends inside a field'') else Inr (take n r, drop n r))"

definition r_u8 :: "byte reader" where
  "r_u8 = rbind (r_take 1) (\<lambda>bs. rret (bs ! 0))"

definition r_u16 :: "16 word reader" where
  "r_u16 = rbind (r_take 2) (\<lambda>bs. rret (word_of_nat (be_val bs)))"

definition r_u32 :: "32 word reader" where
  "r_u32 = rbind (r_take 4) (\<lambda>bs. rret (word_of_nat (be_val bs)))"

definition r_u64 :: "64 word reader" where
  "r_u64 = rbind (r_take 8) (\<lambda>bs. rret (word_of_nat (be_val bs)))"

definition r_version :: "64 word reader" where
  "r_version = rbind r_u64 (\<lambda>v. rlift (emap_err from_error (version_new v)))"

definition r_id :: "object_id reader" where
  "r_id = r_take 32"

definition r_kind :: "kind reader" where
  "r_kind = rbind r_u8 (\<lambda>b.
     if b = kind_code KBlob then rret KBlob
     else if b = kind_code KCheckpoint then rret KCheckpoint
     else if b = kind_code KTree then rret KTree
     else rerr (malformed ''unknown object kind''))"

definition r_count :: "nat \<Rightarrow> nat reader" where
  "r_count max' = rbind r_u32 (\<lambda>w.
     if unat w > max' then rerr (limit_exceeded ''count exceeds limit'') else rret (unat w))"

text \<open>Checked text: \<open>take(len)\<close>, then \<open>from_utf8\<close>.\<close>

definition r_text :: "nat \<Rightarrow> string \<Rightarrow> string reader" where
  "r_text len why = rbind (r_take len) (\<lambda>bs. if utf8 bs then rret bs else rerr (malformed why))"

definition r_short_str :: "string reader" where
  "r_short_str = rbind r_u8 (\<lambda>len. r_text (of_char len) ''text is not UTF-8'')"

definition r_operation :: "string reader" where
  "r_operation = rbind r_short_str (\<lambda>s. rlift (emap_err from_error (operation_parse s)))"

definition r_layer :: "string reader" where
  "r_layer = rbind r_short_str (\<lambda>s. rlift (emap_err (\<lambda>_. malformed ''invalid Layer ID'') (layer_parse s)))"

definition r_request :: "string reader" where
  "r_request = rbind r_short_str (\<lambda>s. rlift (emap_err (\<lambda>_. malformed ''invalid request ID'') (request_parse s)))"

definition r_flag :: "bool reader" where
  "r_flag = rbind r_u8 (\<lambda>b.
     if b = char_of (0::nat) then rret False else if b = char_of (1::nat) then rret True
     else rerr (malformed ''invalid flag''))"

definition ABSENT_ID :: object_id where
  "ABSENT_ID = replicate 32 CHR 0x00"

definition r_optional_id :: "object_id option reader" where
  "r_optional_id = rbind r_flag (\<lambda>present. rbind r_id (\<lambda>i.
     if present then rret (Some i) else if i = ABSENT_ID then rret None
     else rerr (malformed ''absent ID must be zeroed'')))"

definition r_optional_u32 :: "32 word option reader" where
  "r_optional_u32 = rbind r_flag (\<lambda>present. rbind r_u32 (\<lambda>v.
     if present then rret (Some v) else if v = 0 then rret None
     else rerr (malformed ''absent number must be zero'')))"

definition r_role :: "role reader" where
  "r_role = rbind r_u8 (\<lambda>b.
     if b = char_of (1::nat) then rret Read else if b = char_of (2::nat) then rret Review
     else if b = char_of (3::nat) then rret Maintain else rerr (malformed ''unknown role''))"

definition r_visibility :: "visibility reader" where
  "r_visibility = rbind r_u8 (\<lambda>b.
     if b = char_of (0::nat) then rret Public else if b = char_of (1::nat) then rret Private
     else rerr (malformed ''unknown visibility''))"

definition r_layer_status :: "layer_status reader" where
  "r_layer_status = rbind r_u8 (\<lambda>b.
     if b = char_of (0::nat) then rret LActive else if b = char_of (1::nat) then rret LPublished
     else if b = char_of (2::nat) then rret LDiscarded else rerr (malformed ''unknown Layer state''))"

definition r_request_status :: "request_status reader" where
  "r_request_status = rbind r_u8 (\<lambda>b.
     if b = char_of (0::nat) then rret ROpen else if b = char_of (1::nat) then rret RPublished
     else if b = char_of (2::nat) then rret RClosed else rerr (malformed ''unknown request state''))"

definition r_attribution :: "attribution reader" where
  "r_attribution = rbind r_u8 (\<lambda>b.
     if b = char_of (0::nat) then rret Human
     else if b = char_of (1::nat) then
       rbind r_optional_id (\<lambda>context. rbind r_flag (\<lambda>missing. rret (Agent context missing)))
     else rerr (malformed ''unknown attribution''))"

definition r_path :: "string reader" where
  "r_path = rbind r_u16 (\<lambda>len.
     if unat len > MAX_PATH then rerr (limit_exceeded ''path exceeds limit'')
     else rbind (r_text (unat len) ''path is not UTF-8'') (\<lambda>text.
       rlift (emap_err (\<lambda>_. malformed ''invalid repository path'') (path_parse text))))"

definition r_optional_text :: "nat \<Rightarrow> string option reader" where
  "r_optional_text max' = rbind r_flag (\<lambda>present. rbind r_u32 (\<lambda>len.
     if unat len > max' then rerr (limit_exceeded ''text exceeds limit'')
     else rbind (r_take (unat len)) (\<lambda>bs.
       if present then
         if len = 0 then rerr (malformed ''present text must not be empty'')
         else if utf8 bs then rret (Some bs) else rerr (malformed ''text is not UTF-8'')
       else if len = 0 then rret None else rerr (malformed ''absent text must be empty''))))"

definition r_text32 :: "nat \<Rightarrow> string reader" where
  "r_text32 max' = rbind r_u32 (\<lambda>len.
     if unat len > max' then rerr (limit_exceeded ''comment exceeds limit'')
     else r_text (unat len) ''comment is not UTF-8'')"

definition r_conclusion :: "conclusion reader" where
  "r_conclusion = rbind r_u8 (\<lambda>b. rlift (ok_or (malformed ''unknown conclusion'') (conclusion_from_code b)))"

text \<open>The loop of the decoder over a counted collection.\<close>

fun r_many :: "nat \<Rightarrow> 'a reader \<Rightarrow> 'a list reader" where
  "r_many 0 get r = Inr ([], r)"
| "r_many (Suc n) get r =
     rbind get (\<lambda>x. rbind (r_many n get) (\<lambda>xs. rret (x # xs))) r"

section \<open>The writers\<close>

definition put_u16 :: "16 word \<Rightarrow> bytes" where "put_u16 w = be_bytes 2 (unat w)"
definition put_word32 :: "32 word \<Rightarrow> bytes" where "put_word32 w = be_bytes 4 (unat w)"
definition put_u64 :: "64 word \<Rightarrow> bytes" where "put_u64 w = be_bytes 8 (unat w)"

text \<open>\<open>n as u32\<close> keeps the low 32 bits.\<close>

definition put_u32 :: "nat \<Rightarrow> bytes" where
  "put_u32 n = put_word32 (word_of_nat n)"

definition put_short :: "string \<Rightarrow> bytes" where
  "put_short text = char_of (length text) # text"

definition put_long :: "string \<Rightarrow> bytes" where
  "put_long text = put_u16 (word_of_nat (length text)) @ text"

definition put_id :: "object_id \<Rightarrow> bytes" where "put_id i = i"

definition put_flag :: "bool \<Rightarrow> bytes" where
  "put_flag b = [char_of (if b then 1 else 0 :: nat)]"

definition put_optional_id :: "object_id option \<Rightarrow> bytes" where
  "put_optional_id i = put_flag (i \<noteq> None) @ put_id (case i of None \<Rightarrow> ABSENT_ID | Some i \<Rightarrow> i)"

definition put_optional_text :: "string option \<Rightarrow> bytes" where
  "put_optional_text text =
     (let t = (case text of None \<Rightarrow> [] | Some t \<Rightarrow> t) in
      put_flag (text \<noteq> None) @ put_u32 (length t) @ t)"

definition put_optional_u32 :: "32 word option \<Rightarrow> bytes" where
  "put_optional_u32 v = put_flag (v \<noteq> None) @ put_word32 (case v of None \<Rightarrow> 0 | Some v \<Rightarrow> v)"

fun put_attribution :: "attribution \<Rightarrow> bytes" where
  "put_attribution Human = [char_of (0::nat)]"
| "put_attribution (Agent context missing) =
     char_of (1::nat) # put_optional_id context @ put_flag missing"

text \<open>The \<open>u32\<close> length and text of a comment body.\<close>

definition put_text32 :: "string \<Rightarrow> bytes" where
  "put_text32 body = put_u32 (length body) @ body"

definition short_len :: "string \<Rightarrow> protocol_error + nat" where
  "short_len text =
     (if length text > 255 then Inl (malformed ''text exceeds 255 bytes'') else Inr (1 + length text))"

text \<open>\<open>is_char_boundary\<close>: the ends, or a byte that does not continue a character.\<close>

definition char_boundary :: "string \<Rightarrow> nat \<Rightarrow> bool" where
  "char_boundary text n \<longleftrightarrow> n = 0 \<or> n = length text \<or> n < length text \<and> \<not> utf8_cont (text ! n)"

fun boundary_before :: "string \<Rightarrow> nat \<Rightarrow> nat" where
  "boundary_before text 0 = 0"
| "boundary_before text (Suc n) = (if char_boundary text (Suc n) then Suc n else boundary_before text n)"

definition truncate_utf8 :: "string \<Rightarrow> nat \<Rightarrow> string" where
  "truncate_utf8 text max' = take (boundary_before text (min (length text) max')) text"

section \<open>The contract of a field\<close>

lemma rbind_Inr [field_get]:
  "rbind m f r = Inr (y, r') \<longleftrightarrow> (\<exists>x r1. m r = Inr (x, r1) \<and> f x r1 = Inr (y, r'))"
  by (auto simp: rbind_def result_simps)

lemma rret_Inr [field_get]: "rret x r = Inr (y, r') \<longleftrightarrow> y = x \<and> r' = r"
  by (auto simp: rret_def)

lemma rerr_Inr [field_get]: "rerr e r = Inr y \<longleftrightarrow> False"
  by (simp add: rerr_def)

lemma rlift_Inr [field_get]: "rlift x r = Inr (y, r') \<longleftrightarrow> x = Inr y \<and> r' = r"
  by (auto simp: rlift_def split: sum.splits)

lemma r_take_Inr [field_get]: "r_take n r = Inr (x, r') \<longleftrightarrow> length x = n \<and> r = x @ r'"
  by (auto simp: r_take_def)

lemma guarded_Inr [field_get]: "(if b then rerr e else m) r = Inr y \<longleftrightarrow> \<not> b \<and> m r = Inr y"
  by (simp add: rerr_def)

locale field =
  fixes put :: "'a \<Rightarrow> bytes" and get :: "'a reader" and ok :: "'a \<Rightarrow> bool"
  assumes get_iff: "get r = Inr (x, r') \<longleftrightarrow> ok x \<and> r = put x @ r'"
begin

lemma get_put: "ok x \<Longrightarrow> get (put x @ r) = Inr (x, r)"
  by (rule get_iff [THEN iffD2], intro conjI refl)

text \<open>No encoding is a prefix of another: what follows a field cannot change its value.\<close>

lemma put_prefix_free:
  assumes "ok x" "ok y" "put x @ r = put y @ s"
  shows "x = y \<and> r = s"
proof -
  have "Inr (x, r) = get (put x @ r)" by (rule get_put [OF assms(1), symmetric])
  also have "\<dots> = Inr (y, s)" unfolding assms(3) by (rule get_put [OF assms(2)])
  finally show ?thesis by simp
qed

lemma many_iff:
  "r_many n get r = Inr (xs, r') \<longleftrightarrow> length xs = n \<and> list_all ok xs \<and> r = concat (map put xs) @ r'"
proof (induction n arbitrary: r xs r')
  case 0
  then show ?case by auto
next
  case (Suc n)
  have "r_many (Suc n) get r = Inr (xs, r') \<longleftrightarrow>
      (\<exists>y r1. (ok y \<and> r = put y @ r1) \<and>
         (\<exists>ys r2. (length ys = n \<and> list_all ok ys \<and> r1 = concat (map put ys) @ r2) \<and> xs = y # ys \<and> r' = r2))"
    unfolding r_many.simps rbind_Inr rret_Inr get_iff Suc by (rule refl)
  also have "\<dots> \<longleftrightarrow> length xs = Suc n \<and> list_all ok xs \<and> r = concat (map put xs) @ r'"
    by (cases xs) (simp_all, blast)
  finally show ?case .
qed

end

lemma length_one: "length x = Suc 0 \<longleftrightarrow> (\<exists>b. x = [b])"
  by (cases x) auto

interpretation u8: field "\<lambda>b. [b]" r_u8 "\<lambda>_. True"
  by unfold_locales (auto simp: r_u8_def field_get length_one)

lemma r_u8_byte [simp]: "rbind r_u8 f (b # r) = f b r" "rbind r_u8 f [] = Inl (malformed ''message ends inside a field'')"
  by (simp_all add: rbind_def r_u8_def r_take_def rret_def)

lemmas byte_field = rret_def rerr_def

lemma be_word:
  fixes w :: "'a::len word"
  assumes "256 ^ k = (2::nat) ^ LENGTH('a)"
  shows "(\<exists>x. length x = k \<and> w = word_of_nat (be_val x) \<and> r = x @ r') \<longleftrightarrow> r = be_bytes k (unat w) @ r'"
proof -
  have "length x = k \<and> w = word_of_nat (be_val x) \<longleftrightarrow> x = be_bytes k (unat w)" for x
  proof
    assume h: "length x = k \<and> w = word_of_nat (be_val x)"
    then have "be_val x < 2 ^ LENGTH('a)" using be_val_less [of x] assms by simp
    then have "unat w = be_val x" using h by (simp add: unat_of_nat take_bit_nat_eq_self)
    then show "x = be_bytes k (unat w)" using h be_bytes_be_val [of x k] by simp
  next
    assume "x = be_bytes k (unat w)"
    then show "length x = k \<and> w = word_of_nat (be_val x)"
      using unsigned_less [of w] by (simp add: be_val_be_bytes assms)
  qed
  then show ?thesis by auto
qed

lemma r_u16_iff: "r_u16 r = Inr (w, r') \<longleftrightarrow> True \<and> r = put_u16 w @ r'"
  using be_word [of 2 w r r'] by (auto simp: r_u16_def put_u16_def field_get)

lemma r_u32_iff: "r_u32 r = Inr (w, r') \<longleftrightarrow> True \<and> r = put_word32 w @ r'"
  using be_word [of 4 w r r'] by (auto simp: r_u32_def put_word32_def field_get)

lemma r_u64_iff: "r_u64 r = Inr (w, r') \<longleftrightarrow> True \<and> r = put_u64 w @ r'"
  using be_word [of 8 w r r'] by (auto simp: r_u64_def put_u64_def field_get)

interpretation u16: field put_u16 r_u16 "\<lambda>_. True" by unfold_locales (rule r_u16_iff)
interpretation u32: field put_word32 r_u32 "\<lambda>_. True" by unfold_locales (rule r_u32_iff)
interpretation u64: field put_u64 r_u64 "\<lambda>_. True" by unfold_locales (rule r_u64_iff)

interpretation version: field put_u64 r_version version_ok
proof unfold_locales
  have "version_new v = Inr w \<longleftrightarrow> version_ok w \<and> v = w" for v w
    by (auto simp: version_new_def version_ok_def)
  then show "r_version r = Inr (v, r') \<longleftrightarrow> version_ok v \<and> r = put_u64 v @ r'" for r v r'
    unfolding r_version_def by (simp add: field_get result_simps u64.get_iff) blast
qed

interpretation id: field put_id r_id oid_ok
  by unfold_locales (auto simp: r_id_def put_id_def oid_ok_def field_get)

interpretation kind: field "\<lambda>k. [kind_code k]" r_kind "\<lambda>_. True"
proof unfold_locales
  fix r k r'
  show "r_kind r = Inr (k, r') \<longleftrightarrow> True \<and> r = [kind_code k] @ r'"
    by (cases r; cases k) (auto simp: r_kind_def byte_field)
qed

interpretation flag: field put_flag r_flag "\<lambda>_. True"
proof unfold_locales
  fix r b r'
  show "r_flag r = Inr (b, r') \<longleftrightarrow> True \<and> r = put_flag b @ r'"
    by (cases r; cases b) (auto simp: r_flag_def put_flag_def byte_field)
qed

interpretation role: field "\<lambda>k. [role_code k]" r_role "\<lambda>_. True"
proof unfold_locales
  fix r k r'
  show "r_role r = Inr (k, r') \<longleftrightarrow> True \<and> r = [role_code k] @ r'"
    by (cases r; cases k) (auto simp: r_role_def byte_field)
qed

interpretation visibility: field "\<lambda>k. [visibility_code k]" r_visibility "\<lambda>_. True"
proof unfold_locales
  fix r k r'
  show "r_visibility r = Inr (k, r') \<longleftrightarrow> True \<and> r = [visibility_code k] @ r'"
    by (cases r; cases k) (auto simp: r_visibility_def byte_field)
qed

interpretation layer_status: field "\<lambda>k. [layer_status_code k]" r_layer_status "\<lambda>_. True"
proof unfold_locales
  fix r k r'
  show "r_layer_status r = Inr (k, r') \<longleftrightarrow> True \<and> r = [layer_status_code k] @ r'"
    by (cases r; cases k) (auto simp: r_layer_status_def byte_field)
qed

interpretation request_status: field "\<lambda>k. [request_status_code k]" r_request_status "\<lambda>_. True"
proof unfold_locales
  fix r k r'
  show "r_request_status r = Inr (k, r') \<longleftrightarrow> True \<and> r = [request_status_code k] @ r'"
    by (cases r; cases k) (auto simp: r_request_status_def byte_field)
qed

lemma char_eq_nat: "b = char_of n \<longleftrightarrow> of_char b = n mod 256" for n :: nat
  by (metis char_of_char char_of_mod_256 of_char_of of_char_mod_256 of_char_of)

lemma conclusion_from_code_iff: "conclusion_from_code b = Some c \<longleftrightarrow> b = conclusion_code c"
  by (cases c) (auto simp: conclusion_from_code_def Let_def char_eq_nat)

interpretation conclusion: field "\<lambda>k. [conclusion_code k]" r_conclusion "\<lambda>_. True"
  by unfold_locales
    (auto simp: r_conclusion_def field_get u8.get_iff result_simps conclusion_from_code_iff)

text \<open>An optional field: a flag, then the value or a fixed filler that stands for absence.\<close>

context field begin

lemma optional_iff:
  assumes "ok absent"
  shows "rbind r_flag (\<lambda>present. rbind get (\<lambda>x.
       if present then rret (Some x) else if x = absent then rret None else rerr e)) r = Inr (v, r')
    \<longleftrightarrow> pred_option ok v \<and> r = put_flag (v \<noteq> None) @ put (case v of None \<Rightarrow> absent | Some x \<Rightarrow> x) @ r'"
proof -
  have inner: "(if p then rret (Some x) else if x = absent then rret None else rerr e) r1 = Inr (v, r')
      \<longleftrightarrow> r1 = r' \<and> (p \<and> v = Some x \<or> \<not> p \<and> x = absent \<and> v = None)" for p x r1
    by (auto simp: rret_def rerr_def)
  show ?thesis
    unfolding rbind_Inr get_iff flag.get_iff inner
    by (cases v) (auto simp add: ex_bool_eq assms)
qed

end

interpretation optional_id: field put_optional_id r_optional_id "pred_option oid_ok"
  by unfold_locales
    (simp add: r_optional_id_def put_optional_id_def id.optional_iff ABSENT_ID_def oid_ok_def)

interpretation optional_u32: field put_optional_u32 r_optional_u32 "\<lambda>_. True"
  by unfold_locales
    (simp add: r_optional_u32_def put_optional_u32_def u32.optional_iff option.pred_True)

fun attribution_ok :: "attribution \<Rightarrow> bool" where
  "attribution_ok Human = True"
| "attribution_ok (Agent context missing) = pred_option oid_ok context"

interpretation attribution: field put_attribution r_attribution attribution_ok
proof unfold_locales
  fix r :: bytes and v r'
  show "r_attribution r = Inr (v, r') \<longleftrightarrow> attribution_ok v \<and> r = put_attribution v @ r'"
    unfolding r_attribution_def
    by (cases r; cases v) (auto simp: field_get optional_id.get_iff flag.get_iff)
qed

lemma r_text_Inr [field_get]: "r_text n why r = Inr (s, r') \<longleftrightarrow> length s = n \<and> utf8 s \<and> r = s @ r'"
  by (auto simp: r_text_def field_get)

definition short_ok :: "string \<Rightarrow> bool" where
  "short_ok s \<longleftrightarrow> utf8 s \<and> length s \<le> 255"

lemma r_short_str_iff: "r_short_str r = Inr (s, r') \<longleftrightarrow> short_ok s \<and> r = put_short s @ r'"
proof -
  have "length s = of_char b \<longleftrightarrow> length s \<le> 255 \<and> b = char_of (length s)" for b :: byte
    using of_char_less_256 [of b] by (auto simp: char_eq_nat simp del: of_char_less_256)
  then show ?thesis
    by (cases r) (auto simp: r_short_str_def put_short_def short_ok_def field_get)
qed

interpretation short: field put_short r_short_str short_ok
  by unfold_locales (rule r_short_str_iff)

lemma ascii_utf8: "list_all op_char s \<or> list_all (\<lambda>c. is_alnum c \<or> c \<in> set ''-_.:'') s \<Longrightarrow> utf8 s"
  by (rule utf8_ascii) (auto simp: list_all_iff op_char_def is_alnum_def is_digit_def u8_in_def)

lemma operation_short: "operation_ok s \<Longrightarrow> short_ok s"
  using ascii_utf8 [of s] by (auto simp: operation_ok_def short_ok_def)

lemma request_short: "request_ok s \<Longrightarrow> short_ok s"
  using ascii_utf8 [of s] by (auto simp: request_ok_def short_ok_def)

text \<open>A short text parsed as an ID.\<close>

lemma parsed_short:
  assumes "\<And>s t. p s = Inr t \<longleftrightarrow> ok' s \<and> t = s" "\<And>s. ok' s \<Longrightarrow> short_ok s"
  shows "rbind r_short_str (\<lambda>s. rlift (p s)) r = Inr (s, r') \<longleftrightarrow> ok' s \<and> r = put_short s @ r'"
  using assms(2) by (auto simp: field_get short.get_iff assms(1))

lemma operation_parse_Inr: "operation_parse s = Inr t \<longleftrightarrow> operation_ok s \<and> t = s"
  by (auto simp: operation_parse_def)

interpretation operation: field put_short r_operation operation_ok
  unfolding r_operation_def
  by unfold_locales (rule parsed_short, auto simp: result_simps operation_parse_Inr intro: operation_short)

interpretation layer: field put_short r_layer operation_ok
  unfolding r_layer_def
  by unfold_locales (rule parsed_short, auto simp: layer_parse_def result_simps operation_parse_Inr intro: operation_short)

interpretation request: field put_short r_request request_ok
  unfolding r_request_def
  by unfold_locales (rule parsed_short, auto simp: request_parse_def result_simps intro: request_short)

definition wire_path_ok :: "string \<Rightarrow> bool" where
  "wire_path_ok p \<longleftrightarrow> path_ok p \<and> utf8 p"

lemma word_length:
  fixes w :: "'a::len word"
  assumes "m < 2 ^ LENGTH('a)"
  shows "unat w \<le> m \<and> length s = unat w \<longleftrightarrow> length s \<le> m \<and> w = word_of_nat (length s)"
proof
  assume h: "unat w \<le> m \<and> length s = unat w"
  then show "length s \<le> m \<and> w = word_of_nat (length s)" by simp
next
  assume h: "length s \<le> m \<and> w = word_of_nat (length s)"
  then have "unat w = length s" using assms by (simp add: unat_of_nat take_bit_nat_eq_self)
  then show "unat w \<le> m \<and> length s = unat w" using h by simp
qed

interpretation path: field put_long r_path wire_path_ok
proof unfold_locales
  fix r :: bytes and s r'
  have p: "path_parse x = Inr y \<longleftrightarrow> path_ok x \<and> y = x" for x y by (auto simp: path_parse_def)
  have "r_path r = Inr (s, r') \<longleftrightarrow>
      (\<exists>w. (unat w \<le> MAX_PATH \<and> length s = unat w) \<and> utf8 s \<and> path_ok s \<and> r = put_u16 w @ s @ r')"
    unfolding r_path_def by (simp add: field_get u16.get_iff result_simps p not_less) blast
  also have "\<dots> \<longleftrightarrow> length s \<le> MAX_PATH \<and> utf8 s \<and> path_ok s \<and> r = put_long s @ r'"
    by (subst word_length) (auto simp: MAX_PATH_def put_long_def)
  also have "\<dots> \<longleftrightarrow> wire_path_ok s \<and> r = put_long s @ r'"
    by (auto simp: wire_path_ok_def path_ok_def)
  finally show "r_path r = Inr (s, r') \<longleftrightarrow> wire_path_ok s \<and> r = put_long s @ r'" .
qed

definition text_ok :: "nat \<Rightarrow> string \<Rightarrow> bool" where
  "text_ok m s \<longleftrightarrow> utf8 s \<and> length s \<le> m"

lemma r_text32_iff:
  assumes "m < 2 ^ 32"
  shows "r_text32 m r = Inr (s, r') \<longleftrightarrow> text_ok m s \<and> r = put_text32 s @ r'"
proof -
  have "r_text32 m r = Inr (s, r') \<longleftrightarrow> (\<exists>w. (unat w \<le> m \<and> length s = unat w) \<and> utf8 s \<and> r = put_word32 w @ s @ r')"
    unfolding r_text32_def by (simp add: field_get u32.get_iff not_less) blast
  also have "\<dots> \<longleftrightarrow> text_ok m s \<and> r = put_text32 s @ r'"
    using assms by (subst word_length) (auto simp: text_ok_def put_text32_def put_u32_def)
  finally show ?thesis .
qed

interpretation comment: field put_text32 "r_text32 MAX_COMMENT" "text_ok MAX_COMMENT"
  by unfold_locales (rule r_text32_iff, simp add: MAX_COMMENT_def)

definition opt_text_ok :: "nat \<Rightarrow> string option \<Rightarrow> bool" where
  "opt_text_ok m = pred_option (\<lambda>s. s \<noteq> [] \<and> text_ok m s)"

lemma r_optional_text_iff:
  assumes "m < 2 ^ 32"
  shows "r_optional_text m r = Inr (t, r') \<longleftrightarrow> opt_text_ok m t \<and> r = put_optional_text t @ r'"
proof -
  let ?s = "\<lambda>t. case t of None \<Rightarrow> [] | Some s \<Rightarrow> s"
  have inner: "(if p then if w = 0 then rerr e else if utf8 bs then rret (Some bs) else rerr e'
       else if w = 0 then rret None else rerr e'') r1 = Inr (t, r')
     \<longleftrightarrow> r1 = r' \<and> (p \<and> w \<noteq> 0 \<and> utf8 bs \<and> t = Some bs \<or> \<not> p \<and> w = 0 \<and> t = None)"
    for p and w :: "32 word" and bs r1 e e' e''
    by (auto simp: rret_def rerr_def)
  have "r_optional_text m r = Inr (t, r') \<longleftrightarrow>
      (\<exists>p w bs. (unat w \<le> m \<and> length bs = unat w) \<and> r = put_flag p @ put_word32 w @ bs @ r'
         \<and> (p \<and> w \<noteq> 0 \<and> utf8 bs \<and> t = Some bs \<or> \<not> p \<and> w = 0 \<and> t = None))"
    unfolding r_optional_text_def rbind_Inr flag.get_iff u32.get_iff guarded_Inr r_take_Inr inner not_less
    by blast
  also have "\<dots> \<longleftrightarrow> (\<exists>p bs. length bs \<le> m \<and> r = put_flag p @ put_word32 (word_of_nat (length bs)) @ bs @ r'
         \<and> (p \<and> (word_of_nat (length bs) :: 32 word) \<noteq> 0 \<and> utf8 bs \<and> t = Some bs
            \<or> \<not> p \<and> (word_of_nat (length bs) :: 32 word) = 0 \<and> t = None))"
    using assms by (subst word_length) auto
  also have "\<dots> \<longleftrightarrow> opt_text_ok m t \<and> r = put_optional_text t @ r'"
  proof -
    have z: "(word_of_nat (length bs) :: 32 word) = 0 \<longleftrightarrow> bs = []" if "length bs \<le> m" for bs :: bytes
      using that assms unat_of_nat [where 'a = 32, of "length bs"]
      by (auto simp: take_bit_nat_eq_self unat_eq_0 simp flip: unat_eq_0)
    show ?thesis
      by (cases t)
        (auto simp: z ex_bool_eq opt_text_ok_def text_ok_def put_optional_text_def put_u32_def intro: exI [of _ "[]"])
  qed
  finally show ?thesis .
qed

interpretation details_url: field put_optional_text "r_optional_text MAX_DETAILS_URL" "opt_text_ok MAX_DETAILS_URL"
  by unfold_locales (rule r_optional_text_iff, simp add: MAX_DETAILS_URL_def)

interpretation summary: field put_optional_text "r_optional_text MAX_SUMMARY" "opt_text_ok MAX_SUMMARY"
  by unfold_locales (rule r_optional_text_iff, simp add: MAX_SUMMARY_def)

lemmas field_iffs [field_get] =
  u8.get_iff u16.get_iff u32.get_iff u64.get_iff version.get_iff id.get_iff kind.get_iff flag.get_iff
  role.get_iff visibility.get_iff layer_status.get_iff request_status.get_iff conclusion.get_iff
  optional_id.get_iff optional_u32.get_iff attribution.get_iff short.get_iff operation.get_iff
  layer.get_iff request.get_iff path.get_iff comment.get_iff details_url.get_iff summary.get_iff

lemma r_count_Inr [field_get]:
  assumes "m < 2 ^ 32"
  shows "r_count m r = Inr (n, r') \<longleftrightarrow> n \<le> m \<and> r = put_u32 n @ r'"
proof -
  have "r_count m r = Inr (n, r') \<longleftrightarrow> (\<exists>w. (unat w \<le> m \<and> length (replicate n ()) = unat w) \<and> r = put_word32 w @ r')"
    unfolding r_count_def by (simp add: field_get not_less) blast
  also have "\<dots> \<longleftrightarrow> n \<le> m \<and> r = put_u32 n @ r'"
    using assms by (subst word_length) (auto simp: put_u32_def)
  finally show ?thesis .
qed

section \<open>Properties\<close>

lemma boundary_before_spec:
  "boundary_before t n \<le> n \<and> char_boundary t (boundary_before t n)
   \<and> (\<forall>k. k \<le> n \<longrightarrow> char_boundary t k \<longrightarrow> k \<le> boundary_before t n)"
  by (induction n) (auto simp: char_boundary_def le_Suc_eq)

lemma truncate_utf8_valid:
  assumes "utf8 t"
  shows "utf8 (truncate_utf8 t m)"
proof (cases "boundary_before t (min (length t) m) = 0")
  case True
  then show ?thesis by (simp add: truncate_utf8_def)
next
  case False
  define n where "n = boundary_before t (min (length t) m)"
  have "char_boundary t n" using boundary_before_spec by (simp add: n_def)
  then have "drop n t = [] \<or> \<not> utf8_cont (hd (drop n t))"
    using False by (auto simp: char_boundary_def hd_drop_conv_nth n_def)
  then show ?thesis using assms utf8_cut [of "take n t" "drop n t"] by (simp add: truncate_utf8_def n_def)
qed

text \<open>\<open>truncate_utf8\<close> cuts valid text to valid text within the bound, and keeps as much as a cut at a character
boundary can.\<close>

theorem truncate_utf8_spec:
  assumes "utf8 text"
  shows "utf8 (truncate_utf8 text m) \<and> length (truncate_utf8 text m) \<le> m
    \<and> (\<exists>rest. text = truncate_utf8 text m @ rest)
    \<and> (\<forall>k \<le> m. char_boundary text k \<and> k \<le> length text \<longrightarrow> k \<le> length (truncate_utf8 text m))"
proof -
  define n where "n = boundary_before text (min (length text) m)"
  have b: "n \<le> min (length text) m" "char_boundary text n"
      "\<And>k. k \<le> min (length text) m \<Longrightarrow> char_boundary text k \<Longrightarrow> k \<le> n"
    using boundary_before_spec [of "text" "min (length text) m"] by (simp_all add: n_def)
  have t: "truncate_utf8 text m = take n text" by (simp add: truncate_utf8_def n_def)
  have "utf8 (take n text)" using truncate_utf8_valid [OF assms, of m] by (simp add: t)
  moreover have "\<exists>rest. text = take n text @ rest" by (intro exI [of _ "drop n text"]) simp
  ultimately show ?thesis using b by (auto simp: t)
qed

theorem truncate_utf8_spec_witness:
  "truncate_utf8 [CHR ''a'', char_of (195::nat), char_of (169::nat)] 2 = ''a''
   \<and> utf8 (truncate_utf8 [CHR ''a'', char_of (195::nat), char_of (169::nat)] 2)"
proof -
  let ?t = "[CHR ''a'', char_of (195::nat), char_of (169::nat)]"
  have "truncate_utf8 ?t 2 = ''a''" by code_simp
  moreover have "utf8 ?t" by code_simp
  ultimately show ?thesis using truncate_utf8_spec by blast
qed

text \<open>conclusions have one name and one code each, and both read back.\<close>

theorem conclusion_roundtrip:
  "conclusion_parse s = Some c \<longleftrightarrow> s = conclusion_str c"
proof
  assume "conclusion_parse s = Some c"
  then show "s = conclusion_str c" by (auto simp: conclusion_parse_def split: if_splits)
next
  assume "s = conclusion_str c"
  then show "conclusion_parse s = Some c" by (cases c) (simp_all add: conclusion_parse_def)
qed

end
