(* ===== verification/Messages.thy ===== *)
theory Messages
  imports Wire
begin

text \<open>
  The version 2 message codec, \<open>crates/javelin-protocol/src/codec.rs\<close> with \<open>codec/checks.rs\<close>: the
  messages, one writer \<open>put_*\<close> and one reader \<open>get_*\<close> for each arm of \<open>encode\<close> and \<open>decode\<close>, the size
  bound \<open>encoded_len\<close>, and \<open>encode\<close> and \<open>decode\<close> with the dispatch on the tag. \<open>Codec\<close> has the theorems.
\<close>

section \<open>Messages\<close>

definition MAGIC :: bytes where "MAGIC = ''JVLP''"
definition OBJECT_OVERHEAD :: nat where "OBJECT_OVERHEAD = 37"

datatype outcome = OAccepted "64 word" object_id string | OStale "64 word"

text \<open>The native outcome of advancing a World: an accepted version with its number, tree and, unless it is
the genesis, its operation; and \<open>Outcome::from_native\<close>.\<close>

record world_version =
  wv_number :: "64 word"
  wv_tree :: object_id
  wv_operation :: "string option"

datatype advance_outcome = AAccepted world_version | AStale "64 word"

fun outcome_from_native :: "advance_outcome \<Rightarrow> protocol_error + outcome" where
  "outcome_from_native (AAccepted v) =
     ebind (ok_or (protocol_error_new ''invalid_input'' ''accepted World lacks operation'') (wv_operation v))
       (\<lambda>operation. Inr (OAccepted (wv_number v) (wv_tree v) operation))"
| "outcome_from_native (AStale actual) = Inr (OStale actual)"

datatype layer_outcome = LOAccepted "64 word" object_id | LOStale object_id | LORefused string

datatype publish_outcome =
    POPublished "64 word" object_id object_id | POConflict "string list" | POLayerStale object_id | PORefused string

datatype review_outcome = ROAccepted "32 word" | RORefused string

record check_report =
  cr_operation :: string
  cr_repository :: string
  cr_subject_tree :: object_id
  cr_subject_checkpoint :: "object_id option"
  cr_name :: string
  cr_conclusion :: conclusion
  cr_details_url :: "string option"
  cr_summary :: "string option"
  cr_started_at :: "64 word"
  cr_completed_at :: "64 word"

datatype check_outcome = COAccepted object_id "64 word" | CORefused string

datatype message =
    Hello "16 word" "16 word"
  | HelloOk "16 word"
  | Permissions
  | Applied "64 word" role visibility
  | Want "(kind \<times> object_id) list"
  | Missing "(kind \<times> object_id) list"
  | Get "(kind \<times> object_id) list"
  | Objects "(kind \<times> object_id \<times> bytes) list"
  | Stored "32 word"
  | Publish string "64 word" object_id
  | Outcome outcome
  | LayerAppend string string "object_id option" object_id
  | LayerOutcome layer_outcome
  | LayerHead string
  | LayerState string "64 word" "64 word" object_id layer_status
  | LayerStack string string object_id object_id
  | PublishLayer string string object_id "64 word" attribution
  | PublishOutcome publish_outcome
  | PublishRequest string string "32 word" "64 word"
  | Resolve "64 word option"
  | Resolved "64 word" object_id object_id
  | Changeset "64 word" "64 word"
  | ChangesetPart "64 word" bytes
  | OpenRequest string string string object_id "64 word"
  | ReviewOutcome review_outcome
  | Revise string string "32 word" object_id "64 word"
  | Approve string string "32 word"
  | Comment string string "32 word option" string
  | ReadRequest string
  | CheckReport check_report
  | CheckOutcome check_outcome
  | RequestState string request_status "32 word"
  | Error string string

section \<open>Tags\<close>

definition HELLO :: nat where "HELLO = 1"
definition HELLO_OK :: nat where "HELLO_OK = 2"
definition PERMISSIONS :: nat where "PERMISSIONS = 3"
definition APPLIED :: nat where "APPLIED = 6"
definition WANT :: nat where "WANT = 16"
definition MISSING :: nat where "MISSING = 17"
definition GET :: nat where "GET = 18"
definition OBJECTS :: nat where "OBJECTS = 32"
definition STORED :: nat where "STORED = 34"
definition PUBLISH :: nat where "PUBLISH = 48"
definition OUTCOME :: nat where "OUTCOME = 49"
definition LAYER_OUTCOME :: nat where "LAYER_OUTCOME = 51"
definition LAYER_APPEND :: nat where "LAYER_APPEND = 52"
definition LAYER_HEAD :: nat where "LAYER_HEAD = 53"
definition LAYER_STATE :: nat where "LAYER_STATE = 54"
definition LAYER_STACK :: nat where "LAYER_STACK = 55"
definition PUBLISH_LAYER :: nat where "PUBLISH_LAYER = 56"
definition PUBLISH_OUTCOME :: nat where "PUBLISH_OUTCOME = 57"
definition PUBLISH_REQUEST :: nat where "PUBLISH_REQUEST = 58"
definition RESOLVE :: nat where "RESOLVE = 64"
definition RESOLVED :: nat where "RESOLVED = 65"
definition CHANGESET :: nat where "CHANGESET = 66"
definition CHANGESET_PART :: nat where "CHANGESET_PART = 67"
definition OPEN_REQUEST :: nat where "OPEN_REQUEST = 80"
definition REVIEW_OUTCOME :: nat where "REVIEW_OUTCOME = 81"
definition REVISE :: nat where "REVISE = 82"
definition APPROVE :: nat where "APPROVE = 83"
definition COMMENT :: nat where "COMMENT = 84"
definition READ_REQUEST :: nat where "READ_REQUEST = 85"
definition REQUEST_STATE :: nat where "REQUEST_STATE = 86"
definition CHECK_REPORT :: nat where "CHECK_REPORT = 96"
definition CHECK_OUTCOME :: nat where "CHECK_OUTCOME = 97"
definition ERROR :: nat where "ERROR = 127"

lemmas tag_defs =
  HELLO_def HELLO_OK_def PERMISSIONS_def APPLIED_def WANT_def MISSING_def
  GET_def OBJECTS_def STORED_def PUBLISH_def OUTCOME_def LAYER_OUTCOME_def
  LAYER_APPEND_def LAYER_HEAD_def LAYER_STATE_def LAYER_STACK_def PUBLISH_LAYER_def PUBLISH_OUTCOME_def
  PUBLISH_REQUEST_def RESOLVE_def RESOLVED_def CHANGESET_def CHANGESET_PART_def OPEN_REQUEST_def
  REVIEW_OUTCOME_def REVISE_def APPROVE_def COMMENT_def READ_REQUEST_def REQUEST_STATE_def
  CHECK_REPORT_def CHECK_OUTCOME_def ERROR_def

section \<open>Writers and readers\<close>

text \<open>The arms that are a sequence of fields.\<close>

definition put_hello_ok :: "16 word \<Rightarrow> bytes" where
  "put_hello_ok version =
     [char_of HELLO_OK] @ put_u16 version"

definition get_hello_ok :: "message reader" where
  "get_hello_ok =
     rbind r_u16 (\<lambda>version. rret (HelloOk version))"

definition put_permissions :: "bytes" where
  "put_permissions =
     [char_of PERMISSIONS]"

definition get_permissions :: "message reader" where
  "get_permissions =
     rret (Permissions)"

definition put_applied :: "64 word \<Rightarrow> role \<Rightarrow> visibility \<Rightarrow> bytes" where
  "put_applied epoch caller_role vis =
     [char_of APPLIED] @ put_u64 epoch @ [role_code caller_role] @ [visibility_code vis]"

definition get_applied :: "message reader" where
  "get_applied =
     rbind r_u64 (\<lambda>epoch. rbind r_role (\<lambda>caller_role. rbind r_visibility (\<lambda>vis. rret (Applied epoch caller_role vis))))"

definition put_stored :: "32 word \<Rightarrow> bytes" where
  "put_stored n =
     [char_of STORED] @ put_word32 n"

definition get_stored :: "message reader" where
  "get_stored =
     rbind r_u32 (\<lambda>n. rret (Stored n))"

definition put_publish :: "string \<Rightarrow> 64 word \<Rightarrow> object_id \<Rightarrow> bytes" where
  "put_publish operation expected tree =
     [char_of PUBLISH] @ put_short operation @ put_u64 expected @ put_id tree"

definition get_publish :: "message reader" where
  "get_publish =
     rbind r_operation (\<lambda>operation. rbind r_version (\<lambda>expected. rbind r_id (\<lambda>tree. rret (Publish operation expected tree))))"

definition put_layer_append :: "string \<Rightarrow> string \<Rightarrow> object_id option \<Rightarrow> object_id \<Rightarrow> bytes" where
  "put_layer_append operation lay parent checkpoint =
     [char_of LAYER_APPEND] @ put_short operation @ put_short lay @ put_optional_id parent @ put_id checkpoint"

definition get_layer_append :: "message reader" where
  "get_layer_append =
     rbind r_operation (\<lambda>operation. rbind r_layer (\<lambda>lay. rbind r_optional_id (\<lambda>parent. rbind r_id (\<lambda>checkpoint. rret (LayerAppend operation lay parent checkpoint)))))"

definition put_layer_head :: "string \<Rightarrow> bytes" where
  "put_layer_head lay =
     [char_of LAYER_HEAD] @ put_short lay"

definition get_layer_head :: "message reader" where
  "get_layer_head =
     rbind r_layer (\<lambda>lay. rret (LayerHead lay))"

definition put_layer_state :: "string \<Rightarrow> 64 word \<Rightarrow> 64 word \<Rightarrow> object_id \<Rightarrow> layer_status \<Rightarrow> bytes" where
  "put_layer_state lay base seq head' st =
     [char_of LAYER_STATE] @ put_short lay @ put_u64 base @ put_u64 seq @ put_id head' @ [layer_status_code st]"

definition get_layer_state :: "message reader" where
  "get_layer_state =
     rbind r_layer (\<lambda>lay. rbind r_version (\<lambda>base. rbind r_u64 (\<lambda>seq. rbind r_id (\<lambda>head'. rbind r_layer_status (\<lambda>st. rret (LayerState lay base seq head' st))))))"

definition put_layer_stack :: "string \<Rightarrow> string \<Rightarrow> object_id \<Rightarrow> object_id \<Rightarrow> bytes" where
  "put_layer_stack operation target target_head source =
     [char_of LAYER_STACK] @ put_short operation @ put_short target @ put_id target_head @ put_id source"

definition get_layer_stack :: "message reader" where
  "get_layer_stack =
     rbind r_operation (\<lambda>operation. rbind r_layer (\<lambda>target. rbind r_id (\<lambda>target_head. rbind r_id (\<lambda>source. rret (LayerStack operation target target_head source)))))"

definition put_publish_layer :: "string \<Rightarrow> string \<Rightarrow> object_id \<Rightarrow> 64 word \<Rightarrow> attribution \<Rightarrow> bytes" where
  "put_publish_layer operation lay expected base attribution =
     [char_of PUBLISH_LAYER] @ put_short operation @ put_short lay @ put_id expected @ put_u64 base @ put_attribution attribution"

definition get_publish_layer :: "message reader" where
  "get_publish_layer =
     rbind r_operation (\<lambda>operation. rbind r_layer (\<lambda>lay. rbind r_id (\<lambda>expected. rbind r_version (\<lambda>base. rbind r_attribution (\<lambda>attribution. rret (PublishLayer operation lay expected base attribution))))))"

definition put_publish_request :: "string \<Rightarrow> string \<Rightarrow> 32 word \<Rightarrow> 64 word \<Rightarrow> bytes" where
  "put_publish_request operation request revision base =
     [char_of PUBLISH_REQUEST] @ put_short operation @ put_short request @ put_word32 revision @ put_u64 base"

definition get_publish_request :: "message reader" where
  "get_publish_request =
     rbind r_operation (\<lambda>operation. rbind r_request (\<lambda>request. rbind r_u32 (\<lambda>revision. rbind r_version (\<lambda>base. rret (PublishRequest operation request revision base)))))"

definition put_resolved :: "64 word \<Rightarrow> object_id \<Rightarrow> object_id \<Rightarrow> bytes" where
  "put_resolved number i tree =
     [char_of RESOLVED] @ put_u64 number @ put_id i @ put_id tree"

definition get_resolved :: "message reader" where
  "get_resolved =
     rbind r_version (\<lambda>number. rbind r_id (\<lambda>i. rbind r_id (\<lambda>tree. rret (Resolved number i tree))))"

definition put_changeset :: "64 word \<Rightarrow> 64 word \<Rightarrow> bytes" where
  "put_changeset version offset =
     [char_of CHANGESET] @ put_u64 version @ put_u64 offset"

definition get_changeset :: "message reader" where
  "get_changeset =
     rbind r_version (\<lambda>version. rbind r_u64 (\<lambda>offset. rret (Changeset version offset)))"

definition put_open_request :: "string \<Rightarrow> string \<Rightarrow> string \<Rightarrow> object_id \<Rightarrow> 64 word \<Rightarrow> bytes" where
  "put_open_request operation request lay checkpoint base =
     [char_of OPEN_REQUEST] @ put_short operation @ put_short request @ put_short lay @ put_id checkpoint @ put_u64 base"

definition get_open_request :: "message reader" where
  "get_open_request =
     rbind r_operation (\<lambda>operation. rbind r_request (\<lambda>request. rbind r_layer (\<lambda>lay. rbind r_id (\<lambda>checkpoint. rbind r_version (\<lambda>base. rret (OpenRequest operation request lay checkpoint base))))))"

definition put_revise :: "string \<Rightarrow> string \<Rightarrow> 32 word \<Rightarrow> object_id \<Rightarrow> 64 word \<Rightarrow> bytes" where
  "put_revise operation request expected_revision checkpoint base =
     [char_of REVISE] @ put_short operation @ put_short request @ put_word32 expected_revision @ put_id checkpoint @ put_u64 base"

definition get_revise :: "message reader" where
  "get_revise =
     rbind r_operation (\<lambda>operation. rbind r_request (\<lambda>request. rbind r_u32 (\<lambda>expected_revision. rbind r_id (\<lambda>checkpoint. rbind r_version (\<lambda>base. rret (Revise operation request expected_revision checkpoint base))))))"

definition put_approve :: "string \<Rightarrow> string \<Rightarrow> 32 word \<Rightarrow> bytes" where
  "put_approve operation request revision =
     [char_of APPROVE] @ put_short operation @ put_short request @ put_word32 revision"

definition get_approve :: "message reader" where
  "get_approve =
     rbind r_operation (\<lambda>operation. rbind r_request (\<lambda>request. rbind r_u32 (\<lambda>revision. rret (Approve operation request revision))))"

definition put_comment :: "string \<Rightarrow> string \<Rightarrow> 32 word option \<Rightarrow> string \<Rightarrow> bytes" where
  "put_comment operation request revision body =
     [char_of COMMENT] @ put_short operation @ put_short request @ put_optional_u32 revision @ put_text32 body"

definition get_comment :: "message reader" where
  "get_comment =
     rbind r_operation (\<lambda>operation. rbind r_request (\<lambda>request. rbind r_optional_u32 (\<lambda>revision. rbind (r_text32 MAX_COMMENT) (\<lambda>body. rret (Comment operation request revision body)))))"

definition put_read_request :: "string \<Rightarrow> bytes" where
  "put_read_request request =
     [char_of READ_REQUEST] @ put_short request"

definition get_read_request :: "message reader" where
  "get_read_request =
     rbind r_request (\<lambda>request. rret (ReadRequest request))"

definition put_request_state :: "string \<Rightarrow> request_status \<Rightarrow> 32 word \<Rightarrow> bytes" where
  "put_request_state request st revision =
     [char_of REQUEST_STATE] @ put_short request @ [request_status_code st] @ put_word32 revision"

definition get_request_state :: "message reader" where
  "get_request_state =
     rbind r_request (\<lambda>request. rbind r_request_status (\<lambda>st. rbind r_u32 (\<lambda>revision. rret (RequestState request st revision))))"

text \<open>The arms with counted collections, sub-tags or checks of their own.\<close>

definition put_hello :: "16 word \<Rightarrow> 16 word \<Rightarrow> bytes" where
  "put_hello min' max' = [char_of HELLO] @ MAGIC @ put_u16 min' @ put_u16 max'"

definition get_hello :: "message reader" where
  "get_hello =
     rbind (r_take 4) (\<lambda>magic.
       if magic \<noteq> MAGIC then rerr (malformed ''bad protocol magic'')
       else rbind r_u16 (\<lambda>min'. rbind r_u16 (\<lambda>max'.
         if min' > max' then rerr (malformed ''empty version range'') else rret (Hello min' max'))))"

definition put_ref :: "kind \<times> object_id \<Rightarrow> bytes" where
  "put_ref item = [kind_code (fst item)] @ put_id (snd item)"

definition get_ref :: "(kind \<times> object_id) reader" where
  "get_ref = rbind r_kind (\<lambda>kind. rbind r_id (\<lambda>i. rret (kind, i)))"

definition put_refs :: "nat \<Rightarrow> (kind \<times> object_id) list \<Rightarrow> bytes" where
  "put_refs tag items = [char_of tag] @ put_u32 (length items) @ concat (map put_ref items)"

definition get_refs :: "((kind \<times> object_id) list \<Rightarrow> message) \<Rightarrow> message reader" where
  "get_refs mk = rbind (r_count MAX_WANT) (\<lambda>n. rbind (r_many n get_ref) (\<lambda>items. rret (mk items)))"

definition put_object :: "kind \<times> object_id \<times> bytes \<Rightarrow> bytes" where
  "put_object object' = (case object' of (kind, i, bytes) \<Rightarrow>
     [kind_code kind] @ put_id i @ put_u32 (length bytes) @ bytes)"

definition get_object :: "(kind \<times> object_id \<times> bytes) reader" where
  "get_object =
     rbind r_kind (\<lambda>kind. rbind r_id (\<lambda>i. rbind r_u32 (\<lambda>len.
       if unat len > kind_limit kind then rerr (limit_exceeded ''object exceeds size limit'')
       else rbind (r_take (unat len)) (\<lambda>bytes.
         case (if kind = KTree then emap_err (\<lambda>e. malformed (error_display e)) (ebind (chunk_decode bytes) (\<lambda>_. Inr ()))
               else Inr ()) of
           Inl e \<Rightarrow> rerr e
         | Inr _ \<Rightarrow> rret (kind, i, bytes)))))"

definition put_objects :: "(kind \<times> object_id \<times> bytes) list \<Rightarrow> bytes" where
  "put_objects objects = [char_of OBJECTS] @ put_u32 (length objects) @ concat (map put_object objects)"

definition get_objects :: "message reader" where
  "get_objects = rbind (r_count MAX_OBJECTS) (\<lambda>n. rbind (r_many n get_object) (\<lambda>objects. rret (Objects objects)))"

fun put_outcome :: "outcome \<Rightarrow> bytes" where
  "put_outcome (OAccepted number tree operation) =
     [char_of OUTCOME, char_of (0::nat)] @ put_u64 number @ put_id tree @ put_short operation"
| "put_outcome (OStale actual) = [char_of OUTCOME, char_of (1::nat)] @ put_u64 actual"

text \<open>A sub-tag chooses among readers.\<close>

fun r_choice :: "'a reader list \<Rightarrow> string \<Rightarrow> 'a reader" where
  "r_choice readers why =
     rbind r_u8 (\<lambda>b. if of_char b < length readers then readers ! of_char b else rerr (malformed why))"

definition get_outcome :: "message reader" where
  "get_outcome = r_choice
     [rbind r_version (\<lambda>number. rbind r_id (\<lambda>tree. rbind r_operation (\<lambda>operation.
        rret (Outcome (OAccepted number tree operation))))),
      rbind r_version (\<lambda>actual. rret (Outcome (OStale actual)))] ''unknown outcome''"

fun put_layer_outcome :: "layer_outcome \<Rightarrow> bytes" where
  "put_layer_outcome (LOAccepted seq checkpoint) =
     [char_of LAYER_OUTCOME, char_of (0::nat)] @ put_u64 seq @ put_id checkpoint"
| "put_layer_outcome (LOStale head') = [char_of LAYER_OUTCOME, char_of (1::nat)] @ put_id head'"
| "put_layer_outcome (LORefused code) = [char_of LAYER_OUTCOME, char_of (2::nat)] @ put_short code"

definition get_layer_outcome :: "message reader" where
  "get_layer_outcome = r_choice
     [rbind r_u64 (\<lambda>seq. rbind r_id (\<lambda>checkpoint. rret (LayerOutcome (LOAccepted seq checkpoint)))),
      rbind r_id (\<lambda>head'. rret (LayerOutcome (LOStale head'))),
      rbind r_short_str (\<lambda>code. rret (LayerOutcome (LORefused code)))] ''unknown layer outcome''"

fun put_publish_outcome :: "publish_outcome \<Rightarrow> bytes" where
  "put_publish_outcome (POPublished number i tree) =
     [char_of PUBLISH_OUTCOME, char_of (0::nat)] @ put_u64 number @ put_id i @ put_id tree"
| "put_publish_outcome (POConflict paths) =
     [char_of PUBLISH_OUTCOME, char_of (1::nat)] @ put_u32 (length paths) @ concat (map put_long paths)"
| "put_publish_outcome (POLayerStale head') = [char_of PUBLISH_OUTCOME, char_of (2::nat)] @ put_id head'"
| "put_publish_outcome (PORefused code) = [char_of PUBLISH_OUTCOME, char_of (3::nat)] @ put_short code"

definition get_publish_outcome :: "message reader" where
  "get_publish_outcome = r_choice
     [rbind r_version (\<lambda>number. rbind r_id (\<lambda>i. rbind r_id (\<lambda>tree.
        rret (PublishOutcome (POPublished number i tree))))),
      rbind (r_count MAX_WANT) (\<lambda>n. rbind (r_many n r_path) (\<lambda>paths. rret (PublishOutcome (POConflict paths)))),
      rbind r_id (\<lambda>head'. rret (PublishOutcome (POLayerStale head'))),
      rbind r_short_str (\<lambda>code. rret (PublishOutcome (PORefused code)))] ''unknown publish outcome''"

definition put_resolve :: "64 word option \<Rightarrow> bytes" where
  "put_resolve version =
     [char_of RESOLVE] @ put_flag (version \<noteq> None) @ put_u64 (case version of None \<Rightarrow> 0 | Some v \<Rightarrow> v)"

definition get_resolve :: "message reader" where
  "get_resolve =
     rbind r_u8 (\<lambda>flag. rbind r_version (\<lambda>version.
       if flag = char_of (0::nat) \<and> version = 0 then rret (Resolve None)
       else if flag = char_of (1::nat) then rret (Resolve (Some version))
       else rerr (malformed ''invalid version selector'')))"

definition put_changeset_part :: "64 word \<Rightarrow> bytes \<Rightarrow> bytes" where
  "put_changeset_part total' bytes =
     [char_of CHANGESET_PART] @ put_u64 total' @ put_u32 (length bytes) @ bytes"

definition get_changeset_part :: "message reader" where
  "get_changeset_part =
     rbind r_u64 (\<lambda>total'. rbind r_u32 (\<lambda>len.
       if unat len > MAX_CHANGESET_PART then rerr (limit_exceeded ''changeset part exceeds limit'')
       else rbind (r_take (unat len)) (\<lambda>bytes. rret (ChangesetPart total' bytes))))"

fun put_review_outcome :: "review_outcome \<Rightarrow> bytes" where
  "put_review_outcome (ROAccepted revision) =
     [char_of REVIEW_OUTCOME, char_of (0::nat)] @ put_word32 revision"
| "put_review_outcome (RORefused code) = [char_of REVIEW_OUTCOME, char_of (1::nat)] @ put_short code"

definition get_review_outcome :: "message reader" where
  "get_review_outcome = r_choice
     [rbind r_u32 (\<lambda>revision. rret (ReviewOutcome (ROAccepted revision))),
      rbind r_short_str (\<lambda>code. rret (ReviewOutcome (RORefused code)))] ''unknown review outcome''"

text \<open>\<open>checks.rs\<close>.\<close>

definition put_report :: "check_report \<Rightarrow> bytes" where
  "put_report report =
     [char_of CHECK_REPORT] @ put_short (cr_operation report) @ put_short (cr_repository report)
     @ put_id (cr_subject_tree report) @ put_optional_id (cr_subject_checkpoint report)
     @ put_short (cr_name report) @ [conclusion_code (cr_conclusion report)]
     @ put_optional_text (cr_details_url report) @ put_optional_text (cr_summary report)
     @ put_u64 (cr_started_at report) @ put_u64 (cr_completed_at report)"

definition read_report :: "message reader" where
  "read_report =
     rbind r_operation (\<lambda>operation. rbind r_short_str (\<lambda>repository. rbind r_id (\<lambda>subject_tree.
     rbind r_optional_id (\<lambda>subject_checkpoint. rbind r_short_str (\<lambda>name. rbind r_conclusion (\<lambda>conclusion.
     rbind (r_optional_text MAX_DETAILS_URL) (\<lambda>details_url. rbind (r_optional_text MAX_SUMMARY) (\<lambda>summary.
     rbind r_u64 (\<lambda>started_at. rbind r_u64 (\<lambda>completed_at.
       rret (CheckReport \<lparr>cr_operation = operation, cr_repository = repository,
         cr_subject_tree = subject_tree, cr_subject_checkpoint = subject_checkpoint, cr_name = name,
         cr_conclusion = conclusion, cr_details_url = details_url, cr_summary = summary,
         cr_started_at = started_at, cr_completed_at = completed_at\<rparr>)))))))))))"

fun put_check_outcome :: "check_outcome \<Rightarrow> bytes" where
  "put_check_outcome (COAccepted i seq) = [char_of CHECK_OUTCOME, char_of (0::nat)] @ put_id i @ put_u64 seq"
| "put_check_outcome (CORefused code) = [char_of CHECK_OUTCOME, char_of (1::nat)] @ put_short code"

definition read_check_outcome :: "message reader" where
  "read_check_outcome = r_choice
     [rbind r_id (\<lambda>i. rbind r_u64 (\<lambda>seq. rret (CheckOutcome (COAccepted i seq)))),
      rbind r_short_str (\<lambda>code. rret (CheckOutcome (CORefused code)))] ''unknown check outcome''"

definition put_error :: "string \<Rightarrow> string \<Rightarrow> bytes" where
  "put_error code detail =
     (let detail = truncate_utf8 detail MAX_DETAIL in
      [char_of ERROR] @ put_short code @ put_long detail)"

definition get_error :: "message reader" where
  "get_error =
     rbind r_short_str (\<lambda>code. rbind r_u16 (\<lambda>len.
       if unat len > MAX_DETAIL then rerr (limit_exceeded ''error detail exceeds limit'')
       else rbind (r_text (unat len) ''error detail is not UTF-8'') (\<lambda>detail. rret (Error code detail))))"

section \<open>Encoding and decoding\<close>

fun encode_body :: "message \<Rightarrow> bytes" where
  "encode_body (Hello a b) = put_hello a b"
| "encode_body (HelloOk a) = put_hello_ok a"
| "encode_body Permissions = put_permissions"
| "encode_body (Applied a b c) = put_applied a b c"
| "encode_body (Want a) = put_refs WANT a"
| "encode_body (Missing a) = put_refs MISSING a"
| "encode_body (Get a) = put_refs GET a"
| "encode_body (Objects a) = put_objects a"
| "encode_body (Stored a) = put_stored a"
| "encode_body (Publish a b c) = put_publish a b c"
| "encode_body (Outcome a) = put_outcome a"
| "encode_body (LayerAppend a b c d) = put_layer_append a b c d"
| "encode_body (LayerOutcome a) = put_layer_outcome a"
| "encode_body (LayerHead a) = put_layer_head a"
| "encode_body (LayerState a b c d e) = put_layer_state a b c d e"
| "encode_body (LayerStack a b c d) = put_layer_stack a b c d"
| "encode_body (PublishLayer a b c d e) = put_publish_layer a b c d e"
| "encode_body (PublishOutcome a) = put_publish_outcome a"
| "encode_body (PublishRequest a b c d) = put_publish_request a b c d"
| "encode_body (Resolve a) = put_resolve a"
| "encode_body (Resolved a b c) = put_resolved a b c"
| "encode_body (Changeset a b) = put_changeset a b"
| "encode_body (ChangesetPart a b) = put_changeset_part a b"
| "encode_body (OpenRequest a b c d e) = put_open_request a b c d e"
| "encode_body (ReviewOutcome a) = put_review_outcome a"
| "encode_body (Revise a b c d e) = put_revise a b c d e"
| "encode_body (Approve a b c) = put_approve a b c"
| "encode_body (Comment a b c d) = put_comment a b c d"
| "encode_body (ReadRequest a) = put_read_request a"
| "encode_body (CheckReport a) = put_report a"
| "encode_body (CheckOutcome a) = put_check_outcome a"
| "encode_body (RequestState a b c) = put_request_state a b c"
| "encode_body (Error a b) = put_error a b"

definition decode_tag :: "nat \<Rightarrow> message reader" where
  "decode_tag tag =
     (if tag = HELLO then get_hello
      else if tag = HELLO_OK then get_hello_ok
      else if tag = PERMISSIONS then get_permissions
      else if tag = APPLIED then get_applied
      else if tag = WANT then get_refs Want
      else if tag = MISSING then get_refs Missing
      else if tag = GET then get_refs Get
      else if tag = OBJECTS then get_objects
      else if tag = STORED then get_stored
      else if tag = PUBLISH then get_publish
      else if tag = OUTCOME then get_outcome
      else if tag = LAYER_APPEND then get_layer_append
      else if tag = LAYER_OUTCOME then get_layer_outcome
      else if tag = LAYER_HEAD then get_layer_head
      else if tag = LAYER_STATE then get_layer_state
      else if tag = LAYER_STACK then get_layer_stack
      else if tag = PUBLISH_LAYER then get_publish_layer
      else if tag = PUBLISH_OUTCOME then get_publish_outcome
      else if tag = PUBLISH_REQUEST then get_publish_request
      else if tag = RESOLVE then get_resolve
      else if tag = RESOLVED then get_resolved
      else if tag = CHANGESET then get_changeset
      else if tag = CHANGESET_PART then get_changeset_part
      else if tag = OPEN_REQUEST then get_open_request
      else if tag = REVIEW_OUTCOME then get_review_outcome
      else if tag = REVISE then get_revise
      else if tag = APPROVE then get_approve
      else if tag = COMMENT then get_comment
      else if tag = READ_REQUEST then get_read_request
      else if tag = CHECK_REPORT then read_report
      else if tag = CHECK_OUTCOME then read_check_outcome
      else if tag = REQUEST_STATE then get_request_state
      else if tag = ERROR then get_error
      else rerr (malformed ''unknown message tag''))"

text \<open>The upper bound on the encoded body, checked against the limits.\<close>

definition reserve_short :: "nat \<Rightarrow> string list \<Rightarrow> protocol_error + nat" where
  "reserve_short fixed texts =
     ebind (emap short_len texts) (\<lambda>lens. Inr (fixed + sum_list lens))"

fun objects_len :: "(kind \<times> object_id \<times> bytes) list \<Rightarrow> nat \<Rightarrow> protocol_error + nat" where
  "objects_len [] len = Inr len"
| "objects_len ((kind, i, bytes) # objects) len =
     (if length bytes > kind_limit kind then Inl (limit_exceeded ''object exceeds size limit'')
      else objects_len objects (sat_add64 len (OBJECT_OVERHEAD + length bytes)))"

definition report_len :: "check_report \<Rightarrow> protocol_error + nat" where
  "report_len report =
     (if cr_details_url report = Some [] \<or> cr_summary report = Some []
      then Inl (malformed ''optional text must be absent or nonempty'')
      else
        (let url = (case cr_details_url report of None \<Rightarrow> 0 | Some t \<Rightarrow> length t);
             summary = (case cr_summary report of None \<Rightarrow> 0 | Some t \<Rightarrow> length t)
         in if url > MAX_DETAILS_URL then Inl (limit_exceeded ''details URL exceeds limit'')
            else if summary > MAX_SUMMARY then Inl (limit_exceeded ''summary exceeds limit'')
            else reserve_short (1 + 32 + 33 + 1 + 5 + url + 5 + summary + 16)
              [cr_operation report, cr_repository report, cr_name report]))"

fun check_outcome_len :: "check_outcome \<Rightarrow> protocol_error + nat" where
  "check_outcome_len (COAccepted i seq) = Inr 42"
| "check_outcome_len (CORefused code) = reserve_short 2 [code]"

definition attribution_len :: "attribution \<Rightarrow> nat" where
  "attribution_len attribution = (case attribution of Human \<Rightarrow> 1 | Agent c m \<Rightarrow> 1 + 33 + 1)"

definition refs_len :: "(kind \<times> object_id) list \<Rightarrow> protocol_error + nat" where
  "refs_len items =
     (if length items > MAX_WANT then Inl (limit_exceeded ''count exceeds limit'') else Inr (5 + length items * 33))"

fun message_len :: "message \<Rightarrow> protocol_error + nat" where
  "message_len (Hello a b) = Inr 9"
| "message_len (HelloOk a) = Inr 3"
| "message_len Permissions = Inr 1"
| "message_len (Applied a b c) = Inr 11"
| "message_len (Want items) = refs_len items"
| "message_len (Missing items) = refs_len items"
| "message_len (Get items) = refs_len items"
| "message_len (Objects objects) =
     (if length objects > MAX_OBJECTS then Inl (limit_exceeded ''count exceeds limit'') else objects_len objects 5)"
| "message_len (Stored a) = Inr 5"
| "message_len (Publish operation a b) = reserve_short 41 [operation]"
| "message_len (Outcome (OAccepted a b operation)) = reserve_short 42 [operation]"
| "message_len (Outcome (OStale a)) = Inr 10"
| "message_len (LayerAppend operation layer a b) = reserve_short (1 + 33 + 32) [operation, layer]"
| "message_len (LayerOutcome (LOAccepted a b)) = Inr 42"
| "message_len (LayerOutcome (LOStale a)) = Inr 34"
| "message_len (LayerOutcome (LORefused code)) = reserve_short 2 [code]"
| "message_len (LayerHead layer) = reserve_short 1 [layer]"
| "message_len (LayerState layer a b c d) = reserve_short (1 + 8 + 8 + 32 + 1) [layer]"
| "message_len (LayerStack operation target a b) = reserve_short (1 + 64) [operation, target]"
| "message_len (PublishLayer operation layer a b attribution) =
     reserve_short (1 + 32 + 8 + attribution_len attribution) [operation, layer]"
| "message_len (PublishOutcome (POPublished a b c)) = Inr 74"
| "message_len (PublishOutcome (POConflict paths)) =
     (if length paths > MAX_WANT then Inl (limit_exceeded ''count exceeds limit'')
      else Inr (fold (\<lambda>path len. sat_add64 len (2 + length path)) paths 6))"
| "message_len (PublishOutcome (POLayerStale a)) = Inr 34"
| "message_len (PublishOutcome (PORefused code)) = reserve_short 2 [code]"
| "message_len (PublishRequest operation request a b) = reserve_short (1 + 4 + 8) [operation, request]"
| "message_len (Resolve a) = Inr 10"
| "message_len (Resolved a b c) = Inr 73"
| "message_len (Changeset a b) = Inr 17"
| "message_len (ChangesetPart a bytes) =
     (if length bytes > MAX_CHANGESET_PART then Inl (limit_exceeded ''changeset part exceeds limit'')
      else Inr (13 + length bytes))"
| "message_len (OpenRequest operation request layer a b) = reserve_short (1 + 32 + 8) [operation, request, layer]"
| "message_len (ReviewOutcome (ROAccepted a)) = Inr 6"
| "message_len (ReviewOutcome (RORefused code)) = reserve_short 2 [code]"
| "message_len (Revise operation request a b c) = reserve_short (1 + 4 + 32 + 8) [operation, request]"
| "message_len (Approve operation request a) = reserve_short (1 + 4) [operation, request]"
| "message_len (Comment operation request a body) =
     (if length body > MAX_COMMENT then Inl (limit_exceeded ''comment exceeds limit'')
      else reserve_short (1 + 5 + 4 + length body) [operation, request])"
| "message_len (ReadRequest request) = reserve_short 1 [request]"
| "message_len (CheckReport report) = report_len report"
| "message_len (CheckOutcome outcome) = check_outcome_len outcome"
| "message_len (RequestState request a b) = reserve_short (1 + 1 + 4) [request]"
| "message_len (Error code detail) =
     (if length code > 255 then Inl (malformed ''error code too long'') else Inr (4 + length code + MAX_DETAIL))"

definition encoded_len :: "message \<Rightarrow> protocol_error + nat" where
  "encoded_len message =
     ebind (message_len message) (\<lambda>len.
       if len > MAX_FRAME then Inl (limit_exceeded ''frame exceeds size limit'') else Inr len)"

definition encode :: "message \<Rightarrow> protocol_error + bytes" where
  "encode message = ebind (encoded_len message) (\<lambda>_. Inr (encode_body message))"

definition decode :: "bytes \<Rightarrow> protocol_error + message" where
  "decode body =
     (if length body > MAX_FRAME then Inl (limit_exceeded ''frame exceeds size limit'')
      else ebind (rbind r_u8 (\<lambda>tag. decode_tag (of_char tag)) body) (\<lambda>(message, rest).
        if rest \<noteq> [] then Inl (malformed ''trailing bytes after message'') else Inr message))"

end
