(* ===== verification/Codec.thy ===== *)
theory Codec
  imports Messages
begin

text \<open>
  Correctness of the codec of \<open>Messages\<close>, and the frame loops of \<open>codec.rs\<close> over a stream. Identifiers
  carry their Rust type invariants as \<open>message_ok\<close>. The theorems show that decoding accepts exactly the
  encodings of valid messages, each message having one encoding, that what is encoded decodes to itself,
  and that frames survive any chunking of the stream.
\<close>

section \<open>Valid messages\<close>

text \<open>The type invariants of a message's fields, and what \<open>decode\<close> asks beyond them.\<close>

definition ref_ok :: "kind \<times> object_id \<Rightarrow> bool" where
  "ref_ok item = oid_ok (snd item)"

definition object_ok :: "kind \<times> object_id \<times> bytes \<Rightarrow> bool" where
  "object_ok object' = (case object' of (kind, i, bytes) \<Rightarrow>
     oid_ok i \<and> length bytes \<le> kind_limit kind \<and> (kind = KTree \<longrightarrow> \<not> isl (chunk_decode bytes)))"

lemma object_ok_iff:
  "object_ok (kind, i, bytes) \<longleftrightarrow>
     oid_ok i \<and> length bytes \<le> kind_limit kind \<and> (kind = KTree \<longrightarrow> (\<exists>c. chunk_decode bytes = Inr c))"
  by (cases "chunk_decode bytes") (auto simp: object_ok_def)

definition refs_ok :: "(kind \<times> object_id) list \<Rightarrow> bool" where
  "refs_ok items \<longleftrightarrow> length items \<le> MAX_WANT \<and> list_all ref_ok items"

definition report_ok :: "check_report \<Rightarrow> bool" where
  "report_ok report \<longleftrightarrow>
     operation_ok (cr_operation report) \<and> short_ok (cr_repository report) \<and> oid_ok (cr_subject_tree report)
     \<and> pred_option oid_ok (cr_subject_checkpoint report) \<and> short_ok (cr_name report)
     \<and> opt_text_ok MAX_DETAILS_URL (cr_details_url report) \<and> opt_text_ok MAX_SUMMARY (cr_summary report)"

fun message_ok :: "message \<Rightarrow> bool" where
  "message_ok (Hello a b) = (a \<le> b)"
| "message_ok (HelloOk a) = True"
| "message_ok Permissions = True"
| "message_ok (Applied a b c) = True"
| "message_ok (Want a) = refs_ok a"
| "message_ok (Missing a) = refs_ok a"
| "message_ok (Get a) = refs_ok a"
| "message_ok (Objects a) = (length a \<le> MAX_OBJECTS \<and> list_all object_ok a)"
| "message_ok (Stored a) = True"
| "message_ok (Publish a b c) = (operation_ok a \<and> version_ok b \<and> oid_ok c)"
| "message_ok (Outcome (OAccepted a b c)) = (version_ok a \<and> oid_ok b \<and> operation_ok c)"
| "message_ok (Outcome (OStale a)) = version_ok a"
| "message_ok (LayerAppend a b c d) = (operation_ok a \<and> operation_ok b \<and> pred_option oid_ok c \<and> oid_ok d)"
| "message_ok (LayerOutcome (LOAccepted a b)) = oid_ok b"
| "message_ok (LayerOutcome (LOStale a)) = oid_ok a"
| "message_ok (LayerOutcome (LORefused a)) = short_ok a"
| "message_ok (LayerHead a) = operation_ok a"
| "message_ok (LayerState a b c d e) = (operation_ok a \<and> version_ok b \<and> oid_ok d)"
| "message_ok (LayerStack a b c d) = (operation_ok a \<and> operation_ok b \<and> oid_ok c \<and> oid_ok d)"
| "message_ok (PublishLayer a b c d e) =
     (operation_ok a \<and> operation_ok b \<and> oid_ok c \<and> version_ok d \<and> attribution_ok e)"
| "message_ok (PublishOutcome (POPublished a b c)) = (version_ok a \<and> oid_ok b \<and> oid_ok c)"
| "message_ok (PublishOutcome (POConflict a)) = (length a \<le> MAX_WANT \<and> list_all wire_path_ok a)"
| "message_ok (PublishOutcome (POLayerStale a)) = oid_ok a"
| "message_ok (PublishOutcome (PORefused a)) = short_ok a"
| "message_ok (PublishRequest a b c d) = (operation_ok a \<and> request_ok b \<and> version_ok d)"
| "message_ok (Resolve a) = pred_option version_ok a"
| "message_ok (Resolved a b c) = (version_ok a \<and> oid_ok b \<and> oid_ok c)"
| "message_ok (Changeset a b) = version_ok a"
| "message_ok (ChangesetPart a b) = (length b \<le> MAX_CHANGESET_PART)"
| "message_ok (OpenRequest a b c d e) =
     (operation_ok a \<and> request_ok b \<and> operation_ok c \<and> oid_ok d \<and> version_ok e)"
| "message_ok (ReviewOutcome (ROAccepted a)) = True"
| "message_ok (ReviewOutcome (RORefused a)) = short_ok a"
| "message_ok (Revise a b c d e) = (operation_ok a \<and> request_ok b \<and> oid_ok d \<and> version_ok e)"
| "message_ok (Approve a b c) = (operation_ok a \<and> request_ok b)"
| "message_ok (Comment a b c d) = (operation_ok a \<and> request_ok b \<and> text_ok MAX_COMMENT d)"
| "message_ok (ReadRequest a) = request_ok a"
| "message_ok (CheckReport a) = report_ok a"
| "message_ok (CheckOutcome (COAccepted a b)) = oid_ok a"
| "message_ok (CheckOutcome (CORefused a)) = short_ok a"
| "message_ok (RequestState a b c) = request_ok a"
| "message_ok (Error a b) = (short_ok a \<and> text_ok MAX_DETAIL b)"

section \<open>One arm at a time\<close>

lemma r_choice_Inr [field_get]:
  assumes "length readers < 256"
  shows "r_choice readers why r = Inr (x, r') \<longleftrightarrow>
    (\<exists>n < length readers. \<exists>r1. r = char_of n # r1 \<and> (readers ! n) r1 = Inr (x, r'))"
proof (cases r)
  case (Cons b r1)
  have n: "char_of n = b \<longleftrightarrow> n = of_char b" if "n < length readers" for n
    using that assms by (metis char_of_char of_char_of mod_less order.strict_trans)
  have "r_choice readers why r = Inr (x, r') \<longleftrightarrow>
      of_char b < length readers \<and> (readers ! of_char b) r1 = Inr (x, r')"
    by (simp add: Cons rerr_def)
  also have "\<dots> \<longleftrightarrow> (\<exists>n < length readers. \<exists>r2. r = char_of n # r2 \<and> (readers ! n) r2 = Inr (x, r'))"
    unfolding Cons using n by (auto simp del: char_of_char) (metis n)+
  finally show ?thesis .
qed auto

lemma less_2_iff: "(\<exists>n < Suc (Suc 0). P n) \<longleftrightarrow> P 0 \<or> P 1"
  by (auto simp: less_Suc_eq)

lemma less_3_iff: "(\<exists>n < Suc (Suc (Suc 0)). P n) \<longleftrightarrow> P 0 \<or> P 1 \<or> P 2"
  by (auto simp: less_Suc_eq numeral_2_eq_2)

lemma less_4_iff: "(\<exists>n < Suc (Suc (Suc (Suc 0))). P n) \<longleftrightarrow> P 0 \<or> P 1 \<or> P 2 \<or> P 3"
  by (auto simp: less_Suc_eq numeral_2_eq_2 numeral_3_eq_3)

interpretation ref: field put_ref get_ref ref_ok
  by unfold_locales (auto simp: get_ref_def put_ref_def ref_ok_def field_get)

lemma kind_code_inj: "kind_code a = kind_code b \<longleftrightarrow> a = b"
  by (cases a; cases b) auto

interpretation object': field put_object get_object object_ok
proof unfold_locales
  fix r :: bytes and x :: "kind \<times> object_id \<times> bytes" and r'
  obtain k i bs where x: "x = (k, i, bs)" by (cases x)
  have tail: "(case (if k = KTree then emap_err (\<lambda>e. malformed (error_display e)) (ebind (chunk_decode b) (\<lambda>_. Inr ()))
        else Inr ()) of Inl e \<Rightarrow> rerr e | Inr _ \<Rightarrow> rret (k, j, b)) r1 = Inr (x, r')
      \<longleftrightarrow> x = (k, j, b) \<and> r1 = r' \<and> (k = KTree \<longrightarrow> (\<exists>c. chunk_decode b = Inr c))" for k j b r1
    by (cases "chunk_decode b") (auto simp: rerr_def rret_def)
  have "get_object r = Inr (x, r') \<longleftrightarrow>
      (\<exists>w. (unat w \<le> kind_limit k \<and> length bs = unat w) \<and> oid_ok i
         \<and> (k = KTree \<longrightarrow> (\<exists>c. chunk_decode bs = Inr c)) \<and> r = [kind_code k] @ put_id i @ put_word32 w @ bs @ r')"
    unfolding get_object_def rbind_Inr kind.get_iff id.get_iff u32.get_iff guarded_Inr r_take_Inr tail not_less
    unfolding x by (auto simp: kind_code_inj) blast+
  also have "\<dots> \<longleftrightarrow> object_ok x \<and> r = put_object x @ r'"
    by (subst word_length)
      (cases k; auto simp: MAX_BLOB_def MAX_CHECKPOINT_def MAX_TREE_def MAX_CHUNK_def FORCE_def ITEM_def MAX_PATH_def
        x object_ok_iff put_object_def put_u32_def)+
  finally show "get_object r = Inr (x, r') \<longleftrightarrow> object_ok x \<and> r = put_object x @ r'" .
qed

lemma counts [simp]: "MAX_WANT < 2 ^ 32" "MAX_OBJECTS < 2 ^ 32" "MAX_WANT < 4294967296" "MAX_OBJECTS < 4294967296"
  by (simp_all add: MAX_WANT_def MAX_OBJECTS_def)

lemma get_refs_Inr [field_get]:
  "get_refs mk r = Inr (m, r') \<longleftrightarrow>
   (\<exists>items. refs_ok items \<and> m = mk items \<and> r = put_u32 (length items) @ concat (map put_ref items) @ r')"
  unfolding get_refs_def rbind_Inr rret_Inr r_count_Inr [OF counts(1)] ref.many_iff refs_ok_def by auto

lemma get_objects_Inr [field_get]:
  "get_objects r = Inr (m, r') \<longleftrightarrow>
   (\<exists>os. length os \<le> MAX_OBJECTS \<and> list_all object_ok os \<and> m = Objects os
      \<and> r = put_u32 (length os) @ concat (map put_object os) @ r')"
  unfolding get_objects_def rbind_Inr rret_Inr r_count_Inr [OF counts(2)] object'.many_iff by auto

lemma get_hello_Inr [field_get]:
  "get_hello r = Inr (m, r') \<longleftrightarrow> (\<exists>a b. a \<le> b \<and> m = Hello a b \<and> r = MAGIC @ put_u16 a @ put_u16 b @ r')"
  unfolding get_hello_def rbind_Inr guarded_Inr r_take_Inr u16.get_iff rret_Inr not_less not_not
  by (auto simp: MAGIC_def)

lemma get_resolve_Inr [field_get]:
  "get_resolve r = Inr (m, r') \<longleftrightarrow>
   (\<exists>v. pred_option version_ok v \<and> m = Resolve v
      \<and> r = put_flag (v \<noteq> None) @ put_u64 (case v of None \<Rightarrow> 0 | Some v \<Rightarrow> v) @ r')"
proof -
  have inner: "(if f = char_of (0::nat) \<and> v = 0 then rret (Resolve None)
      else if f = char_of (1::nat) then rret (Resolve (Some v)) else rerr e) r1 = Inr (m, r')
    \<longleftrightarrow> r1 = r' \<and> (\<exists>w. m = Resolve w \<and> [f] = put_flag (w \<noteq> None) \<and> v = (case w of None \<Rightarrow> 0 | Some w \<Rightarrow> w))"
    for f and v :: "64 word" and r1 e
    by (auto simp: rret_def rerr_def put_flag_def split: option.splits)
  have zero: "version_ok 0" by (simp add: version_ok_def)
  show ?thesis
    unfolding get_resolve_def rbind_Inr u8.get_iff version.get_iff inner
    by (auto simp: put_flag_def zero split: option.splits) (auto simp: zero)?
qed

lemma get_changeset_part_Inr [field_get]:
  "get_changeset_part r = Inr (m, r') \<longleftrightarrow>
   (\<exists>t bs. length bs \<le> MAX_CHANGESET_PART \<and> m = ChangesetPart t bs
      \<and> r = put_u64 t @ put_u32 (length bs) @ bs @ r')"
proof -
  have "get_changeset_part r = Inr (m, r') \<longleftrightarrow>
      (\<exists>t bs w. (unat w \<le> MAX_CHANGESET_PART \<and> length bs = unat w) \<and> m = ChangesetPart t bs
         \<and> r = put_u64 t @ put_word32 w @ bs @ r')"
    unfolding get_changeset_part_def rbind_Inr u64.get_iff u32.get_iff guarded_Inr r_take_Inr rret_Inr not_less
    by blast
  then show ?thesis
    by (subst (asm) word_length) (auto simp: MAX_CHANGESET_PART_def MAX_BLOB_def put_u32_def)
qed

lemma get_error_Inr [field_get]:
  "get_error r = Inr (m, r') \<longleftrightarrow>
   (\<exists>c d. short_ok c \<and> text_ok MAX_DETAIL d \<and> m = Error c d \<and> r = put_short c @ put_long d @ r')"
proof -
  have "get_error r = Inr (m, r') \<longleftrightarrow>
      (\<exists>c d w. (unat w \<le> MAX_DETAIL \<and> length d = unat w) \<and> short_ok c \<and> utf8 d \<and> m = Error c d
         \<and> r = put_short c @ put_u16 w @ d @ r')"
    unfolding get_error_def rbind_Inr short.get_iff u16.get_iff guarded_Inr r_text_Inr rret_Inr not_less
    by blast
  then show ?thesis
    by (subst (asm) word_length) (auto simp: MAX_DETAIL_def put_long_def text_ok_def)
qed

section \<open>Every arm\<close>

lemma get_hello_ok_Inr:
  "get_hello_ok r = Inr (m, r') \<longleftrightarrow>
   (\<exists>a. m = HelloOk a \<and> message_ok (HelloOk a) \<and> [char_of HELLO_OK] @ r = put_hello_ok a @ r')"
  by (auto simp: get_hello_ok_def put_hello_ok_def field_get)

lemma get_permissions_Inr:
  "get_permissions r = Inr (m, r') \<longleftrightarrow>
   (m = Permissions \<and> message_ok (Permissions) \<and> [char_of PERMISSIONS] @ r = put_permissions @ r')"
  by (auto simp: get_permissions_def put_permissions_def field_get)

lemma get_applied_Inr:
  "get_applied r = Inr (m, r') \<longleftrightarrow>
   (\<exists>a b c. m = Applied a b c \<and> message_ok (Applied a b c) \<and> [char_of APPLIED] @ r = put_applied a b c @ r')"
  by (auto simp: get_applied_def put_applied_def field_get)

lemma get_stored_Inr:
  "get_stored r = Inr (m, r') \<longleftrightarrow>
   (\<exists>a. m = Stored a \<and> message_ok (Stored a) \<and> [char_of STORED] @ r = put_stored a @ r')"
  by (auto simp: get_stored_def put_stored_def field_get)

lemma get_publish_Inr:
  "get_publish r = Inr (m, r') \<longleftrightarrow>
   (\<exists>a b c. m = Publish a b c \<and> message_ok (Publish a b c) \<and> [char_of PUBLISH] @ r = put_publish a b c @ r')"
  by (auto simp: get_publish_def put_publish_def field_get)

lemma get_layer_append_Inr:
  "get_layer_append r = Inr (m, r') \<longleftrightarrow>
   (\<exists>a b c d. m = LayerAppend a b c d \<and> message_ok (LayerAppend a b c d) \<and> [char_of LAYER_APPEND] @ r = put_layer_append a b c d @ r')"
  by (auto simp: get_layer_append_def put_layer_append_def field_get)

lemma get_layer_head_Inr:
  "get_layer_head r = Inr (m, r') \<longleftrightarrow>
   (\<exists>a. m = LayerHead a \<and> message_ok (LayerHead a) \<and> [char_of LAYER_HEAD] @ r = put_layer_head a @ r')"
  by (auto simp: get_layer_head_def put_layer_head_def field_get)

lemma get_layer_state_Inr:
  "get_layer_state r = Inr (m, r') \<longleftrightarrow>
   (\<exists>a b c d e. m = LayerState a b c d e \<and> message_ok (LayerState a b c d e) \<and> [char_of LAYER_STATE] @ r = put_layer_state a b c d e @ r')"
  by (auto simp: get_layer_state_def put_layer_state_def field_get)

lemma get_layer_stack_Inr:
  "get_layer_stack r = Inr (m, r') \<longleftrightarrow>
   (\<exists>a b c d. m = LayerStack a b c d \<and> message_ok (LayerStack a b c d) \<and> [char_of LAYER_STACK] @ r = put_layer_stack a b c d @ r')"
  by (auto simp: get_layer_stack_def put_layer_stack_def field_get)

lemma get_publish_layer_Inr:
  "get_publish_layer r = Inr (m, r') \<longleftrightarrow>
   (\<exists>a b c d e. m = PublishLayer a b c d e \<and> message_ok (PublishLayer a b c d e) \<and> [char_of PUBLISH_LAYER] @ r = put_publish_layer a b c d e @ r')"
  by (auto simp: get_publish_layer_def put_publish_layer_def field_get)

lemma get_publish_request_Inr:
  "get_publish_request r = Inr (m, r') \<longleftrightarrow>
   (\<exists>a b c d. m = PublishRequest a b c d \<and> message_ok (PublishRequest a b c d) \<and> [char_of PUBLISH_REQUEST] @ r = put_publish_request a b c d @ r')"
  by (auto simp: get_publish_request_def put_publish_request_def field_get)

lemma get_resolved_Inr:
  "get_resolved r = Inr (m, r') \<longleftrightarrow>
   (\<exists>a b c. m = Resolved a b c \<and> message_ok (Resolved a b c) \<and> [char_of RESOLVED] @ r = put_resolved a b c @ r')"
  by (auto simp: get_resolved_def put_resolved_def field_get)

lemma get_changeset_Inr:
  "get_changeset r = Inr (m, r') \<longleftrightarrow>
   (\<exists>a b. m = Changeset a b \<and> message_ok (Changeset a b) \<and> [char_of CHANGESET] @ r = put_changeset a b @ r')"
  by (auto simp: get_changeset_def put_changeset_def field_get)

lemma get_open_request_Inr:
  "get_open_request r = Inr (m, r') \<longleftrightarrow>
   (\<exists>a b c d e. m = OpenRequest a b c d e \<and> message_ok (OpenRequest a b c d e) \<and> [char_of OPEN_REQUEST] @ r = put_open_request a b c d e @ r')"
  by (auto simp: get_open_request_def put_open_request_def field_get)

lemma get_revise_Inr:
  "get_revise r = Inr (m, r') \<longleftrightarrow>
   (\<exists>a b c d e. m = Revise a b c d e \<and> message_ok (Revise a b c d e) \<and> [char_of REVISE] @ r = put_revise a b c d e @ r')"
  by (auto simp: get_revise_def put_revise_def field_get)

lemma get_approve_Inr:
  "get_approve r = Inr (m, r') \<longleftrightarrow>
   (\<exists>a b c. m = Approve a b c \<and> message_ok (Approve a b c) \<and> [char_of APPROVE] @ r = put_approve a b c @ r')"
  by (auto simp: get_approve_def put_approve_def field_get)

lemma get_comment_Inr:
  "get_comment r = Inr (m, r') \<longleftrightarrow>
   (\<exists>a b c d. m = Comment a b c d \<and> message_ok (Comment a b c d) \<and> [char_of COMMENT] @ r = put_comment a b c d @ r')"
  by (auto simp: get_comment_def put_comment_def field_get)

lemma get_read_request_Inr:
  "get_read_request r = Inr (m, r') \<longleftrightarrow>
   (\<exists>a. m = ReadRequest a \<and> message_ok (ReadRequest a) \<and> [char_of READ_REQUEST] @ r = put_read_request a @ r')"
  by (auto simp: get_read_request_def put_read_request_def field_get)

lemma get_request_state_Inr:
  "get_request_state r = Inr (m, r') \<longleftrightarrow>
   (\<exists>a b c. m = RequestState a b c \<and> message_ok (RequestState a b c) \<and> [char_of REQUEST_STATE] @ r = put_request_state a b c @ r')"
  by (auto simp: get_request_state_def put_request_state_def field_get)


text \<open>The arms with a sub-tag.\<close>

lemma get_outcome_Inr:
  "get_outcome r = Inr (m, r') \<longleftrightarrow>
   (\<exists>x. m = Outcome x \<and> message_ok (Outcome x) \<and> [char_of OUTCOME] @ r = put_outcome x @ r')"
proof
  assume "get_outcome r = Inr (m, r')"
  then show "\<exists>x. m = Outcome x \<and> message_ok (Outcome x) \<and> [char_of OUTCOME] @ r = put_outcome x @ r'"
    unfolding get_outcome_def by (auto simp: r_choice_Inr less_2_iff field_get simp del: r_choice.simps)
next
  assume "\<exists>x. m = Outcome x \<and> message_ok (Outcome x) \<and> [char_of OUTCOME] @ r = put_outcome x @ r'"
  then obtain x where "m = Outcome x" "message_ok (Outcome x)" "[char_of OUTCOME] @ r = put_outcome x @ r'" by blast
  then show "get_outcome r = Inr (m, r')"
    unfolding get_outcome_def
    by (cases x) (auto simp: r_choice_Inr less_2_iff field_get simp del: r_choice.simps)
qed

lemma get_layer_outcome_Inr:
  "get_layer_outcome r = Inr (m, r') \<longleftrightarrow>
   (\<exists>x. m = LayerOutcome x \<and> message_ok (LayerOutcome x) \<and> [char_of LAYER_OUTCOME] @ r = put_layer_outcome x @ r')"
proof
  assume "get_layer_outcome r = Inr (m, r')"
  then show "\<exists>x. m = LayerOutcome x \<and> message_ok (LayerOutcome x) \<and> [char_of LAYER_OUTCOME] @ r = put_layer_outcome x @ r'"
    unfolding get_layer_outcome_def by (auto simp: r_choice_Inr less_3_iff field_get simp del: r_choice.simps)
next
  assume "\<exists>x. m = LayerOutcome x \<and> message_ok (LayerOutcome x) \<and> [char_of LAYER_OUTCOME] @ r = put_layer_outcome x @ r'"
  then obtain x where "m = LayerOutcome x" "message_ok (LayerOutcome x)" "[char_of LAYER_OUTCOME] @ r = put_layer_outcome x @ r'" by blast
  then show "get_layer_outcome r = Inr (m, r')"
    unfolding get_layer_outcome_def
    by (cases x) (auto simp: r_choice_Inr less_3_iff field_get simp del: r_choice.simps)
qed

lemma get_publish_outcome_Inr:
  "get_publish_outcome r = Inr (m, r') \<longleftrightarrow>
   (\<exists>x. m = PublishOutcome x \<and> message_ok (PublishOutcome x) \<and> [char_of PUBLISH_OUTCOME] @ r = put_publish_outcome x @ r')"
proof
  assume "get_publish_outcome r = Inr (m, r')"
  then show "\<exists>x. m = PublishOutcome x \<and> message_ok (PublishOutcome x) \<and> [char_of PUBLISH_OUTCOME] @ r = put_publish_outcome x @ r'"
    unfolding get_publish_outcome_def by (auto simp: r_choice_Inr less_4_iff field_get r_count_Inr [OF counts(1)] path.many_iff simp del: r_choice.simps)
next
  assume "\<exists>x. m = PublishOutcome x \<and> message_ok (PublishOutcome x) \<and> [char_of PUBLISH_OUTCOME] @ r = put_publish_outcome x @ r'"
  then obtain x where "m = PublishOutcome x" "message_ok (PublishOutcome x)" "[char_of PUBLISH_OUTCOME] @ r = put_publish_outcome x @ r'" by blast
  then show "get_publish_outcome r = Inr (m, r')"
    unfolding get_publish_outcome_def
    by (cases x) (auto simp: r_choice_Inr less_4_iff field_get r_count_Inr [OF counts(1)] path.many_iff simp del: r_choice.simps)
qed

lemma get_review_outcome_Inr:
  "get_review_outcome r = Inr (m, r') \<longleftrightarrow>
   (\<exists>x. m = ReviewOutcome x \<and> message_ok (ReviewOutcome x) \<and> [char_of REVIEW_OUTCOME] @ r = put_review_outcome x @ r')"
proof
  assume "get_review_outcome r = Inr (m, r')"
  then show "\<exists>x. m = ReviewOutcome x \<and> message_ok (ReviewOutcome x) \<and> [char_of REVIEW_OUTCOME] @ r = put_review_outcome x @ r'"
    unfolding get_review_outcome_def by (auto simp: r_choice_Inr less_2_iff field_get simp del: r_choice.simps)
next
  assume "\<exists>x. m = ReviewOutcome x \<and> message_ok (ReviewOutcome x) \<and> [char_of REVIEW_OUTCOME] @ r = put_review_outcome x @ r'"
  then obtain x where "m = ReviewOutcome x" "message_ok (ReviewOutcome x)" "[char_of REVIEW_OUTCOME] @ r = put_review_outcome x @ r'" by blast
  then show "get_review_outcome r = Inr (m, r')"
    unfolding get_review_outcome_def
    by (cases x) (auto simp: r_choice_Inr less_2_iff field_get simp del: r_choice.simps)
qed

lemma read_check_outcome_Inr:
  "read_check_outcome r = Inr (m, r') \<longleftrightarrow>
   (\<exists>x. m = CheckOutcome x \<and> message_ok (CheckOutcome x) \<and> [char_of CHECK_OUTCOME] @ r = put_check_outcome x @ r')"
proof
  assume "read_check_outcome r = Inr (m, r')"
  then show "\<exists>x. m = CheckOutcome x \<and> message_ok (CheckOutcome x) \<and> [char_of CHECK_OUTCOME] @ r = put_check_outcome x @ r'"
    unfolding read_check_outcome_def by (auto simp: r_choice_Inr less_2_iff field_get simp del: r_choice.simps)
next
  assume "\<exists>x. m = CheckOutcome x \<and> message_ok (CheckOutcome x) \<and> [char_of CHECK_OUTCOME] @ r = put_check_outcome x @ r'"
  then obtain x where "m = CheckOutcome x" "message_ok (CheckOutcome x)" "[char_of CHECK_OUTCOME] @ r = put_check_outcome x @ r'" by blast
  then show "read_check_outcome r = Inr (m, r')"
    unfolding read_check_outcome_def
    by (cases x) (auto simp: r_choice_Inr less_2_iff field_get simp del: r_choice.simps)
qed

lemma read_report_Inr:
  "read_report r = Inr (m, r') \<longleftrightarrow>
   (\<exists>x. m = CheckReport x \<and> message_ok (CheckReport x) \<and> [char_of CHECK_REPORT] @ r = put_report x @ r')"
proof
  assume "read_report r = Inr (m, r')"
  then show "\<exists>x. m = CheckReport x \<and> message_ok (CheckReport x) \<and> [char_of CHECK_REPORT] @ r = put_report x @ r'"
    unfolding read_report_def by (auto simp: field_get report_ok_def put_report_def)
next
  assume "\<exists>x. m = CheckReport x \<and> message_ok (CheckReport x) \<and> [char_of CHECK_REPORT] @ r = put_report x @ r'"
  then obtain x where "m = CheckReport x" "message_ok (CheckReport x)" "[char_of CHECK_REPORT] @ r = put_report x @ r'"
    by blast
  then show "read_report r = Inr (m, r')"
    unfolding read_report_def by (cases x) (auto simp: field_get report_ok_def put_report_def)
qed

text \<open>The arms of the previous section in the same form.\<close>

lemma tagged_arms:
  "get_hello r = Inr (m, r') \<longleftrightarrow>
     (\<exists>a b. m = Hello a b \<and> message_ok (Hello a b) \<and> [char_of HELLO] @ r = put_hello a b @ r')"
  "get_refs mk r = Inr (m, r') \<longleftrightarrow>
     (\<exists>a. m = mk a \<and> refs_ok a \<and> [char_of t] @ r = put_refs t a @ r')"
  "get_objects r = Inr (m, r') \<longleftrightarrow>
     (\<exists>a. m = Objects a \<and> message_ok (Objects a) \<and> [char_of OBJECTS] @ r = put_objects a @ r')"
  "get_resolve r = Inr (m, r') \<longleftrightarrow>
     (\<exists>a. m = Resolve a \<and> message_ok (Resolve a) \<and> [char_of RESOLVE] @ r = put_resolve a @ r')"
  "get_changeset_part r = Inr (m, r') \<longleftrightarrow>
     (\<exists>a b. m = ChangesetPart a b \<and> message_ok (ChangesetPart a b)
        \<and> [char_of CHANGESET_PART] @ r = put_changeset_part a b @ r')"
  by (auto simp: field_get put_hello_def put_refs_def put_objects_def put_resolve_def put_changeset_part_def)

lemma truncate_utf8_id: "length t \<le> m \<Longrightarrow> truncate_utf8 t m = t"
proof -
  assume "length t \<le> m"
  moreover have "boundary_before t (length t) = length t" by (cases "length t") (simp_all add: char_boundary_def)
  ultimately show ?thesis by (simp add: truncate_utf8_def min_absorb1)
qed

lemma error_arm:
  "get_error r = Inr (m, r') \<longleftrightarrow>
     (\<exists>a b. m = Error a b \<and> message_ok (Error a b) \<and> [char_of ERROR] @ r = put_error a b @ r')"
  unfolding get_error_Inr by (auto simp: put_error_def text_ok_def truncate_utf8_id)

lemmas arms =
  tagged_arms(1) get_hello_ok_Inr get_permissions_Inr get_applied_Inr tagged_arms(3) get_stored_Inr
  get_publish_Inr get_outcome_Inr get_layer_append_Inr get_layer_outcome_Inr get_layer_head_Inr
  get_layer_state_Inr get_layer_stack_Inr get_publish_layer_Inr get_publish_outcome_Inr
  get_publish_request_Inr tagged_arms(4) get_resolved_Inr get_changeset_Inr tagged_arms(5)
  get_open_request_Inr get_review_outcome_Inr get_revise_Inr get_approve_Inr get_comment_Inr
  get_read_request_Inr read_report_Inr read_check_outcome_Inr get_request_state_Inr error_arm

section \<open>The dispatch\<close>

fun message_tag :: "message \<Rightarrow> nat" where
  "message_tag (Hello a b) = HELLO"
| "message_tag (HelloOk a) = HELLO_OK"
| "message_tag Permissions = PERMISSIONS"
| "message_tag (Applied a b c) = APPLIED"
| "message_tag (Want a) = WANT"
| "message_tag (Missing a) = MISSING"
| "message_tag (Get a) = GET"
| "message_tag (Objects a) = OBJECTS"
| "message_tag (Stored a) = STORED"
| "message_tag (Publish a b c) = PUBLISH"
| "message_tag (Outcome a) = OUTCOME"
| "message_tag (LayerAppend a b c d) = LAYER_APPEND"
| "message_tag (LayerOutcome a) = LAYER_OUTCOME"
| "message_tag (LayerHead a) = LAYER_HEAD"
| "message_tag (LayerState a b c d e) = LAYER_STATE"
| "message_tag (LayerStack a b c d) = LAYER_STACK"
| "message_tag (PublishLayer a b c d e) = PUBLISH_LAYER"
| "message_tag (PublishOutcome a) = PUBLISH_OUTCOME"
| "message_tag (PublishRequest a b c d) = PUBLISH_REQUEST"
| "message_tag (Resolve a) = RESOLVE"
| "message_tag (Resolved a b c) = RESOLVED"
| "message_tag (Changeset a b) = CHANGESET"
| "message_tag (ChangesetPart a b) = CHANGESET_PART"
| "message_tag (OpenRequest a b c d e) = OPEN_REQUEST"
| "message_tag (ReviewOutcome a) = REVIEW_OUTCOME"
| "message_tag (Revise a b c d e) = REVISE"
| "message_tag (Approve a b c) = APPROVE"
| "message_tag (Comment a b c d) = COMMENT"
| "message_tag (ReadRequest a) = READ_REQUEST"
| "message_tag (CheckReport a) = CHECK_REPORT"
| "message_tag (CheckOutcome a) = CHECK_OUTCOME"
| "message_tag (RequestState a b c) = REQUEST_STATE"
| "message_tag (Error a b) = ERROR"

lemma decode_tag_eqs:
  "decode_tag HELLO = get_hello"
  "decode_tag HELLO_OK = get_hello_ok"
  "decode_tag PERMISSIONS = get_permissions"
  "decode_tag APPLIED = get_applied"
  "decode_tag WANT = get_refs Want"
  "decode_tag MISSING = get_refs Missing"
  "decode_tag GET = get_refs Get"
  "decode_tag OBJECTS = get_objects"
  "decode_tag STORED = get_stored"
  "decode_tag PUBLISH = get_publish"
  "decode_tag OUTCOME = get_outcome"
  "decode_tag LAYER_APPEND = get_layer_append"
  "decode_tag LAYER_OUTCOME = get_layer_outcome"
  "decode_tag LAYER_HEAD = get_layer_head"
  "decode_tag LAYER_STATE = get_layer_state"
  "decode_tag LAYER_STACK = get_layer_stack"
  "decode_tag PUBLISH_LAYER = get_publish_layer"
  "decode_tag PUBLISH_OUTCOME = get_publish_outcome"
  "decode_tag PUBLISH_REQUEST = get_publish_request"
  "decode_tag RESOLVE = get_resolve"
  "decode_tag RESOLVED = get_resolved"
  "decode_tag CHANGESET = get_changeset"
  "decode_tag CHANGESET_PART = get_changeset_part"
  "decode_tag OPEN_REQUEST = get_open_request"
  "decode_tag REVIEW_OUTCOME = get_review_outcome"
  "decode_tag REVISE = get_revise"
  "decode_tag APPROVE = get_approve"
  "decode_tag COMMENT = get_comment"
  "decode_tag READ_REQUEST = get_read_request"
  "decode_tag CHECK_REPORT = read_report"
  "decode_tag CHECK_OUTCOME = read_check_outcome"
  "decode_tag REQUEST_STATE = get_request_state"
  "decode_tag ERROR = get_error"
  by (simp_all add: decode_tag_def tag_defs)

definition tags :: "nat list" where
  "tags =
     [HELLO, HELLO_OK, PERMISSIONS, APPLIED, WANT, MISSING, GET,
      OBJECTS, STORED, PUBLISH, OUTCOME, LAYER_APPEND, LAYER_OUTCOME, LAYER_HEAD,
      LAYER_STATE, LAYER_STACK, PUBLISH_LAYER, PUBLISH_OUTCOME, PUBLISH_REQUEST, RESOLVE, RESOLVED,
      CHANGESET, CHANGESET_PART, OPEN_REQUEST, REVIEW_OUTCOME, REVISE, APPROVE, COMMENT,
      READ_REQUEST, CHECK_REPORT, CHECK_OUTCOME, REQUEST_STATE, ERROR]"

lemma decode_tag_known: "decode_tag t r = Inr x \<Longrightarrow> t \<in> set tags"
  by (rule ccontr) (simp add: decode_tag_def tags_def rerr_def)

lemma tags_small: "t \<in> set tags \<Longrightarrow> t < 256"
  by (auto simp: tags_def tag_defs)

lemma message_tag_in: "message_tag m \<in> set tags"
  by (cases m) (simp_all add: tags_def)

lemma encode_body_tag: "\<exists>p. encode_body m = char_of (message_tag m) # p"
proof (cases m)
  case (Outcome x)
  then show ?thesis by (cases x) simp_all
next
  case (LayerOutcome x)
  then show ?thesis by (cases x) simp_all
next
  case (PublishOutcome x)
  then show ?thesis by (cases x) simp_all
next
  case (ReviewOutcome x)
  then show ?thesis by (cases x) simp_all
next
  case (CheckOutcome x)
  then show ?thesis by (cases x) simp_all
qed (simp_all add: put_hello_def put_hello_ok_def put_permissions_def put_applied_def put_objects_def put_stored_def
    put_publish_def put_layer_append_def put_layer_head_def put_layer_state_def put_layer_stack_def
    put_publish_layer_def put_publish_request_def put_resolve_def put_resolved_def put_changeset_def
    put_changeset_part_def put_open_request_def put_revise_def put_approve_def put_comment_def
    put_read_request_def put_request_state_def put_error_def put_refs_def put_report_def Let_def)

lemmas refs_arms =
  tagged_arms(2) [where mk = Want and t = WANT] tagged_arms(2) [where mk = Missing and t = MISSING]
  tagged_arms(2) [where mk = Get and t = GET]

lemma decode_tag_sound:
  assumes "decode_tag t r = Inr (m, r')"
  shows "message_ok m \<and> [char_of t] @ r = encode_body m @ r'"
proof -
  have "t \<in> set tags" by (rule decode_tag_known [OF assms])
  then show ?thesis
    using assms unfolding tags_def list.set insert_iff empty_iff
    by (elim disjE) (auto simp: decode_tag_eqs arms refs_arms simp del: append.simps)
qed

lemma decode_tag_complete:
  assumes "message_ok m" "[char_of (message_tag m)] @ r = encode_body m @ r'"
  shows "decode_tag (message_tag m) r = Inr (m, r')"
  using assms by (cases m) (auto simp: decode_tag_eqs arms refs_arms simp del: append.simps)

section \<open>Lengths\<close>

lemma length_puts [simp]:
  "length (put_u16 a) = 2" "length (put_word32 b) = 4" "length (put_u64 c) = 8" "length (put_u32 n) = 4"
  "length (put_flag f) = 1" "length (put_short t) = 1 + length t" "length (put_long t) = 2 + length t"
  "length (put_text32 t) = 4 + length t" "length (put_optional_u32 v) = 5"
  "oid_ok i \<Longrightarrow> length (put_id i) = 32"
  "pred_option oid_ok oi \<Longrightarrow> length (put_optional_id oi) = 33"
  "length (put_optional_text ot) = 5 + (case ot of None \<Rightarrow> 0 | Some t \<Rightarrow> length t)"
  by (auto simp: put_u16_def put_word32_def put_u64_def put_u32_def put_flag_def put_short_def put_long_def
      put_text32_def put_optional_u32_def put_id_def oid_ok_def put_optional_id_def ABSENT_ID_def
      put_optional_text_def split: option.split)

lemma length_put_attribution [simp]: "attribution_ok a \<Longrightarrow> length (put_attribution a) = attribution_len a"
  by (cases a) (auto simp: attribution_len_def)

lemma length_refs: "list_all ref_ok items \<Longrightarrow> length (concat (map put_ref items)) = length items * 33"
  by (induction items) (auto simp: put_ref_def ref_ok_def)

lemma length_objects:
  "list_all object_ok os \<Longrightarrow>
   length (concat (map put_object os)) = sum_list (map (\<lambda>(k, i, b). OBJECT_OVERHEAD + length b) os)"
  by (induction os) (auto simp: put_object_def object_ok_iff OBJECT_OVERHEAD_def)

lemma length_paths: "length (concat (map put_long ps)) = sum_list (map (\<lambda>p. 2 + length p) ps)"
  by (induction ps) auto

lemma short_len_Inr [result_simps]: "short_len t = Inr n \<longleftrightarrow> length t \<le> 255 \<and> n = 1 + length t"
  by (auto simp: short_len_def)

lemma reserve_short_Inr:
  "reserve_short k ts = Inr n \<longleftrightarrow> list_all (\<lambda>t. length t \<le> 255) ts \<and> n = k + sum_list (map (\<lambda>t. 1 + length t) ts)"
proof -
  have "list_all2 (\<lambda>x y. short_len x = Inr y) ts ls \<longleftrightarrow>
      list_all (\<lambda>t. length t \<le> 255) ts \<and> ls = map (\<lambda>t. 1 + length t) ts" for ls
    by (induction ts arbitrary: ls) (auto simp: list_all2_Cons1 short_len_Inr)
  then show ?thesis by (auto simp: reserve_short_def result_simps emap_Inr_iff)
qed

text \<open>The saturating sums are exact below the frame limit.\<close>

lemma sat_sum:
  "sat_add64 a b \<le> MAX_FRAME \<longleftrightarrow> a + b \<le> MAX_FRAME" "a + b \<le> MAX_FRAME \<Longrightarrow> sat_add64 a b = a + b"
  by (auto simp: sat_add64_def u64_max_def MAX_FRAME_def)

lemma objects_len_Inr:
  "objects_len os n = Inr l \<Longrightarrow> l \<le> MAX_FRAME \<Longrightarrow>
   l = n + sum_list (map (\<lambda>(k, i, b). OBJECT_OVERHEAD + length b) os)"
proof (induction os n rule: objects_len.induct)
  case (2 k i b os n)
  let ?s = "sat_add64 n (OBJECT_OVERHEAD + length b)"
  have l: "l = ?s + sum_list (map (\<lambda>(k, i, b). OBJECT_OVERHEAD + length b) os)"
    using 2 by (auto split: if_splits)
  then have "?s \<le> MAX_FRAME" using 2(3) by simp
  then show ?case using l sat_sum [of n "OBJECT_OVERHEAD + length b"] by simp
qed simp

lemma objects_len_ok:
  "list_all object_ok os \<Longrightarrow> n + sum_list (map (\<lambda>(k, i, b). OBJECT_OVERHEAD + length b) os) \<le> MAX_FRAME \<Longrightarrow>
   objects_len os n = Inr (n + sum_list (map (\<lambda>(k, i, b). OBJECT_OVERHEAD + length b) os))"
  by (induction os n rule: objects_len.induct) (auto simp: object_ok_iff sat_sum add.assoc)

lemma paths_len:
  "n \<le> u64_max \<Longrightarrow> fold (\<lambda>p l. sat_add64 l (2 + length p)) ps n = min (n + sum_list (map (\<lambda>p. 2 + length p) ps)) u64_max"
proof (induction ps arbitrary: n)
  case (Cons p ps)
  have "sat_add64 n (2 + length p) = min (n + (2 + length p)) u64_max" by (simp add: sat_add64_def)
  then show ?case using Cons.IH [of "sat_add64 n (2 + length p)"] by (auto simp: min_def)
qed simp

lemma frame_max: "MAX_FRAME < u64_max" "6 \<le> u64_max"
  by (simp_all add: MAX_FRAME_def u64_max_def)

lemma short_lengths:
  "operation_ok t \<Longrightarrow> length t \<le> 255" "request_ok t \<Longrightarrow> length t \<le> 255" "short_ok t \<Longrightarrow> length t \<le> 255"
  by (auto simp: operation_ok_def request_ok_def short_ok_def)

lemmas length_simps =
  reserve_short_Inr short_lengths length_refs length_objects length_paths frame_max
  put_hello_def put_hello_ok_def put_permissions_def put_applied_def put_objects_def
  put_stored_def put_publish_def put_layer_append_def put_layer_head_def put_layer_state_def
  put_layer_stack_def put_publish_layer_def put_publish_request_def put_resolve_def
  put_resolved_def put_changeset_def put_changeset_part_def put_open_request_def
  put_revise_def put_approve_def put_comment_def put_read_request_def
  put_request_state_def put_error_def put_refs_def put_report_def Let_def MAGIC_def

lemma opt_text_len:
  "opt_text_ok m t \<Longrightarrow> t \<noteq> Some [] \<and> (case t of None \<Rightarrow> 0 | Some t \<Rightarrow> length t) \<le> m"
  by (cases t) (auto simp: opt_text_ok_def text_ok_def)

lemma refs_len_Inr: "refs_ok items \<Longrightarrow> refs_len items = Inr (length (put_refs t items))"
  by (simp add: refs_len_def refs_ok_def put_refs_def length_refs)

lemma report_len_Inr: "report_ok r \<Longrightarrow> report_len r = Inr (length (put_report r))"
  using opt_text_len [of MAX_DETAILS_URL "cr_details_url r"] opt_text_len [of MAX_SUMMARY "cr_summary r"]
  by (simp add: report_len_def report_ok_def put_report_def reserve_short_Inr short_lengths Let_def)

lemma truncate_length: "length (truncate_utf8 t m) \<le> m"
  using boundary_before_spec [of t "min (length t) m"] by (simp add: truncate_utf8_def)

text \<open>The bound is the exact length, but for the reserved detail of \<open>Error\<close>.\<close>

lemma message_len_exact:
  assumes "message_ok m" "\<nexists>c d. m = Error c d"
  shows "length (encode_body m) \<le> MAX_FRAME \<Longrightarrow> message_len m = Inr (length (encode_body m))"
    and "message_len m = Inr l \<Longrightarrow> l \<le> MAX_FRAME \<Longrightarrow> length (encode_body m) = l"
proof -
  have objs: "message_len (Objects os) = objects_len os 5"
      "length (encode_body (Objects os)) = 5 + sum_list (map (\<lambda>(k, i, b). OBJECT_OVERHEAD + length b) os)"
    if "length os \<le> MAX_OBJECTS" "list_all object_ok os" for os
    using that by (simp_all add: put_objects_def length_objects)
  have paths: "message_len (PublishOutcome (POConflict ps)) = Inr (min (6 + sum_list (map (\<lambda>p. 2 + length p) ps)) u64_max)"
      "length (encode_body (PublishOutcome (POConflict ps))) = 6 + sum_list (map (\<lambda>p. 2 + length p) ps)"
    if "length ps \<le> MAX_WANT" for ps
    using that by (simp_all del: add_2_eq_Suc add_2_eq_Suc' add: paths_len frame_max(2) length_paths)
  have other: "message_len m = Inr (length (encode_body m))"
    if "\<nexists>os. m = Objects os" "\<nexists>ps. m = PublishOutcome (POConflict ps)"
  proof (cases m)
    case (Outcome x)
    then show ?thesis using assms by (cases x) (simp_all add: length_simps)
  next
    case (LayerOutcome x)
    then show ?thesis using assms by (cases x) (simp_all add: length_simps)
  next
    case (PublishOutcome x)
    then show ?thesis using assms that by (cases x) (simp_all add: length_simps)
  next
    case (ReviewOutcome x)
    then show ?thesis using assms by (cases x) (simp_all add: length_simps)
  next
    case (CheckOutcome x)
    then show ?thesis using assms by (cases x) (simp_all add: length_simps)
  next
    case (CheckReport x)
    then show ?thesis using assms by (simp add: report_len_Inr)
  next
    case (Comment a b c d)
    then show ?thesis using assms by (simp add: length_simps text_ok_def)
  qed (use assms that in \<open>simp_all add: length_simps refs_len_Inr [of _ WANT] refs_len_Inr [of _ MISSING]
        refs_len_Inr [of _ GET]\<close>)
  {
    assume h: "length (encode_body m) \<le> MAX_FRAME"
    consider os where "m = Objects os" | ps where "m = PublishOutcome (POConflict ps)"
      | "message_len m = Inr (length (encode_body m))" using other by blast
    then show "message_len m = Inr (length (encode_body m))"
    proof cases
      case 1
      then show ?thesis using h assms objs [of os] objects_len_ok [of os 5] by simp
    next
      case 2
      then show ?thesis using h assms paths [of ps] frame_max by (simp add: min_def)
    qed
  next
    assume h: "message_len m = Inr l" "l \<le> MAX_FRAME"
    consider os where "m = Objects os" | ps where "m = PublishOutcome (POConflict ps)"
      | "message_len m = Inr (length (encode_body m))" using other by blast
    then show "length (encode_body m) = l"
    proof cases
      case 1
      then show ?thesis using h assms objs [of os] objects_len_Inr [of os 5 l] by simp
    next
      case 2
      then show ?thesis using h assms paths [of ps] frame_max by (auto simp: min_def split: if_splits)
    qed (use h in simp)
  }
qed

lemma error_len:
  assumes "message_ok (Error c d)"
  shows "message_len (Error c d) = Inr (4 + length c + MAX_DETAIL)" "length (encode_body (Error c d)) \<le> 4 + length c + MAX_DETAIL"
    "4 + length c + MAX_DETAIL \<le> MAX_FRAME"
  using assms truncate_length [of d MAX_DETAIL]
  by (simp_all add: short_ok_def put_error_def MAX_DETAIL_def MAX_FRAME_def)

lemma encode_ok_iff:
  assumes "message_ok m"
  shows "encode m = Inr bs \<longleftrightarrow> bs = encode_body m \<and> length bs \<le> MAX_FRAME"
proof (cases "\<exists>c d. m = Error c d")
  case True
  then obtain c d where "m = Error c d" by blast
  then show ?thesis using error_len [of c d] assms by (auto simp: encode_def encoded_len_def simp del: encode_body.simps)
next
  case False
  note exact = message_len_exact [OF assms False]
  show ?thesis
  proof
    assume "encode m = Inr bs"
    then obtain l where "message_len m = Inr l" "l \<le> MAX_FRAME" "bs = encode_body m"
      by (auto simp: encode_def encoded_len_def result_simps split: if_splits)
    then show "bs = encode_body m \<and> length bs \<le> MAX_FRAME" using exact(2) by simp
  next
    assume "bs = encode_body m \<and> length bs \<le> MAX_FRAME"
    then have b: "bs = encode_body m" "length bs \<le> MAX_FRAME" by (rule conjunct1, rule conjunct2)
    then have "message_len m = Inr (length bs)" using exact(1) by blast
    then show "encode m = Inr bs" using b by (simp add: encode_def encoded_len_def)
  qed
qed

lemma decode_Inr:
  "decode bs = Inr m \<longleftrightarrow> length bs \<le> MAX_FRAME \<and> message_ok m \<and> bs = encode_body m"
proof -
  have "(case bs of [] \<Rightarrow> False | b # r \<Rightarrow> decode_tag (of_char b) r = Inr (m, [])) \<longleftrightarrow> message_ok m \<and> bs = encode_body m"
    (is "?l \<longleftrightarrow> ?r")
  proof
    assume ?l
    then obtain b r where b: "bs = b # r" "decode_tag (of_char b) r = Inr (m, [])" by (cases bs) auto
    then show ?r using decode_tag_sound [OF b(2)] by (simp del: encode_body.simps)
  next
    assume r: ?r
    obtain p where p: "encode_body m = char_of (message_tag m) # p" using encode_body_tag by blast
    have "decode_tag (message_tag m) p = Inr (m, [])" using r p by (intro decode_tag_complete) (simp_all del: encode_body.simps)
    moreover have "message_tag m mod 256 = message_tag m" using tags_small [OF message_tag_in] by (rule mod_less)
    ultimately show ?l using r p by (simp del: encode_body.simps)
  qed
  moreover have "decode bs = Inr m \<longleftrightarrow> length bs \<le> MAX_FRAME \<and> (case bs of [] \<Rightarrow> False | b # r \<Rightarrow> decode_tag (of_char b) r = Inr (m, []))"
    by (cases bs) (auto simp: decode_def result_simps split: if_splits)
  ultimately show ?thesis by blast
qed

section \<open>What the codec promises\<close>

text \<open>C22: \<open>decode\<close> accepts a body and returns \<open>m\<close> exactly when \<open>m\<close> is a valid message (every field meets
  its type's bound, its tree chunks decode) and the body is what \<open>encode\<close> makes of it. So \<open>decode\<close> after
  \<open>encode\<close> is the identity on valid messages, two bodies never decode to one message, and every
  accepted body re-encodes to itself, under the frame limit.\<close>

theorem decode_exact: "decode bs = Inr m \<longleftrightarrow> message_ok m \<and> encode m = Inr bs"
  using encode_ok_iff [of m bs] by (auto simp: decode_Inr)

text \<open>The length reserved before encoding is checked against the frame limit, bounds the encoded body of
  every valid message, and is exact for all of them but \<open>Error\<close>, whose detail it reserves in full.\<close>

theorem encoded_len_bounds:
  assumes "message_ok m" "encoded_len m = Inr l"
  shows "length (encode_body m) \<le> l \<and> l \<le> MAX_FRAME \<and> ((\<nexists>c d. m = Error c d) \<longrightarrow> length (encode_body m) = l)"
proof -
  have l: "message_len m = Inr l" "l \<le> MAX_FRAME"
    using assms(2) by (auto simp: encoded_len_def result_simps split: if_splits)
  show ?thesis
  proof (cases "\<exists>c d. m = Error c d")
    case True
    then obtain c d where "m = Error c d" by blast
    then show ?thesis using error_len [of c d] assms(1) l by simp
  qed (use message_len_exact(2) [OF assms(1)] l in blast)
qed

lemma encoded_len_bounds_witness:
  "length (encode_body (LayerHead ''a'')) = 3"
proof -
  have "message_ok (LayerHead ''a'')" by code_simp
  moreover have "encoded_len (LayerHead ''a'') = Inr 3"
    by (simp add: encoded_len_def MAX_FRAME_def reserve_short_def short_len_def)
  ultimately show ?thesis using encoded_len_bounds by blast
qed

text \<open>An error report always gets through: whatever the length of its detail, the encoding succeeds and
  decodes to the report with the detail cut at the last character boundary within the limit.\<close>

theorem error_gets_through:
  assumes "short_ok c" "utf8 d"
  shows "\<exists>bs. encode (Error c d) = Inr bs \<and> decode bs = Inr (Error c (truncate_utf8 d MAX_DETAIL))"
proof -
  let ?d = "truncate_utf8 d MAX_DETAIL"
  have d: "truncate_utf8 ?d MAX_DETAIL = ?d" by (rule truncate_utf8_id) (rule truncate_length)
  have ok: "message_ok (Error c ?d)"
    using assms truncate_length [of d MAX_DETAIL] by (simp add: text_ok_def truncate_utf8_valid)
  have same: "encode_body (Error c d) = encode_body (Error c ?d)" by (simp add: put_error_def d)
  have "4 + length c + MAX_DETAIL \<le> MAX_FRAME" using error_len(3) [OF ok] .
  then have "encode (Error c d) = Inr (encode_body (Error c d))"
    using assms(1) by (simp add: encode_def encoded_len_def short_ok_def del: encode_body.simps)
  moreover have "decode (encode_body (Error c ?d)) = Inr (Error c ?d)"
    using error_len(2,3) [OF ok] ok by (simp add: decode_Inr del: encode_body.simps message_ok.simps)
  ultimately show ?thesis unfolding same by blast
qed

lemma error_gets_through_witness:
  "\<exists>bs. encode (Error ''stale'' ''gone'') = Inr bs \<and>
     decode bs = Inr (Error ''stale'' (truncate_utf8 ''gone'' MAX_DETAIL))"
  by (rule error_gets_through) code_simp+

section \<open>Frames over a stream\<close>

text \<open>A stream is what its successive \<open>read\<close> calls do. A call returns at most as many bytes as asked
  for; what is left of a chunk is there for the next call. No bytes is the end of the stream.\<close>

datatype io_error = UnexpectedEof | OtherIo string

datatype read_event = Data bytes | Interrupted | Failed io_error

type_synonym stream = "read_event list"

definition from_io :: "io_error \<Rightarrow> protocol_error" where
  "from_io e = protocol_error_new ''io_error'' (case e of UnexpectedEof \<Rightarrow> ''unexpected end of file'' | OtherIo t \<Rightarrow> t)"

text \<open>The header's loop, and the loop of the standard \<open>read_exact\<close>: read until \<open>want\<close> bytes are there or
  the stream ends, retrying what was interrupted.\<close>

function fill :: "nat \<Rightarrow> stream \<Rightarrow> bytes \<Rightarrow> (io_error + bytes) \<times> stream" where
  "fill want events filled =
     (if want \<le> length filled then (Inr filled, events)
      else
        (case events of
          [] \<Rightarrow> (Inr filled, [])
        | Interrupted # events \<Rightarrow> fill want events filled
        | Failed e # events \<Rightarrow> (Inl e, events)
        | Data chunk # events \<Rightarrow>
            (let n = min (want - length filled) (length chunk);
                 events = (if n < length chunk then Data (drop n chunk) # events else events)
             in if n = 0 then (Inr filled, events) else fill want events (filled @ take n chunk))))"
  by pat_completeness auto
termination
  by (relation "measures [\<lambda>(want, events, filled). length events, \<lambda>(want, events, filled). want - length filled]") auto

declare fill.simps [simp del]

definition read_frame :: "stream \<Rightarrow> (protocol_error + message option) \<times> stream" where
  "read_frame events =
     (case fill 4 events [] of
       (Inl e, events) \<Rightarrow> (Inl (from_io e), events)
     | (Inr header, events) \<Rightarrow>
         if length header < 4 then (if header = [] then Inr None else Inl truncated, events)
         else
           (let len = be_val header
            in if len = 0 then (Inl (malformed ''empty frame''), events)
               else if len > MAX_FRAME then (Inl (limit_exceeded ''frame exceeds size limit''), events)
               else
                 (case fill len events [] of
                   (Inl e, events) \<Rightarrow> (Inl (if e = UnexpectedEof then truncated else from_io e), events)
                 | (Inr body, events) \<Rightarrow>
                     if length body < len then (Inl truncated, events)
                     else (ebind (decode body) (\<lambda>message. Inr (Some message)), events))))"

text \<open>The writer is the standard one: \<open>write_all\<close> appends its bytes or fails, then \<open>flush\<close>.\<close>

definition write_frame ::
  "('w \<Rightarrow> bytes \<Rightarrow> io_error + 'w) \<Rightarrow> ('w \<Rightarrow> io_error + 'w) \<Rightarrow> 'w \<Rightarrow> message \<Rightarrow> protocol_error + 'w" where
  "write_frame write_all flush w message =
     ebind (encode message) (\<lambda>body.
     ebind (emap_err from_io (write_all w (put_u32 (length body)))) (\<lambda>w.
     ebind (emap_err from_io (write_all w body)) (\<lambda>w.
     emap_err from_io (flush w))))"

text \<open>A stream that does not fail, and the bytes it carries.\<close>

fun steady :: "stream \<Rightarrow> bool" where
  "steady [] = True"
| "steady (Data chunk # events) \<longleftrightarrow> chunk \<noteq> [] \<and> steady events"
| "steady (Interrupted # events) = steady events"
| "steady (Failed e # events) = False"

fun payload :: "stream \<Rightarrow> bytes" where
  "payload [] = []"
| "payload (Data chunk # events) = chunk @ payload events"
| "payload (e # events) = payload events"

lemma take_in_parts:
  "n \<le> w \<Longrightarrow> n \<le> length xs \<Longrightarrow> take n xs @ take (w - n) (drop n (xs @ ys)) = take w (xs @ ys)"
  using take_add [of n "w - n" "xs @ ys"] by simp

lemma fill_steady:
  assumes "steady events"
  shows "\<exists>events'. fill want events filled = (Inr (filled @ take (want - length filled) (payload events)), events')
      \<and> steady events' \<and> payload events' = drop (want - length filled) (payload events)"
  using assms
proof (induction want events filled rule: fill.induct)
  case (1 want events filled)
  show ?case
  proof (cases "want \<le> length filled")
    case True
    then show ?thesis using 1 by (simp add: fill.simps)
  next
    case False
    show ?thesis
    proof (cases events)
      case (Cons e es)
      show ?thesis
      proof (cases e)
        case (Data chunk)
        define n where "n = min (want - length filled) (length chunk)"
        define rest where "rest = (if n < length chunk then Data (drop n chunk) # es else es)"
        have n: "0 < n" using 1 False Cons Data by (auto simp: n_def)
        have r: "steady rest" "payload rest = drop n (payload events)"
          using 1 Cons Data by (auto simp: rest_def n_def)
        have f: "fill want events filled = fill want rest (filled @ take n chunk)"
          using False Cons Data n by (subst fill.simps) (simp add: n_def rest_def Let_def)
        have "\<exists>events'. fill want rest (filled @ take n chunk)
            = (Inr ((filled @ take n chunk) @ take (want - length (filled @ take n chunk)) (payload rest)), events')
            \<and> steady events' \<and> payload events' = drop (want - length (filled @ take n chunk)) (payload rest)"
          using 1(1) [OF False Cons Data n_def rest_def] n r(1) by simp
        moreover have "take n chunk @ take (want - length filled - n) (drop n (payload events))
            = take (want - length filled) (payload events)"
          using Cons Data by (simp only: payload.simps, intro take_in_parts) (simp_all add: n_def)
        moreover have "length (take n chunk) = n" by (simp add: n_def)
        moreover have "n + (want - (n + length filled)) = want - length filled" by (simp add: n_def)
        ultimately show ?thesis by (simp add: f r(2) diff_diff_left add.commute)
      qed (use 1 False Cons in \<open>simp_all add: fill.simps [of want "_ # _"]\<close>)
    qed (simp add: fill.simps)
  qed
qed

lemma put_u32_length: "length (put_u32 n) = 4"
  by simp

lemma put_u32_be: "n < 2 ^ 32 \<Longrightarrow> be_val (put_u32 n) = n"
  by (simp add: put_u32_def put_word32_def be_val_be_bytes unat_of_nat)

lemma encode_length:
  assumes "message_ok m" "encode m = Inr body"
  shows "length body \<le> MAX_FRAME" "length body \<noteq> 0" "decode body = Inr m"
proof -
  have b: "body = encode_body m" "length body \<le> MAX_FRAME" 
    using encode_ok_iff [OF assms(1), of body] assms(2) by blast+
  obtain p where "encode_body m = char_of (message_tag m) # p" using encode_body_tag by blast
  then show "length body \<le> MAX_FRAME" "length body \<noteq> 0" "decode body = Inr m"
    using assms(1) b by (simp_all only: decode_Inr list.size)
qed

definition frame :: "bytes \<Rightarrow> bytes" where
  "frame body = put_u32 (length body) @ body"

lemma read_frame_message:
  assumes "steady events" "payload events = frame body @ rest" "message_ok m" "encode m = Inr body"
  shows "\<exists>events'. read_frame events = (Inr (Some m), events') \<and> steady events' \<and> payload events' = rest"
proof -
  note body = encode_length [OF assms(3,4)]
  have small: "length body < 2 ^ 32" using body(1) by (simp add: MAX_FRAME_def)
  obtain es where es: "fill 4 events [] = (Inr (put_u32 (length body)), es)" "steady es" "payload es = body @ rest"
    using fill_steady [OF assms(1), of 4 "[]"] by (auto simp: assms(2) frame_def)
  obtain fs where fs: "fill (length body) es [] = (Inr body, fs)" "steady fs" "payload fs = rest"
    using fill_steady [OF es(2), of "length body" "[]"] by (auto simp: es(3))
  show ?thesis
    using body small fs es(1) by (simp add: read_frame_def put_u32_be Let_def)
qed

lemma read_frame_end: "steady events \<Longrightarrow> payload events = [] \<Longrightarrow> \<exists>events'. read_frame events = (Inr None, events')"
  using fill_steady [of events 4 "[]"] by (auto simp: read_frame_def)

text \<open>Reading until the clean end of the stream, as every server and client loop does, at most \<open>fuel\<close> frames.\<close>

fun read_messages :: "nat \<Rightarrow> stream \<Rightarrow> protocol_error + message list" where
  "read_messages 0 events = Inr []"
| "read_messages (Suc fuel) events =
     (case read_frame events of
       (Inl e, events) \<Rightarrow> Inl e
     | (Inr None, events) \<Rightarrow> Inr []
     | (Inr (Some message), events) \<Rightarrow> ebind (read_messages fuel events) (\<lambda>messages. Inr (message # messages)))"

definition append_sink :: "bytes \<Rightarrow> bytes \<Rightarrow> io_error + bytes" where
  "append_sink w bs = Inr (w @ bs)"

fun write_messages :: "bytes \<Rightarrow> message list \<Rightarrow> protocol_error + bytes" where
  "write_messages w [] = Inr w"
| "write_messages w (message # messages) =
     ebind (write_frame append_sink Inr w message) (\<lambda>w. write_messages w messages)"

lemma write_frame_sink:
  "write_frame append_sink Inr w m = Inr w' \<longleftrightarrow> (\<exists>body. encode m = Inr body \<and> w' = w @ frame body)"
  by (auto simp: write_frame_def append_sink_def result_simps frame_def)

lemma write_messages_Inr:
  "write_messages w ms = Inr w' \<longleftrightarrow>
   (\<exists>bodies. list_all2 (\<lambda>m b. encode m = Inr b) ms bodies \<and> w' = w @ concat (map frame bodies))"
proof (induction ms arbitrary: w)
  case (Cons m ms)
  have "write_messages w (m # ms) = Inr w' \<longleftrightarrow>
      (\<exists>b bs. encode m = Inr b \<and> list_all2 (\<lambda>m b. encode m = Inr b) ms bs \<and> w' = w @ frame b @ concat (map frame bs))"
    by (auto simp: ebind_Inr_iff write_frame_sink Cons.IH)
  also have "\<dots> \<longleftrightarrow> (\<exists>bs. list_all2 (\<lambda>m b. encode m = Inr b) (m # ms) bs \<and> w' = w @ concat (map frame bs))"
    unfolding list_all2_Cons1 by (safe, rule_tac x = "b # bs" in exI) auto
  finally show ?case .
qed auto

text \<open>C23: Whatever messages are written one after the other, the reader gets back exactly those messages in
  order and then the clean end of the stream, however the stream cuts the bytes into chunks and however
  often a read is interrupted.\<close>

theorem frames_roundtrip:
  assumes "write_messages [] ms = Inr bs" "list_all message_ok ms" "steady events" "payload events = bs"
    "length ms < fuel"
  shows "read_messages fuel events = Inr ms"
proof -
  obtain bodies where "list_all2 (\<lambda>m b. encode m = Inr b) ms bodies" "payload events = concat (map frame bodies)"
    using assms by (auto simp: write_messages_Inr)
  then show ?thesis using assms(2,3,5)
  proof (induction ms arbitrary: bodies events fuel)
    case Nil
    then show ?case using read_frame_end [of events] by (cases fuel) auto
  next
    case (Cons m ms)
    then obtain b bodies' where b: "bodies = b # bodies'" "encode m = Inr b"
        "list_all2 (\<lambda>m b. encode m = Inr b) ms bodies'" by (auto simp: list_all2_Cons1)
    then obtain es where "read_frame events = (Inr (Some m), es)" "steady es" "payload es = concat (map frame bodies')"
      using Cons.prems read_frame_message [of events b "concat (map frame bodies')" m] by auto
    then show ?case using Cons.IH [OF b(3), of es "fuel - 1"] Cons.prems by (cases fuel) auto
  qed
qed

lemma frames_roundtrip_witness:
  "read_messages 3 [Data (put_u32 3), Data [char_of LAYER_HEAD], Interrupted, Data (put_short ''a'')] = Inr [LayerHead ''a'']"
proof (rule frames_roundtrip)
  show "write_messages [] [LayerHead ''a''] = Inr (put_u32 3 @ char_of LAYER_HEAD # put_short ''a'')"
    by (simp add: write_frame_def append_sink_def encode_def encoded_len_def reserve_short_def short_len_def MAX_FRAME_def
        put_layer_head_def put_short_def numeral_3_eq_3)
qed (code_simp | simp add: put_short_def put_u32_def put_word32_def)+

end
