(* ===== verification/Resources.thy ===== *)
theory Resources
  imports Prelude
begin

text \<open>
  \<open>crates/javelin-merge/src/resources.rs\<close>: the fixed admission limits of the merge engine and the
  usage they bound. Quantities are \<open>u64\<close>, kept as naturals; additions that the code saturates
  are \<open>sat_add64\<close>, and the lemmas of \<open>Merge\<close> show that the others stay below \<open>2 ^ 64\<close>.
\<close>

datatype resource =
    Entries | PathBytes | TotalPathBytes | BlobBytes | LoadedBytes | Lines | TableCells | Work

fun limit :: "resource \<Rightarrow> nat" where
  "limit Entries = 4096"
| "limit PathBytes = 1024"
| "limit TotalPathBytes = 128 * 1024"
| "limit BlobBytes = 1024 * 1024"
| "limit LoadedBytes = 8 * 1024 * 1024"
| "limit Lines = 8192"
| "limit TableCells = 4 * 1024 * 1024"
| "limit Work = 512 * 1024 * 1024"

record resource_limit =
  rl_resource :: resource
  rl_required :: nat
  rl_limit :: nat

definition check :: "resource \<Rightarrow> nat \<Rightarrow> resource_limit + unit" where
  "check r required =
     (if required > limit r
      then Inl \<lparr>rl_resource = r, rl_required = required, rl_limit = limit r\<rparr> else Inr ())"

datatype 'e merge_error = Load 'e | Resource resource_limit

record usage =
  work_units :: nat
  loaded_bytes :: nat

definition usage_default :: usage where
  "usage_default = \<lparr>work_units = 0, loaded_bytes = 0\<rparr>"

definition reserve :: "nat \<Rightarrow> usage \<Rightarrow> resource_limit + usage" where
  "reserve units u =
     (let required = sat_add64 (work_units u) units in
      ebind (check Work required) (\<lambda>_. Inr (u\<lparr>work_units := required\<rparr>)))"

definition loaded :: "nat \<Rightarrow> usage \<Rightarrow> resource_limit + usage" where
  "loaded n u =
     ebind (check BlobBytes n) (\<lambda>_.
     (let required = sat_add64 (loaded_bytes u) n in
      ebind (check LoadedBytes required) (\<lambda>_.
      ebind (reserve (4 * n + 32) u) (\<lambda>u. Inr (u\<lparr>loaded_bytes := required\<rparr>)))))"

text \<open>What every operation keeps.\<close>

definition usage_ok :: "usage \<Rightarrow> bool" where
  "usage_ok u \<longleftrightarrow> work_units u \<le> limit Work \<and> loaded_bytes u \<le> limit LoadedBytes"

lemma check_Inr [result_simps]: "check r n = Inr u \<longleftrightarrow> n \<le> limit r"
  by (auto simp: check_def)

lemma limit_less_max: "limit r < u64_max"
  by (cases r) (auto simp: u64_max_def)

lemma sat_add64_le: "sat_add64 a b \<le> limit r \<longleftrightarrow> a + b \<le> limit r"
  using limit_less_max [of r] by (auto simp: sat_add64_def)

lemma sat_add64_exact: "sat_add64 a b \<le> limit r \<Longrightarrow> sat_add64 a b = a + b"
  using limit_less_max [of r] by (auto simp: sat_add64_def)

lemma reserve_Inr [result_simps]:
  "reserve n u = Inr v \<longleftrightarrow>
   work_units u + n \<le> limit Work \<and> v = u\<lparr>work_units := work_units u + n\<rparr>"
  using sat_add64_le [of "work_units u" n Work] sat_add64_exact [of "work_units u" n Work]
  by (auto simp: reserve_def Let_def result_simps)

lemma loaded_Inr [result_simps]:
  "loaded n u = Inr v \<longleftrightarrow>
   n \<le> limit BlobBytes \<and> loaded_bytes u + n \<le> limit LoadedBytes
   \<and> work_units u + (4 * n + 32) \<le> limit Work
   \<and> v = u\<lparr>work_units := work_units u + (4 * n + 32), loaded_bytes := loaded_bytes u + n\<rparr>"
  using sat_add64_le [of "loaded_bytes u" n LoadedBytes] sat_add64_exact [of "loaded_bytes u" n LoadedBytes]
  by (auto simp: loaded_def Let_def result_simps)

lemma reserve_ok: "usage_ok u \<Longrightarrow> reserve n u = Inr v \<Longrightarrow> usage_ok v"
  by (auto simp: usage_ok_def result_simps)

lemma loaded_ok: "usage_ok u \<Longrightarrow> loaded n u = Inr v \<Longrightarrow> usage_ok v"
  by (auto simp: usage_ok_def result_simps)

end
