(* ===== verification/Matching.thy ===== *)
theory Matching
  imports Prelude "HOL-Library.Sublist"
begin

text \<open>
  \<open>crates/javelin-merge/src/matching.rs\<close>: one exact longest-common-subsequence matching of two line
  lists, and for each base line whether every longest matching keeps it. The flat table
  \<open>prefix[i * width + j]\<close> is the list of its rows, the \<open>u32\<close> cells are naturals (bounded by the
  number of lines, which admission keeps below 8192).
\<close>

section \<open>The program\<close>

text \<open>One row of the prefix table from the row above it: \<open>left\<close> is the cell just written.\<close>

fun prefix_cells :: "'a \<Rightarrow> 'a list \<Rightarrow> nat list \<Rightarrow> nat \<Rightarrow> nat list" where
  "prefix_cells x (y # ys) (p # p' # ps) left =
     (let v = (if x = y then p + 1 else max p' left) in v # prefix_cells x ys (p' # ps) v)"
| "prefix_cells x _ _ left = []"

definition prefix_row :: "'a \<Rightarrow> 'a list \<Rightarrow> nat list \<Rightarrow> nat list" where
  "prefix_row x other up = 0 # prefix_cells x other up 0"

fun prefix_table :: "'a list \<Rightarrow> 'a list \<Rightarrow> nat list \<Rightarrow> nat list list" where
  "prefix_table [] other up = [up]"
| "prefix_table (x # base) other up = up # prefix_table base other (prefix_row x other up)"

text \<open>The traceback loop from the last cell.\<close>

function traceback ::
  "'a list \<Rightarrow> 'a list \<Rightarrow> nat list list \<Rightarrow> nat \<Rightarrow> nat \<Rightarrow> nat option list \<Rightarrow> nat option list" where
  "traceback base other tbl i j matched =
     (if 0 < i \<and> 0 < j then
        if base ! (i - 1) = other ! (j - 1)
        then traceback base other tbl (i - 1) (j - 1) (matched[i - 1 := Some (j - 1)])
        else if tbl ! (i - 1) ! j \<ge> tbl ! i ! (j - 1)
        then traceback base other tbl (i - 1) j matched
        else traceback base other tbl i (j - 1) matched
      else matched)"
  by pat_completeness auto
termination
  by (relation "measure (\<lambda>(_, _, _, i, j, _). i + j)") auto

declare traceback.simps [simp del]

text \<open>One row of the suffix table from the row below it; the last cell is always 0.\<close>

fun suffix_row :: "'a \<Rightarrow> 'a list \<Rightarrow> nat list \<Rightarrow> nat list" where
  "suffix_row x (y # ys) (s # ss) =
     (let row = suffix_row x ys ss in
      (if x = y then 1 + hd ss else max s (hd row)) # row)"
| "suffix_row x _ _ = [0]"

definition best_without :: "nat list \<Rightarrow> nat list \<Rightarrow> nat" where
  "best_without up suf = fold max (map2 (+) up suf) 0"

text \<open>The loop over base rows from the last to the first.\<close>

fun mandatory_rows ::
  "'a list \<Rightarrow> 'a list \<Rightarrow> nat list list \<Rightarrow> nat \<Rightarrow> nat \<Rightarrow> nat list \<Rightarrow> bool list \<Rightarrow> bool list" where
  "mandatory_rows base other tbl best 0 suf acc = acc"
| "mandatory_rows base other tbl best (Suc i) suf acc =
     mandatory_rows base other tbl best i (suffix_row (base ! i) other suf)
       ((best_without (tbl ! i) suf < best) # acc)"

definition matches :: "'a list \<Rightarrow> 'a list \<Rightarrow> nat option list \<times> bool list" where
  "matches base other =
     (let n = length base; m = length other;
          tbl = prefix_table base other (replicate (m + 1) 0);
          best = tbl ! n ! m
      in (traceback base other tbl n m (replicate n None),
          mandatory_rows base other tbl best n (replicate (m + 1) 0) []))"

section \<open>Specification: longest common subsequences\<close>

fun lcs :: "'a list \<Rightarrow> 'a list \<Rightarrow> nat" where
  "lcs (x # xs) (y # ys) =
     (if x = y then 1 + lcs xs ys else max (lcs xs (y # ys)) (lcs (x # xs) ys))"
| "lcs _ _ = 0"

lemma lcs_Nil [simp]: "lcs [] ys = 0" "lcs xs [] = 0"
  by (cases xs; simp)+

lemma subseq_tails: "subseq (z # zs) (x # xs) \<Longrightarrow> subseq zs xs"
  by (cases "z = x") (auto dest: subseq_Cons' subseq_Cons2_neq)

lemma lcs_upper: "subseq zs xs \<Longrightarrow> subseq zs ys \<Longrightarrow> length zs \<le> lcs xs ys"
proof (induction xs ys arbitrary: zs rule: lcs.induct)
  case (1 x xs y ys)
  show ?case
  proof (cases "x = y")
    case True
    show ?thesis
    proof (cases zs)
      case (Cons z zs')
      have "subseq zs' xs" "subseq zs' ys"
        using "1.prems" Cons subseq_tails by simp_all
      with "1.IH"(1) [OF True] True Cons show ?thesis by simp
    qed simp
  next
    case False
    have "subseq zs xs \<or> subseq zs ys"
    proof (cases zs)
      case (Cons z zs')
      then show ?thesis using "1.prems" False by (metis subseq_Cons2_neq)
    qed simp
    then show ?thesis
      using "1.IH"(2,3) [OF False] "1.prems" False by (auto simp: le_max_iff_disj)
  qed
qed auto

lemma lcs_attained: "\<exists>zs. subseq zs xs \<and> subseq zs ys \<and> length zs = lcs xs ys"
proof (induction xs ys rule: lcs.induct)
  case (1 x xs y ys)
  show ?case
  proof (cases "x = y")
    case True
    with "1.IH"(1) obtain zs where "subseq zs xs" "subseq zs ys" "length zs = lcs xs ys" by blast
    with True show ?thesis by (intro exI [of _ "x # zs"]) auto
  next
    case False
    with "1.IH"(2,3) obtain us vs where
      "subseq us xs" "subseq us (y # ys)" "length us = lcs xs (y # ys)"
      "subseq vs (x # xs)" "subseq vs ys" "length vs = lcs (x # xs) ys" by blast
    with False show ?thesis
      by (cases "lcs xs (y # ys) \<le> lcs (x # xs) ys") (auto intro: list_emb_Cons)
  qed
qed (auto intro: exI [of _ "[]"])

lemma lcs_eqI:
  assumes "\<And>zs. subseq zs xs \<Longrightarrow> subseq zs ys \<Longrightarrow> length zs \<le> k"
    and "subseq us xs" "subseq us ys" "length us = k"
  shows "lcs xs ys = k"
  using assms lcs_upper [of us xs ys] lcs_attained [of xs ys] by (metis le_antisym)

lemma subseq_rev_imp: "subseq xs ys \<Longrightarrow> subseq (rev xs) (rev ys)"
proof (induction rule: list_emb.induct)
  case (list_emb_Cons xs ys y)
  then show ?case by (simp add: subseq_rev_drop_many)
next
  case (list_emb_Cons2 x y xs ys)
  then show ?case by (simp add: list_emb_append_mono)
qed simp

lemma lcs_rev: "lcs (rev xs) (rev ys) = lcs xs ys"
proof -
  obtain us where us: "subseq us xs" "subseq us ys" "length us = lcs xs ys"
    using lcs_attained by blast
  show ?thesis
  proof (rule lcs_eqI [where us = "rev us"])
    fix zs assume "subseq zs (rev xs)" "subseq zs (rev ys)"
    then have "subseq (rev zs) xs" "subseq (rev zs) ys"
      by (metis rev_rev_ident subseq_rev_imp)+
    then show "length zs \<le> lcs xs ys" using lcs_upper by fastforce
  qed (use us subseq_rev_imp in auto)
qed

lemma lcs_snoc:
  "lcs (xs @ [x]) (ys @ [y]) =
     (if x = y then 1 + lcs xs ys else max (lcs xs (ys @ [y])) (lcs (xs @ [x]) ys))"
  using lcs_rev [of "xs @ [x]" "ys @ [y]"] lcs_rev [of xs ys]
    lcs_rev [of xs "ys @ [y]"] lcs_rev [of "xs @ [x]" ys] by (auto split: if_splits)

lemma lcs_self: "lcs xs xs = length xs"
  by (induction xs) auto

lemma lcs_append:
  shows "j \<le> length zs \<Longrightarrow> lcs xs (take j zs) + lcs ys (drop j zs) \<le> lcs (xs @ ys) zs"
    and "\<exists>j \<le> length zs. lcs xs (take j zs) + lcs ys (drop j zs) = lcs (xs @ ys) zs"
proof -
  have le: "lcs xs (take j zs) + lcs ys (drop j zs) \<le> lcs (xs @ ys) zs" for j
  proof -
    obtain us where us: "subseq us xs" "subseq us (take j zs)" "length us = lcs xs (take j zs)"
      using lcs_attained by blast
    obtain vs where vs: "subseq vs ys" "subseq vs (drop j zs)" "length vs = lcs ys (drop j zs)"
      using lcs_attained by blast
    have "subseq (us @ vs) (xs @ ys)" "subseq (us @ vs) (take j zs @ drop j zs)"
      using us vs by (blast intro: list_emb_append_mono)+
    then have "length (us @ vs) \<le> lcs (xs @ ys) zs"
      by (intro lcs_upper) simp_all
    with us vs show ?thesis by simp
  qed
  then show "lcs xs (take j zs) + lcs ys (drop j zs) \<le> lcs (xs @ ys) zs" .
  obtain ws where ws: "subseq ws (xs @ ys)" "subseq ws zs" "length ws = lcs (xs @ ys) zs"
    using lcs_attained by blast
  obtain us vs where uv: "ws = us @ vs" "subseq us xs" "subseq vs ys"
    using ws(1) by (rule subseq_appendE)
  obtain z1 z2 where z: "zs = z1 @ z2" "subseq us z1" "subseq vs z2"
    using ws(2) uv(1) list_emb_appendD by metis
  have "length us \<le> lcs xs z1" "length vs \<le> lcs ys z2"
    using uv z lcs_upper by blast+
  then have "lcs xs (take (length z1) zs) + lcs ys (drop (length z1) zs) = lcs (xs @ ys) zs"
    using ws(3) uv(1) z(1) le [of "length z1"] by simp
  then show "\<exists>j \<le> length zs. lcs xs (take j zs) + lcs ys (drop j zs) = lcs (xs @ ys) zs"
    using z(1) by (intro exI [of _ "length z1"]) simp
qed

section \<open>The tables hold longest common subsequence lengths\<close>

definition prefix_lens :: "'a list \<Rightarrow> 'a list \<Rightarrow> nat list" where
  "prefix_lens xs ys = map (\<lambda>j. lcs xs (take j ys)) [0..<Suc (length ys)]"

definition suffix_lens :: "'a list \<Rightarrow> 'a list \<Rightarrow> nat list" where
  "suffix_lens xs ys = map (\<lambda>j. lcs xs (drop j ys)) [0..<Suc (length ys)]"

lemma prefix_lens_nth: "j \<le> length ys \<Longrightarrow> prefix_lens xs ys ! j = lcs xs (take j ys)"
  by (simp add: prefix_lens_def del: upt_Suc)

lemma suffix_lens_nth: "j \<le> length ys \<Longrightarrow> suffix_lens xs ys ! j = lcs xs (drop j ys)"
  by (simp add: suffix_lens_def del: upt_Suc)

lemma length_lens [simp]:
  "length (prefix_lens xs ys) = Suc (length ys)" "length (suffix_lens xs ys) = Suc (length ys)"
  by (simp_all add: prefix_lens_def suffix_lens_def)

lemma replicate_lens:
  "prefix_lens [] ys = replicate (Suc (length ys)) 0"
  "suffix_lens [] ys = replicate (Suc (length ys)) 0"
  by (simp_all add: prefix_lens_def suffix_lens_def map_replicate_const del: upt_Suc)

lemma map_upt_shift: "map f [0..<Suc n] = f 0 # map (\<lambda>k. f (Suc k)) [0..<n]"
  by (simp add: map_upt_Suc del: upt_Suc)

lemma prefix_cells_lcs:
  "prefix_cells x ys2 (map (\<lambda>k. lcs xs (ys1 @ take k ys2)) [0..<Suc (length ys2)]) (lcs (xs @ [x]) ys1)
   = map (\<lambda>k. lcs (xs @ [x]) (ys1 @ take (Suc k) ys2)) [0..<length ys2]"
proof (induction ys2 arbitrary: ys1)
  case (Cons y ys)
  let ?f = "\<lambda>k. lcs xs (ys1 @ take k (y # ys))"
  have cells: "map ?f [0..<Suc (length (y # ys))] =
      lcs xs ys1 # lcs xs (ys1 @ [y]) # map (\<lambda>k. lcs xs (ys1 @ y # take (Suc k) ys)) [0..<length ys]"
    by (simp only: length_Cons map_upt_shift take_0 take_Suc_Cons append_Nil2)
  have tail: "lcs xs (ys1 @ [y]) # map (\<lambda>k. lcs xs (ys1 @ y # take (Suc k) ys)) [0..<length ys]
      = map (\<lambda>k. lcs xs ((ys1 @ [y]) @ take k ys)) [0..<Suc (length ys)]"
    by (simp only: map_upt_shift take_0 append_Nil2 append_assoc append_Cons append_Nil)
  have cell: "(if x = y then lcs xs ys1 + 1 else max (lcs xs (ys1 @ [y])) (lcs (xs @ [x]) ys1))
      = lcs (xs @ [x]) (ys1 @ [y])"
    by (simp add: lcs_snoc)
  have right: "map (\<lambda>k. lcs (xs @ [x]) (ys1 @ take (Suc k) (y # ys))) [0..<length (y # ys)]
      = lcs (xs @ [x]) (ys1 @ [y])
        # map (\<lambda>k. lcs (xs @ [x]) ((ys1 @ [y]) @ take (Suc k) ys)) [0..<length ys]"
    by (simp only: length_Cons map_upt_shift take_0 take_Suc_Cons append_assoc append_Cons append_Nil)
  show ?case
    unfolding cells right prefix_cells.simps(1) Let_def cell
    unfolding tail Cons.IH by (rule refl)
qed simp

lemma prefix_row_lcs: "prefix_row x ys (prefix_lens xs ys) = prefix_lens (xs @ [x]) ys"
  using prefix_cells_lcs [of x ys xs "[]"]
  by (simp add: prefix_row_def prefix_lens_def map_upt_shift del: upt_Suc)

lemma prefix_table_lcs:
  "i \<le> length base \<Longrightarrow>
   prefix_table base other (prefix_lens xs other) ! i = prefix_lens (xs @ take i base) other"
proof (induction base arbitrary: i xs)
  case (Cons x base)
  then show ?case
    using Cons.IH [of "i - 1" "xs @ [x]"] by (cases i) (auto simp: prefix_row_lcs)
qed simp

lemma suffix_row_lcs: "suffix_row x ys (suffix_lens xs ys) = suffix_lens (x # xs) ys"
proof (induction ys)
  case (Cons y ys)
  have step: "suffix_lens zs (y # ys) = lcs zs (y # ys) # suffix_lens zs ys" for zs :: "'a list"
    by (simp only: suffix_lens_def length_Cons map_upt_shift drop_0 drop_Suc_Cons)
  have hd: "hd (suffix_lens zs ys) = lcs zs ys" for zs :: "'a list"
    using suffix_lens_nth [of 0 ys zs] by (simp add: hd_conv_nth suffix_lens_def)
  show ?case by (simp add: step Cons.IH hd)
qed (simp add: suffix_lens_def)

lemma best_without_lcs:
  "best_without (prefix_lens xs zs) (suffix_lens ys zs) = lcs (xs @ ys) zs"
proof -
  let ?l = "map2 (+) (prefix_lens xs zs) (suffix_lens ys zs)"
  have l: "set ?l = (\<lambda>j. lcs xs (take j zs) + lcs ys (drop j zs)) ` {0..length zs}"
    by (force simp: set_conv_nth prefix_lens_nth suffix_lens_nth image_iff less_Suc_eq_le)
  have "best_without (prefix_lens xs zs) (suffix_lens ys zs) = Max (insert 0 (set ?l))"
    by (simp add: best_without_def flip: Max.set_eq_fold)
  also have "\<dots> = lcs (xs @ ys) zs"
  proof (rule Max_eqI)
    fix y assume "y \<in> insert 0 (set ?l)"
    then show "y \<le> lcs (xs @ ys) zs" unfolding l using lcs_append(1) by fastforce
  next
    obtain j where "j \<le> length zs" "lcs xs (take j zs) + lcs ys (drop j zs) = lcs (xs @ ys) zs"
      using lcs_append(2) by blast
    then show "lcs (xs @ ys) zs \<in> insert 0 (set ?l)" unfolding l by force
  qed simp
  finally show ?thesis .
qed

lemma mandatory_rows_lcs:
  assumes "\<And>i. i \<le> length base \<Longrightarrow> tbl ! i = prefix_lens (take i base) other"
  shows "i \<le> length base \<Longrightarrow>
    mandatory_rows base other tbl best i (suffix_lens (drop i base) other) acc
    = map (\<lambda>k. lcs (take k base @ drop (Suc k) base) other < best) [0..<i] @ acc"
proof (induction i arbitrary: acc)
  case (Suc i)
  have "base ! i # drop (Suc i) base = drop i base"
    using Suc.prems by (simp add: Cons_nth_drop_Suc)
  then show ?case using Suc assms
    by (simp add: suffix_row_lcs best_without_lcs)
qed simp

section \<open>The traceback is a longest matching\<close>

definition row_matched :: "nat option list \<Rightarrow> nat \<Rightarrow> nat" where
  "row_matched r i = length (filter (\<lambda>q. q \<noteq> None) (take i r))"

definition aligned_to :: "'a list \<Rightarrow> 'a list \<Rightarrow> nat \<Rightarrow> nat \<Rightarrow> nat option list \<Rightarrow> bool" where
  "aligned_to base other i j r \<longleftrightarrow>
     (\<forall>k < i. \<forall>q. r ! k = Some q \<longrightarrow> q < j \<and> base ! k = other ! q)
     \<and> (\<forall>k < i. \<forall>l < i. \<forall>p q. k < l \<longrightarrow> r ! k = Some p \<longrightarrow> r ! l = Some q \<longrightarrow> p < q)"

lemma row_matched_Suc:
  "i < length r \<Longrightarrow> row_matched r (Suc i) = row_matched r i + (if r ! i = None then 0 else 1)"
  by (simp add: row_matched_def take_Suc_conv_app_nth)

lemma aligned_toD:
  "aligned_to base other i j r \<Longrightarrow> k < i \<Longrightarrow> r ! k = Some q \<Longrightarrow> q < j \<and> base ! k = other ! q"
  "aligned_to base other i j r \<Longrightarrow> k < l \<Longrightarrow> l < i \<Longrightarrow> r ! k = Some p \<Longrightarrow> r ! l = Some q \<Longrightarrow> p < q"
  unfolding aligned_to_def by (blast, blast intro: less_trans)

lemma aligned_toI:
  assumes "\<And>k q. k < i \<Longrightarrow> r ! k = Some q \<Longrightarrow> q < j \<and> base ! k = other ! q"
    and "\<And>k l p q. k < l \<Longrightarrow> l < i \<Longrightarrow> r ! k = Some p \<Longrightarrow> r ! l = Some q \<Longrightarrow> p < q"
  shows "aligned_to base other i j r"
  unfolding aligned_to_def using assms by blast

lemma aligned_to_mono:
  assumes "aligned_to base other i j r" "j \<le> j'"
  shows "aligned_to base other i j' r"
proof (rule aligned_toI)
  fix k q assume "k < i" "r ! k = Some q"
  then show "q < j' \<and> base ! k = other ! q"
    using aligned_toD(1) [OF assms(1)] assms(2) by (meson order_less_le_trans)
qed (use aligned_toD(2) [OF assms(1)] in blast)

lemma aligned_to_None:
  assumes "aligned_to base other i j r" "r ! i = None"
  shows "aligned_to base other (Suc i) j r"
proof (rule aligned_toI)
  fix k q assume "k < Suc i" "r ! k = Some q"
  then show "q < j \<and> base ! k = other ! q"
    using aligned_toD(1) [OF assms(1), of k q] assms(2) by (cases "k = i") simp_all
next
  fix k l p q assume "k < l" "l < Suc i" "r ! k = Some p" "r ! l = Some q"
  then show "p < q"
    using aligned_toD(2) [OF assms(1), of k l p q] assms(2) by (cases "l = i") simp_all
qed

lemma aligned_to_Some:
  assumes "aligned_to base other i j r" "r ! i = Some j" "base ! i = other ! j"
  shows "aligned_to base other (Suc i) (Suc j) r"
proof (rule aligned_toI)
  fix k q assume "k < Suc i" "r ! k = Some q"
  then show "q < Suc j \<and> base ! k = other ! q"
    using aligned_toD(1) [OF assms(1), of k q] assms(2,3) by (cases "k = i") simp_all
next
  fix k l p q assume h: "k < l" "l < Suc i" "r ! k = Some p" "r ! l = Some q"
  show "p < q"
  proof (cases "l = i")
    case True
    then show ?thesis using h aligned_toD(1) [OF assms(1), of k p] assms(2) by simp
  next
    case False
    then show ?thesis using h aligned_toD(2) [OF assms(1), of k l p q] by simp
  qed
qed

lemma lcs_take_Suc:
  assumes "i < length base" "j < length other"
  shows "lcs (take (Suc i) base) (take (Suc j) other) =
    (if base ! i = other ! j then 1 + lcs (take i base) (take j other)
     else max (lcs (take i base) (take (Suc j) other)) (lcs (take (Suc i) base) (take j other)))"
  using assms by (simp add: take_Suc_conv_app_nth lcs_snoc)

text \<open>What the loop leaves from row \<open>i\<close> and column \<open>j\<close> on, started with the rows \<open>r\<close>.\<close>

definition traced :: "'a list \<Rightarrow> 'a list \<Rightarrow> nat \<Rightarrow> nat \<Rightarrow> nat option list \<Rightarrow> nat option list \<Rightarrow> bool" where
  "traced base other i j r t \<longleftrightarrow>
     length t = length base \<and> (\<forall>k \<ge> i. k < length base \<longrightarrow> t ! k = r ! k)
     \<and> aligned_to base other i j t \<and> row_matched t i = lcs (take i base) (take j other)"

lemma traced_stop:
  assumes "i = 0 \<or> j = 0" "i \<le> length base" "length r = length base" "\<forall>k < i. r ! k = None"
  shows "traced base other i j r r"
proof -
  have "row_matched r i = 0"
    using assms by (auto simp: row_matched_def filter_empty_conv in_set_conv_nth)
  moreover have "aligned_to base other i j r"
    using assms(4) by (intro aligned_toI) (simp_all add: less_trans)
  ultimately show ?thesis using assms by (auto simp: traced_def)
qed

lemma traced_take:
  assumes "traced base other i j (r[i := Some j]) t" "i < length base" "j < length other"
    "length r = length base" "base ! i = other ! j"
  shows "traced base other (Suc i) (Suc j) r t"
proof -
  have ti: "t ! i = Some j" "length t = length base"
    and rest: "\<forall>k \<ge> Suc i. k < length base \<longrightarrow> t ! k = r ! k"
    using assms unfolding traced_def by (auto simp: nth_list_update)
  have "aligned_to base other (Suc i) (Suc j) t"
    using assms(1,5) ti(1) unfolding traced_def by (blast intro: aligned_to_Some)
  moreover have "row_matched t (Suc i) = lcs (take (Suc i) base) (take (Suc j) other)"
    using assms ti unfolding traced_def by (simp add: row_matched_Suc lcs_take_Suc)
  ultimately show ?thesis using ti rest by (simp add: traced_def)
qed

lemma traced_skip_row:
  assumes "traced base other i (Suc j) r t" "i < length base" "j < length other"
    "r ! i = None" "base ! i \<noteq> other ! j"
    "lcs (take (Suc i) base) (take j other) \<le> lcs (take i base) (take (Suc j) other)"
  shows "traced base other (Suc i) (Suc j) r t"
proof -
  have ti: "t ! i = None" "length t = length base"
    and rest: "\<forall>k \<ge> Suc i. k < length base \<longrightarrow> t ! k = r ! k"
    using assms unfolding traced_def by auto
  have "aligned_to base other (Suc i) (Suc j) t"
    using assms(1) ti(1) unfolding traced_def by (blast intro: aligned_to_None)
  moreover have "row_matched t (Suc i) = lcs (take (Suc i) base) (take (Suc j) other)"
    using assms ti unfolding traced_def by (simp add: row_matched_Suc lcs_take_Suc)
  ultimately show ?thesis using ti rest by (simp add: traced_def)
qed

lemma traced_skip_column:
  assumes "traced base other (Suc i) j r t" "i < length base" "j < length other"
    "base ! i \<noteq> other ! j"
    "\<not> lcs (take (Suc i) base) (take j other) \<le> lcs (take i base) (take (Suc j) other)"
  shows "traced base other (Suc i) (Suc j) r t"
proof -
  have "aligned_to base other (Suc i) (Suc j) t"
    using assms(1) unfolding traced_def by (blast intro: aligned_to_mono le_SucI order_refl)
  then show ?thesis using assms unfolding traced_def by (simp add: lcs_take_Suc)
qed

lemma traceback_traced:
  assumes "i \<le> length base" "j \<le> length other" "length r = length base" "\<forall>k < i. r ! k = None"
    and tbl: "\<And>i j. i \<le> length base \<Longrightarrow> j \<le> length other \<Longrightarrow>
          tbl ! i ! j = lcs (take i base) (take j other)"
  shows "traced base other i j r (traceback base other tbl i j r)"
  using assms
proof (induction base other tbl i j r rule: traceback.induct)
  case (1 base other tbl i j r)
  note prems = "1.prems"
  show ?case
  proof (cases "0 < i \<and> 0 < j")
    case False
    then have "traceback base other tbl i j r = r" by (subst traceback.simps) (rule if_not_P)
    then show ?thesis using traced_stop [of i j] False prems(1,3,4) by auto
  next
    case True
    then obtain a b where ab: "i = Suc a" "j = Suc b" by (metis gr0_implies_Suc)
    have bd: "a < length base" "b < length other" using prems ab by auto
    have none: "\<forall>k < a. r ! k = None" "r ! a = None" "\<forall>k < Suc a. r ! k = None"
      using prems(4) ab by auto
    note tbl = prems(5)
    show ?thesis
    proof (cases "base ! a = other ! b")
      case eq: True
      have "traced base other a b (r[a := Some b]) (traceback base other tbl a b (r[a := Some b]))"
        using "1.IH"(1) [OF True] eq ab bd none prems by simp
      with eq ab bd prems(3) show ?thesis
        by (subst traceback.simps) (simp add: traced_take)
    next
      case neq: False
      have cell: "tbl ! a ! Suc b = lcs (take a base) (take (Suc b) other)"
        "tbl ! Suc a ! b = lcs (take (Suc a) base) (take b other)"
        using tbl bd by simp_all
      show ?thesis
      proof (cases "tbl ! Suc a ! b \<le> tbl ! a ! Suc b")
        case le: True
        have "traced base other a (Suc b) r (traceback base other tbl a (Suc b) r)"
          using "1.IH"(2) [OF True] neq le ab bd none prems by simp
        with neq le ab bd none cell show ?thesis
          by (subst traceback.simps) (simp add: traced_skip_row)
      next
        case gt: False
        have "traced base other (Suc a) b r (traceback base other tbl (Suc a) b r)"
          using "1.IH"(3) [OF True] neq gt ab bd none prems by simp
        with neq gt ab bd cell show ?thesis
          by (subst traceback.simps) (simp add: traced_skip_column)
      qed
    qed
  qed
qed

section \<open>The matching as a whole\<close>

definition alignment :: "'a list \<Rightarrow> 'a list \<Rightarrow> nat option list \<Rightarrow> bool" where
  "alignment base other r \<longleftrightarrow> length r = length base \<and> aligned_to base other (length base) (length other) r"

definition matched_count :: "nat option list \<Rightarrow> nat" where
  "matched_count r = length (filter (\<lambda>q. q \<noteq> None) r)"

lemma prefix_table_cells:
  assumes "i \<le> length base"
  shows "prefix_table base other (replicate (length other + 1) 0) ! i = prefix_lens (take i base) other"
  using prefix_table_lcs [OF assms, of other "[]"] by (simp add: replicate_lens)

lemma matches_traced:
  "traced base other (length base) (length other) (replicate (length base) None) (fst (matches base other))"
  unfolding matches_def Let_def fst_conv
  by (rule traceback_traced)
    (simp_all only: prefix_table_cells prefix_lens_nth length_replicate nth_replicate simp_thms
      order_refl if_True imp_conjL cong: imp_cong)

lemma alignment_matches: "alignment base other (fst (matches base other))"
  using matches_traced [of base other] by (simp add: traced_def alignment_def)

lemma matched_count_matches: "matched_count (fst (matches base other)) = lcs base other"
  using matches_traced [of base other] by (auto simp: traced_def matched_count_def row_matched_def)

lemma matches_mandatory:
  "snd (matches base other) =
   map (\<lambda>k. lcs (take k base @ drop (Suc k) base) other < lcs base other) [0..<length base]"
proof -
  have "mandatory_rows base other (prefix_table base other (replicate (length other + 1) 0))
      (lcs base other) (length base) (suffix_lens (drop (length base) base) other) []
    = map (\<lambda>k. lcs (take k base @ drop (Suc k) base) other < lcs base other) [0..<length base] @ []"
    by (rule mandatory_rows_lcs) (simp_all only: prefix_table_cells order_refl)
  then show ?thesis
    by (simp only: matches_def Let_def snd_conv prefix_table_cells [OF order_refl] prefix_lens_nth
        order_refl take_all drop_all replicate_lens append_Nil2 Suc_eq_plus1)
qed

lemma length_matches [simp]:
  "length (fst (matches base other)) = length base" "length (snd (matches base other)) = length base"
  using alignment_matches [of base other] by (simp_all add: alignment_def matches_mandatory)

text \<open>An alignment that keeps every line of a list against itself is the identity.\<close>

lemma matched_count_le: "matched_count r \<le> length r"
  by (simp add: matched_count_def)

text \<open>Row \<open>k\<close> cannot be below its own index, nor can the rows above it leave it too little room.\<close>

lemma aligned_to_full:
  assumes al: "aligned_to b c n n r" and some: "\<And>k. k < n \<Longrightarrow> r ! k \<noteq> None" and k: "k < n"
  shows "r ! k = Some k"
proof -
  have lo: "k < n \<Longrightarrow> r ! k = Some q \<Longrightarrow> k \<le> q" for k q
  proof (induction k arbitrary: q)
    case (Suc k)
    then obtain p where p: "r ! k = Some p" using some [of k] by auto
    have "p < q" using aligned_toD(2) [OF al _ Suc.prems(1) p Suc.prems(2)] by simp
    moreover have "k \<le> p" using Suc.IH [OF _ p] Suc.prems(1) by simp
    ultimately show ?case by simp
  qed simp
  have hi: "k + d < n \<Longrightarrow> r ! k = Some q \<Longrightarrow> q + d < n" for k q d
  proof (induction d arbitrary: k q)
    case 0
    then show ?case using aligned_toD(1) [OF al, of k q] by simp
  next
    case (Suc d)
    then obtain p where p: "r ! Suc k = Some p" using some [of "Suc k"] by auto
    have "q < p" using aligned_toD(2) [OF al _ _ Suc.prems(2) p] Suc.prems(1) by simp
    moreover have "p + d < n" using Suc.IH [OF _ p] Suc.prems(1) by simp
    ultimately show ?case by simp
  qed
  obtain q where q: "r ! k = Some q" using some [OF k] by blast
  show ?thesis using lo [OF k q] hi [of k "n - Suc k" q] q k by simp
qed

lemma alignment_full:
  assumes "alignment b b r" "matched_count r = length b"
  shows "r = map Some [0..<length b]"
proof -
  have al: "aligned_to b b (length b) (length b) r" and len: "length r = length b"
    using assms(1) by (simp_all add: alignment_def)
  have full: "length (filter (\<lambda>q. q \<noteq> None) r) = length r"
    using assms(2) len by (simp add: matched_count_def)
  have "r ! k \<noteq> None" if "k < length b" for k
  proof
    assume "r ! k = None"
    then have "length (filter (\<lambda>q. q \<noteq> None) r) < length r"
      using that len nth_mem [of k r] by (intro length_filter_less [of "r ! k"]) auto
    with full show False by simp
  qed
  then have "r ! k = Some k" if "k < length b" for k
    using aligned_to_full [OF al] that by blast
  then show ?thesis using len by (intro nth_equalityI) simp_all
qed

lemma matches_same: "fst (matches b b) = map Some [0..<length b]"
  by (rule alignment_full [OF alignment_matches]) (simp add: matched_count_matches lcs_self)

text \<open>What the three-way merge asks of a line matcher.\<close>

locale line_matching =
  fixes m :: "'a list \<Rightarrow> 'a list \<Rightarrow> nat option list"
  assumes aligned: "alignment base other (m base other)"
    and same: "m base base = map Some [0..<length base]"
begin

lemma length_m: "length (m base other) = length base"
  using aligned [of base other] by (simp add: alignment_def)

lemma aligned_m: "aligned_to base other (length base) (length other) (m base other)"
  using aligned [of base other] by (simp add: alignment_def)

lemma matched_line:
  "k < length base \<Longrightarrow> m base other ! k = Some q \<Longrightarrow> q < length other \<and> base ! k = other ! q"
  by (rule aligned_toD(1) [OF aligned_m])

lemma matched_increasing:
  "k < l \<Longrightarrow> l < length base \<Longrightarrow> m base other ! k = Some p \<Longrightarrow> m base other ! l = Some q \<Longrightarrow> p < q"
  by (rule aligned_toD(2) [OF aligned_m])

end

interpretation lm: line_matching "\<lambda>base other. fst (matches base other)"
  by unfold_locales (rule alignment_matches, rule matches_same)

text \<open>C40: The traceback of \<open>matches\<close> is a longest matching: it pairs equal lines, its pairs increase on
both sides, and no common subsequence of the two sides has more lines than it pairs.\<close>

theorem matches_longest:
  "let r = fst (matches base other) in
     length r = length base
     \<and> (\<forall>k q. k < length base \<and> r ! k = Some q \<longrightarrow> q < length other \<and> base ! k = other ! q)
     \<and> (\<forall>k l p q. k < l \<and> l < length base \<and> r ! k = Some p \<and> r ! l = Some q \<longrightarrow> p < q)
     \<and> (\<forall>zs. subseq zs base \<and> subseq zs other \<longrightarrow> length zs \<le> matched_count r)"
  unfolding Let_def
  by (intro conjI allI impI; (elim conjE)?)
    (rule length_matches, erule (1) lm.matched_line [THEN conjunct1],
     erule (1) lm.matched_line [THEN conjunct2], erule (3) lm.matched_increasing,
     simp only: matched_count_matches lcs_upper)

theorem matches_longest_witness:
  "let r = fst (matches ''abcd'' ''bxd'') in r = [None, Some 0, None, Some 2]
     \<and> (\<forall>zs. subseq zs ''abcd'' \<and> subseq zs ''bxd'' \<longrightarrow> length zs \<le> matched_count r)"
proof -
  have "fst (matches ''abcd'' ''bxd'') = [None, Some 0, None, Some 2]" by code_simp
  then show ?thesis using matches_longest [of "''abcd''" "''bxd''"] unfolding Let_def by presburger
qed

lemma subseq_without: "subseq (take k xs @ drop (Suc k) xs) xs"
proof -
  have "suffix (drop (Suc 0) (drop k xs)) (drop k xs)" by (rule suffix_drop)
  then have "subseq (drop (Suc k) xs) (drop k xs)" by (simp add: suffix_imp_subseq)
  then have "subseq (take k xs @ drop (Suc k) xs) (take k xs @ drop k xs)"
    by (intro list_emb_append_mono) simp_all
  then show ?thesis by simp
qed

lemma lcs_less_iff:
  assumes "subseq xs ys"
  shows "lcs xs zs < lcs ys zs \<longleftrightarrow>
    \<not> (\<exists>us. subseq us xs \<and> subseq us zs \<and> length us = lcs ys zs)"
proof -
  obtain us where us: "subseq us xs" "subseq us zs" "length us = lcs xs zs"
    using lcs_attained by blast
  have le: "lcs xs zs \<le> lcs ys zs"
    using us lcs_upper [of us ys zs] subseq_order.order_trans [OF us(1) assms] by simp
  show ?thesis
  proof
    assume "lcs xs zs < lcs ys zs"
    then show "\<not> (\<exists>us. subseq us xs \<and> subseq us zs \<and> length us = lcs ys zs)"
      using lcs_upper [of _ xs zs] by fastforce
  next
    assume "\<not> (\<exists>us. subseq us xs \<and> subseq us zs \<and> length us = lcs ys zs)"
    then have "lcs xs zs \<noteq> lcs ys zs" using us by auto
    with le show "lcs xs zs < lcs ys zs" by simp
  qed
qed

text \<open>A base row is marked mandatory exactly when every longest common subsequence needs it: no common
subsequence that avoids the row is as long as the best one.\<close>

theorem matches_mandatory_exact:
  "length (snd (matches base other)) = length base
    \<and> (\<forall>k. k < length base \<longrightarrow> snd (matches base other) ! k =
        (\<not> (\<exists>zs. subseq zs (take k base @ drop (Suc k) base) \<and> subseq zs other
             \<and> length zs = matched_count (fst (matches base other)))))"
proof (intro conjI allI impI)
  show "length (snd (matches base other)) = length base" by simp
next
  fix k assume "k < length base"
  then have "snd (matches base other) ! k =
      (lcs (take k base @ drop (Suc k) base) other < lcs base other)"
    by (simp add: matches_mandatory)
  then show "snd (matches base other) ! k =
      (\<not> (\<exists>zs. subseq zs (take k base @ drop (Suc k) base) \<and> subseq zs other
             \<and> length zs = matched_count (fst (matches base other))))"
    by (simp only: matched_count_matches lcs_less_iff [OF subseq_without])
qed

theorem matches_mandatory_exact_witness:
  "snd (matches ''abcb'' ''bcb'') = [False, True, True, True]
   \<and> \<not> (\<exists>zs. subseq zs (take 1 ''abcb'' @ drop (Suc 1) ''abcb'') \<and> subseq zs ''bcb''
        \<and> length zs = matched_count (fst (matches ''abcb'' ''bcb'')))"
proof -
  have "snd (matches ''abcb'' ''bcb'') = [False, True, True, True]" by code_simp
  then show ?thesis
    using matches_mandatory_exact [of "''abcb''" "''bcb''", THEN conjunct2, rule_format, of 1] by simp
qed

end
