(* ===== verification/Diff3.thy ===== *)
theory Diff3
  imports Resources Matching
begin

text \<open>
  The line merge of \<open>crates/javelin-merge/src/lib.rs\<close>: \<open>lines\<close>, \<open>diff3\<close> and \<open>merge_lines\<close>. A step is
  the triple of the Rust type \<open>Step\<close>; slices are \<open>slice\<close>, and the lemmas show that no slice the loop
  takes is out of range. The theorems show what a merged text is made of, that the sides can be
  swapped, and that a side that changed nothing leaves the other side's text.
\<close>

section \<open>The program\<close>

fun lines :: "bytes \<Rightarrow> bytes list" where
  "lines [] = []"
| "lines (c # cs) =
     (if c = CHR 0x0A then [c] # lines cs
      else case lines cs of [] \<Rightarrow> [[c]] | l # ls \<Rightarrow> (c # l) # ls)"

definition slice :: "'a list \<Rightarrow> nat \<Rightarrow> nat \<Rightarrow> 'a list" where
  "slice xs i j = take (j - i) (drop i xs)"

type_synonym 'a step = "bool option \<times> 'a list \<times> nat option"

fun find_anchor :: "nat option list \<Rightarrow> nat option list \<Rightarrow> nat list \<Rightarrow> (nat \<times> nat \<times> nat) option" where
  "find_anchor in_ours in_theirs [] = None"
| "find_anchor in_ours in_theirs (i # is) =
     (case (in_ours ! i, in_theirs ! i) of
        (Some o', Some t') \<Rightarrow> Some (i, o', t')
      | _ \<Rightarrow> find_anchor in_ours in_theirs is)"

text \<open>The side that changed a region and the lines taken; \<open>None\<close> when both did.\<close>

definition take_side :: "'a list \<Rightarrow> 'a list \<Rightarrow> 'a list \<Rightarrow> (bool option \<times> 'a list) option" where
  "take_side region mine other =
     (case (mine = region, other = region) of
        (True, True) \<Rightarrow> Some (None, region)
      | (False, True) \<Rightarrow> Some (Some True, mine)
      | (True, False) \<Rightarrow> Some (Some False, other)
      | (False, False) \<Rightarrow> None)"

lemma find_anchor_SomeD:
  "find_anchor mo mt is = Some (i, p, q) \<Longrightarrow> i \<in> set is \<and> mo ! i = Some p \<and> mt ! i = Some q"
  by (induction "is") (auto split: option.splits)

function diff3_steps ::
  "'a list \<Rightarrow> 'a list \<Rightarrow> 'a list \<Rightarrow> nat option list \<Rightarrow> nat option list \<Rightarrow> nat \<Rightarrow> nat \<Rightarrow> nat
   \<Rightarrow> 'a step list option" where
  "diff3_steps base ours theirs in_ours in_theirs b o' t =
     (case find_anchor in_ours in_theirs [b..<length base] of
        None \<Rightarrow>
          (case take_side (slice base b (length base)) (slice ours o' (length ours))
                  (slice theirs t (length theirs)) of
             None \<Rightarrow> None
           | Some (side, taken) \<Rightarrow> Some [(side, taken, None)])
      | Some (nb, no, nt) \<Rightarrow>
          (case take_side (slice base b nb) (slice ours o' no) (slice theirs t nt) of
             None \<Rightarrow> None
           | Some (side, taken) \<Rightarrow>
               (case diff3_steps base ours theirs in_ours in_theirs (nb + 1) (no + 1) (nt + 1) of
                  None \<Rightarrow> None
                | Some steps \<Rightarrow> Some ((side, taken, Some nb) # steps))))"
  by pat_completeness auto
termination
  by (relation "measure (\<lambda>(base, _, _, _, _, b, _, _). length base - b)")
    (auto dest!: sym [THEN find_anchor_SomeD] find_anchor_SomeD)

declare diff3_steps.simps [simp del]

definition unique_line :: "'a list \<Rightarrow> 'a list \<Rightarrow> 'a list \<Rightarrow> 'a \<Rightarrow> bool" where
  "unique_line base ours theirs line =
     list_all (\<lambda>ls. length (filter (\<lambda>l. l = line) ls) = 1) [base, ours, theirs]"

text \<open>The second loop: \<open>last\<close> and \<open>separated\<close> are its two variables.\<close>

fun assemble ::
  "'a list \<Rightarrow> ('a \<Rightarrow> bool) \<Rightarrow> (nat \<Rightarrow> bool) \<Rightarrow> 'a step list \<Rightarrow> bool option \<Rightarrow> bool \<Rightarrow> 'a list option" where
  "assemble base unique kept [] last_side separated = Some []"
| "assemble base unique kept ((side, taken, line) # steps) last_side separated =
     (if side \<noteq> None \<and> last_side \<noteq> None \<and> last_side \<noteq> side \<and> \<not> separated then None
      else
        (let last' = (if side \<noteq> None then side else last_side);
             sep' = (if side \<noteq> None then False else separated);
             sep'' = (case line of None \<Rightarrow> sep' | Some i \<Rightarrow> sep' \<or> unique (base ! i) \<and> kept i);
             here = (case line of None \<Rightarrow> [] | Some i \<Rightarrow> [base ! i])
         in case assemble base unique kept steps last' sep'' of
              None \<Rightarrow> None
            | Some out \<Rightarrow> Some (taken @ here @ out)))"

definition diff3 :: "'a list \<Rightarrow> 'a list \<Rightarrow> 'a list \<Rightarrow> 'a list option" where
  "diff3 base ours theirs =
     (let (in_ours, ours_kept) = matches base ours;
          (in_theirs, theirs_kept) = matches base theirs
      in case diff3_steps base ours theirs in_ours in_theirs 0 0 0 of
           None \<Rightarrow> None
         | Some steps \<Rightarrow>
             assemble base (unique_line base ours theirs) (\<lambda>i. ours_kept ! i \<and> theirs_kept ! i)
               steps None False)"

text \<open>The admission checks of \<open>merge_lines\<close>, and the work it reserves.\<close>

definition line_count :: "bytes \<Rightarrow> nat" where
  "line_count bs =
     length (filter (\<lambda>c. c = CHR 0x0A) bs) + (if bs \<noteq> [] \<and> last bs \<noteq> CHR 0x0A then 1 else 0)"

definition table_cells :: "nat \<Rightarrow> nat \<Rightarrow> nat" where
  "table_cells n side_lines = (n + 1) * (side_lines + 1)"

definition side_work :: "nat \<Rightarrow> nat \<Rightarrow> nat \<Rightarrow> nat \<Rightarrow> nat" where
  "side_work n b side_lines side_bytes =
     5 * table_cells n side_lines + 3 * min (n * side_bytes) (side_lines * b) + 4 * (n + side_lines + 1)"

definition lines_work :: "nat \<Rightarrow> nat \<Rightarrow> nat \<Rightarrow> nat \<Rightarrow> nat \<Rightarrow> nat \<Rightarrow> nat" where
  "lines_work n m k b o' t =
     side_work n b m o' + side_work n b k t
     + (n * (n + m + k + b + o' + t) + 16 * (n + m + k + b + o' + t + 1))"

definition merge_lines :: "bytes \<Rightarrow> bytes \<Rightarrow> bytes \<Rightarrow> usage \<Rightarrow> resource_limit + usage \<times> bytes option" where
  "merge_lines base ours theirs usage =
     (let n = line_count base; m = line_count ours; k = line_count theirs in
      ebind (check Lines n) (\<lambda>_.
      ebind (check Lines m) (\<lambda>_.
      ebind (check Lines k) (\<lambda>_.
      ebind (check TableCells (table_cells n m)) (\<lambda>_.
      ebind (check TableCells (table_cells n k)) (\<lambda>_.
      ebind (reserve (lines_work n m k (length base) (length ours) (length theirs)) usage) (\<lambda>usage.
      Inr (usage, map_option concat (diff3 (lines base) (lines ours) (lines theirs))))))))))"

section \<open>Lines\<close>

lemma concat_lines [simp]: "concat (lines bs) = bs"
  by (induction bs) (auto split: list.splits)

lemma lines_eq_Nil [simp]: "lines bs = [] \<longleftrightarrow> bs = []"
  by (cases bs) (auto split: list.splits)

lemma length_lines_Cons:
  "length (lines (c # cs)) =
   (if c = CHR 0x0A \<or> cs = [] then Suc (length (lines cs)) else length (lines cs))"
  using lines_eq_Nil [of cs] by (auto split: list.splits)

lemma length_lines: "length (lines bs) = line_count bs"
proof (induction bs)
  case (Cons c cs)
  show ?case unfolding length_lines_Cons Cons.IH by (auto simp: line_count_def)
qed (simp add: line_count_def)

lemma lines_inj: "lines a = lines b \<longleftrightarrow> a = b"
  by (metis concat_lines)

lemma lines_terminated:
  "l \<in> set (lines bs) \<Longrightarrow> l \<noteq> [] \<and> CHR 0x0A \<notin> set (butlast l)"
  by (induction bs arbitrary: l) (auto split: list.splits if_splits)

section \<open>The regions of a merge\<close>

text \<open>A step together with the base lines it replaces.\<close>

datatype 'a region =
  Region (changed_by: "bool option") (before: "'a list") (after: "'a list") (anchor_at: "nat option")

definition anchor_line :: "'a list \<Rightarrow> 'a region \<Rightarrow> 'a list" where
  "anchor_line base R = (case anchor_at R of None \<Rightarrow> [] | Some i \<Rightarrow> [base ! i])"

definition base_part :: "'a list \<Rightarrow> 'a region \<Rightarrow> 'a list" where
  "base_part base R = before R @ anchor_line base R"

definition side_part :: "bool \<Rightarrow> 'a list \<Rightarrow> 'a region \<Rightarrow> 'a list" where
  "side_part side base R =
     (if changed_by R = Some side then after R else before R) @ anchor_line base R"

definition out_part :: "'a list \<Rightarrow> 'a region \<Rightarrow> 'a list" where
  "out_part base R = after R @ anchor_line base R"

definition region_ok :: "'a list \<Rightarrow> 'a region \<Rightarrow> bool" where
  "region_ok base R \<longleftrightarrow>
     (changed_by R = None \<longleftrightarrow> after R = before R) \<and> (\<forall>i. anchor_at R = Some i \<longrightarrow> i < length base)"

definition reg_step :: "'a region \<Rightarrow> 'a step" where
  "reg_step R = (changed_by R, after R, anchor_at R)"

lemmas part_defs = base_part_def side_part_def out_part_def anchor_line_def

lemma take_side_Some:
  "take_side r m u = Some (side, taken) \<longleftrightarrow>
   (m = r \<and> u = r \<and> side = None \<and> taken = r) \<or> (m \<noteq> r \<and> u = r \<and> side = Some True \<and> taken = m)
   \<or> (m = r \<and> u \<noteq> r \<and> side = Some False \<and> taken = u)"
  by (cases "m = r"; cases "u = r") (auto simp: take_side_def)

lemma take_side_region:
  assumes "take_side r m u = Some (side, taken)" "\<forall>i. a = Some i \<longrightarrow> i < length base"
  shows "region_ok base (Region side r taken a)"
    and "side_part True base (Region side r taken a) = m @ anchor_line base (Region side r taken a)"
    and "side_part False base (Region side r taken a) = u @ anchor_line base (Region side r taken a)"
  using assms unfolding take_side_Some by (auto simp: region_ok_def side_part_def)

lemma drop_slice:
  assumes "i \<le> j" "j < length xs"
  shows "drop i xs = slice xs i j @ xs ! j # drop (Suc j) xs"
proof -
  have "drop (j - i) (drop i xs) = xs ! j # drop (Suc j) xs"
    using assms by (simp add: Cons_nth_drop_Suc)
  then show ?thesis using append_take_drop_id [of "j - i" "drop i xs"] by (simp add: slice_def)
qed

lemma slice_end: "i \<le> length xs \<Longrightarrow> slice xs i (length xs) = drop i xs"
  by (simp add: slice_def)

lemma find_anchor_upt:
  assumes "find_anchor mo mt [b..<n] = Some (i, p, q)"
  shows "b \<le> i" "i < n" "mo ! i = Some p" "mt ! i = Some q"
  using find_anchor_SomeD [OF assms] by auto

text \<open>The matching from base row \<open>b\<close> on uses only rows of the other side from \<open>k\<close> on.\<close>

definition tail_aligned :: "'a list \<Rightarrow> 'a list \<Rightarrow> nat option list \<Rightarrow> nat \<Rightarrow> nat \<Rightarrow> bool" where
  "tail_aligned base other r b k \<longleftrightarrow>
     alignment base other r \<and> k \<le> length other
     \<and> (\<forall>i q. b \<le> i \<longrightarrow> i < length base \<longrightarrow> r ! i = Some q \<longrightarrow> k \<le> q)"

lemma tail_alignedD:
  assumes "tail_aligned base other r b k" "b \<le> i" "i < length base" "r ! i = Some q"
  shows "k \<le> q" "q < length other" "base ! i = other ! q" "tail_aligned base other r (Suc i) (Suc q)"
proof -
  have al: "aligned_to base other (length base) (length other) r"
    using assms(1) by (simp add: tail_aligned_def alignment_def)
  show "k \<le> q" using assms unfolding tail_aligned_def by blast
  show q: "q < length other" and "base ! i = other ! q"
    using aligned_toD(1) [OF al assms(3,4)] by simp_all
  have "Suc q \<le> q'" if "Suc i \<le> i'" "i' < length base" "r ! i' = Some q'" for i' q'
    using aligned_toD(2) [OF al, of i i' q q'] that assms(4) by simp
  then show "tail_aligned base other r (Suc i) (Suc q)"
    using assms(1) q unfolding tail_aligned_def by simp
qed

lemma tail_aligned_start: "alignment base other r \<Longrightarrow> tail_aligned base other r 0 0"
  by (simp add: tail_aligned_def)

lemma diff3_steps_regions:
  assumes "diff3_steps base ours theirs mo mt b k t = Some ss"
    and "tail_aligned base ours mo b k" "tail_aligned base theirs mt b t" "b \<le> length base"
  shows "\<exists>Rs. ss = map reg_step Rs \<and> list_all (region_ok base) Rs
    \<and> drop b base = concat (map (base_part base) Rs)
    \<and> drop k ours = concat (map (side_part True base) Rs)
    \<and> drop t theirs = concat (map (side_part False base) Rs)"
  using assms
proof (induction base ours theirs mo mt b k t arbitrary: ss rule: diff3_steps.induct)
  case (1 base ours theirs mo mt b k t)
  note mo = "1.prems"(2) and mt = "1.prems"(3)
  show ?case
  proof (cases "find_anchor mo mt [b..<length base]")
    case None
    then obtain side taken where s: "take_side (slice base b (length base)) (slice ours k (length ours))
        (slice theirs t (length theirs)) = Some (side, taken)" "ss = [(side, taken, None)]"
      using "1.prems"(1) by (subst (asm) diff3_steps.simps) (auto split: option.splits)
    let ?R = "Region side (slice base b (length base)) taken None"
    have ends: "k \<le> length ours" "t \<le> length theirs"
      using mo mt by (simp_all add: tail_aligned_def)
    show ?thesis
      using s(2) take_side_region [OF s(1), of None base] ends "1.prems"(4)
      by (intro exI [of _ "[?R]"]) (simp add: reg_step_def base_part_def anchor_line_def slice_end)
  next
    case (Some a)
    obtain i p q where a: "a = (i, p, q)" by (cases a)
    note f = Some [unfolded a]
    note i = find_anchor_upt [OF f]
    obtain side taken where s: "take_side (slice base b i) (slice ours k p) (slice theirs t q)
        = Some (side, taken)"
      using "1.prems"(1) f by (subst (asm) diff3_steps.simps) (auto split: option.splits)
    obtain ss' where ss: "diff3_steps base ours theirs mo mt (i + 1) (p + 1) (q + 1) = Some ss'"
        "ss = (side, taken, Some i) # ss'"
      using "1.prems"(1) f s by (subst (asm) diff3_steps.simps) (auto split: option.splits)
    note tmo = tail_alignedD [OF mo i(1,2,3)] and tmt = tail_alignedD [OF mt i(1,2,4)]
    obtain Rs where Rs: "ss' = map reg_step Rs" "list_all (region_ok base) Rs"
        "drop (Suc i) base = concat (map (base_part base) Rs)"
        "drop (Suc p) ours = concat (map (side_part True base) Rs)"
        "drop (Suc q) theirs = concat (map (side_part False base) Rs)"
      using "1.IH" [OF f refl refl s refl ss(1)] tmo(4) tmt(4) i(2) by auto
    let ?R = "Region side (slice base b i) taken (Some i)"
    have an: "anchor_line base ?R = [base ! i]" by (simp add: anchor_line_def)
    have R: "region_ok base ?R" "side_part True base ?R = slice ours k p @ [base ! i]"
        "side_part False base ?R = slice theirs t q @ [base ! i]" "base_part base ?R = slice base b i @ [base ! i]"
      using take_side_region [OF s, of "Some i" base] i(2) an by (simp_all add: base_part_def)
    show ?thesis
      using ss(2) Rs R drop_slice [OF i(1,2)] drop_slice [OF tmo(1,2)] drop_slice [OF tmt(1,2)]
        tmo(3) tmt(3)
      by (intro exI [of _ "?R # Rs"]) (simp add: reg_step_def)
  qed
qed

section \<open>Changes of the two sides are separated\<close>

definition separates :: "'a list \<Rightarrow> ('a \<Rightarrow> bool) \<Rightarrow> (nat \<Rightarrow> bool) \<Rightarrow> 'a region \<Rightarrow> bool" where
  "separates base unique kept R \<longleftrightarrow>
     (case anchor_at R of None \<Rightarrow> False | Some i \<Rightarrow> unique (base ! i) \<and> kept i)"

fun one_side :: "('a region \<Rightarrow> bool) \<Rightarrow> bool option \<Rightarrow> 'a region list \<Rightarrow> bool" where
  "one_side sep side [] = True"
| "one_side sep side (R # Rs) =
     ((changed_by R = None \<or> side = None \<or> changed_by R = side) \<and> (sep R \<or> one_side sep side Rs))"

fun separated_regions :: "('a region \<Rightarrow> bool) \<Rightarrow> 'a region list \<Rightarrow> bool" where
  "separated_regions sep [] = True"
| "separated_regions sep (R # Rs) =
     ((sep R \<or> one_side sep (changed_by R) Rs) \<and> separated_regions sep Rs)"

lemma one_side_None [simp]: "one_side sep None Rs"
  by (induction Rs) auto

lemma one_side_nth:
  assumes "one_side sep side Rs" "j < length Rs" "changed_by (Rs ! j) \<noteq> None" "side \<noteq> None"
    "changed_by (Rs ! j) \<noteq> side"
  shows "\<exists>k < j. sep (Rs ! k)"
  using assms
proof (induction Rs arbitrary: j)
  case (Cons R Rs)
  then obtain j' where j: "j = Suc j'" by (cases j) auto
  show ?case
  proof (cases "sep R")
    case True
    then show ?thesis using j by (intro exI [of _ 0]) simp
  next
    case False
    then obtain k where "k < j'" "sep (Rs ! k)" using Cons j by auto
    then show ?thesis using j by (intro exI [of _ "Suc k"]) simp
  qed
qed simp

lemma separated_regions_nth:
  assumes "separated_regions sep Rs" "i < j" "j < length Rs"
    "changed_by (Rs ! i) \<noteq> None" "changed_by (Rs ! j) \<noteq> None" "changed_by (Rs ! i) \<noteq> changed_by (Rs ! j)"
  shows "\<exists>k. i \<le> k \<and> k < j \<and> sep (Rs ! k)"
  using assms
proof (induction Rs arbitrary: i j)
  case (Cons R Rs)
  obtain j' where j: "j = Suc j'" using Cons.prems(2) by (cases j) auto
  show ?case
  proof (cases i)
    case 0
    show ?thesis
    proof (cases "sep R")
      case True
      then show ?thesis using 0 j by (intro exI [of _ 0]) simp
    next
      case False
      then have "\<exists>k < j'. sep (Rs ! k)"
        using one_side_nth [of sep "changed_by R" Rs j'] Cons.prems 0 j by auto
      then obtain k where "k < j'" "sep (Rs ! k)" by blast
      then show ?thesis using 0 j by (intro exI [of _ "Suc k"]) simp
    qed
  next
    case (Suc i')
    obtain k where "i' \<le> k" "k < j'" "sep (Rs ! k)"
      using Cons.IH [of i' j'] Cons.prems Suc j by auto
    then show ?thesis using Suc j by (intro exI [of _ "Suc k"]) simp
  qed
qed simp

text \<open>\<open>assemble\<close> joins the taken lines exactly when the changes of the sides are separated.\<close>

lemma assemble_regions:
  "assemble base unique kept (map reg_step Rs) l sp =
   (if (sp \<or> one_side (separates base unique kept) l Rs) \<and> separated_regions (separates base unique kept) Rs
    then Some (concat (map (out_part base) Rs)) else None)"
proof (induction Rs arbitrary: l sp)
  case (Cons R Rs)
  let ?sep = "separates base unique kept"
  let ?sp = "(if changed_by R \<noteq> None then False else sp)"
  let ?l = "if changed_by R \<noteq> None then changed_by R else l"
  have step: "assemble base unique kept (map reg_step (R # Rs)) l sp =
      (if changed_by R \<noteq> None \<and> l \<noteq> None \<and> l \<noteq> changed_by R \<and> \<not> sp then None
       else map_option (\<lambda>out. out_part base R @ out)
         (assemble base unique kept (map reg_step Rs) ?l (?sp \<or> ?sep R)))"
    by (cases "anchor_at R")
      (auto simp: reg_step_def Let_def separates_def out_part_def anchor_line_def split: option.splits)
  show ?case
    unfolding step Cons.IH
    by (cases "changed_by R"; cases l; cases sp; cases "?sep R") auto
qed simp

section \<open>What the steps are when one side, or both alike, changed\<close>

lemma diff3_steps_unchanged:
  assumes "theirs = base" "mt = map Some [0..<length base]" "t = b" "b \<le> length base"
  shows "\<exists>ss. diff3_steps base ours theirs mo mt b k t = Some ss
    \<and> (\<forall>(side, _) \<in> set ss. side \<noteq> Some False)"
  using assms
proof (induction base ours theirs mo mt b k t rule: diff3_steps.induct)
  case (1 base ours theirs mo mt b k t)
  note eqs = "1.prems"(1-3)
  have side: "\<exists>side taken. take_side r m r = Some (side, taken) \<and> side \<noteq> Some False" for r m :: "'a list"
    by (auto simp: take_side_def split: bool.split)
  show ?case
  proof (cases "find_anchor mo mt [b..<length base]")
    case None
    then show ?thesis
      using side [of "slice base b (length base)" "slice ours k (length ours)"] eqs
      unfolding diff3_steps.simps [of base ours theirs mo mt b k t] by auto
  next
    case (Some a)
    obtain i p q where a: "a = (i, p, q)" by (cases a)
    note f = Some [unfolded a]
    have q: "q = i" using find_anchor_upt [OF f] eqs by simp
    obtain side taken where st: "take_side (slice base b i) (slice ours k p) (slice theirs t q) = Some (side, taken)"
        "side \<noteq> Some False"
      using side [of "slice base b i" "slice ours k p"] eqs q by auto
    obtain ss where ss: "diff3_steps base ours theirs mo mt (i + 1) (p + 1) (q + 1) = Some ss"
        "\<forall>(side, _) \<in> set ss. side \<noteq> Some False"
      using "1.IH" [OF f refl refl st(1) refl] q eqs find_anchor_upt(2) [OF f] by auto
    show ?thesis
      using f ss st unfolding diff3_steps.simps [of base ours theirs mo mt b k t] by simp
  qed
qed

lemma diff3_steps_alike:
  assumes "diff3_steps base ours theirs mo mt b k t = Some ss" "theirs = ours" "mt = mo" "t = k"
  shows "\<forall>(side, _) \<in> set ss. side = None"
  using assms
proof (induction base ours theirs mo mt b k t arbitrary: ss rule: diff3_steps.induct)
  case (1 base ours theirs mo mt b k t)
  note eqs = "1.prems"(2-4)
  have side: "take_side r m m = Some (side, taken) \<Longrightarrow> side = None" for r m :: "'a list" and side taken
    by (auto simp: take_side_def split: bool.splits)
  show ?case
  proof (cases "find_anchor mo mt [b..<length base]")
    case None
    then show ?thesis
      using "1.prems"(1) side eqs
      unfolding diff3_steps.simps [of base ours theirs mo mt b k t] by (auto split: option.splits)
  next
    case (Some a)
    obtain i p q where a: "a = (i, p, q)" by (cases a)
    note f = Some [unfolded a]
    have q: "q = p" using find_anchor_upt [OF f] eqs by simp
    obtain side taken ss' where st: "take_side (slice base b i) (slice ours k p) (slice theirs t q) = Some (side, taken)"
        "diff3_steps base ours theirs mo mt (i + 1) (p + 1) (q + 1) = Some ss'" "ss = (side, taken, Some i) # ss'"
      using "1.prems"(1) f
      unfolding diff3_steps.simps [of base ours theirs mo mt b k t] by (auto split: option.splits)
    have "\<forall>(side, _) \<in> set ss'. side = None"
      using "1.IH" [OF f refl refl st(1) refl st(2)] q eqs by simp
    then show ?thesis using st(1,3) side q eqs by auto
  qed
qed

lemma find_anchor_swap:
  "find_anchor mt mo is = map_option (\<lambda>(i, p, q). (i, q, p)) (find_anchor mo mt is)"
  by (induction "is") (auto split: option.splits)

lemma take_side_swap:
  "take_side r u m = map_option (\<lambda>(side, taken). (map_option Not side, taken)) (take_side r m u)"
  by (cases "m = r"; cases "u = r") (auto simp: take_side_def)

definition flip_step :: "'a step \<Rightarrow> 'a step" where
  "flip_step s = (case s of (side, taken, line) \<Rightarrow> (map_option Not side, taken, line))"

lemma diff3_steps_swap:
  "diff3_steps base theirs ours mt mo b t k =
   map_option (map flip_step) (diff3_steps base ours theirs mo mt b k t)"
proof (induction base ours theirs mo mt b k t rule: diff3_steps.induct)
  case (1 base ours theirs mo mt b k t)
  show ?case
  proof (cases "find_anchor mo mt [b..<length base]")
    case None
    then show ?thesis
      unfolding diff3_steps.simps [of base theirs ours mt mo b t k]
        diff3_steps.simps [of base ours theirs mo mt b k t] find_anchor_swap [of mt mo] take_side_swap [of _ "slice theirs _ _"]
      by (auto simp: flip_step_def split: option.split)
  next
    case (Some a)
    obtain i p q where a: "a = (i, p, q)" by (cases a)
    note f = Some [unfolded a]
    show ?thesis
    proof (cases "take_side (slice base b i) (slice ours k p) (slice theirs t q)")
      case None
      then show ?thesis using f
        unfolding diff3_steps.simps [of base theirs ours mt mo b t k]
          diff3_steps.simps [of base ours theirs mo mt b k t] find_anchor_swap [of mt mo] take_side_swap [of _ "slice theirs _ _"] by simp
    next
      case (Some st)
      obtain side taken where st: "st = (side, taken)" by (cases st)
      show ?thesis
        using f Some st "1.IH" [OF f refl refl Some [unfolded st] refl]
        unfolding diff3_steps.simps [of base theirs ours mt mo b t k]
          diff3_steps.simps [of base ours theirs mo mt b k t] find_anchor_swap [of mt mo] take_side_swap [of _ "slice theirs _ _"]
        by (auto simp: flip_step_def split: option.split)
    qed
  qed
qed

lemma flip_side [simp]: "map_option Not (map_option Not s) = s" "map_option Not s = map_option Not r \<longleftrightarrow> s = r"
  by (cases s; cases r; simp)+

lemma assemble_flip:
  "assemble base u v (map flip_step ss) (map_option Not l) sp = assemble base u v ss l sp"
proof (induction ss arbitrary: l sp)
  case (Cons s ss)
  obtain side taken line where s: "s = (side, taken, line)" by (cases s)
  show ?case
    using Cons.IH [of l] Cons.IH [of side] unfolding s
    by (cases side; cases line) (auto simp: flip_step_def Let_def simp del: flip_side(1))
qed simp

lemma unique_line_swap: "unique_line base theirs ours = unique_line base ours theirs"
  by (auto simp: unique_line_def fun_eq_iff)

lemma diff3_alt:
  "diff3 base ours theirs =
   Option.bind (diff3_steps base ours theirs (fst (matches base ours)) (fst (matches base theirs)) 0 0 0)
     (\<lambda>ss. assemble base (unique_line base ours theirs)
        (\<lambda>i. snd (matches base ours) ! i \<and> snd (matches base theirs) ! i) ss None False)"
  by (simp add: diff3_def case_prod_beta split: option.split)

lemma diff3_steps_start:
  assumes "diff3_steps base ours theirs (fst (matches base ours)) (fst (matches base theirs)) 0 0 0 = Some ss"
  obtains Rs where "ss = map reg_step Rs" "list_all (region_ok base) Rs"
    "base = concat (map (base_part base) Rs)" "ours = concat (map (side_part True base) Rs)"
    "theirs = concat (map (side_part False base) Rs)"
  using diff3_steps_regions [OF assms tail_aligned_start tail_aligned_start] alignment_matches by auto

section \<open>Properties\<close>

text \<open>A base row every longest matching of either side keeps, whose line occurs once in each text.\<close>

definition pivot :: "'a list \<Rightarrow> 'a list \<Rightarrow> 'a list \<Rightarrow> nat \<Rightarrow> bool" where
  "pivot base ours theirs a \<longleftrightarrow>
     count_list base (base ! a) = 1 \<and> count_list ours (base ! a) = 1 \<and> count_list theirs (base ! a) = 1
     \<and> (\<forall>side \<in> {ours, theirs}. \<forall>zs. subseq zs base \<and> subseq zs side \<and> length zs = lcs base side
          \<longrightarrow> base ! a \<in> set zs)"

lemma subseq_avoid:
  assumes "subseq zs (xs @ y # ys)" "y \<notin> set zs"
  shows "subseq zs (xs @ ys)"
proof -
  obtain us vs where uv: "zs = us @ vs" "subseq us xs" "subseq vs (y # ys)"
    using assms(1) by (rule subseq_appendE)
  have "subseq vs ys"
  proof (cases vs)
    case (Cons v vs')
    then have "v \<noteq> y" using assms(2) uv(1) by auto
    then show ?thesis using uv(3) Cons by simp
  qed simp
  with uv show ?thesis by (simp add: list_emb_append_mono)
qed

lemma count_list_filter: "length (filter (\<lambda>l. l = x) xs) = count_list xs x"
  by (induction xs) auto

lemma mandatory_pivot:
  assumes "a < length base" "snd (matches base side) ! a"
    "subseq zs base" "subseq zs side" "length zs = lcs base side"
  shows "base ! a \<in> set zs"
proof (rule ccontr)
  assume out: "base ! a \<notin> set zs"
  have "subseq zs (take a base @ base ! a # drop (Suc a) base)"
    using assms(1,3) by (simp only: id_take_nth_drop [symmetric])
  then have "subseq zs (take a base @ drop (Suc a) base)" by (rule subseq_avoid) (rule out)
  then have "length zs \<le> lcs (take a base @ drop (Suc a) base) side"
    using assms(4) by (rule lcs_upper)
  moreover have "lcs (take a base @ drop (Suc a) base) side < lcs base side"
    using assms(1,2) by (simp add: matches_mandatory)
  ultimately show False using assms(5) by simp
qed

lemma separates_pivot:
  assumes "separates base (unique_line base ours theirs)
      (\<lambda>i. snd (matches base ours) ! i \<and> snd (matches base theirs) ! i) R" "region_ok base R"
  shows "\<exists>a. anchor_at R = Some a \<and> pivot base ours theirs a"
proof -
  obtain a where a: "anchor_at R = Some a" "unique_line base ours theirs (base ! a)"
      "snd (matches base ours) ! a" "snd (matches base theirs) ! a" "a < length base"
    using assms by (auto simp: separates_def region_ok_def split: option.splits)
  have "pivot base ours theirs a"
    using a(2) mandatory_pivot [OF a(5,3)] mandatory_pivot [OF a(5,4)]
    by (auto simp: pivot_def unique_line_def count_list_filter)
  with a(1) show ?thesis by blast
qed

text \<open>C37: What a merged text is made of. The three texts and the merge split into the same sequence of
regions and common anchor lines; every region is taken from the only side that changed it (\<open>region_ok\<close>),
so no edit of either side is lost and nothing else is added; and between two regions changed by different
sides there is an anchor line that occurs once in all three texts and that every longest matching keeps.\<close>

theorem diff3_regions:
  assumes "diff3 base ours theirs = Some out"
  shows "\<exists>Rs. list_all (region_ok base) Rs
    \<and> base = concat (map (base_part base) Rs) \<and> ours = concat (map (side_part True base) Rs)
    \<and> theirs = concat (map (side_part False base) Rs) \<and> out = concat (map (out_part base) Rs)
    \<and> (\<forall>i j. i < j \<and> j < length Rs \<and> changed_by (Rs ! i) \<noteq> None \<and> changed_by (Rs ! j) \<noteq> None
          \<and> changed_by (Rs ! i) \<noteq> changed_by (Rs ! j) \<longrightarrow>
        (\<exists>k a. i \<le> k \<and> k < j \<and> anchor_at (Rs ! k) = Some a \<and> pivot base ours theirs a))"
proof -
  let ?sep = "separates base (unique_line base ours theirs)
      (\<lambda>i. snd (matches base ours) ! i \<and> snd (matches base theirs) ! i)"
  obtain ss where ss: "diff3_steps base ours theirs (fst (matches base ours)) (fst (matches base theirs)) 0 0 0 = Some ss"
      "assemble base (unique_line base ours theirs)
        (\<lambda>i. snd (matches base ours) ! i \<and> snd (matches base theirs) ! i) ss None False = Some out"
    using assms by (auto simp: diff3_alt Option.bind_eq_Some_conv)
  obtain Rs where Rs: "ss = map reg_step Rs" "list_all (region_ok base) Rs"
    "base = concat (map (base_part base) Rs)" "ours = concat (map (side_part True base) Rs)"
    "theirs = concat (map (side_part False base) Rs)"
    by (rule diff3_steps_start [OF ss(1)])
  have sep: "separated_regions ?sep Rs" and out: "out = concat (map (out_part base) Rs)"
    using ss(2) by (auto simp: Rs(1) assemble_regions split: if_splits)
  have "\<exists>k a. i \<le> k \<and> k < j \<and> anchor_at (Rs ! k) = Some a \<and> pivot base ours theirs a"
    if ij: "i < j \<and> j < length Rs \<and> changed_by (Rs ! i) \<noteq> None \<and> changed_by (Rs ! j) \<noteq> None
      \<and> changed_by (Rs ! i) \<noteq> changed_by (Rs ! j)" for i j
  proof -
    obtain k where k: "i \<le> k" "k < j" "?sep (Rs ! k)"
      using separated_regions_nth [OF sep] ij by blast
    have "region_ok base (Rs ! k)" using Rs(2) k(2) ij by (simp add: list_all_length)
    then show ?thesis using separates_pivot [OF k(3)] k(1,2) by blast
  qed
  with Rs(2-5) out show ?thesis by blast
qed

theorem diff3_regions_witness:
  "diff3 ''ab'' ''xb'' ''aby'' = Some ''xby''
   \<and> (\<exists>Rs. ''ab'' = concat (map (base_part ''ab'') Rs) \<and> ''xby'' = concat (map (out_part ''ab'') Rs))"
proof -
  have r: "diff3 ''ab'' ''xb'' ''aby'' = Some ''xby''" by code_simp
  from diff3_regions [OF r] obtain Rs where
    "''ab'' = concat (map (base_part ''ab'') Rs)" "''xby'' = concat (map (out_part ''ab'') Rs)"
    by blast
  with r show ?thesis by blast
qed

text \<open>C38: Swapping ours and theirs gives the same merge and the same conflicts.\<close>

theorem diff3_symmetric: "diff3 base theirs ours = diff3 base ours theirs"
proof -
  have "assemble base u v (map flip_step ss) None False = assemble base u v ss None False"
    for u :: "'a \<Rightarrow> bool" and v ss
    using assemble_flip [of base u v ss None False] by simp
  then show ?thesis
    unfolding diff3_alt diff3_steps_swap [of base theirs ours] unique_line_swap [of base theirs ours]
    by (cases "diff3_steps base ours theirs (fst (matches base ours)) (fst (matches base theirs)) 0 0 0")
      (simp_all add: conj_commute)
qed

lemma diff3_unchanged_theirs: "diff3 base ours base = Some ours"
proof -
  obtain ss where ss: "diff3_steps base ours base (fst (matches base ours)) (fst (matches base base)) 0 0 0 = Some ss"
      "\<forall>(side, _) \<in> set ss. side \<noteq> Some False"
    using diff3_steps_unchanged [OF refl matches_same refl le0, of base ours "fst (matches base ours)" 0] by auto
  obtain Rs where Rs: "ss = map reg_step Rs" "list_all (region_ok base) Rs"
    "ours = concat (map (side_part True base) Rs)"
    by (rule diff3_steps_start [OF ss(1)])
  have cases: "side \<noteq> Some False \<longleftrightarrow> side = None \<or> side = Some True" for side
    by (cases side) auto
  have R: "\<forall>R \<in> set Rs. changed_by R = None \<or> changed_by R = Some True"
    using ss(2) unfolding cases by (auto simp: Rs(1) reg_step_def)
  have out: "map (out_part base) Rs = map (side_part True base) Rs"
    using R Rs(2) by (auto simp: out_part_def side_part_def region_ok_def list_all_iff)
  have one: "one_side sep (Some True) Rs" for sep :: "'a region \<Rightarrow> bool"
    using R by (induction Rs) auto
  have "separated_regions sep Rs" for sep :: "'a region \<Rightarrow> bool"
    using R
  proof (induction Rs)
    case (Cons R Rs)
    then have "one_side sep (Some True) Rs" by (induction Rs) auto
    with Cons show ?case by auto
  qed simp
  then have "diff3 base ours base = Some (concat (map (out_part base) Rs))"
    using ss(1) by (simp add: diff3_alt Rs(1) assemble_regions)
  then show ?thesis unfolding out Rs(3) [symmetric] .
qed

text \<open>A side that kept the base never conflicts: the merge is exactly the other side's text.\<close>

theorem diff3_unchanged_side: "diff3 base ours base = Some ours \<and> diff3 base base theirs = Some theirs"
proof -
  have "diff3 base base theirs = diff3 base theirs base"
    unfolding diff3_alt diff3_steps_swap [of base base theirs] unique_line_swap [of base base theirs]
    using assemble_flip [of base _ _ _ None False] by (cases "diff3_steps base theirs base (fst (matches base theirs)) (fst (matches base base)) 0 0 0") (simp_all add: conj_commute)
  then show ?thesis by (simp add: diff3_unchanged_theirs)
qed

text \<open>The merge does not converge: two sides that made the same change conflict, and only two sides that
both kept the base merge.\<close>

theorem diff3_same_change: "diff3 base same same = (if same = base then Some base else None)"
proof (cases "diff3_steps base same same (fst (matches base same)) (fst (matches base same)) 0 0 0")
  case None
  then have "same \<noteq> base" using diff3_unchanged_theirs [of base base] by (auto simp: diff3_alt)
  with None show ?thesis by (simp add: diff3_alt)
next
  case (Some ss)
  obtain Rs where Rs: "ss = map reg_step Rs" "list_all (region_ok base) Rs"
    "base = concat (map (base_part base) Rs)" "same = concat (map (side_part True base) Rs)"
    by (rule diff3_steps_start [OF Some])
  have "\<forall>(side, _) \<in> set ss. side = None" by (rule diff3_steps_alike [OF Some]) simp_all
  then have "map (side_part True base) Rs = map (base_part base) Rs"
    by (auto simp: Rs(1) reg_step_def side_part_def base_part_def)
  then have "same = base" using Rs(3,4) by argo
  then show ?thesis by (simp add: diff3_unchanged_theirs)
qed

section \<open>The text merge\<close>

lemma merge_lines_Inr:
  "merge_lines base ours theirs u = Inr (v, x) \<longleftrightarrow>
   (\<forall>t \<in> {base, ours, theirs}. line_count t \<le> limit Lines)
   \<and> table_cells (line_count base) (line_count ours) \<le> limit TableCells
   \<and> table_cells (line_count base) (line_count theirs) \<le> limit TableCells
   \<and> reserve (lines_work (line_count base) (line_count ours) (line_count theirs)
        (length base) (length ours) (length theirs)) u = Inr v
   \<and> x = map_option concat (diff3 (lines base) (lines ours) (lines theirs))"
  unfolding merge_lines_def Let_def by (auto simp: result_simps simp del: limit.simps)

lemma lines_work_swap: "lines_work n m k b o' t = lines_work n k m b t o'"
  by (simp add: lines_work_def algebra_simps)

lemma merge_lines_swap:
  "merge_lines base ours theirs u = Inr r \<Longrightarrow> merge_lines base theirs ours u = Inr r"
  by (cases r) (auto simp: merge_lines_Inr diff3_symmetric [of "lines base" "lines theirs"]
      lines_work_swap [of "line_count base" "line_count theirs"] simp del: limit.simps)

lemma merge_lines_ok: "usage_ok u \<Longrightarrow> merge_lines base ours theirs u = Inr (v, x) \<Longrightarrow> usage_ok v"
  using reserve_ok by (auto simp: merge_lines_Inr simp del: limit.simps)

lemma side_work_bound:
  assumes "n \<le> 8192" "m \<le> 8192" "o' \<le> 1048576" "table_cells n m \<le> 4194304"
  shows "side_work n b m o' \<le> 25790967812"
proof -
  have "n * o' \<le> 8192 * 1048576" using assms(1,3) by (rule mult_le_mono)
  then have "min (n * o') (m * b) \<le> 8589934592" by simp
  then show ?thesis using assms(1,2,4) unfolding side_work_def by presburger
qed

text \<open>The resource arithmetic of \<open>merge_lines\<close> does not wrap: for texts within the blob limit whose line
counts and tables are admitted, the products and the whole reserved work are below \<open>2 ^ 64\<close>, and the
counted lines are the lines the merge works on.\<close>

theorem merge_lines_work_fits:
  assumes "\<forall>t \<in> {base, ours, theirs}. length t \<le> limit BlobBytes \<and> line_count t \<le> limit Lines"
    and "\<forall>t \<in> {ours, theirs}. table_cells (line_count base) (line_count t) \<le> limit TableCells"
  shows "(\<forall>t \<in> {base, ours, theirs}. line_count t = length (lines t))
    \<and> lines_work (line_count base) (line_count ours) (line_count theirs)
        (length base) (length ours) (length theirs) < 2 ^ 64
    \<and> (\<forall>t \<in> {ours, theirs}. line_count base * length t < 2 ^ 64 \<and> line_count t * length base < 2 ^ 64)"
proof (intro conjI)
  show "\<forall>t \<in> {base, ours, theirs}. line_count t = length (lines t)" by (simp add: length_lines)
  let ?n = "line_count base" and ?m = "line_count ours" and ?k = "line_count theirs"
  let ?b = "length base" and ?o = "length ours" and ?t = "length theirs"
  have l: "?n \<le> 8192" "?m \<le> 8192" "?k \<le> 8192" "?b \<le> 1048576" "?o \<le> 1048576" "?t \<le> 1048576"
    "table_cells ?n ?m \<le> 4194304" "table_cells ?n ?k \<le> 4194304"
    using assms by simp_all
  have "?n + ?m + ?k + ?b + ?o + ?t \<le> 3170304" using l by simp
  moreover from this l(1) have "?n * (?n + ?m + ?k + ?b + ?o + ?t) \<le> 8192 * 3170304"
    by (intro mult_le_mono)
  ultimately show "lines_work ?n ?m ?k ?b ?o ?t < 2 ^ 64"
    using side_work_bound [OF l(1,2,5,7), of ?b] side_work_bound [OF l(1,3,6,8), of ?b]
    unfolding lines_work_def by simp
  have prod: "x * y < 2 ^ 64" if "x \<le> 8192" "y \<le> 1048576" for x y :: nat
    using mult_le_mono [OF that] by (rule order_le_less_trans) simp
  show "\<forall>t \<in> {ours, theirs}. ?n * length t < 2 ^ 64 \<and> line_count t * ?b < 2 ^ 64"
    using l by (simp only: ball_simps prod simp_thms)
qed

theorem merge_lines_work_fits_witness:
  "lines_work (line_count ''ab'') (line_count ''xb'') (line_count ''aby'')
     (length ''ab'') (length ''xb'') (length ''aby'') < 2 ^ 64"
proof -
  have "\<forall>t \<in> {''ab'', ''xb'', ''aby''}. length t \<le> limit BlobBytes \<and> line_count t \<le> limit Lines"
    "\<forall>t \<in> {''xb'', ''aby''}. table_cells (line_count ''ab'') (line_count t) \<le> limit TableCells"
    by (simp_all add: line_count_def table_cells_def)
  from merge_lines_work_fits [OF this] show ?thesis by blast
qed

end
