(* ===== verification/Merge.thy ===== *)
theory Merge
  imports Domain Diff3
begin

text \<open>
  \<open>crates/javelin-merge/src/lib.rs\<close>: the three-way merge of manifests. \<open>load\<close> (the blob loader) and
  \<open>aliases\<close> (the volume's alias probe) are the caller's closures and parameters here, as functions of
  their argument. A loop over a \<open>BTreeMap\<close> is a recursion over the sorted association list; the
  choice loop of \<open>merge_resolved\<close> ends because every pass applies a new choice. The \<open>usage\<close> is
  threaded through the operations that reserve.
\<close>

section \<open>The program\<close>

datatype merged = Retained file_entry | MContent bytes bool

datatype conflict_kind =
    KContent | KBinary | KModifyDelete | KAddAdd | KEntryType | KPathPrefix | KRenameRename | KAlias

record conflict =
  c_path :: string
  c_kind :: conflict_kind
  c_base :: "file_entry option"
  c_ours :: "file_entry option"
  c_theirs :: "file_entry option"
  c_with :: "string option"

record merge_outcome =
  mo_merged :: "(string, merged) omap"
  mo_conflicts :: "conflict list"
  mo_unused :: "string list"
  mo_usage :: usage

definition is_clean :: "merge_outcome \<Rightarrow> bool" where
  "is_clean mo \<longleftrightarrow> mo_conflicts mo = []"

datatype path_result = Resolved merged | Deleted | Unresolved conflict_kind

type_synonym sides = "file_entry option \<times> file_entry option \<times> file_entry option"
type_synonym results = "(string, path_result \<times> sides) omap"
type_synonym analysis = "(string, string) omap \<times> string list"

definition take_entry :: "file_entry option \<Rightarrow> path_result" where
  "take_entry e = (case e of Some e \<Rightarrow> Resolved (Retained e) | None \<Rightarrow> Deleted)"

fun entry_mode :: "file_entry option \<Rightarrow> bool option" where
  "entry_mode (Some (Regular c x)) = Some x"
| "entry_mode _ = None"

definition or_else :: "'a option \<Rightarrow> 'a option \<Rightarrow> 'a option" where
  "or_else a b = (case a of Some x \<Rightarrow> Some x | None \<Rightarrow> b)"

fun choose_side :: "choice \<Rightarrow> sides \<Rightarrow> path_result" where
  "choose_side Ours (b, o', t) = take_entry o'"
| "choose_side Theirs (b, o', t) = take_entry t"
| "choose_side (Content bytes executable) (b, o', t) =
     Resolved (MContent bytes
       (case or_else (or_else executable (entry_mode o')) (entry_mode t) of Some x \<Rightarrow> x | None \<Rightarrow> False))"

definition bounded_load ::
  "(object_id \<Rightarrow> 'e + bytes) \<Rightarrow> object_id \<Rightarrow> usage \<Rightarrow> 'e merge_error + usage \<times> bytes" where
  "bounded_load load id' usage =
     ebind (emap_err Load (load id')) (\<lambda>bytes.
     ebind (emap_err Resource (loaded (length bytes) usage)) (\<lambda>usage. Inr (usage, bytes)))"

text \<open>Content that both sides changed: the three blobs are loaded and merged as lines.\<close>

definition merge_bytes ::
  "bytes \<Rightarrow> bytes \<Rightarrow> bytes \<Rightarrow> bool \<Rightarrow> usage \<Rightarrow> resource_limit + usage \<times> path_result" where
  "merge_bytes b o' t executable usage =
     (if list_ex (\<lambda>bytes. CHR 0x00 \<in> set bytes) [b, o', t] then Inr (usage, Unresolved KBinary)
      else
        ebind (merge_lines b o' t usage) (\<lambda>(usage, r).
          Inr (usage, case r of
              Some bytes \<Rightarrow> Resolved (MContent bytes executable)
            | None \<Rightarrow> Unresolved KContent)))"

definition merge_content ::
  "(object_id \<Rightarrow> 'e + bytes) \<Rightarrow> object_id \<Rightarrow> object_id \<Rightarrow> object_id \<Rightarrow> bool \<Rightarrow> usage
   \<Rightarrow> 'e merge_error + usage \<times> path_result" where
  "merge_content load b o' t executable usage =
     ebind (bounded_load load b usage) (\<lambda>(usage, b).
     ebind (bounded_load load o' usage) (\<lambda>(usage, o').
     ebind (bounded_load load t usage) (\<lambda>(usage, t).
     emap_err Resource (merge_bytes b o' t executable usage))))"

definition merge_path ::
  "(object_id \<Rightarrow> 'e + bytes) \<Rightarrow> sides \<Rightarrow> usage \<Rightarrow> 'e merge_error + usage \<times> path_result" where
  "merge_path load sides usage =
     (case sides of (base, ours, theirs) \<Rightarrow>
      if ours = theirs \<or> theirs = base then Inr (usage, take_entry ours)
      else if ours = base then Inr (usage, take_entry theirs)
      else case (base, ours, theirs) of
        (Some (Regular b bx), Some (Regular o' ox), Some (Regular t tx)) \<Rightarrow>
          (let executable = (if ox = bx then tx else ox) in
           if o' = t \<or> t = b then Inr (usage, Resolved (Retained (Regular o' executable)))
           else if o' = b then Inr (usage, Resolved (Retained (Regular t executable)))
           else merge_content load b o' t executable usage)
      | (Some _, Some _, Some _) \<Rightarrow> Inr (usage, Unresolved KEntryType)
      | _ \<Rightarrow> Inr (usage, Unresolved (if base = None then KAddAdd else KModifyDelete)))"

text \<open>Admission of the paths: the byte total and the metadata work of the first loop.\<close>

fun admit_paths :: "string list \<Rightarrow> nat \<Rightarrow> nat \<Rightarrow> resource_limit + nat" where
  "admit_paths [] path_bytes metadata_work = Inr metadata_work"
| "admit_paths (path # paths) path_bytes metadata_work =
     (let len = length path in
      ebind (check PathBytes len) (\<lambda>_.
      ebind (check TotalPathBytes (path_bytes + len)) (\<lambda>_.
      admit_paths paths (path_bytes + len) (metadata_work + 64 * (len + 1) * (len + 1)))))"

fun merge_paths ::
  "(object_id \<Rightarrow> 'e + bytes) \<Rightarrow> manifest \<Rightarrow> manifest \<Rightarrow> manifest \<Rightarrow> string list \<Rightarrow> usage
   \<Rightarrow> 'e merge_error + usage \<times> results" where
  "merge_paths load b o' t [] usage = Inr (usage, [])"
| "merge_paths load b o' t (path # paths) usage =
     (let sides = (map_of b path, map_of o' path, map_of t path) in
      ebind (merge_path load sides usage) (\<lambda>(usage, result).
      ebind (merge_paths load b o' t paths usage) (\<lambda>(usage, results).
      Inr (usage, (path, result, sides) # results))))"

text \<open>Destinations both sides renamed one base path to, differently, by their partner.\<close>

definition rename_partner :: "(string, string) omap \<Rightarrow> (string, string) omap \<Rightarrow> (string, string) omap" where
  "rename_partner ours_renames theirs_renames =
     fold (\<lambda>(from', to) partner.
        case map_of theirs_renames from' of
          Some other \<Rightarrow>
            if other \<noteq> to then omap_insert other to (omap_insert to other partner) else partner
        | None \<Rightarrow> partner) ours_renames []"

definition mark_renames :: "(string, string) omap \<Rightarrow> results \<Rightarrow> results" where
  "mark_renames partner results =
     map (\<lambda>(path, result, sides).
        (path, if omap_has partner path then Unresolved KRenameRename else result, sides)) results"

text \<open>Whether a path could remain in the owner's result, and the structural collisions.\<close>

fun is_present :: "path_result \<times> sides \<Rightarrow> bool" where
  "is_present (Resolved m, s) = True"
| "is_present (Deleted, s) = False"
| "is_present (Unresolved k, (b, o', t)) = (o' \<noteq> None \<or> t \<noteq> None)"

definition or_insert :: "'k::linorder \<Rightarrow> 'v \<Rightarrow> ('k, 'v) omap \<Rightarrow> ('k, 'v) omap" where
  "or_insert k v m = (if omap_has m k then m else omap_insert k v m)"

definition collide :: "string list \<Rightarrow> string \<Rightarrow> (string, string) omap \<Rightarrow> (string, string) omap" where
  "collide present path collisions =
     fold (\<lambda>parent collisions.
        if parent \<in> set present then or_insert parent path (or_insert path parent collisions)
        else collisions) (ancestors path) collisions"

definition present_paths :: "results \<Rightarrow> string list" where
  "present_paths results = map fst (filter (\<lambda>(path, r). is_present r) results)"

definition analyse ::
  "(string list \<Rightarrow> 'e + string list) \<Rightarrow> results \<Rightarrow> 'e merge_error + analysis" where
  "analyse aliases results =
     (let present = present_paths results;
          collisions = fold (collide present) present [];
          candidates = filter (\<lambda>path. \<not> omap_has collisions path) present
      in if length candidates > 1
         then ebind (emap_err Load (aliases candidates)) (\<lambda>hits. Inr (collisions, oset_of hits))
         else Inr (collisions, []))"

fun is_unresolved :: "path_result \<Rightarrow> bool" where
  "is_unresolved (Unresolved k) = True"
| "is_unresolved _ = False"

fun apply_choices ::
  "(string, choice) omap \<Rightarrow> (string, string) omap \<Rightarrow> string list \<Rightarrow> results \<Rightarrow> string list
   \<Rightarrow> results \<times> string list \<times> bool" where
  "apply_choices choices collisions hits [] applied = ([], applied, False)"
| "apply_choices choices collisions hits ((path, result, sides) # results) applied =
     (let conflicting = is_unresolved result \<or> omap_has collisions path \<or> path \<in> set hits;
          skip = (let (results', applied', progress) = apply_choices choices collisions hits results applied
                  in ((path, result, sides) # results', applied', progress))
      in if \<not> conflicting \<or> path \<in> set applied then skip
         else case map_of choices path of
             None \<Rightarrow> skip
           | Some choice \<Rightarrow>
               (let (results', applied', progress) =
                  apply_choices choices collisions hits results (insort_insert path applied)
                in ((path, choose_side choice sides, sides) # results', applied', True)))"

lemma apply_choices_keys:
  "apply_choices ch co hits rs applied = (rs', applied', progress) \<Longrightarrow>
   map fst rs' = map fst rs \<and> set applied \<subseteq> set applied'
   \<and> (progress \<longrightarrow> (\<exists>k \<in> fst ` set rs. k \<notin> set applied \<and> k \<in> set applied'))
   \<and> (\<not> progress \<longrightarrow> rs' = rs \<and> applied' = applied)"
proof (induction rs arbitrary: applied rs' applied' progress)
  case (Cons r rs)
  obtain p res s where r: "r = (p, res, s)" by (cases r)
  let ?con = "is_unresolved res \<or> omap_has co p \<or> p \<in> set hits"
  show ?case
  proof (cases "\<not> ?con \<or> p \<in> set applied \<or> map_of ch p = None")
    case True
    obtain rs2 ap2 pr2 where rec: "apply_choices ch co hits rs applied = (rs2, ap2, pr2)" by (metis prod_cases3)
    have "rs' = (p, res, s) # rs2 \<and> applied' = ap2 \<and> progress = pr2"
      using Cons.prems True rec by (cases "map_of ch p") (auto simp: r Let_def split: if_splits)
    then show ?thesis using Cons.IH [OF rec] by (auto simp: r)
  next
    case False
    then obtain c where c: "map_of ch p = Some c" by blast
    obtain rs2 ap2 pr2 where rec: "apply_choices ch co hits rs (insort_insert p applied) = (rs2, ap2, pr2)"
      by (metis prod_cases3)
    have eq: "rs' = (p, choose_side c s, s) # rs2 \<and> applied' = ap2 \<and> progress"
      using Cons.prems False rec c by (auto simp: r Let_def)
    show ?thesis
      using Cons.IH [OF rec] eq False by (auto simp: r set_insort_insert)
  qed
qed simp

lemma resolve_measure:
  assumes "apply_choices ch co hits rs applied = (rs', applied', True)"
  shows "card (fst ` set rs' - set applied') < card (fst ` set rs - set applied)"
proof -
  note k = apply_choices_keys [OF assms]
  have keys: "fst ` set rs' = fst ` set rs" using k by (metis list.set_map)
  have "fst ` set rs - set applied' \<subset> fst ` set rs - set applied" using k by blast
  then show ?thesis unfolding keys by (intro psubset_card_mono) simp_all
qed

function resolve_loop ::
  "(string list \<Rightarrow> 'e + string list) \<Rightarrow> (string, choice) omap \<Rightarrow> results \<Rightarrow> string list
   \<Rightarrow> 'e merge_error + results \<times> string list \<times> analysis" where
  "resolve_loop aliases choices results applied =
     (case analyse aliases results of
        Inl e \<Rightarrow> Inl e
      | Inr (collisions, hits) \<Rightarrow>
          (case apply_choices choices collisions hits results applied of
             (results', applied', progress) \<Rightarrow>
               if progress then resolve_loop aliases choices results' applied'
               else Inr (results', applied', (collisions, hits))))"
  by pat_completeness auto
termination
  by (relation "measure (\<lambda>(_, _, rs, applied). card (fst ` set rs - set applied))")
    (auto dest: resolve_measure [OF sym])

declare resolve_loop.simps [simp del]

definition conflict_at :: "string \<Rightarrow> sides \<Rightarrow> conflict_kind \<Rightarrow> string option \<Rightarrow> conflict" where
  "conflict_at path sides kind with' =
     (case sides of (b, o', t) \<Rightarrow>
        \<lparr>c_path = path, c_kind = kind, c_base = b, c_ours = o', c_theirs = t, c_with = with'\<rparr>)"

text \<open>The last loop, into the merged paths and the conflicts.\<close>

fun sort_out ::
  "(string, string) omap \<Rightarrow> analysis \<Rightarrow> results \<Rightarrow> (string, merged) omap \<times> conflict list" where
  "sort_out partner an [] = ([], [])"
| "sort_out partner an ((path, result, sides) # results) =
     (case (sort_out partner an results, an) of ((merged, conflicts), (collisions, hits)) \<Rightarrow>
      (case result of
         Deleted \<Rightarrow> (merged, conflicts)
       | Unresolved kind \<Rightarrow>
           (merged, conflict_at path sides kind
              (if kind = KRenameRename then map_of partner path else map_of collisions path) # conflicts)
       | Resolved m \<Rightarrow>
           (case map_of collisions path of
              Some other \<Rightarrow> (merged, conflict_at path sides KPathPrefix (Some other) # conflicts)
            | None \<Rightarrow>
                if path \<in> set hits then (merged, conflict_at path sides KAlias None # conflicts)
                else ((path, m) # merged, conflicts))))"

definition merge_resolved ::
  "manifest \<Rightarrow> manifest \<Rightarrow> manifest \<Rightarrow> (string, choice) omap
   \<Rightarrow> (string list \<Rightarrow> 'e + string list) \<Rightarrow> (object_id \<Rightarrow> 'e + bytes) \<Rightarrow> 'e merge_error + merge_outcome" where
  "merge_resolved base ours theirs choices aliases load =
     (let every = map fst base @ map fst ours @ map fst theirs in
      ebind (emap_err Resource (check Entries (length base + length ours + length theirs))) (\<lambda>_.
      ebind (emap_err Resource (admit_paths every 0 0)) (\<lambda>metadata_work.
      ebind (emap_err Resource (reserve metadata_work usage_default)) (\<lambda>usage.
      ebind (merge_paths load base ours theirs (oset_of every) usage) (\<lambda>(usage, results).
      (let partner = rename_partner (renames_to base ours) (renames_to base theirs) in
       ebind (resolve_loop aliases choices (mark_renames partner results) []) (\<lambda>(results, applied, an).
       (case sort_out partner an results of (merged, conflicts) \<Rightarrow>
        Inr \<lparr>mo_merged = merged, mo_conflicts = conflicts,
             mo_unused = filter (\<lambda>path. path \<notin> set applied) (map fst choices),
             mo_usage = usage\<rparr>))))))))"

definition merge_manifests ::
  "manifest \<Rightarrow> manifest \<Rightarrow> manifest \<Rightarrow> (object_id \<Rightarrow> 'e + bytes) \<Rightarrow> 'e merge_error + merge_outcome" where
  "merge_manifests base ours theirs load =
     merge_resolved base ours theirs [] (\<lambda>_. Inr []) load"

section \<open>One path\<close>

text \<open>What three-way merging promises for one path whose content is not merged line by line.\<close>

definition three_way :: "'a \<Rightarrow> 'a \<Rightarrow> 'a \<Rightarrow> 'a option" where
  "three_way b o' t = (if o' = t \<or> t = b then Some o' else if o' = b then Some t else None)"

lemma three_way_swap: "three_way b t o' = three_way b o' t"
  by (auto simp: three_way_def)

lemma bounded_load_Inr:
  "bounded_load load i u = Inr (v, bs) \<longleftrightarrow> load i = Inr bs \<and> loaded (length bs) u = Inr v"
  by (auto simp: bounded_load_def result_simps)

lemma bounded_load_ok: "usage_ok u \<Longrightarrow> bounded_load load i u = Inr (v, bs) \<Longrightarrow> usage_ok v"
  using loaded_ok by (auto simp: bounded_load_Inr)

lemma merge_content_Inr:
  "merge_content load b o' t x u = Inr (v, r) \<longleftrightarrow>
   (\<exists>u1 bb u2 ob u3 tb. bounded_load load b u = Inr (u1, bb) \<and> bounded_load load o' u1 = Inr (u2, ob)
      \<and> bounded_load load t u2 = Inr (u3, tb) \<and> merge_bytes bb ob tb x u3 = Inr (v, r))"
  by (simp add: merge_content_def result_simps)

lemma merge_bytes_Inr:
  "merge_bytes bb ob tb x u = Inr (v, r) \<longleftrightarrow>
   (if CHR 0x00 \<in> set bb \<union> set ob \<union> set tb then v = u \<and> r = Unresolved KBinary
    else \<exists>m. merge_lines bb ob tb u = Inr (v, m)
      \<and> r = (case m of Some bytes \<Rightarrow> Resolved (MContent bytes x) | None \<Rightarrow> Unresolved KContent))"
  by (auto simp: merge_bytes_def result_simps)

lemma merge_bytes_swap: "merge_bytes bb ob tb x u = Inr r \<Longrightarrow> merge_bytes bb tb ob x u = Inr r"
  by (cases r) (auto simp: merge_bytes_Inr split: if_splits dest: merge_lines_swap)

lemma merge_bytes_ok: "usage_ok u \<Longrightarrow> merge_bytes b o' t x u = Inr (v, r) \<Longrightarrow> usage_ok v"
  by (auto simp: merge_bytes_Inr split: if_splits dest: merge_lines_ok)

lemma merge_content_ok: "usage_ok u \<Longrightarrow> merge_content load b o' t x u = Inr (v, r) \<Longrightarrow> usage_ok v"
  unfolding merge_content_Inr by (elim exE conjE) (meson bounded_load_ok merge_bytes_ok)

lemma merge_content_swap:
  assumes "merge_content load b o' t x u = Inr (v, r)"
  shows "merge_content load b t o' x u = Inr (v, r)"
proof -
  obtain u1 bb u2 ob u3 tb where l: "load b = Inr bb" "loaded (length bb) u = Inr u1"
      "load o' = Inr ob" "loaded (length ob) u1 = Inr u2" "load t = Inr tb" "loaded (length tb) u2 = Inr u3"
      "merge_bytes bb ob tb x u3 = Inr (v, r)"
    using assms by (auto simp: merge_content_Inr bounded_load_Inr)
  obtain u2' where u2': "loaded (length tb) u1 = Inr u2'" "loaded (length ob) u2' = Inr u3"
    using l(4,6) by (simp add: loaded_Inr algebra_simps)
  show ?thesis
    using l u2' merge_bytes_swap [OF l(7)] by (auto simp: merge_content_Inr bounded_load_Inr)
qed

lemma take_entry_simps [simp]:
  "take_entry None = Deleted" "take_entry (Some e) = Resolved (Retained e)"
  by (simp_all add: take_entry_def)

text \<open>The shape of \<open>merge_path\<close>: whole entries first, then content and mode apart.\<close>

lemma merge_path_cases:
  "merge_path load (b, o', t) u =
   (case three_way b o' t of
      Some e \<Rightarrow> Inr (u, take_entry e)
    | None \<Rightarrow>
       (case (b, o', t) of
          (Some (Regular bc bx), Some (Regular oc ox), Some (Regular tc tx)) \<Rightarrow>
            (case three_way bc oc tc of
               Some c \<Rightarrow> Inr (u, Resolved (Retained (Regular c (the (three_way bx ox tx)))))
             | None \<Rightarrow> merge_content load bc oc tc (the (three_way bx ox tx)) u)
        | (Some _, Some _, Some _) \<Rightarrow> Inr (u, Unresolved KEntryType)
        | _ \<Rightarrow> Inr (u, Unresolved (if b = None then KAddAdd else KModifyDelete))))"
proof -
  have x: "the (three_way bx ox tx) = (if ox = bx then tx else ox)" for bx ox tx :: bool
    by (cases bx; cases ox; cases tx) (simp_all add: three_way_def)
  show ?thesis
    unfolding merge_path_def three_way_def [of b] x
    by (auto simp: three_way_def Let_def split: option.split file_entry.split)
qed

lemma merge_path_ok: "usage_ok u \<Longrightarrow> merge_path load (b, o', t) u = Inr (v, r) \<Longrightarrow> usage_ok v"
  unfolding merge_path_cases
  by (auto split: option.splits file_entry.splits dest: merge_content_ok)

section \<open>Structural collisions\<close>

text \<open>What one path contributes to the collisions: its first present ancestor, and itself to each of them.\<close>

definition contributes :: "string list \<Rightarrow> string \<Rightarrow> string \<Rightarrow> string option" where
  "contributes present x k =
     (let as = filter (\<lambda>a. a \<in> set present) (ancestors x) in
      if k = x then (if as = [] then None else Some (hd as))
      else if k \<in> set as then Some x else None)"

lemma or_insert_ok [simp, intro]: "omap_ok m \<Longrightarrow> omap_ok (or_insert k v m)"
  by (simp add: or_insert_def omap_insert_ok)

lemma map_of_or_insert:
  assumes "omap_ok m"
  shows "map_of (or_insert k v m) q =
    (if q = k then Some (case map_of m k of None \<Rightarrow> v | Some w \<Rightarrow> w) else map_of m q)"
proof (cases "map_of m k")
  case None
  then have "\<not> omap_has m k" by (simp add: omap_has_iff map_of_eq_None_iff)
  then show ?thesis using None assms by (simp add: or_insert_def map_of_omap_insert)
next
  case (Some w)
  then have "omap_has m k" by (auto simp: omap_has_iff in_fst_image dest: map_of_SomeD)
  then show ?thesis using Some by (simp add: or_insert_def)
qed

abbreviation (input) link :: "string set \<Rightarrow> string \<Rightarrow> string \<Rightarrow> (string, string) omap \<Rightarrow> (string, string) omap" where
  "link S x a co \<equiv> if a \<in> S then or_insert a x (or_insert x a co) else co"

lemma fold_collide:
  assumes "x \<notin> set as" "omap_ok co"
  shows "omap_ok (fold (link S x) as co) \<and> map_of (fold (link S x) as co) k =
    (case map_of co k of Some v \<Rightarrow> Some v | None \<Rightarrow>
      (let as = filter (\<lambda>a. a \<in> S) as in
       if k = x then (if as = [] then None else Some (hd as)) else if k \<in> set as then Some x else None))"
  using assms
proof (induction as arbitrary: co)
  case (Cons a as)
  show ?case
  proof (cases "a \<in> S")
    case True
    have ok: "omap_ok (or_insert a x (or_insert x a co))" using Cons.prems by simp
    show ?thesis
      using Cons.IH [OF _ ok] Cons.prems True
      by (auto simp: map_of_or_insert Let_def split: option.split)
  next
    case False
    then show ?thesis using Cons.IH [OF _ Cons.prems(2)] Cons.prems by (simp add: Let_def split: option.split)
  qed
qed (auto split: option.split)

lemma collide_ok: "omap_ok co \<Longrightarrow> omap_ok (collide pr x co)"
  unfolding collide_def using fold_collide [of x "ancestors x" co] by (simp add: set_ancestors)

lemma map_of_collide:
  "omap_ok co \<Longrightarrow> map_of (collide pr x co) k =
   (case map_of co k of Some v \<Rightarrow> Some v | None \<Rightarrow> contributes pr x k)"
  unfolding collide_def contributes_def using fold_collide [of x "ancestors x" co]
  by (simp add: set_ancestors)

lemma map_of_collides:
  assumes "omap_ok co"
  shows "omap_ok (fold (collide pr) xs co) \<and> map_of (fold (collide pr) xs co) k =
   (case map_of co k of Some v \<Rightarrow> Some v
    | None \<Rightarrow> (case filter (\<lambda>x. contributes pr x k \<noteq> None) xs of [] \<Rightarrow> None | x # _ \<Rightarrow> contributes pr x k))"
  using assms
proof (induction xs arbitrary: co)
  case (Cons x xs)
  show ?case
    using Cons.IH [OF collide_ok [OF Cons.prems, of pr x]]
    by (auto simp: map_of_collide [OF Cons.prems] split: option.split)
qed (auto split: option.split)

text \<open>The present paths a path would be a directory of, or a file under.\<close>

definition related :: "string list \<Rightarrow> string \<Rightarrow> string set" where
  "related present k = {q \<in> set present. below q k \<or> below k q}"

lemma below_less: "below p q \<Longrightarrow> p < q"
  unfolding below_iff by (induction p arbitrary: q) auto

lemma sorted_ancestors: "sorted (ancestors p)"
proof (induction p)
  case (Cons c p)
  have "ancestors (c # p) = (if c = CHR ''/'' then [[]] else []) @ map ((#) c) (ancestors p)"
    by (simp add: ancestors_def)
  then show ?case using Cons by (simp add: sorted_map sorted_wrt_map)
qed (simp add: ancestors_def)

lemma contributes_related:
  "contributes pr x k = Some v \<Longrightarrow> x \<in> set pr \<Longrightarrow> v \<in> related pr k \<and> k \<in> set pr"
  using list.set_sel(1) [of "filter (\<lambda>a. a \<in> set pr) (ancestors x)"]
  by (auto simp: contributes_def related_def Let_def set_ancestors split: if_splits)

lemma contributes_self:
  assumes "below q k" "q \<in> set pr"
  shows "contributes pr k k = Some (Min {q \<in> set pr. below q k})"
proof -
  let ?as = "filter (\<lambda>a. a \<in> set pr) (ancestors k)"
  have ne: "?as \<noteq> []" using assms by (auto simp: filter_empty_conv set_ancestors)
  have "hd ?as = Min (set ?as)"
    using ne sorted_wrt_filter [OF sorted_ancestors [of k], of "\<lambda>a. a \<in> set pr"]
    by (cases ?as) (auto intro!: Min_eqI [symmetric])
  moreover have "set ?as = {q \<in> set pr. below q k}" by (auto simp: set_ancestors)
  ultimately show ?thesis using ne by (simp add: contributes_def Let_def)
qed

lemma contributes_child: "below k x \<Longrightarrow> k \<in> set pr \<Longrightarrow> contributes pr x k = Some x"
  by (auto simp: contributes_def Let_def set_ancestors)

lemma filter_first:
  assumes "oset_ok xs" "filter P xs = y # ys"
  shows "y = Min {x \<in> set xs. P x}"
proof -
  have s: "sorted (y # ys)"
    using sorted_wrt_filter [of "(\<le>)" xs P] assms by (simp add: oset_ok_iff)
  have "{x \<in> set xs. P x} = set (y # ys)" using assms(2) by (metis set_filter)
  then show ?thesis using s by (auto intro!: Min_eqI [symmetric])
qed

lemma Min_subset_lower:
  fixes A B :: "'a::linorder set"
  assumes "finite B" "A \<subseteq> B" "A \<noteq> {}" "\<And>b. b \<in> B - A \<Longrightarrow> \<exists>a \<in> A. a \<le> b"
  shows "Min A = Min B"
proof (rule antisym)
  show "Min B \<le> Min A" using assms(1-3) by (rule Min_antimono [rotated 2])
  have "Min A \<le> b" if "b \<in> B" for b
    using assms(4) [of b] that assms(1,2) by (cases "b \<in> A") (auto intro: Min_le order_trans finite_subset)
  then show "Min A \<le> Min B" using assms by (intro Min.boundedI) auto
qed

text \<open>The collisions of \<open>analyse\<close>: exactly the present paths with a related one, each with the first.\<close>

lemma collisions_first:
  assumes "oset_ok pr"
  shows "map_of (fold (collide pr) pr []) k =
    (if k \<in> set pr \<and> related pr k \<noteq> {} then Some (Min (related pr k)) else None)"
proof -
  let ?P = "\<lambda>x. contributes pr x k \<noteq> None"
  have m: "map_of (fold (collide pr) pr []) k =
      (case filter ?P pr of [] \<Rightarrow> None | x # _ \<Rightarrow> contributes pr x k)"
    using map_of_collides [of "[]" pr pr k] by simp
  show ?thesis
  proof (cases "k \<in> set pr \<and> related pr k \<noteq> {}")
    case False
    then have "filter ?P pr = []" using contributes_related by (fastforce simp: filter_empty_conv)
    with m False show ?thesis by simp
  next
    case True
    then obtain q where q: "q \<in> set pr" "below q k \<or> below k q" by (auto simp: related_def)
    have ne: "filter ?P pr \<noteq> []"
    proof (cases "below q k")
      case True
      then have "?P k" using contributes_self q(1) by simp
      with \<open>k \<in> set pr \<and> _\<close> show ?thesis by (auto simp: filter_empty_conv)
    next
      case False
      then have "?P q" using contributes_child q True by simp
      with q(1) show ?thesis by (auto simp: filter_empty_conv)
    qed
    then obtain x xs where x: "filter ?P pr = x # xs" by (cases "filter ?P pr") auto
    have xmin: "x = Min {x \<in> set pr. ?P x}" by (rule filter_first [OF assms x])
    have xin: "x \<in> set pr" "?P x" using x by (auto dest: filter_eq_ConsD)
    have least: "x \<le> y" if "y \<in> set pr" "?P y" for y
      unfolding xmin using that by (intro Min_le) auto
    have fin: "finite (related pr k)" by (simp add: related_def)
    have "contributes pr x k = Some (Min (related pr k))"
    proof (cases "\<exists>a \<in> set pr. below a k")
      case True
      then obtain a where a: "a \<in> set pr" "below a k" by blast
      have "?P k" using contributes_self [OF a(2,1)] by simp
      have "x = k"
      proof (rule ccontr)
        assume "x \<noteq> k"
        then have "below k x" using xin(2) by (auto simp: contributes_def Let_def set_ancestors split: if_splits)
        then show False using least [of k] \<open>?P k\<close> \<open>k \<in> set pr \<and> _\<close> below_less by fastforce
      qed
      have "Min {q \<in> set pr. below q k} = Min (related pr k)"
        using a below_less [OF a(2)] below_less
        by (intro Min_subset_lower [OF fin])
          (auto simp: related_def intro!: exI [of _ a] intro: less_imp_le less_trans)
      with contributes_self [OF a(2,1)] \<open>x = k\<close> show ?thesis by simp
    next
      case none: False
      then have rel: "related pr k = {q \<in> set pr. below k q}" by (auto simp: related_def)
      have "below k x \<and> contributes pr x k = Some x"
        using xin none by (auto simp: contributes_def Let_def set_ancestors filter_empty_conv split: if_splits)
      moreover have "x \<le> y" if "y \<in> related pr k" for y
        using that least [of y] contributes_child True by (auto simp: rel)
      ultimately show ?thesis
        using xin(1) fin by (auto simp: rel intro!: Min_eqI [symmetric])
    qed
    with m x True show ?thesis by simp
  qed
qed

section \<open>The choice loop\<close>

text \<open>The results after the choices of the paths \<open>new\<close> were applied.\<close>

definition settle :: "(string, choice) omap \<Rightarrow> string set \<Rightarrow> results \<Rightarrow> results" where
  "settle ch new rs = map (\<lambda>(p, r, s). (p, if p \<in> new then choose_side (the (map_of ch p)) s else r, s)) rs"

lemma settle_Cons [simp]:
  "settle ch new ((p, r, s) # rs) =
   (p, if p \<in> new then choose_side (the (map_of ch p)) s else r, s) # settle ch new rs"
  by (simp add: settle_def)

lemma settle_Nil [simp]: "settle ch new [] = []"
  by (simp add: settle_def)

lemma settle_keys [simp]: "map fst (settle ch new rs) = map fst rs" "fst ` set (settle ch new rs) = fst ` set rs"
  by (auto simp: settle_def image_image case_prod_beta comp_def)

lemma settle_settle: "settle ch B (settle ch A rs) = settle ch (A \<union> B) rs"
  by (auto simp: settle_def)

lemma settle_empty [simp]: "settle ch {} rs = rs"
  by (auto simp: settle_def intro: map_idI)

lemma settle_cong: "(\<And>p. p \<in> fst ` set rs \<Longrightarrow> p \<in> A \<longleftrightarrow> p \<in> B) \<Longrightarrow> settle ch A rs = settle ch B rs"
  by (force simp: settle_def)

lemma in_settle:
  "(p, r, s) \<in> set (settle ch new rs) \<Longrightarrow>
   (p \<in> new \<and> r = choose_side (the (map_of ch p)) s \<and> (\<exists>r0. (p, r0, s) \<in> set rs)) \<or> (p \<notin> new \<and> (p, r, s) \<in> set rs)"
  by (auto simp: settle_def split: if_splits)

definition pending :: "analysis \<Rightarrow> (string, choice) omap \<Rightarrow> string list \<Rightarrow> results \<Rightarrow> bool" where
  "pending an ch applied rs \<longleftrightarrow>
     (\<exists>(p, r, s) \<in> set rs. (is_unresolved r \<or> omap_has (fst an) p \<or> p \<in> set (snd an))
        \<and> p \<notin> set applied \<and> map_of ch p \<noteq> None)"

lemma apply_choices_settle:
  assumes "apply_choices ch co hits rs applied = (rs', applied', progress)" "distinct (map fst rs)"
  shows "rs' = settle ch (set applied' - set applied) rs \<and> set applied \<subseteq> set applied'
    \<and> set applied' - set applied \<subseteq> fst ` set rs \<inter> dom (map_of ch)
    \<and> (\<not> progress \<longrightarrow> \<not> pending (co, hits) ch applied rs)"
  using assms
proof (induction rs arbitrary: applied rs' applied' progress)
  case (Cons r rs)
  obtain p res s where r: "r = (p, res, s)" by (cases r)
  let ?con = "is_unresolved res \<or> omap_has co p \<or> p \<in> set hits"
  have dist: "distinct (map fst rs)" "p \<notin> fst ` set rs" using Cons.prems(2) by (auto simp: r)
  show ?case
  proof (cases "\<not> ?con \<or> p \<in> set applied \<or> map_of ch p = None")
    case True
    obtain rs2 ap2 pr2 where rec: "apply_choices ch co hits rs applied = (rs2, ap2, pr2)" by (metis prod_cases3)
    have eq: "rs' = (p, res, s) # rs2 \<and> applied' = ap2 \<and> progress = pr2"
      using Cons.prems(1) True rec by (cases "map_of ch p") (auto simp: r Let_def split: if_splits)
    have "p \<notin> set ap2 - set applied" using Cons.IH [OF rec dist(1)] dist(2) by auto
    then show ?thesis using Cons.IH [OF rec dist(1)] eq True by (auto simp: r pending_def)
  next
    case False
    then obtain c where c: "map_of ch p = Some c" by blast
    obtain rs2 ap2 pr2 where rec: "apply_choices ch co hits rs (insort_insert p applied) = (rs2, ap2, pr2)"
      by (metis prod_cases3)
    have eq: "rs' = (p, choose_side c s, s) # rs2 \<and> applied' = ap2 \<and> progress"
      using Cons.prems(1) False rec c by (auto simp: r Let_def)
    note ih = Cons.IH [OF rec dist(1), unfolded set_insort_insert]
    have "settle ch (set ap2 - insert p (set applied)) rs = settle ch (set ap2 - set applied) rs"
      using dist(2) by (intro settle_cong) auto
    then show ?thesis
      using ih eq False c by (auto simp: r)
  qed
qed (simp add: pending_def)

lemma resolve_loop_settle:
  assumes "resolve_loop al ch rs applied = Inr (rs', applied', an)" "distinct (map fst rs)"
  shows "rs' = settle ch (set applied' - set applied) rs \<and> set applied \<subseteq> set applied'
    \<and> set applied' - set applied \<subseteq> fst ` set rs \<inter> dom (map_of ch)
    \<and> analyse al rs' = Inr an \<and> \<not> pending an ch applied' rs'"
  using assms
proof (induction al ch rs applied arbitrary: rs' applied' an rule: resolve_loop.induct)
  case (1 al ch rs applied)
  obtain co hits where an: "analyse al rs = Inr (co, hits)"
    using "1.prems"(1) by (subst (asm) resolve_loop.simps) (auto split: sum.splits)
  obtain rs2 ap2 pr where ap: "apply_choices ch co hits rs applied = (rs2, ap2, pr)" by (metis prod_cases3)
  note s = apply_choices_settle [OF ap "1.prems"(2)]
  show ?case
  proof (cases pr)
    case False
    then have "rs' = rs2 \<and> applied' = ap2 \<and> an = (co, hits) \<and> rs2 = rs \<and> ap2 = applied"
      using "1.prems"(1) an ap apply_choices_keys [OF ap] by (subst (asm) resolve_loop.simps) auto
    then show ?thesis using s an False by auto
  next
    case True
    then have rec: "resolve_loop al ch rs2 ap2 = Inr (rs', applied', an)"
      using "1.prems"(1) an ap by (subst (asm) resolve_loop.simps) auto
    have dist: "distinct (map fst rs2)" using s "1.prems"(2) by simp
    note ih = "1.IH" [OF an refl ap [symmetric] refl True rec dist]
    have "set ap2 - set applied \<union> (set applied' - set ap2) = set applied' - set applied"
      using ih s by blast
    then show ?thesis using ih s settle_settle by (metis (no_types, lifting) Un_least order_trans settle_keys(2))
  qed
qed

section \<open>The whole merge\<close>

text \<open>What the last loop does with one path.\<close>

definition kept_at :: "analysis \<Rightarrow> string \<times> path_result \<times> sides \<Rightarrow> (string \<times> merged) option" where
  "kept_at an e = (case e of (p, r, s) \<Rightarrow>
     (case r of Resolved m \<Rightarrow> if map_of (fst an) p = None \<and> p \<notin> set (snd an) then Some (p, m) else None
      | _ \<Rightarrow> None))"

definition conflicted_at ::
  "(string, string) omap \<Rightarrow> analysis \<Rightarrow> string \<times> path_result \<times> sides \<Rightarrow> conflict option" where
  "conflicted_at partner an e = (case e of (p, r, s) \<Rightarrow>
     (case r of
        Deleted \<Rightarrow> None
      | Unresolved k \<Rightarrow>
          Some (conflict_at p s k (if k = KRenameRename then map_of partner p else map_of (fst an) p))
      | Resolved m \<Rightarrow>
          (case map_of (fst an) p of
             Some q \<Rightarrow> Some (conflict_at p s KPathPrefix (Some q))
           | None \<Rightarrow> if p \<in> set (snd an) then Some (conflict_at p s KAlias None) else None)))"

lemma kept_at_simp [simp]:
  "kept_at (co, hits) (p, r, s) =
   (case r of Resolved m \<Rightarrow> if map_of co p = None \<and> p \<notin> set hits then Some (p, m) else None | _ \<Rightarrow> None)"
  by (simp add: kept_at_def split: path_result.split)

lemma conflicted_at_simp [simp]:
  "conflicted_at partner (co, hits) (p, r, s) =
   (case r of
      Deleted \<Rightarrow> None
    | Unresolved k \<Rightarrow> Some (conflict_at p s k (if k = KRenameRename then map_of partner p else map_of co p))
    | Resolved m \<Rightarrow>
        (case map_of co p of
           Some q \<Rightarrow> Some (conflict_at p s KPathPrefix (Some q))
         | None \<Rightarrow> if p \<in> set hits then Some (conflict_at p s KAlias None) else None))"
  by (simp add: conflicted_at_def split: path_result.split option.split)

lemma sort_out_filters:
  "sort_out partner an rs = (List.map_filter (kept_at an) rs, List.map_filter (conflicted_at partner an) rs)"
proof (induction rs)
  case (Cons e rs)
  obtain p r s where e: "e = (p, r, s)" by (cases e)
  show ?case
    unfolding e sort_out.simps Cons.IH
    by (cases an; cases r; cases "map_of (fst an) p"; cases "p \<in> set (snd an)")
      simp_all
qed simp

lemma kept_at_Some:
  "kept_at an (p, r, s) = Some (q, m) \<longleftrightarrow>
   q = p \<and> r = Resolved m \<and> map_of (fst an) p = None \<and> p \<notin> set (snd an)"
  by (auto simp: kept_at_def split: path_result.splits if_splits)

lemma conflicted_at_Some:
  assumes "conflicted_at partner an (p, r, s) = Some c"
  shows "c_path c = p \<and> (c_base c, c_ours c, c_theirs c) = s \<and> r \<noteq> Deleted
    \<and> (is_unresolved r \<or> omap_has (fst an) p \<or> p \<in> set (snd an))
    \<and> (c_kind c = KPathPrefix \<longrightarrow> is_unresolved r \<or> map_of (fst an) p \<noteq> None \<and> c_with c = map_of (fst an) p)"
  using assms
  by (cases s) (auto simp: conflicted_at_def conflict_at_def omap_has_def split: path_result.splits option.splits if_splits)

lemma neither_kept_nor_conflicted:
  "kept_at an (p, r, s) = None \<Longrightarrow> conflicted_at partner an (p, r, s) = None \<Longrightarrow> r = Deleted"
  by (auto simp: kept_at_def conflicted_at_def split: path_result.splits option.splits if_splits)

lemma map_filter_keys:
  assumes "\<And>p r q m. f (p, r) = Some (q, m) \<Longrightarrow> q = p"
  shows "fst ` set (List.map_filter f rs) \<subseteq> fst ` set rs"
proof
  fix q assume "q \<in> fst ` set (List.map_filter f rs)"
  then obtain m e where e: "e \<in> set rs" "f e = Some (q, m)" by (auto simp: set_map_filter)
  obtain p r where "e = (p, r)" by (cases e)
  with e assms show "q \<in> fst ` set rs" by force
qed

lemma map_filter_keys_ok:
  assumes "omap_ok rs" "\<And>p r q m. f (p, r) = Some (q, m) \<Longrightarrow> q = p"
  shows "omap_ok (List.map_filter f rs)"
  using assms(1)
proof (induction rs)
  case (Cons e rs)
  obtain p r where e: "e = (p, r)" by (cases e)
  have keys: "fst ` set (List.map_filter f rs) \<subseteq> fst ` set rs"
    by (rule map_filter_keys) (rule assms(2))
  show ?case
  proof (cases "f e")
    case None
    then show ?thesis using Cons by (simp add: e)
  next
    case (Some x)
    obtain m where m: "x = (p, m)" using assms(2) [of p r] Some by (cases x) (auto simp: e)
    have "\<forall>k \<in> fst ` set rs. p < k" using Cons.prems by (simp add: e)
    then have "\<forall>k \<in> fst ` set (List.map_filter f rs). p < k" using keys by blast
    then show ?thesis using Cons Some m by (simp add: e)
  qed
qed simp

lemma merge_paths_results:
  "merge_paths load b o' t ps u = Inr (v, rs) \<Longrightarrow>
   map fst rs = ps \<and> (usage_ok u \<longrightarrow> usage_ok v)
   \<and> (\<forall>(p, r, s) \<in> set rs. s = (map_of b p, map_of o' p, map_of t p)
        \<and> (\<exists>u v. merge_path load s u = Inr (v, r)))"
proof (induction ps arbitrary: u v rs)
  case (Cons p ps)
  let ?s = "(map_of b p, map_of o' p, map_of t p)"
  obtain u' r rs' where h: "merge_path load ?s u = Inr (u', r)"
      "merge_paths load b o' t ps u' = Inr (v, rs')" "rs = (p, r, ?s) # rs'"
    using Cons.prems by (auto simp: Let_def result_simps)
  have "\<exists>u v. merge_path load ?s u = Inr (v, r)" using h(1) by blast
  then show ?case using Cons.IH [OF h(2)] merge_path_ok [OF _ h(1)] h(3) by auto
qed simp

lemma mark_renames_in:
  "(p, r, s) \<in> set (mark_renames partner rs) \<Longrightarrow>
   (r = Unresolved KRenameRename \<or> (p, r, s) \<in> set rs) \<and> (\<exists>r0. (p, r0, s) \<in> set rs)"
  by (auto simp: mark_renames_def split: if_splits)

lemma mark_renames_keys [simp]: "map fst (mark_renames partner rs) = map fst rs"
  by (auto simp: mark_renames_def)

lemma analyse_Inr:
  assumes "analyse al rs = Inr (co, hits)"
  shows "co = fold (collide (present_paths rs)) (present_paths rs) []"
    and "hits = [] \<or> (\<exists>hs. al (filter (\<lambda>p. \<not> omap_has co p) (present_paths rs)) = Inr hs \<and> hits = oset_of hs)"
  using assms by (auto simp: analyse_def Let_def result_simps split: if_splits)

lemma present_paths_ok: "omap_ok rs \<Longrightarrow> oset_ok (present_paths rs)"
  unfolding present_paths_def by (metis omap_filter_ok omap_ok_def oset_ok_def)

lemma present_pathI: "(p, r) \<in> set rs \<Longrightarrow> is_present r \<Longrightarrow> p \<in> set (present_paths rs)"
  by (force simp: present_paths_def)

lemma usage_default_ok: "usage_ok usage_default"
  by (simp add: usage_ok_def usage_default_def)

lemma merge_resolved_Inr:
  assumes "merge_resolved b o' t ch al load = Inr mo"
  obtains rs0 partner ap an rs where
    "partner = rename_partner (renames_to b o') (renames_to b t)"
    "map fst rs0 = oset_of (map fst b @ map fst o' @ map fst t)"
    "\<And>p r s. (p, r, s) \<in> set rs0 \<Longrightarrow> s = (map_of b p, map_of o' p, map_of t p)
      \<and> (\<exists>u v. merge_path load s u = Inr (v, r))"
    "rs = settle ch (set ap) (mark_renames partner rs0)"
    "set ap \<subseteq> fst ` set rs0 \<inter> dom (map_of ch)"
    "analyse al rs = Inr an" "\<not> pending an ch ap rs" "omap_ok rs"
    "mo_merged mo = List.map_filter (kept_at an) rs"
    "mo_conflicts mo = List.map_filter (conflicted_at partner an) rs"
    "mo_unused mo = filter (\<lambda>p. p \<notin> set ap) (map fst ch)"
    "usage_ok (mo_usage mo)"
proof -
  let ?every = "map fst b @ map fst o' @ map fst t"
  let ?partner = "rename_partner (renames_to b o') (renames_to b t)"
  obtain w u v rs0 rs ap an where h: "reserve w usage_default = Inr u"
      "merge_paths load b o' t (oset_of ?every) u = Inr (v, rs0)"
      "resolve_loop al ch (mark_renames ?partner rs0) [] = Inr (rs, ap, an)"
      "mo = \<lparr>mo_merged = fst (sort_out ?partner an rs), mo_conflicts = snd (sort_out ?partner an rs),
             mo_unused = filter (\<lambda>path. path \<notin> set ap) (map fst ch), mo_usage = v\<rparr>"
    using assms unfolding merge_resolved_def by (auto simp: Let_def result_simps case_prod_beta)
  note mp = merge_paths_results [OF h(2)]
  have sd: "sorted (map fst rs0)" "distinct (map fst rs0)"
    using mp oset_of_ok [of ?every] by (simp_all add: oset_ok_iff)
  have sd': "distinct (map fst (mark_renames ?partner rs0))" using sd by simp
  note st = resolve_loop_settle [OF h(3) sd']
  have rs: "rs = settle ch (set ap) (mark_renames ?partner rs0)" using st by simp
  have ok: "omap_ok rs"
    using mp oset_of_ok [of ?every] unfolding rs omap_ok_def oset_ok_def by simp
  have keys: "fst ` set (mark_renames ?partner rs0) = fst ` set rs0"
    by (metis list.set_map mark_renames_keys)
  show thesis
  proof (rule that)
    show "usage_ok (mo_usage mo)" using mp reserve_ok [OF usage_default_ok h(1)] h(4) by simp
    show "set ap \<subseteq> fst ` set rs0 \<inter> dom (map_of ch)" using st unfolding keys by simp
    show "(p, r, s) \<in> set rs0 \<Longrightarrow> s = (map_of b p, map_of o' p, map_of t p)
      \<and> (\<exists>u v. merge_path load s u = Inr (v, r))" for p r s using mp by fast
  qed (use mp st h(4) rs ok in \<open>simp_all add: sort_out_filters\<close>)
qed

lemma kept_settled:
  assumes "(p, r, s) \<in> set (settle ch A (mark_renames partner rs0))" "A \<subseteq> dom (map_of ch)"
  shows "(\<exists>c. p \<in> A \<and> map_of ch p = Some c \<and> r = choose_side c s)
    \<or> p \<notin> A \<and> (r = Unresolved KRenameRename \<or> (p, r, s) \<in> set rs0)"
  using in_settle [OF assms(1)] assms(2) mark_renames_in by fastforce

lemma choose_side_resolved: "\<not> is_unresolved (choose_side c s)"
  by (cases s; cases c) (auto simp: take_entry_def split: option.split)

lemma kept_keys: "fst ` set (List.map_filter (kept_at an) rs) \<subseteq> fst ` set rs"
  by (rule map_filter_keys) (cases an, auto simp: kept_at_def split: path_result.splits if_splits)

lemma kept_ok: "omap_ok rs \<Longrightarrow> omap_ok (List.map_filter (kept_at an) rs)"
  by (rule map_filter_keys_ok, assumption) (cases an, auto simp: kept_at_def split: path_result.splits if_splits)

lemma in_kept:
  assumes "(p, m) \<in> set (List.map_filter (kept_at an) rs)"
  obtains s where "(p, Resolved m, s) \<in> set rs" "map_of (fst an) p = None" "p \<notin> set (snd an)"
  using assms by (auto simp: set_map_filter Bex_def kept_at_Some)

lemma in_conflicts:
  assumes "c \<in> set (List.map_filter (conflicted_at partner an) rs)"
  shows "\<exists>r s. (c_path c, r, s) \<in> set rs \<and> (c_base c, c_ours c, c_theirs c) = s \<and> r \<noteq> Deleted
    \<and> (is_unresolved r \<or> omap_has (fst an) (c_path c) \<or> c_path c \<in> set (snd an))
    \<and> conflicted_at partner an (c_path c, r, s) = Some c"
proof -
  obtain p r s where e: "(p, r, s) \<in> set rs" "conflicted_at partner an (p, r, s) = Some c"
    using assms by (auto simp: set_map_filter)
  with conflicted_at_Some [OF e(2)] show ?thesis by blast
qed

section \<open>Properties\<close>

lemma unrelated:
  assumes "analyse al rs = Inr an" "omap_ok rs" "p \<in> set (present_paths rs)" "map_of (fst an) p = None"
    "q \<in> set (present_paths rs)"
  shows "\<not> below p q \<and> \<not> below q p"
proof -
  obtain co hits where an: "an = (co, hits)" by (cases an)
  have co: "co = fold (collide (present_paths rs)) (present_paths rs) []"
    by (rule analyse_Inr(1)) (rule assms(1) [unfolded an])
  have "related (present_paths rs) p = {}"
    using collisions_first [OF present_paths_ok [OF assms(2)], of p] assms(3,4)
    by (auto simp: an co split: if_splits)
  with assms(5) show ?thesis by (auto simp: related_def)
qed

text \<open>the paths of a merge can live in one tree. No merged path is a directory of another, none is also
a conflict, and none is a directory of, or a file under, a conflicting path that a side still has.\<close>

theorem merge_prefix_free:
  assumes "merge_resolved base ours theirs choices aliases load = Inr mo"
  shows "omap_ok (mo_merged mo)
    \<and> (\<forall>p \<in> fst ` set (mo_merged mo). \<forall>q \<in> fst ` set (mo_merged mo). \<not> below p q)
    \<and> (\<forall>c \<in> set (mo_conflicts mo). c_path c \<notin> fst ` set (mo_merged mo)
        \<and> (c_ours c \<noteq> None \<or> c_theirs c \<noteq> None \<longrightarrow>
            (\<forall>p \<in> fst ` set (mo_merged mo). \<not> below p (c_path c) \<and> \<not> below (c_path c) p)))"
  using assms
proof (rule merge_resolved_Inr)
  fix rs0 partner ap an rs
  assume an: "analyse aliases rs = Inr an" and ok: "omap_ok rs"
    and m: "mo_merged mo = List.map_filter (kept_at an) rs"
    and c: "mo_conflicts mo = List.map_filter (conflicted_at partner an) rs"
  have kept: "p \<in> set (present_paths rs) \<and> map_of (fst an) p = None \<and> p \<notin> set (snd an)"
    if "p \<in> fst ` set (mo_merged mo)" for p
    using that unfolding m in_fst_image by (auto elim!: in_kept intro: present_pathI)
  have conf: "c_path c \<in> set (present_paths rs)"
    if h: "c \<in> set (mo_conflicts mo)" "c_ours c \<noteq> None \<or> c_theirs c \<noteq> None" for c
  proof -
    obtain r s where e: "(c_path c, r, s) \<in> set rs" "(c_base c, c_ours c, c_theirs c) = s" "r \<noteq> Deleted"
      using in_conflicts [OF h(1) [unfolded c]] by blast
    have "is_present (r, s)" using e(2,3) h(2) by (cases r) auto
    with e(1) show ?thesis by (rule present_pathI)
  qed
  have disj: "c_path c \<notin> fst ` set (mo_merged mo)" if h: "c \<in> set (mo_conflicts mo)" for c
  proof
    assume "c_path c \<in> fst ` set (mo_merged mo)"
    then obtain mm s where k: "(c_path c, Resolved mm, s) \<in> set rs" "map_of (fst an) (c_path c) = None"
        "c_path c \<notin> set (snd an)"
      unfolding m in_fst_image by (auto elim!: in_kept)
    obtain r s' where e: "(c_path c, r, s') \<in> set rs"
        "is_unresolved r \<or> omap_has (fst an) (c_path c) \<or> c_path c \<in> set (snd an)"
      using in_conflicts [OF h [unfolded c]] by blast
    have "r = Resolved mm" using omap_inj [OF ok e(1) k(1)] by simp
    with e(2) k(2,3) show False by (simp add: omap_has_def)
  qed
  show ?thesis
  proof (intro conjI ballI impI)
    show "omap_ok (mo_merged mo)" unfolding m by (rule kept_ok [OF ok])
  next
    fix p q assume "p \<in> fst ` set (mo_merged mo)" "q \<in> fst ` set (mo_merged mo)"
    then show "\<not> below p q" using kept [of p] kept [of q] unrelated [OF an ok, of p q] by simp
  next
    fix c assume "c \<in> set (mo_conflicts mo)"
    then show "c_path c \<notin> fst ` set (mo_merged mo)" by (rule disj)
  next
    fix c p assume "c \<in> set (mo_conflicts mo)" "c_ours c \<noteq> None \<or> c_theirs c \<noteq> None"
      and p: "p \<in> fst ` set (mo_merged mo)"
    then have "c_path c \<in> set (present_paths rs)" by (intro conf)
    then show "\<not> below p (c_path c)" "\<not> below (c_path c) p"
      using kept [OF p] unrelated [OF an ok, of p "c_path c"] by simp_all
  qed
qed

lemma merge_path_Deleted: "merge_path load (b, o', t) u = Inr (v, Deleted) \<Longrightarrow> three_way b o' t = Some None"
  unfolding merge_path_cases
  by (auto split: option.splits file_entry.splits simp: merge_content_Inr merge_bytes_Inr take_entry_def
      split: if_splits)

text \<open>A run with a structural conflict, a chosen side, and a clean path.\<close>

lemma merge_example:
  "merge_resolved [(''a'', Symlink ''x''), (''d'', Symlink ''x'')]
     [(''a'', Symlink ''y''), (''c'', Symlink ''z''), (''d'', Symlink ''y'')]
     [(''a'', Symlink ''x''), (''a/b'', Symlink ''w''), (''d'', Symlink ''z'')] [(''d'', Theirs)]
     (\<lambda>_. Inr [] :: unit + string list) (\<lambda>_. Inl ())
   = Inr \<lparr>mo_merged = [(''c'', Retained (Symlink ''z'')), (''d'', Retained (Symlink ''z''))],
        mo_conflicts =
          [\<lparr>c_path = ''a'', c_kind = KPathPrefix, c_base = Some (Symlink ''x''), c_ours = Some (Symlink ''y''),
             c_theirs = Some (Symlink ''x''), c_with = Some ''a/b''\<rparr>,
           \<lparr>c_path = ''a/b'', c_kind = KPathPrefix, c_base = None, c_ours = None,
             c_theirs = Some (Symlink ''w''), c_with = Some ''a''\<rparr>],
        mo_unused = [], mo_usage = \<lparr>work_units = 2816, loaded_bytes = 0\<rparr>\<rparr>"
proof -
  let ?b = "[(''a'', Symlink ''x''), (''d'', Symlink ''x'')]"
  let ?o = "[(''a'', Symlink ''y''), (''c'', Symlink ''z''), (''d'', Symlink ''y'')]"
  let ?t = "[(''a'', Symlink ''x''), (''a/b'', Symlink ''w''), (''d'', Symlink ''z'')]"
  let ?every = "map fst ?b @ map fst ?o @ map fst ?t"
  let ?rs = "[(''a'', Resolved (Retained (Symlink ''y'')), (Some (Symlink ''x''), Some (Symlink ''y''), Some (Symlink ''x''))),
    (''a/b'', Resolved (Retained (Symlink ''w'')), (None, None, Some (Symlink ''w''))),
    (''c'', Resolved (Retained (Symlink ''z'')), (None, Some (Symlink ''z''), None)),
    (''d'', Unresolved KEntryType, (Some (Symlink ''x''), Some (Symlink ''y''), Some (Symlink ''z'')))]"
  let ?rs' = "[(''a'', Resolved (Retained (Symlink ''y'')), (Some (Symlink ''x''), Some (Symlink ''y''), Some (Symlink ''x''))),
    (''a/b'', Resolved (Retained (Symlink ''w'')), (None, None, Some (Symlink ''w''))),
    (''c'', Resolved (Retained (Symlink ''z'')), (None, Some (Symlink ''z''), None)),
    (''d'', Resolved (Retained (Symlink ''z'')), (Some (Symlink ''x''), Some (Symlink ''y''), Some (Symlink ''z'')))]"
  have os: "oset_of ?every = [''a'', ''a/b'', ''c'', ''d'']" by code_simp
  have "merge_paths (\<lambda>_. Inl () :: unit + bytes) ?b ?o ?t [''a'', ''a/b'', ''c'', ''d''] u = Inr (u, ?rs)" for u
    by (simp add: merge_path_def take_entry_def)
  moreover have "rename_partner (renames_to ?b ?o) (renames_to ?b ?t) = []" by code_simp
  moreover have "mark_renames [] ?rs = ?rs" by code_simp
  moreover have "resolve_loop (\<lambda>_. Inr [] :: unit + string list) [(''d'', Theirs)] ?rs []
      = Inr (?rs', [''d''], [(''a'', ''a/b''), (''a/b'', ''a'')], [])" by code_simp
  moreover have "sort_out [] ([(''a'', ''a/b''), (''a/b'', ''a'')], []) ?rs' =
      ([(''c'', Retained (Symlink ''z'')), (''d'', Retained (Symlink ''z''))],
       [conflict_at ''a'' (Some (Symlink ''x''), Some (Symlink ''y''), Some (Symlink ''x'')) KPathPrefix (Some ''a/b''),
        conflict_at ''a/b'' (None, None, Some (Symlink ''w'')) KPathPrefix (Some ''a'')])" by code_simp
  moreover have "admit_paths ?every 0 0 = Inr 2816" by (simp add: check_def)
  moreover have "reserve 2816 usage_default = Inr \<lparr>work_units = 2816, loaded_bytes = 0\<rparr>"
    by (simp add: reserve_def check_def usage_default_def sat_add64_def u64_max_def)
  moreover have "check Entries (length ?b + length ?o + length ?t) = Inr ()" by (simp add: check_def)
  ultimately show ?thesis
    unfolding merge_resolved_def Let_def os by (simp add: conflict_at_def)
qed

theorem merge_prefix_free_witness:
  "\<exists>mo. merge_resolved [(''a'', Symlink ''x''), (''d'', Symlink ''x'')]
     [(''a'', Symlink ''y''), (''c'', Symlink ''z''), (''d'', Symlink ''y'')]
     [(''a'', Symlink ''x''), (''a/b'', Symlink ''w''), (''d'', Symlink ''z'')] [(''d'', Theirs)]
     (\<lambda>_. Inr [] :: unit + string list) (\<lambda>_. Inl ()) = Inr mo
   \<and> length (mo_conflicts mo) = 2
   \<and> (\<forall>p \<in> fst ` set (mo_merged mo). \<forall>q \<in> fst ` set (mo_merged mo). \<not> below p q)"
  using merge_example merge_prefix_free [OF merge_example, THEN conjunct2, THEN conjunct1] by fastforce

text \<open>merging one path does not depend on which side is called ours: the same entry, content, deletion or
conflict, and the same work, come out with the sides swapped.\<close>

theorem merge_path_symmetric:
  "merge_path load (b, o', t) u = Inr (v, r) \<longleftrightarrow> merge_path load (b, t, o') u = Inr (v, r)"
proof -
  have "merge_path load (b, t, o') u = Inr (v, r)" if h: "merge_path load (b, o', t) u = Inr (v, r)" for o' t
  proof (cases "three_way b o' t")
    case (Some e)
    then show ?thesis using h by (simp add: merge_path_cases three_way_swap [of b t])
  next
    case None
    then have swapped: "three_way b t o' = None" by (simp add: three_way_swap)
    show ?thesis
    proof (cases "\<exists>bc bx oc ox tc tx. b = Some (Regular bc bx) \<and> o' = Some (Regular oc ox) \<and> t = Some (Regular tc tx)")
      case True
      then obtain bc bx oc ox tc tx where
        e: "b = Some (Regular bc bx)" "o' = Some (Regular oc ox)" "t = Some (Regular tc tx)" by blast
      show ?thesis
      proof (cases "three_way bc oc tc")
        case (Some c)
        then show ?thesis using h None swapped
          by (simp add: merge_path_cases e three_way_swap [of bc tc] three_way_swap [of bx tx])
      next
        case none: None
        have "merge_content load bc oc tc (the (three_way bx ox tx)) u = Inr (v, r)"
          using h None none by (simp add: merge_path_cases e)
        from merge_content_swap [OF this] show ?thesis using swapped none
          by (simp add: merge_path_cases e three_way_swap [of bc tc] three_way_swap [of bx tx])
      qed
    next
      case False
      then show ?thesis using h None swapped unfolding merge_path_cases
        by (auto split: option.splits file_entry.splits)
    qed
  qed
  then show ?thesis by blast
qed

definition path_sides :: "manifest \<Rightarrow> manifest \<Rightarrow> manifest \<Rightarrow> string \<Rightarrow> sides" where
  "path_sides base ours theirs p = (map_of base p, map_of ours p, map_of theirs p)"

text \<open>What the owner's choice says: a side as it is, or the given content, whose mode is the given one, else that of our
file, else that of theirs, else not executable.\<close>

definition choice_says :: "choice \<Rightarrow> sides \<Rightarrow> merged option \<Rightarrow> bool" where
  "choice_says c s r \<longleftrightarrow>
     (case s of (b, o', t) \<Rightarrow>
      case c of
        Ours \<Rightarrow> r = map_option Retained o'
      | Theirs \<Rightarrow> r = map_option Retained t
      | Content bytes mode \<Rightarrow>
          r = Some (MContent bytes (case (mode, entry_mode o', entry_mode t) of
                (Some x, _, _) \<Rightarrow> x | (None, Some x, _) \<Rightarrow> x | (None, None, Some x) \<Rightarrow> x | _ \<Rightarrow> False)))"

lemma choice_says_iff: "choice_says c s r \<longleftrightarrow> choose_side c s = (case r of None \<Rightarrow> Deleted | Some m \<Rightarrow> Resolved m)"
proof -
  obtain b o' t where s: "s = (b, o', t)" by (cases s)
  show ?thesis unfolding s choice_says_def
    by (cases c; cases o'; cases t; cases r) (auto simp: take_entry_def or_else_def split: option.splits)
qed

text \<open>The owner's choice for a path was applied and gave \<open>r\<close>, where \<open>None\<close> deletes the path.\<close>

definition chosen :: "(string, choice) omap \<Rightarrow> merge_outcome \<Rightarrow> string \<Rightarrow> sides \<Rightarrow> merged option \<Rightarrow> bool" where
  "chosen choices mo p s r \<longleftrightarrow>
     (\<exists>c. map_of choices p = Some c \<and> p \<notin> set (mo_unused mo) \<and> choice_says c s r)"

text \<open>What the three sides of a path merge to: the whole entry by the three-way rule; else, for three regular files, the content
and the mode apart by that rule; else, for texts that both sides changed, the lines merged by \<open>diff3\<close> from the loaded texts.\<close>

definition merged_from :: "(object_id \<Rightarrow> 'e + bytes) \<Rightarrow> sides \<Rightarrow> merged \<Rightarrow> bool" where
  "merged_from load s m \<longleftrightarrow>
     (case s of (b, o', t) \<Rightarrow>
      case m of
        Retained e \<Rightarrow>
          three_way b o' t = Some (Some e)
          \<or> (\<exists>bc bx oc ox tc tx c x. b = Some (Regular bc bx) \<and> o' = Some (Regular oc ox) \<and> t = Some (Regular tc tx)
               \<and> three_way b o' t = None \<and> three_way bc oc tc = Some c \<and> three_way bx ox tx = Some x \<and> e = Regular c x)
      | MContent bytes x \<Rightarrow>
          (\<exists>bc bx oc ox tc tx bb ob tb ls.
             b = Some (Regular bc bx) \<and> o' = Some (Regular oc ox) \<and> t = Some (Regular tc tx)
             \<and> three_way b o' t = None \<and> three_way bc oc tc = None \<and> three_way bx ox tx = Some x
             \<and> load bc = Inr bb \<and> load oc = Inr ob \<and> load tc = Inr tb \<and> CHR 0x00 \<notin> set bb \<union> set ob \<union> set tb
             \<and> diff3 (lines bb) (lines ob) (lines tb) = Some ls \<and> bytes = concat ls))"

text \<open>what a resolved path holds. Whole entries are merged by the three-way rule; when both sides changed a
regular file, its mode and its content are merged apart, each by the three-way rule, and only content that
both sides changed differently is merged line by line, from the loaded texts.\<close>

lemma merge_path_three_way:
  "merge_path load (b, o', t) u = Inr (v, r) \<Longrightarrow>
   (case r of
      Deleted \<Rightarrow> three_way b o' t = Some None
    | Unresolved k \<Rightarrow> three_way b o' t = None
    | Resolved m \<Rightarrow> merged_from load (b, o', t) m)"
proof -
  assume h: "merge_path load (b, o', t) u = Inr (v, r)"
  have bit: "\<exists>x. three_way bx ox tx = Some x" for bx ox tx :: bool
    by (cases bx; cases ox; cases tx) (auto simp: three_way_def)
  show ?thesis
  proof (cases "three_way b o' t")
    case (Some e)
    then have "r = take_entry e" using h by (simp add: merge_path_cases)
    then show ?thesis using Some by (cases e) (simp_all add: merged_from_def)
  next
    case None
    show ?thesis
    proof (cases "\<exists>bc bx oc ox tc tx. b = Some (Regular bc bx) \<and> o' = Some (Regular oc ox) \<and> t = Some (Regular tc tx)")
      case False
      then have "\<exists>k. r = Unresolved k" using h None unfolding merge_path_cases
        by (auto split: option.splits file_entry.splits)
      with None show ?thesis by auto
    next
      case True
      then obtain bc bx oc ox tc tx where
        e: "b = Some (Regular bc bx)" "o' = Some (Regular oc ox)" "t = Some (Regular tc tx)" by blast
      obtain x where x: "three_way bx ox tx = Some x" using bit by blast
      show ?thesis
      proof (cases "three_way bc oc tc")
        case (Some c)
        then have "r = Resolved (Retained (Regular c x))" using h None by (simp add: merge_path_cases e x)
        with Some x None show ?thesis by (simp add: e merged_from_def)
      next
        case none: None
        then have "merge_content load bc oc tc x u = Inr (v, r)" using h None by (simp add: merge_path_cases e x)
        then obtain bb ob tb u3 where l: "load bc = Inr bb" "load oc = Inr ob" "load tc = Inr tb"
            "merge_bytes bb ob tb x u3 = Inr (v, r)"
          by (auto simp: merge_content_Inr bounded_load_Inr)
        have "(\<exists>k. r = Unresolved k) \<or> CHR 0x00 \<notin> set bb \<union> set ob \<union> set tb \<and> (\<exists>ls. diff3 (lines bb) (lines ob) (lines tb) = Some ls
            \<and> r = Resolved (MContent (concat ls) x))"
          using l(4) by (auto simp: merge_bytes_Inr merge_lines_Inr simp del: limit.simps
              split: if_splits option.splits)
        then show ?thesis using None none x l(1-3) by (auto simp: e merged_from_def)
      qed
    qed
  qed
qed

theorem merge_path_three_way_witness:
  "merge_path (\<lambda>_. Inl ()) (Some (Regular ''b'' False), Some (Regular ''b'' True), Some (Regular ''t'' False)) usage_default
     = Inr (usage_default, Resolved (Retained (Regular ''t'' True)))
   \<and> (\<exists>c x. three_way ''b'' ''b'' ''t'' = Some c \<and> three_way False True False = Some x \<and> Regular ''t'' True = Regular c x)"
proof -
  have m: "merge_path (\<lambda>_. Inl ()) (Some (Regular ''b'' False), Some (Regular ''b'' True), Some (Regular ''t'' False)) usage_default
     = Inr (usage_default, Resolved (Retained (Regular ''t'' True)))"
    by (simp add: merge_path_def)
  have "three_way (Some (Regular ''b'' False)) (Some (Regular ''b'' True)) (Some (Regular ''t'' False)) = None"
    by (simp add: three_way_def)
  then show ?thesis using m merge_path_three_way [OF m] by (auto simp: merged_from_def)
qed

text \<open>C39: nothing is merged or dropped without a reason. A merged path holds what the owner's applied choice says or what its
three sides merge to: an entry of one side, where the other side left it as it was or agrees, content and mode taken apart in
this way, or the line merge of its three texts. A path of the three manifests that is neither merged nor in conflict was deleted
by an applied choice or by the three-way rule; and a choice for a path still in conflict is never left unused.\<close>

theorem merge_provenance:
  assumes "merge_resolved base ours theirs choices aliases load = Inr mo"
  shows "(\<forall>(p, m) \<in> set (mo_merged mo).
            chosen choices mo p (path_sides base ours theirs p) (Some m) \<or> merged_from load (path_sides base ours theirs p) m)
    \<and> (\<forall>p \<in> fst ` set base \<union> fst ` set ours \<union> fst ` set theirs.
          p \<in> fst ` set (mo_merged mo) \<or> p \<in> c_path ` set (mo_conflicts mo) 
          \<or> chosen choices mo p (path_sides base ours theirs p) None
          \<or> three_way (map_of base p) (map_of ours p) (map_of theirs p) = Some None)
    \<and> (\<forall>c \<in> set (mo_conflicts mo). c_path c \<notin> set (mo_unused mo))"
  using assms(1)
proof (rule merge_resolved_Inr)
  fix rs0 partner ap an rs
  assume keys: "map fst rs0 = oset_of (map fst base @ map fst ours @ map fst theirs)"
    and rs0: "\<And>p r s. (p, r, s) \<in> set rs0 \<Longrightarrow> s = (map_of base p, map_of ours p, map_of theirs p)
      \<and> (\<exists>u v. merge_path load s u = Inr (v, r))"
    and rs: "rs = settle choices (set ap) (mark_renames partner rs0)"
    and ap: "set ap \<subseteq> fst ` set rs0 \<inter> dom (map_of choices)"
    and an: "\<not> pending an choices ap rs"
    and m: "mo_merged mo = List.map_filter (kept_at an) rs"
    and c: "mo_conflicts mo = List.map_filter (conflicted_at partner an) rs"
    and un: "mo_unused mo = filter (\<lambda>p. p \<notin> set ap) (map fst choices)"
  let ?sides = "path_sides base ours theirs"
  have sides: "s = ?sides p" if "(p, r, s) \<in> set rs" for p r s
    using that in_settle mark_renames_in rs0 unfolding rs path_sides_def by blast
  have entry: "(\<exists>c. map_of choices p = Some c \<and> p \<notin> set (mo_unused mo) \<and> choose_side c (?sides p) = r) \<or> r = Unresolved KRenameRename
      \<or> (\<exists>u v. merge_path load (?sides p) u = Inr (v, r))"
    if e: "(p, r, s) \<in> set rs" for p r s
    using kept_settled [OF e [unfolded rs]] ap rs0 [of p r s] sides [OF e] un
    unfolding path_sides_def by auto
  show ?thesis
  proof (intro conjI ballI)
    fix x assume "x \<in> set (mo_merged mo)"
    moreover obtain p mm where x: "x = (p, mm)" by (cases x)
    ultimately obtain s where "(p, Resolved mm, s) \<in> set rs" unfolding m by (auto elim: in_kept)
    from entry [OF this] have "chosen choices mo p (?sides p) (Some mm) \<or> merged_from load (?sides p) mm"
      using merge_path_three_way [of load _ _ _ _ _ "Resolved mm"] by (auto simp: chosen_def choice_says_iff path_sides_def)
    then show "case x of (p, m) \<Rightarrow> chosen choices mo p (?sides p) (Some m) \<or> merged_from load (?sides p) m" by (simp add: x)
  next
    fix p assume p: "p \<in> fst ` set base \<union> fst ` set ours \<union> fst ` set theirs"
    have "set (map fst rs) = fst ` set base \<union> fst ` set ours \<union> fst ` set theirs"
      unfolding rs settle_keys mark_renames_keys keys by auto
    then have "p \<in> fst ` set rs" using p by simp
    then obtain r s where e: "(p, r, s) \<in> set rs" unfolding in_fst_image by auto
    show "p \<in> fst ` set (mo_merged mo) \<or> p \<in> c_path ` set (mo_conflicts mo) 
          \<or> chosen choices mo p (path_sides base ours theirs p) None
          \<or> three_way (map_of base p) (map_of ours p) (map_of theirs p) = Some None"
    proof (cases "kept_at an (p, r, s)")
      case (Some x)
      obtain mm where "x = (p, mm)" using Some by (cases x) (simp add: kept_at_Some)
      moreover have "x \<in> set (mo_merged mo)" using e Some unfolding m set_map_filter by blast
      ultimately have "p \<in> fst ` set (mo_merged mo)" by force
      then show ?thesis by blast
    next
      case None
      show ?thesis
      proof (cases "conflicted_at partner an (p, r, s)")
        case (Some x)
        then have "x \<in> set (mo_conflicts mo)" using e unfolding c by (auto simp: set_map_filter)
        then show ?thesis using conflicted_at_Some [OF Some] by blast
      next
        case none: None
        have "r = Deleted" by (rule neither_kept_nor_conflicted [OF None none])
        then have "chosen choices mo p (?sides p) None
            \<or> (\<exists>u v. merge_path load (?sides p) u = Inr (v, Deleted))"
          using entry [OF e] by (simp add: chosen_def choice_says_iff)
        then show ?thesis using merge_path_Deleted unfolding path_sides_def by metis
      qed
    qed
  next
    fix x assume "x \<in> set (mo_conflicts mo)"
    then obtain r s where e: "(c_path x, r, s) \<in> set rs"
        "is_unresolved r \<or> omap_has (fst an) (c_path x) \<or> c_path x \<in> set (snd an)"
      unfolding c using in_conflicts by blast
    then have "c_path x \<in> set ap \<or> map_of choices (c_path x) = None"
      using an unfolding pending_def by blast
    then show "c_path x \<notin> set (mo_unused mo)" unfolding un by (auto simp: map_of_eq_None_iff)
  qed
qed

text \<open>A file of three lines, of which each side changed another one.\<close>

definition text3 :: "char \<Rightarrow> char \<Rightarrow> bytes" where
  "text3 x y = [x, CHR 0x0A, CHR ''2'', CHR 0x0A, y, CHR 0x0A]"

definition text_load :: "object_id \<Rightarrow> unit + bytes" where
  "text_load i = Inr (if i = ''b'' then text3 CHR ''1'' CHR ''3'' else if i = ''o'' then text3 CHR ''x'' CHR ''3'' else text3 CHR ''1'' CHR ''y'')"

lemma text_diff: "diff3 (lines (text3 CHR ''1'' CHR ''3'')) (lines (text3 CHR ''x'' CHR ''3'')) (lines (text3 CHR ''1'' CHR ''y''))
    = Some [[CHR ''x'', CHR 0x0A], [CHR ''2'', CHR 0x0A], [CHR ''y'', CHR 0x0A]]" by code_simp

lemma text_path: "\<exists>v. merge_path text_load (Some (Regular ''b'' False), Some (Regular ''o'' True), Some (Regular ''t'' False))
   \<lparr>work_units = 768, loaded_bytes = 0\<rparr> = Inr (v, Resolved (MContent (text3 CHR ''x'' CHR ''y'') True))"
proof -
  let ?b = "text3 CHR ''1'' CHR ''3''" and ?o = "text3 CHR ''x'' CHR ''3''" and ?t = "text3 CHR ''1'' CHR ''y''"
  have l: "line_count ?b = 3" "line_count ?o = 3" "line_count ?t = 3" by (simp_all add: text3_def line_count_def)
  have n: "length ?b = 6" "length ?o = 6" "length ?t = 6" by (simp_all add: text3_def)
  have "merge_content text_load ''b'' ''o'' ''t'' True \<lparr>work_units = 768, loaded_bytes = 0\<rparr> =
      emap_err Resource (merge_bytes ?b ?o ?t True \<lparr>work_units = 936, loaded_bytes = 18\<rparr>)"
    by (simp add: merge_content_def bounded_load_def text_load_def n loaded_def check_def reserve_def sat_add64_def u64_max_def)
  moreover have "CHR 0x00 \<notin> set ?b \<union> set ?o \<union> set ?t" by (simp add: text3_def)
  moreover have "\<exists>v. merge_lines ?b ?o ?t \<lparr>work_units = 936, loaded_bytes = 18\<rparr> = Inr (v, Some (text3 CHR ''x'' CHR ''y''))"
    by (simp add: merge_lines_def l n Let_def check_def table_cells_def lines_work_def side_work_def reserve_def sat_add64_def
        u64_max_def text_diff) (simp add: text3_def)
  ultimately show ?thesis by (auto simp: merge_path_def merge_bytes_def)
qed

lemma text_example:
  "\<exists>mo. merge_resolved [(''f'', Regular ''b'' False)] [(''f'', Regular ''o'' True)] [(''f'', Regular ''t'' False)] []
     (\<lambda>_. Inr []) text_load = Inr mo \<and> mo_merged mo = [(''f'', MContent (text3 CHR ''x'' CHR ''y'') True)]"
proof -
  let ?s = "(Some (Regular ''b'' False), Some (Regular ''o'' True), Some (Regular ''t'' False))"
  let ?r = "Resolved (MContent (text3 CHR ''x'' CHR ''y'') True)"
  obtain v where path: "merge_path text_load ?s \<lparr>work_units = 768, loaded_bytes = 0\<rparr> = Inr (v, ?r)" using text_path by blast
  have os: "oset_of [''f'', ''f'', ''f''] = [''f'']" by code_simp
  have every: "map fst [(''f'', Regular ''b'' False)] @ map fst [(''f'', Regular ''o'' True)] @ map fst [(''f'', Regular ''t'' False)]
      = [''f'', ''f'', ''f'']" by simp
  have "admit_paths [''f'', ''f'', ''f''] 0 0 = Inr 768" by (simp add: check_def)
  moreover have "reserve 768 usage_default = Inr \<lparr>work_units = 768, loaded_bytes = 0\<rparr>"
    by (simp add: reserve_def check_def usage_default_def sat_add64_def u64_max_def)
  moreover have "rename_partner (renames_to [(''f'', Regular ''b'' False)] [(''f'', Regular ''o'' True)])
      (renames_to [(''f'', Regular ''b'' False)] [(''f'', Regular ''t'' False)]) = []" by code_simp
  moreover have "mark_renames [] [(''f'', ?r, ?s)] = [(''f'', ?r, ?s)]" by code_simp
  moreover have "resolve_loop (\<lambda>_. Inr [] :: unit + string list) [] [(''f'', ?r, ?s)] [] = Inr ([(''f'', ?r, ?s)], [], [], [])" by code_simp
  moreover have "sort_out [] ([], []) [(''f'', ?r, ?s)] = ([(''f'', MContent (text3 CHR ''x'' CHR ''y'') True)], [])" by code_simp
  moreover have "check Entries (1 + 1 + 1) = Inr ()" by (simp add: check_def)
  ultimately show ?thesis unfolding merge_resolved_def Let_def every os using path by simp
qed

theorem merge_provenance_witness:
  "\<exists>mo. merge_resolved [(''f'', Regular ''b'' False)] [(''f'', Regular ''o'' True)] [(''f'', Regular ''t'' False)] [] (\<lambda>_. Inr []) text_load = Inr mo
   \<and> mo_merged mo = [(''f'', MContent (text3 CHR ''x'' CHR ''y'') True)]
   \<and> merged_from text_load (Some (Regular ''b'' False), Some (Regular ''o'' True), Some (Regular ''t'' False)) (MContent (text3 CHR ''x'' CHR ''y'') True)"
proof -
  obtain mo where mo: "merge_resolved [(''f'', Regular ''b'' False)] [(''f'', Regular ''o'' True)] [(''f'', Regular ''t'' False)] []
      (\<lambda>_. Inr []) text_load = Inr mo" "mo_merged mo = [(''f'', MContent (text3 CHR ''x'' CHR ''y'') True)]" using text_example by blast
  from merge_provenance [OF mo(1), THEN conjunct1] mo show ?thesis by (simp add: chosen_def path_sides_def)
qed

text \<open>a collision is reported exactly for the paths that could remain and would be a directory of, or a file
under, another such path, and the path reported with it is the first of these in sorted order.\<close>

theorem analyse_collisions_first:
  assumes "analyse aliases rs = Inr (collisions, hits)" "omap_ok rs"
  shows "map_of collisions p =
    (let others = related (present_paths rs) p in
     if p \<in> set (present_paths rs) \<and> others \<noteq> {} then Some (Min others) else None)"
  unfolding analyse_Inr(1) [OF assms(1)] Let_def
  by (rule collisions_first [OF present_paths_ok [OF assms(2)]])

theorem analyse_collisions_first_witness:
  "\<exists>co. analyse (\<lambda>_. Inr [] :: unit + string list)
     [(''a'', Resolved (Retained (Symlink ''x'')), (None, None, None)),
      (''a/b'', Resolved (Retained (Symlink ''x'')), (None, None, None)),
      (''a/c'', Deleted, (None, None, None))] = Inr (co, []) \<and> map_of co ''a/c'' = None"
proof -
  let ?rs = "[(''a'', Resolved (Retained (Symlink ''x'')), (None, None, None)),
      (''a/b'', Resolved (Retained (Symlink ''x'')), (None, None, None)),
      (''a/c'', Deleted, (None, None, None))] :: results"
  have r: "analyse (\<lambda>_. Inr [] :: unit + string list) ?rs = Inr ([(''a'', ''a/b''), (''a/b'', ''a'')], [])" by code_simp
  have "omap_ok ?rs" "''a/c'' \<notin> set (present_paths ?rs)" by code_simp+
  with analyse_collisions_first [OF r, of "''a/c''"] r show ?thesis by (simp add: Let_def)
qed

section \<open>Fast-forward\<close>

lemma empty_lookup: "(\<And>p. map_of m p = None) \<Longrightarrow> m = []"
  by (metis map_of_eq_empty_iff ext)

lemma renames_to_self: "omap_ok m \<Longrightarrow> renames_to m m = []"
proof -
  assume ok: "omap_ok m"
  have "map_of (renames_to m m) p \<noteq> Some q" for p q
    by (simp add: renames_to_lookup [OF ok ok] only_in_singleton [OF ok])
  then have "map_of (renames_to m m) p = None" for p by (cases "map_of (renames_to m m) p") auto
  then show ?thesis by (rule empty_lookup)
qed

definition fast_result :: "manifest \<Rightarrow> manifest \<Rightarrow> string \<Rightarrow> string \<times> path_result \<times> sides" where
  "fast_result b t p = (p, take_entry (map_of t p), (map_of b p, map_of b p, map_of t p))"

lemma merge_paths_fast: "merge_paths load b b t ps u = Inr (u, map (fast_result b t) ps)"
proof (induction ps)
  case (Cons p ps)
  have "merge_path load (map_of b p, map_of b p, map_of t p) u = Inr (u, take_entry (map_of t p))"
    by (simp add: merge_path_def)
  with Cons show ?case by (simp add: fast_result_def)
qed simp

lemma present_fast: "set (present_paths (map (fast_result b t) ps)) = {p \<in> set ps. map_of t p \<noteq> None}"
  by (induction ps) (auto simp: present_paths_def fast_result_def take_entry_def split: option.splits)

lemma collisions_Nil:
  assumes "oset_ok pr" "\<And>p q. p \<in> set pr \<Longrightarrow> q \<in> set pr \<Longrightarrow> \<not> below p q"
  shows "fold (collide pr) pr [] = []"
proof -
  have "map_of (fold (collide pr) pr []) p = None" for p
    unfolding collisions_first [OF assms(1)] using assms(2) by (auto simp: related_def)
  then show ?thesis by (rule empty_lookup)
qed

lemma kept_fast:
  "List.map_filter (kept_at ([], [])) (map (fast_result b t) ps) =
   List.map_filter (\<lambda>p. map_option (\<lambda>e. (p, Retained e)) (map_of t p)) ps"
  by (induction ps) (simp_all add: fast_result_def take_entry_def split: option.split)

lemma conflicted_fast: "List.map_filter (conflicted_at partner ([], [])) (map (fast_result b t) ps) = []"
  by (induction ps) (simp_all add: fast_result_def take_entry_def split: option.split)

lemma map_of_filtered:
  "map_of (List.map_filter (\<lambda>p. map_option (\<lambda>e. (p, g e)) (f p)) ps) p =
   (if p \<in> set ps then map_option g (f p) else None)"
  by (induction ps) (auto split: option.split)

text \<open>a side that kept the base never conflicts. Merging a base with itself and a later manifest whose paths
can live in one tree is that manifest, every entry retained, and nothing is loaded: no path is a conflict,
a rename, a collision or a line merge.\<close>

theorem merge_fast_forward:
  assumes "manifest_ok base" "manifest_ok theirs" "merge_manifests base base theirs load = Inr mo"
    and "\<forall>p \<in> fst ` set theirs. \<forall>q \<in> fst ` set theirs. \<not> below p q"
  shows "mo_merged mo = map (\<lambda>(p, e). (p, Retained e)) theirs \<and> is_clean mo \<and> mo_unused mo = []"
proof -
  have ok: "omap_ok base" "omap_ok theirs" using assms(1,2) by (simp_all add: manifest_ok_def)
  define ps where "ps = oset_of (map fst base @ map fst base @ map fst theirs)"
  have ps: "oset_ok ps" "set ps = fst ` set base \<union> fst ` set theirs" by (auto simp: ps_def)
  let ?rs = "map (fast_result base theirs) ps"
  have "map fst ?rs = ps" by (simp add: fast_result_def comp_def)
  then have rs_ok: "omap_ok ?rs" using ps(1) by (simp add: omap_ok_def oset_ok_def)
  have partner: "rename_partner (renames_to base base) r = []" for r
    by (simp add: renames_to_self [OF ok(1)] rename_partner_def)
  have mark: "mark_renames [] rs = rs" for rs
    by (auto simp: mark_renames_def omap_has_def intro: map_idI)
  have "\<not> below p q" if "p \<in> set (present_paths ?rs)" "q \<in> set (present_paths ?rs)" for p q
    using that assms(4) unfolding present_fast mem_Collect_eq map_of_eq_None_iff by blast
  then have coll: "fold (collide (present_paths ?rs)) (present_paths ?rs) [] = []"
    by (intro collisions_Nil present_paths_ok rs_ok)
  have an: "analyse (\<lambda>_. Inr []) ?rs = Inr ([], [])"
    by (simp add: analyse_def coll oset_of_def Let_def)
  have none: "apply_choices [] [] [] rs [] = (rs, [], False)" for rs
    by (induction rs) (auto simp: Let_def)
  have loop: "resolve_loop (\<lambda>_. Inr []) [] ?rs [] = Inr (?rs, [], ([], []))"
    unfolding resolve_loop.simps [of _ "[]" ?rs "[]"] by (simp add: an none)
  obtain u where mo: "mo = \<lparr>mo_merged = List.map_filter (kept_at ([], [])) ?rs,
      mo_conflicts = List.map_filter (conflicted_at [] ([], [])) ?rs, mo_unused = [], mo_usage = u\<rparr>"
    using assms(3) unfolding merge_manifests_def merge_resolved_def
    by (auto simp: Let_def result_simps merge_paths_fast partner mark loop sort_out_filters simp flip: ps_def)
  have keep: "mo_merged mo = map (\<lambda>(p, e). (p, Retained e)) theirs"
  proof (rule omap_extI)
    show "omap_ok (mo_merged mo)" unfolding mo by (simp add: kept_ok [OF rs_ok])
    show "omap_ok (map (\<lambda>(p, e). (p, Retained e)) theirs)"
      using ok(2) by (simp add: omap_ok_def comp_def case_prod_beta)
    have "map_of (map (\<lambda>(p, e). (p, Retained e)) theirs) p = map_option Retained (map_of theirs p)" for p
      by (induction theirs) auto
    moreover have "p \<notin> set ps \<Longrightarrow> map_of theirs p = None" for p
      by (simp add: ps(2) map_of_eq_None_iff)
    ultimately show "map_of (mo_merged mo) = map_of (map (\<lambda>(p, e). (p, Retained e)) theirs)"
      by (auto simp: mo kept_fast map_of_filtered fun_eq_iff)
  qed
  then show ?thesis by (simp add: mo is_clean_def conflicted_fast)
qed

theorem merge_fast_forward_witness:
  "\<exists>mo. merge_manifests [(''a'', Symlink ''x'')] [(''a'', Symlink ''x'')] [(''b'', Symlink ''x'')]
        (\<lambda>_. Inl ()) = Inr mo
     \<and> mo_merged mo = [(''b'', Retained (Symlink ''x''))]"
proof -
  let ?b = "[(''a'', Symlink ''x'')]" and ?t = "[(''b'', Symlink ''x'')]"
  have ok: "manifest_ok ?b" "manifest_ok ?t" by (simp_all add: manifest_ok_def)
  have free: "\<forall>p \<in> fst ` set ?t. \<forall>q \<in> fst ` set ?t. \<not> below p q" by simp
  have "oset_of (map fst ?b @ map fst ?b @ map fst ?t) = [''a'', ''b'']" by code_simp
  moreover have "rename_partner (renames_to ?b ?b) (renames_to ?b ?t) = []" by code_simp
  moreover have "resolve_loop (\<lambda>_. Inr [] :: unit + string list) []
      (mark_renames [] (map (fast_result ?b ?t) [''a'', ''b''])) []
      = Inr (map (fast_result ?b ?t) [''a'', ''b''], [], [], [])" by code_simp
  moreover have "admit_paths (map fst ?b @ map fst ?b @ map fst ?t) 0 0 = Inr 768" by (simp add: check_def)
  moreover have "reserve 768 usage_default = Inr \<lparr>work_units = 768, loaded_bytes = 0\<rparr>"
    by (simp add: reserve_def check_def usage_default_def sat_add64_def u64_max_def)
  ultimately obtain mo where run: "merge_manifests ?b ?b ?t (\<lambda>_. Inl ()) = Inr mo"
    by (simp add: merge_manifests_def merge_resolved_def check_def merge_paths_fast case_prod_beta)
  from merge_fast_forward [OF ok run free] run show ?thesis by simp
qed

section \<open>Admission\<close>

lemma admit_paths_Inr:
  "admit_paths ps bytes w = Inr w' \<Longrightarrow>
   (\<forall>p \<in> set ps. length p \<le> limit PathBytes) \<and> w' \<le> w + length ps * (64 * 1025 * 1025)
   \<and> (ps \<noteq> [] \<longrightarrow> bytes + length (concat ps) \<le> limit TotalPathBytes)"
proof (induction ps arbitrary: bytes w)
  case (Cons p ps)
  have h: "length p \<le> 1024" "bytes + length p \<le> limit TotalPathBytes"
      "admit_paths ps (bytes + length p) (w + 64 * (length p + 1) * (length p + 1)) = Inr w'"
    using Cons.prems by (auto simp: Let_def result_simps)
  have "64 * (length p + 1) * (length p + 1) \<le> 64 * 1025 * 1025"
    using h(1) by (intro mult_le_mono) simp_all
  then show ?case using Cons.IH [OF h(3)] h(1,2) by (cases "ps = []") auto
qed simp

text \<open>a merge that returns was admitted, and its accounting did not wrap: at most 4096 entries, no path above
1024 bytes and 128 KiB of paths in all, a metadata charge far below \<open>2 ^ 64\<close>, and a reported usage within
the work and loaded-bytes limits.\<close>

theorem merge_admitted:
  assumes "merge_resolved base ours theirs choices aliases load = Inr mo"
  shows "(let every = map fst base @ map fst ours @ map fst theirs in
      length every \<le> limit Entries \<and> (\<forall>p \<in> set every. length p \<le> limit PathBytes)
      \<and> length (concat every) \<le> limit TotalPathBytes
      \<and> (\<forall>w. admit_paths every 0 0 = Inr w \<longrightarrow> w < 2 ^ 40))
    \<and> usage_ok (mo_usage mo)"
proof
  let ?every = "map fst base @ map fst ours @ map fst theirs"
  show "usage_ok (mo_usage mo)" using assms by (rule merge_resolved_Inr)
  obtain w0 where e: "length ?every \<le> limit Entries" "admit_paths ?every 0 0 = Inr w0"
    using assms unfolding merge_resolved_def by (auto simp: Let_def result_simps)
  note a = admit_paths_Inr [OF e(2)]
  have "w < 2 ^ 40" if "admit_paths ?every 0 0 = Inr w" for w
  proof -
    have "w0 \<le> 4096 * (64 * 1025 * 1025)"
      using a e(1) mult_le_mono1 [of "length ?every" 4096 "64 * 1025 * 1025"] by simp
    then show ?thesis using that e(2) by simp
  qed
  with a e(1) show "let every = ?every in
      length every \<le> limit Entries \<and> (\<forall>p \<in> set every. length p \<le> limit PathBytes)
      \<and> length (concat every) \<le> limit TotalPathBytes
      \<and> (\<forall>w. admit_paths every 0 0 = Inr w \<longrightarrow> w < 2 ^ 40)"
    unfolding Let_def by (cases "?every = []") (simp_all del: limit.simps)
qed

theorem merge_admitted_witness:
  "\<exists>mo. merge_resolved [(''a'', Symlink ''x''), (''d'', Symlink ''x'')]
     [(''a'', Symlink ''y''), (''c'', Symlink ''z''), (''d'', Symlink ''y'')]
     [(''a'', Symlink ''x''), (''a/b'', Symlink ''w''), (''d'', Symlink ''z'')] [(''d'', Theirs)]
     (\<lambda>_. Inr [] :: unit + string list) (\<lambda>_. Inl ()) = Inr mo
   \<and> usage_ok (mo_usage mo)"
  using merge_example merge_admitted [OF merge_example, THEN conjunct2] by blast

end
