(* ===== verification/Review.thy ===== *)
theory Review
  imports Domain
begin

text \<open>
  Publish Request review and permissions (\<open>crates/javelin-collaboration/src/lib.rs\<close>): the applied
  permissions and roles, the commands, the review state of one request with \<open>apply\<close>, \<open>replay\<close> and
  \<open>check_publishable\<close>. The state is event sourced; the locale \<open>event_sourced\<close> is that contract. A
  request's life is the step relation \<open>review_step\<close>. The theorems give the invariant of reachable
  states, what a publication proves about approvals, that retries and replays change nothing, and that
  terminal states are final.
\<close>

section \<open>Identifiers, roles and permissions\<close>

text \<open>\<open>opaque_id!\<close>: principals, repositories and requests share one rule, so an ID is its text.\<close>

definition opaque_char :: "char \<Rightarrow> bool" where
  "opaque_char b \<longleftrightarrow> is_alnum b \<or> b \<in> set ''-_.:''"

definition opaque :: "string \<Rightarrow> bool" where
  "opaque value \<longleftrightarrow> value \<noteq> [] \<and> length value \<le> 128 \<and> list_all opaque_char value"

definition opaque_parse :: "string \<Rightarrow> string \<Rightarrow> string + string" where
  "opaque_parse what value = (if \<not> opaque value then Inl what else Inr value)"

type_synonym principal = string

definition MAX_COMMENT_BYTES :: nat where "MAX_COMMENT_BYTES = 65536"

definition comment_parse :: "string \<Rightarrow> unit + string" where
  "comment_parse value = (if value = [] \<or> length value > MAX_COMMENT_BYTES then Inl () else Inr value)"

record revision_ref =
  rr_base :: "64 word"
  rr_checkpoint :: object_id
  rr_tree :: object_id
  rr_context :: "object_id option"

definition revision_ref_new ::
  "64 word \<Rightarrow> object_id \<Rightarrow> object_id \<Rightarrow> object_id option \<Rightarrow> revision_ref" where
  "revision_ref_new base checkpoint tree ctx =
     \<lparr>rr_base = base, rr_checkpoint = checkpoint, rr_tree = tree, rr_context = ctx\<rparr>"

datatype review_role = Read | Reviewer | Maintain

text \<open>Ordered so each role includes the abilities of the roles before it.\<close>

fun role_rank :: "review_role \<Rightarrow> nat" where
  "role_rank Read = 0"
| "role_rank Reviewer = 1"
| "role_rank Maintain = 2"

instantiation review_role :: linorder
begin

definition less_eq_review_role :: "review_role \<Rightarrow> review_role \<Rightarrow> bool" where
  "less_eq_review_role a b \<longleftrightarrow> role_rank a \<le> role_rank b"

definition less_review_role :: "review_role \<Rightarrow> review_role \<Rightarrow> bool" where
  "less_review_role a b \<longleftrightarrow> role_rank a < role_rank b"

lemma role_rank_inj: "role_rank a = role_rank b \<Longrightarrow> a = b"
  by (cases a; cases b) auto

instance
  by standard (auto simp: less_eq_review_role_def less_review_role_def intro: role_rank_inj)

end

datatype review_visibility = Public | Private

record applied_permissions =
  ap_repository :: string
  ap_epoch :: "64 word"
  ap_visibility :: review_visibility
  ap_roles :: "(principal, review_role) omap"
  ap_required :: "32 word"

definition permissions_role :: "applied_permissions \<Rightarrow> principal \<Rightarrow> review_role option" where
  "permissions_role permissions who =
     (let granted = map_of (ap_roles permissions) who
      in case ap_visibility permissions of
           Public \<Rightarrow> (case granted of None \<Rightarrow> Some Read | Some r \<Rightarrow> Some r)
         | Private \<Rightarrow> granted)"

definition permissions_has :: "applied_permissions \<Rightarrow> principal \<Rightarrow> review_role \<Rightarrow> bool" where
  "permissions_has permissions who role =
     (case permissions_role permissions who of None \<Rightarrow> False | Some r \<Rightarrow> r \<ge> role)"

section \<open>Commands and refusals\<close>

datatype action =
    Open revision_ref
  | Revise "32 word" revision_ref
  | Approve "32 word" revision_ref
  | Comment "32 word option" string
  | Publish "32 word" revision_ref
  | Close "32 word"

record command =
  co_operation :: string
  co_actor :: principal
  co_action :: action

datatype refusal =
    RepositoryMismatch
  | StalePermissions "64 word"
  | OperationIdReused string
  | NotOpen
  | AlreadyOpen
  | NoAccess
  | InsufficientRole review_role
  | NotAuthor
  | SelfApproval
  | StaleRevision "32 word"
  | UnknownRevision
  | RevisionMismatch
  | UnchangedRevision
  | AlreadyApproved
  | NotEnoughApprovals "32 word" "32 word"
  | Panicked string

text \<open>\<open>Panicked\<close> is no refusal of the source: it is the \<open>expect\<close> of \<open>push_revision\<close> failing.\<close>

fun refusal_code :: "refusal \<Rightarrow> string" where
  "refusal_code RepositoryMismatch = ''repository_mismatch''"
| "refusal_code (StalePermissions seen) = ''stale_permissions''"
| "refusal_code (OperationIdReused i) = ''operation_id_reused''"
| "refusal_code NotOpen = ''not_open''"
| "refusal_code AlreadyOpen = ''already_open''"
| "refusal_code NoAccess = ''no_access''"
| "refusal_code (InsufficientRole required) = ''insufficient_role''"
| "refusal_code NotAuthor = ''not_author''"
| "refusal_code SelfApproval = ''self_approval''"
| "refusal_code (StaleRevision current) = ''stale_revision''"
| "refusal_code UnknownRevision = ''unknown_revision''"
| "refusal_code RevisionMismatch = ''revision_mismatch''"
| "refusal_code UnchangedRevision = ''unchanged_revision''"
| "refusal_code AlreadyApproved = ''already_approved''"
| "refusal_code (NotEnoughApprovals required current) = ''not_enough_approvals''"
| "refusal_code (Panicked what) = what"

section \<open>The review state\<close>

record revision =
  rv_index :: "32 word"
  rv_revision :: revision_ref
  rv_approvals :: "principal list"

record comment =
  cm_author :: principal
  cm_index :: "32 word option"
  cm_body :: string

datatype request_state = RequestOpen | Published | Closed

record review =
  re_repository :: string
  re_request :: string
  re_author :: "principal option"
  re_state :: request_state
  re_epoch :: "64 word"
  re_revisions :: "revision list"
  re_comments :: "comment list"
  re_history :: "command list"

record applied =
  ad_review :: review
  ad_replayed :: bool

definition review_new :: "string \<Rightarrow> string \<Rightarrow> review" where
  "review_new repository request =
     \<lparr>re_repository = repository, re_request = request, re_author = None, re_state = RequestOpen, re_epoch = 0,
      re_revisions = [], re_comments = [], re_history = []\<rparr>"

definition last_option :: "'a list \<Rightarrow> 'a option" where
  "last_option xs = (if xs = [] then None else Some (last xs))"

definition check_permissions :: "review \<Rightarrow> applied_permissions \<Rightarrow> refusal + unit" where
  "check_permissions self permissions =
     (if ap_repository permissions \<noteq> re_repository self then Inl RepositoryMismatch
      else if ap_epoch permissions < re_epoch self then Inl (StalePermissions (re_epoch self))
      else Inr ())"

definition open_revision :: "review \<Rightarrow> refusal + revision" where
  "open_revision self =
     (case (re_state self, last_option (re_revisions self)) of
       (RequestOpen, Some current) \<Rightarrow> Inr current
     | _ \<Rightarrow> Inl NotOpen)"

definition published_by_world :: "review \<Rightarrow> review" where
  "published_by_world self = self\<lparr>re_state := Published\<rparr>"

text \<open>\<open>push_revision\<close>: the index is checked into 32 bits, or the code panics.\<close>

definition push_revision :: "review \<Rightarrow> revision_ref \<Rightarrow> refusal + review" where
  "push_revision self r =
     (let n = length (re_revisions self) + 1
      in if n \<ge> 2 ^ 32 then Inl (Panicked ''revision count fits u32'')
         else Inr (self\<lparr>re_revisions := re_revisions self
                @ [\<lparr>rv_index = of_nat n, rv_revision = r, rv_approvals = []\<rparr>]\<rparr>))"

record publishable =
  pb_index :: "32 word"
  pb_approvals :: "principal list"

text \<open>\<open>u32::try_from(n).unwrap_or(u32::MAX)\<close>.\<close>

definition saturated_count :: "nat \<Rightarrow> 32 word" where
  "saturated_count n = (if n < 2 ^ 32 then of_nat n else -1)"

definition check_publishable ::
  "review \<Rightarrow> 32 word \<Rightarrow> revision_ref \<Rightarrow> applied_permissions \<Rightarrow> principal \<Rightarrow> refusal + publishable" where
  "check_publishable review' index exact permissions publisher =
     ebind (check_permissions review' permissions) (\<lambda>_.
       if permissions_role permissions publisher = None then Inl NoAccess
       else if \<not> permissions_has permissions publisher Maintain then Inl (InsufficientRole Maintain)
       else ebind (open_revision review') (\<lambda>current.
         if index \<noteq> rv_index current then Inl (StaleRevision (rv_index current))
         else if rv_revision current \<noteq> exact then Inl RevisionMismatch
         else
           (let approvals = filter (\<lambda>p. re_author review' \<noteq> Some p \<and> permissions_has permissions p Reviewer)
                  (rv_approvals current);
                count = saturated_count (length approvals)
            in if count < ap_required permissions
               then Inl (NotEnoughApprovals (ap_required permissions) count)
               else Inr \<lparr>pb_index = rv_index current, pb_approvals = approvals\<rparr>)))"

text \<open>\<open>check\<close>: what depends on current grants.\<close>

definition check_command :: "review \<Rightarrow> command \<Rightarrow> applied_permissions \<Rightarrow> refusal + unit" where
  "check_command self command permissions =
     ebind (check_permissions self permissions) (\<lambda>_.
       let actor = co_actor command in
       if permissions_role permissions actor = None then Inl NoAccess
       else
         (case co_action command of
           Approve index r \<Rightarrow>
             if \<not> permissions_has permissions actor Reviewer then Inl (InsufficientRole Reviewer) else Inr ()
         | Close index \<Rightarrow>
             if re_author self \<noteq> Some actor \<and> \<not> permissions_has permissions actor Maintain
             then Inl (InsufficientRole Maintain) else Inr ()
         | Publish index r \<Rightarrow>
             ebind (check_publishable self index r permissions actor) (\<lambda>_. Inr ())
         | _ \<Rightarrow> Inr ()))"

text \<open>The match of \<open>transition\<close>: what an action does to a copy of the state.\<close>

definition approve_last :: "principal \<Rightarrow> revision list \<Rightarrow> revision list" where
  "approve_last actor revisions =
     butlast revisions @ [(last revisions)\<lparr>rv_approvals := rv_approvals (last revisions) @ [actor]\<rparr>]"

definition act :: "review \<Rightarrow> principal \<Rightarrow> action \<Rightarrow> refusal + review" where
  "act self actor action =
     (case action of
       Open r \<Rightarrow>
         if re_author self \<noteq> None then Inl AlreadyOpen
         else push_revision (self\<lparr>re_author := Some actor\<rparr>) r
     | Revise expected r \<Rightarrow>
         ebind (open_revision self) (\<lambda>current.
           if re_author self \<noteq> Some actor then Inl NotAuthor
           else if expected \<noteq> rv_index current then Inl (StaleRevision (rv_index current))
           else if rv_revision current = r then Inl UnchangedRevision
           else push_revision self r)
     | Approve index r \<Rightarrow>
         ebind (open_revision self) (\<lambda>current.
           if re_author self = Some actor then Inl SelfApproval
           else if index \<noteq> rv_index current then Inl (StaleRevision (rv_index current))
           else if rv_revision current \<noteq> r then Inl RevisionMismatch
           else if actor \<in> set (rv_approvals current) then Inl AlreadyApproved
           else Inr (self\<lparr>re_revisions := approve_last actor (re_revisions self)\<rparr>))
     | Comment index body \<Rightarrow>
         ebind (open_revision self) (\<lambda>_.
           if (case index of None \<Rightarrow> False | Some i \<Rightarrow> i = 0 \<or> unat i > length (re_revisions self))
           then Inl UnknownRevision
           else Inr (self\<lparr>re_comments := re_comments self
                  @ [\<lparr>cm_author = actor, cm_index = index, cm_body = body\<rparr>]\<rparr>))
     | Publish index r \<Rightarrow> ebind (open_revision self) (\<lambda>_. Inr (self\<lparr>re_state := Published\<rparr>))
     | Close index \<Rightarrow>
         ebind (open_revision self) (\<lambda>current.
           if index \<noteq> rv_index current then Inl (StaleRevision (rv_index current))
           else Inr (self\<lparr>re_state := Closed\<rparr>)))"

definition transition :: "review \<Rightarrow> command \<Rightarrow> 64 word \<Rightarrow> refusal + review" where
  "transition self command epoch =
     ebind (act self (co_actor command) (co_action command)) (\<lambda>next'.
       Inr (next'\<lparr>re_epoch := epoch, re_history := re_history next' @ [command]\<rparr>))"

definition replay :: "review \<Rightarrow> command \<Rightarrow> 64 word \<Rightarrow> refusal + review" where
  "replay self command epoch = transition self command epoch"

definition review_apply :: "review \<Rightarrow> command \<Rightarrow> applied_permissions \<Rightarrow> refusal + applied" where
  "review_apply self command permissions =
     (if ap_repository permissions \<noteq> re_repository self then Inl RepositoryMismatch
      else
        (case find (\<lambda>c. co_operation c = co_operation command) (re_history self) of
          Some prior \<Rightarrow>
            if prior = command then Inr \<lparr>ad_review = self, ad_replayed = True\<rparr>
            else Inl (OperationIdReused (co_operation command))
        | None \<Rightarrow>
            ebind (check_command self command permissions) (\<lambda>_.
            ebind (transition self command (ap_epoch permissions)) (\<lambda>next'.
              Inr \<lparr>ad_review = next', ad_replayed = False\<rparr>))))"

section \<open>Event sourcing\<close>

text \<open>The contract of a state rebuilt from its log: each accepted step appends its command, and applying is
  replaying once the checks have passed.\<close>

fun replay_all :: "('s \<Rightarrow> 'c \<Rightarrow> 'e \<Rightarrow> 'r + 's) \<Rightarrow> 's \<Rightarrow> ('c \<times> 'e) list \<Rightarrow> 'r + 's" where
  "replay_all rep s [] = Inr s"
| "replay_all rep s ((c, e) # events) = ebind (rep s c e) (\<lambda>s. replay_all rep s events)"

lemma replay_all_append:
  "replay_all rep s (xs @ ys) = ebind (replay_all rep s xs) (\<lambda>s. replay_all rep s ys)"
proof (induction xs arbitrary: s)
  case (Cons x xs)
  then show ?case by (cases x; cases "rep s (fst x) (snd x)") auto
qed simp

locale event_sourced =
  fixes admit :: "'s \<Rightarrow> 'c \<Rightarrow> 'p \<Rightarrow> 'r + 's"
    and rep :: "'s \<Rightarrow> 'c \<Rightarrow> ('e::linorder) \<Rightarrow> 'r + 's"
    and epoch_of :: "'p \<Rightarrow> 'e"
    and log :: "'s \<Rightarrow> 'c list"
    and seen :: "'s \<Rightarrow> 'e"
  assumes admit_rep: "admit s c p = Inr s' \<Longrightarrow> rep s c (epoch_of p) = Inr s'"
    and admit_current: "admit s c p = Inr s' \<Longrightarrow> seen s \<le> epoch_of p"
    and rep_log: "rep s c e = Inr s' \<Longrightarrow> log s' = log s @ [c]"
    and rep_seen: "rep s c e = Inr s' \<Longrightarrow> seen s' = e"
begin

lemma rep_all_log: "replay_all rep s events = Inr s' \<Longrightarrow> log s' = log s @ map fst events"
  by (induction events arbitrary: s) (auto simp: result_simps rep_log)

lemma admit_all_rep:
  "replay_all admit s events = Inr s' \<Longrightarrow> replay_all rep s (map (\<lambda>(c, p). (c, epoch_of p)) events) = Inr s'"
  by (induction events arbitrary: s) (auto simp: result_simps dest!: admit_rep)

lemma admit_seen: "admit s c p = Inr s' \<Longrightarrow> seen s' = epoch_of p \<and> seen s \<le> seen s'"
  using admit_rep [of s c p s'] admit_current [of s c p s'] rep_seen [of s c "epoch_of p" s'] by simp

lemma admit_all_epochs:
  "replay_all admit s events = Inr s' \<Longrightarrow> sorted (seen s # map (\<lambda>(c, p). epoch_of p) events)
    \<and> seen s' = last (seen s # map (\<lambda>(c, p). epoch_of p) events)"
proof (induction events arbitrary: s)
  case (Cons x events)
  obtain c p t where t: "x = (c, p)" "admit s c p = Inr t" "replay_all admit t events = Inr s'"
    using Cons.prems by (cases x) (auto simp: result_simps)
  then have "sorted (seen t # map (\<lambda>(c, p). epoch_of p) events)" "seen s' = last (seen t # map (\<lambda>(c, p). epoch_of p) events)"
    using Cons.IH by simp_all
  then show ?case using admit_seen [OF t(2)] t(1) by auto
qed simp

text \<open>The admitted inputs, each with its epoch, rebuild the state.\<close>

lemma log_rebuilds:
  assumes "replay_all admit s events = Inr s'"
  shows "replay_all rep s (map (\<lambda>(c, p). (c, epoch_of p)) events) = Inr s' \<and> log s' = log s @ map fst events
    \<and> sorted (seen s # map (\<lambda>(c, p). epoch_of p) events) \<and> seen s' = last (seen s # map (\<lambda>(c, p). epoch_of p) events)"
proof -
  have r: "replay_all rep s (map (\<lambda>(c, p). (c, epoch_of p)) events) = Inr s'" by (rule admit_all_rep [OF assms])
  have "map fst (map (\<lambda>(c, p). (c, epoch_of p)) events) = map fst events" by (induction events) auto
  then show ?thesis using r rep_all_log [OF r] admit_all_epochs [OF assms] by simp
qed

end

definition admit :: "review \<Rightarrow> command \<Rightarrow> applied_permissions \<Rightarrow> refusal + review" where
  "admit self command permissions =
     ebind (check_command self command permissions) (\<lambda>_. transition self command (ap_epoch permissions))"

text \<open>What an action leaves alone.\<close>

lemma act_frame:
  assumes "act r who a = Inr r'"
  shows "re_history r' = re_history r" "re_epoch r' = re_epoch r" "re_repository r' = re_repository r"
    "re_request r' = re_request r"
  using assms by (cases a; auto simp: act_def push_revision_def Let_def result_simps split: if_splits)+

lemma transition_frame:
  assumes "transition r c e = Inr r'"
  shows "re_history r' = re_history r @ [c]" "re_epoch r' = e" "re_repository r' = re_repository r"
  using assms by (auto simp: transition_def result_simps act_frame)

lemma check_permissions_Inr [result_simps]:
  "check_permissions r p = Inr u \<longleftrightarrow> ap_repository p = re_repository r \<and> re_epoch r \<le> ap_epoch p"
  by (auto simp: check_permissions_def)

interpretation log: event_sourced admit replay ap_epoch re_history re_epoch
  by unfold_locales
    (auto simp: admit_def replay_def result_simps check_command_def transition_frame simp del: split_paired_Ex)

lemma review_apply_cases:
  "review_apply r c p = Inr a \<longleftrightarrow> ap_repository p = re_repository r \<and>
     (case find (\<lambda>d. co_operation d = co_operation c) (re_history r) of
       Some prior \<Rightarrow> prior = c \<and> a = \<lparr>ad_review = r, ad_replayed = True\<rparr>
     | None \<Rightarrow> \<exists>r'. admit r c p = Inr r' \<and> a = \<lparr>ad_review = r', ad_replayed = False\<rparr>)"
  by (auto simp: review_apply_def admit_def result_simps split: option.splits)

section \<open>A request's life\<close>

text \<open>A request as its storage keeps it: what \<open>apply\<close> accepts moves it, what it refuses leaves it, and a
  publication found in the World marks it.\<close>

inductive review_step :: "review \<Rightarrow> review \<Rightarrow> bool" where
  applied: "review_apply r c p = Inr a \<Longrightarrow> review_step r (ad_review a)"
| world: "re_revisions r \<noteq> [] \<Longrightarrow> review_step r (published_by_world r)"

inductive reachable :: "review \<Rightarrow> bool" where
  new: "reachable (review_new repository request)"
| step: "reachable r \<Longrightarrow> review_step r r' \<Longrightarrow> reachable r'"

inductive_cases review_stepE: "review_step r r'"

text \<open>Serving a sequence of commands, each under the permissions of its time.\<close>

fun serve_all :: "review \<Rightarrow> (command \<times> applied_permissions) list \<Rightarrow> review" where
  "serve_all r [] = r"
| "serve_all r ((c, p) # events) =
     (case review_apply r c p of Inl e \<Rightarrow> serve_all r events | Inr a \<Rightarrow> serve_all (ad_review a) events)"

section \<open>The invariant\<close>

definition revision_ok :: "principal option \<Rightarrow> revision \<Rightarrow> bool" where
  "revision_ok author rv \<longleftrightarrow> distinct (rv_approvals rv) \<and> author \<notin> Some ` set (rv_approvals rv)"

definition comment_ok :: "nat \<Rightarrow> comment \<Rightarrow> bool" where
  "comment_ok n cm = (case cm_index cm of None \<Rightarrow> True | Some i \<Rightarrow> i \<noteq> 0 \<and> unat i \<le> n)"

definition review_ok :: "review \<Rightarrow> bool" where
  "review_ok r \<longleftrightarrow>
     (re_author r = None \<longleftrightarrow> re_revisions r = [])
     \<and> (re_revisions r = [] \<longrightarrow> re_state r = RequestOpen \<and> re_comments r = [] \<and> re_history r = [])
     \<and> length (re_revisions r) < 2 ^ 32
     \<and> map rv_index (re_revisions r) = map of_nat [1..<Suc (length (re_revisions r))]
     \<and> list_all (revision_ok (re_author r)) (re_revisions r)
     \<and> successively (\<lambda>a b. rv_revision a \<noteq> rv_revision b) (re_revisions r)
     \<and> list_all (comment_ok (length (re_revisions r))) (re_comments r)
     \<and> distinct (map co_operation (re_history r))"

lemma open_revision_Inr [result_simps]:
  "open_revision r = Inr rv \<longleftrightarrow> re_state r = RequestOpen \<and> re_revisions r \<noteq> [] \<and> rv = last (re_revisions r)"
  by (auto simp: open_revision_def last_option_def split: request_state.splits option.splits if_splits)

lemma push_revision_Inr [result_simps]:
  "push_revision r ref = Inr r' \<longleftrightarrow> Suc (length (re_revisions r)) < 2 ^ 32 \<and>
     r' = r\<lparr>re_revisions := re_revisions r
         @ [\<lparr>rv_index = of_nat (Suc (length (re_revisions r))), rv_revision = ref, rv_approvals = []\<rparr>]\<rparr>"
  by (auto simp: push_revision_def Let_def)

lemma approve_last_facts:
  assumes "rvs \<noteq> []"
  shows "map rv_index (approve_last who rvs) = map rv_index rvs"
    "map rv_revision (approve_last who rvs) = map rv_revision rvs"
    "length (approve_last who rvs) = length rvs" "approve_last who rvs \<noteq> []"
    "set (approve_last who rvs) \<subseteq> set rvs \<union> {(last rvs)\<lparr>rv_approvals := rv_approvals (last rvs) @ [who]\<rparr>}"
  using assms by (induction rvs rule: rev_induct) (auto simp: approve_last_def)

lemma successively_map_rv:
  "successively (\<lambda>a b. rv_revision a \<noteq> rv_revision b) rvs \<longleftrightarrow> successively (\<noteq>) (map rv_revision rvs)"
  by (simp add: successively_map)

lemma comment_ok_mono: "comment_ok n cm \<Longrightarrow> n \<le> m \<Longrightarrow> comment_ok m cm"
  by (auto simp: comment_ok_def split: option.splits)

lemma push_revision_ok:
  assumes "review_ok r" "push_revision (r\<lparr>re_author := Some who\<rparr>) ref = Inr r'"
    "re_revisions r = [] \<or> re_author r = Some who \<and> rv_revision (last (re_revisions r)) \<noteq> ref"
  shows "review_ok r'"
proof -
  have r': "r' = r\<lparr>re_author := Some who, re_revisions := re_revisions r
         @ [\<lparr>rv_index = of_nat (Suc (length (re_revisions r))), rv_revision = ref, rv_approvals = []\<rparr>]\<rparr>"
      "Suc (length (re_revisions r)) < 2 ^ 32"
    using assms(2) by (simp_all add: push_revision_Inr)
  have "list_all (comment_ok (Suc (length (re_revisions r)))) (re_comments r)"
    using assms(1) by (auto simp: review_ok_def list_all_iff intro: comment_ok_mono)
  then show ?thesis
    using assms(1,3) r'(2)
    by (auto simp: review_ok_def r'(1) revision_ok_def successively_append_iff)
qed

text \<open>Every action keeps the invariant.\<close>

lemma act_ok:
  assumes "review_ok r" "act r who a = Inr r'"
  shows "review_ok r' \<and> re_revisions r' \<noteq> []"
proof (cases a)
  case (Open ref)
  then have "re_revisions r = []" "push_revision (r\<lparr>re_author := Some who\<rparr>) ref = Inr r'"
    using assms by (auto simp: act_def review_ok_def split: if_splits)
  then show ?thesis using push_revision_ok [OF assms(1)] by (auto simp: push_revision_Inr)
next
  case (Revise expected ref)
  then have h: "re_author r = Some who" "rv_revision (last (re_revisions r)) \<noteq> ref" "push_revision r ref = Inr r'"
    using assms(2) by (auto simp: act_def result_simps split: if_splits)
  have "r\<lparr>re_author := Some who\<rparr> = r" using h(1) by (cases r) simp
  then have "push_revision (r\<lparr>re_author := Some who\<rparr>) ref = Inr r'" using h(3) by simp
  then show ?thesis using push_revision_ok [OF assms(1)] h by (auto simp: push_revision_Inr)
next
  case (Approve index ref)
  let ?rvs = "re_revisions r"
  have h: "?rvs \<noteq> []" "re_author r \<noteq> Some who" "who \<notin> set (rv_approvals (last ?rvs))"
      "r' = r\<lparr>re_revisions := approve_last who ?rvs\<rparr>"
    using assms(2) Approve by (auto simp: act_def result_simps split: if_splits)
  have "list_all (revision_ok (re_author r)) (approve_last who ?rvs)"
    using approve_last_facts(5) [OF h(1), of who] assms(1) h(1-3)
    by (fastforce simp: review_ok_def list_all_iff revision_ok_def)
  then show ?thesis
    using assms(1) h approve_last_facts [OF h(1), of who] by (simp add: review_ok_def successively_map_rv)
next
  case (Comment index body)
  then show ?thesis
    using assms by (auto simp: act_def result_simps review_ok_def comment_ok_def split: if_splits option.splits)
qed (use assms in \<open>auto simp: act_def result_simps review_ok_def split: if_splits\<close>)

lemma admit_ok:
  assumes "review_ok r" "admit r c p = Inr r'" "co_operation c \<notin> co_operation ` set (re_history r)"
  shows "review_ok r'"
proof -
  obtain n where n: "act r (co_actor c) (co_action c) = Inr n"
      "r' = n\<lparr>re_epoch := ap_epoch p, re_history := re_history n @ [c]\<rparr>"
    using assms(2) by (auto simp: admit_def transition_def result_simps)
  then show ?thesis using act_ok [OF assms(1) n(1)] assms(3) act_frame(1) [OF n(1)]
    by (auto simp: review_ok_def)
qed

lemma find_operation_None:
  "find (\<lambda>d. co_operation d = x) cs = None \<longleftrightarrow> x \<notin> co_operation ` set cs"
  by (auto simp: find_None_iff)

lemma review_step_ok:
  assumes "review_step r r'" "review_ok r"
  shows "review_ok r'"
  using assms(1)
proof (rule review_stepE)
  fix c p a
  assume "r' = ad_review a" "review_apply r c p = Inr a"
  then show ?thesis
    using assms(2) admit_ok [OF assms(2)]
    by (auto simp: review_apply_cases find_operation_None split: option.splits)
qed (use assms(2) in \<open>auto simp: published_by_world_def review_ok_def\<close>)

lemma reachable_ok: "reachable r \<Longrightarrow> review_ok r"
proof (induction rule: reachable.induct)
  case (step r r')
  show ?case by (rule review_step_ok [OF step.hyps(2) step.IH])
qed (simp add: review_new_def review_ok_def)

section \<open>Properties\<close>

text \<open>C32: Whatever sequence of commands a request receives, under whatever permissions, its revisions are
  numbered 1 to n without gaps, consecutive ones differ, no principal approves a revision twice and the
  author never does, comments name existing revisions, no operation ID is recorded twice, and a request
  without an author is open and empty.\<close>

theorem reachable_invariant:
  assumes "reachable r"
  shows "map rv_index (re_revisions r) = map of_nat [1..<Suc (length (re_revisions r))]
    \<and> length (re_revisions r) < 2 ^ 32
    \<and> successively (\<lambda>a b. rv_revision a \<noteq> rv_revision b) (re_revisions r)
    \<and> (\<forall>rv \<in> set (re_revisions r). distinct (rv_approvals rv) \<and> (\<forall>p \<in> set (rv_approvals rv). re_author r \<noteq> Some p))
    \<and> (\<forall>cm \<in> set (re_comments r). \<forall>i. cm_index cm = Some i \<longrightarrow> 1 \<le> unat i \<and> unat i \<le> length (re_revisions r))
    \<and> distinct (map co_operation (re_history r))
    \<and> (re_author r = None \<longrightarrow> re_state r = RequestOpen \<and> re_revisions r = [] \<and> re_history r = [])"
proof -
  note ok = reachable_ok [OF assms, unfolded review_ok_def]
  have "\<forall>rv \<in> set (re_revisions r). distinct (rv_approvals rv) \<and> (\<forall>p \<in> set (rv_approvals rv). re_author r \<noteq> Some p)"
    using ok by (auto simp: list_all_iff revision_ok_def)
  moreover have "\<forall>cm \<in> set (re_comments r). \<forall>i. cm_index cm = Some i \<longrightarrow> 1 \<le> unat i \<and> unat i \<le> length (re_revisions r)"
    using ok by (fastforce simp: list_all_iff comment_ok_def unat_gt_0 Suc_le_eq)
  ultimately show ?thesis using ok by blast
qed

lemma filter_approvals:
  assumes "review_ok r" "re_revisions r \<noteq> []"
  shows "length (filter (\<lambda>p. re_author r \<noteq> Some p \<and> permissions_has perms p Reviewer) (rv_approvals (last (re_revisions r))))
    = card {p \<in> set (rv_approvals (last (re_revisions r))). p \<noteq> the (re_author r) \<and> permissions_has perms p Reviewer}"
proof -
  let ?a = "rv_approvals (last (re_revisions r))"
  have d: "distinct ?a" using assms by (auto simp: review_ok_def list_all_iff revision_ok_def)
  obtain w where w: "re_author r = Some w" using assms by (auto simp: review_ok_def)
  have "length (filter (\<lambda>p. re_author r \<noteq> Some p \<and> permissions_has perms p Reviewer) ?a)
      = card (set (filter (\<lambda>p. re_author r \<noteq> Some p \<and> permissions_has perms p Reviewer) ?a))"
    by (rule distinct_card [symmetric]) (simp add: d)
  also have "set (filter (\<lambda>p. re_author r \<noteq> Some p \<and> permissions_has perms p Reviewer) ?a)
      = {p \<in> set ?a. p \<noteq> the (re_author r) \<and> permissions_has perms p Reviewer}"
    using w by auto
  finally show ?thesis .
qed

lemma saturated_count_less: "saturated_count n < w \<longleftrightarrow> n < unat w"
proof (cases "n < 2 ^ 32")
  case True
  then show ?thesis by (simp add: saturated_count_def word_less_nat_alt unat_of_nat)
next
  case False
  have "\<not> (- 1 :: 32 word) < w" using word_n1_ge [of w] by (simp add: not_less)
  moreover have "unat w < 2 ^ 32" using unsigned_less [of w] by simp
  ultimately show ?thesis using False by (simp add: saturated_count_def)
qed

lemma has_maintain: "permissions_has p q Maintain \<longleftrightarrow> permissions_role p q = Some Maintain"
proof -
  have "Maintain \<le> r \<longleftrightarrow> r = Maintain" for r by (cases r) (simp_all add: less_eq_review_role_def)
  then show ?thesis by (simp add: permissions_has_def split: option.splits)
qed

lemma check_publishable_Inr:
  assumes "review_ok r"
  shows "(\<exists>pb. check_publishable r index ref p who = Inr pb) \<longleftrightarrow>
    ap_repository p = re_repository r \<and> re_epoch r \<le> ap_epoch p
    \<and> permissions_role p who = Some Maintain
    \<and> re_state r = RequestOpen \<and> re_revisions r \<noteq> []
    \<and> rv_index (last (re_revisions r)) = index \<and> rv_revision (last (re_revisions r)) = ref
    \<and> unat (ap_required p) \<le> card {q \<in> set (rv_approvals (last (re_revisions r))).
          q \<noteq> the (re_author r) \<and> permissions_has p q Reviewer}"
proof (cases "re_state r = RequestOpen \<and> re_revisions r \<noteq> []")
  case True
  let ?rv = "last (re_revisions r)"
  have "open_revision r = Inr ?rv" using True by (simp add: open_revision_Inr)
  then show ?thesis
    using True filter_approvals [OF assms, of p]
    by (auto simp: check_publishable_def check_permissions_def has_maintain saturated_count_less Let_def not_less)
next
  case False
  then show ?thesis by (auto simp: check_publishable_def result_simps)
qed

lemma review_apply_new:
  assumes "co_operation c \<notin> co_operation ` set (re_history r)"
  shows "review_apply r c p = Inr a \<longleftrightarrow>
     (\<exists>r'. admit r c p = Inr r' \<and> a = \<lparr>ad_review = r', ad_replayed = False\<rparr>)"
proof -
  have "find (\<lambda>d. co_operation d = co_operation c) (re_history r) = None"
    using assms by (simp add: find_operation_None)
  then show ?thesis unfolding review_apply_cases by (auto simp: admit_def check_command_def result_simps)
qed

text \<open>C25: A new Publish command is accepted exactly when the permissions are for this repository and not
  older than those already applied, its actor is a maintainer now, the request is open at exactly the
  revision and index it names, and enough distinct principals other than the author approved that
  revision and are reviewers now. It then makes the request Published.\<close>

theorem publish_exact:
  assumes "reachable r" "co_action c = Publish index ref" "co_operation c \<notin> co_operation ` set (re_history r)"
  shows "(\<exists>r'. review_apply r c p = Inr \<lparr>ad_review = r', ad_replayed = False\<rparr> \<and> re_state r' = Published) \<longleftrightarrow>
    ap_repository p = re_repository r \<and> re_epoch r \<le> ap_epoch p
    \<and> permissions_role p (co_actor c) = Some Maintain
    \<and> re_state r = RequestOpen \<and> re_revisions r \<noteq> []
    \<and> rv_index (last (re_revisions r)) = index \<and> rv_revision (last (re_revisions r)) = ref
    \<and> unat (ap_required p) \<le> card {q \<in> set (rv_approvals (last (re_revisions r))).
          q \<noteq> the (re_author r) \<and> permissions_has p q Reviewer}"
    (is "_ \<longleftrightarrow> ?ok")
proof -
  note iff = check_publishable_Inr [OF reachable_ok [OF assms(1)], of index ref p "co_actor c"]
  have "(\<exists>r'. admit r c p = Inr r' \<and> re_state r' = Published) \<longleftrightarrow>
      (\<exists>pb. check_publishable r index ref p (co_actor c) = Inr pb)" (is "?l \<longleftrightarrow> ?r")
  proof
    assume ?r
    then have ?ok using iff by simp
    then show ?l using \<open>?r\<close> assms(2)
      by (auto simp: admit_def check_command_def transition_def act_def result_simps)
  qed (use assms(2) in \<open>auto simp: admit_def check_command_def result_simps Let_def split: if_splits\<close>)
  then show ?thesis using iff by (simp add: review_apply_new [OF assms(3)])
qed

text \<open>A new Approve command is accepted exactly when the permissions are current, its actor is not the
  author, is a reviewer now and has not approved, and the request is open at exactly the revision and
  index it names. It adds that one approval and changes no other revision.\<close>

theorem approve_exact:
  assumes "reachable r" "co_action c = Approve index ref" "co_operation c \<notin> co_operation ` set (re_history r)"
  shows "(\<exists>r'. review_apply r c p = Inr \<lparr>ad_review = r', ad_replayed = False\<rparr>
      \<and> re_revisions r' = approve_last (co_actor c) (re_revisions r)) \<longleftrightarrow>
    ap_repository p = re_repository r \<and> re_epoch r \<le> ap_epoch p
    \<and> permissions_has p (co_actor c) Reviewer \<and> re_author r \<noteq> Some (co_actor c)
    \<and> re_state r = RequestOpen \<and> re_revisions r \<noteq> []
    \<and> rv_index (last (re_revisions r)) = index \<and> rv_revision (last (re_revisions r)) = ref
    \<and> co_actor c \<notin> set (rv_approvals (last (re_revisions r)))"
    (is "_ \<longleftrightarrow> ?ok")
proof -
  have "permissions_has p (co_actor c) Reviewer \<Longrightarrow> permissions_role p (co_actor c) \<noteq> None"
    by (auto simp: permissions_has_def split: option.splits)
  then have "(\<exists>r'. admit r c p = Inr r' \<and> re_revisions r' = approve_last (co_actor c) (re_revisions r)) \<longleftrightarrow> ?ok"
    using assms(2) by (auto simp: admit_def check_command_def transition_def act_def result_simps Let_def split: if_splits)
  then show ?thesis by (simp add: review_apply_new [OF assms(3)])
qed

lemma act_closed: "re_state r \<noteq> RequestOpen \<Longrightarrow> re_author r \<noteq> None \<Longrightarrow> act r who a = Inr r' \<Longrightarrow> False"
  by (cases a) (auto simp: act_def result_simps)

text \<open>Published and Closed are terminal: once a request has left Open, the only command it accepts is the
  exact retry of one it recorded, which changes nothing.\<close>

theorem terminal_is_final:
  assumes "reachable r" "re_state r \<noteq> RequestOpen" "review_apply r c p = Inr a"
  shows "a = \<lparr>ad_review = r, ad_replayed = True\<rparr> \<and> c \<in> set (re_history r)"
proof -
  have author: "re_author r \<noteq> None" using reachable_ok [OF assms(1)] assms(2) by (auto simp: review_ok_def)
  show ?thesis
  proof (cases "co_operation c \<in> co_operation ` set (re_history r)")
    case True
    then obtain d where d: "find (\<lambda>d. co_operation d = co_operation c) (re_history r) = Some d"
      using find_operation_None [of "co_operation c" "re_history r"] by fastforce
    then have "d \<in> set (re_history r)" by (auto simp: find_Some_iff)
    then show ?thesis using assms(3) d by (simp add: review_apply_cases)
  next
    case False
    then show ?thesis
      using assms(3) act_closed [OF assms(2) author]
      by (auto simp: review_apply_new [OF False] admit_def transition_def result_simps)
  qed
qed

lemma step_history: "review_step r r' \<Longrightarrow> \<exists>cs. re_history r' = re_history r @ cs"
  by (erule review_stepE)
    (auto simp: review_apply_cases published_by_world_def dest!: log.admit_rep log.rep_log split: option.splits)

lemma step_repository: "review_step r r' \<Longrightarrow> re_repository r' = re_repository r"
  by (erule review_stepE)
    (auto simp: review_apply_cases published_by_world_def replay_def dest!: log.admit_rep transition_frame(3) split: option.splits)

lemma steps_history:
  "review_step\<^sup>*\<^sup>* r r' \<Longrightarrow> (\<exists>cs. re_history r' = re_history r @ cs) \<and> re_repository r' = re_repository r"
  by (induction rule: rtranclp_induct) (auto dest: step_history step_repository)

lemma steps_reachable: "review_step\<^sup>*\<^sup>* r r' \<Longrightarrow> reachable r \<Longrightarrow> reachable r'"
  by (induction rule: rtranclp_induct) (auto intro: reachable.step)

lemma find_recorded:
  assumes "distinct (map co_operation cs)" "c \<in> set cs"
  shows "find (\<lambda>d. co_operation d = co_operation c) cs = Some c"
  using assms by (induction cs) (auto intro: rev_image_eqI)

lemma accepted_recorded:
  "review_apply r c p = Inr a \<Longrightarrow> c \<in> set (re_history (ad_review a))"
  by (auto simp: review_apply_cases find_Some_iff split: option.splits dest!: log.admit_rep log.rep_log)

text \<open>C34: A command, once accepted, is applied once: however the request has moved on since, a retry of it is
  answered as replayed without changing the state, whatever the caller's permissions are now, and its
  operation ID is refused with any other input.\<close>

theorem retry_idempotent:
  assumes "reachable r" "review_apply r c p = Inr a" "review_step\<^sup>*\<^sup>* (ad_review a) later"
    "ap_repository now = re_repository r"
  shows "review_apply later c now = Inr \<lparr>ad_review = later, ad_replayed = True\<rparr>
    \<and> (\<forall>d. d \<noteq> c \<longrightarrow> co_operation d = co_operation c \<longrightarrow>
          review_apply later d now = Inl (OperationIdReused (co_operation c)))"
proof -
  have step: "review_step r (ad_review a)" by (rule review_step.applied [OF assms(2)])
  then have all: "review_step\<^sup>*\<^sup>* r later" using assms(3) by (rule converse_rtranclp_into_rtranclp)
  have "c \<in> set (re_history later)" using steps_history [OF assms(3)] accepted_recorded [OF assms(2)] by auto
  moreover have "distinct (map co_operation (re_history later))"
    using reachable_ok [OF steps_reachable [OF all assms(1)]] by (simp add: review_ok_def)
  ultimately have "find (\<lambda>d. co_operation d = co_operation c) (re_history later) = Some c" by (intro find_recorded)
  moreover have "ap_repository now = re_repository later" using steps_history [OF all] assms(4) by simp
  ultimately show ?thesis by (simp add: review_apply_def)
qed

text \<open>The commands a request accepted while it was served, each with the permissions it was accepted under.\<close>

fun accepted :: "review \<Rightarrow> (command \<times> applied_permissions) list \<Rightarrow> (command \<times> applied_permissions) list" where
  "accepted r [] = []"
| "accepted r ((c, p) # events) =
     (case review_apply r c p of
       Inl e \<Rightarrow> accepted r events
     | Inr a \<Rightarrow> if ad_replayed a then accepted r events else (c, p) # accepted (ad_review a) events)"

lemma serve_all_admits: "replay_all admit r (accepted r events) = Inr (serve_all r events)"
proof (induction events arbitrary: r)
  case (Cons x events)
  obtain c p where x: "x = (c, p)" by (cases x)
  show ?case
  proof (cases "review_apply r c p")
    case (Inr a)
    then consider "ad_review a = r" "ad_replayed a" | "admit r c p = Inr (ad_review a)" "\<not> ad_replayed a"
      by (auto simp: review_apply_cases split: option.splits)
    then show ?thesis using Cons.IH x Inr by cases simp_all
  qed (use Cons.IH x in simp)
qed simp

text \<open>C33: Replaying the accepted commands, each with the epoch it was accepted under, rebuilds the request exactly, whatever mix of
  accepted, retried and refused commands it was served: these commands are its recorded history, their epochs never decrease, and
  the epoch the request keeps, below which it refuses permissions, is the last of them.\<close>

theorem history_rebuilds:
  fixes repository request events
  defines "r0 \<equiv> review_new repository request"
  defines "r \<equiv> serve_all r0 events"
    and "epochs \<equiv> map (\<lambda>(c, p). ap_epoch p) (accepted r0 events)"
  shows "replay_all replay r0 (map (\<lambda>(c, p). (c, ap_epoch p)) (accepted r0 events)) = Inr r
    \<and> re_history r = map fst (accepted r0 events)
    \<and> sorted epochs \<and> re_epoch r = (if epochs = [] then 0 else last epochs)"
  using log.log_rebuilds [OF serve_all_admits [of r0 events]] unfolding r_def epochs_def r0_def
  by (auto simp: review_new_def)

lemma step_revisions:
  assumes "review_step r r'"
  shows "(\<exists>more. map rv_revision (re_revisions r') = map rv_revision (re_revisions r) @ more)
    \<and> (\<forall>i < length (re_revisions r'). length (re_revisions r) \<le> i \<longrightarrow> rv_approvals (re_revisions r' ! i) = [])
    \<and> (\<forall>i < length (re_revisions r). \<exists>added. rv_approvals (re_revisions r' ! i) = rv_approvals (re_revisions r ! i) @ added
        \<and> (Suc i < length (re_revisions r) \<longrightarrow> added = []))"
    (is "?P (re_revisions r')")
  using assms
proof (rule review_stepE)
  have same: "?P (re_revisions r)" by simp
  have push: "?P (re_revisions r @ [x])" if "rv_approvals x = []" for x
    using that by (simp add: nth_append)
  have approve: "?P (approve_last who (re_revisions r))" if ne: "re_revisions r \<noteq> []" for who
  proof -
    have "\<exists>added. rv_approvals (approve_last who (re_revisions r) ! i) = rv_approvals (re_revisions r ! i) @ added
        \<and> (Suc i < length (re_revisions r) \<longrightarrow> added = [])" if "i < length (re_revisions r)" for i
    proof (cases "Suc i = length (re_revisions r)")
      case True
      then have "i = length (re_revisions r) - 1" by simp
      then show ?thesis using True ne by (simp add: approve_last_def nth_append last_conv_nth)
    next
      case False
      then have "i < length (re_revisions r) - 1" using that by simp
      then show ?thesis by (simp add: approve_last_def nth_append nth_butlast)
    qed
    moreover have "length (approve_last who (re_revisions r)) = length (re_revisions r)"
      using arg_cong [OF approve_last_facts(2) [OF ne], of length] by simp
    ultimately show ?thesis using approve_last_facts(2) [OF ne] by simp
  qed
  fix c p a
  assume a: "r' = ad_review a" "review_apply r c p = Inr a"
  then consider "r' = r" | "admit r c p = Inr r'" by (auto simp: review_apply_cases split: option.splits)
  then show ?thesis
  proof cases
    case 2
    then obtain n where n: "act r (co_actor c) (co_action c) = Inr n" "re_revisions r' = re_revisions n"
      by (auto simp: admit_def transition_def result_simps)
    have "re_revisions n = re_revisions r \<or> (\<exists>x. rv_approvals x = [] \<and> re_revisions n = re_revisions r @ [x])
        \<or> (\<exists>who. re_revisions r \<noteq> [] \<and> re_revisions n = approve_last who (re_revisions r))"
      using n(1) by (cases "co_action c") (auto simp: act_def result_simps push_revision_def Let_def split: if_splits option.splits)
    then show ?thesis
    proof (elim disjE exE conjE)
      assume e: "re_revisions n = re_revisions r"
      show ?thesis unfolding n(2) e by (rule same)
    next
      fix x assume "rv_approvals x = []" and e: "re_revisions n = re_revisions r @ [x]"
      then show ?thesis unfolding n(2) e by (intro push)
    next
      fix who assume ne: "re_revisions r \<noteq> []" and e: "re_revisions n = approve_last who (re_revisions r)"
      show ?thesis unfolding n(2) e by (rule approve [OF ne])
    qed
  qed (use same in simp)
qed (simp add: published_by_world_def)

text \<open>C35: What has been submitted never changes: each step keeps every revision, in place, adding only at the
  end; approvals are only added, and only to the revision that was current, while a revision that is new has none,
  so an approval never passes from one revision to another.\<close>

theorem revisions_append_only:
  assumes "review_step r r'"
  shows "(\<exists>more. map rv_revision (re_revisions r') = map rv_revision (re_revisions r) @ more)
    \<and> (\<forall>i < length (re_revisions r'). length (re_revisions r) \<le> i \<longrightarrow> rv_approvals (re_revisions r' ! i) = [])
    \<and> (\<forall>i. Suc i < length (re_revisions r) \<longrightarrow> rv_approvals (re_revisions r' ! i) = rv_approvals (re_revisions r ! i))
    \<and> (re_revisions r \<noteq> [] \<longrightarrow> (\<exists>added. rv_approvals (re_revisions r' ! (length (re_revisions r) - 1))
          = rv_approvals (last (re_revisions r)) @ added))"
proof -
  obtain more where m: "map rv_revision (re_revisions r') = map rv_revision (re_revisions r) @ more"
      "\<forall>i < length (re_revisions r'). length (re_revisions r) \<le> i \<longrightarrow> rv_approvals (re_revisions r' ! i) = []"
      "\<And>i. i < length (re_revisions r) \<Longrightarrow> \<exists>added. rv_approvals (re_revisions r' ! i) = rv_approvals (re_revisions r ! i) @ added
        \<and> (Suc i < length (re_revisions r) \<longrightarrow> added = [])"
    using step_revisions [OF assms] by blast
  have "\<exists>added. rv_approvals (re_revisions r' ! (length (re_revisions r) - 1)) = rv_approvals (last (re_revisions r)) @ added"
    if "re_revisions r \<noteq> []"
    using m(3) [of "length (re_revisions r) - 1"] that by (auto simp: last_conv_nth)
  moreover have "rv_approvals (re_revisions r' ! i) = rv_approvals (re_revisions r ! i)"
    if "Suc i < length (re_revisions r)" for i
    using m(3) [of i] that by auto
  ultimately show ?thesis using m(1,2) by blast
qed

section \<open>A request on concrete inputs\<close>

definition demo_permissions :: applied_permissions where
  "demo_permissions = \<lparr>ap_repository = ''repo'', ap_epoch = 1, ap_visibility = Private,
     ap_roles = [(''ann'', Read), (''bob'', Reviewer), (''cat'', Maintain)], ap_required = 1\<rparr>"

definition demo_ref :: revision_ref where
  "demo_ref = revision_ref_new 0 ''c'' ''t'' None"

definition demo_command :: "string \<Rightarrow> principal \<Rightarrow> action \<Rightarrow> command" where
  "demo_command i who action = \<lparr>co_operation = i, co_actor = who, co_action = action\<rparr>"

definition demo_opened :: review where
  "demo_opened = serve_all (review_new ''repo'' ''req'') [(demo_command ''1'' ''ann'' (Open demo_ref), demo_permissions)]"

definition demo_approved :: review where
  "demo_approved = serve_all demo_opened [(demo_command ''2'' ''bob'' (Approve 1 demo_ref), demo_permissions)]"

definition demo_published :: review where
  "demo_published = serve_all demo_approved [(demo_command ''3'' ''cat'' (Publish 1 demo_ref), demo_permissions)]"

lemma serve_all_reachable: "reachable r \<Longrightarrow> reachable (serve_all r events)"
proof (induction events arbitrary: r)
  case (Cons x events)
  then show ?case
    by (cases x; cases "review_apply r (fst x) (snd x)") (auto intro: reachable.step review_step.applied)
qed simp

lemma demo_reachable: "reachable demo_opened" "reachable demo_approved" "reachable demo_published"
  unfolding demo_opened_def demo_approved_def demo_published_def
  by (intro serve_all_reachable reachable.new)+

lemmas demo_simps =
  demo_opened_def demo_approved_def demo_published_def demo_command_def demo_ref_def demo_permissions_def
  revision_ref_new_def review_new_def review_apply_def check_command_def check_permissions_def
  permissions_role_def permissions_has_def transition_def act_def push_revision_def open_revision_def
  last_option_def check_publishable_def saturated_count_def approve_last_def less_eq_review_role_def

lemma reachable_invariant_witness: "distinct (map co_operation (re_history demo_published))"
  using reachable_invariant [OF demo_reachable(3)] by blast

lemma publish_exact_witness:
  "permissions_role demo_permissions ''cat'' = Some Maintain
   \<and> unat (ap_required demo_permissions) \<le> card {q \<in> set (rv_approvals (last (re_revisions demo_approved))).
        q \<noteq> the (re_author demo_approved) \<and> permissions_has demo_permissions q Reviewer}"
proof -
  let ?c = "demo_command ''3'' ''cat'' (Publish 1 demo_ref)"
  have "co_action ?c = Publish 1 demo_ref" by (simp add: demo_command_def)
  moreover have "co_operation ?c \<notin> co_operation ` set (re_history demo_approved)" by (simp add: demo_simps)
  moreover have "review_apply demo_approved ?c demo_permissions
      = Inr \<lparr>ad_review = demo_published, ad_replayed = False\<rparr> \<and> re_state demo_published = Published" by (simp add: demo_simps)
  moreover have "co_actor ?c = ''cat''" by (simp add: demo_command_def)
  ultimately show ?thesis
    using publish_exact [OF demo_reachable(2), of ?c 1 demo_ref demo_permissions] by fastforce
qed

lemma approve_exact_witness: "permissions_has demo_permissions ''bob'' Reviewer"
proof -
  let ?c = "demo_command ''2'' ''bob'' (Approve 1 demo_ref)"
  have "co_action ?c = Approve 1 demo_ref" by (simp add: demo_command_def)
  moreover have "co_operation ?c \<notin> co_operation ` set (re_history demo_opened)" by (simp add: demo_simps)
  moreover have "review_apply demo_opened ?c demo_permissions
      = Inr \<lparr>ad_review = demo_approved, ad_replayed = False\<rparr>
      \<and> re_revisions demo_approved = approve_last (co_actor ?c) (re_revisions demo_opened)" by (simp add: demo_simps)
  moreover have "co_actor ?c = ''bob''" by (simp add: demo_command_def)
  ultimately show ?thesis
    using approve_exact [OF demo_reachable(1), of ?c 1 demo_ref demo_permissions] by fastforce
qed

lemma terminal_is_final_witness:
  "demo_command ''1'' ''ann'' (Open demo_ref) \<in> set (re_history demo_published)"
proof -
  have "re_state demo_published \<noteq> RequestOpen" by (simp add: demo_simps)
  moreover have "review_apply demo_published (demo_command ''1'' ''ann'' (Open demo_ref)) demo_permissions
      = Inr \<lparr>ad_review = demo_published, ad_replayed = True\<rparr>" by (simp add: demo_simps)
  ultimately show ?thesis using terminal_is_final [OF demo_reachable(3)] by blast
qed

lemma retry_idempotent_witness:
  "review_apply demo_approved (demo_command ''2'' ''bob'' (Approve 1 demo_ref)) demo_permissions
   = Inr \<lparr>ad_review = demo_approved, ad_replayed = True\<rparr>"
proof -
  have "review_apply demo_opened (demo_command ''2'' ''bob'' (Approve 1 demo_ref)) demo_permissions
      = Inr \<lparr>ad_review = demo_approved, ad_replayed = False\<rparr>" by (simp add: demo_simps)
  from retry_idempotent [OF demo_reachable(1) this, of demo_approved demo_permissions]
  show ?thesis by (simp add: demo_simps)
qed

text \<open>A revision after an approval.\<close>

lemma revisions_append_only_witness:
  "\<exists>r'. review_apply demo_approved (demo_command ''4'' ''ann'' (Revise 1 (revision_ref_new 0 ''d'' ''t'' None))) demo_permissions
      = Inr \<lparr>ad_review = r', ad_replayed = False\<rparr>
    \<and> length (re_revisions r') = 2 \<and> (\<exists>added. rv_approvals (re_revisions r' ! 0) = [''bob''] @ added) \<and> rv_approvals (re_revisions r' ! 1) = []"
proof -
  obtain r' where run: "review_apply demo_approved (demo_command ''4'' ''ann'' (Revise 1 (revision_ref_new 0 ''d'' ''t'' None))) demo_permissions
      = Inr \<lparr>ad_review = r', ad_replayed = False\<rparr>" and two: "length (re_revisions r') = 2"
    by (simp add: demo_simps)
  have old: "length (re_revisions demo_approved) = 1" "rv_approvals (last (re_revisions demo_approved)) = [''bob'']" by (simp_all add: demo_simps)
  note p = revisions_append_only [OF review_step.applied [OF run]]
  have "rv_approvals (re_revisions r' ! 1) = []" using p two old(1) by simp
  moreover have "re_revisions demo_approved \<noteq> []" using old(1) by auto
  ultimately show ?thesis using p run two old by auto
qed

end
