(* ===== verification/Identity.thy ===== *)
theory Identity
  imports Review
begin

text \<open>
  Access tokens and the decision for one request (\<open>crates/javelin-identity/src/token.rs\<close>,
  \<open>access.rs\<close>, \<open>lib.rs\<close>): the claims, the trusted keys, \<open>issue\<close> and \<open>verify\<close>, the applied permissions
  and revocations of a node, and \<open>authorize\<close>. Base64, JSON and Ed25519 are third-party code: they are the
  fields of \<open>crypto\<close>, and \<open>crypto_ok\<close> is what their documentation promises. The theorems give when an
  issued token verifies, exactly what a grant implies, that revocations hold, and which permissions
  are in force.
\<close>

section \<open>Tokens\<close>

datatype scope =
  ReadScope | LayerWrite | PublishScope | ReviewWrite | ReviewApprove | RepoCreate | Import | CheckReportScope

record claims =
  cl_sub :: string
  cl_dev :: string
  cl_repo :: string
  cl_scopes :: "scope list"
  cl_layer :: "string option"
  cl_checks :: "string list"
  cl_iat :: "64 word"
  cl_exp :: "64 word"
  cl_jti :: string

record header =
  hd_alg :: string
  hd_kid :: string

text \<open>The base64, JSON and signature code the tokens rest on.\<close>

record ('sk, 'vk, 'sig) crypto =
  b64_encode :: "bytes \<Rightarrow> string"
  b64_decode :: "string \<Rightarrow> bytes option"
  header_to_json :: "header \<Rightarrow> bytes option"
  header_from_json :: "bytes \<Rightarrow> header option"
  claims_to_json :: "claims \<Rightarrow> bytes option"
  claims_from_json :: "bytes \<Rightarrow> claims option"
  sign_bytes :: "'sk \<Rightarrow> bytes \<Rightarrow> 'sig"
  sig_to_bytes :: "'sig \<Rightarrow> bytes"
  sig_from_slice :: "bytes \<Rightarrow> 'sig option"
  verify_strict :: "'vk \<Rightarrow> bytes \<Rightarrow> 'sig \<Rightarrow> bool"
  public_key :: "'sk \<Rightarrow> 'vk"

definition crypto_ok :: "('sk, 'vk, 'sig) crypto \<Rightarrow> bool" where
  "crypto_ok c \<longleftrightarrow>
     (\<forall>bs. b64_decode c (b64_encode c bs) = Some bs \<and> CHR ''.'' \<notin> set (b64_encode c bs))
     \<and> (\<forall>h bs. header_to_json c h = Some bs \<longrightarrow> header_from_json c bs = Some h)
     \<and> (\<forall>cl bs. claims_to_json c cl = Some bs \<longrightarrow> claims_from_json c bs = Some cl)
     \<and> (\<forall>s. sig_from_slice c (sig_to_bytes c s) = Some s)
     \<and> (\<forall>sk m. verify_strict c (public_key c sk) m (sign_bytes c sk m))"

definition MAX_LIFETIME :: "64 word" where "MAX_LIFETIME = 3600"
definition MAX_TOKEN_BYTES :: nat where "MAX_TOKEN_BYTES = 4096"
definition CLOCK_SKEW :: "64 word" where "CLOCK_SKEW = 60"
definition ALG :: string where "ALG = ''EdDSA''"

definition identity_opaque :: "string \<Rightarrow> bool" where
  "identity_opaque value \<longleftrightarrow>
     value \<noteq> [] \<and> length value \<le> 128
     \<and> list_all (\<lambda>b. is_alnum b \<or> b \<in> {CHR ''-'', CHR ''_'', CHR ''.'', CHR '':''}) value"

datatype token_error =
  Malformed string | UnknownKey | BadSignature | Expired | NotYetValid | LifetimeTooLong

fun token_reason :: "token_error \<Rightarrow> string" where
  "token_reason (Malformed reason) = reason"
| "token_reason UnknownKey = ''token key ID is not trusted''"
| "token_reason BadSignature = ''token signature is invalid''"
| "token_reason Expired = ''token has expired''"
| "token_reason NotYetValid = ''token is not valid yet''"
| "token_reason LifetimeTooLong = ''token lifetime exceeds one hour''"

type_synonym 'vk key_set = "(string, 'vk) omap"

definition trust :: "string \<Rightarrow> 'vk \<Rightarrow> 'vk key_set \<Rightarrow> token_error + 'vk key_set" where
  "trust kid key keys =
     (if \<not> identity_opaque kid then Inl (Malformed ''key ID is not an opaque ID'')
      else Inr (omap_insert kid key keys))"

definition untrust :: "string \<Rightarrow> 'vk key_set \<Rightarrow> bool \<times> 'vk key_set" where
  "untrust kid keys = (omap_has keys kid, omap_remove kid keys)"

record 'sk issuer =
  is_kid :: string
  is_key :: 'sk

definition issuer_new :: "string \<Rightarrow> 'sk \<Rightarrow> token_error + 'sk issuer" where
  "issuer_new kid key =
     (if \<not> identity_opaque kid then Inl (Malformed ''key ID is not an opaque ID'')
      else Inr \<lparr>is_kid = kid, is_key = key\<rparr>)"

definition issue :: "('sk, 'vk, 'sig) crypto \<Rightarrow> 'sk issuer \<Rightarrow> claims \<Rightarrow> string option" where
  "issue c self claims =
     (case header_to_json c \<lparr>hd_alg = ALG, hd_kid = is_kid self\<rparr> of None \<Rightarrow> None | Some h \<Rightarrow>
     (case claims_to_json c claims of None \<Rightarrow> None | Some b \<Rightarrow>
       let signing_input = b64_encode c h @ ''.'' @ b64_encode c b;
           signature = sign_bytes c (is_key self) signing_input
       in Some (signing_input @ ''.'' @ b64_encode c (sig_to_bytes c signature))))"

text \<open>\<open>now + CLOCK_SKEW\<close> is 64-bit: it wraps in a release build, within a minute of the last second.\<close>

definition check_claims :: "64 word \<Rightarrow> claims \<Rightarrow> token_error + claims" where
  "check_claims now claims =
     (if \<not> identity_opaque (cl_sub claims) \<or> \<not> identity_opaque (cl_dev claims) \<or> \<not> identity_opaque (cl_jti claims)
      then Inl (Malformed ''token identifiers are not opaque IDs'')
      else if cl_exp claims \<le> cl_iat claims then Inl (Malformed ''token lifetime is empty'')
      else if cl_exp claims - cl_iat claims > MAX_LIFETIME then Inl LifetimeTooLong
      else if cl_exp claims \<le> now then Inl Expired
      else if cl_iat claims > now + CLOCK_SKEW then Inl NotYetValid
      else Inr claims)"

definition token_verify ::
  "('sk, 'vk, 'sig) crypto \<Rightarrow> 'vk key_set \<Rightarrow> string \<Rightarrow> 64 word \<Rightarrow> token_error + claims" where
  "token_verify c keys token now =
     (if length token > MAX_TOKEN_BYTES then Inl (Malformed ''token is too large'')
      else
        (case split_on (CHR ''.'') token of
          [head, body, signature] \<Rightarrow>
            ebind (ok_or (Malformed ''token header is not valid'')
              (Option.bind (b64_decode c head) (header_from_json c))) (\<lambda>header.
            if hd_alg header \<noteq> ALG then Inl (Malformed ''token algorithm is not EdDSA'')
            else
              ebind (ok_or UnknownKey (map_of keys (hd_kid header))) (\<lambda>key.
              ebind (ok_or BadSignature (Option.bind (b64_decode c signature) (sig_from_slice c))) (\<lambda>signature.
              if \<not> verify_strict c key (head @ ''.'' @ body) signature then Inl BadSignature
              else
                ebind (ok_or (Malformed ''token claims are not valid'')
                  (Option.bind (b64_decode c body) (claims_from_json c))) (check_claims now))))
        | _ \<Rightarrow> Inl (Malformed ''token is not three segments'')))"

section \<open>Access\<close>

record need =
  nd_scope :: scope
  nd_layer :: "string option"

record grant =
  gr_principal :: "string option"
  gr_role :: review_role
  gr_checks :: "string list"

datatype access_refusal = Unauthorized string | Forbidden string | StaleAccess "64 word"

definition access_code :: "access_refusal \<Rightarrow> string" where
  "access_code self = (case self of Unauthorized r \<Rightarrow> ''unauthorized'' | Forbidden r \<Rightarrow> ''forbidden''
     | StaleAccess seen \<Rightarrow> ''stale_permissions'')"

datatype revocation = RevokeToken string | RevokeDevice string

fun role_allows :: "review_role \<Rightarrow> scope \<Rightarrow> bool" where
  "role_allows role ReadScope = True"
| "role_allows role LayerWrite = True"
| "role_allows role ReviewWrite = True"
| "role_allows role CheckReportScope = True"
| "role_allows role ReviewApprove \<longleftrightarrow> role \<ge> Reviewer"
| "role_allows role PublishScope \<longleftrightarrow> role \<ge> Maintain"
| "role_allows role Import \<longleftrightarrow> role \<ge> Maintain"
| "role_allows role RepoCreate = False"

record 'vk access =
  ac_repository :: string
  ac_keys :: "'vk key_set"
  ac_permissions :: "applied_permissions option"
  ac_revoked_tokens :: "string list"
  ac_revoked_devices :: "string list"

definition access_new :: "string \<Rightarrow> 'vk key_set \<Rightarrow> 'vk access" where
  "access_new repository keys =
     \<lparr>ac_repository = repository, ac_keys = keys, ac_permissions = None, ac_revoked_tokens = [], ac_revoked_devices = []\<rparr>"

definition access_epoch :: "'vk access \<Rightarrow> 64 word option" where
  "access_epoch self = map_option ap_epoch (ac_permissions self)"

definition access_apply :: "'vk access \<Rightarrow> applied_permissions \<Rightarrow> access_refusal + 'vk access" where
  "access_apply self next' =
     (if ap_repository next' \<noteq> ac_repository self then Inl (Forbidden ''permissions are for another repository'')
      else
        (case ac_permissions self of
          Some current \<Rightarrow>
            if ap_epoch next' < ap_epoch current then Inl (StaleAccess (ap_epoch current))
            else if ap_epoch next' = ap_epoch current
            then (if current = next' then Inr self else Inl (StaleAccess (ap_epoch current)))
            else Inr (self\<lparr>ac_permissions := Some next'\<rparr>)
        | None \<Rightarrow> Inr (self\<lparr>ac_permissions := Some next'\<rparr>)))"

definition access_revoke :: "'vk access \<Rightarrow> revocation \<Rightarrow> 'vk access" where
  "access_revoke self target' =
     (case target' of
       RevokeToken jti \<Rightarrow> self\<lparr>ac_revoked_tokens := insort_insert jti (ac_revoked_tokens self)\<rparr>
     | RevokeDevice device \<Rightarrow> self\<lparr>ac_revoked_devices := insort_insert device (ac_revoked_devices self)\<rparr>)"

definition access_anonymous :: "'vk access \<Rightarrow> need \<Rightarrow> access_refusal + grant" where
  "access_anonymous self need =
     (case ac_permissions self of
       Some permissions \<Rightarrow>
         if ap_visibility permissions = Public \<and> nd_scope need = ReadScope
         then Inr \<lparr>gr_principal = None, gr_role = Read, gr_checks = []\<rparr>
         else Inl (Unauthorized ''a token is required'')
     | None \<Rightarrow> Inl (Unauthorized ''a token is required''))"

definition authorize ::
  "('sk, 'vk, 'sig) crypto \<Rightarrow> 'vk access \<Rightarrow> string option \<Rightarrow> 64 word \<Rightarrow> need \<Rightarrow> access_refusal + grant" where
  "authorize c self token now need =
     (case token of None \<Rightarrow> access_anonymous self need
     | Some token \<Rightarrow>
         ebind (emap_err (\<lambda>e. Unauthorized (token_reason e)) (token_verify c (ac_keys self) token now)) (\<lambda>claims.
         if cl_jti claims \<in> set (ac_revoked_tokens self) \<or> cl_dev claims \<in> set (ac_revoked_devices self)
         then Inl (Unauthorized ''token is revoked'')
         else if cl_repo claims \<noteq> ac_repository self then Inl (Forbidden ''token is for another repository'')
         else
           ebind (ok_or (Forbidden ''no permissions are applied yet'') (ac_permissions self)) (\<lambda>permissions.
           ebind (emap_err (\<lambda>e. Unauthorized ''token subject is not an opaque ID'')
             (opaque_parse ''principal ID'' (cl_sub claims))) (\<lambda>who.
           ebind (ok_or (Forbidden ''caller has no role in this repository'') (permissions_role permissions who)) (\<lambda>role.
           if nd_scope need \<notin> set (cl_scopes claims) then Inl (Forbidden ''token does not carry this scope'')
           else if \<not> role_allows role (nd_scope need) then Inl (Forbidden ''caller's role does not allow this scope'')
           else if cl_layer claims \<noteq> None \<and> nd_layer need \<noteq> cl_layer claims
           then Inl (Forbidden ''token is limited to another Layer'')
           else Inr \<lparr>gr_principal = Some (cl_sub claims), gr_role = role, gr_checks = cl_checks claims\<rparr>)))))"

section \<open>Tokens issued and verified\<close>

lemma identity_opaque_eq: "identity_opaque s = opaque s"
  by (auto simp: identity_opaque_def opaque_def opaque_char_def list_all_iff)

lemma check_claims_Inr [result_simps]:
  "check_claims now cl = Inr cl' \<longleftrightarrow> cl' = cl \<and> opaque (cl_sub cl) \<and> opaque (cl_dev cl) \<and> opaque (cl_jti cl)
     \<and> cl_iat cl < cl_exp cl \<and> cl_exp cl - cl_iat cl \<le> MAX_LIFETIME \<and> now < cl_exp cl \<and> cl_iat cl \<le> now + CLOCK_SKEW"
  by (auto simp: check_claims_def identity_opaque_eq not_le not_less)

lemma token_verify_Inr:
  "token_verify c keys token now = Inr cl \<longleftrightarrow>
   length token \<le> MAX_TOKEN_BYTES \<and>
   (\<exists>head body signature hb h key sb s bb.
      split_on (CHR ''.'') token = [head, body, signature]
      \<and> b64_decode c head = Some hb \<and> header_from_json c hb = Some h \<and> hd_alg h = ALG
      \<and> map_of keys (hd_kid h) = Some key
      \<and> b64_decode c signature = Some sb \<and> sig_from_slice c sb = Some s
      \<and> verify_strict c key (head @ ''.'' @ body) s
      \<and> b64_decode c body = Some bb \<and> claims_from_json c bb = Some cl \<and> check_claims now cl = Inr cl)"
proof (cases "\<exists>head body signature. split_on (CHR ''.'') token = [head, body, signature]")
  case True
  then obtain head body signature where "split_on (CHR ''.'') token = [head, body, signature]" by blast
  then show ?thesis
    by (auto simp: token_verify_def result_simps bind_eq_Some_conv not_less split: if_splits)
next
  case False
  then show ?thesis by (auto simp: token_verify_def split: list.split)
qed

lemma split_three:
  assumes "CHR ''.'' \<notin> set a" "CHR ''.'' \<notin> set b" "CHR ''.'' \<notin> set d"
  shows "split_on (CHR ''.'') (a @ CHR ''.'' # b @ CHR ''.'' # d) = [a, b, d]"
  using assms by (simp add: split_on_append_sep split_on_no_sep)

text \<open>The window of a claim, in whole seconds.\<close>

definition claims_current :: "64 word \<Rightarrow> claims \<Rightarrow> bool" where
  "claims_current now cl \<longleftrightarrow> opaque (cl_sub cl) \<and> opaque (cl_dev cl) \<and> opaque (cl_jti cl)
     \<and> unat (cl_iat cl) < unat (cl_exp cl) \<and> unat (cl_exp cl) \<le> unat (cl_iat cl) + 3600
     \<and> unat (cl_iat cl) \<le> unat now + 60 \<and> unat now < unat (cl_exp cl)"

lemma check_claims_current:
  assumes "unat now + 60 < 2 ^ 64"
  shows "check_claims now cl = Inr cl \<longleftrightarrow> claims_current now cl"
proof -
  have "unat (now + CLOCK_SKEW) = unat now + 60"
    using assms by (simp add: CLOCK_SKEW_def unat_word_ariths)
  moreover have "unat (cl_exp cl - cl_iat cl) = unat (cl_exp cl) - unat (cl_iat cl)" if "cl_iat cl < cl_exp cl"
    using that by (simp add: unat_sub less_imp_le)
  ultimately show ?thesis
    by (auto simp: result_simps claims_current_def MAX_LIFETIME_def word_less_nat_alt word_le_nat_alt)
qed

lemma verify_issued:
  assumes "crypto_ok c" "issue c issuer cl = Some token" "length token \<le> MAX_TOKEN_BYTES"
    "map_of keys (is_kid issuer) = Some (public_key c (is_key issuer))" "unat now + 60 < 2 ^ 64"
  shows "token_verify c keys token now = Inr cl' \<longleftrightarrow> cl' = cl \<and> claims_current now cl"
proof -
  obtain h b where hb: "header_to_json c \<lparr>hd_alg = ALG, hd_kid = is_kid issuer\<rparr> = Some h" "claims_to_json c cl = Some b"
    using assms(2) by (auto simp: issue_def split: option.splits)
  let ?s = "sign_bytes c (is_key issuer) (b64_encode c h @ ''.'' @ b64_encode c b)"
  have token: "token = b64_encode c h @ CHR ''.'' # b64_encode c b @ CHR ''.'' # b64_encode c (sig_to_bytes c ?s)"
    using assms(2) hb by (simp add: issue_def Let_def)
  have dots: "CHR ''.'' \<notin> set (b64_encode c x)" "b64_decode c (b64_encode c x) = Some x" for x
    using assms(1) by (simp_all add: crypto_ok_def)
  have split: "split_on (CHR ''.'') token
      = [b64_encode c h, b64_encode c b, b64_encode c (sig_to_bytes c ?s)]"
    unfolding token by (intro split_three dots)
  have json: "header_from_json c h = Some \<lparr>hd_alg = ALG, hd_kid = is_kid issuer\<rparr>" "claims_from_json c b = Some cl"
      "sig_from_slice c (sig_to_bytes c ?s) = Some ?s"
      "verify_strict c (public_key c (is_key issuer)) (b64_encode c h @ ''.'' @ b64_encode c b) ?s"
    using assms(1) hb unfolding crypto_ok_def by blast+
  have "token_verify c keys token now = Inr cl' \<longleftrightarrow> cl' = cl \<and> check_claims now cl = Inr cl"
    unfolding token_verify_Inr split using assms(3,4) json dots(2) by auto
  then show ?thesis by (simp add: check_claims_current [OF assms(5)])
qed

text \<open>C36: A token that the control plane issues verifies exactly while it should: under any trusted keys that
  hold the issuer's public key under its key ID, it yields its own claims if and only if their
  identifiers are opaque IDs, the lifetime is positive and at most one hour, the token was not issued
  more than a minute ahead of the clock, and it has not expired.\<close>

theorem issued_token_verifies:
  assumes "crypto_ok c" "issue c issuer cl = Some token" "length token \<le> MAX_TOKEN_BYTES"
    "map_of keys (is_kid issuer) = Some (public_key c (is_key issuer))" "unat now + 60 < 2 ^ 64"
  shows "token_verify c keys token now = Inr cl' \<longleftrightarrow> cl' = cl \<and> claims_current now cl"
  by (rule verify_issued [OF assms])

section \<open>What a grant implies\<close>

lemma authorize_token_Inr:
  "authorize c self (Some token) now need = Inr g \<longleftrightarrow>
   (\<exists>cl permissions role.
      token_verify c (ac_keys self) token now = Inr cl
      \<and> cl_jti cl \<notin> set (ac_revoked_tokens self) \<and> cl_dev cl \<notin> set (ac_revoked_devices self)
      \<and> cl_repo cl = ac_repository self \<and> ac_permissions self = Some permissions
      \<and> permissions_role permissions (cl_sub cl) = Some role
      \<and> nd_scope need \<in> set (cl_scopes cl) \<and> role_allows role (nd_scope need)
      \<and> (\<forall>layer. cl_layer cl = Some layer \<longrightarrow> nd_layer need = Some layer)
      \<and> g = \<lparr>gr_principal = Some (cl_sub cl), gr_role = role, gr_checks = cl_checks cl\<rparr>)"
proof -
  have parse: "opaque_parse w (cl_sub cl) = Inr (cl_sub cl)" if "token_verify c (ac_keys self) token now = Inr cl" for cl w
    using that by (auto simp: token_verify_Inr result_simps opaque_parse_def)
  have layer: "(cl_layer cl \<noteq> None \<and> nd_layer need \<noteq> cl_layer cl) \<longleftrightarrow>
      \<not> (\<forall>layer. cl_layer cl = Some layer \<longrightarrow> nd_layer need = Some layer)" for cl
    by auto
  show ?thesis
  proof (cases "token_verify c (ac_keys self) token now")
    case (Inr cl)
    then show ?thesis
      unfolding authorize_def layer by (auto simp: parse [OF Inr] result_simps split: if_splits)
  qed (simp add: authorize_def)
qed

text \<open>An anonymous caller is granted exactly the reading of a public repository.\<close>

theorem anonymous_reads_public:
  "authorize c self None now need = Inr g \<longleftrightarrow>
     (\<exists>permissions. ac_permissions self = Some permissions \<and> ap_visibility permissions = Public)
     \<and> nd_scope need = ReadScope \<and> g = \<lparr>gr_principal = None, gr_role = Read, gr_checks = []\<rparr>"
  by (auto simp: authorize_def access_anonymous_def split: option.splits if_splits)

text \<open>The control plane's pushes to a node, in any order; what is refused changes nothing.\<close>

datatype 'vk push = PushPermissions applied_permissions | PushRevocation revocation | PushTrust string 'vk | PushUntrust string

fun push_step :: "'vk access \<Rightarrow> 'vk push \<Rightarrow> 'vk access" where
  "push_step self (PushPermissions p) = (case access_apply self p of Inl e \<Rightarrow> self | Inr next' \<Rightarrow> next')"
| "push_step self (PushRevocation r) = access_revoke self r"
| "push_step self (PushTrust kid key) = (case trust kid key (ac_keys self) of Inl e \<Rightarrow> self
     | Inr keys \<Rightarrow> self\<lparr>ac_keys := keys\<rparr>)"
| "push_step self (PushUntrust kid) = self\<lparr>ac_keys := snd (untrust kid (ac_keys self))\<rparr>"

definition pushed :: "'vk access \<Rightarrow> 'vk push list \<Rightarrow> 'vk access" where
  "pushed self pushes = foldl push_step self pushes"

text \<open>A view of the state that no step takes back.\<close>

locale ratchet =
  fixes step :: "'s \<Rightarrow> 'i \<Rightarrow> 's"
    and view :: "'s \<Rightarrow> 'v::preorder"
  assumes step_view: "view s \<le> view (step s i)"
begin

lemma steps_view: "view s \<le> view (foldl step s xs)"
  by (induction xs arbitrary: s) (auto intro: order_trans step_view)

text \<open>What one step shows stays.\<close>

lemma shown_stays:
  assumes "i \<in> set xs" "\<And>s. v \<le> view (step s i)"
  shows "v \<le> view (foldl step s xs)"
proof -
  obtain ys zs where "xs = ys @ i # zs" using split_list [OF assms(1)] by blast
  then show ?thesis using steps_view [of "step (foldl step s ys) i" zs] assms(2) order_trans by fastforce
qed

end

definition epoch_rank :: "'vk access \<Rightarrow> nat" where
  "epoch_rank self = (case ac_permissions self of None \<Rightarrow> 0 | Some p \<Rightarrow> Suc (unat (ap_epoch p)))"

definition revoked :: "'vk access \<Rightarrow> revocation set" where
  "revoked self = RevokeToken ` set (ac_revoked_tokens self) \<union> RevokeDevice ` set (ac_revoked_devices self)"

lemma access_apply_cases:
  "access_apply self p = Inr self' \<longleftrightarrow> ap_repository p = ac_repository self \<and>
     (self' = self \<and> ac_permissions self = Some p
      \<or> self' = self\<lparr>ac_permissions := Some p\<rparr> \<and> (\<forall>q. ac_permissions self = Some q \<longrightarrow> ap_epoch q < ap_epoch p))"
  by (auto simp: access_apply_def split: option.splits if_splits)

lemma push_permissions_cases:
  obtains "push_step self (PushPermissions p) = self"
  | "push_step self (PushPermissions p) = self\<lparr>ac_permissions := Some p\<rparr>" "ap_repository p = ac_repository self"
    "\<And>q. ac_permissions self = Some q \<Longrightarrow> ap_epoch q < ap_epoch p"
  by (cases "access_apply self p") (auto simp: access_apply_cases)

lemma push_step_frame: "ac_repository (push_step self push) = ac_repository self"
  by (cases push) (auto simp: access_apply_cases access_revoke_def split: sum.split revocation.split)

lemma pushed_repository [simp]: "ac_repository (pushed self pushes) = ac_repository self"
  unfolding pushed_def by (induction pushes arbitrary: self) (auto simp: push_step_frame)

interpretation epochs: ratchet push_step epoch_rank
proof
  fix self :: "'vk access" and push
  show "epoch_rank self \<le> epoch_rank (push_step self push)"
  proof (cases push)
    case (PushPermissions p)
    show ?thesis unfolding PushPermissions
      by (rule push_permissions_cases [of self p])
        (auto simp: epoch_rank_def word_less_nat_alt less_imp_le split: option.split)
  qed (auto simp: epoch_rank_def access_revoke_def split: sum.split revocation.split)
qed

lemma access_revoke_revoked: "revoked (access_revoke self r) = insert r (revoked self)"
  by (cases r) (auto simp: revoked_def access_revoke_def set_insort_insert)

interpretation revocations: ratchet push_step revoked
proof
  fix self :: "'vk access" and push
  show "revoked self \<subseteq> revoked (push_step self push)"
  proof (cases push)
    case (PushPermissions p)
    show ?thesis unfolding PushPermissions by (rule push_permissions_cases [of self p]) (auto simp: revoked_def)
  next
    case (PushRevocation r)
    then show ?thesis by (auto simp: access_revoke_revoked)
  qed (auto simp: revoked_def split: sum.split)
qed

lemma pushed_revoked: "PushRevocation r \<in> set pushes \<Longrightarrow> r \<in> revoked (pushed self pushes)"
  using revocations.shown_stays [of "PushRevocation r" pushes "{r}" self]
  by (simp add: pushed_def access_revoke_revoked)

lemma pushed_epoch:
  assumes "PushPermissions p \<in> set pushes" "ap_repository p = ac_repository self"
  shows "Suc (unat (ap_epoch p)) \<le> epoch_rank (pushed self pushes)"
proof -
  obtain ys zs where pushes: "pushes = ys @ PushPermissions p # zs" using split_list [OF assms(1)] by blast
  let ?s = "pushed self ys"
  have "Suc (unat (ap_epoch p)) \<le> epoch_rank (push_step ?s (PushPermissions p))"
    using assms(2)
    by (auto simp: epoch_rank_def access_apply_def word_le_nat_alt word_less_nat_alt split: option.split)
  also have "\<dots> \<le> epoch_rank (pushed self pushes)"
    using epochs.steps_view by (simp add: pushes pushed_def)
  finally show ?thesis .
qed

lemma pushed_permissions:
  "ac_permissions (pushed self pushes) = Some p \<Longrightarrow> ac_permissions self = None \<Longrightarrow>
   PushPermissions p \<in> set pushes \<and> ap_repository p = ac_repository self"
proof (induction pushes rule: rev_induct)
  case (snoc push pushes)
  let ?s = "pushed self pushes"
  have step: "pushed self (pushes @ [push]) = push_step ?s push" by (simp add: pushed_def)
  show ?case
  proof (cases push)
    case (PushPermissions q)
    show ?thesis
      by (rule push_permissions_cases [of ?s q]) (use snoc step PushPermissions in auto)
  qed (use snoc step in \<open>auto simp: access_revoke_def split: sum.splits revocation.splits\<close>)
qed (simp add: pushed_def)

text \<open>The token carries the claims under the signature of the key named in its header.\<close>

definition signed_claims :: "('sk, 'vk, 'sig) crypto \<Rightarrow> string \<Rightarrow> 'vk \<Rightarrow> string \<Rightarrow> claims \<Rightarrow> bool" where
  "signed_claims c kid key token cl \<longleftrightarrow>
     (\<exists>head body signature hb sb s bb. split_on (CHR ''.'') token = [head, body, signature]
        \<and> b64_decode c head = Some hb \<and> header_from_json c hb = Some \<lparr>hd_alg = ''EdDSA'', hd_kid = kid\<rparr>
        \<and> b64_decode c signature = Some sb \<and> sig_from_slice c sb = Some s \<and> verify_strict c key (head @ ''.'' @ body) s
        \<and> b64_decode c body = Some bb \<and> claims_from_json c bb = Some cl)"

lemma verified_claims:
  assumes "token_verify c keys token now = Inr cl"
  shows "\<exists>kid key. map_of keys kid = Some key \<and> signed_claims c kid key token cl"
    and "opaque (cl_sub cl) \<and> opaque (cl_dev cl) \<and> opaque (cl_jti cl)
      \<and> cl_iat cl < cl_exp cl \<and> cl_exp cl - cl_iat cl \<le> 3600 \<and> now < cl_exp cl \<and> cl_iat cl \<le> now + 60"
proof -
  obtain head body signature hb h key sb s bb where t: "split_on (CHR ''.'') token = [head, body, signature]"
      "b64_decode c head = Some hb" "header_from_json c hb = Some h" "hd_alg h = ALG" "map_of keys (hd_kid h) = Some key"
      "b64_decode c signature = Some sb" "sig_from_slice c sb = Some s" "verify_strict c key (head @ ''.'' @ body) s"
      "b64_decode c body = Some bb" "claims_from_json c bb = Some cl" "check_claims now cl = Inr cl"
    using assms unfolding token_verify_Inr by blast
  have "h = \<lparr>hd_alg = ''EdDSA'', hd_kid = hd_kid h\<rparr>" using t(4) by (simp add: ALG_def)
  then have "signed_claims c (hd_kid h) key token cl" unfolding signed_claims_def using t by metis
  then show "\<exists>kid key. map_of keys kid = Some key \<and> signed_claims c kid key token cl" using t(5) by blast
  show "opaque (cl_sub cl) \<and> opaque (cl_dev cl) \<and> opaque (cl_jti cl)
      \<and> cl_iat cl < cl_exp cl \<and> cl_exp cl - cl_iat cl \<le> 3600 \<and> now < cl_exp cl \<and> cl_iat cl \<le> now + 60"
    using t(11) by (simp add: check_claims_Inr MAX_LIFETIME_def CLOCK_SKEW_def)
qed

text \<open>A key in force was trusted from the start or by a push.\<close>

lemma map_of_inserted: "map_of (omap_insert k v m) = (map_of m)(k \<mapsto> v)"
  by (induction k v m rule: omap_insert.induct) auto

lemma pushed_keys:
  "map_of (ac_keys (pushed self pushes)) kid = Some key \<Longrightarrow> map_of (ac_keys self) kid = Some key \<or> PushTrust kid key \<in> set pushes"
proof (induction pushes rule: rev_induct)
  case (snoc push pushes)
  let ?s = "pushed self pushes"
  have step: "pushed self (pushes @ [push]) = push_step ?s push" by (simp add: pushed_def)
  show ?case
  proof (cases push)
    case (PushPermissions q)
    show ?thesis
      by (rule push_permissions_cases [of ?s q]) (use snoc step PushPermissions in auto)
  qed (use snoc step in \<open>auto simp: access_revoke_def trust_def untrust_def map_of_inserted map_of_omap_remove split: if_splits revocation.splits\<close>)
qed (simp add: pushed_def)

text \<open>C24: Whenever a node grants a token a request, whatever the control plane pushed to it before: the token's claims are signed,
  strictly verified, by a key in force, which was configured or pushed as trusted; the identifiers are opaque IDs, the lifetime is
  positive and at most one hour, the token was not issued more than a minute ahead of the clock and has not expired; neither the
  token nor its device was ever revoked; the token is for this repository and this Layer and carries the scope; and the caller's
  role, under the pushed permissions of this repository with the greatest epoch, allows the scope.\<close>

theorem grant_sound:
  assumes "authorize c (pushed (access_new repository keys) pushes) (Some token) now need = Inr g"
  shows "\<exists>kid key cl permissions role.
    map_of (ac_keys (pushed (access_new repository keys) pushes)) kid = Some key
    \<and> (map_of keys kid = Some key \<or> PushTrust kid key \<in> set pushes) \<and> signed_claims c kid key token cl
    \<and> opaque (cl_sub cl) \<and> opaque (cl_dev cl) \<and> opaque (cl_jti cl)
    \<and> cl_iat cl < cl_exp cl \<and> cl_exp cl - cl_iat cl \<le> 3600 \<and> now < cl_exp cl \<and> cl_iat cl \<le> now + 60
    \<and> PushRevocation (RevokeToken (cl_jti cl)) \<notin> set pushes \<and> PushRevocation (RevokeDevice (cl_dev cl)) \<notin> set pushes
    \<and> cl_repo cl = repository \<and> nd_scope need \<in> set (cl_scopes cl)
    \<and> (\<forall>layer. cl_layer cl = Some layer \<longrightarrow> nd_layer need = Some layer)
    \<and> PushPermissions permissions \<in> set pushes \<and> ap_repository permissions = repository
    \<and> (\<forall>p. PushPermissions p \<in> set pushes \<longrightarrow> ap_repository p = repository \<longrightarrow> ap_epoch p \<le> ap_epoch permissions)
    \<and> permissions_role permissions (cl_sub cl) = Some role \<and> role_allows role (nd_scope need)
    \<and> g = \<lparr>gr_principal = Some (cl_sub cl), gr_role = role, gr_checks = cl_checks cl\<rparr>"
proof -
  let ?s = "pushed (access_new repository keys) pushes"
  have repo: "ac_repository (access_new repository keys) = repository" by (simp add: access_new_def)
  obtain cl permissions role where h: "token_verify c (ac_keys ?s) token now = Inr cl"
      "RevokeToken (cl_jti cl) \<notin> revoked ?s" "RevokeDevice (cl_dev cl) \<notin> revoked ?s" "cl_repo cl = repository"
      "ac_permissions ?s = Some permissions" "permissions_role permissions (cl_sub cl) = Some role"
      "nd_scope need \<in> set (cl_scopes cl)" "role_allows role (nd_scope need)"
      "\<forall>layer. cl_layer cl = Some layer \<longrightarrow> nd_layer need = Some layer"
      "g = \<lparr>gr_principal = Some (cl_sub cl), gr_role = role, gr_checks = cl_checks cl\<rparr>"
    using assms unfolding authorize_token_Inr by (auto simp: repo revoked_def)
  obtain kid key where key: "map_of (ac_keys ?s) kid = Some key" "signed_claims c kid key token cl"
    using verified_claims(1) [OF h(1)] by blast
  moreover have "map_of keys kid = Some key \<or> PushTrust kid key \<in> set pushes"
    using pushed_keys [OF key(1)] by (simp add: access_new_def)
  moreover have "PushPermissions permissions \<in> set pushes \<and> ap_repository permissions = repository"
    using pushed_permissions [OF h(5)] by (simp add: access_new_def)
  moreover have "ap_epoch p \<le> ap_epoch permissions"
    if "PushPermissions p \<in> set pushes" "ap_repository p = repository" for p
    using pushed_epoch [OF that(1), of "access_new repository keys"] that(2) h(5)
    by (simp add: repo epoch_rank_def word_le_nat_alt)
  ultimately show ?thesis
    using h(2-10) verified_claims(2) [OF h(1)] pushed_revoked [of _ pushes "access_new repository keys"] by blast
qed

section \<open>A token on concrete inputs\<close>

text \<open>Concrete functions with the documented laws: hexadecimal for base64, one-letter JSON, and a signature
  that repeats the key and the message.\<close>

definition demo_header :: header where
  "demo_header = \<lparr>hd_alg = ALG, hd_kid = ''k''\<rparr>"

definition demo_claims :: claims where
  "demo_claims = \<lparr>cl_sub = ''cat'', cl_dev = ''dev'', cl_repo = ''repo'', cl_scopes = [PublishScope], cl_layer = None,
     cl_checks = [], cl_iat = 100, cl_exp = 200, cl_jti = ''j''\<rparr>"

definition demo_crypto :: "(string, string, string) crypto" where
  "demo_crypto = \<lparr>b64_encode = oid_display, b64_decode = (\<lambda>s. Some (hex_bytes s)),
     header_to_json = (\<lambda>h. if h = demo_header then Some ''H'' else None),
     header_from_json = (\<lambda>bs. if bs = ''H'' then Some demo_header else None),
     claims_to_json = (\<lambda>cl. if cl = demo_claims then Some ''C'' else None),
     claims_from_json = (\<lambda>bs. if bs = ''C'' then Some demo_claims else None),
     sign_bytes = (\<lambda>sk m. sk @ m), sig_to_bytes = (\<lambda>s. s), sig_from_slice = Some,
     verify_strict = (\<lambda>vk m s. s = vk @ m), public_key = (\<lambda>sk. sk)\<rparr>"

definition demo_token :: string where
  "demo_token = the (issue demo_crypto \<lparr>is_kid = ''k'', is_key = ''x''\<rparr> demo_claims)"

lemma demo_crypto_ok: "crypto_ok demo_crypto"
proof -
  have "CHR ''.'' \<notin> set (oid_display bs)" for bs
    using all_hex_display [of bs] by (auto simp: list_all_iff is_hex_def is_digit_def u8_in_def)
  then show ?thesis by (auto simp: crypto_ok_def demo_crypto_def hex_bytes_display split: if_splits)
qed

lemma demo_issue: "issue demo_crypto \<lparr>is_kid = ''k'', is_key = ''x''\<rparr> demo_claims = Some demo_token"
  by (simp add: demo_token_def issue_def demo_crypto_def demo_header_def Let_def)

lemma demo_token_length: "length demo_token \<le> MAX_TOKEN_BYTES"
  by (simp add: demo_token_def issue_def demo_crypto_def demo_header_def Let_def length_oid_display MAX_TOKEN_BYTES_def)

lemma demo_current: "claims_current 150 demo_claims"
proof -
  have "opaque ''cat''" "opaque ''dev''" "opaque ''j''" by code_simp+
  then show ?thesis by (simp add: claims_current_def demo_claims_def)
qed

lemma issued_token_verifies_witness:
  "token_verify demo_crypto [(''k'', ''x'')] demo_token 150 = Inr demo_claims"
  using issued_token_verifies [OF demo_crypto_ok demo_issue demo_token_length, of "[(''k'', ''x'')]" 150 demo_claims]
    demo_current by (simp add: demo_crypto_def)

lemma grant_sound_witness:
  "\<exists>kid key cl. (kid, key) = (''k'', ''x'') \<and> signed_claims demo_crypto kid key demo_token cl \<and> cl_sub cl = ''cat'' \<and> 150 < cl_exp cl
     \<and> permissions_role demo_permissions (cl_sub cl) = Some Maintain"
proof -
  let ?s = "pushed (access_new ''repo'' [(''k'', ''x'')]) [PushPermissions demo_permissions]"
  have s: "?s = \<lparr>ac_repository = ''repo'', ac_keys = [(''k'', ''x'')], ac_permissions = Some demo_permissions,
      ac_revoked_tokens = [], ac_revoked_devices = []\<rparr>"
    by (simp add: pushed_def access_new_def access_apply_def demo_permissions_def)
  have v: "token_verify demo_crypto (ac_keys ?s) demo_token 150 = Inr demo_claims"
    using verify_issued [OF demo_crypto_ok demo_issue demo_token_length, of "ac_keys ?s" 150 demo_claims] demo_current
    by (simp add: s demo_crypto_def)
  have "authorize demo_crypto ?s (Some demo_token) 150 \<lparr>nd_scope = PublishScope, nd_layer = None\<rparr>
      = Inr \<lparr>gr_principal = Some ''cat'', gr_role = Maintain, gr_checks = []\<rparr>"
    unfolding authorize_token_Inr
    by (intro exI [of _ demo_claims] exI [of _ demo_permissions] exI [of _ Maintain] conjI v)
      (simp_all only: s, simp_all add: demo_claims_def demo_permissions_def permissions_role_def)
  from grant_sound [OF this] show ?thesis by (auto split: if_splits)
qed

end
