(* ===== verification/Trees.thy ===== *)
theory Trees
  imports Chunk
begin

text \<open>
  The tree store of \<open>src/tree.rs\<close>: \<open>MemoryStore\<close>, and the operations of \<open>Trees\<close> over it: reading chunks
  and children, seeking a name, building and updating a directory, applying a changeset, looking up,
  walking, diffing and intersecting snapshots. The decoded-chunk cache is left out of the operations;
  \<open>cached_chunk_transparent\<close> shows that it never changes what is read. The ghost field
  \<open>ms_collided\<close> records that a write replaced different bytes, that is, a SHA-256 collision. The
  operations that may loop on a damaged store take \<open>fuel\<close>; the theorems of the next theories show
  that it is enough on the stores the program builds.
\<close>

section \<open>The store\<close>

record memory_store =
  ms_objects :: "object_id \<Rightarrow> bytes option"
  ms_written :: nat
  ms_collided :: bool
  ms_saved :: "(object_id \<times> bytes) list"

definition memory_store_new :: memory_store where
  "memory_store_new = \<lparr>ms_objects = (\<lambda>_. None), ms_written = 0, ms_collided = False, ms_saved = []\<rparr>"

definition store_load :: "memory_store \<Rightarrow> object_id \<Rightarrow> error + bytes" where
  "store_load s i = ok_or (MissingObject i) (ms_objects s i)"

definition store_save :: "object_id \<Rightarrow> bytes \<Rightarrow> memory_store \<Rightarrow> memory_store" where
  "store_save i bytes s =
     s\<lparr>ms_objects := (ms_objects s)(i := Some bytes),
       ms_written := (if ms_objects s i = None then ms_written s + length bytes else ms_written s)\<rparr>"

text \<open>A computation over the store; an error keeps what was written before it.\<close>

type_synonym 'a tree_op = "memory_store \<Rightarrow> (error + 'a) \<times> memory_store"

definition tret :: "'a \<Rightarrow> 'a tree_op" where
  "tret x s = (Inr x, s)"

definition tfail :: "error \<Rightarrow> 'a tree_op" where
  "tfail e s = (Inl e, s)"

definition tbind :: "'a tree_op \<Rightarrow> ('a \<Rightarrow> 'b tree_op) \<Rightarrow> 'b tree_op" where
  "tbind m f s = (case m s of (Inl e, s) \<Rightarrow> (Inl e, s) | (Inr x, s) \<Rightarrow> f x s)"

definition tread :: "(memory_store \<Rightarrow> error + 'a) \<Rightarrow> 'a tree_op" where
  "tread r s = (r s, s)"

section \<open>Reading chunks\<close>

definition chunk_id :: "(bytes \<Rightarrow> bytes) \<Rightarrow> chunk \<Rightarrow> object_id" where
  "chunk_id sha c = object_hash sha Tree (chunk_encode c)"

definition chunk_at :: "(bytes \<Rightarrow> bytes) \<Rightarrow> memory_store \<Rightarrow> object_id \<Rightarrow> error + chunk" where
  "chunk_at sha s i =
     ebind (if i = empty_tree sha then Inr [CHR 0x00] else store_load s i) (\<lambda>bytes.
       if object_hash sha Tree bytes \<noteq> i then Inl (CorruptObject i)
       else emap_err (\<lambda>_. CorruptObject i) (chunk_decode bytes))"

text \<open>The same with the cache of decoded chunks, as \<open>Trees::chunk\<close> has it.\<close>

type_synonym chunk_cache = "object_id \<Rightarrow> chunk option"

definition cached_chunk ::
  "(bytes \<Rightarrow> bytes) \<Rightarrow> memory_store \<Rightarrow> object_id \<Rightarrow> bool \<Rightarrow> chunk_cache \<Rightarrow> (error + chunk) \<times> chunk_cache" where
  "cached_chunk sha s i keep cache =
     (case cache i of
       Some c \<Rightarrow> (Inr c, cache)
     | None \<Rightarrow>
         (case chunk_at sha s i of
           Inl e \<Rightarrow> (Inl e, cache)
         | Inr c \<Rightarrow> (Inr c, if keep then cache(i := Some c) else cache)))"

definition cached_put ::
  "(bytes \<Rightarrow> bytes) \<Rightarrow> chunk \<Rightarrow> chunk_cache \<times> memory_store \<Rightarrow> object_id \<times> chunk_cache \<times> memory_store" where
  "cached_put sha c cs =
     (case cs of (cache, s) \<Rightarrow>
       let bytes = chunk_encode c; i = object_hash sha Tree bytes
       in if cache i = None then (i, cache(i := Some c), store_save i bytes s) else (i, cache, s))"

definition child_at :: "(bytes \<Rightarrow> bytes) \<Rightarrow> memory_store \<Rightarrow> chunk \<Rightarrow> item \<Rightarrow> error + chunk" where
  "child_at sha s parent i =
     ebind (chunk_at sha s (it_id i)) (\<lambda>child.
       if ch_level child + 1 \<noteq> ch_level parent \<or> ch_items child = [] \<or> chunk_last child \<noteq> it_name i
       then Inl (CorruptObject (it_id i)) else Inr child)"

text \<open>The ghost field is set when the ID already stands for other bytes, stored or those of the empty tree.
  \<open>ms_saved\<close> logs the chunks handed to the store, in order, for the stores that buffer them.\<close>

definition clashes :: "(bytes \<Rightarrow> bytes) \<Rightarrow> object_id \<Rightarrow> bytes \<Rightarrow> memory_store \<Rightarrow> bool" where
  "clashes sha i bytes s \<longleftrightarrow>
     i = empty_tree sha \<and> bytes \<noteq> [CHR 0x00]
     \<or> (case ms_objects s i of None \<Rightarrow> False | Some old \<Rightarrow> old \<noteq> bytes)"

definition put_chunk :: "(bytes \<Rightarrow> bytes) \<Rightarrow> chunk \<Rightarrow> object_id tree_op" where
  "put_chunk sha c s =
     (let bytes = chunk_encode c; i = object_hash sha Tree bytes
      in (Inr i, (store_save i bytes s)\<lparr>ms_collided := ms_collided s \<or> clashes sha i bytes s,
                                       ms_saved := ms_saved s @ [(i, bytes)]\<rparr>))"

text \<open>The cache is transparent: what it holds is what the store would answer, a cached read returns what an uncached
  one does, and a write that the cache skips would not have changed any answer, short of a hash collision.\<close>

definition cache_ok :: "(bytes \<Rightarrow> bytes) \<Rightarrow> chunk_cache \<Rightarrow> memory_store \<Rightarrow> bool" where
  "cache_ok sha cache s \<longleftrightarrow> (\<forall>i c. cache i = Some c \<longrightarrow> chunk_at sha s i = Inr c)"

lemma cached_chunk_transparent:
  "cache_ok sha cache s \<Longrightarrow>
   fst (cached_chunk sha s i keep cache) = chunk_at sha s i \<and> cache_ok sha (snd (cached_chunk sha s i keep cache)) s"
  by (auto simp: cached_chunk_def cache_ok_def split: option.splits sum.splits)

lemma chunk_at_id:
  "chunk_at sha s i = Inr c \<Longrightarrow>
   chunk_ok c \<and> i = chunk_id sha c \<and> (if i = empty_tree sha then chunk_encode c = [CHR 0x00]
                                      else ms_objects s i = Some (chunk_encode c))"
  by (auto simp: chunk_at_def chunk_id_def result_simps store_load_def chunk_decode_iff
      split: if_splits option.splits)

lemma chunk_at_stored:
  assumes "chunk_ok c" "i = chunk_id sha c" "i = empty_tree sha \<Longrightarrow> chunk_encode c = [CHR 0x00]"
    "i \<noteq> empty_tree sha \<Longrightarrow> ms_objects s i = Some (chunk_encode c)"
  shows "chunk_at sha s i = Inr c"
  using assms chunk_decode_iff [of "chunk_encode c" c]
  by (auto simp: chunk_at_def chunk_id_def store_load_def result_simps)

lemma chunk_at_cong: "ms_objects s i = ms_objects s' i \<Longrightarrow> chunk_at sha s i = chunk_at sha s' i"
  by (simp add: chunk_at_def store_load_def)

lemma store_save_objects [simp]: "ms_objects (store_save i bytes s) = (ms_objects s)(i := Some bytes)"
  by (simp add: store_save_def)

lemma put_chunk_simps [simp]:
  "fst (put_chunk sha c s) = Inr (chunk_id sha c)"
  "ms_objects (snd (put_chunk sha c s)) = (ms_objects s)(chunk_id sha c := Some (chunk_encode c))"
  "ms_collided (snd (put_chunk sha c s)) \<longleftrightarrow> ms_collided s \<or> clashes sha (chunk_id sha c) (chunk_encode c) s"
  "ms_saved (snd (put_chunk sha c s)) = ms_saved s @ [(chunk_id sha c, chunk_encode c)]"
  by (simp_all add: put_chunk_def chunk_id_def Let_def)

lemma put_chunk_reads:
  assumes "chunk_ok c" "\<not> clashes sha (chunk_id sha c) (chunk_encode c) s"
  shows "chunk_at sha (snd (put_chunk sha c s)) (chunk_id sha c) = Inr c"
  using assms by (intro chunk_at_stored) (auto simp: clashes_def)

lemma cached_put_transparent:
  assumes "cache_ok sha cache s" "chunk_ok c" "\<not> clashes sha (chunk_id sha c) (chunk_encode c) s"
    "cached_put sha c (cache, s) = (i, cache', s')"
  shows "fst (put_chunk sha c s) = Inr i \<and> cache_ok sha cache' s'
    \<and> chunk_at sha s' = chunk_at sha (snd (put_chunk sha c s))"
proof (cases "cache (chunk_id sha c)")
  case None
  then have d: "i = chunk_id sha c" "cache' = cache(i := Some c)" "s' = store_save i (chunk_encode c) s"
    using assms(4) by (auto simp: cached_put_def Let_def chunk_id_def)
  have same: "chunk_at sha s' = chunk_at sha (snd (put_chunk sha c s))"
    by (rule ext, rule chunk_at_cong) (simp add: d)
  have "chunk_at sha s' j = Inr e" if "cache' j = Some e" for j e
  proof (cases "j = i")
    case True
    then show ?thesis using that put_chunk_reads [OF assms(2,3)] by (simp add: d(1,2) same)
  next
    case False
    then have "chunk_at sha s' j = chunk_at sha s j" by (intro chunk_at_cong) (simp add: d)
    then show ?thesis using that False assms(1) by (auto simp: d cache_ok_def)
  qed
  then show ?thesis using same by (simp add: d cache_ok_def)
next
  case (Some e)
  then have d: "i = chunk_id sha c" "cache' = cache" "s' = s"
    using assms(4) by (auto simp: cached_put_def Let_def chunk_id_def)
  have e: "chunk_at sha s (chunk_id sha c) = Inr e" using assms(1) Some by (simp add: cache_ok_def)
  have "chunk_at sha s j = chunk_at sha (snd (put_chunk sha c s)) j" for j
  proof (cases "j = chunk_id sha c")
    case True
    have "chunk_encode e = chunk_encode c"
      using chunk_at_id [OF e] assms(3) by (auto simp: clashes_def split: if_splits)
    then have "e = c" using chunk_at_id [OF e] assms(2) chunk_decode_iff [of "chunk_encode c"] by (metis Inr_inject)
    then show ?thesis using True e put_chunk_reads [OF assms(2,3)] by simp
  next
    case False
    then show ?thesis by (intro chunk_at_cong) simp
  qed
  then have "chunk_at sha s = chunk_at sha (snd (put_chunk sha c s))" by (rule ext)
  then show ?thesis using assms(1) by (simp add: d)
qed

lemma ebind_cong [fundef_cong]:
  "r = r' \<Longrightarrow> (\<And>x. r' = Inr x \<Longrightarrow> f x = g x) \<Longrightarrow> ebind r f = ebind r' g"
  by (cases r') auto

lemma emap_cong [fundef_cong]:
  "xs = ys \<Longrightarrow> (\<And>x. x \<in> set ys \<Longrightarrow> f x = g x) \<Longrightarrow> emap f xs = emap g ys"
  by (induction ys arbitrary: xs) auto

lemma child_at_Inr:
  "child_at sha s parent i = Inr c \<longleftrightarrow>
     chunk_at sha s (it_id i) = Inr c \<and> ch_level c + 1 = ch_level parent \<and> ch_items c \<noteq> [] \<and> chunk_last c = it_name i"
  by (auto simp: child_at_def result_simps split: if_splits)

text \<open>\<open>seek\<close>: the loop down from a chunk to \<open>level\<close>.\<close>

function seek_from ::
  "(bytes \<Rightarrow> bytes) \<Rightarrow> memory_store \<Rightarrow> nat \<Rightarrow> string \<Rightarrow> bool \<Rightarrow> chunk \<Rightarrow> bool \<Rightarrow> error + (chunk \<times> bool) option" where
  "seek_from sha s level name after c rightmost =
     (if ch_level c > level then
        (let n = length (ch_items c);
             index = partition_point (\<lambda>i. if after then it_name i \<le> name else it_name i < name) (ch_items c)
         in if index \<ge> n \<and> after then Inr None
            else
              (let index = (if index < n then index else n - 1)
               in ebind (child_at sha s c (ch_items c ! index)) (\<lambda>child.
                    seek_from sha s level name after child (rightmost \<and> index + 1 = n))))
      else if ch_level c \<noteq> level \<or> (after \<and> chunk_last c \<le> name) then Inr None
      else Inr (Some (c, rightmost)))"
  by pat_completeness auto
termination
  by (relation "measure (\<lambda>(_, _, _, _, _, c, _). ch_level c)") (auto simp: child_at_Inr)

declare seek_from.simps [simp del]

definition seek ::
  "(bytes \<Rightarrow> bytes) \<Rightarrow> memory_store \<Rightarrow> object_id \<Rightarrow> nat \<Rightarrow> string \<Rightarrow> bool \<Rightarrow> error + (chunk \<times> bool) option" where
  "seek sha s root level name after =
     ebind (chunk_at sha s root) (\<lambda>c. seek_from sha s level name after c True)"

text \<open>\<open>find\<close>: binary search in a leaf whose names strictly ascend.\<close>

definition find_in :: "(bytes \<Rightarrow> bytes) \<Rightarrow> memory_store \<Rightarrow> object_id \<Rightarrow> string \<Rightarrow> error + node option" where
  "find_in sha s dir name =
     ebind (seek sha s dir 0 name False) (\<lambda>r.
       case r of
         None \<Rightarrow> Inr None
       | Some (leaf, _) \<Rightarrow> Inr (map_option item_node (find (\<lambda>i. it_name i = name) (ch_items leaf))))"

fun lookup_names :: "(bytes \<Rightarrow> bytes) \<Rightarrow> memory_store \<Rightarrow> object_id \<Rightarrow> string list \<Rightarrow> error + node option" where
  "lookup_names sha s dir [] = Inr None"
| "lookup_names sha s dir (name # names) =
     ebind (find_in sha s dir name) (\<lambda>r.
       case r of
         Some node \<Rightarrow>
           (if names = [] then Inr (Some node)
            else (case node of Dir i \<Rightarrow> lookup_names sha s i names | File _ \<Rightarrow> Inr None))
       | None \<Rightarrow> Inr None)"

definition lookup :: "(bytes \<Rightarrow> bytes) \<Rightarrow> memory_store \<Rightarrow> object_id \<Rightarrow> string \<Rightarrow> error + node option" where
  "lookup sha s root path = lookup_names sha s root (split_on (CHR ''/'') path)"

function leaves :: "(bytes \<Rightarrow> bytes) \<Rightarrow> memory_store \<Rightarrow> chunk \<Rightarrow> error + item list" where
  "leaves sha s c =
     (if ch_level c = 0 then Inr (ch_items c)
      else ebind (emap (\<lambda>i. ebind (child_at sha s c i) (\<lambda>child. leaves sha s child)) (ch_items c))
        (\<lambda>parts. Inr (concat parts)))"
  by pat_completeness auto
termination
  by (relation "measure (\<lambda>(_, _, c). ch_level c)") (auto simp: child_at_Inr)

declare leaves.simps [simp del]

section \<open>Walking a snapshot\<close>

lemma joined_Inr [result_simps]:
  "joined pre name = Inr path \<longleftrightarrow> path = pre @ name \<and> length path \<le> MAX_PATH
     \<and> length (filter (\<lambda>c. c = CHR ''/'') path) < MAX_DEPTH"
  by (auto simp: joined_def Let_def not_less not_le split: if_splits)

text \<open>\<open>walk\<close>, with the calls of its callback as a list; \<open>walk_items\<close> is its loop.\<close>

function walk :: "(bytes \<Rightarrow> bytes) \<Rightarrow> memory_store \<Rightarrow> object_id \<Rightarrow> string \<Rightarrow> error + (string \<times> file_entry) list"
  and walk_items :: "(bytes \<Rightarrow> bytes) \<Rightarrow> memory_store \<Rightarrow> item list \<Rightarrow> string \<Rightarrow> error + (string \<times> file_entry) list" where
  "walk sha s dir pre =
     ebind (chunk_at sha s dir) (\<lambda>c. ebind (leaves sha s c) (\<lambda>items. walk_items sha s items pre))"
| "walk_items sha s [] pre = Inr []"
| "walk_items sha s (i # items) pre =
     ebind (joined pre (it_name i)) (\<lambda>path.
     ebind (case item_node i of
              File entry \<Rightarrow> Inr [(path, entry)]
            | Dir d \<Rightarrow> walk sha s d (path @ ''/'')) (\<lambda>here.
     ebind (walk_items sha s items pre) (\<lambda>others. Inr (here @ others))))"
  by pat_completeness auto
termination
proof (relation "measures [\<lambda>x. case x of Inl (_, _, _, pre) \<Rightarrow> MAX_PATH + 1 - length pre
      | Inr (_, _, _, pre) \<Rightarrow> MAX_PATH + 1 - length pre,
    \<lambda>x. case x of Inl _ \<Rightarrow> 1 | Inr _ \<Rightarrow> 0, \<lambda>x. case x of Inl _ \<Rightarrow> 0 | Inr (_, _, items, _) \<Rightarrow> length items]", goal_cases)
  case (3 sha s i items pre path d)
  then show ?case by (auto simp: joined_Inr)
qed auto

declare walk.simps [simp del] walk_items.simps [simp del]

definition tree_entries :: "(bytes \<Rightarrow> bytes) \<Rightarrow> memory_store \<Rightarrow> object_id \<Rightarrow> error + manifest" where
  "tree_entries sha s root = ebind (walk sha s root []) (\<lambda>found. Inr (omap_of found))"

definition files_under :: "(bytes \<Rightarrow> bytes) \<Rightarrow> memory_store \<Rightarrow> object_id \<Rightarrow> string \<Rightarrow> error + string list" where
  "files_under sha s root dir =
     ebind (lookup sha s root dir) (\<lambda>r.
       case r of
         Some (Dir i) \<Rightarrow> ebind (walk sha s i (dir @ ''/'')) (\<lambda>found. Inr (map fst found))
       | _ \<Rightarrow> Inr [])"

section \<open>Building and updating a directory\<close>

definition summary :: "(bytes \<Rightarrow> bytes) \<Rightarrow> chunk \<Rightarrow> item tree_op" where
  "summary sha c =
     tbind (put_chunk sha c) (\<lambda>i. tret \<lparr>it_name = chunk_last c, it_tag = CHILD, it_id = i\<rparr>)"

fun summaries :: "(bytes \<Rightarrow> bytes) \<Rightarrow> chunk list \<Rightarrow> item list tree_op" where
  "summaries sha [] = tret []"
| "summaries sha (c # cs) = tbind (summary sha c) (\<lambda>i. tbind (summaries sha cs) (\<lambda>is. tret (i # is)))"

text \<open>The last loop of \<open>build_level\<close>: down to the first level with others than one item.\<close>

fun descend :: "nat \<Rightarrow> (bytes \<Rightarrow> bytes) \<Rightarrow> memory_store \<Rightarrow> object_id \<Rightarrow> error + object_id" where
  "descend 0 sha s root = Inl (Unsupported ''out of fuel'')"
| "descend (Suc fuel) sha s root =
     ebind (chunk_at sha s root) (\<lambda>c.
       if ch_level c = 0 \<or> length (ch_items c) > 1 then Inr root
       else descend fuel sha s (it_id (ch_items c ! 0)))"

function build_level :: "(bytes \<Rightarrow> bytes) \<Rightarrow> nat \<Rightarrow> item list \<Rightarrow> object_id option tree_op" where
  "build_level sha level items =
     (if level > MAX_LEVEL then tfail (InvalidInput ''directory tree too high'')
      else
        (case cut_level sha level items of
          [] \<Rightarrow> tret None
        | [c] \<Rightarrow>
            (if ch_level c > 0 \<and> length (ch_items c) = 1
             then tbind (tread (\<lambda>s. descend (MAX_LEVEL + 2) sha s (it_id (ch_items c ! 0)))) (\<lambda>root. tret (Some root))
             else tbind (put_chunk sha c) (\<lambda>root. tret (Some root)))
        | chunks \<Rightarrow> tbind (summaries sha chunks) (\<lambda>is. build_level sha (level + 1) is)))"
  by pat_completeness auto
termination
  by (relation "measure (\<lambda>(_, level, _). MAX_LEVEL + 1 - level)") auto

declare build_level.simps [simp del]

text \<open>Sorted edits by name: \<open>None\<close> deletes. The innermost loop merges one chunk's items with the edits up to
  \<open>end\<close> (all of them in the rightmost chunk); it yields the items pushed and the edits left.\<close>

type_synonym edits = "(string \<times> item option) list"

fun merge_run :: "string option \<Rightarrow> item list \<Rightarrow> edits \<Rightarrow> item list \<times> edits" where
  "merge_run end items [] = (items, [])"
| "merge_run end items ((name, edit) # edits) =
     (if (case end of None \<Rightarrow> True | Some e \<Rightarrow> name \<le> e) then
        (case items of
          [] \<Rightarrow> (case merge_run end [] edits of (out, left) \<Rightarrow> ((case edit of None \<Rightarrow> out | Some i \<Rightarrow> i # out), left))
        | i # rest \<Rightarrow>
            if name \<le> it_name i then
              (case merge_run end (if name = it_name i then rest else items) edits of
                (out, left) \<Rightarrow> ((case edit of None \<Rightarrow> out | Some j \<Rightarrow> j # out), left))
            else (case merge_run end rest ((name, edit) # edits) of (out, left) \<Rightarrow> (i # out, left)))
      else (items, (name, edit) # edits))"

text \<open>The loop over the chunks of one run, until a new boundary meets an old one. It yields the edits left,
  the summaries of the new chunks and the names of the old ones.\<close>

fun recut_run ::
  "nat \<Rightarrow> (bytes \<Rightarrow> bytes) \<Rightarrow> object_id \<Rightarrow> nat \<Rightarrow> chunk \<Rightarrow> bool \<Rightarrow> edits \<Rightarrow> chunker \<Rightarrow> item list \<Rightarrow> string list
   \<Rightarrow> (edits \<times> item list \<times> string list) tree_op" where
  "recut_run 0 sha root level c rightmost edits ck added gone = tfail (Unsupported ''out of fuel'')"
| "recut_run (Suc fuel) sha root level c rightmost edits ck added gone =
     (case merge_run (if rightmost then None else Some (chunk_last c)) (ch_items c) edits of (items, edits) \<Rightarrow>
     (case cut_items sha items ck of (done', ck) \<Rightarrow>
      tbind (summaries sha done') (\<lambda>others.
      if rightmost \<or> ck_items ck = [] then
        (case chunker_finish ck of
          None \<Rightarrow> tret (edits, added @ others, gone @ [chunk_last c])
        | Some c' \<Rightarrow> tbind (summary sha c') (\<lambda>i. tret (edits, added @ others @ [i], gone @ [chunk_last c])))
      else
        tbind (tread (\<lambda>s. ebind (seek sha s root level (chunk_last c) True) (ok_or (CorruptObject root)))) (\<lambda>following.
        case following of (c', rightmost') \<Rightarrow>
          recut_run fuel sha root level c' rightmost' edits ck (added @ others) (gone @ [chunk_last c])))))"

fun update_level ::
  "nat \<Rightarrow> (bytes \<Rightarrow> bytes) \<Rightarrow> object_id \<Rightarrow> nat \<Rightarrow> edits \<Rightarrow> (string, item option) omap \<Rightarrow> (string, item option) omap tree_op" where
  "update_level fuel sha root level [] out = tret out"
| "update_level 0 sha root level (e # edits) out = tfail (Unsupported ''out of fuel'')"
| "update_level (Suc fuel) sha root level (e # edits) out =
     tbind (tread (\<lambda>s. ebind (seek sha s root level (fst e) False) (ok_or (CorruptObject root)))) (\<lambda>(c, rightmost).
     tbind (recut_run fuel sha root level c rightmost (e # edits) (chunker_new level) [] []) (\<lambda>(edits, added, gone).
     update_level fuel sha root level edits
       (fold (\<lambda>i out. omap_insert (it_name i) (Some i) out) added (fold (\<lambda>n out. omap_insert n None out) gone out))))"

fun update_levels :: "nat \<Rightarrow> (bytes \<Rightarrow> bytes) \<Rightarrow> object_id \<Rightarrow> nat list \<Rightarrow> edits \<Rightarrow> edits tree_op" where
  "update_levels fuel sha root [] edits = tret edits"
| "update_levels fuel sha root (level # levels) edits =
     tbind (update_level fuel sha root level edits []) (\<lambda>edits. update_levels fuel sha root levels edits)"

text \<open>The root chunk's items merged with the edits of its level.\<close>

fun merge_root :: "item list \<Rightarrow> edits \<Rightarrow> item list" where
  "merge_root [] edits = concat (map (\<lambda>(name, edit). case edit of None \<Rightarrow> [] | Some i \<Rightarrow> [i]) edits)"
| "merge_root (i # items) edits =
     (let before = takeWhile (\<lambda>(name, edit). name < it_name i) edits;
          after = dropWhile (\<lambda>(name, edit). name < it_name i) edits
      in concat (map (\<lambda>(name, edit). case edit of None \<Rightarrow> [] | Some j \<Rightarrow> [j]) before) @
         (case after of
           (name, edit) # others \<Rightarrow>
             if name = it_name i then (case edit of None \<Rightarrow> [] | Some j \<Rightarrow> [j]) @ merge_root items others
             else i # merge_root items after
         | [] \<Rightarrow> i # merge_root items []))"

definition update_dir :: "nat \<Rightarrow> (bytes \<Rightarrow> bytes) \<Rightarrow> object_id option \<Rightarrow> edits \<Rightarrow> object_id option tree_op" where
  "update_dir fuel sha dir edits =
     (let fresh = build_level sha 0 (List.map_filter snd edits) in
      case dir of
        None \<Rightarrow> fresh
      | Some root \<Rightarrow>
          tbind (tread (\<lambda>s. chunk_at sha s root)) (\<lambda>c.
          if ch_items c = [] then fresh
          else
            tbind (update_levels fuel sha root [0..<ch_level c] edits) (\<lambda>edits.
            tbind (tread (\<lambda>s. chunk_at sha s root)) (\<lambda>c'.
            build_level sha (ch_level c) (merge_root (ch_items c') edits)))))"

section \<open>Applying changes\<close>

text \<open>\<open>path.split_once('/')\<close>.\<close>

fun split_once :: "string \<Rightarrow> (string \<times> string) option" where
  "split_once [] = None"
| "split_once (c # cs) =
     (if c = CHR ''/'' then Some ([], cs) else map_option (\<lambda>(a, b). (c # a, b)) (split_once cs))"

type_synonym change_list = "(string \<times> file_entry option) list"
type_synonym groups = "(string, file_entry option option \<times> change_list) omap"

text \<open>Changes of one directory by their first name: the change of that exact name, and those below it.\<close>

definition group_change :: "string \<times> file_entry option \<Rightarrow> groups \<Rightarrow> groups" where
  "group_change change groups =
     (case change of (path, entry) \<Rightarrow>
       let at = (\<lambda>name. case map_of groups name of None \<Rightarrow> (None, []) | Some g \<Rightarrow> g)
       in case split_once path of
            None \<Rightarrow> omap_insert path (Some entry, snd (at path)) groups
          | Some (name, rest) \<Rightarrow> omap_insert name (fst (at name), snd (at name) @ [(rest, entry)]) groups)"

definition group_changes :: "change_list \<Rightarrow> groups" where
  "group_changes changes = fold group_change changes []"

text \<open>What one name of a directory becomes; an error when it cannot.\<close>

definition tombstone_ambiguous :: "file_entry option option \<Rightarrow> change_list \<Rightarrow> node option \<Rightarrow> bool" where
  "tombstone_ambiguous exact deeper current \<longleftrightarrow>
     exact = Some None \<and> Option.bind current node_file = None
     \<and> (Option.bind current node_dir \<noteq> None \<or> deeper \<noteq> [])"

definition next_node :: "file_entry option \<Rightarrow> object_id option \<Rightarrow> error + node option" where
  "next_node file sub =
     (case (file, sub) of
       (Some _, Some _) \<Rightarrow> Inl (InvalidInput ''file and descendant paths collide'')
     | (Some e, None) \<Rightarrow> Inr (Some (File e))
     | (None, Some d) \<Rightarrow> Inr (Some (Dir d))
     | (None, None) \<Rightarrow> Inr None)"

fun weight :: "change_list \<Rightarrow> nat" where
  "weight [] = 0"
| "weight ((path, _) # changes) = max (Suc (length path)) (weight changes)"

fun group_weight :: "groups \<Rightarrow> nat" where
  "group_weight [] = 0"
| "group_weight ((_, _, deeper) # groups) =
     max (if deeper = [] then 0 else Suc (weight deeper)) (group_weight groups)"

lemma split_once_Some: "split_once p = Some (a, b) \<Longrightarrow> p = a @ ''/'' @ b \<and> CHR ''/'' \<notin> set a"
  by (induction p arbitrary: a) (auto split: if_splits)

lemma split_once_None: "split_once p = None \<longleftrightarrow> CHR ''/'' \<notin> set p"
  by (induction p) auto

lemma weight_le_iff: "weight ch \<le> n \<longleftrightarrow> (\<forall>(p, e) \<in> set ch. length p < n)"
  by (induction ch) auto

lemma group_weight_le_iff:
  "group_weight gs \<le> n \<longleftrightarrow> (\<forall>(k, e, d) \<in> set gs. d \<noteq> [] \<longrightarrow> weight d < n)"
  by (induction gs) auto

lemma set_omap_insert_subset: "set (omap_insert k v m) \<subseteq> insert (k, v) (set m)"
  by (induction m) (auto split: if_splits)

lemma group_changes_weight: "group_weight (group_changes ch) \<le> weight ch"
proof -
  have step: "group_weight (group_change c gs) \<le> n" if "group_weight gs \<le> n" "length (fst c) < n" for c gs n
  proof -
    obtain p e where c: "c = (p, e)" by (cases c)
    have old: "weight d < n" if "map_of gs k = Some (x, d)" "d \<noteq> []" for k x d
      using that \<open>group_weight gs \<le> n\<close> map_of_SomeD [OF that(1)] unfolding group_weight_le_iff by fastforce
    show ?thesis
    proof (cases "split_once p")
      case None
      have "weight d < n" if "d \<noteq> []" "d = snd (case map_of gs p of None \<Rightarrow> (None, []) | Some g \<Rightarrow> g)" for d
        using that old [of p] by (auto split: option.splits)
      then show ?thesis
        using \<open>group_weight gs \<le> n\<close> set_omap_insert_subset [of p _ gs]
        unfolding group_weight_le_iff by (fastforce simp: c group_change_def None Let_def)
    next
      case (Some r)
      obtain a b where r: "split_once p = Some (a, b)" using Some by (cases r) auto
      let ?at = "case map_of gs a of None \<Rightarrow> (None, []) | Some g \<Rightarrow> g"
      have b: "Suc (length b) < n" using split_once_Some [OF r] that(2) c by auto
      have "weight (snd ?at @ [(b, e)]) < n"
      proof -
        have "weight (snd ?at) < n" if "snd ?at \<noteq> []" using that old [of a] by (auto split: option.splits)
        then have "\<forall>(p, e) \<in> set (snd ?at @ [(b, e)]). length p < n - 1"
          using b weight_le_iff [of "snd ?at" "n - 1"] by (cases "snd ?at = []") auto
        then have "weight (snd ?at @ [(b, e)]) \<le> n - 1" unfolding weight_le_iff .
        then show ?thesis using b by simp
      qed
      then show ?thesis
        using \<open>group_weight gs \<le> n\<close> set_omap_insert_subset [of a _ gs]
        unfolding group_weight_le_iff by (fastforce simp: c group_change_def r Let_def)
    qed
  qed
  have "group_weight (fold group_change ch gs) \<le> n"
    if "group_weight gs \<le> n" "\<forall>c \<in> set ch. length (fst c) < n" for ch gs n
    using that by (induction ch arbitrary: gs) (auto intro: step)
  moreover have "\<forall>c \<in> set ch. length (fst c) < weight ch"
    using weight_le_iff [of ch "weight ch"] by auto
  ultimately show ?thesis by (simp add: group_changes_def)
qed

text \<open>\<open>apply_dir\<close>; \<open>apply_groups\<close> is its loop over the groups, which collects the edits.\<close>

function apply_dir ::
  "nat \<Rightarrow> (bytes \<Rightarrow> bytes) \<Rightarrow> object_id option \<Rightarrow> change_list \<Rightarrow> object_id option tree_op"
  and apply_groups :: "nat \<Rightarrow> (bytes \<Rightarrow> bytes) \<Rightarrow> object_id option \<Rightarrow> groups \<Rightarrow> edits tree_op" where
  "apply_dir fuel sha dir changes =
     tbind (apply_groups fuel sha dir (group_changes changes)) (\<lambda>edits.
       if edits = [] then tret dir else update_dir fuel sha dir edits)"
| "apply_groups fuel sha dir [] = tret []"
| "apply_groups fuel sha dir ((name, exact, deeper) # groups) =
     tbind (case dir of Some d \<Rightarrow> tread (\<lambda>s. find_in sha s d name) | None \<Rightarrow> tret None) (\<lambda>current.
     if tombstone_ambiguous exact deeper current
     then tfail (InvalidInput ''directory-prefix tombstone is ambiguous; delete exact entries'')
     else
       (let file = (case exact of None \<Rightarrow> Option.bind current node_file | Some e \<Rightarrow> e);
            sub = Option.bind current node_dir
        in tbind (if deeper = [] then tret sub else apply_dir fuel sha sub deeper) (\<lambda>sub.
           tbind (tread (\<lambda>_. next_node file sub)) (\<lambda>node.
           tbind (apply_groups fuel sha dir groups) (\<lambda>edits.
           tret (if node \<noteq> current then (name, map_option (item_new name) node) # edits else edits))))))"
  by pat_completeness auto
termination
  by (relation "measures [\<lambda>x. case x of Inl (_, _, _, ch) \<Rightarrow> weight ch | Inr (_, _, _, gs) \<Rightarrow> group_weight gs,
      \<lambda>x. case x of Inl _ \<Rightarrow> 1 | Inr _ \<Rightarrow> 0, \<lambda>x. case x of Inl _ \<Rightarrow> 0 | Inr (_, _, _, gs) \<Rightarrow> length gs]")
    (auto simp: le_less [symmetric] group_changes_weight max_def)

declare apply_dir.simps [simp del] apply_groups.simps [simp del]

definition tree_root :: "(bytes \<Rightarrow> bytes) \<Rightarrow> object_id option \<Rightarrow> object_id tree_op" where
  "tree_root sha dir =
     (case dir of Some root \<Rightarrow> tret root | None \<Rightarrow> put_chunk sha \<lparr>ch_level = 0, ch_items = []\<rparr>)"

definition tree_apply :: "nat \<Rightarrow> (bytes \<Rightarrow> bytes) \<Rightarrow> object_id \<Rightarrow> changes \<Rightarrow> object_id tree_op" where
  "tree_apply fuel sha root changes = tbind (apply_dir fuel sha (Some root) changes) (tree_root sha)"

definition tree_build :: "nat \<Rightarrow> (bytes \<Rightarrow> bytes) \<Rightarrow> (string \<times> file_entry) list \<Rightarrow> object_id tree_op" where
  "tree_build fuel sha entries =
     tbind (apply_dir fuel sha None (map (\<lambda>(p, e). (p, Some e)) entries)) (tree_root sha)"

section \<open>Differences\<close>

type_synonym side = "(object_id \<times> chunk) list"

definition top_level :: "side \<Rightarrow> nat" where
  "top_level side = fold max (map (ch_level \<circ> snd) side) 0"

definition expand_side :: "(bytes \<Rightarrow> bytes) \<Rightarrow> memory_store \<Rightarrow> nat \<Rightarrow> side \<Rightarrow> error + side" where
  "expand_side sha s level side =
     ebind (emap (\<lambda>(i, c).
         if ch_level c < level then Inr [(i, c)]
         else emap (\<lambda>it. ebind (child_at sha s c it) (\<lambda>child. Inr (it_id it, child))) (ch_items c)) side)
       (\<lambda>parts. Inr (concat parts))"

lemma top_level_le: "top_level side \<le> n \<longleftrightarrow> (\<forall>(i, c) \<in> set side. ch_level c \<le> n)"
proof -
  have "fold max (map (ch_level \<circ> snd) side) m \<le> n \<longleftrightarrow> m \<le> n \<and> (\<forall>(i, c) \<in> set side. ch_level c \<le> n)" for m
    by (induction side arbitrary: m) auto
  then show ?thesis by (simp add: top_level_def)
qed

lemma top_level_append: "top_level (a @ b) = max (top_level a) (top_level b)"
proof (rule antisym)
  show "top_level (a @ b) \<le> max (top_level a) (top_level b)"
    using top_level_le [of a "top_level a"] top_level_le [of b "top_level b"] unfolding top_level_le [of "a @ b"] by fastforce
  have "\<forall>(i, c) \<in> set (a @ b). ch_level c \<le> top_level (a @ b)"
    using top_level_le [of "a @ b" "top_level (a @ b)"] by blast
  then show "max (top_level a) (top_level b) \<le> top_level (a @ b)"
    unfolding max.bounded_iff top_level_le by auto
qed

lemma expand_side_level:
  assumes "expand_side sha s level side = Inr out" "0 < level" "top_level side \<le> level"
  shows "top_level out < level"
proof -
  obtain parts where p: "list_all2 (\<lambda>(i, c) part. (if ch_level c < level then Inr [(i, c)]
         else emap (\<lambda>it. ebind (child_at sha s c it) (\<lambda>child. Inr (it_id it, child))) (ch_items c)) = Inr part) side parts"
      "out = concat parts"
    using assms(1) by (auto simp: expand_side_def result_simps emap_Inr_iff split_def)
  have "ch_level c' \<le> level - 1" if "(i', c') \<in> set out" for i' c'
  proof -
    obtain part where part: "part \<in> set parts" "(i', c') \<in> set part" using \<open>(i', c') \<in> set out\<close> p(2) by auto
    then obtain i c where ic: "(i, c) \<in> set side" "(if ch_level c < level then Inr [(i, c)]
         else emap (\<lambda>it. ebind (child_at sha s c it) (\<lambda>child. Inr (it_id it, child))) (ch_items c)) = Inr part"
      using p(1) by (fastforce simp: list_all2_conv_all_nth in_set_conv_nth)
    show ?thesis
    proof (cases "ch_level c < level")
      case True
      then show ?thesis using ic part assms(2) by auto
    next
      case False
      then have "list_all2 (\<lambda>it q. ebind (child_at sha s c it) (\<lambda>child. Inr (it_id it, child)) = Inr q) (ch_items c) part"
        using ic by (simp add: emap_Inr_iff)
      then obtain it where "child_at sha s c it = Inr c'"
        using part(2) by (fastforce simp: list_all2_conv_all_nth in_set_conv_nth result_simps)
      then have "ch_level c' + 1 = ch_level c" by (simp add: child_at_Inr)
      then show ?thesis using assms(3) ic(1) top_level_le [of side level] by fastforce
    qed
  qed
  then have "top_level out \<le> level - 1" unfolding top_level_le by auto
  then show ?thesis using assms(2) by simp
qed

text \<open>\<open>diff_items\<close>: the loop that drops shared chunks and expands the highest level, then the merge of the
  leaves' items.\<close>

function diff_loop :: "(bytes \<Rightarrow> bytes) \<Rightarrow> memory_store \<Rightarrow> side \<Rightarrow> side \<Rightarrow> error + (side \<times> side)" where
  "diff_loop sha s a b =
     (let shared = filter (\<lambda>i. i \<in> set (map fst a)) (map fst b);
          a = filter (\<lambda>(i, c). i \<notin> set shared) a;
          b = filter (\<lambda>(i, c). i \<notin> set shared) b;
          level = top_level (a @ b)
      in if level = 0 then Inr (a, b)
         else ebind (expand_side sha s level a) (\<lambda>a. ebind (expand_side sha s level b) (\<lambda>b. diff_loop sha s a b)))"
  by pat_completeness auto
termination
proof (relation "measure (\<lambda>(_, _, a, b). top_level (a @ b))", goal_cases)
  case (2 sha s a b shared a' b' level a2 b2)
  have sub: "top_level (a' @ b') \<le> top_level (a @ b)"
    unfolding top_level_le [of "a' @ b'"] using top_level_le [of "a @ b" "top_level (a @ b)"] 2(2,3) by auto
  have "top_level a2 < level" "top_level b2 < level"
    using 2(4-7) by (auto intro: expand_side_level simp: top_level_append)
  then have "top_level (a2 @ b2) < top_level (a' @ b')" using 2(4) by (simp add: top_level_append)
  then show ?case using sub by simp
qed simp

declare diff_loop.simps [simp del]

type_synonym item_diff = "string \<times> node option \<times> node option"

fun diff_merge :: "item list \<Rightarrow> item list \<Rightarrow> item_diff list" where
  "diff_merge [] [] = []"
| "diff_merge (l # left) [] = (it_name l, Some (item_node l), None) # diff_merge left []"
| "diff_merge [] (r # right) = (it_name r, None, Some (item_node r)) # diff_merge [] right"
| "diff_merge (l # left) (r # right) =
     (if it_name l = it_name r then
        (if l \<noteq> r then [(it_name l, Some (item_node l), Some (item_node r))] else []) @ diff_merge left right
      else if it_name l < it_name r
      then (it_name l, Some (item_node l), None) # diff_merge left (r # right)
      else (it_name r, None, Some (item_node r)) # diff_merge (l # left) right)"

definition load_side :: "(bytes \<Rightarrow> bytes) \<Rightarrow> memory_store \<Rightarrow> object_id option \<Rightarrow> error + side" where
  "load_side sha s i =
     (case i of None \<Rightarrow> Inr [] | Some i \<Rightarrow> ebind (chunk_at sha s i) (\<lambda>c. Inr [(i, c)]))"

definition diff_items ::
  "(bytes \<Rightarrow> bytes) \<Rightarrow> memory_store \<Rightarrow> object_id option \<Rightarrow> object_id option \<Rightarrow> error + item_diff list" where
  "diff_items sha s from' to =
     ebind (load_side sha s from') (\<lambda>a.
     ebind (load_side sha s to) (\<lambda>b.
     ebind (diff_loop sha s a b) (\<lambda>(a, b).
     Inr (diff_merge (concat (map (ch_items \<circ> snd) a)) (concat (map (ch_items \<circ> snd) b))))))"

text \<open>\<open>diff_dir\<close>, with its insertions in order; \<open>diff_each\<close> is its loop.\<close>

function diff_dir ::
  "(bytes \<Rightarrow> bytes) \<Rightarrow> memory_store \<Rightarrow> object_id option \<Rightarrow> object_id option \<Rightarrow> string \<Rightarrow> error + change_list"
  and diff_each :: "(bytes \<Rightarrow> bytes) \<Rightarrow> memory_store \<Rightarrow> item_diff list \<Rightarrow> string \<Rightarrow> error + change_list" where
  "diff_dir sha s from' to pre =
     (if from' = to then Inr []
      else ebind (diff_items sha s from' to) (\<lambda>items. diff_each sha s items pre))"
| "diff_each sha s [] pre = Inr []"
| "diff_each sha s ((name, before, after) # items) pre =
     ebind (joined pre name) (\<lambda>path.
       (let file = Option.bind after node_file;
            here = (if Option.bind before node_file \<noteq> file then [(path, file)] else []);
            from' = Option.bind before node_dir; to = Option.bind after node_dir
        in ebind (if from' \<noteq> to then diff_dir sha s from' to (path @ ''/'') else Inr []) (\<lambda>under.
           ebind (diff_each sha s items pre) (\<lambda>others. Inr (here @ under @ others)))))"
  by pat_completeness auto
termination
  by (relation "measures [\<lambda>x. case x of Inl (_, _, _, _, pre) \<Rightarrow> MAX_PATH + 1 - length pre
      | Inr (_, _, _, pre) \<Rightarrow> MAX_PATH + 1 - length pre,
    \<lambda>x. case x of Inl _ \<Rightarrow> 1 | Inr _ \<Rightarrow> 0, \<lambda>x. case x of Inl _ \<Rightarrow> 0 | Inr (_, _, items, _) \<Rightarrow> length items]")
    (auto simp: joined_Inr)

declare diff_dir.simps [simp del] diff_each.simps [simp del]

definition tree_diff :: "(bytes \<Rightarrow> bytes) \<Rightarrow> memory_store \<Rightarrow> object_id \<Rightarrow> object_id \<Rightarrow> error + changes" where
  "tree_diff sha s from' to =
     ebind (diff_dir sha s (Some from') (Some to) []) (\<lambda>found. changes_new (omap_of found))"

section \<open>Intersections\<close>

type_synonym path_groups = "(string, bool \<times> string list) omap"

definition group_path :: "string \<Rightarrow> path_groups \<Rightarrow> path_groups" where
  "group_path path groups =
     (let at = (\<lambda>name. case map_of groups name of None \<Rightarrow> (False, []) | Some g \<Rightarrow> g)
      in case split_once path of
           None \<Rightarrow> omap_insert path (True, snd (at path)) groups
         | Some (name, rest) \<Rightarrow> omap_insert name (fst (at name), snd (at name) @ [rest]) groups)"

definition group_paths :: "string list \<Rightarrow> path_groups" where
  "group_paths paths = fold group_path paths []"

definition find_opt :: "(bytes \<Rightarrow> bytes) \<Rightarrow> memory_store \<Rightarrow> object_id option \<Rightarrow> string \<Rightarrow> error + node option" where
  "find_opt sha s dir name = (case dir of None \<Rightarrow> Inr None | Some d \<Rightarrow> find_in sha s d name)"

text \<open>\<open>intersect\<close>, with its insertions in order; the depth is bounded by \<open>fuel\<close>, at most the length of a path.\<close>

fun intersect :: "nat \<Rightarrow> (bytes \<Rightarrow> bytes) \<Rightarrow> memory_store \<Rightarrow> object_id option \<Rightarrow> object_id option \<Rightarrow> string \<Rightarrow> string list
    \<Rightarrow> error + string list"
  and intersect_each :: "nat \<Rightarrow> (bytes \<Rightarrow> bytes) \<Rightarrow> memory_store \<Rightarrow> object_id option \<Rightarrow> object_id option \<Rightarrow> string
    \<Rightarrow> path_groups \<Rightarrow> error + string list" where
  "intersect 0 sha s base head pre paths = Inl (Unsupported ''out of fuel'')"
| "intersect (Suc fuel) sha s base head pre paths =
     (if base = head then Inr [] else intersect_each fuel sha s base head pre (group_paths paths))"
| "intersect_each fuel sha s base head pre [] = Inr []"
| "intersect_each fuel sha s base head pre ((name, exact, deeper) # groups) =
     ebind (find_opt sha s base name) (\<lambda>before.
     ebind (find_opt sha s head name) (\<lambda>after.
     if before = after then intersect_each fuel sha s base head pre groups
     else
       (let path = pre @ name;
            files_differ = (Option.bind before node_file \<noteq> Option.bind after node_file);
            from' = Option.bind before node_dir; to = Option.bind after node_dir
        in ebind
             (if exact then
                ebind (diff_dir sha s from' to (path @ ''/'')) (\<lambda>under.
                Inr ((if files_differ then [path] else []) @ (if under \<noteq> [] then path # map fst under else [])))
              else Inr []) (\<lambda>at_path.
           ebind
             (if deeper \<noteq> [] then
                ebind (intersect fuel sha s from' to (path @ ''/'') deeper) (\<lambda>under.
                Inr ((if files_differ then path # map (\<lambda>rest. path @ ''/'' @ rest) deeper else []) @ under))
              else Inr []) (\<lambda>below_path.
           ebind (intersect_each fuel sha s base head pre groups) (\<lambda>others.
           Inr (at_path @ below_path @ others)))))))"

definition tree_intersections ::
  "(bytes \<Rightarrow> bytes) \<Rightarrow> memory_store \<Rightarrow> object_id \<Rightarrow> object_id \<Rightarrow> changes \<Rightarrow> error + string list" where
  "tree_intersections sha s base head changes =
     (let paths = map fst changes
      in ebind (intersect (weight changes + 1) sha s (Some base) (Some head) [] paths) (\<lambda>found. Inr (oset_of found)))"

end
