(* ===== verification/Levels.thy ===== *)
theory Levels
  imports Trees
begin

text \<open>
  The levels of a directory's prolly tree, apart from any store: merging sorted edits into sorted items,
  the chunks a level is cut into, and the level of summaries above it. The central lemma is
  \<open>relevel_correct\<close>: re-cutting only the chunks around the edits, up to the next boundary that meets an old
  one, gives the chunks of the edited level cut from scratch.
\<close>

section \<open>Items by name\<close>

definition asc :: "item list \<Rightarrow> bool" where
  "asc items \<longleftrightarrow> sorted_wrt (<) (map it_name items)"

definition item_of :: "item list \<Rightarrow> string \<Rightarrow> item option" where
  "item_of items = map_of (map (\<lambda>i. (it_name i, i)) items)"

definition edits_ok :: "edits \<Rightarrow> bool" where
  "edits_ok es \<longleftrightarrow> omap_ok es \<and> (\<forall>n i. (n, Some i) \<in> set es \<longrightarrow> it_name i = n)"

lemma asc_simps [simp]:
  "asc []" "asc (i # is) \<longleftrightarrow> asc is \<and> (\<forall>j \<in> set is. it_name i < it_name j)"
  "asc (xs @ ys) \<longleftrightarrow> asc xs \<and> asc ys \<and> (\<forall>i \<in> set xs. \<forall>j \<in> set ys. it_name i < it_name j)"
  by (auto simp: asc_def sorted_wrt_append)

lemma item_of_simps [simp]:
  "item_of [] n = None" "item_of (i # is) n = (if it_name i = n then Some i else item_of is n)"
  by (auto simp: item_of_def)

lemma item_of_append [simp]: "item_of (xs @ ys) n = (case item_of xs n of None \<Rightarrow> item_of ys n | Some i \<Rightarrow> Some i)"
  by (induction xs) auto

lemma item_of_None: "item_of is n = None \<longleftrightarrow> n \<notin> it_name ` set is"
  by (induction "is") auto

lemma item_of_Some: "item_of is n = Some i \<Longrightarrow> i \<in> set is \<and> it_name i = n"
  by (induction "is") (auto split: if_splits)

lemma item_of_mem: "asc is \<Longrightarrow> i \<in> set is \<Longrightarrow> item_of is (it_name i) = Some i"
  by (induction "is") auto

lemma item_of_mem_iff: "asc is \<Longrightarrow> item_of is n = Some i \<longleftrightarrow> i \<in> set is \<and> it_name i = n"
  using item_of_Some item_of_mem by blast

text \<open>Ascending items are determined by their lookup.\<close>

lemma asc_ext:
  assumes "asc xs" "asc ys" "\<And>n. item_of xs n = item_of ys n"
  shows "xs = ys"
proof -
  have same: "set xs = set ys"
    using assms by (metis item_of_Some item_of_mem subsetI subset_antisym)
  have inj: "inj_on it_name (set xs)"
    using assms(1) by (auto simp: asc_def strict_sorted_iff distinct_map)
  have "map it_name xs = map it_name ys"
    using assms(1,2) same by (intro sorted_distinct_set_unique)
      (auto simp: asc_def strict_sorted_iff)
  then show ?thesis using same inj by (simp add: inj_on_map_eq_map)
qed

lemma edits_ok_simps [simp]:
  "edits_ok []"
  "edits_ok ((n, e) # es) \<longleftrightarrow> edits_ok es \<and> (\<forall>m \<in> fst ` set es. n < m) \<and> (\<forall>i. e = Some i \<longrightarrow> it_name i = n)"
  "edits_ok (xs @ ys) \<longleftrightarrow> edits_ok xs \<and> edits_ok ys \<and> (\<forall>n \<in> fst ` set xs. \<forall>m \<in> fst ` set ys. n < m)"
  by (auto simp: edits_ok_def omap_ok_def sorted_wrt_append)

section \<open>Merging edits\<close>

text \<open>All edits merged into the items of a level.\<close>

fun merge_edits :: "item list \<Rightarrow> edits \<Rightarrow> item list" where
  "merge_edits items [] = items"
| "merge_edits [] ((n, x) # es) = (case x of None \<Rightarrow> merge_edits [] es | Some j \<Rightarrow> j # merge_edits [] es)"
| "merge_edits (i # rest) ((n, x) # es) =
     (if n \<le> it_name i then
        (case x of None \<Rightarrow> merge_edits (if n = it_name i then rest else i # rest) es
         | Some j \<Rightarrow> j # merge_edits (if n = it_name i then rest else i # rest) es)
      else i # merge_edits rest ((n, x) # es))"

lemma merge_edits_names:
  "edits_ok es \<Longrightarrow> j \<in> set (merge_edits items es) \<Longrightarrow> it_name j \<in> it_name ` set items \<union> fst ` set es"
proof (induction items es rule: merge_edits.induct)
  case (2 n x es)
  then show ?case by (cases x) auto
next
  case (3 i rest n x es)
  show ?case
  proof (cases "n \<le> it_name i")
    case True
    then have "j \<in> set (merge_edits (if n = it_name i then rest else i # rest) es) \<or> x = Some j"
      using 3(5) by (cases x) auto
    then show ?thesis using 3(1,2) [OF True] 3(4) by (cases x) (auto split: if_splits)
  qed (use 3 in auto)
qed auto

lemma merge_edits_spec:
  assumes "asc items" "edits_ok es"
  shows "asc (merge_edits items es)
    \<and> item_of (merge_edits items es) n = (case map_of es n of Some x \<Rightarrow> x | None \<Rightarrow> item_of items n)"
  using assms
proof (induction items es arbitrary: n rule: merge_edits.induct)
  case (2 m x es)
  have "m < it_name j" if "j \<in> set (merge_edits [] es)" for j
    using merge_edits_names [of es j "[]"] 2 that by auto
  moreover have "map_of es m = None" using 2 by (auto simp: map_of_eq_None_iff)
  ultimately show ?case using 2 by (auto split: option.splits)
next
  case (3 i rest m x es)
  show ?case
  proof (cases "m \<le> it_name i")
    case True
    let ?items = "if m = it_name i then rest else i # rest"
    have later: "m < it_name j" if "j \<in> set (merge_edits ?items es)" for j
      using merge_edits_names [of es j ?items] 3(4,5) True that by (auto split: if_splits)
    have ih: "asc (merge_edits ?items es)"
        "item_of (merge_edits ?items es) k = (case map_of es k of Some x \<Rightarrow> x | None \<Rightarrow> item_of ?items k)" for k
      using 3(1,2) [OF True] 3(4,5) by (cases x; auto)+
    have es: "map_of es m = None" using 3(5) by (auto simp: map_of_eq_None_iff)
    have rest: "item_of (i # rest) k = (if k = m then item_of (i # rest) m else item_of ?items k)" for k
      by auto
    have none: "item_of ?items m = None" using True 3(4) by (auto simp: item_of_None not_le)
    have eq: "merge_edits (i # rest) ((m, x) # es) = (case x of None \<Rightarrow> [] | Some j \<Rightarrow> [j]) @ merge_edits ?items es"
      using True by (cases x) auto
    have "asc (merge_edits (i # rest) ((m, x) # es))"
      unfolding eq using ih(1) later 3(5) by (cases x) auto
    moreover have "item_of (merge_edits (i # rest) ((m, x) # es)) n
      = (case map_of ((m, x) # es) n of Some x \<Rightarrow> x | None \<Rightarrow> item_of (i # rest) n)"
    proof (cases "n = m")
      case True
      then show ?thesis unfolding eq using 3(5) ih(2) [of m] es none by (cases x) auto
    next
      case False
      then have "item_of (merge_edits (i # rest) ((m, x) # es)) n = item_of (merge_edits ?items es) n"
        unfolding eq using 3(5) by (cases x) auto
      then show ?thesis unfolding rest(1) [of n] using False ih(2) [of n] by simp
    qed
    ultimately show ?thesis by blast
  next
    case False
    then have lt: "it_name i < m" by simp
    have ih: "asc (merge_edits rest ((m, x) # es))"
        "item_of (merge_edits rest ((m, x) # es)) k = (case map_of ((m, x) # es) k of Some x \<Rightarrow> x | None \<Rightarrow> item_of rest k)" for k
      using 3(3) [OF False] 3(4,5) by auto
    have "it_name i < it_name j" if "j \<in> set (merge_edits rest ((m, x) # es))" for j
      using merge_edits_names [OF 3(5) that] 3(4,5) lt by (auto intro: less_trans)
    moreover have "map_of es (it_name i) = None" using 3(5) lt by (fastforce simp: map_of_eq_None_iff)
    ultimately show ?thesis using False ih lt by (auto split: option.splits)
  qed
qed auto

lemmas merge_edits_asc = conjunct1 [OF merge_edits_spec]
lemmas merge_edits_of = conjunct2 [OF merge_edits_spec]

lemma merge_edits_append:
  assumes "asc (xs @ ys)" "edits_ok (es @ fs)"
    "\<forall>n \<in> fst ` set es. \<forall>j \<in> set ys. n < it_name j" "\<forall>i \<in> set xs. \<forall>m \<in> fst ` set fs. it_name i < m"
  shows "merge_edits (xs @ ys) (es @ fs) = merge_edits xs es @ merge_edits ys fs"
proof (rule asc_ext)
  have ok: "asc xs" "asc ys" "edits_ok es" "edits_ok fs" using assms by auto
  have less: "it_name i < it_name j" if "i \<in> set (merge_edits xs es)" "j \<in> set (merge_edits ys fs)" for i j
    using merge_edits_names [OF ok(3) that(1)] merge_edits_names [OF ok(4) that(2)] assms by fastforce
  show "asc (merge_edits (xs @ ys) (es @ fs))" by (rule merge_edits_asc [OF assms(1,2)])
  show "asc (merge_edits xs es @ merge_edits ys fs)" using less merge_edits_asc ok by simp
  show "item_of (merge_edits (xs @ ys) (es @ fs)) n = item_of (merge_edits xs es @ merge_edits ys fs) n" for n
  proof -
    have 1: "map_of fs n = None" if "n \<in> it_name ` set xs \<union> fst ` set es"
      using assms that by (fastforce simp: map_of_eq_None_iff)
    have 2: "item_of ys n = None" if "n \<in> it_name ` set xs \<union> fst ` set es"
      using assms that by (fastforce simp: item_of_None)
    have 3: "item_of xs n = None" "map_of es n = None" if "n \<notin> it_name ` set xs \<union> fst ` set es"
      using that by (auto simp: item_of_None map_of_eq_None_iff)
    show ?thesis
      using 1 2 3 by (cases "n \<in> it_name ` set xs \<union> fst ` set es")
        (auto simp: merge_edits_of [OF assms(1,2)] merge_edits_of ok map_add_def split: option.splits)
  qed
qed

lemma merge_run_None: "merge_run None items es = (merge_edits items es, [])"
  by (induction items es rule: merge_edits.induct) (auto split: option.splits)

lemma merge_run_Some:
  assumes "asc items" "edits_ok es" "\<forall>i \<in> set items. it_name i \<le> e"
  shows "merge_run (Some e) items es =
    (merge_edits items (takeWhile (\<lambda>(n, _). n \<le> e) es), dropWhile (\<lambda>(n, _). n \<le> e) es)"
  using assms
proof (induction items es rule: merge_edits.induct)
  case (2 n x es)
  then show ?case by (cases x) auto
next
  case (3 i rest n x es)
  show ?case
  proof (cases "n \<le> it_name i")
    case True
    then have e: "n \<le> e" using 3(6) by (auto intro: order_trans)
    have "merge_run (Some e) (if n = it_name i then rest else i # rest) es
      = (merge_edits (if n = it_name i then rest else i # rest) (takeWhile (\<lambda>(n, _). n \<le> e) es), dropWhile (\<lambda>(n, _). n \<le> e) es)"
      using 3(1,2) [OF True] 3(4-6) by (cases x) auto
    then show ?thesis using True e by (cases x) auto
  next
    case False
    have "merge_run (Some e) rest ((n, x) # es)
      = (merge_edits rest (takeWhile (\<lambda>(n, _). n \<le> e) ((n, x) # es)), dropWhile (\<lambda>(n, _). n \<le> e) ((n, x) # es))"
      by (rule 3(3) [OF False]) (use 3(4-6) in auto)
    then show ?thesis using False by (cases "n \<le> e") auto
  qed
qed auto

text \<open>The merge at the root is the same merge.\<close>

lemma merge_root_edits:
  "merge_root items es = merge_edits items es"
proof (induction items es rule: merge_edits.induct)
  case (2 n x es)
  then show ?case by (cases x) auto
next
  case (3 i rest n x es)
  show ?case
  proof (cases "n \<le> it_name i")
    case True
    then show ?thesis using 3(1,2) [OF True] by (cases x) (auto simp: Let_def)
  next
    case False
    then show ?thesis using 3(3) by (auto simp: Let_def)
  qed
next
  case (1 items)
  then show ?case by (induction items) (simp_all add: Let_def)
qed

section \<open>The chunks of a level\<close>

text \<open>A closed chunk ends at a boundary: cutting its items alone gives it back and leaves the chunker empty.\<close>

definition closed_chunk :: "(bytes \<Rightarrow> bytes) \<Rightarrow> nat \<Rightarrow> chunk \<Rightarrow> bool" where
  "closed_chunk sha l c \<longleftrightarrow> cut_items sha (ch_items c) (chunker_new l) = ([c], chunker_new l)"

abbreviation items_of :: "chunk list \<Rightarrow> item list" where
  "items_of cs \<equiv> concat (map ch_items cs)"

abbreviation finished :: "chunker \<Rightarrow> chunk list" where
  "finished ck \<equiv> (case chunker_finish ck of None \<Rightarrow> [] | Some c \<Rightarrow> [c])"

lemma cut_items_closed:
  assumes "cut_items sha (ck_items ck) (chunker_new l) = ([], ck)" "cut_items sha is ck = (cs, ck')"
  shows "list_all (closed_chunk sha l) cs \<and> cut_items sha (ck_items ck') (chunker_new l) = ([], ck')"
  using assms
proof (induction "is" arbitrary: ck cs)
  case (Cons i "is")
  obtain d ck1 where p: "chunker_push sha i ck = (d, ck1)" by fastforce
  obtain ds where r: "cut_items sha is ck1 = (ds, ck')" using Cons.prems(2) p by (auto split: prod.splits)
  have level: "ck_level ck = l"
    using cut_items_spec [OF Cons.prems(1) chunker_new_ok(1) chunker_new_ok(3)] by simp
  show ?case
  proof (cases d)
    case None
    then have "cut_items sha (ck_items ck1) (chunker_new l) = ([], ck1)"
      using Cons.prems(1) push_None(1) [OF p [unfolded None]] p by (simp add: cut_items_append)
    then show ?thesis using Cons.IH [OF _ r] Cons.prems(2) p r None by simp
  next
    case (Some c)
    note q = push_Some [OF p [unfolded Some]]
    have c: "closed_chunk sha l c"
      using Cons.prems(1) p level by (simp add: closed_chunk_def q cut_items_append Some)
    have "cut_items sha (ck_items ck1) (chunker_new l) = ([], ck1)" using q(3) level by simp
    then show ?thesis using Cons.IH [OF _ r] Cons.prems(2) p r Some c by auto
  qed
qed auto

lemma cut_closed_items: "list_all (closed_chunk sha l) cs \<Longrightarrow> cut_items sha (items_of cs) (chunker_new l) = (cs, chunker_new l)"
  by (induction cs) (simp_all add: cut_items_append closed_chunk_def)

lemma cut_level_append:
  assumes "cut_items sha xs (chunker_new l) = (cs, chunker_new l)"
  shows "cut_level sha l (xs @ ys) = cs @ cut_level sha l ys"
  using assms by (simp add: cut_level_def cut_items_append split_def)

lemma cut_level_closed:
  "list_all (closed_chunk sha l) cs \<Longrightarrow> cut_level sha l (items_of cs @ ys) = cs @ cut_level sha l ys"
  by (rule cut_level_append [OF cut_closed_items])

text \<open>The chunks that cutting some items gives.\<close>

definition cut_chunks :: "(bytes \<Rightarrow> bytes) \<Rightarrow> nat \<Rightarrow> chunk list \<Rightarrow> bool" where
  "cut_chunks sha l C \<longleftrightarrow> cut_level sha l (items_of C) = C"

lemma cut_level_items: "items_of (cut_level sha l items) = items"
proof -
  obtain cs ck where c: "cut_items sha items (chunker_new l) = (cs, ck)" by fastforce
  have "items_of cs @ ck_items ck = items"
    using cut_items_spec [OF c chunker_new_ok(1) chunker_new_ok(3)] by simp
  then show ?thesis by (cases "ck_items ck = []") (simp_all add: cut_level_def c chunker_finish_cases)
qed

lemma cut_level_chunk:
  assumes "c \<in> set (cut_level sha l items)"
  shows "cut_chunk_ok l c"
proof -
  obtain cs ck where c: "cut_items sha items (chunker_new l) = (cs, ck)" by fastforce
  have s: "chunker_ok ck" "ck_level ck = l" "list_all (cut_chunk_ok l) cs"
    using cut_items_spec [OF c chunker_new_ok(1) chunker_new_ok(3)] by simp_all
  show ?thesis
    using assms s finish_chunk_ok [OF s(1)]
    by (auto simp: cut_level_def c chunker_finish_cases list_all_iff split: if_splits)
qed

lemma cut_level_cut_chunks [intro, simp]: "cut_chunks sha l (cut_level sha l items)"
  by (simp add: cut_chunks_def cut_level_items)

lemma cut_level_parts:
  "list_all (closed_chunk sha l) (butlast (cut_level sha l items))
   \<and> (items \<noteq> [] \<longrightarrow> cut_level sha l (ch_items (last (cut_level sha l items))) = [last (cut_level sha l items)])"
proof -
  obtain cs ck where c: "cut_items sha items (chunker_new l) = (cs, ck)" by fastforce
  have "cut_items sha (ck_items (chunker_new l)) (chunker_new l) = ([], chunker_new l)" by simp
  from cut_items_closed [OF this c]
  have cl: "list_all (closed_chunk sha l) cs" "cut_items sha (ck_items ck) (chunker_new l) = ([], ck)" by simp_all
  have s: "items_of cs @ ck_items ck = items" "ck_level ck = l"
    using cut_items_spec [OF c chunker_new_ok(1) chunker_new_ok(3)] by simp_all
  show ?thesis
  proof (cases "ck_items ck = []")
    case True
    then have e: "cut_level sha l items = cs" by (simp add: cut_level_def c chunker_finish_cases)
    have "cut_level sha l (ch_items (last cs)) = [last cs]" if "items \<noteq> []"
    proof -
      have "cs \<noteq> []" using that s True by auto
      then have "closed_chunk sha l (last cs)" using cl(1) by (simp add: list_all_iff)
      then show ?thesis using cut_level_closed [of sha l "[last cs]" "[]"] by (simp add: cut_level_def chunker_finish_cases)
    qed
    then show ?thesis unfolding e using cl(1) by (auto simp: list_all_iff dest: in_set_butlastD)
  next
    case False
    let ?c = "\<lparr>ch_level = l, ch_items = ck_items ck\<rparr>"
    have e: "cut_level sha l items = cs @ [?c]" using False s by (simp add: cut_level_def c chunker_finish_cases)
    then show ?thesis using cl False s(2) by (simp add: cut_level_def chunker_finish_cases)
  qed
qed

lemma cut_level_Nil [simp]: "cut_level sha l [] = []"
  by (simp add: cut_level_def chunker_finish_cases)

lemma cut_level_eq_Nil [simp]: "cut_level sha l items = [] \<longleftrightarrow> items = []"
  using cut_level_items [of sha l items] by auto

lemma cut_chunks_append:
  assumes "cut_chunks sha l (A @ B)" "B \<noteq> []"
  shows "list_all (closed_chunk sha l) A" "cut_chunks sha l B"
proof -
  have "list_all (closed_chunk sha l) (butlast (A @ B))"
    using cut_level_parts [of sha l "items_of (A @ B)"] assms(1) by (simp add: cut_chunks_def)
  then show A: "list_all (closed_chunk sha l) A" using assms(2) by (simp add: butlast_append)
  show "cut_chunks sha l B"
    using assms(1) cut_level_closed [OF A, of "items_of B"] by (simp add: cut_chunks_def)
qed

lemma cut_chunks_ok: "cut_chunks sha l C \<Longrightarrow> c \<in> set C \<Longrightarrow> cut_chunk_ok l c"
  unfolding cut_chunks_def by (metis cut_level_chunk)

lemma cut_chunks_nonempty: "cut_chunks sha l C \<Longrightarrow> c \<in> set C \<Longrightarrow> ch_items c \<noteq> []"
  using cut_chunks_ok by (auto simp: cut_chunk_ok_def)

lemma chunk_last_in: "ch_items c \<noteq> [] \<Longrightarrow> chunk_last c \<in> it_name ` set (ch_items c)"
  by (simp add: chunk_last_def)

lemma chunk_last_ge: "asc (ch_items c) \<Longrightarrow> i \<in> set (ch_items c) \<Longrightarrow> it_name i \<le> chunk_last c"
  by (cases "ch_items c" rule: rev_cases) (auto simp: chunk_last_def)

section \<open>The level above\<close>

definition summary_item :: "(bytes \<Rightarrow> bytes) \<Rightarrow> chunk \<Rightarrow> item" where
  "summary_item sha c = \<lparr>it_name = chunk_last c, it_tag = CHILD, it_id = chunk_id sha c\<rparr>"

abbreviation up :: "(bytes \<Rightarrow> bytes) \<Rightarrow> chunk list \<Rightarrow> item list" where
  "up sha C \<equiv> map (summary_item sha) C"

lemma summary_item_simps [simp]:
  "it_name (summary_item sha c) = chunk_last c" "it_tag (summary_item sha c) = CHILD"
  "it_id (summary_item sha c) = chunk_id sha c"
  by (simp_all add: summary_item_def)

lemma asc_up: "asc (items_of C) \<Longrightarrow> \<forall>c \<in> set C. ch_items c \<noteq> [] \<Longrightarrow> asc (up sha C)"
proof (induction C)
  case (Cons c C)
  have "chunk_last c < chunk_last d" if "d \<in> set C" for d
    using chunk_last_in [of c] chunk_last_in [of d] Cons.prems that by fastforce
  then show ?case using Cons by auto
qed simp

section \<open>Re-cutting around the edits\<close>

text \<open>One run over the chunks from the first one an edit falls in, until a new boundary meets an old one. It
  yields the chunks and the edits after the run, the new chunks and the old ones.\<close>

fun recut :: "(bytes \<Rightarrow> bytes) \<Rightarrow> nat \<Rightarrow> chunk list \<Rightarrow> edits \<Rightarrow> chunker \<Rightarrow> chunk list \<times> edits \<times> chunk list \<times> chunk list" where
  "recut sha l [] es ck = ([], es, finished ck, [])"
| "recut sha l (c # cs) es ck =
     (case merge_run (if cs = [] then None else Some (chunk_last c)) (ch_items c) es of (items, es) \<Rightarrow>
     (case cut_items sha items ck of (done', ck) \<Rightarrow>
      if cs = [] \<or> ck_items ck = [] then (cs, es, done' @ finished ck, [c])
      else
        (case recut sha l cs es ck of (others, es, new, old) \<Rightarrow> (others, es, done' @ new, c # old))))"

lemma takeWhile_less_append:
  fixes es :: "(string \<times> 'a) list"
  shows "takeWhile (\<lambda>(n, _). n \<le> e) es @ dropWhile (\<lambda>(n, _). n \<le> e) es = es"
    "\<forall>n \<in> fst ` set (takeWhile (\<lambda>(n, _). n \<le> e) es). n \<le> e"
    "omap_ok es \<Longrightarrow> \<forall>n \<in> fst ` set (dropWhile (\<lambda>(n, _). n \<le> e) es). e < n"
proof -
  show "\<forall>n \<in> fst ` set (takeWhile (\<lambda>(n, _). n \<le> e) es). n \<le> e"
    by (auto dest: set_takeWhileD)
  show "\<forall>n \<in> fst ` set (dropWhile (\<lambda>(n, _). n \<le> e) es). e < n" if "omap_ok es"
    using that
  proof (induction es)
    case (Cons x es)
    obtain n v where x: "x = (n, v)" by (cases x)
    show ?case
    proof (cases "n \<le> e")
      case True
      then show ?thesis using Cons by (simp add: x)
    next
      case False
      then show ?thesis using Cons.prems by (auto simp: x intro: less_trans)
    qed
  qed simp
qed simp

text \<open>What a run does: it replaces the old chunks by those cut from their items merged with the edits up to their
  last name, and leaves no items over unless it reaches the end.\<close>

lemma recut_spec:
  assumes "recut sha l C es ck = (others, es', new, old)" "C \<noteq> []"
    "asc (items_of C)" "\<forall>c \<in> set C. ch_items c \<noteq> []" "edits_ok es"
  shows "C = old @ others \<and> old \<noteq> [] \<and>
    (\<exists>E done' ck'. es = E @ es' \<and> cut_items sha (merge_edits (items_of old) E) ck = (done', ck')
      \<and> new = done' @ finished ck'
      \<and> (if others = [] then es' = []
         else ck_items ck' = [] \<and> (\<forall>n \<in> fst ` set E. n \<le> chunk_last (last old))
              \<and> (\<forall>n \<in> fst ` set es'. chunk_last (last old) < n)))"
  using assms
proof (induction C arbitrary: es ck new old)
  case (Cons c cs)
  show ?case
  proof (cases "cs = []")
    case True
    obtain done1 ck1 where p: "cut_items sha (merge_edits (ch_items c) es) ck = (done1, ck1)" by fastforce
    then have "others = [] \<and> es' = [] \<and> new = done1 @ finished ck1 \<and> old = [c]"
      using Cons.prems(1) True by (simp add: merge_run_None)
    then show ?thesis using p True by simp
  next
    case False
    let ?e = "chunk_last c"
    let ?E = "takeWhile (\<lambda>(n, _). n \<le> ?e) es" and ?F = "dropWhile (\<lambda>(n, _). n \<le> ?e) es"
    have asc: "asc (ch_items c)" "asc (items_of cs)" "ch_items c \<noteq> []" using Cons.prems by auto
    have ok: "omap_ok es" using Cons.prems by (simp add: edits_ok_def)
    note tw = takeWhile_less_append(1,2) [where es = es and e = ?e] takeWhile_less_append(3) [OF ok, of ?e]
    have okE: "edits_ok ?E" "edits_ok ?F" using Cons.prems(5) tw(1) edits_ok_simps(3) by metis+
    have run: "merge_run (Some ?e) (ch_items c) es = (merge_edits (ch_items c) ?E, ?F)"
      using chunk_last_ge [OF asc(1)] asc Cons.prems(5) by (intro merge_run_Some) auto
    obtain done1 ck1 where p: "cut_items sha (merge_edits (ch_items c) ?E) ck = (done1, ck1)" by fastforce
    show ?thesis
    proof (cases "ck_items ck1 = []")
      case True
      then have d: "others = cs" "es' = ?F" "new = done1 @ finished ck1" "old = [c]"
        using Cons.prems(1) False run p by simp_all
      have "cut_items sha (merge_edits (items_of old) ?E) ck = (done1, ck1)" using p d(4) by simp
      moreover have "\<forall>n \<in> fst ` set ?E. n \<le> chunk_last (last old)" "\<forall>n \<in> fst ` set es'. chunk_last (last old) < n"
        using tw(2,3) d(2,4) by simp_all
      moreover have "es = ?E @ es'" using tw(1) d(2) by simp
      moreover have "c # cs = old @ others" "old \<noteq> []" using d by simp_all
      ultimately show ?thesis using True False d(1,3) by metis
    next
      case more: False
      obtain new2 old2 where r: "recut sha l cs ?F ck1 = (others, es', new2, old2)" "new = done1 @ new2" "old = c # old2"
        using Cons.prems(1) False run p more by (auto split: prod.splits)
      have "\<forall>c \<in> set cs. ch_items c \<noteq> []" using Cons.prems(4) by simp
      from Cons.IH [OF r(1) False asc(2) this okE(2)]
      obtain E done2 ck2 where ih: "cs = old2 @ others" "old2 \<noteq> []" "?F = E @ es'"
          "cut_items sha (merge_edits (items_of old2) E) ck1 = (done2, ck2)" "new2 = done2 @ finished ck2"
          "if others = [] then es' = [] else ck_items ck2 = [] \<and> (\<forall>n \<in> fst ` set E. n \<le> chunk_last (last old2))
            \<and> (\<forall>n \<in> fst ` set es'. chunk_last (last old2) < n)"
        by blast
      have cat: "(?E @ E) @ es' = es" using tw(1) ih(3) by (metis append.assoc)
      have "?e \<in> it_name ` set (ch_items c)" using chunk_last_in asc(3) .
      then have gap: "\<forall>j \<in> set (items_of cs). ?e < it_name j" using Cons.prems(3) by auto
      have "merge_edits (items_of old) (?E @ E) = merge_edits (ch_items c) ?E @ merge_edits (items_of old2) E"
        unfolding r(3) list.map concat.simps
      proof (rule merge_edits_append)
        show "asc (ch_items c @ items_of old2)" using Cons.prems(3) ih(1) by auto
        show "edits_ok (?E @ E)" using Cons.prems(5) cat edits_ok_simps(3) by metis
        show "\<forall>n \<in> fst ` set ?E. \<forall>j \<in> set (items_of old2). n < it_name j"
          using tw(2) gap unfolding ih(1) by (auto intro: le_less_trans)
        have "\<forall>m \<in> fst ` set E. ?e < m" using tw(3) ih(3) by (metis UnI1 image_Un set_append)
        then show "\<forall>i \<in> set (ch_items c). \<forall>m \<in> fst ` set E. it_name i < m"
          using chunk_last_ge [OF asc(1)] by (auto intro: le_less_trans)
      qed
      then have cut: "cut_items sha (merge_edits (items_of old) (?E @ E)) ck = (done1 @ done2, ck2)"
        using p ih(4) by (simp add: cut_items_append)
      have "\<forall>n \<in> fst ` set (?E @ E). n \<le> chunk_last (last old)" if "others \<noteq> []"
      proof -
        have "?e < chunk_last (last old2)"
        proof -
          have "last old2 \<in> set cs" using ih(1,2) by simp
          then have "chunk_last (last old2) \<in> it_name ` set (items_of cs)"
            using chunk_last_in [of "last old2"] Cons.prems(4) by fastforce
          then show ?thesis using gap by auto
        qed
        then show ?thesis using tw(2) ih(2,6) that r(3) by (auto intro: order_trans less_imp_le)
      qed
      then show ?thesis
        using cat cut ih(1,2,5,6) r(2,3)
        by (intro conjI exI [of _ "?E @ E"] exI [of _ "done1 @ done2"] exI [of _ ck2]) (simp_all split: if_splits)
    qed
  qed
qed simp

lemma recut_shorter: "recut sha l C es ck = (others, es', new, old) \<Longrightarrow> C \<noteq> [] \<Longrightarrow> length others < length C"
proof (induction C arbitrary: es ck new old)
  case (Cons c cs)
  then show ?case by (cases "cs = []") (fastforce split: prod.splits if_splits)+
qed simp

text \<open>The chunks before the first one that an edit of \<open>n\<close> falls in.\<close>

definition ahead :: "string \<Rightarrow> chunk list \<Rightarrow> chunk list" where
  "ahead n C = takeWhile (\<lambda>c. chunk_last c < n) (butlast C)"

lemma ahead_append: "C \<noteq> [] \<Longrightarrow> \<exists>c B. C = ahead n C @ c # B \<and> (B \<noteq> [] \<longrightarrow> n \<le> chunk_last c)
    \<and> (\<forall>a \<in> set (ahead n C). chunk_last a < n)"
proof -
  assume C: "C \<noteq> []"
  let ?A = "ahead n C"
  let ?D = "dropWhile (\<lambda>c. chunk_last c < n) (butlast C)"
  have b: "butlast C = ?A @ ?D" by (simp add: ahead_def)
  have all: "\<forall>a \<in> set ?A. chunk_last a < n" by (auto simp: ahead_def dest: set_takeWhileD)
  have c: "C = ?A @ ?D @ [last C]" using C b by (metis append.assoc append_butlast_last_id)
  show ?thesis
  proof (cases ?D)
    case Nil
    then have "C = ?A @ [last C]" using c by (metis append_Nil)
    then show ?thesis using all by blast
  next
    case (Cons d D)
    then have "\<not> chunk_last d < n" using hd_dropWhile [of "\<lambda>c. chunk_last c < n" "butlast C"] by auto
    moreover have "C = ?A @ d # (D @ [last C])" using c Cons by simp
    ultimately show ?thesis using all by (metis linorder_not_less)
  qed
qed

text \<open>All the runs of a level: the new chunks, and the old and new ones of each run.\<close>

function relevel :: "(bytes \<Rightarrow> bytes) \<Rightarrow> nat \<Rightarrow> chunk list \<Rightarrow> edits \<Rightarrow> chunk list \<times> (chunk list \<times> chunk list) list" where
  "relevel sha l C es =
     (if C = [] \<or> es = [] then (C, [])
      else
        (let A = ahead (fst (hd es)) C
         in case recut sha l (drop (length A) C) es (chunker_new l) of (others, es, new, old) \<Rightarrow>
            (case relevel sha l others es of (C, runs) \<Rightarrow> (A @ new @ C, (old, new) # runs))))"
  by pat_completeness auto
termination
proof (relation "measure (\<lambda>(_, _, C, _). length C)", goal_cases)
  case (2 sha l C es A others y es' z new old)
  obtain c B where "C = A @ c # B" using ahead_append [of C] 2(1,2) by blast
  then have "drop (length A) C \<noteq> []" by simp
  moreover have "\<exists>es' new old. recut sha l (drop (length A) C) es (chunker_new l) = (others, es', new, old)"
    using 2(2,3) by (metis surj_pair)
  ultimately have "length others < length (drop (length A) C)" using recut_shorter by blast
  then show ?case by simp
qed simp

declare relevel.simps [simp del]

text \<open>The edits of the level above that a run records, as \<open>update_level\<close> does.\<close>

definition record_run :: "string list \<Rightarrow> item list \<Rightarrow> edits \<Rightarrow> edits" where
  "record_run gone added out =
     fold (\<lambda>i out. omap_insert (it_name i) (Some i) out) added (fold (\<lambda>n out. omap_insert n None out) gone out)"

definition record_runs :: "(bytes \<Rightarrow> bytes) \<Rightarrow> (chunk list \<times> chunk list) list \<Rightarrow> edits \<Rightarrow> edits" where
  "record_runs sha runs out = fold (\<lambda>(old, new) out. record_run (map chunk_last old) (up sha new) out) runs out"

lemma fold_gone:
  "omap_ok out \<Longrightarrow> omap_ok (fold (\<lambda>n out. omap_insert n None out) gone out)
   \<and> map_of (fold (\<lambda>n out. omap_insert n None out) gone out) n = (if n \<in> set gone then Some None else map_of out n)"
  by (induction gone arbitrary: out) (auto simp: map_of_omap_insert)

lemma fold_added:
  "omap_ok out \<Longrightarrow> asc added \<Longrightarrow> omap_ok (fold (\<lambda>i out. omap_insert (it_name i) (Some i) out) added out)
   \<and> map_of (fold (\<lambda>i out. omap_insert (it_name i) (Some i) out) added out) n
     = (case item_of added n of Some i \<Rightarrow> Some (Some i) | None \<Rightarrow> map_of out n)"
proof (induction added arbitrary: out)
  case (Cons i added)
  have "item_of added (it_name i) = None" using Cons.prems by (auto simp: item_of_None)
  then show ?case
    using Cons by (auto simp: map_of_omap_insert split: option.splits)
qed simp

lemma record_run_spec:
  assumes "omap_ok out" "asc added"
  shows "omap_ok (record_run gone added out)"
    "map_of (record_run gone added out) n =
      (case item_of added n of Some i \<Rightarrow> Some (Some i) | None \<Rightarrow> if n \<in> set gone then Some None else map_of out n)"
  using fold_added [OF _ assms(2)] fold_gone [OF assms(1)] unfolding record_run_def
  by (auto split: option.splits)

lemma edits_ok_iff:
  "edits_ok out \<longleftrightarrow> omap_ok out \<and> (\<forall>n i. map_of out n = Some (Some i) \<longrightarrow> it_name i = n)"
  by (auto simp: edits_ok_def omap_map_of_iff)

lemma record_run_ok: "edits_ok out \<Longrightarrow> asc added \<Longrightarrow> edits_ok (record_run gone added out)"
  by (auto simp: edits_ok_iff record_run_spec split: option.splits if_splits dest: item_of_Some)

lemma record_runs_ok:
  "edits_ok out \<Longrightarrow> \<forall>(old, new) \<in> set runs. asc (up sha new) \<Longrightarrow> edits_ok (record_runs sha runs out)"
  by (induction runs arbitrary: out) (auto simp: record_runs_def record_run_ok)

lemma record_runs_append:
  "edits_ok out \<Longrightarrow> \<forall>(old, new) \<in> set runs. asc (up sha new) \<Longrightarrow>
   map_of (record_runs sha runs out) n
     = (case map_of (record_runs sha runs []) n of Some x \<Rightarrow> Some x | None \<Rightarrow> map_of out n)"
proof (induction runs arbitrary: out)
  case (Cons r runs)
  obtain old new where r: "r = (old, new)" by (cases r)
  let ?run = "record_run (map chunk_last old) (up sha new)"
  have asc: "asc (up sha new)" "\<forall>(old, new) \<in> set runs. asc (up sha new)" using Cons.prems(2) by (auto simp: r)
  have ok: "edits_ok (?run out)" "edits_ok (?run [])" using Cons.prems(1) asc(1) by (auto intro: record_run_ok)
  have "omap_ok out" using Cons.prems(1) by (simp add: edits_ok_def)
  then show ?case
    using Cons.IH [OF ok(1) asc(2)] Cons.IH [OF ok(2) asc(2)] asc(1)
    by (auto simp: r record_runs_def record_run_spec split: option.splits)
qed (simp add: record_runs_def)

section \<open>Re-cutting is cutting\<close>

lemma recut_level:
  assumes "C \<noteq> []" "es \<noteq> []" "cut_chunks sha l C" "asc (items_of C)" "edits_ok es"
    "A = ahead (fst (hd es)) C"
    "recut sha l (drop (length A) C) es (chunker_new l) = (others, es', new, old)"
  shows "C = A @ old @ others" "old \<noteq> []" "asc (items_of new)" "\<forall>c \<in> set new. ch_items c \<noteq> []"
    "cut_level sha l (merge_edits (items_of C) es) = A @ new @ cut_level sha l (merge_edits (items_of others) es')"
    "edits_ok es'" "others = [] \<Longrightarrow> es' = []"
    "items_of (A @ new) @ merge_edits (items_of others) es' = merge_edits (items_of C) es"
    "others \<noteq> [] \<Longrightarrow> \<forall>n \<in> fst ` set es'. chunk_last (last old) < n"
    "others \<noteq> [] \<Longrightarrow> \<forall>c \<in> set new. \<forall>d \<in> set others. chunk_last c < chunk_last d"
proof -
  let ?n = "fst (hd es)"
  obtain c B where B: "C = A @ c # B" "\<forall>a \<in> set A. chunk_last a < ?n"
    using ahead_append [OF assms(1), of ?n] assms(6) by blast
  have ne: "\<forall>c \<in> set C. ch_items c \<noteq> []" using cut_chunks_nonempty [OF assms(3)] by blast
  have d: "drop (length A) C = c # B" using B(1) by simp
  have ascB: "asc (items_of (c # B))" using assms(4) B(1) by simp
  have neB: "\<forall>c \<in> set (c # B). ch_items c \<noteq> []" using ne B(1) by simp
  obtain E done' ck' where r: "c # B = old @ others" "old \<noteq> []" "es = E @ es'"
      "cut_items sha (merge_edits (items_of old) E) (chunker_new l) = (done', ck')" "new = done' @ finished ck'"
      "if others = [] then es' = [] else ck_items ck' = [] \<and> (\<forall>n \<in> fst ` set E. n \<le> chunk_last (last old))
        \<and> (\<forall>n \<in> fst ` set es'. chunk_last (last old) < n)"
    using recut_spec [OF assms(7) [unfolded d] _ ascB neB assms(5)] by blast
  show C: "C = A @ old @ others" using B(1) r(1) by simp
  show "old \<noteq> []" by (rule r(2))
  show okes': "edits_ok es'" using assms(5) r(3) by simp
  show last: "others = [] \<Longrightarrow> es' = []" using r(6) by simp
  show gap: "\<forall>n \<in> fst ` set es'. chunk_last (last old) < n" if "others \<noteq> []" using r(6) that by simp
  have okE: "edits_ok E" using assms(5) r(3) by simp
  let ?X = "merge_edits (items_of old) E"
  have ascold: "asc (items_of old)" using assms(4) C by simp
  have X: "items_of new = ?X" "new = cut_level sha l ?X"
  proof -
    show "new = cut_level sha l ?X" using r(4,5) by (simp add: cut_level_def)
    then show "items_of new = ?X" by (simp add: cut_level_items)
  qed
  show "asc (items_of new)" unfolding X(1) by (rule merge_edits_asc [OF ascold okE])
  show "\<forall>c \<in> set new. ch_items c \<noteq> []" unfolding X(2) using cut_level_chunk by (auto simp: cut_chunk_ok_def)
  have closed: "list_all (closed_chunk sha l) A" using cut_chunks_append(1) [of sha l A "c # B"] assms(3) B(1) by simp
  have le: "it_name i \<le> chunk_last (last old)" if "i \<in> set (items_of old)" for i
  proof -
    obtain o1 o2 where o: "old = o1 @ [o2]" using r(2) by (metis append_butlast_last_id)
    have "o2 \<in> set C" using o C by simp
    then have "chunk_last o2 \<in> it_name ` set (ch_items o2)" using ne chunk_last_in by blast
    then show ?thesis using that ascold chunk_last_ge [of o2] unfolding o by (fastforce intro: less_imp_le)
  qed
  have gt: "chunk_last (last old) < it_name i" if "i \<in> set (items_of others)" for i
  proof -
    have "last old \<in> set C" using r(2) C by simp
    then have "chunk_last (last old) \<in> it_name ` set (items_of old)"
      using ne chunk_last_in [of "last old"] r(2) by fastforce
    then show ?thesis using that assms(4) C by auto
  qed
  show "\<forall>c \<in> set new. \<forall>d \<in> set others. chunk_last c < chunk_last d" if "others \<noteq> []"
  proof (intro ballI)
    fix c d assume c: "c \<in> set new" and d: "d \<in> set others"
    have "ch_items c \<noteq> []" using c X(2) cut_level_chunk by (auto simp: cut_chunk_ok_def)
    then have "chunk_last c \<in> it_name ` set (items_of new)" using chunk_last_in [of c] c by auto
    then obtain i where i: "i \<in> set ?X" "it_name i = chunk_last c" unfolding X(1) by fastforce
    have "chunk_last c \<le> chunk_last (last old)"
    proof -
      have "\<forall>n \<in> fst ` set E. n \<le> chunk_last (last old)" using r(6) that by simp
      moreover have "\<forall>n \<in> it_name ` set (items_of old). n \<le> chunk_last (last old)" using le by blast
      ultimately show ?thesis using merge_edits_names [OF okE i(1)] unfolding i(2) by blast
    qed
    also have "chunk_last (last old) < chunk_last d"
      using gt chunk_last_in [of d] ne C d by fastforce
    finally show "chunk_last c < chunk_last d" .
  qed
  have after_A: "it_name i < m" if i: "i \<in> set (items_of A)" and m: "m \<in> fst ` set es" for i m
  proof -
    obtain a where a: "a \<in> set A" "i \<in> set (ch_items a)" using i by auto
    have "asc (ch_items a)" using assms(4) B(1) a(1) by (fastforce simp: in_set_conv_decomp)
    then have "it_name i < ?n" using chunk_last_ge [OF _ a(2)] B(2) a(1) by (auto intro: le_less_trans)
    also have "?n \<le> m" using m assms(5) by (cases es) (fastforce intro: less_imp_le)+
    finally show ?thesis .
  qed
  have "merge_edits (items_of C) es = items_of A @ merge_edits (items_of (old @ others)) es"
  proof -
    have "merge_edits (items_of A @ items_of (old @ others)) ([] @ es)
      = merge_edits (items_of A) [] @ merge_edits (items_of (old @ others)) es"
      using assms(4,5) after_A C by (intro merge_edits_append) auto
    then show ?thesis using C by simp
  qed
  also have "merge_edits (items_of (old @ others)) es = ?X @ merge_edits (items_of others) es'"
  proof (cases "others = []")
    case True
    then show ?thesis using r(3) last by simp
  next
    case False
    have "merge_edits (items_of old @ items_of others) (E @ es') = ?X @ merge_edits (items_of others) es'"
    proof (rule merge_edits_append)
      show "asc (items_of old @ items_of others)" using assms(4) C by simp
      show "edits_ok (E @ es')" using assms(5) r(3) by simp
      show "\<forall>n \<in> fst ` set E. \<forall>j \<in> set (items_of others). n < it_name j"
        using r(6) False gt by (auto intro: le_less_trans)
      show "\<forall>i \<in> set (items_of old). \<forall>m \<in> fst ` set es'. it_name i < m"
        using gap [OF False] le by (auto intro: le_less_trans)
    qed
    then show ?thesis using r(3) by simp
  qed
  finally have merged: "merge_edits (items_of C) es = items_of A @ ?X @ merge_edits (items_of others) es'" .
  show "items_of (A @ new) @ merge_edits (items_of others) es' = merge_edits (items_of C) es"
    using merged X(1) by simp
  have "cut_level sha l (?X @ merge_edits (items_of others) es') = new @ cut_level sha l (merge_edits (items_of others) es')"
  proof (cases "others = []")
    case True
    then show ?thesis using last X(2) by simp
  next
    case False
    have ck: "ck' = chunker_new l"
    proof -
      have "chunker_ok ck'" "ck_level ck' = l"
        using cut_items_spec [OF r(4) chunker_new_ok(1) chunker_new_ok(3)] by simp_all
      then show ?thesis using r(6) False by (cases ck') (auto simp: chunker_ok_def chunker_new_def)
    qed
    then have "new = done'" using r(5) by (simp add: chunker_finish_cases)
    then show ?thesis using cut_level_append [OF r(4) [unfolded ck]] by simp
  qed
  then show "cut_level sha l (merge_edits (items_of C) es) = A @ new @ cut_level sha l (merge_edits (items_of others) es')"
    unfolding merged by (simp add: cut_level_closed [OF closed])
qed

lemma asc_up_distinct: "asc (up sha C) \<Longrightarrow> distinct (map chunk_last C)"
  by (simp add: asc_def strict_sorted_iff comp_def)

text \<open>Re-cutting the chunks around the edits gives the chunks of the edited level, and the edits it records make
  the level of their summaries.\<close>

lemma relevel_correct:
  assumes "cut_chunks sha l C" "asc (items_of C)" "edits_ok es" "C = [] \<longrightarrow> es = []" "relevel sha l C es = (C', runs)"
  shows "C' = cut_level sha l (merge_edits (items_of C) es) \<and> edits_ok (record_runs sha runs [])
    \<and> (\<forall>(old, new) \<in> set runs. asc (up sha new))
    \<and> (\<forall>n \<in> fst ` set (record_runs sha runs []). n \<in> chunk_last ` (set C \<union> set C'))
    \<and> (\<forall>n. item_of (up sha C') n
          = (case map_of (record_runs sha runs []) n of Some x \<Rightarrow> x | None \<Rightarrow> item_of (up sha C) n))"
  using assms
proof (induction sha l C es arbitrary: C' runs rule: relevel.induct)
  case (1 sha l C es)
  show ?case
  proof (cases "C = [] \<or> es = []")
    case True
    then have "C' = C \<and> runs = []" "es = []" using 1(2-6) by (auto simp: relevel.simps [of sha l C es])
    then show ?thesis using 1(2) by (simp add: record_runs_def cut_chunks_def)
  next
    case False
    define A where "A = ahead (fst (hd es)) C"
    obtain others es' new old where rc: "recut sha l (drop (length A) C) es (chunker_new l) = (others, es', new, old)"
      by (metis surj_pair)
    obtain C2 runs2 where rl: "relevel sha l others es' = (C2, runs2)" by fastforce
    have res: "C' = A @ new @ C2" "runs = (old, new) # runs2"
      using 1(6) False rc rl by (simp_all add: relevel.simps [of sha l C es] A_def Let_def)
    note R = recut_level [OF _ _ 1(2-4) A_def rc]
    have ne: "C \<noteq> []" "es \<noteq> []" using False by auto
    note R = R [OF ne]
    have cc: "cut_chunks sha l others"
    proof (cases "others = []")
      case False
      then show ?thesis using 1(2) R(1) cut_chunks_append(2) [of sha l "A @ old" others] by simp
    qed (simp add: cut_chunks_def)
    have asc_o: "asc (items_of others)" using 1(3) R(1) by simp
    have ih: "C2 = cut_level sha l (merge_edits (items_of others) es')" "edits_ok (record_runs sha runs2 [])"
        "\<forall>(old, new) \<in> set runs2. asc (up sha new)"
        "\<forall>n \<in> fst ` set (record_runs sha runs2 []). n \<in> chunk_last ` (set others \<union> set C2)"
        "item_of (up sha C2) n = (case map_of (record_runs sha runs2 []) n of Some x \<Rightarrow> x | None \<Rightarrow> item_of (up sha others) n)" for n
      using 1(1) [OF False A_def rc [symmetric] refl refl cc asc_o R(6) _ rl] R(7) by blast+
    have C': "C' = cut_level sha l (merge_edits (items_of C) es)" unfolding res(1) R(5) ih(1) ..
    have upC: "asc (up sha C)" by (rule asc_up [OF 1(3)]) (use cut_chunks_nonempty [OF 1(2)] in blast)
    have upC': "asc (up sha C')"
      using merge_edits_asc [OF 1(3,4)] cut_level_chunk unfolding C'
      by (intro asc_up) (auto simp: cut_level_items cut_chunk_ok_def)
    have new: "asc (up sha new)" using upC' unfolding res(1) by simp
    let ?out = "record_run (map chunk_last old) (up sha new) []" and ?out2 = "record_runs sha runs2 []"
    have ok: "edits_ok ?out" by (rule record_run_ok [OF _ new]) simp
    have rec: "record_runs sha runs [] = record_runs sha runs2 ?out" by (simp add: res(2) record_runs_def)
    have of: "map_of (record_runs sha runs []) n = (case map_of ?out2 n of Some x \<Rightarrow> Some x
        | None \<Rightarrow> (case item_of (up sha new) n of Some i \<Rightarrow> Some (Some i)
                 | None \<Rightarrow> if n \<in> chunk_last ` set old then Some None else None))" for n
      unfolding rec record_runs_append [OF ok ih(3)] by (simp add: record_run_spec(2) [OF omap_ok_Nil new] cong: option.case_cong)
    have dom: "n \<in> chunk_last ` (set others \<union> set C2)" if "map_of ?out2 n \<noteq> None" for n
      using ih(4) that unfolding map_of_eq_None_iff by blast
    have none: "item_of (up sha X) n = None \<longleftrightarrow> n \<notin> chunk_last ` set X" for X n
      by (simp add: item_of_None image_image)
    have apart: "chunk_last ` set A \<inter> chunk_last ` set old = {}" "chunk_last ` set A \<inter> chunk_last ` set others = {}"
        "chunk_last ` set old \<inter> chunk_last ` set others = {}"
      using asc_up_distinct [OF upC] unfolding R(1) by (simp_all add: Int_Un_distrib)
    have apart': "chunk_last ` set A \<inter> chunk_last ` set new = {}" "chunk_last ` set A \<inter> chunk_last ` set C2 = {}"
        "chunk_last ` set new \<inter> chunk_last ` set C2 = {}"
      using asc_up_distinct [OF upC'] unfolding res(1) by (simp_all add: Int_Un_distrib)
    have apart2: "chunk_last ` set new \<inter> chunk_last ` set others = {}"
      using R(10) by (cases "others = []") force+
    have key: "item_of (up sha C') n
        = (case map_of (record_runs sha runs []) n of Some x \<Rightarrow> x | None \<Rightarrow> item_of (up sha C) n)" for n
    proof (cases "map_of ?out2 n")
      case (Some x)
      then have "n \<in> chunk_last ` set others \<or> n \<in> chunk_last ` set C2" using dom [of n] by auto
      then have "item_of (up sha A) n = None \<and> item_of (up sha new) n = None"
        unfolding none using apart(2) apart'(2,3) apart2 by (metis IntI empty_iff)
      then show ?thesis using of [of n] Some ih(5) [of n] by (simp add: res(1))
    next
      case None
      then have c2: "item_of (up sha C2) n = item_of (up sha others) n" using ih(5) by simp
      show ?thesis
      proof (cases "item_of (up sha new) n")
        case (Some i)
        then have "n \<in> chunk_last ` set new" using none [of new n] by auto
        then have "item_of (up sha A) n = None" unfolding none using apart'(1) by (metis IntI empty_iff)
        then show ?thesis using of [of n] None Some by (simp add: res(1))
      next
        case no: None
        show ?thesis
        proof (cases "n \<in> chunk_last ` set old")
          case True
          then have "item_of (up sha A) n = None \<and> item_of (up sha others) n = None"
            unfolding none using apart(1,3) by (metis IntI empty_iff)
          then show ?thesis using of [of n] None no True c2 by (simp add: res(1))
        next
          case False
          then have "item_of (up sha old) n = None" by (simp add: none)
          then show ?thesis using of [of n] None no False c2 by (simp add: res(1) R(1) cong: option.case_cong)
        qed
      qed
    qed
    have names: "n \<in> chunk_last ` (set C \<union> set C')" if n: "n \<in> fst ` set (record_runs sha runs [])" for n
    proof -
      have "map_of (record_runs sha runs []) n \<noteq> None" using n by (simp add: map_of_eq_None_iff)
      then consider "map_of ?out2 n \<noteq> None" | "item_of (up sha new) n \<noteq> None" | "n \<in> chunk_last ` set old"
        unfolding of by (auto split: option.splits if_splits)
      then show ?thesis
      proof cases
        case 1
        then show ?thesis using dom [of n] by (auto simp: R(1) res(1))
      next
        case 2
        then show ?thesis by (auto simp: none res(1))
      qed (auto simp: R(1))
    qed
    have "edits_ok (record_runs sha runs [])" unfolding rec using ok ih(3) by (rule record_runs_ok)
    then show ?thesis using C' key names ih(3) new by (auto simp: res(2))
  qed
qed

corollary relevel_level:
  assumes "cut_chunks sha l C" "asc (items_of C)" "edits_ok es" "C = [] \<longrightarrow> es = []" "relevel sha l C es = (C', runs)"
  shows "merge_edits (up sha C) (record_runs sha runs []) = up sha (cut_level sha l (merge_edits (items_of C) es))"
proof -
  note R = relevel_correct [OF assms]
  have up: "asc (up sha C)" by (rule asc_up [OF assms(2)]) (use cut_chunks_nonempty [OF assms(1)] in blast)
  have up': "asc (up sha C')"
    using merge_edits_asc [OF assms(2,3)] cut_level_chunk R
    by (intro asc_up) (auto simp: cut_level_items cut_chunk_ok_def)
  have "merge_edits (up sha C) (record_runs sha runs []) = up sha C'"
    using R merge_edits_spec [OF up] up' by (intro asc_ext) auto
  then show ?thesis using R by simp
qed

end
