(* ===== verification/Towers.thy ===== *)
theory Towers
  imports Levels
begin

text \<open>
  Directories in the store: a directory's items stand as a tower of levels, each cut into chunks whose
  summaries are the items of the level above, up to the first level of one chunk, the root. The theory
  shows that \<open>seek\<close>, \<open>find\<close> and \<open>leaves\<close> read a tower right, and that \<open>build_level\<close> and \<open>update_dir\<close>
  store the tower of the new items, whatever they replace.
\<close>

section \<open>Computations that only add to the store\<close>

definition extends :: "memory_store \<Rightarrow> memory_store \<Rightarrow> bool" where
  "extends s s' \<longleftrightarrow> (\<forall>i b. ms_objects s i = Some b \<longrightarrow> ms_objects s' i = Some b)"

definition grows :: "'a tree_op \<Rightarrow> bool" where
  "grows m \<longleftrightarrow> (\<forall>s. (ms_collided s \<longrightarrow> ms_collided (snd (m s))) \<and> (\<not> ms_collided (snd (m s)) \<longrightarrow> extends s (snd (m s))))"

text \<open>Short of a collision, \<open>m\<close> returns without an error, keeps what is stored, and reaches \<open>Q\<close>.\<close>

definition yields :: "'a tree_op \<Rightarrow> memory_store \<Rightarrow> ('a \<Rightarrow> memory_store \<Rightarrow> bool) \<Rightarrow> bool" where
  "yields m s Q \<longleftrightarrow> (case m s of (r, s') \<Rightarrow> ms_collided s' \<or> (extends s s' \<and> (\<exists>x. r = Inr x \<and> Q x s')))"

named_theorems grows_intros "computations that only add to the store"

lemma extends_refl [simp]: "extends s s"
  by (simp add: extends_def)

lemma extends_trans: "extends s t \<Longrightarrow> extends t u \<Longrightarrow> extends s u"
  by (simp add: extends_def)

lemma growsD:
  "grows m \<Longrightarrow> m s = (r, s') \<Longrightarrow> (ms_collided s \<longrightarrow> ms_collided s') \<and> (\<not> ms_collided s' \<longrightarrow> extends s s')"
  unfolding grows_def by (metis snd_conv)

lemma growsI:
  "(\<And>s r s'. m s = (r, s') \<Longrightarrow> (ms_collided s \<longrightarrow> ms_collided s') \<and> (\<not> ms_collided s' \<longrightarrow> extends s s')) \<Longrightarrow> grows m"
  unfolding grows_def by (metis prod.collapse)

lemma grows_tret [grows_intros]: "grows (tret x)"
  by (simp add: grows_def tret_def)

lemma grows_tfail [grows_intros]: "grows (tfail e)"
  by (simp add: grows_def tfail_def)

lemma grows_tread [grows_intros]: "grows (tread r)"
  by (simp add: grows_def tread_def)

lemma grows_tbind [grows_intros]:
  assumes "grows m" "\<And>x. grows (f x)"
  shows "grows (tbind m f)"
proof (rule growsI)
  fix s r s' assume h: "tbind m f s = (r, s')"
  obtain r1 s1 where m: "m s = (r1, s1)" by fastforce
  show "(ms_collided s \<longrightarrow> ms_collided s') \<and> (\<not> ms_collided s' \<longrightarrow> extends s s')"
  proof (cases r1)
    case (Inl e)
    then show ?thesis using h growsD [OF assms(1) m] by (simp add: tbind_def m)
  next
    case (Inr x)
    then have "f x s1 = (r, s')" using h by (simp add: tbind_def m)
    from growsD [OF assms(2) this] show ?thesis using growsD [OF assms(1) m] extends_trans by blast
  qed
qed

lemma put_chunk_extends: "\<not> clashes sha (chunk_id sha c) (chunk_encode c) s \<Longrightarrow> extends s (snd (put_chunk sha c s))"
  by (auto simp: extends_def clashes_def)

lemma grows_put_chunk [grows_intros]: "grows (put_chunk sha c)"
  using put_chunk_extends by (auto simp: grows_def)

lemma yields_tret: "Q x s \<Longrightarrow> yields (tret x) s Q"
  by (simp add: yields_def tret_def)

lemma yields_tread: "r s = Inr x \<Longrightarrow> Q x s \<Longrightarrow> yields (tread r) s Q"
  by (simp add: yields_def tread_def)

lemma yields_tbind:
  assumes "yields m s R" "\<And>x. grows (f x)" "\<And>x s'. extends s s' \<Longrightarrow> R x s' \<Longrightarrow> yields (f x) s' Q"
  shows "yields (tbind m f) s Q"
proof -
  obtain r s1 where m: "m s = (r, s1)" by fastforce
  show ?thesis
  proof (cases "ms_collided s1")
    case True
    obtain r2 s2 where b: "tbind m f s = (r2, s2)" by fastforce
    have "ms_collided s2"
    proof (cases r)
      case (Inl e)
      then show ?thesis using b m True by (simp add: tbind_def)
    next
      case (Inr x)
      then have "f x s1 = (r2, s2)" using b m by (simp add: tbind_def)
      then show ?thesis using growsD [OF assms(2)] True by blast
    qed
    then show ?thesis using b by (simp add: yields_def)
  next
    case False
    then obtain x where "extends s s1" "r = Inr x" "R x s1" using assms(1) m by (auto simp: yields_def)
    moreover have "yields (f x) s1 Q" by (rule assms(3)) fact+
    ultimately show ?thesis using m by (auto simp: yields_def tbind_def intro: extends_trans)
  qed
qed

lemma yields_mono: "yields m s Q \<Longrightarrow> (\<And>x s'. extends s s' \<Longrightarrow> Q x s' \<Longrightarrow> R x s') \<Longrightarrow> yields m s R"
  by (auto simp: yields_def)

lemma tbind_tread: "r s = Inr x \<Longrightarrow> tbind (tread r) f s = f x s"
  by (simp add: tbind_def tread_def)

lemma yields_tbind_tread: "r s = Inr x \<Longrightarrow> yields (f x) s Q \<Longrightarrow> yields (tbind (tread r) f) s Q"
  by (simp add: yields_def tbind_tread)

text \<open>A chunk the store can give back.\<close>

definition readable :: "(bytes \<Rightarrow> bytes) \<Rightarrow> memory_store \<Rightarrow> chunk \<Rightarrow> bool" where
  "readable sha s c \<longleftrightarrow> chunk_at sha s (chunk_id sha c) = Inr c"

lemma chunk_at_extends: "chunk_at sha s i = Inr c \<Longrightarrow> extends s s' \<Longrightarrow> chunk_at sha s' i = Inr c"
  by (auto simp: chunk_at_def store_load_def extends_def result_simps split: if_splits)

lemma readable_extends: "readable sha s c \<Longrightarrow> extends s s' \<Longrightarrow> readable sha s' c"
  unfolding readable_def by (rule chunk_at_extends)

lemma yields_put_chunk:
  assumes "chunk_ok c"
  shows "yields (put_chunk sha c) s (\<lambda>i s'. i = chunk_id sha c \<and> readable sha s' c)"
proof (cases "clashes sha (chunk_id sha c) (chunk_encode c) s")
  case True
  then have "ms_collided (snd (put_chunk sha c s))" by simp
  then show ?thesis unfolding yields_def by (cases "put_chunk sha c s") simp
next
  case False
  show ?thesis
    using put_chunk_reads [OF assms False] put_chunk_extends [OF False] put_chunk_simps(1) [of sha c s]
    unfolding yields_def readable_def by (cases "put_chunk sha c s") simp
qed

lemma grows_summary [grows_intros]: "grows (summary sha c)"
  by (auto simp: summary_def intro!: grows_intros)

lemma grows_summaries [grows_intros]: "grows (summaries sha cs)"
  by (induction cs) (auto intro!: grows_intros)

lemma yields_summary:
  "chunk_ok c \<Longrightarrow> yields (summary sha c) s (\<lambda>i s'. i = summary_item sha c \<and> readable sha s' c)"
  unfolding summary_def
  by (rule yields_tbind [OF yields_put_chunk]) (auto intro!: grows_intros yields_tret simp: summary_item_def)

lemma yields_summaries:
  "\<forall>c \<in> set cs. chunk_ok c \<Longrightarrow> yields (summaries sha cs) s (\<lambda>is s'. is = up sha cs \<and> (\<forall>c \<in> set cs. readable sha s' c))"
proof (induction cs arbitrary: s)
  case (Cons c cs)
  show ?case
    unfolding summaries.simps
  proof (rule yields_tbind [OF yields_summary])
    fix i s1 assume 1: "i = summary_item sha c \<and> readable sha s1 c"
    show "yields (tbind (summaries sha cs) (\<lambda>is. tret (i # is))) s1
        (\<lambda>is s'. is = up sha (c # cs) \<and> (\<forall>c \<in> set (c # cs). readable sha s' c))"
      by (rule yields_tbind [OF Cons.IH]) (use Cons.prems 1 in \<open>auto intro!: grows_intros yields_tret intro: readable_extends\<close>)
  qed (use Cons.prems in \<open>auto intro!: grows_intros\<close>)
qed (auto intro: yields_tret)

section \<open>Towers of levels\<close>

fun level_items :: "(bytes \<Rightarrow> bytes) \<Rightarrow> item list \<Rightarrow> nat \<Rightarrow> item list" where
  "level_items sha is 0 = is"
| "level_items sha is (Suc k) = up sha (cut_level sha k (level_items sha is k))"

abbreviation level_chunks :: "(bytes \<Rightarrow> bytes) \<Rightarrow> item list \<Rightarrow> nat \<Rightarrow> chunk list" where
  "level_chunks sha is k \<equiv> cut_level sha k (level_items sha is k)"

text \<open>The items a directory can hold, and the hash the chunks are named by.\<close>

definition dir_ok :: "item list \<Rightarrow> bool" where
  "dir_ok is \<longleftrightarrow> asc is \<and> list_all (\<lambda>i. item_ok 0 i \<and> length (it_name i) \<le> MAX_PATH) is"

definition hash_ok :: "(bytes \<Rightarrow> bytes) \<Rightarrow> bool" where
  "hash_ok sha \<longleftrightarrow> (\<forall>b. length (sha b) = 32)"

text \<open>The root is the chunk of the first level that has only one.\<close>

definition top_of :: "(bytes \<Rightarrow> bytes) \<Rightarrow> item list \<Rightarrow> nat \<Rightarrow> bool" where
  "top_of sha is h \<longleftrightarrow> length (level_chunks sha is h) = 1 \<and> (\<forall>k < h. 1 < length (level_chunks sha is k))"

text \<open>The chunks of the levels below \<open>k\<close> are stored.\<close>

definition held :: "(bytes \<Rightarrow> bytes) \<Rightarrow> memory_store \<Rightarrow> item list \<Rightarrow> nat \<Rightarrow> bool" where
  "held sha s is k \<longleftrightarrow> (\<forall>j < k. \<forall>c \<in> set (level_chunks sha is j). readable sha s c)"

definition tower :: "(bytes \<Rightarrow> bytes) \<Rightarrow> memory_store \<Rightarrow> item list \<Rightarrow> nat \<Rightarrow> object_id \<Rightarrow> bool" where
  "tower sha s is h root \<longleftrightarrow>
     top_of sha is h \<and> h \<le> MAX_LEVEL \<and> root = chunk_id sha (hd (level_chunks sha is h))
     \<and> held sha s is (Suc h)"

lemma held_0 [simp]: "held sha s is 0"
  by (simp add: held_def)

lemma held_Suc [simp]:
  "held sha s is (Suc k) \<longleftrightarrow> held sha s is k \<and> (\<forall>c \<in> set (level_chunks sha is k). readable sha s c)"
  by (auto simp: held_def less_Suc_eq)

lemma heldD: "held sha s is k \<Longrightarrow> j < k \<Longrightarrow> c \<in> set (level_chunks sha is j) \<Longrightarrow> readable sha s c"
  by (simp add: held_def)

lemma held_mono: "held sha s is k \<Longrightarrow> j \<le> k \<Longrightarrow> held sha s is j"
  by (meson held_def less_le_trans)

lemma held_extends: "held sha s is k \<Longrightarrow> extends s s' \<Longrightarrow> held sha s' is k"
  by (meson held_def readable_extends)

lemma asc_level: "asc is \<Longrightarrow> asc (level_items sha is k)"
  by (induction k) (auto intro!: asc_up simp: cut_level_items dest: cut_level_chunk simp: cut_chunk_ok_def)

lemma level_chunk_cut: "c \<in> set (level_chunks sha is k) \<Longrightarrow> ch_level c = k \<and> ch_items c \<noteq> []"
  using cut_level_chunk by (auto simp: cut_chunk_ok_def)

lemma length_cut_level: "length (cut_level sha l items) \<le> length items"
proof -
  have "length C \<le> length (items_of C)" if "\<forall>c \<in> set C. ch_items c \<noteq> []" for C
    using that
  proof (induction C)
    case (Cons c C)
    then have "0 < length (ch_items c)" "length C \<le> length (items_of C)" by simp_all
    then show ?case unfolding list.map concat.simps length_append list.size by linarith
  qed simp
  then have "length (cut_level sha l items) \<le> length (items_of (cut_level sha l items))"
    using cut_level_chunk by (metis cut_chunk_ok_def)
  then show ?thesis by (simp add: cut_level_items)
qed

lemma length_level_items: "length (level_items sha is k) \<le> length is"
  by (induction k) (auto intro: order_trans [OF length_cut_level])

lemma level_items_Nil [simp]: "level_items sha is k = [] \<longleftrightarrow> is = []"
  by (induction k) auto

lemma level_item_ok:
  assumes "dir_ok is" "hash_ok sha" "i \<in> set (level_items sha is k)"
  shows "item_ok k i \<and> length (it_name i) \<le> MAX_PATH"
  using assms(3)
proof (induction k arbitrary: i)
  case 0
  then show ?case using assms(1) by (auto simp: dir_ok_def list_all_iff)
next
  case (Suc k)
  then obtain c where c: "c \<in> set (level_chunks sha is k)" "i = summary_item sha c" by auto
  have "chunk_last c \<in> it_name ` set (ch_items c)" using level_chunk_cut [OF c(1)] chunk_last_in by blast
  moreover have "set (ch_items c) \<subseteq> set (level_items sha is k)"
    using c(1) cut_level_items [of sha k "level_items sha is k"] by (metis Union_upper image_eqI list.set_map set_concat)
  ultimately obtain j where j: "j \<in> set (level_items sha is k)" "it_name j = chunk_last c" by auto
  have "length (chunk_id sha c) = 32" using assms(2) by (simp add: chunk_id_def object_hash_def hash_ok_def)
  then show ?case using Suc.IH [OF j(1)] by (auto simp: c(2) item_ok_def j(2))
qed

lemma asc_chunk: "asc (items_of C) \<Longrightarrow> c \<in> set C \<Longrightarrow> asc (ch_items c)"
  by (induction C) auto

lemma level_chunk_ok:
  assumes "dir_ok is" "hash_ok sha" "k \<le> MAX_LEVEL" "c \<in> set (level_chunks sha is k)"
  shows "chunk_ok c"
proof -
  have sub: "set (ch_items c) \<subseteq> set (level_items sha is k)"
    using assms(4) cut_level_items [of sha k "level_items sha is k"] by (metis Union_upper image_eqI list.set_map set_concat)
  then have ok: "\<forall>i \<in> set (ch_items c). item_ok k i \<and> length (it_name i) \<le> MAX_PATH"
    using level_item_ok [OF assms(1,2)] by blast
  have "asc (ch_items c)"
    using asc_chunk [OF _ assms(4)] asc_level assms(1) by (simp add: cut_level_items dir_ok_def)
  then show ?thesis
    using ok level_chunk_cut [OF assms(4)] cut_level_chunk [OF assms(4)] assms(3)
    by (auto simp: chunk_ok_def list_all_iff asc_def sorted_wrt_map cut_chunk_ok_def)
qed

section \<open>Reading a tower\<close>

text \<open>The chunk \<open>seek\<close> is after: the first whose last name reaches (or, after, passes) the name, or the last one.\<close>

definition passes :: "bool \<Rightarrow> string \<Rightarrow> string \<Rightarrow> bool" where
  "passes after name n \<longleftrightarrow> (if after then name < n else name \<le> n)"

definition found_at :: "bool \<Rightarrow> string \<Rightarrow> chunk list \<Rightarrow> chunk list \<Rightarrow> chunk \<Rightarrow> chunk list \<Rightarrow> bool" where
  "found_at after name C A c B \<longleftrightarrow>
     C = A @ c # B \<and> (\<forall>a \<in> set A. \<not> passes after name (chunk_last a))
     \<and> (after \<or> B \<noteq> [] \<longrightarrow> passes after name (chunk_last c))"

lemma found_last: "found_at after name C A c B \<Longrightarrow> (B = [] \<longleftrightarrow> last C = c \<and> C = A @ [c]) \<and> c \<in> set C"
  by (auto simp: found_at_def)

lemma passes_mono: "passes after name m \<Longrightarrow> m \<le> n \<Longrightarrow> passes after name n"
  by (auto simp: passes_def split: if_splits)

lemma seek_pred: "(if after then m \<le> name else m < name) \<longleftrightarrow> \<not> passes after name m"
  by (auto simp: passes_def)

lemma split_up:
  assumes "up sha C = xs @ ys @ zs"
  obtains X Y Z where "C = X @ Y @ Z" "xs = up sha X" "ys = up sha Y" "zs = up sha Z"
proof -
  obtain X R where 1: "C = X @ R" "xs = up sha X" "ys @ zs = up sha R"
    using assms by (auto simp: map_eq_append_conv)
  obtain Y Z where "R = Y @ Z" "ys = up sha Y" "zs = up sha Z" using 1(3) by (metis map_eq_append_conv)
  then show thesis using that 1 by blast
qed

lemma child_at_level:
  assumes "d \<in> set (level_chunks sha is k)" "readable sha s d" "ch_level c = Suc k"
  shows "child_at sha s c (summary_item sha d) = Inr d"
  using assms level_chunk_cut [OF assms(1)] by (simp add: child_at_Inr readable_def)

lemma seek_step:
  assumes "asc is" "found_at after name (level_chunks sha is (Suc k)) A c B"
    "\<forall>d \<in> set (level_chunks sha is k). readable sha s d" "l \<le> k"
  shows "\<exists>A' d B'. found_at after name (level_chunks sha is k) A' d B'
    \<and> seek_from sha s l name after c (B = []) = seek_from sha s l name after d (B' = [])"
proof -
  let ?C = "level_chunks sha is (Suc k)" and ?D = "level_chunks sha is k"
  have C: "?C = A @ c # B" using assms(2) by (simp add: found_at_def)
  have lev: "ch_level x = Suc k" "ch_items x \<noteq> []" if "x \<in> set ?C" for x
    using level_chunk_cut [OF that] by simp_all
  have c: "c \<in> set ?C" unfolding C by simp
  have "up sha ?D = items_of A @ ch_items c @ items_of B"
    using cut_level_items [of sha "Suc k" "level_items sha is (Suc k)"] unfolding C by simp
  from split_up [OF this] obtain LA M LB where
    D: "?D = LA @ M @ LB" and U: "items_of A = up sha LA" "ch_items c = up sha M" "items_of B = up sha LB" by metis
  have M: "M \<noteq> []" using lev(2) [OF c] U(2) by auto
  have ascC: "asc (items_of ?C)" using asc_level [OF assms(1), of sha "Suc k"] by (simp only: cut_level_items)
  have LA: "\<not> passes after name (chunk_last d)" if d: "d \<in> set LA" for d
  proof -
    have "summary_item sha d \<in> set (items_of A)" using d U(1) by simp
    then obtain a where a: "a \<in> set A" "summary_item sha d \<in> set (ch_items a)" by auto
    have "asc (ch_items a)" using asc_chunk [OF ascC] a(1) C by simp
    from chunk_last_ge [OF this a(2)] have "chunk_last d \<le> chunk_last a" by simp
    moreover have "\<not> passes after name (chunk_last a)" using assms(2) a(1) by (simp add: found_at_def)
    ultimately show ?thesis using passes_mono by blast
  qed
  have LB: "LB = [] \<longleftrightarrow> B = []"
  proof -
    have "items_of B = [] \<longleftrightarrow> B = []" using lev(2) unfolding C by (cases B) auto
    then show ?thesis using U(3) by simp
  qed
  define P where "P = (\<lambda>d. \<not> passes after name (chunk_last d))"
  let ?index = "partition_point (\<lambda>i. if after then it_name i \<le> name else it_name i < name) (ch_items c)"
  have idx: "?index = length (takeWhile P M)"
    unfolding partition_point_def U(2) takeWhile_map P_def by (simp add: seek_pred comp_def)
  have lastc: "chunk_last c = chunk_last (last M)"
    using M by (simp add: chunk_last_def [of c] U(2) last_map)
  have step: "seek_from sha s l name after c (B = [])
      = seek_from sha s l name after (M ! i) (B = [] \<and> i + 1 = length M)"
    if i: "i < length M" "i = (if ?index < length M then ?index else length M - 1)" "\<not> (?index \<ge> length M \<and> after)" for i
  proof -
    have "M ! i \<in> set ?D" using i(1) unfolding D by simp
    then have "child_at sha s c (ch_items c ! i) = Inr (M ! i)"
      using child_at_level [of "M ! i" sha k "is" s c] assms(3) lev(1) [OF c] i(1) U(2) by simp
    moreover have "seek_from sha s l name after c (B = []) =
        ebind (child_at sha s c (ch_items c ! i)) (\<lambda>child. seek_from sha s l name after child (B = [] \<and> i + 1 = length M))"
    proof -
      have "l < ch_level c" using lev(1) [OF c] assms(4) by simp
      moreover have n: "length (ch_items c) = length M" using U(2) by simp
      ultimately show ?thesis
        unfolding seek_from.simps [of sha s l name after c "B = []"] Let_def n i(2) [symmetric] using i(3) by (simp only: if_P if_not_P if_False if_True)
    qed
    ultimately show ?thesis by simp
  qed
  show ?thesis
  proof (cases "dropWhile P M")
    case (Cons d R)
    have split: "M = takeWhile P M @ d # R" using Cons by (metis takeWhile_dropWhile_id)
    have lt: "?index < length M" unfolding idx using arg_cong [OF split, of length] by simp
    have nth: "M ! ?index = d" unfolding idx using Cons nth_append_length [of "takeWhile P M" d R] split by metis
    have len: "?index + 1 = length M \<longleftrightarrow> R = []" unfolding idx using arg_cong [OF split, of length] by auto
    have "\<not> P d" using hd_dropWhile [of P M] unfolding Cons by simp
    then have "passes after name (chunk_last d)" by (simp add: P_def)
    then have "found_at after name ?D (LA @ takeWhile P M) d (R @ LB)"
      using LA split D by (auto simp: found_at_def P_def dest: set_takeWhileD)
    moreover have "seek_from sha s l name after c (B = []) = seek_from sha s l name after d (R @ LB = [])"
      using step [OF lt] lt nth len LB by (auto simp: conj_commute)
    ultimately show ?thesis by blast
  next
    case Nil
    then have all: "\<forall>d \<in> set M. P d" by simp
    have ge: "?index = length M" unfolding idx using all by (simp add: takeWhile_eq_all_conv [THEN iffD2])
    have "\<not> passes after name (chunk_last c)" unfolding lastc using all M by (simp add: P_def)
    then have na: "\<not> after" "B = []" using assms(2) by (auto simp: found_at_def)
    have split: "M = butlast M @ [last M]" using M by simp
    have "found_at after name ?D (LA @ butlast M) (last M) []"
      using LA all na LB D split by (auto simp: found_at_def P_def dest: in_set_butlastD)
    moreover have "seek_from sha s l name after c (B = []) = seek_from sha s l name after (last M) (([] :: chunk list) = [])"
      using step [of "length M - 1"] M ge na by (simp add: last_conv_nth)
    ultimately show ?thesis by blast
  qed
qed

lemma seek_down:
  assumes "asc is" "found_at after name (level_chunks sha is (l + m)) A c B"
    "held sha s is (Suc (l + m))"
  shows "\<exists>A' d B'. found_at after name (level_chunks sha is l) A' d B'
    \<and> seek_from sha s l name after c (B = []) = Inr (Some (d, B' = []))"
  using assms
proof (induction m arbitrary: A c B)
  case 0
  have "ch_level c = l" using level_chunk_cut [of c sha l "is"] found_last [OF 0(2)] by simp
  moreover have "after \<Longrightarrow> name < chunk_last c" using 0(2) by (auto simp: found_at_def passes_def)
  ultimately have "seek_from sha s l name after c (B = []) = Inr (Some (c, B = []))"
    by (subst seek_from.simps) auto
  then show ?case using 0(2) by auto
next
  case (Suc m)
  have all: "\<forall>d \<in> set (level_chunks sha is (l + m)). readable sha s d" using Suc.prems(3) by simp
  obtain A' d B' where 1: "found_at after name (level_chunks sha is (l + m)) A' d B'"
      "seek_from sha s l name after c (B = []) = seek_from sha s l name after d (B' = [])"
    using seek_step [OF Suc.prems(1) Suc.prems(2) [unfolded add_Suc_right] all, of l] by auto
  show ?case unfolding 1(2)
    by (rule Suc.IH [OF Suc.prems(1) 1(1)]) (use Suc.prems(3) in simp)
qed

lemma tower_root:
  assumes "tower sha s is h root"
  obtains c where "level_chunks sha is h = [c]" "chunk_at sha s root = Inr c"
  using assms by (auto simp: tower_def top_of_def readable_def length_Suc_conv)

text \<open>\<open>seek\<close> finds its chunk at any level of a tower, and knows the rightmost one.\<close>

lemma seek_tower:
  assumes "tower sha s is h root" "asc is" "l \<le> h"
    "after \<longrightarrow> (\<exists>c \<in> set (level_chunks sha is h). name < chunk_last c)"
  shows "\<exists>A c B. found_at after name (level_chunks sha is l) A c B \<and> seek sha s root l name after = Inr (Some (c, B = []))"
proof -
  obtain r where r: "level_chunks sha is h = [r]" "chunk_at sha s root = Inr r" by (rule tower_root [OF assms(1)])
  have "found_at after name (level_chunks sha is (l + (h - l))) [] r []"
    using r(1) assms(3,4) by (auto simp: found_at_def passes_def)
  from seek_down [OF assms(2) this, of s] show ?thesis
    using assms(1,3) r(2) by (simp add: tower_def seek_def)
qed

text \<open>\<open>find\<close> reads the item of a name.\<close>

lemma item_of_found:
  assumes "asc is" "found_at False name (level_chunks sha is 0) A c B"
  shows "item_of is name = item_of (ch_items c) name"
proof -
  have "is": "is = items_of A @ ch_items c @ items_of B"
    using cut_level_items [of sha 0 "is"] assms(2) by (simp add: found_at_def)
  have ne: "ch_items x \<noteq> []" if "x \<in> set A \<or> x = c" for x
    using level_chunk_cut [of x sha 0 "is"] assms(2) that by (auto simp: found_at_def)
  have "item_of (items_of A) name = None"
  proof -
    have "it_name i < name" if i: "i \<in> set (items_of A)" for i
    proof -
      obtain a where a: "a \<in> set A" "i \<in> set (ch_items a)" using i by auto
      have "asc (ch_items a)" by (rule asc_chunk [of A]) (use assms(1) "is" a in auto)
      from chunk_last_ge [OF this a(2)] show ?thesis
        using assms(2) a(1) by (auto simp: found_at_def passes_def not_le intro: le_less_trans)
    qed
    then show ?thesis by (force simp: item_of_None)
  qed
  moreover have "item_of (items_of B) name = None"
  proof (cases "B = []")
    case False
    then have "name \<le> chunk_last c" using assms(2) by (simp add: found_at_def passes_def)
    moreover have "\<forall>j \<in> set (items_of B). chunk_last c < it_name j"
      using assms(1) "is" chunk_last_in [of c] ne by fastforce
    ultimately show ?thesis by (force simp: item_of_None)
  qed simp
  ultimately show ?thesis by (simp add: "is" split: option.split)
qed

lemma find_item_of: "find (\<lambda>i. it_name i = name) is = item_of is name"
  by (induction "is") auto

lemma find_tower:
  assumes "tower sha s is h root" "asc is"
  shows "find_in sha s root name = Inr (map_option item_node (item_of is name))"
proof -
  obtain A c B where 1: "found_at False name (level_chunks sha is 0) A c B" "seek sha s root 0 name False = Inr (Some (c, B = []))"
    using seek_tower [OF assms, of 0 False name] by auto
  show ?thesis by (simp add: find_in_def 1(2) find_item_of item_of_found [OF assms(2) 1(1)])
qed

text \<open>\<open>leaves\<close> lists the items of a directory.\<close>

lemma concat_concat_map: "concat (concat (map (\<lambda>c. map G (f c)) C)) = concat (map (\<lambda>c. concat (map G (f c))) C)"
  by (induction C) auto

lemma leaves_level:
  assumes "held sha s is (Suc k)"
  shows "(\<forall>c \<in> set (level_chunks sha is k). \<exists>xs. leaves sha s c = Inr xs)
    \<and> concat (map (\<lambda>c. projr (leaves sha s c)) (level_chunks sha is k)) = is"
  using assms
proof (induction k)
  case 0
  have l: "leaves sha s c = Inr (ch_items c)" if "c \<in> set (level_chunks sha is 0)" for c
    using level_chunk_cut [OF that] by (subst leaves.simps) simp
  then have m: "map (\<lambda>c. projr (leaves sha s c)) (level_chunks sha is 0) = map ch_items (level_chunks sha is 0)"
    by (intro map_cong) auto
  have "concat (map (\<lambda>c. projr (leaves sha s c)) (level_chunks sha is 0)) = is"
    unfolding m by (simp only: cut_level_items level_items.simps)
  then show ?case using l by auto
next
  case (Suc k)
  let ?D = "level_chunks sha is k" and ?C = "level_chunks sha is (Suc k)"
  have rd: "\<forall>d \<in> set ?D. readable sha s d" using Suc.prems by simp
  have all: "held sha s is (Suc k)" using Suc.prems by simp
  have ih: "\<forall>d \<in> set ?D. \<exists>xs. leaves sha s d = Inr xs" "concat (map (\<lambda>d. projr (leaves sha s d)) ?D) = is"
    using Suc.IH [OF all] by auto
  define G where "G i = projr (leaves sha s (projr (chunk_at sha s (it_id i))))" for i :: item
  have G: "G (summary_item sha d) = projr (leaves sha s d)" if "d \<in> set ?D" for d
    using rd that by (simp add: G_def readable_def)
  have items: "items_of ?C = up sha ?D" using cut_level_items [of sha "Suc k"] by simp
  have c: "leaves sha s c = Inr (concat (map G (ch_items c)))" if c: "c \<in> set ?C" for c
  proof -
    have step: "ebind (child_at sha s c i) (\<lambda>child. leaves sha s child) = Inr (G i)" if i: "i \<in> set (ch_items c)" for i
    proof -
      have "i \<in> set (items_of ?C)" using i c unfolding set_concat set_map by blast
      then have "i \<in> set (up sha ?D)" by (simp only: items)
      then obtain d where d: "d \<in> set ?D" "i = summary_item sha d" by auto
      have "child_at sha s c i = Inr d"
        unfolding d(2) using d(1) rd level_chunk_cut [OF c] by (intro child_at_level) auto
      then show ?thesis using ih(1) d G [OF d(1)] by force
    qed
    have "emap (\<lambda>i. ebind (child_at sha s c i) (\<lambda>child. leaves sha s child)) (ch_items c) = Inr (map G (ch_items c))"
      unfolding emap_Inr_iff using step by (simp add: list_all2_conv_all_nth)
    then show ?thesis using level_chunk_cut [OF c] by (subst leaves.simps) simp
  qed
  have "concat (map (\<lambda>c. projr (leaves sha s c)) ?C) = concat (map (\<lambda>c. concat (map G (ch_items c))) ?C)"
    using c by (intro arg_cong [where f = concat] map_cong) auto
  also have "\<dots> = concat (map G (items_of ?C))" by (simp add: map_concat comp_def concat_concat_map)
  also have "\<dots> = is" unfolding items using G ih(2) by (simp add: comp_def cong: map_cong)
  finally show ?case using c by auto
qed

lemma leaves_tower:
  assumes "tower sha s is h root"
  shows "ebind (chunk_at sha s root) (leaves sha s) = Inr is"
proof -
  obtain c where c: "level_chunks sha is h = [c]" "chunk_at sha s root = Inr c" by (rule tower_root [OF assms])
  have "held sha s is (Suc h)" using assms by (simp add: tower_def)
  from leaves_level [OF this] c show ?thesis by auto
qed

section \<open>Building a tower\<close>

lemma cut_level_half: "2 * length (cut_level sha l items) \<le> length items + 1"
proof -
  obtain cs ck where c: "cut_items sha items (chunker_new l) = (cs, ck)" by fastforce
  have s: "items_of cs @ ck_items ck = items" "\<forall>c \<in> set cs. 2 \<le> length (ch_items c)"
    using cut_items_spec [OF c chunker_new_ok(1) chunker_new_ok(3)] by simp_all
  have "2 * length cs \<le> length (items_of cs)" using s(2) by (induction cs) auto
  moreover have "length items = length (items_of cs) + length (ck_items ck)" by (simp flip: s(1))
  moreover have "length (cut_level sha l items) \<le> length cs + length (ck_items ck)"
      "length (cut_level sha l items) \<le> length cs + 1"
    by (cases "ck_items ck"; simp add: cut_level_def c chunker_finish_cases)+
  ultimately show ?thesis by linarith
qed

text \<open>Every level at least halves the items, so \<open>MAX_LEVEL\<close> levels are enough for \<open>2 ^ 32\<close> of them.\<close>

lemma top_exists:
  assumes "is \<noteq> []" "length is \<le> 2 ^ MAX_LEVEL"
  shows "\<exists>h \<le> MAX_LEVEL. top_of sha is h"
proof -
  have len: "length (level_items sha is k) \<le> 2 ^ (MAX_LEVEL - k)" if "k \<le> MAX_LEVEL" for k
    using that
  proof (induction k)
    case (Suc k)
    then have "(2 :: nat) ^ (MAX_LEVEL - k) = 2 * 2 ^ (MAX_LEVEL - Suc k)"
      by (metis Suc_diff_Suc Suc_le_lessD power_Suc)
    then show ?case using cut_level_half [of sha k "level_items sha is k"] Suc by simp
  qed (use assms(2) in simp)
  define P where "P k \<longleftrightarrow> length (level_chunks sha is k) \<le> 1" for k
  have "P MAX_LEVEL"
    using len [of MAX_LEVEL] length_cut_level [of sha MAX_LEVEL "level_items sha is MAX_LEVEL"] by (simp add: P_def)
  define h where "h = (LEAST k. P k)"
  have "P h" "h \<le> MAX_LEVEL" unfolding h_def using \<open>P MAX_LEVEL\<close> by (auto intro: LeastI Least_le)
  moreover have "\<not> P k" if "k < h" for k using that not_less_Least unfolding h_def by blast
  moreover have "level_chunks sha is k \<noteq> []" for k using assms(1) by simp
  ultimately show ?thesis unfolding top_of_def P_def
    by (metis One_nat_def Suc_leI le_antisym length_greater_0_conv not_le)
qed

lemma grows_build_level [grows_intros]: "grows (build_level sha level items)"
proof (induction sha level items rule: build_level.induct)
  case (1 sha level items)
  have "grows (if ch_level c > 0 \<and> length (ch_items c) = 1
      then tbind (tread (\<lambda>s. descend (MAX_LEVEL + 2) sha s (it_id (ch_items c ! 0)))) (\<lambda>root. tret (Some root))
      else tbind (put_chunk sha c) (\<lambda>root. tret (Some root)))" for c
    by (auto intro!: grows_intros)
  then show ?case
    using 1 by (subst build_level.simps) (auto intro!: grows_intros split: list.split)
qed

lemma cut_level_single [simp]: "cut_level sha l [i] = [\<lparr>ch_level = l, ch_items = [i]\<rparr>]"
  by (simp add: cut_level_def chunker_push_def chunker_new_def Let_def chunker_finish_cases)

lemma tower_extends: "tower sha s is h root \<Longrightarrow> extends s s' \<Longrightarrow> tower sha s' is h root"
  using held_extends by (simp add: tower_def del: held_Suc) blast

lemma yields_build:
  assumes "dir_ok is" "hash_ok sha" "top_of sha is h" "h \<le> MAX_LEVEL" "k \<le> h"
    "held sha s is k"
  shows "yields (build_level sha k (level_items sha is k)) s (\<lambda>r s'. \<exists>root. r = Some root \<and> tower sha s' is h root)"
  using assms(5,6)
proof (induction "h - k" arbitrary: k s)
  case 0
  then have k: "k = h" by simp
  obtain c where c: "level_chunks sha is h = [c]" using assms(3) by (auto simp: top_of_def length_Suc_conv)
  have ok: "chunk_ok c" using level_chunk_ok [OF assms(1,2,4)] c by simp
  have lev: "ch_level c = h" using level_chunk_cut [of c sha h "is"] c by simp
  have many: "length (ch_items c) \<noteq> 1" if "0 < h"
  proof -
    obtain m where m: "h = Suc m" using \<open>0 < h\<close> by (cases h) auto
    then have "1 < length (level_chunks sha is m)" using assms(3) by (simp add: top_of_def)
    moreover have "ch_items c = up sha (level_chunks sha is m)"
      using cut_level_items [of sha h "level_items sha is h"] c m by simp
    ultimately show ?thesis by simp
  qed
  have "build_level sha k (level_items sha is k) = tbind (put_chunk sha c) (\<lambda>root. tret (Some root))"
    using assms(4) many lev c unfolding k by (subst build_level.simps) auto
  moreover have "yields (tbind (put_chunk sha c) (\<lambda>root. tret (Some root))) s
      (\<lambda>r s'. \<exists>root. r = Some root \<and> tower sha s' is h root)"
  proof (rule yields_tbind [OF yields_put_chunk [OF ok]])
    fix i s1 assume h: "extends s s1" "i = chunk_id sha c \<and> readable sha s1 c"
    have "held sha s1 is (Suc h)" using held_extends [OF 0(3) h(1)] h(2) c k by simp
    then have "tower sha s1 is h i" using assms(3,4) h c by (simp add: tower_def)
    then show "yields (tret (Some i)) s1 (\<lambda>r s'. \<exists>root. r = Some root \<and> tower sha s' is h root)"
      by (auto intro: yields_tret)
  qed (auto intro: grows_intros)
  ultimately show ?case by simp
next
  case (Suc m)
  then have k: "k < h" by simp
  let ?C = "level_chunks sha is k"
  obtain c d cs where C: "?C = c # d # cs"
    using assms(3) k unfolding top_of_def by (metis Suc_length_conv length_Cons less_Suc_eq_0_disj less_nat_zero_code list.exhaust list.size(3) One_nat_def less_irrefl_nat)
  have "build_level sha k (level_items sha is k) = tbind (summaries sha ?C) (\<lambda>is. build_level sha (k + 1) is)"
    using assms(4) k C by (subst build_level.simps) simp
  moreover have "yields (tbind (summaries sha ?C) (\<lambda>is. build_level sha (k + 1) is)) s
      (\<lambda>r s'. \<exists>root. r = Some root \<and> tower sha s' is h root)"
  proof (rule yields_tbind [OF yields_summaries])
    have "k \<le> MAX_LEVEL" using k assms(4) by simp
    then show "\<forall>c \<in> set ?C. chunk_ok c" using level_chunk_ok [OF assms(1,2)] by blast
    fix us s1 assume h: "extends s s1" "us = up sha ?C \<and> (\<forall>c \<in> set ?C. readable sha s1 c)"
    have "held sha s1 is (Suc k)" using held_extends [OF Suc.prems(2) h(1)] h(2) by simp
    then have "yields (build_level sha (Suc k) (level_items sha is (Suc k))) s1
        (\<lambda>r s'. \<exists>root. r = Some root \<and> tower sha s' is h root)"
      using Suc.hyps(2) k by (intro Suc.hyps(1)) auto
    then show "yields (build_level sha (k + 1) us) s1 (\<lambda>r s'. \<exists>root. r = Some root \<and> tower sha s' is h root)"
      using h(2) by simp
  qed (auto intro: grows_intros)
  ultimately show ?case by simp
qed

text \<open>Above the root every level is one item.\<close>

lemma above_top:
  assumes "top_of sha is h" "h \<le> k"
  shows "\<exists>c. level_chunks sha is k = [c] \<and> (h < k \<longrightarrow> length (ch_items c) = 1)"
  using assms(2)
proof (induction k rule: dec_induct)
  case base
  then show ?case using assms(1) by (auto simp: top_of_def length_Suc_conv)
qed auto

lemma descend_to:
  assumes "top_of sha is h" "h \<le> k" "held sha s is (Suc k)" "k - h < fuel"
  shows "descend fuel sha s (chunk_id sha (hd (level_chunks sha is k))) = Inr (chunk_id sha (hd (level_chunks sha is h)))"
  using assms(2-)
proof (induction k arbitrary: fuel rule: dec_induct)
  case base
  obtain c where c: "level_chunks sha is h = [c]" using above_top [OF assms(1), of h] by auto
  obtain f where f: "fuel = Suc f" using base by (cases fuel) auto
  have "chunk_at sha s (chunk_id sha c) = Inr c" using base(1) c by (auto simp: readable_def)
  moreover have "ch_level c = h" using level_chunk_cut [of c sha h "is"] c by simp
  moreover have "1 < length (ch_items c)" if "0 < h"
  proof -
    obtain m where m: "h = Suc m" using \<open>0 < h\<close> by (cases h) auto
    then have "1 < length (level_chunks sha is m)" using assms(1) by (simp add: top_of_def)
    moreover have "ch_items c = up sha (level_chunks sha is m)"
      using cut_level_items [of sha h "level_items sha is h"] c m by simp
    ultimately show ?thesis by simp
  qed
  ultimately show ?case by (auto simp: c f)
next
  case (step k)
  obtain d where d: "level_chunks sha is k = [d]" using above_top [OF assms(1) step(1)] by auto
  obtain f where f: "fuel = Suc f" "k - h < f" using step.prems(2) step.hyps by (cases fuel) auto
  let ?c = "\<lparr>ch_level = Suc k, ch_items = [summary_item sha d]\<rparr>"
  have c: "level_chunks sha is (Suc k) = [?c]" using d by simp
  have "chunk_at sha s (chunk_id sha ?c) = Inr ?c" using step.prems(1) c by (auto simp: readable_def)
  moreover have "descend f sha s (chunk_id sha d) = Inr (chunk_id sha (hd (level_chunks sha is h)))"
    using step.IH [OF _ f(2)] step.prems(1) d by simp
  ultimately show ?case unfolding c f(1) by simp
qed

lemma yields_shrink:
  assumes "top_of sha is h" "h < k" "k \<le> MAX_LEVEL" "held sha s is k"
  shows "yields (build_level sha k (level_items sha is k)) s (\<lambda>r s'. \<exists>root. r = Some root \<and> tower sha s' is h root)"
proof -
  obtain m where m: "k = Suc m" "h \<le> m" using assms(2) by (cases k) auto
  obtain d where d: "level_chunks sha is m = [d]" using above_top [OF assms(1) m(2)] by auto
  have "descend (MAX_LEVEL + 2) sha s (chunk_id sha d) = Inr (chunk_id sha (hd (level_chunks sha is h)))"
    using descend_to [OF assms(1) m(2), of s "MAX_LEVEL + 2"] assms(3,4) m d by (simp del: descend.simps)
  moreover have "build_level sha k (level_items sha is k)
      = tbind (tread (\<lambda>s. descend (MAX_LEVEL + 2) sha s (chunk_id sha d))) (\<lambda>root. tret (Some root))"
    using assms(3) d m(1) by (subst build_level.simps) simp
  moreover have "tower sha s is h (chunk_id sha (hd (level_chunks sha is h)))"
    using assms held_mono [OF assms(4), of "Suc h"] by (simp add: tower_def)
  ultimately show ?thesis by (auto intro: yields_tbind_tread yields_tret)
qed

end
