(* ===== verification/Updates.thy ===== *)
theory Updates
  imports Towers
begin

text \<open>
  \<open>update_dir\<close> stores the tower of the merged items: the runs of \<open>update_level\<close> are those of \<open>relevel\<close>, every
  level's edits turn its items into those of the new tower, and the top is grown or shrunk to the
  first level of one chunk.
\<close>

lemma level_items_empty [simp]: "level_items sha [] k = []"
  using level_items_Nil by blast

section \<open>Only additions\<close>

lemma grows_recut_run [grows_intros]: "grows (recut_run fuel sha root level c rightmost edits ck added gone)"
proof (induction fuel arbitrary: c rightmost edits ck added gone)
  case (Suc fuel)
  then show ?case by (auto simp: Let_def split: prod.split option.split intro!: grows_intros)
qed (auto intro: grows_intros)

lemma grows_update_level [grows_intros]: "grows (update_level fuel sha root level edits out)"
proof (induction fuel arbitrary: edits out)
  case 0
  then show ?case by (cases edits) (auto intro: grows_intros)
next
  case (Suc fuel)
  then show ?case by (cases edits) (auto split: prod.split intro!: grows_intros)
qed

lemma grows_update_levels [grows_intros]: "grows (update_levels fuel sha root levels edits)"
  by (induction levels arbitrary: edits) (auto intro!: grows_intros)

lemma grows_update_dir [grows_intros]: "grows (update_dir fuel sha dir edits)"
  by (auto simp: update_dir_def Let_def intro!: grows_intros split: option.split)

section \<open>One level\<close>

lemma found_at_unique:
  assumes "found_at after name C A c B" "found_at after name C A' c' B'"
  shows "A = A' \<and> c = c' \<and> B = B'"
proof -
  have "takeWhile (\<lambda>c. \<not> passes after name (chunk_last c)) (butlast C) = A" if "found_at after name C A c B" for A c B
  proof (cases "B = []")
    case True
    then show ?thesis using that by (auto simp: found_at_def takeWhile_eq_all_conv)
  next
    case False
    then have "butlast C = A @ c # butlast B" using that by (simp add: found_at_def butlast_append)
    then show ?thesis using that False by (auto simp: found_at_def takeWhile_append)
  qed
  then have "A = A'" using assms by blast
  then show ?thesis using assms by (auto simp: found_at_def)
qed

lemma asc_last_less: "asc (up sha (A @ c # B)) \<Longrightarrow> (\<forall>a \<in> set A. chunk_last a < chunk_last c) \<and> (\<forall>b \<in> set B. chunk_last c < chunk_last b)"
  by auto

lemma asc_level_up: "asc is \<Longrightarrow> asc (up sha (level_chunks sha is k))"
  using asc_level [of "is" sha "Suc k"] by simp

text \<open>Every level ends with the last name.\<close>

lemma cut_level_last: "items \<noteq> [] \<Longrightarrow> chunk_last (last (cut_level sha l items)) = it_name (last items)"
proof -
  assume ne: "items \<noteq> []"
  let ?C = "cut_level sha l items"
  have C: "?C = butlast ?C @ [last ?C]" using ne by simp
  have "last ?C \<in> set ?C" using ne by simp
  then have "ch_items (last ?C) \<noteq> []" using cut_level_chunk by (auto simp: cut_chunk_ok_def)
  moreover have "items = items_of (butlast ?C) @ ch_items (last ?C)"
    using cut_level_items [of sha l items] arg_cong [OF C, of items_of] by simp
  ultimately show ?thesis by (metis chunk_last_def last_append)
qed

lemma level_last:
  assumes "is \<noteq> []"
  shows "chunk_last (last (level_chunks sha is k)) = it_name (last is)"
proof -
  have "it_name (last (level_items sha is k)) = it_name (last is)"
    by (induction k) (use assms cut_level_last in \<open>auto simp: last_map\<close>)
  then show ?thesis using cut_level_last [of "level_items sha is k" sha k] assms by simp
qed

lemma top_last_greater:
  assumes "asc is" "d \<in> set (level_chunks sha is l)" "name < chunk_last d"
  shows "\<exists>e \<in> set (level_chunks sha is h). name < chunk_last e"
proof -
  have ne: "is \<noteq> []" using assms(2) by (metis cut_level_Nil empty_iff level_items_Nil list.set(1))
  have "asc (up sha (level_chunks sha is l))" by (rule asc_level_up [OF assms(1)])
  then have "chunk_last d \<le> chunk_last (last (level_chunks sha is l))"
    using assms(2) by (cases "level_chunks sha is l" rule: rev_cases) (auto intro: less_imp_le)
  then have "name < chunk_last (last (level_chunks sha is h))" using assms(3) level_last [OF ne] by simp
  then show ?thesis using ne by (meson cut_level_eq_Nil last_in_set level_items_Nil)
qed

lemma recut_run_yields:
  assumes "tower sha s is h root" "asc is" "l \<le> h" "level_chunks sha is l = A @ c # cs"
    "recut sha l (c # cs) es ck = (others, es', new, old)" "\<forall>d \<in> set new. chunk_ok d" "length cs < fuel"
  shows "yields (recut_run fuel sha root l c (cs = []) es ck added gone) s
    (\<lambda>r s'. r = (es', added @ up sha new, gone @ map chunk_last old) \<and> (\<forall>d \<in> set new. readable sha s' d))"
  using assms
proof (induction cs arbitrary: A c es ck added gone s new old fuel)
  case (Cons d ds)
  obtain f where f: "fuel = Suc f" using Cons.prems(7) by (cases fuel) auto
  obtain items es1 where m: "merge_run (Some (chunk_last c)) (ch_items c) es = (items, es1)" by fastforce
  obtain done1 ck1 where p: "cut_items sha items ck = (done1, ck1)" by fastforce
  show ?case
  proof (cases "ck_items ck1 = []")
    case True
    then have r: "es' = es1" "new = done1" "old = [c]"
      using Cons.prems(5) m p by (simp_all add: chunker_finish_cases)
    have "yields (tbind (summaries sha done1) (\<lambda>others. tret (es1, added @ others, gone @ [chunk_last c]))) s
      (\<lambda>r s'. r = (es', added @ up sha new, gone @ map chunk_last old) \<and> (\<forall>d \<in> set new. readable sha s' d))"
      by (rule yields_tbind [OF yields_summaries]) (use Cons.prems(6) r in \<open>auto intro!: grows_intros yields_tret\<close>)
    then show ?thesis using True by (simp add: f m p chunker_finish_cases)
  next
    case False
    obtain new2 old2 where r: "recut sha l (d # ds) es1 ck1 = (others, es', new2, old2)" "new = done1 @ new2" "old = c # old2"
      using Cons.prems(5) m p False by (auto split: prod.splits)
    show ?thesis
    proof -
      have "yields (tbind (summaries sha done1) (\<lambda>others.
          tbind (tread (\<lambda>s. ebind (seek sha s root l (chunk_last c) True) (ok_or (CorruptObject root)))) (\<lambda>following.
            case following of (c', rightmost') \<Rightarrow>
              recut_run f sha root l c' rightmost' es1 ck1 (added @ others) (gone @ [chunk_last c])))) s
        (\<lambda>r s'. r = (es', added @ up sha new, gone @ map chunk_last old) \<and> (\<forall>d \<in> set new. readable sha s' d))"
      proof (rule yields_tbind [OF yields_summaries])
        fix us s1 assume h: "extends s s1" "us = up sha done1 \<and> (\<forall>c \<in> set done1. readable sha s1 c)"
        have tw: "tower sha s1 is h root" by (rule tower_extends [OF Cons.prems(1) h(1)])
        have less: "(\<forall>a \<in> set A. chunk_last a < chunk_last c) \<and> (\<forall>b \<in> set (d # ds). chunk_last c < chunk_last b)"
          using asc_last_less [of sha A c "d # ds"] asc_level_up [OF Cons.prems(2), of sha l] Cons.prems(4) by simp
        then have fd: "found_at True (chunk_last c) (level_chunks sha is l) (A @ [c]) d ds"
          using Cons.prems(4) by (auto simp: found_at_def passes_def)
        have top: "\<exists>e \<in> set (level_chunks sha is h). chunk_last c < chunk_last e"
          using top_last_greater [OF Cons.prems(2), of d sha l] Cons.prems(4) less by simp
        from seek_tower [OF tw Cons.prems(2,3), of True "chunk_last c"] top
        obtain A' e B where sk: "found_at True (chunk_last c) (level_chunks sha is l) A' e B"
            "seek sha s1 root l (chunk_last c) True = Inr (Some (e, B = []))" by blast
        have eq: "e = d" "B = ds" using found_at_unique [OF sk(1) fd] by simp_all
        have "yields (recut_run f sha root l d (ds = []) es1 ck1 (added @ us) (gone @ [chunk_last c])) s1
          (\<lambda>r s'. r = (es', (added @ us) @ up sha new2, (gone @ [chunk_last c]) @ map chunk_last old2)
            \<and> (\<forall>d \<in> set new2. readable sha s' d))"
          by (rule Cons.IH [OF tw Cons.prems(2,3) _ r(1), of "A @ [c]"]) (use Cons.prems(4,6,7) r(2) f in auto)
        then show "yields (tbind (tread (\<lambda>s. ebind (seek sha s root l (chunk_last c) True) (ok_or (CorruptObject root))))
            (\<lambda>following. case following of (c', rightmost') \<Rightarrow>
              recut_run f sha root l c' rightmost' es1 ck1 (added @ us) (gone @ [chunk_last c]))) s1
          (\<lambda>r s'. r = (es', added @ up sha new, gone @ map chunk_last old) \<and> (\<forall>d \<in> set new. readable sha s' d))"
          by (intro yields_tbind_tread [where x = "(d, ds = [])"])
            (use sk(2) eq h(2) r(2,3) in \<open>auto simp: ok_or_Inr_iff elim!: yields_mono intro: readable_extends\<close>)
      qed (use Cons.prems(6) r(2) in \<open>auto intro!: grows_intros split: prod.split\<close>)
      then show ?thesis using False by (simp add: f m p)
    qed
  qed
next
  case Nil
  obtain f where f: "fuel = Suc f" using Nil.prems(7) by (cases fuel) auto
  obtain items es1 where m: "merge_run None (ch_items c) es = (items, es1)" by fastforce
  obtain done1 ck1 where p: "cut_items sha items ck = (done1, ck1)" by fastforce
  have r: "es' = es1" "new = done1 @ finished ck1" "old = [c]"
    using Nil.prems(5) m p by simp_all
  let ?Q = "\<lambda>r s'. r = (es', added @ up sha new, gone @ map chunk_last old) \<and> (\<forall>d \<in> set new. readable sha s' d)"
  have "yields (tbind (summaries sha done1) (\<lambda>others. case chunker_finish ck1 of
        None \<Rightarrow> tret (es1, added @ others, gone @ [chunk_last c])
      | Some c' \<Rightarrow> tbind (summary sha c') (\<lambda>i. tret (es1, added @ others @ [i], gone @ [chunk_last c])))) s ?Q"
  proof (rule yields_tbind [OF yields_summaries])
    fix us s1 assume h: "extends s s1" "us = up sha done1 \<and> (\<forall>c \<in> set done1. readable sha s1 c)"
    show "yields (case chunker_finish ck1 of
        None \<Rightarrow> tret (es1, added @ us, gone @ [chunk_last c])
      | Some c' \<Rightarrow> tbind (summary sha c') (\<lambda>i. tret (es1, added @ us @ [i], gone @ [chunk_last c]))) s1 ?Q"
    proof (cases "chunker_finish ck1")
      case None
      then show ?thesis using h(2) r by (auto intro: yields_tret)
    next
      case (Some e)
      have "yields (tbind (summary sha e) (\<lambda>i. tret (es1, added @ us @ [i], gone @ [chunk_last c]))) s1 ?Q"
        by (rule yields_tbind [OF yields_summary])
          (use Nil.prems(6) r Some h in \<open>auto intro!: grows_intros yields_tret intro: readable_extends\<close>)
      then show ?thesis using Some by simp
    qed
  qed (use Nil.prems(6) r in \<open>auto intro!: grows_intros split: option.split\<close>)
  then show ?case by (simp add: f m p)
qed

lemma cut_chunks_suffix: "cut_chunks sha l (A @ B) \<Longrightarrow> cut_chunks sha l B"
  by (cases "B = []") (auto simp: cut_chunks_def [of sha l "[]"] intro: cut_chunks_append(2))

lemma update_level_yields:
  assumes "tower sha s is h root" "asc is" "l \<le> h" "level_chunks sha is l = D @ B"
    "\<forall>d \<in> set D. \<forall>n \<in> fst ` set es. chunk_last d < n" "B = [] \<longrightarrow> es = []" "edits_ok es"
    "relevel sha l B es = (C', runs)" "\<forall>(old, new) \<in> set runs. \<forall>d \<in> set new. chunk_ok d" "length B < fuel"
  shows "yields (update_level fuel sha root l es out) s
    (\<lambda>r s'. r = record_runs sha runs out \<and> (\<forall>(old, new) \<in> set runs. \<forall>d \<in> set new. readable sha s' d))"
  using assms
proof (induction fuel arbitrary: s D B es C' runs out)
  case (Suc f)
  show ?case
  proof (cases es)
    case Nil
    then have "runs = []" using Suc.prems(8) by (simp add: relevel.simps)
    then show ?thesis using Nil by (auto simp: record_runs_def intro: yields_tret)
  next
    case (Cons e es1)
    then have ne: "B \<noteq> []" "es \<noteq> []" using Suc.prems(6) by auto
    define A where "A = ahead (fst (hd es)) B"
    obtain others es' new old where rc: "recut sha l (drop (length A) B) es (chunker_new l) = (others, es', new, old)"
      by (metis surj_pair)
    obtain C2 runs2 where rl: "relevel sha l others es' = (C2, runs2)" by fastforce
    have runs: "runs = (old, new) # runs2"
      using Suc.prems(8) ne rc rl by (simp add: relevel.simps [of sha l B es] A_def Let_def)
    have whole: "cut_chunks sha l (D @ B)" using Suc.prems(4) by (metis cut_level_cut_chunks)
    have cc: "cut_chunks sha l B" by (rule cut_chunks_suffix [OF whole])
    have ascL: "asc (items_of (D @ B))"
      using asc_level [OF Suc.prems(2), of sha l] Suc.prems(4) cut_level_items by metis
    then have ascB: "asc (items_of B)" by simp
    note R = recut_level [OF ne cc ascB Suc.prems(7) A_def rc]
    obtain c cs where B: "B = A @ c # cs" "cs \<noteq> [] \<longrightarrow> fst (hd es) \<le> chunk_last c"
        "\<forall>a \<in> set A. chunk_last a < fst (hd es)"
      using ahead_append [OF ne(1), of "fst (hd es)"] unfolding A_def by blast
    have fa: "found_at False (fst (hd es)) (level_chunks sha is l) (D @ A) c cs"
      using Suc.prems(4,5) B ne(2) by (auto simp: found_at_def passes_def not_le hd_in_set)
    obtain A' d B' where sk: "found_at False (fst (hd es)) (level_chunks sha is l) A' d B'"
        "seek sha s root l (fst (hd es)) False = Inr (Some (d, B' = []))"
      using seek_tower [OF Suc.prems(1,2,3), of False] by blast
    have eq: "d = c" "B' = cs" using found_at_unique [OF sk(1) fa] by simp_all
    have rc': "recut sha l (c # cs) es (chunker_new l) = (others, es', new, old)" using rc B(1) by simp
    have len: "length cs < f" using Suc.prems(10) B(1) by simp
    let ?Q = "\<lambda>r s'. r = record_runs sha runs out \<and> (\<forall>(old, new) \<in> set runs. \<forall>d \<in> set new. readable sha s' d)"
    have "yields (tbind (recut_run f sha root l c (cs = []) es (chunker_new l) [] []) (\<lambda>(edits, added, gone).
        update_level f sha root l edits (record_run gone added out))) s ?Q"
    proof (rule yields_tbind [OF recut_run_yields])
      show "tower sha s is h root" "asc is" "l \<le> h" by fact+
      show "level_chunks sha is l = (D @ A) @ c # cs" using Suc.prems(4) B(1) by simp
      show "\<forall>d \<in> set new. chunk_ok d" using Suc.prems(9) runs by simp
      show "recut sha l (c # cs) es (chunker_new l) = (others, es', new, old)" by (rule rc')
      show "length cs < f" by (rule len)
      show "grows (case x of (edits, added, gone) \<Rightarrow> update_level f sha root l edits (record_run gone added out))" for x
        by (auto intro: grows_intros split: prod.split)
      fix x s1 assume h: "extends s s1" "x = (es', [] @ up sha new, [] @ map chunk_last old) \<and> (\<forall>d \<in> set new. readable sha s1 d)"
      have tw: "tower sha s1 is h root" by (rule tower_extends [OF Suc.prems(1) h(1)])
      have lasts: "\<forall>d \<in> set (D @ A @ old). \<forall>n \<in> fst ` set es'. chunk_last d < n"
      proof (cases "others = []")
        case True
        then show ?thesis using R(7) by simp
      next
        case False
        have "level_chunks sha is l = (D @ A @ old) @ others" using Suc.prems(4) R(1) by simp
        then have "asc (up sha (D @ A @ old) @ up sha others)"
          using asc_level_up [OF Suc.prems(2), of sha l] by (metis map_append)
        then have "asc (up sha (D @ A @ old))" unfolding asc_simps(3) by blast
        then have "\<forall>d \<in> set (D @ A @ old). chunk_last d \<le> chunk_last (last old)"
          using R(2) by (cases old rule: rev_cases) (auto intro: less_imp_le)
        then show ?thesis using R(9) [OF False] by (meson le_less_trans)
      qed
      have "yields (update_level f sha root l es' (record_run (map chunk_last old) (up sha new) out)) s1
        (\<lambda>r s'. r = record_runs sha runs2 (record_run (map chunk_last old) (up sha new) out)
          \<and> (\<forall>(old, new) \<in> set runs2. \<forall>d \<in> set new. readable sha s' d))"
      proof (rule Suc.IH [OF tw Suc.prems(2,3) _ lasts _ R(6) rl])
        show "level_chunks sha is l = (D @ A @ old) @ others" using Suc.prems(4) R(1) by simp
        show "others = [] \<longrightarrow> es' = []" using R(7) by simp
        show "\<forall>(old, new) \<in> set runs2. \<forall>d \<in> set new. chunk_ok d" using Suc.prems(9) runs by simp
        have "0 < length old" using R(2) by simp
        moreover have "length B = length A + length old + length others" using arg_cong [OF R(1), of length] by simp
        ultimately show "length others < f" using Suc.prems(10) by linarith
      qed
      then show "yields (case x of (edits, added, gone) \<Rightarrow> update_level f sha root l edits (record_run gone added out)) s1 ?Q"
        using h(2) runs by (auto elim!: yields_mono simp: record_runs_def intro: readable_extends)
    qed
    then show ?thesis
      using sk(2) eq Cons by (auto simp: record_run_def ok_or_Inr_iff intro!: yields_tbind_tread [where x = "(c, cs = [])"])
  qed
qed simp

section \<open>All levels\<close>

lemma recut_others: "recut sha l C es ck = (others, es', new, old) \<Longrightarrow> set others \<subseteq> set C"
  by (induction C arbitrary: es ck new old) (fastforce split: prod.splits if_splits)+

lemma relevel_chunks:
  "relevel sha l C es = (C', runs) \<Longrightarrow>
   (\<forall>(old, new) \<in> set runs. set new \<subseteq> set C') \<and> set C' \<subseteq> set C \<union> (\<Union>(old, new) \<in> set runs. set new)"
proof (induction sha l C es arbitrary: C' runs rule: relevel.induct)
  case (1 sha l C es)
  show ?case
  proof (cases "C = [] \<or> es = []")
    case True
    then show ?thesis using 1(2) by (auto simp: relevel.simps [of sha l C es])
  next
    case False
    define A where "A = ahead (fst (hd es)) C"
    obtain others es' new old where rc: "recut sha l (drop (length A) C) es (chunker_new l) = (others, es', new, old)"
      by (metis surj_pair)
    obtain C2 runs2 where rl: "relevel sha l others es' = (C2, runs2)" by fastforce
    have res: "C' = A @ new @ C2" "runs = (old, new) # runs2"
      using 1(2) False rc rl by (simp_all add: relevel.simps [of sha l C es] A_def Let_def)
    have "set A \<subseteq> set C" unfolding A_def ahead_def by (auto dest!: set_takeWhileD in_set_butlastD)
    moreover have "set others \<subseteq> set C" using recut_others [OF rc] set_drop_subset by fastforce
    ultimately show ?thesis using 1(1) [OF False A_def rc [symmetric] refl refl rl] by (auto simp: res)
  qed
qed

lemma update_levels_yields:
  assumes "tower sha s old h root" "dir_ok old" "dir_ok new" "hash_ok sha" "length old < fuel"
    "edits_ok es" "merge_edits (level_items sha old k) es = level_items sha new k" "k \<le> h" "held sha s new k"
  shows "yields (update_levels fuel sha root [k..<h] es) s
    (\<lambda>r s'. edits_ok r \<and> merge_edits (level_items sha old h) r = level_items sha new h \<and> held sha s' new h)"
  using assms
proof (induction "h - k" arbitrary: k s es)
  case 0
  then show ?case by (auto intro: yields_tret)
next
  case (Suc m)
  then have k: "k < h" by simp
  then have levels: "[k..<h] = k # [Suc k..<h]" by (simp add: upt_conv_Cons)
  let ?C = "level_chunks sha old k"
  have asc: "asc old" using Suc.prems(2) by (simp add: dir_ok_def)
  obtain C' runs where rl: "relevel sha k ?C es = (C', runs)" by fastforce
  have ascC: "asc (items_of ?C)" unfolding cut_level_items by (rule asc_level [OF asc])
  have "old \<noteq> []" using Suc.prems(1) level_items_Nil [of sha old h] by (auto simp: tower_def top_of_def)
  then have ne: "?C \<noteq> []" by simp
  have C': "C' = level_chunks sha new k" and ok: "edits_ok (record_runs sha runs [])"
    using relevel_correct [OF cut_level_cut_chunks ascC Suc.prems(6) _ rl] ne Suc.prems(7) by (simp_all add: cut_level_items)
  have merged: "merge_edits (level_items sha old (Suc k)) (record_runs sha runs []) = level_items sha new (Suc k)"
    using relevel_level [OF cut_level_cut_chunks ascC Suc.prems(6) _ rl] ne Suc.prems(7) by (simp add: cut_level_items)
  have kmax: "k \<le> MAX_LEVEL" using Suc.prems(1) k by (simp add: tower_def)
  note sub = relevel_chunks [OF rl]
  have okC: "\<forall>(old, new) \<in> set runs. \<forall>d \<in> set new. chunk_ok d"
    using level_chunk_ok [OF Suc.prems(3,4) kmax] sub C' by fast
  have len: "length ?C < fuel"
    using length_cut_level [of sha k "level_items sha old k"] length_level_items [of sha old k] Suc.prems(5) by simp
  let ?Q = "\<lambda>r s'. edits_ok r \<and> merge_edits (level_items sha old h) r = level_items sha new h \<and> held sha s' new h"
  have "yields (tbind (update_level fuel sha root k es []) (\<lambda>edits. update_levels fuel sha root [Suc k..<h] edits)) s ?Q"
  proof (rule yields_tbind [OF update_level_yields])
    show "tower sha s old h root" "asc old" by fact+
    show "k \<le> h" using k by simp
    show "?C = [] @ ?C" by simp
    show "\<forall>d \<in> set []. \<forall>n \<in> fst ` set es. chunk_last d < n" by simp
    show "?C = [] \<longrightarrow> es = []" using ne by simp
    show "edits_ok es" by fact
    show "relevel sha k ?C es = (C', runs)" by (rule rl)
    show "\<forall>(old, new) \<in> set runs. \<forall>d \<in> set new. chunk_ok d" by (rule okC)
    show "length ?C < fuel" by (rule len)
    show "grows (update_levels fuel sha root [Suc k..<h] x)" for x by (rule grows_intros)
    fix x s1 assume h: "extends s s1"
      "x = record_runs sha runs [] \<and> (\<forall>(old, new) \<in> set runs. \<forall>d \<in> set new. readable sha s1 d)"
    have "readable sha s1 c" if c: "c \<in> set (level_chunks sha new k)" for c
    proof -
      have "c \<in> set ?C \<or> (\<exists>(old, new) \<in> set runs. c \<in> set new)" using sub c C' by fast
      moreover have "held sha s old (Suc h)" using Suc.prems(1) by (simp add: tower_def)
      ultimately show ?thesis using h k heldD [of sha s old "Suc h" k c] readable_extends by fastforce
    qed
    then have held: "held sha s1 new (Suc k)" using held_extends [OF Suc.prems(9) h(1)] by simp
    show "yields (update_levels fuel sha root [Suc k..<h] x) s1 ?Q"
    proof (rule Suc.hyps(1))
      show "m = h - Suc k" using Suc.hyps(2) by simp
      show "tower sha s1 old h root" by (rule tower_extends [OF Suc.prems(1) h(1)])
      show "edits_ok x" "merge_edits (level_items sha old (Suc k)) x = level_items sha new (Suc k)"
        using h(2) ok merged by blast+
      show "held sha s1 new (Suc k)" by (rule held)
      show "Suc k \<le> h" using k by simp
    qed fact+
  qed
  then show ?case by (simp add: levels)
qed

section \<open>A whole directory\<close>

text \<open>What a directory of items is in a store: nothing when there are none, a tower otherwise.\<close>

definition dir_at :: "(bytes \<Rightarrow> bytes) \<Rightarrow> memory_store \<Rightarrow> item list \<Rightarrow> object_id option \<Rightarrow> bool" where
  "dir_at sha s is r \<longleftrightarrow> (case r of None \<Rightarrow> is = [] | Some root \<Rightarrow> is \<noteq> [] \<and> (\<exists>h. tower sha s is h root))"

lemma tower_nonempty: "tower sha s is h root \<Longrightarrow> is \<noteq> []"
  using level_items_Nil [of sha "is" h] by (auto simp: tower_def top_of_def)

lemma tower_empty [simp]: "\<not> tower sha s [] h root"
  using tower_nonempty by blast

lemma dir_at_simps [simp]:
  "dir_at sha s is None \<longleftrightarrow> is = []" "dir_at sha s [] r \<longleftrightarrow> r = None"
  "dir_at sha s is (Some root) \<longleftrightarrow> (\<exists>h. tower sha s is h root)"
  by (auto simp: dir_at_def split: option.split)

lemma dir_at_extends: "dir_at sha s is r \<Longrightarrow> extends s s' \<Longrightarrow> dir_at sha s' is r"
  by (auto simp: dir_at_def intro: tower_extends split: option.splits)

lemma top_unique:
  assumes "top_of sha is h" "top_of sha is h'"
  shows "h = h'"
proof -
  have "\<not> h < h'" "\<not> h' < h" using assms unfolding top_of_def by (metis less_irrefl)+
  then show ?thesis by simp
qed

lemma tower_unique: "tower sha s is h root \<Longrightarrow> tower sha s' is h' root' \<Longrightarrow> root = root'"
  unfolding tower_def by (metis top_unique)

text \<open>A directory's ID is a function of its items.\<close>

lemma dir_at_unique:
  assumes "dir_at sha s is r" "dir_at sha s' is r'"
  shows "r = r'"
  using assms by (cases r; cases r') (auto dest: tower_unique)

lemma yields_build_dir:
  assumes "dir_ok is" "hash_ok sha" "length is \<le> 2 ^ MAX_LEVEL"
  shows "yields (build_level sha 0 is) s (\<lambda>r s'. dir_at sha s' is r)"
proof (cases "is = []")
  case True
  then have "build_level sha 0 is = tret None" by (subst build_level.simps) simp
  then show ?thesis using True by (auto intro: yields_tret)
next
  case False
  obtain h where h: "h \<le> MAX_LEVEL" "top_of sha is h" using top_exists [OF False assms(3)] by blast
  have "yields (build_level sha 0 (level_items sha is 0)) s (\<lambda>r s'. \<exists>root. r = Some root \<and> tower sha s' is h root)"
    by (rule yields_build [OF assms(1,2) h(2,1)]) simp_all
  then show ?thesis by (auto elim!: yields_mono)
qed

lemma map_filter_merge: "edits_ok es \<Longrightarrow> List.map_filter snd es = merge_edits [] es"
  by (induction es) (auto simp: List.map_filter_simps split: option.split)

text \<open>\<open>update_dir\<close> turns the directory of some items into that of the items merged with the edits.\<close>

lemma update_dir_yields:
  assumes "dir_at sha s old r" "dir_ok old" "edits_ok es" "new = merge_edits old es" "dir_ok new" "hash_ok sha"
    "length old < fuel" "length new \<le> 2 ^ MAX_LEVEL"
  shows "yields (update_dir fuel sha r es) s (\<lambda>r' s'. dir_at sha s' new r')"
proof (cases r)
  case None
  then have "old = []" using assms(1) by simp
  then have "update_dir fuel sha r es = build_level sha 0 new"
    using None assms(3,4) by (simp add: update_dir_def map_filter_merge)
  then show ?thesis using yields_build_dir [OF assms(5,6,8)] by simp
next
  case (Some root)
  obtain h where tw: "tower sha s old h root" using assms(1) Some by auto
  obtain c where c: "level_chunks sha old h = [c]" "chunk_at sha s root = Inr c" by (rule tower_root [OF tw])
  have lev: "ch_level c = h" "ch_items c \<noteq> []" using level_chunk_cut [of c sha h old] c(1) by simp_all
  have items: "ch_items c = level_items sha old h" using cut_level_items [of sha h "level_items sha old h"] c(1) by simp
  have hmax: "h \<le> MAX_LEVEL" using tw by (simp add: tower_def)
  let ?Q = "\<lambda>r' s'. dir_at sha s' new r'"
  have last: "yields (build_level sha h (level_items sha new h)) s1 ?Q" if hd: "held sha s1 new h" for s1
  proof (cases "new = []")
    case True
    then have "level_items sha new h = []" by simp
    then have "build_level sha h (level_items sha new h) = tret None" using hmax by (subst build_level.simps) simp
    then show ?thesis using True by (auto intro: yields_tret)
  next
    case False
    obtain t where t: "t \<le> MAX_LEVEL" "top_of sha new t" using top_exists [OF False assms(8)] by blast
    have "yields (build_level sha h (level_items sha new h)) s1 (\<lambda>r s'. \<exists>root. r = Some root \<and> tower sha s' new t root)"
    proof (cases "h \<le> t")
      case True
      show ?thesis by (rule yields_build [OF assms(5,6) t(2,1) True hd])
    next
      case False
      show ?thesis by (rule yields_shrink [OF t(2) _ hmax hd]) (use False in simp)
    qed
    then show ?thesis by (auto elim!: yields_mono)
  qed
  have "yields (tbind (update_levels fuel sha root [0..<h] es) (\<lambda>edits.
      tbind (tread (\<lambda>s. chunk_at sha s root)) (\<lambda>c'. build_level sha h (merge_root (ch_items c') edits)))) s ?Q"
  proof (rule yields_tbind [OF update_levels_yields [OF tw assms(2,5,6,7,3)]])
    show "merge_edits (level_items sha old 0) es = level_items sha new 0" using assms(4) by simp
    fix x s1 assume h: "extends s s1"
      "edits_ok x \<and> merge_edits (level_items sha old h) x = level_items sha new h \<and> held sha s1 new h"
    then have "yields (build_level sha h (merge_root (ch_items c) x)) s1 ?Q"
      using last by (simp add: merge_root_edits items)
    then show "yields (tbind (tread (\<lambda>s. chunk_at sha s root)) (\<lambda>c'. build_level sha h (merge_root (ch_items c') x))) s1 ?Q"
      by (intro yields_tbind_tread [where x = c] chunk_at_extends [OF c(2) h(1)])
  qed (auto intro!: grows_intros)
  then show ?thesis
    using c(2) lev by (auto simp: update_dir_def Some intro!: yields_tbind_tread [where x = c])
qed

end
