(* ===== verification/Snapshots.thy ===== *)
theory Snapshots
  imports Updates
begin

text \<open>
  Snapshots: a root ID in a store stands for a map from paths to entries. \<open>holds\<close> says so by induction over
  directories, and the theorems show what \<open>apply\<close> and \<open>build\<close> do to the map, that the root is a function of
  the map alone, and that they refuse exactly the changes that are ambiguous or collide.
\<close>

section \<open>Outcomes\<close>

text \<open>Short of a collision, \<open>m\<close> keeps what is stored and ends in \<open>P\<close>, with a value or an error.\<close>

definition ends :: "'a tree_op \<Rightarrow> memory_store \<Rightarrow> (error + 'a \<Rightarrow> memory_store \<Rightarrow> bool) \<Rightarrow> bool" where
  "ends m s P \<longleftrightarrow> (case m s of (r, s') \<Rightarrow> ms_collided s' \<or> (extends s s' \<and> P r s'))"

lemma yields_ends: "yields m s Q \<longleftrightarrow> ends m s (\<lambda>r s'. \<exists>x. r = Inr x \<and> Q x s')"
  by (simp add: yields_def ends_def)

lemma ends_tret: "P (Inr x) s \<Longrightarrow> ends (tret x) s P"
  by (simp add: ends_def tret_def)

lemma ends_tfail: "P (Inl e) s \<Longrightarrow> ends (tfail e) s P"
  by (simp add: ends_def tfail_def)

lemma ends_tread: "P (r s) s \<Longrightarrow> ends (tread r) s P"
  by (simp add: ends_def tread_def)

lemma ends_mono: "ends m s P \<Longrightarrow> (\<And>r s'. extends s s' \<Longrightarrow> P r s' \<Longrightarrow> Q r s') \<Longrightarrow> ends m s Q"
  by (auto simp: ends_def)

lemma ends_tbind:
  assumes "ends m s R" "\<And>x. grows (f x)" "\<And>x s'. extends s s' \<Longrightarrow> R (Inr x) s' \<Longrightarrow> ends (f x) s' P"
    "\<And>e s'. extends s s' \<Longrightarrow> R (Inl e) s' \<Longrightarrow> P (Inl e) s'"
  shows "ends (tbind m f) s P"
proof -
  obtain r s1 where m: "m s = (r, s1)" by fastforce
  show ?thesis
  proof (cases r)
    case (Inl e)
    then show ?thesis using assms(1,4) m by (auto simp: ends_def tbind_def)
  next
    case (Inr x)
    obtain r2 s2 where f: "f x s1 = (r2, s2)" by fastforce
    then have b: "tbind m f s = (r2, s2)" using m Inr by (simp add: tbind_def)
    show ?thesis
    proof (cases "ms_collided s1")
      case True
      then show ?thesis using growsD [OF assms(2) f] b by (simp add: ends_def)
    next
      case False
      then have "extends s s1" "R (Inr x) s1" using assms(1) m Inr by (auto simp: ends_def)
      then show ?thesis using assms(3) [of s1 x] f b by (auto simp: ends_def intro: extends_trans)
    qed
  qed
qed

lemma ends_tbind_tread: "r s = Inr x \<Longrightarrow> ends (f x) s P \<Longrightarrow> ends (tbind (tread r) f) s P"
  by (simp add: ends_def tbind_tread)

lemma ends_tbind_tread_Inl: "r s = Inl e \<Longrightarrow> P (Inl e) s \<Longrightarrow> ends (tbind (tread r) f) s P"
  by (simp add: ends_def tbind_def tread_def)

lemma ends_tbind_tret: "ends (f x) s P \<Longrightarrow> ends (tbind (tret x) f) s P"
  by (simp add: ends_def tbind_def tret_def)

lemma ends_elim: "ends m s P \<Longrightarrow> m s = (r, s') \<Longrightarrow> \<not> ms_collided s' \<Longrightarrow> extends s s' \<and> P r s'"
  by (simp add: ends_def)

section \<open>The map a directory stands for\<close>

type_synonym 'a paths = "string \<Rightarrow> 'a option"

text \<open>The paths below a name.\<close>

definition sub :: "'a paths \<Rightarrow> string \<Rightarrow> 'a paths" where
  "sub f n = (\<lambda>p. f (n @ ''/'' @ p))"

abbreviation (input) plain :: "string \<Rightarrow> bool" where
  "plain n \<equiv> CHR ''/'' \<notin> set n"

text \<open>The node of a name.\<close>

definition node_at :: "item list \<Rightarrow> string \<Rightarrow> node option" where
  "node_at is n = map_option item_node (item_of is n)"

text \<open>The names of a directory fit a map: files are its paths without a slash, and a name is a directory when there
  are paths below it.\<close>

definition fits :: "item list \<Rightarrow> file_entry paths \<Rightarrow> bool" where
  "fits is f \<longleftrightarrow>
     (\<forall>n. plain n \<longrightarrow>
        f n = Option.bind (node_at is n) node_file
        \<and> (sub f n = Map.empty \<longleftrightarrow> Option.bind (node_at is n) node_dir = None))"

inductive holds :: "(bytes \<Rightarrow> bytes) \<Rightarrow> memory_store \<Rightarrow> object_id option \<Rightarrow> file_entry paths \<Rightarrow> bool" for sha s where
  "dir_at sha s is r \<Longrightarrow> dir_ok is \<Longrightarrow> fits is f
   \<Longrightarrow> (\<And>n d. plain n \<Longrightarrow> node_at is n = Some (Dir d) \<Longrightarrow> holds sha s (Some d) (sub f n))
   \<Longrightarrow> holds sha s r f"

lemma holdsD:
  assumes "holds sha s r f"
  shows "\<exists>is. dir_at sha s is r \<and> dir_ok is \<and> fits is f
    \<and> (\<forall>n d. plain n \<longrightarrow> node_at is n = Some (Dir d) \<longrightarrow> holds sha s (Some d) (sub f n))"
  using assms by (cases rule: holds.cases) blast

lemma path_cases:
  obtains (name) "plain p" | (below) n q where "plain n" "p = n @ ''/'' @ q"
proof (cases "split_once p")
  case None
  then show thesis using name split_once_None by blast
next
  case (Some r)
  then show thesis using below split_once_Some by (cases r) blast
qed

lemma sub_apply [simp]: "sub f n p = f (n @ CHR ''/'' # p)"
  by (simp add: sub_def)

lemma sub_empty [simp]: "sub Map.empty n = Map.empty"
  by (simp add: fun_eq_iff)

lemma paths_ext: "(\<And>n. plain n \<Longrightarrow> f n = g n \<and> sub f n = sub g n) \<Longrightarrow> f = g"
proof (rule ext)
  fix p assume h: "\<And>n. plain n \<Longrightarrow> f n = g n \<and> sub f n = sub g n"
  show "f p = g p"
  proof (cases p rule: path_cases)
    case name
    then show ?thesis using h by blast
  next
    case (below n q)
    then have "sub f n q = sub g n q" using h by simp
    then show ?thesis using below by simp
  qed
qed

lemma holds_extends: "holds sha s r f \<Longrightarrow> extends s s' \<Longrightarrow> holds sha s' r f"
  by (induction rule: holds.induct) (auto intro: holds.intros dir_at_extends)

lemma fits_Nil: "fits [] f \<longleftrightarrow> f = Map.empty"
proof
  assume "fits [] f"
  then show "f = Map.empty" by (intro paths_ext) (auto simp: fits_def node_at_def)
qed (simp add: fits_def node_at_def)

lemma item_of_plain: "dir_ok is \<Longrightarrow> item_of is n = Some i \<Longrightarrow> plain n \<and> item_ok 0 i \<and> it_name i = n"
proof -
  assume h: "dir_ok is" "item_of is n = Some i"
  then have "item_ok 0 i" "it_name i = n" using item_of_Some by (auto simp: dir_ok_def list_all_iff)
  moreover have "plain (it_name i)" using calculation(1) by (auto simp: item_ok_def valid_name_def list_all_iff)
  ultimately show ?thesis by simp
qed

lemma fits_nonempty:
  assumes "fits is f" "dir_ok is" "i \<in> set is"
  shows "f (it_name i) \<noteq> None \<or> sub f (it_name i) \<noteq> Map.empty"
proof -
  have asc: "asc is" using assms(2) by (simp add: dir_ok_def)
  then have i: "item_of is (it_name i) = Some i" using assms(3) item_of_mem by blast
  have p: "plain (it_name i)" using item_of_plain [OF assms(2) i] by simp
  from assms(1) [unfolded fits_def, rule_format, OF p] i
  show ?thesis by (cases "item_node i") (auto simp: node_at_def)
qed

lemma holds_None [simp]: "holds sha s None f \<longleftrightarrow> f = Map.empty"
proof
  assume "holds sha s None f"
  from holdsD [OF this] obtain "is" where "dir_at sha s is None" "fits is f" by blast
  then show "f = Map.empty" by (simp add: fits_Nil)
next
  assume f: "f = Map.empty"
  show "holds sha s None f"
    unfolding f by (rule holds.intros [of sha s "[]"]) (simp_all add: fits_Nil dir_ok_def node_at_def)
qed

lemma holds_Some: "holds sha s (Some d) f \<Longrightarrow> f \<noteq> Map.empty"
proof -
  assume "holds sha s (Some d) f"
  from holdsD [OF this] obtain "is" where h: "dir_at sha s is (Some d)" "dir_ok is" "fits is f" by blast
  then obtain i where "i \<in> set is" by (cases "is") auto
  from fits_nonempty [OF h(3,2) this] show ?thesis by auto
qed

lemma holds_empty: "holds sha s r Map.empty \<longleftrightarrow> r = None"
  using holds_Some by (cases r) auto

text \<open>No path is below another.\<close>

lemma holds_disjoint: "holds sha s r f \<Longrightarrow> f p \<noteq> None \<Longrightarrow> f (p @ ''/'' @ q) = None"
proof (induction arbitrary: p rule: holds.induct)
  case (1 "is" r f)
  show ?case
  proof (cases p rule: path_cases)
    case name
    then have "Option.bind (node_at is p) node_dir = None"
      using 1(3,6) by (cases "node_at is p"; cases "the (node_at is p)") (auto simp: fits_def)
    then have "sub f p = Map.empty" using 1(3) name by (simp add: fits_def)
    then have "sub f p q = None" by (simp only:)
    then show ?thesis by simp
  next
    case (below n p')
    then have "sub f n p' \<noteq> None" using 1(6) by simp
    then have "sub f n \<noteq> Map.empty" by (metis)
    then obtain d where "node_at is n = Some (Dir d)"
      using 1(3) below(1) unfolding fits_def
      by (metis bind.bind_lunit node.exhaust node_dir.simps(2) not_None_eq bind_eq_None_conv)
    from 1(5) [OF below(1) this, of p'] show ?thesis using \<open>sub f n p' \<noteq> None\<close> by (simp add: below)
  qed
qed

text \<open>The root ID is a function of the map.\<close>

lemma item_of_node: "item_ok 0 i \<Longrightarrow> item_new (it_name i) (item_node i) = i"
  by (cases i) (auto simp: item_ok_def item_node_def)

lemma holds_unique: "holds sha s r f \<Longrightarrow> holds sha s' r' f \<Longrightarrow> r = r'"
proof (induction arbitrary: r' rule: holds.induct)
  case (1 "is" r f)
  from holdsD [OF 1(6)] obtain is' where 2: "dir_at sha s' is' r'" "dir_ok is'" "fits is' f"
      "\<forall>n d. plain n \<longrightarrow> node_at is' n = Some (Dir d) \<longrightarrow> holds sha s' (Some d) (sub f n)"
    by blast
  have nodes: "node_at is n = node_at is' n" if n: "plain n" for n
  proof -
    have fit: "Option.bind (node_at is n) node_file = Option.bind (node_at is' n) node_file"
        "Option.bind (node_at is n) node_dir = None \<longleftrightarrow> Option.bind (node_at is' n) node_dir = None"
      using 1(3) 2(3) n unfolding fits_def by metis+
    show ?thesis
    proof (cases "Option.bind (node_at is n) node_dir")
      case None
      then show ?thesis using fit by (auto split: bind_splits elim!: node_file.elims node_dir.elims)
    next
      case (Some d)
      then obtain e where de: "node_at is n = Some (Dir d)" "node_at is' n = Some (Dir e)"
        using fit(2) by (auto simp: bind_eq_Some_conv elim!: node_dir.elims)
      then have "holds sha s' (Some e) (sub f n)" using 2(4) n by simp
      from 1(5) [OF n de(1) this] show ?thesis by (simp add: de)
    qed
  qed
  have "item_of is n = item_of is' n" for n
  proof (cases "plain n")
    case True
    have ok: "item_new n (item_node i) = i" if "item_of is n = Some i \<or> item_of is' n = Some i" for i
      using that item_of_plain 1(2) 2(2) item_of_node by metis
    show ?thesis
    proof (cases "item_of is n")
      case None
      then show ?thesis using nodes [OF True] by (simp add: node_at_def)
    next
      case (Some i)
      then obtain j where j: "item_of is' n = Some j" "item_node j = item_node i"
        using nodes [OF True] by (cases "item_of is' n") (simp_all add: node_at_def)
      then show ?thesis using ok [of i] ok [of j] Some by metis
    qed
  next
    case False
    then show ?thesis using item_of_plain 1(2) 2(2) by (metis option.exhaust)
  qed
  then have "is = is'" using 1(2) 2(2) by (intro asc_ext) (auto simp: dir_ok_def)
  then show ?case using dir_at_unique 1(1) 2(1) by blast
qed

section \<open>Changes by first name\<close>

definition first_name :: "string \<Rightarrow> string" where
  "first_name p = (case split_once p of None \<Rightarrow> p | Some (n, _) \<Rightarrow> n)"

definition inside_of :: "change_list \<Rightarrow> string \<Rightarrow> change_list" where
  "inside_of ch n = List.map_filter (\<lambda>(p, e). case split_once p of Some (m, rest) \<Rightarrow> if m = n then Some (rest, e) else None
                                                    | None \<Rightarrow> None) ch"

text \<open>The map after changes, each path changed once.\<close>

definition upd :: "file_entry paths \<Rightarrow> change_list \<Rightarrow> file_entry paths" where
  "upd f ch = (\<lambda>p. case map_of ch p of Some x \<Rightarrow> x | None \<Rightarrow> f p)"

lemma split_once_slash: "plain n \<Longrightarrow> split_once (n @ CHR ''/'' # q) = Some (n, q)"
  by (induction n) auto

lemma split_once_iff: "split_once p = Some (n, q) \<longleftrightarrow> plain n \<and> p = n @ CHR ''/'' # q"
  using split_once_Some [of p n q] split_once_slash [of n q] by auto

lemma slash_eq:
  "plain n \<Longrightarrow> plain m \<Longrightarrow> n @ CHR ''/'' # q = m @ CHR ''/'' # r \<longleftrightarrow> n = m \<and> q = r"
  by (metis split_once_slash option.inject prod.inject)

lemma inside_simps [simp]:
  "inside_of [] n = []"
  "inside_of ((p, e) # ch) n = (case split_once p of Some (m, rest) \<Rightarrow> if m = n then (rest, e) # inside_of ch n else inside_of ch n
                                             | None \<Rightarrow> inside_of ch n)"
  by (auto simp: inside_of_def List.map_filter_simps split: option.split)

lemma map_of_inside: "plain n \<Longrightarrow> map_of (inside_of ch n) q = map_of ch (n @ CHR ''/'' # q)"
  by (induction ch) (auto split: option.splits simp: split_once_iff split_once_slash slash_eq)

lemma inside_keys: "plain n \<Longrightarrow> fst ` set (inside_of ch n) = {q. n @ CHR ''/'' # q \<in> fst ` set ch}"
  using map_of_inside [of n ch] unfolding set_eq_iff by (metis map_of_eq_None_iff mem_Collect_eq)

lemma inside_distinct: "plain n \<Longrightarrow> distinct (map fst ch) \<Longrightarrow> distinct (map fst (inside_of ch n))"
proof (induction ch)
  case (Cons c ch)
  have "q \<notin> fst ` set (inside_of ch n)" if "split_once (fst c) = Some (n, q)" for q
    using Cons.prems that by (auto simp: inside_keys split_once_iff)
  then show ?case using Cons by (cases c) (auto split: option.split)
qed simp

lemma inside_length: "length (inside_of ch n) \<le> length ch"
  by (induction ch) (auto split: option.split)

lemma sub_upd: "plain n \<Longrightarrow> sub (upd f ch) n = upd (sub f n) (inside_of ch n)"
  by (rule ext) (simp add: upd_def map_of_inside split: option.split)

lemma upd_Nil [simp]: "upd f [] = f"
  by (simp add: upd_def)

text \<open>The groups of \<open>apply_dir\<close>: for every first name, the change of the name itself and those below it.\<close>

definition group_at :: "groups \<Rightarrow> string \<Rightarrow> file_entry option option \<times> change_list" where
  "group_at gs n = (case map_of gs n of None \<Rightarrow> (None, []) | Some g \<Rightarrow> g)"

lemma group_change_step:
  assumes "omap_ok gs"
  shows "omap_ok (group_change (p, e) gs) \<and> fst ` set (group_change (p, e) gs) = insert (first_name p) (fst ` set gs)
    \<and> (plain n \<longrightarrow> group_at (group_change (p, e) gs) n =
        (if p = n then Some e else fst (group_at gs n), snd (group_at gs n) @ inside_of [(p, e)] n))"
proof (cases "split_once p")
  case None
  then have "plain p" by (simp add: split_once_None)
  then show ?thesis
    using assms None by (auto simp: group_change_def first_name_def Let_def group_at_def map_of_omap_insert)
next
  case (Some r)
  obtain m q where r: "r = (m, q)" by (cases r)
  then have "p = m @ CHR ''/'' # q" using Some by (simp add: split_once_iff)
  then have "p \<noteq> n" if "plain n" for n using that by auto
  then show ?thesis
    using assms Some r by (auto simp: group_change_def first_name_def Let_def group_at_def map_of_omap_insert)
qed

lemma fold_group_change:
  assumes "omap_ok gs" "distinct (map fst ch)"
  shows "omap_ok (fold group_change ch gs) \<and> fst ` set (fold group_change ch gs) = first_name ` fst ` set ch \<union> fst ` set gs
    \<and> (plain n \<longrightarrow> group_at (fold group_change ch gs) n =
        (case map_of ch n of None \<Rightarrow> fst (group_at gs n) | Some e \<Rightarrow> Some e, snd (group_at gs n) @ inside_of ch n))"
  using assms
proof (induction ch arbitrary: gs)
  case (Cons c ch)
  obtain p e where c: "c = (p, e)" by (cases c)
  note step = group_change_step [OF Cons.prems(1), of p e]
  have "map_of ch p = None" using Cons.prems(2) by (simp add: c map_of_eq_None_iff)
  then show ?case
    using Cons.IH [of "group_change (p, e) gs"] step [of n] Cons.prems(2)
    by (auto simp: c split: option.split)
qed simp

lemma group_changes_spec:
  assumes "distinct (map fst ch)"
  shows "omap_ok (group_changes ch)" "fst ` set (group_changes ch) = first_name ` fst ` set ch"
    "(n, exact, deeper) \<in> set (group_changes ch) \<Longrightarrow> plain n \<Longrightarrow> exact = map_of ch n \<and> deeper = inside_of ch n"
proof -
  show ok: "omap_ok (group_changes ch)" and "fst ` set (group_changes ch) = first_name ` fst ` set ch"
    using fold_group_change [OF omap_ok_Nil assms] by (simp_all add: group_changes_def)
  assume h: "(n, exact, deeper) \<in> set (group_changes ch)" "plain n"
  then have "group_at (group_changes ch) n = (exact, deeper)"
    using omap_map_of_iff [OF ok, THEN iffD2, OF h(1)] by (simp add: group_at_def)
  then show "exact = map_of ch n \<and> deeper = inside_of ch n"
    using fold_group_change [OF omap_ok_Nil assms, of n] h(2)
    by (auto simp: group_changes_def group_at_def split: option.splits)
qed

lemma first_name_plain: "plain (first_name p)"
  by (auto simp: first_name_def split_once_None split_once_iff split: option.split)

section \<open>Which changes are refused\<close>

text \<open>Deleting a name that is no file but has paths or changes below it, and a file above another path.\<close>

definition refused :: "file_entry paths \<Rightarrow> change_list \<Rightarrow> bool" where
  "refused f ch \<longleftrightarrow>
     (\<exists>p. map_of ch p = Some None \<and> f p = None \<and> (\<exists>q. f (p @ ''/'' @ q) \<noteq> None \<or> map_of ch (p @ ''/'' @ q) \<noteq> None))
     \<or> (\<exists>p q. upd f ch p \<noteq> None \<and> upd f ch (p @ ''/'' @ q) \<noteq> None)"

definition refused_at :: "file_entry paths \<Rightarrow> change_list \<Rightarrow> string \<Rightarrow> bool" where
  "refused_at f ch n \<longleftrightarrow>
     (map_of ch n = Some None \<and> f n = None \<and> (sub f n \<noteq> Map.empty \<or> inside_of ch n \<noteq> []))
     \<or> (upd f ch n \<noteq> None \<and> sub (upd f ch) n \<noteq> Map.empty)
     \<or> refused (sub f n) (inside_of ch n)"

lemma sub_nonempty: "sub f n \<noteq> Map.empty \<longleftrightarrow> (\<exists>q. f (n @ ''/'' @ q) \<noteq> None)"
  by (auto simp: fun_eq_iff)

lemma inside_nonempty: "plain n \<Longrightarrow> inside_of ch n \<noteq> [] \<longleftrightarrow> (\<exists>q. map_of ch (n @ ''/'' @ q) \<noteq> None)"
proof -
  assume "plain n"
  then have "inside_of ch n \<noteq> [] \<longleftrightarrow> (\<exists>q. map_of (inside_of ch n) q \<noteq> None)"
    by (cases "inside_of ch n") auto
  then show ?thesis using \<open>plain n\<close> by (simp add: map_of_inside)
qed

lemma refused_split: "refused f ch \<longleftrightarrow> (\<exists>n. plain n \<and> refused_at f ch n)"
proof
  assume "refused f ch"
  then consider (a) p q where "map_of ch p = Some None" "f p = None" "f (p @ ''/'' @ q) \<noteq> None \<or> map_of ch (p @ ''/'' @ q) \<noteq> None"
    | (b) p q where "upd f ch p \<noteq> None" "upd f ch (p @ ''/'' @ q) \<noteq> None"
    unfolding refused_def by blast
  then show "\<exists>n. plain n \<and> refused_at f ch n"
  proof cases
    case a
    show ?thesis
    proof (cases p rule: path_cases)
      case name
      then have "refused_at f ch p"
        using a sub_nonempty [of f p] inside_nonempty [of p ch] unfolding refused_at_def by blast
      then show ?thesis using name by blast
    next
      case (below n p')
      have "refused (sub f n) (inside_of ch n)"
        unfolding refused_def using a below map_of_inside [OF below(1), of ch]
        by (intro disjI1 exI [of _ p']) auto
      then show ?thesis using below(1) unfolding refused_at_def by blast
    qed
  next
    case b
    show ?thesis
    proof (cases p rule: path_cases)
      case name
      then have "refused_at f ch p" using b sub_nonempty [of "upd f ch" p] unfolding refused_at_def by blast
      then show ?thesis using name by blast
    next
      case (below n p')
      have "sub (upd f ch) n p' \<noteq> None" "sub (upd f ch) n (p' @ ''/'' @ q) \<noteq> None" using b below by simp_all
      then have "refused (sub f n) (inside_of ch n)"
        unfolding refused_def sub_upd [OF below(1)] by blast
      then show ?thesis using below(1) unfolding refused_at_def by blast
    qed
  qed
next
  assume "\<exists>n. plain n \<and> refused_at f ch n"
  then obtain n where n: "plain n" "refused_at f ch n" by blast
  then consider (a) "map_of ch n = Some None" "f n = None" "sub f n \<noteq> Map.empty \<or> inside_of ch n \<noteq> []"
    | (b) "upd f ch n \<noteq> None" "sub (upd f ch) n \<noteq> Map.empty" | (c) "refused (sub f n) (inside_of ch n)"
    unfolding refused_at_def by metis
  then show "refused f ch"
  proof cases
    case a
    then show ?thesis using sub_nonempty [of f n] inside_nonempty [OF n(1), of ch] unfolding refused_def by blast
  next
    case b
    then show ?thesis using sub_nonempty [of "upd f ch" n] unfolding refused_def by blast
  next
    case c
    then consider (a) p q where "map_of (inside_of ch n) p = Some None" "sub f n p = None"
        "sub f n (p @ ''/'' @ q) \<noteq> None \<or> map_of (inside_of ch n) (p @ ''/'' @ q) \<noteq> None"
      | (b) p q where "sub (upd f ch) n p \<noteq> None" "sub (upd f ch) n (p @ ''/'' @ q) \<noteq> None"
      unfolding refused_def sub_upd [OF n(1)] by blast
    then show ?thesis
    proof cases
      case a
      have "map_of ch (n @ ''/'' @ p) = Some None" "f (n @ ''/'' @ p) = None"
          "f ((n @ ''/'' @ p) @ ''/'' @ q) \<noteq> None \<or> map_of ch ((n @ ''/'' @ p) @ ''/'' @ q) \<noteq> None"
        using a by (simp_all add: map_of_inside [OF n(1)])
      then show ?thesis unfolding refused_def by blast
    next
      case b
      have "upd f ch (n @ ''/'' @ p) \<noteq> None" "upd f ch ((n @ ''/'' @ p) @ ''/'' @ q) \<noteq> None"
        using b by simp_all
      then show ?thesis unfolding refused_def by blast
    qed
  qed
qed

section \<open>Valid changes\<close>

definition rel_ok :: "string \<Rightarrow> bool" where
  "rel_ok p \<longleftrightarrow> list_all (\<lambda>n. valid_name n \<and> utf8 n) (split_on (CHR ''/'') p) \<and> length p \<le> MAX_PATH"

definition changes_ok :: "change_list \<Rightarrow> bool" where
  "changes_ok ch \<longleftrightarrow> distinct (map fst ch) \<and> (\<forall>(p, e) \<in> set ch. rel_ok p \<and> (\<forall>x. e = Some x \<longrightarrow> oid_ok (entry_content x)))"

lemma split_on_first: "split_on (CHR ''/'') (n @ CHR ''/'' # q) = split_on (CHR ''/'') n @ split_on (CHR ''/'') q"
  by (rule split_on_append_sep)

lemma rel_ok_first:
  assumes "rel_ok p"
  shows "valid_name (first_name p) \<and> utf8 (first_name p) \<and> length (first_name p) \<le> MAX_PATH"
proof (cases "split_once p")
  case None
  then have "plain p" by (simp add: split_once_None)
  then show ?thesis using assms None split_on_no_sep [of "CHR ''/''" p] by (simp add: rel_ok_def first_name_def)
next
  case (Some r)
  obtain n q where r: "r = (n, q)" by (cases r)
  then have p: "p = n @ CHR ''/'' # q" "plain n" using Some by (simp_all add: split_once_iff)
  show ?thesis
    using assms Some r split_on_no_sep [OF p(2)] unfolding p(1)
    by (simp add: rel_ok_def first_name_def split_on_first)
qed

lemma rel_ok_inside: "rel_ok (n @ CHR ''/'' # q) \<Longrightarrow> rel_ok q"
  by (simp add: rel_ok_def split_on_first)

lemma changes_ok_inside: "plain n \<Longrightarrow> changes_ok ch \<Longrightarrow> changes_ok (inside_of ch n)"
proof -
  assume h: "plain n" "changes_ok ch"
  then have d: "distinct (map fst ch)" "distinct (map fst (inside_of ch n))" by (simp_all add: changes_ok_def inside_distinct)
  have "(n @ CHR ''/'' # q, e) \<in> set ch" if "(q, e) \<in> set (inside_of ch n)" for q e
  proof -
    have "map_of (inside_of ch n) q = Some e" using map_of_is_SomeI [OF d(2) that] .
    then show ?thesis unfolding map_of_inside [OF h(1)] by (rule map_of_SomeD)
  qed
  then show ?thesis
    using h(2) d(2) rel_ok_inside unfolding changes_ok_def by fast
qed

text \<open>The most items a directory can have.\<close>

definition room :: "nat \<Rightarrow> file_entry paths \<Rightarrow> change_list \<Rightarrow> bool" where
  "room N f ch \<longleftrightarrow> finite (dom f) \<and> card (dom f) + length ch \<le> N"

lemma room_inside: "room N f ch \<Longrightarrow> room N (sub f n) (inside_of ch n)"
proof -
  assume h: "room N f ch"
  have inj: "inj_on (\<lambda>q. n @ CHR ''/'' # q) (dom (sub f n))" by (auto intro: inj_onI)
  have img: "(\<lambda>q. n @ CHR ''/'' # q) ` dom (sub f n) \<subseteq> dom f" by auto
  have fin: "finite (dom f)" using h by (simp add: room_def)
  have "finite (dom (sub f n))" using finite_subset [OF img fin] inj finite_imageD by blast
  moreover have "card (dom (sub f n)) \<le> card (dom f)" by (rule card_inj_on_le [OF inj img fin])
  ultimately show ?thesis using h inside_length [of ch n] by (simp add: room_def)
qed

lemma dom_upd: "dom (upd f ch) \<subseteq> dom f \<union> fst ` set ch"
proof
  fix p assume "p \<in> dom (upd f ch)"
  then show "p \<in> dom f \<union> fst ` set ch"
    using map_of_eq_None_iff [of ch p] by (cases "map_of ch p") (auto simp: upd_def)
qed

lemma room_upd: "room N f ch \<Longrightarrow> finite (dom (upd f ch)) \<and> card (dom (upd f ch)) \<le> N"
proof -
  assume h: "room N f ch"
  then have "finite (dom f \<union> fst ` set ch)" by (simp add: room_def)
  moreover have "card (dom f \<union> fst ` set ch) \<le> card (dom f) + length ch"
    using card_Un_le [of "dom f" "fst ` set ch"] card_length [of "map fst ch"] by simp
  ultimately show ?thesis
    using h dom_upd [of f ch] card_mono finite_subset unfolding room_def by (metis le_trans)
qed

lemma fits_length:
  assumes "fits is f" "dir_ok is" "finite (dom f)"
  shows "length is \<le> card (dom f)"
proof -
  define g where "g n = (if f n \<noteq> None then n else n @ ''/'' @ (SOME q. sub f n q \<noteq> None))" for n
  have g: "g (it_name i) \<in> dom f \<and> first_name (g (it_name i)) = it_name i" if i: "i \<in> set is" for i
  proof -
    have p: "plain (it_name i)"
      using item_of_plain [OF assms(2), of "it_name i" i] item_of_mem [of "is" i] i assms(2) by (simp add: dir_ok_def)
    show ?thesis
    proof (cases "f (it_name i) \<noteq> None")
      case True
      then show ?thesis using p by (auto simp: g_def first_name_def split_once_None [THEN iffD2])
    next
      case False
      then have "\<exists>q. sub f (it_name i) q \<noteq> None"
        using fits_nonempty [OF assms(1,2) i] by (metis (full_types) ext)
      from someI_ex [OF this] show ?thesis
        using False p split_once_slash [of "it_name i"] by (auto simp: g_def first_name_def)
    qed
  qed
  have d: "distinct (map it_name is)" using assms(2) by (simp add: dir_ok_def asc_def strict_sorted_iff)
  have "inj_on g (it_name ` set is)" using g by (intro inj_onI) (metis imageE)
  moreover have "g ` it_name ` set is \<subseteq> dom f" using g by auto
  ultimately have "card (it_name ` set is) \<le> card (dom f)" using assms(3) by (metis card_inj_on_le)
  then show ?thesis using d distinct_card [of "map it_name is"] by simp
qed

section \<open>Reading and updating a snapshot's directory\<close>

text \<open>The empty World's root reads as a directory of no items.\<close>

definition dir_reads :: "(bytes \<Rightarrow> bytes) \<Rightarrow> memory_store \<Rightarrow> item list \<Rightarrow> object_id option \<Rightarrow> bool" where
  "dir_reads sha s is r \<longleftrightarrow> dir_at sha s is r \<or> (is = [] \<and> r = Some (empty_tree sha))"

lemma chunk_at_empty [simp]: "chunk_at sha s (empty_tree sha) = Inr \<lparr>ch_level = 0, ch_items = []\<rparr>"
proof -
  have "chunk_decode [CHR 0x00] = Inr \<lparr>ch_level = 0, ch_items = []\<rparr>"
    by (simp add: chunk_decode_iff chunk_ok_def chunk_encode_def MAX_LEVEL_def MAX_CHUNK_def char_of_def)
  then show ?thesis by (simp add: chunk_at_def empty_tree_def)
qed

lemma find_reads:
  assumes "dir_reads sha s is r" "asc is"
  shows "find_opt sha s r name = Inr (node_at is name)"
proof -
  have "find_in sha s (empty_tree sha) name = Inr None"
    by (simp add: find_in_def seek_def seek_from.simps)
  then show ?thesis
    using assms find_tower by (auto simp: dir_reads_def find_opt_def node_at_def split: option.split)
qed

lemma update_reads:
  assumes "dir_reads sha s old r" "dir_ok old" "edits_ok es" "new = merge_edits old es" "dir_ok new" "hash_ok sha"
    "length old < fuel" "length new \<le> 2 ^ MAX_LEVEL"
  shows "yields (update_dir fuel sha r es) s (\<lambda>r' s'. dir_at sha s' new r')"
proof (cases "dir_at sha s old r")
  case True
  then show ?thesis using assms(2-) by (rule update_dir_yields)
next
  case False
  then have r: "old = []" "r = Some (empty_tree sha)" using assms(1) by (auto simp: dir_reads_def)
  then have "update_dir fuel sha r es s = build_level sha 0 new s"
    using assms(3,4) by (simp add: update_dir_def map_filter_merge tbind_tread [where x = "\<lparr>ch_level = 0, ch_items = []\<rparr>"])
  then show ?thesis using yields_build_dir [OF assms(5,6,8), of s] by (simp add: yields_def)
qed

section \<open>Applying changes\<close>

text \<open>A directory in the store: its items, and what its subdirectories stand for.\<close>

definition dir_state :: "(bytes \<Rightarrow> bytes) \<Rightarrow> memory_store \<Rightarrow> item list \<Rightarrow> object_id option \<Rightarrow> file_entry paths \<Rightarrow> bool" where
  "dir_state sha s is r f \<longleftrightarrow> dir_reads sha s is r \<and> dir_ok is \<and> fits is f
     \<and> (\<forall>n d. plain n \<longrightarrow> node_at is n = Some (Dir d) \<longrightarrow> holds sha s (Some d) (sub f n))"

lemma dir_state_extends: "dir_state sha s is r f \<Longrightarrow> extends s s' \<Longrightarrow> dir_state sha s' is r f"
  unfolding dir_state_def dir_reads_def using dir_at_extends holds_extends by blast

lemma holds_state: "holds sha s r f \<Longrightarrow> \<exists>is. dir_at sha s is r \<and> dir_state sha s is r f"
  using holdsD [of sha s r f] unfolding dir_state_def dir_reads_def by blast

lemma state_holds: "dir_state sha s is r f \<Longrightarrow> dir_at sha s is r \<Longrightarrow> holds sha s r f"
  unfolding dir_state_def by (rule holds.intros [of sha s "is"]) auto

lemma state_sub:
  assumes "dir_state sha s is r f" "plain n"
  shows "holds sha s (Option.bind (node_at is n) node_dir) (sub f n)"
proof (cases "Option.bind (node_at is n) node_dir")
  case None
  then show ?thesis using assms by (simp add: dir_state_def fits_def)
next
  case (Some d)
  then have "node_at is n = Some (Dir d)" by (auto simp: bind_eq_Some_conv elim!: node_dir.elims)
  then show ?thesis using assms Some by (simp add: dir_state_def)
qed

lemma state_file: "dir_state sha s is r f \<Longrightarrow> plain n \<Longrightarrow> Option.bind (node_at is n) node_file = f n"
  by (simp add: dir_state_def fits_def)

lemma state_dir: "dir_state sha s is r f \<Longrightarrow> plain n \<Longrightarrow> Option.bind (node_at is n) node_dir = None \<longleftrightarrow> sub f n = Map.empty"
  by (simp add: dir_state_def fits_def)

lemma not_refused_Nil: "holds sha s r f \<Longrightarrow> \<not> refused f []"
  using holds_disjoint by (fastforce simp: refused_def)

lemma holds_None_iff: "holds sha s r f \<Longrightarrow> r = None \<longleftrightarrow> f = Map.empty"
  using holds_Some by (cases r) auto

lemma item_new_name [simp]: "it_name (item_new n node) = n"
  by (induction n node rule: item_new.induct) simp_all

text \<open>What the loop has settled for one name.\<close>

definition settled :: "(bytes \<Rightarrow> bytes) \<Rightarrow> memory_store \<Rightarrow> item list \<Rightarrow> file_entry paths \<Rightarrow> edits \<Rightarrow> string \<Rightarrow> bool" where
  "settled sha s is f edits n \<longleftrightarrow>
     (\<exists>sub' node. holds sha s sub' (sub f n) \<and> next_node (f n) sub' = Inr node
       \<and> map_of edits n = (if node = node_at is n then None else Some (map_option (item_new n) node)))"

definition declined :: "error + 'a \<Rightarrow> bool" where
  "declined r \<longleftrightarrow> (\<exists>why. r = Inl (InvalidInput why))"

lemma tombstone_iff:
  assumes "dir_state sha s is r f" "plain n"
  shows "tombstone_ambiguous (map_of ch n) (inside_of ch n) (node_at is n)
    \<longleftrightarrow> map_of ch n = Some None \<and> f n = None \<and> (sub f n \<noteq> Map.empty \<or> inside_of ch n \<noteq> [])"
  using state_file [OF assms] state_dir [OF assms] by (auto simp: tombstone_ambiguous_def)

lemma next_node_cases:
  "(e \<noteq> None \<and> sub' \<noteq> None \<and> declined (next_node e sub'))
   \<or> (\<not> (e \<noteq> None \<and> sub' \<noteq> None) \<and> (\<exists>node. next_node e sub' = Inr node))"
  by (cases e; cases sub') (auto simp: next_node_def declined_def)

definition apply_ends :: "nat \<Rightarrow> (bytes \<Rightarrow> bytes) \<Rightarrow> nat \<Rightarrow> object_id option \<Rightarrow> change_list \<Rightarrow> bool" where
  "apply_ends N sha fuel r ch \<longleftrightarrow>
     (\<forall>s is f. dir_state sha s is r f \<longrightarrow> changes_ok ch \<longrightarrow> room N f ch \<longrightarrow>
        ends (apply_dir fuel sha r ch) s (\<lambda>x s'.
          if refused f ch then declined x
          else (\<exists>r'. x = Inr r' \<and> (holds sha s' r' (upd f ch) \<or> (r' = r \<and> upd f ch = Map.empty \<and> \<not> dir_at sha s is r)))))"

definition groups_end :: "nat \<Rightarrow> (bytes \<Rightarrow> bytes) \<Rightarrow> nat \<Rightarrow> object_id option \<Rightarrow> groups \<Rightarrow> bool" where
  "groups_end N sha fuel r gs \<longleftrightarrow>
     (\<forall>s is f ch. dir_state sha s is r f \<longrightarrow> changes_ok ch \<longrightarrow> room N f ch \<longrightarrow> omap_ok gs \<longrightarrow>
        (\<forall>(n, exact, deeper) \<in> set gs. plain n \<and> exact = map_of ch n \<and> deeper = inside_of ch n) \<longrightarrow>
        ends (apply_groups fuel sha r gs) s (\<lambda>x s'.
          if \<exists>n \<in> fst ` set gs. refused_at f ch n then declined x
          else (\<exists>edits. x = Inr edits \<and> edits_ok edits \<and> fst ` set edits \<subseteq> fst ` set gs
                 \<and> (\<forall>n \<in> fst ` set gs. settled sha s' is (upd f ch) edits n))))"

lemma grows_apply: "grows (apply_dir fuel sha r ch)" "grows (apply_groups fuel sha r gs)"
proof (induction fuel sha r ch and fuel sha r gs rule: apply_dir_apply_groups.induct)
  case (1 fuel sha dir changes)
  then show ?case by (subst apply_dir.simps) (auto intro!: grows_intros)
next
  case (2 fuel sha dir)
  then show ?case by (subst apply_groups.simps) (rule grows_intros)
next
  case (3 fuel sha dir name exact deeper groups)
  have g: "grows (apply_groups fuel sha dir groups)"
  proof (cases "tombstone_ambiguous exact deeper None")
    case False
    show ?thesis by (rule "3.IH"(2) [OF False refl refl])
  next
    case True
    then have "\<not> tombstone_ambiguous exact deeper (Some (File undefined))" by (simp add: tombstone_ambiguous_def)
    from "3.IH"(2) [OF this refl refl] show ?thesis .
  qed
  have p: "grows (apply_dir fuel sha (Option.bind x node_dir) deeper)"
    if "\<not> tombstone_ambiguous exact deeper x" "deeper \<noteq> []" for x
    by (rule "3.IH"(1) [OF that(1) refl refl that(2)])
  show ?case
    unfolding apply_groups.simps(2) Let_def
  proof (rule grows_tbind)
    show "grows (case dir of Some d \<Rightarrow> tread (\<lambda>s. find_in sha s d name) | None \<Rightarrow> tret None)"
      by (cases dir) (simp_all add: grows_intros)
  qed (simp add: grows_intros p g)
qed

text \<open>One subdirectory of the loop.\<close>

lemma sub_ends:
  assumes "dir_state sha s is r f" "changes_ok ch" "room N f ch" "plain n" "deeper = inside_of ch n"
    "sub' = Option.bind (node_at is n) node_dir" "deeper \<noteq> [] \<Longrightarrow> apply_ends N sha fuel sub' deeper"
  shows "ends (if deeper = [] then tret sub' else apply_dir fuel sha sub' deeper) s (\<lambda>x s'.
    if refused (sub f n) deeper then declined x else \<exists>r'. x = Inr r' \<and> holds sha s' r' (sub (upd f ch) n))"
proof -
  have h: "holds sha s sub' (sub f n)" unfolding assms(6) by (rule state_sub [OF assms(1,4)])
  have u: "sub (upd f ch) n = upd (sub f n) deeper" unfolding assms(5) by (rule sub_upd [OF assms(4)])
  show ?thesis
  proof (cases "deeper = []")
    case True
    then show ?thesis using h u not_refused_Nil [OF h] by (auto intro: ends_tret)
  next
    case False
    obtain is' where is': "dir_at sha s is' sub'" "dir_state sha s is' sub' (sub f n)" using holds_state [OF h] by blast
    have "changes_ok deeper" "room N (sub f n) deeper"
      unfolding assms(5) by (rule changes_ok_inside [OF assms(4,2)], rule room_inside [OF assms(3)])
    then have "ends (apply_dir fuel sha sub' deeper) s (\<lambda>x s'. if refused (sub f n) deeper then declined x
        else (\<exists>r'. x = Inr r' \<and> (holds sha s' r' (upd (sub f n) deeper)
          \<or> (r' = sub' \<and> upd (sub f n) deeper = Map.empty \<and> \<not> dir_at sha s is' sub'))))"
      using assms(7) [OF False] is'(2) unfolding apply_ends_def by blast
    then show ?thesis using False is'(1) by (auto elim!: ends_mono simp: u)
  qed
qed

lemma groups_end_Cons:
  assumes "\<And>current. \<not> tombstone_ambiguous exact deeper current \<Longrightarrow> deeper \<noteq> []
      \<Longrightarrow> apply_ends N sha fuel (Option.bind current node_dir) deeper"
    "groups_end N sha fuel r gs"
  shows "groups_end N sha fuel r ((n, exact, deeper) # gs)"
  unfolding groups_end_def
proof (intro allI impI)
  fix s "is" f ch
  assume st: "dir_state sha s is r f" and ok: "changes_ok ch" and rm: "room N f ch" and om: "omap_ok ((n, exact, deeper) # gs)"
    and gs: "\<forall>(n, exact, deeper) \<in> set ((n, exact, deeper) # gs). plain n \<and> exact = map_of ch n \<and> deeper = inside_of ch n"
  have n: "plain n" "exact = map_of ch n" "deeper = inside_of ch n" using gs by auto
  let ?f = "upd f ch" and ?current = "node_at is n"
  let ?sub = "Option.bind ?current node_dir" and ?ns = "fst ` set gs"
  let ?P = "\<lambda>x s'. if \<exists>n \<in> fst ` set ((n, exact, deeper) # gs). refused_at f ch n then declined x
      else (\<exists>edits. x = Inr edits \<and> edits_ok edits \<and> fst ` set edits \<subseteq> fst ` set ((n, exact, deeper) # gs)
             \<and> (\<forall>n \<in> fst ` set ((n, exact, deeper) # gs). settled sha s' is ?f edits n))"
  have asc: "asc is" using st by (simp add: dir_state_def dir_ok_def)
  have current: "find_opt sha s r n = Inr ?current"
    using find_reads [OF _ asc] st by (simp add: dir_state_def)
  have entry: "(case exact of None \<Rightarrow> Option.bind ?current node_file | Some e \<Rightarrow> e) = ?f n"
    using state_file [OF st n(1)] by (simp add: n(2) upd_def split: option.split)
  let ?rest = "if tombstone_ambiguous exact deeper ?current
     then tfail (InvalidInput ''directory-prefix tombstone is ambiguous; delete exact entries'')
     else tbind (if deeper = [] then tret ?sub else apply_dir fuel sha ?sub deeper) (\<lambda>sub.
           tbind (tread (\<lambda>_. next_node (?f n) sub)) (\<lambda>node.
           tbind (apply_groups fuel sha r gs) (\<lambda>edits.
           tret (if node \<noteq> ?current then (n, map_option (item_new n) node) # edits else edits))))"
  have body: "apply_groups fuel sha r ((n, exact, deeper) # gs) s = ?rest s"
  proof -
    have "(case r of Some d \<Rightarrow> tread (\<lambda>s. find_in sha s d n) | None \<Rightarrow> tret None) s = (Inr ?current, s)"
      using current by (cases r) (simp_all add: find_opt_def tread_def tret_def)
    then show ?thesis unfolding apply_groups.simps(2) Let_def entry [symmetric] by (simp add: tbind_def)
  qed
  have "ends ?rest s ?P"
  proof (cases "tombstone_ambiguous exact deeper ?current")
    case True
    then have "refused_at f ch n"
      using tombstone_iff [OF st n(1), of ch] unfolding refused_at_def n(2,3) by blast
    then show ?thesis using True by (auto intro: ends_tfail simp: declined_def)
  next
    case False
    then have na: "\<not> (map_of ch n = Some None \<and> f n = None \<and> (sub f n \<noteq> Map.empty \<or> inside_of ch n \<noteq> []))"
      using tombstone_iff [OF st n(1), of ch] unfolding n(2,3) by blast
    have "ends (tbind (if deeper = [] then tret ?sub else apply_dir fuel sha ?sub deeper) (\<lambda>sub.
           tbind (tread (\<lambda>_. next_node (?f n) sub)) (\<lambda>node.
           tbind (apply_groups fuel sha r gs) (\<lambda>edits.
           tret (if node \<noteq> ?current then (n, map_option (item_new n) node) # edits else edits))))) s ?P"
    proof (rule ends_tbind [OF sub_ends [OF st ok rm n(1,3) refl assms(1) [OF False]]])
      fix sub' s1
      assume e: "extends s s1"
        and h: "if refused (sub f n) deeper then declined (Inr sub')
          else \<exists>r'. Inr sub' = (Inr r' :: error + object_id option) \<and> holds sha s1 r' (sub ?f n)"
      then have nr: "\<not> refused (sub f n) deeper" "holds sha s1 sub' (sub ?f n)"
        by (auto simp: declined_def split: if_splits)
      have some: "sub' \<noteq> None \<longleftrightarrow> sub ?f n \<noteq> Map.empty" using holds_None_iff [OF nr(2)] by blast
      show "ends (tbind (tread (\<lambda>_. next_node (?f n) sub')) (\<lambda>node.
           tbind (apply_groups fuel sha r gs) (\<lambda>edits.
           tret (if node \<noteq> ?current then (n, map_option (item_new n) node) # edits else edits)))) s1 ?P"
        using next_node_cases [of "?f n" sub']
      proof (elim disjE conjE exE)
        assume c: "?f n \<noteq> None" "sub' \<noteq> None" "declined (next_node (?f n) sub')"
        then have "refused_at f ch n" using some unfolding refused_at_def by blast
        then show ?thesis using c(3) by (auto simp: declined_def intro: ends_tbind_tread_Inl)
      next
        fix node assume c: "\<not> (?f n \<noteq> None \<and> sub' \<noteq> None)" "next_node (?f n) sub' = Inr node"
        then have fine: "\<not> refused_at f ch n"
          using some na nr(1) unfolding refused_at_def n(3) by blast
        have st1: "dir_state sha s1 is r f" by (rule dir_state_extends [OF st e])
        have om': "omap_ok gs" using om by simp
        have gs': "\<forall>(n, exact, deeper) \<in> set gs. plain n \<and> exact = map_of ch n \<and> deeper = inside_of ch n" using gs by simp
        have IH: "ends (apply_groups fuel sha r gs) s1 (\<lambda>x s'.
          if \<exists>n \<in> ?ns. refused_at f ch n then declined x
          else (\<exists>edits. x = Inr edits \<and> edits_ok edits \<and> fst ` set edits \<subseteq> ?ns
                 \<and> (\<forall>n \<in> ?ns. settled sha s' is ?f edits n)))"
          using assms(2) st1 ok rm om' gs' unfolding groups_end_def by blast
        have "ends (tbind (apply_groups fuel sha r gs) (\<lambda>edits.
           tret (if node \<noteq> ?current then (n, map_option (item_new n) node) # edits else edits))) s1 ?P"
        proof (rule ends_tbind [OF IH])
          fix edits s2
          assume e2: "extends s1 s2"
            and h2: "if \<exists>n \<in> ?ns. refused_at f ch n then declined (Inr edits)
              else \<exists>es. Inr edits = (Inr es :: error + edits) \<and> edits_ok es \<and> fst ` set es \<subseteq> ?ns
                 \<and> (\<forall>n \<in> ?ns. settled sha s2 is ?f es n)"
          then have d: "\<not> (\<exists>n \<in> ?ns. refused_at f ch n)" "edits_ok edits" "fst ` set edits \<subseteq> ?ns"
              "\<forall>n \<in> ?ns. settled sha s2 is ?f edits n"
            by (auto simp: declined_def split: if_splits)
          let ?edits = "if node \<noteq> ?current then (n, map_option (item_new n) node) # edits else edits"
          have notin: "n \<notin> ?ns" using om by auto
          have "\<forall>m \<in> ?ns. n < m" using om by simp
          then have less: "\<forall>m \<in> fst ` set edits. n < m" using d(3) by blast
          have "edits_ok ?edits" using d(2) less item_new_name by auto
          moreover have "fst ` set ?edits \<subseteq> fst ` set ((n, exact, deeper) # gs)" using d(3) by auto
          moreover have "settled sha s2 is ?f ?edits n"
          proof -
            have "map_of edits n = None" using notin d(3) by (auto simp: map_of_eq_None_iff)
            then show ?thesis
              unfolding settled_def using holds_extends [OF nr(2) e2] c(2)
              by (intro exI [of _ sub'] exI [of _ node]) simp
          qed
          moreover have "settled sha s2 is ?f ?edits m" if "m \<in> ?ns" for m
          proof -
            have "map_of ?edits m = map_of edits m" using that notin by auto
            then show ?thesis using d(4) that unfolding settled_def by metis
          qed
          ultimately show "ends (tret ?edits) s2 ?P" using fine d(1) by (intro ends_tret) auto
        qed (use fine in \<open>auto intro: grows_intros simp: declined_def split: if_splits\<close>)
        then show ?thesis using c(2) by (intro ends_tbind_tread [where x = node]) simp_all
      qed
    next
      fix e s' assume "if refused (sub f n) deeper then declined (Inl e :: error + object_id option)
          else \<exists>r'. Inl e = (Inr r' :: error + object_id option) \<and> holds sha s' r' (sub ?f n)"
      then have "refused (sub f n) deeper" "declined (Inl e :: error + object_id option)" by (auto split: if_splits)
      moreover then have "refused_at f ch n" unfolding refused_at_def n(3) by blast
      ultimately show "?P (Inl e) s'" by (auto simp: declined_def)
    qed (auto intro!: grows_intros grows_apply)
    then show ?thesis using False by simp
  qed
  then show "ends (apply_groups fuel sha r ((n, exact, deeper) # gs)) s ?P" by (simp only: ends_def body)
qed

text \<open>What the nodes of a directory must be to be stored.\<close>

fun node_id :: "node \<Rightarrow> object_id" where
  "node_id (File e) = entry_content e"
| "node_id (Dir d) = d"

lemma item_new_ok:
  "valid_name n \<Longrightarrow> utf8 n \<Longrightarrow> length n \<le> MAX_PATH \<Longrightarrow> oid_ok (node_id node) \<Longrightarrow> item_ok 0 (item_new n node)"
  by (induction n node rule: item_new.induct) (auto simp: item_ok_def oid_ok_def MAX_PATH_def)

lemma item_node_new [simp]: "item_node (item_new n node) = node"
  by (induction n node rule: item_new.induct) (simp_all add: item_node_def)

lemma node_at_ok: "dir_ok is \<Longrightarrow> node_at is n = Some node \<Longrightarrow> oid_ok (node_id node)"
  using item_of_plain by (fastforce simp: node_at_def item_node_def item_ok_def oid_ok_def)

lemma dir_at_id: "hash_ok sha \<Longrightarrow> dir_at sha s is (Some d) \<Longrightarrow> oid_ok d"
  by (auto simp: tower_def chunk_id_def object_hash_def hash_ok_def oid_ok_def)

lemma next_node_Inr: "next_node e sub' = Inr node \<Longrightarrow> Option.bind node node_file = e \<and> Option.bind node node_dir = sub'"
  by (cases e; cases sub') (auto simp: next_node_def)

text \<open>The directory after its edits stands for the map after the changes.\<close>

lemma merged_state:
  assumes st: "dir_state sha s is r f" and ok: "changes_ok ch" and "extends s s'" "hash_ok sha"
    and ed: "edits_ok edits" "fst ` set edits \<subseteq> first_name ` fst ` set ch"
      "\<forall>n \<in> first_name ` fst ` set ch. settled sha s' is (upd f ch) edits n"
    and new: "new = merge_edits is edits"
  shows "dir_ok new \<and> fits new (upd f ch)
    \<and> (\<forall>n d. plain n \<longrightarrow> node_at new n = Some (Dir d) \<longrightarrow> holds sha s' (Some d) (sub (upd f ch) n))"
proof -
  let ?f = "upd f ch" and ?names = "first_name ` fst ` set ch"
  have asc: "asc is" and dok: "dir_ok is" using st by (simp_all add: dir_state_def dir_ok_def)
  have look: "item_of new n = (case map_of edits n of Some x \<Rightarrow> x | None \<Rightarrow> item_of is n)" for n
    unfolding new by (rule merge_edits_of [OF asc ed(1)])
  have untouched: "node_at new n = node_at is n \<and> ?f n = f n \<and> sub ?f n = sub f n" if n: "plain n" "n \<notin> ?names" for n
  proof -
    have e: "map_of edits n = None" using n ed(2) by (auto simp: map_of_eq_None_iff)
    have c: "map_of ch n = None"
    proof (rule ccontr)
      assume "map_of ch n \<noteq> None"
      then have "n \<in> fst ` set ch" by (auto simp: map_of_eq_None_iff)
      moreover have "first_name n = n" using n(1) by (simp add: first_name_def split_once_None [THEN iffD2])
      ultimately show False using n(2) by (metis imageI)
    qed
    have u: "inside_of ch n = []"
    proof (rule ccontr)
      assume "inside_of ch n \<noteq> []"
      then obtain q where "map_of ch (n @ ''/'' @ q) \<noteq> None" using inside_nonempty [OF n(1), of ch] by blast
      then have "n @ CHR ''/'' # q \<in> fst ` set ch" by (auto simp: map_of_eq_None_iff)
      moreover have "first_name (n @ CHR ''/'' # q) = n" by (simp add: first_name_def split_once_slash [OF n(1)])
      ultimately show False using n(2) by (metis imageI)
    qed
    have "sub ?f n = sub f n" using sub_upd [OF n(1), of f ch] u by simp
    then show ?thesis using e c by (simp add: node_at_def look upd_def)
  qed
  have touched: "\<exists>sub'. holds sha s' sub' (sub ?f n) \<and> next_node (?f n) sub' = Inr (node_at new n)" if n: "n \<in> ?names" for n
  proof -
    obtain sub' node where 1: "holds sha s' sub' (sub ?f n)" "next_node (?f n) sub' = Inr node"
        "map_of edits n = (if node = node_at is n then None else Some (map_option (item_new n) node))"
      using ed(3) n unfolding settled_def by blast
    have "node_at new n = node"
      by (cases "node = node_at is n"; cases node) (auto simp: node_at_def look 1(3) split: if_splits)
    then show ?thesis using 1 by blast
  qed
  have fits: "fits new ?f"
    unfolding fits_def
  proof (intro allI impI)
    fix n assume p: "plain n"
    show "?f n = Option.bind (node_at new n) node_file
      \<and> (sub ?f n = Map.empty \<longleftrightarrow> Option.bind (node_at new n) node_dir = None)"
    proof (cases "n \<in> ?names")
      case True
      obtain sub' where 1: "holds sha s' sub' (sub ?f n)" "next_node (?f n) sub' = Inr (node_at new n)"
        using touched [OF True] by blast
      then show ?thesis using next_node_Inr [OF 1(2)] holds_None_iff [OF 1(1)] by metis
    next
      case False
      then show ?thesis using untouched [OF p False] state_file [OF st p] state_dir [OF st p] by metis
    qed
  qed
  have subs: "holds sha s' (Some d) (sub ?f n)" if n: "plain n" "node_at new n = Some (Dir d)" for n d
  proof (cases "n \<in> ?names")
    case True
    obtain sub' where 1: "holds sha s' sub' (sub ?f n)" "next_node (?f n) sub' = Inr (node_at new n)"
      using touched [OF True] by blast
    then show ?thesis using next_node_Inr [OF 1(2)] n(2) by simp
  next
    case False
    then have "holds sha s (Some d) (sub f n)" using untouched [OF n(1) False] n st by (simp add: dir_state_def)
    then show ?thesis using untouched [OF n(1) False] holds_extends [OF _ assms(3)] by simp
  qed
  have "item_ok 0 i \<and> length (it_name i) \<le> MAX_PATH" if i: "i \<in> set new" for i
  proof -
    let ?n = "it_name i"
    have at: "item_of new ?n = Some i" using merge_edits_asc [OF asc ed(1)] i unfolding new by (rule item_of_mem)
    show ?thesis
    proof (cases "map_of edits ?n")
      case None
      then have "item_of is ?n = Some i" using at look [of ?n] by simp
      then have "i \<in> set is" using item_of_Some by blast
      then show ?thesis using dok by (simp add: dir_ok_def list_all_iff)
    next
      case (Some x)
      then have "?n \<in> fst ` set edits" using map_of_SomeD by force
      then have n: "?n \<in> ?names" using ed(2) by blast
      obtain sub' node where 1: "holds sha s' sub' (sub ?f ?n)" "next_node (?f ?n) sub' = Inr node"
          "map_of edits ?n = (if node = node_at is ?n then None else Some (map_option (item_new ?n) node))"
        using ed(3) n unfolding settled_def by blast
      have "Some i = map_option (item_new ?n) node" using at look Some 1(3) by (auto split: if_splits)
      then obtain nd where nd: "node = Some nd" "i = item_new ?n nd" by (metis map_option_eq_Some)
      obtain p where p: "p \<in> fst ` set ch" "?n = first_name p" using n by auto
      have "rel_ok p" using ok p(1) by (auto simp: changes_ok_def)
      from rel_ok_first [OF this] have name: "valid_name ?n" "utf8 ?n" "length ?n \<le> MAX_PATH" using p(2) by simp_all
      have "oid_ok (node_id nd)"
      proof (cases nd)
        case (Dir d)
        then have "holds sha s' (Some d) (sub ?f ?n)" using next_node_Inr [OF 1(2)] 1(1) nd(1) by simp
        then show ?thesis using holds_state dir_at_id [OF assms(4)] Dir by fastforce
      next
        case (File e)
        then have fe: "?f ?n = Some e" using next_node_Inr [OF 1(2)] nd(1) by simp
        show ?thesis
        proof (cases "map_of ch ?n")
          case None
          then have "f ?n = Some e" using fe by (simp add: upd_def)
          moreover have "plain ?n" using p(2) first_name_plain by simp
          ultimately have "Option.bind (node_at is ?n) node_file = Some e" using state_file [OF st] by simp
          then have "node_at is ?n = Some (File e)" by (auto simp: bind_eq_Some_conv elim!: node_file.elims)
          then show ?thesis using node_at_ok [OF dok] File by blast
        next
          case (Some x)
          then have "(?n, Some e) \<in> set ch" using fe by (auto simp: upd_def dest: map_of_SomeD)
          then show ?thesis using ok File by (auto simp: changes_ok_def)
        qed
      qed
      then show ?thesis using item_new_ok [OF name] nd(2) name(3) by metis
    qed
  qed
  then have "dir_ok new" using merge_edits_asc [OF asc ed(1)] by (simp add: dir_ok_def list_all_iff new)
  then show ?thesis using fits subs by blast
qed

lemma untouched_not_refused:
  assumes st: "dir_state sha s is r f" and n: "plain n" "n \<notin> first_name ` fst ` set ch"
  shows "\<not> refused_at f ch n"
proof -
  have "n \<notin> fst ` set ch" using n by (force simp: first_name_def split_once_None [THEN iffD2])
  then have c: "map_of ch n = None" by (simp add: map_of_eq_None_iff)
  have "n @ CHR ''/'' # q \<notin> fst ` set ch" for q using n by (force simp: first_name_def split_once_slash)
  then have "map_of ch (n @ ''/'' @ q) = None" for q by (simp add: map_of_eq_None_iff)
  then have u: "inside_of ch n = []" using inside_nonempty [OF n(1), of ch] by simp
  have su: "sub (upd f ch) n = sub f n" using sub_upd [OF n(1), of f ch] u by simp
  have "upd f ch n = f n" using c by (simp add: upd_def)
  moreover have "f n = None \<or> sub f n = Map.empty"
    using state_file [OF st n(1)] state_dir [OF st n(1)]
    by (cases "node_at is n"; cases "the (node_at is n)") auto
  moreover have "\<not> refused (sub f n) []" by (rule not_refused_Nil [OF state_sub [OF st n(1)]])
  ultimately show ?thesis using c u su by (auto simp: refused_at_def)
qed

lemma apply_both:
  assumes "hash_ok sha" "N < fuel" "N \<le> 2 ^ MAX_LEVEL"
  shows "apply_ends N sha fuel r ch" "groups_end N sha fuel r gs"
  using assms
proof (induction fuel sha r ch and fuel sha r gs rule: apply_dir_apply_groups.induct)
  case (1 fuel sha dir ch)
  show ?case
    unfolding apply_ends_def
  proof (intro allI impI)
    fix s "is" f assume st: "dir_state sha s is dir f" and ok: "changes_ok ch" and rm: "room N f ch"
    let ?f = "upd f ch" and ?names = "first_name ` fst ` set ch" and ?gs = "group_changes ch"
    let ?P = "\<lambda>x s'. if refused f ch then declined x
          else (\<exists>r'. x = Inr r' \<and> (holds sha s' r' ?f \<or> (r' = dir \<and> ?f = Map.empty \<and> \<not> dir_at sha s is dir)))"
    have d: "distinct (map fst ch)" using ok by (simp add: changes_ok_def)
    note gc = group_changes_spec [OF d]
    have gs: "plain n \<and> exact = map_of ch n \<and> deeper = inside_of ch n" if "(n, exact, deeper) \<in> set ?gs" for n exact deeper
    proof -
      have "n \<in> ?names" using that gc(2) by (metis fst_conv imageI)
      then have "plain n" using first_name_plain by auto
      then show ?thesis using gc(3) [OF that] by blast
    qed
    have bad: "(\<exists>n \<in> fst ` set ?gs. refused_at f ch n) \<longleftrightarrow> refused f ch"
    proof
      assume "\<exists>n \<in> fst ` set ?gs. refused_at f ch n"
      then obtain p where "refused_at f ch (first_name p)" unfolding gc(2) by blast
      then show "refused f ch" unfolding refused_split using first_name_plain by blast
    next
      assume "refused f ch"
      then obtain n where n: "plain n" "refused_at f ch n" unfolding refused_split by blast
      then have "n \<in> ?names" using untouched_not_refused [OF st n(1)] by blast
      then show "\<exists>n \<in> fst ` set ?gs. refused_at f ch n" unfolding gc(2) using n(2) by blast
    qed
    have IH: "ends (apply_groups fuel sha dir ?gs) s (\<lambda>x s'.
          if refused f ch then declined x
          else (\<exists>edits. x = Inr edits \<and> edits_ok edits \<and> fst ` set edits \<subseteq> ?names
                 \<and> (\<forall>n \<in> ?names. settled sha s' is ?f edits n)))"
      using "1.IH" [OF "1.prems", unfolded groups_end_def] st ok rm gc(1) gs unfolding bad [symmetric] gc(2) [symmetric] by blast
    have "ends (tbind (apply_groups fuel sha dir ?gs) (\<lambda>edits.
        if edits = [] then tret dir else update_dir fuel sha dir edits)) s ?P"
    proof (rule ends_tbind [OF IH])
      fix edits s1
      assume e: "extends s s1" and h: "if refused f ch then declined (Inr edits)
          else \<exists>es. Inr edits = (Inr es :: error + edits) \<and> edits_ok es \<and> fst ` set es \<subseteq> ?names
                 \<and> (\<forall>n \<in> ?names. settled sha s1 is ?f es n)"
      then have nr: "\<not> refused f ch" and ed: "edits_ok edits" "fst ` set edits \<subseteq> ?names"
          "\<forall>n \<in> ?names. settled sha s1 is ?f edits n"
        by (auto simp: declined_def split: if_splits)
      let ?new = "merge_edits is edits"
      note M = merged_state [OF st ok e "1.prems"(1) ed refl]
      have reads: "dir_reads sha s1 is dir" "dir_ok is" "fits is f"
        using dir_state_extends [OF st e] by (simp_all add: dir_state_def)
      have final: "holds sha s2 r' ?f" if "dir_at sha s2 ?new r'" "extends s1 s2" for s2 r'
      proof (rule holds.intros [OF that(1)])
        show "dir_ok ?new" "fits ?new ?f" using M by blast+
        fix n d assume "plain n" "node_at ?new n = Some (Dir d)"
        then have "holds sha s1 (Some d) (sub ?f n)" using M by blast
        then show "holds sha s2 (Some d) (sub ?f n)" by (rule holds_extends [OF _ that(2)])
      qed
      show "ends (if edits = [] then tret dir else update_dir fuel sha dir edits) s1 ?P"
      proof (cases "edits = []")
        case True
        have "holds sha s1 dir ?f \<or> (?f = Map.empty \<and> \<not> dir_at sha s is dir)"
        proof (cases "dir_at sha s is dir")
          case at: True
          then have "dir_at sha s1 ?new dir" using dir_at_extends [OF at e] True by simp
          then show ?thesis using final [of s1 dir] by simp
        next
          case False
          then have "is = []" using st by (simp add: dir_state_def dir_reads_def)
          then have "?f = Map.empty" using M True fits_Nil by simp
          then show ?thesis using False by blast
        qed
        then show ?thesis using True nr by (auto intro: ends_tret)
      next
        case False
        have "length is < fuel"
          using fits_length [OF reads(3,2)] rm "1.prems"(2) by (simp add: room_def)
        moreover have "length ?new \<le> 2 ^ MAX_LEVEL"
          using fits_length [of ?new ?f] M room_upd [OF rm] "1.prems"(3) by linarith
        ultimately have "yields (update_dir fuel sha dir edits) s1 (\<lambda>r' s'. dir_at sha s' ?new r')"
          using M by (intro update_reads [OF reads(1,2) ed(1) refl _ "1.prems"(1)]) blast+
        then show ?thesis
          using False nr final unfolding yields_ends by (auto elim!: ends_mono)
      qed
    qed (auto intro: grows_intros simp: declined_def split: if_splits)
    then show "ends (apply_dir fuel sha dir ch) s ?P" by (simp only: apply_dir.simps)
  qed
next
  case (2 fuel sha dir)
  then show ?case unfolding groups_end_def apply_groups.simps(1) by (auto intro: ends_tret)
next
  case (3 fuel sha dir name exact deeper groups)
  have g: "groups_end N sha fuel dir groups"
  proof (cases "tombstone_ambiguous exact deeper None")
    case False
    show ?thesis by (rule "3.IH"(2) [OF False refl refl "3.prems"])
  next
    case True
    then have "\<not> tombstone_ambiguous exact deeper (Some (File undefined))" by (simp add: tombstone_ambiguous_def)
    from "3.IH"(2) [OF this refl refl "3.prems"] show ?thesis .
  qed
  show ?case by (rule groups_end_Cons [OF _ g]) (rule "3.IH"(1) [OF _ refl refl _ "3.prems"])
qed

end
