(* ===== verification/Queries.thy ===== *)
theory Queries
  imports Snapshots
begin

text \<open>
  What \<open>apply\<close>, \<open>lookup\<close> and \<open>walk\<close> compute on a snapshot, over the map from paths to entries that its root
  stands for.
\<close>

section \<open>Snapshots\<close>

text \<open>The root of a snapshot; the root of the empty World needs no stored object.\<close>

definition snapshot :: "(bytes \<Rightarrow> bytes) \<Rightarrow> memory_store \<Rightarrow> object_id \<Rightarrow> file_entry paths \<Rightarrow> bool" where
  "snapshot sha s root f \<longleftrightarrow> holds sha s (Some root) f \<or> (root = empty_tree sha \<and> f = Map.empty)"

lemma snapshot_extends: "snapshot sha s root f \<Longrightarrow> extends s s' \<Longrightarrow> snapshot sha s' root f"
  unfolding snapshot_def using holds_extends by blast

lemma snapshot_state: "snapshot sha s root f \<Longrightarrow> \<exists>is. dir_state sha s is (Some root) f"
proof -
  assume h: "snapshot sha s root f"
  have "dir_state sha s [] (Some (empty_tree sha)) Map.empty"
    by (simp add: dir_state_def dir_reads_def dir_ok_def fits_Nil node_at_def)
  then show ?thesis using h holds_state unfolding snapshot_def by blast
qed

lemma tower_not_empty: "tower sha s is h root \<Longrightarrow> root \<noteq> empty_tree sha"
proof
  assume t: "tower sha s is h root" and e: "root = empty_tree sha"
  obtain c where c: "level_chunks sha is h = [c]" "chunk_at sha s root = Inr c" by (rule tower_root [OF t])
  have "ch_items c \<noteq> []" using level_chunk_cut [of c sha h "is"] c(1) by simp
  then show False using c(2) unfolding e by auto
qed

lemma dir_at_not_empty: "dir_at sha s is r \<Longrightarrow> r \<noteq> Some (empty_tree sha)"
  by (cases r) (auto dest: tower_not_empty)

lemma empty_snapshot: "snapshot sha s (empty_tree sha) f \<Longrightarrow> f = Map.empty"
  unfolding snapshot_def using holds_state dir_at_not_empty by blast

lemma snapshot_fun: "snapshot sha s a f \<Longrightarrow> snapshot sha s' b f \<Longrightarrow> a = b"
  unfolding snapshot_def using holds_unique holds_Some by (metis option.inject)

text \<open>What directories of the same ID stand for.\<close>

lemma reads_fun:
  assumes "dir_reads sha s is r" "dir_reads sha s is' r"
  shows "is = is'"
proof (cases "r = Some (empty_tree sha)")
  case True
  then show ?thesis using assms dir_at_not_empty unfolding dir_reads_def by blast
next
  case False
  then have "dir_at sha s is r" "dir_at sha s is' r" using assms by (auto simp: dir_reads_def)
  then show ?thesis
    by (cases r) (auto dest!: leaves_tower)
qed

lemma state_fun_step:
  assumes "dir_state sha s is r f" "dir_state sha s is' r g"
    "\<And>n d. plain n \<Longrightarrow> node_at is n = Some (Dir d) \<Longrightarrow> sub f n = sub g n"
  shows "f = g"
proof -
  have e: "is = is'" using assms(1,2) reads_fun unfolding dir_state_def by blast
  show ?thesis
  proof (rule paths_ext)
    fix n assume n: "plain n"
    have "f n = g n" using state_file [OF assms(1) n] state_file [OF assms(2) n] e by simp
    moreover have "sub f n = sub g n"
    proof (cases "Option.bind (node_at is n) node_dir")
      case None
      then show ?thesis using state_dir [OF assms(1) n] state_dir [OF assms(2) n] e by metis
    next
      case (Some d)
      then have "node_at is n = Some (Dir d)" by (auto simp: bind_eq_Some_conv elim!: node_dir.elims)
      then show ?thesis using assms(3) n by blast
    qed
    ultimately show "f n = g n \<and> sub f n = sub g n" ..
  qed
qed

lemma holds_fun: "holds sha s r f \<Longrightarrow> holds sha s r g \<Longrightarrow> f = g"
proof (induction arbitrary: g rule: holds.induct)
  case (1 "is" r f)
  obtain is' where g: "dir_state sha s is' r g" using holds_state [OF 1(6)] by blast
  have f: "dir_state sha s is r f"
    unfolding dir_state_def dir_reads_def using 1(1-4) by blast
  have e: "is = is'" using f g reads_fun unfolding dir_state_def by blast
  show ?case
  proof (rule state_fun_step [OF f g])
    fix n d assume n: "plain n" "node_at is n = Some (Dir d)"
    then have "holds sha s (Some d) (sub g n)" using g e unfolding dir_state_def by blast
    then show "sub f n = sub g n" by (rule 1(5) [OF n])
  qed
qed

lemma state_fun: "dir_state sha s is r f \<Longrightarrow> dir_state sha s is' r g \<Longrightarrow> f = g"
proof (rule state_fun_step)
  assume f: "dir_state sha s is r f" and g: "dir_state sha s is' r g"
  show "dir_state sha s is r f" "dir_state sha s is' r g" by fact+
  fix n d assume n: "plain n" "node_at is n = Some (Dir d)"
  have "is = is'" using f g reads_fun unfolding dir_state_def by blast
  then show "sub f n = sub g n" using f g n holds_fun unfolding dir_state_def by blast
qed

section \<open>Valid paths\<close>

lemma utf8_parts: "utf8 p \<Longrightarrow> n \<in> set (split_on (CHR ''/'') p) \<Longrightarrow> utf8 n"
proof (induction "length p" arbitrary: p rule: less_induct)
  case less
  show ?case
  proof (cases p rule: path_cases)
    case name
    then show ?thesis using less.prems split_on_no_sep [of "CHR ''/''" p] by simp
  next
    case (below m q)
    have slash: "\<not> utf8_cont (CHR ''/'')" "utf8 [CHR ''/'']"
      by (simp add: u8_in_def, rule utf8_ascii, simp add: u8_in_def)
    have m: "utf8 m" using utf8_cut [of m "CHR ''/'' # q"] less.prems(1) below slash by simp
    then have "utf8 (CHR ''/'' # q)" using utf8_append [OF m, of "CHR ''/'' # q"] less.prems(1) below by simp
    then have q: "utf8 q" using utf8_append [OF slash(2), of q] by simp
    have "n = m \<or> n \<in> set (split_on (CHR ''/'') q)"
      using less.prems(2) below split_on_no_sep [OF below(1)] by (simp add: split_on_first)
    then show ?thesis using m less.hyps [of q] q below by auto
  qed
qed

definition path_valid :: "string \<Rightarrow> bool" where
  "path_valid p \<longleftrightarrow> path_ok p \<and> utf8 p"

lemma path_valid_rel: "path_valid p \<Longrightarrow> rel_ok p"
  using utf8_parts by (auto simp: path_valid_def path_ok_split rel_ok_def list_all_iff)

definition changes_valid :: "change_list \<Rightarrow> bool" where
  "changes_valid ch \<longleftrightarrow> omap_ok ch \<and> (\<forall>(p, e) \<in> set ch. path_valid p \<and> (\<forall>x. e = Some x \<longrightarrow> oid_ok (entry_content x)))"

lemma changes_valid_ok: "changes_valid ch \<Longrightarrow> changes_ok ch"
  using path_valid_rel omap_okD_distinct by (fastforce simp: changes_valid_def changes_ok_def)

section \<open>Applying a changeset\<close>

lemma tree_root_empty: "chunk_id sha \<lparr>ch_level = 0, ch_items = []\<rparr> = empty_tree sha"
  by (simp add: chunk_id_def empty_tree_def chunk_encode_def char_of_def)

lemma ends_root:
  "\<exists>r'. dir = Some r' \<and> snapshot sha s r' f \<or> dir = None \<and> f = Map.empty \<Longrightarrow>
   ends (tree_root sha dir) s (\<lambda>x s'. \<exists>root. x = Inr root \<and> snapshot sha s' root f)"
proof -
  assume h: "\<exists>r'. dir = Some r' \<and> snapshot sha s r' f \<or> dir = None \<and> f = Map.empty"
  show ?thesis
  proof (cases dir)
    case (Some r)
    then show ?thesis using h by (auto simp: tree_root_def intro: ends_tret)
  next
    case None
    have "chunk_ok \<lparr>ch_level = 0, ch_items = []\<rparr>" by (simp add: chunk_ok_def MAX_LEVEL_def MAX_CHUNK_def)
    from yields_put_chunk [OF this, of sha s] show ?thesis
      using None h unfolding yields_ends tree_root_def
      by (auto elim!: ends_mono simp: snapshot_def tree_root_empty)
  qed
qed

lemma grows_root [grows_intros]: "grows (tree_root sha dir)"
  by (cases dir) (auto simp: tree_root_def intro: grows_intros)

lemma apply_spec:
  assumes "hash_ok sha" "snapshot sha s root f" "changes_valid ch"
    "finite (dom f)" "card (dom f) + length ch < fuel" "card (dom f) + length ch \<le> 2 ^ MAX_LEVEL"
  shows "ends (tree_apply fuel sha root ch) s (\<lambda>r s'.
    if refused f ch then declined r else \<exists>root'. r = Inr root' \<and> snapshot sha s' root' (upd f ch))"
proof -
  let ?N = "card (dom f) + length ch"
  obtain "is" where st: "dir_state sha s is (Some root) f" using snapshot_state [OF assms(2)] by blast
  have "apply_ends ?N sha fuel (Some root) ch" by (rule apply_both(1) [OF assms(1,5,6)])
  then have E: "ends (apply_dir fuel sha (Some root) ch) s (\<lambda>x s'.
      if refused f ch then declined x
      else (\<exists>r'. x = Inr r' \<and> (holds sha s' r' (upd f ch)
             \<or> (r' = Some root \<and> upd f ch = Map.empty \<and> \<not> dir_at sha s is (Some root)))))"
    using st changes_valid_ok [OF assms(3)] assms(4) unfolding apply_ends_def room_def by blast
  show ?thesis
    unfolding tree_apply_def
  proof (rule ends_tbind [OF E])
    fix r s1 assume e: "extends s s1"
      and h: "if refused f ch then declined (Inr r)
        else \<exists>r'. Inr r = (Inr r' :: error + object_id option) \<and> (holds sha s1 r' (upd f ch)
             \<or> (r' = Some root \<and> upd f ch = Map.empty \<and> \<not> dir_at sha s is (Some root)))"
    then have nr: "\<not> refused f ch" by (auto simp: declined_def split: if_splits)
    have "(\<exists>r'. r = Some r' \<and> snapshot sha s1 r' (upd f ch)) \<or> r = None \<and> upd f ch = Map.empty"
    proof (cases "holds sha s1 r (upd f ch)")
      case True
      then show ?thesis by (cases r) (auto simp: snapshot_def)
    next
      case False
      then have "r = Some root" "upd f ch = Map.empty" "\<not> dir_at sha s is (Some root)" using h nr by auto
      moreover then have "root = empty_tree sha" using st by (auto simp: dir_state_def dir_reads_def)
      ultimately show ?thesis by (auto simp: snapshot_def)
    qed
    then show "ends (tree_root sha r) s1 (\<lambda>r s'.
        if refused f ch then declined r else \<exists>root'. r = Inr root' \<and> snapshot sha s' root' (upd f ch))"
      using ends_root [of r sha s1 "upd f ch"] nr by auto
  qed (auto intro: grows_intros simp: declined_def split: if_splits)
qed

section \<open>Lookups\<close>

text \<open>What \<open>lookup\<close> tells of a path: its file, and the directory of the paths below it.\<close>

definition tells :: "(bytes \<Rightarrow> bytes) \<Rightarrow> memory_store \<Rightarrow> file_entry paths \<Rightarrow> string \<Rightarrow> node option \<Rightarrow> bool" where
  "tells sha s f p r \<longleftrightarrow> Option.bind r node_file = f p \<and> holds sha s (Option.bind r node_dir) (sub f p)"

lemma sub_sub: "sub (sub f n) p = sub f (n @ ''/'' @ p)"
  by (rule ext) simp

lemma lookup_names_spec:
  assumes "dir_state sha s is (Some root) f"
  shows "\<exists>r. lookup_names sha s root (split_on (CHR ''/'') p) = Inr r \<and> tells sha s f p r"
  using assms
proof (induction "length p" arbitrary: p root f "is" rule: less_induct)
  case less
  have asc: "asc is" using less.prems by (simp add: dir_state_def dir_ok_def)
  have find: "find_in sha s root n = Inr (node_at is n)" for n
    using find_reads [OF _ asc, of sha s "Some root" n] less.prems by (simp add: dir_state_def find_opt_def)
  show ?case
  proof (cases p rule: path_cases)
    case name
    have "lookup_names sha s root [p] = Inr (node_at is p)" by (simp add: find split: option.split)
    then show ?thesis
      using split_on_no_sep [OF name] state_file [OF less.prems name] state_sub [OF less.prems name]
      by (simp add: tells_def)
  next
    case (below n q)
    have parts: "split_on (CHR ''/'') p = n # split_on (CHR ''/'') q"
      using below split_on_no_sep [OF below(1)] by (simp add: split_on_first)
    show ?thesis
    proof (cases "Option.bind (node_at is n) node_dir")
      case None
      then have empty: "sub f n = Map.empty" using state_dir [OF less.prems below(1)] by simp
      have "lookup_names sha s root (split_on (CHR ''/'') p) = Inr None"
        unfolding parts using None
        by (cases "node_at is n"; cases "the (node_at is n)") (simp_all add: find)
      moreover have "f p = None" using fun_cong [OF empty, of q] below by simp
      moreover have "sub f p = Map.empty" using sub_sub [of f n q] empty below by simp
      ultimately show ?thesis by (simp add: tells_def)
    next
      case (Some d)
      then have d: "node_at is n = Some (Dir d)" by (auto simp: bind_eq_Some_conv elim!: node_dir.elims)
      then have "holds sha s (Some d) (sub f n)" using less.prems below(1) by (simp add: dir_state_def)
      then obtain is' where "dir_state sha s is' (Some d) (sub f n)" using holds_state by blast
      from less.hyps [OF _ this, of q] below
      obtain r where "lookup_names sha s d (split_on (CHR ''/'') q) = Inr r" "tells sha s (sub f n) q r" by auto
      then show ?thesis unfolding parts using d below by (simp add: find tells_def sub_sub)
    qed
  qed
qed

section \<open>Walks\<close>

definition within :: "string \<Rightarrow> file_entry paths \<Rightarrow> bool" where
  "within pre f \<longleftrightarrow> (\<forall>p \<in> dom f. length (pre @ p) \<le> MAX_PATH
     \<and> length (filter (\<lambda>c. c = CHR ''/'') (pre @ p)) < MAX_DEPTH)"

lemma joined_within:
  assumes "within pre f" "f n \<noteq> None \<or> sub f n \<noteq> Map.empty"
  shows "joined pre n = Inr (pre @ n)"
proof -
  have "\<exists>p \<in> dom f. \<exists>t. p = n @ t"
  proof (cases "f n \<noteq> None")
    case True
    then show ?thesis by (intro bexI [of _ n]) auto
  next
    case False
    then obtain q where "f (n @ ''/'' @ q) \<noteq> None" using assms(2) sub_nonempty [of f n] by blast
    then show ?thesis by (intro bexI [of _ "n @ ''/'' @ q"]) auto
  qed
  then obtain p t where "p \<in> dom f" "p = n @ t" by blast
  then have "length (pre @ n @ t) \<le> MAX_PATH" "length (filter (\<lambda>c. c = CHR ''/'') (pre @ n @ t)) < MAX_DEPTH"
    using assms(1) unfolding within_def by blast+
  then show ?thesis by (simp add: joined_Inr)
qed

lemma within_sub: "within pre f \<Longrightarrow> within (pre @ n @ ''/'') (sub f n)"
  unfolding within_def
proof
  fix p assume h: "\<forall>p \<in> dom f. length (pre @ p) \<le> MAX_PATH \<and> length (filter (\<lambda>c. c = CHR ''/'') (pre @ p)) < MAX_DEPTH"
    and "p \<in> dom (sub f n)"
  then have "n @ CHR ''/'' # p \<in> dom f" by auto
  from bspec [OF h this] show "length ((pre @ n @ ''/'') @ p) \<le> MAX_PATH
    \<and> length (filter (\<lambda>c. c = CHR ''/'') ((pre @ n @ ''/'') @ p)) < MAX_DEPTH" by simp
qed

definition walked :: "string \<Rightarrow> file_entry paths \<Rightarrow> (string \<times> file_entry) list \<Rightarrow> bool" where
  "walked pre f ws \<longleftrightarrow> distinct (map fst ws) \<and> set ws = {(pre @ p, e) |p e. f p = Some e}"

text \<open>The files of one name.\<close>

definition named :: "string \<Rightarrow> file_entry paths \<Rightarrow> string \<Rightarrow> (string \<times> file_entry) set" where
  "named pre f n = {(pre @ p, e) |p e. f p = Some e \<and> first_name p = n}"

lemma first_name_simps: "plain n \<Longrightarrow> first_name n = n" "plain n \<Longrightarrow> first_name (n @ CHR ''/'' # q) = n"
  by (simp_all add: first_name_def split_once_None [THEN iffD2] split_once_slash)

lemma named_eq:
  assumes "plain n"
  shows "named pre f n = {(pre @ n, e) |e. f n = Some e} \<union> {(pre @ n @ ''/'' @ q, e) |q e. sub f n q = Some e}"
proof -
  have "f p = Some e \<and> first_name p = n \<longleftrightarrow> p = n \<and> f n = Some e \<or> (\<exists>q. p = n @ ''/'' @ q \<and> sub f n q = Some e)" for p e
  proof (cases p rule: path_cases)
    case name
    then show ?thesis using assms by (auto simp: first_name_simps)
  next
    case (below m q)
    then show ?thesis using assms by (auto simp: first_name_simps slash_eq)
  qed
  then show ?thesis unfolding named_def by blast
qed

lemma walk_items_spec:
  assumes st: "dir_state sha s is r f" and w: "within pre f"
    and IH: "\<And>n d pre. plain n \<Longrightarrow> node_at is n = Some (Dir d) \<Longrightarrow> within pre (sub f n)
        \<Longrightarrow> \<exists>ws. walk sha s d pre = Inr ws \<and> walked pre (sub f n) ws"
    and xs: "asc xs" "set xs \<subseteq> set is"
  shows "\<exists>ws. walk_items sha s xs pre = Inr ws \<and> distinct (map fst ws)
    \<and> set ws = (\<Union>i \<in> set xs. named pre f (it_name i))"
  using xs
proof (induction xs)
  case Nil
  then show ?case by (simp add: walk_items.simps)
next
  case (Cons i xs)
  let ?n = "it_name i"
  have dok: "dir_ok is" "asc is" "fits is f" using st by (simp_all add: dir_state_def dir_ok_def)
  have i: "item_of is ?n = Some i" using Cons.prems(2) item_of_mem [OF dok(2), of i] by simp
  have n: "plain ?n" using item_of_plain [OF dok(1) i] by simp
  have at: "node_at is ?n = Some (item_node i)" using i by (simp add: node_at_def)
  have join: "joined pre ?n = Inr (pre @ ?n)"
    using joined_within [OF w] fits_nonempty [OF dok(3,1), of i] Cons.prems(2) by simp
  obtain ws where ws: "walk_items sha s xs pre = Inr ws" "distinct (map fst ws)"
      "set ws = (\<Union>i \<in> set xs. named pre f (it_name i))"
    using Cons by auto
  have "\<exists>here. (case item_node i of File entry \<Rightarrow> Inr [(pre @ ?n, entry)] | Dir d \<Rightarrow> walk sha s d ((pre @ ?n) @ ''/'')) = Inr here
    \<and> distinct (map fst here) \<and> set here = named pre f ?n"
  proof (cases "item_node i")
    case (File e)
    then have "f ?n = Some e" "sub f ?n = Map.empty" using state_file [OF st n] state_dir [OF st n] at by auto
    then have "named pre f ?n = {(pre @ ?n, e)}" using named_eq [OF n, of pre f] by simp
    then show ?thesis using File by simp
  next
    case (Dir d)
    then have "f ?n = None" using state_file [OF st n] at by auto
    then have nm: "named pre f ?n = {((pre @ ?n @ ''/'') @ q, e) |q e. sub f ?n q = Some e}"
      using named_eq [OF n, of pre f] by simp
    obtain here where "walk sha s d (pre @ ?n @ ''/'') = Inr here" "walked (pre @ ?n @ ''/'') (sub f ?n) here"
      using IH [OF n at [unfolded Dir] within_sub [OF w]] by blast
    then show ?thesis using Dir nm by (simp add: walked_def)
  qed
  then obtain here where here: "(case item_node i of File entry \<Rightarrow> Inr [(pre @ ?n, entry)] | Dir d \<Rightarrow> walk sha s d ((pre @ ?n) @ ''/'')) = Inr here"
      "distinct (map fst here)" "set here = named pre f ?n" by blast
  have run: "walk_items sha s (i # xs) pre = Inr (here @ ws)"
    using join here(1) ws(1) by (simp add: walk_items.simps(2))
  have "fst ` set here \<inter> fst ` set ws = {}"
  proof -
    have "a \<noteq> b" if "(a, x) \<in> named pre f ?n" "(b, y) \<in> named pre f (it_name j)" "j \<in> set xs" for a x b y j
      using that Cons.prems(1) by (auto simp: named_def)
    then show ?thesis unfolding here(3) ws(3) by fastforce
  qed
  then show ?case using run here(2,3) ws(2,3) by auto
qed

lemma walk_state:
  assumes st: "dir_state sha s is (Some root) f" and w: "within pre f"
    and IH: "\<And>n d pre. plain n \<Longrightarrow> node_at is n = Some (Dir d) \<Longrightarrow> within pre (sub f n)
        \<Longrightarrow> \<exists>ws. walk sha s d pre = Inr ws \<and> walked pre (sub f n) ws"
  shows "\<exists>ws. walk sha s root pre = Inr ws \<and> walked pre f ws"
proof -
  have dok: "dir_ok is" "asc is" using st by (simp_all add: dir_state_def dir_ok_def)
  have lv: "ebind (chunk_at sha s root) (leaves sha s) = Inr is"
  proof (cases "dir_at sha s is (Some root)")
    case True
    then show ?thesis using leaves_tower by auto
  next
    case False
    then have "is = []" "root = empty_tree sha" using st by (auto simp: dir_state_def dir_reads_def)
    then show ?thesis by (simp add: leaves.simps)
  qed
  obtain ws where ws: "walk_items sha s is pre = Inr ws" "distinct (map fst ws)"
      "set ws = (\<Union>i \<in> set is. named pre f (it_name i))"
    using walk_items_spec [OF st w _ dok(2) order_refl] IH by metis
  have "walk sha s root pre = Inr ws"
    using lv ws(1) by (subst walk.simps) (auto simp: ebind_Inr_iff)
  moreover have "(\<Union>i \<in> set is. named pre f (it_name i)) = {(pre @ p, e) |p e. f p = Some e}"
  proof -
    have "\<exists>i \<in> set is. it_name i = first_name p" if p: "f p = Some e" for p e
    proof -
      let ?n = "first_name p"
      have n: "plain ?n" by (rule first_name_plain)
      have "f ?n \<noteq> None \<or> sub f ?n \<noteq> Map.empty"
      proof (cases p rule: path_cases)
        case name
        then show ?thesis using p by (simp add: first_name_simps)
      next
        case (below m q)
        then have "sub f ?n q = Some e" using p by (simp add: first_name_simps)
        then show ?thesis by (metis option.distinct(1))
      qed
      then have "node_at is ?n \<noteq> None"
        using state_file [OF st n] state_dir [OF st n] by (cases "node_at is ?n") auto
      then show ?thesis using item_of_None [of "is" ?n] by (auto simp: node_at_def)
    qed
    note first = this
    show ?thesis
    proof (intro equalityI subsetI)
      fix x assume "x \<in> {(pre @ p, e) |p e. f p = Some e}"
      then obtain p e where x: "x = (pre @ p, e)" "f p = Some e" by blast
      obtain i where i: "i \<in> set is" "it_name i = first_name p" using first [OF x(2)] by blast
      have "x \<in> named pre f (it_name i)" using x i(2) by (simp add: named_def)
      then show "x \<in> (\<Union>i \<in> set is. named pre f (it_name i))" using i(1) by blast
    qed (auto simp: named_def)
  qed
  ultimately show ?thesis using ws(2,3) unfolding walked_def by simp
qed

lemma walk_holds: "holds sha s r f \<Longrightarrow> r = Some root \<Longrightarrow> within pre f \<Longrightarrow> \<exists>ws. walk sha s root pre = Inr ws \<and> walked pre f ws"
proof (induction arbitrary: root pre rule: holds.induct)
  case (1 "is" r f)
  have st: "dir_state sha s is (Some root) f"
    unfolding dir_state_def dir_reads_def using 1(1-4,6) by blast
  show ?case by (rule walk_state [OF st 1(7)]) (use 1(5) in blast)
qed

lemma walk_snapshot:
  assumes "snapshot sha s root f" "within pre f"
  shows "\<exists>ws. walk sha s root pre = Inr ws \<and> walked pre f ws"
proof -
  obtain "is" where st: "dir_state sha s is (Some root) f" using snapshot_state [OF assms(1)] by blast
  show ?thesis
    by (rule walk_state [OF st assms(2)]) (use st walk_holds in \<open>auto simp: dir_state_def\<close>)
qed

end
