(* ===== verification/Differences.thy ===== *)
theory Differences
  imports Queries
begin

text \<open>
  \<open>diff\<close>: dropping the chunks two directories share before expanding the highest level never loses a
  difference, and the changeset it finds is exactly where the two snapshots' maps differ.
\<close>

section \<open>The merge of leaves\<close>

lemma diff_merge_names: "(n, b, a) \<in> set (diff_merge xs ys) \<Longrightarrow> n \<in> it_name ` set xs \<union> it_name ` set ys"
  by (induction xs ys rule: diff_merge.induct) (auto split: if_splits)

lemma diff_merge_spec:
  assumes "asc xs" "asc ys"
  shows "sorted_wrt (<) (map fst (diff_merge xs ys))
    \<and> ((n, b, a) \<in> set (diff_merge xs ys) \<longleftrightarrow>
        item_of xs n \<noteq> item_of ys n \<and> b = node_at xs n \<and> a = node_at ys n)"
  using assms
proof (induction xs ys rule: diff_merge.induct)
  case 1
  then show ?case by simp
next
  case (2 l left)
  have names: "it_name l < m" if "(m, x, y) \<in> set (diff_merge left [])" for m x y
    using diff_merge_names [OF that] 2(2) by auto
  have "item_of left (it_name l) = None" using 2(2) by (auto simp: item_of_None)
  then show ?case using 2 names by (auto simp: node_at_def)
next
  case (3 r right)
  have names: "it_name r < m" if "(m, x, y) \<in> set (diff_merge [] right)" for m x y
    using diff_merge_names [OF that] 3(3) by auto
  have "item_of right (it_name r) = None" using 3(3) by (auto simp: item_of_None)
  then show ?case using 3 names by (auto simp: node_at_def)
next
  case (4 l left r right)
  have tl: "asc left" "asc right" using 4(4,5) by simp_all
  have none: "item_of left (it_name l) = None" "item_of right (it_name r) = None"
    using 4(4,5) by (auto simp: item_of_None)
  consider (eq) "it_name l = it_name r" | (lt) "it_name l < it_name r" | (gt) "it_name r < it_name l" by fastforce
  then show ?case
  proof cases
    case eq
    have names: "it_name l < m" if "(m, x, y) \<in> set (diff_merge left right)" for m x y
      using diff_merge_names [OF that] 4(4,5) eq by auto
    show ?thesis using 4(1) [OF eq tl] names none eq by (auto simp: node_at_def)
  next
    case lt
    then have ne: "it_name l \<noteq> it_name r" by simp
    have names: "it_name l < m" if "(m, x, y) \<in> set (diff_merge left (r # right))" for m x y
      using diff_merge_names [OF that] 4(4,5) lt by (auto intro: less_trans)
    have "item_of (r # right) (it_name l) = None" using 4(5) lt by (fastforce simp: item_of_None)
    then show ?thesis using 4(2) [OF ne lt tl(1) 4(5)] names none(1) lt ne by (auto simp: node_at_def)
  next
    case gt
    then have ne: "it_name l \<noteq> it_name r" "\<not> it_name l < it_name r" by auto
    have names: "it_name r < m" if "(m, x, y) \<in> set (diff_merge (l # left) right)" for m x y
      using diff_merge_names [OF that] 4(4,5) gt by (auto intro: less_trans)
    have "item_of (l # left) (it_name r) = None" using 4(4) gt by (fastforce simp: item_of_None)
    then show ?thesis using 4(3) [OF ne 4(4) tl(2)] names none(2) gt ne by (auto simp: node_at_def)
  qed
qed

section \<open>Dropping shared chunks\<close>

text \<open>The items below a side's chunks.\<close>

definition side_leaves :: "(bytes \<Rightarrow> bytes) \<Rightarrow> memory_store \<Rightarrow> side \<Rightarrow> item list" where
  "side_leaves sha s side = concat (map (\<lambda>(i, c). projr (leaves sha s c)) side)"

definition side_ok :: "(bytes \<Rightarrow> bytes) \<Rightarrow> memory_store \<Rightarrow> side \<Rightarrow> bool" where
  "side_ok sha s side \<longleftrightarrow> list_all (\<lambda>(i, c). chunk_at sha s i = Inr c \<and> (\<exists>xs. leaves sha s c = Inr xs)) side"

lemma side_leaves_simps [simp]:
  "side_leaves sha s [] = []" "side_leaves sha s ((i, c) # side) = projr (leaves sha s c) @ side_leaves sha s side"
  "side_leaves sha s (a @ b) = side_leaves sha s a @ side_leaves sha s b"
  by (simp_all add: side_leaves_def)

lemma side_ok_simps [simp]:
  "side_ok sha s []"
  "side_ok sha s ((i, c) # side) \<longleftrightarrow> chunk_at sha s i = Inr c \<and> (\<exists>xs. leaves sha s c = Inr xs) \<and> side_ok sha s side"
  "side_ok sha s (a @ b) \<longleftrightarrow> side_ok sha s a \<and> side_ok sha s b"
  by (auto simp: side_ok_def)

lemma side_okD: "side_ok sha s side \<Longrightarrow> (i, c) \<in> set side \<Longrightarrow> chunk_at sha s i = Inr c"
  by (auto simp: side_ok_def list_all_iff)

lemma side_ok_once: "side_ok sha s x \<Longrightarrow> side_ok sha s y \<Longrightarrow> (i, c) \<in> set x \<Longrightarrow> (i, d) \<in> set y \<Longrightarrow> c = d"
  by (auto dest!: side_okD)

lemma side_leaves_set: "set (side_leaves sha s side) = (\<Union>(i, c) \<in> set side. set (projr (leaves sha s c)))"
  by (induction side) auto

definition dropped :: "object_id list \<Rightarrow> side \<Rightarrow> side" where
  "dropped shared side = filter (\<lambda>(i, c). i \<notin> set shared) side"

lemma dropped_simps [simp]:
  "dropped shared [] = []"
  "dropped shared ((i, c) # side) = (if i \<in> set shared then dropped shared side else (i, c) # dropped shared side)"
  by (simp_all add: dropped_def)

lemma dropped_asc: "asc (side_leaves sha s side) \<Longrightarrow> asc (side_leaves sha s (dropped shared side))"
proof (induction side)
  case (Cons x side)
  obtain i c where x: "x = (i, c)" by (cases x)
  have "set (side_leaves sha s (dropped shared side)) \<subseteq> set (side_leaves sha s side)"
    by (auto simp: side_leaves_set dropped_def)
  then show ?case using Cons by (auto simp: x)
qed simp

text \<open>A name keeps its item unless its chunk is dropped; then it has none left.\<close>

lemma dropped_item:
  assumes "asc (side_leaves sha s side)"
  shows "item_of (side_leaves sha s (dropped shared side)) n =
    (if \<exists>(i, c) \<in> set side. i \<in> set shared \<and> n \<in> it_name ` set (projr (leaves sha s c)) then None
     else item_of (side_leaves sha s side) n)"
  using assms
proof (induction side)
  case (Cons x side)
  obtain i c where x: "x = (i, c)" by (cases x)
  let ?here = "projr (leaves sha s c)" and ?drop = "dropped shared side"
  have asc: "asc (side_leaves sha s side)" and apart: "\<forall>a \<in> set ?here. \<forall>b \<in> set (side_leaves sha s side). it_name a < it_name b"
    using Cons.prems by (simp_all add: x)
  have sub: "set (side_leaves sha s ?drop) \<subseteq> set (side_leaves sha s side)"
    by (auto simp: side_leaves_set dropped_def)
  show ?case
  proof (cases "n \<in> it_name ` set ?here")
    case True
    then have out: "n \<notin> it_name ` set (side_leaves sha s side)" using apart by fastforce
    then have none: "item_of (side_leaves sha s ?drop) n = None" using sub by (auto simp: item_of_None)
    have "\<not> (\<exists>(j, d) \<in> set side. j \<in> set shared \<and> n \<in> it_name ` set (projr (leaves sha s d)))"
      using out by (fastforce simp: side_leaves_set)
    moreover obtain j where "item_of ?here n = Some j" using True item_of_None by fastforce
    ultimately show ?thesis using True none by (auto simp: x)
  next
    case False
    then have "item_of ?here n = None" by (simp add: item_of_None)
    then show ?thesis using Cons.IH [OF asc] False by (auto simp: x)
  qed
qed simp

text \<open>What is left of two sides still tells their differences.\<close>

definition tells_apart :: "item list \<Rightarrow> item list \<Rightarrow> item list \<Rightarrow> item list \<Rightarrow> bool" where
  "tells_apart xs ys xs' ys' \<longleftrightarrow> asc xs' \<and> asc ys'
     \<and> (\<forall>n. (item_of xs' n = item_of xs n \<and> item_of ys' n = item_of ys n)
            \<or> (item_of xs' n = None \<and> item_of ys' n = None \<and> item_of xs n = item_of ys n))"

lemma tells_apart_trans: "tells_apart xs ys xs' ys' \<Longrightarrow> tells_apart xs' ys' xs2 ys2 \<Longrightarrow> tells_apart xs ys xs2 ys2"
  unfolding tells_apart_def by metis

lemma leaves_item:
  assumes "asc (side_leaves sha s side)" "(i, c) \<in> set side" "n \<in> it_name ` set (projr (leaves sha s c))"
  shows "item_of (side_leaves sha s side) n = item_of (projr (leaves sha s c)) n"
proof -
  obtain a b where ab: "side = a @ (i, c) # b" using assms(2) by (meson split_list)
  have "\<forall>j \<in> set (side_leaves sha s a). it_name j < n" using assms(1,3) by (auto simp: ab)
  then have "item_of (side_leaves sha s a) n = None" by (force simp: item_of_None)
  moreover obtain j where "item_of (projr (leaves sha s c)) n = Some j" using assms(3) item_of_None by fastforce
  ultimately show ?thesis by (simp add: ab)
qed

lemma dropped_tells:
  assumes "side_ok sha s a" "side_ok sha s b" "asc (side_leaves sha s a)" "asc (side_leaves sha s b)"
    "set shared = fst ` set a \<inter> fst ` set b"
  shows "tells_apart (side_leaves sha s a) (side_leaves sha s b)
    (side_leaves sha s (dropped shared a)) (side_leaves sha s (dropped shared b))"
proof -
  let ?in = "\<lambda>side n. \<exists>(i, c) \<in> set side. i \<in> set shared \<and> n \<in> it_name ` set (projr (leaves sha s c))"
  have both: "\<exists>c. (i, c) \<in> set a \<and> (i, c) \<in> set b" if i: "i \<in> set shared" for i
  proof -
    obtain c d where cd: "(i, c) \<in> set a" "(i, d) \<in> set b" using i assms(5) by auto
    then have "c = d" using side_ok_once [OF assms(1,2)] by blast
    then show ?thesis using cd by blast
  qed
  have once: "c = d" if "(i, c) \<in> set x" "(i, d) \<in> set x" "side_ok sha s x" for i c d x
    using that side_ok_once by blast
  have same: "?in a n \<longleftrightarrow> ?in b n" for n
  proof -
    have "?in y n" if x: "?in x n" "\<And>i. i \<in> set shared \<Longrightarrow> \<exists>c. (i, c) \<in> set x \<and> (i, c) \<in> set y" "side_ok sha s x" for x y
    proof -
      obtain i c where ic: "(i, c) \<in> set x" "i \<in> set shared" "n \<in> it_name ` set (projr (leaves sha s c))" using x(1) by blast
      obtain d where d: "(i, d) \<in> set x" "(i, d) \<in> set y" using x(2) [OF ic(2)] by blast
      then have "c = d" using once [OF ic(1) d(1) x(3)] by blast
      then show ?thesis using ic d(2) by blast
    qed
    then show ?thesis using both assms(1,2) by meson
  qed
  have items: "item_of (side_leaves sha s a) n = item_of (side_leaves sha s b) n" if n: "?in a n" for n
  proof -
    obtain i c where ic: "(i, c) \<in> set a" "i \<in> set shared" "n \<in> it_name ` set (projr (leaves sha s c))" using n by blast
    obtain d where d: "(i, d) \<in> set a" "(i, d) \<in> set b" using both [OF ic(2)] by blast
    then have "c = d" using once [OF ic(1) d(1) assms(1)] by blast
    then show ?thesis using leaves_item [OF assms(3) ic(1,3)] leaves_item [OF assms(4), of i c n] ic(3) d(2) by simp
  qed
  show ?thesis
    unfolding tells_apart_def dropped_item [OF assms(3)] dropped_item [OF assms(4)]
    using same items dropped_asc assms(3,4) by (metis (no_types, lifting))
qed

section \<open>Expanding\<close>

lemma leaves_children:
  assumes "leaves sha s c = Inr xs" "ch_level c \<noteq> 0"
  shows "\<exists>cs. emap (\<lambda>it. ebind (child_at sha s c it) (\<lambda>child. Inr (it_id it, child))) (ch_items c) = Inr cs
    \<and> side_ok sha s cs \<and> side_leaves sha s cs = xs"
proof -
  obtain parts where p: "emap (\<lambda>i. ebind (child_at sha s c i) (\<lambda>child. leaves sha s child)) (ch_items c) = Inr parts"
      "xs = concat parts"
    using assms by (subst (asm) leaves.simps) (auto simp: result_simps)
  have "\<exists>cs. emap (\<lambda>it. ebind (child_at sha s c it) (\<lambda>child. Inr (it_id it, child))) its = Inr cs
      \<and> side_ok sha s cs \<and> side_leaves sha s cs = concat parts"
    if "emap (\<lambda>i. ebind (child_at sha s c i) (\<lambda>child. leaves sha s child)) its = Inr parts" for its parts
    using that
  proof (induction its arbitrary: parts)
    case (Cons it its)
    obtain child ys parts' where h: "child_at sha s c it = Inr child" "leaves sha s child = Inr ys"
        "emap (\<lambda>i. ebind (child_at sha s c i) (\<lambda>child. leaves sha s child)) its = Inr parts'" "parts = ys # parts'"
      using Cons.prems by (auto simp: result_simps)
    obtain cs where "emap (\<lambda>it. ebind (child_at sha s c it) (\<lambda>child. Inr (it_id it, child))) its = Inr cs"
        "side_ok sha s cs" "side_leaves sha s cs = concat parts'"
      using Cons.IH [OF h(3)] by blast
    moreover have "chunk_at sha s (it_id it) = Inr child" using h(1) by (simp add: child_at_Inr)
    ultimately show ?case using h by (intro exI [of _ "(it_id it, child) # cs"]) simp
  qed simp
  from this [OF p(1)] show ?thesis unfolding p(2) .
qed

lemma expand_side_spec:
  assumes "side_ok sha s side" "0 < level"
  shows "\<exists>out. expand_side sha s level side = Inr out \<and> side_ok sha s out \<and> side_leaves sha s out = side_leaves sha s side"
  using assms(1)
proof (induction side)
  case Nil
  then show ?case by (simp add: expand_side_def)
next
  case (Cons x side)
  obtain i c where x: "x = (i, c)" by (cases x)
  obtain out where out: "expand_side sha s level side = Inr out" "side_ok sha s out"
      "side_leaves sha s out = side_leaves sha s side"
    using Cons by (auto simp: x)
  obtain xs where c: "chunk_at sha s i = Inr c" "leaves sha s c = Inr xs" using Cons.prems by (auto simp: x)
  obtain cs where "(if ch_level c < level then Inr [(i, c)]
       else emap (\<lambda>it. ebind (child_at sha s c it) (\<lambda>child. Inr (it_id it, child))) (ch_items c)) = Inr cs"
      "side_ok sha s cs" "side_leaves sha s cs = xs"
    using c leaves_children [OF c(2)] assms(2) by (cases "ch_level c < level") auto
  then have "expand_side sha s level (x # side) = Inr (cs @ out)"
    using out(1) by (auto simp: expand_side_def x result_simps)
  then show ?case using out(2,3) \<open>side_ok sha s cs\<close> \<open>side_leaves sha s cs = xs\<close> c(2) by (auto simp: x)
qed

lemma diff_loop_spec:
  "side_ok sha s a \<Longrightarrow> side_ok sha s b \<Longrightarrow> asc (side_leaves sha s a) \<Longrightarrow> asc (side_leaves sha s b) \<Longrightarrow>
   \<exists>a' b'. diff_loop sha s a b = Inr (a', b') \<and> side_ok sha s a' \<and> side_ok sha s b' \<and> top_level (a' @ b') = 0
     \<and> tells_apart (side_leaves sha s a) (side_leaves sha s b) (side_leaves sha s a') (side_leaves sha s b')"
proof (induction sha s a b rule: diff_loop.induct)
  case (1 sha s a b)
  define shared where "shared = filter (\<lambda>i. i \<in> set (map fst a)) (map fst b)"
  define a1 where "a1 = filter (\<lambda>(i, c). i \<notin> set shared) a"
  define b1 where "b1 = filter (\<lambda>(i, c). i \<notin> set shared) b"
  define level where "level = top_level (a1 @ b1)"
  have ab: "a1 = dropped shared a" "b1 = dropped shared b" by (simp_all add: a1_def b1_def dropped_def)
  have sh: "set shared = fst ` set a \<inter> fst ` set b" by (auto simp: shared_def)
  have tells: "tells_apart (side_leaves sha s a) (side_leaves sha s b) (side_leaves sha s a1) (side_leaves sha s b1)"
    unfolding ab using dropped_tells [OF 1(2-5) sh] .
  have ok: "side_ok sha s a1" "side_ok sha s b1"
    using 1(2,3) by (auto simp: a1_def b1_def side_ok_def list_all_iff)
  show ?case
  proof (cases "level = 0")
    case True
    then have "diff_loop sha s a b = Inr (a1, b1)"
      by (simp add: diff_loop.simps [of sha s a b] Let_def a1_def b1_def shared_def level_def)
    then show ?thesis using ok tells True by (auto simp: level_def)
  next
    case False
    obtain a2 where a2: "expand_side sha s level a1 = Inr a2" "side_ok sha s a2" "side_leaves sha s a2 = side_leaves sha s a1"
      using expand_side_spec [OF ok(1)] False by blast
    obtain b2 where b2: "expand_side sha s level b1 = Inr b2" "side_ok sha s b2" "side_leaves sha s b2 = side_leaves sha s b1"
      using expand_side_spec [OF ok(2)] False by blast
    have "diff_loop sha s a b = diff_loop sha s a2 b2"
      using False a2(1) b2(1) by (simp add: diff_loop.simps [of sha s a b] Let_def a1_def b1_def shared_def level_def)
    moreover have "asc (side_leaves sha s a2)" "asc (side_leaves sha s b2)"
      using tells a2(3) b2(3) by (simp_all add: tells_apart_def)
    ultimately show ?thesis
      using 1(1) [OF shared_def a1_def b1_def level_def False a2(1) b2(1) a2(2) b2(2)] tells a2(3) b2(3)
      by (auto intro: tells_apart_trans)
  qed
qed

lemma state_load:
  assumes "dir_state sha s is r f"
  shows "\<exists>side. load_side sha s r = Inr side \<and> side_ok sha s side \<and> side_leaves sha s side = is"
proof (cases r)
  case None
  then have "is = []" using assms by (simp add: dir_state_def dir_reads_def)
  then show ?thesis using None by (simp add: load_side_def)
next
  case (Some root)
  have "ebind (chunk_at sha s root) (leaves sha s) = Inr is"
  proof (cases "dir_at sha s is r")
    case True
    then show ?thesis using leaves_tower Some by auto
  next
    case False
    then have "is = []" "root = empty_tree sha" using assms Some by (auto simp: dir_state_def dir_reads_def)
    then show ?thesis by (simp add: leaves.simps)
  qed
  then obtain c where "chunk_at sha s root = Inr c" "leaves sha s c = Inr is" by (auto simp: result_simps)
  then show ?thesis by (simp add: load_side_def Some)
qed

lemma level0_leaves: "top_level side = 0 \<Longrightarrow> side_leaves sha s side = concat (map (ch_items \<circ> snd) side)"
proof (induction side)
  case (Cons x side)
  obtain i c where x: "x = (i, c)" by (cases x)
  have "ch_level c = 0" "top_level side = 0"
    using Cons.prems top_level_le [of "x # side" 0] top_level_le [of side 0] by (auto simp: x)
  moreover then have "leaves sha s c = Inr (ch_items c)" by (subst leaves.simps) simp
  ultimately show ?case using Cons.IH by (simp add: x)
qed simp

lemma diff_items_spec:
  assumes "dir_state sha s is r f" "dir_state sha s is' r' g"
  shows "\<exists>ds. diff_items sha s r r' = Inr ds \<and> sorted_wrt (<) (map fst ds)
    \<and> (\<forall>n b a. (n, b, a) \<in> set ds \<longleftrightarrow> item_of is n \<noteq> item_of is' n \<and> b = node_at is n \<and> a = node_at is' n)"
proof -
  have asc: "asc is" "asc is'" using assms by (simp_all add: dir_state_def dir_ok_def)
  obtain a where a: "load_side sha s r = Inr a" "side_ok sha s a" "side_leaves sha s a = is" using state_load [OF assms(1)] by blast
  obtain b where b: "load_side sha s r' = Inr b" "side_ok sha s b" "side_leaves sha s b = is'" using state_load [OF assms(2)] by blast
  obtain a' b' where l: "diff_loop sha s a b = Inr (a', b')" "top_level (a' @ b') = 0"
      "tells_apart is is' (side_leaves sha s a') (side_leaves sha s b')"
    using diff_loop_spec [OF a(2) b(2)] asc a(3) b(3) by auto
  have "top_level a' = 0" "top_level b' = 0" using l(2) by (simp_all add: top_level_append)
  then have run: "diff_items sha s r r' = Inr (diff_merge (side_leaves sha s a') (side_leaves sha s b'))"
    using a(1) b(1) l(1) by (simp add: diff_items_def level0_leaves)
  have asc': "asc (side_leaves sha s a')" "asc (side_leaves sha s b')" using l(3) by (simp_all add: tells_apart_def)
  note spec = diff_merge_spec [OF asc']
  have "item_of (side_leaves sha s a') n \<noteq> item_of (side_leaves sha s b') n
      \<and> x = node_at (side_leaves sha s a') n \<and> y = node_at (side_leaves sha s b') n
    \<longleftrightarrow> item_of is n \<noteq> item_of is' n \<and> x = node_at is n \<and> y = node_at is' n" for n x y
    using l(3) unfolding tells_apart_def node_at_def by (metis (no_types, lifting))
  then show ?thesis using run spec by blast
qed

section \<open>The changeset between two snapshots\<close>

text \<open>Where two maps differ, below one name and in all.\<close>

definition differ :: "string \<Rightarrow> file_entry paths \<Rightarrow> file_entry paths \<Rightarrow> (string \<times> file_entry option) set" where
  "differ pre f g = {(pre @ p, g p) |p. f p \<noteq> g p}"

definition differ_at :: "string \<Rightarrow> file_entry paths \<Rightarrow> file_entry paths \<Rightarrow> string \<Rightarrow> (string \<times> file_entry option) set" where
  "differ_at pre f g n = {(pre @ p, g p) |p. f p \<noteq> g p \<and> first_name p = n}"

lemma differ_at_eq:
  assumes "plain n"
  shows "differ_at pre f g n =
    (if f n \<noteq> g n then {(pre @ n, g n)} else {}) \<union> differ (pre @ n @ ''/'') (sub f n) (sub g n)"
proof -
  have "f p \<noteq> g p \<and> first_name p = n \<longleftrightarrow> (p = n \<and> f n \<noteq> g n) \<or> (\<exists>q. p = n @ ''/'' @ q \<and> sub f n q \<noteq> sub g n q)" for p
  proof (cases p rule: path_cases)
    case name
    then show ?thesis using assms by (auto simp: first_name_simps)
  next
    case (below m q)
    then show ?thesis using assms by (auto simp: first_name_simps slash_eq)
  qed
  note eq = this
  show ?thesis
  proof (intro equalityI subsetI)
    fix x assume "x \<in> differ_at pre f g n"
    then obtain p where p: "x = (pre @ p, g p)" "f p \<noteq> g p \<and> first_name p = n" unfolding differ_at_def by blast
    then consider "p = n" "f n \<noteq> g n" | q where "p = n @ ''/'' @ q" "sub f n q \<noteq> sub g n q" using eq by blast
    then show "x \<in> (if f n \<noteq> g n then {(pre @ n, g n)} else {}) \<union> differ (pre @ n @ ''/'') (sub f n) (sub g n)"
      by cases (auto simp: p(1) differ_def)
  next
    fix x assume "x \<in> (if f n \<noteq> g n then {(pre @ n, g n)} else {}) \<union> differ (pre @ n @ ''/'') (sub f n) (sub g n)"
    then consider "f n \<noteq> g n" "x = (pre @ n, g n)" | q where "x = (pre @ n @ ''/'' @ q, g (n @ ''/'' @ q))" "sub f n q \<noteq> sub g n q"
      by (auto simp: differ_def split: if_splits)
    then show "x \<in> differ_at pre f g n"
    proof cases
      case 1
      then show ?thesis unfolding differ_at_def using eq [of n] by blast
    next
      case 2
      then show ?thesis unfolding differ_at_def using eq [of "n @ ''/'' @ q"] by blast
    qed
  qed
qed

lemma differ_first: "differ pre f g = (\<Union>n \<in> {n. plain n}. differ_at pre f g n)"
  unfolding differ_def differ_at_def using first_name_plain by blast

definition dir_diff :: "(bytes \<Rightarrow> bytes) \<Rightarrow> memory_store \<Rightarrow> object_id option \<Rightarrow> object_id option \<Rightarrow> string \<Rightarrow> bool" where
  "dir_diff sha s r r' pre \<longleftrightarrow>
     (\<forall>f g is is'. dir_state sha s is r f \<longrightarrow> dir_state sha s is' r' g \<longrightarrow> within pre f \<longrightarrow> within pre g \<longrightarrow>
        (\<exists>ds. diff_dir sha s r r' pre = Inr ds \<and> distinct (map fst ds) \<and> set ds = differ pre f g))"

definition each_diff :: "(bytes \<Rightarrow> bytes) \<Rightarrow> memory_store \<Rightarrow> item_diff list \<Rightarrow> string \<Rightarrow> bool" where
  "each_diff sha s items pre \<longleftrightarrow>
     (\<forall>f g r r' is is'. dir_state sha s is r f \<longrightarrow> dir_state sha s is' r' g \<longrightarrow> within pre f \<longrightarrow> within pre g \<longrightarrow>
        sorted_wrt (<) (map fst items) \<longrightarrow>
        (\<forall>(n, b, a) \<in> set items. item_of is n \<noteq> item_of is' n \<and> b = node_at is n \<and> a = node_at is' n) \<longrightarrow>
        (\<exists>ds. diff_each sha s items pre = Inr ds \<and> distinct (map fst ds)
           \<and> set ds = (\<Union>n \<in> fst ` set items. differ_at pre f g n)))"

lemma each_diffD:
  assumes "each_diff sha s items pre" "dir_state sha s is r f" "dir_state sha s is' r' g" "within pre f" "within pre g"
    "\<forall>(n, b, a) \<in> set items. item_of is n \<noteq> item_of is' n \<and> b = node_at is n \<and> a = node_at is' n"
    "sorted_wrt (<) (map fst items)"
  shows "\<exists>ds. diff_each sha s items pre = Inr ds \<and> distinct (map fst ds)
    \<and> set ds = (\<Union>n \<in> fst ` set items. differ_at pre f g n)"
  by (rule assms(1) [unfolded each_diff_def, THEN spec, THEN spec, THEN spec, THEN spec, THEN spec, THEN spec,
      THEN mp, OF assms(2), THEN mp, OF assms(3), THEN mp, OF assms(4), THEN mp, OF assms(5), THEN mp, OF assms(7),
      THEN mp, OF assms(6)])

lemma UN_support: "(\<And>n. n \<in> A \<Longrightarrow> n \<in> B) \<Longrightarrow> (\<And>n. n \<in> B \<Longrightarrow> n \<notin> A \<Longrightarrow> D n = {}) \<Longrightarrow> (\<Union>n \<in> A. D n) = (\<Union>n \<in> B. D n)"
  by blast

lemma distinct_fst_append:
  "distinct (map fst xs) \<Longrightarrow> fst ` set xs \<inter> fst ` set ys = {} \<Longrightarrow> distinct (map fst ys) \<Longrightarrow> distinct (map fst (xs @ ys))"
  by simp

lemma state_name:
  assumes "dir_state sha s is r f" "item_of is n \<noteq> None"
  shows "plain n \<and> (f n \<noteq> None \<or> sub f n \<noteq> Map.empty)"
proof -
  obtain i where i: "item_of is n = Some i" using assms(2) by blast
  have d: "dir_ok is" "fits is f" using assms(1) by (simp_all add: dir_state_def)
  have "it_name i = n" "i \<in> set is" using item_of_Some [OF i] by simp_all
  then show ?thesis using item_of_plain [OF d(1) i] fits_nonempty [OF d(2,1), of i] by simp
qed

lemma each_diff_Cons:
  assumes rec: "\<And>from' to path. from' = Option.bind b node_dir \<Longrightarrow> to = Option.bind a node_dir \<Longrightarrow> from' \<noteq> to
      \<Longrightarrow> joined pre n = Inr path \<Longrightarrow> dir_diff sha s from' to (path @ ''/'')"
    and rest: "\<And>path us. joined pre n = Inr path
      \<Longrightarrow> (if Option.bind b node_dir \<noteq> Option.bind a node_dir
           then diff_dir sha s (Option.bind b node_dir) (Option.bind a node_dir) (path @ ''/'') else Inr []) = Inr us
      \<Longrightarrow> each_diff sha s items pre"
  shows "each_diff sha s ((n, b, a) # items) pre"
  unfolding each_diff_def
proof (intro allI impI)
  fix f g r r' "is" is'
  assume st: "dir_state sha s is r f" "dir_state sha s is' r' g" and w: "within pre f" "within pre g"
    and so: "sorted_wrt (<) (map fst ((n, b, a) # items))"
    and it: "\<forall>(n, b, a) \<in> set ((n, b, a) # items). item_of is n \<noteq> item_of is' n \<and> b = node_at is n \<and> a = node_at is' n"
  have ba: "b = node_at is n" "a = node_at is' n" and ne: "item_of is n \<noteq> item_of is' n" using it by auto
  have "item_of is n \<noteq> None \<or> item_of is' n \<noteq> None" using ne by auto
  then have n: "plain n" and join: "joined pre n = Inr (pre @ n)"
    using state_name [OF st(1), of n] state_name [OF st(2), of n] joined_within [OF w(1), of n] joined_within [OF w(2), of n]
    by blast+
  let ?from = "Option.bind b node_dir" and ?to = "Option.bind a node_dir" and ?pre = "(pre @ n) @ ''/''"
  have files: "Option.bind b node_file = f n" "Option.bind a node_file = g n"
    unfolding ba using state_file [OF st(1) n] state_file [OF st(2) n] .
  have subs: "holds sha s ?from (sub f n)" "holds sha s ?to (sub g n)"
    unfolding ba using state_sub [OF st(1) n] state_sub [OF st(2) n] .
  have "\<exists>us. (if ?from \<noteq> ?to then diff_dir sha s ?from ?to ?pre else Inr []) = Inr us
      \<and> distinct (map fst us) \<and> set us = differ ?pre (sub f n) (sub g n)"
  proof (cases "?from = ?to")
    case True
    then have "sub f n = sub g n" using holds_fun subs by metis
    then show ?thesis using True by (simp add: differ_def)
  next
    case False
    have "within ?pre (sub f n)" "within ?pre (sub g n)" using within_sub [OF w(1), of n] within_sub [OF w(2), of n] by simp_all
    then show ?thesis
      using rec [OF refl refl False join] holds_state [OF subs(1)] holds_state [OF subs(2)] False
      unfolding dir_diff_def by metis
  qed
  then obtain us where us: "(if ?from \<noteq> ?to then diff_dir sha s ?from ?to ?pre else Inr []) = Inr us"
      "distinct (map fst us)" "set us = differ ?pre (sub f n) (sub g n)" by blast
  have it': "\<forall>(n, b, a) \<in> set items. item_of is n \<noteq> item_of is' n \<and> b = node_at is n \<and> a = node_at is' n" using it by simp
  obtain ds where ds: "diff_each sha s items pre = Inr ds" "distinct (map fst ds)"
      "set ds = (\<Union>n \<in> fst ` set items. differ_at pre f g n)"
    using each_diffD [OF rest [OF join us(1)] st w it'] so by auto
  let ?here = "if f n \<noteq> g n then [(pre @ n, g n)] else []"
  have run: "diff_each sha s ((n, b, a) # items) pre = Inr (?here @ us @ ds)"
    using join us(1) ds(1) by (simp add: diff_each.simps(2) Let_def files)
  have here: "set (?here @ us) = differ_at pre f g n" unfolding differ_at_eq [OF n] using us(3) by simp
  have "distinct (map fst (?here @ us))" using us(2,3) by (auto simp: differ_def)
  moreover have "fst ` set (?here @ us) \<inter> fst ` set ds = {}"
  proof -
    have "x \<noteq> y" if "(x, v) \<in> differ_at pre f g n" "(y, u) \<in> differ_at pre f g m" "m \<in> fst ` set items" for x v y u m
      using that so by (auto simp: differ_at_def)
    then show ?thesis unfolding here ds(3) by fastforce
  qed
  ultimately have "distinct (map fst ((?here @ us) @ ds))" using ds(2) by (rule distinct_fst_append)
  moreover have "set ((?here @ us) @ ds) = (\<Union>n \<in> fst ` set ((n, b, a) # items). differ_at pre f g n)"
    unfolding set_append [of "?here @ us"] here ds(3) by simp
  ultimately show "\<exists>ds. diff_each sha s ((n, b, a) # items) pre = Inr ds \<and> distinct (map fst ds)
      \<and> set ds = (\<Union>n \<in> fst ` set ((n, b, a) # items). differ_at pre f g n)"
    using run by (intro exI [of _ "?here @ us @ ds"]) simp
qed

lemma diff_both: "dir_diff sha s r r' pre" "each_diff sha s items pre"
proof (induction sha s r r' pre and sha s items pre rule: diff_dir_diff_each.induct)
  case (1 sha s from' to pre)
  show ?case
    unfolding dir_diff_def
  proof (intro allI impI)
    fix f g "is" is'
    assume st: "dir_state sha s is from' f" "dir_state sha s is' to g" and w: "within pre f" "within pre g"
    show "\<exists>ds. diff_dir sha s from' to pre = Inr ds \<and> distinct (map fst ds) \<and> set ds = differ pre f g"
    proof (cases "from' = to")
      case True
      then have "f = g" using state_fun st by blast
      then show ?thesis using True by (simp add: diff_dir.simps differ_def)
    next
      case False
      obtain items where items: "diff_items sha s from' to = Inr items" "sorted_wrt (<) (map fst items)"
          "\<forall>n b a. (n, b, a) \<in> set items \<longleftrightarrow> item_of is n \<noteq> item_of is' n \<and> b = node_at is n \<and> a = node_at is' n"
        using diff_items_spec [OF st] by blast
      obtain ds where ds: "diff_each sha s items pre = Inr ds" "distinct (map fst ds)"
          "set ds = (\<Union>n \<in> fst ` set items. differ_at pre f g n)"
        using each_diffD [OF 1 [OF False items(1)] st w _ items(2)] items(3) by blast
      have "differ_at pre f g n = {}" if n: "plain n" "n \<notin> fst ` set items" for n
      proof -
        have "item_of is n = item_of is' n" using n(2) items(3) by force
        then have same: "node_at is n = node_at is' n" by (simp add: node_at_def)
        then have "f n = g n" using state_file [OF st(1) n(1)] state_file [OF st(2) n(1)] by simp
        moreover have "sub f n = sub g n"
          using state_sub [OF st(1) n(1)] state_sub [OF st(2) n(1)] same holds_fun by metis
        ultimately show ?thesis unfolding differ_at_eq [OF n(1)] by (simp add: differ_def)
      qed
      moreover have "plain n" if n: "n \<in> fst ` set items" for n
      proof -
        obtain b a where "(n, b, a) \<in> set items" using n by auto
        then have "item_of is n \<noteq> item_of is' n" using items(3) by blast
        then have "item_of is n \<noteq> None \<or> item_of is' n \<noteq> None" by auto
        then show ?thesis using state_name [OF st(1)] state_name [OF st(2)] by blast
      qed
      ultimately have "set ds = differ pre f g"
        unfolding ds(3) differ_first by (intro UN_support) auto
      then show ?thesis using False items(1) ds(1,2) by (simp add: diff_dir.simps)
    qed
  qed
next
  case (2 sha s pre)
  then show ?case by (simp add: each_diff_def diff_each.simps)
next
  case (3 sha s name before after items pre)
  show ?case
  proof (rule each_diff_Cons)
    show "dir_diff sha s from' to (path @ ''/'')" if "from' = Option.bind before node_dir" "to = Option.bind after node_dir"
        "from' \<noteq> to" "joined pre name = Inr path" for from' to path
      by (rule 3(1) [OF that(4) refl refl that(1-3)])
    show "each_diff sha s items pre" if "joined pre name = Inr path"
      "(if Option.bind before node_dir \<noteq> Option.bind after node_dir
        then diff_dir sha s (Option.bind before node_dir) (Option.bind after node_dir) (path @ ''/'') else Inr []) = Inr us"
      for path us by (rule 3(2) [OF that(1) refl refl refl refl that(2)])
  qed
qed

end
