(* ===== verification/Worlds.thy ===== *)
theory Worlds
  imports Differences
begin

text \<open>
  What the public operations of \<open>Trees\<close> do to the snapshots of a World: the theorems of \<open>tree.rs\<close>, stated over the
  map from paths to entries that a root stands for.
\<close>

section \<open>Maps of a World\<close>

definition world :: "file_entry paths \<Rightarrow> bool" where
  "world f \<longleftrightarrow> finite (dom f) \<and> (\<forall>p e. f p = Some e \<longrightarrow> path_valid p \<and> oid_ok (entry_content e))"

lemma length_split_on: "length (split_on sep xs) = length (filter (\<lambda>c. c = sep) xs) + 1"
  by (induction xs) (auto split: list.split)

lemma path_valid_within: "path_valid p \<Longrightarrow> length p \<le> MAX_PATH \<and> length (filter (\<lambda>c. c = CHR ''/'') p) < MAX_DEPTH"
  by (auto simp: path_valid_def path_ok_def length_split_on)

lemma world_within: "world f \<Longrightarrow> within [] f"
  using path_valid_within by (fastforce simp: world_def within_def)

lemma world_upd:
  assumes "world f" "changes_valid ch"
  shows "world (upd f ch)"
proof -
  have "dom (upd f ch) \<subseteq> dom f \<union> fst ` set ch"
    by (auto simp: upd_def split: option.splits dest!: map_of_SomeD intro: rev_image_eqI)
  then have "finite (dom (upd f ch))" using assms(1) by (simp add: world_def finite_subset)
  moreover have "path_valid p \<and> oid_ok (entry_content e)" if "upd f ch p = Some e" for p e
    using that assms by (auto simp: upd_def world_def changes_valid_def split: option.splits dest!: map_of_SomeD)
  ultimately show ?thesis by (simp add: world_def)
qed

lemma world_empty: "world Map.empty"
  by (simp add: world_def)

section \<open>An example\<close>

text \<open>A small hash: a digest of the last byte.\<close>

definition last_byte_sha :: "bytes \<Rightarrow> bytes" where
  "last_byte_sha b = replicate 32 (last (CHR 0x00 # b))"

lemma last_byte_sha_ok: "hash_ok last_byte_sha"
  by (simp add: hash_ok_def last_byte_sha_def)

abbreviation (input) xs32 :: object_id where
  "xs32 \<equiv> replicate 32 CHR ''x''"

definition example_changes :: change_list where
  "example_changes = [(''a'', Some (Regular xs32 False))]"

definition example_map :: "file_entry paths" where
  "example_map = [''a'' \<mapsto> Regular xs32 False]"

definition example_empty :: object_id where
  "example_empty = empty_tree last_byte_sha"

lemma example_path: "path_valid ''a''"
proof -
  have "utf8 ''a''" by (auto intro!: utf8_ascii simp: u8_in_def)
  then show ?thesis
    by (simp add: path_valid_def path_ok_def valid_name_def eq_ignore_case_def MAX_PATH_def MAX_DEPTH_def)
qed

lemma example_changes_valid: "changes_valid example_changes"
  using example_path by (simp add: changes_valid_def example_changes_def oid_ok_def)

lemma example_upd: "upd Map.empty example_changes = example_map"
  by (rule ext) (simp add: upd_def example_changes_def example_map_def)

lemma example_not_refused: "\<not> refused Map.empty example_changes"
  by (auto simp: refused_def example_upd) (auto simp: example_changes_def example_map_def split: if_splits)

lemma example_world: "world example_map"
  using world_upd [OF world_empty example_changes_valid] by (simp add: example_upd)

lemma example_empty_snapshot: "snapshot last_byte_sha s example_empty Map.empty"
  by (simp add: snapshot_def example_empty_def)

lemma find_empty: "find_in sha s (empty_tree sha) n = Inr None"
  using find_reads [of sha s "[]" "Some (empty_tree sha)" n] by (simp add: find_opt_def dir_reads_def node_at_def)

lemma push_first:
  "chunker_push sha i (chunker_new l) = (None, \<lparr>ck_level = l, ck_items = [i], ck_size = item_len i\<rparr>)"
  by (simp add: chunker_push_def chunker_new_def Let_def)

definition example_chunk :: chunk where
  "example_chunk = \<lparr>ch_level = 0, ch_items = [\<lparr>it_name = ''a'', it_tag = Suc 0, it_id = xs32\<rparr>]\<rparr>"

definition example_store :: memory_store where
  "example_store = snd (put_chunk last_byte_sha example_chunk memory_store_new)"

lemma example_put:
  "put_chunk last_byte_sha example_chunk memory_store_new = (Inr xs32, example_store)" "\<not> ms_collided example_store"
  "\<exists>s. put_chunk last_byte_sha example_chunk example_store = (Inr xs32, s) \<and> \<not> ms_collided s"
  by (simp_all add: put_chunk_def Let_def chunk_encode_def item_encode_def object_hash_def last_byte_sha_def clashes_def
      memory_store_new_def store_save_def empty_tree_def example_store_def example_chunk_def)

lemma example_apply:
  assumes "put_chunk last_byte_sha example_chunk s = (Inr xs32, s')"
  shows "tree_apply 3 last_byte_sha example_empty example_changes s = (Inr xs32, s')"
  using assms unfolding tbind_def
  by (simp add: example_changes_def example_empty_def tree_apply_def apply_dir.simps apply_groups.simps group_changes_def
      group_change_def tbind_def tread_def tret_def find_empty tombstone_ambiguous_def next_node_def example_chunk_def
      update_dir_def Let_def build_level.simps MAX_LEVEL_def push_first cut_level_def chunker_finish_cases tree_root_def)

lemmas example_run = example_apply [OF example_put(1)] example_put(2)

section \<open>Applying changesets\<close>

lemma apply_Inr:
  assumes "hash_ok sha" "snapshot sha s root f" "world f" "changes_valid ch"
    "card (dom f) + length ch < fuel" "card (dom f) + length ch \<le> 2 ^ MAX_LEVEL"
    "tree_apply fuel sha root ch s = (r, s')" "\<not> ms_collided s'"
  shows "extends s s' \<and> (if refused f ch then declined r else \<exists>root'. r = Inr root' \<and> snapshot sha s' root' (upd f ch))"
proof -
  have "finite (dom f)" using assms(3) by (simp add: world_def)
  from ends_elim [OF apply_spec [OF assms(1,2,4) this assms(5,6)] assms(7,8)] show ?thesis .
qed

text \<open>C26: Applying valid changes to a snapshot, with no SHA-256 collision on the way, either refuses them with
  \<open>InvalidInput\<close> (exactly when a tombstone is ambiguous or a file would be an ancestor of another), or returns the
  root of the map after the changes; what was stored stays readable.\<close>

theorem apply_snapshot:
  assumes "hash_ok sha" "snapshot sha s root f" "world f" "changes_valid ch"
    "card (dom f) + length ch < fuel" "card (dom f) + length ch \<le> 2 ^ MAX_LEVEL"
    "tree_apply fuel sha root ch s = (r, s')" "\<not> ms_collided s'"
  shows "(\<forall>old g. snapshot sha s old g \<longrightarrow> snapshot sha s' old g)
    \<and> (if refused f ch then \<exists>why. r = Inl (InvalidInput why)
       else \<exists>root'. r = Inr root' \<and> snapshot sha s' root' (upd f ch))"
  using apply_Inr [OF assms] unfolding declined_def by (auto intro: snapshot_extends split: if_splits)

theorem apply_snapshot_witness: "snapshot last_byte_sha example_store xs32 example_map"
proof -
  have "snapshot last_byte_sha example_store xs32 (upd Map.empty example_changes)"
    using apply_snapshot [OF last_byte_sha_ok example_empty_snapshot world_empty example_changes_valid _ _
        example_run] example_not_refused
    by (simp add: example_changes_def MAX_LEVEL_def)
  then show ?thesis by (simp only: example_upd)
qed

lemma example_snapshot: "snapshot last_byte_sha example_store xs32 example_map"
  using apply_Inr [OF last_byte_sha_ok example_empty_snapshot world_empty example_changes_valid _ _
      example_run] example_not_refused
  by (simp add: example_changes_def MAX_LEVEL_def example_upd [unfolded example_changes_def])

section \<open>Rebuilding\<close>

text \<open>The changes that add all entries of a map.\<close>

definition additions :: "manifest \<Rightarrow> changes" where
  "additions entries = map (\<lambda>(p, e). (p, Some e)) entries"

lemma map_of_additions: "map_of (additions es) p = map_option Some (map_of es p)"
  by (induction es) (auto simp: additions_def)

lemma additions_simps: "length (additions es) = length es" "map fst (additions es) = map fst es"
  by (simp_all add: additions_def split_def comp_def)

lemma upd_additions: "upd Map.empty (additions es) = map_of es"
  by (rule ext) (simp add: upd_def map_of_additions split: option.splits)

lemma additions_valid:
  assumes "world (map_of es)" "omap_ok es"
  shows "changes_valid (additions es)"
proof -
  have "path_valid p \<and> oid_ok (entry_content e)" if "(p, e) \<in> set es" for p e
    using assms that map_of_is_SomeI [OF omap_okD_distinct] by (fastforce simp: world_def)
  then show ?thesis
    using assms(2) unfolding changes_valid_def omap_ok_def additions_simps by (auto simp: additions_def)
qed

lemma build_spec:
  assumes "hash_ok sha" "changes_valid (additions es)" "length es < fuel" "length es \<le> 2 ^ MAX_LEVEL"
    "tree_build fuel sha es s = (r, s')" "\<not> ms_collided s'"
  shows "extends s s' \<and> (if refused Map.empty (additions es) then declined r
    else \<exists>root. r = Inr root \<and> snapshot sha s' root (map_of es))"
proof -
  have st: "dir_state sha s [] None Map.empty"
    by (simp add: dir_state_def dir_reads_def dir_ok_def fits_Nil node_at_def)
  have "apply_ends (length es) sha fuel None (additions es)" using assms by (intro apply_both(1)) auto
  then have E: "ends (apply_dir fuel sha None (additions es)) s (\<lambda>x s'.
      if refused Map.empty (additions es) then declined x
      else (\<exists>r'. x = Inr r' \<and> (holds sha s' r' (map_of es) \<or> (r' = None \<and> map_of es = Map.empty))))"
    using st changes_valid_ok [OF assms(2)] unfolding apply_ends_def room_def upd_additions [symmetric]
    by (fastforce elim!: ends_mono simp: additions_simps split: if_splits)
  have "ends (tree_build fuel sha es) s (\<lambda>r s'. if refused Map.empty (additions es) then declined r
      else \<exists>root. r = Inr root \<and> snapshot sha s' root (map_of es))"
    unfolding tree_build_def additions_def [symmetric]
  proof (rule ends_tbind [OF E])
    fix r s1 assume e: "extends s s1" and h: "if refused Map.empty (additions es) then declined (Inr r)
      else (\<exists>r'. Inr r = (Inr r' :: error + object_id option) \<and> (holds sha s1 r' (map_of es) \<or> (r' = None \<and> map_of es = Map.empty)))"
    then have nr: "\<not> refused Map.empty (additions es)" by (auto simp: declined_def split: if_splits)
    then have "\<exists>r'. r = Some r' \<and> snapshot sha s1 r' (map_of es) \<or> r = None \<and> map_of es = Map.empty"
      using h by (cases r) (auto simp: snapshot_def)
    from ends_root [OF this] nr
    show "ends (tree_root sha r) s1 (\<lambda>r s'. if refused Map.empty (additions es) then declined r
        else \<exists>root. r = Inr root \<and> snapshot sha s' root (map_of es))" by simp
  qed (auto intro: grows_intros simp: declined_def split: if_splits)
  from ends_elim [OF this assms(5,6)] show ?thesis .
qed

text \<open>The incremental update and a rebuild of the same map agree, so a root does not depend on its history.\<close>

text \<open>C27: Applying changes to a snapshot, with whatever history, returns the root that building the changed map from
  scratch returns, in whatever store.\<close>

theorem apply_is_rebuild:
  assumes "hash_ok sha" "snapshot sha s root f" "world f" "changes_valid ch"
    "card (dom f) + length ch < fuel" "card (dom f) + length ch \<le> 2 ^ MAX_LEVEL"
    "tree_apply fuel sha root ch s = (Inr root', s')" "\<not> ms_collided s'"
    "omap_ok es" "map_of es = upd f ch" "length es < fuel'" "length es \<le> 2 ^ MAX_LEVEL"
    "tree_build fuel' sha es t = (Inr built, t')" "\<not> ms_collided t'"
  shows "built = root'"
proof -
  have r: "snapshot sha s' root' (upd f ch)"
    using apply_Inr [OF assms(1-8)] by (auto simp: declined_def split: if_splits)
  have w: "world (map_of es)" using world_upd [OF assms(3,4)] assms(10) by simp
  have "changes_valid (additions es)"
    by (rule additions_valid [OF w assms(9)])
  from build_spec [OF assms(1) this assms(11-14)] have "snapshot sha t' built (map_of es)"
    by (auto simp: declined_def split: if_splits)
  then show ?thesis using snapshot_fun r assms(10) by metis
qed

lemma example_build:
  "tree_build 3 last_byte_sha [(''a'', Regular xs32 False)] memory_store_new = (Inr xs32, example_store)"
  using example_put(1) unfolding tbind_def
  by (simp add: tree_build_def apply_dir.simps apply_groups.simps group_changes_def example_chunk_def
      group_change_def tbind_def tread_def tret_def tombstone_ambiguous_def next_node_def
      update_dir_def Let_def build_level.simps MAX_LEVEL_def push_first cut_level_def chunker_finish_cases tree_root_def)

theorem apply_is_rebuild_witness:
  "tree_build 3 last_byte_sha [(''a'', Regular xs32 False)] memory_store_new = (Inr xs32, example_store)"
proof -
  have "map_of [(''a'', Regular xs32 False)] = upd Map.empty example_changes"
    unfolding example_upd by (simp add: example_map_def)
  then have "xs32 = xs32"
    using apply_is_rebuild [OF last_byte_sha_ok example_empty_snapshot world_empty example_changes_valid _ _
        example_run _ _ _ _ example_build example_put(2)]
    by (simp add: example_changes_def MAX_LEVEL_def)
  then show ?thesis using example_build by blast
qed

section \<open>Reading snapshots\<close>

lemma lookup_snapshot:
  assumes "snapshot sha s root f"
  shows "\<exists>r. lookup sha s root p = Inr r \<and> Option.bind r node_file = f p
    \<and> (Option.bind r node_dir \<noteq> None \<longleftrightarrow> (\<exists>q. f (p @ ''/'' @ q) \<noteq> None))"
proof -
  obtain "is" where "dir_state sha s is (Some root) f" using snapshot_state [OF assms] by blast
  from lookup_names_spec [OF this] obtain r where "lookup sha s root p = Inr r" "tells sha s f p r"
    unfolding lookup_def by blast
  then show ?thesis using holds_None_iff unfolding tells_def sub_nonempty [symmetric] by blast
qed

text \<open>\<open>lookup\<close> finds the file at a path exactly when the map has it, and a directory exactly when the map has a path
  below; it never fails on a snapshot.\<close>

theorem lookup_exact:
  assumes "snapshot sha s root f"
  shows "\<exists>r. lookup sha s root p = Inr r \<and> Option.bind r node_file = f p
    \<and> (Option.bind r node_dir \<noteq> None \<longleftrightarrow> (\<exists>q. f (p @ ''/'' @ q) \<noteq> None))"
  by (rule lookup_snapshot [OF assms])

theorem lookup_exact_witness:
  "\<exists>r. lookup last_byte_sha example_store xs32 ''a'' = Inr r \<and> Option.bind r node_file = Some (Regular xs32 False)"
  using lookup_exact [OF example_snapshot, of "''a''"] by (auto simp: example_map_def)

lemma omap_of_exact: "distinct (map fst ws) \<Longrightarrow> set ws = {(p, e) |p e. f p = Some e} \<Longrightarrow> map_of (omap_of ws) = f"
proof
  fix p assume d: "distinct (map fst ws)" and w: "set ws = {(p, e) |p e. f p = Some e}"
  then have "distinct (map fst (rev ws))" by (simp add: rev_map [symmetric])
  then have "map_of (rev ws) p = Some e \<longleftrightarrow> f p = Some e" for e
    using w by (simp add: map_of_eq_Some_iff)
  then show "map_of (omap_of ws) p = f p" by (cases "f p"; cases "map_of (rev ws) p") (auto simp: map_of_omap_of)
qed

lemma entries_spec:
  assumes "snapshot sha s root f" "world f"
  shows "\<exists>m. tree_entries sha s root = Inr m \<and> omap_ok m \<and> map_of m = f"
proof -
  obtain ws where "walk sha s root [] = Inr ws" "walked [] f ws"
    using walk_snapshot [OF assms(1) world_within [OF assms(2)]] by blast
  then show ?thesis using omap_of_exact [of ws f] by (simp add: tree_entries_def walked_def)
qed

text \<open>\<open>entries\<close> lists a snapshot: its manifest is the map the root stands for.\<close>

theorem entries_exact:
  assumes "snapshot sha s root f" "world f"
  shows "\<exists>m. tree_entries sha s root = Inr m \<and> omap_ok m \<and> map_of m = f"
  by (rule entries_spec [OF assms])

theorem entries_exact_witness:
  "\<exists>m. tree_entries last_byte_sha example_store xs32 = Inr m \<and> map_of m ''a'' = Some (Regular xs32 False)"
  using entries_exact [OF example_snapshot example_world] by (auto simp: example_map_def)

text \<open>C28: Building two manifests, one after the other in one store, reading back gives exactly these manifests, the first one from
  the store after both builds too, and the two roots are equal exactly when the manifests are.\<close>

theorem build_reads_back:
  assumes "hash_ok sha" "world (map_of es)" "world (map_of es')" "omap_ok es" "omap_ok es'"
    "length es < fuel" "length es \<le> 2 ^ MAX_LEVEL" "length es' < fuel'" "length es' \<le> 2 ^ MAX_LEVEL"
    "tree_build fuel sha es s = (Inr a, s1)" "\<not> ms_collided s1" "tree_build fuel' sha es' s1 = (Inr b, s2)" "\<not> ms_collided s2"
  shows "tree_entries sha s1 a = Inr es \<and> tree_entries sha s2 a = Inr es \<and> tree_entries sha s2 b = Inr es' \<and> (a = b \<longleftrightarrow> es = es')"
proof -
  have first: "snapshot sha s1 a (map_of es)"
    using build_spec [OF assms(1) additions_valid [OF assms(2,4)] assms(6,7,10,11)] by (auto simp: declined_def split: if_splits)
  have second: "extends s1 s2" "snapshot sha s2 b (map_of es')"
    using build_spec [OF assms(1) additions_valid [OF assms(3,5)] assms(8,9,12,13)] by (auto simp: declined_def split: if_splits)
  have read: "tree_entries sha t i = Inr m" if "snapshot sha t i (map_of m)" "world (map_of m)" "omap_ok m" for t i m
    using entries_spec [OF that(1,2)] omap_extI that(3) by metis
  have "tree_entries sha s2 a = Inr es" by (rule read [OF snapshot_extends [OF first second(1)] assms(2,4)])
  moreover have "tree_entries sha s2 b = Inr es'" by (rule read [OF second(2) assms(3,5)])
  moreover have "a = b" if "es = es'" using snapshot_fun [OF first] second(2) that by blast
  ultimately show ?thesis using read [OF first assms(2,4)] by auto
qed

lemma example_build_nothing:
  "\<exists>s. tree_build 3 last_byte_sha [] example_store = (Inr example_empty, s) \<and> \<not> ms_collided s"
  by (simp add: tree_build_def apply_dir.simps apply_groups.simps group_changes_def update_dir_def Let_def build_level.simps
      MAX_LEVEL_def tbind_def tread_def tret_def tree_root_def put_chunk_def chunk_encode_def example_empty_def empty_tree_def
      object_hash_def last_byte_sha_def clashes_def store_save_def example_store_def memory_store_new_def example_chunk_def
      item_encode_def char_of_def)

theorem build_reads_back_witness:
  "\<exists>s. tree_build 3 last_byte_sha [] example_store = (Inr example_empty, s) \<and> tree_entries last_byte_sha s xs32 = Inr [(''a'', Regular xs32 False)]
    \<and> tree_entries last_byte_sha s example_empty = Inr [] \<and> xs32 \<noteq> example_empty"
proof -
  obtain s where s: "tree_build 3 last_byte_sha [] example_store = (Inr example_empty, s)" "\<not> ms_collided s" using example_build_nothing by blast
  have "map_of [(''a'', Regular xs32 False)] = example_map" by (simp add: example_map_def)
  then have "world (map_of [(''a'', Regular xs32 False)])" "world (map_of ([] :: manifest))" using example_world world_empty by simp_all
  from build_reads_back [OF last_byte_sha_ok this _ _ _ _ _ _ example_build example_put(2) s]
  show ?thesis using s(1) by (simp add: MAX_LEVEL_def)
qed

text \<open>Applying changes to a snapshot in the tree store changes its manifest as \<open>SparseChanges::apply\<close> does.\<close>

theorem apply_refines_manifest:
  assumes "hash_ok sha" "snapshot sha s root f" "world f" "changes_valid ch"
    "card (dom f) + length ch < fuel" "card (dom f) + length ch \<le> 2 ^ MAX_LEVEL"
    "tree_apply fuel sha root ch s = (Inr root', s')" "\<not> ms_collided s'"
    "tree_entries sha s root = Inr m"
  shows "tree_entries sha s' root' = Inr (changes_apply ch m)"
proof -
  have m: "omap_ok m" "map_of m = f" using entries_spec [OF assms(2,3)] assms(9) by auto
  have "snapshot sha s' root' (upd f ch)"
    using apply_Inr [OF assms(1-8)] by (auto simp: declined_def split: if_splits)
  from entries_spec [OF this world_upd [OF assms(3,4)]]
  obtain n where n: "tree_entries sha s' root' = Inr n" "omap_ok n" "map_of n = upd f ch" by blast
  have ch: "omap_ok ch" using assms(4) by (simp add: changes_valid_def)
  have "map_of n = map_of (changes_apply ch m)"
    by (rule ext) (simp add: n(3) m upd_def map_of_changes_apply [OF ch m(1)] split: option.split)
  then have "n = changes_apply ch m" by (intro omap_extI n(2) changes_apply_ok ch m(1)) simp
  then show ?thesis using n(1) by simp
qed

theorem apply_refines_manifest_witness:
  "tree_entries last_byte_sha example_store xs32 = Inr (changes_apply example_changes [])"
proof (rule apply_refines_manifest [OF last_byte_sha_ok example_empty_snapshot world_empty example_changes_valid _ _
        example_run])
  show "tree_entries last_byte_sha memory_store_new example_empty = Inr []"
    using entries_spec [OF example_empty_snapshot world_empty, of memory_store_new] by auto
qed (simp_all add: example_changes_def MAX_LEVEL_def)

lemma files_under_spec:
  assumes "snapshot sha s root f" "world f"
  shows "\<exists>ps. files_under sha s root d = Inr ps \<and> distinct ps
    \<and> set ps = {p. f p \<noteq> None \<and> (\<exists>q. p = d @ ''/'' @ q)}"
proof -
  obtain "is" where "dir_state sha s is (Some root) f" using snapshot_state [OF assms(1)] by blast
  from lookup_names_spec [OF this] obtain r where r: "lookup sha s root d = Inr r" "tells sha s f d r"
    unfolding lookup_def by blast
  show ?thesis
  proof (cases "Option.bind r node_dir")
    case None
    then have "sub f d = Map.empty" using r(2) by (simp add: tells_def)
    then have "f (d @ ''/'' @ q) = None" for q by (metis sub_nonempty)
    then have "{p. f p \<noteq> None \<and> (\<exists>q. p = d @ ''/'' @ q)} = {}" by auto
    moreover have "files_under sha s root d = Inr []"
      using r(1) None by (auto simp: files_under_def split: option.splits node.splits)
    ultimately show ?thesis by simp
  next
    case (Some i)
    then have dir: "r = Some (Dir i)" by (auto simp: bind_eq_Some_conv elim!: node_dir.elims)
    have "within (d @ ''/'') (sub f d)" using within_sub [OF world_within [OF assms(2)], of d] by simp
    then obtain ws where ws: "walk sha s i (d @ ''/'') = Inr ws" "walked (d @ ''/'') (sub f d) ws"
      using walk_holds r(2) Some unfolding tells_def by metis
    have "fst ` set ws = {p. f p \<noteq> None \<and> (\<exists>q. p = d @ ''/'' @ q)}"
      using ws(2) by (auto simp: walked_def image_def)
    then show ?thesis using r(1) dir ws by (simp add: files_under_def walked_def)
  qed
qed

text \<open>\<open>files_under\<close> lists exactly the files below a directory, each once, and nothing for a file or a missing path.\<close>

theorem files_under_exact:
  assumes "snapshot sha s root f" "world f"
  shows "\<exists>ps. files_under sha s root d = Inr ps \<and> distinct ps
    \<and> set ps = {p. f p \<noteq> None \<and> (\<exists>q. p = d @ ''/'' @ q)}"
  by (rule files_under_spec [OF assms])

theorem files_under_exact_witness: "\<exists>ps. files_under last_byte_sha example_store xs32 ''b'' = Inr ps \<and> ps = []"
proof -
  have "{p. example_map p \<noteq> None \<and> (\<exists>q. p = ''b'' @ ''/'' @ q)} = {}" by (auto simp: example_map_def)
  then show ?thesis using files_under_exact [OF example_snapshot example_world, of "''b''"] by (metis set_empty)
qed

section \<open>Differences\<close>

lemma diff_spec:
  assumes "snapshot sha s a f" "snapshot sha s b g" "world f" "world g"
  shows "\<exists>ch. tree_diff sha s a b = Inr ch \<and> omap_ok ch
    \<and> (\<forall>p. map_of ch p = (if f p = g p then None else Some (g p)))"
proof -
  obtain "is" is' where st: "dir_state sha s is (Some a) f" "dir_state sha s is' (Some b) g"
    using snapshot_state assms(1,2) by metis
  have "dir_diff sha s (Some a) (Some b) []" by (rule diff_both)
  then obtain ds where ds: "diff_dir sha s (Some a) (Some b) [] = Inr ds" "distinct (map fst ds)" "set ds = differ [] f g"
    using st world_within assms(3,4) unfolding dir_diff_def by blast
  have "set ds = {(p, e) |p e. (if f p = g p then None else Some (g p)) = Some e}"
    unfolding ds(3) differ_def by (auto split: if_splits)
  then have m: "map_of (omap_of ds) = (\<lambda>p. if f p = g p then None else Some (g p))"
    by (rule omap_of_exact [OF ds(2)])
  have "tree_diff sha s a b = Inr (omap_of ds)"
    using ds(1) by (simp add: tree_diff_def changes_new_def collect_unique_omap)
  then show ?thesis using m by simp
qed

text \<open>C31: \<open>diff\<close> of two snapshots is exactly the set of paths whose entries differ, each with its entry after.\<close>

theorem diff_exact:
  assumes "snapshot sha s a f" "snapshot sha s b g" "world f" "world g"
  shows "\<exists>ch. tree_diff sha s a b = Inr ch \<and> omap_ok ch
    \<and> (\<forall>p. map_of ch p = (if f p = g p then None else Some (g p)))"
  by (rule diff_spec [OF assms])

theorem diff_exact_witness:
  "\<exists>ch. tree_diff last_byte_sha example_store example_empty xs32 = Inr ch \<and> map_of ch ''a'' = Some (Some (Regular xs32 False))"
  using diff_exact [OF example_empty_snapshot example_snapshot world_empty example_world] by (auto simp: example_map_def)

lemma diff_valid:
  assumes "world f" "world g" "omap_ok ch" "\<And>p. map_of ch p = (if f p = g p then None else Some (g p))"
  shows "changes_valid ch" "upd f ch = g"
proof -
  have "path_valid p \<and> (\<forall>x. e = Some x \<longrightarrow> oid_ok (entry_content x))" if "(p, e) \<in> set ch" for p e
  proof -
    have "map_of ch p = Some e" using map_of_is_SomeI [OF omap_okD_distinct [OF assms(3)]] that by blast
    then have e: "e = g p" "f p \<noteq> g p" using assms(4) by (auto split: if_splits)
    then obtain x where "f p = Some x \<or> g p = Some x" by (cases "f p"; cases "g p") auto
    then show ?thesis using assms(1,2) e by (auto simp: world_def)
  qed
  then show "changes_valid ch" using assms(3) by (auto simp: changes_valid_def)
  show "upd f ch = g" by (rule ext) (simp add: upd_def assms(4))
qed

lemma snapshot_disjoint: "snapshot sha s root f \<Longrightarrow> f p \<noteq> None \<Longrightarrow> f (p @ ''/'' @ q) = None"
  unfolding snapshot_def using holds_disjoint by fastforce

lemma diff_not_refused:
  assumes "snapshot sha s a f" "snapshot sha s b g" "world f" "world g" "omap_ok ch"
    "\<And>p. map_of ch p = (if f p = g p then None else Some (g p))"
  shows "\<not> refused f ch"
proof -
  have "upd f ch = g" by (rule diff_valid(2) [OF assms(3-6)])
  then show ?thesis
    using snapshot_disjoint [OF assms(2)] unfolding refused_def by (auto simp: assms(6) split: if_splits)
qed

text \<open>C29: Applying the diff of two snapshots to the first gives the root of the second.\<close>

theorem diff_apply:
  assumes "hash_ok sha" "snapshot sha s a f" "snapshot sha s b g" "world f" "world g"
    "tree_diff sha s a b = Inr ch" "card (dom f) + length ch < fuel" "card (dom f) + length ch \<le> 2 ^ MAX_LEVEL"
    "tree_apply fuel sha a ch s = (r, s')" "\<not> ms_collided s'"
  shows "r = Inr b"
proof -
  have ch: "omap_ok ch" "map_of ch p = (if f p = g p then None else Some (g p))" for p
    using diff_spec [OF assms(2-5)] assms(6) by auto
  note valid = diff_valid [OF assms(4,5) ch]
  from apply_Inr [OF assms(1,2,4) valid(1) assms(7-10)]
  obtain root where "r = Inr root" "snapshot sha s' root g"
    using diff_not_refused [OF assms(2-5) ch] valid(2) by auto
  then show ?thesis using snapshot_fun assms(3) by metis
qed

theorem diff_apply_witness:
  "\<exists>ch s. tree_diff last_byte_sha example_store example_empty xs32 = Inr ch
     \<and> tree_apply 3 last_byte_sha example_empty ch example_store = (Inr xs32, s)"
proof -
  obtain ch where ch: "tree_diff last_byte_sha example_store example_empty xs32 = Inr ch" "omap_ok ch"
      "\<forall>p. map_of ch p = (if example_map p = None then None else Some (example_map p))"
    using diff_spec [OF example_empty_snapshot example_snapshot world_empty example_world] by (metis (no_types))
  have "ch = example_changes"
    by (rule omap_extI [OF ch(2)]) (auto simp: ch(3) example_changes_def example_map_def)
  then obtain s where run: "tree_apply 3 last_byte_sha example_empty ch example_store = (Inr xs32, s)" "\<not> ms_collided s"
    using example_put(3) example_apply by blast
  then have "Inr xs32 = (Inr xs32 :: error + object_id)"
    using diff_apply [OF last_byte_sha_ok example_empty_snapshot example_snapshot world_empty example_world ch(1) _ _ run]
    by simp
  then show ?thesis using ch(1) run by blast
qed

end
