(* ===== verification/Normalize.thy ===== *)
theory Normalize
  imports Worlds
begin

text \<open>
  Normalization of a changeset against a World (\<open>normalize\<close> of \<open>src/domain.rs\<close>): the reads it needs are the
  trait \<open>WorldIndex\<close>, here a record of functions at one version; the locale \<open>world_reads\<close> states what they promise,
  and the index over derived trees (\<open>src/repository.rs\<close>) keeps it.
\<close>

section \<open>Point reads of one World version\<close>

record world_index =
  wi_entry_at :: "string \<Rightarrow> error + file_entry option"
  wi_is_dir :: "string \<Rightarrow> error + bool"
  wi_files_under :: "string \<Rightarrow> error + string list"
  wi_check_entry :: "file_entry \<Rightarrow> error + unit"

section \<open>The operation\<close>

text \<open>\<open>range(start..end).any(|(_, e)| e.is_some())\<close>.\<close>

definition adds_below :: "changes \<Rightarrow> string \<Rightarrow> bool" where
  "adds_below changes path =
     (case descendant_range path of (start, end') \<Rightarrow>
       list_ex (\<lambda>(p, e). start \<le> p \<and> p < end' \<and> e \<noteq> None) changes)"

definition ambiguous_tombstone :: error where
  "ambiguous_tombstone = InvalidInput ''directory-prefix tombstone is ambiguous; delete exact entries''"

definition collide_error :: error where
  "collide_error = InvalidInput ''file and descendant paths collide''"

text \<open>The first loop, which collects the delta.\<close>

definition check_tombstone :: "world_index \<Rightarrow> changes \<Rightarrow> string \<Rightarrow> file_entry option \<Rightarrow> file_entry option \<Rightarrow> error + unit" where
  "check_tombstone index changes path before after =
     (if after = None \<and> before = None then
        ebind (if adds_below changes path then Inr True else wi_is_dir index path) (\<lambda>refuse.
          guard (\<not> refuse) ambiguous_tombstone)
      else Inr ())"

fun delta_loop :: "world_index \<Rightarrow> changes \<Rightarrow> changes \<Rightarrow> changes \<Rightarrow> error + changes" where
  "delta_loop index changes [] delta = Inr delta"
| "delta_loop index changes ((path, after) # rest) delta =
     ebind (case after of Some entry \<Rightarrow> wi_check_entry index entry | None \<Rightarrow> Inr ()) (\<lambda>_.
     ebind (wi_entry_at index path) (\<lambda>before.
     ebind (check_tombstone index changes path before after) (\<lambda>_.
     delta_loop index changes rest (if before = after then delta else omap_insert path after delta))))"

definition live_after :: "world_index \<Rightarrow> changes \<Rightarrow> string \<Rightarrow> error + bool" where
  "live_after index delta path =
     (case map_of delta path of
       Some after \<Rightarrow> Inr (after \<noteq> None)
     | None \<Rightarrow> ebind (wi_entry_at index path) (\<lambda>entry. Inr (entry \<noteq> None)))"

fun check_ancestors :: "world_index \<Rightarrow> changes \<Rightarrow> string list \<Rightarrow> error + unit" where
  "check_ancestors index delta [] = Inr ()"
| "check_ancestors index delta (a # as) =
     ebind (live_after index delta a) (\<lambda>live.
       if live then Inl collide_error else check_ancestors index delta as)"

text \<open>The second loop, which refuses a file above or below another.\<close>

definition check_children :: "world_index \<Rightarrow> changes \<Rightarrow> string \<Rightarrow> error + unit" where
  "check_children index delta path =
     ebind (wi_is_dir index path) (\<lambda>dir.
       if dir then
         ebind (wi_files_under index path) (\<lambda>children.
           guard (list_all (\<lambda>child. omap_has delta child) children) collide_error)
       else Inr ())"

fun check_delta :: "world_index \<Rightarrow> changes \<Rightarrow> changes \<Rightarrow> error + unit" where
  "check_delta index delta [] = Inr ()"
| "check_delta index delta ((path, after) # rest) =
     ebind (if after = None then Inr ()
            else
              ebind (check_ancestors index delta (ancestors path)) (\<lambda>_.
              if adds_below delta path then Inl collide_error else check_children index delta path)) (\<lambda>_.
     check_delta index delta rest)"

definition normalize :: "world_index \<Rightarrow> changes \<Rightarrow> error + changes" where
  "normalize index changes =
     ebind (delta_loop index changes changes []) (\<lambda>delta.
     ebind (check_delta index delta delta) (\<lambda>_. Inr delta))"

section \<open>What it decides\<close>

definition disjoint_paths :: "file_entry paths \<Rightarrow> bool" where
  "disjoint_paths f \<longleftrightarrow> (\<forall>p q. below p q \<longrightarrow> f p = None \<or> f q = None)"

text \<open>A tombstone of a missing file that names a directory, before or after.\<close>

definition ambiguous :: "file_entry paths \<Rightarrow> changes \<Rightarrow> bool" where
  "ambiguous f ch \<longleftrightarrow> (\<exists>p q. (p, None) \<in> set ch \<and> f p = None \<and> below p q \<and> (f q \<noteq> None \<or> (\<exists>e. (q, Some e) \<in> set ch)))"

lemma adds_below_iff: "adds_below ch p \<longleftrightarrow> (\<exists>q e. below p q \<and> (q, Some e) \<in> set ch)"
proof -
  have "adds_below ch p \<longleftrightarrow> (\<exists>q e. (q, e) \<in> set ch \<and> (p @ ''/'' \<le> q \<and> q < p @ ''0'') \<and> e \<noteq> None)"
    by (fastforce simp: adds_below_def descendant_range_def list_ex_iff)
  then show ?thesis unfolding lex_descendants by auto
qed

lemma guard_cases: "guard b e = (if b then Inr () else Inl e)"
  by (simp add: guard_def)

locale world_reads =
  fixes index :: "'w \<Rightarrow> world_index" and content :: "'w \<Rightarrow> file_entry paths" and ok :: "'w \<Rightarrow> bool"
  assumes entry_at: "ok w \<Longrightarrow> wi_entry_at (index w) p = Inr (content w p)"
    and is_dir: "ok w \<Longrightarrow> wi_is_dir (index w) p = Inr (\<exists>q. below p q \<and> content w q \<noteq> None)"
    and files_under: "ok w \<Longrightarrow> \<exists>ps. wi_files_under (index w) p = Inr ps \<and> set ps = {q. below p q \<and> content w q \<noteq> None}"
    and disjoint: "ok w \<Longrightarrow> disjoint_paths (content w)"
begin

lemma check_tombstone_spec:
  assumes "ok w"
  shows "check_tombstone (index w) ch p (content w p) after =
    (if after = None \<and> content w p = None \<and> (\<exists>q. below p q \<and> (content w q \<noteq> None \<or> (\<exists>e. (q, Some e) \<in> set ch)))
     then Inl ambiguous_tombstone else Inr ())"
  using assms by (auto simp: check_tombstone_def is_dir adds_below_iff guard_cases)

lemma delta_loop_spec:
  assumes "ok w" "omap_ok xs" "omap_ok delta" "\<forall>p \<in> fst ` set delta. \<forall>q \<in> fst ` set xs. p < q"
  shows "case delta_loop (index w) ch xs delta of
      Inr d \<Rightarrow> d = delta @ filter (\<lambda>(p, e). content w p \<noteq> e) xs
        \<and> (\<forall>(p, e) \<in> set xs. check_tombstone (index w) ch p (content w p) e = Inr ()
             \<and> (\<forall>x. e = Some x \<longrightarrow> wi_check_entry (index w) x = Inr ()))
    | Inl e \<Rightarrow> (\<exists>p x. (p, Some x) \<in> set xs \<and> wi_check_entry (index w) x = Inl e)
        \<or> e = ambiguous_tombstone \<and> (\<exists>p x. (p, x) \<in> set xs \<and> check_tombstone (index w) ch p (content w p) x \<noteq> Inr ())"
  using assms(2-)
proof (induction xs arbitrary: delta)
  case Nil
  then show ?case by simp
next
  case (Cons c xs)
  obtain p e where c: "c = (p, e)" by force
  let ?d = "if content w p = e then delta else omap_insert p e delta"
  have last: "omap_insert p e delta = delta @ [(p, e)]" if "\<forall>q \<in> fst ` set delta. q < p"
    using that by (induction delta) auto
  have keys: "fst ` set ?d \<subseteq> insert p (fst ` set delta)" by (simp add: subset_insertI)
  have ok': "omap_ok ?d" "\<forall>p' \<in> fst ` set ?d. \<forall>q \<in> fst ` set xs. p' < q"
  proof -
    show "omap_ok ?d" using Cons.prems(2) by simp
    have "\<forall>p' \<in> insert p (fst ` set delta). \<forall>q \<in> fst ` set xs. p' < q" using Cons.prems(1,3) c by auto
    then show "\<forall>p' \<in> fst ` set ?d. \<forall>q \<in> fst ` set xs. p' < q" using keys by (meson subsetD)
  qed
  have d: "?d = delta @ (if content w p \<noteq> e then [(p, e)] else [])" using last Cons.prems c by auto
  have check: "check_tombstone (index w) ch p (content w p) e \<noteq> Inr () \<Longrightarrow>
      check_tombstone (index w) ch p (content w p) e = Inl ambiguous_tombstone"
    unfolding check_tombstone_spec [OF assms(1)] by (auto split: if_splits)
  show ?case
  proof (cases "(case e of Some entry \<Rightarrow> wi_check_entry (index w) entry | None \<Rightarrow> Inr ())")
    case (Inl er)
    then show ?thesis using c by (cases e) auto
  next
    case (Inr u)
    show ?thesis
    proof (cases "check_tombstone (index w) ch p (content w p) e = Inr ()")
      case False
      have run: "delta_loop (index w) ch (c # xs) delta = Inl ambiguous_tombstone"
        using Inr c check [OF False] by (simp add: entry_at [OF assms(1)])
      have "(p, e) \<in> set (c # xs)" using c by simp
      then show ?thesis unfolding run sum.case using False by blast
    next
      case True
      have run: "delta_loop (index w) ch (c # xs) delta = delta_loop (index w) ch xs ?d"
        using c Inr True by (simp add: entry_at [OF assms(1)])
      have e: "\<forall>x. e = Some x \<longrightarrow> wi_check_entry (index w) x = Inr ()" using Inr by (cases e) auto
      have "omap_ok xs" using Cons.prems(1) c by simp
      note IH = Cons.IH [OF this ok']
      show ?thesis
      proof (cases "delta_loop (index w) ch xs ?d")
        case (Inl er)
        have "set xs \<subseteq> set (c # xs)" by auto
        then show ?thesis using IH unfolding run Inl sum.case by blast
      next
        case (Inr d')
        then show ?thesis using IH c True e unfolding run Inr sum.case d by auto
      qed
    qed
  qed
qed

lemma live_after_spec: "ok w \<Longrightarrow> live_after (index w) delta p = Inr (upd (content w) delta p \<noteq> None)"
  by (simp add: live_after_def entry_at upd_def split: option.split)

lemma check_ancestors_spec:
  "ok w \<Longrightarrow> check_ancestors (index w) delta as =
     (if \<exists>a \<in> set as. upd (content w) delta a \<noteq> None then Inl collide_error else Inr ())"
  by (induction as) (auto simp: live_after_spec)

lemma check_children_spec:
  assumes "ok w"
  shows "check_children (index w) delta p =
    (if \<exists>q. below p q \<and> content w q \<noteq> None \<and> q \<notin> fst ` set delta then Inl collide_error else Inr ())"
proof -
  obtain ps where "wi_files_under (index w) p = Inr ps" "set ps = {q. below p q \<and> content w q \<noteq> None}"
    using files_under [OF assms] by blast
  then show ?thesis
    by (auto simp: check_children_def is_dir [OF assms] guard_cases list_all_iff omap_has_iff)
qed

definition bad :: "'w \<Rightarrow> changes \<Rightarrow> string \<Rightarrow> bool" where
  "bad w delta p \<longleftrightarrow> (\<exists>a. below a p \<and> upd (content w) delta a \<noteq> None)
     \<or> (\<exists>q e. below p q \<and> (q, Some e) \<in> set delta)
     \<or> (\<exists>q. below p q \<and> content w q \<noteq> None \<and> q \<notin> fst ` set delta)"

lemma check_delta_spec:
  assumes "ok w"
  shows "check_delta (index w) delta xs = (if \<exists>p e. (p, Some e) \<in> set xs \<and> bad w delta p then Inl collide_error else Inr ())"
proof (induction xs)
  case (Cons c xs)
  obtain p e where c: "c = (p, e)" by force
  show ?case
  proof (cases e)
    case None
    then show ?thesis using Cons c by auto
  next
    case (Some x)
    have "ebind (check_ancestors (index w) delta (ancestors p)) (\<lambda>_.
        if adds_below delta p then Inl collide_error else check_children (index w) delta p)
      = (if bad w delta p then Inl collide_error else Inr ())"
      by (auto simp: check_ancestors_spec [OF assms] check_children_spec [OF assms] set_ancestors adds_below_iff bad_def)
    then show ?thesis using Cons c Some by auto
  qed
qed simp

lemma bad_iff:
  assumes "ok w" "omap_ok delta"
  shows "(\<exists>p e. (p, Some e) \<in> set delta \<and> bad w delta p) \<longleftrightarrow> \<not> disjoint_paths (upd (content w) delta)"
proof -
  have mem: "(p, e) \<in> set delta \<longleftrightarrow> map_of delta p = Some e" for p e by (simp add: omap_map_of_iff [OF assms(2)])
  have key: "p \<notin> fst ` set delta \<longleftrightarrow> map_of delta p = None" for p by (simp add: map_of_eq_None_iff)
  let ?g = "upd (content w) delta"
  show ?thesis
  proof
    assume "\<exists>p e. (p, Some e) \<in> set delta \<and> bad w delta p"
    then obtain p e where p: "map_of delta p = Some (Some e)" "bad w delta p" unfolding mem by blast
    then have g: "?g p \<noteq> None" by (simp add: upd_def)
    from p(2) consider a where "below a p" "?g a \<noteq> None" | q where "below p q" "?g q \<noteq> None"
      unfolding bad_def mem key by (auto simp: upd_def)
    then show "\<not> disjoint_paths ?g" using g unfolding disjoint_paths_def by cases metis+
  next
    assume "\<not> disjoint_paths ?g"
    then obtain p q where h: "below p q" "?g p \<noteq> None" "?g q \<noteq> None" unfolding disjoint_paths_def by blast
    have f: "content w p = None \<or> content w q = None" using disjoint [OF assms(1)] h(1) unfolding disjoint_paths_def by metis
    show "\<exists>p e. (p, Some e) \<in> set delta \<and> bad w delta p"
    proof (cases "map_of delta p")
      case None
      then have "content w p \<noteq> None" using h(2) by (simp add: upd_def)
      then obtain e where "map_of delta q = Some (Some e)"
        using f h(3) by (cases "map_of delta q") (auto simp: upd_def)
      moreover have "bad w delta q" unfolding bad_def using h by blast
      ultimately show ?thesis unfolding mem by blast
    next
      case (Some e)
      then obtain x where x: "map_of delta p = Some (Some x)" using h(2) by (auto simp: upd_def)
      have "bad w delta p"
      proof (cases "map_of delta q")
        case None
        then show ?thesis unfolding bad_def key using h by (auto simp: upd_def)
      next
        case (Some y)
        then show ?thesis unfolding bad_def mem using h by (auto simp: upd_def)
      qed
      then show ?thesis using x unfolding mem by blast
    qed
  qed
qed

definition changed :: "'w \<Rightarrow> changes \<Rightarrow> changes" where
  "changed w ch = filter (\<lambda>(p, e). content w p \<noteq> e) ch"

lemma changed_ok: "omap_ok ch \<Longrightarrow> omap_ok (changed w ch)"
  unfolding changed_def by (rule omap_filter_ok)

lemma changed_upd:
  assumes "omap_ok ch"
  shows "upd (content w) (changed w ch) = upd (content w) ch"
proof
  fix p
  have "map_of (changed w ch) p = Some e \<longleftrightarrow> map_of ch p = Some e \<and> content w p \<noteq> e" for e
    using omap_map_of_iff [OF assms, of p e] omap_map_of_iff [OF changed_ok [OF assms], of w p e]
    by (auto simp: changed_def)
  then show "upd (content w) (changed w ch) p = upd (content w) ch p"
    by (cases "map_of ch p"; cases "map_of (changed w ch) p") (auto simp: upd_def)
qed

lemma tombstones:
  assumes "ok w" "omap_ok ch"
  shows "(\<exists>p x. (p, x) \<in> set ch \<and> check_tombstone (index w) ch p (content w p) x \<noteq> Inr ()) \<longleftrightarrow> ambiguous (content w) ch"
  unfolding check_tombstone_spec [OF assms(1)] ambiguous_def by (auto split: if_splits)

lemma normalize_spec:
  assumes "ok w" "omap_ok ch"
  shows "case normalize (index w) ch of
      Inr d \<Rightarrow> d = changed w ch \<and> (\<forall>p x. (p, Some x) \<in> set ch \<longrightarrow> wi_check_entry (index w) x = Inr ())
        \<and> \<not> ambiguous (content w) ch \<and> disjoint_paths (upd (content w) ch)
    | Inl e \<Rightarrow> (\<exists>p x. (p, Some x) \<in> set ch \<and> wi_check_entry (index w) x = Inl e)
        \<or> e = ambiguous_tombstone \<and> ambiguous (content w) ch
        \<or> e = collide_error \<and> \<not> disjoint_paths (upd (content w) ch)"
proof (cases "delta_loop (index w) ch ch []")
  case (Inl e)
  moreover have "(\<exists>p x. (p, Some x) \<in> set ch \<and> wi_check_entry (index w) x = Inl e) \<or> e = ambiguous_tombstone \<and> ambiguous (content w) ch"
    using delta_loop_spec [OF assms, of "[]" ch] tombstones [OF assms] Inl by simp
  ultimately show ?thesis unfolding normalize_def by (simp only: ebind.simps sum.case) metis
next
  case (Inr d)
  have d: "d = changed w ch"
      "\<forall>(p, e) \<in> set ch. check_tombstone (index w) ch p (content w p) e = Inr () \<and> (\<forall>x. e = Some x \<longrightarrow> wi_check_entry (index w) x = Inr ())"
    using delta_loop_spec [OF assms, of "[]" ch] Inr by (simp_all add: changed_def)
  have amb: "\<not> ambiguous (content w) ch" using d(2) tombstones [OF assms] by blast
  have "check_delta (index w) d d = (if disjoint_paths (upd (content w) ch) then Inr () else Inl collide_error)"
    using bad_iff [OF assms(1) changed_ok [OF assms(2), of w]]
    unfolding check_delta_spec [OF assms(1)] d(1) changed_upd [OF assms(2)] by (simp only: if_split) metis
  then show ?thesis using Inr d amb by (auto simp: normalize_def)
qed

lemma normalize_iff:
  assumes "ok w" "omap_ok ch"
  shows "normalize (index w) ch = Inr d \<longleftrightarrow>
    d = changed w ch \<and> (\<forall>p x. (p, Some x) \<in> set ch \<longrightarrow> wi_check_entry (index w) x = Inr ())
    \<and> \<not> ambiguous (content w) ch \<and> disjoint_paths (upd (content w) ch)"
  using normalize_spec [OF assms] by (cases "normalize (index w) ch") auto

end

section \<open>Reads through derived trees\<close>

definition trees_index ::
  "(bytes \<Rightarrow> bytes) \<Rightarrow> memory_store \<Rightarrow> object_id \<Rightarrow> (file_entry \<Rightarrow> error + unit) \<Rightarrow> world_index" where
  "trees_index sha s root check =
     \<lparr>wi_entry_at = (\<lambda>path. ebind (Trees.lookup sha s root path) (\<lambda>r.
        Inr (case r of Some (File entry) \<Rightarrow> Some entry | _ \<Rightarrow> None))),
      wi_is_dir = (\<lambda>path. ebind (Trees.lookup sha s root path) (\<lambda>r.
        Inr (case r of Some (Dir _) \<Rightarrow> True | _ \<Rightarrow> False))),
      wi_files_under = (\<lambda>dir. Trees.files_under sha s root dir),
      wi_check_entry = check\<rparr>"

interpretation trees: world_reads
  "\<lambda>(sha, s, root, check, f). trees_index sha s root check" "\<lambda>(_, _, _, _, f). f"
  "\<lambda>(sha, s, root, check, f). snapshot sha s root f \<and> world f"
proof (unfold_locales, goal_cases)
  case (1 w p)
  then obtain sha s root check f where w: "w = (sha, s, root, check, f)" "snapshot sha s root f" by (cases w) auto
  from lookup_snapshot [OF w(2), of p] show ?case
    by (auto simp: w(1) trees_index_def split: option.split node.split)
next
  case (2 w p)
  then obtain sha s root check f where w: "w = (sha, s, root, check, f)" "snapshot sha s root f" by (cases w) auto
  have "(\<exists>q. below p q \<and> f q \<noteq> None) \<longleftrightarrow> (\<exists>r. f (p @ ''/'' @ r) \<noteq> None)" by (auto simp: below_iff)
  moreover obtain r where r: "Trees.lookup sha s root p = Inr r"
      "Option.bind r node_dir \<noteq> None \<longleftrightarrow> (\<exists>q. f (p @ ''/'' @ q) \<noteq> None)"
    using lookup_snapshot [OF w(2)] by blast
  moreover have "(case r of Some (Dir _) \<Rightarrow> True | _ \<Rightarrow> False) \<longleftrightarrow> Option.bind r node_dir \<noteq> None"
    by (simp split: option.split node.split)
  ultimately show ?case by (simp only: w(1) trees_index_def split_conv world_index.simps ebind.simps)
next
  case (3 w p)
  then obtain sha s root check f where w: "w = (sha, s, root, check, f)" "snapshot sha s root f" "world f" by (cases w) auto
  from files_under_spec [OF w(2,3), of p] show ?case
    by (auto simp: w(1) trees_index_def below_iff)
next
  case (4 w)
  then obtain sha s root check f where w: "w = (sha, s, root, check, f)" "snapshot sha s root f" by (cases w) auto
  have "f p = None \<or> f (p @ ''/'' @ q) = None" for p q using snapshot_disjoint [OF w(2)] by metis
  then show ?case unfolding w(1) split_conv disjoint_paths_def below_iff by metis
qed

lemma trees_changed: "trees.changed (sha, s, root, check, f) ch = filter (\<lambda>(p, e). f p \<noteq> e) ch"
  by (simp add: trees.changed_def)

text \<open>C21: Normalizing a changeset against a World accepts it exactly when every new entry is valid, no tombstone is
  ambiguous and the files of the changed World lie beside each other; the result is the changeset without its no-ops.\<close>

theorem normalize_exact:
  assumes "snapshot sha s root f" "world f" "omap_ok ch"
  shows "normalize (trees_index sha s root check) ch = Inr d \<longleftrightarrow>
    d = filter (\<lambda>(p, e). f p \<noteq> e) ch \<and> (\<forall>p x. (p, Some x) \<in> set ch \<longrightarrow> check x = Inr ())
    \<and> \<not> ambiguous f ch \<and> disjoint_paths (upd f ch)"
  using trees.normalize_iff [of "(sha, s, root, check, f)" ch d] assms
  by (simp add: trees_changed trees_index_def)

theorem normalize_exact_witness:
  "normalize (trees_index last_byte_sha example_store xs32 (\<lambda>_. Inr ())) [(''a'', None), (''b'', None)] = Inr [(''a'', None)]"
proof -
  let ?ch = "[(''a'', None), (''b'', None)] :: changes"
  have "omap_ok ?ch" by simp
  moreover have "\<not> ambiguous example_map ?ch" by (auto simp: ambiguous_def example_map_def below_iff split: if_splits)
  moreover have "upd example_map ?ch = Map.empty" by (rule ext) (simp add: upd_def example_map_def)
  moreover have "filter (\<lambda>(p, e). example_map p \<noteq> e) ?ch = [(''a'', None)]" by (simp add: example_map_def)
  ultimately show ?thesis
    using normalize_exact [OF example_snapshot example_world, of ?ch] by (simp add: disjoint_paths_def)
qed

text \<open>A normalized changeset always applies: when \<open>normalize\<close> accepts changes against a World, \<open>apply\<close> of the
  result returns the root of the changed map, and is never refused.\<close>

theorem normalized_applies:
  assumes "hash_ok sha" "snapshot sha s root f" "world f" "changes_valid ch"
    "normalize (trees_index sha s root check) ch = Inr d"
    "card (dom f) + length ch < fuel" "card (dom f) + length ch \<le> 2 ^ MAX_LEVEL"
    "tree_apply fuel sha root d s = (r, s')" "\<not> ms_collided s'"
  shows "\<exists>root'. r = Inr root' \<and> snapshot sha s' root' (upd f ch)"
proof -
  let ?w = "(sha, s, root, check, f)"
  have ch: "omap_ok ch" using assms(4) by (simp add: changes_valid_def)
  have n: "d = trees.changed ?w ch" "disjoint_paths (upd f ch)"
    using trees.normalize_iff [of ?w ch d] assms(2,3,5) ch by simp_all
  have u: "upd f d = upd f ch" using trees.changed_upd [OF ch, of ?w] n(1) by simp
  have d: "omap_ok d" using trees.changed_ok [OF ch] n(1) by simp
  have mem: "set d \<subseteq> set ch" "\<forall>(p, e) \<in> set d. f p \<noteq> e" unfolding n(1) trees_changed by auto
  have valid: "changes_valid d" using assms(4) d mem(1) unfolding changes_valid_def by blast
  have len: "length d \<le> length ch" unfolding n(1) trees_changed by simp
  have "map_of d p = Some None \<Longrightarrow> f p \<noteq> None" for p
    using mem(2) omap_map_of_iff [OF d, of p None] by fastforce
  moreover have "upd f ch p = None \<or> upd f ch (p @ ''/'' @ q) = None" for p q
    using n(2) unfolding disjoint_paths_def below_iff by metis
  ultimately have "\<not> refused f d" unfolding refused_def u by metis
  moreover have "card (dom f) + length d < fuel" "card (dom f) + length d \<le> 2 ^ MAX_LEVEL" using len assms(6,7) by simp_all
  ultimately show ?thesis using apply_Inr [OF assms(1-3) valid _ _ assms(8,9)] u by simp
qed

theorem normalized_applies_witness: "snapshot last_byte_sha example_store xs32 (upd Map.empty example_changes)"
proof -
  have "example_changes = filter (\<lambda>(p, e). Map.empty p \<noteq> e) example_changes" by (simp add: example_changes_def)
  moreover have "\<not> ambiguous Map.empty example_changes" by (simp add: ambiguous_def example_changes_def)
  moreover have "disjoint_paths (upd Map.empty example_changes)"
    by (auto simp: example_upd disjoint_paths_def example_map_def below_iff)
  moreover have "omap_ok example_changes" using example_changes_valid by (simp add: changes_valid_def)
  ultimately have "normalize (trees_index last_byte_sha memory_store_new example_empty (\<lambda>_. Inr ())) example_changes = Inr example_changes"
    using trees.normalize_iff [of "(last_byte_sha, memory_store_new, example_empty, \<lambda>_. Inr (), Map.empty)"]
    by (simp add: example_empty_snapshot world_empty trees_changed trees_index_def)
  from normalized_applies [OF last_byte_sha_ok example_empty_snapshot world_empty example_changes_valid this _ _ example_run]
  show ?thesis by (simp add: example_changes_def MAX_LEVEL_def)
qed

end
