(* ===== verification/Tables.thy ===== *)
theory Tables
  imports Normalize
begin

text \<open>
  The tables of a repository database (the \<open>SCHEMA\<close> texts of \<open>src/repository.rs\<close>, \<open>layer.rs\<close>, \<open>publish.rs\<close>,
  \<open>stack.rs\<close>, \<open>radar.rs\<close> and \<open>blame.rs\<close>) and the transactions over them. A table is the list of its rows in
  insertion order. Integer columns keep their \<open>i64\<close> values, which the code decodes; object IDs, operation
  IDs, Layer IDs and paths are stored as the text that \<open>parse\<close> reads back, and are kept here as the value
  they parse to. Primary keys and \<open>UNIQUE\<close> refuse an insertion; foreign keys are not checked on insertion,
  the invariants of the later theories imply them. A transaction either returns its result with the new
  tables or an error, which rolls the tables back.
\<close>

section \<open>Rows\<close>

record object_row =
  or_id :: object_id
  or_kind :: int
  or_bytes :: bytes

record attempt_row =
  ar_id :: string
  ar_expected :: int
  ar_tree :: "object_id option"
  ar_accepted :: int
  ar_result :: int

record version_row =
  vr_number :: int
  vr_id :: object_id
  vr_tree :: object_id
  vr_operation :: "string option"

record change_row =
  cr_version :: int
  cr_path :: string
  cr_kind :: "int option"
  cr_content :: "object_id option"

record head_row =
  hr_layer :: string
  hr_revision :: int
  hr_checkpoint :: object_id
  hr_discarded :: int
  hr_operation :: "string option"

record layer_attempt_row =
  la_id :: string
  la_layer :: string
  la_expected :: int
  la_checkpoint :: object_id
  la_discard :: int
  la_stack :: int
  la_accepted :: int
  la_result :: int

record publication_row =
  pu_id :: string
  pu_layer :: string
  pu_expected :: int
  pu_checkpoint :: object_id
  pu_against :: int
  pu_observed :: int
  pu_observed_publication :: "string option"
  pu_attribution :: int
  pu_context :: "object_id option"
  pu_allow_missing_trace :: int
  pu_outcome :: int
  pu_result :: "int option"
  pu_world_operation :: "string option"
  pu_receipt :: object_id

record stack_row =
  sr_id :: string
  sr_source :: object_id
  sr_binding :: object_id

record path_row =
  pr_path :: string
  pr_layer :: string
  pr_kind :: "int option"
  pr_content :: "object_id option"
  pr_checkpoint :: object_id
  pr_provenance :: "object_id option"

record blame_row =
  br_path :: string
  br_version :: int
  br_checkpoint :: object_id
  br_provenance :: "object_id option"

record db =
  db_format :: int
  db_application :: int
  db_objects :: "object_row list"
  db_attempts :: "attempt_row list"
  db_versions :: "version_row list"
  db_changes :: "change_row list"
  db_identity :: "(int \<times> object_id) list"
  db_heads :: "head_row list"
  db_layer_attempts :: "layer_attempt_row list"
  db_publications :: "publication_row list"
  db_stacks :: "stack_row list"
  db_paths :: "path_row list"
  db_blame :: "blame_row list"

section \<open>Transactions\<close>

type_synonym 'a tx = "db \<Rightarrow> error + 'a \<times> db"

definition tx_ret :: "'a \<Rightarrow> 'a tx" where
  "tx_ret x d = Inr (x, d)"

definition tx_fail :: "error \<Rightarrow> 'a tx" where
  "tx_fail e d = Inl e"

definition tx_bind :: "'a tx \<Rightarrow> ('a \<Rightarrow> 'b tx) \<Rightarrow> 'b tx" where
  "tx_bind m f d = ebind (m d) (\<lambda>(x, d). f x d)"

definition tx_read :: "(db \<Rightarrow> error + 'a) \<Rightarrow> 'a tx" where
  "tx_read r d = ebind (r d) (\<lambda>x. Inr (x, d))"

text \<open>A loop of effects.\<close>

fun tx_each :: "('a \<Rightarrow> unit tx) \<Rightarrow> 'a list \<Rightarrow> unit tx" where
  "tx_each f [] = tx_ret ()"
| "tx_each f (x # xs) = tx_bind (f x) (\<lambda>_. tx_each f xs)"

text \<open>An insertion that a unique key can refuse.\<close>

definition insert_unique :: "('r \<Rightarrow> 'k) \<Rightarrow> 'r \<Rightarrow> 'r list \<Rightarrow> error + 'r list" where
  "insert_unique key row rows =
     (if key row \<in> set (map key rows) then Inl (Storage ''UNIQUE constraint failed'') else Inr (rows @ [row]))"

definition find_row :: "('r \<Rightarrow> bool) \<Rightarrow> 'r list \<Rightarrow> 'r option" where
  "find_row P rows = find P rows"

section \<open>The environment\<close>

text \<open>
  SHA-256 and the JSON encoders and decoders of values that are stored or hashed, as parameters. \<open>en_fuel\<close>
  bounds the loops over a possibly damaged store; any value above the number of paths and changes is enough.
\<close>

record env =
  en_sha :: "bytes \<Rightarrow> bytes"
  en_changes :: "changes \<Rightarrow> bytes"
  en_manifest :: "manifest \<Rightarrow> bytes"
  en_unmanifest :: "bytes \<Rightarrow> string + (string \<times> file_entry) list"
  en_fuel :: nat

section \<open>Laws\<close>

named_theorems tx_simps "unfolding transactions"
named_theorems tx_result "inversion of transactions that succeed"

lemma tx_bind_Inr [tx_result]: "tx_bind m f d = Inr (y, d'') \<longleftrightarrow> (\<exists>x d'. m d = Inr (x, d') \<and> f x d' = Inr (y, d''))"
  by (auto simp: tx_bind_def result_simps split: prod.splits)

lemma tx_read_Inr [tx_result]: "tx_read r d = Inr (x, d') \<longleftrightarrow> r d = Inr x \<and> d' = d"
  by (auto simp: tx_read_def result_simps)

lemma tx_ret_Inr [tx_result]: "tx_ret x d = Inr (y, d') \<longleftrightarrow> y = x \<and> d' = d"
  by (auto simp: tx_ret_def)

lemma tx_fail_Inr [tx_result]: "tx_fail e d \<noteq> Inr r"
  by (simp add: tx_fail_def)

lemma tx_bind_step [tx_simps]: "m d = Inr (x, d') \<Longrightarrow> tx_bind m f d = f x d'"
  by (simp add: tx_bind_def)

lemma tx_bind_fail [tx_simps]: "m d = Inl e \<Longrightarrow> tx_bind m f d = Inl e"
  by (simp add: tx_bind_def)

lemma tx_read_step [tx_simps]: "r d = Inr x \<Longrightarrow> tx_bind (tx_read r) f d = f x d"
  by (simp add: tx_bind_def tx_read_def)

lemma tx_read_fail [tx_simps]: "r d = Inl e \<Longrightarrow> tx_bind (tx_read r) f d = Inl e"
  by (simp add: tx_bind_def tx_read_def)

lemma insert_unique_Inr [result_simps]:
  "insert_unique key row rows = Inr rows' \<longleftrightarrow> key row \<notin> key ` set rows \<and> rows' = rows @ [row]"
  by (auto simp: insert_unique_def)

lemma find_row_None: "find_row P rows = None \<longleftrightarrow> (\<forall>r \<in> set rows. \<not> P r)"
  by (auto simp: find_row_def find_None_iff)

lemma find_row_Some: "find_row P rows = Some r \<Longrightarrow> r \<in> set rows \<and> P r"
  by (auto simp: find_row_def find_Some_iff)

lemma find_row_append: "find_row P (xs @ ys) = (case find_row P xs of None \<Rightarrow> find_row P ys | Some r \<Rightarrow> Some r)"
  by (induction xs) (auto simp: find_row_def)

lemma find_row_key:
  assumes "distinct (map key rows)" "r \<in> set rows"
  shows "find_row (\<lambda>r'. key r' = key r) rows = Some r"
  using assms by (induction rows) (auto simp: find_row_def image_iff)

end
