(* ===== verification/Replays.thy ===== *)
theory Replays
  imports Normalize
begin

text \<open>
  Tree operations as the chunks they store: an operation that succeeds stores a list of chunks, and run again on any
  store that holds them it returns the same and stores the same. The table of a repository relies on it twice, where a
  transaction writes the chunks and where a later check derives them again.
\<close>

definition puts :: "(bytes \<Rightarrow> bytes) \<Rightarrow> chunk list \<Rightarrow> memory_store \<Rightarrow> memory_store" where
  "puts sha cs s = fold (\<lambda>c s. snd (put_chunk sha c s)) cs s"

lemma puts_simps [simp]:
  "puts sha [] s = s" "puts sha (c # cs) s = puts sha cs (snd (put_chunk sha c s))"
  "puts sha (cs @ ds) s = puts sha ds (puts sha cs s)"
  by (simp_all add: puts_def)

lemma puts_collided: "ms_collided s \<Longrightarrow> ms_collided (puts sha cs s)"
  by (induction cs arbitrary: s) auto

lemma puts_saved: "ms_saved (puts sha cs s) = ms_saved s @ map (\<lambda>c. (chunk_id sha c, chunk_encode c)) cs"
  by (induction cs arbitrary: s) auto

lemma puts_extends: "\<not> ms_collided (puts sha cs s) \<Longrightarrow> extends s (puts sha cs s)"
proof (induction cs arbitrary: s)
  case (Cons c cs)
  then have "\<not> ms_collided (snd (put_chunk sha c s))" using puts_collided by auto
  then have "extends s (snd (put_chunk sha c s))" using put_chunk_extends by auto
  then show ?case using Cons extends_trans by auto
qed simp

lemma puts_holds: "\<not> ms_collided (puts sha cs s) \<Longrightarrow> c \<in> set cs \<Longrightarrow> ms_objects (puts sha cs s) (chunk_id sha c) = Some (chunk_encode c)"
proof (induction cs arbitrary: s)
  case (Cons d cs)
  show ?case
  proof (cases "c = d")
    case True
    have "extends (snd (put_chunk sha d s)) (puts sha (d # cs) s)" using Cons.prems(1) puts_extends by simp
    then show ?thesis using True unfolding extends_def by simp
  next
    case False
    then show ?thesis using Cons by simp
  qed
qed simp

lemma puts_empty_chunk: "\<not> ms_collided (puts sha cs s) \<Longrightarrow> c \<in> set cs \<Longrightarrow> chunk_id sha c = empty_tree sha \<Longrightarrow> chunk_encode c = [CHR 0x00]"
proof (induction cs arbitrary: s)
  case (Cons d cs)
  have "\<not> ms_collided (snd (put_chunk sha d s))" using Cons.prems(1) puts_collided [of "snd (put_chunk sha d s)" sha cs] by auto
  then have "\<not> clashes sha (chunk_id sha d) (chunk_encode d) s" by simp
  then show ?case using Cons by (cases "c = d") (auto simp: clashes_def)
qed simp

text \<open>Chunks that are already stored change nothing when stored again.\<close>

lemma puts_again:
  assumes "\<And>c. c \<in> set cs \<Longrightarrow> ms_objects t (chunk_id sha c) = Some (chunk_encode c)"
    "\<And>c. c \<in> set cs \<Longrightarrow> chunk_id sha c = empty_tree sha \<Longrightarrow> chunk_encode c = [CHR 0x00]"
  shows "ms_objects (puts sha cs t) = ms_objects t \<and> ms_collided (puts sha cs t) = ms_collided t"
  using assms
proof (induction cs arbitrary: t)
  case (Cons c cs)
  define u where "u = snd (put_chunk sha c t)"
  have "ms_objects u = (ms_objects t)(chunk_id sha c \<mapsto> chunk_encode c)" unfolding u_def by (rule put_chunk_simps(2))
  then have same: "ms_objects u = ms_objects t" using Cons.prems(1) [of c] by (simp add: fun_upd_idem)
  have "\<not> clashes sha (chunk_id sha c) (chunk_encode c) t" using Cons.prems [of c] by (auto simp: clashes_def)
  then have "ms_collided u = ms_collided t" by (simp add: u_def)
  moreover have "ms_objects (puts sha cs u) = ms_objects u \<and> ms_collided (puts sha cs u) = ms_collided u"
    by (rule Cons.IH) (use Cons.prems same in simp_all)
  ultimately show ?case using same unfolding puts_simps(2) u_def [symmetric] by metis
qed simp

definition steady :: "(bytes \<Rightarrow> bytes) \<Rightarrow> 'a tree_op \<Rightarrow> bool" where
  "steady sha m \<longleftrightarrow>
     (\<forall>s x s'. m s = (Inr x, s') \<longrightarrow>
        (\<exists>cs. s' = puts sha cs s \<and> (\<not> ms_collided s' \<longrightarrow> (\<forall>t. extends s' t \<longrightarrow> m t = (Inr x, puts sha cs t)))))"

named_theorems steady_intros "tree operations determined by the chunks they read"

lemma steadyI:
  assumes "\<And>s x s'. m s = (Inr x, s') \<Longrightarrow>
    \<exists>cs. s' = puts sha cs s \<and> (\<not> ms_collided s' \<longrightarrow> (\<forall>t. extends s' t \<longrightarrow> m t = (Inr x, puts sha cs t)))"
  shows "steady sha m"
  using assms unfolding steady_def by blast

lemma steadyD:
  assumes "steady sha m" "m s = (Inr x, s')"
  obtains cs where "s' = puts sha cs s" "\<And>t. \<not> ms_collided s' \<Longrightarrow> extends s' t \<Longrightarrow> m t = (Inr x, puts sha cs t)"
  using assms unfolding steady_def by metis

definition stable :: "(memory_store \<Rightarrow> error + 'a) \<Rightarrow> bool" where
  "stable r \<longleftrightarrow> (\<forall>s t x. r s = Inr x \<longrightarrow> extends s t \<longrightarrow> r t = Inr x)"

lemma steady_tret [steady_intros]: "steady sha (tret x)"
  by (rule steadyI, rule exI [of _ "[]"]) (auto simp: tret_def)

lemma steady_tfail [steady_intros]: "steady sha (tfail e)"
  by (rule steadyI) (auto simp: tfail_def)

lemma stableD: "stable r \<Longrightarrow> r s = Inr x \<Longrightarrow> extends s t \<Longrightarrow> r t = Inr x"
  unfolding stable_def by blast

lemma stableI: "(\<And>s t x. r s = Inr x \<Longrightarrow> extends s t \<Longrightarrow> r t = Inr x) \<Longrightarrow> stable r"
  unfolding stable_def by blast

lemma steady_tread [steady_intros]:
  assumes "stable r"
  shows "steady sha (tread r)"
proof (rule steadyI)
  fix s x s' assume "tread r s = (Inr x, s')"
  then have h: "r s = Inr x" "s' = s" by (auto simp: tread_def)
  have "tread r t = (Inr x, puts sha [] t)" if "extends s' t" for t
    using stableD [OF assms h(1), of t] that h(2) unfolding tread_def by simp
  then show "\<exists>cs. s' = puts sha cs s \<and> (\<not> ms_collided s' \<longrightarrow> (\<forall>t. extends s' t \<longrightarrow> tread r t = (Inr x, puts sha cs t)))"
    using h(2) by (intro exI [of _ "[]"]) simp
qed

lemma steady_put_chunk [steady_intros]: "steady sha (put_chunk sha c)"
proof (rule steadyI)
  fix s x s' assume h: "put_chunk sha c s = (Inr x, s')"
  have run: "put_chunk sha c t = (Inr (chunk_id sha c), puts sha [c] t)" for t
    using put_chunk_simps(1) [of sha c t] by (cases "put_chunk sha c t") simp
  then have "x = chunk_id sha c" "s' = puts sha [c] s" using h by (metis Inr_inject prod.inject)+
  then show "\<exists>cs. s' = puts sha cs s \<and> (\<not> ms_collided s' \<longrightarrow> (\<forall>t. extends s' t \<longrightarrow> put_chunk sha c t = (Inr x, puts sha cs t)))"
    using run by blast
qed

lemma steady_tbind [steady_intros]:
  assumes "steady sha m" "\<And>x. steady sha (f x)"
  shows "steady sha (tbind m f)"
proof (rule steadyI)
  fix s y s2 assume h: "tbind m f s = (Inr y, s2)"
  then obtain x s1 where m: "m s = (Inr x, s1)" and f: "f x s1 = (Inr y, s2)"
    by (auto simp: tbind_def split: prod.splits sum.splits)
  obtain cs where cs: "s1 = puts sha cs s" "\<And>t. \<not> ms_collided s1 \<Longrightarrow> extends s1 t \<Longrightarrow> m t = (Inr x, puts sha cs t)"
    by (rule steadyD [OF assms(1) m]) blast
  obtain ds where ds: "s2 = puts sha ds s1" "\<And>t. \<not> ms_collided s2 \<Longrightarrow> extends s2 t \<Longrightarrow> f x t = (Inr y, puts sha ds t)"
    by (rule steadyD [OF assms(2) f]) blast
  have "tbind m f t = (Inr y, puts sha (cs @ ds) t)" if n: "\<not> ms_collided s2" and e: "extends s2 t" for t
  proof -
    have n1: "\<not> ms_collided s1" using n puts_collided ds(1) by auto
    have e12: "extends s1 s2" using puts_extends n ds(1) by auto
    then have e1: "extends s1 t" using e extends_trans by blast
    have "ms_objects (puts sha cs t) = ms_objects t"
    proof (rule puts_again [THEN conjunct1])
      fix c assume "c \<in> set cs"
      then show "ms_objects t (chunk_id sha c) = Some (chunk_encode c)"
        using puts_holds [of sha cs s c] n1 e1 cs(1) unfolding extends_def by blast
    next
      fix c assume "c \<in> set cs" "chunk_id sha c = empty_tree sha"
      then show "chunk_encode c = [CHR 0x00]" using puts_empty_chunk [of sha cs s c] n1 cs(1) by blast
    qed
    then have "extends s2 (puts sha cs t)" using e by (simp add: extends_def)
    then have "f x (puts sha cs t) = (Inr y, puts sha ds (puts sha cs t))" by (rule ds(2) [OF n])
    then show ?thesis by (simp add: tbind_def cs(2) [OF n1 e1])
  qed
  then show "\<exists>cs. s2 = puts sha cs s \<and> (\<not> ms_collided s2 \<longrightarrow> (\<forall>t. extends s2 t \<longrightarrow> tbind m f t = (Inr y, puts sha cs t)))"
    by (intro exI [of _ "cs @ ds"]) (simp add: cs(1) ds(1))
qed

section \<open>Reads\<close>

named_theorems stable_intros "reads that do not change as the store grows"

lemma stable_const [stable_intros]: "stable (\<lambda>_. x)"
  by (simp add: stable_def)

lemma stable_chunk_at [stable_intros]: "stable (\<lambda>s. chunk_at sha s i)"
  using chunk_at_extends unfolding stable_def by blast

lemma stable_ebind [stable_intros]:
  assumes "stable r" "\<And>x. stable (\<lambda>s. f s x)"
  shows "stable (\<lambda>s. ebind (r s) (f s))"
  unfolding stable_def
proof (intro allI impI)
  fix s t y assume h: "ebind (r s) (f s) = Inr y" and e: "extends s t"
  then obtain x where x: "r s = Inr x" "f s x = Inr y" by (auto simp: result_simps)
  have "r t = Inr x" using assms(1) x(1) e unfolding stable_def by blast
  moreover have "f t x = Inr y" using assms(2) [of x] x(2) e unfolding stable_def by blast
  ultimately show "ebind (r t) (f t) = Inr y" by simp
qed

lemma stable_ok_or [stable_intros]: "stable (\<lambda>_. ok_or e x)"
  by (rule stable_const)

lemma stable_option [stable_intros]:
  "stable a \<Longrightarrow> (\<And>y. stable (b y)) \<Longrightarrow> stable (\<lambda>s. case x of None \<Rightarrow> a s | Some y \<Rightarrow> b y s)"
  by (cases x) simp_all

lemma stable_if [stable_intros]: "(P \<Longrightarrow> stable a) \<Longrightarrow> (\<not> P \<Longrightarrow> stable b) \<Longrightarrow> stable (\<lambda>s. if P then a s else b s)"
  by (cases P) simp_all

lemma stable_child_at [stable_intros]: "stable (\<lambda>s. child_at sha s c i)"
  unfolding child_at_def by (intro stable_intros)

lemma stable_seek_from [stable_intros]: "stable (\<lambda>s. seek_from sha s level name after c rightmost)"
proof (rule stableI)
  fix s t x
  show "seek_from sha s level name after c rightmost = Inr x \<Longrightarrow> extends s t \<Longrightarrow> seek_from sha t level name after c rightmost = Inr x"
  proof (induction sha s level name after c rightmost rule: seek_from.induct)
    case (1 sha s level name after c rightmost)
    show ?case
    proof (cases "ch_level c > level")
      case False
      then show ?thesis using "1.prems"(1) by (subst (asm) seek_from.simps, subst seek_from.simps) simp
    next
      case True
      define n where "n = length (ch_items c)"
      define index where "index = partition_point (\<lambda>i. if after then it_name i \<le> name else it_name i < name) (ch_items c)"
      show ?thesis
      proof (cases "index \<ge> n \<and> after")
        case True
        then show ?thesis using "1.prems"(1) \<open>ch_level c > level\<close>
          by (subst (asm) seek_from.simps, subst seek_from.simps) (simp add: n_def index_def)
      next
        case False
        define at where "at = (if index < n then index else n - 1)"
        have unf: "seek_from sha s' level name after c rightmost =
            ebind (child_at sha s' c (ch_items c ! at)) (\<lambda>child. seek_from sha s' level name after child (rightmost \<and> at + 1 = n))" for s'
          by (subst seek_from.simps, unfold Let_def n_def [symmetric] index_def [symmetric] at_def [symmetric])
            (simp only: True False if_True if_False)
        obtain child where child: "child_at sha s c (ch_items c ! at) = Inr child"
          "seek_from sha s level name after child (rightmost \<and> at + 1 = n) = Inr x"
          using "1.prems"(1) unfolding unf by (auto simp: result_simps)
        have "seek_from sha t level name after child (rightmost \<and> at + 1 = n) = Inr x"
          using "1.IH" [OF True n_def index_def False at_def child(1) child(2) "1.prems"(2)] .
        then show ?thesis unfolding unf using stableD [OF stable_child_at child(1) "1.prems"(2)] by simp
      qed
    qed
  qed
qed

lemma stable_seek [stable_intros]: "stable (\<lambda>s. seek sha s root level name after)"
  unfolding seek_def by (intro stable_intros)

lemma stable_find_in [stable_intros]: "stable (\<lambda>s. find_in sha s dir name)"
  unfolding find_in_def by (intro stable_intros)

lemma stable_descend [stable_intros]: "stable (\<lambda>s. descend fuel sha s root)"
proof (induction fuel arbitrary: root)
  case (Suc fuel)
  show ?case unfolding descend.simps by (intro stable_intros Suc.IH)
qed (simp add: stable_const)

section \<open>Updates\<close>

lemma steady_if [steady_intros]: "(P \<Longrightarrow> steady sha a) \<Longrightarrow> (\<not> P \<Longrightarrow> steady sha b) \<Longrightarrow> steady sha (if P then a else b)"
  by (cases P) simp_all

lemma steady_option [steady_intros]:
  "steady sha a \<Longrightarrow> (\<And>y. x = Some y \<Longrightarrow> steady sha (b y)) \<Longrightarrow> steady sha (case x of None \<Rightarrow> a | Some y \<Rightarrow> b y)"
  by (cases x) simp_all

lemma steady_pair [steady_intros]: "(\<And>y z. steady sha (b y z)) \<Longrightarrow> steady sha (case x of (y, z) \<Rightarrow> b y z)"
  by (cases x) simp_all

lemma steady_summary [steady_intros]: "steady sha (summary sha c)"
  unfolding summary_def by (intro steady_intros)

lemma steady_summaries [steady_intros]: "steady sha (summaries sha cs)"
proof (induction cs)
  case (Cons c cs)
  show ?case unfolding summaries.simps by (intro steady_intros Cons.IH)
qed (simp add: steady_tret)

lemma steady_build_level [steady_intros]: "steady sha (build_level sha level items)"
proof (induction sha level items rule: build_level.induct)
  case (1 sha level items)
  show ?case
  proof (cases "level > MAX_LEVEL")
    case True
    then show ?thesis by (subst build_level.simps) (simp add: steady_tfail)
  next
    case False
    show ?thesis
    proof (cases "cut_level sha level items")
      case Nil
      then show ?thesis using False by (subst build_level.simps) (simp add: steady_tret)
    next
      case (Cons c cs)
      show ?thesis
      proof (cases cs)
        case Nil
        have "steady sha (if ch_level c > 0 \<and> length (ch_items c) = 1
            then tbind (tread (\<lambda>s. descend (MAX_LEVEL + 2) sha s (it_id (ch_items c ! 0)))) (\<lambda>root. tret (Some root))
            else tbind (put_chunk sha c) (\<lambda>root. tret (Some root)))"
          by (intro steady_intros stable_intros)
        then show ?thesis using False Cons Nil by (subst build_level.simps) simp
      next
        case (Cons c2 cs2)
        have "steady sha (tbind (summaries sha (c # c2 # cs2)) (\<lambda>is. build_level sha (level + 1) is))"
          by (intro steady_intros "1.IH" [OF False \<open>cut_level sha level items = c # cs\<close> Cons])
        then show ?thesis using False Cons \<open>cut_level sha level items = c # cs\<close> by (subst build_level.simps) simp
      qed
    qed
  qed
qed

lemma steady_recut_run [steady_intros]: "steady sha (recut_run fuel sha root level c rightmost edits ck added gone)"
proof (induction fuel arbitrary: c rightmost edits ck added gone)
  case (Suc fuel)
  show ?case unfolding recut_run.simps by (intro steady_intros stable_intros Suc.IH)
qed (simp add: steady_tfail)

lemma steady_update_level [steady_intros]: "steady sha (update_level fuel sha root level edits out)"
proof (induction fuel arbitrary: edits out)
  case 0
  then show ?case by (cases edits) (simp_all add: steady_tret steady_tfail)
next
  case (Suc fuel)
  show ?case
  proof (cases edits)
    case (Cons e es)
    show ?thesis unfolding Cons update_level.simps by (intro steady_intros stable_intros Suc.IH)
  qed (simp add: steady_tret)
qed

lemma steady_update_levels [steady_intros]: "steady sha (update_levels fuel sha root levels edits)"
proof (induction levels arbitrary: edits)
  case (Cons level levels)
  show ?case unfolding update_levels.simps by (intro steady_intros Cons.IH)
qed (simp add: steady_tret)

lemma steady_update_dir [steady_intros]: "steady sha (update_dir fuel sha dir edits)"
  unfolding update_dir_def Let_def by (intro steady_intros stable_intros)

lemma steady_apply: "steady sha (apply_dir fuel sha r ch)" "steady sha (apply_groups fuel sha r gs)"
proof (induction fuel sha r ch and fuel sha r gs rule: apply_dir_apply_groups.induct)
  case (1 fuel sha dir changes)
  show ?case by (subst apply_dir.simps) (intro steady_intros "1.IH")
next
  case (2 fuel sha dir)
  show ?case by (simp add: apply_groups.simps steady_tret)
next
  case (3 fuel sha dir name exact deeper groups)
  have g: "steady sha (apply_groups fuel sha dir groups)"
  proof (cases "tombstone_ambiguous exact deeper None")
    case False
    show ?thesis by (rule "3.IH"(2) [OF False refl refl])
  next
    case True
    then have "\<not> tombstone_ambiguous exact deeper (Some (File undefined))" by (simp add: tombstone_ambiguous_def)
    from "3.IH"(2) [OF this refl refl] show ?thesis .
  qed
  have p: "steady sha (apply_dir fuel sha (Option.bind x node_dir) deeper)"
    if "\<not> tombstone_ambiguous exact deeper x" "deeper \<noteq> []" for x
    by (rule "3.IH"(1) [OF that(1) refl refl that(2)])
  show ?case unfolding apply_groups.simps(2) Let_def by (intro steady_intros stable_intros p g)
qed

lemma steady_tree_root [steady_intros]: "steady sha (tree_root sha dir)"
  unfolding tree_root_def by (intro steady_intros)

lemma steady_tree_apply: "steady sha (tree_apply fuel sha root changes)"
  unfolding tree_apply_def by (intro steady_intros steady_apply)

lemma steady_tree_build: "steady sha (tree_build fuel sha entries)"
  unfolding tree_build_def by (intro steady_intros steady_apply)

end
