(* ===== verification/Objects.thy ===== *)
theory Objects
  imports Tables Replays
begin

text \<open>
  The object store of \<open>src/repository.rs\<close>: content-addressed blobs, manifests, checkpoints and tree chunks in the
  \<open>objects\<close> table, and the tree operations over that table (\<open>Sql\<close>). \<open>Sink::Write\<close> stores every new chunk,
  \<open>Sink::Verify\<close> refuses a chunk that is not stored, \<open>Sink::Buffer\<close> returns the new chunks. The operations of the
  theory \<open>Trees\<close> run on the tree chunks of the table; a chunk whose ID already stands for other bytes, a
  SHA-256 collision, is an error here as in \<open>insert_object\<close>.
\<close>

section \<open>Objects\<close>

fun kind_sql :: "object_kind \<Rightarrow> int" where
  "kind_sql Blob = 1"
| "kind_sql ManifestKind = 2"
| "kind_sql Checkpoint = 3"
| "kind_sql Tree = 4"

definition object_at :: "db \<Rightarrow> object_id \<Rightarrow> object_row option" where
  "object_at d i = find_row (\<lambda>r. or_id r = i) (db_objects d)"

definition read_object :: "env \<Rightarrow> db \<Rightarrow> object_id \<Rightarrow> object_kind \<Rightarrow> error + bytes" where
  "read_object E d i expected =
     ebind (ok_or (MissingObject i) (object_at d i)) (\<lambda>row.
     ebind (kind_decode (or_kind row)) (\<lambda>kind.
       if object_hash (en_sha E) kind (or_bytes row) \<noteq> i then Inl (CorruptObject i)
       else if kind \<noteq> expected then Inl (WrongObjectKind i)
       else Inr (or_bytes row)))"

definition insert_object :: "env \<Rightarrow> object_kind \<Rightarrow> bytes \<Rightarrow> object_id tx" where
  "insert_object E kind bytes d =
     (let i = object_hash (en_sha E) kind bytes;
          d' = (case object_at d i of
                  Some _ \<Rightarrow> d
                | None \<Rightarrow> d\<lparr>db_objects := db_objects d @ [\<lparr>or_id = i, or_kind = kind_sql kind, or_bytes = bytes\<rparr>]\<rparr>)
      in ebind (read_object E d' i kind) (\<lambda>stored.
           if stored \<noteq> bytes then Inl (CorruptObject i) else Inr (i, d')))"

text \<open>\<open>verify_object_streamed\<close> hashes the stored bytes in pieces of 64 KiB.\<close>

function pieces :: "nat \<Rightarrow> bytes \<Rightarrow> bytes list" where
  "pieces n bs = (if n = 0 \<or> bs = [] then [] else take n bs # pieces n (drop n bs))"
  by pat_completeness auto
termination by (relation "measure (\<lambda>(_, bs). length bs)") auto

declare pieces.simps [simp del]

definition hash_pieces :: "(bytes \<Rightarrow> bytes) \<Rightarrow> object_kind \<Rightarrow> bytes list \<Rightarrow> object_id" where
  "hash_pieces sha kind parts = sha (fold (\<lambda>part fed. fed @ part) parts (''javelin-object-v1'' @ [CHR 0x00] @ [kind_byte kind]))"

definition verify_object_streamed :: "env \<Rightarrow> db \<Rightarrow> object_id \<Rightarrow> object_kind \<Rightarrow> error + unit" where
  "verify_object_streamed E d i expected =
     ebind (ok_or (MissingObject i) (object_at d i)) (\<lambda>row.
     ebind (kind_decode (or_kind row)) (\<lambda>kind.
       if hash_pieces (en_sha E) kind (pieces (64 * 1024) (or_bytes row)) \<noteq> i then Inl (CorruptObject i)
       else if kind \<noteq> expected then Inl (WrongObjectKind i)
       else Inr ()))"

definition has_object :: "env \<Rightarrow> object_id \<Rightarrow> object_kind \<Rightarrow> db \<Rightarrow> error + bool" where
  "has_object E i expected d =
     (case verify_object_streamed E d i expected of
       Inr _ \<Rightarrow> Inr True
     | Inl (MissingObject missing) \<Rightarrow> if missing = i then Inr False else Inl (MissingObject missing)
     | Inl e \<Rightarrow> Inl e)"

definition read_object_bounded :: "env \<Rightarrow> db \<Rightarrow> object_id \<Rightarrow> object_kind \<Rightarrow> nat \<Rightarrow> error + bytes" where
  "read_object_bounded E d i expected max_bytes =
     ebind (ok_or (MissingObject i) (object_at d i)) (\<lambda>row.
     ebind (kind_decode (or_kind row)) (\<lambda>kind.
       let size' = length (or_bytes row) in
       if size' > max_bytes then Inl (ObjectTooLarge i size' max_bytes)
       else if object_hash (en_sha E) kind (or_bytes row) \<noteq> i then Inl (CorruptObject i)
       else if kind \<noteq> expected then Inl (WrongObjectKind i)
       else Inr (or_bytes row)))"

definition validate_entry :: "env \<Rightarrow> db \<Rightarrow> file_entry \<Rightarrow> error + unit" where
  "validate_entry E d entry =
     ebind (read_object E d (entry_content entry) Blob) (\<lambda>bytes.
       if (case entry of Symlink _ \<Rightarrow> True | Regular _ _ \<Rightarrow> False) \<and> (bytes = [] \<or> CHR 0x00 \<in> set bytes)
       then Inl (InvalidInput ''symlink target must be nonempty and contain no NUL'')
       else Inr ())"

fun validate_entries :: "env \<Rightarrow> db \<Rightarrow> file_entry list \<Rightarrow> error + unit" where
  "validate_entries E d [] = Inr ()"
| "validate_entries E d (e # es) = ebind (validate_entry E d e) (\<lambda>_. validate_entries E d es)"

definition manifest_in :: "env \<Rightarrow> object_id \<Rightarrow> db \<Rightarrow> error + manifest" where
  "manifest_in E i d =
     ebind (read_object E d i ManifestKind) (\<lambda>bytes.
     ebind (emap_err (\<lambda>_. CorruptObject i) (manifest_decode (en_manifest E) (en_unmanifest E) bytes)) (\<lambda>manifest.
     ebind (validate_entries E d (map snd manifest)) (\<lambda>_. Inr manifest)))"

section \<open>Operations\<close>

definition put_blob :: "env \<Rightarrow> bytes \<Rightarrow> object_id tx" where
  "put_blob E bytes = insert_object E Blob bytes"

definition read_blob :: "env \<Rightarrow> object_id \<Rightarrow> db \<Rightarrow> error + bytes" where
  "read_blob E i d = read_object E d i Blob"

definition has_blob :: "env \<Rightarrow> object_id \<Rightarrow> db \<Rightarrow> error + bool" where
  "has_blob E i = has_object E i Blob"

definition has_manifest :: "env \<Rightarrow> object_id \<Rightarrow> db \<Rightarrow> error + bool" where
  "has_manifest E i = has_object E i ManifestKind"

definition has_tree :: "env \<Rightarrow> object_id \<Rightarrow> db \<Rightarrow> error + bool" where
  "has_tree E i = has_object E i Tree"

definition read_blob_bounded :: "env \<Rightarrow> object_id \<Rightarrow> nat \<Rightarrow> db \<Rightarrow> error + bytes" where
  "read_blob_bounded E i max_bytes d = read_object_bounded E d i Blob max_bytes"

definition manifest_bytes_bounded :: "env \<Rightarrow> object_id \<Rightarrow> nat \<Rightarrow> db \<Rightarrow> error + bytes" where
  "manifest_bytes_bounded E i max_bytes d =
     ebind (read_object_bounded E d i ManifestKind max_bytes) (\<lambda>bytes.
     ebind (emap_err (\<lambda>_. CorruptObject i) (manifest_decode (en_manifest E) (en_unmanifest E) bytes)) (\<lambda>_.
     Inr bytes))"

definition put_manifest :: "env \<Rightarrow> manifest \<Rightarrow> object_id tx" where
  "put_manifest E manifest =
     tx_bind (tx_read (\<lambda>d. validate_entries E d (map snd manifest))) (\<lambda>_.
     insert_object E ManifestKind (en_manifest E manifest))"

definition manifest_bytes :: "env \<Rightarrow> object_id \<Rightarrow> db \<Rightarrow> error + bytes" where
  "manifest_bytes E i d = ebind (manifest_in E i d) (\<lambda>_. read_object E d i ManifestKind)"

definition read_manifest :: "env \<Rightarrow> object_id \<Rightarrow> db \<Rightarrow> error + manifest" where
  "read_manifest E i d = manifest_in E i d"

definition tree_bytes_bounded :: "env \<Rightarrow> object_id \<Rightarrow> nat \<Rightarrow> db \<Rightarrow> error + bytes" where
  "tree_bytes_bounded E i max_bytes d =
     ebind (read_object_bounded E d i Tree max_bytes) (\<lambda>bytes.
     ebind (emap_err (\<lambda>_. CorruptObject i) (chunk_decode bytes)) (\<lambda>_. Inr bytes))"

text \<open>Everything a chunk names, with the kind it must have.\<close>

definition chunk_refs :: "chunk \<Rightarrow> (object_id \<times> object_kind) list" where
  "chunk_refs c =
     map (\<lambda>i. (i, Tree)) (chunk_children c) @
     map (\<lambda>(_, node). case node of File entry \<Rightarrow> (entry_content entry, Blob) | Dir i \<Rightarrow> (i, Tree)) (chunk_entries c)"

fun check_refs :: "db \<Rightarrow> (object_id \<times> object_kind) list \<Rightarrow> error + unit" where
  "check_refs d [] = Inr ()"
| "check_refs d ((i, expected) # refs) =
     (case object_at d i of
       None \<Rightarrow> Inl (MissingObject i)
     | Some row \<Rightarrow>
         ebind (kind_decode (or_kind row)) (\<lambda>kind.
           if kind \<noteq> expected then Inl (WrongObjectKind i) else check_refs d refs))"

definition put_tree :: "env \<Rightarrow> bytes \<Rightarrow> object_id tx" where
  "put_tree E bytes =
     tx_bind (tx_read (\<lambda>_. chunk_decode bytes)) (\<lambda>c.
     tx_bind (tx_read (\<lambda>d. check_refs d (chunk_refs c))) (\<lambda>_.
     insert_object E Tree bytes))"

section \<open>Trees over the table\<close>

definition tree_view :: "db \<Rightarrow> memory_store" where
  "tree_view d =
     \<lparr>ms_objects = (\<lambda>i. case object_at d i of
         Some row \<Rightarrow> if or_kind row = kind_sql Tree then Some (or_bytes row) else None
       | None \<Rightarrow> None),
      ms_written = 0, ms_collided = False, ms_saved = []\<rparr>"

text \<open>\<open>load\<close> answers for a chunk that is not there as \<open>read_object\<close> does, which also tells objects of another kind.\<close>

definition load_error :: "env \<Rightarrow> db \<Rightarrow> error \<Rightarrow> error" where
  "load_error E d e =
     (case e of
       MissingObject i \<Rightarrow> (case read_object E d i Tree of Inl e' \<Rightarrow> e' | Inr _ \<Rightarrow> e)
     | _ \<Rightarrow> e)"

definition sql_read :: "env \<Rightarrow> (memory_store \<Rightarrow> error + 'a) \<Rightarrow> db \<Rightarrow> error + 'a" where
  "sql_read E r d = emap_err (load_error E d) (r (tree_view d))"

text \<open>\<open>Sink::Write\<close>: every chunk handed to the store is inserted.\<close>

definition sql_write :: "env \<Rightarrow> 'a tree_op \<Rightarrow> 'a tx" where
  "sql_write E m d =
     (case m (tree_view d) of
       (Inl e, _) \<Rightarrow> Inl (load_error E d e)
     | (Inr x, s) \<Rightarrow>
         tx_bind (tx_each (\<lambda>(_, bytes). tx_bind (insert_object E Tree bytes) (\<lambda>_. tx_ret ())) (ms_saved s)) (\<lambda>_. tx_ret x) d)"

text \<open>\<open>Sink::Verify\<close>: every chunk handed to the store must be stored.\<close>

definition not_stored :: "object_id \<Rightarrow> error" where
  "not_stored i = CorruptRepository (''derived tree chunk '' @ oid_display i @ '' is not stored'')"

fun verify_saved :: "env \<Rightarrow> db \<Rightarrow> (object_id \<times> bytes) list \<Rightarrow> error + unit" where
  "verify_saved E d [] = Inr ()"
| "verify_saved E d ((i, bytes) # saved) =
     (case read_object E d i Tree of
       Inr stored \<Rightarrow> if stored = bytes then verify_saved E d saved else Inl (not_stored i)
     | Inl (MissingObject _) \<Rightarrow> Inl (not_stored i)
     | Inl e \<Rightarrow> Inl e)"

definition sql_verify :: "env \<Rightarrow> 'a tree_op \<Rightarrow> db \<Rightarrow> error + 'a" where
  "sql_verify E m d =
     (case m (tree_view d) of
       (Inl e, _) \<Rightarrow> Inl (load_error E d e)
     | (Inr x, s) \<Rightarrow> ebind (verify_saved E d (ms_saved s)) (\<lambda>_. Inr x))"

text \<open>\<open>Sink::Buffer\<close>: the chunks are returned instead.\<close>

definition sql_buffer :: "env \<Rightarrow> 'a tree_op \<Rightarrow> db \<Rightarrow> error + 'a \<times> (object_id \<times> bytes) list" where
  "sql_buffer E m d =
     (case m (tree_view d) of (Inl e, _) \<Rightarrow> Inl (load_error E d e) | (Inr x, s) \<Rightarrow> Inr (x, ms_saved s))"

definition put_snapshot :: "env \<Rightarrow> manifest \<Rightarrow> object_id tx" where
  "put_snapshot E manifest =
     tx_bind (tx_read (\<lambda>d. validate_entries E d (map snd manifest))) (\<lambda>_.
     sql_write E (tree_build (en_fuel E) (en_sha E) manifest))"

end
