(* ===== verification/History.thy ===== *)
theory History
  imports Objects
begin

text \<open>
  The history of World versions in \<open>src/repository.rs\<close>: version rows with their attempts and changesets, advancing
  the World by compare-and-swap, and the full check of a history.
\<close>

section \<open>Versions and attempts\<close>

record world_version =
  wv_number :: "64 word"
  wv_id :: object_id
  wv_tree :: object_id
  wv_operation :: "string option"

datatype advance_outcome = Advanced (advanced: world_version) | AdvanceStale (actual: "64 word")

definition FORMAT :: int where "FORMAT = 8"
definition APPLICATION :: int where "APPLICATION = 0x4a41564c"

definition validate_format :: "db \<Rightarrow> error + unit" where
  "validate_format d =
     (if db_format d \<noteq> FORMAT then Inl (UnsupportedFormat (db_format d))
      else if db_application d \<noteq> APPLICATION then Inl (CorruptRepository ''unrecognized database identity'')
      else Inr ())"

text \<open>\<open>checked_add(1)\<close>, then the storage range.\<close>

definition next_number :: "64 word \<Rightarrow> error + 64 word" where
  "next_number number =
     (if number = - 1 then Inl (InvalidInput ''World version overflow'') else version_new (number + 1))"

definition decode_version :: "version_row \<Rightarrow> error + world_version" where
  "decode_version row =
     ebind (version_decode (vr_number row)) (\<lambda>number.
       if (number = 0) \<noteq> (vr_operation row = None) then Inl (CorruptRepository ''invalid version operation'')
       else Inr \<lparr>wv_number = number, wv_id = vr_id row, wv_tree = vr_tree row, wv_operation = vr_operation row\<rparr>)"

record attempt =
  at_operation :: string
  at_expected :: "64 word"
  at_tree :: "object_id option"
  at_accepted :: bool
  at_result :: "64 word"

definition attempt_row_in :: "string \<Rightarrow> db \<Rightarrow> attempt_row option" where
  "attempt_row_in operation d = find_row (\<lambda>r. ar_id r = operation) (db_attempts d)"

definition decode_attempt :: "string \<Rightarrow> attempt_row \<Rightarrow> error + attempt" where
  "decode_attempt operation row =
     (if ar_accepted row \<noteq> 0 \<and> ar_accepted row \<noteq> 1 then Inl (CorruptRepository ''invalid attempt outcome'')
      else
        ebind (version_decode (ar_expected row)) (\<lambda>expected.
        ebind (version_decode (ar_result row)) (\<lambda>result.
        Inr \<lparr>at_operation = operation, at_expected = expected, at_tree = ar_tree row,
             at_accepted = (ar_accepted row = 1), at_result = result\<rparr>)))"

definition attempt_in :: "string \<Rightarrow> db \<Rightarrow> error + attempt option" where
  "attempt_in operation d =
     (case attempt_row_in operation d of
       None \<Rightarrow> Inr None
     | Some row \<Rightarrow> ebind (decode_attempt operation row) (\<lambda>a. Inr (Some a)))"

definition bind_attempt :: "world_version \<Rightarrow> db \<Rightarrow> error + unit" where
  "bind_attempt version d =
     (case wv_operation version of
       None \<Rightarrow> Inr ()
     | Some operation \<Rightarrow>
         ebind (attempt_in operation d) (\<lambda>found.
         ebind (ok_or (CorruptRepository ''missing accepted attempt'') found) (\<lambda>attempt.
           guard (at_accepted attempt \<and> at_result attempt = wv_number version
                  \<and> at_expected attempt = wv_number version - 1)
             (CorruptRepository ''version and operation disagree''))))"

definition version_row_in :: "64 word \<Rightarrow> db \<Rightarrow> version_row option" where
  "version_row_in number d = find_row (\<lambda>r. vr_number r = version_sql number) (db_versions d)"

definition version_in :: "64 word \<Rightarrow> db \<Rightarrow> error + world_version" where
  "version_in number d =
     (case version_row_in number d of
       None \<Rightarrow> Inl (MissingVersion number)
     | Some row \<Rightarrow>
         ebind (decode_version row) (\<lambda>version.
         ebind (bind_attempt version d) (\<lambda>_. Inr version)))"

text \<open>\<open>ORDER BY number DESC LIMIT 1\<close>.\<close>

fun latest_row :: "version_row list \<Rightarrow> version_row option" where
  "latest_row [] = None"
| "latest_row (r # rows) =
     (case latest_row rows of
       None \<Rightarrow> Some r
     | Some best \<Rightarrow> Some (if vr_number r > vr_number best then r else best))"

definition head_in :: "db \<Rightarrow> error + world_version" where
  "head_in d =
     (case latest_row (db_versions d) of
       None \<Rightarrow> Inl (CorruptRepository ''missing initial World'')
     | Some row \<Rightarrow>
         ebind (decode_version row) (\<lambda>version.
         ebind (bind_attempt version d) (\<lambda>_. Inr version)))"

definition tree_in :: "64 word \<Rightarrow> db \<Rightarrow> error + object_id" where
  "tree_in version d = ebind (ok_or (MissingVersion version) (version_row_in version d)) (\<lambda>row. Inr (vr_tree row))"

definition attempt_outcome :: "attempt \<Rightarrow> db \<Rightarrow> error + advance_outcome" where
  "attempt_outcome self d =
     ebind (emap_err (\<lambda>_. CorruptRepository ''attempt refers to missing result version'') (version_in (at_result self) d))
       (\<lambda>actual.
       if at_accepted self then
         (if at_result self \<noteq> at_expected self + 1 \<or> wv_operation actual \<noteq> Some (at_operation self)
          then Inl (CorruptRepository ''accepted attempt disagrees with World'') else Inr (Advanced actual))
       else
         (if at_result self \<le> at_expected self then Inl (CorruptRepository ''invalid stale outcome'')
          else Inr (AdvanceStale (at_result self))))"

section \<open>Changesets\<close>

fun encode_entry :: "file_entry option \<Rightarrow> int option \<times> object_id option" where
  "encode_entry None = (None, None)"
| "encode_entry (Some (Regular content executable)) = (Some (1 + (if executable then 1 else 0)), Some content)"
| "encode_entry (Some (Symlink target)) = (Some 3, Some target)"

definition decode_entry :: "int option \<Rightarrow> object_id option \<Rightarrow> error + file_entry option" where
  "decode_entry kind content =
     (case (kind, content) of
       (None, None) \<Rightarrow> Inr None
     | (Some k, Some c) \<Rightarrow>
         if k = 1 \<or> k = 2 then Inr (Some (Regular c (k = 2)))
         else if k = 3 then Inr (Some (Symlink c))
         else Inl (CorruptRepository ''invalid World change'')
     | _ \<Rightarrow> Inl (CorruptRepository ''invalid World change''))"

definition decode_path :: "string \<Rightarrow> error + string" where
  "decode_path path = emap_err (\<lambda>_. CorruptRepository ''invalid World change path'') (path_parse path)"

text \<open>\<open>WHERE version=?1 ORDER BY path\<close>.\<close>

definition change_rows :: "64 word \<Rightarrow> db \<Rightarrow> change_row list" where
  "change_rows version d = sort_key cr_path (filter (\<lambda>r. cr_version r = version_sql version) (db_changes d))"

definition decode_change :: "change_row \<Rightarrow> error + string \<times> file_entry option" where
  "decode_change row =
     ebind (decode_path (cr_path row)) (\<lambda>path.
     ebind (decode_entry (cr_kind row) (cr_content row)) (\<lambda>entry. Inr (path, entry)))"

definition changeset_in :: "64 word \<Rightarrow> db \<Rightarrow> error + changes" where
  "changeset_in version d = ebind (emap decode_change (change_rows version d)) changes_new"

definition changeset :: "64 word \<Rightarrow> db \<Rightarrow> error + changes" where
  "changeset version d = ebind (version_in version d) (\<lambda>_. changeset_in version d)"

section \<open>Reads\<close>

definition repo_head :: "db \<Rightarrow> error + world_version" where
  "repo_head d = ebind (validate_format d) (\<lambda>_. head_in d)"

definition repo_version :: "64 word \<Rightarrow> db \<Rightarrow> error + world_version" where
  "repo_version number d = ebind (validate_format d) (\<lambda>_. version_in number d)"

definition manifest_at :: "env \<Rightarrow> 64 word \<Rightarrow> db \<Rightarrow> error + manifest" where
  "manifest_at E version d =
     ebind (version_in version d) (\<lambda>world.
     ebind (sql_read E (\<lambda>s. tree_entries (en_sha E) s (wv_tree world)) d) manifest_new)"

text \<open>The \<open>WorldIndex\<close> over the table for one root, and of one version, whose root every read resolves first.\<close>

definition sql_index :: "env \<Rightarrow> db \<Rightarrow> object_id \<Rightarrow> world_index" where
  "sql_index E d root =
     (let at = (\<lambda>s. trees_index (en_sha E) s root (validate_entry E d)) in
      \<lparr>wi_entry_at = (\<lambda>path. sql_read E (\<lambda>s. wi_entry_at (at s) path) d),
       wi_is_dir = (\<lambda>path. sql_read E (\<lambda>s. wi_is_dir (at s) path) d),
       wi_files_under = (\<lambda>dir. sql_read E (\<lambda>s. wi_files_under (at s) dir) d),
       wi_check_entry = validate_entry E d\<rparr>)"

definition index_in :: "env \<Rightarrow> db \<Rightarrow> 64 word \<Rightarrow> world_index" where
  "index_in E d version =
     \<lparr>wi_entry_at = (\<lambda>path. ebind (tree_in version d) (\<lambda>root. wi_entry_at (sql_index E d root) path)),
      wi_is_dir = (\<lambda>path. ebind (tree_in version d) (\<lambda>root. wi_is_dir (sql_index E d root) path)),
      wi_files_under = (\<lambda>dir. ebind (tree_in version d) (\<lambda>root. wi_files_under (sql_index E d root) dir)),
      wi_check_entry = validate_entry E d\<rparr>"

section \<open>Advancing the World\<close>

definition insert_attempt :: "attempt_row \<Rightarrow> unit tx" where
  "insert_attempt row d =
     ebind (insert_unique ar_id row (db_attempts d)) (\<lambda>rows. Inr ((), d\<lparr>db_attempts := rows\<rparr>))"

text \<open>The trigger \<open>versions_order\<close>, and the unique operation.\<close>

definition next_row_number :: "version_row list \<Rightarrow> int" where
  "next_row_number rows = (case latest_row rows of None \<Rightarrow> 0 | Some r \<Rightarrow> vr_number r + 1)"

definition insert_version :: "version_row \<Rightarrow> unit tx" where
  "insert_version row d =
     (if vr_number row \<noteq> next_row_number (db_versions d) then Inl (Storage ''World versions must be contiguous'')
      else if vr_operation row \<noteq> None \<and> vr_operation row \<in> set (map vr_operation (db_versions d))
      then Inl (Storage ''UNIQUE constraint failed'')
      else ebind (insert_unique vr_number row (db_versions d)) (\<lambda>rows. Inr ((), d\<lparr>db_versions := rows\<rparr>)))"

definition insert_change :: "64 word \<Rightarrow> string \<times> file_entry option \<Rightarrow> unit tx" where
  "insert_change version change d =
     (case change of (path, entry) \<Rightarrow>
      case encode_entry entry of (kind, content) \<Rightarrow>
        ebind (insert_unique (\<lambda>r. (cr_version r, cr_path r))
            \<lparr>cr_version = version_sql version, cr_path = path, cr_kind = kind, cr_content = content\<rparr> (db_changes d))
          (\<lambda>rows. Inr ((), d\<lparr>db_changes := rows\<rparr>)))"

definition append_version_in :: "env \<Rightarrow> world_version \<Rightarrow> string \<Rightarrow> changes \<Rightarrow> object_id \<Rightarrow> world_version tx" where
  "append_version_in E head operation changes tree =
     tx_bind (tx_read (\<lambda>_. next_number (wv_number head))) (\<lambda>number.
       (let version = \<lparr>wv_number = number,
                       wv_id = version_id (en_sha E) (en_changes E) (Some (wv_id head)) tree changes,
                       wv_tree = tree, wv_operation = Some operation\<rparr>
        in tx_bind (insert_version \<lparr>vr_number = version_sql number, vr_id = wv_id version, vr_tree = tree,
                                    vr_operation = Some operation\<rparr>) (\<lambda>_.
           tx_bind (tx_each (insert_change number) changes) (\<lambda>_. tx_ret version))))"

definition operation_exists_in :: "string \<Rightarrow> db \<Rightarrow> bool" where
  "operation_exists_in operation d \<longleftrightarrow> operation \<in> set (map pu_id (db_publications d))"

text \<open>A received root is verified first: its changed contents, and that it is canonical.\<close>

definition verify_received :: "env \<Rightarrow> 64 word \<Rightarrow> object_id \<Rightarrow> changes tx" where
  "verify_received E expected root =
     tx_bind (tx_read (tree_in expected)) (\<lambda>base.
     tx_bind (tx_read (sql_read E (\<lambda>s. tree_diff (en_sha E) s base root))) (\<lambda>changes.
     tx_bind (tx_read (\<lambda>d. validate_entries E d (List.map_filter snd changes))) (\<lambda>_.
     tx_bind (sql_write E (tree_apply (en_fuel E) (en_sha E) base changes)) (\<lambda>applied.
     if applied \<noteq> root then tx_fail (InvalidInput ''tree is not in canonical form'') else tx_ret changes))))"

definition received_changes :: "env \<Rightarrow> 64 word \<Rightarrow> object_id \<Rightarrow> bool \<Rightarrow> changes option tx" where
  "received_changes E expected root received =
     (if received then tx_bind (verify_received E expected root) (\<lambda>ch. tx_ret (Some ch)) else tx_ret None)"

definition head_changes :: "env \<Rightarrow> world_version \<Rightarrow> object_id \<Rightarrow> changes option \<Rightarrow> changes tx" where
  "head_changes E head root changes =
     (case changes of
       Some ch \<Rightarrow> tx_ret ch
     | None \<Rightarrow> tx_read (sql_read E (\<lambda>s. tree_diff (en_sha E) s (wv_tree head) root)))"

text \<open>The attempt's row, and the new version when the expected one is the head.\<close>

definition settle_attempt ::
  "env \<Rightarrow> world_version \<Rightarrow> string \<Rightarrow> 64 word \<Rightarrow> object_id \<Rightarrow> changes option \<Rightarrow> advance_outcome tx" where
  "settle_attempt E head operation expected root changes =
     (let accepted = (expected = wv_number head) in
      tx_bind (tx_read (\<lambda>_. if accepted then next_number (wv_number head) else Inr (wv_number head))) (\<lambda>result.
      tx_bind (insert_attempt \<lparr>ar_id = operation, ar_expected = version_sql expected, ar_tree = Some root,
                               ar_accepted = (if accepted then 1 else 0), ar_result = version_sql result\<rparr>) (\<lambda>_.
      if \<not> accepted then tx_ret (AdvanceStale result)
      else
        tx_bind (head_changes E head root changes) (\<lambda>ch.
        tx_bind (append_version_in E head operation ch root) (\<lambda>version. tx_ret (Advanced version))))))"

definition record_attempt ::
  "env \<Rightarrow> world_version \<Rightarrow> string \<Rightarrow> 64 word \<Rightarrow> object_id \<Rightarrow> bool \<Rightarrow> advance_outcome tx" where
  "record_attempt E head operation expected root received =
     (if expected > wv_number head then tx_fail (MissingVersion expected)
      else tx_bind (received_changes E expected root received) (settle_attempt E head operation expected root))"

definition advance_in :: "env \<Rightarrow> string \<Rightarrow> 64 word \<Rightarrow> object_id \<Rightarrow> bool \<Rightarrow> advance_outcome tx" where
  "advance_in E operation expected root received =
     tx_bind (tx_read head_in) (\<lambda>head.
     tx_bind (tx_read (\<lambda>d. if operation_exists_in operation d then Inl (OperationIdReused operation) else Inr ())) (\<lambda>_.
     tx_bind (tx_read (attempt_in operation)) (\<lambda>found.
     case found of
       Some attempt \<Rightarrow>
         if at_expected attempt \<noteq> expected \<or> at_tree attempt \<noteq> Some root
         then tx_fail (OperationIdReused operation)
         else tx_read (attempt_outcome attempt)
     | None \<Rightarrow> record_attempt E head operation expected root received)))"

definition compare_and_advance :: "env \<Rightarrow> string \<Rightarrow> 64 word \<Rightarrow> object_id \<Rightarrow> advance_outcome tx" where
  "compare_and_advance E operation expected manifest =
     tx_bind (tx_read validate_format) (\<lambda>_.
     tx_bind (tx_read (\<lambda>d. if operation_exists_in operation d then Inl (OperationIdReused operation) else Inr ())) (\<lambda>_.
     tx_bind (tx_read (manifest_in E manifest)) (\<lambda>candidate.
     tx_bind (sql_write E (tree_build (en_fuel E) (en_sha E) candidate)) (\<lambda>root.
     advance_in E operation expected root False))))"

definition advance_to_tree :: "env \<Rightarrow> string \<Rightarrow> 64 word \<Rightarrow> object_id \<Rightarrow> advance_outcome tx" where
  "advance_to_tree E operation expected tree =
     tx_bind (tx_read validate_format) (\<lambda>_. advance_in E operation expected tree True)"

text \<open>World 0 of a new database, whose repository identity is drawn at random.\<close>

definition initial_db :: "env \<Rightarrow> object_id \<Rightarrow> error + db" where
  "initial_db E identity =
     (let fresh = \<lparr>db_format = FORMAT, db_application = APPLICATION, db_objects = [], db_attempts = [], db_versions = [],
                   db_changes = [], db_identity = [(1, identity)], db_heads = [], db_layer_attempts = [],
                   db_publications = [], db_stacks = [], db_paths = [], db_blame = []\<rparr>
      in ebind (tx_bind (insert_object E Tree [CHR 0x00]) (\<lambda>empty.
                insert_version \<lparr>vr_number = 0, vr_id = version_id (en_sha E) (en_changes E) None empty [],
                                vr_tree = empty, vr_operation = None\<rparr>) fresh) (\<lambda>(_, d). Inr d))"

section \<open>Checking a history\<close>

text \<open>One version against its parent, whose root the index is pinned to.\<close>

definition derived_root :: "env \<Rightarrow> db \<Rightarrow> world_version option \<Rightarrow> changes \<Rightarrow> error + object_id" where
  "derived_root E d parent changes =
     (case parent of
       None \<Rightarrow>
         if changes = [] then sql_verify E (tree_apply (en_fuel E) (en_sha E) (empty_tree (en_sha E)) changes) d
         else Inl (CorruptRepository ''invalid initial World'')
     | Some parent \<Rightarrow>
         ebind (case normalize (sql_index E d (wv_tree parent)) changes of
                  Inr normalized \<Rightarrow>
                    if normalized = changes then Inr ()
                    else Inl (CorruptRepository ''World changeset is not canonical against its parent'')
                | Inl (InvalidInput _) \<Rightarrow> Inl (CorruptRepository ''World changeset is not canonical against its parent'')
                | Inl e \<Rightarrow> Inl e)
           (\<lambda>_. sql_verify E (tree_apply (en_fuel E) (en_sha E) (wv_tree parent) changes) d))"

definition check_binding :: "db \<Rightarrow> nat \<Rightarrow> world_version \<Rightarrow> object_id \<Rightarrow> error + unit" where
  "check_binding d index version root =
     (case wv_operation version of
       Some operation \<Rightarrow>
         ebind (attempt_in operation d) (\<lambda>found.
         ebind (ok_or (CorruptRepository ''missing accepted attempt'') found) (\<lambda>attempt.
           if \<not> at_accepted attempt \<or> at_result attempt \<noteq> wv_number version
              \<or> at_expected attempt \<noteq> wv_number version - 1
           then Inl (CorruptRepository ''version and operation disagree'')
           else if at_tree attempt \<noteq> None \<and> at_tree attempt \<noteq> Some root
           then Inl (CorruptRepository ''accepted tree disagrees with derived World'')
           else Inr ()))
     | None \<Rightarrow> if index \<noteq> 0 then Inl (CorruptRepository ''invalid initial World'') else Inr ())"

definition check_version :: "env \<Rightarrow> db \<Rightarrow> nat \<Rightarrow> world_version option \<Rightarrow> version_row \<Rightarrow> error + world_version" where
  "check_version E d index parent row =
     ebind (decode_version row) (\<lambda>version.
     if unat (wv_number version) \<noteq> index then Inl (CorruptRepository ''World history is not contiguous'')
     else
       ebind (changeset_in (wv_number version) d) (\<lambda>changes.
       ebind (derived_root E d parent changes) (\<lambda>root.
       if root \<noteq> wv_tree version then Inl (CorruptRepository ''World tree disagrees with its derivation'')
       else if wv_id version \<noteq> version_id (en_sha E) (en_changes E) (map_option wv_id parent) root changes
       then Inl (CorruptRepository ''World version identity disagrees with its changeset'')
       else ebind (check_binding d index version root) (\<lambda>_. Inr version))))"

fun check_versions :: "env \<Rightarrow> db \<Rightarrow> nat \<Rightarrow> world_version option \<Rightarrow> version_row list \<Rightarrow> error + world_version list" where
  "check_versions E d index parent [] = Inr []"
| "check_versions E d index parent (row # rows) =
     ebind (check_version E d index parent row) (\<lambda>version.
     ebind (check_versions E d (Suc index) (Some version) rows) (\<lambda>history. Inr (version # history)))"

fun check_attempts :: "env \<Rightarrow> db \<Rightarrow> string list \<Rightarrow> error + unit" where
  "check_attempts E d [] = Inr ()"
| "check_attempts E d (operation # operations) =
     ebind (attempt_in operation d) (\<lambda>found.
     ebind (ok_or (CorruptRepository ''missing attempt'') found) (\<lambda>attempt.
     ebind (case at_tree attempt of
              Some tree \<Rightarrow>
                if at_accepted attempt then Inr ()
                else ebind (sql_read E (\<lambda>s. tree_entries (en_sha E) s tree) d) (\<lambda>m. validate_entries E d (map snd m))
            | None \<Rightarrow>
                if operation_exists_in operation d then Inr ()
                else Inl (CorruptRepository ''World attempt has no candidate'')) (\<lambda>_.
     ebind (attempt_outcome attempt d) (\<lambda>_. check_attempts E d operations))))"

definition history_in :: "env \<Rightarrow> db \<Rightarrow> error + world_version list" where
  "history_in E d =
     (let rows = sort_key vr_number (db_versions d) in
      if rows = [] then Inl (CorruptRepository ''missing initial World'')
      else if list_ex (\<lambda>r. cr_version r \<notin> set (map vr_number (db_versions d))) (db_changes d)
      then Inl (CorruptRepository ''orphan World change'')
      else
        ebind (check_versions E d 0 None rows) (\<lambda>history.
        ebind (check_attempts E d (sort (map ar_id (db_attempts d)))) (\<lambda>_. Inr history)))"

end
