(* ===== verification/Stored.thy ===== *)
theory Stored
  imports Objects
begin

text \<open>
  What the objects table keeps: every row hashes to its ID, no operation changes or removes a row, a stored object reads
  back, and a tree operation run with \<open>Sink::Write\<close> stores all of its chunks, so that \<open>Sink::Verify\<close> accepts the
  same operation at any later time.
\<close>

section \<open>The invariant of the table\<close>

definition row_ok :: "env \<Rightarrow> object_row \<Rightarrow> bool" where
  "row_ok E r \<longleftrightarrow> (\<exists>k. or_kind r = kind_sql k \<and> or_id r = object_hash (en_sha E) k (or_bytes r))"

definition objects_ok :: "env \<Rightarrow> db \<Rightarrow> bool" where
  "objects_ok E d \<longleftrightarrow> distinct (map or_id (db_objects d)) \<and> (\<forall>r \<in> set (db_objects d). row_ok E r)
     \<and> (\<exists>r \<in> set (db_objects d). or_id r = empty_tree (en_sha E) \<and> or_kind r = kind_sql Tree \<and> or_bytes r = [CHR 0x00])"

text \<open>Rows are only appended, and only to the objects.\<close>

definition adds_objects :: "db \<Rightarrow> db \<Rightarrow> bool" where
  "adds_objects d d' \<longleftrightarrow> (\<exists>rows. d' = d\<lparr>db_objects := db_objects d @ rows\<rparr>)"

definition keeps_objects :: "db \<Rightarrow> db \<Rightarrow> bool" where
  "keeps_objects d d' \<longleftrightarrow> (\<forall>i r. object_at d i = Some r \<longrightarrow> object_at d' i = Some r)"

lemma kind_sql_decode [simp]: "kind_decode (kind_sql k) = Inr k"
  by (cases k) (simp_all add: kind_decode_def)

lemma kind_sql_inj [simp]: "kind_sql k = kind_sql k' \<longleftrightarrow> k = k'"
  using kind_sql_decode by (metis Inr_inject)

lemma kind_decode_Inr: "kind_decode n = Inr k \<longleftrightarrow> n = kind_sql k"
  by (cases k) (auto simp: kind_decode_def split: if_splits)

lemma adds_objects_refl [simp]: "adds_objects d d"
  unfolding adds_objects_def by (intro exI [of _ "[]"]) simp

lemma adds_objects_trans: "adds_objects a b \<Longrightarrow> adds_objects b c \<Longrightarrow> adds_objects a c"
  unfolding adds_objects_def by (metis append.assoc db.select_convs(3) db.surjective db.update_convs(3))

lemma adds_keeps: "adds_objects d d' \<Longrightarrow> keeps_objects d d'"
  by (auto simp: adds_objects_def keeps_objects_def object_at_def find_row_append split: option.split)

lemma keeps_objects_refl [simp]: "keeps_objects d d"
  by (simp add: keeps_objects_def)

lemma keeps_objects_trans: "keeps_objects a b \<Longrightarrow> keeps_objects b c \<Longrightarrow> keeps_objects a c"
  unfolding keeps_objects_def by blast

lemma keeps_extends: "keeps_objects d d' \<Longrightarrow> extends (tree_view d) (tree_view d')"
  by (auto simp: keeps_objects_def extends_def tree_view_def split: option.splits if_splits)

lemma keeps_same: "db_objects d' = db_objects d \<Longrightarrow> keeps_objects d d'"
  by (simp add: keeps_objects_def object_at_def)

lemma same_objects_ok: "db_objects d' = db_objects d \<Longrightarrow> objects_ok E d' = objects_ok E d"
  by (simp add: objects_ok_def)

lemma object_at_row: "object_at d i = Some r \<Longrightarrow> r \<in> set (db_objects d) \<and> or_id r = i"
  unfolding object_at_def by (auto dest: find_row_Some)

lemma object_at_id: "distinct (map or_id (db_objects d)) \<Longrightarrow> r \<in> set (db_objects d) \<Longrightarrow> object_at d (or_id r) = Some r"
  unfolding object_at_def by (rule find_row_key)

text \<open>Under the invariant, reading an object succeeds exactly on a row of its kind.\<close>

lemma read_object_iff:
  assumes "objects_ok E d"
  shows "read_object E d i k = Inr bs \<longleftrightarrow> object_at d i = Some \<lparr>or_id = i, or_kind = kind_sql k, or_bytes = bs\<rparr>"
proof
  assume "read_object E d i k = Inr bs"
  then obtain r where r: "object_at d i = Some r" "or_kind r = kind_sql k" "or_bytes r = bs"
    unfolding read_object_def by (auto simp: result_simps kind_decode_Inr split: if_splits)
  then show "object_at d i = Some \<lparr>or_id = i, or_kind = kind_sql k, or_bytes = bs\<rparr>"
    using object_at_row [OF r(1)] by (cases r) simp
next
  assume r: "object_at d i = Some \<lparr>or_id = i, or_kind = kind_sql k, or_bytes = bs\<rparr>"
  then have "row_ok E \<lparr>or_id = i, or_kind = kind_sql k, or_bytes = bs\<rparr>"
    using assms object_at_row [OF r] unfolding objects_ok_def by blast
  then have "i = object_hash (en_sha E) k bs" by (auto simp: row_ok_def)
  then show "read_object E d i k = Inr bs" using r by (simp add: read_object_def ok_or_def)
qed

lemma read_object_keeps:
  assumes "keeps_objects d d'" "read_object E d i k = Inr bs"
  shows "read_object E d' i k = Inr bs"
proof -
  obtain r where "object_at d i = Some r" using assms(2) by (auto simp: read_object_def result_simps)
  then have "object_at d' i = Some r" using assms(1) unfolding keeps_objects_def by blast
  then have "object_at d' i = object_at d i" using \<open>object_at d i = Some r\<close> by simp
  then show ?thesis using assms(2) unfolding read_object_def by simp
qed

lemma validate_entry_keeps: "keeps_objects d d' \<Longrightarrow> validate_entry E d e = Inr u \<Longrightarrow> validate_entry E d' e = Inr u"
  unfolding validate_entry_def using read_object_keeps [of d d' E "entry_content e" Blob]
  by (auto simp: result_simps split: if_splits)

lemma validate_entries_iff: "validate_entries E d es = Inr u \<longleftrightarrow> (\<forall>e \<in> set es. validate_entry E d e = Inr ())"
  by (induction es) (auto simp: result_simps)

lemma insert_object_Inr:
  assumes "objects_ok E d" "insert_object E k bs d = Inr (i, d')"
  shows "i = object_hash (en_sha E) k bs" "objects_ok E d'" "adds_objects d d'" "read_object E d' i k = Inr bs"
proof -
  define j where "j = object_hash (en_sha E) k bs"
  define e where "e = (case object_at d j of Some _ \<Rightarrow> d
      | None \<Rightarrow> d\<lparr>db_objects := db_objects d @ [\<lparr>or_id = j, or_kind = kind_sql k, or_bytes = bs\<rparr>]\<rparr>)"
  have r: "read_object E e j k = Inr bs" "i = j" "d' = e"
    using assms(2) unfolding insert_object_def Let_def j_def [symmetric] e_def [symmetric]
    by (auto simp: result_simps split: if_splits)
  have "objects_ok E e \<and> adds_objects d e"
  proof (cases "object_at d j")
    case None
    then have "j \<notin> or_id ` set (db_objects d)" by (auto simp: object_at_def find_row_None)
    moreover have "row_ok E \<lparr>or_id = j, or_kind = kind_sql k, or_bytes = bs\<rparr>" by (auto simp: row_ok_def j_def)
    ultimately show ?thesis using assms(1) None unfolding e_def by (auto simp: objects_ok_def adds_objects_def)
  next
    case (Some row)
    then show ?thesis using assms(1) unfolding e_def by simp
  qed
  then show "i = object_hash (en_sha E) k bs" "objects_ok E d'" "adds_objects d d'" "read_object E d' i k = Inr bs"
    using r by (auto simp: j_def)
qed

text \<open>An insertion is refused only where its ID stands for another object, which takes a SHA-256 collision.\<close>

lemma insert_object_Inl:
  assumes "objects_ok E d" "insert_object E k bs d = Inl e"
  shows "\<exists>r. object_at d (object_hash (en_sha E) k bs) = Some r \<and> (or_kind r, or_bytes r) \<noteq> (kind_sql k, bs)"
proof (rule ccontr)
  define j where "j = object_hash (en_sha E) k bs"
  let ?new = "\<lparr>or_id = j, or_kind = kind_sql k, or_bytes = bs\<rparr>"
  assume n: "\<not> ?thesis"
  show False
  proof (cases "object_at d j")
    case None
    let ?e = "d\<lparr>db_objects := db_objects d @ [?new]\<rparr>"
    have "object_at ?e j = Some ?new" using None by (auto simp: object_at_def find_row_append) (simp add: find_row_def)
    then have "read_object E ?e j k = Inr bs" by (simp add: read_object_def ok_or_def j_def)
    then show False using assms(2) None unfolding insert_object_def Let_def j_def by simp
  next
    case (Some r)
    then have "or_kind r = kind_sql k" "or_bytes r = bs" "or_id r = j" using n object_at_row [OF Some] unfolding j_def by auto
    then have "object_at d j = Some ?new" using Some by (cases r) simp
    then have "read_object E d j k = Inr bs" using read_object_iff [OF assms(1)] by blast
    then show False using assms(2) Some unfolding insert_object_def Let_def j_def by simp
  qed
qed

section \<open>Stored chunks\<close>

lemma tree_view_simps [simp]:
  "ms_saved (tree_view d) = []" "\<not> ms_collided (tree_view d)"
  by (simp_all add: tree_view_def)

lemma tree_view_read:
  assumes "objects_ok E d"
  shows "ms_objects (tree_view d) i = Some bs \<longleftrightarrow> read_object E d i Tree = Inr bs"
proof -
  have "ms_objects (tree_view d) i = Some bs \<longleftrightarrow> (\<exists>r. object_at d i = Some r \<and> or_kind r = kind_sql Tree \<and> or_bytes r = bs)"
    by (auto simp: tree_view_def split: option.splits)
  also have "\<dots> \<longleftrightarrow> object_at d i = Some \<lparr>or_id = i, or_kind = kind_sql Tree, or_bytes = bs\<rparr>"
  proof
    assume "\<exists>r. object_at d i = Some r \<and> or_kind r = kind_sql Tree \<and> or_bytes r = bs"
    then obtain r where r: "object_at d i = Some r" "or_kind r = kind_sql Tree" "or_bytes r = bs" by blast
    then show "object_at d i = Some \<lparr>or_id = i, or_kind = kind_sql Tree, or_bytes = bs\<rparr>"
      using object_at_row [OF r(1)] by (cases r) simp
  qed auto
  finally show ?thesis using read_object_iff [OF assms] by simp
qed

lemma tree_view_empty: "objects_ok E d \<Longrightarrow> ms_objects (tree_view d) (empty_tree (en_sha E)) = Some [CHR 0x00]"
proof -
  assume ok: "objects_ok E d"
  then obtain r where r: "r \<in> set (db_objects d)" "or_id r = empty_tree (en_sha E)" "or_kind r = kind_sql Tree" "or_bytes r = [CHR 0x00]"
    unfolding objects_ok_def by blast
  then have "object_at d (empty_tree (en_sha E)) = Some r" using ok object_at_id [of d r] unfolding objects_ok_def by simp
  then show ?thesis using r by (simp add: tree_view_def)
qed

abbreviation saves :: "(bytes \<Rightarrow> bytes) \<Rightarrow> chunk list \<Rightarrow> (object_id \<times> bytes) list" where
  "saves sha cs \<equiv> map (\<lambda>c. (chunk_id sha c, chunk_encode c)) cs"

lemma insert_saves:
  assumes "objects_ok E d" "extends s (tree_view d)" "\<not> ms_collided s"
    "tx_each (\<lambda>(_, bytes). tx_bind (insert_object E Tree bytes) (\<lambda>_. tx_ret ())) (saves (en_sha E) cs) d = Inr (u, d')"
  shows "objects_ok E d' \<and> adds_objects d d' \<and> \<not> ms_collided (puts (en_sha E) cs s) \<and> extends (puts (en_sha E) cs s) (tree_view d')"
  using assms
proof (induction cs arbitrary: s d)
  case Nil
  then show ?case by (simp add: tx_ret_Inr)
next
  case (Cons c cs)
  obtain i d1 where i: "insert_object E Tree (chunk_encode c) d = Inr (i, d1)"
      and rest: "tx_each (\<lambda>(_, bytes). tx_bind (insert_object E Tree bytes) (\<lambda>_. tx_ret ())) (saves (en_sha E) cs) d1 = Inr (u, d')"
    using Cons.prems(4) by (auto simp: tx_result)
  note ins = insert_object_Inr [OF Cons.prems(1) i]
  have id: "i = chunk_id (en_sha E) c" using ins(1) by (simp add: chunk_id_def)
  have new: "ms_objects (tree_view d1) (chunk_id (en_sha E) c) = Some (chunk_encode c)"
    using tree_view_read [OF ins(2)] ins(4) id by simp
  have up: "extends s (tree_view d1)" using Cons.prems(2) keeps_extends [OF adds_keeps [OF ins(3)]] extends_trans by blast
  let ?s = "snd (put_chunk (en_sha E) c s)"
  have "\<not> clashes (en_sha E) (chunk_id (en_sha E) c) (chunk_encode c) s"
    using up new tree_view_empty [OF ins(2)] unfolding clashes_def extends_def by (auto split: option.split)
  then have "\<not> ms_collided ?s" using Cons.prems(3) by simp
  moreover have "extends ?s (tree_view d1)" using up new by (auto simp: extends_def)
  ultimately show ?case using Cons.IH [OF ins(2) _ _ rest, of ?s] ins(3) adds_objects_trans by auto
qed

lemma sql_write_Inr:
  assumes "objects_ok E d" "steady (en_sha E) m" "sql_write E m d = Inr (x, d')"
  obtains s where "m (tree_view d) = (Inr x, s)" "\<not> ms_collided s" "extends s (tree_view d')"
    "objects_ok E d'" "adds_objects d d'"
proof -
  obtain s where s: "m (tree_view d) = (Inr x, s)"
    and t: "tx_each (\<lambda>(_, bytes). tx_bind (insert_object E Tree bytes) (\<lambda>_. tx_ret ())) (ms_saved s) d = Inr ((), d')"
    using assms(3) unfolding sql_write_def by (auto simp: tx_result split: prod.splits sum.splits)
  obtain cs where cs: "s = puts (en_sha E) cs (tree_view d)" by (rule steadyD [OF assms(2) s]) blast
  then have "ms_saved s = saves (en_sha E) cs" by (simp add: puts_saved)
  from insert_saves [OF assms(1) extends_refl tree_view_simps(2) t [unfolded this]] show ?thesis
    using that s cs by metis
qed

text \<open>An operation whose chunks are stored passes \<open>Sink::Verify\<close>, then and later.\<close>

lemma verify_saves:
  assumes "objects_ok E d" "\<And>c. c \<in> set cs \<Longrightarrow> ms_objects (tree_view d) (chunk_id (en_sha E) c) = Some (chunk_encode c)"
  shows "verify_saved E d (saves (en_sha E) cs) = Inr ()"
  using assms(2)
proof (induction cs)
  case (Cons c cs)
  have "read_object E d (chunk_id (en_sha E) c) Tree = Inr (chunk_encode c)"
    using Cons.prems [of c] tree_view_read [OF assms(1)] by simp
  then show ?case using Cons by simp
qed simp

lemma sql_verify_Inr:
  assumes "objects_ok E d" "steady (en_sha E) m" "m s0 = (Inr x, s)" "\<not> ms_collided s" "extends s (tree_view d)"
  shows "sql_verify E m d = Inr x"
proof -
  obtain cs where cs: "s = puts (en_sha E) cs s0" "\<And>t. \<not> ms_collided s \<Longrightarrow> extends s t \<Longrightarrow> m t = (Inr x, puts (en_sha E) cs t)"
    by (rule steadyD [OF assms(2,3)]) blast
  have "ms_objects (tree_view d) (chunk_id (en_sha E) c) = Some (chunk_encode c)" if "c \<in> set cs" for c
    using puts_holds [of "en_sha E" cs s0 c] that assms(4,5) cs(1) unfolding extends_def by blast
  from verify_saves [OF assms(1) this] have "verify_saved E d (saves (en_sha E) cs) = Inr ()" .
  then show ?thesis using cs(2) [OF assms(4,5)] by (simp add: sql_verify_def puts_saved)
qed

lemma sql_read_Inr [result_simps]: "sql_read E r d = Inr x \<longleftrightarrow> r (tree_view d) = Inr x"
  by (simp add: sql_read_def emap_err_Inr_iff)

end
