(* ===== verification/Received.thy ===== *)
theory Received
  imports Replays
begin

text \<open>
  Trees received from elsewhere, of which nothing is known but that their chunks decode: what \<open>diff\<close> and \<open>entries\<close>
  read from one is a valid changeset or a valid map all the same.
\<close>

section \<open>Chunks that decode\<close>

lemma chunk_at_ok: "chunk_at sha s i = Inr c \<Longrightarrow> chunk_ok c"
  using chunk_at_id by blast

lemma child_at_ok: "child_at sha s c i = Inr c' \<Longrightarrow> chunk_ok c'"
  using chunk_at_ok by (simp add: child_at_Inr) blast

definition side_ok :: "side \<Rightarrow> bool" where
  "side_ok side \<longleftrightarrow> (\<forall>(i, c) \<in> set side. chunk_ok c)"

lemma load_side_ok: "load_side sha s i = Inr a \<Longrightarrow> side_ok a"
  using chunk_at_ok by (auto simp: load_side_def side_ok_def result_simps split: option.splits)

lemma emap_members: "emap f xs = Inr ys \<Longrightarrow> y \<in> set ys \<Longrightarrow> \<exists>x \<in> set xs. f x = Inr y"
  by (induction xs arbitrary: ys) (auto simp: result_simps)

lemma expand_side_ok:
  assumes "expand_side sha s level a = Inr b" "side_ok a"
  shows "side_ok b"
  unfolding side_ok_def
proof clarify
  fix i c assume m: "(i, c) \<in> set b"
  obtain parts where parts: "emap (\<lambda>(i, c). if ch_level c < level then Inr [(i, c)]
         else emap (\<lambda>it. ebind (child_at sha s c it) (\<lambda>child. Inr (it_id it, child))) (ch_items c)) a = Inr parts" "b = concat parts"
    using assms(1) by (auto simp: expand_side_def result_simps)
  from m parts(2) obtain part where part: "part \<in> set parts" "(i, c) \<in> set part" by auto
  from emap_members [OF parts(1) part(1)] obtain j d where jd: "(j, d) \<in> set a"
    "(if ch_level d < level then Inr [(j, d)]
      else emap (\<lambda>it. ebind (child_at sha s d it) (\<lambda>child. Inr (it_id it, child))) (ch_items d)) = Inr part" by auto
  show "chunk_ok c"
  proof (cases "ch_level d < level")
    case True
    then show ?thesis using jd part(2) assms(2) by (auto simp: side_ok_def)
  next
    case False
    then have "emap (\<lambda>it. ebind (child_at sha s d it) (\<lambda>child. Inr (it_id it, child))) (ch_items d) = Inr part" using jd(2) by simp
    from emap_members [OF this part(2)] show ?thesis using child_at_ok by (auto simp: result_simps)
  qed
qed

lemma diff_loop_ok:
  "diff_loop sha s a b = Inr (a', b') \<Longrightarrow> side_ok a \<Longrightarrow> side_ok b \<Longrightarrow> side_ok (a' @ b') \<and> top_level (a' @ b') = 0"
proof (induction sha s a b rule: diff_loop.induct)
  case (1 sha s a b)
  define shared where "shared = filter (\<lambda>i. i \<in> set (map fst a)) (map fst b)"
  define a1 where "a1 = filter (\<lambda>(i, c). i \<notin> set shared) a"
  define b1 where "b1 = filter (\<lambda>(i, c). i \<notin> set shared) b"
  define level where "level = top_level (a1 @ b1)"
  note defs = shared_def a1_def b1_def level_def
  have ok: "side_ok a1" "side_ok b1" using "1.prems"(2,3) by (auto simp: side_ok_def a1_def b1_def)
  have run: "diff_loop sha s a b = (if level = 0 then Inr (a1, b1)
      else ebind (expand_side sha s level a1) (\<lambda>a. ebind (expand_side sha s level b1) (\<lambda>b. diff_loop sha s a b)))"
    by (subst diff_loop.simps, unfold Let_def defs [symmetric]) simp
  show ?case
  proof (cases "level = 0")
    case True
    then have "a' = a1" "b' = b1" using "1.prems"(1) by (simp_all add: run)
    moreover have "top_level (a1 @ b1) = 0" using True level_def by simp
    ultimately show ?thesis using ok by (auto simp: side_ok_def)
  next
    case False
    then obtain a2 b2 where x: "expand_side sha s level a1 = Inr a2" "expand_side sha s level b1 = Inr b2"
        "diff_loop sha s a2 b2 = Inr (a', b')" using "1.prems"(1) by (auto simp: run result_simps)
    from "1.IH" [OF defs False x(1,2,3)] show ?thesis using expand_side_ok [OF x(1) ok(1)] expand_side_ok [OF x(2) ok(2)] by simp
  qed
qed

section \<open>Names and nodes of a directory\<close>

definition named :: "string \<Rightarrow> bool" where
  "named n \<longleftrightarrow> valid_name n \<and> utf8 n"

definition node_ok :: "node option \<Rightarrow> bool" where
  "node_ok x \<longleftrightarrow> (\<forall>e. x = Some (File e) \<longrightarrow> oid_ok (entry_content e))"

lemma item_named: "item_ok l i \<Longrightarrow> named (it_name i) \<and> node_ok (Some (item_node i))"
  by (auto simp: item_ok_def named_def node_ok_def item_node_def oid_ok_def split: if_splits)

lemma diff_merge_ok:
  "(n, x, y) \<in> set (diff_merge ls rs) \<Longrightarrow> \<forall>i \<in> set ls \<union> set rs. item_ok (l i) i \<Longrightarrow> named n \<and> node_ok x \<and> node_ok y"
  by (induction ls rs rule: diff_merge.induct) (auto dest: item_named simp: node_ok_def split: if_splits)

lemma side_items: "side_ok a \<Longrightarrow> i \<in> set (concat (map (ch_items \<circ> snd) a)) \<Longrightarrow> \<exists>l. item_ok l i"
  by (fastforce simp: side_ok_def chunk_ok_def list_all_iff)

lemma diff_items_ok: "diff_items sha s a b = Inr items \<Longrightarrow> (n, x, y) \<in> set items \<Longrightarrow> named n \<and> node_ok x \<and> node_ok y"
proof -
  assume h: "diff_items sha s a b = Inr items" "(n, x, y) \<in> set items"
  then obtain a1 b1 a2 b2 where l: "load_side sha s a = Inr a1" "load_side sha s b = Inr b1" "diff_loop sha s a1 b1 = Inr (a2, b2)"
      and items: "items = diff_merge (concat (map (ch_items \<circ> snd) a2)) (concat (map (ch_items \<circ> snd) b2))"
    by (auto simp: diff_items_def result_simps split: prod.splits)
  have ok: "side_ok (a2 @ b2)" using diff_loop_ok [OF l(3)] load_side_ok l(1,2) by blast
  define l where "l = (\<lambda>i. SOME l. item_ok l i)"
  have "item_ok (l i) i" if "i \<in> set (concat (map (ch_items \<circ> snd) a2)) \<union> set (concat (map (ch_items \<circ> snd) b2))" for i
    using side_items [OF ok, of i] that unfolding l_def by (auto intro: someI)
  then show ?thesis using diff_merge_ok h(2) unfolding items by blast
qed

text \<open>The prefix of a directory, which is empty or ends in a slash.\<close>

definition prefix_ok :: "string \<Rightarrow> bool" where
  "prefix_ok pre \<longleftrightarrow> pre = [] \<or> (\<exists>q. pre = q @ ''/'' \<and> utf8 q \<and> list_all valid_name (split_on (CHR ''/'') q))"

lemma joined_valid:
  assumes "prefix_ok pre" "named n" "joined pre n = Inr path"
  shows "path_valid path" "prefix_ok (path @ ''/'')"
proof -
  have path: "path = pre @ n" "length path \<le> MAX_PATH" "length (filter (\<lambda>c. c = CHR ''/'') path) < MAX_DEPTH"
    using assms(3) by (auto simp: joined_Inr)
  have n: "valid_name n" "utf8 n" "n \<noteq> []" "split_on (CHR ''/'') n = [n]"
    using assms(2) split_on_no_sep [of "CHR ''/''" n] by (auto simp: named_def valid_name_def list_all_iff)
  have names: "list_all valid_name (split_on (CHR ''/'') path) \<and> utf8 path"
  proof (cases "pre = []")
    case True
    then show ?thesis using n path(1) by simp
  next
    case False
    then obtain q where q: "pre = q @ ''/''" "utf8 q" "list_all valid_name (split_on (CHR ''/'') q)"
      using assms(1) by (auto simp: prefix_ok_def)
    have "utf8 (''/'' @ n)" using utf8_append [of "''/''" n] n(2) utf8_ascii [of "''/''"] by (simp add: u8_in_def)
    then show ?thesis using q n path(1) utf8_append [OF q(2)] split_on_append_sep [of "CHR ''/''" q n] by simp
  qed
  then show "path_valid path" using path n(3) by (simp add: path_valid_def path_ok_def length_split_on)
  show "prefix_ok (path @ ''/'')" using names unfolding prefix_ok_def by blast
qed

section \<open>Differences of any two trees\<close>

definition change_ok :: "string \<times> file_entry option \<Rightarrow> bool" where
  "change_ok c \<longleftrightarrow> path_valid (fst c) \<and> (\<forall>x. snd c = Some x \<longrightarrow> oid_ok (entry_content x))"

lemma node_file_ok: "node_ok x \<Longrightarrow> Option.bind x node_file = Some e \<Longrightarrow> oid_ok (entry_content e)"
  by (cases x) (auto simp: node_ok_def split: node.splits elim: node_file.elims)

lemma diff_valid_paths:
  "diff_dir sha s from' to pre = Inr ds \<Longrightarrow> prefix_ok pre \<Longrightarrow> \<forall>c \<in> set ds. change_ok c"
  "diff_each sha s items pre = Inr es \<Longrightarrow> prefix_ok pre \<Longrightarrow>
    \<forall>(n, x, y) \<in> set items. named n \<and> node_ok x \<and> node_ok y \<Longrightarrow> \<forall>c \<in> set es. change_ok c"
proof (induction sha s from' to pre and sha s items pre arbitrary: ds and es rule: diff_dir_diff_each.induct)
  case (1 sha s from' to pre)
  show ?case
  proof (cases "from' = to")
    case True
    then show ?thesis using "1.prems"(1) by (simp add: diff_dir.simps)
  next
    case False
    then obtain items where items: "diff_items sha s from' to = Inr items" "diff_each sha s items pre = Inr ds"
      using "1.prems"(1) by (auto simp: diff_dir.simps result_simps)
    have "\<forall>(n, x, y) \<in> set items. named n \<and> node_ok x \<and> node_ok y" using diff_items_ok [OF items(1)] by blast
    from "1.IH" [OF False items(1,2) "1.prems"(2) this] show ?thesis .
  qed
next
  case (2 sha s pre)
  then show ?case by (simp add: diff_each.simps)
next
  case (3 sha s name before after items pre)
  define new where "new = Option.bind after node_file"
  define from' where "from' = Option.bind before node_dir"
  define to where "to = Option.bind after node_dir"
  obtain path where path: "joined pre name = Inr path"
    using "3.prems"(1) by (auto simp: diff_each.simps result_simps)
  define here where "here = (if Option.bind before node_file \<noteq> new then [(path, new)] else [])"
  obtain under others where u: "(if from' \<noteq> to then diff_dir sha s from' to (path @ ''/'') else Inr []) = Inr under"
      and o: "diff_each sha s items pre = Inr others" and es: "es = here @ under @ others"
    using "3.prems"(1)
    by (simp only: diff_each.simps path ebind.simps Let_def new_def [symmetric] from'_def [symmetric] to_def [symmetric]
        here_def [symmetric] ebind_Inr_iff) auto
  have ok: "named name" "node_ok after" using "3.prems"(3) by auto
  note valid = joined_valid [OF "3.prems"(2) ok(1) path]
  have "\<forall>c \<in> set here. change_ok c"
    using valid(1) node_file_ok [OF ok(2)] unfolding here_def new_def by (auto simp: change_ok_def)
  moreover have "\<forall>c \<in> set under. change_ok c"
  proof (cases "from' \<noteq> to")
    case True
    then have d: "diff_dir sha s from' to (path @ ''/'') = Inr under" using u by simp
    from "3.IH"(1) [OF path new_def here_def from'_def to_def True d valid(2)] show ?thesis .
  qed (use u in simp)
  moreover have "\<forall>c \<in> set others. change_ok c"
    using "3.IH"(2) [OF path new_def here_def from'_def to_def u o "3.prems"(2)] "3.prems"(3) by simp
  ultimately show ?case unfolding es by auto
qed

lemma omap_of_members: "x \<in> set (omap_of xs) \<Longrightarrow> x \<in> set xs"
proof -
  have "set (fold (\<lambda>(k, v) m. omap_insert k v m) xs m) \<subseteq> set m \<union> set xs" for m
  proof (induction xs arbitrary: m)
    case (Cons y xs)
    obtain k v where "y = (k, v)" by force
    then show ?case using Cons [of "omap_insert k v m"] set_omap_insert_subset [of k v m] by fastforce
  qed simp
  then show "x \<in> set (omap_of xs) \<Longrightarrow> x \<in> set xs" unfolding omap_of_def by fastforce
qed

lemma changes_new_Inr: "changes_new xs = Inr ch \<Longrightarrow> omap_ok ch \<and> map_of ch = map_of xs"
  using collect_unique_Inr [of _ xs "[]" ch] by (simp add: changes_new_def)

lemma tree_diff_valid: "tree_diff sha s a b = Inr ch \<Longrightarrow> changes_valid ch"
proof -
  assume "tree_diff sha s a b = Inr ch"
  then obtain ds where ds: "diff_dir sha s (Some a) (Some b) [] = Inr ds" "changes_new (omap_of ds) = Inr ch"
    by (auto simp: tree_diff_def result_simps)
  have ok: "\<forall>c \<in> set ds. change_ok c" by (rule diff_valid_paths(1) [OF ds(1)]) (simp add: prefix_ok_def)
  note ch = changes_new_Inr [OF ds(2)]
  have "change_ok (p, e)" if "(p, e) \<in> set ch" for p e
  proof -
    have "map_of (omap_of ds) p = Some e" using that ch omap_map_of_iff by metis
    then show ?thesis using map_of_SomeD omap_of_members ok by metis
  qed
  then show ?thesis using ch by (auto simp: changes_valid_def change_ok_def)
qed

section \<open>Differences in a larger store\<close>

lemma emap_mono: "emap f xs = Inr ys \<Longrightarrow> (\<And>x y. x \<in> set xs \<Longrightarrow> f x = Inr y \<Longrightarrow> g x = Inr y) \<Longrightarrow> emap g xs = Inr ys"
  by (induction xs arbitrary: ys) (auto simp: result_simps)

lemma stable_emap [stable_intros]: "(\<And>x. stable (\<lambda>s. f s x)) \<Longrightarrow> stable (\<lambda>s. emap (f s) xs)"
  by (rule stableI, erule emap_mono) (rule stableD)

lemma stable_load_side [stable_intros]: "stable (\<lambda>s. load_side sha s i)"
  unfolding load_side_def by (intro stable_intros)

lemma stable_pair [stable_intros]: "(\<And>y z. stable (f y z)) \<Longrightarrow> stable (\<lambda>s. case x of (y, z) \<Rightarrow> f y z s)"
  by (cases x) simp

lemma stable_expand_side [stable_intros]: "stable (\<lambda>s. expand_side sha s level side)"
  unfolding expand_side_def by (intro stable_intros)

lemma stable_diff_loop [stable_intros]: "stable (\<lambda>s. diff_loop sha s a b)"
proof (rule stableI)
  fix s t x
  show "diff_loop sha s a b = Inr x \<Longrightarrow> extends s t \<Longrightarrow> diff_loop sha t a b = Inr x"
  proof (induction sha s a b rule: diff_loop.induct)
    case (1 sha s a b)
    define shared where "shared = filter (\<lambda>i. i \<in> set (map fst a)) (map fst b)"
    define a1 where "a1 = filter (\<lambda>(i, c). i \<notin> set shared) a"
    define b1 where "b1 = filter (\<lambda>(i, c). i \<notin> set shared) b"
    define level where "level = top_level (a1 @ b1)"
    note defs = shared_def a1_def b1_def level_def
    have run: "diff_loop sha u a b = (if level = 0 then Inr (a1, b1)
        else ebind (expand_side sha u level a1) (\<lambda>a. ebind (expand_side sha u level b1) (\<lambda>b. diff_loop sha u a b)))" for u
      by (subst diff_loop.simps, unfold Let_def defs [symmetric]) simp
    show ?case
    proof (cases "level = 0")
      case True
      then show ?thesis using "1.prems"(1) by (simp add: run)
    next
      case False
      then obtain a2 b2 where x: "expand_side sha s level a1 = Inr a2" "expand_side sha s level b1 = Inr b2"
          "diff_loop sha s a2 b2 = Inr x" using "1.prems"(1) by (auto simp: run result_simps)
      have "expand_side sha t level a1 = Inr a2" "expand_side sha t level b1 = Inr b2"
        using stableD [OF stable_expand_side x(1) "1.prems"(2)] stableD [OF stable_expand_side x(2) "1.prems"(2)] .
      then show ?thesis using "1.IH" [OF defs False x(1,2,3) "1.prems"(2)] False by (simp add: run)
    qed
  qed
qed

lemma stable_diff_items [stable_intros]: "stable (\<lambda>s. diff_items sha s from' to)"
  unfolding diff_items_def by (intro stable_intros)

lemma diff_extends:
  "diff_dir sha s from' to pre = Inr ds \<Longrightarrow> extends s t \<Longrightarrow> diff_dir sha t from' to pre = Inr ds"
  "diff_each sha s items pre = Inr es \<Longrightarrow> extends s t \<Longrightarrow> diff_each sha t items pre = Inr es"
proof (induction sha s from' to pre and sha s items pre arbitrary: ds and es rule: diff_dir_diff_each.induct)
  case (1 sha s from' to pre)
  show ?case
  proof (cases "from' = to")
    case True
    then show ?thesis using "1.prems"(1) by (simp add: diff_dir.simps)
  next
    case False
    then obtain items where items: "diff_items sha s from' to = Inr items" "diff_each sha s items pre = Inr ds"
      using "1.prems"(1) by (auto simp: diff_dir.simps result_simps)
    have "diff_items sha t from' to = Inr items" by (rule stableD [OF stable_diff_items items(1) "1.prems"(2)])
    then show ?thesis using "1.IH" [OF False items(1,2) "1.prems"(2)] False by (simp add: diff_dir.simps)
  qed
next
  case (2 sha s pre)
  then show ?case by (simp add: diff_each.simps)
next
  case (3 sha s name before after items pre)
  define new where "new = Option.bind after node_file"
  define from' where "from' = Option.bind before node_dir"
  define to where "to = Option.bind after node_dir"
  obtain path where path: "joined pre name = Inr path"
    using "3.prems"(1) by (auto simp: diff_each.simps result_simps)
  define here where "here = (if Option.bind before node_file \<noteq> new then [(path, new)] else [])"
  have run: "diff_each sha u ((name, before, after) # items) pre =
      ebind (if from' \<noteq> to then diff_dir sha u from' to (path @ ''/'') else Inr []) (\<lambda>under.
      ebind (diff_each sha u items pre) (\<lambda>others. Inr (here @ under @ others)))" for u
    by (simp only: diff_each.simps path ebind.simps Let_def new_def [symmetric] from'_def [symmetric] to_def [symmetric]
        here_def [symmetric])
  obtain under others where u: "(if from' \<noteq> to then diff_dir sha s from' to (path @ ''/'') else Inr []) = Inr under"
      and o: "diff_each sha s items pre = Inr others" and es: "es = here @ under @ others"
    using "3.prems"(1) unfolding run by (auto simp: ebind_Inr_iff)
  have "(if from' \<noteq> to then diff_dir sha t from' to (path @ ''/'') else Inr []) = Inr under"
  proof (cases "from' \<noteq> to")
    case True
    then have d: "diff_dir sha s from' to (path @ ''/'') = Inr under" using u by simp
    from "3.IH"(1) [OF path new_def here_def from'_def to_def True d "3.prems"(2)] show ?thesis using True by simp
  qed (use u in simp)
  moreover have "diff_each sha t items pre = Inr others"
    by (rule "3.IH"(2) [OF path new_def here_def from'_def to_def u o "3.prems"(2)])
  ultimately show ?case unfolding run by (simp only: ebind.simps es)
qed

lemma tree_diff_extends:
  assumes "tree_diff sha s a b = Inr ch" "extends s t"
  shows "tree_diff sha t a b = Inr ch"
proof -
  obtain ds where ds: "diff_dir sha s (Some a) (Some b) [] = Inr ds" "changes_new (omap_of ds) = Inr ch"
    using assms(1) unfolding tree_diff_def ebind_Inr_iff by blast
  have "diff_dir sha t (Some a) (Some b) [] = Inr ds" by (rule diff_extends(1) [OF ds(1) assms(2)])
  then show ?thesis using ds(2) by (simp add: tree_diff_def)
qed

end
