(* ===== verification/Versions.thy ===== *)
theory Versions
  imports History Stored Received
begin

text \<open>
  The invariant of a repository's World history, and what every operation on it returns. The ghost argument \<open>w\<close> lists,
  per version, the map its root stands for and the changeset that led to it.
\<close>

section \<open>Version numbers in rows\<close>

definition num :: "nat \<Rightarrow> 64 word" where
  "num i = word_of_nat i"

lemma num_simps [simp]:
  assumes "i < 2 ^ 63"
  shows "unat (num i) = i" "version_sql (num i) = int i" "version_decode (int i) = Inr (num i)"
proof -
  have u: "unat (num i) = i" using assms by (simp add: num_def unat_of_nat take_bit_nat_eq_self)
  have "uint (num i) = int i" using u by (metis uint_nat)
  then have "sint (num i) = int i" using assms by (simp add: sint_uint signed_take_bit_int_eq_self)
  then show "unat (num i) = i" "version_sql (num i) = int i" "version_decode (int i) = Inr (num i)"
    using u by (simp_all add: version_sql_def version_decode_def num_def)
qed

lemma num_unat: "num (unat n) = n"
  by (simp add: num_def)

lemma num_inj [simp]: "i < 2 ^ 63 \<Longrightarrow> j < 2 ^ 63 \<Longrightarrow> num i = num j \<longleftrightarrow> i = j"
  using num_simps(1) by metis

lemma num_less [simp]: "i < 2 ^ 63 \<Longrightarrow> j < 2 ^ 63 \<Longrightarrow> num i < num j \<longleftrightarrow> i < j"
  by (simp add: word_less_nat_alt)

lemma num_le [simp]: "i < 2 ^ 63 \<Longrightarrow> j < 2 ^ 63 \<Longrightarrow> num i \<le> num j \<longleftrightarrow> i \<le> j"
  by (simp add: word_le_nat_alt)

lemma num_Suc: "num (Suc i) = num i + 1"
  by (simp add: num_def)

lemma num_pred: "num (Suc i) - 1 = num i"
  by (simp add: num_def)

lemma num_0 [simp]: "num 0 = 0"
  by (simp add: num_def)

lemma num_eq_0 [simp]: "i < 2 ^ 63 \<Longrightarrow> num i = 0 \<longleftrightarrow> i = 0"
  using num_inj [of i 0] by simp

lemma version_sql_big:
  assumes "2 ^ 63 \<le> unat n"
  shows "version_sql n < 0"
proof -
  have i: "uint n = int (unat n)" by (rule uint_nat)
  have "unat n < 2 ^ 64" using unsigned_less [of n] by simp
  then have "int (2 ^ 63) \<le> int (unat n)" "int (unat n) < int (2 ^ 64)" using assms by (simp_all only: of_nat_le_iff of_nat_less_iff)
  then have u: "2 ^ 63 \<le> uint n" "uint n < 2 ^ 64" unfolding i by (simp_all only: of_nat_power of_nat_numeral)
  have "(uint n + 2 ^ 63) mod 2 ^ 64 = (uint n - 2 ^ 63 + 2 ^ 64) mod 2 ^ 64" by (simp add: add.commute)
  also have "\<dots> = uint n - 2 ^ 63" using u by (simp only: mod_add_self2) simp
  finally have "sint n = uint n - 2 ^ 64" by (simp add: sint_uint signed_take_bit_eq_take_bit_shift take_bit_eq_mod)
  then show ?thesis using u by (simp add: version_sql_def)
qed

lemma version_sql_num: "version_sql n = int i \<Longrightarrow> n = num i \<and> i < 2 ^ 63"
proof -
  assume h: "version_sql n = int i"
  then have "unat n < 2 ^ 63" using version_sql_big [of n] by (cases "unat n < 2 ^ 63") (simp_all add: not_less)
  then have "version_sql n = int (unat n)" using num_simps(2) [of "unat n"] by (simp add: num_unat)
  then show ?thesis using h \<open>unat n < 2 ^ 63\<close> num_unat by (metis nat_int)
qed

lemma next_number_num:
  assumes "i < 2 ^ 63"
  shows "next_number (num i) =
    (if Suc i < 2 ^ 63 then Inr (num (Suc i)) else Inl (InvalidInput ''World version exceeds storage range''))"
proof -
  have "unat (- 1 :: 64 word) = 2 ^ 64 - 1" by (simp add: unsigned_minus_1_eq_mask mask_eq_exp_minus_1)
  moreover have "unat (num i) < 2 ^ 63" using num_simps(1) [OF assms] assms by simp
  ultimately have m: "num i \<noteq> - 1" by auto
  have "Suc i < 2 ^ 64" using assms by simp
  then have u: "unat (num (Suc i)) = Suc i" by (simp add: num_def unat_of_nat del: of_nat_Suc)
  have "num (Suc i) > 9223372036854775807 \<longleftrightarrow> \<not> Suc i < 2 ^ 63" by (simp add: word_less_nat_alt u) arith
  then show ?thesis using m by (simp add: next_number_def version_new_def num_Suc)
qed

section \<open>The invariant\<close>

type_synonym world_log = "(file_entry paths \<times> changes) list"

definition row_of_change :: "nat \<Rightarrow> string \<times> file_entry option \<Rightarrow> change_row" where
  "row_of_change i c = (case encode_entry (snd c) of (kind, content) \<Rightarrow>
     \<lparr>cr_version = int i, cr_path = fst c, cr_kind = kind, cr_content = content\<rparr>)"

text \<open>A changeset that leads from one map to another and holds no no-ops.\<close>

definition leads :: "file_entry paths \<Rightarrow> changes \<Rightarrow> file_entry paths \<Rightarrow> bool" where
  "leads f ch g \<longleftrightarrow> changes_valid ch \<and> g = upd f ch \<and> (\<forall>(p, e) \<in> set ch. f p \<noteq> e)"

text \<open>Version \<open>i\<close> was accepted as the attempt of its operation.\<close>

definition accepted_by :: "db \<Rightarrow> nat \<Rightarrow> string \<Rightarrow> attempt_row \<Rightarrow> bool" where
  "accepted_by d i operation row \<longleftrightarrow>
     row \<in> set (db_attempts d) \<and> ar_id row = operation \<and> ar_accepted row = 1
     \<and> ar_expected row = int i - 1 \<and> ar_result row = int i
     \<and> (ar_tree row = None \<or> ar_tree row = Some (vr_tree (db_versions d ! i)))"

definition linked :: "env \<Rightarrow> db \<Rightarrow> world_log \<Rightarrow> nat \<Rightarrow> bool" where
  "linked E d w i \<longleftrightarrow>
     (let row = db_versions d ! i in
      if i = 0 then fst (w ! 0) = Map.empty \<and> snd (w ! 0) = [] \<and> vr_operation row = None
        \<and> vr_id row = version_id (en_sha E) (en_changes E) None (vr_tree row) []
      else leads (fst (w ! (i - 1))) (snd (w ! i)) (fst (w ! i))
        \<and> vr_id row = version_id (en_sha E) (en_changes E) (Some (vr_id (db_versions d ! (i - 1)))) (vr_tree row) (snd (w ! i))
        \<and> (\<exists>operation attempt. vr_operation row = Some operation \<and> accepted_by d i operation attempt))"

definition stands :: "env \<Rightarrow> db \<Rightarrow> object_id \<Rightarrow> file_entry paths \<Rightarrow> bool" where
  "stands E d root f \<longleftrightarrow> world f \<and> snapshot (en_sha E) (tree_view d) root f
     \<and> (\<forall>p e. f p = Some e \<longrightarrow> validate_entry E d e = Inr ())"

definition versions_ok :: "env \<Rightarrow> db \<Rightarrow> world_log \<Rightarrow> bool" where
  "versions_ok E d w \<longleftrightarrow>
     w \<noteq> [] \<and> length w \<le> 2 ^ 63 \<and> length (db_versions d) = length w
     \<and> (\<forall>i < length w. vr_number (db_versions d ! i) = int i
          \<and> stands E d (vr_tree (db_versions d ! i)) (fst (w ! i)) \<and> linked E d w i)"

definition changes_rows_ok :: "db \<Rightarrow> world_log \<Rightarrow> bool" where
  "changes_rows_ok d w \<longleftrightarrow>
     (\<forall>i < length w. filter (\<lambda>r. cr_version r = int i) (db_changes d) = map (row_of_change i) (snd (w ! i)))
     \<and> (\<forall>r \<in> set (db_changes d). \<exists>i < length w. cr_version r = int i)"

definition attempt_ok :: "env \<Rightarrow> db \<Rightarrow> attempt_row \<Rightarrow> bool" where
  "attempt_ok E d row \<longleftrightarrow>
     (\<exists>e r. ar_expected row = int e \<and> ar_result row = int r \<and> e < r \<and> r < length (db_versions d)
        \<and> (ar_accepted row = 1 \<and> r = Suc e \<and> vr_operation (db_versions d ! r) = Some (ar_id row)
           \<or> ar_accepted row = 0 \<and> (\<forall>tree. ar_tree row = Some tree \<longrightarrow> (\<exists>f. stands E d tree f))))
     \<and> (ar_tree row = None \<longrightarrow> operation_exists_in (ar_id row) d)"

definition repo_ok :: "env \<Rightarrow> db \<Rightarrow> world_log \<Rightarrow> bool" where
  "repo_ok E d w \<longleftrightarrow>
     validate_format d = Inr () \<and> objects_ok E d \<and> versions_ok E d w \<and> changes_rows_ok d w
     \<and> distinct (map ar_id (db_attempts d)) \<and> (\<forall>row \<in> set (db_attempts d). attempt_ok E d row)"

section \<open>Reading versions and attempts\<close>

definition version_of :: "db \<Rightarrow> nat \<Rightarrow> world_version" where
  "version_of d i =
     (let row = db_versions d ! i in
      \<lparr>wv_number = num i, wv_id = vr_id row, wv_tree = vr_tree row, wv_operation = vr_operation row\<rparr>)"

definition head_number :: "world_log \<Rightarrow> nat" where
  "head_number w = length w - 1"

definition attempt_of :: "attempt_row \<Rightarrow> attempt" where
  "attempt_of row =
     \<lparr>at_operation = ar_id row, at_expected = num (nat (ar_expected row)), at_tree = ar_tree row,
      at_accepted = (ar_accepted row = 1), at_result = num (nat (ar_result row))\<rparr>"

definition outcome_of :: "db \<Rightarrow> attempt_row \<Rightarrow> advance_outcome" where
  "outcome_of d row =
     (if ar_accepted row = 1 then Advanced (version_of d (nat (ar_result row)))
      else AdvanceStale (num (nat (ar_result row))))"

lemma repo_versions:
  assumes "repo_ok E d w"
  shows "w \<noteq> []" "length w \<le> 2 ^ 63" "length (db_versions d) = length w"
    "i < length w \<Longrightarrow> vr_number (db_versions d ! i) = int i" "i < length w \<Longrightarrow> i < 2 ^ 63"
    "i < length w \<Longrightarrow> linked E d w i" "i < length w \<Longrightarrow> stands E d (vr_tree (db_versions d ! i)) (fst (w ! i))"
  using assms by (auto simp: repo_ok_def versions_ok_def)

lemma find_numbered:
  "(\<And>i. i < length rows \<Longrightarrow> key (rows ! i) = int i) \<Longrightarrow>
   find_row (\<lambda>r. key r = n) rows = (if 0 \<le> n \<and> nat n < length rows then Some (rows ! nat n) else None)"
proof (induction rows rule: rev_induct)
  case (snoc r rows)
  have k: "key (rows ! i) = int i" if "i < length rows" for i
    using snoc.prems [of i] that by (simp add: nth_append)
  have r: "key r = int (length rows)" using snoc.prems [of "length rows"] by simp
  have one: "find_row (\<lambda>r. key r = n) [r] = (if key r = n then Some r else None)" by (simp add: find_row_def)
  show ?case
    unfolding find_row_append snoc.IH [OF k, simplified] one r by (auto simp: nth_append less_Suc_eq)
qed (simp add: find_row_def)

lemma latest_numbered:
  assumes "rows \<noteq> []" "\<And>i. i < length rows \<Longrightarrow> vr_number (rows ! i) = k + int i"
  shows "latest_row rows = Some (last rows)"
  using assms
proof (induction rows arbitrary: k)
  case (Cons r rows)
  show ?case
  proof (cases "rows = []")
    case False
    have s: "vr_number (rows ! i) = (k + 1) + int i" if "i < length rows" for i
      using Cons.prems(2) [of "Suc i"] that by simp
    have "vr_number (last rows) = k + 1 + int (length rows - 1)" using s [of "length rows - 1"] False by (simp add: last_conv_nth)
    then have "\<not> vr_number r > vr_number (last rows)" using Cons.prems(2) [of 0] by simp
    then show ?thesis using Cons.IH [OF False s] False by simp
  qed simp
qed simp

lemma version_row_spec:
  assumes "repo_ok E d w"
  shows "version_row_in n d = (if unat n < length w then Some (db_versions d ! unat n) else None)"
proof -
  have f: "version_row_in n d = (if 0 \<le> version_sql n \<and> nat (version_sql n) < length w then Some (db_versions d ! nat (version_sql n)) else None)"
    unfolding version_row_in_def
    using find_numbered [of "db_versions d" vr_number "version_sql n"] repo_versions(3,4) [OF assms] by simp
  show ?thesis
  proof (cases "unat n < 2 ^ 63")
    case True
    then have "version_sql n = int (unat n)" using num_simps(2) [of "unat n"] by (simp add: num_unat)
    then show ?thesis unfolding f by simp
  next
    case False
    then have "version_sql n < 0" using version_sql_big [of n] by simp
    moreover have "\<not> unat n < length w" using False repo_versions(2) [OF assms] by simp
    ultimately show ?thesis unfolding f by simp
  qed
qed

lemma attempt_in_spec:
  assumes "repo_ok E d w"
  shows "attempt_in operation d =
    (case attempt_row_in operation d of None \<Rightarrow> Inr None | Some row \<Rightarrow> Inr (Some (attempt_of row)))"
proof (cases "attempt_row_in operation d")
  case (Some row)
  then have row: "row \<in> set (db_attempts d)" "ar_id row = operation"
    unfolding attempt_row_in_def by (auto dest: find_row_Some)
  then have "attempt_ok E d row" using assms by (simp add: repo_ok_def)
  then obtain e r where a: "ar_expected row = int e" "ar_result row = int r" "e < r" "r < length w"
      "ar_accepted row = 1 \<or> ar_accepted row = 0"
    using repo_versions(3) [OF assms] by (auto simp: attempt_ok_def)
  moreover have "e < 2 ^ 63" "r < 2 ^ 63" using a(3,4) repo_versions(2) [OF assms] by auto
  ultimately show ?thesis using Some row(2) by (auto simp: attempt_in_def decode_attempt_def attempt_of_def)
qed (simp add: attempt_in_def)

lemma attempt_row_iff:
  assumes "repo_ok E d w"
  shows "attempt_row_in operation d = Some row \<longleftrightarrow> row \<in> set (db_attempts d) \<and> ar_id row = operation"
proof
  assume h: "row \<in> set (db_attempts d) \<and> ar_id row = operation"
  have "distinct (map ar_id (db_attempts d))" using assms by (simp add: repo_ok_def)
  from find_row_key [OF this, of row] show "attempt_row_in operation d = Some row"
    using h by (auto simp: attempt_row_in_def)
qed (auto simp: attempt_row_in_def dest: find_row_Some)

lemma decode_version_spec:
  assumes "repo_ok E d w" "i < length w"
  shows "decode_version (db_versions d ! i) = Inr (version_of d i)"
proof -
  have "linked E d w i" "i < 2 ^ 63" "vr_number (db_versions d ! i) = int i" using repo_versions [OF assms(1)] assms(2) by auto
  then show ?thesis by (auto simp: decode_version_def version_of_def linked_def Let_def split: if_splits)
qed

lemma bind_attempt_spec:
  assumes "repo_ok E d w" "i < length w"
  shows "bind_attempt (version_of d i) d = Inr ()"
proof (cases i)
  case 0
  then show ?thesis using repo_versions(6) [OF assms] by (simp add: bind_attempt_def version_of_def linked_def Let_def)
next
  case (Suc j)
  obtain operation row where row: "vr_operation (db_versions d ! i) = Some operation" "accepted_by d i operation row"
    using repo_versions(6) [OF assms] Suc by (auto simp: linked_def Let_def)
  have "attempt_row_in operation d = Some row" using row(2) by (simp add: attempt_row_iff [OF assms(1)] accepted_by_def)
  then have "attempt_in operation d = Inr (Some (attempt_of row))" by (simp add: attempt_in_spec [OF assms(1)])
  moreover have "nat (1 + int j) = Suc j" by simp
  ultimately show ?thesis using row Suc
    by (simp add: bind_attempt_def version_of_def Let_def ok_or_def attempt_of_def accepted_by_def num_pred)
qed

lemma version_in_spec:
  assumes "repo_ok E d w"
  shows "version_in n d = (if unat n < length w then Inr (version_of d (unat n)) else Inl (MissingVersion n))"
  using decode_version_spec [OF assms] bind_attempt_spec [OF assms] by (simp add: version_in_def version_row_spec [OF assms])

lemma head_in_spec:
  assumes "repo_ok E d w"
  shows "head_in d = Inr (version_of d (head_number w))"
proof -
  have n: "head_number w < length w" using repo_versions(1) [OF assms] by (simp add: head_number_def)
  have "db_versions d \<noteq> []" using repo_versions(1,3) [OF assms] by auto
  moreover from this have "last (db_versions d) = db_versions d ! head_number w"
    by (simp add: last_conv_nth repo_versions(3) [OF assms] head_number_def)
  moreover have "vr_number (db_versions d ! i) = 0 + int i" if "i < length (db_versions d)" for i
    using repo_versions(3,4) [OF assms] that by simp
  ultimately have "latest_row (db_versions d) = Some (db_versions d ! head_number w)"
    using latest_numbered [of "db_versions d" 0] by simp
  then show ?thesis using decode_version_spec [OF assms n] bind_attempt_spec [OF assms n] by (simp add: head_in_def)
qed

lemma tree_in_spec:
  assumes "repo_ok E d w"
  shows "tree_in n d = (if unat n < length w then Inr (vr_tree (db_versions d ! unat n)) else Inl (MissingVersion n))"
  by (simp add: tree_in_def version_row_spec [OF assms] ok_or_def)

lemma attempt_outcome_spec:
  assumes "repo_ok E d w" "row \<in> set (db_attempts d)"
  shows "attempt_outcome (attempt_of row) d = Inr (outcome_of d row)"
proof -
  obtain e r where a: "ar_expected row = int e" "ar_result row = int r" "e < r" "r < length w"
      "ar_accepted row = 1 \<and> r = Suc e \<and> vr_operation (db_versions d ! r) = Some (ar_id row) \<or> ar_accepted row = 0"
  proof -
    have "attempt_ok E d row" using assms by (simp add: repo_ok_def)
    then show ?thesis using that repo_versions(3) [OF assms(1)] unfolding attempt_ok_def by metis
  qed
  have s: "e < 2 ^ 63" "r < 2 ^ 63" using a(3,4) repo_versions(2) [OF assms(1)] by auto
  have "version_in (num r) d = Inr (version_of d r)" using version_in_spec [OF assms(1), of "num r"] a(4) s by simp
  moreover have "\<not> num r \<le> num e" using s a(3) by simp
  moreover have "wv_operation (version_of d r) = vr_operation (db_versions d ! r)" by (simp add: version_of_def Let_def)
  ultimately show ?thesis using a(5)
    by (auto simp: attempt_outcome_def attempt_of_def outcome_of_def a(1,2) num_Suc)
qed

end
