(* ===== verification/Advancing.thy ===== *)
theory Advancing
  imports Versions
begin

text \<open>
  Advancing the World: every outcome of a compare-and-swap attempt, and that each keeps the invariant of the history.
\<close>

section \<open>Additions that keep the invariant\<close>

lemma stands_keeps: "stands E d root f \<Longrightarrow> keeps_objects d d' \<Longrightarrow> stands E d' root f"
  unfolding stands_def using keeps_extends snapshot_extends validate_entry_keeps by blast

lemma linked_mono:
  assumes "linked E d w i" "db_versions d' ! i = db_versions d ! i" "0 < i \<Longrightarrow> db_versions d' ! (i - 1) = db_versions d ! (i - 1)"
    "set (db_attempts d) \<subseteq> set (db_attempts d')" "w' ! i = w ! i" "0 < i \<Longrightarrow> w' ! (i - 1) = w ! (i - 1)"
  shows "linked E d' w' i"
proof (cases "i = 0")
  case True
  then show ?thesis using assms by (simp add: linked_def Let_def)
next
  case False
  then have "0 < i" by simp
  then show ?thesis using assms unfolding linked_def Let_def accepted_by_def by (simp only: if_False False) blast
qed

lemma attempt_ok_mono:
  assumes "attempt_ok E d row" "keeps_objects d d'" "\<exists>more. db_versions d' = db_versions d @ more" "db_publications d' = db_publications d"
  shows "attempt_ok E d' row"
proof -
  obtain more where more: "db_versions d' = db_versions d @ more" using assms(3) by blast
  have st: "stands E d tree f \<Longrightarrow> stands E d' tree f" for tree f using stands_keeps assms(2) by blast
  obtain e r where a: "ar_expected row = int e" "ar_result row = int r" "e < r" "r < length (db_versions d)"
    "ar_accepted row = 1 \<and> r = Suc e \<and> vr_operation (db_versions d ! r) = Some (ar_id row)
     \<or> ar_accepted row = 0 \<and> (\<forall>tree. ar_tree row = Some tree \<longrightarrow> (\<exists>f. stands E d tree f))"
    using assms(1) unfolding attempt_ok_def by blast
  have "r < length (db_versions d')" "db_versions d' ! r = db_versions d ! r" using a(4) more by (auto simp: nth_append)
  moreover have "ar_tree row = None \<longrightarrow> operation_exists_in (ar_id row) d'"
    using assms(1,4) by (simp add: attempt_ok_def operation_exists_in_def)
  ultimately show ?thesis using a st unfolding attempt_ok_def by metis
qed

lemma validate_format_iff: "validate_format d = Inr () \<longleftrightarrow> db_format d = FORMAT \<and> db_application d = APPLICATION"
  by (simp add: validate_format_def)

lemma repo_ok_objects:
  assumes "repo_ok E d w" "objects_ok E d'" "adds_objects d d'"
  shows "repo_ok E d' w"
proof -
  obtain rows where d': "d' = d\<lparr>db_objects := db_objects d @ rows\<rparr>" using assms(3) unfolding adds_objects_def by blast
  have k: "keeps_objects d d'" by (rule adds_keeps [OF assms(3)])
  have "versions_ok E d' w"
    using assms(1) stands_keeps [OF _ k] linked_mono [of E d w _ d' w] unfolding repo_ok_def versions_ok_def by (simp add: d')
  moreover have "attempt_ok E d' row" if "row \<in> set (db_attempts d')" for row
    using assms(1) that by (intro attempt_ok_mono [OF _ k]) (auto simp: repo_ok_def d')
  ultimately show ?thesis using assms(1,2) by (simp add: repo_ok_def d' changes_rows_ok_def validate_format_iff)
qed

lemma repo_ok_stale:
  assumes "repo_ok E d w" "ar_id row \<notin> ar_id ` set (db_attempts d)" "attempt_ok E d row"
  shows "repo_ok E (d\<lparr>db_attempts := db_attempts d @ [row]\<rparr>) w"
proof -
  let ?d = "d\<lparr>db_attempts := db_attempts d @ [row]\<rparr>"
  have k: "keeps_objects d ?d" by (rule keeps_same) simp
  have "linked E ?d w i" if "linked E d w i" for i using that by (rule linked_mono) auto
  then have "versions_ok E ?d w"
    using assms(1) stands_keeps [OF _ k] unfolding repo_ok_def versions_ok_def by auto
  moreover have "attempt_ok E ?d r" if "r \<in> set (db_attempts ?d)" for r
    using assms(1,3) that by (intro attempt_ok_mono [OF _ k]) (auto simp: repo_ok_def)
  moreover have "objects_ok E ?d" using assms(1) by (simp add: repo_ok_def objects_ok_def)
  ultimately show ?thesis using assms(1,2) by (auto simp: repo_ok_def changes_rows_ok_def validate_format_iff)
qed

lemma nth_last: "i < length xs \<Longrightarrow> (xs @ [x]) ! i = xs ! i" "(xs @ [x]) ! length xs = x"
  by (simp_all add: nth_append)

text \<open>The tables after an accepted attempt.\<close>

definition advanced_db :: "db \<Rightarrow> attempt_row \<Rightarrow> version_row \<Rightarrow> changes \<Rightarrow> db" where
  "advanced_db d row version ch =
     d\<lparr>db_attempts := db_attempts d @ [row], db_versions := db_versions d @ [version],
       db_changes := db_changes d @ map (row_of_change (length (db_versions d))) ch\<rparr>"

lemma repo_ok_advanced:
  fixes d w row version ch E
  defines "n \<equiv> length w"
  defines "d' \<equiv> advanced_db d row version ch"
  assumes "repo_ok E d w" "n < 2 ^ 63" "ar_id row \<notin> ar_id ` set (db_attempts d)"
    "vr_number version = int n" "vr_operation version = Some (ar_id row)"
    "vr_id version = version_id (en_sha E) (en_changes E) (Some (vr_id (db_versions d ! (n - 1)))) (vr_tree version) ch"
    "ar_expected row = int n - 1" "ar_accepted row = 1" "ar_result row = int n"
    "ar_tree row = Some (vr_tree version) \<or> ar_tree row = None \<and> operation_exists_in (ar_id row) d"
    "stands E d (vr_tree version) g" "leads (fst (w ! (n - 1))) ch g"
  shows "repo_ok E d' (w @ [(g, ch)])"
proof -
  note v = repo_versions [OF assms(3)]
  have len: "length (db_versions d) = n" "0 < n" using v(1,3) by (simp_all add: n_def)
  have k: "keeps_objects d d'" by (rule keeps_same) (simp add: d'_def advanced_db_def)
  have vs: "db_versions d' = db_versions d @ [version]" by (simp add: d'_def advanced_db_def)
  have "vr_number (db_versions d' ! i) = int i \<and> stands E d' (vr_tree (db_versions d' ! i)) (fst ((w @ [(g, ch)]) ! i))
      \<and> linked E d' (w @ [(g, ch)]) i" if "i < length (w @ [(g, ch)])" for i
  proof (cases "i < n")
    case True
    then have "db_versions d' ! i = db_versions d ! i" "(w @ [(g, ch)]) ! i = w ! i" using len(1) by (simp_all add: vs nth_append n_def)
    moreover have "linked E d' (w @ [(g, ch)]) i"
      by (rule linked_mono [OF v(6)]) (use True len in \<open>auto simp: vs nth_append n_def d'_def advanced_db_def\<close>)
    ultimately show ?thesis using v(4,7) [of i] True stands_keeps [OF _ k] by (simp add: n_def)
  next
    case False
    then have i: "i = n" using that by (simp add: n_def)
    have at: "db_versions d' ! n = version" "db_versions d' ! (n - 1) = db_versions d ! (n - 1)"
      "(w @ [(g, ch)]) ! n = (g, ch)" "(w @ [(g, ch)]) ! (n - 1) = w ! (n - 1)"
      using len by (simp_all add: vs nth_append n_def)
    have "accepted_by d' n (ar_id row) row"
      using assms(9-12) by (auto simp: accepted_by_def at(1)) (simp_all add: d'_def advanced_db_def)
    then have "linked E d' (w @ [(g, ch)]) n"
      using assms(7,8,14) len(2) unfolding linked_def Let_def at by auto
    moreover have "stands E d' (vr_tree version) g" using stands_keeps [OF assms(13) k] .
    ultimately show ?thesis using assms(6) by (simp add: i at(1,3))
  qed
  then have "versions_ok E d' (w @ [(g, ch)])"
    using assms(4) len(1) by (simp add: versions_ok_def vs n_def)
  moreover have "changes_rows_ok d' (w @ [(g, ch)])"
  proof -
    have old: "filter (\<lambda>r. cr_version r = int i) (db_changes d) = map (row_of_change i) (snd (w ! i))" if "i < n" for i
      using assms(3) that by (simp add: repo_ok_def changes_rows_ok_def n_def)
    have none: "filter (\<lambda>r. cr_version r = int n) (db_changes d) = []"
      using assms(3) by (fastforce simp: repo_ok_def changes_rows_ok_def n_def filter_empty_conv)
    have cv: "cr_version (row_of_change n c) = int n" for c by (simp add: row_of_change_def split: prod.split)
    then have "filter (\<lambda>r. cr_version r = int i) (map (row_of_change n) ch) = (if i = n then map (row_of_change n) ch else [])" for i
      by (auto simp: filter_empty_conv filter_id_conv)
    moreover have "db_changes d' = db_changes d @ map (row_of_change n) ch" by (simp add: d'_def advanced_db_def len(1))
    ultimately have new: "filter (\<lambda>r. cr_version r = int i) (db_changes d')
        = (if i < n then map (row_of_change i) (snd (w ! i)) else map (row_of_change n) ch)" if "i \<le> n" for i
      using that old [of i] none by (cases "i = n") auto
    have "\<exists>i < length (w @ [(g, ch)]). cr_version r = int i" if "r \<in> set (db_changes d')" for r
    proof -
      have "r \<in> set (db_changes d) \<or> r \<in> row_of_change n ` set ch" using that \<open>db_changes d' = _\<close> by auto
      then consider "r \<in> set (db_changes d)" | "cr_version r = int n" using cv by blast
      then show ?thesis
      proof cases
        case 1
        then show ?thesis using assms(3) by (auto simp: repo_ok_def changes_rows_ok_def intro: less_SucI)
      qed (auto simp: n_def)
    qed
    then show ?thesis using new by (auto simp: changes_rows_ok_def nth_append n_def less_Suc_eq)
  qed
  moreover have "attempt_ok E d' r" if "r \<in> set (db_attempts d')" for r
  proof (cases "r = row")
    case True
    have "db_versions d' ! n = version" "n < length (db_versions d')" using len by (simp_all add: vs nth_append)
    moreover obtain e where "n = Suc e" using len(2) by (cases n) auto
    moreover from this have "ar_expected row = int e" "e < n" using assms(9) by simp_all
    moreover have "operation_exists_in (ar_id row) d' = operation_exists_in (ar_id row) d"
      by (simp add: operation_exists_in_def d'_def advanced_db_def)
    ultimately show ?thesis using assms(7,10-12) True unfolding attempt_ok_def by auto
  next
    case False
    then have "r \<in> set (db_attempts d)" using that by (simp add: d'_def advanced_db_def)
    then show ?thesis using assms(3) by (intro attempt_ok_mono [OF _ k]) (auto simp: repo_ok_def vs d'_def advanced_db_def)
  qed
  moreover have "objects_ok E d'" using assms(3) by (simp add: repo_ok_def objects_ok_def d'_def advanced_db_def)
  moreover have "validate_format d' = Inr ()" using assms(3) by (simp add: repo_ok_def validate_format_iff d'_def advanced_db_def)
  moreover have "distinct (map ar_id (db_attempts d'))" using assms(3,5) by (simp add: repo_ok_def d'_def advanced_db_def)
  ultimately show ?thesis by (simp add: repo_ok_def)
qed

section \<open>Appending a version\<close>

lemma insert_changes_run:
  assumes "n < 2 ^ 63" "distinct (map fst ch)" "\<forall>r \<in> set (db_changes d). cr_version r = int n \<longrightarrow> cr_path r \<notin> fst ` set ch"
  shows "tx_each (insert_change (num n)) ch d = Inr ((), d\<lparr>db_changes := db_changes d @ map (row_of_change n) ch\<rparr>)"
  using assms(2,3)
proof (induction ch arbitrary: d)
  case Nil
  then show ?case by (simp add: tx_ret_def)
next
  case (Cons c ch)
  let ?d = "d\<lparr>db_changes := db_changes d @ [row_of_change n c]\<rparr>"
  have "insert_change (num n) c d = Inr ((), ?d)"
    using Cons.prems(2) assms(1)
    by (auto simp: insert_change_def row_of_change_def insert_unique_def split: prod.split)
  moreover have "tx_each (insert_change (num n)) ch ?d = Inr ((), ?d\<lparr>db_changes := db_changes ?d @ map (row_of_change n) ch\<rparr>)"
    by (rule Cons.IH) (use Cons.prems in \<open>auto simp: row_of_change_def split: prod.splits\<close>)
  ultimately show ?case by (simp add: tx_bind_step)
qed

lemma next_row_number_spec:
  assumes "rows \<noteq> []" "\<And>i. i < length rows \<Longrightarrow> vr_number (rows ! i) = int i"
  shows "next_row_number rows = int (length rows)"
proof -
  have "latest_row rows = Some (last rows)" using latest_numbered [of rows 0] assms by simp
  moreover have "vr_number (last rows) = int (length rows - 1)" using assms by (simp add: last_conv_nth)
  ultimately show ?thesis using assms(1) by (simp add: next_row_number_def Suc_leI)
qed

lemma append_version_run:
  fixes E d head operation ch tree
  assumes "db_versions d \<noteq> []" "\<And>i. i < length (db_versions d) \<Longrightarrow> vr_number (db_versions d ! i) = int i"
    "length (db_versions d) < 2 ^ 63" "Some operation \<notin> vr_operation ` set (db_versions d)"
    "\<forall>r \<in> set (db_changes d). cr_version r \<noteq> int (length (db_versions d))" "distinct (map fst ch)"
    "wv_number head = num (length (db_versions d) - 1)"
  defines "version \<equiv> \<lparr>vr_number = int (length (db_versions d)), vr_id = version_id (en_sha E) (en_changes E) (Some (wv_id head)) tree ch,
      vr_tree = tree, vr_operation = Some operation\<rparr>"
  shows "append_version_in E head operation ch tree d =
    Inr (\<lparr>wv_number = num (length (db_versions d)), wv_id = vr_id version, wv_tree = tree, wv_operation = Some operation\<rparr>,
         d\<lparr>db_versions := db_versions d @ [version], db_changes := db_changes d @ map (row_of_change (length (db_versions d))) ch\<rparr>)"
proof -
  let ?n = "length (db_versions d)"
  have n: "Suc (?n - 1) = ?n" "?n - 1 < 2 ^ 63" using assms(1,3) by simp_all
  have nn: "next_number (wv_number head) = Inr (num ?n)" using next_number_num [OF n(2)] assms(3,7) n(1) by simp
  let ?d = "d\<lparr>db_versions := db_versions d @ [version]\<rparr>"
  have "int ?n \<notin> vr_number ` set (db_versions d)" using assms(2) by (auto simp: in_set_conv_nth)
  then have v: "insert_version version d = Inr ((), ?d)"
    using assms(4) next_row_number_spec [OF assms(1,2)] by (simp add: insert_version_def version_def insert_unique_def)
  have c: "tx_each (insert_change (num ?n)) ch ?d = Inr ((), ?d\<lparr>db_changes := db_changes ?d @ map (row_of_change ?n) ch\<rparr>)"
    by (rule insert_changes_run) (use assms(3,5,6) in auto)
  have sql: "version_sql (num ?n) = int ?n" using assms(3) by simp
  have v': "insert_version \<lparr>vr_number = version_sql (num ?n), vr_id = version_id (en_sha E) (en_changes E) (Some (wv_id head)) tree ch,
      vr_tree = tree, vr_operation = Some operation\<rparr> d = Inr ((), ?d)" using v unfolding sql version_def .
  show ?thesis
    unfolding append_version_in_def
    by (simp add: tx_bind_def tx_read_def nn v' c tx_ret_def) (simp add: version_def)
qed

section \<open>Recording an attempt\<close>

text \<open>The room a changeset needs: the fuel, and the height of a directory.\<close>

definition roomy :: "env \<Rightarrow> file_entry paths \<Rightarrow> changes \<Rightarrow> bool" where
  "roomy E f ch \<longleftrightarrow> card (dom f) + length ch < en_fuel E \<and> card (dom f) + length ch \<le> 2 ^ MAX_LEVEL"

lemma leads_diff:
  assumes "stands E d a f" "stands E d b g"
  shows "\<exists>ch. tree_diff (en_sha E) (tree_view d) a b = Inr ch \<and> leads f ch g"
proof -
  have st: "snapshot (en_sha E) (tree_view d) a f" "snapshot (en_sha E) (tree_view d) b g" "world f" "world g"
    using assms by (simp_all add: stands_def)
  obtain ch where ch: "tree_diff (en_sha E) (tree_view d) a b = Inr ch" "omap_ok ch"
      "\<And>p. map_of ch p = (if f p = g p then None else Some (g p))"
    using diff_spec [OF st] by blast
  have "f p \<noteq> e" if "(p, e) \<in> set ch" for p e
    using omap_map_of_iff [OF ch(2), of p e] that ch(3) [of p] by (auto split: if_splits)
  then show ?thesis using ch(1) diff_valid [OF st(3,4) ch(2,3)] unfolding leads_def by blast
qed

text \<open>A derivation whose chunks are all stored.\<close>

definition rederives :: "env \<Rightarrow> db \<Rightarrow> object_id \<Rightarrow> changes \<Rightarrow> object_id \<Rightarrow> bool" where
  "rederives E d base ch root \<longleftrightarrow>
     (\<exists>s0 s. tree_apply (en_fuel E) (en_sha E) base ch s0 = (Inr root, s) \<and> \<not> ms_collided s \<and> extends s (tree_view d))"

lemma rederives_keeps: "rederives E d base ch root \<Longrightarrow> keeps_objects d d' \<Longrightarrow> rederives E d' base ch root"
  unfolding rederives_def using keeps_extends extends_trans by blast

lemma verify_received_spec:
  assumes "hash_ok (en_sha E)" "repo_ok E d w" "unat expected < length w"
    "verify_received E expected root d = Inr (ch, d')"
    "roomy E (fst (w ! unat expected)) ch"
  shows "objects_ok E d'" "adds_objects d d'" "stands E d' root (upd (fst (w ! unat expected)) ch)"
    "leads (fst (w ! unat expected)) ch (upd (fst (w ! unat expected)) ch)"
    "rederives E d' (vr_tree (db_versions d ! unat expected)) ch root"
    "tree_diff (en_sha E) (tree_view d) (vr_tree (db_versions d ! unat expected)) root = Inr ch"
proof -
  let ?i = "unat expected" let ?f = "fst (w ! ?i)" let ?base = "vr_tree (db_versions d ! ?i)"
  have ok: "objects_ok E d" using assms(2) by (simp add: repo_ok_def)
  have st: "stands E d ?base ?f" by (rule repo_versions(7) [OF assms(2,3)])
  have diff: "tree_diff (en_sha E) (tree_view d) ?base root = Inr ch"
    and entries: "validate_entries E d (List.map_filter snd ch) = Inr ()"
    and wrote: "sql_write E (tree_apply (en_fuel E) (en_sha E) ?base ch) d = Inr (root, d')"
    using assms(3,4) unfolding verify_received_def
    by (auto simp: tx_result result_simps tree_in_spec [OF assms(2)] tx_fail_def split: if_splits)
  show "tree_diff (en_sha E) (tree_view d) ?base root = Inr ch" by (rule diff)
  have valid: "changes_valid ch" by (rule tree_diff_valid [OF diff])
  obtain s where s: "tree_apply (en_fuel E) (en_sha E) ?base ch (tree_view d) = (Inr root, s)" "\<not> ms_collided s"
      "extends s (tree_view d')" "objects_ok E d'" "adds_objects d d'"
    by (rule sql_write_Inr [OF ok steady_tree_apply wrote])
  show "objects_ok E d'" "adds_objects d d'" by (rule s(4), rule s(5))
  have k: "keeps_objects d d'" by (rule adds_keeps [OF s(5)])
  show "rederives E d' ?base ch root" unfolding rederives_def using s(1-3) by blast
  have base: "snapshot (en_sha E) (tree_view d) ?base ?f" "world ?f" using st by (simp_all add: stands_def)
  have "card (dom ?f) + length ch < en_fuel E" "card (dom ?f) + length ch \<le> 2 ^ MAX_LEVEL" using assms(5) by (simp_all add: roomy_def)
  from apply_Inr [OF assms(1) base valid this s(1,2)] have snap: "snapshot (en_sha E) s root (upd ?f ch)"
    by (auto simp: declined_def split: if_splits)
  have e: "validate_entry E d' e = Inr ()" if u: "upd ?f ch p = Some e" for p e
  proof (cases "map_of ch p")
    case None
    then have "?f p = Some e" using u by (simp add: upd_def)
    then show ?thesis using st validate_entry_keeps [OF k] unfolding stands_def by blast
  next
    case (Some x)
    then have "(p, Some e) \<in> set ch" using u by (auto simp: upd_def dest: map_of_SomeD)
    then have "e \<in> set (List.map_filter snd ch)" by (auto simp: set_map_filter) force
    then show ?thesis using entries validate_entry_keeps [OF k] unfolding validate_entries_iff by blast
  qed
  show stands': "stands E d' root (upd ?f ch)"
    unfolding stands_def using world_upd [OF base(2) valid] snapshot_extends [OF snap s(3)] e by blast
  have "tree_diff (en_sha E) (tree_view d') ?base root = Inr ch" by (rule tree_diff_extends [OF diff keeps_extends [OF k]])
  then show "leads ?f ch (upd ?f ch)" using leads_diff [OF stands_keeps [OF st k] stands'] by auto
qed

text \<open>What one attempt records.\<close>

definition recorded :: "env \<Rightarrow> bool \<Rightarrow> db \<Rightarrow> world_log \<Rightarrow> string \<Rightarrow> 64 word \<Rightarrow> object_id \<Rightarrow> advance_outcome \<Rightarrow> db \<Rightarrow> world_log \<Rightarrow> bool" where
  "recorded E received d w operation expected root outcome d' w' \<longleftrightarrow>
     repo_ok E d' w' \<and> keeps_objects d d'
     \<and> (\<exists>row. db_attempts d' = db_attempts d @ [row] \<and> ar_id row = operation \<and> ar_expected row = version_sql expected
          \<and> ar_tree row = Some root \<and> outcome = outcome_of d' row)
     \<and> (if expected = num (head_number w)
        then (\<exists>g ch. w' = w @ [(g, ch)] \<and> stands E d' root g
             \<and> (received \<longrightarrow> rederives E d' (vr_tree (db_versions d ! head_number w)) ch root))
           \<and> outcome = Advanced (version_of d' (length w)) \<and> vr_tree (db_versions d' ! length w) = root
        else w' = w \<and> expected < num (head_number w) \<and> outcome = AdvanceStale (num (head_number w)))"

lemma outcome_stale: "ar_accepted row = 0 \<Longrightarrow> outcome_of d row = AdvanceStale (num (nat (ar_result row)))"
  by (simp add: outcome_of_def)

lemma settle_stale:
  assumes "repo_ok E d w" "attempt_row_in operation d = None" "stands E d root g" "e < head_number w"
  shows "settle_attempt E (version_of d (head_number w)) operation (num e) root changes d = Inr (outcome, d') \<longleftrightarrow>
    outcome = AdvanceStale (num (head_number w)) \<and>
    d' = d\<lparr>db_attempts := db_attempts d @ [\<lparr>ar_id = operation, ar_expected = int e, ar_tree = Some root, ar_accepted = 0,
                                            ar_result = int (head_number w)\<rparr>]\<rparr>"
proof -
  have h: "head_number w < 2 ^ 63" using repo_versions(1) repo_versions(5) [OF assms(1), of "head_number w"] assms(1)
    by (auto simp: head_number_def)
  then have "e < 2 ^ 63" using assms(4) by simp
  moreover have "wv_number (version_of d (head_number w)) = num (head_number w)" by (simp add: version_of_def Let_def)
  moreover have "operation \<notin> ar_id ` set (db_attempts d)" using assms(2) by (auto simp: attempt_row_in_def find_row_None)
  ultimately show ?thesis using h assms(4)
    by (auto simp: settle_attempt_def tx_bind_def tx_read_def tx_ret_def insert_attempt_def insert_unique_def)
qed

lemma operation_unused:
  assumes "repo_ok E d w" "attempt_row_in operation d = None"
  shows "Some operation \<notin> vr_operation ` set (db_versions d)"
proof
  assume "Some operation \<in> vr_operation ` set (db_versions d)"
  then obtain i where i: "i < length w" "vr_operation (db_versions d ! i) = Some operation"
    using repo_versions(3) [OF assms(1)] by (auto simp: in_set_conv_nth)
  then have "linked E d w i" using repo_versions(6) [OF assms(1)] by blast
  then have "\<exists>row. accepted_by d i operation row" using i(2) by (auto simp: linked_def Let_def split: if_splits)
  then show False using assms(2) by (auto simp: accepted_by_def attempt_row_in_def find_row_None)
qed

lemma settle_accepted:
  assumes "repo_ok E d w" "attempt_row_in operation d = None" "length w < 2 ^ 63" "leads (fst (w ! head_number w)) ch g"
    "\<And>t. db_objects t = db_objects d \<Longrightarrow> head_changes E (version_of d (head_number w)) root changes t = Inr (ch, t)"
    "stands E d root g"
  shows "settle_attempt E (version_of d (head_number w)) operation (num (head_number w)) root changes d = Inr (outcome, d') \<longleftrightarrow>
    outcome = Advanced (version_of d' (length w)) \<and>
    d' = advanced_db d \<lparr>ar_id = operation, ar_expected = int (head_number w), ar_tree = Some root, ar_accepted = 1, ar_result = int (length w)\<rparr>
      \<lparr>vr_number = int (length w),
       vr_id = version_id (en_sha E) (en_changes E) (Some (vr_id (db_versions d ! head_number w))) root ch,
       vr_tree = root, vr_operation = Some operation\<rparr> ch"
proof -
  note v = repo_versions [OF assms(1)]
  let ?h = "head_number w"
  let ?row = "\<lparr>ar_id = operation, ar_expected = int ?h, ar_tree = Some root, ar_accepted = 1, ar_result = int (length w)\<rparr>"
  have h: "length w = Suc ?h" "?h < 2 ^ 63" using v(1) v(5) [of ?h] by (simp_all add: head_number_def)
  have head: "wv_number (version_of d ?h) = num ?h" "wv_id (version_of d ?h) = vr_id (db_versions d ! ?h)"
    by (simp_all add: version_of_def Let_def)
  let ?d = "d\<lparr>db_attempts := db_attempts d @ [?row]\<rparr>"
  have "operation \<notin> ar_id ` set (db_attempts d)" using assms(2) by (auto simp: attempt_row_in_def find_row_None)
  then have ins: "insert_attempt ?row d = Inr ((), ?d)" by (simp add: insert_attempt_def insert_unique_def)
  have nn: "next_number (num ?h) = Inr (num (length w))" using next_number_num [OF h(2)] assms(3) h(1) by simp
  have dist: "distinct (map fst ch)" using assms(4) by (simp add: leads_def changes_valid_def omap_okD_distinct)
  have fresh: "\<forall>r \<in> set (db_changes ?d). cr_version r \<noteq> int (length (db_versions ?d))"
    using assms(1) v(3) by (fastforce simp: repo_ok_def changes_rows_ok_def)
  have ne: "db_versions d \<noteq> []" using v(1,3) by auto
  note app = append_version_run [of ?d operation ch "version_of d ?h" E root, OF _ _ _ _ fresh dist]
  have run: "append_version_in E (version_of d ?h) operation ch root ?d =
    Inr (\<lparr>wv_number = num (length w), wv_id = version_id (en_sha E) (en_changes E) (Some (vr_id (db_versions d ! ?h))) root ch,
          wv_tree = root, wv_operation = Some operation\<rparr>,
      advanced_db d ?row \<lparr>vr_number = int (length w),
       vr_id = version_id (en_sha E) (en_changes E) (Some (vr_id (db_versions d ! ?h))) root ch,
       vr_tree = root, vr_operation = Some operation\<rparr> ch)"
    using app ne v(3,4) assms(3) operation_unused [OF assms(1,2)] head by (auto simp: advanced_db_def head_number_def)
  have sql: "version_sql (num ?h) = int ?h" "version_sql (num (length w)) = int (length w)" using h(2) assms(3) by simp_all
  have hc: "head_changes E (version_of d ?h) root changes ?d = Inr (ch, ?d)" by (rule assms(5)) simp
  have "settle_attempt E (version_of d ?h) operation (num ?h) root changes d =
      ebind (append_version_in E (version_of d ?h) operation ch root ?d) (\<lambda>(version, d). Inr (Advanced version, d))"
    unfolding settle_attempt_def Let_def head
    by (simp add: tx_bind_def tx_read_def nn sql ins hc tx_ret_def)
  then show ?thesis unfolding run using v(3) by (auto simp: version_of_def advanced_db_def nth_append)
qed

lemma stale_recorded:
  assumes "repo_ok E d w" "attempt_row_in operation d = None" "stands E d root g" "e < head_number w" "keeps_objects d0 d" "db_attempts d = db_attempts d0"
    "settle_attempt E (version_of d (head_number w)) operation (num e) root changes d = Inr (outcome, d')"
  shows "recorded E received d0 w operation (num e) root outcome d' w"
proof -
  let ?row = "\<lparr>ar_id = operation, ar_expected = int e, ar_tree = Some root, ar_accepted = 0, ar_result = int (head_number w)\<rparr>"
  have o: "outcome = AdvanceStale (num (head_number w))" and d': "d' = d\<lparr>db_attempts := db_attempts d @ [?row]\<rparr>"
    using settle_stale [OF assms(1-4)] assms(7) by blast+
  have h: "head_number w < length w" "head_number w < 2 ^ 63"
    using repo_versions(1) [OF assms(1)] repo_versions(5) [OF assms(1), of "head_number w"] by (auto simp: head_number_def)
  have "operation \<notin> ar_id ` set (db_attempts d)" using assms(2) by (auto simp: attempt_row_in_def find_row_None)
  moreover have "attempt_ok E d ?row"
    using assms(3,4) h(1) repo_versions(3) [OF assms(1)] by (auto simp: attempt_ok_def)
  ultimately have "repo_ok E d' w" unfolding d' by (intro repo_ok_stale [OF assms(1)]) simp_all
  moreover have "keeps_objects d0 d'" using assms(5) keeps_same [of d' d] keeps_objects_trans by (auto simp: d')
  moreover have "outcome_of d' ?row = AdvanceStale (num (head_number w))" by (simp add: outcome_of_def)
  moreover have "num e < num (head_number w)" "num e \<noteq> num (head_number w)" "version_sql (num e) = int e" using assms(4) h(2) by simp_all
  ultimately show ?thesis unfolding recorded_def o using assms(6) by (auto simp: d')
qed

lemma accepted_attempt_recorded:
  assumes "repo_ok E d w" "attempt_row_in operation d = None" "leads (fst (w ! head_number w)) ch g" "stands E d root g"
    "\<And>t. db_objects t = db_objects d \<Longrightarrow> head_changes E (version_of d (head_number w)) root changes t = Inr (ch, t)"
    "keeps_objects d0 d" "db_attempts d = db_attempts d0"
    "settle_attempt E (version_of d (head_number w)) operation (num (head_number w)) root changes d = Inr (outcome, d')"
    "db_versions d = db_versions d0" "received \<Longrightarrow> rederives E d (vr_tree (db_versions d ! head_number w)) ch root"
  shows "recorded E received d0 w operation (num (head_number w)) root outcome d' (w @ [(g, ch)])"
proof -
  note v = repo_versions [OF assms(1)]
  let ?h = "head_number w" let ?n = "length w"
  have h: "?n = Suc ?h" "?h < ?n" "?h < 2 ^ 63" using v(1) v(5) [of ?h] by (simp_all add: head_number_def)
  have head: "wv_number (version_of d ?h) = num ?h" by (simp add: version_of_def Let_def)
  have room: "?n < 2 ^ 63"
  proof (rule ccontr)
    assume "\<not> ?n < 2 ^ 63"
    then have "next_number (num ?h) = Inl (InvalidInput ''World version exceeds storage range'')"
      using next_number_num [OF h(3)] h(1) by simp
    then show False using assms(8) unfolding settle_attempt_def Let_def head by (simp add: tx_bind_def tx_read_def)
  qed
  let ?row = "\<lparr>ar_id = operation, ar_expected = int ?h, ar_tree = Some root, ar_accepted = 1, ar_result = int ?n\<rparr>"
  let ?version = "\<lparr>vr_number = int ?n, vr_id = version_id (en_sha E) (en_changes E) (Some (vr_id (db_versions d ! ?h))) root ch,
       vr_tree = root, vr_operation = Some operation\<rparr>"
  have o: "outcome = Advanced (version_of d' ?n)" and d': "d' = advanced_db d ?row ?version ch"
    using settle_accepted [OF assms(1,2) room assms(3) assms(5) assms(4)] assms(8) by blast+
  have "operation \<notin> ar_id ` set (db_attempts d)" using assms(2) by (auto simp: attempt_row_in_def find_row_None)
  then have "repo_ok E d' (w @ [(g, ch)])"
    unfolding d' using h(1) room assms(3,4) by (intro repo_ok_advanced [OF assms(1)]) (auto simp: head_number_def)
  moreover have k: "keeps_objects d d'" by (rule keeps_same) (simp add: d' advanced_db_def)
  moreover have "stands E d' root g" by (rule stands_keeps [OF assms(4) k])
  moreover have "vr_tree (db_versions d' ! ?n) = root" using v(3) by (simp add: d' advanced_db_def nth_append)
  moreover have "outcome_of d' ?row = Advanced (version_of d' ?n)" by (simp add: outcome_of_def)
  moreover have "db_attempts d' = db_attempts d0 @ [?row]" using assms(7) by (simp add: d' advanced_db_def)
  moreover have "version_sql (num ?h) = int ?h" using h(3) by simp
  moreover have "keeps_objects d0 d'" using assms(6) k keeps_objects_trans by blast
  moreover have "received \<Longrightarrow> rederives E d' (vr_tree (db_versions d0 ! ?h)) ch root"
    using rederives_keeps [OF assms(10) k] assms(9) by simp
  ultimately show ?thesis unfolding recorded_def o by auto
qed

lemma head_changes_given: "head_changes E head root (Some ch) t = Inr (ch, t)"
  by (simp add: head_changes_def tx_ret_def)

lemma tree_view_cong: "db_objects t = db_objects d \<Longrightarrow> tree_view t = tree_view d"
  by (simp add: tree_view_def object_at_def)

lemma head_changes_read:
  assumes "tree_diff (en_sha E) (tree_view d) (wv_tree head) root = Inr ch" "db_objects t = db_objects d"
  shows "head_changes E head root None t = Inr (ch, t)"
  by (simp add: head_changes_def tx_read_def sql_read_def tree_view_cong [OF assms(2)] assms(1))

lemma version_of_cong: "db_versions d' = db_versions d \<Longrightarrow> version_of d' = version_of d"
  by (rule ext) (simp add: version_of_def Let_def)

lemma record_attempt_spec:
  assumes "hash_ok (en_sha E)" "repo_ok E d w" "attempt_row_in operation d = None"
    "received \<Longrightarrow> (\<And>i ch. i < length w \<Longrightarrow> tree_diff (en_sha E) (tree_view d) (vr_tree (db_versions d ! i)) root = Inr ch \<Longrightarrow> roomy E (fst (w ! i)) ch)"
    "\<not> received \<Longrightarrow> \<exists>g. stands E d root g"
    "record_attempt E (version_of d (head_number w)) operation expected root received d = Inr (outcome, d')"
  shows "\<exists>w'. recorded E received d w operation expected root outcome d' w'"
proof -
  let ?h = "head_number w"
  note v = repo_versions [OF assms(2)]
  have h: "?h < length w" "?h < 2 ^ 63" using v(1) v(5) [of ?h] by (simp_all add: head_number_def)
  have head: "wv_number (version_of d ?h) = num ?h" "wv_tree (version_of d ?h) = vr_tree (db_versions d ! ?h)"
    by (simp_all add: version_of_def Let_def)
  have "\<not> expected > num ?h" using assms(6) unfolding record_attempt_def head by (auto simp: tx_fail_def)
  then obtain och d1 where first: "received_changes E expected root received d = Inr (och, d1)"
    and rest: "settle_attempt E (version_of d ?h) operation expected root och d1 = Inr (outcome, d')"
    using assms(6) unfolding record_attempt_def head by (auto simp: tx_bind_Inr)
  have "unat expected \<le> ?h" using \<open>\<not> expected > num ?h\<close> h(2) by (simp add: word_less_nat_alt)
  then have e: "expected = num (unat expected)" "unat expected < length w" using h(1) by (simp_all add: num_unat)
  let ?f = "fst (w ! unat expected)"
  have d1: "objects_ok E d1 \<and> adds_objects d d1 \<and> (\<exists>g. stands E d1 root g \<and> (\<forall>ch. och = Some ch \<longrightarrow> leads ?f ch g))
      \<and> (received \<longrightarrow> (\<exists>ch. och = Some ch \<and> rederives E d1 (vr_tree (db_versions d ! unat expected)) ch root))"
  proof (cases received)
    case True
    then obtain ch where ch: "verify_received E expected root d = Inr (ch, d1)" "och = Some ch"
      using first by (auto simp: received_changes_def tx_bind_Inr tx_ret_Inr)
    have "tree_diff (en_sha E) (tree_view d) (vr_tree (db_versions d ! unat expected)) root = Inr ch"
      using ch(1) e(2) unfolding verify_received_def
      by (auto simp: tx_result result_simps tree_in_spec [OF assms(2)] tx_fail_def split: if_splits)
    then have "roomy E ?f ch" using assms(4) [OF True e(2)] by blast
    from verify_received_spec [OF assms(1,2) e(2) ch(1) this] show ?thesis using ch(2) by blast
  next
    case False
    then have "och = None" "d1 = d" using first by (simp_all add: received_changes_def tx_ret_Inr)
    then show ?thesis using assms(2,5) False by (auto simp: repo_ok_def)
  qed
  then obtain g where g: "stands E d1 root g" "\<forall>ch. och = Some ch \<longrightarrow> leads ?f ch g" by blast
  have ok1: "repo_ok E d1 w" using repo_ok_objects [OF assms(2)] d1 by blast
  have k: "keeps_objects d d1" using d1 adds_keeps by blast
  have same: "db_attempts d1 = db_attempts d" "db_versions d1 = db_versions d" using d1 by (auto simp: adds_objects_def)
  have new: "attempt_row_in operation d1 = None" using assms(3) same(1) by (simp add: attempt_row_in_def)
  have rest': "settle_attempt E (version_of d1 ?h) operation (num (unat expected)) root och d1 = Inr (outcome, d')"
    using rest e(1) version_of_cong [OF same(2)] by simp
  show ?thesis
  proof (cases "unat expected = ?h")
    case False
    then have "unat expected < ?h" using \<open>unat expected \<le> ?h\<close> by simp
    from stale_recorded [OF ok1 new g(1) this k same(1) rest'] show ?thesis using e(1) by auto
  next
    case True
    have "\<exists>ch. leads ?f ch g \<and> (received \<longrightarrow> rederives E d1 (vr_tree (db_versions d1 ! ?h)) ch root) \<and> (\<forall>t. db_objects t = db_objects d1 \<longrightarrow> head_changes E (version_of d1 ?h) root och t = Inr (ch, t))"
    proof (cases och)
      case (Some ch)
      then have "received \<longrightarrow> rederives E d1 (vr_tree (db_versions d1 ! ?h)) ch root" using d1 True same(2) by auto
      then show ?thesis using Some g(2) head_changes_given by blast
    next
      case None
      have "stands E d1 (vr_tree (db_versions d1 ! ?h)) ?f" using repo_versions(7) [OF ok1 h(1)] True by simp
      from leads_diff [OF this g(1)] obtain ch where
        ch: "tree_diff (en_sha E) (tree_view d1) (vr_tree (db_versions d1 ! ?h)) root = Inr ch" "leads ?f ch g" by blast
      have "wv_tree (version_of d1 ?h) = vr_tree (db_versions d1 ! ?h)" by (simp add: version_of_def Let_def)
      moreover have "\<not> received" using d1 None by auto
      ultimately show ?thesis using ch head_changes_read unfolding None by metis
    qed
    then obtain ch where ch: "leads ?f ch g" "received \<Longrightarrow> rederives E d1 (vr_tree (db_versions d1 ! ?h)) ch root"
      "\<And>t. db_objects t = db_objects d1 \<Longrightarrow> head_changes E (version_of d1 ?h) root och t = Inr (ch, t)" by blast
    from accepted_attempt_recorded [OF ok1 new ch(1) [unfolded True] g(1) ch(3) k same(1) rest' [unfolded True] same(2) ch(2)]
    show ?thesis using e(1) True by auto
  qed
qed

end
