(* ===== verification/Repository.thy ===== *)
theory Repository
  imports Advancing
begin

text \<open>
  The repository as a state machine: the operations of \<open>src/repository.rs\<close> that write, from a new database on. Every
  reachable state has a well-formed history, a retried attempt returns what it first returned, and reads return the
  recorded versions.
\<close>

section \<open>The environment\<close>

text \<open>SHA-256 digests have 32 bytes; decoded JSON has UTF-8 strings and object IDs of 32 bytes.\<close>

definition env_ok :: "env \<Rightarrow> bool" where
  "env_ok E \<longleftrightarrow> hash_ok (en_sha E)
     \<and> (\<forall>b es. en_unmanifest E b = Inr es \<longrightarrow> (\<forall>(p, e) \<in> set es. utf8 p \<and> oid_ok (entry_content e)))"

lemma attempt_numbers:
  assumes "repo_ok E d w" "row \<in> set (db_attempts d)"
  obtains e r where "ar_expected row = int e" "ar_result row = int r" "e < r" "r < length w" "r < 2 ^ 63"
proof -
  have "attempt_ok E d row" using assms by (simp add: repo_ok_def)
  then obtain e r where "ar_expected row = int e" "ar_result row = int r" "e < r" "r < length (db_versions d)"
    unfolding attempt_ok_def by blast
  then show ?thesis using that repo_versions(2,3) [OF assms(1)] by simp
qed

section \<open>A retried attempt\<close>

lemma advance_retry:
  assumes "repo_ok E d w" "row \<in> set (db_attempts d)" "\<not> operation_exists_in (ar_id row) d"
  shows "advance_in E (ar_id row) expected root received d =
    (if ar_expected row = version_sql expected \<and> ar_tree row = Some root then Inr (outcome_of d row, d)
     else Inl (OperationIdReused (ar_id row)))"
proof -
  have "attempt_row_in (ar_id row) d = Some row" using attempt_row_iff [OF assms(1), of "ar_id row" row] assms(2) by simp
  then have "attempt_in (ar_id row) d = Inr (Some (attempt_of row))" by (simp add: attempt_in_spec [OF assms(1)])
  moreover have "at_expected (attempt_of row) = expected \<longleftrightarrow> ar_expected row = version_sql expected"
  proof -
    obtain e r where e: "ar_expected row = int e" "e < r" "r < 2 ^ 63" by (rule attempt_numbers [OF assms(1,2)])
    then have "e < 2 ^ 63" by simp
    then show ?thesis using version_sql_num [of expected e] by (auto simp: attempt_of_def e(1))
  qed
  ultimately show ?thesis using head_in_spec [OF assms(1)] attempt_outcome_spec [OF assms(1,2)] assms(3)
    by (auto simp: advance_in_def tx_bind_def tx_read_def tx_fail_def attempt_of_def)
qed

lemma advance_new:
  assumes "repo_ok E d w" "attempt_row_in operation d = None"
  shows "advance_in E operation expected root received d =
    (if operation_exists_in operation d then Inl (OperationIdReused operation)
     else record_attempt E (version_of d (head_number w)) operation expected root received d)"
  using head_in_spec [OF assms(1)] attempt_in_spec [OF assms(1), of operation] assms(2)
  by (auto simp: advance_in_def tx_bind_def tx_read_def tx_fail_def)

section \<open>Growth\<close>

text \<open>What a later state keeps of an earlier one.\<close>

definition later :: "db \<Rightarrow> db \<Rightarrow> bool" where
  "later d d' \<longleftrightarrow> keeps_objects d d' \<and> (\<exists>more. db_attempts d' = db_attempts d @ more)
     \<and> (\<exists>more. db_versions d' = db_versions d @ more) \<and> (\<exists>more. db_changes d' = db_changes d @ more)
     \<and> db_identity d' = db_identity d \<and> db_publications d' = db_publications d"

lemma later_refl [simp]: "later d d"
  by (simp add: later_def)

lemma later_trans: "later a b \<Longrightarrow> later b c \<Longrightarrow> later a c"
  unfolding later_def using keeps_objects_trans by (auto simp: append.assoc)

lemma adds_later: "adds_objects d d' \<Longrightarrow> later d d'"
  using adds_keeps by (auto simp: later_def adds_objects_def)

lemma outcome_later:
  assumes "repo_ok E d w" "later d d'" "row \<in> set (db_attempts d)"
  shows "outcome_of d' row = outcome_of d row"
proof -
  obtain e r where r: "ar_result row = int r" "r < length w" by (rule attempt_numbers [OF assms(1,3)])
  then have r: "ar_result row = int r" "r < length (db_versions d)" using repo_versions(3) [OF assms(1)] by simp_all
  obtain more where "db_versions d' = db_versions d @ more" using assms(2) by (auto simp: later_def)
  then have "db_versions d' ! r = db_versions d ! r" using r(2) by (simp add: nth_append)
  then show ?thesis by (simp add: outcome_of_def version_of_def Let_def r(1))
qed

lemma settle_later:
  assumes "settle_attempt E head operation expected root changes d = Inr (outcome, d')"
  shows "later d d'"
proof -
  have ch: "later d d'" if "tx_each (insert_change n) ch d = Inr (u, d')" for n ch u d d'
    using that
  proof (induction ch arbitrary: d)
    case (Cons c ch)
    then obtain d1 where d1: "insert_change n c d = Inr ((), d1)" "tx_each (insert_change n) ch d1 = Inr (u, d')"
      by (auto simp: tx_bind_Inr)
    have "later d d1"
      using d1(1) keeps_same [of d1 d]
      by (auto simp: insert_change_def result_simps later_def split: prod.splits)
    then show ?case using Cons.IH [OF d1(2)] later_trans by blast
  qed (simp add: tx_ret_Inr)
  have ver: "later d d'" if "insert_version row d = Inr (u, d')" for row u d d'
    using that keeps_same [of d' d] by (auto simp: insert_version_def result_simps later_def split: if_splits)
  have app: "later d d'" if "append_version_in E head operation ch root d = Inr (v, d')" for ch v d d'
    using that ver ch later_trans unfolding append_version_in_def by (auto simp: tx_result Let_def) blast
  have att: "later d d'" if "insert_attempt row d = Inr (u, d')" for row u d d'
    using that keeps_same [of d' d] by (auto simp: insert_attempt_def result_simps later_def)
  have hc: "d' = d" if "head_changes E head root changes d = Inr (c, d')" for c d d'
    using that by (auto simp: head_changes_def tx_result split: option.splits)
  show ?thesis
    using assms att app hc later_trans unfolding settle_attempt_def Let_def
    by (auto simp: tx_bind_Inr tx_read_Inr tx_ret_Inr split: if_splits) blast+
qed

section \<open>Writing operations\<close>

lemma manifest_in_Inr:
  assumes "env_ok E" "manifest_in E i d = Inr m"
  shows "omap_ok m \<and> changes_valid (additions m) \<and> (\<forall>(p, e) \<in> set m. validate_entry E d e = Inr ())"
proof -
  obtain bs where m: "manifest_decode (en_manifest E) (en_unmanifest E) bs = Inr m" "validate_entries E d (map snd m) = Inr ()"
    using assms(2) by (auto simp: manifest_in_def result_simps)
  then obtain es ps where es: "en_unmanifest E bs = Inr es"
      "emap (\<lambda>(path, entry). ebind (path_parse path) (\<lambda>p. Inr (p, entry))) es = Inr ps" "manifest_new ps = Inr m"
    by (auto simp: manifest_decode_def result_simps split: if_splits)
  have ok: "omap_ok m" "map_of m = map_of ps" using es(3) collect_unique_Inr [of _ ps "[]" m]
    by (auto simp: manifest_new_def result_simps split: if_splits)
  have "path_valid p \<and> oid_ok (entry_content e)" if "(p, e) \<in> set m" for p e
  proof -
    have "map_of ps p = Some e" using that ok omap_map_of_iff by metis
    then have "(p, e) \<in> set ps" by (rule map_of_SomeD)
    from emap_members [OF es(2) this] have "(p, e) \<in> set es \<and> path_ok p"
      by (auto simp: result_simps path_parse_def split: if_splits)
    moreover have "utf8 p \<and> oid_ok (entry_content e)" using calculation assms(1) es(1) unfolding env_ok_def by blast
    ultimately show ?thesis by (simp add: path_valid_def)
  qed
  then have "changes_valid (additions m)"
    using ok(1) by (auto simp: changes_valid_def additions_def omap_ok_def case_prod_beta comp_def)
  then show ?thesis using ok(1) m(2) unfolding validate_entries_iff by auto
qed

lemma build_stands:
  assumes "env_ok E" "objects_ok E d" "changes_valid (additions m)" "\<forall>(p, e) \<in> set m. validate_entry E d e = Inr ()" "omap_ok m"
    "length m < en_fuel E" "length m \<le> 2 ^ MAX_LEVEL"
    "sql_write E (tree_build (en_fuel E) (en_sha E) m) d = Inr (root, d')"
  shows "objects_ok E d' \<and> adds_objects d d' \<and> stands E d' root (map_of m)"
proof -
  obtain s where s: "tree_build (en_fuel E) (en_sha E) m (tree_view d) = (Inr root, s)" "\<not> ms_collided s"
      "extends s (tree_view d')" "objects_ok E d'" "adds_objects d d'"
    by (rule sql_write_Inr [OF assms(2) steady_tree_build assms(8)])
  have "hash_ok (en_sha E)" using assms(1) by (simp add: env_ok_def)
  from build_spec [OF this assms(3,6,7) s(1,2)] have snap: "snapshot (en_sha E) s root (map_of m)"
    by (auto simp: declined_def split: if_splits)
  have mem: "(p, e) \<in> set m" if "map_of m p = Some e" for p e using that by (rule map_of_SomeD)
  have "world (map_of m)"
    using mem assms(3) by (fastforce simp: world_def changes_valid_def additions_def finite_dom_map_of)
  moreover have "validate_entry E d' e = Inr ()" if "map_of m p = Some e" for p e
    using mem [OF that] assms(4) validate_entry_keeps [OF adds_keeps [OF s(5)]] by blast
  ultimately show ?thesis using s(4,5) snapshot_extends [OF snap s(3)] unfolding stands_def by blast
qed

text \<open>A manifest that fits.\<close>

definition manifest_fits :: "env \<Rightarrow> db \<Rightarrow> object_id \<Rightarrow> bool" where
  "manifest_fits E d i \<longleftrightarrow> (\<forall>m. manifest_in E i d = Inr m \<longrightarrow> length m < en_fuel E \<and> length m \<le> 2 ^ MAX_LEVEL)"

text \<open>A tree whose differences from the versions of the history fit.\<close>

definition tree_fits :: "env \<Rightarrow> db \<Rightarrow> world_log \<Rightarrow> object_id \<Rightarrow> bool" where
  "tree_fits E d w root \<longleftrightarrow>
     (\<forall>i ch. i < length w \<longrightarrow> tree_diff (en_sha E) (tree_view d) (vr_tree (db_versions d ! i)) root = Inr ch \<longrightarrow>
        roomy E (fst (w ! i)) ch)"

lemma recorded_later:
  assumes "recorded E received d w operation expected root outcome d' w'" "settle_attempt E head operation expected root ch d1 = Inr (outcome, d')" "adds_objects d d1"
  shows "later d d'"
  using settle_later [OF assms(2)] adds_later [OF assms(3)] later_trans by blast

text \<open>Every outcome of an attempt on a well-formed history.\<close>

definition attempted :: "env \<Rightarrow> bool \<Rightarrow> db \<Rightarrow> world_log \<Rightarrow> string \<Rightarrow> 64 word \<Rightarrow> object_id \<Rightarrow> advance_outcome \<Rightarrow> db \<Rightarrow> world_log \<Rightarrow> bool" where
  "attempted E received d w operation expected root outcome d' w' \<longleftrightarrow>
     (if \<exists>row \<in> set (db_attempts d). ar_id row = operation
      then d' = d \<and> w' = w \<and> (\<exists>row \<in> set (db_attempts d). ar_id row = operation \<and> ar_expected row = version_sql expected
             \<and> ar_tree row = Some root \<and> outcome = outcome_of d row)
      else recorded E received d w operation expected root outcome d' w')"

lemma attempted_row:
  assumes "attempted E received d w operation expected root outcome d' w'"
  shows "\<exists>row \<in> set (db_attempts d'). ar_id row = operation \<and> ar_expected row = version_sql expected
    \<and> ar_tree row = Some root \<and> outcome = outcome_of d' row"
proof (cases "\<exists>row \<in> set (db_attempts d). ar_id row = operation")
  case True
  then show ?thesis using assms unfolding attempted_def by auto
next
  case False
  then have "recorded E received d w operation expected root outcome d' w'" using assms unfolding attempted_def by (simp only: if_False)
  then obtain row where "db_attempts d' = db_attempts d @ [row]" "ar_id row = operation" "ar_expected row = version_sql expected"
      "ar_tree row = Some root" "outcome = outcome_of d' row" unfolding recorded_def by blast
  then show ?thesis by auto
qed

lemma received_adds:
  assumes "objects_ok E d" "received_changes E expected root received d = Inr (och, d1)"
  shows "adds_objects d d1"
proof (cases received)
  case True
  obtain b changes r where "sql_write E (tree_apply (en_fuel E) (en_sha E) b changes) d = Inr (r, d1)"
    using assms(2) True by (auto simp: received_changes_def verify_received_def tx_result tx_fail_def split: if_splits)
  from sql_write_Inr [OF assms(1) steady_tree_apply this] show ?thesis by blast
qed (use assms(2) in \<open>simp add: received_changes_def tx_ret_Inr\<close>)

lemma advance_spec:
  assumes "hash_ok (en_sha E)" "repo_ok E d w" "received \<Longrightarrow> tree_fits E d w root" "\<not> received \<Longrightarrow> \<exists>g. stands E d root g"
    "advance_in E operation expected root received d = Inr (outcome, d')"
  shows "\<exists>w'. attempted E received d w operation expected root outcome d' w' \<and> repo_ok E d' w' \<and> later d d'"
proof (cases "\<exists>row \<in> set (db_attempts d). ar_id row = operation")
  case True
  then obtain row where row: "row \<in> set (db_attempts d)" "ar_id row = operation" by blast
  have "\<not> operation_exists_in operation d"
    using assms(5) head_in_spec [OF assms(2)] by (auto simp: advance_in_def tx_bind_def tx_read_def)
  then have r: "advance_in E operation expected root received d =
      (if ar_expected row = version_sql expected \<and> ar_tree row = Some root then Inr (outcome_of d row, d) else Inl (OperationIdReused operation))"
    using advance_retry [OF assms(2) row(1), of expected root received] row(2) by simp
  then have "d' = d" "ar_expected row = version_sql expected" "ar_tree row = Some root" "outcome = outcome_of d row"
    using assms(5) by (auto split: if_splits)
  then show ?thesis using True row assms(2) unfolding attempted_def by auto
next
  case False
  then have new: "attempt_row_in operation d = None" by (auto simp: attempt_row_in_def find_row_None)
  have rec: "record_attempt E (version_of d (head_number w)) operation expected root received d = Inr (outcome, d')"
    using assms(5) advance_new [OF assms(2) new] by (auto split: if_splits)
  have fits: "roomy E (fst (w ! i)) ch" if "received" "i < length w"
      "tree_diff (en_sha E) (tree_view d) (vr_tree (db_versions d ! i)) root = Inr ch" for i ch
    using assms(3) that unfolding tree_fits_def by blast
  from record_attempt_spec [OF assms(1,2) new fits assms(4) rec] obtain w' where w': "recorded E received d w operation expected root outcome d' w'" by blast
  obtain och d1 where d1: "received_changes E expected root received d = Inr (och, d1)"
      "settle_attempt E (version_of d (head_number w)) operation expected root och d1 = Inr (outcome, d')"
    using rec by (auto simp: record_attempt_def tx_bind_Inr tx_fail_def split: if_splits)
  have "adds_objects d d1" using received_adds d1(1) assms(2) by (auto simp: repo_ok_def)
  then have "later d d'" by (rule recorded_later [OF w' d1(2)])
  then show ?thesis using False w' unfolding attempted_def recorded_def by auto
qed

lemma compare_and_advance_spec:
  assumes "env_ok E" "repo_ok E d w" "manifest_fits E d manifest" "compare_and_advance E operation expected manifest d = Inr (outcome, d')"
  shows "\<exists>m root d1 w'. manifest_in E manifest d = Inr m \<and> adds_objects d d1 \<and> stands E d1 root (map_of m)
    \<and> attempted E False d1 w operation expected root outcome d' w' \<and> repo_ok E d' w' \<and> later d d'"
proof -
  obtain m root d1 where m: "manifest_in E manifest d = Inr m"
      and b: "sql_write E (tree_build (en_fuel E) (en_sha E) m) d = Inr (root, d1)"
      and a: "advance_in E operation expected root False d1 = Inr (outcome, d')"
    using assms(4) by (auto simp: compare_and_advance_def tx_result split: if_splits)
  note ok = manifest_in_Inr [OF assms(1) m]
  have fits: "length m < en_fuel E" "length m \<le> 2 ^ MAX_LEVEL" using assms(3) m by (auto simp: manifest_fits_def)
  have d1: "objects_ok E d1 \<and> adds_objects d d1 \<and> stands E d1 root (map_of m)"
    using build_stands [OF assms(1) _ _ _ _ fits b] ok assms(2) by (auto simp: repo_ok_def)
  then have "repo_ok E d1 w" using repo_ok_objects [OF assms(2)] by blast
  from advance_spec [OF _ this _ _ a] obtain w' where
    "attempted E False d1 w operation expected root outcome d' w'" "repo_ok E d' w'" "later d1 d'"
    using assms(1) d1 unfolding env_ok_def by blast
  then show ?thesis using m d1 adds_later later_trans by blast
qed

lemma advance_to_tree_spec:
  assumes "env_ok E" "repo_ok E d w" "tree_fits E d w root" "advance_to_tree E operation expected root d = Inr (outcome, d')"
  shows "\<exists>w'. attempted E True d w operation expected root outcome d' w' \<and> repo_ok E d' w' \<and> later d d'"
proof -
  have "advance_in E operation expected root True d = Inr (outcome, d')"
    using assms(4) by (auto simp: advance_to_tree_def tx_result)
  from advance_spec [OF _ assms(2) assms(3) _ this] show ?thesis using assms(1) by (simp add: env_ok_def)
qed

section \<open>A new database\<close>

lemma initial_repo:
  "\<exists>d. initial_db E identity = Inr d \<and> repo_ok E d [(Map.empty, [])] \<and> db_attempts d = [] \<and> db_identity d = [(1, identity)]
    \<and> db_publications d = [] \<and> db_heads d = [] \<and> db_layer_attempts d = [] \<and> db_stacks d = [] \<and> db_paths d = [] \<and> db_blame d = []"
proof -
  define fresh where "fresh = \<lparr>db_format = FORMAT, db_application = APPLICATION, db_objects = [], db_attempts = [], db_versions = [],
     db_changes = [], db_identity = [(1, identity)], db_heads = [], db_layer_attempts = [],
     db_publications = [], db_stacks = [], db_paths = [], db_blame = []\<rparr>"
  let ?e = "empty_tree (en_sha E)"
  let ?row = "\<lparr>or_id = ?e, or_kind = kind_sql Tree, or_bytes = [CHR 0x00]\<rparr>"
  let ?d1 = "fresh\<lparr>db_objects := [?row]\<rparr>"
  let ?version = "\<lparr>vr_number = 0, vr_id = version_id (en_sha E) (en_changes E) None ?e [], vr_tree = ?e, vr_operation = None\<rparr>"
  let ?d = "?d1\<lparr>db_versions := [?version]\<rparr>"
  have at: "object_at fresh ?e = None" "object_at ?d1 ?e = Some ?row"
    by (simp_all add: object_at_def find_row_def fresh_def)
  have hash: "object_hash (en_sha E) Tree [CHR 0x00] = ?e" by (simp add: empty_tree_def)
  have "read_object E ?d1 ?e Tree = Inr [CHR 0x00]"
    unfolding read_object_def at(2) by (simp only: ok_or_def option.case ebind.simps object_row.simps kind_sql_decode hash) simp
  moreover have "db_objects fresh = []" by (simp add: fresh_def)
  ultimately have i: "insert_object E Tree [CHR 0x00] fresh = Inr (?e, ?d1)"
    using at(1) unfolding insert_object_def hash Let_def by simp
  have v: "insert_version ?version ?d1 = Inr ((), ?d)"
    by (simp add: insert_version_def next_row_number_def insert_unique_def fresh_def)
  have run: "initial_db E identity = Inr ?d"
    by (simp only: initial_db_def fresh_def [symmetric] Let_def tx_bind_def i v ebind.simps split_conv)
  have "row_ok E ?row" unfolding row_ok_def by (intro exI [of _ Tree]) (simp add: empty_tree_def)
  then have "objects_ok E ?d" by (simp add: objects_ok_def)
  moreover have "stands E ?d ?e Map.empty" by (simp add: stands_def world_empty snapshot_def)
  ultimately have "repo_ok E ?d [(Map.empty, [])]"
    by (simp add: repo_ok_def versions_ok_def changes_rows_ok_def linked_def Let_def validate_format_iff)
      (simp add: fresh_def)
  then show ?thesis using run by (auto simp: fresh_def)
qed

section \<open>Runs\<close>

text \<open>One call of a writing operation that succeeds, on Worlds that fit.\<close>

inductive repo_step :: "env \<Rightarrow> db \<Rightarrow> db \<Rightarrow> bool" for E where
  "put_blob E bs d = Inr (i, d') \<Longrightarrow> repo_step E d d'"
| "put_manifest E m d = Inr (i, d') \<Longrightarrow> repo_step E d d'"
| "put_tree E bs d = Inr (i, d') \<Longrightarrow> repo_step E d d'"
| "put_snapshot E m d = Inr (i, d') \<Longrightarrow> repo_step E d d'"
| "compare_and_advance E operation expected manifest d = Inr (outcome, d') \<Longrightarrow> manifest_fits E d manifest \<Longrightarrow> repo_step E d d'"
| "advance_to_tree E operation expected root d = Inr (outcome, d') \<Longrightarrow> (\<And>w. repo_ok E d w \<Longrightarrow> tree_fits E d w root) \<Longrightarrow> repo_step E d d'"

inductive repo_run :: "env \<Rightarrow> db \<Rightarrow> db \<Rightarrow> bool" for E where
  start: "repo_run E d d"
| more: "repo_run E d d' \<Longrightarrow> repo_step E d' d'' \<Longrightarrow> repo_run E d d''"

lemma put_objects:
  assumes "objects_ok E d"
  shows "put_blob E bs d = Inr (i, d') \<Longrightarrow> objects_ok E d' \<and> adds_objects d d'"
    "put_manifest E m d = Inr (i, d') \<Longrightarrow> objects_ok E d' \<and> adds_objects d d'"
    "put_tree E bs d = Inr (i, d') \<Longrightarrow> objects_ok E d' \<and> adds_objects d d'"
    "put_snapshot E m d = Inr (i, d') \<Longrightarrow> objects_ok E d' \<and> adds_objects d d'"
proof -
  show "put_blob E bs d = Inr (i, d') \<Longrightarrow> objects_ok E d' \<and> adds_objects d d'"
    using insert_object_Inr [OF assms] by (simp add: put_blob_def)
  show "put_manifest E m d = Inr (i, d') \<Longrightarrow> objects_ok E d' \<and> adds_objects d d'"
    using insert_object_Inr [OF assms] by (auto simp: put_manifest_def tx_result)
  show "put_tree E bs d = Inr (i, d') \<Longrightarrow> objects_ok E d' \<and> adds_objects d d'"
    using insert_object_Inr [OF assms] by (auto simp: put_tree_def tx_result)
  assume "put_snapshot E m d = Inr (i, d')"
  then have "sql_write E (tree_build (en_fuel E) (en_sha E) m) d = Inr (i, d')" by (auto simp: put_snapshot_def tx_result)
  from sql_write_Inr [OF assms steady_tree_build this] show "objects_ok E d' \<and> adds_objects d d'" by blast
qed

lemma step_spec:
  assumes "env_ok E" "repo_ok E d w" "repo_step E d d'"
  shows "\<exists>w'. repo_ok E d' w' \<and> later d d'"
proof -
  have ok: "objects_ok E d" using assms(2) by (simp add: repo_ok_def)
  have objects: "\<exists>w'. repo_ok E d' w' \<and> later d d'" if "objects_ok E d' \<and> adds_objects d d'"
    using that repo_ok_objects [OF assms(2)] adds_later by blast
  from assms(3) show ?thesis
  proof cases
    case (1 bs i)
    show ?thesis by (rule objects [OF put_objects(1) [OF ok 1]])
  next
    case (2 m i)
    show ?thesis by (rule objects [OF put_objects(2) [OF ok 2]])
  next
    case (3 bs i)
    show ?thesis by (rule objects [OF put_objects(3) [OF ok 3]])
  next
    case (4 m i)
    show ?thesis by (rule objects [OF put_objects(4) [OF ok 4]])
  next
    case (5 operation expected manifest outcome)
    from compare_and_advance_spec [OF assms(1,2) 5(2,1)] show ?thesis by blast
  next
    case (6 operation expected root outcome)
    from advance_to_tree_spec [OF assms(1,2) 6(2) [OF assms(2)] 6(1)] show ?thesis by blast
  qed
qed

lemma run_spec:
  assumes "env_ok E" "repo_run E d d'" "repo_ok E d w"
  shows "\<exists>w'. repo_ok E d' w' \<and> later d d'"
  using assms(2,3)
proof (induction rule: repo_run.induct)
  case (more d d' d'')
  then show ?case using step_spec [OF assms(1)] later_trans by metis
qed auto

section \<open>Reading the history\<close>

lemma decode_encode_entry: "encode_entry e = (k, c) \<Longrightarrow> decode_entry k c = Inr e"
  by (cases e rule: encode_entry.cases) (auto simp: decode_entry_def)

lemma decode_change_row: "path_valid (fst c) \<Longrightarrow> decode_change (row_of_change i c) = Inr c"
  using decode_encode_entry [of "snd c"]
  by (cases "encode_entry (snd c)") (simp add: decode_change_def row_of_change_def decode_path_def path_parse_def path_valid_def)

lemma changeset_in_spec:
  assumes "repo_ok E d w" "i < length w"
  shows "changeset_in (num i) d = Inr (snd (w ! i))"
proof -
  let ?ch = "snd (w ! i)"
  note v = repo_versions [OF assms(1)]
  have valid: "changes_valid ?ch"
    using v(6) [OF assms(2)] by (cases "i = 0") (auto simp: linked_def leads_def changes_valid_def Let_def)
  have "filter (\<lambda>r. cr_version r = version_sql (num i)) (db_changes d) = map (row_of_change i) ?ch"
    using assms v(5) by (simp add: repo_ok_def changes_rows_ok_def)
  moreover have "map cr_path (map (row_of_change i) ?ch) = map fst ?ch" by (simp add: row_of_change_def split: prod.split)
  moreover have "sorted (map fst ?ch)" using valid by (simp add: changes_valid_def omap_ok_def strict_sorted_imp_sorted)
  ultimately have "change_rows (num i) d = map (row_of_change i) ?ch"
    unfolding change_rows_def using sort_key_id_if_sorted [of cr_path "map (row_of_change i) ?ch"] by metis
  moreover have "emap decode_change (map (row_of_change i) cs) = Inr cs" if "\<forall>c \<in> set cs. path_valid (fst c)" for cs
    using that by (induction cs) (simp_all add: decode_change_row)
  moreover have "\<forall>c \<in> set ?ch. path_valid (fst c)" using valid by (auto simp: changes_valid_def)
  ultimately show ?thesis
    using valid collect_unique_omap [of ?ch] by (simp add: changeset_in_def changes_new_def changes_valid_def)
qed

lemma reads_spec:
  assumes "repo_ok E d w" "i < length w"
  shows "repo_version (num i) d = Inr (version_of d i)" "changeset (num i) d = Inr (snd (w ! i))"
    "\<exists>m. manifest_at E (num i) d = Inr m \<and> omap_ok m \<and> map_of m = fst (w ! i)"
proof -
  have b: "unat (num i) = i" using repo_versions(5) [OF assms] by simp
  have read: "version_in (num i) d = Inr (version_of d i)" using version_in_spec [OF assms(1), of "num i"] assms(2) b by simp
  then show "repo_version (num i) d = Inr (version_of d i)" "changeset (num i) d = Inr (snd (w ! i))"
    using assms(1) changeset_in_spec [OF assms] by (simp_all add: repo_version_def changeset_def repo_ok_def)
  have st: "snapshot (en_sha E) (tree_view d) (vr_tree (db_versions d ! i)) (fst (w ! i))" "world (fst (w ! i))"
    using repo_versions(7) [OF assms] by (simp_all add: stands_def)
  obtain m where m: "tree_entries (en_sha E) (tree_view d) (vr_tree (db_versions d ! i)) = Inr m" "omap_ok m" "map_of m = fst (w ! i)"
    using entries_spec [OF st] by blast
  have "\<not> list_ex (\<lambda>path. list_ex (omap_has m) (ancestors path)) (map fst m)"
  proof
    assume "list_ex (\<lambda>path. list_ex (omap_has m) (ancestors path)) (map fst m)"
    then obtain p a where "map_of m p \<noteq> None" "map_of m a \<noteq> None" "below a p"
      by (auto simp: list_ex_iff set_ancestors omap_has_def) (metis weak_map_of_SomeI option.distinct(1))
    then show False using snapshot_disjoint [OF st(1)] m(3) unfolding below_iff by metis
  qed
  then have "manifest_new m = Inr m" by (simp add: manifest_new_def collect_unique_omap [OF m(2)])
  moreover have "wv_tree (version_of d i) = vr_tree (db_versions d ! i)" by (simp add: version_of_def Let_def)
  ultimately have "manifest_at E (num i) d = Inr m" using m(1) by (simp add: manifest_at_def read sql_read_def)
  then show "\<exists>m. manifest_at E (num i) d = Inr m \<and> omap_ok m \<and> map_of m = fst (w ! i)" using m(2,3) by blast
qed

section \<open>Progress\<close>

lemma advance_progress:
  assumes "repo_ok E d w" "attempt_row_in operation d = None" "\<not> operation_exists_in operation d" "length w < 2 ^ 63" "stands E d root g"
  shows "\<exists>d'. advance_in E operation (num (head_number w)) root False d = Inr (Advanced (version_of d' (length w)), d')"
proof -
  let ?h = "head_number w"
  note v = repo_versions [OF assms(1)]
  have h: "?h < length w" "?h < 2 ^ 63" using v(1) v(5) [of ?h] by (simp_all add: head_number_def)
  have head: "wv_number (version_of d ?h) = num ?h" "wv_tree (version_of d ?h) = vr_tree (db_versions d ! ?h)"
    by (simp_all add: version_of_def Let_def)
  obtain ch where ch: "tree_diff (en_sha E) (tree_view d) (vr_tree (db_versions d ! ?h)) root = Inr ch" "leads (fst (w ! ?h)) ch g"
    using leads_diff [OF v(7) [OF h(1)] assms(5)] by blast
  have hc: "db_objects t = db_objects d \<Longrightarrow> head_changes E (version_of d ?h) root None t = Inr (ch, t)" for t
    using head_changes_read ch(1) head(2) by metis
  from settle_accepted [OF assms(1,2,4) ch(2) hc assms(5)] obtain d' where
    "settle_attempt E (version_of d ?h) operation (num ?h) root None d = Inr (Advanced (version_of d' (length w)), d')" by blast
  then show ?thesis
    using advance_new [OF assms(1,2)] assms(3)
    by (auto simp: record_attempt_def head received_changes_def tx_bind_def tx_ret_def)
qed

section \<open>An example\<close>

definition example_env :: env where
  "example_env = \<lparr>en_sha = last_byte_sha, en_changes = (\<lambda>_. []), en_manifest = (\<lambda>_. []), en_unmanifest = (\<lambda>_. Inl ''no JSON''), en_fuel = 3\<rparr>"

lemma example_env_ok: "env_ok example_env"
  using last_byte_sha_ok by (simp add: env_ok_def example_env_def)

definition new_db :: db where
  "new_db = (case initial_db example_env xs32 of Inr d \<Rightarrow> d | Inl _ \<Rightarrow> undefined)"

lemma new_db_ok: "initial_db example_env xs32 = Inr new_db" "repo_ok example_env new_db [(Map.empty, [])]" "db_attempts new_db = []"
    "\<not> operation_exists_in p new_db"
  using initial_repo [of example_env xs32] by (auto simp: new_db_def operation_exists_in_def)

definition root_0 :: object_id where
  "root_0 = vr_tree (db_versions new_db ! 0)"

lemma root_0_stands: "stands example_env new_db root_0 Map.empty"
  using repo_versions(7) [OF new_db_ok(2), of 0] by (simp add: root_0_def)

lemma root_0_fits: "tree_fits example_env new_db [(Map.empty, [])] root_0"
  by (auto simp: tree_fits_def root_0_def tree_diff_def diff_dir.simps changes_new_def omap_of_def roomy_def example_env_def MAX_LEVEL_def)

text \<open>Sending the head's own tree advances the World without changes.\<close>

lemma receive_head:
  assumes "repo_ok E d w" "attempt_row_in operation d = None" "\<not> operation_exists_in operation d" "length w < 2 ^ 63"
  shows "\<exists>d'. advance_to_tree E operation (num (head_number w)) (vr_tree (db_versions d ! head_number w)) d
    = Inr (Advanced (version_of d' (length w)), d')"
proof -
  let ?h = "head_number w" let ?root = "vr_tree (db_versions d ! ?h)"
  note v = repo_versions [OF assms(1)]
  have h: "?h < length w" "?h < 2 ^ 63" using v(1) v(5) [of ?h] by (simp_all add: head_number_def)
  have head: "wv_number (version_of d ?h) = num ?h" by (simp add: version_of_def Let_def)
  have diff: "tree_diff (en_sha E) (tree_view d) ?root ?root = Inr []"
    by (simp add: tree_diff_def diff_dir.simps changes_new_def omap_of_def)
  have "tree_apply (en_fuel E) (en_sha E) ?root [] (tree_view d) = (Inr ?root, tree_view d)"
    by (simp add: tree_apply_def apply_dir.simps group_changes_def apply_groups.simps tbind_def tret_def tree_root_def)
  then have "sql_write E (tree_apply (en_fuel E) (en_sha E) ?root []) d = Inr (?root, d)"
    by (simp add: sql_write_def tx_bind_def tx_ret_def)
  moreover have "tree_in (num ?h) d = Inr ?root" using tree_in_spec [OF assms(1), of "num ?h"] h by simp
  ultimately have received: "received_changes E (num ?h) ?root True d = Inr (Some [], d)"
    using diff by (simp add: received_changes_def verify_received_def tx_bind_def tx_read_def sql_read_def tx_ret_def List.map_filter_def)
  have "leads (fst (w ! ?h)) [] (fst (w ! ?h))" by (simp add: leads_def changes_valid_def upd_def)
  from settle_accepted [OF assms(1,2,4) this head_changes_given v(7) [OF h(1)]]
  obtain d' where "settle_attempt E (version_of d ?h) operation (num ?h) ?root (Some []) d = Inr (Advanced (version_of d' (length w)), d')" by blast
  then have "advance_in E operation (num ?h) ?root True d = Inr (Advanced (version_of d' (length w)), d')"
    using advance_new [OF assms(1,2)] assms(3) received by (simp add: record_attempt_def head tx_bind_def)
  then show ?thesis using assms(1) by (auto simp: advance_to_tree_def repo_ok_def tx_bind_def tx_read_def)
qed

lemma example_advance: "\<exists>d'. advance_to_tree example_env ''op'' 0 root_0 new_db = Inr (Advanced (version_of d' 1), d')"
  using receive_head [OF new_db_ok(2), of "''op''"] new_db_ok(3,4)
  by (simp add: attempt_row_in_def find_row_None root_0_def head_number_def)

section \<open>Properties\<close>

text \<open>C13: Every state that a new database can reach has a well-formed history: contiguous versions from the empty World, each
  root a snapshot of the parent's map after the stored changeset, each version ID the hash of its link, each version bound to
  the one attempt that was accepted as it.\<close>

theorem repository_invariant:
  assumes "env_ok E" "initial_db E identity = Inr d" "repo_run E d d'"
  shows "\<exists>w. repo_ok E d' w \<and> fst (w ! 0) = Map.empty"
proof -
  have "repo_ok E d [(Map.empty, [])]" using initial_repo [of E identity] assms(2) by auto
  from run_spec [OF assms(1,3) this] obtain w where w: "repo_ok E d' w" by blast
  then have "linked E d' w 0" using repo_versions(1,6) [OF w] by auto
  then show ?thesis using w by (auto simp: linked_def Let_def)
qed

theorem repository_invariant_witness: "\<exists>w. repo_ok example_env new_db w \<and> fst (w ! 0) = Map.empty"
  by (rule repository_invariant [OF example_env_ok new_db_ok(1) repo_run.start])

text \<open>The row that records an attempt with a received tree.\<close>

definition received_row :: "string \<Rightarrow> 64 word \<Rightarrow> object_id \<Rightarrow> bool \<Rightarrow> nat \<Rightarrow> attempt_row" where
  "received_row operation expected root ok n = \<lparr>ar_id = operation, ar_expected = version_sql expected, ar_tree = Some root,
     ar_accepted = (if ok then 1 else 0), ar_result = int n\<rparr>"

lemma recorded_row:
  assumes "repo_ok E d w" "recorded E received d w operation expected root outcome d' w'"
  shows "db_attempts d' = db_attempts d @ [received_row operation expected root (expected = num (head_number w))
      (if expected = num (head_number w) then length w else head_number w)]"
proof -
  obtain row where row: "db_attempts d' = db_attempts d @ [row]" "ar_id row = operation" "ar_expected row = version_sql expected"
      "ar_tree row = Some root" "outcome = outcome_of d' row" using assms(2) unfolding recorded_def by blast
  have ok: "repo_ok E d' w'" using assms(2) by (simp add: recorded_def)
  then have "attempt_ok E d' row" using row(1) by (simp add: repo_ok_def)
  then obtain e r where r: "ar_expected row = int e" "ar_result row = int r" "r < length (db_versions d')"
      "ar_accepted row = 1 \<and> r = Suc e \<or> ar_accepted row = 0" unfolding attempt_ok_def by blast
  have len: "length w = Suc (head_number w)" "head_number w < length w" using repo_versions(1) [OF assms(1)] by (simp_all add: head_number_def)
  have small: "unat (num i) = i" if "i < length w" for i using repo_versions(5) [OF assms(1) that] by simp
  have "row = received_row operation expected root (expected = num (head_number w))
      (if expected = num (head_number w) then length w else head_number w)"
  proof (cases "expected = num (head_number w)")
    case True
    then have "outcome = Advanced (version_of d' (length w))" using assms(2) by (simp add: recorded_def)
    then have acc: "ar_accepted row = 1" using row(5) by (auto simp: outcome_of_def split: if_splits)
    have "version_sql expected = int (head_number w)" using True repo_versions(5) [OF assms(1) len(2)] by simp
    then have "ar_result row = int (length w)" using acc r row(3) len(1) by simp
    then show ?thesis using True acc row(2-4) by (cases row) (simp add: received_row_def)
  next
    case False
    then have o: "outcome = AdvanceStale (num (head_number w))" "w' = w" using assms(2) by (simp_all add: recorded_def)
    then have acc: "ar_accepted row = 0" and "num (nat (ar_result row)) = num (head_number w)"
      using row(5) r(4) by (auto simp: outcome_of_def split: if_splits)
    then have "num r = num (head_number w)" using r(2) by simp
    moreover have "r < length w" using r(3) repo_versions(3) [OF ok] o(2) by simp
    ultimately have "r = head_number w" using small [of r] small [OF len(2)] by metis
    then show ?thesis using False acc row(2-4) r(2) by (cases row) (simp add: received_row_def)
  qed
  then show ?thesis using row(1) by simp
qed

text \<open>C14: Whatever an attempt with a received tree returns: a known operation ID must repeat its recorded input, returns its recorded
  outcome and changes nothing; a new one is recorded with its input and outcome, is accepted exactly when it expects the head, whose
  successor then has the received tree, and is told the head otherwise; and the history stays well-formed.\<close>

theorem advance_to_tree_exact:
  assumes "env_ok E" "repo_ok E d w" "tree_fits E d w root" "advance_to_tree E operation expected root d = Inr (outcome, d')"
  shows "\<exists>w'. repo_ok E d' w' \<and> later d d' \<and>
    (if operation \<in> ar_id ` set (db_attempts d)
     then d' = d \<and> (\<exists>ok n. received_row operation expected root ok n \<in> set (db_attempts d)
       \<and> outcome = (if ok then Advanced (version_of d n) else AdvanceStale (num n)))
     else if expected = num (head_number w)
     then (\<exists>g ch. w' = w @ [(g, ch)] \<and> leads (fst (w ! head_number w)) ch g)
       \<and> outcome = Advanced (version_of d' (length w)) \<and> vr_tree (db_versions d' ! length w) = root
       \<and> db_attempts d' = db_attempts d @ [received_row operation expected root True (length w)]
     else w' = w \<and> db_versions d' = db_versions d \<and> expected < num (head_number w) \<and> outcome = AdvanceStale (num (head_number w))
       \<and> db_attempts d' = db_attempts d @ [received_row operation expected root False (head_number w)])"
proof -
  obtain w' where w': "attempted E True d w operation expected root outcome d' w'" "repo_ok E d' w'" "later d d'"
    using advance_to_tree_spec [OF assms] by blast
  show ?thesis
  proof (cases "operation \<in> ar_id ` set (db_attempts d)")
    case True
    then have "\<exists>row \<in> set (db_attempts d). ar_id row = operation" by auto
    then obtain row where row: "d' = d" "row \<in> set (db_attempts d)" "ar_id row = operation" "ar_expected row = version_sql expected"
        "ar_tree row = Some root" "outcome = outcome_of d row" using w'(1) unfolding attempted_def by auto
    have "attempt_ok E d row" using assms(2) row(2) by (simp add: repo_ok_def)
    then obtain r where r: "ar_result row = int r" "ar_accepted row = 1 \<or> ar_accepted row = 0" unfolding attempt_ok_def by blast
    then have "row = received_row operation expected root (ar_accepted row = 1) r"
      using row(3-5) by (cases row) (auto simp: received_row_def)
    moreover have "outcome = (if ar_accepted row = 1 then Advanced (version_of d r) else AdvanceStale (num r))"
      using row(6) r(1) by (simp add: outcome_of_def)
    ultimately have "received_row operation expected root (ar_accepted row = 1) r \<in> set (db_attempts d)
        \<and> outcome = (if ar_accepted row = 1 then Advanced (version_of d r) else AdvanceStale (num r))" using row(2) by simp
    then show ?thesis using w'(2,3) True row(1) by (simp only: if_True) blast
  next
    case False
    then have "\<not> (\<exists>row \<in> set (db_attempts d). ar_id row = operation)" by auto
    then have r: "recorded E True d w operation expected root outcome d' w'" using w'(1) unfolding attempted_def by simp
    have "leads (fst (w ! head_number w)) ch g" if "w' = w @ [(g, ch)]" for g ch
    proof -
      have n: "length w > 0" using repo_versions(1) [OF assms(2)] by simp
      have "linked E d' w' (length w)" using repo_versions(6) [OF w'(2)] that by simp
      then show ?thesis using n that by (simp add: linked_def Let_def nth_append head_number_def)
    qed
    moreover have "db_versions d' = db_versions d" if "w' = w"
    proof -
      obtain more where "db_versions d' = db_versions d @ more" using w'(3) by (auto simp: later_def)
      then show ?thesis using repo_versions(3) [OF w'(2)] repo_versions(3) [OF assms(2)] that by simp
    qed
    ultimately show ?thesis using w'(2,3) False r recorded_row [OF assms(2) r] unfolding recorded_def
      by (intro exI [of _ w']) (auto split: if_splits)
  qed
qed

theorem advance_to_tree_exact_witness:
  "\<exists>d' w'. repo_ok example_env d' w' \<and> later new_db d' \<and> length w' = 2
     \<and> advance_to_tree example_env ''op'' 0 root_0 new_db = Inr (Advanced (version_of d' 1), d')"
proof -
  obtain d' where d': "advance_to_tree example_env ''op'' 0 root_0 new_db = Inr (Advanced (version_of d' 1), d')"
    using example_advance by blast
  from advance_to_tree_exact [OF example_env_ok new_db_ok(2) root_0_fits this] show ?thesis
    using d' new_db_ok(3) by (auto simp: head_number_def)
qed

text \<open>C15: Retrying an attempt returns its recorded outcome, in every later state, and writes nothing; the same operation ID
  with another expected version or another tree is refused.\<close>

theorem advance_retry_same:
  assumes "env_ok E" "repo_ok E d w" "tree_fits E d w root" "advance_to_tree E operation expected root d = Inr (outcome, d')"
    "repo_run E d' d''"
  shows "advance_to_tree E operation expected root d'' = Inr (outcome, d'')
    \<and> ((expected', root') \<noteq> (expected, root) \<longrightarrow>
        advance_to_tree E operation expected' root' d'' = Inl (OperationIdReused operation))"
proof -
  obtain w' where w': "attempted E True d w operation expected root outcome d' w'" "repo_ok E d' w'" "later d d'"
    using advance_to_tree_spec [OF assms(1-4)] by blast
  obtain row where row: "row \<in> set (db_attempts d')" "ar_id row = operation" "ar_expected row = version_sql expected"
      "ar_tree row = Some root" "outcome = outcome_of d' row"
    using attempted_row [OF w'(1)] by blast
  obtain w'' where w'': "repo_ok E d'' w''" "later d' d''" using run_spec [OF assms(1,5) w'(2)] by blast
  have in'': "row \<in> set (db_attempts d'')" using row(1) w''(2) by (auto simp: later_def)
  have "\<not> operation_exists_in operation d"
    using assms(4) head_in_spec [OF assms(2)] by (auto simp: advance_to_tree_def advance_in_def tx_bind_def tx_read_def ebind_Inr_iff)
  then have free: "\<not> operation_exists_in (ar_id row) d''" using w'(3) w''(2) row(2) by (simp add: later_def operation_exists_in_def)
  have outcome: "outcome_of d'' row = outcome" using outcome_later [OF w'(2) w''(2) row(1)] row(5) by simp
  have "validate_format d'' = Inr ()" using w''(1) by (simp add: repo_ok_def)
  then have run: "advance_to_tree E operation e r d'' =
      (if ar_expected row = version_sql e \<and> ar_tree row = Some r then Inr (outcome, d'') else Inl (OperationIdReused operation))" for e r
    using advance_retry [OF w''(1) in'' free, of e r True] outcome row(2) by (simp add: advance_to_tree_def tx_bind_def tx_read_def)
  moreover obtain i where "version_sql expected = int i" using attempt_numbers [OF w'(2) row(1)] row(3) by metis
  moreover from this have "version_sql expected' = version_sql expected \<Longrightarrow> expected' = expected" using version_sql_num by metis
  ultimately show ?thesis using row(3,4) by auto
qed

theorem advance_retry_same_witness:
  "\<exists>outcome d'. advance_to_tree example_env ''op'' 0 root_0 d' = Inr (outcome, d')
     \<and> advance_to_tree example_env ''op'' 1 root_0 d' = Inl (OperationIdReused ''op'')"
proof -
  obtain d' where d': "advance_to_tree example_env ''op'' 0 root_0 new_db = Inr (Advanced (version_of d' 1), d')"
    using example_advance by blast
  note same = advance_retry_same [OF example_env_ok new_db_ok(2) root_0_fits d' repo_run.start]
  show ?thesis using same [of 1 root_0] by auto
qed

text \<open>No update is lost: of the attempts that expect one version, at most one is accepted.\<close>

theorem one_successor:
  assumes "repo_ok E d w" "r1 \<in> set (db_attempts d)" "r2 \<in> set (db_attempts d)"
    "ar_accepted r1 = 1" "ar_accepted r2 = 1" "ar_expected r1 = ar_expected r2"
  shows "r1 = r2"
proof -
  have "vr_operation (db_versions d ! nat (ar_expected r + 1)) = Some (ar_id r)"
    if r: "r \<in> set (db_attempts d)" "ar_accepted r = 1" for r
  proof -
    have "attempt_ok E d r" using assms(1) r(1) by (simp add: repo_ok_def)
    then obtain e where "ar_expected r = int e" "vr_operation (db_versions d ! Suc e) = Some (ar_id r)"
      using r(2) unfolding attempt_ok_def by (metis zero_neq_one)
    moreover have "nat (int e + 1) = Suc e" for e by simp
    ultimately show ?thesis by simp
  qed
  then have "ar_id r1 = ar_id r2" using assms(2-6) by (metis option.inject)
  moreover have "distinct (map ar_id (db_attempts d))" using assms(1) by (simp add: repo_ok_def)
  ultimately show ?thesis using assms(2,3) by (metis find_row_key option.inject)
qed

theorem one_successor_witness:
  "\<exists>d' w' r. repo_ok example_env d' w' \<and> r \<in> set (db_attempts d') \<and> ar_accepted r = 1
     \<and> (\<forall>r'. r' \<in> set (db_attempts d') \<longrightarrow> ar_accepted r' = 1 \<longrightarrow> ar_expected r' = ar_expected r \<longrightarrow> r' = r)"
proof -
  obtain d' where d': "advance_to_tree example_env ''op'' 0 root_0 new_db = Inr (Advanced (version_of d' 1), d')"
    using example_advance by blast
  obtain w' where w': "attempted example_env True new_db [(Map.empty, [])] ''op'' 0 root_0 (Advanced (version_of d' 1)) d' w'" "repo_ok example_env d' w'"
    using advance_to_tree_spec [OF example_env_ok new_db_ok(2) root_0_fits d'] by blast
  from attempted_row [OF w'(1)] obtain r where "r \<in> set (db_attempts d')" "Advanced (version_of d' 1) = outcome_of d' r" by blast
  then have "r \<in> set (db_attempts d')" "ar_accepted r = 1" by (auto simp: outcome_of_def split: if_splits)
  then show ?thesis using one_successor [OF w'(2)] w'(2) by blast
qed

text \<open>Every version of a well-formed history reads back: its row, its changeset, and the manifest of its map.\<close>

theorem history_reads:
  assumes "repo_ok E d w" "i < length w"
  shows "repo_version (num i) d = Inr (version_of d i) \<and> changeset (num i) d = Inr (snd (w ! i))
    \<and> (\<exists>m. manifest_at E (num i) d = Inr m \<and> omap_ok m \<and> map_of m = fst (w ! i))"
  using reads_spec [OF assms] by blast

theorem history_reads_witness: "changeset 0 new_db = Inr []"
  using history_reads [OF new_db_ok(2), of 0] by simp

text \<open>An attempt on the head never fails: with a fresh operation ID and a stored, valid tree it becomes the next version,
  up to the last version number that storage holds.\<close>

theorem head_attempt_accepted:
  assumes "repo_ok E d w" "attempt_row_in operation d = None" "\<not> operation_exists_in operation d" "length w < 2 ^ 63" "stands E d root g"
  shows "\<exists>d'. advance_in E operation (num (head_number w)) root False d = Inr (Advanced (version_of d' (length w)), d')"
  by (rule advance_progress [OF assms])

theorem head_attempt_accepted_witness:
  "\<exists>d'. advance_in example_env ''op'' 0 root_0 False new_db = Inr (Advanced (version_of d' 1), d')"
  using head_attempt_accepted [OF new_db_ok(2) _ new_db_ok(4) _ root_0_stands, of "''op''"] new_db_ok(3)
  by (simp add: attempt_row_in_def find_row_None head_number_def)

end
