(* ===== verification/Checking.thy ===== *)
theory Checking
  imports Repository
begin

text \<open>
  The full check of a history (\<open>history_in\<close> of \<open>src/repository.rs\<close>): it re-derives every root from its parent and the
  stored changeset, with every chunk of the derivation stored, so it accepts a history whose versions were received as trees
  or published. A history advanced from whole manifests can fail it. The IDs of the versions are a hash chain.
\<close>

section \<open>Point reads over the table\<close>

interpretation tabled: world_reads
  "\<lambda>(E, d, root, f). sql_index E d root" "\<lambda>(_, _, _, f). f" "\<lambda>(E, d, root, f). stands E d root f"
proof (unfold_locales, goal_cases)
  case (1 w p)
  then obtain E d root f where w: "w = (E, d, root, f)" "stands E d root f" by (cases w) auto
  then show ?case using trees.entry_at [of "(en_sha E, tree_view d, root, validate_entry E d, f)" p]
    by (simp add: stands_def sql_index_def sql_read_def)
next
  case (2 w p)
  then obtain E d root f where w: "w = (E, d, root, f)" "stands E d root f" by (cases w) auto
  then show ?case using trees.is_dir [of "(en_sha E, tree_view d, root, validate_entry E d, f)" p]
    by (simp add: stands_def sql_index_def sql_read_def)
next
  case (3 w p)
  then obtain E d root f where w: "w = (E, d, root, f)" "stands E d root f" by (cases w) auto
  then show ?case using trees.files_under [of "(en_sha E, tree_view d, root, validate_entry E d, f)" p]
    by (auto simp: stands_def sql_index_def sql_read_def)
next
  case (4 w)
  then obtain E d root f where w: "w = (E, d, root, f)" "stands E d root f" by (cases w) auto
  then show ?case using trees.disjoint [of "(en_sha E, tree_view d, root, validate_entry E d, f)"]
    by (simp add: stands_def)
qed

text \<open>A changeset without no-ops normalizes to itself.\<close>

lemma normalize_leads:
  assumes "stands E d root f" "leads f ch g" "stands E d root' g"
  shows "normalize (sql_index E d root) ch = Inr ch"
proof -
  let ?w = "(E, d, root, f)"
  have ok: "omap_ok ch" "g = upd f ch" using assms(2) by (simp_all add: leads_def changes_valid_def)
  have changed: "tabled.changed ?w ch = ch" using assms(2) unfolding tabled.changed_def by (auto simp: leads_def filter_id_conv)
  have e: "validate_entry E d e = Inr ()" if "(p, Some e) \<in> set ch" for p e
  proof -
    have "map_of ch p = Some (Some e)" using that omap_map_of_iff [OF ok(1)] by blast
    then have "g p = Some e" by (simp add: ok(2) upd_def)
    then show ?thesis using assms(3) by (simp add: stands_def)
  qed
  have "\<not> ambiguous f ch" using assms(2) by (auto simp: ambiguous_def leads_def)
  moreover have "disjoint_paths (upd f ch)" using tabled.disjoint [of "(E, d, root', g)"] assms(3) ok(2) by simp
  ultimately show ?thesis
    using tabled.normalize_iff [of ?w ch ch] assms(1) ok(1) changed e by (simp add: sql_index_def Let_def)
qed

section \<open>Accepting a history\<close>

lemma version_of_simps [simp]:
  "wv_number (version_of d i) = num i" "wv_id (version_of d i) = vr_id (db_versions d ! i)"
  "wv_tree (version_of d i) = vr_tree (db_versions d ! i)" "wv_operation (version_of d i) = vr_operation (db_versions d ! i)"
  by (simp_all add: version_of_def Let_def)

definition checked :: "env \<Rightarrow> db \<Rightarrow> world_log \<Rightarrow> bool" where
  "checked E d w \<longleftrightarrow> (\<forall>i < length w. 0 < i \<longrightarrow>
     rederives E d (vr_tree (db_versions d ! (i - 1))) (snd (w ! i)) (vr_tree (db_versions d ! i)))"

lemma apply_nothing: "tree_apply fuel sha root [] s = (Inr root, s)"
  by (simp add: tree_apply_def apply_dir.simps group_changes_def apply_groups.simps tbind_def tret_def tree_root_def)

lemma derived_root_spec:
  assumes "repo_ok E d w" "checked E d w" "i < length w" "0 < i \<Longrightarrow> parent = Some (version_of d (i - 1))" "i = 0 \<Longrightarrow> parent = None"
  shows "derived_root E d parent (snd (w ! i)) = Inr (vr_tree (db_versions d ! i))"
proof -
  note v = repo_versions [OF assms(1)]
  have ok: "objects_ok E d" using assms(1) by (simp add: repo_ok_def)
  show ?thesis
  proof (cases "i = 0")
    case True
    have "linked E d w 0" "stands E d (vr_tree (db_versions d ! 0)) (fst (w ! 0))" using v(6,7) assms(3) True by auto
    then have "snd (w ! 0) = []" "snapshot (en_sha E) (tree_view d) (vr_tree (db_versions d ! 0)) Map.empty"
      by (simp_all add: linked_def Let_def stands_def)
    moreover have "snapshot (en_sha E) (tree_view d) (empty_tree (en_sha E)) Map.empty" by (simp add: snapshot_def)
    ultimately have "snd (w ! 0) = []" "vr_tree (db_versions d ! 0) = empty_tree (en_sha E)" using snapshot_fun by blast+
    then show ?thesis using True assms(5) by (simp add: derived_root_def sql_verify_def apply_nothing)
  next
    case False
    have i: "i - 1 < length w" using assms(3) by simp
    have l: "leads (fst (w ! (i - 1))) (snd (w ! i)) (fst (w ! i))" using v(6) [OF assms(3)] False by (simp add: linked_def Let_def)
    have tree: "wv_tree (version_of d (i - 1)) = vr_tree (db_versions d ! (i - 1))" by (simp add: version_of_def Let_def)
    have n: "normalize (sql_index E d (vr_tree (db_versions d ! (i - 1)))) (snd (w ! i)) = Inr (snd (w ! i))"
      by (rule normalize_leads [OF v(7) [OF i] l v(7) [OF assms(3)]])
    obtain s0 s where s: "tree_apply (en_fuel E) (en_sha E) (vr_tree (db_versions d ! (i - 1))) (snd (w ! i)) s0
        = (Inr (vr_tree (db_versions d ! i)), s)" "\<not> ms_collided s" "extends s (tree_view d)"
      using assms(2,3) False unfolding checked_def rederives_def by blast
    have "sql_verify E (tree_apply (en_fuel E) (en_sha E) (vr_tree (db_versions d ! (i - 1))) (snd (w ! i))) d
        = Inr (vr_tree (db_versions d ! i))"
      by (rule sql_verify_Inr [OF ok steady_tree_apply s])
    then show ?thesis using n False assms(4) by (simp add: derived_root_def tree)
  qed
qed

lemma check_binding_spec:
  assumes "repo_ok E d w" "i < length w"
  shows "check_binding d i (version_of d i) (vr_tree (db_versions d ! i)) = Inr ()"
proof (cases i)
  case 0
  then show ?thesis using repo_versions(6) [OF assms] by (simp add: check_binding_def version_of_def linked_def Let_def)
next
  case (Suc j)
  obtain operation row where row: "vr_operation (db_versions d ! i) = Some operation" "accepted_by d i operation row"
    using repo_versions(6) [OF assms] Suc by (auto simp: linked_def Let_def)
  have "attempt_row_in operation d = Some row" using row(2) by (simp add: attempt_row_iff [OF assms(1)] accepted_by_def)
  then have "attempt_in operation d = Inr (Some (attempt_of row))" by (simp add: attempt_in_spec [OF assms(1)])
  moreover have "nat (1 + int j) = Suc j" by simp
  ultimately show ?thesis using row Suc
    by (auto simp: check_binding_def version_of_def Let_def ok_or_def attempt_of_def accepted_by_def num_pred)
qed

lemma check_version_spec:
  assumes "repo_ok E d w" "checked E d w" "i < length w" "0 < i \<Longrightarrow> parent = Some (version_of d (i - 1))" "i = 0 \<Longrightarrow> parent = None"
  shows "check_version E d i parent (db_versions d ! i) = Inr (version_of d i)"
proof -
  note v = repo_versions [OF assms(1)]
  have "vr_id (db_versions d ! i) = version_id (en_sha E) (en_changes E) (map_option wv_id parent) (vr_tree (db_versions d ! i)) (snd (w ! i))"
    using v(6) [OF assms(3)] assms(4,5) by (cases "i = 0") (simp_all add: linked_def Let_def)
  then show ?thesis
    using decode_version_spec [OF assms(1,3)] changeset_in_spec [OF assms(1,3)] derived_root_spec [OF assms] check_binding_spec [OF assms(1,3)]
      v(5) [OF assms(3)] by (simp add: check_version_def)
qed

lemma check_versions_spec:
  assumes "repo_ok E d w" "checked E d w" "k \<le> length w" "0 < k \<Longrightarrow> parent = Some (version_of d (k - 1))" "k = 0 \<Longrightarrow> parent = None"
  shows "check_versions E d k parent (drop k (db_versions d)) = Inr (map (version_of d) [k..<length w])"
  using assms(3-5)
proof (induction "length w - k" arbitrary: k parent)
  case 0
  then show ?case using repo_versions(3) [OF assms(1)] by simp
next
  case (Suc n)
  then have k: "k < length w" by simp
  then have d: "drop k (db_versions d) = db_versions d ! k # drop (Suc k) (db_versions d)"
    using repo_versions(3) [OF assms(1)] by (simp add: Cons_nth_drop_Suc)
  have "check_versions E d (Suc k) (Some (version_of d k)) (drop (Suc k) (db_versions d)) = Inr (map (version_of d) [Suc k..<length w])"
    by (rule Suc.hyps(1)) (use Suc.hyps(2) k in simp_all)
  then show ?case
    using check_version_spec [OF assms(1,2) k Suc.prems(2,3)] k unfolding d by (simp add: upt_conv_Cons)
qed

lemma check_attempts_spec:
  assumes "repo_ok E d w" "\<forall>operation \<in> set operations. operation \<in> ar_id ` set (db_attempts d)"
  shows "check_attempts E d operations = Inr ()"
  using assms(2)
proof (induction operations)
  case (Cons operation operations)
  then obtain row where row: "row \<in> set (db_attempts d)" "ar_id row = operation" by auto
  have "attempt_row_in operation d = Some row" using row by (simp add: attempt_row_iff [OF assms(1)])
  then have a: "attempt_in operation d = Inr (Some (attempt_of row))" by (simp add: attempt_in_spec [OF assms(1)])
  have ok: "attempt_ok E d row" using assms(1) row(1) by (simp add: repo_ok_def)
  have t: "(case at_tree (attempt_of row) of
              Some tree \<Rightarrow>
                if at_accepted (attempt_of row) then Inr ()
                else ebind (sql_read E (\<lambda>s. tree_entries (en_sha E) s tree) d) (\<lambda>m. validate_entries E d (map snd m))
            | None \<Rightarrow>
                if operation_exists_in operation d then Inr ()
                else Inl (CorruptRepository ''World attempt has no candidate'')) = Inr ()"
  proof (cases "ar_tree row")
    case None
    then show ?thesis using ok row(2) by (simp add: attempt_of_def attempt_ok_def)
  next
    case (Some tree)
    show ?thesis
    proof (cases "ar_accepted row = 1")
      case False
      then obtain f where f: "stands E d tree f" using ok Some unfolding attempt_ok_def by blast
      then obtain m where m: "tree_entries (en_sha E) (tree_view d) tree = Inr m" "omap_ok m" "map_of m = f"
        using entries_spec [of "en_sha E" "tree_view d" tree f] by (auto simp: stands_def)
      have "validate_entry E d e = Inr ()" if "(p, e) \<in> set m" for p e
        using f that m(2,3) omap_map_of_iff [OF m(2), of p e] by (auto simp: stands_def)
      then have "validate_entries E d (map snd m) = Inr ()" by (auto simp: validate_entries_iff)
      then show ?thesis using Some m(1) by (simp add: attempt_of_def sql_read_def)
    qed (simp add: Some attempt_of_def)
  qed
  show ?case using Cons t attempt_outcome_spec [OF assms(1) row(1)] by (simp add: a ok_or_def)
qed simp

lemma history_in_spec:
  assumes "repo_ok E d w" "checked E d w"
  shows "history_in E d = Inr (map (version_of d) [0..<length w])"
proof -
  note v = repo_versions [OF assms(1)]
  have "map vr_number (db_versions d) = map int [0..<length w]" by (rule nth_equalityI) (simp_all add: v(3,4))
  moreover have "sorted (map int [0..<length w])" by (simp add: sorted_iff_nth_mono)
  ultimately have sorted: "sort_key vr_number (db_versions d) = db_versions d" by (intro sort_key_id_if_sorted) simp
  have "db_versions d \<noteq> []" using v(1,3) by auto
  moreover have "\<not> list_ex (\<lambda>r. cr_version r \<notin> set (map vr_number (db_versions d))) (db_changes d)"
    using assms(1) unfolding \<open>map vr_number _ = _\<close>
    by (force simp: list_ex_iff repo_ok_def changes_rows_ok_def)
  moreover have "check_versions E d 0 None (db_versions d) = Inr (map (version_of d) [0..<length w])"
    using check_versions_spec [OF assms, of 0 None] by simp
  moreover have "check_attempts E d (sort (map ar_id (db_attempts d))) = Inr ()"
    by (rule check_attempts_spec [OF assms(1)]) auto
  ultimately show ?thesis by (simp add: history_in_def sorted Let_def)
qed

section \<open>Keeping derivations stored\<close>

lemma checked_later:
  assumes "checked E d w" "later d d'" "length (db_versions d) = length w"
  shows "checked E d' w"
proof -
  have k: "keeps_objects d d'" using assms(2) by (simp add: later_def)
  have "db_versions d' ! i = db_versions d ! i" if "i < length w" for i
    using assms(2,3) that by (auto simp: later_def nth_append)
  then show ?thesis using assms(1) rederives_keeps [OF _ k] unfolding checked_def by simp
qed

lemma advance_checked:
  assumes "env_ok E" "repo_ok E d w" "checked E d w" "tree_fits E d w root" "advance_to_tree E operation expected root d = Inr (outcome, d')"
  shows "\<exists>w'. repo_ok E d' w' \<and> checked E d' w' \<and> later d d' \<and> (\<exists>more. w' = w @ more)"
proof -
  obtain w' where w': "attempted E True d w operation expected root outcome d' w'" "repo_ok E d' w'" "later d d'"
    using advance_to_tree_spec [OF assms(1,2,4,5)] by blast
  note v = repo_versions [OF assms(2)]
  have old: "checked E d' w" by (rule checked_later [OF assms(3) w'(3) v(3)])
  have "w' = w \<or> (\<exists>g ch. w' = w @ [(g, ch)] \<and> vr_tree (db_versions d' ! length w) = root
      \<and> rederives E d' (vr_tree (db_versions d ! head_number w)) ch root)"
    using w'(1) unfolding attempted_def recorded_def by (simp split: if_splits) blast
  then show ?thesis
  proof
    assume "w' = w"
    then show ?thesis using w' old by auto
  next
    assume "\<exists>g ch. w' = w @ [(g, ch)] \<and> vr_tree (db_versions d' ! length w) = root
      \<and> rederives E d' (vr_tree (db_versions d ! head_number w)) ch root"
    then obtain g ch where n: "w' = w @ [(g, ch)]" "vr_tree (db_versions d' ! length w) = root"
      "rederives E d' (vr_tree (db_versions d ! head_number w)) ch root" by blast
    have "db_versions d' ! head_number w = db_versions d ! head_number w"
      using w'(3) v(1,3) by (auto simp: later_def nth_append head_number_def)
    then have "checked E d' w'"
      using old n(2,3) unfolding checked_def n(1) by (auto simp: nth_append less_Suc_eq head_number_def)
    then show ?thesis using w' n(1) by blast
  qed
qed

section \<open>Version identity\<close>

text \<open>The ID of a version is the hash chain over the roots and changesets up to it.\<close>

definition chain_of :: "db \<Rightarrow> world_log \<Rightarrow> nat \<Rightarrow> (object_id \<times> changes) list" where
  "chain_of d w i = rev (map (\<lambda>j. (vr_tree (db_versions d ! j), snd (w ! j))) [1..<Suc i])"

lemma chain_of_simps: "chain_of d w 0 = []"
  "chain_of d w (Suc i) = (vr_tree (db_versions d ! Suc i), snd (w ! Suc i)) # chain_of d w i"
  by (simp_all add: chain_of_def)

lemma genesis_tree:
  assumes "repo_ok E d w"
  shows "vr_tree (db_versions d ! 0) = empty_tree (en_sha E)"
proof -
  have "0 < length w" using repo_versions(1) [OF assms] by simp
  then have "linked E d w 0" "stands E d (vr_tree (db_versions d ! 0)) (fst (w ! 0))" using repo_versions(6,7) [OF assms] by auto
  then have "snapshot (en_sha E) (tree_view d) (vr_tree (db_versions d ! 0)) Map.empty" by (simp add: linked_def Let_def stands_def)
  moreover have "snapshot (en_sha E) (tree_view d) (empty_tree (en_sha E)) Map.empty" by (simp add: snapshot_def)
  ultimately show ?thesis by (rule snapshot_fun)
qed

lemma version_chain:
  assumes "repo_ok E d w" "i < length w"
  shows "vr_id (db_versions d ! i) = chain_id (en_sha E) (en_changes E) (chain_of d w i)"
  using assms(2)
proof (induction i)
  case 0
  then have "linked E d w 0" using repo_versions(6) [OF assms(1)] by blast
  then show ?case using genesis_tree [OF assms(1)]
    by (simp add: linked_def Let_def chain_of_simps genesis_version_id_def empty_tree_def)
next
  case (Suc i)
  then have "linked E d w (Suc i)" using repo_versions(6) [OF assms(1)] by blast
  then show ?case using Suc by (simp add: linked_def Let_def chain_of_simps)
qed

lemma chain_of_nth: "chain_of d w i = chain_of d' w' i \<Longrightarrow> 0 < j \<Longrightarrow> j \<le> i \<Longrightarrow>
    vr_tree (db_versions d ! j) = vr_tree (db_versions d' ! j) \<and> snd (w ! j) = snd (w' ! j)"
  by (induction i) (auto simp: chain_of_simps le_Suc_eq)

lemma snapshot_oid:
  assumes "hash_ok sha" "snapshot sha s root f"
  shows "oid_ok root"
  using assms(2) unfolding snapshot_def
proof
  assume "holds sha s (Some root) f"
  then obtain "is" where "dir_at sha s is (Some root)" using holds_state by blast
  then show ?thesis by (rule dir_at_id [OF assms(1)])
qed (use assms(1) in \<open>simp add: empty_tree_def object_hash_def hash_ok_def oid_ok_def\<close>)

lemma chain_of_oid:
  assumes "hash_ok (en_sha E)" "repo_ok E d w" "n < length w" "c \<in> set (chain_of d w n)"
  shows "oid_ok (fst c)"
proof -
  obtain j where "j \<in> set [1..<Suc n]" "c = (vr_tree (db_versions d ! j), snd (w ! j))"
    using assms(4) unfolding chain_of_def set_rev set_map by blast
  then have j: "0 < j" "j \<le> n" "fst c = vr_tree (db_versions d ! j)" by auto
  then have "stands E d (fst c) (fst (w ! j))" using repo_versions(7) [OF assms(2), of j] assms(3) by simp
  then show ?thesis using snapshot_oid [OF assms(1)] by (auto simp: stands_def)
qed

end
