(* ===== verification/LayerValues.thy ===== *)
theory LayerValues
  imports Checking
begin

text \<open>
  The values that Layers, Stacks and publications store and return (\<open>src/layer.rs\<close>, \<open>stack.rs\<close>, \<open>publish.rs\<close>) and
  provenance (\<open>src/blame.rs\<close>). Layer and operation IDs are their text, a checkpoint ID is the ID of its object. The
  record \<open>codecs\<close> adds the JSON encodings of these values to the environment of the repository.
\<close>

section \<open>Layers\<close>

record layer_base =
  lb_repository :: object_id
  lb_version :: "64 word"
  lb_world :: object_id

record layer_head =
  lh_repository :: object_id
  lh_layer :: string
  lh_revision :: "64 word"
  lh_checkpoint :: object_id

datatype layer_state =
    Active layer_head
  | Published layer_head string world_version
  | Discarded string "64 word" object_id

datatype layer_update = UpdateApplied layer_state | UpdateStale layer_state

record layer_checkpoint =
  lc_id :: object_id
  lc_base :: layer_base
  lc_changes :: changes
  lc_sources :: "object_id list"
  lc_provenance :: "object_id option"

record candidate =
  ca_id :: object_id
  ca_changes :: changes
  ca_provenance :: "object_id option"

record path_diff =
  pd_path :: string
  pd_before :: "file_entry option"
  pd_after :: "file_entry option"

record encoded_checkpoint =
  ec_repository :: object_id
  ec_version :: "64 word"
  ec_world :: object_id
  ec_changes :: "(string \<times> file_entry option) list"
  ec_sources :: "object_id list"
  ec_provenance :: "object_id option"

section \<open>Stacks and publications\<close>

record stack_binding =
  sb_operation :: string
  sb_expected :: layer_head
  sb_source :: object_id
  sb_candidate :: object_id
  sb_outcome :: layer_update
  sb_resolution :: "object_id option"

datatype publish_attribution = ByHuman | ByAgent "object_id option" bool

datatype publish_warning = MissingTraceWarning

datatype publication_outcome =
    PublishedAs world_version
  | PublishConflict "string list"
  | PublishStale layer_state

record publication_receipt =
  rc_operation :: string
  rc_expected :: layer_head
  rc_attribution :: publish_attribution
  rc_against :: world_version
  rc_warnings :: "publish_warning list"
  rc_outcome :: publication_outcome

section \<open>Provenance\<close>

datatype actor = HumanActor | AgentActor

record provenance =
  pv_actor :: actor
  pv_agent :: "string option"
  pv_session :: "string option"
  pv_reference :: "string option"

definition MAX_FIELD :: nat where "MAX_FIELD = 256"

text \<open>\<open>char::is_control\<close> on UTF-8 text: U+0000 to U+001F and U+007F to U+009F.\<close>

fun has_control :: "string \<Rightarrow> bool" where
  "has_control [] \<longleftrightarrow> False"
| "has_control (c # cs) \<longleftrightarrow>
     u8_in c 0 31 \<or> c = CHR 0x7F
     \<or> (c = CHR 0xC2 \<and> (case cs of [] \<Rightarrow> False | c' # _ \<Rightarrow> u8_in c' 128 159)) \<or> has_control cs"

definition field_ok :: "string option \<Rightarrow> bool" where
  "field_ok field = (case field of None \<Rightarrow> True | Some value' \<Rightarrow>
     \<not> (value' = [] \<or> length value' > MAX_FIELD \<or> has_control value'))"

definition check_field :: "string \<Rightarrow> string option \<Rightarrow> error + unit" where
  "check_field name field = guard (field_ok field)
     (InvalidInput (''provenance '' @ name @ '' must be 1..'' @ dec_str MAX_FIELD @ '' bytes without control characters''))"

definition provenance_new :: "actor \<Rightarrow> string option \<Rightarrow> string option \<Rightarrow> string option \<Rightarrow> error + provenance" where
  "provenance_new actor agent session reference =
     ebind (check_field ''agent'' agent) (\<lambda>_.
     ebind (check_field ''session'' session) (\<lambda>_.
     ebind (check_field ''reference'' reference) (\<lambda>_.
     if actor = HumanActor \<and> agent \<noteq> None then Inl (InvalidInput ''a human actor has no agent name'')
     else Inr \<lparr>pv_actor = actor, pv_agent = agent, pv_session = session, pv_reference = reference\<rparr>)))"

section \<open>The environment\<close>

text \<open>
  \<open>serde_json\<close>'s encoders and decoders of the stored values, as parameters. A decoder returns the fields as the text has
  them; what they must satisfy beyond that is checked by the code.
\<close>

record codecs =
  co_env :: env
  co_provenance :: "provenance \<Rightarrow> bytes"
  co_unprovenance :: "bytes \<Rightarrow> string + provenance"
  co_checkpoint :: "encoded_checkpoint \<Rightarrow> bytes"
  co_uncheckpoint :: "bytes \<Rightarrow> string + encoded_checkpoint"
  co_binding :: "stack_binding \<Rightarrow> bytes"
  co_unbinding :: "bytes \<Rightarrow> string + object_id option"
  co_receipt :: "publication_receipt \<Rightarrow> bytes"

definition provenance_decode :: "codecs \<Rightarrow> object_id \<Rightarrow> bytes \<Rightarrow> error + provenance" where
  "provenance_decode L i bytes =
     ebind (emap_err (\<lambda>_. CorruptObject i) (co_unprovenance L bytes)) (\<lambda>raw.
     ebind (emap_err (\<lambda>_. CorruptObject i) (provenance_new (pv_actor raw) (pv_agent raw) (pv_session raw) (pv_reference raw))) (\<lambda>p.
     if co_provenance L p \<noteq> bytes then Inl (CorruptObject i) else Inr p))"

definition store_provenance :: "codecs \<Rightarrow> provenance \<Rightarrow> object_id tx" where
  "store_provenance L p = insert_object (co_env L) Blob (co_provenance L p)"

definition read_provenance :: "codecs \<Rightarrow> db \<Rightarrow> object_id \<Rightarrow> error + provenance" where
  "read_provenance L d i = ebind (read_object (co_env L) d i Blob) (provenance_decode L i)"

end
