(* ===== verification/Tracking.thy ===== *)
theory Tracking
  imports LayerValues "HOL-Library.Product_Lexorder"
begin

text \<open>
  The index of the paths that live Layers change, \<open>layer_paths\<close> of \<open>src/radar.rs\<close>, with the checkpoint that last set each
  entry, and the collisions it finds (\<open>collisions\<close> of \<open>src/domain.rs\<close>).
\<close>

section \<open>The index of one Layer\<close>

type_synonym tracked = "(string \<times> file_entry option \<times> object_id \<times> object_id option) list"

definition tracked_row :: "path_row \<Rightarrow> error + string \<times> file_entry option \<times> object_id \<times> object_id option" where
  "tracked_row row =
     ebind (decode_entry (pr_kind row) (pr_content row)) (\<lambda>entry.
     Inr (pr_path row, entry, pr_checkpoint row, pr_provenance row))"

definition tracked_in :: "string \<Rightarrow> db \<Rightarrow> error + tracked" where
  "tracked_in layer d =
     ebind (emap tracked_row (filter (\<lambda>r. pr_layer r = layer) (db_paths d))) (\<lambda>rows. Inr (omap_of rows))"

definition attributed_in :: "string \<Rightarrow> db \<Rightarrow> error + (string \<times> object_id \<times> object_id option) list" where
  "attributed_in layer d =
     ebind (tracked_in layer d) (\<lambda>tracked. Inr (map (\<lambda>(path, _, origin). (path, origin)) tracked))"

text \<open>\<open>INSERT \<dots> ON CONFLICT(path,layer) DO UPDATE\<close>.\<close>

definition path_key :: "path_row \<Rightarrow> string \<times> string" where
  "path_key r = (pr_path r, pr_layer r)"

definition upsert_path :: "path_row \<Rightarrow> path_row list \<Rightarrow> path_row list" where
  "upsert_path row rows =
     (if path_key row \<in> set (map path_key rows) then map (\<lambda>r. if path_key r = path_key row then row else r) rows
      else rows @ [row])"

definition path_row_of :: "string \<Rightarrow> candidate \<Rightarrow> string \<Rightarrow> file_entry option \<Rightarrow> path_row" where
  "path_row_of layer head path entry =
     (case encode_entry entry of (kind, content) \<Rightarrow>
        \<lparr>pr_path = path, pr_layer = layer, pr_kind = kind, pr_content = content,
         pr_checkpoint = ca_id head, pr_provenance = ca_provenance head\<rparr>)"

text \<open>The loop over the new head's changes, which leaves the indexed paths it no longer has.\<close>

fun track_changes :: "string \<Rightarrow> candidate \<Rightarrow> changes \<Rightarrow> tracked \<Rightarrow> path_row list \<Rightarrow> tracked \<times> path_row list" where
  "track_changes layer head [] stale rows = (stale, rows)"
| "track_changes layer head ((path, entry) # rest) stale rows =
     track_changes layer head rest (omap_remove path stale)
       (if (case map_of stale path of None \<Rightarrow> True | Some (before, _) \<Rightarrow> before \<noteq> entry)
        then upsert_path (path_row_of layer head path entry) rows else rows)"

definition track_in :: "string \<Rightarrow> candidate \<Rightarrow> unit tx" where
  "track_in layer head d =
     ebind (tracked_in layer d) (\<lambda>stale.
       case track_changes layer head (ca_changes head) stale (db_paths d) of (gone, rows) \<Rightarrow>
         Inr ((), d\<lparr>db_paths := filter (\<lambda>r. \<not> (pr_layer r = layer \<and> omap_has gone (pr_path r))) rows\<rparr>))"

definition untrack_in :: "string \<Rightarrow> unit tx" where
  "untrack_in layer d = Inr ((), d\<lparr>db_paths := filter (\<lambda>r. pr_layer r \<noteq> layer) (db_paths d)\<rparr>)"

section \<open>Collisions\<close>

record live_path =
  li_layer :: string
  li_path :: string
  li_entry :: "file_entry option"

definition live_row :: "path_row \<Rightarrow> error + live_path" where
  "live_row row =
     ebind (decode_path (pr_path row)) (\<lambda>path.
     ebind (decode_entry (pr_kind row) (pr_content row)) (\<lambda>entry.
     Inr \<lparr>li_layer = pr_layer row, li_path = path, li_entry = entry\<rparr>))"

definition live_in :: "db \<Rightarrow> string \<Rightarrow> bool \<Rightarrow> error + live_path list" where
  "live_in d path strict =
     emap live_row
       (filter (\<lambda>r. if strict then (case descendant_range path of (start, end') \<Rightarrow> start \<le> pr_path r \<and> pr_path r < end')
                    else pr_path r = path) (db_paths d))"

type_synonym live_index = "string \<Rightarrow> bool \<Rightarrow> error + live_path list"
type_synonym pairs = "(string \<times> (string \<times> string) list) list"

text \<open>One changed path's hits: the path, what is below it, then its ancestors.\<close>

definition hits_at :: "live_index \<Rightarrow> string \<Rightarrow> error + live_path list" where
  "hits_at live path =
     ebind (live path False) (\<lambda>here.
     ebind (live path True) (\<lambda>deeper.
     ebind (emap (\<lambda>ancestor. live ancestor False) (ancestors path)) (\<lambda>above.
     Inr (here @ deeper @ concat above))))"

definition found_insert :: "string \<Rightarrow> string \<times> string \<Rightarrow> pairs \<Rightarrow> pairs" where
  "found_insert layer pair found =
     omap_insert layer (insort_insert pair (case map_of found layer of None \<Rightarrow> [] | Some ps \<Rightarrow> ps)) found"

type_synonym base_entries = "(string \<times> file_entry option) list"

definition entry_before :: "world_index \<Rightarrow> base_entries \<Rightarrow> string \<Rightarrow> error + file_entry option \<times> base_entries" where
  "entry_before index at_base path =
     (case map_of at_base path of
       Some entry \<Rightarrow> Inr (entry, at_base)
     | None \<Rightarrow> ebind (wi_entry_at index path) (\<lambda>entry. Inr (entry, omap_insert path entry at_base)))"

fun collide_hits ::
  "world_index \<Rightarrow> string \<Rightarrow> string \<Rightarrow> live_path list \<Rightarrow> base_entries \<Rightarrow> pairs \<Rightarrow> error + base_entries \<times> pairs" where
  "collide_hits index layer path [] at_base found = Inr (at_base, found)"
| "collide_hits index layer path (hit # hits) at_base found =
     (if li_layer hit = layer then collide_hits index layer path hits at_base found
      else
        ebind (entry_before index at_base (li_path hit)) (\<lambda>(before, at_base).
        collide_hits index layer path hits at_base
          (if before \<noteq> li_entry hit then found_insert (li_layer hit) (path, li_path hit) found else found)))"

fun collide_paths ::
  "world_index \<Rightarrow> live_index \<Rightarrow> string \<Rightarrow> string list \<Rightarrow> base_entries \<Rightarrow> pairs \<Rightarrow> error + pairs" where
  "collide_paths index live layer [] at_base found = Inr found"
| "collide_paths index live layer (path # paths) at_base found =
     ebind (hits_at live path) (\<lambda>hits.
     ebind (collide_hits index layer path hits at_base found) (\<lambda>(at_base, found).
     collide_paths index live layer paths at_base found))"

definition collisions :: "world_index \<Rightarrow> live_index \<Rightarrow> string \<Rightarrow> changes \<Rightarrow> error + pairs" where
  "collisions index live layer changes = collide_paths index live layer (map fst changes) [] []"

end
