(* ===== verification/Layers.thy ===== *)
theory Layers
  imports Tracking
begin

text \<open>
  Layers (\<open>src/layer.rs\<close>) and the bindings of Stacks (\<open>src/stack.rs\<close>) inside one transaction: immutable checkpoints, the
  head events of a Layer, the compare-and-swap update of a head with its recorded attempt, and the checks of both.
  The methods of \<open>Repository\<close> over these are in \<open>LayerOps\<close>, after \<open>Publications\<close>: they refuse a published Layer.
\<close>

section \<open>Identity and bases\<close>

definition identity_in :: "db \<Rightarrow> error + object_id" where
  "identity_in d =
     (case db_identity d of
       [(n, i)] \<Rightarrow> if n = 1 then Inr i else Inl (CorruptRepository ''invalid repository identity'')
     | _ \<Rightarrow> Inl (CorruptRepository ''invalid repository identity''))"

definition validate_base :: "layer_base \<Rightarrow> db \<Rightarrow> error + unit" where
  "validate_base base d =
     ebind (identity_in d) (\<lambda>identity.
     if identity \<noteq> lb_repository base then Inl (InvalidInput ''foreign Layer base'')
     else
       ebind (version_in (lb_version base) d) (\<lambda>version.
       if wv_id version \<noteq> lb_world base then Inl (CorruptRepository ''Layer base disagrees with exact World'')
       else Inr ()))"

definition base_in :: "64 word \<Rightarrow> db \<Rightarrow> error + layer_base" where
  "base_in version d =
     ebind (identity_in d) (\<lambda>identity.
     ebind (version_in version d) (\<lambda>world.
     Inr \<lparr>lb_repository = identity, lb_version = version, lb_world = wv_id world\<rparr>))"

section \<open>Checkpoints\<close>

definition checkpoint_bytes :: "codecs \<Rightarrow> layer_base \<Rightarrow> changes \<Rightarrow> object_id list \<Rightarrow> object_id option \<Rightarrow> bytes" where
  "checkpoint_bytes L base changes sources provenance =
     co_checkpoint L \<lparr>ec_repository = lb_repository base, ec_version = lb_version base, ec_world = lb_world base,
       ec_changes = changes, ec_sources = sources, ec_provenance = provenance\<rparr>"

definition prepare_provenance :: "codecs \<Rightarrow> provenance option \<Rightarrow> object_id option tx" where
  "prepare_provenance L provenance =
     (case provenance of
       None \<Rightarrow> tx_ret None
     | Some p \<Rightarrow> tx_bind (store_provenance L p) (\<lambda>i. tx_ret (Some i)))"

definition prepare_checkpoint ::
  "codecs \<Rightarrow> layer_base \<Rightarrow> changes \<Rightarrow> object_id list \<Rightarrow> provenance option \<Rightarrow> candidate tx" where
  "prepare_checkpoint L base changes sources provenance =
     tx_bind (tx_read (validate_base base)) (\<lambda>_.
     tx_bind (tx_read (\<lambda>d. normalize (index_in (co_env L) d (lb_version base)) changes)) (\<lambda>changes.
     tx_bind (prepare_provenance L provenance) (\<lambda>stored.
     tx_bind (insert_object (co_env L) Checkpoint (checkpoint_bytes L base changes sources stored)) (\<lambda>i.
     tx_ret \<lparr>ca_id = i, ca_changes = changes, ca_provenance = stored\<rparr>))))"

fun sources_ascend :: "object_id list \<Rightarrow> bool" where
  "sources_ascend (a # b # rest) \<longleftrightarrow> a < b \<and> sources_ascend (b # rest)"
| "sources_ascend _ \<longleftrightarrow> True"

definition decoded_changes :: "(string \<times> file_entry option) list \<Rightarrow> error + changes" where
  "decoded_changes entries =
     ebind (emap (\<lambda>(p, e). ebind (path_parse p) (\<lambda>path. Inr (path, e))) entries) changes_new"

definition check_provenance :: "codecs \<Rightarrow> db \<Rightarrow> object_id option \<Rightarrow> error + unit" where
  "check_provenance L d provenance =
     (case provenance of
       None \<Rightarrow> Inr ()
     | Some i \<Rightarrow>
         ebind (emap_err (\<lambda>e. CorruptRepository (''invalid checkpoint provenance: '' @ error_display e)) (read_provenance L d i))
           (\<lambda>_. Inr ()))"

definition checkpoint_node :: "codecs \<Rightarrow> db \<Rightarrow> object_id \<Rightarrow> error + layer_checkpoint" where
  "checkpoint_node L d i =
     ebind (read_object (co_env L) d i Checkpoint) (\<lambda>bytes.
     ebind (emap_err (\<lambda>_. CorruptObject i) (co_uncheckpoint L bytes)) (\<lambda>encoded.
     ebind (emap_err (\<lambda>_. CorruptObject i) (version_new (ec_version encoded))) (\<lambda>version.
       let base = \<lparr>lb_repository = ec_repository encoded, lb_version = version, lb_world = ec_world encoded\<rparr> in
     ebind (emap_err (\<lambda>_. CorruptObject i) (decoded_changes (ec_changes encoded))) (\<lambda>changes.
     ebind (emap_err (\<lambda>e. CorruptRepository (''invalid checkpoint base: '' @ error_display e)) (validate_base base d)) (\<lambda>_.
     ebind (emap_err (\<lambda>e. CorruptRepository (''invalid checkpoint graph: '' @ error_display e))
              (normalize (index_in (co_env L) d version) changes)) (\<lambda>normalized.
       if normalized \<noteq> changes \<or> \<not> sources_ascend (ec_sources encoded)
          \<or> checkpoint_bytes L base changes (ec_sources encoded) (ec_provenance encoded) \<noteq> bytes
       then Inl (CorruptObject i)
       else
         ebind (check_provenance L d (ec_provenance encoded)) (\<lambda>_.
         Inr \<lparr>lc_id = i, lc_base = base, lc_changes = changes, lc_sources = ec_sources encoded,
              lc_provenance = ec_provenance encoded\<rparr>)))))))"

text \<open>
  \<open>CheckpointReader\<close>: its cache holds fully verified checkpoints, and a deep reader also reads their Stack sources. The
  stack \<open>pending\<close> holds what to visit and, as \<open>Some node\<close>, what to leave.
\<close>

type_synonym checkpoints = "(object_id \<times> layer_checkpoint) list"
type_synonym pending = "(object_id \<times> layer_checkpoint option) list"

definition unseen :: "db \<Rightarrow> object_id list \<Rightarrow> checkpoints \<Rightarrow> nat" where
  "unseen d visiting seen = card (or_id ` set (db_objects d) - set visiting - fst ` set seen)"

lemma checkpoint_node_stored: "checkpoint_node L d i = Inr node \<Longrightarrow> i \<in> or_id ` set (db_objects d)"
  by (auto simp: checkpoint_node_def read_object_def object_at_def result_simps dest: find_row_Some)

function read_loop ::
  "codecs \<Rightarrow> db \<Rightarrow> bool \<Rightarrow> pending \<Rightarrow> object_id list \<Rightarrow> checkpoints \<Rightarrow> error + checkpoints" where
  "read_loop L d deep [] visiting seen = Inr seen"
| "read_loop L d deep ((i, Some node) # pending) visiting seen =
     read_loop L d deep pending (removeAll i visiting) ((i, node) # seen)"
| "read_loop L d deep ((i, None) # pending) visiting seen =
     (if i \<in> fst ` set seen then read_loop L d deep pending visiting seen
      else if i \<in> set visiting then Inl (CorruptRepository ''cyclic Stack ancestry'')
      else
        case checkpoint_node L d i of
          Inl e \<Rightarrow> Inl e
        | Inr node \<Rightarrow>
            read_loop L d deep
              ((if deep then map (\<lambda>source. (source, None)) (lc_sources node) else []) @ (i, Some node) # pending)
              (i # visiting) seen)"
  by pat_completeness auto
termination
proof (relation "(\<lambda>(L, d, deep, pending, visiting, seen). unseen d visiting seen) <*mlex*>
    measure (\<lambda>(L, d, deep, pending, visiting, seen). length pending)", goal_cases)
  case 1
  then show ?case by (intro wf_mlex) simp
next
  case (2 L d deep i node pending visiting seen)
  have "unseen d (removeAll i visiting) ((i, node) # seen) \<le> unseen d visiting seen"
    unfolding unseen_def by (rule card_mono) auto
  then show ?case unfolding mlex_prod_def by auto
next
  case (3 L d deep i pending visiting seen)
  then show ?case by (simp add: mlex_prod_def)
next
  case (4 L d deep i pending visiting seen node)
  then have "i \<in> or_id ` set (db_objects d) - set visiting - fst ` set seen" using checkpoint_node_stored by blast
  then have "unseen d (i # visiting) seen < unseen d visiting seen"
    unfolding unseen_def by (intro psubset_card_mono) auto
  then show ?case by (simp add: mlex_prod_def)
qed

definition read_checkpoint_with :: "codecs \<Rightarrow> db \<Rightarrow> bool \<Rightarrow> object_id \<Rightarrow> checkpoints \<Rightarrow> error + layer_checkpoint \<times> checkpoints" where
  "read_checkpoint_with L d deep i seen =
     ebind (read_loop L d deep [(i, None)] [] seen) (\<lambda>seen.
     case map_of seen i of
       Some node \<Rightarrow> Inr (node, seen)
     | None \<Rightarrow> Inl (CorruptRepository ''panic: no entry found for key''))"

definition checkpoint_in :: "codecs \<Rightarrow> object_id \<Rightarrow> db \<Rightarrow> error + layer_checkpoint" where
  "checkpoint_in L i d = ebind (read_checkpoint_with L d False i []) (\<lambda>(node, _). Inr node)"

section \<open>Head events\<close>

record layer_event =
  ev_layer :: string
  ev_revision :: int
  ev_checkpoint :: object_id
  ev_discarded :: bool
  ev_operation :: "string option"

definition event_state :: "object_id \<Rightarrow> layer_event \<Rightarrow> layer_state" where
  "event_state repository event =
     (if ev_discarded event then Discarded (ev_layer event) (word_of_int (ev_revision event)) (ev_checkpoint event)
      else Active \<lparr>lh_repository = repository, lh_layer = ev_layer event,
                   lh_revision = word_of_int (ev_revision event), lh_checkpoint = ev_checkpoint event\<rparr>)"

definition event_row :: "string \<Rightarrow> int \<Rightarrow> db \<Rightarrow> head_row option" where
  "event_row layer revision d = find_row (\<lambda>r. hr_layer r = layer \<and> hr_revision r = revision) (db_heads d)"

definition event_in :: "string \<Rightarrow> int \<Rightarrow> db \<Rightarrow> error + layer_event" where
  "event_in layer revision d =
     ebind (ok_or (CorruptRepository ''missing Layer head event'') (event_row layer revision d)) (\<lambda>row.
     if revision < 0 \<or> (hr_discarded row \<noteq> 0 \<and> hr_discarded row \<noteq> 1)
     then Inl (CorruptRepository ''invalid Layer event'')
     else Inr \<lparr>ev_layer = layer, ev_revision = revision, ev_checkpoint = hr_checkpoint row,
               ev_discarded = (hr_discarded row = 1), ev_operation = hr_operation row\<rparr>)"

text \<open>\<open>SELECT max(revision) FROM layer_heads WHERE layer=?1\<close>.\<close>

definition revisions_of :: "string \<Rightarrow> db \<Rightarrow> int list" where
  "revisions_of layer d = map hr_revision (filter (\<lambda>r. hr_layer r = layer) (db_heads d))"

definition max_revision :: "string \<Rightarrow> db \<Rightarrow> int option" where
  "max_revision layer d = (case revisions_of layer d of [] \<Rightarrow> None | r # rs \<Rightarrow> Some (fold max rs r))"

definition latest_in :: "string \<Rightarrow> db \<Rightarrow> error + layer_event" where
  "latest_in layer d =
     ebind (ok_or (InvalidInput ''unknown Layer'') (max_revision layer d)) (\<lambda>revision. event_in layer revision d)"

text \<open>\<open>i64::try_from\<close> of a \<open>u64\<close>.\<close>

definition revision_from :: "error \<Rightarrow> 64 word \<Rightarrow> error + int" where
  "revision_from e revision = (if version_sql revision < 0 then Inl e else Inr (version_sql revision))"

definition verify_head :: "layer_head \<Rightarrow> db \<Rightarrow> error + unit" where
  "verify_head head d =
     ebind (identity_in d) (\<lambda>identity.
     if identity \<noteq> lh_repository head then Inl (InvalidInput ''foreign Layer head'')
     else
       ebind (revision_from (InvalidInput ''Layer revision overflow'') (lh_revision head)) (\<lambda>revision.
       ebind (event_in (lh_layer head) revision d) (\<lambda>event.
       if ev_discarded event \<or> ev_checkpoint event \<noteq> lh_checkpoint head
       then Inl (InvalidInput ''invalid active head token'') else Inr ())))"

definition event_state_in :: "string \<Rightarrow> 64 word \<Rightarrow> db \<Rightarrow> error + layer_state" where
  "event_state_in layer revision d =
     ebind (revision_from (CorruptRepository ''invalid Layer event revision'') revision) (\<lambda>revision.
     ebind (event_in layer revision d) (\<lambda>event.
     ebind (identity_in d) (\<lambda>identity. Inr (event_state identity event))))"

definition layer_head_in :: "string \<Rightarrow> 64 word \<Rightarrow> db \<Rightarrow> error + layer_head" where
  "layer_head_in layer revision d =
     ebind (event_state_in layer revision d) (\<lambda>state.
     case state of Active head \<Rightarrow> Inr head | _ \<Rightarrow> Inl (CorruptRepository ''expected an Active Layer event''))"

definition latest_event_state_in :: "string \<Rightarrow> db \<Rightarrow> error + layer_state" where
  "latest_event_state_in layer d =
     ebind (latest_in layer d) (\<lambda>event. ebind (identity_in d) (\<lambda>identity. Inr (event_state identity event)))"

text \<open>An insertion into \<open>layer_heads\<close>, with the keys and the check of its table.\<close>

definition insert_head :: "head_row \<Rightarrow> unit tx" where
  "insert_head row d =
     (if \<not> (0 \<le> hr_revision row \<and> (hr_discarded row = 0 \<or> hr_discarded row = 1)
            \<and> (hr_revision row = 0 \<and> hr_operation row = None \<and> hr_discarded row = 0
               \<or> hr_revision row > 0 \<and> hr_operation row \<noteq> None))
      then Inl (Storage ''CHECK constraint failed'')
      else if hr_operation row \<noteq> None \<and> hr_operation row \<in> set (map hr_operation (db_heads d))
      then Inl (Storage ''UNIQUE constraint failed'')
      else ebind (insert_unique (\<lambda>r. (hr_layer r, hr_revision r)) row (db_heads d))
             (\<lambda>rows. Inr ((), d\<lparr>db_heads := rows\<rparr>)))"

definition insert_layer_attempt :: "layer_attempt_row \<Rightarrow> unit tx" where
  "insert_layer_attempt row d =
     (if \<not> (la_accepted row = 1 \<and> la_result row = la_expected row + 1
            \<or> la_accepted row = 0 \<and> la_result row > la_expected row)
      then Inl (Storage ''CHECK constraint failed'')
      else ebind (insert_unique la_id row (db_layer_attempts d)) (\<lambda>rows. Inr ((), d\<lparr>db_layer_attempts := rows\<rparr>)))"

text \<open>The first event of a Layer.\<close>

definition layer_exists :: "string \<Rightarrow> db \<Rightarrow> bool" where
  "layer_exists layer d \<longleftrightarrow> list_ex (\<lambda>r. hr_layer r = layer) (db_heads d)"

definition ensure_first :: "string \<Rightarrow> candidate \<Rightarrow> unit tx" where
  "ensure_first layer candidate d =
     (if layer_exists layer d then
        ebind (event_in layer 0 d) (\<lambda>event.
        if ev_checkpoint event \<noteq> ca_id candidate then Inl (InvalidInput ''Layer ID reused with different snapshot'')
        else Inr ((), d))
      else
        tx_bind (insert_head \<lparr>hr_layer = layer, hr_revision = 0, hr_checkpoint = ca_id candidate, hr_discarded = 0,
                              hr_operation = None\<rparr>) (\<lambda>_. track_in layer candidate) d)"

definition create_in :: "string \<Rightarrow> candidate \<Rightarrow> layer_head tx" where
  "create_in layer candidate =
     tx_bind (ensure_first layer candidate) (\<lambda>_.
     tx_bind (tx_read identity_in) (\<lambda>identity.
     tx_ret \<lparr>lh_repository = identity, lh_layer = layer, lh_revision = 0, lh_checkpoint = ca_id candidate\<rparr>))"

definition create_on_version_in :: "codecs \<Rightarrow> string \<Rightarrow> 64 word \<Rightarrow> layer_head tx" where
  "create_on_version_in L layer version =
     tx_bind (tx_read (base_in version)) (\<lambda>base.
     tx_bind (prepare_checkpoint L base [] [] None) (\<lambda>empty.
     create_in layer empty))"

section \<open>Stack bindings\<close>

definition stack_row_in :: "string \<Rightarrow> db \<Rightarrow> stack_row option" where
  "stack_row_in operation d = find_row (\<lambda>r. sr_id r = operation) (db_stacks d)"

definition source_in :: "string \<Rightarrow> db \<Rightarrow> object_id option" where
  "source_in operation d = map_option sr_source (stack_row_in operation d)"

definition stored_binding :: "codecs \<Rightarrow> bytes \<Rightarrow> error + object_id option" where
  "stored_binding L bytes = emap_err (\<lambda>_. CorruptRepository ''invalid Stack input binding'') (co_unbinding L bytes)"

definition resolution_in :: "codecs \<Rightarrow> string \<Rightarrow> db \<Rightarrow> error + object_id option" where
  "resolution_in L operation d =
     (case stack_row_in operation d of
       None \<Rightarrow> Inr None
     | Some row \<Rightarrow> ebind (read_object (co_env L) d (sr_binding row) Blob) (stored_binding L))"

definition binding_bytes ::
  "codecs \<Rightarrow> string \<Rightarrow> layer_head \<Rightarrow> object_id \<Rightarrow> object_id \<Rightarrow> layer_update \<Rightarrow> object_id option \<Rightarrow> bytes" where
  "binding_bytes L operation expected source candidate outcome resolution =
     co_binding L \<lparr>sb_operation = operation, sb_expected = expected, sb_source = source, sb_candidate = candidate,
                   sb_outcome = outcome, sb_resolution = resolution\<rparr>"

definition record_stack_in ::
  "codecs \<Rightarrow> string \<Rightarrow> layer_head \<Rightarrow> object_id \<Rightarrow> object_id \<Rightarrow> layer_update \<Rightarrow> object_id option \<Rightarrow> unit tx" where
  "record_stack_in L operation expected source candidate outcome resolution =
     tx_bind (insert_object (co_env L) Blob (binding_bytes L operation expected source candidate outcome resolution)) (\<lambda>binding d.
     ebind (insert_unique sr_id \<lparr>sr_id = operation, sr_source = source, sr_binding = binding\<rparr> (db_stacks d))
       (\<lambda>rows. Inr ((), d\<lparr>db_stacks := rows\<rparr>)))"

definition check_resolution :: "codecs \<Rightarrow> db \<Rightarrow> object_id option \<Rightarrow> error + unit" where
  "check_resolution L d resolution =
     (case resolution of
       None \<Rightarrow> Inr ()
     | Some i \<Rightarrow> ebind (read_object (co_env L) d i Blob) (\<lambda>_. Inr ()))"

definition verify_binding ::
  "codecs \<Rightarrow> db \<Rightarrow> string \<Rightarrow> layer_head \<Rightarrow> object_id \<Rightarrow> object_id \<Rightarrow> layer_update \<Rightarrow> error + unit" where
  "verify_binding L d operation expected source candidate outcome =
     ebind (ok_or (Storage ''Query returned no rows'') (stack_row_in operation d)) (\<lambda>row.
     ebind (read_object (co_env L) d (sr_binding row) Blob) (\<lambda>stored.
     ebind (stored_binding L stored) (\<lambda>resolution.
     if stored \<noteq> binding_bytes L operation expected source candidate outcome resolution
     then Inl (CorruptRepository ''Stack input binding disagrees'')
     else check_resolution L d resolution)))"

fun check_bindings :: "codecs \<Rightarrow> db \<Rightarrow> stack_row list \<Rightarrow> error + unit" where
  "check_bindings L d [] = Inr ()"
| "check_bindings L d (row # rows) =
     ebind (read_object (co_env L) d (sr_binding row) Blob) (\<lambda>bytes.
     ebind (stored_binding L bytes) (\<lambda>resolution.
     ebind (check_resolution L d resolution) (\<lambda>_. check_bindings L d rows)))"

definition check_stacks :: "codecs \<Rightarrow> db \<Rightarrow> error + unit" where
  "check_stacks L d =
     (if list_ex (\<lambda>r. sr_id r \<notin> set (map la_id (db_layer_attempts d))) (db_stacks d)
      then Inl (CorruptRepository ''orphan Stack attempt'')
      else check_bindings L d (db_stacks d))"

end
