(* ===== verification/LayerAttempts.thy ===== *)
theory LayerAttempts
  imports Layers
begin

text \<open>
  Updates of a Layer's head (\<open>update_in\<close> of \<open>src/layer.rs\<close>): a compare-and-swap whose attempt is recorded, so that a retry
  returns the original outcome; the validation of a recorded attempt; the checks of all events and attempts; and the
  attribution of a head's paths to the checkpoints that set them.
\<close>

section \<open>The outcome of a recorded attempt\<close>

definition layer_attempt_row_in :: "string \<Rightarrow> db \<Rightarrow> layer_attempt_row option" where
  "layer_attempt_row_in operation d = find_row (\<lambda>r. la_id r = operation) (db_layer_attempts d)"

text \<open>The sources the candidate must have: those before, and the Stack's source.\<close>

definition expected_sources ::
  "codecs \<Rightarrow> db \<Rightarrow> bool \<Rightarrow> layer_attempt_row \<Rightarrow> object_id option \<Rightarrow> object_id list \<Rightarrow> checkpoints \<Rightarrow> error + object_id list \<times> checkpoints" where
  "expected_sources L d deep row source sources seen =
     (case source of
       None \<Rightarrow> Inr (sources, seen)
     | Some i \<Rightarrow>
         if la_discard row \<noteq> 0 then Inl (CorruptRepository ''Stack cannot discard'')
         else ebind (read_checkpoint_with L d deep i seen) (\<lambda>(_, seen). Inr (oset_of (sources @ [i]), seen)))"

definition recorded_update ::
  "string \<Rightarrow> layer_attempt_row \<Rightarrow> layer_event \<Rightarrow> layer_checkpoint \<Rightarrow> object_id \<Rightarrow> error + layer_update" where
  "recorded_update operation row after candidate identity =
     (if la_accepted row = 1 then
        (if la_expected row + 1 \<noteq> la_result row \<or> ev_checkpoint after \<noteq> lc_id candidate
            \<or> ev_discarded after \<noteq> (la_discard row = 1) \<or> ev_operation after \<noteq> Some operation
         then Inl (CorruptRepository ''accepted Layer attempt disagrees with head'')
         else Inr (UpdateApplied (event_state identity after)))
      else if la_result row \<le> la_expected row then Inl (CorruptRepository ''invalid stale Layer outcome'')
      else Inr (UpdateStale (event_state identity after)))"

definition verify_stack ::
  "codecs \<Rightarrow> db \<Rightarrow> string \<Rightarrow> layer_attempt_row \<Rightarrow> object_id option \<Rightarrow> object_id \<Rightarrow> layer_update \<Rightarrow> error + unit" where
  "verify_stack L d operation row source candidate outcome =
     (case source of
       None \<Rightarrow> Inr ()
     | Some i \<Rightarrow>
         ebind (layer_head_in (la_layer row) (word_of_int (la_expected row)) d) (\<lambda>expected.
         verify_binding L d operation expected i candidate outcome))"

definition update_outcome_in ::
  "codecs \<Rightarrow> db \<Rightarrow> bool \<Rightarrow> string \<Rightarrow> checkpoints \<Rightarrow> error + layer_update \<times> checkpoints" where
  "update_outcome_in L d deep operation seen =
     ebind (ok_or (Storage ''Query returned no rows'') (layer_attempt_row_in operation d)) (\<lambda>row.
     ebind (event_in (la_layer row) (la_expected row) d) (\<lambda>before.
     ebind (event_in (la_layer row) (la_result row) d) (\<lambda>after.
     ebind (read_checkpoint_with L d deep (la_checkpoint row) seen) (\<lambda>(candidate, seen).
     ebind (read_checkpoint_with L d deep (ev_checkpoint before) seen) (\<lambda>(before_checkpoint, seen).
     if ev_discarded before \<or> (la_discard row \<noteq> 0 \<and> la_discard row \<noteq> 1)
        \<or> (la_accepted row \<noteq> 0 \<and> la_accepted row \<noteq> 1)
        \<or> lc_base before_checkpoint \<noteq> lc_base candidate
        \<or> (la_discard row = 1 \<and> lc_id candidate \<noteq> ev_checkpoint before)
     then Inl (CorruptRepository ''invalid Layer attempt binding'')
     else
       let source = source_in operation d in
       if la_stack row \<noteq> (if source = None then 0 else 1)
       then Inl (CorruptRepository ''missing or unexpected Stack binding'')
       else
         ebind (expected_sources L d deep row source (lc_sources before_checkpoint) seen) (\<lambda>(sources, seen).
         if lc_sources candidate \<noteq> sources
         then Inl (CorruptRepository ''Layer attempt lost or changed Stack ancestry'')
         else
           ebind (identity_in d) (\<lambda>identity.
           ebind (recorded_update operation row after candidate identity) (\<lambda>outcome.
           ebind (verify_stack L d operation row source (lc_id candidate) outcome) (\<lambda>_.
           Inr (outcome, seen))))))))))"

definition update_outcome :: "codecs \<Rightarrow> string \<Rightarrow> db \<Rightarrow> error + layer_update" where
  "update_outcome L operation d = ebind (update_outcome_in L d False operation []) (\<lambda>(outcome, _). Inr outcome)"

section \<open>Updating a head\<close>

text \<open>A retry must repeat its input.\<close>

definition same_attempt ::
  "codecs \<Rightarrow> string \<Rightarrow> layer_head \<Rightarrow> object_id \<Rightarrow> bool \<Rightarrow> object_id option \<Rightarrow> object_id option \<Rightarrow> layer_attempt_row \<Rightarrow> db \<Rightarrow> error + unit" where
  "same_attempt L operation expected checkpoint discard source resolution row d =
     (if la_layer row \<noteq> lh_layer expected \<or> la_expected row \<noteq> version_sql (lh_revision expected)
         \<or> la_checkpoint row \<noteq> checkpoint \<or> (la_discard row \<noteq> 0) \<noteq> discard
         \<or> source_in operation d \<noteq> source
      then Inl (OperationIdReused operation)
      else
        ebind (resolution_in L operation d) (\<lambda>stored.
        if stored \<noteq> resolution then Inl (OperationIdReused operation) else Inr ()))"

text \<open>\<open>checked_add(1)\<close> on an \<open>i64\<close>.\<close>

definition next_revision :: "int \<Rightarrow> error + int" where
  "next_revision revision =
     (if revision + 1 < 2 ^ 63 then Inr (revision + 1) else Inl (InvalidInput ''Layer revision overflow''))"

definition move_head :: "string \<Rightarrow> layer_head \<Rightarrow> candidate \<Rightarrow> bool \<Rightarrow> int \<Rightarrow> unit tx" where
  "move_head operation expected candidate discard result =
     tx_bind (insert_head \<lparr>hr_layer = lh_layer expected, hr_revision = result, hr_checkpoint = ca_id candidate,
                           hr_discarded = (if discard then 1 else 0), hr_operation = Some operation\<rparr>) (\<lambda>_.
     if discard then untrack_in (lh_layer expected) else track_in (lh_layer expected) candidate)"

definition bind_stack ::
  "codecs \<Rightarrow> string \<Rightarrow> layer_head \<Rightarrow> candidate \<Rightarrow> object_id option \<Rightarrow> object_id option \<Rightarrow> bool \<Rightarrow> int \<Rightarrow> unit tx" where
  "bind_stack L operation expected candidate source resolution accepted result =
     (case source of
       None \<Rightarrow> tx_ret ()
     | Some i \<Rightarrow>
         tx_bind (tx_read (event_in (lh_layer expected) result)) (\<lambda>event.
         tx_bind (tx_read identity_in) (\<lambda>identity.
           let state = event_state identity event;
               outcome = (if accepted then UpdateApplied state else UpdateStale state)
           in record_stack_in L operation expected i (ca_id candidate) outcome resolution)))"

definition settle_update ::
  "codecs \<Rightarrow> string \<Rightarrow> layer_head \<Rightarrow> candidate \<Rightarrow> bool \<Rightarrow> object_id option \<Rightarrow> object_id option \<Rightarrow> layer_update tx" where
  "settle_update L operation expected candidate discard source resolution =
     tx_bind (tx_read (latest_in (lh_layer expected))) (\<lambda>current.
       let accepted = (ev_revision current = version_sql (lh_revision expected) \<and> \<not> ev_discarded current) in
     tx_bind (tx_read (\<lambda>_. if accepted then next_revision (ev_revision current) else Inr (ev_revision current))) (\<lambda>result.
     tx_bind (insert_layer_attempt \<lparr>la_id = operation, la_layer = lh_layer expected,
                la_expected = version_sql (lh_revision expected), la_checkpoint = ca_id candidate,
                la_discard = (if discard then 1 else 0), la_stack = (if source = None then 0 else 1),
                la_accepted = (if accepted then 1 else 0), la_result = result\<rparr>) (\<lambda>_.
     tx_bind (if accepted then move_head operation expected candidate discard result else tx_ret ()) (\<lambda>_.
     tx_bind (bind_stack L operation expected candidate source resolution accepted result) (\<lambda>_.
     tx_read (update_outcome L operation))))))"

definition update_in ::
  "codecs \<Rightarrow> string \<Rightarrow> layer_head \<Rightarrow> candidate \<Rightarrow> bool \<Rightarrow> object_id option \<Rightarrow> object_id option \<Rightarrow> layer_update tx" where
  "update_in L operation expected candidate discard source resolution =
     tx_bind (tx_read (\<lambda>d. Inr (layer_attempt_row_in operation d))) (\<lambda>prior.
     case prior of
       Some row \<Rightarrow>
         tx_bind (tx_read (same_attempt L operation expected (ca_id candidate) discard source resolution row)) (\<lambda>_.
         tx_read (update_outcome L operation))
     | None \<Rightarrow> settle_update L operation expected candidate discard source resolution)"

section \<open>Checking events and attempts\<close>

fun check_layer_attempts :: "codecs \<Rightarrow> db \<Rightarrow> bool \<Rightarrow> string list \<Rightarrow> checkpoints \<Rightarrow> error + checkpoints" where
  "check_layer_attempts L d deep [] seen = Inr seen"
| "check_layer_attempts L d deep (operation # operations) seen =
     ebind (update_outcome_in L d deep operation seen) (\<lambda>(_, seen). check_layer_attempts L d deep operations seen)"

text \<open>One event after the previous one, of which the loop keeps the base and the last event.\<close>

definition check_discards :: "layer_event \<Rightarrow> layer_event \<Rightarrow> error + unit" where
  "check_discards prev event =
     guard (\<not> (ev_discarded prev \<or> (ev_discarded event \<and> ev_checkpoint prev \<noteq> ev_checkpoint event)))
       (CorruptRepository ''invalid discard history'')"

definition check_successor ::
  "codecs \<Rightarrow> db \<Rightarrow> bool \<Rightarrow> layer_event option \<Rightarrow> layer_event \<Rightarrow> checkpoints \<Rightarrow> error + checkpoints" where
  "check_successor L d deep previous event seen =
     (case previous of
       None \<Rightarrow>
         if ev_operation event \<noteq> None \<or> ev_discarded event then Inl (CorruptRepository ''invalid initial Layer'')
         else Inr seen
     | Some prev \<Rightarrow>
         ebind (check_discards prev event) (\<lambda>_.
         ebind (ok_or (CorruptRepository ''missing Layer head operation'') (ev_operation event)) (\<lambda>operation.
         ebind (update_outcome_in L d deep operation seen) (\<lambda>(outcome, seen).
         ebind (identity_in d) (\<lambda>identity.
         if outcome = UpdateApplied (event_state identity event) then Inr seen
         else Inl (CorruptRepository ''Layer head operation disagrees''))))))"

definition check_base :: "layer_base option \<Rightarrow> layer_base \<Rightarrow> error + unit" where
  "check_base first base = (case first of None \<Rightarrow> Inr () | Some b \<Rightarrow> guard (b = base) (CorruptRepository ''Layer base changed''))"

fun check_revisions ::
  "codecs \<Rightarrow> db \<Rightarrow> bool \<Rightarrow> string \<Rightarrow> nat \<Rightarrow> int list \<Rightarrow> layer_base option \<Rightarrow> layer_event option \<Rightarrow> checkpoints \<Rightarrow> error + checkpoints" where
  "check_revisions L d deep layer index [] base previous seen = Inr seen"
| "check_revisions L d deep layer index (revision # revisions) base previous seen =
     (if revision \<noteq> int index then Inl (CorruptRepository ''Layer head history is not contiguous'')
      else
        ebind (event_in layer revision d) (\<lambda>event.
        ebind (read_checkpoint_with L d deep (ev_checkpoint event) seen) (\<lambda>(snapshot, seen).
        ebind (check_base base (lc_base snapshot)) (\<lambda>_.
        ebind (check_successor L d deep previous event seen) (\<lambda>seen.
        check_revisions L d deep layer (Suc index) revisions (Some (lc_base snapshot)) (Some event) seen)))))"

definition check_events :: "codecs \<Rightarrow> db \<Rightarrow> bool \<Rightarrow> string \<Rightarrow> checkpoints \<Rightarrow> error + checkpoints" where
  "check_events L d deep layer seen = check_revisions L d deep layer 0 (sort (revisions_of layer d)) None None seen"

definition check_layer :: "codecs \<Rightarrow> db \<Rightarrow> string \<Rightarrow> error + unit" where
  "check_layer L d layer =
     ebind (check_events L d False layer []) (\<lambda>seen.
     ebind (check_layer_attempts L d False (map la_id (filter (\<lambda>r. la_layer r = layer) (db_layer_attempts d))) seen)
       (\<lambda>_. Inr ()))"

fun check_each_layer :: "codecs \<Rightarrow> db \<Rightarrow> bool \<Rightarrow> string list \<Rightarrow> checkpoints \<Rightarrow> error + checkpoints" where
  "check_each_layer L d deep [] seen = Inr seen"
| "check_each_layer L d deep (layer # layers) seen =
     ebind (check_events L d deep layer seen) (\<lambda>seen. check_each_layer L d deep layers seen)"

text \<open>\<open>SELECT DISTINCT layer FROM layer_heads ORDER BY layer\<close>.\<close>

definition layer_names :: "db \<Rightarrow> string list" where
  "layer_names d = oset_of (map hr_layer (db_heads d))"

definition check_layers :: "codecs \<Rightarrow> db \<Rightarrow> bool \<Rightarrow> checkpoints \<Rightarrow> error + nat \<times> checkpoints" where
  "check_layers L d deep seen =
     ebind (identity_in d) (\<lambda>_.
     ebind (check_each_layer L d deep (layer_names d) seen) (\<lambda>seen.
     ebind (check_layer_attempts L d deep (map la_id (db_layer_attempts d)) seen) (\<lambda>seen.
     Inr (length (layer_names d), seen))))"

section \<open>Attribution\<close>

type_synonym path_attribution = tracked

definition attribute_paths :: "layer_checkpoint \<Rightarrow> path_attribution \<Rightarrow> path_attribution" where
  "attribute_paths checkpoint attribution =
     map (\<lambda>(path, entry).
       (path, entry,
        (case map_of attribution path of
          Some (before, origin) \<Rightarrow> if before = entry then origin else (lc_id checkpoint, lc_provenance checkpoint)
        | None \<Rightarrow> (lc_id checkpoint, lc_provenance checkpoint))))
     (lc_changes checkpoint)"

fun attribution_loop ::
  "codecs \<Rightarrow> db \<Rightarrow> bool \<Rightarrow> string \<Rightarrow> int list \<Rightarrow> path_attribution \<Rightarrow> checkpoints \<Rightarrow> error + path_attribution \<times> checkpoints" where
  "attribution_loop L d deep layer [] attribution seen = Inr (attribution, seen)"
| "attribution_loop L d deep layer (revision # revisions) attribution seen =
     ebind (event_in layer revision d) (\<lambda>event.
     ebind (read_checkpoint_with L d deep (ev_checkpoint event) seen) (\<lambda>(checkpoint, seen).
     attribution_loop L d deep layer revisions (attribute_paths checkpoint attribution) seen))"

text \<open>The revisions 0 to \<open>revision\<close>, of which those above \<open>i64::MAX\<close> are refused.\<close>

definition attribution_in ::
  "codecs \<Rightarrow> db \<Rightarrow> bool \<Rightarrow> string \<Rightarrow> 64 word \<Rightarrow> checkpoints \<Rightarrow> error + path_attribution \<times> checkpoints" where
  "attribution_in L d deep layer revision seen =
     ebind (attribution_loop L d deep layer (map int [0 ..< Suc (min (unat revision) (2 ^ 63 - 1))]) [] seen) (\<lambda>result.
     if unat revision \<ge> 2 ^ 63 then Inl (CorruptRepository ''invalid Layer revision'') else Inr result)"

end
