(* ===== verification/Publications.thy ===== *)
theory Publications
  imports LayerAttempts
begin

text \<open>
  Publication of a Layer (\<open>src/publish.rs\<close>): preparation from a read snapshot, the short write transaction that rechecks
  it and advances the World, and the validation of stored receipts. The loop over snapshots takes the states that it
  sees, a snapshot and the locked state of each round, as an argument, so that other writers may act between the two.
\<close>

section \<open>Composition\<close>

record composed_version =
  cv_changes :: changes
  cv_tree :: object_id
  cv_chunks :: "(object_id \<times> bytes) list"

definition corrupt :: "string \<Rightarrow> error" where
  "corrupt message = CorruptRepository message"

text \<open>The intersecting paths, or the new version's changeset and tree.\<close>

definition compose_in :: "codecs \<Rightarrow> layer_head \<Rightarrow> world_version \<Rightarrow> db \<Rightarrow> error + (string list + composed_version)" where
  "compose_in L head against d =
     ebind (checkpoint_in L (lh_checkpoint head) d) (\<lambda>checkpoint.
     if lb_version (lc_base checkpoint) > wv_number against then Inl (corrupt ''publication World precedes Layer base'')
     else
       ebind (tree_in (lb_version (lc_base checkpoint)) d) (\<lambda>base.
       ebind (sql_read (co_env L)
                (\<lambda>s. tree_intersections (en_sha (co_env L)) s base (wv_tree against) (lc_changes checkpoint)) d) (\<lambda>found.
       if found \<noteq> [] then Inr (Inl found)
       else
         ebind (sql_buffer (co_env L) (tree_apply (en_fuel (co_env L)) (en_sha (co_env L)) (wv_tree against) (lc_changes checkpoint)) d)
           (\<lambda>(tree, chunks). Inr (Inr \<lparr>cv_changes = lc_changes checkpoint, cv_tree = tree, cv_chunks = chunks\<rparr>)))))"

definition warnings_in :: "codecs \<Rightarrow> publish_attribution \<Rightarrow> db \<Rightarrow> error + publish_warning list" where
  "warnings_in L attribution d =
     (case attribution of
       ByHuman \<Rightarrow> Inr []
     | ByAgent (Some i) _ \<Rightarrow> ebind (read_object (co_env L) d i Blob) (\<lambda>_. Inr [])
     | ByAgent None allow \<Rightarrow> if allow then Inr [MissingTraceWarning] else Inl MissingAgentTrace)"

definition attribution_columns :: "publish_attribution \<Rightarrow> int \<times> object_id option \<times> int" where
  "attribution_columns attribution =
     (case attribution of
       ByHuman \<Rightarrow> (0, None, 0)
     | ByAgent context allow \<Rightarrow> (1, context, if allow then 1 else 0))"

definition state_revision :: "layer_state \<Rightarrow> 64 word" where
  "state_revision state =
     (case state of Active head \<Rightarrow> lh_revision head | Published head _ _ \<Rightarrow> lh_revision head | Discarded _ revision _ \<Rightarrow> revision)"

section \<open>Receipts\<close>

text \<open>\<open>ORDER BY id\<close>.\<close>

definition rows_in :: "(publication_row \<Rightarrow> bool) \<Rightarrow> db \<Rightarrow> publication_row list" where
  "rows_in P d = sort_key pu_id (filter P (db_publications d))"

definition row_in :: "string \<Rightarrow> db \<Rightarrow> publication_row option" where
  "row_in operation d = (case rows_in (\<lambda>r. pu_id r = operation) d of [] \<Rightarrow> None | r # _ \<Rightarrow> Some r)"

definition world_at :: "int \<Rightarrow> db \<Rightarrow> error + world_version" where
  "world_at number d =
     ebind (version_decode number) (\<lambda>n. emap_err (\<lambda>_. corrupt ''missing publication World'') (version_in n d))"

definition success_state :: "publication_row \<Rightarrow> db \<Rightarrow> error + layer_state" where
  "success_state row d =
     (if pu_outcome row \<noteq> 1 then Inl (corrupt ''observation is not a successful publication'')
      else
        ebind (version_decode (pu_expected row)) (\<lambda>expected.
        ebind (layer_head_in (pu_layer row) expected d) (\<lambda>head.
        ebind (ok_or (corrupt ''missing publication result'') (pu_result row)) (\<lambda>result.
        ebind (world_at result d) (\<lambda>version.
        Inr (Published head (pu_id row) version))))))"

definition stored_attribution :: "publication_row \<Rightarrow> error + publish_attribution" where
  "stored_attribution row =
     (if pu_attribution row = 0 \<and> pu_allow_missing_trace row = 0 \<and> pu_context row = None then Inr ByHuman
      else if pu_attribution row = 1 \<and> (pu_allow_missing_trace row = 0 \<or> pu_allow_missing_trace row = 1)
      then Inr (ByAgent (pu_context row) (pu_allow_missing_trace row = 1))
      else Inl (corrupt ''invalid publication attribution''))"

text \<open>The Layer's state that a receipt observed.\<close>

definition observed_state :: "publication_row list \<Rightarrow> publication_row \<Rightarrow> db \<Rightarrow> error + layer_state" where
  "observed_state rows row d =
     ebind (version_decode (pu_observed row)) (\<lambda>revision.
     ebind (event_state_in (pu_layer row) revision d) (\<lambda>observed.
     case pu_observed_publication row of
       None \<Rightarrow> Inr observed
     | Some i \<Rightarrow>
         ebind (ok_or (corrupt ''missing observed publication'') (find (\<lambda>r. pu_id r = i) rows)) (\<lambda>prior.
         if pu_id prior = pu_id row \<or> pu_layer prior \<noteq> pu_layer row \<or> pu_expected prior \<noteq> pu_observed row
            \<or> (case pu_result prior of None \<Rightarrow> True | Some n \<Rightarrow> n > pu_against row)
         then Inl (corrupt ''invalid observed publication binding'')
         else success_state prior d)))"

definition ignored_terminal :: "publication_row list \<Rightarrow> publication_row \<Rightarrow> bool" where
  "ignored_terminal rows row =
     list_ex (\<lambda>r. pu_layer r = pu_layer row \<and> pu_outcome r = 1
       \<and> (case pu_result r of None \<Rightarrow> False | Some n \<Rightarrow> n \<le> pu_against row)
       \<and> pu_observed_publication row \<noteq> Some (pu_id r)) rows"

definition attempt_exists :: "string \<Rightarrow> db \<Rightarrow> bool" where
  "attempt_exists operation d \<longleftrightarrow> operation \<in> set (map ar_id (db_attempts d))"

definition success_in ::
  "codecs \<Rightarrow> publication_row \<Rightarrow> layer_head \<Rightarrow> world_version \<Rightarrow> layer_state \<Rightarrow> bool \<Rightarrow> bool \<Rightarrow> db \<Rightarrow> error + publication_outcome" where
  "success_in L row expected against observed exact raw_attempt d =
     ebind (ok_or (corrupt ''missing publication result'') (pu_result row)) (\<lambda>result.
     if \<not> exact \<or> pu_world_operation row \<noteq> Some (pu_id row) \<or> \<not> raw_attempt
        \<or> \<not> (pu_against row + 1 < 2 ^ 63 \<and> pu_against row + 1 = result)
     then Inl (corrupt ''invalid successful publication binding'')
     else
       ebind (latest_event_state_in (pu_layer row) d) (\<lambda>latest.
       if latest \<noteq> observed then Inl (corrupt ''invalid successful publication binding'')
       else
         ebind (compose_in L expected against d) (\<lambda>composed.
         case composed of
           Inl _ \<Rightarrow> Inl (corrupt ''successful publication intersects World changes'')
         | Inr candidate \<Rightarrow>
             ebind (world_at result d) (\<lambda>version.
             if wv_operation version \<noteq> Some (pu_id row) \<or> wv_tree version \<noteq> cv_tree candidate
                \<or> wv_id version \<noteq> version_id (en_sha (co_env L)) (en_changes (co_env L)) (Some (wv_id against))
                    (cv_tree candidate) (cv_changes candidate)
             then Inl (corrupt ''published World disagrees with complete Layer composition'')
             else
               ebind (changeset_in (wv_number version) d) (\<lambda>changes.
               if changes \<noteq> cv_changes candidate
               then Inl (corrupt ''published World disagrees with complete Layer composition'')
               else Inr (PublishedAs version))))))"

definition failure_in ::
  "codecs \<Rightarrow> publication_row \<Rightarrow> layer_head \<Rightarrow> world_version \<Rightarrow> layer_state \<Rightarrow> bool \<Rightarrow> bool \<Rightarrow> db \<Rightarrow> error + publication_outcome" where
  "failure_in L row expected against observed exact raw_attempt d =
     (if raw_attempt \<or> pu_result row \<noteq> None \<or> pu_world_operation row \<noteq> None
      then Inl (corrupt ''failed publication owns a World attempt'')
      else if pu_outcome row = 2 then
        (if \<not> exact then Inl (corrupt ''conflict did not observe exact Active head'')
         else
           ebind (compose_in L expected against d) (\<lambda>composed.
           case composed of
             Inl paths \<Rightarrow> Inr (PublishConflict paths)
           | Inr _ \<Rightarrow> Inl (corrupt ''publication conflict has no intersections'')))
      else if exact then Inl (corrupt ''stale publication observed exact Active head'')
      else Inr (PublishStale observed))"

definition receipt_in :: "codecs \<Rightarrow> publication_row \<Rightarrow> db \<Rightarrow> error + publication_receipt" where
  "receipt_in L row d =
     (let rows = rows_in (\<lambda>r. pu_layer r = pu_layer row) d in
      ebind (version_decode (pu_expected row)) (\<lambda>revision.
      ebind (layer_head_in (pu_layer row) revision d) (\<lambda>expected.
      if lh_checkpoint expected \<noteq> pu_checkpoint row \<or> pu_observed row < pu_expected row
      then Inl (corrupt ''publication checkpoint or observation disagrees'')
      else
        ebind (world_at (pu_against row) d) (\<lambda>against.
        ebind (checkpoint_in L (lh_checkpoint expected) d) (\<lambda>checkpoint.
        if lb_version (lc_base checkpoint) > wv_number against
        then Inl (corrupt ''publication World precedes Layer base'')
        else
          ebind (stored_attribution row) (\<lambda>attribution.
          ebind (warnings_in L attribution d) (\<lambda>warnings.
          ebind (observed_state rows row d) (\<lambda>observed.
          if ignored_terminal rows row then Inl (corrupt ''publication ignored a terminal Layer'')
          else
            let exact = (observed = Active expected); raw_attempt = attempt_exists (pu_id row) d in
            ebind (if pu_outcome row = 1 then success_in L row expected against observed exact raw_attempt d
                   else if pu_outcome row = 2 \<or> pu_outcome row = 3
                   then failure_in L row expected against observed exact raw_attempt d
                   else Inl (corrupt ''invalid publication outcome'')) (\<lambda>outcome.
              let receipt = \<lparr>rc_operation = pu_id row, rc_expected = expected, rc_attribution = attribution,
                             rc_against = against, rc_warnings = warnings, rc_outcome = outcome\<rparr> in
              ebind (read_object (co_env L) d (pu_receipt row) Blob) (\<lambda>bytes.
              if bytes \<noteq> co_receipt L receipt
              then Inl (corrupt ''publication receipt disagrees with immutable bindings'')
              else Inr receipt))))))))))"

fun check_receipts :: "codecs \<Rightarrow> db \<Rightarrow> string list \<Rightarrow> publication_row list \<Rightarrow> error + unit" where
  "check_receipts L d successful [] = Inr ()"
| "check_receipts L d successful (row # rows) =
     (if pu_outcome row = 1 \<and> pu_layer row \<in> set successful then Inl (corrupt ''Layer published more than once'')
      else
        ebind (receipt_in L row d) (\<lambda>_.
        check_receipts L d (if pu_outcome row = 1 then pu_layer row # successful else successful) rows))"

definition check_publications :: "codecs \<Rightarrow> db \<Rightarrow> error + nat" where
  "check_publications L d =
     (let rows = rows_in (\<lambda>_. True) d in ebind (check_receipts L d [] rows) (\<lambda>_. Inr (length rows)))"

section \<open>The state of a Layer\<close>

definition published_state_in :: "codecs \<Rightarrow> string \<Rightarrow> db \<Rightarrow> error + layer_state option" where
  "published_state_in L layer d =
     (case rows_in (\<lambda>r. pu_layer r = layer \<and> pu_outcome r = 1) d of
       [] \<Rightarrow> Inr None
     | row # _ \<Rightarrow> ebind (receipt_in L row d) (\<lambda>_. ebind (success_state row d) (\<lambda>state. Inr (Some state))))"

definition layer_state_in :: "codecs \<Rightarrow> string \<Rightarrow> db \<Rightarrow> error + layer_state" where
  "layer_state_in L layer d =
     ebind (published_state_in L layer d) (\<lambda>published.
     case published of Some state \<Rightarrow> Inr state | None \<Rightarrow> latest_event_state_in layer d)"

definition refuse_published_in :: "codecs \<Rightarrow> string \<Rightarrow> string \<Rightarrow> db \<Rightarrow> error + unit" where
  "refuse_published_in L operation layer d =
     (if operation \<in> set (map la_id (db_layer_attempts d)) then Inr ()
      else
        ebind (published_state_in L layer d) (\<lambda>published.
        case published of
          Some (Published _ by _) \<Rightarrow> Inl (LayerPublished layer by)
        | _ \<Rightarrow> Inr ()))"

section \<open>Publishing\<close>

record publish_plan =
  pp_against :: world_version
  pp_actual :: layer_state
  pp_warnings :: "publish_warning list"
  pp_composed :: "(string list + composed_version) option"

datatype prepared = Replay publication_receipt | Advance publish_plan

fun check_rows :: "codecs \<Rightarrow> publication_row list \<Rightarrow> db \<Rightarrow> error + unit" where
  "check_rows L [] d = Inr ()"
| "check_rows L (row # rows) d = ebind (receipt_in L row d) (\<lambda>_. check_rows L rows d)"

definition check_head_receipt :: "codecs \<Rightarrow> world_version \<Rightarrow> db \<Rightarrow> error + unit" where
  "check_head_receipt L against d =
     (case Option.bind (wv_operation against) (\<lambda>operation. row_in operation d) of
       None \<Rightarrow> Inr ()
     | Some row \<Rightarrow> ebind (receipt_in L row d) (\<lambda>_. Inr ()))"

definition plan_in :: "codecs \<Rightarrow> layer_head \<Rightarrow> publish_warning list \<Rightarrow> db \<Rightarrow> error + publish_plan" where
  "plan_in L expected warnings d =
     ebind (head_in d) (\<lambda>against.
     ebind (check_head_receipt L against d) (\<lambda>_.
     ebind (check_rows L (rows_in (\<lambda>r. pu_layer r = lh_layer expected) d) d) (\<lambda>_.
     ebind (layer_state_in L (lh_layer expected) d) (\<lambda>state.
     ebind (if state = Active expected then ebind (compose_in L expected against d) (\<lambda>c. Inr (Some c)) else Inr None) (\<lambda>composed.
     Inr \<lparr>pp_against = against, pp_actual = state, pp_warnings = warnings, pp_composed = composed\<rparr>)))))"

definition prepare_in :: "codecs \<Rightarrow> string \<Rightarrow> layer_head \<Rightarrow> publish_attribution \<Rightarrow> db \<Rightarrow> error + prepared" where
  "prepare_in L operation expected attribution d =
     ebind (validate_format d) (\<lambda>_.
     case row_in operation d of
       Some row \<Rightarrow>
         ebind (receipt_in L row d) (\<lambda>receipt.
         if rc_expected receipt \<noteq> expected \<or> rc_attribution receipt \<noteq> attribution
         then Inl (OperationIdReused operation) else Inr (Replay receipt))
     | None \<Rightarrow>
         if attempt_exists operation d then Inl (OperationIdReused operation)
         else
           ebind (verify_head expected d) (\<lambda>_.
           ebind (warnings_in L attribution d) (\<lambda>warnings.
           if (case attribution of ByAgent (Some _) True \<Rightarrow> True | _ \<Rightarrow> False)
           then Inl (InvalidInput ''allow_missing_trace applies only when no context is supplied'')
           else ebind (plan_in L expected warnings d) (\<lambda>plan. Inr (Advance plan)))))"

text \<open>An insertion into \<open>publications\<close>, with the checks, the key and the index of one success per Layer.\<close>

definition publication_checks :: "publication_row \<Rightarrow> bool" where
  "publication_checks row \<longleftrightarrow>
     pu_expected row \<ge> 0 \<and> pu_observed row \<ge> pu_expected row
     \<and> (pu_allow_missing_trace row = 0 \<or> pu_allow_missing_trace row = 1)
     \<and> (pu_attribution row = 0 \<and> pu_context row = None \<and> pu_allow_missing_trace row = 0
        \<or> pu_attribution row = 1 \<and> (pu_context row \<noteq> None \<or> pu_allow_missing_trace row = 1))
     \<and> (pu_outcome row = 1 \<and> pu_result row = Some (pu_against row + 1) \<and> pu_world_operation row = Some (pu_id row)
        \<or> (pu_outcome row = 2 \<or> pu_outcome row = 3) \<and> pu_result row = None \<and> pu_world_operation row = None)
     \<and> (pu_outcome row = 3 \<or> (pu_observed row = pu_expected row \<and> pu_observed_publication row = None))"

definition insert_publication :: "publication_row \<Rightarrow> unit tx" where
  "insert_publication row d =
     (if \<not> publication_checks row then Inl (Storage ''CHECK constraint failed'')
      else if pu_outcome row = 1 \<and> list_ex (\<lambda>r. pu_outcome r = 1 \<and> pu_layer r = pu_layer row) (db_publications d)
      then Inl (Storage ''UNIQUE constraint failed'')
      else ebind (insert_unique pu_id row (db_publications d)) (\<lambda>rows. Inr ((), d\<lparr>db_publications := rows\<rparr>)))"

text \<open>The blame rows of a publication (\<open>record_in\<close> of \<open>src/blame.rs\<close>).\<close>

definition insert_blame :: "64 word \<Rightarrow> (string \<times> object_id \<times> object_id option) list \<Rightarrow> string \<Rightarrow> unit tx" where
  "insert_blame version tracked path d =
     ebind (ok_or (corrupt ''published path missing from the Layer index'') (map_of tracked path)) (\<lambda>(checkpoint, provenance).
     ebind (insert_unique (\<lambda>r. (br_path r, br_version r))
         \<lparr>br_path = path, br_version = version_sql version, br_checkpoint = checkpoint, br_provenance = provenance\<rparr> (db_blame d))
       (\<lambda>rows. Inr ((), d\<lparr>db_blame := rows\<rparr>)))"

definition record_blame_in :: "string \<Rightarrow> 64 word \<Rightarrow> changes \<Rightarrow> unit tx" where
  "record_blame_in layer version changes =
     tx_bind (tx_read (attributed_in layer)) (\<lambda>tracked. tx_each (insert_blame version tracked) (map fst changes))"

definition store_chunks :: "codecs \<Rightarrow> (object_id \<times> bytes) list \<Rightarrow> unit tx" where
  "store_chunks L chunks = tx_each (\<lambda>(_, bytes). tx_bind (insert_object (co_env L) Tree bytes) (\<lambda>_. tx_ret ())) chunks"

definition advance_published ::
  "codecs \<Rightarrow> (world_version \<Rightarrow> changes \<Rightarrow> error + unit) \<Rightarrow> string \<Rightarrow> layer_head \<Rightarrow> world_version \<Rightarrow> composed_version \<Rightarrow> publication_outcome tx" where
  "advance_published L guard' operation expected against candidate =
     tx_bind (tx_read (\<lambda>_. guard' against (cv_changes candidate))) (\<lambda>_.
     tx_bind (tx_read (\<lambda>_. next_number (wv_number against))) (\<lambda>number.
     tx_bind (insert_attempt \<lparr>ar_id = operation, ar_expected = version_sql (wv_number against), ar_tree = None,
                              ar_accepted = 1, ar_result = version_sql number\<rparr>) (\<lambda>_.
     tx_bind (store_chunks L (cv_chunks candidate)) (\<lambda>_.
     tx_bind (append_version_in (co_env L) against operation (cv_changes candidate) (cv_tree candidate)) (\<lambda>version.
     tx_bind (record_blame_in (lh_layer expected) (wv_number version) (cv_changes candidate)) (\<lambda>_.
     tx_bind (untrack_in (lh_layer expected)) (\<lambda>_.
     tx_ret (PublishedAs version))))))))"

definition publication_of ::
  "string \<Rightarrow> layer_head \<Rightarrow> publish_attribution \<Rightarrow> world_version \<Rightarrow> layer_state \<Rightarrow> publication_outcome \<Rightarrow> object_id \<Rightarrow> publication_row" where
  "publication_of operation expected attribution against state outcome blob =
     (let (actor, context, allow) = attribution_columns attribution;
          result = (case outcome of PublishedAs version \<Rightarrow> Some (version_sql (wv_number version)) | _ \<Rightarrow> None)
      in \<lparr>pu_id = operation, pu_layer = lh_layer expected, pu_expected = version_sql (lh_revision expected),
          pu_checkpoint = lh_checkpoint expected, pu_against = version_sql (wv_number against),
          pu_observed = version_sql (state_revision state),
          pu_observed_publication = (case state of Published _ by _ \<Rightarrow> Some by | _ \<Rightarrow> None),
          pu_attribution = actor, pu_context = context, pu_allow_missing_trace = allow,
          pu_outcome = (case outcome of PublishedAs _ \<Rightarrow> 1 | PublishConflict _ \<Rightarrow> 2 | PublishStale _ \<Rightarrow> 3),
          pu_result = result, pu_world_operation = map_option (\<lambda>_. operation) result, pu_receipt = blob\<rparr>)"

text \<open>The write transaction on a plan that still holds.\<close>

definition commit_plan ::
  "codecs \<Rightarrow> (world_version \<Rightarrow> changes \<Rightarrow> error + unit) \<Rightarrow> string \<Rightarrow> layer_head \<Rightarrow> publish_attribution \<Rightarrow> publish_plan \<Rightarrow> publication_receipt tx" where
  "commit_plan L guard' operation expected attribution plan =
     tx_bind (case pp_composed plan of
         None \<Rightarrow> tx_ret (PublishStale (pp_actual plan))
       | Some (Inl paths) \<Rightarrow> tx_ret (PublishConflict paths)
       | Some (Inr candidate) \<Rightarrow> advance_published L guard' operation expected (pp_against plan) candidate) (\<lambda>outcome.
       let receipt = \<lparr>rc_operation = operation, rc_expected = expected, rc_attribution = attribution,
                      rc_against = pp_against plan, rc_warnings = pp_warnings plan, rc_outcome = outcome\<rparr> in
     tx_bind (insert_object (co_env L) Blob (co_receipt L receipt)) (\<lambda>blob.
     tx_bind (insert_publication (publication_of operation expected attribution (pp_against plan) (pp_actual plan) outcome blob)) (\<lambda>_.
     tx_ret receipt)))"

text \<open>Under the lock, whether the plan is still what a snapshot of now would say.\<close>

definition plan_moved :: "codecs \<Rightarrow> string \<Rightarrow> layer_head \<Rightarrow> publish_plan \<Rightarrow> db \<Rightarrow> error + bool" where
  "plan_moved L operation expected plan d =
     (if operation_exists_in operation d \<or> attempt_exists operation d then Inr True
      else
        ebind (head_in d) (\<lambda>head.
        if head \<noteq> pp_against plan then Inr True
        else ebind (layer_state_in L (lh_layer expected) d) (\<lambda>state. Inr (state \<noteq> pp_actual plan))))"

text \<open>One round, from a snapshot to the locked state; \<open>None\<close> prepares again.\<close>

definition publish_round ::
  "codecs \<Rightarrow> (world_version \<Rightarrow> changes \<Rightarrow> error + unit) \<Rightarrow> string \<Rightarrow> layer_head \<Rightarrow> publish_attribution \<Rightarrow> db \<Rightarrow> publication_receipt option tx" where
  "publish_round L guard' operation expected attribution snapshot' =
     tx_bind (tx_read (\<lambda>_. prepare_in L operation expected attribution snapshot')) (\<lambda>prepared.
     case prepared of
       Replay receipt \<Rightarrow> tx_ret (Some receipt)
     | Advance plan \<Rightarrow>
         tx_bind (tx_read (plan_moved L operation expected plan)) (\<lambda>moved.
         if moved then tx_ret None
         else tx_bind (commit_plan L guard' operation expected attribution plan) (\<lambda>receipt. tx_ret (Some receipt))))"

text \<open>The loop, over the snapshot and locked state of each round; \<open>None\<close> when all of them moved.\<close>

fun publish_layer ::
  "codecs \<Rightarrow> (world_version \<Rightarrow> changes \<Rightarrow> error + unit) \<Rightarrow> string \<Rightarrow> layer_head \<Rightarrow> publish_attribution \<Rightarrow> (db \<times> db) list
     \<Rightarrow> (error + publication_receipt \<times> db) option" where
  "publish_layer L guard' operation expected attribution [] = None"
| "publish_layer L guard' operation expected attribution ((snapshot', locked) # rounds) =
     (case publish_round L guard' operation expected attribution snapshot' locked of
       Inl e \<Rightarrow> Some (Inl e)
     | Inr (Some receipt, d) \<Rightarrow> Some (Inr (receipt, d))
     | Inr (None, _) \<Rightarrow> publish_layer L guard' operation expected attribution rounds)"

definition publication :: "codecs \<Rightarrow> string \<Rightarrow> db \<Rightarrow> error + publication_receipt option" where
  "publication L operation d =
     ebind (validate_format d) (\<lambda>_.
     case row_in operation d of
       None \<Rightarrow> Inr None
     | Some row \<Rightarrow> ebind (receipt_in L row d) (\<lambda>receipt. Inr (Some receipt)))"

end
