(* ===== verification/LayerOps.thy ===== *)
theory LayerOps
  imports Publications
begin

text \<open>
  The methods of \<open>Repository\<close> on Layers and Stacks (\<open>src/layer.rs\<close>, \<open>src/stack.rs\<close>), each one transaction. The argument
  \<open>provenance\<close> is what the handle was set to act for (\<open>set_provenance\<close>).
\<close>

section \<open>Reading\<close>

definition current_layer_base :: "64 word \<Rightarrow> db \<Rightarrow> error + layer_base" where
  "current_layer_base version d = ebind (validate_format d) (\<lambda>_. base_in version d)"

text \<open>The argument of \<open>unwrap_or\<close> is evaluated in any case.\<close>

definition current_layer_state :: "codecs \<Rightarrow> string \<Rightarrow> db \<Rightarrow> error + layer_state" where
  "current_layer_state L layer d =
     ebind (validate_format d) (\<lambda>_.
     ebind (published_state_in L layer d) (\<lambda>published.
     ebind (latest_event_state_in layer d) (\<lambda>latest.
     Inr (case published of Some state \<Rightarrow> state | None \<Rightarrow> latest))))"

definition read_checkpoint :: "codecs \<Rightarrow> object_id \<Rightarrow> db \<Rightarrow> error + layer_checkpoint" where
  "read_checkpoint L checkpoint d = ebind (read_checkpoint_with L d True checkpoint []) (\<lambda>(node, _). Inr node)"

definition checkpoint_manifest :: "codecs \<Rightarrow> object_id \<Rightarrow> db \<Rightarrow> error + manifest" where
  "checkpoint_manifest L checkpoint d =
     ebind (checkpoint_in L checkpoint d) (\<lambda>frozen.
     ebind (tree_in (lb_version (lc_base frozen)) d) (\<lambda>root.
     ebind (sql_read (co_env L) (\<lambda>s. tree_entries (en_sha (co_env L)) s root) d) (\<lambda>entries.
     manifest_new (changes_apply (lc_changes frozen) entries))))"

definition layer_history :: "codecs \<Rightarrow> string \<Rightarrow> db \<Rightarrow> error + layer_state list" where
  "layer_history L layer d =
     ebind (validate_format d) (\<lambda>_.
     ebind (check_layer L d layer) (\<lambda>_.
     ebind (latest_in layer d) (\<lambda>latest.
     ebind (identity_in d) (\<lambda>repository.
     ebind (emap (\<lambda>revision. ebind (event_in layer revision d) (\<lambda>event. Inr (event_state repository event)))
              (map int [0 ..< Suc (nat (ev_revision latest))])) (\<lambda>history.
     ebind (published_state_in L layer d) (\<lambda>published.
     Inr (history @ (case published of Some state \<Rightarrow> [state] | None \<Rightarrow> []))))))))"

definition layer_diff :: "codecs \<Rightarrow> layer_head \<Rightarrow> db \<Rightarrow> error + path_diff list" where
  "layer_diff L head d =
     ebind (verify_head head d) (\<lambda>_.
     ebind (checkpoint_in L (lh_checkpoint head) d) (\<lambda>frozen.
     emap (\<lambda>(path, after).
       ebind (wi_entry_at (index_in (co_env L) d (lb_version (lc_base frozen))) path) (\<lambda>before.
       Inr \<lparr>pd_path = path, pd_before = before, pd_after = after\<rparr>)) (lc_changes frozen)))"

section \<open>Writing\<close>

definition create_layer :: "codecs \<Rightarrow> string \<Rightarrow> layer_base \<Rightarrow> layer_head tx" where
  "create_layer L layer base =
     tx_bind (tx_read validate_format) (\<lambda>_.
     tx_bind (prepare_checkpoint L base [] [] None) (\<lambda>empty.
     create_in layer empty))"

definition clone_layer :: "codecs \<Rightarrow> string \<Rightarrow> object_id \<Rightarrow> layer_head tx" where
  "clone_layer L layer checkpoint =
     tx_bind (tx_read validate_format) (\<lambda>_.
     tx_bind (tx_read (checkpoint_in L checkpoint)) (\<lambda>frozen.
     create_in layer \<lparr>ca_id = checkpoint, ca_changes = lc_changes frozen, ca_provenance = lc_provenance frozen\<rparr>))"

definition capture_layer ::
  "codecs \<Rightarrow> provenance option \<Rightarrow> string \<Rightarrow> layer_head \<Rightarrow> changes \<Rightarrow> layer_update tx" where
  "capture_layer L provenance operation expected changes =
     tx_bind (tx_read validate_format) (\<lambda>_.
     tx_bind (tx_read (verify_head expected)) (\<lambda>_.
     tx_bind (tx_read (refuse_published_in L operation (lh_layer expected))) (\<lambda>_.
     tx_bind (tx_read (checkpoint_in L (lh_checkpoint expected))) (\<lambda>before.
     tx_bind (prepare_checkpoint L (lc_base before) changes (lc_sources before) provenance) (\<lambda>candidate.
     update_in L operation expected candidate False None None)))))"

definition discard_layer :: "codecs \<Rightarrow> string \<Rightarrow> layer_head \<Rightarrow> layer_update tx" where
  "discard_layer L operation expected =
     tx_bind (tx_read validate_format) (\<lambda>_.
     tx_bind (tx_read (verify_head expected)) (\<lambda>_.
     tx_bind (tx_read (refuse_published_in L operation (lh_layer expected))) (\<lambda>_.
     update_in L operation expected \<lparr>ca_id = lh_checkpoint expected, ca_changes = [], ca_provenance = None\<rparr> True None None)))"

section \<open>Stacks\<close>

definition replay_stack_in ::
  "codecs \<Rightarrow> string \<Rightarrow> layer_head \<Rightarrow> object_id \<Rightarrow> object_id option \<Rightarrow> db \<Rightarrow> error + layer_update option" where
  "replay_stack_in L operation expected source resolution d =
     (case layer_attempt_row_in operation d of
       None \<Rightarrow> Inr None
     | Some row \<Rightarrow>
         if la_layer row \<noteq> lh_layer expected \<or> la_expected row \<noteq> version_sql (lh_revision expected)
         then Inl (OperationIdReused operation)
         else
           ebind (update_outcome L operation d) (\<lambda>outcome.
           if source_in operation d \<noteq> Some source then Inl (OperationIdReused operation)
           else
             ebind (resolution_in L operation d) (\<lambda>stored.
             if stored \<noteq> resolution then Inl (OperationIdReused operation)
             else ebind (verify_head expected d) (\<lambda>_. Inr (Some outcome)))))"

definition stack_operation_resolved ::
  "codecs \<Rightarrow> string \<Rightarrow> layer_head \<Rightarrow> object_id \<Rightarrow> object_id option \<Rightarrow> db \<Rightarrow> error + layer_update option" where
  "stack_operation_resolved L operation expected source resolution d =
     ebind (validate_format d) (\<lambda>_. replay_stack_in L operation expected source resolution d)"

definition stack_operation :: "codecs \<Rightarrow> string \<Rightarrow> layer_head \<Rightarrow> object_id \<Rightarrow> db \<Rightarrow> error + layer_update option" where
  "stack_operation L operation expected source = stack_operation_resolved L operation expected source None"

definition commit_stack_resolved ::
  "codecs \<Rightarrow> provenance option \<Rightarrow> string \<Rightarrow> layer_head \<Rightarrow> object_id \<Rightarrow> changes \<Rightarrow> object_id option \<Rightarrow> layer_update tx" where
  "commit_stack_resolved L provenance operation expected source changes resolution =
     tx_bind (tx_read validate_format) (\<lambda>_.
     tx_bind (tx_read (verify_head expected)) (\<lambda>_.
     tx_bind (tx_read (refuse_published_in L operation (lh_layer expected))) (\<lambda>_.
     tx_bind (tx_read (checkpoint_in L source)) (\<lambda>_.
     tx_bind (tx_read (checkpoint_in L (lh_checkpoint expected))) (\<lambda>before.
     tx_bind (prepare_checkpoint L (lc_base before) changes (oset_of (lc_sources before @ [source])) provenance) (\<lambda>candidate.
     update_in L operation expected candidate False (Some source) resolution))))))"

definition commit_stack ::
  "codecs \<Rightarrow> provenance option \<Rightarrow> string \<Rightarrow> layer_head \<Rightarrow> object_id \<Rightarrow> changes \<Rightarrow> layer_update tx" where
  "commit_stack L provenance operation expected source changes =
     commit_stack_resolved L provenance operation expected source changes None"

section \<open>Publishing by one writer\<close>

definition publish_alone ::
  "codecs \<Rightarrow> (world_version \<Rightarrow> changes \<Rightarrow> error + unit) \<Rightarrow> string \<Rightarrow> layer_head \<Rightarrow> publish_attribution \<Rightarrow> publication_receipt option tx" where
  "publish_alone L guard' operation expected attribution d = publish_round L guard' operation expected attribution d d"

end
