(* ===== verification/LineBlame.thy ===== *)
theory LineBlame
  imports Prelude
begin

text \<open>
  The line correspondence of trace blame (\<open>matching\<close>, \<open>myers\<close> and \<open>backtrack\<close> of \<open>src/blame.rs\<close>): Myers' greedy diff with
  a limit on the edits. Indices that the code keeps as \<open>isize\<close> are integers. That it returns a correspondence of
  equal lines in order, whatever the limit, is shown in \<open>Correspondence\<close>.
\<close>

section \<open>Myers' diff\<close>

text \<open>The vector \<open>V\<close>, indexed from \<open>- offset\<close>.\<close>

definition vec_at :: "int \<Rightarrow> int list \<Rightarrow> int \<Rightarrow> int" where
  "vec_at offset v k = v ! nat (offset + k)"

text \<open>The diagonal run from \<open>x\<close> on diagonal \<open>k\<close>.\<close>

function slide :: "nat list \<Rightarrow> nat list \<Rightarrow> int \<Rightarrow> int \<Rightarrow> int" where
  "slide a b k x =
     (if 0 \<le> x \<and> 0 \<le> x - k \<and> x < int (length a) \<and> x - k < int (length b) \<and> a ! nat x = b ! nat (x - k)
      then slide a b k (x + 1) else x)"
  by pat_completeness auto
termination by (relation "measure (\<lambda>(a, b, k, x). nat (int (length a) - x))") auto

declare slide.simps [simp del]

definition goes_down :: "(int \<Rightarrow> int) \<Rightarrow> int \<Rightarrow> int \<Rightarrow> bool" where
  "goes_down at d k \<longleftrightarrow> k = - d \<or> (k \<noteq> d \<and> at (k - 1) < at (k + 1))"

definition step_start :: "(int \<Rightarrow> int) \<Rightarrow> int \<Rightarrow> int \<Rightarrow> int" where
  "step_start at d k = (if goes_down at d k then at (k + 1) else at (k - 1) + 1)"

definition recorded_vec :: "int \<Rightarrow> int \<Rightarrow> int list \<Rightarrow> int list" where
  "recorded_vec offset d v = take (nat (2 * d + 1)) (drop (nat (offset - d)) v)"

text \<open>The diagonals of one step, \<open>(-d..=d).step_by(2)\<close>; true when both ends are reached.\<close>

fun step_diagonals :: "nat list \<Rightarrow> nat list \<Rightarrow> int \<Rightarrow> int \<Rightarrow> int list \<Rightarrow> int list \<Rightarrow> int list \<times> bool" where
  "step_diagonals a b offset d [] v = (v, False)"
| "step_diagonals a b offset d (k # ks) v =
     (let x = slide a b k (step_start (vec_at offset v) d k);
          v = v[nat (offset + k) := x]
      in if x \<ge> int (length a) \<and> x - k \<ge> int (length b) then (v, True) else step_diagonals a b offset d ks v)"

definition diagonals :: "nat \<Rightarrow> int list" where
  "diagonals d = map (\<lambda>i. 2 * int i - int d) [0 ..< Suc d]"

text \<open>The walk back, from the last step: at step \<open>d\<close> the vector of step \<open>d - 1\<close> says where it began.\<close>

definition previous_at :: "int list list \<Rightarrow> nat \<Rightarrow> int \<Rightarrow> int \<times> int" where
  "previous_at trace d k =
     (if d = 0 then (0, 0)
      else
        let prev = trace ! (d - 1); at = (\<lambda>k. prev ! nat (k + int d - 1));
            prev_k = (if goes_down at (int d) k then k + 1 else k - 1)
        in (at prev_k, at prev_k - prev_k))"

function slide_back :: "int \<Rightarrow> int \<Rightarrow> int \<Rightarrow> int \<Rightarrow> (nat \<times> nat) list" where
  "slide_back prev_x prev_y x y =
     (if x > prev_x \<and> y > prev_y then (nat (x - 1), nat (y - 1)) # slide_back prev_x prev_y (x - 1) (y - 1) else [])"
  by pat_completeness auto
termination by (relation "measure (\<lambda>(px, py, x, y). nat (x - px))") auto

declare slide_back.simps [simp del]

text \<open>\<open>(0..trace.len()).rev()\<close>, here from the number of steps left; the pairs come last to first.\<close>

fun backtrack_loop :: "int list list \<Rightarrow> nat \<Rightarrow> int \<Rightarrow> int \<Rightarrow> (nat \<times> nat) list" where
  "backtrack_loop trace 0 x y = []"
| "backtrack_loop trace (Suc d) x y =
     (case previous_at trace d (x - y) of (prev_x, prev_y) \<Rightarrow>
        slide_back prev_x prev_y x y @ backtrack_loop trace d prev_x prev_y)"

definition backtrack :: "int list list \<Rightarrow> nat \<Rightarrow> nat \<Rightarrow> (nat \<times> nat) list" where
  "backtrack trace n m = rev (backtrack_loop trace (length trace) (int n) (int m))"

text \<open>The steps \<open>d..=max\<close>.\<close>

fun myers_loop :: "nat list \<Rightarrow> nat list \<Rightarrow> int \<Rightarrow> nat \<Rightarrow> nat \<Rightarrow> int list \<Rightarrow> int list list \<Rightarrow> (nat \<times> nat) list" where
  "myers_loop a b offset d 0 v trace = []"
| "myers_loop a b offset d (Suc steps) v trace =
     (case step_diagonals a b offset (int d) (diagonals d) v of (v, reached) \<Rightarrow>
        let trace = trace @ [recorded_vec offset (int d) v]
        in if reached then backtrack trace (length a) (length b)
           else myers_loop a b offset (Suc d) steps v trace)"

definition myers :: "nat list \<Rightarrow> nat list \<Rightarrow> nat \<Rightarrow> (nat \<times> nat) list" where
  "myers a b limit =
     (let max' = min (length a + length b) limit; offset = int max' + 1
      in myers_loop a b offset 0 (Suc max') (replicate (nat (2 * offset + 1)) 0) [])"

section \<open>Matching lines\<close>

definition MAX_EDITS :: nat where "MAX_EDITS = 2048"

fun common_prefix :: "'a list \<Rightarrow> 'a list \<Rightarrow> nat" where
  "common_prefix (x # xs) (y # ys) = (if x = y then Suc (common_prefix xs ys) else 0)"
| "common_prefix _ _ = 0"

text \<open>Lines interned as their number in the order of first occurrence.\<close>

fun intern_line :: "'a \<Rightarrow> 'a list \<Rightarrow> nat" where
  "intern_line line [] = 0"
| "intern_line line (x # ids) = (if x = line then 0 else Suc (intern_line line ids))"

fun intern :: "'a list \<Rightarrow> 'a list \<Rightarrow> nat list \<times> 'a list" where
  "intern [] ids = ([], ids)"
| "intern (line # rest) ids =
     (case intern rest (if line \<in> set ids then ids else ids @ [line]) of (numbers, ids') \<Rightarrow>
        (intern_line line (if line \<in> set ids then ids else ids @ [line]) # numbers, ids'))"

definition middle :: "nat \<Rightarrow> nat \<Rightarrow> 'a list \<Rightarrow> 'a list" where
  "middle prefix' suffix' xs = take (length xs - suffix' - prefix') (drop prefix' xs)"

definition matching :: "'a list \<Rightarrow> 'a list \<Rightarrow> nat option list" where
  "matching old new =
     (let prefix' = common_prefix old new;
          suffix' = common_prefix (rev (drop prefix' old)) (rev (drop prefix' new));
          result = replicate (length new) None;
          result = fold (\<lambda>i r. r[i := Some i]) [0 ..< prefix'] result;
          result = fold (\<lambda>k r. r[length new - 1 - k := Some (length old - 1 - k)]) [0 ..< suffix'] result;
          (a, ids) = intern (middle prefix' suffix' old) [];
          (b, _) = intern (middle prefix' suffix' new) ids
      in fold (\<lambda>(i, j) r. r[prefix' + j := Some (prefix' + i)]) (myers a b MAX_EDITS) result)"

end
