(* ===== verification/Radars.thy ===== *)
theory Radars
  imports LayerOps LineBlame
begin

text \<open>
  The collision radar (\<open>src/radar.rs\<close>), trace blame (\<open>src/blame.rs\<close>) and the full check of a repository (\<open>check\<close> of
  \<open>src/repository.rs\<close>), which rebuilds both from the history of the Layers.
\<close>

section \<open>Radar\<close>

record radar_report =
  ra_head :: layer_head
  ra_base :: "64 word"
  ra_version :: "64 word"
  ra_paths :: "string list"
  ra_layers :: pairs

definition radar_clear :: "radar_report \<Rightarrow> bool" where
  "radar_clear r \<longleftrightarrow> ra_paths r = [] \<and> ra_layers r = []"

definition radar :: "codecs \<Rightarrow> string \<Rightarrow> db \<Rightarrow> error + radar_report" where
  "radar L layer d =
     ebind (validate_format d) (\<lambda>_.
     ebind (layer_state_in L layer d) (\<lambda>state.
     case state of
       Active head \<Rightarrow>
         ebind (checkpoint_in L (lh_checkpoint head) d) (\<lambda>checkpoint.
           let base = lb_version (lc_base checkpoint) in
         ebind (head_in d) (\<lambda>now.
         ebind (tree_in base d) (\<lambda>base_root.
         ebind (tree_in (wv_number now) d) (\<lambda>head_root.
         ebind (sql_read (co_env L)
                  (\<lambda>s. tree_intersections (en_sha (co_env L)) s base_root head_root (lc_changes checkpoint)) d) (\<lambda>paths.
         ebind (collisions (index_in (co_env L) d base) (live_in d) layer (lc_changes checkpoint)) (\<lambda>layers.
         Inr \<lparr>ra_head = head, ra_base = base, ra_version = wv_number now, ra_paths = paths, ra_layers = layers\<rparr>))))))
     | _ \<Rightarrow> Inl (InvalidInput ''Layer is not active'')))"

text \<open>One Layer's indexed rows against its history; the number of rows it should have.\<close>

definition derived_attribution :: "codecs \<Rightarrow> db \<Rightarrow> string \<Rightarrow> checkpoints \<Rightarrow> error + path_attribution \<times> checkpoints" where
  "derived_attribution L d layer seen =
     ebind (layer_state_in L layer d) (\<lambda>state.
     case state of
       Active head \<Rightarrow> attribution_in L d True layer (lh_revision head) seen
     | _ \<Rightarrow> Inr ([], seen))"

fun check_index :: "codecs \<Rightarrow> db \<Rightarrow> string list \<Rightarrow> nat \<Rightarrow> checkpoints \<Rightarrow> error + nat \<times> checkpoints" where
  "check_index L d [] expected seen = Inr (expected, seen)"
| "check_index L d (layer # layers) expected seen =
     ebind (derived_attribution L d layer seen) (\<lambda>(derived, seen).
     ebind (tracked_in layer d) (\<lambda>tracked.
     if length tracked \<noteq> length derived \<or> list_ex (\<lambda>(path, row). map_of tracked path \<noteq> Some row) derived
     then Inl (CorruptRepository (''Layer path index disagrees with Layer '' @ layer))
     else check_index L d layers (expected + length derived) seen))"

definition check_radar :: "codecs \<Rightarrow> db \<Rightarrow> checkpoints \<Rightarrow> error + checkpoints" where
  "check_radar L d seen =
     ebind (check_index L d (layer_names d) 0 seen) (\<lambda>(expected, seen).
     if length (db_paths d) \<noteq> expected then Inl (CorruptRepository ''Layer path index names an unknown Layer'')
     else Inr seen)"

section \<open>Blame\<close>

record origin =
  og_version :: world_version
  og_layer :: "string option"
  og_checkpoint :: "object_id option"
  og_provenance :: "provenance option"

record path_blame =
  pb_path :: string
  pb_entry :: "file_entry option"
  pb_origin :: origin

record blame_line =
  bl_number :: nat
  bl_origin :: nat
  bl_text :: string

record line_blame =
  lm_path :: string
  lm_version :: "64 word"
  lm_origins :: "origin list"
  lm_lines :: "blame_line list"

definition optional_provenance :: "codecs \<Rightarrow> db \<Rightarrow> object_id option \<Rightarrow> error + provenance option" where
  "optional_provenance L d i =
     (case i of None \<Rightarrow> Inr None | Some p \<Rightarrow> ebind (read_provenance L d p) (\<lambda>p. Inr (Some p)))"

definition origin_in :: "codecs \<Rightarrow> db \<Rightarrow> string \<Rightarrow> 64 word \<Rightarrow> error + origin" where
  "origin_in L d path version =
     ebind (version_in version d) (\<lambda>version.
       let row = find_row (\<lambda>r. br_path r = path \<and> br_version r = version_sql (wv_number version)) (db_blame d);
           layer = Option.bind (wv_operation version) (\<lambda>operation.
             map_option pu_layer (find_row (\<lambda>r. pu_id r = operation \<and> pu_outcome r = 1) (db_publications d))) in
     ebind (optional_provenance L d (Option.bind row br_provenance)) (\<lambda>provenance.
     Inr \<lparr>og_version = version, og_layer = layer, og_checkpoint = map_option br_checkpoint row, og_provenance = provenance\<rparr>))"

text \<open>\<open>WHERE path=?1 AND version<=?2 ORDER BY version\<close>.\<close>

definition path_changes :: "string \<Rightarrow> 64 word \<Rightarrow> db \<Rightarrow> change_row list" where
  "path_changes path at d =
     sort_key cr_version (filter (\<lambda>r. cr_path r = path \<and> cr_version r \<le> version_sql at) (db_changes d))"

definition blame_at :: "64 word option \<Rightarrow> db \<Rightarrow> error + 64 word" where
  "blame_at at d =
     (case at of
       Some version \<Rightarrow> ebind (version_in version d) (\<lambda>v. Inr (wv_number v))
     | None \<Rightarrow> ebind (head_in d) (\<lambda>v. Inr (wv_number v)))"

definition blame :: "codecs \<Rightarrow> string \<Rightarrow> 64 word option \<Rightarrow> db \<Rightarrow> error + path_blame option" where
  "blame L path at d =
     ebind (validate_format d) (\<lambda>_.
     ebind (blame_at at d) (\<lambda>at.
     case rev (path_changes path at d) of
       [] \<Rightarrow> Inr None
     | row # _ \<Rightarrow>
         ebind (decode_entry (cr_kind row) (cr_content row)) (\<lambda>entry.
         ebind (version_decode (cr_version row)) (\<lambda>version.
         ebind (origin_in L d path version) (\<lambda>origin.
         Inr (Some \<lparr>pb_path = path, pb_entry = entry, pb_origin = origin\<rparr>))))))"

text \<open>\<open>split_inclusive(|&b| b == b'\n')\<close>.\<close>

fun split_lines :: "bytes \<Rightarrow> bytes list" where
  "split_lines [] = []"
| "split_lines (b # bs) =
     (if b = CHR ''\<newline>'' then [b] # split_lines bs
      else (case split_lines bs of [] \<Rightarrow> [[b]] | line # rest \<Rightarrow> (b # line) # rest))"

text \<open>\<open>String::from_utf8_lossy\<close>: each maximal prefix of an invalid sequence becomes U+FFFD.\<close>

definition bad_length :: "bytes \<Rightarrow> nat" where
  "bad_length bs =
     (case bs of
       b0 # b1 # rest \<Rightarrow>
         if (b0 = CHR 0xE0 \<and> u8_in b1 160 191) \<or> (u8_in b0 225 236 \<and> u8_in b1 128 191)
            \<or> (b0 = CHR 0xED \<and> u8_in b1 128 159) \<or> (u8_in b0 238 239 \<and> u8_in b1 128 191) then 2
         else if (b0 = CHR 0xF0 \<and> u8_in b1 144 191) \<or> (u8_in b0 241 243 \<and> u8_in b1 128 191)
            \<or> (b0 = CHR 0xF4 \<and> u8_in b1 128 143) then (case rest of b2 # _ \<Rightarrow> if u8_in b2 128 191 then 3 else 2 | [] \<Rightarrow> 2)
         else 1
     | _ \<Rightarrow> 1)"

function utf8_lossy :: "bytes \<Rightarrow> string" where
  "utf8_lossy bs =
     (if bs = [] then []
      else if utf8_head bs > 0 then take (utf8_head bs) bs @ utf8_lossy (drop (utf8_head bs) bs)
      else [CHR 0xEF, CHR 0xBF, CHR 0xBD] @ utf8_lossy (drop (bad_length bs) bs))"
  by pat_completeness auto
termination
  by (relation "measure length") (auto simp: bad_length_def split: list.splits)

declare utf8_lossy.simps [simp del]

definition line_text :: "bytes \<Rightarrow> string" where
  "line_text line = utf8_lossy (if line \<noteq> [] \<and> last line = CHR ''\<newline>'' then butlast line else line)"

type_synonym path_log = "(64 word \<times> file_entry option) list"

definition path_log_in :: "string \<Rightarrow> 64 word \<Rightarrow> db \<Rightarrow> error + path_log" where
  "path_log_in path at d =
     emap (\<lambda>row.
       ebind (version_decode (cr_version row)) (\<lambda>version.
       ebind (decode_entry (cr_kind row) (cr_content row)) (\<lambda>entry. Inr (version, entry)))) (path_changes path at d)"

text \<open>The entries after the last deletion, from index \<open>start\<close> on.\<close>

definition live_from :: "path_log \<Rightarrow> nat" where
  "live_from log =
     (case filter (\<lambda>i. snd (log ! i) = None) [0 ..< length log] of [] \<Rightarrow> 0 | is \<Rightarrow> Suc (last is))"

text \<open>Each line's owner, an index of the log, from one version of the file to the next.\<close>

definition carry_owners :: "bytes \<Rightarrow> bytes \<Rightarrow> nat list \<Rightarrow> nat \<Rightarrow> nat list" where
  "carry_owners previous next' owners index =
     map (\<lambda>from'. case from' of None \<Rightarrow> index | Some i \<Rightarrow> owners ! i) (matching (split_lines previous) (split_lines next'))"

fun own_lines :: "codecs \<Rightarrow> db \<Rightarrow> nat \<Rightarrow> path_log \<Rightarrow> bytes \<Rightarrow> nat list \<Rightarrow> error + bytes \<times> nat list" where
  "own_lines L d index [] previous owners = Inr (previous, owners)"
| "own_lines L d index ((version, entry) # log) previous owners =
     (case entry of
       None \<Rightarrow> Inl (CorruptRepository ''panic: live after last deletion'')
     | Some e \<Rightarrow>
         ebind (read_object (co_env L) d (entry_content e) Blob) (\<lambda>bytes.
         own_lines L d (Suc index) log bytes (carry_owners previous bytes owners index)))"

definition blame_lines :: "codecs \<Rightarrow> string \<Rightarrow> 64 word option \<Rightarrow> db \<Rightarrow> error + line_blame option" where
  "blame_lines L path at d =
     ebind (validate_format d) (\<lambda>_.
     ebind (blame_at at d) (\<lambda>at.
     ebind (path_log_in path at d) (\<lambda>log.
     if log = [] \<or> snd (last log) = None then Inr None
     else
       let start = live_from log in
       ebind (own_lines L d start (drop start log) [] []) (\<lambda>(content, owners).
         let slots = oset_of owners in
         ebind (emap (\<lambda>owner. origin_in L d path (fst (log ! owner))) slots) (\<lambda>origins.
         Inr (Some \<lparr>lm_path = path, lm_version = at, lm_origins = origins,
           lm_lines = map (\<lambda>(i, line, owner).
             \<lparr>bl_number = i + 1, bl_origin = length (takeWhile (\<lambda>o'. o' \<noteq> owner) slots), bl_text = line_text line\<rparr>)
             (zip [0 ..< length owners] (zip (split_lines content) owners))\<rparr>))))))"

text \<open>Every successful publication's attribution, from its Layer's history.\<close>

definition blame_row_ok :: "db \<Rightarrow> int \<Rightarrow> path_attribution \<Rightarrow> string \<Rightarrow> error + unit" where
  "blame_row_ok d version derived path =
     ebind (ok_or (corrupt ''published path has no Layer attribution'') (map_of derived path)) (\<lambda>(_, checkpoint, provenance).
     guard (map_option (\<lambda>r. (br_checkpoint r, br_provenance r))
              (find_row (\<lambda>r. br_version r = version \<and> br_path r = path) (db_blame d)) = Some (checkpoint, provenance))
       (corrupt ''blame disagrees with Layer history''))"

fun check_blame_rows :: "codecs \<Rightarrow> db \<Rightarrow> publication_row list \<Rightarrow> nat \<Rightarrow> checkpoints \<Rightarrow> error + nat \<times> checkpoints" where
  "check_blame_rows L d [] expected seen = Inr (expected, seen)"
| "check_blame_rows L d (row # rows) expected seen =
     (if pu_expected row < 0 then Inl (corrupt ''invalid revision'')
      else
        ebind (attribution_in L d True (pu_layer row) (word_of_int (pu_expected row)) seen) (\<lambda>(derived, seen).
        ebind (version_decode (the (pu_result row))) (\<lambda>version.
        ebind (changeset_in version d) (\<lambda>changes.
        ebind (emap (blame_row_ok d (the (pu_result row)) derived) (map fst changes)) (\<lambda>_.
        check_blame_rows L d rows (expected + length changes) seen)))))"

definition check_blame :: "codecs \<Rightarrow> db \<Rightarrow> checkpoints \<Rightarrow> error + checkpoints" where
  "check_blame L d seen =
     (let published = sort_key (\<lambda>r. the (pu_result r)) (filter (\<lambda>r. pu_outcome r = 1) (db_publications d)) in
      if list_ex (\<lambda>r. pu_result r = None) published then Inl (CorruptRepository ''Invalid column type Null'')
      else
        ebind (check_blame_rows L d published 0 seen) (\<lambda>(expected, seen).
        if length (db_blame d) \<noteq> expected then Inl (corrupt ''blame names an unpublished change'') else Inr seen))"

section \<open>Checking a repository\<close>

record integrity_report =
  ir_layers :: nat
  ir_versions :: nat
  ir_objects :: nat
  ir_attempts :: nat

definition validate_state :: "codecs \<Rightarrow> db \<Rightarrow> checkpoints \<Rightarrow> error + world_version list \<times> checkpoints" where
  "validate_state L d seen =
     ebind (validate_format d) (\<lambda>_.
     ebind (history_in (co_env L) d) (\<lambda>history.
     ebind (check_layers L d True seen) (\<lambda>(_, seen).
     ebind (check_stacks L d) (\<lambda>_.
     ebind (check_publications L d) (\<lambda>_.
     ebind (check_radar L d seen) (\<lambda>seen.
     ebind (check_blame L d seen) (\<lambda>seen.
     Inr (history, seen))))))))"

definition history :: "codecs \<Rightarrow> db \<Rightarrow> error + world_version list" where
  "history L d = ebind (validate_state L d []) (\<lambda>(history, _). Inr history)"

definition check_object :: "codecs \<Rightarrow> db \<Rightarrow> object_row \<Rightarrow> checkpoints \<Rightarrow> error + checkpoints" where
  "check_object L d row seen =
     ebind (kind_decode (or_kind row)) (\<lambda>kind.
     case kind of
       Blob \<Rightarrow> ebind (read_object (co_env L) d (or_id row) Blob) (\<lambda>_. Inr seen)
     | ManifestKind \<Rightarrow> ebind (manifest_in (co_env L) (or_id row) d) (\<lambda>_. Inr seen)
     | Checkpoint \<Rightarrow> ebind (read_checkpoint_with L d True (or_id row) seen) (\<lambda>(_, seen). Inr seen)
     | Tree \<Rightarrow>
         ebind (read_object (co_env L) d (or_id row) Tree) (\<lambda>bytes.
         ebind (emap_err (\<lambda>_. CorruptObject (or_id row)) (chunk_decode bytes)) (\<lambda>_. Inr seen)))"

fun check_objects :: "codecs \<Rightarrow> db \<Rightarrow> object_row list \<Rightarrow> checkpoints \<Rightarrow> error + checkpoints" where
  "check_objects L d [] seen = Inr seen"
| "check_objects L d (row # rows) seen = ebind (check_object L d row seen) (\<lambda>seen. check_objects L d rows seen)"

text \<open>\<open>check\<close>, after SQLite's own integrity check of the file.\<close>

definition refers :: "'a set \<Rightarrow> 'a option \<Rightarrow> bool" where
  "refers keys reference = (case reference of None \<Rightarrow> True | Some x \<Rightarrow> x \<in> keys)"

definition foreign_keys_ok :: "db \<Rightarrow> bool" where
  "foreign_keys_ok d \<longleftrightarrow>
     (let objects = set (map or_id (db_objects d)); versions = set (map vr_number (db_versions d));
          attempts = set (map ar_id (db_attempts d)); heads = set (map (\<lambda>r. (hr_layer r, hr_revision r)) (db_heads d));
          operations = set (map la_id (db_layer_attempts d)) in
      list_all (\<lambda>r. ar_expected r \<in> versions \<and> ar_result r \<in> versions \<and> refers objects (ar_tree r)) (db_attempts d)
      \<and> list_all (\<lambda>r. vr_tree r \<in> objects \<and> refers attempts (vr_operation r)) (db_versions d)
      \<and> list_all (\<lambda>r. cr_version r \<in> versions \<and> refers objects (cr_content r)) (db_changes d)
      \<and> list_all (\<lambda>r. hr_checkpoint r \<in> objects \<and> refers operations (hr_operation r)) (db_heads d)
      \<and> list_all (\<lambda>r. la_checkpoint r \<in> objects \<and> (la_layer r, la_expected r) \<in> heads \<and> (la_layer r, la_result r) \<in> heads)
           (db_layer_attempts d)
      \<and> list_all (\<lambda>r. pu_checkpoint r \<in> objects \<and> pu_against r \<in> versions \<and> refers objects (pu_context r)
             \<and> refers (set (map pu_id (db_publications d))) (pu_observed_publication r) \<and> refers versions (pu_result r)
             \<and> refers attempts (pu_world_operation r) \<and> pu_receipt r \<in> objects
             \<and> (pu_layer r, pu_expected r) \<in> heads \<and> (pu_layer r, pu_observed r) \<in> heads) (db_publications d)
      \<and> list_all (\<lambda>r. sr_id r \<in> operations \<and> sr_source r \<in> objects \<and> sr_binding r \<in> objects) (db_stacks d)
      \<and> list_all (\<lambda>r. refers objects (pr_content r) \<and> pr_checkpoint r \<in> objects \<and> refers objects (pr_provenance r)) (db_paths d)
      \<and> list_all (\<lambda>r. br_version r \<in> versions \<and> br_checkpoint r \<in> objects \<and> refers objects (br_provenance r)) (db_blame d))"

definition check_repository :: "codecs \<Rightarrow> db \<Rightarrow> error + integrity_report" where
  "check_repository L d =
     ebind (validate_format d) (\<lambda>_.
     if \<not> foreign_keys_ok d then Inl (CorruptRepository ''invalid foreign-key references'')
     else
       ebind (validate_state L d []) (\<lambda>(history, seen).
       ebind (check_objects L d (sort_key or_id (db_objects d)) seen) (\<lambda>seen.
       ebind (check_layers L d True seen) (\<lambda>(layers, _).
       Inr \<lparr>ir_layers = layers, ir_versions = length history, ir_objects = length (db_objects d),
            ir_attempts = length (db_attempts d)\<rparr>))))"

text \<open>A new repository that adopts a directory also has an empty Layer on World 0.\<close>

definition initial_adopting :: "codecs \<Rightarrow> object_id \<Rightarrow> string \<Rightarrow> error + db" where
  "initial_adopting L identity layer =
     ebind (initial_db (co_env L) identity) (\<lambda>d. ebind (create_on_version_in L layer 0 d) (\<lambda>(_, d). Inr d))"

end
