(* ===== verification/Intersections.thy ===== *)
theory Intersections
  imports Versions
begin

text \<open>
  What \<open>Trees::intersections\<close> finds (\<open>src/tree.rs\<close>), on which publication and the radar decide: between two snapshots, the
  ends of every pair of a changed path and a path whose entry differs where one is the other or lies above or below it.
\<close>

section \<open>The reference\<close>

definition touches :: "string \<Rightarrow> string \<Rightarrow> bool" where
  "touches p q \<longleftrightarrow> p = q \<or> below p q \<or> below q p"

definition clashing :: "file_entry paths \<Rightarrow> file_entry paths \<Rightarrow> string set \<Rightarrow> string set" where
  "clashing f g P = {x. \<exists>p \<in> P. \<exists>q. f q \<noteq> g q \<and> touches p q \<and> (x = p \<or> x = q)}"

section \<open>By first name\<close>

definition under :: "string set \<Rightarrow> string \<Rightarrow> string set" where
  "under P n = {q. n @ CHR ''/'' # q \<in> P}"

lemma touches_name: "plain n \<Longrightarrow> touches n q \<longleftrightarrow> q = n \<or> (\<exists>t. q = n @ CHR ''/'' # t)"
  by (auto simp: touches_def below_iff)

lemma touches_below:
  assumes "plain n"
  shows "touches (n @ CHR ''/'' # r) q \<longleftrightarrow> q = n \<or> (\<exists>t. q = n @ CHR ''/'' # t \<and> touches r t)"
proof (cases q rule: path_cases)
  case name
  then have "below q (n @ CHR ''/'' # r) \<longleftrightarrow> q = n" using assms by (auto simp: below_iff slash_eq)
  then show ?thesis using name by (auto simp: touches_def below_iff)
next
  case (below m t)
  have "below q (n @ CHR ''/'' # r) \<longleftrightarrow> m = n \<and> below t r"
  proof -
    have "n @ CHR ''/'' # r = m @ CHR ''/'' # (t @ CHR ''/'' # s) \<longleftrightarrow> n = m \<and> r = t @ CHR ''/'' # s" for s
      using slash_eq [OF assms below(1)] .
    then show ?thesis unfolding below(2) below_iff by auto
  qed
  moreover have "below (n @ CHR ''/'' # r) q \<longleftrightarrow> m = n \<and> below r t"
  proof -
    have "m @ CHR ''/'' # t = n @ CHR ''/'' # (r @ CHR ''/'' # s) \<longleftrightarrow> m = n \<and> t = r @ CHR ''/'' # s" for s
      using slash_eq [OF below(1) assms] .
    then show ?thesis unfolding below(2) below_iff by auto
  qed
  moreover have "q \<noteq> n" using below assms by auto
  ultimately show ?thesis using slash_eq [OF assms below(1)] slash_eq [OF below(1) assms] below(2)
    unfolding touches_def by auto
qed

definition clash_at :: "file_entry paths \<Rightarrow> file_entry paths \<Rightarrow> string set \<Rightarrow> string \<Rightarrow> string set" where
  "clash_at f g P n = {x. \<exists>p \<in> P. first_name p = n \<and> (\<exists>q. f q \<noteq> g q \<and> touches p q \<and> (x = p \<or> x = q))}"

lemma clashing_names: "clashing f g P = (\<Union>n \<in> first_name ` P. clash_at f g P n)"
  unfolding clashing_def clash_at_def by blast

text \<open>What the code collects for one name: for the name itself when it is changed, and for the changed paths below.\<close>

definition found_at :: "file_entry paths \<Rightarrow> file_entry paths \<Rightarrow> string \<Rightarrow> string set" where
  "found_at f g n = (if f n \<noteq> g n then {n} else {})
     \<union> (if sub f n \<noteq> sub g n then insert n {n @ CHR ''/'' # r |r. sub f n r \<noteq> sub g n r} else {})"

definition found_below :: "file_entry paths \<Rightarrow> file_entry paths \<Rightarrow> string \<Rightarrow> string set \<Rightarrow> string set" where
  "found_below f g n R = (if f n \<noteq> g n \<and> R \<noteq> {} then insert n {n @ CHR ''/'' # r |r. r \<in> R} else {})
     \<union> (\<lambda>r. n @ CHR ''/'' # r) ` clashing (sub f n) (sub g n) R"

lemma clash_self:
  assumes "plain n"
  shows "{x. \<exists>q. f q \<noteq> g q \<and> touches n q \<and> (x = n \<or> x = q)} = found_at f g n"
proof -
  have "sub f n \<noteq> sub g n \<longleftrightarrow> (\<exists>r. f (n @ CHR ''/'' # r) \<noteq> g (n @ CHR ''/'' # r))" by (auto simp: fun_eq_iff)
  then show ?thesis unfolding found_at_def touches_name [OF assms] by (auto split: if_splits)
qed

lemma clash_below:
  assumes "plain n"
  shows "{x. \<exists>r \<in> R. \<exists>q. f q \<noteq> g q \<and> touches (n @ CHR ''/'' # r) q \<and> (x = n @ CHR ''/'' # r \<or> x = q)} = found_below f g n R"
  unfolding found_below_def clashing_def touches_below [OF assms] by (auto split: if_splits)

lemma clash_at_eq:
  assumes "plain n"
  shows "clash_at f g P n = (if n \<in> P then found_at f g n else {}) \<union> found_below f g n (under P n)"
proof -
  have p: "first_name p = n \<longleftrightarrow> p = n \<or> (\<exists>r. p = n @ CHR ''/'' # r)" for p
    using assms by (cases p rule: path_cases) (auto simp: first_name_simps slash_eq)
  have "clash_at f g P n = (if n \<in> P then {x. \<exists>q. f q \<noteq> g q \<and> touches n q \<and> (x = n \<or> x = q)} else {})
      \<union> {x. \<exists>r \<in> under P n. \<exists>q. f q \<noteq> g q \<and> touches (n @ CHR ''/'' # r) q \<and> (x = n @ CHR ''/'' # r \<or> x = q)}"
    unfolding clash_at_def p under_def by auto
  then show ?thesis unfolding clash_self [OF assms] clash_below [OF assms] .
qed

section \<open>Groups of changed paths\<close>

lemma group_path_step:
  assumes "omap_ok gs"
  shows "omap_ok (group_path p gs) \<and> fst ` set (group_path p gs) = insert (first_name p) (fst ` set gs)
    \<and> (\<forall>n. plain n \<longrightarrow> map_of (group_path p gs) n =
        (if first_name p \<noteq> n then map_of gs n
         else Some (fst (case map_of gs n of None \<Rightarrow> (False, []) | Some g \<Rightarrow> g) \<or> p = n,
                    snd (case map_of gs n of None \<Rightarrow> (False, []) | Some g \<Rightarrow> g) @ (case split_once p of None \<Rightarrow> [] | Some (_, r) \<Rightarrow> [r]))))"
proof (cases "split_once p")
  case None
  then have "plain p" by (simp add: split_once_None)
  then show ?thesis using assms None
    by (auto simp: group_path_def first_name_def Let_def map_of_omap_insert split: option.split)
next
  case (Some r)
  obtain m q where r: "r = (m, q)" by (cases r)
  then have "plain m" "p = m @ CHR ''/'' # q" using Some by (simp_all add: split_once_iff)
  then show ?thesis using assms Some r
    by (auto simp: group_path_def first_name_def Let_def map_of_omap_insert split: option.split)
qed

lemma group_paths_spec:
  "omap_ok (group_paths ps) \<and> fst ` set (group_paths ps) = first_name ` set ps
   \<and> (\<forall>n exact deeper. plain n \<longrightarrow> map_of (group_paths ps) n = Some (exact, deeper) \<longrightarrow>
        exact = (n \<in> set ps) \<and> set deeper = under (set ps) n)"
proof (induction ps rule: rev_induct)
  case Nil
  then show ?case by (simp add: group_paths_def)
next
  case (snoc p ps)
  have g: "group_paths (ps @ [p]) = group_path p (group_paths ps)" by (simp add: group_paths_def)
  note ok = conjunct1 [OF snoc] and step = group_path_step [OF conjunct1 [OF snoc], of p]
  have keys: "fst ` set (group_paths (ps @ [p])) = first_name ` set (ps @ [p])" using step snoc by (simp add: g)
  have "exact = (n \<in> set (ps @ [p])) \<and> set deeper = under (set (ps @ [p])) n"
    if n: "plain n" and m: "map_of (group_paths (ps @ [p])) n = Some (exact, deeper)" for n exact deeper
  proof (cases "first_name p = n")
    case False
    then have old: "map_of (group_paths ps) n = Some (exact, deeper)" using m step n by (simp add: g)
    have "p \<noteq> n" "\<nexists>r. p = n @ CHR ''/'' # r" using False n by (auto simp: first_name_simps)
    then show ?thesis using old snoc n by (auto simp: under_def)
  next
    case True
    define e where "e = (case map_of (group_paths ps) n of None \<Rightarrow> (False, []) | Some g \<Rightarrow> g)"
    have new: "exact = (fst e \<or> p = n)" "deeper = snd e @ (case split_once p of None \<Rightarrow> [] | Some (_, r) \<Rightarrow> [r])"
      using m step n True by (simp_all add: g e_def)
    have "fst e = (n \<in> set ps) \<and> set (snd e) = under (set ps) n"
    proof (cases "map_of (group_paths ps) n")
      case None
      then have "n \<notin> first_name ` set ps" using snoc by (metis map_of_eq_None_iff)
      moreover have "first_name n = n" "\<And>r. first_name (n @ CHR ''/'' # r) = n" using n by (simp_all add: first_name_simps)
      ultimately have "n \<notin> set ps" "\<And>r. n @ CHR ''/'' # r \<notin> set ps" by (metis image_eqI)+
      then have "n \<notin> set ps" "under (set ps) n = {}" by (simp_all add: under_def)
      then show ?thesis using None by (simp add: e_def)
    next
      case (Some v)
      then show ?thesis using snoc n by (cases v) (simp add: e_def)
    qed
    moreover have "set (case split_once p of None \<Rightarrow> [] | Some (_, r) \<Rightarrow> [r]) = {r. p = n @ CHR ''/'' # r}"
    proof (cases "split_once p")
      case None
      then have "p \<noteq> n @ CHR ''/'' # r" for r by (auto simp: split_once_None)
      then show ?thesis using None by simp
    next
      case (Some v)
      then obtain m q where "v = (m, q)" "plain m" "p = m @ CHR ''/'' # q" by (cases v) (auto simp: split_once_iff)
      moreover from this have "m = n" using True by (simp add: first_name_simps)
      ultimately show ?thesis using Some n by (auto simp: slash_eq)
    qed
    ultimately show ?thesis unfolding new by (auto simp: under_def)
  qed
  then show ?case using step keys by (simp add: g)
qed

section \<open>The walk\<close>

lemma found_same: "f n = g n \<Longrightarrow> sub f n = sub g n \<Longrightarrow> found_at f g n = {} \<and> found_below f g n R = {}"
  by (simp add: found_at_def found_below_def clashing_def)

definition group_found :: "file_entry paths \<Rightarrow> file_entry paths \<Rightarrow> string \<times> bool \<times> string list \<Rightarrow> string set" where
  "group_found f g gr = (case gr of (n, exact, deeper) \<Rightarrow>
     (if exact then found_at f g n else {}) \<union> found_below f g n (set deeper))"

definition intersects :: "(bytes \<Rightarrow> bytes) \<Rightarrow> memory_store \<Rightarrow> nat \<Rightarrow> bool" where
  "intersects sha s fuel \<longleftrightarrow>
     (\<forall>f g is is' r r' pre paths. dir_state sha s is r f \<longrightarrow> dir_state sha s is' r' g \<longrightarrow> within pre f \<longrightarrow> within pre g
        \<longrightarrow> paths \<noteq> [] \<longrightarrow> (\<forall>p \<in> set paths. length p < fuel)
        \<longrightarrow> (\<exists>xs. intersect fuel sha s r r' pre paths = Inr xs \<and> set xs = (@) pre ` clashing f g (set paths)))"

lemma intersectsD:
  "intersects sha s fuel \<Longrightarrow> dir_state sha s is r f \<Longrightarrow> dir_state sha s is' r' g \<Longrightarrow> within pre f \<Longrightarrow> within pre g
   \<Longrightarrow> paths \<noteq> [] \<Longrightarrow> \<forall>p \<in> set paths. length p < fuel
   \<Longrightarrow> \<exists>xs. intersect fuel sha s r r' pre paths = Inr xs \<and> set xs = (@) pre ` clashing f g (set paths)"
  unfolding intersects_def by blast

lemma intersect_each_spec:
  assumes IH: "intersects sha s fuel"
    and st: "dir_state sha s is r f" "dir_state sha s is' r' g" and w: "within pre f" "within pre g"
    and gs: "\<forall>(n, exact, deeper) \<in> set groups. plain n \<and> (\<forall>p \<in> set deeper. length p < fuel)"
  shows "\<exists>xs. intersect_each fuel sha s r r' pre groups = Inr xs \<and> set xs = (@) pre ` (\<Union>(group_found f g ` set groups))"
  using gs
proof (induction groups)
  case Nil
  then show ?case by simp
next
  case (Cons gr groups)
  obtain n exact deeper where gr: "gr = (n, exact, deeper)" by (cases gr)
  have n: "plain n" and short: "\<forall>p \<in> set deeper. length p < fuel" using Cons.prems gr by auto
  obtain others where others: "intersect_each fuel sha s r r' pre groups = Inr others"
      "set others = (@) pre ` (\<Union>(group_found f g ` set groups))"
    using Cons.IH Cons.prems by auto
  have asc: "asc is" "asc is'" and reads: "dir_reads sha s is r" "dir_reads sha s is' r'"
    using st by (simp_all add: dir_state_def dir_ok_def)
  have find: "find_opt sha s r n = Inr (node_at is n)" "find_opt sha s r' n = Inr (node_at is' n)"
    using find_reads [OF reads(1) asc(1)] find_reads [OF reads(2) asc(2)] by simp_all
  let ?b = "node_at is n" and ?a = "node_at is' n"
  have files: "Option.bind ?b node_file = f n" "Option.bind ?a node_file = g n"
    using state_file [OF st(1) n] state_file [OF st(2) n] by simp_all
  have subs: "holds sha s (Option.bind ?b node_dir) (sub f n)" "holds sha s (Option.bind ?a node_dir) (sub g n)"
    using state_sub [OF st(1) n] state_sub [OF st(2) n] by simp_all
  show ?case
  proof (cases "?b = ?a")
    case True
    then have "f n = g n" "sub f n = sub g n" using files subs holds_fun by metis+
    then have "group_found f g gr = {}" using found_same by (simp add: group_found_def gr)
    moreover have "intersect_each fuel sha s r r' pre (gr # groups) = Inr others"
      using True others(1) find by (simp add: gr)
    ultimately show ?thesis using others(2) by simp
  next
    case False
    let ?pre = "pre @ n @ ''/''"
    have w': "within ?pre (sub f n)" "within ?pre (sub g n)" using within_sub w by blast+
    obtain bs as where sts: "dir_state sha s bs (Option.bind ?b node_dir) (sub f n)" "dir_state sha s as (Option.bind ?a node_dir) (sub g n)"
      using holds_state [OF subs(1)] holds_state [OF subs(2)] by blast
    obtain ds where ds: "diff_dir sha s (Option.bind ?b node_dir) (Option.bind ?a node_dir) ?pre = Inr ds" "set ds = differ ?pre (sub f n) (sub g n)"
      using diff_both(1) [of sha s "Option.bind ?b node_dir" "Option.bind ?a node_dir" ?pre] sts w' unfolding dir_diff_def by blast
    have empty: "ds = [] \<longleftrightarrow> sub f n = sub g n"
    proof -
      have "ds = [] \<longleftrightarrow> differ ?pre (sub f n) (sub g n) = {}" using ds(2) by (metis set_empty)
      also have "\<dots> \<longleftrightarrow> sub f n = sub g n" by (auto simp: differ_def fun_eq_iff)
      finally show ?thesis .
    qed
    have fst_ds: "fst ` set ds = (\<lambda>r. pre @ n @ CHR ''/'' # r) ` {r. sub f n r \<noteq> sub g n r}"
      unfolding ds(2) differ_def by (auto simp: image_iff)
    let ?here = "(if exact then (if f n \<noteq> g n then [pre @ n] else []) @ (if ds \<noteq> [] then (pre @ n) # map fst ds else []) else [])"
    have here: "set ?here = (@) pre ` (if exact then found_at f g n else {})"
      unfolding found_at_def empty by (auto simp: fst_ds)
    have "\<exists>ys. (if deeper \<noteq> [] then
          ebind (intersect fuel sha s (Option.bind ?b node_dir) (Option.bind ?a node_dir) ?pre deeper) (\<lambda>under.
          Inr ((if f n \<noteq> g n then (pre @ n) # map (\<lambda>rest. pre @ n @ CHR ''/'' # rest) deeper else []) @ under)) else Inr []) = Inr ys
        \<and> set ys = (@) pre ` found_below f g n (set deeper)"
    proof (cases "deeper = []")
      case True
      then show ?thesis by (simp add: found_below_def clashing_def)
    next
      case nonempty: False
      obtain xs where xs: "intersect fuel sha s (Option.bind ?b node_dir) (Option.bind ?a node_dir) ?pre deeper = Inr xs"
          "set xs = (@) ?pre ` clashing (sub f n) (sub g n) (set deeper)"
        using intersectsD [OF IH sts w' nonempty short] by blast
      have "set ((if f n \<noteq> g n then (pre @ n) # map (\<lambda>rest. pre @ n @ CHR ''/'' # rest) deeper else []) @ xs)
          = (@) pre ` found_below f g n (set deeper)"
        using nonempty unfolding found_below_def by (auto simp: xs(2) image_Un image_image)
      then show ?thesis using nonempty xs(1) by simp
    qed
    then obtain ys where ys: "(if deeper \<noteq> [] then
          ebind (intersect fuel sha s (Option.bind ?b node_dir) (Option.bind ?a node_dir) ?pre deeper) (\<lambda>under.
          Inr ((if f n \<noteq> g n then (pre @ n) # map (\<lambda>rest. pre @ n @ CHR ''/'' # rest) deeper else []) @ under)) else Inr []) = Inr ys"
        "set ys = (@) pre ` found_below f g n (set deeper)" by blast
    have "intersect_each fuel sha s r r' pre (gr # groups) = Inr (?here @ ys @ others)"
      using False find ds(1) ys(1) others(1) by (simp add: gr Let_def files split: if_splits)
    moreover have "set (?here @ ys @ others) = (@) pre ` (\<Union>(group_found f g ` set (gr # groups)))"
      unfolding set_append here ys(2) others(2) by (auto simp: group_found_def gr)
    ultimately show ?thesis by blast
  qed
qed

lemma intersect_spec: "intersects sha s fuel"
proof (induction fuel)
  case 0
  then show ?case unfolding intersects_def by (metis length_greater_0_conv length_pos_if_in_set nth_mem not_less0)
next
  case (Suc fuel)
  show ?case
    unfolding intersects_def
  proof (intro allI impI, goal_cases)
    case (1 f g "is" is' r r' pre paths)
    note st = 1(1,2) and w = 1(3,4) and paths = 1(5,6)
    show ?case
  proof (cases "r = r'")
    case True
    then have "f = g" using state_fun [OF st(1)] st(2) by blast
    then show ?thesis using True by (simp add: clashing_def)
  next
    case False
    note gs = group_paths_spec [of paths]
    have member: "plain n \<and> exact = (n \<in> set paths) \<and> set deeper = under (set paths) n \<and> n \<in> first_name ` set paths"
      if "(n, exact, deeper) \<in> set (group_paths paths)" for n exact deeper
    proof -
      have keys: "fst ` set (group_paths paths) = first_name ` set paths" and ok: "omap_ok (group_paths paths)"
        and at: "plain n \<Longrightarrow> map_of (group_paths paths) n = Some (exact, deeper) \<Longrightarrow> exact = (n \<in> set paths) \<and> set deeper = under (set paths) n"
        using gs by simp_all
      have n: "n \<in> first_name ` set paths" unfolding keys [symmetric] using that by (rule rev_image_eqI) simp
      then have "plain n" using first_name_plain by auto
      moreover have "map_of (group_paths paths) n = Some (exact, deeper)" using that omap_map_of_iff [OF ok] by simp
      ultimately show ?thesis using at n by simp
    qed
    have "\<forall>(n, exact, deeper) \<in> set (group_paths paths). plain n \<and> (\<forall>p \<in> set deeper. length p < fuel)"
    proof (intro ballI, clarify)
      fix n exact deeper
      assume m: "(n, exact, deeper) \<in> set (group_paths paths)"
      have "length p < fuel" if "p \<in> set deeper" for p
      proof -
        have "n @ CHR ''/'' # p \<in> set paths" using member [OF m] that by (auto simp: under_def)
        then have "length (n @ CHR ''/'' # p) < Suc fuel" using paths(2) by blast
        then show ?thesis by simp
      qed
      then show "plain n \<and> (\<forall>p \<in> set deeper. length p < fuel)" using member [OF m] by blast
    qed
    from intersect_each_spec [OF Suc st w this] obtain xs where
      xs: "intersect_each fuel sha s r r' pre (group_paths paths) = Inr xs"
        "set xs = (@) pre ` (\<Union>(group_found f g ` set (group_paths paths)))" by blast
    have found: "group_found f g (n, exact, deeper) = clash_at f g (set paths) n"
      if "(n, exact, deeper) \<in> set (group_paths paths)" for n exact deeper
      using member [OF that] clash_at_eq [of n f g "set paths"] by (simp add: group_found_def)
    have "\<Union>(group_found f g ` set (group_paths paths)) = (\<Union>n \<in> fst ` set (group_paths paths). clash_at f g (set paths) n)"
      using found by force
    also have "\<dots> = clashing f g (set paths)" unfolding clashing_names using gs by simp
    finally show ?thesis using xs False by simp
  qed
  qed
qed

lemma intersections_spec:
  assumes "snapshot sha s base f" "snapshot sha s head' g" "world f" "world g"
  shows "tree_intersections sha s base head' changes = Inr (oset_of (sorted_list_of_set (clashing f g (fst ` set changes))))
    \<and> finite (clashing f g (fst ` set changes))"
proof -
  let ?P = "fst ` set changes"
  obtain "is" is' where st: "dir_state sha s is (Some base) f" "dir_state sha s is' (Some head') g"
    using snapshot_state assms(1,2) by blast
  have "\<exists>xs. intersect (weight changes + 1) sha s (Some base) (Some head') [] (map fst changes) = Inr xs
      \<and> set xs = clashing f g ?P"
  proof (cases "changes = []")
    case True
    then show ?thesis by (simp add: clashing_def group_paths_def)
  next
    case False
    have "length p < weight changes" if "p \<in> ?P" for p
      using that weight_le_iff [of changes "weight changes"] by auto
    then have "\<forall>p \<in> set (map fst changes). length p < weight changes + 1" by fastforce
    from intersectsD [OF intersect_spec st world_within [OF assms(3)] world_within [OF assms(4)] _ this] False show ?thesis by simp
  qed
  then obtain xs where xs: "intersect (weight changes + 1) sha s (Some base) (Some head') [] (map fst changes) = Inr xs"
      "set xs = clashing f g ?P" by blast
  have fin: "finite (clashing f g ?P)" using xs(2) by (metis List.finite_set)
  have "oset_of xs = oset_of (sorted_list_of_set (clashing f g ?P))"
    by (rule oset_extI) (simp_all add: xs(2) fin)
  then show ?thesis using xs(1) fin by (simp add: tree_intersections_def)
qed

lemma intersections_run:
  assumes "snapshot sha s base f" "snapshot sha s head' g" "world f" "world g"
  shows "\<exists>xs. tree_intersections sha s base head' changes = Inr xs \<and> oset_ok xs \<and> set xs = clashing f g (fst ` set changes)"
  using intersections_spec [OF assms, of changes] by simp

section \<open>Composition\<close>

text \<open>Where nothing clashes, the World kept the entries that the changes touch, and the changes compose.\<close>

lemma not_clashing:
  assumes "clashing f g P = {}" "p \<in> P" "touches p q"
  shows "f q = g q"
  using assms unfolding clashing_def by blast

lemma touches_sym: "touches p q \<longleftrightarrow> touches q p"
  unfolding touches_def by auto

lemma leads_disjoint:
  assumes "leads f ch f'" "\<And>p q. f' p = None \<or> f' (p @ ''/'' @ q) = None"
    "clashing f g (fst ` set ch) = {}" "\<And>p q. g p = None \<or> g (p @ ''/'' @ q) = None"
  shows "leads g ch (upd g ch) \<and> \<not> refused g ch \<and> (\<forall>p \<in> fst ` set ch. upd g ch p = f' p)"
proof -
  have ok: "omap_ok ch" "f' = upd f ch" using assms(1) by (simp_all add: leads_def changes_valid_def)
  have key: "p \<in> fst ` set ch \<longleftrightarrow> map_of ch p \<noteq> None" for p by (simp add: map_of_eq_None_iff)
  have same: "f q = g q" if "p \<in> fst ` set ch" "touches p q" for p q using not_clashing [OF assms(3) that] .
  have noop: "g p \<noteq> e" if "(p, e) \<in> set ch" for p e
  proof -
    have "p \<in> fst ` set ch" using that by force
    then have "f p = g p" by (rule same) (simp add: touches_def)
    then show ?thesis using that assms(1) unfolding leads_def by force
  qed
  have at: "upd g ch q = f' q" if "p \<in> fst ` set ch" "touches p q" for p q
    using same [OF that] by (simp add: ok(2) upd_def split: option.split)
  have "upd g ch p = None \<or> upd g ch (p @ ''/'' @ q) = None" for p q
  proof -
    have t: "touches p p" "touches p (p @ ''/'' @ q)" "touches (p @ ''/'' @ q) p" "touches (p @ ''/'' @ q) (p @ ''/'' @ q)"
      unfolding touches_def below_iff by blast+
    consider "p \<in> fst ` set ch" | "p @ ''/'' @ q \<in> fst ` set ch" | "p \<notin> fst ` set ch" "p @ ''/'' @ q \<notin> fst ` set ch" by blast
    then show ?thesis
    proof cases
      case 1
      then show ?thesis using at [OF 1 t(1)] at [OF 1 t(2)] assms(2) [of p q] by simp
    next
      case 2
      then show ?thesis using at [OF 2 t(3)] at [OF 2 t(4)] assms(2) [of p q] by simp
    next
      case 3
      then have "upd g ch p = g p" "upd g ch (p @ ''/'' @ q) = g (p @ ''/'' @ q)"
        unfolding key by (simp_all add: upd_def)
      then show ?thesis using assms(4) [of p q] by simp
    qed
  qed
  moreover have "map_of ch p = Some None \<Longrightarrow> g p \<noteq> None" for p using noop omap_map_of_iff [OF ok(1)] by metis
  ultimately have "\<not> refused g ch" unfolding refused_def by metis
  moreover have "upd g ch p = f' p" if "p \<in> fst ` set ch" for p by (rule at [OF that]) (simp add: touches_def)
  ultimately show ?thesis using noop assms(1) unfolding leads_def by blast
qed

section \<open>Properties\<close>

text \<open>C30: The intersections of a changeset with what happened between two snapshots: the ends of every pair of a changed
  path and a path whose entry differs, where one is the other or an ancestor of it; sorted, each once.\<close>

theorem intersections_exact:
  assumes "snapshot sha s base f" "snapshot sha s head' g" "world f" "world g"
  shows "\<exists>xs. tree_intersections sha s base head' changes = Inr xs \<and> sorted_wrt (<) xs
    \<and> set xs = {x. \<exists>p \<in> fst ` set changes. \<exists>q. f q \<noteq> g q \<and> (p = q \<or> below p q \<or> below q p) \<and> (x = p \<or> x = q)}"
  using intersections_run [OF assms, of changes] unfolding clashing_def touches_def oset_ok_def by simp

theorem intersections_exact_witness:
  "\<exists>xs. tree_intersections last_byte_sha example_store example_empty xs32 [(''a/b'', None), (''c'', None)] = Inr xs
     \<and> set xs = {''a'', ''a/b''}"
proof -
  have "{x. \<exists>p \<in> {''a/b'', ''c''}. \<exists>q. (Map.empty q :: file_entry option) \<noteq> example_map q \<and> (p = q \<or> below p q \<or> below q p) \<and> (x = p \<or> x = q)}
      = {''a'', ''a/b''}"
    by (auto simp: example_map_def below_iff split: if_splits)
  then show ?thesis
    using intersections_exact [OF example_empty_snapshot example_snapshot world_empty example_world, of "[(''a/b'', None), (''c'', None)]"]
    by (simp only: list.set fst_conv image_insert image_empty) blast
qed

end
