(* ===== verification/Growth.thy ===== *)
theory Growth
  imports Radars Intersections
begin

text \<open>
  What a repository keeps as it grows: tables are only appended to, so that a checkpoint, a head event and the outcome of a
  recorded attempt read the same in every later state. The checkpoint reader's cache is transparent, and a deep read
  succeeds where the Stack ancestry is well-founded.
\<close>

section \<open>The encodings\<close>

text \<open>JSON decoders return what was encoded, for UTF-8 text and object IDs of 32 bytes; maps come sorted, each key once.\<close>

definition change_text_ok :: "string \<times> file_entry option \<Rightarrow> bool" where
  "change_text_ok c \<longleftrightarrow> utf8 (fst c) \<and> (\<forall>e. snd c = Some e \<longrightarrow> oid_ok (entry_content e))"

definition encoded_ok :: "encoded_checkpoint \<Rightarrow> bool" where
  "encoded_ok e \<longleftrightarrow> omap_ok (ec_changes e) \<and> (\<forall>c \<in> set (ec_changes e). change_text_ok c)"

definition codecs_ok :: "codecs \<Rightarrow> bool" where
  "codecs_ok L \<longleftrightarrow> env_ok (co_env L)
     \<and> (\<forall>e. encoded_ok e \<longrightarrow> co_uncheckpoint L (co_checkpoint L e) = Inr e)
     \<and> (\<forall>b e. co_uncheckpoint L b = Inr e \<longrightarrow> encoded_ok e)
     \<and> (\<forall>p. co_unprovenance L (co_provenance L p) = Inr p)
     \<and> (\<forall>b. co_unbinding L (co_binding L b) = Inr (sb_resolution b))"

section \<open>Growth\<close>

definition grown :: "env \<Rightarrow> db \<Rightarrow> world_log \<Rightarrow> db \<Rightarrow> world_log \<Rightarrow> bool" where
  "grown E d w d' w' \<longleftrightarrow> repo_ok E d w \<and> repo_ok E d' w' \<and> keeps_objects d d' \<and> (\<exists>more. w' = w @ more)
     \<and> (\<exists>more. db_versions d' = db_versions d @ more) \<and> db_identity d' = db_identity d
     \<and> (\<exists>more. db_heads d' = db_heads d @ more) \<and> (\<exists>more. db_layer_attempts d' = db_layer_attempts d @ more)
     \<and> (\<exists>more. db_stacks d' = db_stacks d @ more \<and> (\<forall>r \<in> set more. sr_id r \<notin> la_id ` set (db_layer_attempts d)))"

lemma grown_refl: "repo_ok E d w \<Longrightarrow> grown E d w d w"
  by (simp add: grown_def)

lemma grown_trans:
  assumes "grown E a w b w'" "grown E b w' c w''"
  shows "grown E a w c w''"
proof -
  have "\<exists>more. db_stacks c = db_stacks a @ more \<and> (\<forall>r \<in> set more. sr_id r \<notin> la_id ` set (db_layer_attempts a))"
  proof -
    obtain s where s: "db_stacks b = db_stacks a @ s" "\<forall>r \<in> set s. sr_id r \<notin> la_id ` set (db_layer_attempts a)"
      using assms(1) unfolding grown_def by blast
    obtain t where t: "db_stacks c = db_stacks b @ t" "\<forall>r \<in> set t. sr_id r \<notin> la_id ` set (db_layer_attempts b)"
      using assms(2) unfolding grown_def by blast
    have "set (db_layer_attempts a) \<subseteq> set (db_layer_attempts b)" using assms(1) unfolding grown_def by force
    then show ?thesis using s t by (intro exI [of _ "s @ t"]) auto
  qed
  moreover have "keeps_objects a c" using assms keeps_objects_trans unfolding grown_def by blast
  ultimately show ?thesis using assms unfolding grown_def by (metis append.assoc)
qed

lemma version_in_grown: "grown E d w d' w' \<Longrightarrow> version_in n d = Inr v \<Longrightarrow> version_in n d' = Inr v"
proof -
  assume g: "grown E d w d' w'" and v: "version_in n d = Inr v"
  have r: "repo_ok E d w" "repo_ok E d' w'" using g by (simp_all add: grown_def)
  obtain more where more: "w' = w @ more" using g unfolding grown_def by blast
  obtain vs where vs: "db_versions d' = db_versions d @ vs" using g unfolding grown_def by blast
  have n: "unat n < length w" "v = version_of d (unat n)" using v version_in_spec [OF r(1), of n] by (auto split: if_splits)
  have "version_of d' (unat n) = version_of d (unat n)"
    using n(1) repo_versions(3) [OF r(1)] by (simp add: version_of_def vs nth_append)
  then show "version_in n d' = Inr v" using version_in_spec [OF r(2), of n] n more by simp
qed

lemma tree_in_grown: "grown E d w d' w' \<Longrightarrow> tree_in n d = Inr root \<Longrightarrow> tree_in n d' = Inr root"
proof -
  assume g: "grown E d w d' w'" and v: "tree_in n d = Inr root"
  have r: "repo_ok E d w" "repo_ok E d' w'" using g by (simp_all add: grown_def)
  obtain more where more: "w' = w @ more" using g unfolding grown_def by blast
  obtain vs where vs: "db_versions d' = db_versions d @ vs" using g unfolding grown_def by blast
  have n: "unat n < length w" "root = vr_tree (db_versions d ! unat n)" using v tree_in_spec [OF r(1), of n] by (auto split: if_splits)
  then show "tree_in n d' = Inr root"
    using tree_in_spec [OF r(2), of n] more repo_versions(3) [OF r(1)] by (simp add: vs nth_append)
qed

lemma index_at:
  assumes "tree_in n d = Inr root"
  shows "index_in E d n = sql_index E d root"
  using assms by (simp add: index_in_def sql_index_def Let_def)

text \<open>Normalization against a recorded version.\<close>

lemma normalize_in_iff:
  assumes "repo_ok E d w" "unat n < length w" "omap_ok ch"
  shows "normalize (index_in E d n) ch = Inr c \<longleftrightarrow>
    c = filter (\<lambda>(p, e). fst (w ! unat n) p \<noteq> e) ch \<and> (\<forall>p x. (p, Some x) \<in> set ch \<longrightarrow> validate_entry E d x = Inr ())
    \<and> \<not> ambiguous (fst (w ! unat n)) ch \<and> disjoint_paths (upd (fst (w ! unat n)) ch)"
proof -
  let ?root = "vr_tree (db_versions d ! unat n)" let ?f = "fst (w ! unat n)"
  have "tree_in n d = Inr ?root" using tree_in_spec [OF assms(1), of n] assms(2) by simp
  moreover have "stands E d ?root ?f" using repo_versions(7) [OF assms(1,2)] .
  ultimately show ?thesis
    using tabled.normalize_iff [of "(E, d, ?root, ?f)" ch c] assms(3)
    by (simp add: index_at tabled.changed_def sql_index_def Let_def)
qed

lemma grown_map: "grown E d w d' w' \<Longrightarrow> i < length w \<Longrightarrow> i < length w' \<and> w' ! i = w ! i"
  unfolding grown_def by (auto simp: nth_append)

lemma normalize_grown:
  assumes "grown E d w d' w'" "unat n < length w" "omap_ok ch" "normalize (index_in E d n) ch = Inr c"
  shows "normalize (index_in E d' n) ch = Inr c"
proof -
  have r: "repo_ok E d w" "repo_ok E d' w'" "keeps_objects d d'" using assms(1) by (simp_all add: grown_def)
  have w: "unat n < length w'" "w' ! unat n = w ! unat n" using grown_map [OF assms(1,2)] by simp_all
  show ?thesis
    using assms(4) validate_entry_keeps [OF r(3)]
    unfolding normalize_in_iff [OF r(1) assms(2,3)] normalize_in_iff [OF r(2) w(1) assms(3)] w(2) by blast
qed

lemma find_row_grows: "find_row P xs = Some r \<Longrightarrow> find_row P (xs @ ys) = Some r"
  by (simp add: find_row_append)

lemma event_in_grown: "grown E d w d' w' \<Longrightarrow> event_in layer n d = Inr e \<Longrightarrow> event_in layer n d' = Inr e"
  unfolding grown_def event_in_def event_row_def by (auto simp: result_simps find_row_grows split: if_splits)

lemma attempt_row_grown:
  "grown E d w d' w' \<Longrightarrow> layer_attempt_row_in operation d = Some r \<Longrightarrow> layer_attempt_row_in operation d' = Some r"
  unfolding grown_def layer_attempt_row_in_def by (auto simp: find_row_grows)

lemma stack_row_grown:
  assumes "grown E d w d' w'" "layer_attempt_row_in operation d = Some r"
  shows "stack_row_in operation d' = stack_row_in operation d"
proof -
  obtain s where s: "db_stacks d' = db_stacks d @ s" "\<forall>r \<in> set s. sr_id r \<notin> la_id ` set (db_layer_attempts d)"
    using assms(1) unfolding grown_def by blast
  have "operation \<in> la_id ` set (db_layer_attempts d)"
    using assms(2) find_row_Some unfolding layer_attempt_row_in_def by fastforce
  then have "find_row (\<lambda>r. sr_id r = operation) s = None" using s(2) by (auto simp: find_row_None)
  then show ?thesis by (simp add: stack_row_in_def s(1) find_row_append split: option.split)
qed

lemma identity_grown: "grown E d w d' w' \<Longrightarrow> identity_in d' = identity_in d"
  by (simp add: grown_def identity_in_def)

section \<open>Checkpoints\<close>

lemma validate_base_iff:
  "validate_base base d = Inr u \<longleftrightarrow> identity_in d = Inr (lb_repository base)
    \<and> (\<exists>v. version_in (lb_version base) d = Inr v \<and> wv_id v = lb_world base)"
  by (auto simp: validate_base_def result_simps split: if_splits)

lemma decoded_changes_Inr:
  assumes "omap_ok es"
  shows "decoded_changes es = Inr ch \<longleftrightarrow> ch = es \<and> (\<forall>p \<in> fst ` set es. path_ok p)"
proof -
  have "emap (\<lambda>(p, e). ebind (path_parse p) (\<lambda>path. Inr (path, e))) es = Inr xs \<longleftrightarrow> xs = es \<and> (\<forall>p \<in> fst ` set es. path_ok p)" for xs
    by (rule emap_path_entries)
  then show ?thesis using collect_unique_omap [OF assms] unfolding decoded_changes_def changes_new_def
    by (auto simp: result_simps)
qed

text \<open>What it takes for a checkpoint to read.\<close>

definition checkpoint_at :: "codecs \<Rightarrow> db \<Rightarrow> object_id \<Rightarrow> layer_checkpoint \<Rightarrow> bool" where
  "checkpoint_at L d i node \<longleftrightarrow>
     read_object (co_env L) d i Checkpoint
       = Inr (checkpoint_bytes L (lc_base node) (lc_changes node) (lc_sources node) (lc_provenance node))
     \<and> lc_id node = i \<and> version_ok (lb_version (lc_base node)) \<and> omap_ok (lc_changes node)
     \<and> (\<forall>c \<in> set (lc_changes node). path_ok (fst c) \<and> change_text_ok c)
     \<and> validate_base (lc_base node) d = Inr ()
     \<and> normalize (index_in (co_env L) d (lb_version (lc_base node))) (lc_changes node) = Inr (lc_changes node)
     \<and> sources_ascend (lc_sources node) \<and> check_provenance L d (lc_provenance node) = Inr ()"

lemma checkpoint_node_iff:
  assumes "codecs_ok L"
  shows "checkpoint_node L d i = Inr node \<longleftrightarrow> checkpoint_at L d i node"
proof
  assume h: "checkpoint_node L d i = Inr node"
  obtain bytes e version ch where r: "read_object (co_env L) d i Checkpoint = Inr bytes" "co_uncheckpoint L bytes = Inr e"
      "version_new (ec_version e) = Inr version" "decoded_changes (ec_changes e) = Inr ch"
      "validate_base \<lparr>lb_repository = ec_repository e, lb_version = version, lb_world = ec_world e\<rparr> d = Inr ()"
      "normalize (index_in (co_env L) d version) ch = Inr ch" "sources_ascend (ec_sources e)"
      "checkpoint_bytes L \<lparr>lb_repository = ec_repository e, lb_version = version, lb_world = ec_world e\<rparr> ch (ec_sources e) (ec_provenance e) = bytes"
      "check_provenance L d (ec_provenance e) = Inr ()"
      "node = \<lparr>lc_id = i, lc_base = \<lparr>lb_repository = ec_repository e, lb_version = version, lb_world = ec_world e\<rparr>,
         lc_changes = ch, lc_sources = ec_sources e, lc_provenance = ec_provenance e\<rparr>"
    using h unfolding checkpoint_node_def Let_def by (auto simp: result_simps split: if_splits)
  have e: "encoded_ok e" using assms r(2) unfolding codecs_ok_def by blast
  then have ch: "ch = ec_changes e" "\<forall>p \<in> fst ` set ch. path_ok p" using r(4) decoded_changes_Inr [of "ec_changes e" ch] by (auto simp: encoded_ok_def)
  have "version = ec_version e" "version_ok version" using r(3) by (auto simp: version_new_def version_ok_def split: if_splits)
  then show "checkpoint_at L d i node" using r e ch unfolding checkpoint_at_def encoded_ok_def by auto
next
  assume h: "checkpoint_at L d i node"
  let ?e = "\<lparr>ec_repository = lb_repository (lc_base node), ec_version = lb_version (lc_base node), ec_world = lb_world (lc_base node),
       ec_changes = lc_changes node, ec_sources = lc_sources node, ec_provenance = lc_provenance node\<rparr>"
  have "encoded_ok ?e" using h by (simp add: checkpoint_at_def encoded_ok_def)
  then have "co_uncheckpoint L (co_checkpoint L ?e) = Inr ?e" using assms unfolding codecs_ok_def by blast
  moreover have "version_new (lb_version (lc_base node)) = Inr (lb_version (lc_base node))"
    using h by (auto simp: checkpoint_at_def version_new_def version_ok_def)
  moreover have "decoded_changes (lc_changes node) = Inr (lc_changes node)"
    using h decoded_changes_Inr [of "lc_changes node"] by (auto simp: checkpoint_at_def)
  moreover obtain r v u ch ss p where "node = \<lparr>lc_id = i, lc_base = \<lparr>lb_repository = r, lb_version = v, lb_world = u\<rparr>,
      lc_changes = ch, lc_sources = ss, lc_provenance = p\<rparr>"
  proof -
    have "node = \<lparr>lc_id = i, lc_base = \<lparr>lb_repository = lb_repository (lc_base node), lb_version = lb_version (lc_base node),
        lb_world = lb_world (lc_base node)\<rparr>, lc_changes = lc_changes node, lc_sources = lc_sources node,
        lc_provenance = lc_provenance node\<rparr>" using h by (simp add: checkpoint_at_def)
    then show thesis by (rule that)
  qed
  ultimately show "checkpoint_node L d i = Inr node"
    using h unfolding checkpoint_node_def Let_def checkpoint_at_def checkpoint_bytes_def by simp
qed

lemma read_provenance_keeps: "keeps_objects d d' \<Longrightarrow> read_provenance L d i = Inr p \<Longrightarrow> read_provenance L d' i = Inr p"
  unfolding read_provenance_def using read_object_keeps by (auto simp: result_simps)

lemma check_provenance_keeps: "keeps_objects d d' \<Longrightarrow> check_provenance L d o' = Inr u \<Longrightarrow> check_provenance L d' o' = Inr u"
  unfolding check_provenance_def using read_provenance_keeps by (auto simp: result_simps split: option.splits)

lemma validate_base_grown: "grown E d w d' w' \<Longrightarrow> validate_base base d = Inr u \<Longrightarrow> validate_base base d' = Inr u"
  using version_in_grown identity_grown unfolding validate_base_iff by (metis (full_types) old.unit.exhaust)

text \<open>A checkpoint's base is a recorded version.\<close>

lemma base_version:
  assumes "repo_ok E d w" "validate_base base d = Inr u"
  shows "unat (lb_version base) < length w" "lb_world base = wv_id (version_of d (unat (lb_version base)))"
  using assms version_in_spec [OF assms(1), of "lb_version base"] by (auto simp: validate_base_iff split: if_splits)

lemma checkpoint_at_grown:
  assumes "grown (co_env L) d w d' w'" "checkpoint_at L d i node"
  shows "checkpoint_at L d' i node"
proof -
  have k: "keeps_objects d d'" and r: "repo_ok (co_env L) d w" using assms(1) by (simp_all add: grown_def)
  have "unat (lb_version (lc_base node)) < length w"
    using base_version [OF r] assms(2) unfolding checkpoint_at_def by blast
  then show ?thesis
    using assms(2) read_object_keeps [OF k] check_provenance_keeps [OF k] validate_base_grown [OF assms(1)]
      normalize_grown [OF assms(1)] unfolding checkpoint_at_def by blast
qed

lemma checkpoint_node_grown:
  assumes "codecs_ok L" "grown (co_env L) d w d' w'" "checkpoint_node L d i = Inr node"
  shows "checkpoint_node L d' i = Inr node"
  using assms checkpoint_at_grown unfolding checkpoint_node_iff [OF assms(1)] by blast

section \<open>Reading checkpoints\<close>

text \<open>The cache holds what the checkpoints read as; the ancestry is well-founded by some rank.\<close>

definition cache_ok :: "codecs \<Rightarrow> db \<Rightarrow> checkpoints \<Rightarrow> bool" where
  "cache_ok L d seen \<longleftrightarrow> (\<forall>(i, node) \<in> set seen. checkpoint_node L d i = Inr node)"

definition ranked :: "codecs \<Rightarrow> db \<Rightarrow> (object_id \<Rightarrow> nat) \<Rightarrow> bool" where
  "ranked L d rank \<longleftrightarrow> (\<forall>i node source. checkpoint_node L d i = Inr node \<longrightarrow> source \<in> set (lc_sources node) \<longrightarrow>
     rank source < rank i \<and> (\<exists>n. checkpoint_node L d source = Inr n))"

text \<open>The stack of the loop: what is left to leave was read, is being visited, and ranks above everything before it.\<close>

fun pending_ok :: "codecs \<Rightarrow> db \<Rightarrow> (object_id \<Rightarrow> nat) \<Rightarrow> bool \<Rightarrow> pending \<Rightarrow> bool" where
  "pending_ok L d rank deep [] \<longleftrightarrow> True"
| "pending_ok L d rank deep ((i, Some node) # rest) \<longleftrightarrow> checkpoint_node L d i = Inr node
     \<and> (\<forall>(j, leaving) \<in> set rest. leaving \<noteq> None \<longrightarrow> deep \<and> rank i < rank j) \<and> pending_ok L d rank deep rest"
| "pending_ok L d rank deep ((i, None) # rest) \<longleftrightarrow> (\<exists>node. checkpoint_node L d i = Inr node)
     \<and> (\<forall>(j, leaving) \<in> set rest. leaving \<noteq> None \<longrightarrow> deep \<and> rank i < rank j) \<and> pending_ok L d rank deep rest"

definition leavers :: "pending \<Rightarrow> object_id set" where
  "leavers pending = {j. \<exists>node. (j, Some node) \<in> set pending}"

lemma leavers_simps [simp]:
  "leavers [] = {}" "leavers ((i, None) # rest) = leavers rest" "leavers ((i, Some node) # rest) = insert i (leavers rest)"
  by (auto simp: leavers_def)

lemma leavers_append: "leavers (xs @ ys) = leavers xs \<union> leavers ys"
  by (auto simp: leavers_def)

lemma pending_rank: "pending_ok L d rank deep ((i, x) # rest) \<Longrightarrow> j \<in> leavers rest \<Longrightarrow> rank i < rank j \<and> deep"
  by (cases x) (fastforce simp: leavers_def)+

lemma pending_sources:
  assumes "ranked L d rank" "checkpoint_node L d i = Inr node" "pending_ok L d rank deep ((i, None) # rest)" "set ss \<subseteq> set (lc_sources node)" "deep"
  shows "pending_ok L d rank deep (map (\<lambda>s. (s, None)) ss @ (i, Some node) # rest)"
  using assms(4)
proof (induction ss)
  case Nil
  then show ?case using assms(2,3) by simp
next
  case (Cons s ss)
  have s: "rank s < rank i" "\<exists>n. checkpoint_node L d s = Inr n" using assms(1,2) Cons.prems unfolding ranked_def by auto
  have "rank i < rank j" if "(j, leaving) \<in> set rest" "leaving \<noteq> None" for j leaving
    using that pending_rank [OF assms(3), of j] by (auto simp: leavers_def)
  then have "\<forall>x \<in> set (map (\<lambda>s. (s, None)) ss @ (i, Some node) # rest). case x of (j, leaving) \<Rightarrow> leaving \<noteq> None \<longrightarrow> deep \<and> rank s < rank j"
    using s(1) assms(5) by fastforce
  moreover have "pending_ok L d rank deep (map (\<lambda>s. (s, None)) ss @ (i, Some node) # rest)" using Cons by simp
  ultimately show ?case using s(2) by (simp only: list.map append_Cons pending_ok.simps)
qed

lemma read_loop_spec:
  assumes "deep \<Longrightarrow> ranked L d rank" "cache_ok L d seen" "pending_ok L d rank deep pending" "set visiting = leavers pending"
  shows "\<exists>seen'. read_loop L d deep pending visiting seen = Inr seen' \<and> cache_ok L d seen'
    \<and> fst ` set seen \<union> fst ` set pending \<subseteq> fst ` set seen'"
  using assms
proof (induction L d deep pending visiting seen rule: read_loop.induct)
  case (1 L d deep visiting seen)
  then show ?case by simp
next
  case (2 L d deep i node pending visiting seen)
  have "i \<notin> leavers pending" using pending_rank [OF 2(4)] by fastforce
  then have "set (removeAll i visiting) = leavers pending" using 2(5) by auto
  moreover have "cache_ok L d ((i, node) # seen)" using 2(3,4) by (simp add: cache_ok_def)
  moreover have "pending_ok L d rank deep pending" using 2(4) by simp
  ultimately obtain seen' where "read_loop L d deep pending (removeAll i visiting) ((i, node) # seen) = Inr seen'" "cache_ok L d seen'"
      "fst ` set ((i, node) # seen) \<union> fst ` set pending \<subseteq> fst ` set seen'"
    using 2(1) [OF 2(2)] by blast
  then show ?case by (intro exI [of _ seen']) simp
next
  case (3 L d deep i pending visiting seen)
  have rest: "pending_ok L d rank deep pending" "set visiting = leavers pending" using 3(5,6) by simp_all
  show ?case
  proof (cases "i \<in> fst ` set seen")
    case True
    from 3(1) [OF True 3(3,4) rest] obtain seen' where s: "read_loop L d deep pending visiting seen = Inr seen'" "cache_ok L d seen'"
      "fst ` set seen \<union> fst ` set pending \<subseteq> fst ` set seen'" by blast
    have "i \<in> fst ` set seen'" using s(3) True by blast
    then show ?thesis using s True by (intro exI [of _ seen']) simp
  next
    case False
    obtain node where node: "checkpoint_node L d i = Inr node" using 3(5) by auto
    have fresh: "i \<notin> set visiting" using pending_rank [OF 3(5)] rest(2) by fastforce
    let ?next = "(if deep then map (\<lambda>source. (source, None)) (lc_sources node) else []) @ (i, Some node) # pending"
    have ok: "pending_ok L d rank deep ?next"
    proof (cases deep)
      case True
      then show ?thesis using pending_sources [OF 3(3) node 3(5), of "lc_sources node"] by simp
    next
      case False
      then show ?thesis using 3(5) node by simp
    qed
    have "leavers (map (\<lambda>source. (source, None)) xs) = {}" for xs by (auto simp: leavers_def)
    then have "set (i # visiting) = leavers ?next" using rest(2) by (simp add: leavers_append)
    from 3(2) [OF False fresh node 3(3,4) ok this] obtain seen' where
      "read_loop L d deep ?next (i # visiting) seen = Inr seen'" "cache_ok L d seen'"
      and sub: "fst ` set seen \<union> fst ` set ?next \<subseteq> fst ` set seen'" by blast
    moreover have "fst ` set pending \<subseteq> fst ` set seen'" using sub by auto
    ultimately show ?thesis using False fresh node by (intro exI [of _ seen']) simp
  qed
qed

text \<open>Deep or shallow, with any cache, a read returns the checkpoint as it is stored.\<close>

lemma read_with:
  assumes "deep \<Longrightarrow> \<exists>rank. ranked L d rank" "cache_ok L d seen" "checkpoint_node L d i = Inr node"
  shows "\<exists>seen'. read_checkpoint_with L d deep i seen = Inr (node, seen') \<and> cache_ok L d seen'"
proof -
  obtain rank where rank: "deep \<Longrightarrow> ranked L d rank" using assms(1) by blast
  have "pending_ok L d rank deep [(i, None)]" using assms(3) by simp
  from read_loop_spec [OF rank assms(2) this, of "[]"] obtain seen' where
    seen': "read_loop L d deep [(i, None)] [] seen = Inr seen'" "cache_ok L d seen'" "i \<in> fst ` set seen'" by auto
  then obtain node' where n: "map_of seen' i = Some node'" by (cases "map_of seen' i") (auto simp: map_of_eq_None_iff)
  then have "(i, node') \<in> set seen'" by (rule map_of_SomeD)
  then have "checkpoint_node L d i = Inr node'" using seen'(2) by (auto simp: cache_ok_def)
  then have "node' = node" using assms(3) by simp
  then show ?thesis using seen' n by (simp add: read_checkpoint_with_def)
qed

lemma cache_ok_Nil [simp]: "cache_ok L d []"
  by (simp add: cache_ok_def)

lemma checkpoint_in_eq: "checkpoint_in L i d = checkpoint_node L d i"
proof (cases "checkpoint_node L d i")
  case (Inr node)
  from read_with [of False, OF _ cache_ok_Nil Inr] show ?thesis using Inr by (auto simp: checkpoint_in_def)
next
  case (Inl e)
  then show ?thesis by (simp add: checkpoint_in_def read_checkpoint_with_def)
qed

end
