(* ===== verification/Settled.thy ===== *)
theory Settled
  imports Growth
begin

text \<open>
  What a recorded Layer attempt says, apart from the reader's cache and depth: its outcome. A settled attempt stays settled
  as the repository grows, so that a retry returns the original outcome.
\<close>

section \<open>Settled attempts\<close>

definition sources_settled :: "codecs \<Rightarrow> db \<Rightarrow> layer_attempt_row \<Rightarrow> object_id option \<Rightarrow> layer_checkpoint \<Rightarrow> layer_checkpoint \<Rightarrow> bool" where
  "sources_settled L d row source before candidate \<longleftrightarrow>
     (case source of
       None \<Rightarrow> la_stack row = 0 \<and> lc_sources candidate = lc_sources before
     | Some i \<Rightarrow> la_stack row = 1 \<and> la_discard row = 0 \<and> (\<exists>node. checkpoint_node L d i = Inr node)
         \<and> lc_sources candidate = oset_of (lc_sources before @ [i]))"

definition settled_as ::
  "codecs \<Rightarrow> db \<Rightarrow> string \<Rightarrow> layer_update \<Rightarrow> layer_attempt_row \<Rightarrow> layer_event \<Rightarrow> layer_event \<Rightarrow> layer_checkpoint \<Rightarrow> layer_checkpoint \<Rightarrow> object_id \<Rightarrow> bool" where
  "settled_as L d operation outcome row before after candidate node identity \<longleftrightarrow>
     layer_attempt_row_in operation d = Some row
     \<and> event_in (la_layer row) (la_expected row) d = Inr before \<and> event_in (la_layer row) (la_result row) d = Inr after
     \<and> checkpoint_node L d (la_checkpoint row) = Inr candidate \<and> checkpoint_node L d (ev_checkpoint before) = Inr node
     \<and> \<not> ev_discarded before \<and> (la_discard row = 0 \<or> la_discard row = 1) \<and> (la_accepted row = 0 \<or> la_accepted row = 1)
     \<and> lc_base node = lc_base candidate \<and> (la_discard row = 1 \<longrightarrow> lc_id candidate = ev_checkpoint before)
     \<and> sources_settled L d row (source_in operation d) node candidate
     \<and> identity_in d = Inr identity \<and> recorded_update operation row after candidate identity = Inr outcome
     \<and> verify_stack L d operation row (source_in operation d) (lc_id candidate) outcome = Inr ()"

definition settled :: "codecs \<Rightarrow> db \<Rightarrow> string \<Rightarrow> layer_update \<Rightarrow> bool" where
  "settled L d operation outcome \<longleftrightarrow>
     (\<exists>row before after candidate node identity. settled_as L d operation outcome row before after candidate node identity)"

lemma shallow_read:
  assumes "cache_ok L d seen" "read_checkpoint_with L d False i seen = Inr (node, seen')"
  shows "checkpoint_node L d i = Inr node \<and> cache_ok L d seen'"
proof (cases "checkpoint_node L d i")
  case (Inr n)
  from read_with [of False, OF _ assms(1) Inr] assms(2) show ?thesis using Inr by auto
next
  case (Inl e)
  then have "i \<notin> fst ` set seen" using assms(1) by (fastforce simp: cache_ok_def)
  then show ?thesis using assms(2) Inl by (simp add: read_checkpoint_with_def)
qed

text \<open>A settled attempt is read with any cache.\<close>

lemma settled_read:
  assumes "deep \<Longrightarrow> \<exists>rank. ranked L d rank" "cache_ok L d seen" "settled L d operation outcome"
  shows "\<exists>seen'. update_outcome_in L d deep operation seen = Inr (outcome, seen') \<and> cache_ok L d seen'"
proof -
  obtain row before after candidate node identity where s: "settled_as L d operation outcome row before after candidate node identity"
    using assms(3) unfolding settled_def by blast
  note u = s [unfolded settled_as_def]
  obtain seen1 where r1: "read_checkpoint_with L d deep (la_checkpoint row) seen = Inr (candidate, seen1)" "cache_ok L d seen1"
    using read_with [OF assms(1,2)] u by blast
  obtain seen2 where r2: "read_checkpoint_with L d deep (ev_checkpoint before) seen1 = Inr (node, seen2)" "cache_ok L d seen2"
    using read_with [OF assms(1) r1(2)] u by blast
  have src: "sources_settled L d row (source_in operation d) node candidate" using u by blast
  have "\<exists>seen3. expected_sources L d deep row (source_in operation d) (lc_sources node) seen2 = Inr (lc_sources candidate, seen3)
      \<and> cache_ok L d seen3"
  proof (cases "source_in operation d")
    case None
    then show ?thesis using src r2(2) by (simp add: sources_settled_def expected_sources_def)
  next
    case (Some i)
    then obtain n where "checkpoint_node L d i = Inr n" using src by (auto simp: sources_settled_def)
    from read_with [OF assms(1) r2(2) this] obtain seen3 where
      "read_checkpoint_with L d deep i seen2 = Inr (n, seen3)" "cache_ok L d seen3" by blast
    then show ?thesis using Some src by (simp add: sources_settled_def expected_sources_def)
  qed
  then obtain seen3 where r3: "expected_sources L d deep row (source_in operation d) (lc_sources node) seen2 = Inr (lc_sources candidate, seen3)"
    "cache_ok L d seen3" by blast
  have "la_stack row = (if source_in operation d = None then 0 else 1)"
    using src by (auto simp: sources_settled_def split: option.splits)
  then have "update_outcome_in L d deep operation seen = Inr (outcome, seen3)"
    using u r1 r2 r3 unfolding update_outcome_in_def Let_def by (auto simp: ok_or_def)
  then show ?thesis using r3(2) by blast
qed

lemma outcome_settled:
  assumes "update_outcome L operation d = Inr outcome"
  shows "settled L d operation outcome"
proof -
  obtain seen where "update_outcome_in L d False operation [] = Inr (outcome, seen)"
    using assms by (auto simp: update_outcome_def result_simps)
  then obtain row before after candidate node seen1 seen2 seen3 identity where
    a: "layer_attempt_row_in operation d = Some row" "event_in (la_layer row) (la_expected row) d = Inr before"
      "event_in (la_layer row) (la_result row) d = Inr after"
    and r: "read_checkpoint_with L d False (la_checkpoint row) [] = Inr (candidate, seen1)"
      "read_checkpoint_with L d False (ev_checkpoint before) seen1 = Inr (node, seen2)"
      "expected_sources L d False row (source_in operation d) (lc_sources node) seen2 = Inr (lc_sources candidate, seen3)"
    and c: "\<not> ev_discarded before" "la_discard row = 0 \<or> la_discard row = 1" "la_accepted row = 0 \<or> la_accepted row = 1"
      "lc_base node = lc_base candidate" "la_discard row = 1 \<longrightarrow> lc_id candidate = ev_checkpoint before"
      "la_stack row = (if source_in operation d = None then 0 else 1)"
    and o: "identity_in d = Inr identity" "recorded_update operation row after candidate identity = Inr outcome"
      "verify_stack L d operation row (source_in operation d) (lc_id candidate) outcome = Inr ()"
    unfolding update_outcome_in_def Let_def by (auto simp: result_simps split: if_splits option.splits prod.splits)
  have n1: "checkpoint_node L d (la_checkpoint row) = Inr candidate" "cache_ok L d seen1"
    using shallow_read [OF cache_ok_Nil r(1)] by simp_all
  have n2: "checkpoint_node L d (ev_checkpoint before) = Inr node" "cache_ok L d seen2"
    using shallow_read [OF n1(2) r(2)] by simp_all
  have "sources_settled L d row (source_in operation d) node candidate"
    using r(3) c(6) shallow_read [OF n2(2)]
    by (auto simp: sources_settled_def expected_sources_def result_simps split: option.splits if_splits)
  then show ?thesis using a n1(1) n2(1) c(1-5) o unfolding settled_def settled_as_def by blast
qed

lemma update_outcome_iff: "update_outcome L operation d = Inr outcome \<longleftrightarrow> settled L d operation outcome"
  using outcome_settled settled_read [of False L d "[]" operation outcome]
  by (auto simp: update_outcome_def result_simps)

lemma settled_unique: "settled L d operation a \<Longrightarrow> settled L d operation b \<Longrightarrow> a = b"
  unfolding update_outcome_iff [symmetric] by simp

section \<open>Settled for ever\<close>

lemma active_iff: "(case s of Active head \<Rightarrow> Inr head | Published a b c \<Rightarrow> Inl e | Discarded x y z \<Rightarrow> Inl e) = Inr head \<longleftrightarrow> s = Active head"
  by (cases s) auto

lemma layer_head_iff:
  "layer_head_in layer revision d = Inr head \<longleftrightarrow> 0 \<le> version_sql revision
    \<and> (\<exists>event identity. event_in layer (version_sql revision) d = Inr event \<and> identity_in d = Inr identity
        \<and> event_state identity event = Active head)"
  unfolding layer_head_in_def event_state_in_def revision_from_def
  by (auto simp: result_simps active_iff split: if_splits)

lemma layer_head_grown:
  assumes "grown E d w d' w'" "layer_head_in layer revision d = Inr head"
  shows "layer_head_in layer revision d' = Inr head"
  using assms(2) event_in_grown [OF assms(1)] identity_grown [OF assms(1)] unfolding layer_head_iff by metis

lemma check_resolution_keeps: "keeps_objects d d' \<Longrightarrow> check_resolution L d r = Inr u \<Longrightarrow> check_resolution L d' r = Inr u"
  unfolding check_resolution_def using read_object_keeps by (auto simp: result_simps split: option.splits)

lemma settled_grown:
  assumes "codecs_ok L" "grown (co_env L) d w d' w'" "settled L d operation outcome"
  shows "settled L d' operation outcome"
proof -
  obtain row before after candidate node identity where s: "settled_as L d operation outcome row before after candidate node identity"
    using assms(3) unfolding settled_def by blast
  note u = s [unfolded settled_as_def]
  have k: "keeps_objects d d'" using assms(2) by (simp add: grown_def)
  have row: "layer_attempt_row_in operation d = Some row" using u by blast
  have stack: "stack_row_in operation d' = stack_row_in operation d" by (rule stack_row_grown [OF assms(2) row])
  then have source: "source_in operation d' = source_in operation d" by (simp add: source_in_def)
  have "sources_settled L d' row (source_in operation d') node candidate"
    using u checkpoint_node_grown [OF assms(1,2)] unfolding source sources_settled_def by (auto split: option.splits)
  moreover have "verify_stack L d' operation row (source_in operation d') (lc_id candidate) outcome = Inr ()"
    using u layer_head_grown [OF assms(2)] read_object_keeps [OF k] check_resolution_keeps [OF k]
    unfolding source verify_stack_def verify_binding_def stack by (auto simp: result_simps split: option.splits if_splits)
  ultimately have "settled_as L d' operation outcome row before after candidate node identity"
    using u attempt_row_grown [OF assms(2)] event_in_grown [OF assms(2)] checkpoint_node_grown [OF assms(1,2)] identity_grown [OF assms(2)]
    unfolding settled_as_def by simp
  then show ?thesis unfolding settled_def by blast
qed

end
