(* ===== verification/LayerState.thy ===== *)
theory LayerState
  imports Settled
begin

text \<open>
  The invariant of a repository's Layers: the head events of each Layer are numbered from 0, every one reads, follows from
  the one before by its settled attempt and keeps the Layer's base; every recorded attempt is settled; and every stored
  checkpoint reads, with Stack sources stored before it, so that the ancestry is well-founded.
\<close>

section \<open>The invariant\<close>

definition layer_rows :: "string \<Rightarrow> db \<Rightarrow> head_row list" where
  "layer_rows layer d = filter (\<lambda>r. hr_layer r = layer) (db_heads d)"

definition event_of :: "head_row \<Rightarrow> layer_event" where
  "event_of r = \<lparr>ev_layer = hr_layer r, ev_revision = hr_revision r, ev_checkpoint = hr_checkpoint r,
     ev_discarded = (hr_discarded r = 1), ev_operation = hr_operation r\<rparr>"

definition follows :: "codecs \<Rightarrow> db \<Rightarrow> head_row \<Rightarrow> head_row \<Rightarrow> bool" where
  "follows L d prev row \<longleftrightarrow> hr_discarded prev = 0 \<and> (hr_discarded row = 1 \<longrightarrow> hr_checkpoint row = hr_checkpoint prev)
     \<and> (\<exists>operation identity. hr_operation row = Some operation \<and> identity_in d = Inr identity
          \<and> settled L d operation (UpdateApplied (event_state identity (event_of row))))"

definition based :: "codecs \<Rightarrow> db \<Rightarrow> layer_base \<Rightarrow> head_row \<Rightarrow> bool" where
  "based L d base r \<longleftrightarrow> (hr_discarded r = 0 \<or> hr_discarded r = 1)
     \<and> (\<exists>node. checkpoint_node L d (hr_checkpoint r) = Inr node \<and> lc_base node = base)"

definition history_ok :: "codecs \<Rightarrow> db \<Rightarrow> head_row list \<Rightarrow> bool" where
  "history_ok L d rs \<longleftrightarrow> length rs \<le> 2 ^ 63 \<and> (\<forall>i < length rs. hr_revision (rs ! i) = int i)
     \<and> (\<exists>base. \<forall>r \<in> set rs. based L d base r)
     \<and> (rs \<noteq> [] \<longrightarrow> hr_operation (hd rs) = None \<and> hr_discarded (hd rs) = 0)
     \<and> (\<forall>i. Suc i < length rs \<longrightarrow> follows L d (rs ! i) (rs ! Suc i))"

definition stored_checkpoint :: "object_row list \<Rightarrow> nat \<Rightarrow> bool" where
  "stored_checkpoint rows k \<longleftrightarrow> k < length rows \<and> or_kind (rows ! k) = kind_sql Checkpoint"

definition checkpoints_ok :: "codecs \<Rightarrow> db \<Rightarrow> bool" where
  "checkpoints_ok L d \<longleftrightarrow>
     (\<forall>k. stored_checkpoint (db_objects d) k \<longrightarrow>
        (\<exists>node. checkpoint_node L d (or_id (db_objects d ! k)) = Inr node
           \<and> (\<forall>source \<in> set (lc_sources node). \<exists>j < k. stored_checkpoint (db_objects d) j \<and> or_id (db_objects d ! j) = source)))"

definition attempts_ok :: "codecs \<Rightarrow> db \<Rightarrow> bool" where
  "attempts_ok L d \<longleftrightarrow> distinct (map la_id (db_layer_attempts d)) \<and> distinct (map sr_id (db_stacks d))
     \<and> sr_id ` set (db_stacks d) \<subseteq> la_id ` set (db_layer_attempts d)
     \<and> (\<forall>row \<in> set (db_layer_attempts d). \<exists>outcome. settled L d (la_id row) outcome)"

definition layers_ok :: "codecs \<Rightarrow> db \<Rightarrow> world_log \<Rightarrow> bool" where
  "layers_ok L d w \<longleftrightarrow> repo_ok (co_env L) d w \<and> (\<exists>identity. identity_in d = Inr identity)
     \<and> (\<forall>layer. history_ok L d (layer_rows layer d)) \<and> attempts_ok L d \<and> checkpoints_ok L d"

section \<open>Reading events\<close>

lemma find_row_filter: "find_row (\<lambda>r. P r \<and> Q r) rows = find_row Q (filter P rows)"
  by (induction rows) (auto simp: find_row_def)

lemma event_in_spec:
  assumes "history_ok L d (layer_rows layer d)"
  shows "event_in layer n d = (if 0 \<le> n \<and> nat n < length (layer_rows layer d) then Inr (event_of (layer_rows layer d ! nat n))
    else Inl (CorruptRepository ''missing Layer head event''))"
proof -
  let ?rs = "layer_rows layer d"
  have "event_row layer n d = find_row (\<lambda>r. hr_revision r = n) ?rs"
    unfolding event_row_def layer_rows_def by (rule find_row_filter)
  also have "\<dots> = (if 0 \<le> n \<and> nat n < length ?rs then Some (?rs ! nat n) else None)"
    by (rule find_numbered) (use assms in \<open>simp add: history_ok_def\<close>)
  finally have row: "event_row layer n d = (if 0 \<le> n \<and> nat n < length ?rs then Some (?rs ! nat n) else None)" .
  show ?thesis
  proof (cases "0 \<le> n \<and> nat n < length ?rs")
    case True
    then have mem: "?rs ! nat n \<in> set ?rs" by simp
    then have "hr_discarded (?rs ! nat n) = 0 \<or> hr_discarded (?rs ! nat n) = 1" "hr_revision (?rs ! nat n) = n"
      using assms True by (auto simp: history_ok_def based_def)
    moreover have "hr_layer (?rs ! nat n) = layer" using mem by (simp add: layer_rows_def)
    ultimately show ?thesis using True row by (auto simp: event_in_def ok_or_def event_of_def)
  next
    case False
    then show ?thesis using row by (auto simp: event_in_def ok_or_def)
  qed
qed

lemma fold_max_upt: "fold max (map int [Suc k ..< Suc (k + n)]) (int k) = int (k + n)"
proof (induction n)
  case (Suc n)
  have "[Suc k ..< Suc (k + Suc n)] = [Suc k ..< Suc (k + n)] @ [Suc (k + n)]" by simp
  then show ?case using Suc by (simp add: fold_append)
qed simp

lemma history_revisions:
  assumes "history_ok L d rs"
  shows "map hr_revision rs = map int [0 ..< length rs]"
  using assms by (intro nth_equalityI) (simp_all add: history_ok_def)

lemma latest_in_spec:
  assumes "history_ok L d (layer_rows layer d)"
  shows "latest_in layer d = (if layer_rows layer d = [] then Inl (InvalidInput ''unknown Layer'')
    else Inr (event_of (last (layer_rows layer d))))"
proof (cases "layer_rows layer d")
  case Nil
  then have "revisions_of layer d = []" by (simp add: revisions_of_def layer_rows_def)
  then show ?thesis using Nil by (simp add: latest_in_def max_revision_def ok_or_def)
next
  case (Cons r rs)
  have "revisions_of layer d = map int [0 ..< length (layer_rows layer d)]"
    using history_revisions [OF assms] by (simp add: revisions_of_def layer_rows_def)
  moreover have "[0 ..< length (layer_rows layer d)] = 0 # [Suc 0 ..< Suc (0 + length rs)]"
    unfolding Cons by (simp only: length_Cons upt_conv_Cons) simp
  ultimately have "revisions_of layer d = int 0 # map int [Suc 0 ..< Suc (0 + length rs)]" by simp
  then have "max_revision layer d = Some (int (length rs))"
    using fold_max_upt [of 0 "length rs"] by (simp add: max_revision_def)
  moreover have "last (layer_rows layer d) = layer_rows layer d ! length rs" unfolding Cons by (simp add: last_conv_nth)
  ultimately show ?thesis using event_in_spec [OF assms, of "int (length rs)"] Cons by (simp add: latest_in_def ok_or_def)
qed

section \<open>The ancestry is well-founded\<close>

lemma node_stored:
  assumes "checkpoint_node L d i = Inr node"
  shows "\<exists>k. stored_checkpoint (db_objects d) k \<and> or_id (db_objects d ! k) = i"
proof -
  obtain bs where "read_object (co_env L) d i Checkpoint = Inr bs"
    using assms by (auto simp: checkpoint_node_def result_simps)
  then obtain r where r: "object_at d i = Some r" "or_kind r = kind_sql Checkpoint"
    by (auto simp: read_object_def result_simps kind_decode_Inr split: if_splits)
  from object_at_row [OF r(1)] obtain k where "k < length (db_objects d)" "db_objects d ! k = r" "or_id r = i"
    by (auto simp: in_set_conv_nth)
  then show ?thesis using r(2) by (intro exI [of _ k]) (simp add: stored_checkpoint_def)
qed

lemma checkpoints_ranked:
  assumes "objects_ok (co_env L) d" "checkpoints_ok L d"
  shows "\<exists>rank. ranked L d rank"
proof -
  let ?f = "\<lambda>k. or_id (db_objects d ! k)" let ?n = "length (db_objects d)"
  have "inj_on ?f {..< ?n}"
    using assms(1) by (auto simp: objects_ok_def inj_on_def distinct_conv_nth)
  then have rank: "inv_into {..< ?n} ?f (?f k) = k" if "k < ?n" for k
    using inv_into_f_f [of ?f "{..< ?n}" k] that by simp
  have "ranked L d (inv_into {..< ?n} ?f)"
    unfolding ranked_def
  proof (intro allI impI)
    fix i node source
    assume h: "checkpoint_node L d i = Inr node" "source \<in> set (lc_sources node)"
    from node_stored [OF h(1)] obtain k where k: "stored_checkpoint (db_objects d) k" "?f k = i" by blast
    then obtain j where j: "j < k" "stored_checkpoint (db_objects d) j" "?f j = source"
      using assms(2) h unfolding checkpoints_ok_def by fastforce
    have "\<exists>n. checkpoint_node L d source = Inr n" using assms(2) j(2,3) unfolding checkpoints_ok_def by fastforce
    moreover have "inv_into {..< ?n} ?f source = j" "inv_into {..< ?n} ?f i = k"
      using rank [of j] rank [of k] j(2,3) k by (simp_all add: stored_checkpoint_def)
    ultimately show "inv_into {..< ?n} ?f source < inv_into {..< ?n} ?f i \<and> (\<exists>n. checkpoint_node L d source = Inr n)"
      using j(1) by simp
  qed
  then show ?thesis by blast
qed

section \<open>Accepting checks\<close>

definition ancestry :: "codecs \<Rightarrow> db \<Rightarrow> bool \<Rightarrow> checkpoints \<Rightarrow> bool" where
  "ancestry L d deep seen \<longleftrightarrow> (deep \<longrightarrow> (\<exists>rank. ranked L d rank)) \<and> cache_ok L d seen"

lemma read_in:
  assumes "ancestry L d deep seen" "checkpoint_node L d i = Inr node"
  obtains seen' where "read_checkpoint_with L d deep i seen = Inr (node, seen')" "ancestry L d deep seen'"
  using read_with [of deep L d seen i node] assms unfolding ancestry_def by blast

lemma settled_in:
  assumes "ancestry L d deep seen" "settled L d operation outcome"
  obtains seen' where "update_outcome_in L d deep operation seen = Inr (outcome, seen')" "ancestry L d deep seen'"
  using settled_read [of deep L d seen operation outcome] assms unfolding ancestry_def by blast

lemma check_layer_attempts_ok:
  assumes "ancestry L d deep seen" "\<forall>operation \<in> set operations. \<exists>outcome. settled L d operation outcome"
  shows "\<exists>seen'. check_layer_attempts L d deep operations seen = Inr seen' \<and> ancestry L d deep seen'"
  using assms
proof (induction operations arbitrary: seen)
  case (Cons operation operations)
  then obtain outcome where "settled L d operation outcome" by auto
  then obtain seen1 where s: "update_outcome_in L d deep operation seen = Inr (outcome, seen1)" "ancestry L d deep seen1"
    by (rule settled_in [OF Cons.prems(1)])
  from Cons.IH [OF s(2)] Cons.prems(2) show ?case using s(1) by simp
qed simp

lemma check_successor_ok:
  assumes "ancestry L d deep seen" "follows L d prev row"
  shows "\<exists>seen'. check_successor L d deep (Some (event_of prev)) (event_of row) seen = Inr seen' \<and> ancestry L d deep seen'"
proof -
  obtain operation identity where o: "hr_operation row = Some operation" "identity_in d = Inr identity"
      "settled L d operation (UpdateApplied (event_state identity (event_of row)))"
    using assms(2) unfolding follows_def by blast
  from settled_in [OF assms(1) o(3)] obtain seen' where
    s: "update_outcome_in L d deep operation seen = Inr (UpdateApplied (event_state identity (event_of row)), seen')" "ancestry L d deep seen'" .
  moreover have "check_discards (event_of prev) (event_of row) = Inr ()"
    using assms(2) by (auto simp: follows_def check_discards_def event_of_def guard_def)
  moreover have "ev_operation (event_of row) = Some operation" using o(1) by (simp add: event_of_def)
  ultimately show ?thesis using o(2) by (simp add: check_successor_def ok_or_def)
qed

lemma check_revisions_ok:
  assumes "history_ok L d (layer_rows layer d)" "i \<le> length (layer_rows layer d)" "ancestry L d deep seen"
    "\<forall>r \<in> set (layer_rows layer d). based L d base r" "first = None \<or> first = Some base"
    "previous = (if i = 0 then None else Some (event_of (layer_rows layer d ! (i - 1))))"
  shows "\<exists>seen'. check_revisions L d deep layer i (map int [i ..< length (layer_rows layer d)]) first previous seen = Inr seen'
    \<and> ancestry L d deep seen'"
  using assms
proof (induction "length (layer_rows layer d) - i" arbitrary: i first previous seen)
  case 0
  then show ?case by simp
next
  case (Suc k)
  let ?rs = "layer_rows layer d" let ?r = "?rs ! i"
  have i: "i < length ?rs" using Suc(2) by simp
  then have upt: "map int [i ..< length ?rs] = int i # map int [Suc i ..< length ?rs]" by (simp add: upt_conv_Cons)
  have ev: "event_in layer (int i) d = Inr (event_of ?r)" using event_in_spec [OF Suc(3)] i by simp
  obtain node where node: "checkpoint_node L d (hr_checkpoint ?r) = Inr node" "lc_base node = base"
    using bspec [OF Suc(6) nth_mem [OF i]] unfolding based_def by blast
  from read_in [OF Suc(5) node(1)] obtain seen1 where
    s1: "read_checkpoint_with L d deep (hr_checkpoint ?r) seen = Inr (node, seen1)" "ancestry L d deep seen1" .
  have cb: "check_base first base = Inr ()" using Suc(7) by (auto simp: check_base_def guard_def)
  have "\<exists>seen2. check_successor L d deep previous (event_of ?r) seen1 = Inr seen2 \<and> ancestry L d deep seen2"
  proof (cases i)
    case 0
    then have "hr_operation ?r = None" "hr_discarded ?r = 0" using Suc(3) i by (auto simp: history_ok_def hd_conv_nth)
    then show ?thesis using Suc(8) 0 s1(2) by (simp add: check_successor_def event_of_def)
  next
    case (Suc j)
    then have "follows L d (?rs ! j) ?r" using \<open>history_ok L d ?rs\<close> i by (auto simp: history_ok_def)
    from check_successor_ok [OF s1(2) this] show ?thesis using Suc \<open>previous = _\<close> by simp
  qed
  then obtain seen2 where s2: "check_successor L d deep previous (event_of ?r) seen1 = Inr seen2" "ancestry L d deep seen2" by blast
  have "k = length ?rs - Suc i" using Suc(2) by simp
  from Suc(1) [OF this Suc(3) _ s2(2) Suc(6), of "Some base" "Some (event_of ?r)"] i obtain seen3 where
    "check_revisions L d deep layer (Suc i) (map int [Suc i ..< length ?rs]) (Some base) (Some (event_of ?r)) seen2 = Inr seen3"
    "ancestry L d deep seen3" by auto
  then show ?case unfolding upt using ev s1(1) s2(1) cb node(2) by (auto simp: event_of_def)
qed

lemma check_events_ok:
  assumes "history_ok L d (layer_rows layer d)" "ancestry L d deep seen"
  shows "\<exists>seen'. check_events L d deep layer seen = Inr seen' \<and> ancestry L d deep seen'"
proof -
  have "revisions_of layer d = map int [0 ..< length (layer_rows layer d)]"
    using history_revisions [OF assms(1)] by (simp add: revisions_of_def layer_rows_def)
  then have "sort (revisions_of layer d) = map int [0 ..< length (layer_rows layer d)]"
    by (simp add: sorted_sort_id sorted_wrt_map sorted_wrt_upt [THEN sorted_wrt_mono_rel [rotated]])
  moreover obtain base where "\<forall>r \<in> set (layer_rows layer d). based L d base r" using assms(1) unfolding history_ok_def by blast
  ultimately show ?thesis
    using check_revisions_ok [OF assms(1) le0 assms(2), of base None None] by (simp add: check_events_def)
qed

lemma check_each_layer_ok:
  assumes "\<And>layer. history_ok L d (layer_rows layer d)" "ancestry L d deep seen"
  shows "\<exists>seen'. check_each_layer L d deep layers seen = Inr seen' \<and> ancestry L d deep seen'"
  using assms(2)
proof (induction layers arbitrary: seen)
  case (Cons layer layers)
  from check_events_ok [OF assms(1) Cons.prems] obtain seen1 where
    "check_events L d deep layer seen = Inr seen1" "ancestry L d deep seen1" by blast
  with Cons.IH show ?case by simp
qed simp

lemma layers_ancestry:
  assumes "layers_ok L d w" "cache_ok L d seen"
  shows "ancestry L d deep seen"
  using assms checkpoints_ranked [of L d] by (auto simp: ancestry_def layers_ok_def repo_ok_def)

lemma layers_checked:
  assumes "layers_ok L d w" "cache_ok L d seen"
  shows "\<exists>seen'. check_layers L d deep seen = Inr (card (hr_layer ` set (db_heads d)), seen') \<and> cache_ok L d seen'"
proof -
  have h: "\<And>layer. history_ok L d (layer_rows layer d)" and "attempts_ok L d" and i: "\<exists>identity. identity_in d = Inr identity"
    using assms(1) by (simp_all add: layers_ok_def)
  then have a: "\<forall>operation \<in> set (map la_id (db_layer_attempts d)). \<exists>outcome. settled L d operation outcome" by (simp add: attempts_ok_def)
  obtain seen1 where s1: "check_each_layer L d deep (layer_names d) seen = Inr seen1" "ancestry L d deep seen1"
    using check_each_layer_ok [OF h layers_ancestry [OF assms]] by blast
  obtain seen2 where s2: "check_layer_attempts L d deep (map la_id (db_layer_attempts d)) seen1 = Inr seen2" "ancestry L d deep seen2"
    using check_layer_attempts_ok [OF s1(2) a] by blast
  have "length (layer_names d) = card (hr_layer ` set (db_heads d))"
    using oset_of_ok [of "map hr_layer (db_heads d)"] distinct_card [of "layer_names d"]
    by (simp add: layer_names_def oset_ok_def strict_sorted_iff)
  then show ?thesis using i s1(1) s2 by (auto simp: check_layers_def ancestry_def)
qed

lemma layer_checked:
  assumes "layers_ok L d w"
  shows "check_layer L d layer = Inr ()"
proof -
  have h: "history_ok L d (layer_rows layer d)" and a: "\<forall>row \<in> set (db_layer_attempts d). \<exists>outcome. settled L d (la_id row) outcome"
    using assms by (simp_all add: layers_ok_def attempts_ok_def)
  from check_events_ok [OF h layers_ancestry [OF assms cache_ok_Nil]] obtain seen1 where
    s1: "check_events L d False layer [] = Inr seen1" "ancestry L d False seen1" by blast
  have "\<forall>operation \<in> set (map la_id (filter (\<lambda>r. la_layer r = layer) (db_layer_attempts d))). \<exists>outcome. settled L d operation outcome"
    using a by auto
  from check_layer_attempts_ok [OF s1(2) this] show ?thesis using s1(1) by (auto simp: check_layer_def)
qed

end
