(* ===== verification/LayerUpdates.thy ===== *)
theory LayerUpdates
  imports LayerState
begin

text \<open>
  The operations on Layers keep the invariant of \<open>LayerState\<close>, and the update of a head is a compare-and-swap: it applies
  exactly when the expected head is the latest event, and otherwise reports the latest one.
\<close>

section \<open>Frames\<close>

definition framed :: "db \<Rightarrow> db \<Rightarrow> bool" where
  "framed d d' \<longleftrightarrow> (\<exists>os hs as ss ps. d' = d\<lparr>db_objects := db_objects d @ os, db_heads := db_heads d @ hs,
     db_layer_attempts := db_layer_attempts d @ as, db_stacks := db_stacks d @ ss, db_paths := ps\<rparr>)"

lemma framed_adds: "adds_objects d d' \<Longrightarrow> framed d d'"
  unfolding framed_def adds_objects_def
proof -
  assume "\<exists>rows. d' = d\<lparr>db_objects := db_objects d @ rows\<rparr>"
  then obtain rows where "d' = d\<lparr>db_objects := db_objects d @ rows\<rparr>" by blast
  then have "d' = d\<lparr>db_objects := db_objects d @ rows, db_heads := db_heads d @ [], db_layer_attempts := db_layer_attempts d @ [],
      db_stacks := db_stacks d @ [], db_paths := db_paths d\<rparr>" by simp
  then show "\<exists>os hs as ss ps. d' = d\<lparr>db_objects := db_objects d @ os, db_heads := db_heads d @ hs,
     db_layer_attempts := db_layer_attempts d @ as, db_stacks := db_stacks d @ ss, db_paths := ps\<rparr>" by blast
qed

lemma framed_refl [simp]: "framed d d"
  by (rule framed_adds) simp

lemma framed_trans: "framed a b \<Longrightarrow> framed b c \<Longrightarrow> framed a c"
  unfolding framed_def by force

lemma framed_keeps: "framed d d' \<Longrightarrow> keeps_objects d d'"
  unfolding framed_def keeps_objects_def by (auto simp: object_at_def find_row_append)

lemma repo_ok_framed:
  assumes "repo_ok E d w" "objects_ok E d'" "framed d d'"
  shows "repo_ok E d' w"
proof -
  obtain os hs as ss ps where d': "d' = d\<lparr>db_objects := db_objects d @ os, db_heads := db_heads d @ hs,
     db_layer_attempts := db_layer_attempts d @ as, db_stacks := db_stacks d @ ss, db_paths := ps\<rparr>"
    using assms(3) unfolding framed_def by blast
  have k: "keeps_objects d d'" by (rule framed_keeps [OF assms(3)])
  have "versions_ok E d' w"
    using assms(1) stands_keeps [OF _ k] linked_mono [of E d w _ d' w] unfolding repo_ok_def versions_ok_def by (simp add: d')
  moreover have "attempt_ok E d' row" if "row \<in> set (db_attempts d')" for row
    using assms(1) that by (intro attempt_ok_mono [OF _ k]) (auto simp: repo_ok_def d')
  ultimately show ?thesis using assms(1,2) by (simp add: repo_ok_def d' changes_rows_ok_def validate_format_iff)
qed

lemma framed_identity: "framed d d' \<Longrightarrow> identity_in d' = identity_in d"
  by (auto simp: framed_def identity_in_def)

text \<open>Growth of a frame, and the histories that it leaves alone.\<close>

lemma framed_grown:
  assumes "repo_ok E d w" "objects_ok E d'" "framed d d'"
    "\<And>r. r \<in> set (db_stacks d') \<Longrightarrow> r \<notin> set (db_stacks d) \<Longrightarrow> sr_id r \<notin> la_id ` set (db_layer_attempts d)" "distinct (map sr_id (db_stacks d'))"
  shows "grown E d w d' w"
proof -
  obtain os hs as ss ps where d': "d' = d\<lparr>db_objects := db_objects d @ os, db_heads := db_heads d @ hs,
     db_layer_attempts := db_layer_attempts d @ as, db_stacks := db_stacks d @ ss, db_paths := ps\<rparr>"
    using assms(3) unfolding framed_def by blast
  have "sr_id r \<notin> la_id ` set (db_layer_attempts d)" if "r \<in> set ss" for r
    using assms(4) [of r] assms(5) that by (auto simp: d')
  then show ?thesis
    using assms(1) repo_ok_framed [OF assms(1-3)] framed_keeps [OF assms(3)] by (auto simp: grown_def d')
qed

lemma follows_grown:
  assumes "codecs_ok L" "grown (co_env L) d w d' w'" "follows L d prev row"
  shows "follows L d' prev row"
  using assms(3) settled_grown [OF assms(1,2)] identity_grown [OF assms(2)] unfolding follows_def by metis

lemma based_grown:
  assumes "codecs_ok L" "grown (co_env L) d w d' w'" "based L d base r"
  shows "based L d' base r"
  using assms(3) checkpoint_node_grown [OF assms(1,2)] unfolding based_def by blast

lemma history_grown:
  assumes "codecs_ok L" "grown (co_env L) d w d' w'" "history_ok L d rs"
  shows "history_ok L d' rs"
proof -
  obtain base where "\<forall>r \<in> set rs. based L d base r" using assms(3) unfolding history_ok_def by blast
  then have "\<forall>r \<in> set rs. based L d' base r" using based_grown [OF assms(1,2)] by blast
  then show ?thesis using assms(3) follows_grown [OF assms(1,2)] unfolding history_ok_def by blast
qed

lemma history_snoc:
  assumes "history_ok L d rs" "length rs < 2 ^ 63" "hr_revision row = int (length rs)"
    "rs = [] \<Longrightarrow> (\<exists>base. based L d base row) \<and> hr_operation row = None \<and> hr_discarded row = 0"
    "rs \<noteq> [] \<Longrightarrow> follows L d (last rs) row \<and> (\<exists>base. based L d base (last rs) \<and> based L d base row)"
  shows "history_ok L d (rs @ [row])"
proof (cases "rs = []")
  case True
  then show ?thesis using assms by (auto simp: history_ok_def)
next
  case False
  obtain base where base: "\<forall>r \<in> set rs. based L d base r" using assms(1) unfolding history_ok_def by blast
  then have "based L d base (last rs)" using False by simp
  then have "based L d base row" using assms(5) [OF False] by (auto simp: based_def)
  then have b: "\<forall>r \<in> set (rs @ [row]). based L d base r" using base by simp
  have "follows L d ((rs @ [row]) ! i) ((rs @ [row]) ! Suc i)" if "Suc i < length (rs @ [row])" for i
  proof (cases "Suc i = length rs")
    case True
    then have "rs ! i = last rs" using False by (simp add: last_conv_nth flip: True)
    then show ?thesis using assms(5) [OF False] True by (simp add: nth_append)
  next
    case neq: False
    then show ?thesis using that assms(1) by (simp add: nth_append history_ok_def)
  qed
  moreover have "hr_revision ((rs @ [row]) ! i) = int i" if "i < length (rs @ [row])" for i
    using that assms(1,3) by (auto simp: nth_append history_ok_def less_Suc_eq)
  ultimately show ?thesis using assms(1,2) b False unfolding history_ok_def by auto
qed

section \<open>Preparing a checkpoint\<close>

lemma checkpoints_ok_snoc:
  assumes "codecs_ok L" "grown (co_env L) d w d' w'" "checkpoints_ok L d" "db_objects d' = db_objects d @ rows"
    "\<And>k. k < length rows \<Longrightarrow> or_kind (rows ! k) = kind_sql Checkpoint \<Longrightarrow> \<exists>node. checkpoint_node L d' (or_id (rows ! k)) = Inr node
       \<and> (\<forall>source \<in> set (lc_sources node). \<exists>n. checkpoint_node L d source = Inr n)"
  shows "checkpoints_ok L d'"
  unfolding checkpoints_ok_def
proof (intro allI impI)
  fix k assume k: "stored_checkpoint (db_objects d') k"
  have old: "stored_checkpoint (db_objects d') j \<and> db_objects d' ! j = db_objects d ! j" if "stored_checkpoint (db_objects d) j" for j
    using that assms(4) by (auto simp: stored_checkpoint_def nth_append)
  show "\<exists>node. checkpoint_node L d' (or_id (db_objects d' ! k)) = Inr node
    \<and> (\<forall>source \<in> set (lc_sources node). \<exists>j < k. stored_checkpoint (db_objects d') j \<and> or_id (db_objects d' ! j) = source)"
  proof (cases "k < length (db_objects d)")
    case True
    then have s: "stored_checkpoint (db_objects d) k" "db_objects d' ! k = db_objects d ! k"
      using k assms(4) by (auto simp: stored_checkpoint_def nth_append)
    then obtain node where node: "checkpoint_node L d (or_id (db_objects d ! k)) = Inr node"
      "\<forall>source \<in> set (lc_sources node). \<exists>j < k. stored_checkpoint (db_objects d) j \<and> or_id (db_objects d ! j) = source"
      using assms(3) unfolding checkpoints_ok_def by blast
    have "\<forall>source \<in> set (lc_sources node). \<exists>j < k. stored_checkpoint (db_objects d') j \<and> or_id (db_objects d' ! j) = source"
      using node(2) old by fastforce
    then show ?thesis using checkpoint_node_grown [OF assms(1,2) node(1)] s(2) by auto
  next
    case False
    then have new: "k - length (db_objects d) < length rows" "db_objects d' ! k = rows ! (k - length (db_objects d))"
      "or_kind (rows ! (k - length (db_objects d))) = kind_sql Checkpoint"
      using k assms(4) by (auto simp: stored_checkpoint_def nth_append)
    obtain node where node: "checkpoint_node L d' (or_id (db_objects d' ! k)) = Inr node"
      "\<forall>source \<in> set (lc_sources node). \<exists>n. checkpoint_node L d source = Inr n"
      unfolding new(2) using assms(5) [OF new(1,3)] by blast
    have "\<exists>j < k. stored_checkpoint (db_objects d') j \<and> or_id (db_objects d' ! j) = source" if "source \<in> set (lc_sources node)" for source
    proof -
      from node(2) that have "\<exists>n. checkpoint_node L d source = Inr n" by blast
      then obtain n where "checkpoint_node L d source = Inr n" by blast
      from node_stored [OF this] obtain j where j: "stored_checkpoint (db_objects d) j" "or_id (db_objects d ! j) = source" by blast
      then have "j < k" using False by (simp add: stored_checkpoint_def)
      then show ?thesis using old [OF j(1)] j(2) by auto
    qed
    then show ?thesis using node(1) by blast
  qed
qed

lemma insert_object_rows:
  assumes "insert_object E k bs d = Inr (i, d')"
  obtains rows where "db_objects d' = db_objects d @ rows" "\<forall>r \<in> set rows. r = \<lparr>or_id = i, or_kind = kind_sql k, or_bytes = bs\<rparr>"
proof (cases "object_at d (object_hash (en_sha E) k bs)")
  case None
  then have "db_objects d' = db_objects d @ [\<lparr>or_id = i, or_kind = kind_sql k, or_bytes = bs\<rparr>]"
    using assms by (auto simp: insert_object_def Let_def result_simps split: if_splits)
  then show thesis by (rule that) simp
next
  case (Some r)
  then have "d' = d" using assms by (auto simp: insert_object_def Let_def result_simps split: if_splits)
  then show thesis using that [of "[]"] by simp
qed

lemma layers_ok_objects:
  assumes "codecs_ok L" "layers_ok L d w" "objects_ok (co_env L) d'" "adds_objects d d'" "checkpoints_ok L d'"
  shows "layers_ok L d' w"
proof -
  have f: "framed d d'" by (rule framed_adds [OF assms(4)])
  have same: "db_stacks d' = db_stacks d" "db_layer_attempts d' = db_layer_attempts d" "db_heads d' = db_heads d"
    using assms(4) by (auto simp: adds_objects_def)
  have r: "repo_ok (co_env L) d w" "attempts_ok L d" using assms(2) by (simp_all add: layers_ok_def)
  then have g: "grown (co_env L) d w d' w" using same by (intro framed_grown [OF _ assms(3) f]) (auto simp: attempts_ok_def)
  have "history_ok L d' (layer_rows layer d')" for layer
    using history_grown [OF assms(1) g] assms(2) same by (simp add: layers_ok_def layer_rows_def)
  moreover have "attempts_ok L d'" using r(2) settled_grown [OF assms(1) g] same unfolding attempts_ok_def by metis
  ultimately show ?thesis
    using assms(2,5) repo_ok_framed [OF r(1) assms(3) f] framed_identity [OF f] by (simp add: layers_ok_def)
qed

lemma objects_grown:
  assumes "layers_ok L d w" "objects_ok (co_env L) d'" "adds_objects d d'"
  shows "grown (co_env L) d w d' w"
  using assms by (intro framed_grown [OF _ assms(2) framed_adds [OF assms(3)]]) (auto simp: layers_ok_def attempts_ok_def adds_objects_def)

text \<open>Objects of other kinds.\<close>

lemma insert_other:
  assumes "codecs_ok L" "layers_ok L d w" "insert_object (co_env L) k bs d = Inr (i, d')" "k \<noteq> Checkpoint"
  shows "layers_ok L d' w" "adds_objects d d'" "read_object (co_env L) d' i k = Inr bs" "objects_ok (co_env L) d'"
proof -
  have ok: "objects_ok (co_env L) d" using assms(2) by (simp add: layers_ok_def repo_ok_def)
  note i = insert_object_Inr [OF ok assms(3)]
  show "adds_objects d d'" "read_object (co_env L) d' i k = Inr bs" "objects_ok (co_env L) d'" using i by simp_all
  have g: "grown (co_env L) d w d' w" by (rule objects_grown [OF assms(2) i(2,3)])
  obtain rows where rows: "db_objects d' = db_objects d @ rows" "\<forall>r \<in> set rows. r = \<lparr>or_id = i, or_kind = kind_sql k, or_bytes = bs\<rparr>"
    by (rule insert_object_rows [OF assms(3)])
  then have kinds: "or_kind (rows ! n) = kind_sql k" if "n < length rows" for n
    using bspec [OF rows(2) nth_mem [OF that]] by simp
  have "checkpoints_ok L d'"
    by (rule checkpoints_ok_snoc [OF assms(1) g _ rows(1)]) (use assms(2,4) kinds kind_sql_inj [of k Checkpoint] in \<open>auto simp: layers_ok_def\<close>)
  then show "layers_ok L d' w" by (rule layers_ok_objects [OF assms(1,2) i(2,3)])
qed

text \<open>Text and provenance as the types of the code hold them.\<close>

definition changes_text :: "changes \<Rightarrow> bool" where
  "changes_text ch \<longleftrightarrow> omap_ok ch \<and> (\<forall>p \<in> fst ` set ch. path_ok p \<and> utf8 p)"

definition provenance_ok :: "provenance option \<Rightarrow> bool" where
  "provenance_ok provenance \<longleftrightarrow> (\<forall>p. provenance = Some p \<longrightarrow>
     provenance_new (pv_actor p) (pv_agent p) (pv_session p) (pv_reference p) = Inr p)"

lemma entry_id:
  assumes "hash_ok (en_sha E)" "validate_entry E d x = Inr u"
  shows "oid_ok (entry_content x)"
proof -
  obtain bs where "read_object E d (entry_content x) Blob = Inr bs" using assms(2) by (auto simp: validate_entry_def result_simps)
  then obtain k b where "object_hash (en_sha E) k b = entry_content x" by (auto simp: read_object_def result_simps split: if_splits)
  then have "length (entry_content x) = 32" using assms(1) by (metis hash_ok_def object_hash_def)
  then show ?thesis by (simp add: oid_ok_def)
qed

lemma prepare_provenance_spec:
  assumes "codecs_ok L" "layers_ok L d w" "provenance_ok provenance" "prepare_provenance L provenance d = Inr (stored, d')"
  shows "layers_ok L d' w \<and> adds_objects d d' \<and> objects_ok (co_env L) d' \<and> check_provenance L d' stored = Inr ()"
proof (cases provenance)
  case None
  then show ?thesis using assms(2,4) by (auto simp: prepare_provenance_def tx_result check_provenance_def layers_ok_def repo_ok_def)
next
  case (Some p)
  then obtain i where i: "insert_object (co_env L) Blob (co_provenance L p) d = Inr (i, d')" "stored = Some i"
    using assms(4) by (auto simp: prepare_provenance_def tx_result store_provenance_def)
  note b = insert_other [OF assms(1,2) i(1), simplified]
  have "provenance_new (pv_actor p) (pv_agent p) (pv_session p) (pv_reference p) = Inr p" using assms(3) Some by (simp add: provenance_ok_def)
  then have "read_provenance L d' i = Inr p"
    using b(3) assms(1) by (simp add: read_provenance_def provenance_decode_def codecs_ok_def)
  then show ?thesis using b i(2) by (simp add: check_provenance_def)
qed

lemma sources_ascend_iff: "sources_ascend xs \<longleftrightarrow> oset_ok xs"
  by (induction xs rule: sources_ascend.induct) (auto simp: oset_ok_def dest: less_trans)

definition prepared_node :: "layer_base \<Rightarrow> object_id list \<Rightarrow> candidate \<Rightarrow> layer_checkpoint" where
  "prepared_node base sources candidate =
     \<lparr>lc_id = ca_id candidate, lc_base = base, lc_changes = ca_changes candidate, lc_sources = sources,
      lc_provenance = ca_provenance candidate\<rparr>"

lemma prepare_checkpoint_spec:
  assumes "codecs_ok L" "layers_ok L d w" "changes_text ch" "provenance_ok provenance" "oset_ok sources"
    "\<forall>s \<in> set sources. \<exists>n. checkpoint_node L d s = Inr n"
    "prepare_checkpoint L base ch sources provenance d = Inr (candidate, d')"
  shows "layers_ok L d' w" "adds_objects d d'" "objects_ok (co_env L) d'" "checkpoint_node L d' (ca_id candidate) = Inr (prepared_node base sources candidate)"
    "normalize (index_in (co_env L) d (lb_version base)) ch = Inr (ca_changes candidate)"
proof -
  let ?E = "co_env L" let ?v = "unat (lb_version base)"
  obtain ch' d1 i where base: "validate_base base d = Inr ()"
    and norm: "normalize (index_in ?E d (lb_version base)) ch = Inr ch'"
    and prov: "prepare_provenance L provenance d = Inr (ca_provenance candidate, d1)"
    and ins: "insert_object ?E Checkpoint (checkpoint_bytes L base ch' sources (ca_provenance candidate)) d1 = Inr (i, d')"
    and cand: "ca_id candidate = i" "ca_changes candidate = ch'"
    using assms(7) unfolding prepare_checkpoint_def by (auto simp: tx_result)
  show "normalize (index_in ?E d (lb_version base)) ch = Inr (ca_changes candidate)" using norm cand by simp
  have p: "layers_ok L d1 w" "adds_objects d d1" "objects_ok ?E d1" "check_provenance L d1 (ca_provenance candidate) = Inr ()"
    using prepare_provenance_spec [OF assms(1,2,4) prov] by simp_all
  note o = insert_object_Inr [OF p(3) ins]
  have r: "repo_ok ?E d w" using assms(2) by (simp add: layers_ok_def)
  show add: "adds_objects d d'" by (rule adds_objects_trans [OF p(2) o(3)])
  show obj: "objects_ok ?E d'" by (rule o(2))
  have g: "grown ?E d w d' w" by (rule objects_grown [OF assms(2) obj add])
  have g1: "grown ?E d1 w d' w" by (rule objects_grown [OF p(1) o(2,3)])
  have r': "repo_ok ?E d' w" using g by (simp add: grown_def)
  have v: "?v < length w" by (rule base_version [OF r base])
  let ?f = "fst (w ! ?v)"
  have ok: "omap_ok ch" using assms(3) by (simp add: changes_text_def)
  from norm have n: "ch' = filter (\<lambda>(p, e). ?f p \<noteq> e) ch" "\<forall>p x. (p, Some x) \<in> set ch \<longrightarrow> validate_entry ?E d x = Inr ()"
      "disjoint_paths (upd ?f ch)"
    unfolding normalize_in_iff [OF r v ok] by simp_all
  have ok': "omap_ok ch'" using tabled.changed_ok [OF ok, of "(?E, d, x, ?f)" for x] by (simp add: tabled.changed_def n(1))
  have "upd ?f ch' = upd ?f ch" using tabled.changed_upd [OF ok, of "(?E, d, x, ?f)" for x] by (simp add: tabled.changed_def n(1))
  moreover have "\<not> ambiguous ?f ch'" by (auto simp: ambiguous_def n(1))
  moreover have "\<forall>p x. (p, Some x) \<in> set ch' \<longrightarrow> validate_entry ?E d' x = Inr ()"
    using n(2) validate_entry_keeps [OF adds_keeps [OF add]] by (auto simp: n(1))
  ultimately have norm': "normalize (index_in ?E d' (lb_version base)) ch' = Inr ch'"
    unfolding normalize_in_iff [OF r' v ok'] using n(3) by (auto simp: n(1) filter_id_conv)
  have lettered: "path_ok (fst c) \<and> change_text_ok c" if "c \<in> set ch'" for c
  proof -
    have c: "c \<in> set ch" using that by (simp add: n(1))
    have "oid_ok (entry_content e)" if "snd c = Some e" for e
    proof -
      have "(fst c, Some e) \<in> set ch" using c that by (metis prod.collapse)
      then have "validate_entry ?E d e = Inr ()" using n(2) by blast
      moreover have "hash_ok (en_sha ?E)" using assms(1) by (simp add: codecs_ok_def env_ok_def)
      ultimately show ?thesis using entry_id by blast
    qed
    then show ?thesis using assms(3) c by (auto simp: changes_text_def change_text_ok_def)
  qed
  have "?v < 2 ^ 63" using repo_versions(5) [OF r v] .
  then have ver: "version_ok (lb_version base)" by (simp add: version_ok_def word_le_nat_alt)
  have "checkpoint_at L d' i (prepared_node base sources candidate)"
    unfolding checkpoint_at_def prepared_node_def
    using o(4) ver ok' lettered norm' validate_base_grown [OF g base] assms(5)
      check_provenance_keeps [OF adds_keeps [OF o(3)] p(4)] cand by (simp add: sources_ascend_iff)
  then show node: "checkpoint_node L d' (ca_id candidate) = Inr (prepared_node base sources candidate)"
    unfolding checkpoint_node_iff [OF assms(1)] cand .
  have src: "\<forall>s \<in> set sources. \<exists>n. checkpoint_node L d1 s = Inr n"
    using assms(6) checkpoint_node_grown [OF assms(1) objects_grown [OF assms(2) p(3,2)]] by blast
  obtain rows where rows: "db_objects d' = db_objects d1 @ rows"
    "\<forall>r \<in> set rows. r = \<lparr>or_id = i, or_kind = kind_sql Checkpoint, or_bytes = checkpoint_bytes L base ch' sources (ca_provenance candidate)\<rparr>"
    by (rule insert_object_rows [OF ins])
  have "checkpoints_ok L d'"
  proof (rule checkpoints_ok_snoc [OF assms(1) g1 _ rows(1)])
    show "checkpoints_ok L d1" using p(1) by (simp add: layers_ok_def)
    fix k assume "k < length rows"
    then have "or_id (rows ! k) = i" using rows(2) nth_mem by fastforce
    then show "\<exists>node. checkpoint_node L d' (or_id (rows ! k)) = Inr node \<and> (\<forall>source \<in> set (lc_sources node). \<exists>n. checkpoint_node L d1 source = Inr n)"
      using node src cand(1) by (simp add: prepared_node_def)
  qed
  then show "layers_ok L d' w" by (rule layers_ok_objects [OF assms(1,2) obj add])
qed

section \<open>The compare-and-swap\<close>

text \<open>The head that an operation expects, as \<open>verify_head\<close> accepts it.\<close>

definition head_at :: "db \<Rightarrow> layer_head \<Rightarrow> nat \<Rightarrow> bool" where
  "head_at d head n \<longleftrightarrow> n < length (layer_rows (lh_layer head) d) \<and> lh_revision head = num n
     \<and> hr_discarded (layer_rows (lh_layer head) d ! n) = 0 \<and> hr_checkpoint (layer_rows (lh_layer head) d ! n) = lh_checkpoint head
     \<and> identity_in d = Inr (lh_repository head)"

lemma verify_head_iff:
  assumes "history_ok L d (layer_rows (lh_layer head) d)"
  shows "verify_head head d = Inr () \<longleftrightarrow> (\<exists>n. head_at d head n)"
proof -
  let ?rs = "layer_rows (lh_layer head) d"
  note ev = event_in_spec [OF assms]
  have len: "length ?rs \<le> 2 ^ 63" using assms by (simp add: history_ok_def)
  have disc: "hr_discarded r = 0 \<longleftrightarrow> \<not> hr_discarded r = 1" if "r \<in> set ?rs" for r
    using assms that by (auto simp: history_ok_def based_def)
  show ?thesis
  proof
    assume h: "verify_head head d = Inr ()"
    let ?v = "version_sql (lh_revision head)"
    have v: "0 \<le> ?v" "nat ?v < length ?rs" "identity_in d = Inr (lh_repository head)"
        "\<not> ev_discarded (event_of (?rs ! nat ?v))" "ev_checkpoint (event_of (?rs ! nat ?v)) = lh_checkpoint head"
      using h by (auto simp: verify_head_def revision_from_def ev result_simps split: if_splits)
    have "lh_revision head = num (nat ?v)" using version_sql_num [of "lh_revision head" "nat ?v"] v(1) by simp
    then have "head_at d head (nat ?v)" using v disc [of "?rs ! nat ?v"] by (simp add: head_at_def event_of_def)
    then show "\<exists>n. head_at d head n" by blast
  next
    assume "\<exists>n. head_at d head n"
    then obtain n where n: "head_at d head n" by blast
    then have "version_sql (lh_revision head) = int n" using len by (simp add: head_at_def)
    then show "verify_head head d = Inr ()" using n by (simp add: verify_head_def revision_from_def ev head_at_def event_of_def)
  qed
qed

lemma layer_rows_nth: "n < length (layer_rows layer d) \<Longrightarrow> hr_layer (layer_rows layer d ! n) = layer"
proof -
  assume "n < length (layer_rows layer d)"
  then have "layer_rows layer d ! n \<in> set (layer_rows layer d)" by simp
  then show ?thesis by (simp add: layer_rows_def)
qed

text \<open>What a successful write of a fresh operation has done.\<close>

definition swapped :: "codecs \<Rightarrow> db \<Rightarrow> string \<Rightarrow> layer_head \<Rightarrow> object_id \<Rightarrow> bool \<Rightarrow> layer_update \<Rightarrow> db \<Rightarrow> bool" where
  "swapped L d operation expected checkpoint discard outcome d' \<longleftrightarrow>
     (let rs = layer_rows (lh_layer expected) d;
          row = \<lparr>hr_layer = lh_layer expected, hr_revision = int (length rs), hr_checkpoint = checkpoint,
                 hr_discarded = (if discard then 1 else 0), hr_operation = Some operation\<rparr>
      in if lh_revision expected = num (length rs - 1)
         then db_heads d' = db_heads d @ [row] \<and> outcome = UpdateApplied (event_state (lh_repository expected) (event_of row))
         else db_heads d' = db_heads d \<and> outcome = UpdateStale (event_state (lh_repository expected) (event_of (last rs))))"

lemma track_in_spec:
  assumes "track_in layer head d = Inr (u, d')"
  shows "\<exists>ps. d' = d\<lparr>db_paths := ps\<rparr>"
proof (cases "tracked_in layer d")
  case (Inr stale)
  then show ?thesis using assms
    by (cases "track_changes layer head (ca_changes head) stale (db_paths d)") (auto simp: track_in_def)
qed (use assms in \<open>simp add: track_in_def\<close>)

text \<open>The indexing step, which the rest does not depend on.\<close>

definition indexed :: "db \<Rightarrow> string \<Rightarrow> candidate \<Rightarrow> bool \<Rightarrow> path_row list \<Rightarrow> bool" where
  "indexed d layer candidate discard rows \<longleftrightarrow>
     (if discard then untrack_in layer else track_in layer candidate) d = Inr ((), d\<lparr>db_paths := rows\<rparr>)"

lemma indexed_frame:
  assumes "db_paths d' = db_paths d" "indexed d layer candidate discard rows"
  shows "indexed d' layer candidate discard rows"
proof (cases discard)
  case True
  have "rows = filter (\<lambda>r. pr_layer r \<noteq> layer) (db_paths d)"
    using assms(2) True by (auto simp: indexed_def untrack_in_def dest: arg_cong [of _ _ db_paths])
  then show ?thesis using assms(1) True by (simp add: indexed_def untrack_in_def)
next
  case False
  obtain stale where s: "tracked_in layer d = Inr stale"
    using assms(2) False by (cases "tracked_in layer d") (auto simp: indexed_def track_in_def)
  obtain gone rs where t: "track_changes layer candidate (ca_changes candidate) stale (db_paths d) = (gone, rs)" by fastforce
  have "rows = filter (\<lambda>r. \<not> (pr_layer r = layer \<and> omap_has gone (pr_path r))) rs"
    using assms(2) False s t by (auto simp: indexed_def track_in_def dest: arg_cong [of _ _ db_paths])
  then show ?thesis using assms(1) False s t by (simp add: indexed_def track_in_def tracked_in_def)
qed

definition paths_moved :: "db \<Rightarrow> string \<Rightarrow> candidate \<Rightarrow> bool \<Rightarrow> bool \<Rightarrow> path_row list \<Rightarrow> bool" where
  "paths_moved d layer candidate discard accepted rows \<longleftrightarrow>
     (if accepted then indexed d layer candidate discard rows else rows = db_paths d)"

lemma move_head_spec:
  assumes "move_head operation expected candidate discard result d = Inr (u, d')"
  shows "\<exists>ps. indexed d (lh_layer expected) candidate discard ps
    \<and> d' = d\<lparr>db_heads := db_heads d @ [\<lparr>hr_layer = lh_layer expected, hr_revision = result, hr_checkpoint = ca_id candidate,
      hr_discarded = (if discard then 1 else 0), hr_operation = Some operation\<rparr>], db_paths := ps\<rparr>"
proof -
  let ?row = "\<lparr>hr_layer = lh_layer expected, hr_revision = result, hr_checkpoint = ca_id candidate,
      hr_discarded = (if discard then 1 else 0), hr_operation = Some operation\<rparr>"
  obtain d1 where d1: "insert_head ?row d = Inr ((), d1)"
    and rest: "(if discard then untrack_in (lh_layer expected) else track_in (lh_layer expected) candidate) d1 = Inr (u, d')"
    using assms by (auto simp: move_head_def tx_bind_Inr)
  have d1: "d1 = d\<lparr>db_heads := db_heads d @ [?row]\<rparr>" using d1 by (auto simp: insert_head_def result_simps split: if_splits)
  have "\<exists>ps. d' = d1\<lparr>db_paths := ps\<rparr>" using rest track_in_spec by (auto simp: untrack_in_def split: if_splits)
  then obtain ps where ps: "d' = d1\<lparr>db_paths := ps\<rparr>" by blast
  then have "indexed d1 (lh_layer expected) candidate discard ps" using rest by (simp add: indexed_def)
  then have "indexed d (lh_layer expected) candidate discard ps" by (rule indexed_frame [rotated]) (simp add: d1)
  then show ?thesis using ps d1 by auto
qed

lemma bind_stack_spec:
  assumes "bind_stack L operation expected candidate source resolution accepted result d = Inr (u, d')"
  shows "source = None \<and> d' = d \<or>
    (\<exists>i binding d1 outcome. source = Some i
       \<and> insert_object (co_env L) Blob (binding_bytes L operation expected i (ca_id candidate) outcome resolution) d = Inr (binding, d1)
       \<and> operation \<notin> sr_id ` set (db_stacks d1)
       \<and> d' = d1\<lparr>db_stacks := db_stacks d1 @ [\<lparr>sr_id = operation, sr_source = i, sr_binding = binding\<rparr>]\<rparr>)"
  using assms unfolding bind_stack_def record_stack_in_def Let_def
  by (cases source) (auto simp: tx_result result_simps)

lemma update_shape:
  assumes "layers_ok L d w" "head_at d expected n"
    "settle_update L operation expected candidate discard source resolution d = Inr (outcome, d')"
  defines "rs \<equiv> layer_rows (lh_layer expected) d"
  defines "accepted \<equiv> n = length rs - 1"
  defines "result \<equiv> if accepted then length rs else length rs - 1"
  shows "accepted \<Longrightarrow> length rs < 2 ^ 63"
    "operation \<notin> la_id ` set (db_layer_attempts d)" "update_outcome L operation d' = Inr outcome"
    "\<exists>ps d1. paths_moved d (lh_layer expected) candidate discard accepted ps
       \<and> d1 = d\<lparr>db_layer_attempts := db_layer_attempts d @ [\<lparr>la_id = operation, la_layer = lh_layer expected, la_expected = int n,
           la_checkpoint = ca_id candidate, la_discard = (if discard then 1 else 0), la_stack = (if source = None then 0 else 1),
           la_accepted = (if accepted then 1 else 0), la_result = int result\<rparr>],
         db_heads := db_heads d @ (if accepted then [\<lparr>hr_layer = lh_layer expected, hr_revision = int (length rs),
           hr_checkpoint = ca_id candidate, hr_discarded = (if discard then 1 else 0), hr_operation = Some operation\<rparr>] else []),
         db_paths := ps\<rparr>
       \<and> (source = None \<and> d' = d1 \<or>
          (\<exists>i binding d2 o'. source = Some i
            \<and> insert_object (co_env L) Blob (binding_bytes L operation expected i (ca_id candidate) o' resolution) d1 = Inr (binding, d2)
            \<and> operation \<notin> sr_id ` set (db_stacks d2)
            \<and> d' = d2\<lparr>db_stacks := db_stacks d2 @ [\<lparr>sr_id = operation, sr_source = i, sr_binding = binding\<rparr>]\<rparr>))"
proof -
  have h: "history_ok L d rs" using assms(1) by (simp add: layers_ok_def rs_def)
  have n: "n < length rs" "lh_revision expected = num n" using assms(2) by (simp_all add: head_at_def rs_def)
  have len: "length rs \<le> 2 ^ 63" using h by (simp add: history_ok_def)
  have ne: "rs \<noteq> []" using n(1) by auto
  have last: "last rs = rs ! (length rs - 1)" using ne by (rule last_conv_nth)
  have pred: "int (length rs - 1) = int (length rs) - 1" using n(1) by (cases rs) simp_all
  have rev: "hr_revision (last rs) = int (length rs) - 1" "hr_revision (last rs) = int (length rs - 1)"
    using h ne pred unfolding last history_ok_def by simp_all
  have sql: "version_sql (lh_revision expected) = int n" using n len by simp
  have acc: "ev_revision (event_of (last rs)) = version_sql (lh_revision expected) \<and> \<not> ev_discarded (event_of (last rs)) \<longleftrightarrow> accepted"
  proof -
    have "\<not> ev_discarded (event_of (last rs))" if "accepted"
    proof -
      have "rs ! n = last rs" using that last by (simp add: accepted_def)
      then show ?thesis using assms(2) by (simp add: head_at_def rs_def [symmetric] event_of_def)
    qed
    then show ?thesis using n(1) unfolding sql accepted_def by (auto simp: event_of_def rev(2))
  qed
  have latest: "latest_in (lh_layer expected) d = Inr (event_of (last rs))"
    using latest_in_spec [of L d "lh_layer expected"] h ne by (simp add: rs_def)
  let ?arow = "\<lparr>la_id = operation, la_layer = lh_layer expected, la_expected = int n, la_checkpoint = ca_id candidate,
      la_discard = (if discard then 1 else 0), la_stack = (if source = None then 0 else 1),
      la_accepted = (if accepted then 1 else 0), la_result = int result\<rparr>"
  have next': "(if accepted then next_revision (ev_revision (event_of (last rs))) else Inr (ev_revision (event_of (last rs)))) =
      (if accepted \<and> \<not> length rs < 2 ^ 63 then Inl (InvalidInput ''Layer revision overflow'') else Inr (int result))"
    using pred by (simp add: next_revision_def event_of_def rev result_def)
  define P where "P e \<longleftrightarrow> ev_revision e = version_sql (lh_revision expected) \<and> \<not> ev_discarded e" for e :: layer_event
  have P: "P (event_of (last rs)) = accepted" using acc by (simp add: P_def)
  obtain current r u1 da u2 db u3 where c: "latest_in (lh_layer expected) d = Inr current"
    and r: "(if P current then next_revision (ev_revision current) else Inr (ev_revision current)) = Inr r"
    and ins: "insert_layer_attempt \<lparr>la_id = operation, la_layer = lh_layer expected, la_expected = version_sql (lh_revision expected),
        la_checkpoint = ca_id candidate, la_discard = (if discard then 1 else 0), la_stack = (if source = None then 0 else 1),
        la_accepted = (if P current then 1 else 0), la_result = r\<rparr> d = Inr (u1, da)"
    and move: "(if P current then move_head operation expected candidate discard r else tx_ret ()) da = Inr (u2, db)"
    and bind: "bind_stack L operation expected candidate source resolution (P current) r db = Inr (u3, d')"
    and out: "update_outcome L operation d' = Inr outcome"
    using assms(3) unfolding settle_update_def Let_def P_def tx_bind_Inr tx_read_Inr by blast
  have c: "current = event_of (last rs)" using c latest by simp
  have r: "int result = r" "accepted \<longrightarrow> length rs < 2 ^ 63" using r next' unfolding c P by (simp_all split: if_splits)
  show "accepted \<Longrightarrow> length rs < 2 ^ 63" using r(2) by blast
  note ins = ins [unfolded c P sql r(1) [symmetric]] note move = move [unfolded c P r(1) [symmetric]]
  note bind = bind [unfolded c P r(1) [symmetric]]
  show "update_outcome L operation d' = Inr outcome" by (rule out)
  have da: "da = d\<lparr>db_layer_attempts := db_layer_attempts d @ [?arow]\<rparr>" and "operation \<notin> la_id ` set (db_layer_attempts d)"
    using ins by (auto simp: insert_layer_attempt_def result_simps split: if_splits)
  then show "operation \<notin> la_id ` set (db_layer_attempts d)" by simp
  have "\<exists>ps. paths_moved d (lh_layer expected) candidate discard accepted ps
      \<and> db = da\<lparr>db_heads := db_heads d @ (if accepted then [\<lparr>hr_layer = lh_layer expected, hr_revision = int (length rs),
           hr_checkpoint = ca_id candidate, hr_discarded = (if discard then 1 else 0), hr_operation = Some operation\<rparr>] else []), db_paths := ps\<rparr>"
  proof (cases accepted)
    case True
    then have "result = length rs" by (simp add: result_def)
    with move True have "move_head operation expected candidate discard (int (length rs)) da = Inr (u2, db)" by simp
    from move_head_spec [OF this] obtain ps where ps: "indexed da (lh_layer expected) candidate discard ps"
      "db = da\<lparr>db_heads := db_heads da @ [\<lparr>hr_layer = lh_layer expected, hr_revision = int (length rs), hr_checkpoint = ca_id candidate,
        hr_discarded = (if discard then 1 else 0), hr_operation = Some operation\<rparr>], db_paths := ps\<rparr>" by blast
    have "indexed d (lh_layer expected) candidate discard ps" by (rule indexed_frame [OF _ ps(1)]) (simp add: da)
    moreover have "db_heads da = db_heads d" by (simp add: da)
    ultimately show ?thesis using ps(2) True by (auto simp: paths_moved_def)
  next
    case False
    then have "db = da" using move by (simp add: tx_ret_def)
    then show ?thesis using False unfolding da by (intro exI [of _ "db_paths d"]) (cases d, simp add: paths_moved_def)
  qed
  then obtain ps where "paths_moved d (lh_layer expected) candidate discard accepted ps"
    "db = d\<lparr>db_layer_attempts := db_layer_attempts d @ [?arow], db_heads := db_heads d @
      (if accepted then [\<lparr>hr_layer = lh_layer expected, hr_revision = int (length rs), hr_checkpoint = ca_id candidate,
         hr_discarded = (if discard then 1 else 0), hr_operation = Some operation\<rparr>] else []), db_paths := ps\<rparr>"
    unfolding da by auto
  with bind_stack_spec [OF bind] show "\<exists>ps d1. paths_moved d (lh_layer expected) candidate discard accepted ps
       \<and> d1 = d\<lparr>db_layer_attempts := db_layer_attempts d @ [?arow],
         db_heads := db_heads d @ (if accepted then [\<lparr>hr_layer = lh_layer expected, hr_revision = int (length rs),
           hr_checkpoint = ca_id candidate, hr_discarded = (if discard then 1 else 0), hr_operation = Some operation\<rparr>] else []),
         db_paths := ps\<rparr>
       \<and> (source = None \<and> d' = d1 \<or>
          (\<exists>i binding d2 o'. source = Some i
            \<and> insert_object (co_env L) Blob (binding_bytes L operation expected i (ca_id candidate) o' resolution) d1 = Inr (binding, d2)
            \<and> operation \<notin> sr_id ` set (db_stacks d2)
            \<and> d' = d2\<lparr>db_stacks := db_stacks d2 @ [\<lparr>sr_id = operation, sr_source = i, sr_binding = binding\<rparr>]\<rparr>))"
    by blast
qed

lemma settled_row:
  assumes "settled L d operation outcome" "layer_attempt_row_in operation d = Some row"
    "event_in (la_layer row) (la_result row) d = Inr after" "identity_in d = Inr identity"
  shows "outcome = (if la_accepted row = 1 then UpdateApplied else UpdateStale) (event_state identity after)"
  using assms unfolding settled_def settled_as_def by (auto simp: recorded_update_def split: if_splits)

lemma update_kept:
  assumes "codecs_ok L" "layers_ok L d w" "head_at d expected n"
    "checkpoint_node L d (ca_id candidate) = Inr node" "checkpoint_node L d (lh_checkpoint expected) = Inr before"
    "lc_base node = lc_base before" "discard \<Longrightarrow> ca_id candidate = lh_checkpoint expected"
    "settle_update L operation expected candidate discard source resolution d = Inr (outcome, d')"
  shows "layers_ok L d' w" "grown (co_env L) d w d' w" "swapped L d operation expected (ca_id candidate) discard outcome d'"
    "settled L d' operation outcome"
proof -
  define layer where "layer = lh_layer expected"
  define rs where "rs = layer_rows layer d"
  define accepted where "accepted \<longleftrightarrow> n = length rs - 1"
  define result where "result = (if accepted then length rs else length rs - 1)"
  let ?E = "co_env L"
  let ?arow = "\<lparr>la_id = operation, la_layer = layer, la_expected = int n, la_checkpoint = ca_id candidate,
      la_discard = (if discard then 1 else 0), la_stack = (if source = None then 0 else 1),
      la_accepted = (if accepted then 1 else 0), la_result = int result\<rparr>"
  define hrow where "hrow = \<lparr>hr_layer = layer, hr_revision = int (length rs), hr_checkpoint = ca_id candidate,
      hr_discarded = (if discard then 1 else 0), hr_operation = Some operation\<rparr>"
  note shape = update_shape [OF assms(2,3,8), folded layer_def, folded rs_def, folded accepted_def, folded result_def]
  have fresh: "operation \<notin> la_id ` set (db_layer_attempts d)" and out: "update_outcome L operation d' = Inr outcome"
    by (rule shape(2), rule shape(3))
  have h: "history_ok L d rs" and r: "repo_ok ?E d w" and at: "attempts_ok L d" and ck: "checkpoints_ok L d" and ob: "objects_ok ?E d"
    using assms(2) by (simp_all add: layers_ok_def rs_def repo_ok_def)
  obtain base where base: "\<forall>r \<in> set rs. based L d base r" using h unfolding history_ok_def by blast
  have n: "n < length rs" "lh_revision expected = num n" "hr_discarded (rs ! n) = 0" "hr_checkpoint (rs ! n) = lh_checkpoint expected"
    "identity_in d = Inr (lh_repository expected)" using assms(3) by (simp_all add: head_at_def rs_def layer_def)
  have ne: "rs \<noteq> []" using n(1) by auto
  then have last: "last rs = rs ! (length rs - 1)" by (rule last_conv_nth)
  obtain ps d1 where d1: "d1 = d\<lparr>db_layer_attempts := db_layer_attempts d @ [?arow],
      db_heads := db_heads d @ (if accepted then [hrow] else []), db_paths := ps\<rparr>"
    and rest: "source = None \<and> d' = d1 \<or> (\<exists>i binding d2 o'. source = Some i
      \<and> insert_object ?E Blob (binding_bytes L operation expected i (ca_id candidate) o' resolution) d1 = Inr (binding, d2)
      \<and> operation \<notin> sr_id ` set (db_stacks d2)
      \<and> d' = d2\<lparr>db_stacks := db_stacks d2 @ [\<lparr>sr_id = operation, sr_source = i, sr_binding = binding\<rparr>]\<rparr>)"
    using shape(4) unfolding hrow_def by blast
  have ob1: "objects_ok ?E d1" using same_objects_ok [of d1 d ?E] ob by (simp add: d1)
  have new: "\<exists>os ss. d' = d\<lparr>db_objects := db_objects d @ os, db_heads := db_heads d @ (if accepted then [hrow] else []),
      db_layer_attempts := db_layer_attempts d @ [?arow], db_stacks := db_stacks d @ ss, db_paths := ps\<rparr>
      \<and> (\<forall>o' \<in> set os. or_kind o' = kind_sql Blob) \<and> (\<forall>s \<in> set ss. sr_id s = operation) \<and> length ss \<le> 1 \<and> objects_ok ?E d'"
    using rest
  proof (elim disjE exE conjE, goal_cases)
    case 1
    then show ?case using ob1 by (intro exI [of _ "[]"]) (cases d, simp add: d1)
  next
    case (2 i binding d2 o')
    obtain rows where rows: "db_objects d2 = db_objects d1 @ rows"
      "\<forall>r \<in> set rows. r = \<lparr>or_id = binding, or_kind = kind_sql Blob, or_bytes = binding_bytes L operation expected i (ca_id candidate) o' resolution\<rparr>"
      by (rule insert_object_rows [OF 2(2)])
    have o2: "objects_ok ?E d2" "adds_objects d1 d2" using insert_object_Inr [OF ob1 2(2)] by simp_all
    then have "d2 = d1\<lparr>db_objects := db_objects d1 @ rows\<rparr>" using rows(1) by (auto simp: adds_objects_def)
    moreover have "objects_ok ?E d'" using o2(1) same_objects_ok [of d' d2 ?E] 2(4) by simp
    ultimately show ?case using rows(2) 2(4)
      by (intro exI [of _ rows] exI [of _ "[\<lparr>sr_id = operation, sr_source = i, sr_binding = binding\<rparr>]"]) (auto simp: d1)
  qed
  then obtain os ss where d': "d' = d\<lparr>db_objects := db_objects d @ os, db_heads := db_heads d @ (if accepted then [hrow] else []),
      db_layer_attempts := db_layer_attempts d @ [?arow], db_stacks := db_stacks d @ ss, db_paths := ps\<rparr>"
    and os: "\<forall>o' \<in> set os. or_kind o' = kind_sql Blob" and ss: "\<forall>s \<in> set ss. sr_id s = operation" "length ss \<le> 1"
    and ob': "objects_ok ?E d'" by blast
  have fr: "framed d d'" unfolding framed_def d' by blast
  have ds: "distinct (map sr_id (db_stacks d'))" "\<forall>s \<in> set (db_stacks d). sr_id s \<noteq> operation"
  proof -
    show "\<forall>s \<in> set (db_stacks d). sr_id s \<noteq> operation" using at fresh by (auto simp: attempts_ok_def)
    then have "sr_id ` set ss \<inter> sr_id ` set (db_stacks d) = {}" using ss(1) by auto
    moreover have "distinct (map sr_id ss)" using ss(2) by (cases ss) auto
    ultimately show "distinct (map sr_id (db_stacks d'))" using at by (auto simp: d' attempts_ok_def)
  qed
  show g: "grown ?E d w d' w"
    by (rule framed_grown [OF r ob' fr _ ds(1)]) (use ss(1) fresh in \<open>auto simp: d'\<close>)
  have id': "identity_in d' = Inr (lh_repository expected)" using identity_grown [OF g] n(5) by simp
  show set': "settled L d' operation outcome" using out by (simp add: update_outcome_iff)
  have rows': "layer_rows l d' = layer_rows l d @ (if accepted \<and> l = layer then [hrow] else [])" for l
    by (simp add: layer_rows_def d' hrow_def)
  have "find_row (\<lambda>r. la_id r = operation) (db_layer_attempts d) = None" using fresh by (auto simp: find_row_None)
  then have arow: "layer_attempt_row_in operation d' = Some ?arow"
    unfolding layer_attempt_row_in_def d' by (simp add: find_row_append) (simp add: find_row_def)
  have after: "event_in layer (int result) d' = Inr (event_of (if accepted then hrow else last rs))"
  proof (cases accepted)
    case True
    have "event_row layer (int (length rs)) d' = find_row (\<lambda>r. hr_revision r = int (length rs)) (rs @ [hrow])"
      unfolding event_row_def using rows' [of layer] True by (simp add: find_row_filter layer_rows_def rs_def)
    also have "\<dots> = Some hrow"
      using find_numbered [of rs hr_revision "int (length rs)"] h by (simp add: find_row_append history_ok_def) (simp add: find_row_def hrow_def)
    finally show ?thesis using True by (auto simp: event_in_def ok_or_def result_def hrow_def event_of_def)
  next
    case False
    have "event_in layer (int (length rs - 1)) d = Inr (event_of (last rs))"
      using event_in_spec [of L d layer "int (length rs - 1)"] h ne by (simp add: rs_def [symmetric] last)
    from event_in_grown [OF g this] show ?thesis using False by (simp add: result_def)
  qed
  have o: "outcome = (if accepted then UpdateApplied (event_state (lh_repository expected) (event_of hrow))
      else UpdateStale (event_state (lh_repository expected) (event_of (last rs))))"
    using settled_row [OF set' arow _ id'] after by (cases accepted) simp_all
  have rev: "lh_revision expected = num (length rs - 1) \<longleftrightarrow> accepted"
  proof -
    have "length rs \<le> 2 ^ 63" using h by (simp add: history_ok_def)
    then have "length rs - 1 < 2 ^ 63" "n < 2 ^ 63" using n(1) ne by auto
    then show ?thesis by (simp add: n(2) accepted_def)
  qed
  show "swapped L d operation expected (ca_id candidate) discard outcome d'"
    unfolding swapped_def Let_def layer_def [symmetric] rs_def [symmetric] rev by (simp add: o d' hrow_def)
  have hist: "history_ok L d' (layer_rows l d')" for l
  proof (cases "accepted \<and> l = layer")
    case False
    then have "layer_rows l d' = layer_rows l d" by (simp add: rows')
    then show ?thesis using history_grown [OF assms(1) g, of "layer_rows l d"] assms(2) by (simp add: layers_ok_def)
  next
    case True
    have "rs ! n = last rs" using True last by (simp add: accepted_def)
    then have prev: "hr_discarded (last rs) = 0" "hr_checkpoint (last rs) = lh_checkpoint expected" using n by simp_all
    have bl: "based L d base (last rs)" using base ne by simp
    then have b: "based L d' base (last rs)" "lc_base before = base"
      using based_grown [OF assms(1) g bl] assms(5) prev(2) by (simp, auto simp: based_def)
    moreover have "based L d' base hrow"
      using checkpoint_node_grown [OF assms(1) g assms(4)] assms(6) b(2) by (simp add: based_def hrow_def)
    moreover have "follows L d' (last rs) hrow"
      using prev assms(7) id' set' o True by (auto simp: follows_def hrow_def)
    ultimately have "history_ok L d' (rs @ [hrow])"
      using ne True shape(1) by (intro history_snoc [OF history_grown [OF assms(1) g h]]) (auto simp: hrow_def)
    then show ?thesis using True rows' [of layer] by (simp add: rs_def)
  qed
  have "attempts_ok L d'"
  proof -
    have "\<exists>outcome. settled L d' (la_id row) outcome" if "row \<in> set (db_layer_attempts d')" for row
    proof (cases "row = ?arow")
      case True
      then show ?thesis using set' by auto
    next
      case False
      then have "row \<in> set (db_layer_attempts d)" using that by (simp add: d')
      then show ?thesis using at settled_grown [OF assms(1) g] unfolding attempts_ok_def by blast
    qed
    moreover have "sr_id ` set (db_stacks d') \<subseteq> la_id ` set (db_layer_attempts d')" using at ss(1) by (auto simp: attempts_ok_def d')
    moreover have "distinct (map la_id (db_layer_attempts d'))" using at fresh by (auto simp: attempts_ok_def d')
    ultimately show ?thesis using ds(1) by (simp add: attempts_ok_def)
  qed
  moreover have "checkpoints_ok L d'"
  proof (rule checkpoints_ok_snoc [OF assms(1) g ck])
    show "db_objects d' = db_objects d @ os" by (simp add: d')
    fix k assume k: "k < length os" "or_kind (os ! k) = kind_sql Checkpoint"
    then have "kind_sql Blob = kind_sql Checkpoint" using os nth_mem by metis
    then show "\<exists>node. checkpoint_node L d' (or_id (os ! k)) = Inr node
        \<and> (\<forall>source \<in> set (lc_sources node). \<exists>n. checkpoint_node L d source = Inr n)" by (simp only: kind_sql_inj) simp
  qed
  ultimately show "layers_ok L d' w" using hist g id' by (auto simp: layers_ok_def grown_def)
qed

end
