(* ===== verification/LayerSteps.thy ===== *)
theory LayerSteps
  imports LayerUpdates
begin

text \<open>
  The Layer operations of a repository as steps: each keeps the invariant, and each retried operation returns its first
  outcome. With them, the integrity check of Layers accepts every reachable state.
\<close>

section \<open>Creation\<close>

lemma create_in_kept:
  assumes "codecs_ok L" "layers_ok L d w" "checkpoint_node L d (ca_id candidate) = Inr node"
    "create_in layer candidate d = Inr (head, d')"
  shows "layers_ok L d' w" "grown (co_env L) d w d' w"
    "head = \<lparr>lh_repository = lb_repository (lc_base node), lh_layer = layer, lh_revision = 0, lh_checkpoint = ca_id candidate\<rparr>"
    "head_at d' head 0"
proof -
  let ?E = "co_env L" let ?rs = "layer_rows layer d"
  have r: "repo_ok ?E d w" and ob: "objects_ok ?E d" and h: "history_ok L d ?rs" and at: "attempts_ok L d" and ck: "checkpoints_ok L d"
    using assms(2) by (simp_all add: layers_ok_def repo_ok_def)
  have iff: "layer_exists layer d \<longleftrightarrow> ?rs \<noteq> []"
    by (auto simp: layer_exists_def layer_rows_def list_ex_iff filter_empty_conv)
  obtain u identity where run: "ensure_first layer candidate d = Inr (u, d')" and id': "identity_in d' = Inr identity"
    and head: "head = \<lparr>lh_repository = identity, lh_layer = layer, lh_revision = 0, lh_checkpoint = ca_id candidate\<rparr>"
    using assms(4) by (auto simp: create_in_def tx_result)
  let ?row = "\<lparr>hr_layer = layer, hr_revision = 0, hr_checkpoint = ca_id candidate, hr_discarded = 0, hr_operation = None\<rparr>"
  have "\<exists>ps. d' = d\<lparr>db_objects := db_objects d @ [], db_heads := db_heads d @ (if ?rs = [] then [?row] else []),
      db_layer_attempts := db_layer_attempts d @ [], db_stacks := db_stacks d @ [], db_paths := ps\<rparr>
      \<and> (?rs \<noteq> [] \<longrightarrow> hr_checkpoint (?rs ! 0) = ca_id candidate)"
  proof (cases "?rs = []")
    case True
    then obtain d1 u1 where d1: "insert_head ?row d = Inr (u1, d1)" and t: "track_in layer candidate d1 = Inr (u, d')"
      using run iff by (auto simp: ensure_first_def tx_bind_Inr)
    have "d1 = d\<lparr>db_heads := db_heads d @ [?row]\<rparr>" using d1 by (auto simp: insert_head_def result_simps split: if_splits)
    with track_in_spec [OF t] show ?thesis using True by auto
  next
    case False
    then have "0 < length ?rs" by simp
    then show ?thesis using run iff False event_in_spec [OF h, of 0]
      by (intro exI [of _ "db_paths d"]) (cases d, auto simp: ensure_first_def event_of_def split: if_splits)
  qed
  then obtain ps where d': "d' = d\<lparr>db_objects := db_objects d @ [], db_heads := db_heads d @ (if ?rs = [] then [?row] else []),
      db_layer_attempts := db_layer_attempts d @ [], db_stacks := db_stacks d @ [], db_paths := ps\<rparr>"
    and first: "?rs \<noteq> [] \<Longrightarrow> hr_checkpoint (?rs ! 0) = ca_id candidate" by blast
  have fr: "framed d d'" unfolding framed_def d' by blast
  have ob': "objects_ok ?E d'" using same_objects_ok [of d' d ?E] ob by (simp add: d')
  show g: "grown ?E d w d' w"
    by (rule framed_grown [OF r ob' fr]) (use at in \<open>auto simp: d' attempts_ok_def\<close>)
  have node: "checkpoint_node L d' (ca_id candidate) = Inr node" by (rule checkpoint_node_grown [OF assms(1) g assms(3)])
  have rows': "layer_rows l d' = layer_rows l d @ (if ?rs = [] \<and> l = layer then [?row] else [])" for l
    by (simp add: layer_rows_def d')
  have "history_ok L d' (layer_rows l d')" for l
  proof (cases "?rs = [] \<and> l = layer")
    case False
    then have "layer_rows l d' = layer_rows l d" by (simp add: rows')
    then show ?thesis using history_grown [OF assms(1) g, of "layer_rows l d"] assms(2) by (simp add: layers_ok_def)
  next
    case True
    have b: "based L d' (lc_base node) ?row" using node by (simp add: based_def)
    have "history_ok L d' [?row]" unfolding history_ok_def
    proof (intro conjI)
      show "\<exists>base. \<forall>r \<in> set [?row]. based L d' base r" using b by (intro exI [of _ "lc_base node"]) simp
    qed simp_all
    then show ?thesis using True by (simp add: rows')
  qed
  moreover have "attempts_ok L d'"
  proof -
    have "db_layer_attempts d' = db_layer_attempts d" "db_stacks d' = db_stacks d" by (simp_all add: d')
    then show ?thesis using at settled_grown [OF assms(1) g] unfolding attempts_ok_def by metis
  qed
  moreover have "checkpoints_ok L d'" by (rule checkpoints_ok_snoc [OF assms(1) g ck, of "[]"]) (simp_all add: d')
  ultimately show ok: "layers_ok L d' w" using g id' by (auto simp: layers_ok_def grown_def)
  have "checkpoint_at L d (ca_id candidate) node" using assms(3) by (simp add: checkpoint_node_iff [OF assms(1)])
  then have "identity_in d = Inr (lb_repository (lc_base node))" by (simp add: checkpoint_at_def validate_base_iff)
  then have "identity = lb_repository (lc_base node)" using id' identity_grown [OF g] by simp
  then show hd: "head = \<lparr>lh_repository = lb_repository (lc_base node), lh_layer = layer, lh_revision = 0, lh_checkpoint = ca_id candidate\<rparr>"
    using head by simp
  have "layer_rows layer d' \<noteq> [] \<and> hr_checkpoint (layer_rows layer d' ! 0) = ca_id candidate"
    using first by (cases "?rs = []") (simp_all add: rows' nth_append)
  moreover have "hr_discarded (layer_rows layer d' ! 0) = 0"
    using ok calculation by (simp add: layers_ok_def history_ok_def hd_conv_nth)
  ultimately show "head_at d' head 0" using id' head by (simp add: head_at_def)
qed

section \<open>Retries\<close>

lemma insert_object_again:
  assumes "objects_ok E d" "read_object E d (object_hash (en_sha E) k bs) k = Inr bs"
  shows "insert_object E k bs d = Inr (object_hash (en_sha E) k bs, d)"
proof -
  have "object_at d (object_hash (en_sha E) k bs) = Some \<lparr>or_id = object_hash (en_sha E) k bs, or_kind = kind_sql k, or_bytes = bs\<rparr>"
    using assms(2) unfolding read_object_iff [OF assms(1)] .
  then show ?thesis using assms(2) by (simp add: insert_object_def Let_def)
qed

lemma prepare_provenance_again:
  assumes "objects_ok (co_env L) d" "prepare_provenance L provenance d = Inr (stored, d')"
    "objects_ok (co_env L) d''" "keeps_objects d' d''"
  shows "prepare_provenance L provenance d'' = Inr (stored, d'')"
proof (cases provenance)
  case (Some p)
  then obtain i where i: "insert_object (co_env L) Blob (co_provenance L p) d = Inr (i, d')" "stored = Some i"
    using assms(2) by (auto simp: prepare_provenance_def store_provenance_def tx_result)
  note o = insert_object_Inr [OF assms(1) i(1)]
  have "read_object (co_env L) d'' i Blob = Inr (co_provenance L p)" by (rule read_object_keeps [OF assms(4) o(4)])
  then have "insert_object (co_env L) Blob (co_provenance L p) d'' = Inr (i, d'')"
    using insert_object_again [OF assms(3), of Blob "co_provenance L p"] o(1) by simp
  then show ?thesis using Some i(2) by (simp add: prepare_provenance_def store_provenance_def tx_bind_def tx_ret_def)
qed (use assms(2) in \<open>simp add: prepare_provenance_def tx_ret_def\<close>)

lemma prepare_checkpoint_again:
  assumes "layers_ok L d w" "changes_text ch" "prepare_checkpoint L base ch sources provenance d = Inr (candidate, d1)"
    "grown (co_env L) d w d2 w2" "keeps_objects d1 d2"
  shows "prepare_checkpoint L base ch sources provenance d2 = Inr (candidate, d2)"
proof -
  let ?E = "co_env L"
  obtain ch' d0 i where base: "validate_base base d = Inr ()"
    and norm: "normalize (index_in ?E d (lb_version base)) ch = Inr ch'"
    and prov: "prepare_provenance L provenance d = Inr (ca_provenance candidate, d0)"
    and ins: "insert_object ?E Checkpoint (checkpoint_bytes L base ch' sources (ca_provenance candidate)) d0 = Inr (i, d1)"
    and cand: "candidate = \<lparr>ca_id = i, ca_changes = ch', ca_provenance = ca_provenance candidate\<rparr>"
    using assms(3) unfolding prepare_checkpoint_def by (auto simp: tx_result)
  have ok: "objects_ok ?E d" "repo_ok ?E d w" using assms(1) by (simp_all add: layers_ok_def repo_ok_def)
  have ok2: "objects_ok ?E d2" using assms(4) by (simp add: grown_def repo_ok_def)
  have "objects_ok ?E d0 \<and> keeps_objects d d0"
  proof (cases provenance)
    case (Some p)
    then obtain j where "insert_object ?E Blob (co_provenance L p) d = Inr (j, d0)"
      using prov by (auto simp: prepare_provenance_def store_provenance_def tx_result)
    from insert_object_Inr [OF ok(1) this] show ?thesis using adds_keeps by blast
  qed (use prov ok in \<open>simp add: prepare_provenance_def tx_ret_def\<close>)
  note o = insert_object_Inr [OF this [THEN conjunct1] ins]
  have k: "keeps_objects d0 d2" by (rule keeps_objects_trans [OF adds_keeps [OF o(3)] assms(5)])
  have v: "unat (lb_version base) < length w" by (rule base_version [OF ok(2) base])
  have "omap_ok ch" using assms(2) by (simp add: changes_text_def)
  then have norm2: "normalize (index_in ?E d2 (lb_version base)) ch = Inr ch'" by (rule normalize_grown [OF assms(4) v _ norm])
  have "read_object ?E d2 i Checkpoint = Inr (checkpoint_bytes L base ch' sources (ca_provenance candidate))"
    by (rule read_object_keeps [OF assms(5) o(4)])
  then have "insert_object ?E Checkpoint (checkpoint_bytes L base ch' sources (ca_provenance candidate)) d2 = Inr (i, d2)"
    using insert_object_again [OF ok2, of Checkpoint "checkpoint_bytes L base ch' sources (ca_provenance candidate)"] o(1) by simp
  then show ?thesis
    unfolding prepare_checkpoint_def
    using validate_base_grown [OF assms(4) base] norm2 prepare_provenance_again [OF ok(1) prov ok2 k] cand
    by (simp add: tx_bind_def tx_read_def tx_ret_def)
qed

lemma head_at_grown:
  assumes "grown E d w d' w'" "head_at d head n"
  shows "head_at d' head n"
proof -
  obtain more where "db_heads d' = db_heads d @ more" using assms(1) unfolding grown_def by blast
  then have "layer_rows (lh_layer head) d' = layer_rows (lh_layer head) d @ filter (\<lambda>r. hr_layer r = lh_layer head) more"
    by (simp add: layer_rows_def)
  then show ?thesis using assms(2) identity_grown [OF assms(1)] by (simp add: head_at_def nth_append)
qed

text \<open>The attempt of a finished update, and the update it answers.\<close>

definition answered ::
  "codecs \<Rightarrow> string \<Rightarrow> layer_head \<Rightarrow> object_id \<Rightarrow> bool \<Rightarrow> object_id option \<Rightarrow> object_id option \<Rightarrow> layer_update \<Rightarrow> db \<Rightarrow> bool" where
  "answered L operation expected checkpoint discard source resolution outcome d \<longleftrightarrow>
     settled L d operation outcome
     \<and> (\<exists>row. layer_attempt_row_in operation d = Some row
          \<and> same_attempt L operation expected checkpoint discard source resolution row d = Inr ())"

lemma answered_update:
  assumes "answered L operation expected (ca_id candidate) discard source resolution outcome d"
  shows "update_in L operation expected candidate discard source resolution d = Inr (outcome, d)"
  using assms unfolding answered_def update_outcome_iff [symmetric]
  by (auto simp: update_in_def tx_bind_def tx_read_def)

lemma resolution_grown:
  assumes "grown E d w d' w'" "layer_attempt_row_in operation d = Some row" "resolution_in L operation d = Inr r"
  shows "resolution_in L operation d' = Inr r"
  using assms(3) stack_row_grown [OF assms(1,2)] read_object_keeps [of d d'] assms(1)
  by (auto simp: resolution_in_def grown_def result_simps split: option.splits)

lemma answered_grown:
  assumes "codecs_ok L" "grown (co_env L) d w d' w'" "answered L operation expected checkpoint discard source resolution outcome d"
  shows "answered L operation expected checkpoint discard source resolution outcome d'"
proof -
  obtain row where row: "layer_attempt_row_in operation d = Some row"
    "same_attempt L operation expected checkpoint discard source resolution row d = Inr ()"
    using assms(3) unfolding answered_def by blast
  have "source_in operation d' = source_in operation d" using stack_row_grown [OF assms(2) row(1)] by (simp add: source_in_def)
  then have "same_attempt L operation expected checkpoint discard source resolution row d' = Inr ()"
    using row(2) resolution_grown [OF assms(2) row(1)] by (auto simp: same_attempt_def result_simps split: if_splits)
  then show ?thesis
    using assms(3) settled_grown [OF assms(1,2)] attempt_row_grown [OF assms(2) row(1)] unfolding answered_def by blast
qed

section \<open>One operation\<close>

lemma settle_answered:
  assumes "codecs_ok L" "layers_ok L d w" "head_at d expected n" "source = None \<Longrightarrow> resolution = None"
    "settle_update L operation expected candidate discard source resolution d = Inr (outcome, d')"
    "settled L d' operation outcome"
  shows "answered L operation expected (ca_id candidate) discard source resolution outcome d'"
proof -
  let ?E = "co_env L" let ?rs = "layer_rows (lh_layer expected) d"
  have ob: "objects_ok ?E d" and at: "attempts_ok L d" using assms(2) by (simp_all add: layers_ok_def repo_ok_def)
  have "length ?rs \<le> 2 ^ 63" using assms(2) by (simp add: layers_ok_def history_ok_def)
  then have sql: "version_sql (lh_revision expected) = int n" using assms(3) by (simp add: head_at_def)
  note shape = update_shape [OF assms(2,3,5)]
  obtain arow d1 where arow: "la_id arow = operation" "la_layer arow = lh_layer expected" "la_expected arow = int n"
      "la_checkpoint arow = ca_id candidate" "la_discard arow = (if discard then 1 else 0)"
    and d1: "db_layer_attempts d1 = db_layer_attempts d @ [arow]" "db_stacks d1 = db_stacks d" "db_objects d1 = db_objects d"
    and rest: "source = None \<and> d' = d1 \<or> (\<exists>i binding d2 o'. source = Some i
      \<and> insert_object ?E Blob (binding_bytes L operation expected i (ca_id candidate) o' resolution) d1 = Inr (binding, d2)
      \<and> operation \<notin> sr_id ` set (db_stacks d2)
      \<and> d' = d2\<lparr>db_stacks := db_stacks d2 @ [\<lparr>sr_id = operation, sr_source = i, sr_binding = binding\<rparr>]\<rparr>)"
    using shape(4) by (elim exE conjE) (rule that, simp_all)
  have fresh: "operation \<notin> la_id ` set (db_layer_attempts d)" by (rule shape(2))
  have none: "find_row (\<lambda>r. sr_id r = operation) (db_stacks d) = None" using at fresh by (auto simp: attempts_ok_def find_row_None)
  have ob1: "objects_ok ?E d1" using same_objects_ok [of d1 d ?E] ob d1(3) by simp
  have "db_layer_attempts d' = db_layer_attempts d @ [arow] \<and> source_in operation d' = source \<and> resolution_in L operation d' = Inr resolution"
    using rest
  proof (elim disjE exE conjE, goal_cases)
    case 1
    then have "stack_row_in operation d' = None" using none d1(2) by (simp add: stack_row_in_def)
    then show ?case using 1 assms(4) d1(1) by (simp add: source_in_def resolution_in_def)
  next
    case (2 i binding d2 o')
    note o = insert_object_Inr [OF ob1 2(2)]
    have same: "db_stacks d2 = db_stacks d" "db_layer_attempts d2 = db_layer_attempts d @ [arow]" using o(3) d1 by (auto simp: adds_objects_def)
    have row: "stack_row_in operation d' = Some \<lparr>sr_id = operation, sr_source = i, sr_binding = binding\<rparr>"
      using none unfolding stack_row_in_def 2(4) by (simp add: find_row_append same) (simp add: find_row_def)
    have "read_object ?E d' binding Blob = Inr (binding_bytes L operation expected i (ca_id candidate) o' resolution)"
      using read_object_keeps [OF keeps_same [of d' d2] o(4)] 2(4) by simp
    moreover have "stored_binding L (binding_bytes L operation expected i (ca_id candidate) o' resolution) = Inr resolution"
      using assms(1) by (simp add: stored_binding_def binding_bytes_def codecs_ok_def)
    ultimately show ?case using row 2(1,4) same by (simp add: source_in_def resolution_in_def)
  qed
  moreover have "find_row (\<lambda>r. la_id r = operation) (db_layer_attempts d) = None" using fresh by (auto simp: find_row_None)
  ultimately have "layer_attempt_row_in operation d' = Some arow" "same_attempt L operation expected (ca_id candidate) discard source resolution arow d' = Inr ()"
    using arow sql by (simp_all add: layer_attempt_row_in_def find_row_append same_attempt_def) (simp add: find_row_def)
  then show ?thesis using assms(6) unfolding answered_def by blast
qed

text \<open>What an update is given.\<close>

definition update_input :: "codecs \<Rightarrow> db \<Rightarrow> layer_head \<Rightarrow> candidate \<Rightarrow> bool \<Rightarrow> object_id option \<Rightarrow> object_id option \<Rightarrow> bool" where
  "update_input L d expected candidate discard source resolution \<longleftrightarrow>
     (\<exists>n. head_at d expected n)
     \<and> (\<exists>node before. checkpoint_node L d (ca_id candidate) = Inr node \<and> checkpoint_node L d (lh_checkpoint expected) = Inr before
          \<and> lc_base node = lc_base before)
     \<and> (discard \<longrightarrow> ca_id candidate = lh_checkpoint expected) \<and> (source = None \<longrightarrow> resolution = None)"

lemma update_in_kept:
  assumes "codecs_ok L" "layers_ok L d w" "update_input L d expected candidate discard source resolution"
    "update_in L operation expected candidate discard source resolution d = Inr (outcome, d')"
  shows "layers_ok L d' w" "grown (co_env L) d w d' w" "answered L operation expected (ca_id candidate) discard source resolution outcome d'"
    "layer_attempt_row_in operation d = None \<Longrightarrow> swapped L d operation expected (ca_id candidate) discard outcome d'"
    "layer_attempt_row_in operation d \<noteq> None \<Longrightarrow> d' = d"
proof -
  obtain n node before where i: "head_at d expected n" "checkpoint_node L d (ca_id candidate) = Inr node"
      "checkpoint_node L d (lh_checkpoint expected) = Inr before" "lc_base node = lc_base before"
      "discard \<Longrightarrow> ca_id candidate = lh_checkpoint expected" "source = None \<Longrightarrow> resolution = None"
    using assms(3) unfolding update_input_def by blast
  have r: "repo_ok (co_env L) d w" using assms(2) by (simp add: layers_ok_def)
  have "layers_ok L d' w \<and> grown (co_env L) d w d' w \<and> answered L operation expected (ca_id candidate) discard source resolution outcome d'
    \<and> (layer_attempt_row_in operation d = None \<longrightarrow> swapped L d operation expected (ca_id candidate) discard outcome d')
    \<and> (layer_attempt_row_in operation d \<noteq> None \<longrightarrow> d' = d)"
  proof (cases "layer_attempt_row_in operation d")
    case (Some row)
    then have "same_attempt L operation expected (ca_id candidate) discard source resolution row d = Inr ()" "update_outcome L operation d = Inr outcome" "d' = d"
      using assms(4) by (auto simp: update_in_def tx_result)
    then show ?thesis using Some assms(2) grown_refl [OF r] by (auto simp: answered_def update_outcome_iff)
  next
    case None
    then have run: "settle_update L operation expected candidate discard source resolution d = Inr (outcome, d')"
      using assms(4) by (auto simp: update_in_def tx_result)
    note k = update_kept [OF assms(1,2) i(1-5) run]
    show ?thesis using k settle_answered [OF assms(1,2) i(1,6) run k(4)] None by simp
  qed
  then show "layers_ok L d' w" "grown (co_env L) d w d' w" "answered L operation expected (ca_id candidate) discard source resolution outcome d'"
    "layer_attempt_row_in operation d = None \<Longrightarrow> swapped L d operation expected (ca_id candidate) discard outcome d'"
    "layer_attempt_row_in operation d \<noteq> None \<Longrightarrow> d' = d" by blast+
qed

lemma prepared_input:
  assumes "codecs_ok L" "layers_ok L d w" "verify_head expected d = Inr ()" "checkpoint_in L (lh_checkpoint expected) d = Inr before"
    "changes_text ch" "provenance_ok provenance" "oset_ok sources" "\<forall>s \<in> set sources. \<exists>n. checkpoint_node L d s = Inr n"
    "prepare_checkpoint L (lc_base before) ch sources provenance d = Inr (candidate, d1)" "source = None \<longrightarrow> resolution = None"
  shows "layers_ok L d1 w" "grown (co_env L) d w d1 w" "update_input L d1 expected candidate False source resolution"
proof -
  note p = prepare_checkpoint_spec [OF assms(1,2,5-9)]
  show "layers_ok L d1 w" by (rule p(1))
  show g: "grown (co_env L) d w d1 w" by (rule objects_grown [OF assms(2) p(3,2)])
  have "history_ok L d (layer_rows (lh_layer expected) d)" using assms(2) by (simp add: layers_ok_def)
  from verify_head_iff [OF this] assms(3) obtain n where "head_at d expected n" by blast
  then have "head_at d1 expected n" by (rule head_at_grown [OF g])
  moreover have "checkpoint_node L d1 (lh_checkpoint expected) = Inr before"
    using checkpoint_node_grown [OF assms(1) g] assms(4) by (simp add: checkpoint_in_eq)
  moreover have "lc_base (prepared_node (lc_base before) sources candidate) = lc_base before" by (simp add: prepared_node_def)
  ultimately show "update_input L d1 expected candidate False source resolution"
    using p(4) assms(10) unfolding update_input_def by auto
qed

lemma node_sources:
  assumes "layers_ok L d w" "checkpoint_node L d i = Inr node" "codecs_ok L"
  shows "oset_ok (lc_sources node)" "\<forall>s \<in> set (lc_sources node). \<exists>n. checkpoint_node L d s = Inr n"
proof -
  have "checkpoint_at L d i node" using assms(2) by (simp add: checkpoint_node_iff [OF assms(3)])
  then show "oset_ok (lc_sources node)" by (simp add: checkpoint_at_def sources_ascend_iff)
  obtain rank where "ranked L d rank" using checkpoints_ranked [of L d] assms(1) by (auto simp: layers_ok_def repo_ok_def)
  then show "\<forall>s \<in> set (lc_sources node). \<exists>n. checkpoint_node L d s = Inr n" using assms(2) unfolding ranked_def by blast
qed

lemma capture_spec:
  assumes "codecs_ok L" "layers_ok L d w" "changes_text ch" "provenance_ok provenance"
    "capture_layer L provenance operation expected ch d = Inr (outcome, d')"
  obtains before candidate d1 where "verify_head expected d = Inr ()" "refuse_published_in L operation (lh_layer expected) d = Inr ()"
    "checkpoint_in L (lh_checkpoint expected) d = Inr before"
    "prepare_checkpoint L (lc_base before) ch (lc_sources before) provenance d = Inr (candidate, d1)"
    "update_in L operation expected candidate False None None d1 = Inr (outcome, d')"
    "layers_ok L d1 w" "grown (co_env L) d w d1 w" "update_input L d1 expected candidate False None None"
proof -
  obtain u1 u2 u3 before candidate d1 where a: "verify_head expected d = Inr u1" "refuse_published_in L operation (lh_layer expected) d = Inr u2"
    "checkpoint_in L (lh_checkpoint expected) d = Inr before"
    "prepare_checkpoint L (lc_base before) ch (lc_sources before) provenance d = Inr (candidate, d1)"
    "update_in L operation expected candidate False None None d1 = Inr (outcome, d')"
    using assms(5) unfolding capture_layer_def by (auto simp: tx_bind_Inr tx_read_Inr)
  have node: "checkpoint_node L d (lh_checkpoint expected) = Inr before" using a(3) by (simp add: checkpoint_in_eq)
  show thesis
    using prepared_input [OF assms(1,2) _ a(3) assms(3,4) node_sources [OF assms(2) node assms(1)] a(4), of None None] a
    by (intro that) simp_all
qed

lemma discard_spec:
  assumes "layers_ok L d w" "discard_layer L operation expected d = Inr (outcome, d')" "codecs_ok L"
  shows "update_in L operation expected \<lparr>ca_id = lh_checkpoint expected, ca_changes = [], ca_provenance = None\<rparr> True None None d = Inr (outcome, d')
    \<and> update_input L d expected \<lparr>ca_id = lh_checkpoint expected, ca_changes = [], ca_provenance = None\<rparr> True None None
    \<and> verify_head expected d = Inr () \<and> refuse_published_in L operation (lh_layer expected) d = Inr ()"
proof -
  have a: "verify_head expected d = Inr ()" "refuse_published_in L operation (lh_layer expected) d = Inr ()"
    "update_in L operation expected \<lparr>ca_id = lh_checkpoint expected, ca_changes = [], ca_provenance = None\<rparr> True None None d = Inr (outcome, d')"
    using assms(2) unfolding discard_layer_def by (auto simp: tx_bind_Inr tx_read_Inr)
  have h: "history_ok L d (layer_rows (lh_layer expected) d)" using assms(1) by (simp add: layers_ok_def)
  from verify_head_iff [OF h] a(1) obtain n where n: "head_at d expected n" by blast
  then have "layer_rows (lh_layer expected) d ! n \<in> set (layer_rows (lh_layer expected) d)" by (simp add: head_at_def)
  then have "\<exists>node. checkpoint_node L d (hr_checkpoint (layer_rows (lh_layer expected) d ! n)) = Inr node"
    using h unfolding history_ok_def based_def by blast
  then have "\<exists>node. checkpoint_node L d (lh_checkpoint expected) = Inr node" using n by (simp add: head_at_def)
  then show ?thesis using a n unfolding update_input_def by auto
qed

lemma stack_spec:
  assumes "codecs_ok L" "layers_ok L d w" "changes_text ch" "provenance_ok provenance"
    "commit_stack_resolved L provenance operation expected source ch resolution d = Inr (outcome, d')"
  obtains before candidate d1 where "verify_head expected d = Inr ()" "refuse_published_in L operation (lh_layer expected) d = Inr ()"
    "\<exists>n. checkpoint_in L source d = Inr n" "checkpoint_in L (lh_checkpoint expected) d = Inr before"
    "prepare_checkpoint L (lc_base before) ch (oset_of (lc_sources before @ [source])) provenance d = Inr (candidate, d1)"
    "update_in L operation expected candidate False (Some source) resolution d1 = Inr (outcome, d')"
    "layers_ok L d1 w" "grown (co_env L) d w d1 w" "update_input L d1 expected candidate False (Some source) resolution"
proof -
  obtain u1 u2 n before candidate d1 where a: "verify_head expected d = Inr u1" "refuse_published_in L operation (lh_layer expected) d = Inr u2"
    "checkpoint_in L source d = Inr n" "checkpoint_in L (lh_checkpoint expected) d = Inr before"
    "prepare_checkpoint L (lc_base before) ch (oset_of (lc_sources before @ [source])) provenance d = Inr (candidate, d1)"
    "update_in L operation expected candidate False (Some source) resolution d1 = Inr (outcome, d')"
    using assms(5) unfolding commit_stack_resolved_def by (auto simp: tx_bind_Inr tx_read_Inr)
  have node: "checkpoint_node L d (lh_checkpoint expected) = Inr before" "checkpoint_node L d source = Inr n"
    using a(3,4) by (simp_all add: checkpoint_in_eq)
  have "\<forall>s \<in> set (oset_of (lc_sources before @ [source])). \<exists>n. checkpoint_node L d s = Inr n"
    using node_sources(2) [OF assms(2) node(1) assms(1)] node(2) by auto
  then show thesis
    using prepared_input [OF assms(1,2) _ a(4) assms(3,4) oset_of_ok _ a(5), of "Some source" resolution] a
    by (intro that) simp_all
qed

section \<open>Steps\<close>

text \<open>
  One writing call on Layers that succeeds. Its changes and its provenance hold text as the types \<open>SparseChanges\<close> and
  \<open>Provenance\<close> keep it; the other arguments are any.
\<close>

inductive layer_step :: "codecs \<Rightarrow> db \<Rightarrow> db \<Rightarrow> bool" for L where
  blob: "put_blob (co_env L) bs d = Inr (i, d') \<Longrightarrow> layer_step L d d'"
| create: "create_layer L layer base d = Inr (head, d') \<Longrightarrow> layer_step L d d'"
| clone: "clone_layer L layer checkpoint d = Inr (head, d') \<Longrightarrow> layer_step L d d'"
| capture: "capture_layer L provenance operation expected ch d = Inr (outcome, d') \<Longrightarrow> changes_text ch \<Longrightarrow> provenance_ok provenance \<Longrightarrow>
    layer_step L d d'"
| discard: "discard_layer L operation expected d = Inr (outcome, d') \<Longrightarrow> layer_step L d d'"
| stack: "commit_stack_resolved L provenance operation expected source ch resolution d = Inr (outcome, d') \<Longrightarrow> changes_text ch \<Longrightarrow>
    provenance_ok provenance \<Longrightarrow> layer_step L d d'"

inductive layer_run :: "codecs \<Rightarrow> db \<Rightarrow> db \<Rightarrow> bool" for L where
  start: "layer_run L d d"
| more: "layer_run L d d' \<Longrightarrow> layer_step L d' d'' \<Longrightarrow> layer_run L d d''"

lemma create_kept:
  assumes "codecs_ok L" "layers_ok L d w" "create_layer L layer base d = Inr (head, d')"
  shows "layers_ok L d' w \<and> grown (co_env L) d w d' w \<and> head_at d' head 0 \<and> lh_layer head = layer"
proof -
  obtain candidate d1 where a: "prepare_checkpoint L base [] [] None d = Inr (candidate, d1)" "create_in layer candidate d1 = Inr (head, d')"
    using assms(3) unfolding create_layer_def by (auto simp: tx_bind_Inr tx_read_Inr)
  have "changes_text []" "provenance_ok None" "oset_ok ([] :: object_id list)" by (simp_all add: changes_text_def provenance_ok_def oset_ok_def)
  note p = prepare_checkpoint_spec [OF assms(1,2) this _ a(1)]
  have g: "grown (co_env L) d w d1 w" using objects_grown [OF assms(2)] p(2,3) by simp
  have "layers_ok L d1 w" "checkpoint_node L d1 (ca_id candidate) = Inr (prepared_node base [] candidate)" using p by simp_all
  from create_in_kept [OF assms(1) this a(2)] show ?thesis using grown_trans [OF g] by auto
qed

lemma clone_kept:
  assumes "codecs_ok L" "layers_ok L d w" "clone_layer L layer checkpoint d = Inr (head, d')"
  shows "layers_ok L d' w \<and> grown (co_env L) d w d' w \<and> head_at d' head 0 \<and> lh_layer head = layer \<and> lh_checkpoint head = checkpoint"
proof -
  obtain frozen where a: "checkpoint_node L d checkpoint = Inr frozen"
      "create_in layer \<lparr>ca_id = checkpoint, ca_changes = lc_changes frozen, ca_provenance = lc_provenance frozen\<rparr> d = Inr (head, d')"
    using assms(3) unfolding clone_layer_def by (auto simp: tx_bind_Inr tx_read_Inr checkpoint_in_eq)
  from create_in_kept [OF assms(1,2) _ a(2)] a(1) show ?thesis by auto
qed

lemma layer_step_kept:
  assumes "codecs_ok L" "layers_ok L d w" "layer_step L d d'"
  shows "layers_ok L d' w \<and> grown (co_env L) d w d' w"
  using assms(3)
proof cases
  case (blob bs i)
  then have "insert_object (co_env L) Blob bs d = Inr (i, d')" by (simp add: put_blob_def)
  from insert_other [OF assms(1,2) this] show ?thesis using objects_grown [OF assms(2)] by simp
next
  case (create layer base head)
  then show ?thesis using create_kept [OF assms(1,2)] by blast
next
  case (clone layer checkpoint head)
  then show ?thesis using clone_kept [OF assms(1,2)] by blast
next
  case (capture provenance operation expected ch outcome)
  obtain before candidate d1 where u: "update_in L operation expected candidate False None None d1 = Inr (outcome, d')"
      "layers_ok L d1 w" "grown (co_env L) d w d1 w" "update_input L d1 expected candidate False None None"
    by (rule capture_spec [OF assms(1,2) capture(2,3,1)])
  show ?thesis using update_in_kept(1,2) [OF assms(1) u(2,4,1)] grown_trans [OF u(3)] by blast
next
  case (discard operation expected outcome)
  from discard_spec [OF assms(2) this assms(1)] show ?thesis using update_in_kept(1,2) [OF assms(1,2)] by blast
next
  case (stack provenance operation expected source ch resolution outcome)
  obtain before candidate d1 where u: "update_in L operation expected candidate False (Some source) resolution d1 = Inr (outcome, d')"
      "layers_ok L d1 w" "grown (co_env L) d w d1 w" "update_input L d1 expected candidate False (Some source) resolution"
    by (rule stack_spec [OF assms(1,2) stack(2,3,1)])
  show ?thesis using update_in_kept(1,2) [OF assms(1) u(2,4,1)] grown_trans [OF u(3)] by blast
qed

lemma layer_run_kept:
  assumes "codecs_ok L" "layer_run L d d'" "layers_ok L d w"
  shows "layers_ok L d' w \<and> grown (co_env L) d w d' w"
  using assms(2,3)
proof (induction rule: layer_run.induct)
  case (start d)
  then show ?case by (simp add: grown_refl layers_ok_def)
next
  case (more d d' d'')
  then show ?case using layer_step_kept [OF assms(1)] grown_trans by blast
qed

text \<open>A repository without Layers.\<close>

definition no_layers :: "db \<Rightarrow> bool" where
  "no_layers d \<longleftrightarrow> db_heads d = [] \<and> db_layer_attempts d = [] \<and> db_stacks d = [] \<and> db_paths d = []
     \<and> (\<forall>r \<in> set (db_objects d). or_kind r \<noteq> kind_sql Checkpoint)"

lemma no_layers_ok:
  assumes "repo_ok (co_env L) d w" "no_layers d" "db_identity d = [(1, i)]"
  shows "layers_ok L d w"
  using assms by (auto simp: layers_ok_def no_layers_def history_ok_def layer_rows_def attempts_ok_def checkpoints_ok_def
      stored_checkpoint_def identity_in_def)

end
