(* ===== verification/LayerExamples.thy ===== *)
theory LayerExamples
  imports LayerSteps "HOL-Library.Countable"
begin

text \<open>
  An instance of the encodings, and a new repository with one Layer, at which the properties of Layers are applied. A value
  is encoded by its number in unary, closed by a letter of its kind, so that the small hash tells the kinds apart.
\<close>

section \<open>Encodings\<close>

instance file_entry :: countable by countable_datatype
instance actor :: countable by countable_datatype

definition unary :: "char \<Rightarrow> nat \<Rightarrow> bytes" where
  "unary c n = replicate (Suc n) c"

definition checkpoint_tuple ::
  "encoded_checkpoint \<Rightarrow> object_id \<times> 64 word \<times> object_id \<times> (string \<times> file_entry option) list \<times> object_id list \<times> object_id option" where
  "checkpoint_tuple e = (ec_repository e, ec_version e, ec_world e, ec_changes e, ec_sources e, ec_provenance e)"

definition provenance_tuple :: "provenance \<Rightarrow> actor \<times> string option \<times> string option \<times> string option" where
  "provenance_tuple p = (pv_actor p, pv_agent p, pv_session p, pv_reference p)"

definition example_codecs :: codecs where
  "example_codecs = \<lparr>co_env = example_env,
     co_provenance = (\<lambda>p. unary CHR ''p'' (to_nat (provenance_tuple p))),
     co_unprovenance = (\<lambda>b. case from_nat (length b - 1) of (a, g, s, r) \<Rightarrow>
        Inr \<lparr>pv_actor = a, pv_agent = g, pv_session = s, pv_reference = r\<rparr>),
     co_checkpoint = (\<lambda>e. unary (if ec_sources e = [] then CHR ''c'' else CHR ''d'') (to_nat (checkpoint_tuple e))),
     co_uncheckpoint = (\<lambda>b. case from_nat (length b - 1) of (r, v, w, c, s, p) \<Rightarrow>
        (let e = \<lparr>ec_repository = r, ec_version = v, ec_world = w, ec_changes = c, ec_sources = s, ec_provenance = p\<rparr>
         in if encoded_ok e then Inr e else Inl ''invalid'')),
     co_binding = (\<lambda>b. unary CHR ''b'' (to_nat (sb_resolution b))),
     co_unbinding = (\<lambda>b. Inr (from_nat (length b - 1))),
     co_receipt = (\<lambda>r. ''r'')\<rparr>"

lemma example_codecs_ok: "codecs_ok example_codecs"
  unfolding codecs_ok_def
proof (intro conjI allI impI)
  show "env_ok (co_env example_codecs)" using example_env_ok by (simp add: example_codecs_def)
  fix e assume "encoded_ok e"
  moreover have "\<lparr>ec_repository = ec_repository e, ec_version = ec_version e, ec_world = ec_world e, ec_changes = ec_changes e,
      ec_sources = ec_sources e, ec_provenance = ec_provenance e\<rparr> = e" by simp
  ultimately show "co_uncheckpoint example_codecs (co_checkpoint example_codecs e) = Inr e"
    unfolding example_codecs_def by (simp only: codecs.simps unary_def length_replicate diff_Suc_1 from_nat_to_nat checkpoint_tuple_def case_prod_conv Let_def if_True)
next
  fix b e assume "co_uncheckpoint example_codecs b = Inr e"
  then show "encoded_ok e" by (auto simp: example_codecs_def Let_def split: prod.splits if_splits)
next
  fix p :: provenance
  show "co_unprovenance example_codecs (co_provenance example_codecs p) = Inr p"
    by (simp add: example_codecs_def unary_def provenance_tuple_def)
next
  fix b show "co_unbinding example_codecs (co_binding example_codecs b) = Inr (sb_resolution b)"
    by (simp add: example_codecs_def unary_def)
qed

section \<open>A new repository\<close>

lemma new_db_tables:
  "db_objects new_db = [\<lparr>or_id = example_empty, or_kind = kind_sql Tree, or_bytes = [CHR 0x00]\<rparr>]" "no_layers new_db"
  "db_identity new_db = [(1, xs32)]" "db_publications new_db = []" "db_blame new_db = []" "db_paths new_db = []"
proof -
  have d: "db_identity new_db = [(1, xs32)]" "db_publications new_db = []" "db_heads new_db = []" "db_layer_attempts new_db = []"
      "db_stacks new_db = []" "db_paths new_db = []" "db_blame new_db = []"
    using initial_repo [of example_env xs32] new_db_ok(1) by auto
  then show "db_identity new_db = [(1, xs32)]" "db_publications new_db = []" "db_blame new_db = []" "db_paths new_db = []" by simp_all
  show o: "db_objects new_db = [\<lparr>or_id = example_empty, or_kind = kind_sql Tree, or_bytes = [CHR 0x00]\<rparr>]"
    using new_db_ok(1)
    by (auto simp: initial_db_def Let_def insert_object_def object_at_def find_row_def tx_bind_def insert_version_def
        example_empty_def example_env_def empty_tree_def result_simps dest!: arg_cong [of _ new_db db_objects] split: if_splits)
  show "no_layers new_db" using d o by (simp add: no_layers_def)
qed

lemma new_db_layers: "layers_ok example_codecs new_db [(Map.empty, [])]"
  using no_layers_ok [of example_codecs new_db "[(Map.empty, [])]" xs32] new_db_ok(2) new_db_tables by (simp add: example_codecs_def)

definition example_base :: layer_base where
  "example_base = \<lparr>lb_repository = xs32, lb_version = 0, lb_world = wv_id (version_of new_db 0)\<rparr>"


section \<open>Progress\<close>

lemma insert_object_new:
  assumes "object_at d (object_hash (en_sha E) k bs) = None"
  shows "insert_object E k bs d = Inr (object_hash (en_sha E) k bs,
    d\<lparr>db_objects := db_objects d @ [\<lparr>or_id = object_hash (en_sha E) k bs, or_kind = kind_sql k, or_bytes = bs\<rparr>]\<rparr>)"
proof -
  let ?i = "object_hash (en_sha E) k bs" let ?r = "\<lparr>or_id = ?i, or_kind = kind_sql k, or_bytes = bs\<rparr>"
  have "object_at (d\<lparr>db_objects := db_objects d @ [?r]\<rparr>) ?i = Some ?r"
    using assms by (simp add: object_at_def find_row_append) (simp add: find_row_def)
  then have "read_object E (d\<lparr>db_objects := db_objects d @ [?r]\<rparr>) ?i k = Inr bs" by (simp add: read_object_def ok_or_def)
  then show ?thesis using assms by (simp add: insert_object_def Let_def)
qed

definition example_layer :: string where "example_layer = ''l''"

definition example_head :: layer_head where
  "example_head = \<lparr>lh_repository = xs32, lh_layer = example_layer, lh_revision = 0, lh_checkpoint = replicate 32 CHR ''c''\<rparr>"

definition example_node :: "bytes" where
  "example_node = checkpoint_bytes example_codecs example_base [] [] None"

definition layer_db :: db where
  "layer_db = new_db\<lparr>db_objects := db_objects new_db @ [\<lparr>or_id = replicate 32 CHR ''c'', or_kind = kind_sql Checkpoint, or_bytes = example_node\<rparr>],
     db_heads := [\<lparr>hr_layer = example_layer, hr_revision = 0, hr_checkpoint = replicate 32 CHR ''c'', hr_discarded = 0, hr_operation = None\<rparr>]\<rparr>"

lemma example_hash: "object_hash last_byte_sha k (unary c n) = replicate 32 c"
  by (simp add: object_hash_def last_byte_sha_def unary_def del: replicate_Suc)

lemma example_node_hash: "object_hash last_byte_sha k example_node = replicate 32 CHR ''c''"
proof -
  have "\<exists>n. example_node = unary CHR ''c'' n" by (intro exI) (simp add: example_node_def checkpoint_bytes_def example_codecs_def)
  then show ?thesis using example_hash by metis
qed

lemma normalize_nothing:
  assumes "repo_ok E d w" "unat n < length w"
  shows "normalize (index_in E d n) [] = Inr []"
proof -
  let ?f = "fst (w ! unat n)"
  have "stands E d (vr_tree (db_versions d ! unat n)) ?f" by (rule repo_versions(7) [OF assms])
  then have "disjoint_paths ?f" using tabled.disjoint [of "(E, d, vr_tree (db_versions d ! unat n), ?f)"] by simp
  then show ?thesis using normalize_in_iff [OF assms, of "[]" "[]"] by (simp add: ambiguous_def)
qed

lemma example_base_valid: "validate_base example_base new_db = Inr ()"
proof -
  have "version_in 0 new_db = Inr (version_of new_db 0)" using version_in_spec [OF new_db_ok(2), of 0] by simp
  then show ?thesis using new_db_tables(3) by (simp add: validate_base_iff example_base_def identity_in_def)
qed

lemma example_created: "create_layer example_codecs example_layer example_base new_db = Inr (example_head, layer_db)"
proof -
  let ?E = "co_env example_codecs"
  have E: "?E = example_env" "en_sha ?E = last_byte_sha" by (simp_all add: example_codecs_def example_env_def)
  have h: "object_hash (en_sha ?E) Checkpoint example_node = replicate 32 CHR ''c''" unfolding E(2) by (rule example_node_hash)
  have empty: "example_empty = replicate 32 CHR 0x00" by (simp add: example_empty_def empty_tree_def object_hash_def last_byte_sha_def)
  have "hd example_empty \<noteq> hd (replicate 32 CHR ''c'')" unfolding empty by (simp add: hd_replicate)
  then have "example_empty \<noteq> replicate 32 CHR ''c''" using arg_cong [of example_empty "replicate 32 CHR ''c''" hd] by blast
  then have "object_at new_db (replicate 32 CHR ''c'') = None" by (simp add: object_at_def find_row_def new_db_tables(1))
  then have ins: "insert_object ?E Checkpoint example_node new_db = Inr (replicate 32 CHR ''c'',
      new_db\<lparr>db_objects := db_objects new_db @ [\<lparr>or_id = replicate 32 CHR ''c'', or_kind = kind_sql Checkpoint, or_bytes = example_node\<rparr>]\<rparr>)"
    using insert_object_new [of new_db ?E Checkpoint example_node] h by simp
  have n: "normalize (index_in ?E new_db (lb_version example_base)) [] = Inr []"
    using normalize_nothing [OF new_db_ok(2), of "lb_version example_base"] by (simp add: E example_base_def)
  have format: "validate_format new_db = Inr ()" using new_db_ok(2) by (simp add: repo_ok_def)
  have prep: "prepare_checkpoint example_codecs example_base [] [] None new_db = Inr
      (\<lparr>ca_id = replicate 32 CHR ''c'', ca_changes = [], ca_provenance = None\<rparr>,
       new_db\<lparr>db_objects := db_objects new_db @ [\<lparr>or_id = replicate 32 CHR ''c'', or_kind = kind_sql Checkpoint, or_bytes = example_node\<rparr>]\<rparr>)"
    using example_base_valid n ins
    by (simp add: prepare_checkpoint_def prepare_provenance_def tx_bind_def tx_read_def tx_ret_def example_node_def)
  have t: "db_heads new_db = []" "db_paths new_db = []" using new_db_tables(2) by (simp_all add: no_layers_def)
  then show ?thesis using new_db_tables(3)
    by (simp add: create_layer_def create_in_def ensure_first_def layer_exists_def insert_head_def insert_unique_def track_in_def
        tracked_in_def omap_of_def identity_in_def tx_bind_def tx_read_def tx_ret_def format prep layer_db_def example_head_def)
qed

lemma layer_db_ok: "layers_ok example_codecs layer_db [(Map.empty, [])]" "head_at layer_db example_head 0"
    "layer_run example_codecs new_db layer_db"
proof -
  note k = create_kept [OF example_codecs_ok new_db_layers example_created]
  show "layers_ok example_codecs layer_db [(Map.empty, [])]" "head_at layer_db example_head 0" using k by simp_all
  show "layer_run example_codecs new_db layer_db"
    by (rule layer_run.more [OF layer_run.start layer_step.create [OF example_created]])
qed

end
