(* ===== verification/LayerProgress.thy ===== *)
theory LayerProgress
  imports LayerExamples
begin

text \<open>
  An update that expects the latest head applies: nothing but a full revision counter, or an index that does not decode,
  stops it. The index is shown to decode in the theory \<open>LayerIndex\<close>.
\<close>

lemma insert_head_new:
  fixes i :: object_id and discard :: bool
  assumes "history_ok L d (layer_rows layer d)" "layer_rows layer d \<noteq> []" "Some operation \<notin> hr_operation ` set (db_heads d)"
  defines "row \<equiv> \<lparr>hr_layer = layer, hr_revision = int (length (layer_rows layer d)), hr_checkpoint = i,
      hr_discarded = (if discard then 1 else 0), hr_operation = Some operation\<rparr>"
  shows "insert_head row d = Inr ((), d\<lparr>db_heads := db_heads d @ [row]\<rparr>)"
proof -
  have "(hr_layer r, hr_revision r) \<noteq> (layer, int (length (layer_rows layer d)))" if "r \<in> set (db_heads d)" for r
  proof
    assume h: "(hr_layer r, hr_revision r) = (layer, int (length (layer_rows layer d)))"
    then have "r \<in> set (layer_rows layer d)" using that by (simp add: layer_rows_def)
    then obtain i where "i < length (layer_rows layer d)" "layer_rows layer d ! i = r" by (auto simp: in_set_conv_nth)
    then show False using assms(1) h by (auto simp: history_ok_def)
  qed
  then have "(hr_layer row, hr_revision row) \<notin> (\<lambda>r. (hr_layer r, hr_revision r)) ` set (db_heads d)" unfolding row_def by fastforce
  moreover have "0 < hr_revision row" using assms(2) by (simp add: row_def)
  ultimately show ?thesis using assms(3) by (auto simp: insert_head_def insert_unique_def row_def)
qed

lemma operations_settled:
  assumes "layers_ok L d w" "Some operation \<in> hr_operation ` set (db_heads d)"
  shows "operation \<in> la_id ` set (db_layer_attempts d)"
proof -
  obtain r where r: "r \<in> set (db_heads d)" "hr_operation r = Some operation" using assms(2) by auto
  let ?rs = "layer_rows (hr_layer r) d"
  have h: "history_ok L d ?rs" using assms(1) by (simp add: layers_ok_def)
  have "r \<in> set ?rs" using r(1) by (simp add: layer_rows_def)
  then obtain i where i: "i < length ?rs" "?rs ! i = r" by (auto simp: in_set_conv_nth)
  have "i \<noteq> 0"
  proof
    assume "i = 0"
    then have "hd ?rs = r" "?rs \<noteq> []" using i by (auto simp: hd_conv_nth)
    then show False using h r(2) by (simp add: history_ok_def)
  qed
  then obtain j where "i = Suc j" by (cases i) auto
  then have "follows L d (?rs ! j) r" using h i by (auto simp: history_ok_def)
  then obtain outcome where "settled L d operation outcome" using r(2) by (auto simp: follows_def)
  then obtain row where "layer_attempt_row_in operation d = Some row" unfolding settled_def settled_as_def by blast
  from find_row_Some [OF this [unfolded layer_attempt_row_in_def]] show ?thesis by auto
qed

lemma insert_object_frame:
  assumes "insert_object E k bs d = Inr (i, d\<lparr>db_objects := os\<rparr>)" "db_objects e = db_objects d"
  shows "insert_object E k bs e = Inr (i, e\<lparr>db_objects := os\<rparr>)"
proof -
  have at: "object_at x = object_at y" if "db_objects x = db_objects y" for x y :: db
    using that by (simp add: object_at_def fun_eq_iff)
  have rd: "read_object E x = read_object E y" if "db_objects x = db_objects y" for x y :: db
    using at [OF that] by (simp add: read_object_def fun_eq_iff)
  let ?j = "object_hash (en_sha E) k bs"
  let ?add = "\<lambda>x. case object_at x ?j of Some _ \<Rightarrow> x
      | None \<Rightarrow> x\<lparr>db_objects := db_objects x @ [\<lparr>or_id = ?j, or_kind = kind_sql k, or_bytes = bs\<rparr>]\<rparr>"
  have same: "db_objects (?add e) = db_objects (?add d)" using at [OF assms(2)] assms(2) by (simp split: option.splits)
  have objs: "?add x = x\<lparr>db_objects := db_objects (?add x)\<rparr>" for x by (simp split: option.splits)
  have r: "i = ?j" "?add d = d\<lparr>db_objects := os\<rparr>" "read_object E (?add d) ?j k = Inr bs"
    using assms(1) unfolding insert_object_def Let_def by (auto simp: result_simps split: if_splits)
  have "db_objects (?add e) = os" unfolding same r(2) by simp
  then have "?add e = e\<lparr>db_objects := os\<rparr>" using objs [of e] by simp
  moreover have "read_object E (?add e) ?j k = Inr bs" using rd [OF same] r(3) by simp
  ultimately show ?thesis unfolding insert_object_def Let_def r(1) by simp
qed

section \<open>The state after an accepted update\<close>

definition applied_attempt :: "string \<Rightarrow> layer_head \<Rightarrow> object_id \<Rightarrow> bool \<Rightarrow> object_id option \<Rightarrow> nat \<Rightarrow> layer_attempt_row" where
  "applied_attempt operation expected i discard source n = \<lparr>la_id = operation, la_layer = lh_layer expected, la_expected = int n, la_checkpoint = i,
     la_discard = (if discard then 1 else 0), la_stack = (if source = None then 0 else 1), la_accepted = 1, la_result = int (Suc n)\<rparr>"

definition next_row :: "string \<Rightarrow> layer_head \<Rightarrow> object_id \<Rightarrow> bool \<Rightarrow> nat \<Rightarrow> head_row" where
  "next_row operation expected i discard n = \<lparr>hr_layer = lh_layer expected, hr_revision = int (Suc n), hr_checkpoint = i,
     hr_discarded = (if discard then 1 else 0), hr_operation = Some operation\<rparr>"

definition next_event :: "string \<Rightarrow> layer_head \<Rightarrow> object_id \<Rightarrow> bool \<Rightarrow> nat \<Rightarrow> layer_event" where
  "next_event operation expected i discard n = \<lparr>ev_layer = lh_layer expected, ev_revision = int (Suc n), ev_checkpoint = i,
     ev_discarded = discard, ev_operation = Some operation\<rparr>"

definition applied_db ::
  "string \<Rightarrow> layer_head \<Rightarrow> object_id \<Rightarrow> bool \<Rightarrow> object_id option \<Rightarrow> nat \<Rightarrow> path_row list \<Rightarrow> object_row list \<Rightarrow> stack_row list \<Rightarrow> db \<Rightarrow> db" where
  "applied_db operation expected i discard source n ps os ss d = d\<lparr>
     db_layer_attempts := db_layer_attempts d @ [applied_attempt operation expected i discard source n],
     db_heads := db_heads d @ [next_row operation expected i discard n],
     db_paths := ps, db_objects := db_objects d @ os, db_stacks := db_stacks d @ ss\<rparr>"

lemma event_of_next: "event_of (next_row operation expected i discard n) = next_event operation expected i discard n"
  by (simp add: event_of_def next_row_def next_event_def)

text \<open>What a Stack binds besides the attempt: the bytes of its input and the row that names them.\<close>

definition binds ::
  "codecs \<Rightarrow> db \<Rightarrow> string \<Rightarrow> layer_head \<Rightarrow> object_id \<Rightarrow> layer_update \<Rightarrow> object_id option \<Rightarrow> object_id option \<Rightarrow> object_row list \<Rightarrow> stack_row list \<Rightarrow> bool" where
  "binds L d operation expected i outcome source resolution os ss \<longleftrightarrow>
     (case source of
       None \<Rightarrow> os = [] \<and> ss = []
     | Some s \<Rightarrow> (\<exists>b. insert_object (co_env L) Blob (binding_bytes L operation expected s i outcome resolution) d
             = Inr (b, d\<lparr>db_objects := db_objects d @ os\<rparr>) \<and> ss = [\<lparr>sr_id = operation, sr_source = s, sr_binding = b\<rparr>])
         \<and> check_resolution L d resolution = Inr ())"

definition stacks_on :: "codecs \<Rightarrow> db \<Rightarrow> object_id option \<Rightarrow> bool \<Rightarrow> layer_checkpoint \<Rightarrow> layer_checkpoint \<Rightarrow> bool" where
  "stacks_on L d source discard prior node \<longleftrightarrow>
     (case source of
       None \<Rightarrow> lc_sources node = lc_sources prior
     | Some i \<Rightarrow> \<not> discard \<and> lc_sources node = oset_of (lc_sources prior @ [i]) \<and> (\<exists>n. checkpoint_node L d i = Inr n))"

lemma move_progress:
  assumes "layers_ok L d w" "Suc n = length (layer_rows (lh_layer expected) d)" "layer_attempt_row_in operation d = None"
    "indexed d (lh_layer expected) candidate discard ps"
  shows "insert_layer_attempt (applied_attempt operation expected (ca_id candidate) discard source n) d
      = Inr ((), d\<lparr>db_layer_attempts := db_layer_attempts d @ [applied_attempt operation expected (ca_id candidate) discard source n]\<rparr>)"
    and "move_head operation expected candidate discard (int (Suc n)) (d\<lparr>db_layer_attempts := db_layer_attempts d @ [applied_attempt operation expected (ca_id candidate) discard source n]\<rparr>)
      = Inr ((), applied_db operation expected (ca_id candidate) discard source n ps [] [] d)"
proof -
  have fresh: "operation \<notin> la_id ` set (db_layer_attempts d)" using assms(3) by (auto simp: layer_attempt_row_in_def find_row_None)
  then show "insert_layer_attempt (applied_attempt operation expected (ca_id candidate) discard source n) d
      = Inr ((), d\<lparr>db_layer_attempts := db_layer_attempts d @ [applied_attempt operation expected (ca_id candidate) discard source n]\<rparr>)"
    by (simp add: insert_layer_attempt_def insert_unique_def applied_attempt_def)
  let ?row = "next_row operation expected (ca_id candidate) discard n"
  let ?da = "d\<lparr>db_layer_attempts := db_layer_attempts d @ [applied_attempt operation expected (ca_id candidate) discard source n]\<rparr>"
  let ?db = "?da\<lparr>db_heads := db_heads d @ [?row]\<rparr>"
  have h: "history_ok L d (layer_rows (lh_layer expected) d)" using assms(1) by (simp add: layers_ok_def)
  have ne: "layer_rows (lh_layer expected) d \<noteq> []" using assms(2) by auto
  have "Some operation \<notin> hr_operation ` set (db_heads d)" using operations_settled [OF assms(1)] fresh by blast
  from insert_head_new [OF h ne this, of "ca_id candidate" discard]
  have "insert_head ?row d = Inr ((), d\<lparr>db_heads := db_heads d @ [?row]\<rparr>)" by (simp add: next_row_def assms(2) del: of_nat_Suc)
  then have "insert_head ?row ?da = Inr ((), ?db)" by (auto simp: insert_head_def insert_unique_def split: if_splits)
  moreover have "indexed ?db (lh_layer expected) candidate discard ps" by (rule indexed_frame [OF _ assms(4)]) simp
  ultimately show "move_head operation expected candidate discard (int (Suc n)) ?da
      = Inr ((), applied_db operation expected (ca_id candidate) discard source n ps [] [] d)"
    by (simp add: move_head_def tx_bind_def indexed_def applied_db_def next_row_def del: of_nat_Suc)
qed

lemma applied_grown:
  assumes "layers_ok L d w" "layer_attempt_row_in operation d = None" "binds L d operation expected i outcome source resolution os ss"
  shows "grown (co_env L) d w (applied_db operation expected i discard source n ps os ss d) w" (is "grown _ _ _ ?d' _")
proof -
  have r: "repo_ok (co_env L) d w" and at: "attempts_ok L d" and ob: "objects_ok (co_env L) d"
    using assms(1) by (simp_all add: layers_ok_def repo_ok_def)
  have fresh: "operation \<notin> la_id ` set (db_layer_attempts d)" using assms(2) by (auto simp: layer_attempt_row_in_def find_row_None)
  then have sids: "operation \<notin> sr_id ` set (db_stacks d)" "distinct (map sr_id (db_stacks d))" using at by (auto simp: attempts_ok_def)
  have ss: "ss = [] \<or> (\<exists>s b. ss = [\<lparr>sr_id = operation, sr_source = s, sr_binding = b\<rparr>])"
    using assms(3) by (auto simp: binds_def split: option.splits)
  have objs: "db_objects ?d' = db_objects (d\<lparr>db_objects := db_objects d @ os\<rparr>)" by (simp add: applied_db_def)
  have "objects_ok (co_env L) (d\<lparr>db_objects := db_objects d @ os\<rparr>)"
    using assms(3) ob insert_object_Inr(2) [OF ob] by (auto simp: binds_def split: option.splits)
  then have ob': "objects_ok (co_env L) ?d'" using same_objects_ok [OF objs] by blast
  have fr: "framed d ?d'" unfolding framed_def
    by (intro exI [of _ os] exI [of _ "[next_row operation expected i discard n]"] exI [of _ "[applied_attempt operation expected i discard source n]"]
        exI [of _ ss] exI [of _ ps]) (simp add: applied_db_def)
  show ?thesis by (rule framed_grown [OF r ob' fr]) (use ss sids fresh in \<open>auto simp: applied_db_def\<close>)
qed

lemma applied_reads:
  assumes "history_ok L d (layer_rows (lh_layer expected) d)" "Suc n = length (layer_rows (lh_layer expected) d)" "layer_attempt_row_in operation d = None"
  shows "layer_attempt_row_in operation (applied_db operation expected i discard source n ps os ss d) = Some (applied_attempt operation expected i discard source n)"
    and "event_in (lh_layer expected) (int (Suc n)) (applied_db operation expected i discard source n ps os ss d) = Inr (next_event operation expected i discard n)"
proof -
  let ?d' = "applied_db operation expected i discard source n ps os ss d"
  show "layer_attempt_row_in operation ?d' = Some (applied_attempt operation expected i discard source n)"
    using assms(3) by (simp add: layer_attempt_row_in_def applied_db_def find_row_append) (simp add: find_row_def applied_attempt_def)
  let ?rs = "layer_rows (lh_layer expected) d" and ?row = "next_row operation expected i discard n"
  have "layer_rows (lh_layer expected) ?d' = ?rs @ [?row]" by (simp add: layer_rows_def applied_db_def next_row_def)
  then have "event_row (lh_layer expected) (int (Suc n)) ?d' = find_row (\<lambda>r. hr_revision r = int (Suc n)) (?rs @ [?row])"
    unfolding event_row_def layer_rows_def by (simp add: find_row_filter)
  also have "\<dots> = Some ?row"
    using find_numbered [of ?rs hr_revision "int (Suc n)"] assms(1,2) by (simp add: find_row_append history_ok_def) (simp add: find_row_def next_row_def)
  finally show "event_in (lh_layer expected) (int (Suc n)) ?d' = Inr (next_event operation expected i discard n)"
    unfolding event_of_next [symmetric] by (auto simp: event_in_def ok_or_def event_of_def next_row_def)
qed

lemma head_read:
  assumes "layers_ok L d w" "head_at d expected n" "Suc n = length (layer_rows (lh_layer expected) d)" "Suc n < 2 ^ 63"
  shows "layer_head_in (lh_layer expected) (word_of_int (int n)) d = Inr expected"
proof -
  let ?rs = "layer_rows (lh_layer expected) d"
  have h: "history_ok L d ?rs" using assms(1) by (simp add: layers_ok_def)
  have n: "n < length ?rs" "lh_revision expected = num n" "hr_discarded (?rs ! n) = 0" "hr_checkpoint (?rs ! n) = lh_checkpoint expected"
    "identity_in d = Inr (lh_repository expected)" using assms(2) by (simp_all add: head_at_def)
  have sql: "version_sql (num n) = int n" using assms(4) by simp
  have "event_in (lh_layer expected) (int n) d = Inr (event_of (?rs ! n))"
    using event_in_spec [of L d "lh_layer expected" "int n"] h n(1) by simp
  moreover have "hr_revision (?rs ! n) = int n" using h n(1) by (simp add: history_ok_def)
  moreover have "hr_layer (?rs ! n) = lh_layer expected" using nth_mem [OF n(1)] by (simp add: layer_rows_def)
  ultimately show ?thesis using n sql unfolding layer_head_iff num_def [symmetric]
    by (intro conjI exI [of _ "event_of (?rs ! n)"] exI [of _ "lh_repository expected"]) (simp_all add: event_state_def event_of_def num_def)
qed

lemma bind_progress:
  fixes candidate :: candidate and ps :: "path_row list"
  assumes "codecs_ok L" "layers_ok L d w" "head_at d expected n" "Suc n = length (layer_rows (lh_layer expected) d)" "Suc n < 2 ^ 63"
    "layer_attempt_row_in operation d = None" "stacks_on L d source discard prior node"
  defines "outcome \<equiv> UpdateApplied (event_state (lh_repository expected) (next_event operation expected (ca_id candidate) discard n))"
  assumes "binds L d operation expected (ca_id candidate) outcome source resolution os ss"
  defines "moved \<equiv> \<lambda>os ss. applied_db operation expected (ca_id candidate) discard source n ps os ss d"
  shows "bind_stack L operation expected candidate source resolution True (int (Suc n)) (moved [] []) = Inr ((), moved os ss)"
    and "source_in operation (moved os ss) = source"
    and "sources_settled L (moved os ss) (applied_attempt operation expected (ca_id candidate) discard source n) source prior node"
    and "verify_stack L (moved os ss) operation (applied_attempt operation expected (ca_id candidate) discard source n) source (ca_id candidate) outcome = Inr ()"
proof -
  have h: "history_ok L d (layer_rows (lh_layer expected) d)" and at: "attempts_ok L d" and ob: "objects_ok (co_env L) d"
    using assms(2) by (simp_all add: layers_ok_def repo_ok_def)
  have fresh: "operation \<notin> la_id ` set (db_layer_attempts d)" using assms(6) by (auto simp: layer_attempt_row_in_def find_row_None)
  then have sids: "operation \<notin> sr_id ` set (db_stacks d)" using at by (auto simp: attempts_ok_def)
  then have stack0: "stack_row_in operation d = None" by (auto simp: stack_row_in_def find_row_None)
  have g: "grown (co_env L) d w (moved os ss) w" unfolding moved_def by (rule applied_grown [OF assms(2,6,9)])
  have id: "identity_in d = Inr (lh_repository expected)" using assms(3) by (simp add: head_at_def)
  have "bind_stack L operation expected candidate source resolution True (int (Suc n)) (moved [] []) = Inr ((), moved os ss)
      \<and> source_in operation (moved os ss) = source
      \<and> verify_stack L (moved os ss) operation (applied_attempt operation expected (ca_id candidate) discard source n) source (ca_id candidate) outcome = Inr ()"
  proof (cases source)
    case None
    then have "os = []" "ss = []" using assms(9) by (simp_all add: binds_def)
    then show ?thesis using None stack0 by (simp add: bind_stack_def tx_ret_def verify_stack_def source_in_def stack_row_in_def moved_def applied_db_def)
  next
    case (Some s)
    let ?bytes = "binding_bytes L operation expected s (ca_id candidate) outcome resolution"
    obtain b where b: "insert_object (co_env L) Blob ?bytes d = Inr (b, d\<lparr>db_objects := db_objects d @ os\<rparr>)"
      "ss = [\<lparr>sr_id = operation, sr_source = s, sr_binding = b\<rparr>]" "check_resolution L d resolution = Inr ()"
      using assms(9) Some by (auto simp: binds_def)
    have "insert_object (co_env L) Blob ?bytes (moved [] []) = Inr (b, moved [] []\<lparr>db_objects := db_objects d @ os\<rparr>)"
      by (rule insert_object_frame [OF b(1)]) (simp add: moved_def applied_db_def)
    then have "record_stack_in L operation expected s (ca_id candidate) outcome resolution (moved [] []) = Inr ((), moved os ss)"
      using sids by (simp add: record_stack_in_def tx_bind_def insert_unique_def b(2) moved_def applied_db_def)
    moreover have "identity_in (moved [] []) = Inr (lh_repository expected)" using id by (simp add: identity_in_def moved_def applied_db_def)
    ultimately have "bind_stack L operation expected candidate source resolution True (int (Suc n)) (moved [] []) = Inr ((), moved os ss)"
      using applied_reads(2) [OF h assms(4,6), of "ca_id candidate" discard source ps "[]" "[]"] Some
      by (simp add: bind_stack_def tx_bind_def tx_read_def outcome_def moved_def del: of_nat_Suc)
    moreover have row: "stack_row_in operation (moved os ss) = Some \<lparr>sr_id = operation, sr_source = s, sr_binding = b\<rparr>"
      using stack0 by (simp add: stack_row_in_def moved_def applied_db_def b(2) find_row_append) (simp add: find_row_def)
    moreover have "layer_head_in (lh_layer expected) (word_of_int (int n)) (moved os ss) = Inr expected"
      by (rule layer_head_grown [OF g head_read [OF assms(2-5)]])
    moreover have "read_object (co_env L) (moved os ss) b Blob = Inr ?bytes"
      using insert_object_Inr(4) [OF ob b(1)] by (simp add: read_object_def object_at_def moved_def applied_db_def)
    moreover have "stored_binding L ?bytes = Inr resolution"
      using assms(1) by (simp add: stored_binding_def binding_bytes_def codecs_ok_def)
    moreover have "check_resolution L (moved os ss) resolution = Inr ()"
      using check_resolution_keeps [OF _ b(3)] g by (simp add: grown_def)
    ultimately show ?thesis using Some by (simp add: source_in_def verify_stack_def verify_binding_def ok_or_def applied_attempt_def)
  qed
  then show "bind_stack L operation expected candidate source resolution True (int (Suc n)) (moved [] []) = Inr ((), moved os ss)"
    "source_in operation (moved os ss) = source"
    "verify_stack L (moved os ss) operation (applied_attempt operation expected (ca_id candidate) discard source n) source (ca_id candidate) outcome = Inr ()"
    by simp_all
  show "sources_settled L (moved os ss) (applied_attempt operation expected (ca_id candidate) discard source n) source prior node"
    using assms(7) checkpoint_node_grown [OF assms(1) g] by (auto simp: sources_settled_def stacks_on_def applied_attempt_def split: option.splits)
qed

section \<open>Settling\<close>

text \<open>With the binding of a Stack.\<close>

lemma settle_bound:
  fixes candidate :: candidate
  assumes "codecs_ok L" "layers_ok L d w" "head_at d expected n" "Suc n = length (layer_rows (lh_layer expected) d)" "Suc n < 2 ^ 63"
    "layer_attempt_row_in operation d = None"
    "checkpoint_node L d (ca_id candidate) = Inr node" "checkpoint_node L d (lh_checkpoint expected) = Inr prior"
    "lc_base node = lc_base prior" "stacks_on L d source discard prior node" "discard \<Longrightarrow> ca_id candidate = lh_checkpoint expected"
    "indexed d (lh_layer expected) candidate discard ps"
  defines "outcome \<equiv> UpdateApplied (event_state (lh_repository expected) (next_event operation expected (ca_id candidate) discard n))"
  assumes "binds L d operation expected (ca_id candidate) outcome source resolution os ss"
  shows "settle_update L operation expected candidate discard source resolution d =
    Inr (outcome, applied_db operation expected (ca_id candidate) discard source n ps os ss d)" (is "_ = Inr (_, ?d')")
proof -
  let ?rs = "layer_rows (lh_layer expected) d" and ?arow = "applied_attempt operation expected (ca_id candidate) discard source n"
  have h: "history_ok L d ?rs" using assms(2) by (simp add: layers_ok_def)
  have n: "n < length ?rs" "lh_revision expected = num n" "hr_discarded (?rs ! n) = 0" "hr_checkpoint (?rs ! n) = lh_checkpoint expected"
    "identity_in d = Inr (lh_repository expected)"
    using assms(3) by (simp_all add: head_at_def)
  have ne: "?rs \<noteq> []" using n(1) by auto
  have last: "last ?rs = ?rs ! n" unfolding last_conv_nth [OF ne] assms(4) [symmetric] by simp
  have rev: "hr_revision (?rs ! n) = int n" using h n(1) by (simp add: history_ok_def)
  have sql: "version_sql (lh_revision expected) = int n" using n(2) assms(5) by simp
  have latest: "latest_in (lh_layer expected) d = Inr (event_of (?rs ! n))"
    using latest_in_spec [of L d "lh_layer expected"] h ne last by simp
  have g: "grown (co_env L) d w ?d' w" by (rule applied_grown [OF assms(2,6,14)])
  note bind = bind_progress [OF assms(1-6,10) assms(14) [unfolded outcome_def], of ps, folded outcome_def]
  note read = applied_reads [OF h assms(4,6), of "ca_id candidate" discard source ps os ss]
  have prior: "event_in (lh_layer expected) (int n) ?d' = Inr (event_of (?rs ! n))"
    using event_in_grown [OF g] event_in_spec [of L d "lh_layer expected" "int n"] h n(1) by simp
  have nodes: "checkpoint_node L ?d' (ca_id candidate) = Inr node" "checkpoint_node L ?d' (lh_checkpoint expected) = Inr prior"
    using checkpoint_node_grown [OF assms(1) g] assms(7,8) by simp_all
  have id: "lc_id node = ca_id candidate" using assms(7) by (simp add: checkpoint_node_iff [OF assms(1)] checkpoint_at_def)
  have rec: "recorded_update operation ?arow (next_event operation expected (ca_id candidate) discard n) node (lh_repository expected) = Inr outcome"
    using id by (simp add: recorded_update_def outcome_def applied_attempt_def next_event_def)
  have "settled_as L ?d' operation outcome ?arow (event_of (?rs ! n)) (next_event operation expected (ca_id candidate) discard n) node prior (lh_repository expected)"
    unfolding settled_as_def bind(2) id
    using read prior nodes n(3,4) assms(9,11) rec bind(3,4) identity_grown [OF g] n(5) id
    by (simp add: event_of_def applied_attempt_def del: of_nat_Suc)
  then have "update_outcome L operation ?d' = Inr outcome" unfolding update_outcome_iff settled_def by blast
  moreover have "next_revision (int n) = Inr (int (Suc n))" using assms(5) by (simp add: next_revision_def)
  moreover note move_progress [OF assms(2,4,6,12)]
  ultimately show ?thesis
    using latest n(3) rev sql bind(1)
    by (simp add: settle_update_def Let_def tx_bind_def tx_read_def event_of_def tx_ret_def applied_attempt_def del: of_nat_Suc)
qed

text \<open>Without one.\<close>

lemma settle_progress:
  assumes "codecs_ok L" "layers_ok L d w" "head_at d expected n" "Suc n = length (layer_rows (lh_layer expected) d)" "Suc n < 2 ^ 63"
    "layer_attempt_row_in operation d = None"
    "checkpoint_node L d (ca_id candidate) = Inr node" "checkpoint_node L d (lh_checkpoint expected) = Inr prior"
    "lc_base node = lc_base prior" "lc_sources node = lc_sources prior" "discard \<Longrightarrow> ca_id candidate = lh_checkpoint expected"
    "indexed d (lh_layer expected) candidate discard rows"
  shows "\<exists>d'. settle_update L operation expected candidate discard None None d = Inr
    (UpdateApplied (event_state (lh_repository expected) \<lparr>ev_layer = lh_layer expected, ev_revision = int (Suc n), ev_checkpoint = ca_id candidate,
       ev_discarded = discard, ev_operation = Some operation\<rparr>), d') \<and> db_paths d' = rows"
  using settle_bound [OF assms(1-9) _ assms(11,12), of None None "[]" "[]"] assms(10)
  by (simp add: stacks_on_def binds_def next_event_def applied_db_def)

end
