(* ===== verification/LayerIndex.thy ===== *)
theory LayerIndex
  imports LayerProgress
begin

text \<open>
  The index of paths: for a live Layer it holds each path of its latest checkpoint with the entry and the checkpoint that
  last set it, so that the incremental \<open>track_in\<close> agrees with the attribution recomputed from the whole history.
\<close>

section \<open>Rows of one Layer\<close>

type_synonym origins = "string \<Rightarrow> (file_entry option \<times> object_id \<times> object_id option) option"

definition tracks :: "path_row list \<Rightarrow> string \<Rightarrow> origins \<Rightarrow> bool" where
  "tracks rows layer f \<longleftrightarrow>
     (\<forall>r \<in> set rows. pr_layer r = layer \<longrightarrow>
        (\<exists>e. (pr_kind r, pr_content r) = encode_entry e \<and> f (pr_path r) = Some (e, pr_checkpoint r, pr_provenance r)))
     \<and> (\<forall>p. f p \<noteq> None \<longrightarrow> (\<exists>r \<in> set rows. pr_layer r = layer \<and> pr_path r = p))"

definition keyed :: "path_row list \<Rightarrow> bool" where
  "keyed rows \<longleftrightarrow> distinct (map path_key rows)"

lemma tracked_row_tracks:
  assumes "tracks rows layer f" "r \<in> set rows" "pr_layer r = layer"
  shows "tracked_row r = Inr (pr_path r, the (f (pr_path r)))"
proof -
  obtain e where e: "encode_entry e = (pr_kind r, pr_content r)" "f (pr_path r) = Some (e, pr_checkpoint r, pr_provenance r)"
    using assms unfolding tracks_def by metis
  then show ?thesis by (simp add: tracked_row_def decode_encode_entry [OF e(1)])
qed

lemma tracked_in_iff:
  assumes "keyed (db_paths d)" "tracks (db_paths d) layer f"
  shows "tracked_in layer d = Inr t \<longleftrightarrow> omap_ok t \<and> map_of t = f"
proof -
  let ?rows = "filter (\<lambda>r. pr_layer r = layer) (db_paths d)"
  let ?ws = "map (\<lambda>r. (pr_path r, the (f (pr_path r)))) ?rows"
  have run: "emap tracked_row rs = Inr (map (\<lambda>r. (pr_path r, the (f (pr_path r)))) rs)" if "set rs \<subseteq> set ?rows" for rs
    using that tracked_row_tracks [OF assms(2)] by (induction rs) auto
  have "distinct (map path_key ?rows)" using assms(1) distinct_map_filter unfolding keyed_def by blast
  then have dist: "distinct (map fst ?ws)" by (auto simp: distinct_map path_key_def inj_on_def)
  have "set ?ws = {(p, e) |p e. f p = Some e}"
  proof (intro set_eqI iffI; clarsimp)
    fix r assume "r \<in> set (db_paths d)" "layer = pr_layer r"
    then show "\<exists>a b c. the (f (pr_path r)) = (a, b, c) \<and> f (pr_path r) = Some (a, b, c)"
      using assms(2) unfolding tracks_def by fastforce
  next
    fix p a b c assume h: "f p = Some (a, b, c)"
    then obtain r where "r \<in> set (db_paths d)" "pr_layer r = layer" "pr_path r = p" using assms(2) unfolding tracks_def by blast
    then show "(p, a, b, c) \<in> (\<lambda>r. (pr_path r, the (f (pr_path r)))) ` {x \<in> set (db_paths d). pr_layer x = layer}"
      using h by force
  qed
  then have m: "map_of (omap_of ?ws) = f" by (rule omap_of_exact [OF dist])
  have "tracked_in layer d = Inr (omap_of ?ws)" using run [of ?rows] by (simp add: tracked_in_def)
  then show ?thesis using m omap_extI [of "omap_of ?ws" t] by auto
qed

section \<open>Replacing rows\<close>

lemma keyed_eq: "keyed rows \<Longrightarrow> r \<in> set rows \<Longrightarrow> r' \<in> set rows \<Longrightarrow> path_key r = path_key r' \<Longrightarrow> r = r'"
  by (auto simp: keyed_def distinct_map inj_on_def)

lemma keyed_upsert: "keyed rows \<Longrightarrow> keyed (upsert_path row rows)"
proof -
  assume k: "keyed rows"
  have m: "map path_key (map (\<lambda>r. if path_key r = path_key row then row else r) rows) = map path_key rows" by simp
  show ?thesis
  proof (cases "path_key row \<in> set (map path_key rows)")
    case True
    then show ?thesis using k m unfolding keyed_def upsert_path_def by presburger
  next
    case False
    then show ?thesis using k unfolding keyed_def upsert_path_def by simp
  qed
qed

lemma upsert_set:
  "set (upsert_path row rows) = insert row {r \<in> set rows. path_key r \<noteq> path_key row}"
proof (cases "path_key row \<in> set (map path_key rows)")
  case True
  then show ?thesis by (auto simp: upsert_path_def)
next
  case False
  then have "path_key r \<noteq> path_key row" if "r \<in> set rows" for r using that by (metis imageI list.set_map)
  then have "{r \<in> set rows. path_key r \<noteq> path_key row} = set rows" by blast
  then show ?thesis using False by (simp add: upsert_path_def)
qed

lemma tracks_upsert:
  fixes layer head path entry
  assumes "tracks rows l f"
  defines "row \<equiv> path_row_of layer head path entry"
  shows "tracks (upsert_path row rows) l (if l = layer then f(path \<mapsto> (entry, ca_id head, ca_provenance head)) else f)"
proof -
  obtain k c where kc: "encode_entry entry = (k, c)" by fastforce
  have row: "pr_path row = path" "pr_layer row = layer" "(pr_kind row, pr_content row) = encode_entry entry"
    "pr_checkpoint row = ca_id head" "pr_provenance row = ca_provenance head"
    by (simp_all add: row_def path_row_of_def kc)
  let ?g = "if l = layer then f(path \<mapsto> (entry, ca_id head, ca_provenance head)) else f"
  have "\<exists>e. (pr_kind r, pr_content r) = encode_entry e \<and> ?g (pr_path r) = Some (e, pr_checkpoint r, pr_provenance r)"
    if r: "r \<in> set (upsert_path row rows)" "pr_layer r = l" for r
  proof (cases "r = row")
    case True
    then show ?thesis using row r(2) by auto
  next
    case False
    then have "r \<in> set rows" "l = layer \<longrightarrow> pr_path r \<noteq> path" using r row by (auto simp: upsert_set path_key_def)
    then show ?thesis using assms(1) r(2) unfolding tracks_def by auto
  qed
  moreover have "\<exists>r \<in> set (upsert_path row rows). pr_layer r = l \<and> pr_path r = p" if g: "?g p \<noteq> None" for p
  proof (cases "l = layer \<and> p = path")
    case True
    then show ?thesis using row by (auto simp: upsert_set)
  next
    case False
    then have "f p \<noteq> None" using g by (auto split: if_splits)
    then obtain r where "r \<in> set rows" "pr_layer r = l" "pr_path r = p" using assms(1) unfolding tracks_def by blast
    then show ?thesis using False row by (auto simp: upsert_set path_key_def intro!: bexI [of _ r])
  qed
  ultimately show ?thesis unfolding tracks_def by blast
qed

lemma tracks_filter:
  assumes "tracks rows l f"
  shows "tracks (filter (\<lambda>r. \<not> (pr_layer r = layer \<and> P (pr_path r))) rows) l (if l = layer then (\<lambda>p. if P p then None else f p) else f)"
  using assms unfolding tracks_def by (auto split: if_splits) blast+

section \<open>Tracking a new head\<close>

definition origin_after :: "candidate \<Rightarrow> origins \<Rightarrow> string \<Rightarrow> file_entry option \<Rightarrow> file_entry option \<times> object_id \<times> object_id option" where
  "origin_after head f p entry =
     (case f p of Some (before, origin) \<Rightarrow> if before = entry then (before, origin) else (entry, ca_id head, ca_provenance head)
      | None \<Rightarrow> (entry, ca_id head, ca_provenance head))"

lemma track_changes_spec:
  assumes "track_changes layer head ch stale rows = (gone, rows')" "omap_ok ch" "omap_ok stale" "keyed rows" "tracks rows layer f"
    "\<forall>p \<in> fst ` set ch. map_of stale p = f p"
  shows "keyed rows' \<and> omap_ok gone \<and> (\<forall>p. map_of gone p = (if p \<in> fst ` set ch then None else map_of stale p))
    \<and> tracks rows' layer (\<lambda>p. case map_of ch p of None \<Rightarrow> f p | Some e \<Rightarrow> Some (origin_after head f p e))
    \<and> (\<forall>l g. l \<noteq> layer \<longrightarrow> tracks rows l g \<longrightarrow> tracks rows' l g)"
  using assms
proof (induction layer head ch stale rows arbitrary: f rule: track_changes.induct)
  case (1 layer head stale rows)
  then show ?case by simp
next
  case (2 layer head path entry rest stale rows)
  let ?new = "case map_of stale path of None \<Rightarrow> True | Some (before, _) \<Rightarrow> before \<noteq> entry"
  let ?rows = "if ?new then upsert_path (path_row_of layer head path entry) rows else rows"
  let ?f = "f(path \<mapsto> origin_after head f path entry)"
  have st: "map_of stale path = f path" using 2(7) by simp
  have fresh: "path \<notin> fst ` set rest" "omap_ok rest" using 2(3) by auto
  have k: "keyed ?rows" using 2(5) keyed_upsert by simp
  have t: "tracks ?rows layer ?f"
  proof (cases ?new)
    case True
    then have "origin_after head f path entry = (entry, ca_id head, ca_provenance head)"
      using st by (auto simp: origin_after_def split: option.splits)
    then show ?thesis using True tracks_upsert [OF 2(6), of layer head path entry] by simp
  next
    case False
    then have "f path = Some (origin_after head f path entry)" using st by (auto simp: origin_after_def split: option.splits)
    then have "?f = f" by auto
    then show ?thesis using False 2(6) by simp
  qed
  have other: "tracks rows l g \<Longrightarrow> tracks ?rows l g" if "l \<noteq> layer" for l g
    using tracks_upsert [of rows l g layer head path entry] that by simp
  have agree: "\<forall>p \<in> fst ` set rest. map_of (omap_remove path stale) p = ?f p"
    using 2(4,7) fresh(1) by (auto simp: omap_simps)
  have run: "track_changes layer head rest (omap_remove path stale) ?rows = (gone, rows')" using 2(2) by simp
  note IH = 2(1) [OF run fresh(2) omap_remove_ok [OF 2(4)] k t agree]
  have "(\<lambda>p. case map_of rest p of None \<Rightarrow> ?f p | Some e \<Rightarrow> Some (origin_after head ?f p e)) =
      (\<lambda>p. case map_of ((path, entry) # rest) p of None \<Rightarrow> f p | Some e \<Rightarrow> Some (origin_after head f p e))"
  proof
    fix p
    have "map_of rest path = None" using fresh(1) by (simp add: map_of_eq_None_iff)
    then show "(case map_of rest p of None \<Rightarrow> ?f p | Some e \<Rightarrow> Some (origin_after head ?f p e)) =
        (case map_of ((path, entry) # rest) p of None \<Rightarrow> f p | Some e \<Rightarrow> Some (origin_after head f p e))"
      by (cases "p = path") (auto simp: origin_after_def split: option.split)
  qed
  then show ?case using IH other 2(4) by (auto simp: omap_simps)
qed

definition checkpoint_of :: "candidate \<Rightarrow> layer_checkpoint \<Rightarrow> bool" where
  "checkpoint_of head node \<longleftrightarrow> lc_id node = ca_id head \<and> lc_changes node = ca_changes head \<and> lc_provenance node = ca_provenance head"

lemma map_of_tagged: "map_of (map (\<lambda>(path, entry). (path, entry, h path entry)) xs) p = map_option (\<lambda>e. (e, h p e)) (map_of xs p)"
  by (induction xs) auto

lemma map_of_attribute_paths:
  assumes "checkpoint_of head node" "omap_ok (lc_changes node)"
  shows "omap_ok (attribute_paths node t)"
    "map_of (attribute_paths node t) p = map_option (origin_after head (map_of t) p) (map_of (lc_changes node) p)"
proof -
  have "map fst (attribute_paths node t) = map fst (lc_changes node)" by (simp add: attribute_paths_def comp_def case_prod_beta)
  then show "omap_ok (attribute_paths node t)" using assms(2) by (simp add: omap_ok_def)
  let ?h = "\<lambda>p e. case map_of t p of Some (before, origin) \<Rightarrow> if before = e then origin else (lc_id node, lc_provenance node)
      | None \<Rightarrow> (lc_id node, lc_provenance node)"
  have "attribute_paths node t = map (\<lambda>(path, entry). (path, entry, ?h path entry)) (lc_changes node)" by (simp add: attribute_paths_def)
  then have "map_of (attribute_paths node t) p = map_option (\<lambda>e. (e, ?h p e)) (map_of (lc_changes node) p)" by (simp only: map_of_tagged)
  moreover have "(e, ?h p e) = origin_after head (map_of t) p e" for e
    using assms(1) by (auto simp: origin_after_def checkpoint_of_def split: option.split)
  ultimately show "map_of (attribute_paths node t) p = map_option (origin_after head (map_of t) p) (map_of (lc_changes node) p)" by simp
qed

lemma track_in_exact:
  assumes "keyed (db_paths d)" "tracks (db_paths d) layer (map_of t)" "omap_ok t" "checkpoint_of head node" "omap_ok (lc_changes node)"
  shows "\<exists>rows. track_in layer head d = Inr ((), d\<lparr>db_paths := rows\<rparr>) \<and> keyed rows
    \<and> tracks rows layer (map_of (attribute_paths node t)) \<and> (\<forall>l g. l \<noteq> layer \<longrightarrow> tracks (db_paths d) l g \<longrightarrow> tracks rows l g)"
proof -
  have stale: "tracked_in layer d = Inr t" using tracked_in_iff [OF assms(1,2)] assms(3) by simp
  obtain gone rs where run: "track_changes layer head (ca_changes head) t (db_paths d) = (gone, rs)" by fastforce
  have ch: "ca_changes head = lc_changes node" using assms(4) by (simp add: checkpoint_of_def)
  note s = track_changes_spec [OF run, unfolded ch, OF assms(5,3,1,2)]
  let ?rows = "filter (\<lambda>r. \<not> (pr_layer r = layer \<and> omap_has gone (pr_path r))) rs"
  have "track_in layer head d = Inr ((), d\<lparr>db_paths := ?rows\<rparr>)" using stale run by (simp add: track_in_def)
  moreover have "keyed ?rows" using s distinct_map_filter unfolding keyed_def by blast
  moreover have "tracks ?rows layer (map_of (attribute_paths node t))"
  proof -
    have has: "omap_has gone p \<longleftrightarrow> p \<notin> fst ` set (lc_changes node) \<and> map_of t p \<noteq> None" for p
    proof -
      have "omap_has gone p \<longleftrightarrow> map_of gone p \<noteq> None" by (simp add: omap_has_iff map_of_eq_None_iff)
      then show ?thesis using s by simp
    qed
    have "(\<lambda>p. if omap_has gone p then None else case map_of (lc_changes node) p of None \<Rightarrow> map_of t p
        | Some e \<Rightarrow> Some (origin_after head (map_of t) p e)) = map_of (attribute_paths node t)"
    proof
      fix p
      show "(if omap_has gone p then None else case map_of (lc_changes node) p of None \<Rightarrow> map_of t p
        | Some e \<Rightarrow> Some (origin_after head (map_of t) p e)) = map_of (attribute_paths node t) p"
        unfolding has map_of_attribute_paths(2) [OF assms(4,5)]
      proof (cases "map_of (lc_changes node) p")
        case None
        then have "p \<notin> fst ` set (lc_changes node)" by (simp add: map_of_eq_None_iff)
        then show "(if p \<notin> fst ` set (lc_changes node) \<and> map_of t p \<noteq> None then None else case map_of (lc_changes node) p of None \<Rightarrow> map_of t p
            | Some e \<Rightarrow> Some (origin_after head (map_of t) p e)) = map_option (origin_after head (map_of t) p) (map_of (lc_changes node) p)"
          using None by auto
      next
        case (Some e)
        then have "p \<in> fst ` set (lc_changes node)" by (metis domI dom_map_of_conv_image_fst)
        then show "(if p \<notin> fst ` set (lc_changes node) \<and> map_of t p \<noteq> None then None else case map_of (lc_changes node) p of None \<Rightarrow> map_of t p
            | Some e \<Rightarrow> Some (origin_after head (map_of t) p e)) = map_option (origin_after head (map_of t) p) (map_of (lc_changes node) p)"
          using Some by simp
      qed
    qed
    then show ?thesis using tracks_filter [of rs layer _ layer "omap_has gone"] s by fastforce
  qed
  moreover have "tracks ?rows l g" if "l \<noteq> layer" "tracks (db_paths d) l g" for l g
    using tracks_filter [of rs l g layer "omap_has gone"] s that by simp
  ultimately show ?thesis by blast
qed

lemma untrack_in_exact:
  assumes "keyed (db_paths d)"
  shows "\<exists>rows. untrack_in layer d = Inr ((), d\<lparr>db_paths := rows\<rparr>) \<and> keyed rows
    \<and> tracks rows layer Map.empty \<and> (\<forall>l g. l \<noteq> layer \<longrightarrow> tracks (db_paths d) l g \<longrightarrow> tracks rows l g)"
proof -
  let ?rows = "filter (\<lambda>r. pr_layer r \<noteq> layer) (db_paths d)"
  have "keyed ?rows" using assms distinct_map_filter unfolding keyed_def by blast
  moreover have "tracks ?rows layer Map.empty" by (simp add: tracks_def)
  moreover have "tracks ?rows l g" if "l \<noteq> layer" "tracks (db_paths d) l g" for l g
    using that unfolding tracks_def by fastforce
  ultimately show ?thesis by (auto simp: untrack_in_def)
qed

section \<open>The index of every Layer\<close>

text \<open>The attribution recomputed from the events, as \<open>attribution_in\<close> does, and which Layers are live.\<close>

definition node_of :: "codecs \<Rightarrow> db \<Rightarrow> object_id \<Rightarrow> layer_checkpoint" where
  "node_of L d i = (case checkpoint_node L d i of Inr node \<Rightarrow> node | Inl _ \<Rightarrow> \<lparr>lc_id = i, lc_base = \<lparr>lb_repository = [], lb_version = 0, lb_world = []\<rparr>,
     lc_changes = [], lc_sources = [], lc_provenance = None\<rparr>)"

definition attributed :: "codecs \<Rightarrow> db \<Rightarrow> head_row list \<Rightarrow> path_attribution" where
  "attributed L d rs = fold (\<lambda>r. attribute_paths (node_of L d (hr_checkpoint r))) rs []"

definition published :: "string \<Rightarrow> db \<Rightarrow> bool" where
  "published layer d \<longleftrightarrow> (\<exists>r \<in> set (db_publications d). pu_layer r = layer \<and> pu_outcome r = 1)"

definition live :: "string \<Rightarrow> db \<Rightarrow> bool" where
  "live layer d \<longleftrightarrow> layer_rows layer d \<noteq> [] \<and> hr_discarded (last (layer_rows layer d)) = 0 \<and> \<not> published layer d"

definition index_of :: "codecs \<Rightarrow> db \<Rightarrow> string \<Rightarrow> path_attribution" where
  "index_of L d layer = (if live layer d then attributed L d (layer_rows layer d) else [])"

definition index_ok :: "codecs \<Rightarrow> db \<Rightarrow> bool" where
  "index_ok L d \<longleftrightarrow> keyed (db_paths d) \<and> (\<forall>layer. omap_ok (index_of L d layer) \<and> tracks (db_paths d) layer (map_of (index_of L d layer)))"

lemma index_tracked: "index_ok L d \<Longrightarrow> tracked_in layer d = Inr (index_of L d layer)"
  using tracked_in_iff unfolding index_ok_def by blast

lemma node_of_grown:
  assumes "codecs_ok L" "grown (co_env L) d w d' w'" "checkpoint_node L d i = Inr node"
  shows "node_of L d' i = node_of L d i"
  using assms(3) checkpoint_node_grown [OF assms] by (simp add: node_of_def)

lemma attributed_grown:
  assumes "codecs_ok L" "grown (co_env L) d w d' w'" "history_ok L d rs"
  shows "attributed L d' rs = attributed L d rs"
proof -
  have "node_of L d' (hr_checkpoint r) = node_of L d (hr_checkpoint r)" if "r \<in> set rs" for r
  proof -
    from assms(3) that have "\<exists>node. checkpoint_node L d (hr_checkpoint r) = Inr node"
      unfolding history_ok_def based_def by blast
    then show ?thesis using node_of_grown [OF assms(1,2)] by blast
  qed
  then show ?thesis unfolding attributed_def by (intro fold_cong [OF refl refl]) simp
qed

text \<open>A step that only changes the events and the index of one Layer.\<close>

lemma index_moved:
  assumes "codecs_ok L" "layers_ok L d w" "grown (co_env L) d w d' w'" "db_publications d' = db_publications d"
    "\<And>l. l \<noteq> layer \<Longrightarrow> layer_rows l d' = layer_rows l d" "index_ok L d" "keyed (db_paths d')"
    "omap_ok (index_of L d' layer)" "tracks (db_paths d') layer (map_of (index_of L d' layer))"
    "\<And>l g. l \<noteq> layer \<Longrightarrow> tracks (db_paths d) l g \<Longrightarrow> tracks (db_paths d') l g"
  shows "index_ok L d'"
proof -
  have "index_of L d' l = index_of L d l" if "l \<noteq> layer" for l
  proof -
    have "attributed L d' (layer_rows l d) = attributed L d (layer_rows l d)"
      using attributed_grown [OF assms(1,3)] assms(2) by (simp add: layers_ok_def)
    moreover have "published l d' = published l d" by (simp add: published_def assms(4))
    ultimately show ?thesis by (simp add: index_of_def live_def assms(5) [OF that])
  qed
  then have "omap_ok (index_of L d' l) \<and> tracks (db_paths d') l (map_of (index_of L d' l))" for l
    using assms(6,8,9,10) by (cases "l = layer") (simp_all add: index_ok_def)
  then show ?thesis using assms(7) by (simp add: index_ok_def)
qed

lemma index_same:
  assumes "codecs_ok L" "layers_ok L d w" "grown (co_env L) d w d' w'" "db_publications d' = db_publications d"
    "db_heads d' = db_heads d" "db_paths d' = db_paths d" "index_ok L d"
  shows "index_ok L d'"
proof (rule index_moved [OF assms(1-4), of undefined])
  have "index_of L d' l = index_of L d l" for l
  proof -
    have "attributed L d' (layer_rows l d) = attributed L d (layer_rows l d)"
      using attributed_grown [OF assms(1,3)] assms(2) by (simp add: layers_ok_def)
    moreover have "published l d' = published l d" by (simp add: published_def assms(4))
    moreover have "layer_rows l d' = layer_rows l d" by (simp add: layer_rows_def assms(5))
    ultimately show ?thesis by (simp add: index_of_def live_def)
  qed
  then show "omap_ok (index_of L d' undefined)" "tracks (db_paths d') undefined (map_of (index_of L d' undefined))"
    using assms(6,7) by (simp_all add: index_ok_def)
qed (use assms in \<open>simp_all add: layer_rows_def index_ok_def\<close>)

section \<open>The steps keep the index\<close>

lemma unpublished:
  assumes "refuse_published_in L operation layer d = Inr u" "layer_attempt_row_in operation d = None"
  shows "\<not> published layer d"
proof
  assume "published layer d"
  then obtain r where "r \<in> set (rows_in (\<lambda>r. pu_layer r = layer \<and> pu_outcome r = 1) d)"
    by (auto simp: published_def rows_in_def)
  then have "rows_in (\<lambda>r. pu_layer r = layer \<and> pu_outcome r = 1) d \<noteq> []" by auto
  then obtain row rows where rows: "rows_in (\<lambda>r. pu_layer r = layer \<and> pu_outcome r = 1) d = row # rows" by (meson list.exhaust)
  have "operation \<notin> la_id ` set (db_layer_attempts d)" using assms(2) by (auto simp: layer_attempt_row_in_def find_row_None)
  then show False using assms(1) rows
    by (auto simp: refuse_published_in_def published_state_in_def success_state_def result_simps split: if_splits)
qed

text \<open>The Layer operations leave publications, their Layers and the World as they are.\<close>

definition leaves_publications :: "db \<Rightarrow> db \<Rightarrow> bool" where
  "leaves_publications d d' \<longleftrightarrow> framed d d' \<and> (\<forall>layer. published layer d \<longrightarrow> layer_rows layer d' = layer_rows layer d)"

lemma framed_tables: "framed d d' \<Longrightarrow> db_publications d' = db_publications d \<and> db_attempts d' = db_attempts d
    \<and> db_versions d' = db_versions d \<and> db_changes d' = db_changes d \<and> db_blame d' = db_blame d"
  by (auto simp: framed_def)

lemma framed_updates:
  "framed d (d\<lparr>db_layer_attempts := db_layer_attempts d @ as, db_heads := db_heads d @ hs, db_paths := ps\<rparr>)"
  "framed d (d\<lparr>db_stacks := db_stacks d @ ss\<rparr>)"
proof -
  have "d\<lparr>db_layer_attempts := db_layer_attempts d @ as, db_heads := db_heads d @ hs, db_paths := ps\<rparr> =
    d\<lparr>db_objects := db_objects d @ [], db_heads := db_heads d @ hs, db_layer_attempts := db_layer_attempts d @ as,
      db_stacks := db_stacks d @ [], db_paths := ps\<rparr>" by simp
  then show "framed d (d\<lparr>db_layer_attempts := db_layer_attempts d @ as, db_heads := db_heads d @ hs, db_paths := ps\<rparr>)"
    unfolding framed_def by blast
  have "d\<lparr>db_stacks := db_stacks d @ ss\<rparr> =
    d\<lparr>db_objects := db_objects d @ [], db_heads := db_heads d @ [], db_layer_attempts := db_layer_attempts d @ [],
      db_stacks := db_stacks d @ ss, db_paths := db_paths d\<rparr>" by simp
  then show "framed d (d\<lparr>db_stacks := db_stacks d @ ss\<rparr>)" unfolding framed_def by blast
qed

lemma leaves_same: "leaves_publications d d' \<Longrightarrow> db_publications d' = db_publications d"
  by (simp add: leaves_publications_def framed_tables)

lemma leaves_published: "leaves_publications d d' \<Longrightarrow> published layer d' \<longleftrightarrow> published layer d"
  by (simp add: published_def leaves_same)

lemma leaves_refl [simp]: "leaves_publications d d"
  by (simp add: leaves_publications_def)

lemma leaves_trans: "leaves_publications a b \<Longrightarrow> leaves_publications b c \<Longrightarrow> leaves_publications a c"
  using framed_trans leaves_published unfolding leaves_publications_def by metis

lemma leaves_objects: "adds_objects d d' \<Longrightarrow> leaves_publications d d'"
  by (auto simp: leaves_publications_def framed_adds adds_objects_def layer_rows_def)

lemma leaves_heads:
  assumes "framed d d'" "db_heads d' = db_heads d @ hs" "\<forall>r \<in> set hs. \<not> published (hr_layer r) d"
  shows "leaves_publications d d'"
  using assms by (auto simp: leaves_publications_def layer_rows_def filter_empty_conv)

lemma attributed_snoc: "attributed L d (rs @ [r]) = attribute_paths (node_of L d (hr_checkpoint r)) (attributed L d rs)"
  by (simp add: attributed_def)

lemma update_tables:
  assumes "layers_ok L d w" "head_at d expected n"
    "settle_update L operation expected candidate discard source resolution d = Inr (outcome, d')"
  defines "rs \<equiv> layer_rows (lh_layer expected) d"
  shows "db_heads d' = db_heads d @ (if n = length rs - 1 then [\<lparr>hr_layer = lh_layer expected, hr_revision = int (length rs),
      hr_checkpoint = ca_id candidate, hr_discarded = (if discard then 1 else 0), hr_operation = Some operation\<rparr>] else [])
    \<and> paths_moved d (lh_layer expected) candidate discard (n = length rs - 1) (db_paths d') \<and> framed d d'"
  using update_shape(4) [OF assms(1-3)]
proof (elim exE conjE disjE, goal_cases)
  case (1 ps d1)
  have "framed d d1" unfolding 1(2) by (rule framed_updates)
  then show ?case using 1 by (simp add: rs_def)
next
  case (2 ps d1 i binding d2 o')
  have "objects_ok (co_env L) d" using assms(1) by (simp add: layers_ok_def repo_ok_def)
  then have "objects_ok (co_env L) d1" using same_objects_ok [of d1 d "co_env L"] 2(2) by simp
  then have "adds_objects d1 d2" by (rule insert_object_Inr(3) [OF _ 2(4)])
  then have "db_heads d2 = db_heads d1" "db_paths d2 = db_paths d1" and f2: "framed d1 d2" by (auto simp: adds_objects_def framed_adds)
  moreover have "framed d d1" unfolding 2(2) by (rule framed_updates)
  moreover have "framed d2 d'" unfolding 2(6) by (rule framed_updates)
  ultimately have "framed d d'" using framed_trans by blast
  with \<open>db_heads d2 = db_heads d1\<close> \<open>db_paths d2 = db_paths d1\<close> show ?case using 2(1,2,6) by (simp add: rs_def)
qed

lemma settle_indexed:
  assumes "codecs_ok L" "layers_ok L d w" "index_ok L d" "head_at d expected n" "\<not> published (lh_layer expected) d"
    "checkpoint_node L d (ca_id candidate) = Inr node" "checkpoint_node L d (lh_checkpoint expected) = Inr before"
    "lc_base node = lc_base before" "discard \<Longrightarrow> ca_id candidate = lh_checkpoint expected" "\<not> discard \<Longrightarrow> checkpoint_of candidate node"
    "settle_update L operation expected candidate discard source resolution d = Inr (outcome, d')"
  shows "index_ok L d' \<and> leaves_publications d d'"
proof -
  define layer where "layer = lh_layer expected"
  define rs where "rs = layer_rows layer d"
  define accepted where "accepted \<longleftrightarrow> n = length rs - 1"
  note kept = update_kept [OF assms(1,2,4,6,7,8,9,11)]
  define hrow where "hrow = \<lparr>hr_layer = layer, hr_revision = int (length rs), hr_checkpoint = ca_id candidate,
      hr_discarded = (if discard then 1 else 0), hr_operation = Some operation\<rparr>"
  have d': "db_heads d' = db_heads d @ (if accepted then [hrow] else [])" "db_publications d' = db_publications d" and fr: "framed d d'"
    and ps: "paths_moved d layer candidate discard accepted (db_paths d')"
    using update_tables [OF assms(2,4,11)] framed_tables by (simp_all add: layer_def [symmetric] rs_def [symmetric] accepted_def hrow_def)
  have keyed: "keyed (db_paths d)" and index: "omap_ok (index_of L d layer)" "tracks (db_paths d) layer (map_of (index_of L d layer))"
    using assms(3) by (simp_all add: index_ok_def)
  have h: "history_ok L d rs" using assms(2) by (simp add: layers_ok_def rs_def)
  have rows': "layer_rows l d' = layer_rows l d @ (if accepted \<and> l = layer then [hrow] else [])" for l
    by (simp add: layer_rows_def d'(1) hrow_def)
  have "index_ok L d'"
  proof (cases accepted)
    case False
    then show ?thesis using index_same [OF assms(1,2) kept(2) d'(2) _ _ assms(3)] d' ps by (simp add: paths_moved_def)
  next
    case True
    have unpub: "\<not> published layer d'" "\<not> published layer d" using assms(5) d'(2) by (simp_all add: published_def layer_def)
    have mine: "layer_rows layer d' = rs @ [hrow]" using rows' [of layer] True by (simp add: rs_def)
    have "\<exists>rows. rows = db_paths d' \<and> keyed rows \<and> omap_ok (index_of L d' layer) \<and> tracks rows layer (map_of (index_of L d' layer))
      \<and> (\<forall>l g. l \<noteq> layer \<longrightarrow> tracks (db_paths d) l g \<longrightarrow> tracks rows l g)"
    proof (cases discard)
      case True
      have "\<not> live layer d'" using True mine by (simp add: live_def hrow_def)
      then have "index_of L d' layer = []" by (simp add: index_of_def)
      moreover obtain rows where "untrack_in layer d = Inr ((), d\<lparr>db_paths := rows\<rparr>)" "keyed rows" "tracks rows layer Map.empty"
        "\<forall>l g. l \<noteq> layer \<longrightarrow> tracks (db_paths d) l g \<longrightarrow> tracks rows l g"
        using untrack_in_exact [OF keyed, of layer] by blast
      moreover from this(1) have "rows = db_paths d'"
        using ps \<open>accepted\<close> True by (auto simp: paths_moved_def indexed_def dest: arg_cong [of _ _ db_paths])
      ultimately show ?thesis by simp
    next
      case False
      have n: "n < length rs" "hr_discarded (rs ! n) = 0" using assms(4) by (simp_all add: head_at_def rs_def layer_def)
      then have "rs \<noteq> []" by auto
      then have "rs ! n = last rs" using True by (simp add: accepted_def last_conv_nth)
      then have "live layer d" using unpub n(2) \<open>rs \<noteq> []\<close> by (simp add: live_def rs_def)
      then have old: "index_of L d layer = attributed L d rs" by (simp add: index_of_def rs_def)
      have "live layer d'" using False mine unpub by (simp add: live_def hrow_def)
      then have "index_of L d' layer = attribute_paths (node_of L d' (ca_id candidate)) (attributed L d' rs)"
        by (simp add: index_of_def mine attributed_snoc) (simp add: hrow_def)
      moreover have "checkpoint_node L d' (ca_id candidate) = Inr node" by (rule checkpoint_node_grown [OF assms(1) kept(2) assms(6)])
      ultimately have new: "index_of L d' layer = attribute_paths node (index_of L d layer)"
        using old attributed_grown [OF assms(1) kept(2) h] by (simp add: node_of_def)
      have ok: "omap_ok (lc_changes node)" using assms(6) by (simp add: checkpoint_node_iff [OF assms(1)] checkpoint_at_def)
      obtain rows where t: "track_in layer candidate d = Inr ((), d\<lparr>db_paths := rows\<rparr>)" "keyed rows"
        "tracks rows layer (map_of (attribute_paths node (index_of L d layer)))"
        "\<forall>l g. l \<noteq> layer \<longrightarrow> tracks (db_paths d) l g \<longrightarrow> tracks rows l g"
        using track_in_exact [OF keyed index(2,1) assms(10) [OF False] ok] by blast
      from t(1) have "rows = db_paths d'" using ps \<open>accepted\<close> False by (auto simp: paths_moved_def indexed_def dest: arg_cong [of _ _ db_paths])
      then show ?thesis using t(2-) new map_of_attribute_paths(1) [OF assms(10) [OF False] ok] by simp
    qed
    then show ?thesis using rows'
      by (intro index_moved [OF assms(1,2) kept(2) d'(2) _ assms(3), of layer]) auto
  qed
  moreover have "leaves_publications d d'" by (rule leaves_heads [OF fr d'(1)]) (use assms(5) in \<open>simp add: hrow_def layer_def\<close>)
  ultimately show ?thesis by blast
qed

lemma create_indexed:
  assumes "codecs_ok L" "layers_ok L d w" "index_ok L d" "checkpoint_node L d (ca_id candidate) = Inr node" "checkpoint_of candidate node"
    "published layer d \<Longrightarrow> layer_rows layer d \<noteq> []" "create_in layer candidate d = Inr (head, d')"
  shows "index_ok L d' \<and> leaves_publications d d'"
proof -
  note kept = create_in_kept [OF assms(1,2,4,7)]
  have h: "history_ok L d (layer_rows layer d)" using assms(2) by (simp add: layers_ok_def)
  have iff: "layer_exists layer d \<longleftrightarrow> layer_rows layer d \<noteq> []"
    by (auto simp: layer_exists_def layer_rows_def list_ex_iff filter_empty_conv)
  obtain u where run: "ensure_first layer candidate d = Inr (u, d')" using assms(7) by (auto simp: create_in_def tx_result)
  let ?row = "\<lparr>hr_layer = layer, hr_revision = 0, hr_checkpoint = ca_id candidate, hr_discarded = 0, hr_operation = None\<rparr>"
  show ?thesis
  proof (cases "layer_rows layer d = []")
    case False
    then have "d' = d" using run iff event_in_spec [OF h, of 0] by (auto simp: ensure_first_def split: if_splits)
    then show ?thesis using assms(3) by simp
  next
    case True
    then obtain d1 u1 where d1: "insert_head ?row d = Inr (u1, d1)" and t: "track_in layer candidate d1 = Inr (u, d')"
      using run iff by (auto simp: ensure_first_def tx_bind_Inr)
    have d1: "d1 = d\<lparr>db_heads := db_heads d @ [?row]\<rparr>" using d1 by (auto simp: insert_head_def result_simps split: if_splits)
    have keyed: "keyed (db_paths d1)" using assms(3) by (simp add: d1 index_ok_def)
    have "index_of L d layer = []" using True by (simp add: index_of_def live_def)
    moreover have "tracks (db_paths d) layer (map_of (index_of L d layer))" using assms(3) by (simp add: index_ok_def)
    ultimately have tr: "tracks (db_paths d1) layer (map_of [])" by (simp add: d1)
    have ok: "omap_ok (lc_changes node)" using assms(4) by (simp add: checkpoint_node_iff [OF assms(1)] checkpoint_at_def)
    obtain rows where rows: "track_in layer candidate d1 = Inr ((), d1\<lparr>db_paths := rows\<rparr>)" "keyed rows"
        "tracks rows layer (map_of (attribute_paths node []))" "\<forall>l g. l \<noteq> layer \<longrightarrow> tracks (db_paths d1) l g \<longrightarrow> tracks rows l g"
      using track_in_exact [OF keyed tr omap_ok_Nil assms(5) ok] by blast
    have d': "d' = d1\<lparr>db_paths := rows\<rparr>" using t rows(1) by simp
    have rows': "layer_rows l d' = layer_rows l d @ (if l = layer then [?row] else [])" for l by (simp add: layer_rows_def d' d1)
    have "checkpoint_node L d' (ca_id candidate) = Inr node" by (rule checkpoint_node_grown [OF assms(1) kept(2) assms(4)])
    then have nd: "node_of L d' (ca_id candidate) = node" by (simp add: node_of_def)
    have mine: "layer_rows layer d' = [?row]" using rows' [of layer] True by simp
    have "db_publications d' = db_publications d" by (simp add: d' d1)
    then have "live layer d'" using assms(6) True by (auto simp: live_def mine published_def)
    then have new: "index_of L d' layer = attribute_paths node []" by (simp add: index_of_def mine attributed_def nd)
    have "index_ok L d'"
    proof (rule index_moved [OF assms(1,2) kept(2) _ _ assms(3), of layer])
      show "db_publications d' = db_publications d" "keyed (db_paths d')" using rows(2) by (simp_all add: d' d1)
      show "layer_rows l d' = layer_rows l d" if "l \<noteq> layer" for l using rows' [of l] that by simp
      show "omap_ok (index_of L d' layer)" unfolding new by (rule map_of_attribute_paths(1) [OF assms(5) ok])
      show "tracks (db_paths d') layer (map_of (index_of L d' layer))" unfolding new using rows(3) by (simp add: d')
      show "tracks (db_paths d') l g" if "l \<noteq> layer" "tracks (db_paths d) l g" for l g using rows(4) that by (simp add: d' d1)
    qed
    moreover have "framed d d'" using framed_updates(1) [where d = d and as = "[]" and hs = "[?row]" and ps = rows] by (simp add: d' d1)
    then have "leaves_publications d d'" by (rule leaves_heads [of _ _ "[?row]"]) (use assms(6) True in \<open>auto simp: d' d1\<close>)
    ultimately show ?thesis by blast
  qed
qed

lemma update_in_indexed:
  assumes "codecs_ok L" "layers_ok L d w" "index_ok L d" "update_input L d expected candidate discard source resolution"
    "layer_attempt_row_in operation d = None \<Longrightarrow> \<not> published (lh_layer expected) d"
    "\<not> discard \<Longrightarrow> checkpoint_node L d (ca_id candidate) = Inr node \<and> checkpoint_of candidate node"
    "update_in L operation expected candidate discard source resolution d = Inr (outcome, d')"
  shows "index_ok L d' \<and> leaves_publications d d'"
proof (cases "layer_attempt_row_in operation d")
  case (Some row)
  then show ?thesis using assms(3,7) by (auto simp: update_in_def tx_result)
next
  case None
  then have run: "settle_update L operation expected candidate discard source resolution d = Inr (outcome, d')"
    using assms(7) by (auto simp: update_in_def tx_result)
  obtain n node' before where i: "head_at d expected n" "checkpoint_node L d (ca_id candidate) = Inr node'"
      "checkpoint_node L d (lh_checkpoint expected) = Inr before" "lc_base node' = lc_base before"
      "discard \<Longrightarrow> ca_id candidate = lh_checkpoint expected"
    using assms(4) unfolding update_input_def by blast
  have "\<not> discard \<Longrightarrow> checkpoint_of candidate node'" using assms(6) i(2) by simp
  from settle_indexed [OF assms(1-3) i(1) assms(5) [OF None] i(2-5) this run] show ?thesis .
qed

lemma objects_indexed:
  assumes "codecs_ok L" "layers_ok L d w" "index_ok L d" "objects_ok (co_env L) d'" "adds_objects d d'"
  shows "index_ok L d' \<and> leaves_publications d d'"
proof -
  have same: "db_publications d' = db_publications d" "db_heads d' = db_heads d" "db_paths d' = db_paths d"
    using assms(5) by (auto simp: adds_objects_def)
  from index_same [OF assms(1,2) objects_grown [OF assms(2,4,5)] same assms(3)] leaves_objects [OF assms(5)] show ?thesis by blast
qed

lemma layer_step_indexed:
  assumes "codecs_ok L" "layers_ok L d w" "index_ok L d" "\<And>layer. published layer d \<Longrightarrow> layer_rows layer d \<noteq> []" "layer_step L d d'"
  shows "index_ok L d' \<and> leaves_publications d d'"
  using assms(5)
proof cases
  case (blob bs i)
  then have "insert_object (co_env L) Blob bs d = Inr (i, d')" by (simp add: put_blob_def)
  from objects_indexed [OF assms(1-3)] insert_other [OF assms(1,2) this] show ?thesis by simp
next
  case (create layer base head)
  then obtain candidate d1 where a: "prepare_checkpoint L base [] [] None d = Inr (candidate, d1)" "create_in layer candidate d1 = Inr (head, d')"
    unfolding create_layer_def by (auto simp: tx_bind_Inr tx_read_Inr)
  have "changes_text []" "provenance_ok None" "oset_ok ([] :: object_id list)" by (simp_all add: changes_text_def provenance_ok_def oset_ok_def)
  note p = prepare_checkpoint_spec [OF assms(1,2) this _ a(1)]
  have i: "index_ok L d1" "leaves_publications d d1" using objects_indexed [OF assms(1-3)] p(2,3) by simp_all
  have "checkpoint_of candidate (prepared_node base [] candidate)" by (simp add: checkpoint_of_def prepared_node_def)
  moreover have "layer_rows layer d1 \<noteq> []" if "published layer d1"
    using assms(4) that i(2) leaves_published [OF i(2)] by (simp add: leaves_publications_def)
  ultimately show ?thesis using create_indexed [OF assms(1) p(1) i(1) p(4) _ _ a(2)] leaves_trans [OF i(2)] by simp
next
  case (clone layer checkpoint head)
  then obtain frozen where a: "checkpoint_node L d checkpoint = Inr frozen"
      "create_in layer \<lparr>ca_id = checkpoint, ca_changes = lc_changes frozen, ca_provenance = lc_provenance frozen\<rparr> d = Inr (head, d')"
    unfolding clone_layer_def by (auto simp: tx_bind_Inr tx_read_Inr checkpoint_in_eq)
  have "lc_id frozen = checkpoint" using a(1) by (simp add: checkpoint_node_iff [OF assms(1)] checkpoint_at_def)
  then have "checkpoint_of \<lparr>ca_id = checkpoint, ca_changes = lc_changes frozen, ca_provenance = lc_provenance frozen\<rparr> frozen"
    by (simp add: checkpoint_of_def)
  from create_indexed [OF assms(1-3) _ this assms(4) a(2)] a(1) show ?thesis by simp
next
  case (capture provenance operation expected ch outcome)
  obtain before candidate d1 where u: "verify_head expected d = Inr ()" "refuse_published_in L operation (lh_layer expected) d = Inr ()"
      "checkpoint_in L (lh_checkpoint expected) d = Inr before"
      "prepare_checkpoint L (lc_base before) ch (lc_sources before) provenance d = Inr (candidate, d1)"
      "update_in L operation expected candidate False None None d1 = Inr (outcome, d')"
      "layers_ok L d1 w" "grown (co_env L) d w d1 w" "update_input L d1 expected candidate False None None"
    by (rule capture_spec [OF assms(1,2) capture(2,3,1)])
  have node: "checkpoint_node L d (lh_checkpoint expected) = Inr before" using u(3) by (simp add: checkpoint_in_eq)
  note p = prepare_checkpoint_spec [OF assms(1,2) capture(2,3) node_sources [OF assms(2) node assms(1)] u(4)]
  have i: "index_ok L d1" "leaves_publications d d1" using objects_indexed [OF assms(1-3) p(3,2)] by simp_all
  have "layer_attempt_row_in operation d1 = layer_attempt_row_in operation d" using p(2) by (auto simp: adds_objects_def layer_attempt_row_in_def)
  then have np: "layer_attempt_row_in operation d1 = None \<Longrightarrow> \<not> published (lh_layer expected) d1"
    using unpublished [OF u(2)] leaves_published [OF i(2)] by simp
  have "index_ok L d' \<and> leaves_publications d1 d'"
    by (rule update_in_indexed [where node = "prepared_node (lc_base before) (lc_sources before) candidate", OF assms(1) u(6) i(1) u(8) np _ u(5)]) (use p(4) in \<open>simp_all add: checkpoint_of_def prepared_node_def\<close>)
  then show ?thesis using leaves_trans [OF i(2)] by blast
next
  case (discard operation expected outcome)
  note u = discard_spec [OF assms(2) discard assms(1)]
  from update_in_indexed [OF assms(1-3) _ _ _ u [THEN conjunct1]] u unpublished show ?thesis by blast
next
  case (stack provenance operation expected source ch resolution outcome)
  obtain before candidate d1 where u: "verify_head expected d = Inr ()" "refuse_published_in L operation (lh_layer expected) d = Inr ()"
      "\<exists>n. checkpoint_in L source d = Inr n" "checkpoint_in L (lh_checkpoint expected) d = Inr before"
      "prepare_checkpoint L (lc_base before) ch (oset_of (lc_sources before @ [source])) provenance d = Inr (candidate, d1)"
      "update_in L operation expected candidate False (Some source) resolution d1 = Inr (outcome, d')"
      "layers_ok L d1 w" "grown (co_env L) d w d1 w" "update_input L d1 expected candidate False (Some source) resolution"
    by (rule stack_spec [OF assms(1,2) stack(2,3,1)])
  have node: "checkpoint_node L d (lh_checkpoint expected) = Inr before" using u(4) by (simp add: checkpoint_in_eq)
  have src: "\<forall>s \<in> set (oset_of (lc_sources before @ [source])). \<exists>n. checkpoint_node L d s = Inr n"
    using node_sources(2) [OF assms(2) node assms(1)] u(3) by (auto simp: checkpoint_in_eq)
  note p = prepare_checkpoint_spec [OF assms(1,2) stack(2,3) oset_of_ok src u(5)]
  have i: "index_ok L d1" "leaves_publications d d1" using objects_indexed [OF assms(1-3) p(3,2)] by simp_all
  have "layer_attempt_row_in operation d1 = layer_attempt_row_in operation d" using p(2) by (auto simp: adds_objects_def layer_attempt_row_in_def)
  then have np: "layer_attempt_row_in operation d1 = None \<Longrightarrow> \<not> published (lh_layer expected) d1"
    using unpublished [OF u(2)] leaves_published [OF i(2)] by simp
  have "index_ok L d' \<and> leaves_publications d1 d'"
    by (rule update_in_indexed [where node = "prepared_node (lc_base before) (oset_of (lc_sources before @ [source])) candidate",
          OF assms(1) u(7) i(1) u(9) np _ u(6)]) (use p(4) in \<open>simp_all add: checkpoint_of_def prepared_node_def\<close>)
  then show ?thesis using leaves_trans [OF i(2)] by blast
qed

section \<open>The attribution recomputed\<close>

lemma attribution_loop_spec:
  assumes "history_ok L d (layer_rows layer d)" "ancestry L d deep seen" "j \<le> length (layer_rows layer d)" "i \<le> j"
  shows "\<exists>seen'. attribution_loop L d deep layer (map int [i ..< j]) (attributed L d (take i (layer_rows layer d))) seen
    = Inr (attributed L d (take j (layer_rows layer d)), seen') \<and> ancestry L d deep seen'"
  using assms(2-4)
proof (induction "j - i" arbitrary: i seen)
  case 0
  then show ?case by simp
next
  case (Suc k)
  let ?rs = "layer_rows layer d"
  have i: "i < j" "i < length ?rs" using Suc(2,4,5) by simp_all
  have upt: "map int [i ..< j] = int i # map int [Suc i ..< j]" using i(1) by (simp add: upt_conv_Cons)
  have ev: "event_in layer (int i) d = Inr (event_of (?rs ! i))" using event_in_spec [OF assms(1)] i(2) by simp
  have "\<exists>node. checkpoint_node L d (hr_checkpoint (?rs ! i)) = Inr node"
    using assms(1) nth_mem [OF i(2)] unfolding history_ok_def based_def by blast
  then obtain node where node: "checkpoint_node L d (hr_checkpoint (?rs ! i)) = Inr node" by blast
  from read_in [OF Suc(3) node] obtain seen1 where
    s1: "read_checkpoint_with L d deep (hr_checkpoint (?rs ! i)) seen = Inr (node, seen1)" "ancestry L d deep seen1" .
  have "attribute_paths node (attributed L d (take i ?rs)) = attributed L d (take (Suc i) ?rs)"
    using i(2) node by (simp add: take_Suc_conv_app_nth attributed_snoc node_of_def)
  moreover have "k = j - Suc i" "Suc i \<le> j" using Suc(2) by simp_all
  from Suc(1) [OF this(1) s1(2) Suc(4) this(2)] obtain seen2 where
    "attribution_loop L d deep layer (map int [Suc i ..< j]) (attributed L d (take (Suc i) ?rs)) seen1
      = Inr (attributed L d (take j ?rs), seen2)" "ancestry L d deep seen2" by blast
  ultimately show ?case unfolding upt using ev s1(1) by (simp add: event_of_def)
qed

lemma attribution_spec:
  assumes "layers_ok L d w" "layer_rows layer d \<noteq> []" "ancestry L d deep seen"
  shows "\<exists>seen'. attribution_in L d deep layer (num (length (layer_rows layer d) - 1)) seen = Inr (attributed L d (layer_rows layer d), seen')
    \<and> ancestry L d deep seen'"
proof -
  let ?rs = "layer_rows layer d"
  have h: "history_ok L d ?rs" using assms(1) by (simp add: layers_ok_def)
  then have n: "length ?rs - 1 < 2 ^ 63" "Suc (length ?rs - 1) = length ?rs" using assms(2) by (auto simp: history_ok_def)
  then have u: "unat (num (length ?rs - 1)) = length ?rs - 1" by (simp del: One_nat_def)
  have "min (length ?rs - 1) (2 ^ 63 - 1) = length ?rs - 1" using n(1) by simp
  then have e: "Suc (min (unat (num (length ?rs - 1))) (2 ^ 63 - 1)) = length ?rs" unfolding u using n(2) by simp
  have a0: "attributed L d (take 0 ?rs) = []" by (simp add: attributed_def)
  from attribution_loop_spec [OF h assms(3), of "length ?rs" 0] a0 obtain seen' where
    "attribution_loop L d deep layer (map int [0 ..< length ?rs]) [] seen = Inr (attributed L d ?rs, seen')" "ancestry L d deep seen'" by auto
  moreover have "\<not> 2 ^ 63 \<le> unat (num (length ?rs - 1))" unfolding u using n(1) by simp
  ultimately show ?thesis unfolding attribution_in_def e by (auto simp del: One_nat_def)
qed

end
