(* ===== verification/LayerCalls.thy ===== *)
theory LayerCalls
  imports LayerIndex
begin

text \<open>
  Lemmas on whole calls of the Layer operations: the bodies of settled Stacks, a capture of the latest head goes through, a
  call made again with the same input answers as before; and the calls on the example repository.
\<close>

section \<open>Stacks\<close>

lemma stack_settled:
  assumes "attempts_ok L d" "row \<in> set (db_stacks d)"
  shows "\<exists>outcome. settled L d (sr_id row) outcome"
proof -
  have "sr_id row \<in> la_id ` set (db_layer_attempts d)" using assms unfolding attempts_ok_def by blast
  then show ?thesis using assms(1) unfolding attempts_ok_def by auto
qed

text \<open>The body of a settled Stack operation is stored as the code writes it.\<close>

lemma binding_checked:
  assumes "attempts_ok L d" "row \<in> set (db_stacks d)"
  shows "\<exists>stored resolution. read_object (co_env L) d (sr_binding row) Blob = Inr stored \<and> stored_binding L stored = Inr resolution
    \<and> check_resolution L d resolution = Inr ()"
proof -
  obtain outcome arow before after candidate node identity where
    s: "settled_as L d (sr_id row) outcome arow before after candidate node identity"
    using stack_settled [OF assms] unfolding settled_def by blast
  have row: "stack_row_in (sr_id row) d = Some row"
    unfolding stack_row_in_def using find_row_key [of sr_id "db_stacks d" row] assms by (simp add: attempts_ok_def)
  then have "source_in (sr_id row) d = Some (sr_source row)" by (simp add: source_in_def)
  then show ?thesis using s row unfolding settled_as_def verify_stack_def verify_binding_def by (auto simp: result_simps split: if_splits)
qed

section \<open>Capture\<close>

lemma live_head:
  assumes "layers_ok L d w" "head_at d expected n" "\<not> published (lh_layer expected) d"
  shows "validate_format d = Inr ()" "verify_head expected d = Inr ()" "refuse_published_in L operation (lh_layer expected) d = Inr ()"
proof -
  have h: "history_ok L d (layer_rows (lh_layer expected) d)" using assms(1) by (simp add: layers_ok_def)
  show "validate_format d = Inr ()" using assms(1) by (simp add: layers_ok_def repo_ok_def)
  show "verify_head expected d = Inr ()" using verify_head_iff [OF h] assms(2) by blast
  have "filter (\<lambda>r. pu_layer r = lh_layer expected \<and> pu_outcome r = 1) (db_publications d) = []"
    using assms(3) by (auto simp: published_def filter_empty_conv)
  then have "rows_in (\<lambda>r. pu_layer r = lh_layer expected \<and> pu_outcome r = 1) d = []" by (simp add: rows_in_def)
  then show "refuse_published_in L operation (lh_layer expected) d = Inr ()"
    by (simp add: refuse_published_in_def published_state_in_def)
qed

abbreviation (input) next_head :: "layer_head \<Rightarrow> nat \<Rightarrow> object_id \<Rightarrow> layer_head" where
  "next_head expected n i \<equiv> \<lparr>lh_repository = lh_repository expected, lh_layer = lh_layer expected, lh_revision = num (Suc n), lh_checkpoint = i\<rparr>"

text \<open>A prepared checkpoint becomes the next head, whatever else is bound.\<close>

lemma update_applies:
  assumes "codecs_ok L" "layers_ok L d w" "index_ok L d" "changes_text ch" "provenance_ok provenance"
    "head_at d expected n" "Suc n = length (layer_rows (lh_layer expected) d)" "Suc n < 2 ^ 63"
    "layer_attempt_row_in operation d = None"
    "checkpoint_node L d (lh_checkpoint expected) = Inr prior" "oset_ok sources" "\<forall>s \<in> set sources. \<exists>n. checkpoint_node L d s = Inr n"
    "prepare_checkpoint L (lc_base prior) ch sources provenance d = Inr (candidate, d1)"
    "stacks_on L d source False prior (prepared_node (lc_base prior) sources candidate)"
    "binds L d1 operation expected (ca_id candidate) (UpdateApplied (Active (next_head expected n (ca_id candidate)))) source resolution os ss"
  shows "\<exists>d'. update_in L operation expected candidate False source resolution d1 =
    Inr (UpdateApplied (Active (next_head expected n (ca_id candidate))), d')"
proof -
  note p = prepare_checkpoint_spec [OF assms(1,2,4,5,11-13)]
  have g: "grown (co_env L) d w d1 w" by (rule objects_grown [OF assms(2) p(3,2)])
  have same: "db_heads d1 = db_heads d" "db_layer_attempts d1 = db_layer_attempts d" using p(2) by (auto simp: adds_objects_def)
  have i1: "index_ok L d1" using objects_indexed [OF assms(1-3) p(3,2)] by blast
  let ?node = "prepared_node (lc_base prior) sources candidate"
  have ok: "omap_ok (lc_changes ?node)" using p(4) by (simp add: checkpoint_node_iff [OF assms(1)] checkpoint_at_def)
  have cn: "checkpoint_of candidate ?node" by (simp add: checkpoint_of_def prepared_node_def)
  have "keyed (db_paths d1)" "omap_ok (index_of L d1 (lh_layer expected))" "tracks (db_paths d1) (lh_layer expected) (map_of (index_of L d1 (lh_layer expected)))"
    using i1 by (simp_all add: index_ok_def)
  from track_in_exact [OF this(1,3,2) cn ok] obtain rows where "track_in (lh_layer expected) candidate d1 = Inr ((), d1\<lparr>db_paths := rows\<rparr>)" by blast
  then have ix: "indexed d1 (lh_layer expected) candidate False rows" by (simp add: indexed_def)
  have len: "Suc n = length (layer_rows (lh_layer expected) d1)" using assms(7) same(1) by (simp add: layer_rows_def)
  have fresh: "layer_attempt_row_in operation d1 = None" using assms(9) same(2) by (simp add: layer_attempt_row_in_def)
  have base: "lc_base ?node = lc_base prior" by (simp add: prepared_node_def)
  have st: "stacks_on L d1 source False prior ?node"
    using assms(14) checkpoint_node_grown [OF assms(1) g] by (auto simp: stacks_on_def split: option.splits)
  have ev: "Active (next_head expected n (ca_id candidate)) = event_state (lh_repository expected) (next_event operation expected (ca_id candidate) False n)"
    by (simp add: event_state_def next_event_def num_def)
  from settle_bound [OF assms(1) p(1) head_at_grown [OF g assms(6)] len assms(8) fresh p(4) checkpoint_node_grown [OF assms(1) g assms(10)] base st _ ix
      assms(15) [unfolded ev]]
  show ?thesis by (simp add: update_in_def tx_bind_def tx_read_def fresh ev)
qed

text \<open>A capture of the latest head goes through.\<close>

lemma capture_applies:
  assumes "codecs_ok L" "layers_ok L d w" "index_ok L d" "changes_text ch" "provenance_ok provenance"
    "head_at d expected n" "Suc n = length (layer_rows (lh_layer expected) d)" "Suc n < 2 ^ 63"
    "layer_attempt_row_in operation d = None" "\<not> published (lh_layer expected) d"
    "checkpoint_in L (lh_checkpoint expected) d = Inr before"
    "prepare_checkpoint L (lc_base before) ch (lc_sources before) provenance d = Inr (candidate, d1)"
  shows "\<exists>d'. capture_layer L provenance operation expected ch d =
    Inr (UpdateApplied (Active \<lparr>lh_repository = lh_repository expected, lh_layer = lh_layer expected, lh_revision = num (Suc n),
                                lh_checkpoint = ca_id candidate\<rparr>), d')"
proof -
  have node: "checkpoint_node L d (lh_checkpoint expected) = Inr before" using assms(11) by (simp add: checkpoint_in_eq)
  have "stacks_on L d None False before (prepared_node (lc_base before) (lc_sources before) candidate)"
    by (simp add: stacks_on_def prepared_node_def)
  from update_applies [OF assms(1-9) node node_sources [OF assms(2) node assms(1)] assms(12) this, of None "[]" "[]"]
  show ?thesis using live_head [OF assms(2,6,10)] assms(11,12) by (auto simp: capture_layer_def tx_bind_def tx_read_def binds_def)
qed

text \<open>And so does a Stack on it, when the binding of its input can be stored.\<close>

lemma commit_stack_applies:
  assumes "codecs_ok L" "layers_ok L d w" "index_ok L d" "changes_text ch" "provenance_ok provenance"
    "head_at d expected n" "Suc n = length (layer_rows (lh_layer expected) d)" "Suc n < 2 ^ 63"
    "layer_attempt_row_in operation d = None" "\<not> published (lh_layer expected) d"
    "checkpoint_in L (lh_checkpoint expected) d = Inr prior" "checkpoint_in L source d = Inr stacked"
    "prepare_checkpoint L (lc_base prior) ch (oset_of (lc_sources prior @ [source])) provenance d = Inr (candidate, d1)"
    "binds L d1 operation expected (ca_id candidate) (UpdateApplied (Active (next_head expected n (ca_id candidate)))) (Some source) resolution os ss"
  shows "\<exists>d'. commit_stack_resolved L provenance operation expected source ch resolution d =
    Inr (UpdateApplied (Active (next_head expected n (ca_id candidate))), d')"
proof -
  have node: "checkpoint_node L d (lh_checkpoint expected) = Inr prior" "checkpoint_node L d source = Inr stacked"
    using assms(11,12) by (simp_all add: checkpoint_in_eq)
  have src: "\<forall>s \<in> set (oset_of (lc_sources prior @ [source])). \<exists>n. checkpoint_node L d s = Inr n"
    using node_sources(2) [OF assms(2) node(1) assms(1)] node(2) by auto
  have "stacks_on L d (Some source) False prior (prepared_node (lc_base prior) (oset_of (lc_sources prior @ [source])) candidate)"
    using node(2) by (simp add: stacks_on_def prepared_node_def)
  from update_applies [OF assms(1-9) node(1) oset_of_ok src assms(13) this assms(14)]
  show ?thesis using live_head [OF assms(2,6,10)] assms(11-13) by (auto simp: commit_stack_resolved_def tx_bind_def tx_read_def)
qed

section \<open>The check of the index\<close>

lemma sum_by_key:
  assumes "distinct ns" "\<forall>r \<in> set rows. f r \<in> set ns"
  shows "(\<Sum>n \<leftarrow> ns. length (filter (\<lambda>r. f r = n) rows)) = length rows"
  using assms(2)
proof (induction rows)
  case (Cons r rows)
  have "(\<Sum>n \<leftarrow> ns. if f r = n then 1 else (0 :: nat)) = 1"
    using assms(1) Cons.prems by (simp add: sum_list_distinct_conv_sum_set sum.delta)
  moreover have "(\<Sum>n \<leftarrow> ns. length (filter (\<lambda>r. f r = n) (r # rows))) =
    (\<Sum>n \<leftarrow> ns. (if f r = n then 1 else 0) + length (filter (\<lambda>r. f r = n) rows))"
    by (intro arg_cong [of _ _ sum_list] map_cong) simp_all
  ultimately show ?case using Cons by (simp add: sum_list_addf)
qed simp

lemma tracked_count:
  assumes "index_ok L d"
  shows "length (filter (\<lambda>r. pr_layer r = layer) (db_paths d)) = length (index_of L d layer)"
proof -
  let ?rows = "filter (\<lambda>r. pr_layer r = layer) (db_paths d)" and ?t = "index_of L d layer"
  have k: "keyed (db_paths d)" "omap_ok ?t" "tracks (db_paths d) layer (map_of ?t)" using assms by (simp_all add: index_ok_def)
  have "distinct (map path_key ?rows)" using k(1) distinct_map_filter unfolding keyed_def by blast
  then have "distinct (map pr_path ?rows)" by (auto simp: distinct_map path_key_def inj_on_def)
  then have "length ?rows = card (pr_path ` set ?rows)" using distinct_card by fastforce
  also have "pr_path ` set ?rows = fst ` set ?t"
  proof (intro set_eqI iffI)
    fix p assume "p \<in> pr_path ` set ?rows"
    then have "map_of ?t p \<noteq> None" using k(3) unfolding tracks_def by auto
    then show "p \<in> fst ` set ?t" by (simp add: map_of_eq_None_iff)
  next
    fix p assume "p \<in> fst ` set ?t"
    then have "map_of ?t p \<noteq> None" by (simp add: map_of_eq_None_iff)
    then show "p \<in> pr_path ` set ?rows" using k(3) unfolding tracks_def by fastforce
  qed
  also have "card (fst ` set ?t) = length ?t" using k(2) distinct_card [of "map fst ?t"] by (simp add: omap_ok_def strict_sorted_iff)
  finally show ?thesis .
qed

lemma layer_names_set: "set (layer_names d) = hr_layer ` set (db_heads d)" "distinct (layer_names d)"
  using oset_of_ok [of "map hr_layer (db_heads d)"] by (auto simp: layer_names_def oset_ok_def strict_sorted_iff)

lemma live_named: "live layer d \<Longrightarrow> layer \<in> set (layer_names d)"
  by (auto simp: live_def layer_rows_def layer_names_set filter_empty_conv)

lemma derived_index:
  assumes "layers_ok L d w" "db_publications d = []" "layer \<in> set (layer_names d)" "ancestry L d True seen"
  shows "\<exists>seen'. derived_attribution L d layer seen = Inr (index_of L d layer, seen') \<and> ancestry L d True seen'"
proof -
  let ?rs = "layer_rows layer d"
  have h: "history_ok L d ?rs" and "\<exists>identity. identity_in d = Inr identity" using assms(1) by (simp_all add: layers_ok_def)
  then obtain identity where i: "identity_in d = Inr identity" by blast
  have ne: "?rs \<noteq> []" using assms(3) by (auto simp: layer_names_set layer_rows_def filter_empty_conv)
  then have l: "last ?rs \<in> set ?rs" "last ?rs = ?rs ! (length ?rs - 1)" by (simp_all add: last_conv_nth)
  then have disc: "hr_discarded (last ?rs) = 0 \<or> hr_discarded (last ?rs) = 1" "hr_revision (last ?rs) = int (length ?rs - 1)"
    using h ne unfolding history_ok_def based_def by auto
  have state: "layer_state_in L layer d = Inr (event_state identity (event_of (last ?rs)))"
    using latest_in_spec [OF h] ne i assms(2) by (simp add: layer_state_in_def published_state_in_def rows_in_def latest_event_state_in_def)
  show ?thesis
  proof (cases "hr_discarded (last ?rs) = 1")
    case True
    then have "\<not> live layer d" by (simp add: live_def)
    then show ?thesis using True state assms(4) by (simp add: derived_attribution_def event_state_def event_of_def index_of_def)
  next
    case False
    then have "live layer d" using disc(1) ne assms(2) by (simp add: live_def published_def)
    then show ?thesis using attribution_spec [OF assms(1) ne assms(4)] state False disc(2)
      by (auto simp: derived_attribution_def event_state_def event_of_def index_of_def num_def)
  qed
qed

lemma check_index_ok:
  assumes "layers_ok L d w" "index_ok L d" "db_publications d = []" "ancestry L d True seen" "set layers \<subseteq> set (layer_names d)"
  shows "\<exists>seen'. check_index L d layers n seen = Inr (n + (\<Sum>layer \<leftarrow> layers. length (index_of L d layer)), seen')"
  using assms(4,5)
proof (induction layers arbitrary: n seen)
  case (Cons layer layers)
  have "layer \<in> set (layer_names d)" using Cons.prems(2) by simp
  from derived_index [OF assms(1,3) this Cons.prems(1)] obtain seen1 where
    s: "derived_attribution L d layer seen = Inr (index_of L d layer, seen1)" "ancestry L d True seen1" by blast
  have "omap_ok (index_of L d layer)" using assms(2) by (simp add: index_ok_def)
  then have "\<not> list_ex (\<lambda>(path, row). map_of (index_of L d layer) path \<noteq> Some row) (index_of L d layer)"
    by (auto simp: list_ex_iff omap_ok_def strict_sorted_iff)
  moreover obtain seen2 where "check_index L d layers (n + length (index_of L d layer)) seen1 =
      Inr (n + length (index_of L d layer) + (\<Sum>layer \<leftarrow> layers. length (index_of L d layer)), seen2)"
    using Cons.IH [OF s(2), of "n + length (index_of L d layer)"] Cons.prems(2) by auto
  ultimately show ?case using s(1) index_tracked [OF assms(2)] by (simp add: add.assoc)
qed simp

lemma check_radar_ok:
  assumes "layers_ok L d w" "index_ok L d" "db_publications d = []"
  shows "\<exists>seen. check_radar L d [] = Inr seen"
proof -
  have "\<forall>r \<in> set (db_paths d). pr_layer r \<in> set (layer_names d)"
  proof
    fix r assume r: "r \<in> set (db_paths d)"
    then have "index_of L d (pr_layer r) \<noteq> []" using assms(2) unfolding index_ok_def tracks_def by fastforce
    then show "pr_layer r \<in> set (layer_names d)" using live_named by (auto simp: index_of_def split: if_splits)
  qed
  from sum_by_key [OF layer_names_set(2) this]
  have "(\<Sum>layer \<leftarrow> layer_names d. length (index_of L d layer)) = length (db_paths d)" by (simp add: tracked_count [OF assms(2)])
  then show ?thesis using check_index_ok [OF assms layers_ancestry [OF assms(1) cache_ok_Nil] order_refl, of 0]
    by (auto simp: check_radar_def)
qed

lemma layer_run_indexed:
  assumes "codecs_ok L" "layer_run L d d'" "layers_ok L d w" "index_ok L d" "db_publications d = []"
  shows "index_ok L d' \<and> db_publications d' = []"
  using assms(2-5)
proof (induction rule: layer_run.induct)
  case (more d d' d'')
  have "layers_ok L d' w" using layer_run_kept [OF assms(1) more(1,4)] by blast
  moreover have "index_ok L d'" "db_publications d' = []" using more by blast+
  ultimately have "index_ok L d'' \<and> leaves_publications d' d''"
    using layer_step_indexed [OF assms(1) \<open>layers_ok L d' w\<close> _ _ more(2)] by (simp add: published_def)
  then show ?case using leaves_same \<open>db_publications d' = []\<close> by metis
qed simp

lemma no_layers_index: "no_layers d \<Longrightarrow> index_ok L d"
  by (auto simp: index_ok_def no_layers_def keyed_def index_of_def live_def layer_rows_def tracks_def omap_ok_def)

section \<open>Calls made again\<close>

lemma refused_grown:
  assumes "layer_attempt_row_in operation d = Some row" "grown E d w d' w'"
  shows "refuse_published_in L operation layer d' = Inr ()"
proof -
  have "layer_attempt_row_in operation d' = Some row" by (rule attempt_row_grown [OF assms(2,1)])
  then have "operation \<in> set (map la_id (db_layer_attempts d'))"
    unfolding layer_attempt_row_in_def using find_row_Some by fastforce
  then show ?thesis by (simp add: refuse_published_in_def)
qed

lemma verified_grown:
  assumes "layers_ok L d w" "layers_ok L d' w'" "grown E d w d' w'" "verify_head expected d = Inr ()"
  shows "verify_head expected d' = Inr ()"
proof -
  have h: "history_ok L d (layer_rows (lh_layer expected) d)" "history_ok L d' (layer_rows (lh_layer expected) d')"
    using assms(1,2) by (simp_all add: layers_ok_def)
  then show ?thesis using assms(4) head_at_grown [OF assms(3)] by (auto simp: verify_head_iff)
qed

lemma capture_again:
  assumes "codecs_ok L" "layers_ok L d w" "changes_text ch" "provenance_ok provenance"
    "capture_layer L provenance operation expected ch d = Inr (outcome, d')" "layers_ok L d2 w2" "grown (co_env L) d' w d2 w2"
  shows "capture_layer L provenance operation expected ch d2 = Inr (outcome, d2)"
proof -
  obtain before candidate d1 where u: "verify_head expected d = Inr ()" "refuse_published_in L operation (lh_layer expected) d = Inr ()"
      "checkpoint_in L (lh_checkpoint expected) d = Inr before"
      "prepare_checkpoint L (lc_base before) ch (lc_sources before) provenance d = Inr (candidate, d1)"
      "update_in L operation expected candidate False None None d1 = Inr (outcome, d')"
      "layers_ok L d1 w" "grown (co_env L) d w d1 w" "update_input L d1 expected candidate False None None"
    by (rule capture_spec [OF assms(1-5)])
  note k = update_in_kept [OF assms(1) u(6,8,5)]
  have g1: "grown (co_env L) d1 w d2 w2" and g: "grown (co_env L) d w d2 w2"
    using grown_trans [OF k(2) assms(7)] grown_trans [OF u(7) grown_trans [OF k(2) assms(7)]] by simp_all
  have again: "update_in L operation expected candidate False None None d2 = Inr (outcome, d2)"
    by (rule answered_update [OF answered_grown [OF assms(1,7) k(3)]])
  obtain row where "layer_attempt_row_in operation d' = Some row" using k(3) unfolding answered_def by blast
  then have refused: "refuse_published_in L operation (lh_layer expected) d2 = Inr ()" by (rule refused_grown [OF _ assms(7)])
  have before: "checkpoint_in L (lh_checkpoint expected) d2 = Inr before"
    using checkpoint_node_grown [OF assms(1) g] u(3) by (simp add: checkpoint_in_eq)
  have "keeps_objects d1 d2" using g1 by (simp add: grown_def)
  from prepare_checkpoint_again [OF assms(2,3) u(4) g this] have
    prepared: "prepare_checkpoint L (lc_base before) ch (lc_sources before) provenance d2 = Inr (candidate, d2)" .
  have "validate_format d2 = Inr ()" using assms(6) by (simp add: layers_ok_def repo_ok_def)
  then show ?thesis using verified_grown [OF assms(2,6) g u(1)] refused before prepared again
    by (simp add: capture_layer_def tx_bind_def tx_read_def)
qed

lemma discard_again:
  assumes "codecs_ok L" "layers_ok L d w" "discard_layer L operation expected d = Inr (outcome, d')"
    "layers_ok L d2 w2" "grown (co_env L) d' w d2 w2"
  shows "discard_layer L operation expected d2 = Inr (outcome, d2)"
proof -
  note u = discard_spec [OF assms(2,3,1)]
  note k = update_in_kept [OF assms(1,2) u [THEN conjunct2, THEN conjunct1] u [THEN conjunct1]]
  have g: "grown (co_env L) d w d2 w2" by (rule grown_trans [OF k(2) assms(5)])
  have ca: "lh_checkpoint expected = ca_id \<lparr>ca_id = lh_checkpoint expected, ca_changes = [], ca_provenance = None\<rparr>" by simp
  note again = answered_update [OF answered_grown [OF assms(1,5) k(3)]]
  obtain row where "layer_attempt_row_in operation d' = Some row" using k(3) unfolding answered_def by blast
  then have refused: "refuse_published_in L operation (lh_layer expected) d2 = Inr ()" by (rule refused_grown [OF _ assms(5)])
  have "validate_format d2 = Inr ()" using assms(4) by (simp add: layers_ok_def repo_ok_def)
  then show ?thesis using verified_grown [OF assms(2,4) g] u refused again
    by (simp add: discard_layer_def tx_bind_def tx_read_def)
qed

lemma stack_again:
  assumes "codecs_ok L" "layers_ok L d w" "changes_text ch" "provenance_ok provenance"
    "commit_stack_resolved L provenance operation expected source ch resolution d = Inr (outcome, d')"
    "layers_ok L d2 w2" "grown (co_env L) d' w d2 w2"
  shows "commit_stack_resolved L provenance operation expected source ch resolution d2 = Inr (outcome, d2)"
proof -
  obtain before candidate d1 where u: "verify_head expected d = Inr ()" "refuse_published_in L operation (lh_layer expected) d = Inr ()"
      "\<exists>n. checkpoint_in L source d = Inr n" "checkpoint_in L (lh_checkpoint expected) d = Inr before"
      "prepare_checkpoint L (lc_base before) ch (oset_of (lc_sources before @ [source])) provenance d = Inr (candidate, d1)"
      "update_in L operation expected candidate False (Some source) resolution d1 = Inr (outcome, d')"
      "layers_ok L d1 w" "grown (co_env L) d w d1 w" "update_input L d1 expected candidate False (Some source) resolution"
    by (rule stack_spec [OF assms(1-5)])
  note k = update_in_kept [OF assms(1) u(7,9,6)]
  have g1: "grown (co_env L) d1 w d2 w2" and g: "grown (co_env L) d w d2 w2"
    using grown_trans [OF k(2) assms(7)] grown_trans [OF u(8) grown_trans [OF k(2) assms(7)]] by simp_all
  have again: "update_in L operation expected candidate False (Some source) resolution d2 = Inr (outcome, d2)"
    by (rule answered_update [OF answered_grown [OF assms(1,7) k(3)]])
  obtain row where "layer_attempt_row_in operation d' = Some row" using k(3) unfolding answered_def by blast
  then have refused: "refuse_published_in L operation (lh_layer expected) d2 = Inr ()" by (rule refused_grown [OF _ assms(7)])
  obtain n where n: "checkpoint_node L d source = Inr n" using u(3) by (auto simp: checkpoint_in_eq)
  have read: "checkpoint_in L (lh_checkpoint expected) d2 = Inr before" "checkpoint_in L source d2 = Inr n"
    using checkpoint_node_grown [OF assms(1) g] u(4) n by (simp_all add: checkpoint_in_eq)
  have "keeps_objects d1 d2" using g1 by (simp add: grown_def)
  from prepare_checkpoint_again [OF assms(2,3) u(5) g this] have
    prepared: "prepare_checkpoint L (lc_base before) ch (oset_of (lc_sources before @ [source])) provenance d2 = Inr (candidate, d2)" .
  have "validate_format d2 = Inr ()" using assms(6) by (simp add: layers_ok_def repo_ok_def)
  then show ?thesis using verified_grown [OF assms(2,6) g u(1)] refused read prepared again
    by (simp add: commit_stack_resolved_def tx_bind_def tx_read_def)
qed

section \<open>An example\<close>

definition example_candidate :: candidate where
  "example_candidate = \<lparr>ca_id = replicate 32 CHR ''c'', ca_changes = [], ca_provenance = None\<rparr>"

lemma example_checkpoint: "checkpoint_in example_codecs (lh_checkpoint example_head) layer_db = Inr (prepared_node example_base [] example_candidate)"
  and example_prepared: "prepare_checkpoint example_codecs example_base [] [] None layer_db = Inr (example_candidate, layer_db)"
proof -
  let ?L = example_codecs
  obtain candidate d1 where a: "prepare_checkpoint ?L example_base [] [] None new_db = Inr (candidate, d1)"
      "create_in example_layer candidate d1 = Inr (example_head, layer_db)"
    using example_created unfolding create_layer_def by (auto simp: tx_bind_Inr tx_read_Inr)
  have t: "changes_text []" "provenance_ok None" "oset_ok ([] :: object_id list)" by (simp_all add: changes_text_def provenance_ok_def oset_ok_def)
  note p = prepare_checkpoint_spec [OF example_codecs_ok new_db_layers t _ a(1)]
  have ok1: "layers_ok ?L d1 [(Map.empty, [])]" and n1: "checkpoint_node ?L d1 (ca_id candidate) = Inr (prepared_node example_base [] candidate)"
    and g1: "grown (co_env ?L) new_db [(Map.empty, [])] d1 [(Map.empty, [])]"
    using p objects_grown [OF new_db_layers] by simp_all
  note c = create_in_kept [OF example_codecs_ok ok1 n1 a(2)]
  have "normalize (index_in (co_env ?L) new_db (lb_version example_base)) [] = Inr (ca_changes candidate)" using p(5) by simp
  moreover have "normalize (index_in (co_env ?L) new_db (lb_version example_base)) [] = Inr []"
    using normalize_nothing [OF new_db_ok(2), of "lb_version example_base"] by (simp add: example_codecs_def example_env_def example_base_def)
  moreover have "ca_provenance candidate = None"
    using a(1) unfolding prepare_checkpoint_def prepare_provenance_def by (auto simp: tx_bind_Inr tx_read_Inr tx_ret_def split: option.splits)
  moreover have "ca_id candidate = replicate 32 CHR ''c''" using c(3) by (simp add: example_head_def)
  ultimately have e: "candidate = example_candidate" by (cases candidate) (simp add: example_candidate_def)
  show "checkpoint_in ?L (lh_checkpoint example_head) layer_db = Inr (prepared_node example_base [] example_candidate)"
    using checkpoint_node_grown [OF example_codecs_ok c(2) n1] arg_cong [OF c(3), of lh_checkpoint] by (simp add: checkpoint_in_eq e)
  have "keeps_objects d1 layer_db" using c(2) by (simp add: grown_def)
  from prepare_checkpoint_again [OF new_db_layers t(1) a(1) grown_trans [OF g1 c(2)] this]
  show "prepare_checkpoint ?L example_base [] [] None layer_db = Inr (example_candidate, layer_db)" by (simp add: e)
qed

lemma example_text: "changes_text []" "provenance_ok None" by (simp_all add: changes_text_def provenance_ok_def)

lemma layer_db_attempts: "layer_attempt_row_in operation layer_db = None"
  using new_db_tables(2) by (simp add: layer_attempt_row_in_def layer_db_def no_layers_def find_row_def)

lemma layer_db_index: "index_ok example_codecs layer_db" "db_publications layer_db = []"
  using layer_run_indexed [OF example_codecs_ok layer_db_ok(3) new_db_layers no_layers_index [OF new_db_tables(2)] new_db_tables(4)] by simp_all

lemma layer_db_live: "\<not> published (lh_layer example_head) layer_db" by (simp add: published_def layer_db_index)

lemma layer_db_length: "Suc 0 = length (layer_rows (lh_layer example_head) layer_db)"
  by (simp add: layer_rows_def layer_db_def example_head_def)

lemma example_bound: "Suc 0 < 2 ^ 63" by simp

lemma example_capture: "\<exists>outcome d'. capture_layer example_codecs None ''o'' example_head [] layer_db = Inr (outcome, d')"
proof -
  have "prepare_checkpoint example_codecs (lc_base (prepared_node example_base [] example_candidate)) []
      (lc_sources (prepared_node example_base [] example_candidate)) None layer_db = Inr (example_candidate, layer_db)"
    by (simp add: prepared_node_def example_prepared)
  from capture_applies [OF example_codecs_ok layer_db_ok(1) layer_db_index(1) example_text layer_db_ok(2) layer_db_length example_bound
      layer_db_attempts layer_db_live example_checkpoint this] show ?thesis by blast
qed

text \<open>The event of an accepted attempt.\<close>

lemma accepted_event:
  assumes "attempts_ok L d" "a \<in> set (db_layer_attempts d)" "la_accepted a = 1"
  shows "\<exists>after. event_in (la_layer a) (la_expected a + 1) d = Inr after \<and> ev_operation after = Some (la_id a)"
proof -
  have row: "layer_attempt_row_in (la_id a) d = Some a"
    unfolding layer_attempt_row_in_def using find_row_key [of la_id "db_layer_attempts d" a] assms by (simp add: attempts_ok_def)
  obtain outcome where "settled L d (la_id a) outcome" using assms unfolding attempts_ok_def by blast
  then show ?thesis using row assms(3) unfolding settled_def settled_as_def recorded_update_def by (auto split: if_splits)
qed

lemma applied_accepted:
  assumes "answered L operation expected checkpoint discard source resolution (UpdateApplied state) d"
  shows "\<exists>a \<in> set (db_layer_attempts d). la_id a = operation \<and> la_accepted a = 1"
proof -
  obtain row where row: "layer_attempt_row_in operation d = Some row" and "settled L d operation (UpdateApplied state)"
    using assms unfolding answered_def by blast
  then have "la_accepted row = 1" unfolding settled_def settled_as_def recorded_update_def by (auto split: if_splits)
  moreover have "row \<in> set (db_layer_attempts d) \<and> la_id row = operation"
    using find_row_Some row unfolding layer_attempt_row_in_def by fastforce
  ultimately show ?thesis by blast
qed

lemma discard_applies:
  assumes "codecs_ok L" "layers_ok L d w" "index_ok L d"
    "head_at d expected n" "Suc n = length (layer_rows (lh_layer expected) d)" "Suc n < 2 ^ 63"
    "layer_attempt_row_in operation d = None" "\<not> published (lh_layer expected) d"
    "checkpoint_in L (lh_checkpoint expected) d = Inr before"
  shows "\<exists>d'. discard_layer L operation expected d =
    Inr (UpdateApplied (Discarded (lh_layer expected) (num (Suc n)) (lh_checkpoint expected)), d')"
proof -
  let ?candidate = "\<lparr>ca_id = lh_checkpoint expected, ca_changes = [], ca_provenance = None\<rparr>"
  have node: "checkpoint_node L d (lh_checkpoint expected) = Inr before" using assms(9) by (simp add: checkpoint_in_eq)
  have h: "history_ok L d (layer_rows (lh_layer expected) d)" and fmt: "validate_format d = Inr ()"
    using assms(2) by (simp_all add: layers_ok_def repo_ok_def)
  have vh: "verify_head expected d = Inr ()" using verify_head_iff [OF h] assms(4) by blast
  have "filter (\<lambda>r. pu_layer r = lh_layer expected \<and> pu_outcome r = 1) (db_publications d) = []"
    using assms(8) by (auto simp: published_def filter_empty_conv)
  then have rp: "refuse_published_in L operation (lh_layer expected) d = Inr ()"
    by (simp add: refuse_published_in_def published_state_in_def rows_in_def)
  have "keyed (db_paths d)" using assms(3) by (simp add: index_ok_def)
  from untrack_in_exact [OF this, of "lh_layer expected"] obtain rows where "indexed d (lh_layer expected) ?candidate True rows"
    by (auto simp: indexed_def)
  from settle_progress [OF assms(1,2,4-7) _ node _ _ _ this] node obtain d' where
    "settle_update L operation expected ?candidate True None None d = Inr
      (UpdateApplied (event_state (lh_repository expected) \<lparr>ev_layer = lh_layer expected, ev_revision = int (Suc n),
         ev_checkpoint = lh_checkpoint expected, ev_discarded = True, ev_operation = Some operation\<rparr>), d')" by auto
  then have "update_in L operation expected ?candidate True None None d =
      Inr (UpdateApplied (Discarded (lh_layer expected) (num (Suc n)) (lh_checkpoint expected)), d')"
    by (simp add: update_in_def tx_bind_def tx_read_def assms(7) event_state_def num_def)
  then show ?thesis using fmt vh rp by (auto simp: discard_layer_def tx_bind_def tx_read_def)
qed

lemma example_accepted: "\<exists>d' a. layer_run example_codecs layer_db d' \<and> a \<in> set (db_layer_attempts d') \<and> la_accepted a = 1"
  and example_discarded: "\<exists>d'. layer_run example_codecs layer_db d' \<and> layer_rows example_layer d' \<noteq> []
    \<and> hr_discarded (last (layer_rows example_layer d')) = 1"
proof -
  let ?L = example_codecs
  obtain d' where run: "discard_layer ?L ''o'' example_head layer_db =
      Inr (UpdateApplied (Discarded (lh_layer example_head) (num (Suc 0)) (lh_checkpoint example_head)), d')"
    using discard_applies [OF example_codecs_ok layer_db_ok(1) layer_db_index(1) layer_db_ok(2) layer_db_length example_bound
      layer_db_attempts layer_db_live example_checkpoint, of "''o''"] by blast
  have r: "layer_run ?L layer_db d'" by (rule layer_run.more [OF layer_run.start layer_step.discard [OF run]])
  note u = discard_spec [OF layer_db_ok(1) run example_codecs_ok]
  note k = update_in_kept [OF example_codecs_ok layer_db_ok(1) u [THEN conjunct2, THEN conjunct1] u [THEN conjunct1]]
  from applied_accepted [OF k(3)] r show "\<exists>d' a. layer_run ?L layer_db d' \<and> a \<in> set (db_layer_attempts d') \<and> la_accepted a = 1" by blast
  have "lh_revision example_head = num (length (layer_rows (lh_layer example_head) layer_db) - 1)"
    using layer_db_length by (simp add: example_head_def)
  then have "db_heads d' = db_heads layer_db @ [\<lparr>hr_layer = lh_layer example_head, hr_revision = int (length (layer_rows (lh_layer example_head) layer_db)),
      hr_checkpoint = lh_checkpoint example_head, hr_discarded = 1, hr_operation = Some ''o''\<rparr>]"
    using k(4) [OF layer_db_attempts] by (simp add: swapped_def Let_def)
  then have "layer_rows example_layer d' = layer_rows example_layer layer_db @
     [\<lparr>hr_layer = lh_layer example_head, hr_revision = int (length (layer_rows (lh_layer example_head) layer_db)),
      hr_checkpoint = lh_checkpoint example_head, hr_discarded = 1, hr_operation = Some ''o''\<rparr>]"
    by (simp add: layer_rows_def example_head_def)
  with r show "\<exists>d'. layer_run ?L layer_db d' \<and> layer_rows example_layer d' \<noteq> [] \<and> hr_discarded (last (layer_rows example_layer d')) = 1"
    by auto
qed

end
