(* ===== verification/LayerProperties.thy ===== *)
theory LayerProperties
  imports LayerCalls
begin

text \<open>
  What Layers promise: every reachable state is accepted by the deep integrity check, an update is a compare-and-swap on
  the latest head, its retry returns the first outcome and writes nothing, a discarded Layer stays discarded, and the index
  of paths agrees with the attribution recomputed from the history.
\<close>

section \<open>The integrity check\<close>

text \<open>From a repository without Layers, whatever sequence of Layer operations succeeds, the deep check of Layers accepts the
  state it leaves, counts each Layer once, and finds every attempt of every operation.\<close>

theorem layers_always_checked:
  assumes "codecs_ok L" "repo_ok (co_env L) d w" "no_layers d" "db_identity d = [(1, i)]" "layer_run L d d'"
  shows "\<exists>seen. check_layers L d' True [] = Inr (card (hr_layer ` set (db_heads d')), seen)
    \<and> (\<forall>layer. check_layer L d' layer = Inr ()) \<and> check_stacks L d' = Inr ()"
proof -
  have ok: "layers_ok L d' w" using layer_run_kept [OF assms(1,5) no_layers_ok [OF assms(2-4)]] by blast
  have at: "attempts_ok L d'" using ok by (simp add: layers_ok_def)
  have stacks: "check_bindings L d' rows = Inr ()" if "set rows \<subseteq> set (db_stacks d')" for rows
    using that
  proof (induction rows)
    case (Cons r rows)
    from binding_checked [OF at, of r] Cons.prems obtain stored resolution where
      "read_object (co_env L) d' (sr_binding r) Blob = Inr stored" "stored_binding L stored = Inr resolution"
      "check_resolution L d' resolution = Inr ()" by auto
    then show ?case using Cons by simp
  qed simp
  have "\<not> list_ex (\<lambda>r. sr_id r \<notin> set (map la_id (db_layer_attempts d'))) (db_stacks d')"
    using at by (auto simp: attempts_ok_def list_ex_iff)
  then have "check_stacks L d' = Inr ()" using stacks by (simp add: check_stacks_def)
  then show ?thesis using layers_checked [OF ok cache_ok_Nil, of True] layer_checked [OF ok] by blast
qed

theorem layers_always_checked_witness:
  "\<exists>seen. check_layers example_codecs layer_db True [] = Inr (card (hr_layer ` set (db_heads layer_db)), seen)
    \<and> (\<forall>layer. check_layer example_codecs layer_db layer = Inr ()) \<and> check_stacks example_codecs layer_db = Inr ()"
proof (rule layers_always_checked [OF example_codecs_ok _ new_db_tables(2,3) layer_db_ok(3)])
  show "repo_ok (co_env example_codecs) new_db [(Map.empty, [])]" using new_db_ok(2) by (simp add: example_codecs_def)
qed

section \<open>Compare and swap\<close>

text \<open>C18: A capture under a fresh operation ID stores the changes without their no-ops over the Layer's base, with the sources
  of the expected head, and is a compare-and-swap: it appends one head event when the expected head is the latest event and
  then reports it as applied; otherwise it appends none and reports the latest event.\<close>

theorem capture_compares_and_swaps:
  assumes "codecs_ok L" "layers_ok L d w" "changes_text ch" "provenance_ok provenance" "layer_attempt_row_in operation d = None"
    "capture_layer L provenance operation expected ch d = Inr (outcome, d')"
  shows "\<exists>before node. checkpoint_in L (lh_checkpoint expected) d = Inr before \<and> checkpoint_in L (lc_id node) d' = Inr node
    \<and> lc_base node = lc_base before \<and> lc_sources node = lc_sources before
    \<and> lc_changes node = filter (\<lambda>(p, e). fst (w ! unat (lb_version (lc_base before))) p \<noteq> e) ch
    \<and> layers_ok L d' w \<and> swapped L d operation expected (lc_id node) False outcome d'"
proof -
  obtain before candidate d1 where u: "verify_head expected d = Inr ()" "refuse_published_in L operation (lh_layer expected) d = Inr ()"
      "checkpoint_in L (lh_checkpoint expected) d = Inr before"
      "prepare_checkpoint L (lc_base before) ch (lc_sources before) provenance d = Inr (candidate, d1)"
      "update_in L operation expected candidate False None None d1 = Inr (outcome, d')"
      "layers_ok L d1 w" "grown (co_env L) d w d1 w" "update_input L d1 expected candidate False None None"
    by (rule capture_spec [OF assms(1-4,6)])
  have node: "checkpoint_node L d (lh_checkpoint expected) = Inr before" using u(3) by (simp add: checkpoint_in_eq)
  note p = prepare_checkpoint_spec [OF assms(1-4) node_sources [OF assms(2) node assms(1)] u(4)]
  let ?node = "prepared_node (lc_base before) (lc_sources before) candidate"
  have same: "db_heads d1 = db_heads d" "db_layer_attempts d1 = db_layer_attempts d" using p(2) by (auto simp: adds_objects_def)
  have fresh: "layer_attempt_row_in operation d1 = None" using assms(5) same by (simp add: layer_attempt_row_in_def)
  note k = update_in_kept [OF assms(1) u(6,8,5)]
  have sw: "swapped L d operation expected (ca_id candidate) False outcome d'"
    using k(4) [OF fresh] unfolding swapped_def layer_rows_def same(1) .
  have "checkpoint_node L d' (ca_id candidate) = Inr ?node" by (rule checkpoint_node_grown [OF assms(1) k(2) p(4)])
  moreover have "ca_changes candidate = filter (\<lambda>(p, e). fst (w ! unat (lb_version (lc_base before))) p \<noteq> e) ch"
  proof -
    have r: "repo_ok (co_env L) d w" and ok: "omap_ok ch" using assms(2,3) by (simp_all add: layers_ok_def changes_text_def)
    have "validate_base (lc_base before) d = Inr ()" using node by (simp add: checkpoint_node_iff [OF assms(1)] checkpoint_at_def)
    from base_version(1) [OF r this] p(5) show ?thesis by (simp add: normalize_in_iff [OF r _ ok])
  qed
  ultimately show ?thesis using u(3) k(1) sw
    by (intro exI [of _ before] exI [of _ ?node]) (simp add: checkpoint_in_eq prepared_node_def)
qed

theorem capture_compares_and_swaps_witness:
  "\<exists>outcome d' before node. checkpoint_in example_codecs (lh_checkpoint example_head) layer_db = Inr before
    \<and> checkpoint_in example_codecs (lc_id node) d' = Inr node \<and> lc_base node = lc_base before \<and> lc_sources node = lc_sources before
    \<and> lc_changes node = filter (\<lambda>(p, e). fst (([(Map.empty, [])] :: world_log) ! unat (lb_version (lc_base before))) p \<noteq> e) []
    \<and> layers_ok example_codecs d' [(Map.empty, [])] \<and> swapped example_codecs layer_db ''o'' example_head (lc_id node) False outcome d'"
proof -
  obtain outcome d' where run: "capture_layer example_codecs None ''o'' example_head [] layer_db = Inr (outcome, d')" using example_capture by blast
  show ?thesis
    by (rule exI [of _ outcome], rule exI [of _ d'])
      (rule capture_compares_and_swaps [OF example_codecs_ok layer_db_ok(1) example_text(1,2) layer_db_attempts run])
qed

text \<open>A capture that expects the latest head of a Layer that is not published, under a fresh operation ID, is applied as
  the next revision, provided its objects can be stored and the revisions are not used up.\<close>

theorem capture_of_latest_applies:
  assumes "codecs_ok L" "layers_ok L d w" "index_ok L d" "changes_text ch" "provenance_ok provenance"
    "head_at d expected n" "Suc n = length (layer_rows (lh_layer expected) d)" "Suc n < 2 ^ 63"
    "layer_attempt_row_in operation d = None" "\<not> published (lh_layer expected) d"
    "checkpoint_in L (lh_checkpoint expected) d = Inr before"
    "prepare_checkpoint L (lc_base before) ch (lc_sources before) provenance d = Inr (candidate, d1)"
  shows "\<exists>d'. capture_layer L provenance operation expected ch d =
    Inr (UpdateApplied (Active \<lparr>lh_repository = lh_repository expected, lh_layer = lh_layer expected, lh_revision = num (Suc n),
                                lh_checkpoint = ca_id candidate\<rparr>), d')"
  by (rule capture_applies [OF assms])

theorem capture_of_latest_applies_witness:
  "\<exists>d'. capture_layer example_codecs None ''o'' example_head [] layer_db =
    Inr (UpdateApplied (Active \<lparr>lh_repository = lh_repository example_head, lh_layer = lh_layer example_head, lh_revision = num (Suc 0),
                                lh_checkpoint = ca_id example_candidate\<rparr>), d')"
  by (rule capture_of_latest_applies [OF example_codecs_ok layer_db_ok(1) layer_db_index(1) example_text(1,2) layer_db_ok(2) layer_db_length
        example_bound layer_db_attempts layer_db_live example_checkpoint]) (simp add: prepared_node_def example_prepared)

section \<open>Retries\<close>

text \<open>C19: A capture, a discard or a Stack that succeeded is retried safely: after any further Layer operations the same call
  returns the same outcome and changes nothing.\<close>

theorem layer_retry:
  assumes "codecs_ok L" "layers_ok L d w" "changes_text ch" "provenance_ok provenance" "layer_run L d1 d2"
  shows "(capture_layer L provenance operation expected ch d = Inr (outcome, d1) \<longrightarrow>
      capture_layer L provenance operation expected ch d2 = Inr (outcome, d2))
    \<and> (discard_layer L operation expected d = Inr (outcome, d1) \<longrightarrow> discard_layer L operation expected d2 = Inr (outcome, d2))
    \<and> (commit_stack_resolved L provenance operation expected source ch resolution d = Inr (outcome, d1) \<longrightarrow>
      commit_stack_resolved L provenance operation expected source ch resolution d2 = Inr (outcome, d2))"
proof -
  have later: "layers_ok L d2 w \<and> grown (co_env L) d1 w d2 w" if "layer_step L d d1"
    using layer_run_kept [OF assms(1,5)] layer_step_kept [OF assms(1,2) that] by blast
  show ?thesis
  proof (intro conjI impI)
  assume run: "capture_layer L provenance operation expected ch d = Inr (outcome, d1)"
  note l = later [OF layer_step.capture [OF run assms(3,4)]]
  show "capture_layer L provenance operation expected ch d2 = Inr (outcome, d2)"
    by (rule capture_again [OF assms(1-4) run l [THEN conjunct1] l [THEN conjunct2]])
  next
  assume run: "discard_layer L operation expected d = Inr (outcome, d1)"
  note l = later [OF layer_step.discard [OF run]]
  show "discard_layer L operation expected d2 = Inr (outcome, d2)"
    by (rule discard_again [OF assms(1-2) run l [THEN conjunct1] l [THEN conjunct2]])
  next
  assume run: "commit_stack_resolved L provenance operation expected source ch resolution d = Inr (outcome, d1)"
  note l = later [OF layer_step.stack [OF run assms(3,4)]]
  show "commit_stack_resolved L provenance operation expected source ch resolution d2 = Inr (outcome, d2)"
    by (rule stack_again [OF assms(1-4) run l [THEN conjunct1] l [THEN conjunct2]])
  qed
qed

theorem layer_retry_witness:
  "\<exists>outcome d1. capture_layer example_codecs None ''o'' example_head [] layer_db = Inr (outcome, d1)
    \<and> capture_layer example_codecs None ''o'' example_head [] d1 = Inr (outcome, d1)"
proof -
  obtain outcome d1 where run: "capture_layer example_codecs None ''o'' example_head [] layer_db = Inr (outcome, d1)" using example_capture by blast
  from layer_retry [OF example_codecs_ok layer_db_ok(1) example_text(1,2) layer_run.start] run show ?thesis by blast
qed

section \<open>One winner, and the end of a Layer\<close>

text \<open>Of the updates that expect the same revision of a Layer, at most one operation is accepted.\<close>

theorem one_accepted_update:
  assumes "layers_ok L d w" "a \<in> set (db_layer_attempts d)" "b \<in> set (db_layer_attempts d)"
    "la_layer a = la_layer b" "la_expected a = la_expected b" "la_accepted a = 1" "la_accepted b = 1"
  shows "a = b"
proof -
  have at: "attempts_ok L d" using assms(1) by (simp add: layers_ok_def)
  note ev = accepted_event [OF at assms(2,6)] accepted_event [OF at assms(3,7)]
  have "la_id a = la_id b" using ev assms(4,5) by auto
  then show ?thesis using at assms(2,3) unfolding attempts_ok_def by (simp add: distinct_map inj_on_def)
qed

theorem one_accepted_update_witness:
  "\<exists>d' a. layer_run example_codecs layer_db d' \<and> a \<in> set (db_layer_attempts d') \<and> la_accepted a = 1
    \<and> (\<forall>b \<in> set (db_layer_attempts d'). la_layer a = la_layer b \<longrightarrow> la_expected a = la_expected b \<longrightarrow> la_accepted b = 1 \<longrightarrow> a = b)"
proof -
  obtain d' a where run: "layer_run example_codecs layer_db d'" and a: "a \<in> set (db_layer_attempts d')" "la_accepted a = 1"
    using example_accepted by blast
  have "layers_ok example_codecs d' [(Map.empty, [])]" using layer_run_kept [OF example_codecs_ok run layer_db_ok(1)] by blast
  from one_accepted_update [OF this a(1)] show ?thesis using run a by blast
qed

text \<open>C20: A discarded Layer receives no further event, whatever operations follow.\<close>

theorem discard_is_final:
  assumes "codecs_ok L" "layers_ok L d w" "layer_run L d d'" "layer_rows layer d \<noteq> []" "hr_discarded (last (layer_rows layer d)) = 1"
  shows "layer_rows layer d' = layer_rows layer d"
proof -
  have k: "layers_ok L d' w" "grown (co_env L) d w d' w" using layer_run_kept [OF assms(1,3,2)] by simp_all
  obtain more where "db_heads d' = db_heads d @ more" using k(2) unfolding grown_def by blast
  then have rows: "layer_rows layer d' = layer_rows layer d @ layer_rows layer (d\<lparr>db_heads := more\<rparr>)" by (simp add: layer_rows_def)
  show ?thesis
  proof (rule ccontr)
    assume "layer_rows layer d' \<noteq> layer_rows layer d"
    then have "Suc (length (layer_rows layer d) - 1) < length (layer_rows layer d')" using rows assms(4) by (auto simp del: One_nat_def)
    then have "hr_discarded (layer_rows layer d' ! (length (layer_rows layer d) - 1)) = 0"
      using k(1) unfolding layers_ok_def history_ok_def follows_def by blast
    then show False using rows assms(4,5) by (simp add: nth_append last_conv_nth)
  qed
qed

theorem discard_is_final_witness:
  "\<exists>d'. layer_run example_codecs layer_db d' \<and> layer_rows example_layer d' \<noteq> [] \<and> hr_discarded (last (layer_rows example_layer d')) = 1
    \<and> (\<forall>d''. layer_run example_codecs d' d'' \<longrightarrow> layer_rows example_layer d'' = layer_rows example_layer d')"
proof -
  obtain d' where d': "layer_run example_codecs layer_db d'" "layer_rows example_layer d' \<noteq> []" "hr_discarded (last (layer_rows example_layer d')) = 1"
    using example_discarded by blast
  have "layers_ok example_codecs d' [(Map.empty, [])]" using layer_run_kept [OF example_codecs_ok d'(1) layer_db_ok(1)] by blast
  from discard_is_final [OF example_codecs_ok this _ d'(2,3)] show ?thesis using d' by blast
qed

section \<open>The index of live paths\<close>

text \<open>Before anything is published, whatever sequence of Layer operations succeeds, the indexed rows of every live Layer are
  its attribution recomputed from its whole history, there are no others, and the check of the index accepts them.\<close>

theorem index_always_checked:
  assumes "codecs_ok L" "repo_ok (co_env L) d w" "no_layers d" "db_identity d = [(1, i)]" "db_publications d = []" "layer_run L d d'"
  shows "(\<exists>seen. check_radar L d' [] = Inr seen)
    \<and> (\<forall>layer. live layer d' \<longrightarrow> (\<exists>tracked seen. tracked_in layer d' = Inr tracked
         \<and> attribution_in L d' True layer (num (length (layer_rows layer d') - 1)) [] = Inr (tracked, seen)))
    \<and> (\<forall>layer. \<not> live layer d' \<longrightarrow> tracked_in layer d' = Inr [])"
proof -
  have ok: "layers_ok L d w" by (rule no_layers_ok [OF assms(2-4)])
  have ok': "layers_ok L d' w" using layer_run_kept [OF assms(1,6) ok] by blast
  have ix: "index_ok L d'" "db_publications d' = []" using layer_run_indexed [OF assms(1,6) ok no_layers_index [OF assms(3)] assms(5)] by simp_all
  show ?thesis
  proof (intro conjI allI impI)
    show "\<exists>seen. check_radar L d' [] = Inr seen" by (rule check_radar_ok [OF ok' ix])
  next
    fix layer assume "live layer d'"
    then have "tracked_in layer d' = Inr (attributed L d' (layer_rows layer d'))" "layer_rows layer d' \<noteq> []"
      using index_tracked [OF ix(1), of layer] by (simp_all add: index_of_def live_def)
    then show "\<exists>tracked seen. tracked_in layer d' = Inr tracked
        \<and> attribution_in L d' True layer (num (length (layer_rows layer d') - 1)) [] = Inr (tracked, seen)"
      using attribution_spec [OF ok' _ layers_ancestry [OF ok' cache_ok_Nil], of layer] by blast
  next
    fix layer assume "\<not> live layer d'"
    then show "tracked_in layer d' = Inr []" using index_tracked [OF ix(1), of layer] by (simp add: index_of_def)
  qed
qed

theorem index_always_checked_witness: "\<exists>seen. check_radar example_codecs layer_db [] = Inr seen"
proof -
  have "repo_ok (co_env example_codecs) new_db [(Map.empty, [])]" using new_db_ok(2) by (simp add: example_codecs_def)
  from index_always_checked [OF example_codecs_ok this new_db_tables(2,3,4) layer_db_ok(3)] show ?thesis by blast
qed

end
