(* ===== verification/Composing.thy ===== *)
theory Composing
  imports LayerCalls
begin

text \<open>
  What composing a Layer with a World version means: the intersecting paths when the World changed what the Layer changed,
  and otherwise the changeset on top of that World, whose derivation every later state of the repository repeats.
\<close>

section \<open>The changes of a checkpoint\<close>

definition base_map :: "world_log \<Rightarrow> layer_checkpoint \<Rightarrow> file_entry paths" where
  "base_map w node = fst (w ! unat (lb_version (lc_base node)))"

lemma checkpoint_leads:
  assumes "codecs_ok L" "layers_ok L d w" "checkpoint_node L d i = Inr node"
  shows "unat (lb_version (lc_base node)) < length w" "leads (base_map w node) (lc_changes node) (upd (base_map w node) (lc_changes node))"
    "disjoint_paths (upd (base_map w node) (lc_changes node))"
    "\<forall>p x. (p, Some x) \<in> set (lc_changes node) \<longrightarrow> validate_entry (co_env L) d x = Inr ()"
proof -
  have r: "repo_ok (co_env L) d w" using assms(2) by (simp add: layers_ok_def)
  have at: "checkpoint_at L d i node" using assms(3) by (simp add: checkpoint_node_iff [OF assms(1)])
  then have ok: "omap_ok (lc_changes node)" and valid: "\<forall>c \<in> set (lc_changes node). path_ok (fst c) \<and> change_text_ok c"
    and base: "validate_base (lc_base node) d = Inr ()"
    and n: "normalize (index_in (co_env L) d (lb_version (lc_base node))) (lc_changes node) = Inr (lc_changes node)"
    by (simp_all add: checkpoint_at_def)
  show v: "unat (lb_version (lc_base node)) < length w" by (rule base_version(1) [OF r base])
  note k = n [unfolded normalize_in_iff [OF r v ok]]
  show "disjoint_paths (upd (base_map w node) (lc_changes node))"
    "\<forall>p x. (p, Some x) \<in> set (lc_changes node) \<longrightarrow> validate_entry (co_env L) d x = Inr ()"
    using k by (simp_all add: base_map_def)
  have "base_map w node p \<noteq> e" if "(p, e) \<in> set (lc_changes node)" for p e
  proof -
    have "(p, e) \<in> set (filter (\<lambda>(p, e). base_map w node p \<noteq> e) (lc_changes node))"
      using k [THEN conjunct1] that unfolding base_map_def by metis
    then show ?thesis by simp
  qed
  moreover have "changes_valid (lc_changes node)" using ok valid by (fastforce simp: changes_valid_def path_valid_def change_text_ok_def)
  ultimately show "leads (base_map w node) (lc_changes node) (upd (base_map w node) (lc_changes node))"
    unfolding leads_def by blast
qed

lemma disjoint_slash: "disjoint_paths f \<Longrightarrow> f p = None \<or> f (p @ ''/'' @ q) = None"
  by (simp add: disjoint_paths_def below_iff)

lemma version_map:
  assumes "repo_ok E d w" "m < length w"
  shows "stands E d (vr_tree (db_versions d ! m)) (fst (w ! m))" "disjoint_paths (fst (w ! m))"
proof -
  show s: "stands E d (vr_tree (db_versions d ! m)) (fst (w ! m))" by (rule repo_versions(7) [OF assms])
  show "disjoint_paths (fst (w ! m))" using tabled.disjoint [of "(E, d, vr_tree (db_versions d ! m), fst (w ! m))"] s by simp
qed

section \<open>Composition\<close>

definition conflicting :: "world_log \<Rightarrow> nat \<Rightarrow> layer_checkpoint \<Rightarrow> string set" where
  "conflicting w m node = clashing (base_map w node) (fst (w ! m)) (fst ` set (lc_changes node))"

definition composes :: "codecs \<Rightarrow> db \<Rightarrow> world_log \<Rightarrow> nat \<Rightarrow> layer_checkpoint \<Rightarrow> string list + composed_version \<Rightarrow> bool" where
  "composes L d w m node r \<longleftrightarrow>
     (case r of
       Inl found \<Rightarrow> oset_ok found \<and> set found = conflicting w m node \<and> found \<noteq> []
     | Inr c \<Rightarrow> conflicting w m node = {} \<and> cv_changes c = lc_changes node
         \<and> (\<exists>s. tree_apply (en_fuel (co_env L)) (en_sha (co_env L)) (vr_tree (db_versions d ! m)) (lc_changes node) (tree_view d)
              = (Inr (cv_tree c), s) \<and> cv_chunks c = ms_saved s))"

lemma found_in:
  assumes "codecs_ok L" "layers_ok L d w" "checkpoint_node L d i = Inr node" "m < length w"
  shows "\<exists>found. sql_read (co_env L) (\<lambda>s. tree_intersections (en_sha (co_env L)) s
      (vr_tree (db_versions d ! unat (lb_version (lc_base node)))) (vr_tree (db_versions d ! m)) (lc_changes node)) d = Inr found
    \<and> oset_ok found \<and> set found = conflicting w m node"
proof -
  have r: "repo_ok (co_env L) d w" using assms(2) by (simp add: layers_ok_def)
  note b = checkpoint_leads(1) [OF assms(1-3)]
  have "stands (co_env L) d (vr_tree (db_versions d ! unat (lb_version (lc_base node)))) (base_map w node)"
    using version_map(1) [OF r b] by (simp add: base_map_def)
  then have "snapshot (en_sha (co_env L)) (tree_view d) (vr_tree (db_versions d ! unat (lb_version (lc_base node)))) (base_map w node)"
      "world (base_map w node)" by (simp_all add: stands_def)
  moreover have "snapshot (en_sha (co_env L)) (tree_view d) (vr_tree (db_versions d ! m)) (fst (w ! m))" "world (fst (w ! m))"
    using version_map(1) [OF r assms(4)] by (simp_all add: stands_def)
  ultimately show ?thesis
    using intersections_run [of "en_sha (co_env L)" "tree_view d" "vr_tree (db_versions d ! unat (lb_version (lc_base node)))"
        "base_map w node" "vr_tree (db_versions d ! m)" "fst (w ! m)" "lc_changes node"]
    by (auto simp: sql_read_def conflicting_def)
qed

lemma compose_in_iff:
  assumes "codecs_ok L" "layers_ok L d w" "checkpoint_node L d (lh_checkpoint head) = Inr node"
    "m < length w" "unat (lb_version (lc_base node)) \<le> m"
  shows "compose_in L head (version_of d m) d = Inr r \<longleftrightarrow> composes L d w m node r"
proof -
  have rp: "repo_ok (co_env L) d w" using assms(2) by (simp add: layers_ok_def)
  note b = checkpoint_leads(1) [OF assms(1-3)]
  obtain found where found: "sql_read (co_env L) (\<lambda>s. tree_intersections (en_sha (co_env L)) s
      (vr_tree (db_versions d ! unat (lb_version (lc_base node)))) (vr_tree (db_versions d ! m)) (lc_changes node)) d = Inr found"
    "oset_ok found" "set found = conflicting w m node" using found_in [OF assms(1-4)] by blast
  have m: "m < 2 ^ 63" by (rule repo_versions(5) [OF rp assms(4)])
  then have "\<not> lb_version (lc_base node) > num m" using assms(5) by (simp add: word_less_nat_alt)
  moreover have "tree_in (lb_version (lc_base node)) d = Inr (vr_tree (db_versions d ! unat (lb_version (lc_base node))))"
    using b by (simp add: tree_in_spec [OF rp])
  ultimately have run: "compose_in L head (version_of d m) d =
      (if found \<noteq> [] then Inr (Inl found)
       else ebind (sql_buffer (co_env L) (tree_apply (en_fuel (co_env L)) (en_sha (co_env L)) (vr_tree (db_versions d ! m)) (lc_changes node)) d)
         (\<lambda>(tree, chunks). Inr (Inr \<lparr>cv_changes = lc_changes node, cv_tree = tree, cv_chunks = chunks\<rparr>)))"
    using assms(3) found(1) by (simp add: compose_in_def checkpoint_in_eq)
  show ?thesis
  proof (cases "found = []")
    case True
    then have "conflicting w m node = {}" using found(3) by simp
    moreover have "oset_ok xs \<and> set xs = {} \<and> xs \<noteq> [] \<longleftrightarrow> False" for xs :: "string list" by auto
    ultimately show ?thesis unfolding run using True
      by (cases r) (auto simp: composes_def sql_buffer_def result_simps split: prod.splits sum.splits)
  next
    case False
    have ne: "conflicting w m node \<noteq> {}" using False found(3) by (metis set_empty)
    have "oset_ok xs \<and> set xs = conflicting w m node \<and> xs \<noteq> [] \<longleftrightarrow> xs = found" for xs
    proof
      assume "oset_ok xs \<and> set xs = conflicting w m node \<and> xs \<noteq> []"
      then show "xs = found" using oset_extI [of xs found] found(2,3) by simp
    qed (use found(2,3) False in simp)
    then show ?thesis unfolding run using False ne by (cases r) (simp_all add: composes_def eq_commute)
  qed
qed

text \<open>A composed changeset on its World.\<close>

lemma composed_leads:
  assumes "codecs_ok L" "layers_ok L d w" "checkpoint_node L d i = Inr node" "m < length w" "conflicting w m node = {}"
  shows "leads (fst (w ! m)) (lc_changes node) (upd (fst (w ! m)) (lc_changes node))" "\<not> refused (fst (w ! m)) (lc_changes node)"
proof -
  have r: "repo_ok (co_env L) d w" using assms(2) by (simp add: layers_ok_def)
  note c = checkpoint_leads [OF assms(1-3)]
  show "leads (fst (w ! m)) (lc_changes node) (upd (fst (w ! m)) (lc_changes node))" "\<not> refused (fst (w ! m)) (lc_changes node)"
    using leads_disjoint [OF c(2) disjoint_slash [OF c(3)] assms(5) [unfolded conflicting_def] disjoint_slash [OF version_map(2) [OF r assms(4)]]]
    by blast+
qed

text \<open>With room in the tree and no collision of the hash, the changes apply.\<close>

lemma composes_some:
  assumes "codecs_ok L" "layers_ok L d w" "checkpoint_node L d i = Inr node" "m < length w" "conflicting w m node = {}"
    "roomy (co_env L) (fst (w ! m)) (lc_changes node)"
    "\<not> ms_collided (snd (tree_apply (en_fuel (co_env L)) (en_sha (co_env L)) (vr_tree (db_versions d ! m)) (lc_changes node) (tree_view d)))"
  shows "\<exists>c. composes L d w m node (Inr c)"
proof -
  have r: "repo_ok (co_env L) d w" and hash: "hash_ok (en_sha (co_env L))"
    using assms(1,2) by (simp_all add: layers_ok_def codecs_ok_def env_ok_def)
  obtain x s where run: "tree_apply (en_fuel (co_env L)) (en_sha (co_env L)) (vr_tree (db_versions d ! m)) (lc_changes node) (tree_view d) = (x, s)"
    by (cases "tree_apply (en_fuel (co_env L)) (en_sha (co_env L)) (vr_tree (db_versions d ! m)) (lc_changes node) (tree_view d)")
  have st: "snapshot (en_sha (co_env L)) (tree_view d) (vr_tree (db_versions d ! m)) (fst (w ! m))" "world (fst (w ! m))"
    using version_map(1) [OF r assms(4)] by (simp_all add: stands_def)
  have "changes_valid (lc_changes node)" using checkpoint_leads(2) [OF assms(1-3)] by (simp add: leads_def)
  from apply_Inr [OF hash st this _ _ run] obtain root where "x = Inr root"
    using assms(6,7) composed_leads(2) [OF assms(1-5)] run by (auto simp: roomy_def)
  then show ?thesis using run assms(5) unfolding composes_def
    by (intro exI [of _ "\<lparr>cv_changes = lc_changes node, cv_tree = root, cv_chunks = ms_saved s\<rparr>"]) simp
qed

text \<open>Composing again, in any state that stores the derivation.\<close>

lemma composes_again:
  assumes "rederives (co_env L) d (vr_tree (db_versions d ! m)) (lc_changes node) tree" "conflicting w m node = {}"
  shows "\<exists>c. composes L d w m node (Inr c) \<and> cv_tree c = tree"
proof -
  obtain s0 s where s: "tree_apply (en_fuel (co_env L)) (en_sha (co_env L)) (vr_tree (db_versions d ! m)) (lc_changes node) s0 = (Inr tree, s)"
    "\<not> ms_collided s" "extends s (tree_view d)" using assms(1) unfolding rederives_def by blast
  obtain cs where "tree_apply (en_fuel (co_env L)) (en_sha (co_env L)) (vr_tree (db_versions d ! m)) (lc_changes node) (tree_view d)
      = (Inr tree, puts (en_sha (co_env L)) cs (tree_view d))"
    by (rule steadyD [OF steady_tree_apply s(1)]) (use s(2,3) in blast)
  then show ?thesis using assms(2) unfolding composes_def
    by (intro exI [of _ "\<lparr>cv_changes = lc_changes node, cv_tree = tree, cv_chunks = ms_saved (puts (en_sha (co_env L)) cs (tree_view d))\<rparr>"]) simp
qed

end
