(* ===== verification/Publishing.thy ===== *)
theory Publishing
  imports Composing Checking
begin

text \<open>
  The write transaction of a publication: the tables that it appends to, and that the new World is the locked one with the
  Layer's changes, in a repository that stays well-formed.
\<close>

section \<open>Other tables\<close>

text \<open>What the history of the World rests on may stay, and publications may be added.\<close>

lemma repo_ok_tables:
  assumes "repo_ok E d w" "objects_ok E d'" "keeps_objects d d'" "db_format d' = db_format d" "db_application d' = db_application d"
    "db_attempts d' = db_attempts d" "db_versions d' = db_versions d" "db_changes d' = db_changes d"
    "db_publications d' = db_publications d @ rows"
  shows "repo_ok E d' w"
proof -
  have "versions_ok E d' w"
    using assms(1,6,7) stands_keeps [OF _ assms(3)] linked_mono [of E d w _ d' w] unfolding repo_ok_def versions_ok_def by simp
  moreover have "attempt_ok E d' row" if "row \<in> set (db_attempts d')" for row
  proof -
    have a: "attempt_ok E d row" using assms(1,6) that by (simp add: repo_ok_def)
    have "stands E d tree f \<Longrightarrow> stands E d' tree f" for tree f by (rule stands_keeps [OF _ assms(3)])
    moreover have "operation_exists_in (ar_id row) d \<Longrightarrow> operation_exists_in (ar_id row) d'"
      by (simp add: operation_exists_in_def assms(9))
    ultimately show ?thesis using a unfolding attempt_ok_def assms(7) by blast
  qed
  ultimately show ?thesis using assms(1,2,4-8) by (simp add: repo_ok_def changes_rows_ok_def validate_format_iff)
qed

section \<open>Blame rows\<close>

definition blame_row_of :: "64 word \<Rightarrow> (string \<times> object_id \<times> object_id option) list \<Rightarrow> string \<Rightarrow> blame_row" where
  "blame_row_of version tracked path = (case the (map_of tracked path) of (checkpoint, provenance) \<Rightarrow>
     \<lparr>br_path = path, br_version = version_sql version, br_checkpoint = checkpoint, br_provenance = provenance\<rparr>)"

lemma insert_blames:
  assumes "tx_each (insert_blame version tracked) ps d = Inr (u, d')"
  shows "d' = d\<lparr>db_blame := db_blame d @ map (blame_row_of version tracked) ps\<rparr> \<and> (\<forall>p \<in> set ps. map_of tracked p \<noteq> None)"
  using assms
proof (induction ps arbitrary: d)
  case (Cons p ps)
  obtain v d1 where one: "insert_blame version tracked p d = Inr (v, d1)" and rest: "tx_each (insert_blame version tracked) ps d1 = Inr (u, d')"
    using Cons.prems by (auto simp: tx_bind_Inr)
  have "map_of tracked p \<noteq> None \<and> d1 = d\<lparr>db_blame := db_blame d @ [blame_row_of version tracked p]\<rparr>"
    using one by (auto simp: insert_blame_def blame_row_of_def insert_unique_def result_simps split: if_splits)
  then show ?case using Cons.IH [OF rest] by simp
qed (simp add: tx_ret_def)

section \<open>Advancing\<close>

definition publish_attempt :: "string \<Rightarrow> nat \<Rightarrow> attempt_row" where
  "publish_attempt operation h = \<lparr>ar_id = operation, ar_expected = int h, ar_tree = None, ar_accepted = 1, ar_result = int (Suc h)\<rparr>"

definition publish_version :: "env \<Rightarrow> db \<Rightarrow> string \<Rightarrow> nat \<Rightarrow> composed_version \<Rightarrow> version_row" where
  "publish_version E d operation h c =
     \<lparr>vr_number = int (Suc h), vr_id = version_id (en_sha E) (en_changes E) (Some (vr_id (db_versions d ! h))) (cv_tree c) (cv_changes c),
      vr_tree = cv_tree c, vr_operation = Some operation\<rparr>"

text \<open>The tables after the World advanced, the chunks stored, the Layer's rows left the index and its changes have blame.\<close>

definition advanced_to :: "env \<Rightarrow> db \<Rightarrow> string \<Rightarrow> string \<Rightarrow> nat \<Rightarrow> composed_version \<Rightarrow> object_row list \<Rightarrow>
    (string \<times> object_id \<times> object_id option) list \<Rightarrow> db" where
  "advanced_to E d layer operation h c os tracked =
     (advanced_db d (publish_attempt operation h) (publish_version E d operation h c) (cv_changes c))
       \<lparr>db_objects := db_objects d @ os,
        db_blame := db_blame d @ map (blame_row_of (num (Suc h)) tracked) (map fst (cv_changes c)),
        db_paths := filter (\<lambda>r. pr_layer r \<noteq> layer) (db_paths d)\<rparr>"

lemma stored_trees:
  assumes "tx_each (\<lambda>(_, bytes). tx_bind (insert_object E Tree bytes) (\<lambda>_. tx_ret ())) chunks d = Inr (u, d')"
  shows "\<exists>os. db_objects d' = db_objects d @ os \<and> (\<forall>r \<in> set os. or_kind r = kind_sql Tree)"
  using assms
proof (induction chunks arbitrary: d)
  case Nil
  then show ?case by (intro exI [of _ "[]"]) (simp add: tx_ret_def)
next
  case (Cons c chunks)
  obtain i d1 where i: "insert_object E Tree (snd c) d = Inr (i, d1)"
      and rest: "tx_each (\<lambda>(_, bytes). tx_bind (insert_object E Tree bytes) (\<lambda>_. tx_ret ())) chunks d1 = Inr (u, d')"
    using Cons.prems by (cases c) (auto simp: tx_result)
  obtain rows where "db_objects d1 = db_objects d @ rows" "\<forall>r \<in> set rows. r = \<lparr>or_id = i, or_kind = kind_sql Tree, or_bytes = snd c\<rparr>"
    by (rule insert_object_rows [OF i])
  moreover obtain os where "db_objects d' = db_objects d1 @ os" "\<forall>r \<in> set os. or_kind r = kind_sql Tree"
    using Cons.IH [OF rest] by blast
  ultimately show ?case by (intro exI [of _ "rows @ os"]) auto
qed

lemma store_chunks_spec:
  assumes "objects_ok E d0" "objects_ok E d" "keeps_objects d0 d" "E = co_env L"
    "tree_apply (en_fuel E) (en_sha E) root ch (tree_view d0) = (Inr tree, s)" "store_chunks L (ms_saved s) d = Inr (u, d')"
  shows "objects_ok E d'" "adds_objects d d'" "rederives E d' root ch tree"
    "\<exists>os. db_objects d' = db_objects d @ os \<and> (\<forall>r \<in> set os. or_kind r = kind_sql Tree)"
    "\<not> ms_collided s" "extends s (tree_view d')"
proof -
  show "\<exists>os. db_objects d' = db_objects d @ os \<and> (\<forall>r \<in> set os. or_kind r = kind_sql Tree)"
    using assms(6) unfolding store_chunks_def by (rule stored_trees)
  obtain cs where cs: "s = puts (en_sha E) cs (tree_view d0)" by (rule steadyD [OF steady_tree_apply assms(5)]) blast
  then have "ms_saved s = saves (en_sha E) cs" by (simp add: puts_saved)
  then have "tx_each (\<lambda>(_, bytes). tx_bind (insert_object E Tree bytes) (\<lambda>_. tx_ret ())) (saves (en_sha E) cs) d = Inr (u, d')"
    using assms(6) by (simp add: store_chunks_def assms(4))
  from insert_saves [OF assms(2) keeps_extends [OF assms(3)] tree_view_simps(2) this]
  show "objects_ok E d'" "adds_objects d d'" "rederives E d' root ch tree" "\<not> ms_collided s" "extends s (tree_view d')"
    using assms(5) cs unfolding rederives_def by blast+
qed

lemma insert_attempt_Inr: "insert_attempt row d = Inr (u, d') \<Longrightarrow>
    d' = d\<lparr>db_attempts := db_attempts d @ [row]\<rparr> \<and> ar_id row \<notin> ar_id ` set (db_attempts d)"
  by (auto simp: insert_attempt_def insert_unique_def result_simps split: if_splits)

lemma advance_published_spec:
  fixes L d0 d w
  defines "E \<equiv> co_env L" and "h \<equiv> head_number w"
  assumes "repo_ok E d w" "objects_ok E d0" "keeps_objects d0 d" "omap_ok (cv_changes c)"
    "tree_apply (en_fuel E) (en_sha E) (vr_tree (db_versions d ! h)) (cv_changes c) (tree_view d0) = (Inr (cv_tree c), s)"
    "cv_chunks c = ms_saved s"
    "advance_published L guard' operation expected (version_of d h) c d = Inr (outcome, d')"
  shows "length w < 2 ^ 63" "operation \<notin> ar_id ` set (db_attempts d)"
    "\<exists>os tracked. attributed_in (lh_layer expected) d = Inr tracked \<and> (\<forall>p \<in> fst ` set (cv_changes c). map_of tracked p \<noteq> None)
       \<and> d' = advanced_to E d (lh_layer expected) operation h c os tracked \<and> (\<forall>r \<in> set os. or_kind r = kind_sql Tree)"
    "outcome = PublishedAs (version_of d' (length w))" "objects_ok E d'" "keeps_objects d d'"
    "rederives E d' (vr_tree (db_versions d ! h)) (cv_changes c) (cv_tree c)" "guard' (version_of d h) (cv_changes c) = Inr ()"
    "\<not> ms_collided s" "extends s (tree_view d')"
proof -
  note v = repo_versions [OF assms(3)]
  have h: "h < length w" "h < 2 ^ 63" "Suc h = length w" using v(1) v(5) [of h] by (auto simp: h_def head_number_def)
  obtain number u1 d1 u2 d2 version d3 u4 d4 d5 where
    g: "guard' (version_of d h) (cv_changes c) = Inr ()" and nn: "next_number (num h) = Inr number"
    and at: "insert_attempt \<lparr>ar_id = operation, ar_expected = version_sql (num h), ar_tree = None, ar_accepted = 1,
       ar_result = version_sql number\<rparr> d = Inr (u1, d1)"
    and st: "store_chunks L (cv_chunks c) d1 = Inr (u2, d2)"
    and ap: "append_version_in E (version_of d h) operation (cv_changes c) (cv_tree c) d2 = Inr (version, d3)"
    and bl: "record_blame_in (lh_layer expected) (wv_number version) (cv_changes c) d3 = Inr (u4, d4)"
    and un: "d' = d4\<lparr>db_paths := filter (\<lambda>r. pr_layer r \<noteq> lh_layer expected) (db_paths d4)\<rparr>" "outcome = PublishedAs version"
    using assms(9) unfolding advance_published_def E_def by (auto simp: tx_bind_Inr tx_read_Inr untrack_in_def tx_ret_def)
  show "guard' (version_of d h) (cv_changes c) = Inr ()" by (rule g)
  have n: "Suc h < 2 ^ 63" "number = num (Suc h)" using nn next_number_num [OF h(2)] by (auto split: if_splits)
  then show len: "length w < 2 ^ 63" using h(3) by simp
  have d1: "d1 = d\<lparr>db_attempts := db_attempts d @ [publish_attempt operation h]\<rparr>" and fresh: "operation \<notin> ar_id ` set (db_attempts d)"
    using insert_attempt_Inr [OF at] n h(2) by (simp_all add: publish_attempt_def)
  show "operation \<notin> ar_id ` set (db_attempts d)" by (rule fresh)
  have ok: "objects_ok E d" using assms(3) by (simp add: repo_ok_def)
  have ok1: "objects_ok E d1" using same_objects_ok [of d1 d E] ok by (simp add: d1)
  have k1: "keeps_objects d0 d1" using keeps_objects_trans [OF assms(5) keeps_same [of d1 d]] by (simp add: d1)
  note c = store_chunks_spec [OF assms(4) ok1 k1 E_def [THEN meta_eq_to_obj_eq] assms(7) st [unfolded assms(8)]]
  obtain os where d2: "d2 = d1\<lparr>db_objects := db_objects d @ os\<rparr>" using c(2) by (auto simp: adds_objects_def d1)
  have kinds: "\<forall>r \<in> set os. or_kind r = kind_sql Tree" using c(4) by (auto simp: d2 d1)
  let ?n = "length w"
  have unused: "Some operation \<notin> vr_operation ` set (db_versions d)"
    using operation_unused [OF assms(3), of operation] fresh by (auto simp: attempt_row_in_def find_row_None)
  have none: "\<forall>r \<in> set (db_changes d). cr_version r \<noteq> int ?n"
    using assms(3) by (fastforce simp: repo_ok_def changes_rows_ok_def)
  have "distinct (map fst (cv_changes c))" using assms(6) by (simp add: omap_ok_def strict_sorted_iff)
  moreover have same: "db_versions d2 = db_versions d" "db_changes d2 = db_changes d" by (simp_all add: d2 d1)
  have lw: "length w - Suc 0 = h" using h(3) by simp
  have "db_versions d \<noteq> []" "wv_number (version_of d h) = num (length w - 1)" using v(1,3) by (auto simp: lw)
  moreover note append_version_run [of d2 operation "cv_changes c" "version_of d h" E "cv_tree c", unfolded same v(3)]
  ultimately have "append_version_in E (version_of d h) operation (cv_changes c) (cv_tree c) d2 =
    Inr (\<lparr>wv_number = num ?n, wv_id = vr_id (publish_version E d operation h c), wv_tree = cv_tree c, wv_operation = Some operation\<rparr>,
      d2\<lparr>db_versions := db_versions d @ [publish_version E d operation h c], db_changes := db_changes d @ map (row_of_change ?n) (cv_changes c)\<rparr>)"
    using v(4) unused none len h(3) by (simp add: v(3) publish_version_def)
  then have ap': "version = \<lparr>wv_number = num ?n, wv_id = vr_id (publish_version E d operation h c), wv_tree = cv_tree c, wv_operation = Some operation\<rparr>"
      "d3 = d2\<lparr>db_versions := db_versions d @ [publish_version E d operation h c],
               db_changes := db_changes d @ map (row_of_change ?n) (cv_changes c)\<rparr>"
    using ap by simp_all
  obtain tracked where t: "attributed_in (lh_layer expected) d3 = Inr tracked"
      "tx_each (insert_blame (num (Suc h)) tracked) (map fst (cv_changes c)) d3 = Inr (u4, d4)"
    using bl ap'(1) h(3) by (auto simp: record_blame_in_def tx_bind_Inr tx_read_Inr)
  have paths: "db_paths d3 = db_paths d" by (simp add: ap'(2) d2 d1)
  then have t1: "attributed_in (lh_layer expected) d = Inr tracked" using t(1) by (simp add: attributed_in_def tracked_in_def)
  note b = insert_blames [OF t(2)]
  have d': "d' = advanced_to E d (lh_layer expected) operation h c os tracked"
    using b [THEN conjunct1] by (simp add: un(1) ap'(2) d2 d1 advanced_to_def advanced_db_def v(3) h(3))
  then show "\<exists>os tracked. attributed_in (lh_layer expected) d = Inr tracked \<and> (\<forall>p \<in> fst ` set (cv_changes c). map_of tracked p \<noteq> None)
       \<and> d' = advanced_to E d (lh_layer expected) operation h c os tracked \<and> (\<forall>r \<in> set os. or_kind r = kind_sql Tree)"
    using kinds t1 b [THEN conjunct2] by auto
  have objects: "db_objects d' = db_objects d2" by (simp add: d' advanced_to_def d2)
  show "objects_ok E d'" using same_objects_ok [OF objects] c(1) by simp
  have "keeps_objects d d1" by (rule keeps_same) (simp add: d1)
  then show "keeps_objects d d'"
    using keeps_objects_trans [OF _ keeps_objects_trans [OF adds_keeps [OF c(2)] keeps_same [OF objects]]] by blast
  show "\<not> ms_collided s" by (rule c(5))
  show "extends s (tree_view d')" using c(6) tree_view_cong [OF objects] by simp
  show "rederives E d' (vr_tree (db_versions d ! h)) (cv_changes c) (cv_tree c)"
    by (rule rederives_keeps [OF c(3) keeps_same [OF objects]])
  have "db_versions d' = db_versions d @ [publish_version E d operation h c]" by (simp add: d' advanced_to_def advanced_db_def)
  then show "outcome = PublishedAs (version_of d' (length w))"
    using v(3) by (simp add: un(2) ap'(1) version_of_def publish_version_def nth_append)
qed

section \<open>The transaction\<close>

lemma layers_ok_kept:
  assumes "codecs_ok L" "layers_ok L d w" "grown (co_env L) d w d' w'" "db_heads d' = db_heads d"
    "db_layer_attempts d' = db_layer_attempts d" "db_stacks d' = db_stacks d"
    "db_objects d' = db_objects d @ os" "\<forall>r \<in> set os. or_kind r \<noteq> kind_sql Checkpoint"
  shows "layers_ok L d' w'"
proof -
  have "history_ok L d' (layer_rows layer d')" for layer
    using history_grown [OF assms(1,3)] assms(2,4) by (simp add: layers_ok_def layer_rows_def)
  moreover have "attempts_ok L d'"
    using assms(2,5,6) settled_grown [OF assms(1,3)] unfolding layers_ok_def attempts_ok_def by metis
  moreover have "checkpoints_ok L d'"
    by (rule checkpoints_ok_snoc [OF assms(1,3) _ assms(7)]) (use assms(2,8) in \<open>auto simp: layers_ok_def\<close>)
  ultimately show ?thesis
    using assms(2,3) identity_grown [OF assms(3)] by (simp add: layers_ok_def grown_def)
qed

text \<open>What the transaction did, before the receipt, with it, and with its row.\<close>

lemma commit_plan_Inr:
  assumes "commit_plan L guard' operation expected attribution plan d = Inr (receipt, d')"
  obtains d1 blob d2 where
    "case pp_composed plan of
       None \<Rightarrow> rc_outcome receipt = PublishStale (pp_actual plan) \<and> d1 = d
     | Some (Inl paths) \<Rightarrow> rc_outcome receipt = PublishConflict paths \<and> d1 = d
     | Some (Inr c) \<Rightarrow> advance_published L guard' operation expected (pp_against plan) c d = Inr (rc_outcome receipt, d1)"
    "insert_object (co_env L) Blob (co_receipt L receipt) d1 = Inr (blob, d2)"
    "publication_checks (publication_of operation expected attribution (pp_against plan) (pp_actual plan) (rc_outcome receipt) blob)"
    "operation \<notin> pu_id ` set (db_publications d2)"
    "pu_outcome (publication_of operation expected attribution (pp_against plan) (pp_actual plan) (rc_outcome receipt) blob) = 1 \<longrightarrow>
       \<not> published (lh_layer expected) d2"
    "d' = d2\<lparr>db_publications := db_publications d2
       @ [publication_of operation expected attribution (pp_against plan) (pp_actual plan) (rc_outcome receipt) blob]\<rparr>"
    "receipt = \<lparr>rc_operation = operation, rc_expected = expected, rc_attribution = attribution, rc_against = pp_against plan,
       rc_warnings = pp_warnings plan, rc_outcome = rc_outcome receipt\<rparr>"
proof -
  obtain outcome d1 blob d2 u where
    o: "(case pp_composed plan of
         None \<Rightarrow> tx_ret (PublishStale (pp_actual plan))
       | Some (Inl paths) \<Rightarrow> tx_ret (PublishConflict paths)
       | Some (Inr candidate) \<Rightarrow> advance_published L guard' operation expected (pp_against plan) candidate) d = Inr (outcome, d1)"
    and r: "receipt = \<lparr>rc_operation = operation, rc_expected = expected, rc_attribution = attribution, rc_against = pp_against plan,
       rc_warnings = pp_warnings plan, rc_outcome = outcome\<rparr>"
    and b: "insert_object (co_env L) Blob (co_receipt L receipt) d1 = Inr (blob, d2)"
    and p: "insert_publication (publication_of operation expected attribution (pp_against plan) (pp_actual plan) outcome blob) d2 = Inr (u, d')"
    using assms by (auto simp: commit_plan_def tx_bind_Inr tx_ret_def Let_def)
  have oc: "rc_outcome receipt = outcome" by (simp add: r)
  have id: "pu_id (publication_of operation expected attribution (pp_against plan) (pp_actual plan) outcome blob) = operation"
    "pu_layer (publication_of operation expected attribution (pp_against plan) (pp_actual plan) outcome blob) = lh_layer expected"
    by (simp_all add: publication_of_def Let_def split: prod.split)
  note q = p [unfolded insert_publication_def id]
  show thesis
  proof (rule that [of d1 blob d2, unfolded oc])
    show "case pp_composed plan of
       None \<Rightarrow> outcome = PublishStale (pp_actual plan) \<and> d1 = d
     | Some (Inl paths) \<Rightarrow> outcome = PublishConflict paths \<and> d1 = d
     | Some (Inr c) \<Rightarrow> advance_published L guard' operation expected (pp_against plan) c d = Inr (outcome, d1)"
      using o by (simp add: tx_ret_def split: option.splits sum.splits)
  qed (use b q r in \<open>auto simp: insert_unique_def result_simps published_def list_ex_iff id split: if_splits\<close>)
qed

end
