(* ===== verification/PublishRounds.thy ===== *)
theory PublishRounds
  imports Publishing
begin

text \<open>
  A round of a publication, from a snapshot of the repository to its locked state, which may have grown since: what the plan
  says, that it still holds under the lock, and the outcomes.
\<close>

section \<open>The state of a Layer\<close>

lemma rows_in_set: "set (rows_in P d) = {r \<in> set (db_publications d). P r}"
  by (simp add: rows_in_def)

lemma published_rows: "rows_in (\<lambda>r. pu_layer r = layer \<and> pu_outcome r = 1) d = [] \<longleftrightarrow> \<not> published layer d"
proof -
  have "rows_in P d = [] \<longleftrightarrow> set (rows_in P d) = {}" for P by simp
  then show ?thesis unfolding rows_in_set by (auto simp: published_def)
qed

lemma success_published: "success_state row d = Inr state \<Longrightarrow> \<exists>head version. state = Published head (pu_id row) version"
  by (auto simp: success_state_def result_simps split: if_splits)

lemma latest_state:
  assumes "layers_ok L d w" "layer_rows layer d \<noteq> []"
  shows "\<exists>identity. identity_in d = Inr identity
    \<and> latest_event_state_in layer d = Inr (event_state identity (event_of (last (layer_rows layer d))))"
proof -
  have h: "history_ok L d (layer_rows layer d)" and "\<exists>identity. identity_in d = Inr identity" using assms(1) by (simp_all add: layers_ok_def)
  then show ?thesis using latest_in_spec [OF h] assms(2) by (auto simp: latest_event_state_in_def)
qed

text \<open>An Active state is that of the latest event of a Layer that is not published.\<close>

lemma active_state:
  assumes "layers_ok L d w" "layer_state_in L layer d = Inr (Active head)"
  shows "\<not> published layer d" "lh_layer head = layer" "head_at d head (length (layer_rows layer d) - 1)" "layer_rows layer d \<noteq> []"
proof -
  let ?rs = "layer_rows layer d"
  show p: "\<not> published layer d"
  proof
    assume "published layer d"
    then obtain row rows where "rows_in (\<lambda>r. pu_layer r = layer \<and> pu_outcome r = 1) d = row # rows"
      using published_rows [of layer d] by (cases "rows_in (\<lambda>r. pu_layer r = layer \<and> pu_outcome r = 1) d") auto
    then show False using assms(2) success_published [of row d] by (auto simp: layer_state_in_def published_state_in_def result_simps)
  qed
  then have state: "latest_event_state_in layer d = Inr (Active head)"
    using assms(2) published_rows [of layer d] by (simp add: layer_state_in_def published_state_in_def)
  have h: "history_ok L d ?rs" using assms(1) by (simp add: layers_ok_def)
  show ne: "?rs \<noteq> []" using state latest_in_spec [OF h] by (auto simp: latest_event_state_in_def)
  from latest_state [OF assms(1) this] obtain identity where
    i: "identity_in d = Inr identity" "event_state identity (event_of (last ?rs)) = Active head" using state by auto
  have l: "last ?rs \<in> set ?rs" "last ?rs = ?rs ! (length ?rs - 1)" using ne by (simp_all add: last_conv_nth)
  then have "hr_discarded (last ?rs) = 0 \<or> hr_discarded (last ?rs) = 1" "hr_revision (last ?rs) = int (length ?rs - 1)"
      "hr_layer (last ?rs) = layer"
    using h ne layer_rows_nth [of "length ?rs - 1" layer d] unfolding history_ok_def based_def by auto
  then show "lh_layer head = layer" "head_at d head (length ?rs - 1)"
    using i l(2) ne by (auto simp: event_state_def event_of_def head_at_def num_def split: if_splits)
qed

section \<open>Plans\<close>

lemma compose_in_Inr:
  assumes "codecs_ok L" "layers_ok L d w" "m < length w" "compose_in L head (version_of d m) d = Inr r"
  shows "\<exists>node. checkpoint_node L d (lh_checkpoint head) = Inr node \<and> unat (lb_version (lc_base node)) \<le> m \<and> composes L d w m node r"
proof -
  obtain node where node: "checkpoint_node L d (lh_checkpoint head) = Inr node"
    using assms(4) by (auto simp: compose_in_def checkpoint_in_eq result_simps)
  have "m < 2 ^ 63" using assms(2,3) repo_versions(5) by (auto simp: layers_ok_def)
  moreover have "\<not> lb_version (lc_base node) > num m"
    using assms(4) node by (auto simp: compose_in_def checkpoint_in_eq split: if_splits)
  ultimately have le: "unat (lb_version (lc_base node)) \<le> m" by (simp add: word_less_nat_alt)
  then show ?thesis using compose_in_iff [OF assms(1,2) node assms(3)] assms(4) node by blast
qed

lemma prepared_plan:
  assumes "codecs_ok L" "layers_ok L d w" "prepare_in L operation expected attribution d = Inr (Advance plan)"
  shows "row_in operation d = None" "verify_head expected d = Inr ()" "warnings_in L attribution d = Inr (pp_warnings plan)"
    "pp_against plan = version_of d (head_number w)" "layer_state_in L (lh_layer expected) d = Inr (pp_actual plan)"
    "pp_composed plan = None \<longleftrightarrow> pp_actual plan \<noteq> Active expected"
    "pp_composed plan = Some r \<Longrightarrow> \<exists>node. checkpoint_node L d (lh_checkpoint expected) = Inr node
       \<and> unat (lb_version (lc_base node)) \<le> head_number w \<and> composes L d w (head_number w) node r"
    "attribution \<noteq> ByAgent (Some i) True"
proof -
  have rp: "repo_ok (co_env L) d w" using assms(2) by (simp add: layers_ok_def)
  have h: "head_number w < length w" using repo_versions(1) [OF rp] by (simp add: head_number_def)
  have a: "row_in operation d = None" "verify_head expected d = Inr ()" "attribution \<noteq> ByAgent (Some i) True"
    "\<exists>warnings. warnings_in L attribution d = Inr warnings \<and> plan_in L expected warnings d = Inr plan"
    using assms(3) by (auto simp: prepare_in_def result_simps split: option.splits if_splits publish_attribution.splits)
  then show "row_in operation d = None" "verify_head expected d = Inr ()" "attribution \<noteq> ByAgent (Some i) True" by simp_all
  from a(4) obtain warnings where w: "warnings_in L attribution d = Inr warnings" "plan_in L expected warnings d = Inr plan" by blast
  from w(2) obtain state composed where p: "layer_state_in L (lh_layer expected) d = Inr state"
      "(if state = Active expected then ebind (compose_in L expected (version_of d (head_number w)) d) (\<lambda>c. Inr (Some c)) else Inr None) = Inr composed"
      "plan = \<lparr>pp_against = version_of d (head_number w), pp_actual = state, pp_warnings = warnings, pp_composed = composed\<rparr>"
    by (auto simp: plan_in_def head_in_spec [OF rp] ebind_Inr_iff)
  show "warnings_in L attribution d = Inr (pp_warnings plan)" "pp_against plan = version_of d (head_number w)"
    "layer_state_in L (lh_layer expected) d = Inr (pp_actual plan)" using w(1) p(1,3) by simp_all
  show "pp_composed plan = None \<longleftrightarrow> pp_actual plan \<noteq> Active expected" using p(2,3) by (auto simp: ebind_Inr_iff split: if_splits)
  show "\<exists>node. checkpoint_node L d (lh_checkpoint expected) = Inr node
       \<and> unat (lb_version (lc_base node)) \<le> head_number w \<and> composes L d w (head_number w) node r" if "pp_composed plan = Some r"
    using compose_in_Inr [OF assms(1,2) h, of expected r] p(2,3) that by (auto simp: ebind_Inr_iff split: if_splits)
qed

lemma plan_holds:
  assumes "repo_ok E d w" "repo_ok E d' w'" "grown E d w d' w'" "pp_against plan = version_of d (head_number w)"
    "plan_moved L operation expected plan d' = Inr False"
  shows "w' = w" "pp_against plan = version_of d' (head_number w)" "operation \<notin> pu_id ` set (db_publications d')"
    "operation \<notin> ar_id ` set (db_attempts d')" "layer_state_in L (lh_layer expected) d' = Inr (pp_actual plan)"
proof -
  have m: "operation \<notin> pu_id ` set (db_publications d')" "operation \<notin> ar_id ` set (db_attempts d')"
    "version_of d' (head_number w') = pp_against plan" "layer_state_in L (lh_layer expected) d' = Inr (pp_actual plan)"
    using assms(5) by (auto simp: plan_moved_def head_in_spec [OF assms(2)] operation_exists_in_def attempt_exists_def result_simps split: if_splits)
  then show "operation \<notin> pu_id ` set (db_publications d')" "operation \<notin> ar_id ` set (db_attempts d')"
    "layer_state_in L (lh_layer expected) d' = Inr (pp_actual plan)" by simp_all
  have h: "head_number w < length w" "head_number w' < length w'"
    using repo_versions(1) [OF assms(1)] repo_versions(1) [OF assms(2)] by (simp_all add: head_number_def)
  have "num (head_number w') = num (head_number w)" using arg_cong [OF m(3), of wv_number] assms(4) by simp
  then have "head_number w' = head_number w" using repo_versions(5) [OF assms(1) h(1)] repo_versions(5) [OF assms(2) h(2)] by simp
  then have "length w' = length w" using h unfolding head_number_def by linarith
  moreover obtain more where "w' = w @ more" using assms(3) unfolding grown_def by blast
  ultimately show same: "w' = w" by simp
  then show "pp_against plan = version_of d' (head_number w)" using m(3) by simp
qed

section \<open>The index\<close>

lemma index_of_same:
  assumes "codecs_ok L" "layers_ok L d w" "grown (co_env L) d w d' w'" "db_heads d' = db_heads d" "published layer d' = published layer d"
  shows "index_of L d' layer = index_of L d layer"
proof -
  have rows: "layer_rows layer d' = layer_rows layer d" by (simp add: layer_rows_def assms(4))
  have "attributed L d' (layer_rows layer d) = attributed L d (layer_rows layer d)"
    using attributed_grown [OF assms(1,3)] assms(2) by (simp add: layers_ok_def)
  then show ?thesis by (simp add: index_of_def live_def rows assms(5))
qed

lemma index_framed:
  assumes "codecs_ok L" "layers_ok L d w" "grown (co_env L) d w d' w'" "db_heads d' = db_heads d" "\<And>l. published l d' = published l d"
    "db_paths d' = db_paths d" "index_ok L d"
  shows "index_ok L d'"
  using assms(7) index_of_same [OF assms(1-5)] by (simp add: index_ok_def assms(6))

lemma index_untracked:
  assumes "codecs_ok L" "layers_ok L d w" "grown (co_env L) d w d' w'" "db_heads d' = db_heads d"
    "\<And>l. l \<noteq> layer \<Longrightarrow> published l d' = published l d" "published layer d'"
    "db_paths d' = filter (\<lambda>r. pr_layer r \<noteq> layer) (db_paths d)" "index_ok L d"
  shows "index_ok L d'"
proof -
  have k: "keyed (db_paths d)" using assms(8) by (simp add: index_ok_def)
  from untrack_in_exact [OF this, of layer] obtain rows where rows: "untrack_in layer d = Inr ((), d\<lparr>db_paths := rows\<rparr>)"
      "keyed rows \<and> tracks rows layer Map.empty \<and> (\<forall>l g. l \<noteq> layer \<longrightarrow> tracks (db_paths d) l g \<longrightarrow> tracks rows l g)" by blast
  then have "d\<lparr>db_paths := filter (\<lambda>r. pr_layer r \<noteq> layer) (db_paths d)\<rparr> = d\<lparr>db_paths := rows\<rparr>" by (simp add: untrack_in_def)
  from arg_cong [OF this, of db_paths] have "db_paths d' = rows" by (simp add: assms(7))
  then have u: "keyed (db_paths d')" "tracks (db_paths d') layer Map.empty"
      "\<And>l g. l \<noteq> layer \<Longrightarrow> tracks (db_paths d) l g \<Longrightarrow> tracks (db_paths d') l g"
    using rows(2) by auto
  have gone: "index_of L d' layer = []" by (simp add: index_of_def live_def assms(6))
  have "omap_ok (index_of L d' l) \<and> tracks (db_paths d') l (map_of (index_of L d' l))" for l
  proof (cases "l = layer")
    case True
    then show ?thesis using u(2) by (simp add: gone omap_ok_def)
  next
    case False
    then show ?thesis using index_of_same [OF assms(1-4) assms(5)] assms(8) u(3) by (simp add: index_ok_def)
  qed
  then show ?thesis using u(1) by (simp add: index_ok_def)
qed

section \<open>Outcomes\<close>

text \<open>What a new receipt says of the state it was issued in, and the history after it.\<close>

definition publishes ::
  "codecs \<Rightarrow> db \<Rightarrow> world_log \<Rightarrow> string \<Rightarrow> layer_head \<Rightarrow> publication_outcome \<Rightarrow> db \<Rightarrow> world_log \<Rightarrow> bool" where
  "publishes L d w operation expected outcome d' w' \<longleftrightarrow>
     (let h = head_number w in
      case outcome of
        PublishedAs v \<Rightarrow> \<exists>node. checkpoint_node L d (lh_checkpoint expected) = Inr node
          \<and> layer_state_in L (lh_layer expected) d = Inr (Active expected)
          \<and> unat (lb_version (lc_base node)) \<le> h \<and> conflicting w h node = {}
          \<and> w' = w @ [(upd (fst (w ! h)) (lc_changes node), lc_changes node)] \<and> v = version_of d' (length w)
          \<and> wv_operation v = Some operation
          \<and> rederives (co_env L) d' (vr_tree (db_versions d ! h)) (lc_changes node) (wv_tree v)
      | PublishConflict found \<Rightarrow> w' = w \<and> layer_state_in L (lh_layer expected) d = Inr (Active expected)
          \<and> (\<exists>node. checkpoint_node L d (lh_checkpoint expected) = Inr node \<and> unat (lb_version (lc_base node)) \<le> h
              \<and> oset_ok found \<and> set found = conflicting w h node \<and> found \<noteq> [])
      | PublishStale state \<Rightarrow> w' = w \<and> layer_state_in L (lh_layer expected) d = Inr state \<and> state \<noteq> Active expected)"

text \<open>The frame of the transaction, whatever it decides.\<close>

definition receipted :: "codecs \<Rightarrow> db \<Rightarrow> publication_row \<Rightarrow> publication_receipt \<Rightarrow> db \<Rightarrow> bool" where
  "receipted L d row receipt d' \<longleftrightarrow>
     db_publications d' = db_publications d @ [row] \<and> pu_id row \<notin> pu_id ` set (db_publications d)
     \<and> (pu_outcome row = 1 \<longrightarrow> \<not> published (pu_layer row) d)
     \<and> read_object (co_env L) d' (pu_receipt row) Blob = Inr (co_receipt L receipt) \<and> publication_checks row
     \<and> db_heads d' = db_heads d \<and> db_layer_attempts d' = db_layer_attempts d \<and> db_stacks d' = db_stacks d"

lemma published_snoc: "db_publications d' = db_publications d @ [row] \<Longrightarrow>
    published l d' \<longleftrightarrow> published l d \<or> pu_outcome row = 1 \<and> pu_layer row = l"
  by (auto simp: published_def)

lemma publication_of_simps:
  "pu_id (publication_of operation expected attribution against state outcome blob) = operation"
  "pu_layer (publication_of operation expected attribution against state outcome blob) = lh_layer expected"
  "pu_receipt (publication_of operation expected attribution against state outcome blob) = blob"
  "pu_outcome (publication_of operation expected attribution against state outcome blob)
     = (case outcome of PublishedAs _ \<Rightarrow> 1 | PublishConflict _ \<Rightarrow> 2 | PublishStale _ \<Rightarrow> 3)"
  by (simp_all add: publication_of_def Let_def split: prod.split)

text \<open>A commit that publishes nothing.\<close>

lemma commit_refused:
  assumes "codecs_ok L" "layers_ok L d w" "index_ok L d"
    "insert_object (co_env L) Blob (co_receipt L receipt) d = Inr (blob, d2)"
    "publication_checks row" "pu_id row \<notin> pu_id ` set (db_publications d2)" "pu_outcome row \<noteq> 1" "pu_receipt row = blob"
    "d' = d2\<lparr>db_publications := db_publications d2 @ [row]\<rparr>"
  shows "layers_ok L d' w" "grown (co_env L) d w d' w" "index_ok L d'" "receipted L d row receipt d'"
proof -
  let ?E = "co_env L"
  have rp: "repo_ok ?E d w" using assms(2) by (simp add: layers_ok_def)
  then have ok: "objects_ok ?E d" by (simp add: repo_ok_def)
  note o = insert_object_Inr [OF ok assms(4)]
  obtain os where os: "db_objects d2 = db_objects d @ os"
      "\<forall>r \<in> set os. r = \<lparr>or_id = blob, or_kind = kind_sql Blob, or_bytes = co_receipt L receipt\<rparr>"
    by (rule insert_object_rows [OF assms(4)])
  have d2: "d2 = d\<lparr>db_objects := db_objects d @ os\<rparr>" using o(3) os(1) by (auto simp: adds_objects_def)
  have same: "db_objects d' = db_objects d2" by (simp add: assms(9))
  have k: "keeps_objects d d'" using keeps_objects_trans [OF adds_keeps [OF o(3)] keeps_same [OF same]] .
  have ok': "objects_ok ?E d'" using same_objects_ok [OF same] o(2) by simp
  have t: "db_publications d' = db_publications d @ [row]" "db_heads d' = db_heads d" "db_paths d' = db_paths d"
      "db_layer_attempts d' = db_layer_attempts d" "db_stacks d' = db_stacks d" "db_identity d' = db_identity d"
      "db_versions d' = db_versions d" by (simp_all add: assms(9) d2)
  have "repo_ok ?E d' w" by (rule repo_ok_tables [OF rp ok' k _ _ _ _ _ t(1)]) (simp_all add: assms(9) d2)
  then show g: "grown ?E d w d' w" using rp k t by (simp add: grown_def)
  show "layers_ok L d' w"
    by (rule layers_ok_kept [OF assms(1,2) g t(2,4,5), of os]) (use os same in auto)
  show "index_ok L d'"
    by (rule index_framed [OF assms(1,2) g t(2) _ t(3) assms(3)]) (use published_snoc [OF t(1)] assms(7) in simp)
  have "read_object ?E d' blob Blob = Inr (co_receipt L receipt)" by (rule read_object_keeps [OF keeps_same [OF same] o(4)])
  then show "receipted L d row receipt d'" using assms(5-8) t by (simp add: receipted_def d2)
qed

text \<open>A commit that publishes.\<close>

lemma commit_published:
  fixes L d w expected
  defines "E \<equiv> co_env L" and "h \<equiv> head_number w" and "layer \<equiv> lh_layer expected"
  assumes "codecs_ok L" "layers_ok L d w" "index_ok L d" "objects_ok E d0" "keeps_objects d0 d" "stands E d0 (vr_tree (db_versions d ! h)) (fst (w ! h))"
    "checkpoint_node L d i = Inr node" "conflicting w h node = {}" "cv_changes c = lc_changes node"
    "tree_apply (en_fuel E) (en_sha E) (vr_tree (db_versions d ! h)) (lc_changes node) (tree_view d0) = (Inr (cv_tree c), s)"
    "cv_chunks c = ms_saved s" "roomy E (fst (w ! h)) (lc_changes node)"
    "advance_published L guard' operation expected (version_of d h) c d = Inr (outcome, d1)"
    "insert_object E Blob (co_receipt L receipt) d1 = Inr (blob, d2)"
    "publication_checks row" "pu_id row \<notin> pu_id ` set (db_publications d2)" "pu_outcome row = 1" "\<not> published layer d2"
    "pu_receipt row = blob" "pu_id row = operation" "pu_layer row = layer"
    "d' = d2\<lparr>db_publications := db_publications d2 @ [row]\<rparr>"
  defines "w' \<equiv> w @ [(upd (fst (w ! h)) (lc_changes node), lc_changes node)]"
  shows "layers_ok L d' w'" "grown E d w d' w'" "index_ok L d'" "receipted L d row receipt d'"
    "outcome = PublishedAs (version_of d' (length w))" "rederives E d' (vr_tree (db_versions d ! h)) (lc_changes node) (cv_tree c)"
    "version_of d' (length w) = \<lparr>wv_number = num (length w), wv_id = vr_id (publish_version E d operation h c), wv_tree = cv_tree c,
       wv_operation = Some operation\<rparr>"
    "\<exists>tracked. attributed_in layer d = Inr tracked \<and> (\<forall>p \<in> fst ` set (lc_changes node). map_of tracked p \<noteq> None)
       \<and> db_blame d' = db_blame d @ map (blame_row_of (num (length w)) tracked) (map fst (lc_changes node))"
    "db_attempts d' = db_attempts d @ [publish_attempt operation h]"
proof -
  have rp: "repo_ok E d w" and hash: "hash_ok (en_sha E)" using assms(4,5) by (simp_all add: E_def layers_ok_def codecs_ok_def env_ok_def)
  then have ok: "objects_ok E d" by (simp add: repo_ok_def)
  note v = repo_versions [OF rp]
  have h: "h < length w" "Suc h = length w" "length w - 1 = h" using v(1) by (auto simp: h_def head_number_def)
  note lead = composed_leads [OF assms(4,5,10) h(1) assms(11)]
  have valid: "omap_ok (cv_changes c)" "changes_valid (lc_changes node)" using lead(1) by (simp_all add: leads_def changes_valid_def assms(12))
  note a = advance_published_spec [OF rp [unfolded E_def] assms(7) [unfolded E_def] assms(8) valid(1) assms(13) [folded assms(12), unfolded E_def h_def] assms(14,16) [unfolded h_def],
      folded E_def h_def layer_def]
  obtain os tracked where adv: "attributed_in layer d = Inr tracked" "\<forall>p \<in> fst ` set (cv_changes c). map_of tracked p \<noteq> None"
      "d1 = advanced_to E d layer operation h c os tracked" "\<forall>r \<in> set os. or_kind r = kind_sql Tree"
    using a(3) by blast
  note o = insert_object_Inr [OF a(5) assms(17)]
  obtain bs where bs: "db_objects d2 = db_objects d1 @ bs"
      "\<forall>r \<in> set bs. r = \<lparr>or_id = blob, or_kind = kind_sql Blob, or_bytes = co_receipt L receipt\<rparr>"
    by (rule insert_object_rows [OF assms(17)])
  have d2: "d2 = d1\<lparr>db_objects := db_objects d1 @ bs\<rparr>" using o(3) bs(1) by (auto simp: adds_objects_def)
  have same: "db_objects d' = db_objects d2" by (simp add: assms(25))
  have ok': "objects_ok E d'" using same_objects_ok [OF same] o(2) by simp
  have k1: "keeps_objects d1 d'" using keeps_objects_trans [OF adds_keeps [OF o(3)] keeps_same [OF same]] .
  have k: "keeps_objects d d'" using keeps_objects_trans [OF a(6) k1] .
  have t: "db_publications d' = db_publications d @ [row]" "db_heads d' = db_heads d" "db_layer_attempts d' = db_layer_attempts d"
      "db_stacks d' = db_stacks d" "db_identity d' = db_identity d" "db_paths d' = filter (\<lambda>r. pr_layer r \<noteq> layer) (db_paths d)"
      "db_versions d' = db_versions d @ [publish_version E d operation h c]" "db_objects d' = db_objects d @ (os @ bs)"
      "db_attempts d' = db_attempts d @ [publish_attempt operation h]" "db_publications d2 = db_publications d"
    by (simp_all add: assms(25) d2 adv(3) advanced_to_def advanced_db_def)
  show "db_attempts d' = db_attempts d @ [publish_attempt operation h]" by (rule t(9))
  show "\<exists>tracked. attributed_in layer d = Inr tracked \<and> (\<forall>p \<in> fst ` set (lc_changes node). map_of tracked p \<noteq> None)
       \<and> db_blame d' = db_blame d @ map (blame_row_of (num (length w)) tracked) (map fst (lc_changes node))"
    using adv(1,2) h(2) by (intro exI [of _ tracked]) (simp add: assms(12,25) d2 adv(3) advanced_to_def advanced_db_def)
  show red: "rederives E d' (vr_tree (db_versions d ! h)) (lc_changes node) (cv_tree c)"
    using rederives_keeps [OF a(7) k1] by (simp add: assms(12))
  let ?g = "upd (fst (w ! h)) (lc_changes node)"
  let ?dx = "d\<lparr>db_objects := db_objects d', db_blame := db_blame d', db_paths := db_paths d', db_publications := db_publications d @ [row]\<rparr>"
  have kx: "keeps_objects d' ?dx" "keeps_objects d ?dx"
    using keeps_same [of ?dx d'] keeps_objects_trans [OF k keeps_same [of ?dx d']] by simp_all
  have okx: "objects_ok E ?dx" using same_objects_ok [of ?dx d'] ok' by simp
  have rx: "repo_ok E ?dx w" by (rule repo_ok_tables [OF rp okx kx(2), where rows = "[row]"]) simp_all
  have st0: "snapshot (en_sha E) (tree_view d0) (vr_tree (db_versions d ! h)) (fst (w ! h))" "world (fst (w ! h))"
    using assms(9) by (simp_all add: stands_def)
  have "\<not> refused (fst (w ! h)) (lc_changes node)" by (rule lead(2))
  then have snap: "snapshot (en_sha E) s (cv_tree c) ?g"
    using apply_Inr [OF hash st0 valid(2) _ _ assms(13) a(9)] assms(15) by (auto simp: roomy_def)
  have view: "extends s (tree_view ?dx)"
    using extends_trans [OF a(10) keeps_extends [OF keeps_objects_trans [OF k1 kx(1)]]] .
  have e: "validate_entry E ?dx x = Inr ()" if "?g p = Some x" for p x
  proof (cases "map_of (lc_changes node) p")
    case None
    then have "fst (w ! h) p = Some x" using that by (simp add: upd_def)
    then show ?thesis using v(7) [OF h(1)] validate_entry_keeps [OF kx(2)] unfolding stands_def by blast
  next
    case (Some y)
    then have "(p, Some x) \<in> set (lc_changes node)" using that by (auto simp: upd_def dest: map_of_SomeD)
    then show ?thesis
      using checkpoint_leads(4) [OF assms(4,5,10)] validate_entry_keeps [OF kx(2)] unfolding E_def by blast
  qed
  have standing: "stands E ?dx (cv_tree c) ?g"
    unfolding stands_def using world_upd [OF st0(2) valid(2)] snapshot_extends [OF snap view] e by blast
  have fresh: "operation \<notin> ar_id ` set (db_attempts d)" by (rule a(2))
  have d': "d' = advanced_db ?dx (publish_attempt operation h) (publish_version E d operation h c) (lc_changes node)"
    by (simp add: assms(12,25) d2 adv(3) advanced_to_def advanced_db_def)
  have "repo_ok E (advanced_db ?dx (publish_attempt operation h) (publish_version E d operation h c) (lc_changes node)) w'"
    unfolding w'_def
    by (rule repo_ok_advanced [OF rx a(1)])
      (use fresh h standing lead(1) in \<open>auto simp: publish_attempt_def publish_version_def assms(12,23) operation_exists_in_def\<close>)
  then have rp': "repo_ok E d' w'" using d' by simp
  show g: "grown E d w d' w'" unfolding grown_def using rp rp' k t by (simp add: w'_def)
  show "layers_ok L d' w'"
    by (rule layers_ok_kept [OF assms(4,5) g [unfolded E_def] t(2,3,4,8)]) (use adv(4) bs(2) in auto)
  show "index_ok L d'"
    by (rule index_untracked [OF assms(4,5) g [unfolded E_def] t(2) _ _ t(6) assms(6)])
      (use published_snoc [OF t(1)] assms(20,24) in simp_all)
  have "read_object E d' blob Blob = Inr (co_receipt L receipt)" by (rule read_object_keeps [OF keeps_same [OF same] o(4)])
  moreover have "\<not> published layer d" using assms(21) by (simp add: published_def t(10))
  ultimately show "receipted L d row receipt d'" using assms(18,19,22,24) t by (simp add: receipted_def E_def)
  show ver: "version_of d' (length w) = \<lparr>wv_number = num (length w), wv_id = vr_id (publish_version E d operation h c), wv_tree = cv_tree c,
       wv_operation = Some operation\<rparr>"
    using v(3) by (simp add: version_of_def t(7) nth_append publish_version_def)
  have "version_of d1 (length w) = version_of d' (length w)"
    by (rule fun_cong [OF version_of_cong]) (simp add: t(7) adv(3) advanced_to_def advanced_db_def)
  then show "outcome = PublishedAs (version_of d' (length w))" using a(4) by simp
qed

end
