(* ===== verification/Issuing.thy ===== *)
theory Issuing
  imports PublishRounds
begin

text \<open>
  Every outcome of one round of a publication: a replayed receipt, a snapshot that is out of date, or a new receipt, whose
  outcome is decided by the state under the lock.
\<close>

section \<open>A new receipt\<close>

definition issued ::
  "codecs \<Rightarrow> db \<Rightarrow> world_log \<Rightarrow> string \<Rightarrow> layer_head \<Rightarrow> publish_attribution \<Rightarrow> layer_state \<Rightarrow> object_id \<Rightarrow> publication_receipt \<Rightarrow> db \<Rightarrow> world_log \<Rightarrow> bool" where
  "issued L d w operation expected attribution state blob receipt d' w' \<longleftrightarrow>
     layer_state_in L (lh_layer expected) d = Inr state \<and> verify_head expected d = Inr ()
     \<and> warnings_in L attribution d = Inr (rc_warnings receipt) \<and> (\<forall>i. attribution \<noteq> ByAgent (Some i) True)
     \<and> receipt = \<lparr>rc_operation = operation, rc_expected = expected, rc_attribution = attribution, rc_against = version_of d (head_number w),
          rc_warnings = rc_warnings receipt, rc_outcome = rc_outcome receipt\<rparr>
     \<and> receipted L d (publication_of operation expected attribution (version_of d (head_number w)) state (rc_outcome receipt) blob) receipt d'
     \<and> publishes L d w operation expected (rc_outcome receipt) d' w'
     \<and> operation \<notin> ar_id ` set (db_attempts d)
     \<and> (if \<exists>v. rc_outcome receipt = PublishedAs v
        then db_attempts d' = db_attempts d @ [publish_attempt operation (head_number w)]
          \<and> (\<exists>tracked ch. attributed_in (lh_layer expected) d = Inr tracked \<and> w' = w @ [(upd (fst (w ! head_number w)) ch, ch)]
               \<and> (\<forall>p \<in> fst ` set ch. map_of tracked p \<noteq> None)
               \<and> db_blame d' = db_blame d @ map (blame_row_of (num (length w)) tracked) (map fst ch))
        else db_attempts d' = db_attempts d \<and> db_blame d' = db_blame d)"

lemma warnings_grown:
  assumes "keeps_objects d d'" "warnings_in L attribution d = Inr ws"
  shows "warnings_in L attribution d' = Inr ws"
  using assms(2) read_object_keeps [OF assms(1)]
  by (auto simp: warnings_in_def result_simps split: publish_attribution.splits option.splits if_splits)

text \<open>The round, with room in the tree of the head for the Layer's changes.\<close>

lemma publish_round_spec:
  fixes L d w
  defines "h \<equiv> head_number w"
  assumes "codecs_ok L" "layers_ok L d0 w0" "layers_ok L d w" "index_ok L d" "grown (co_env L) d0 w0 d w"
    "\<And>node. checkpoint_node L d (lh_checkpoint expected) = Inr node \<Longrightarrow> roomy (co_env L) (fst (w ! h)) (lc_changes node)"
    "publish_round L guard' operation expected attribution d0 d = Inr (r, d')"
  shows "(d' = d \<and> (r = None \<or> (\<exists>receipt. r = Some receipt \<and> prepare_in L operation expected attribution d0 = Inr (Replay receipt))))
    \<or> (\<exists>receipt state blob w'. r = Some receipt \<and> issued L d w operation expected attribution state blob receipt d' w'
        \<and> layers_ok L d' w' \<and> grown (co_env L) d w d' w' \<and> index_ok L d')"
proof (cases "prepare_in L operation expected attribution d0")
  case (Inl e)
  then show ?thesis using assms(8) by (simp add: publish_round_def tx_bind_def tx_read_def)
next
  case (Inr prepared)
  show ?thesis
  proof (cases prepared)
    case (Replay receipt)
    then show ?thesis using Inr assms(8) by (auto simp: publish_round_def tx_bind_def tx_read_def tx_ret_def)
  next
    case (Advance plan)
    let ?E = "co_env L" let ?layer = "lh_layer expected"
    have rp: "repo_ok ?E d w" "repo_ok ?E d0 w0" using assms(3,4) by (simp_all add: layers_ok_def)
    then have ok: "objects_ok ?E d0" "objects_ok ?E d" by (simp_all add: repo_ok_def)
    have k0: "keeps_objects d0 d" using assms(6) by (simp add: grown_def)
    note pl = prepared_plan [OF assms(2,3) Inr [unfolded Advance]]
    obtain moved where mv: "plan_moved L operation expected plan d = Inr moved"
      and rest: "(if moved then tx_ret None
         else tx_bind (commit_plan L guard' operation expected attribution plan) (\<lambda>receipt. tx_ret (Some receipt))) d = Inr (r, d')"
      using assms(8) Inr Advance by (auto simp: publish_round_def tx_bind_Inr tx_read_Inr)
    show ?thesis
    proof (cases moved)
      case True
      then show ?thesis using rest by (simp add: tx_ret_def)
    next
      case False
      then have "plan_moved L operation expected plan d = Inr False" using mv by simp
      note ho = plan_holds [OF rp(2,1) assms(6) pl(4) this]
      have w: "w0 = w" using ho(1) by simp
      have against: "pp_against plan = version_of d h" using ho(2) by (simp add: h_def w)
      have h: "h < length w" using repo_versions(1) [OF rp(1)] by (simp add: h_def head_number_def)
      obtain receipt where com: "commit_plan L guard' operation expected attribution plan d = Inr (receipt, d')" and r: "r = Some receipt"
        using rest False by (auto simp: tx_bind_Inr tx_ret_def)
      obtain d1 blob d2 where c: "case pp_composed plan of
             None \<Rightarrow> rc_outcome receipt = PublishStale (pp_actual plan) \<and> d1 = d
           | Some (Inl paths) \<Rightarrow> rc_outcome receipt = PublishConflict paths \<and> d1 = d
           | Some (Inr c) \<Rightarrow> advance_published L guard' operation expected (pp_against plan) c d = Inr (rc_outcome receipt, d1)"
        "insert_object ?E Blob (co_receipt L receipt) d1 = Inr (blob, d2)"
        "publication_checks (publication_of operation expected attribution (pp_against plan) (pp_actual plan) (rc_outcome receipt) blob)"
        "operation \<notin> pu_id ` set (db_publications d2)"
        "pu_outcome (publication_of operation expected attribution (pp_against plan) (pp_actual plan) (rc_outcome receipt) blob) = 1 \<longrightarrow>
           \<not> published ?layer d2"
        "d' = d2\<lparr>db_publications := db_publications d2
           @ [publication_of operation expected attribution (pp_against plan) (pp_actual plan) (rc_outcome receipt) blob]\<rparr>"
        "receipt = \<lparr>rc_operation = operation, rc_expected = expected, rc_attribution = attribution, rc_against = pp_against plan,
           rc_warnings = pp_warnings plan, rc_outcome = rc_outcome receipt\<rparr>"
        by (rule commit_plan_Inr [OF com])
      let ?row = "publication_of operation expected attribution (pp_against plan) (pp_actual plan) (rc_outcome receipt) blob"
      have ws: "rc_warnings receipt = pp_warnings plan" using arg_cong [OF c(7), of rc_warnings] by simp
      have wn: "warnings_in L attribution d = Inr (rc_warnings receipt)"
        using warnings_grown [OF k0 pl(3)] by (simp add: ws)
      have vh: "verify_head expected d = Inr ()" by (rule verified_grown [OF assms(3,4,6) pl(2)])
      have rc: "receipt = \<lparr>rc_operation = operation, rc_expected = expected, rc_attribution = attribution, rc_against = version_of d h,
           rc_warnings = rc_warnings receipt, rc_outcome = rc_outcome receipt\<rparr>"
        unfolding ws against [symmetric] by (rule c(7))
      note base = ho(5) vh wn pl(8) rc ho(4)
      have refused: "\<exists>receipt state blob w'. r = Some receipt \<and> issued L d w operation expected attribution state blob receipt d' w'
          \<and> layers_ok L d' w' \<and> grown ?E d w d' w' \<and> index_ok L d'"
        if "d1 = d" "\<nexists>v. rc_outcome receipt = PublishedAs v" "publishes L d w operation expected (rc_outcome receipt) d' w"
      proof -
        have "pu_outcome ?row \<noteq> 1" using that(2) by (simp add: publication_of_simps split: publication_outcome.split)
        note k = commit_refused [OF assms(2,4,5) c(2) [unfolded that(1)] c(3) _ this _ c(6), unfolded publication_of_simps, OF c(4) refl]
        have "db_attempts d' = db_attempts d \<and> db_blame d' = db_blame d"
          using c(6) insert_object_Inr(3) [OF ok(2) c(2) [unfolded that(1)]] by (auto simp: adds_objects_def)
        then have "issued L d w operation expected attribution (pp_actual plan) blob receipt d' w"
          unfolding issued_def h_def [symmetric] using base k(4) that(2,3) by (simp add: against)
        then show ?thesis using r k by blast
      qed
      have w': "publishes L d w operation expected outcome d' w'" if "publishes L d w0 operation expected outcome d' w'" for outcome w'
        using that w by simp
      show ?thesis
      proof (cases "pp_composed plan")
        case None
        then have "rc_outcome receipt = PublishStale (pp_actual plan)" "d1 = d" using c(1) by simp_all
        then show ?thesis using refused ho(5) pl(6) None by (simp add: publishes_def Let_def)
      next
        case (Some comp)
        then have active: "layer_state_in L ?layer d = Inr (Active expected)" using ho(5) pl(6) by simp
        obtain node where node0: "checkpoint_node L d0 (lh_checkpoint expected) = Inr node" "unat (lb_version (lc_base node)) \<le> h"
            "composes L d0 w h node comp"
          using pl(7) [OF Some] by (auto simp: h_def w)
        have node: "checkpoint_node L d (lh_checkpoint expected) = Inr node" by (rule checkpoint_node_grown [OF assms(2,6) node0(1)])
        show ?thesis
        proof (cases comp)
          case (Inl found)
          then have "rc_outcome receipt = PublishConflict found" "d1 = d" using c(1) Some by simp_all
          then show ?thesis using refused active node node0 Inl
            by (simp add: publishes_def Let_def composes_def h_def [symmetric])
        next
          case (Inr comp')
          obtain s where s: "tree_apply (en_fuel ?E) (en_sha ?E) (vr_tree (db_versions d0 ! h)) (lc_changes node) (tree_view d0) = (Inr (cv_tree comp'), s)"
              "cv_chunks comp' = ms_saved s" and cf: "conflicting w h node = {}" and ch: "cv_changes comp' = lc_changes node"
            using node0(3) Inr by (auto simp: composes_def)
          obtain vs where "db_versions d = db_versions d0 @ vs" using assms(6) unfolding grown_def by blast
          then have tree: "db_versions d0 ! h = db_versions d ! h" using repo_versions(3) [OF rp(2)] h by (simp add: w nth_append)
          have st: "stands ?E d0 (vr_tree (db_versions d ! h)) (fst (w ! h))" using version_map(1) [OF rp(2), of h] h by (simp add: w tree)
          have run: "advance_published L guard' operation expected (version_of d h) comp' d = Inr (rc_outcome receipt, d1)"
            using c(1) Some Inr by (simp add: against)
          have rp1: "repo_ok (co_env L) d w" using rp(1) .
          have "\<exists>v. PublishedAs v = rc_outcome receipt" using run
            by (auto simp: advance_published_def tx_bind_Inr tx_read_Inr tx_ret_def)
          then have out: "\<exists>v. rc_outcome receipt = PublishedAs v" by (auto dest: sym)
          then have one: "pu_outcome ?row = 1" by (auto simp: publication_of_simps)
          note k = commit_published [where L = L and d = d and w = w and expected = expected, folded h_def, OF assms(2,4,5) ok(1) k0 st node cf ch
              s(1) [unfolded tree] s(2) assms(7) [OF node] run c(2,3) _ one c(5) [rule_format, OF one] _ _ _ c(6), unfolded publication_of_simps, OF c(4) refl refl refl]
          have "publishes L d w operation expected (rc_outcome receipt) d' (w @ [(upd (fst (w ! h)) (lc_changes node), lc_changes node)])"
            unfolding publishes_def h_def [symmetric] Let_def k(5) using active node node0(2) cf k(6,7) by auto
          then have "issued L d w operation expected attribution (pp_actual plan) blob receipt d' (w @ [(upd (fst (w ! h)) (lc_changes node), lc_changes node)])"
            unfolding issued_def h_def [symmetric] using base k(4,8,9) out by (auto simp: against)
          then show ?thesis using r k(1-3) by blast
        qed
      qed
    qed
  qed
qed

end
