(* ===== verification/Receipts.thy ===== *)
theory Receipts
  imports Issuing
begin

text \<open>
  Stored receipts: what a row of \<open>publications\<close> binds its receipt to, that the code reads the receipt back from it, and that
  later work on the repository leaves it so.
\<close>

section \<open>Reading events as the receipts do\<close>

lemma event_state_spec:
  assumes "layers_ok L d w" "m < length (layer_rows layer d)"
  shows "\<exists>identity. identity_in d = Inr identity
    \<and> event_state_in layer (num m) d = Inr (event_state identity (event_of (layer_rows layer d ! m)))"
proof -
  have h: "history_ok L d (layer_rows layer d)" and "\<exists>identity. identity_in d = Inr identity" using assms(1) by (simp_all add: layers_ok_def)
  then obtain identity where i: "identity_in d = Inr identity" by blast
  have "m < 2 ^ 63" using h assms(2) by (simp add: history_ok_def)
  then show ?thesis using event_in_spec [OF h] assms(2) i by (simp add: event_state_in_def revision_from_def)
qed

lemma layer_head_at:
  assumes "layers_ok L d w" "head_at d head n" "lh_layer head = layer"
  shows "layer_head_in layer (num n) d = Inr head"
proof -
  have n: "n < length (layer_rows layer d)" using assms(2,3) by (simp add: head_at_def)
  from event_state_spec [OF assms(1) this] obtain identity where
    i: "identity_in d = Inr identity" "event_state_in layer (num n) d = Inr (event_state identity (event_of (layer_rows layer d ! n)))" by blast
  have h: "history_ok L d (layer_rows layer d)" using assms(1) by (simp add: layers_ok_def)
  have "hr_revision (layer_rows layer d ! n) = int n" "hr_layer (layer_rows layer d ! n) = layer"
    using h n layer_rows_nth [OF n] by (simp_all add: history_ok_def)
  then have "event_state identity (event_of (layer_rows layer d ! n)) = Active head"
    using assms(2,3) i(1) by (cases head) (simp add: event_state_def event_of_def head_at_def num_def)
  then show ?thesis using i(2) by (simp add: layer_head_in_def)
qed

lemma layer_head_in_grown: "grown E d w d' w' \<Longrightarrow> layer_head_in layer n d = Inr head \<Longrightarrow> layer_head_in layer n d' = Inr head"
  using event_in_grown identity_grown by (auto simp: layer_head_in_def event_state_in_def result_simps)

lemma success_state_grown: "grown E d w d' w' \<Longrightarrow> success_state row d = Inr state \<Longrightarrow> success_state row d' = Inr state"
proof -
  assume g: "grown E d w d' w'" and s: "success_state row d = Inr state"
  have "world_at n d = Inr v \<Longrightarrow> world_at n d' = Inr v" for n v
    using version_in_grown [OF g] by (cases "version_in (word_of_int n) d") (auto simp: world_at_def result_simps)
  then show ?thesis using s layer_head_in_grown [OF g] by (auto simp: success_state_def result_simps split: if_splits)
qed

lemma world_at_spec:
  assumes "repo_ok E d w" "a < length w"
  shows "world_at (int a) d = Inr (version_of d a)"
  using version_in_spec [OF assms(1), of "num a"] assms(2) repo_versions(5) [OF assms]
  by (simp add: world_at_def)

section \<open>Bindings\<close>

text \<open>The state that a row observed: an event of its Layer, or the publication that was there before it.\<close>

definition observed_ok :: "db \<Rightarrow> publication_row \<Rightarrow> nat \<Rightarrow> layer_state \<Rightarrow> bool" where
  "observed_ok d row m observed \<longleftrightarrow>
     (case pu_observed_publication row of
       None \<Rightarrow> \<exists>identity. identity_in d = Inr identity \<and> observed = event_state identity (event_of (layer_rows (pu_layer row) d ! m))
     | Some i \<Rightarrow> \<exists>prior \<in> set (db_publications d). pu_id prior = i \<and> i \<noteq> pu_id row \<and> pu_layer prior = pu_layer row
         \<and> pu_expected prior = pu_observed row \<and> (\<exists>k. pu_result prior = Some k \<and> k \<le> pu_against row)
         \<and> success_state prior d = Inr observed)"

definition heeds_terminal :: "db \<Rightarrow> publication_row \<Rightarrow> bool" where
  "heeds_terminal d row \<longleftrightarrow>
     (\<forall>r \<in> set (db_publications d). pu_layer r = pu_layer row \<longrightarrow> pu_outcome r = 1 \<longrightarrow>
        (\<exists>k. pu_result r = Some k \<and> k \<le> pu_against row) \<longrightarrow> pu_observed_publication row = Some (pu_id r))"

definition outcome_bound ::
  "codecs \<Rightarrow> db \<Rightarrow> world_log \<Rightarrow> publication_row \<Rightarrow> nat \<Rightarrow> nat \<Rightarrow> layer_checkpoint \<Rightarrow> bool \<Rightarrow> layer_state \<Rightarrow> publication_outcome \<Rightarrow> bool" where
  "outcome_bound L d w row m a node exact observed outcome \<longleftrightarrow>
     (case outcome of
       PublishedAs v \<Rightarrow> pu_outcome row = 1 \<and> exact \<and> pu_result row = Some (int (Suc a)) \<and> pu_world_operation row = Some (pu_id row)
         \<and> attempt_exists (pu_id row) d \<and> Suc a < length w \<and> v = version_of d (Suc a) \<and> wv_operation v = Some (pu_id row)
         \<and> Suc m = length (layer_rows (pu_layer row) d) \<and> pu_observed_publication row = None
         \<and> conflicting w a node = {} \<and> snd (w ! Suc a) = lc_changes node
         \<and> rederives (co_env L) d (vr_tree (db_versions d ! a)) (lc_changes node) (wv_tree v)
     | PublishConflict found \<Rightarrow> pu_outcome row = 2 \<and> exact \<and> pu_result row = None \<and> pu_world_operation row = None
         \<and> \<not> attempt_exists (pu_id row) d \<and> oset_ok found \<and> found \<noteq> [] \<and> set found = conflicting w a node
     | PublishStale state \<Rightarrow> pu_outcome row = 3 \<and> \<not> exact \<and> pu_result row = None \<and> pu_world_operation row = None
         \<and> \<not> attempt_exists (pu_id row) d \<and> state = observed)"

definition receipt_ok :: "codecs \<Rightarrow> db \<Rightarrow> world_log \<Rightarrow> publication_row \<Rightarrow> publication_receipt \<Rightarrow> bool" where
  "receipt_ok L d w row receipt \<longleftrightarrow>
     (\<exists>n a m node observed.
        head_at d (rc_expected receipt) n \<and> lh_layer (rc_expected receipt) = pu_layer row
        \<and> pu_expected row = int n \<and> pu_checkpoint row = lh_checkpoint (rc_expected receipt)
        \<and> pu_against row = int a \<and> a < length w \<and> rc_against receipt = version_of d a
        \<and> checkpoint_node L d (lh_checkpoint (rc_expected receipt)) = Inr node \<and> unat (lb_version (lc_base node)) \<le> a
        \<and> stored_attribution row = Inr (rc_attribution receipt) \<and> warnings_in L (rc_attribution receipt) d = Inr (rc_warnings receipt)
        \<and> pu_observed row = int m \<and> n \<le> m \<and> m < length (layer_rows (pu_layer row) d) \<and> observed_ok d row m observed
        \<and> heeds_terminal d row \<and> rc_operation receipt = pu_id row
        \<and> outcome_bound L d w row m a node (observed = Active (rc_expected receipt)) observed (rc_outcome receipt)
        \<and> read_object (co_env L) d (pu_receipt row) Blob = Inr (co_receipt L receipt))"

section \<open>Reading a receipt\<close>

lemma find_id:
  assumes "distinct (map key rows)" "x \<in> set rows" "key x = k"
  shows "find (\<lambda>r. key r = k) rows = Some x"
  using assms by (induction rows) (auto simp: rev_image_eqI)

lemma distinct_rows_in: "distinct (map pu_id (db_publications d)) \<Longrightarrow> distinct (map pu_id (rows_in P d))"
proof -
  assume "distinct (map pu_id (db_publications d))"
  then have "distinct (filter P (db_publications d))" "inj_on pu_id (set (rows_in P d))"
    by (auto simp: distinct_map rows_in_set inj_on_def)
  then show ?thesis by (simp add: rows_in_def distinct_map)
qed

lemma observed_state_spec:
  assumes "layers_ok L d w" "distinct (map pu_id (db_publications d))" "pu_observed row = int m" "m < length (layer_rows (pu_layer row) d)"
    "observed_ok d row m observed"
  shows "observed_state (rows_in (\<lambda>r. pu_layer r = pu_layer row) d) row d = Inr observed"
proof -
  obtain identity where i: "identity_in d = Inr identity"
      "event_state_in (pu_layer row) (num m) d = Inr (event_state identity (event_of (layer_rows (pu_layer row) d ! m)))"
    using event_state_spec [OF assms(1,4)] by blast
  have "history_ok L d (layer_rows (pu_layer row) d)" using assms(1) by (simp add: layers_ok_def)
  then have "m < 2 ^ 63" using assms(4) by (simp add: history_ok_def)
  then have rev: "version_decode (pu_observed row) = Inr (num m)" by (simp add: assms(3))
  show ?thesis
  proof (cases "pu_observed_publication row")
    case None
    then show ?thesis using assms(5) i rev by (simp add: observed_state_def observed_ok_def)
  next
    case (Some k)
    then obtain prior where p: "prior \<in> set (db_publications d)" "pu_id prior = k" "k \<noteq> pu_id row" "pu_layer prior = pu_layer row"
        "pu_expected prior = pu_observed row" "\<exists>n. pu_result prior = Some n \<and> n \<le> pu_against row" "success_state prior d = Inr observed"
      using assms(5) by (auto simp: observed_ok_def)
    have "find (\<lambda>r. pu_id r = k) (rows_in (\<lambda>r. pu_layer r = pu_layer row) d) = Some prior"
      by (rule find_id [OF distinct_rows_in [OF assms(2)] _ p(2)]) (use p(1,4) in \<open>simp add: rows_in_set\<close>)
    then show ?thesis using Some i(2) rev p by (auto simp: observed_state_def ok_or_def)
  qed
qed

text \<open>The code reads the receipt from its row.\<close>

lemma receipt_read:
  assumes "codecs_ok L" "layers_ok L d w" "distinct (map pu_id (db_publications d))" "receipt_ok L d w row receipt"
  shows "receipt_in L row d = Inr receipt"
proof -
  let ?rows = "rows_in (\<lambda>r. pu_layer r = pu_layer row) d" let ?expected = "rc_expected receipt"
  obtain n a m node observed where
    h: "head_at d ?expected n" "lh_layer ?expected = pu_layer row" "pu_expected row = int n" "pu_checkpoint row = lh_checkpoint ?expected"
    and a: "pu_against row = int a" "a < length w" "rc_against receipt = version_of d a"
    and node: "checkpoint_node L d (lh_checkpoint ?expected) = Inr node" "unat (lb_version (lc_base node)) \<le> a"
    and at: "stored_attribution row = Inr (rc_attribution receipt)" "warnings_in L (rc_attribution receipt) d = Inr (rc_warnings receipt)"
    and o: "pu_observed row = int m" "n \<le> m" "m < length (layer_rows (pu_layer row) d)" "observed_ok d row m observed"
    and t: "heeds_terminal d row" "rc_operation receipt = pu_id row"
    and out: "outcome_bound L d w row m a node (observed = Active ?expected) observed (rc_outcome receipt)"
    and blob: "read_object (co_env L) d (pu_receipt row) Blob = Inr (co_receipt L receipt)"
    using assms(4) unfolding receipt_ok_def by (elim exE conjE) (rule that)
  have rp: "repo_ok (co_env L) d w" and hist: "history_ok L d (layer_rows (pu_layer row) d)" using assms(2) by (simp_all add: layers_ok_def)
  then have len: "length (layer_rows (pu_layer row) d) \<le> 2 ^ 63" by (simp add: history_ok_def)
  then have "version_decode (pu_expected row) = Inr (num n)" using h(1,2) by (simp add: h(3) head_at_def)
  moreover have "layer_head_in (pu_layer row) (num n) d = Inr ?expected" by (rule layer_head_at [OF assms(2) h(1,2)])
  moreover have "world_at (pu_against row) d = Inr (version_of d a)" unfolding a(1) by (rule world_at_spec [OF rp a(2)])
  moreover have "\<not> lb_version (lc_base node) > num a" using node(2) repo_versions(5) [OF rp a(2)] by (simp add: word_less_nat_alt)
  moreover have "observed_state ?rows row d = Inr observed" by (rule observed_state_spec [OF assms(2,3) o(1,3,4)])
  moreover have "\<not> ignored_terminal ?rows row"
    using t(1) by (auto simp: ignored_terminal_def heeds_terminal_def list_ex_iff rows_in_set split: option.splits)
  moreover have "(if pu_outcome row = 1 then success_in L row ?expected (version_of d a) observed (observed = Active ?expected) (attempt_exists (pu_id row) d) d
      else if pu_outcome row = 2 \<or> pu_outcome row = 3
      then failure_in L row ?expected (version_of d a) observed (observed = Active ?expected) (attempt_exists (pu_id row) d) d
      else Inl (corrupt ''invalid publication outcome'')) = Inr (rc_outcome receipt)"
  proof (cases "rc_outcome receipt")
    case (PublishedAs v)
    note q = out [unfolded outcome_bound_def PublishedAs publication_outcome.case]
    have sa: "Suc a < 2 ^ 63" using repo_versions(5) [OF rp, of "Suc a"] q by simp
    obtain c where c: "composes L d w a node (Inr c)" "cv_tree c = wv_tree v" using composes_again [of L d a node "wv_tree v" w] q by blast
    have "compose_in L ?expected (version_of d a) d = Inr (Inr c)" using compose_in_iff [OF assms(1,2) node(1) a(2) node(2)] c(1) by simp
    moreover have "latest_event_state_in (pu_layer row) d = Inr observed"
    proof -
      have ne: "layer_rows (pu_layer row) d \<noteq> []" "length (layer_rows (pu_layer row) d) - 1 = m" using o(3) q by (auto simp flip: diff_Suc_1)
      then have "last (layer_rows (pu_layer row) d) = layer_rows (pu_layer row) d ! m" by (simp add: last_conv_nth)
      then show ?thesis using latest_state [OF assms(2) ne(1)] o(4) q by (auto simp: observed_ok_def)
    qed
    moreover have "world_at (int (Suc a)) d = Inr v" using world_at_spec [OF rp, of "Suc a"] q by simp
    moreover have "changeset_in (num (Suc a)) d = Inr (lc_changes node)" using changeset_in_spec [OF rp, of "Suc a"] q by simp
    moreover have "wv_id v = version_id (en_sha (co_env L)) (en_changes (co_env L)) (Some (wv_id (version_of d a))) (wv_tree v) (lc_changes node)"
      using repo_versions(6) [OF rp, of "Suc a"] q by (auto simp: linked_def Let_def)
    moreover have "cv_changes c = lc_changes node" using c(1) by (simp add: composes_def)
    moreover have "vr_operation (db_versions d ! Suc a) = Some (pu_id row)" using q by auto
    ultimately show ?thesis using q sa c(2) PublishedAs by (simp add: success_in_def a(1) ok_or_def del: of_nat_Suc)
  next
    case (PublishConflict found)
    note q = out [unfolded outcome_bound_def PublishConflict publication_outcome.case]
    have "compose_in L ?expected (version_of d a) d = Inr (Inl found)"
      using compose_in_iff [OF assms(1,2) node(1) a(2) node(2)] q by (simp add: composes_def)
    then show ?thesis using q PublishConflict by (simp add: failure_in_def)
  next
    case (PublishStale state)
    note q = out [unfolded outcome_bound_def PublishStale publication_outcome.case]
    then show ?thesis using PublishStale by (simp add: failure_in_def)
  qed
  moreover have "\<lparr>rc_operation = pu_id row, rc_expected = ?expected, rc_attribution = rc_attribution receipt,
      rc_against = version_of d a, rc_warnings = rc_warnings receipt, rc_outcome = rc_outcome receipt\<rparr> = receipt"
    using t(2) a(3) by simp
  ultimately show ?thesis
    using node(1) h(3,4) o(1,2) at blob unfolding receipt_in_def Let_def
    by (simp add: checkpoint_in_eq)
qed

end
