(* ===== verification/Receipting.thy ===== *)
theory Receipting
  imports Receipts
begin

text \<open>
  Receipts over time: a new receipt is read back from its row, and every receipt stays readable while the repository grows and
  leaves published Layers alone.
\<close>

section \<open>Growth\<close>

lemma version_of_grown: "grown E d w d' w' \<Longrightarrow> i < length w \<Longrightarrow> version_of d' i = version_of d i"
  using repo_versions(3) by (fastforce simp: grown_def version_of_def nth_append)

lemma tree_of_grown: "grown E d w d' w' \<Longrightarrow> i < length w \<Longrightarrow> db_versions d' ! i = db_versions d ! i"
  using repo_versions(3) by (fastforce simp: grown_def nth_append)

lemma conflicting_grown:
  assumes "grown E d w d' w'" "a < length w" "unat (lb_version (lc_base node)) \<le> a"
  shows "conflicting w' a node = conflicting w a node"
  using grown_map [OF assms(1), of a] grown_map [OF assms(1), of "unat (lb_version (lc_base node))"] assms(2,3)
  by (simp add: conflicting_def base_map_def)

lemma layer_rows_grown: "grown E d w d' w' \<Longrightarrow> \<exists>more. layer_rows layer d' = layer_rows layer d @ more"
  by (auto simp: grown_def layer_rows_def)

text \<open>How later steps treat publications: they add rows with new IDs, publish as later versions, leave published Layers as they are, and
  do not use the ID of a publication for another attempt.\<close>

definition keeps_publications :: "db \<Rightarrow> world_log \<Rightarrow> db \<Rightarrow> bool" where
  "keeps_publications d w d' \<longleftrightarrow>
     (\<exists>rows. db_publications d' = db_publications d @ rows \<and> distinct (map pu_id (db_publications d'))
        \<and> (\<forall>r \<in> set rows. pu_outcome r = 1 \<longrightarrow> pu_result r = Some (int (length w)) \<and> \<not> published (pu_layer r) d)
        \<and> (\<forall>a \<in> set rows. \<forall>b \<in> set rows. pu_outcome a = 1 \<longrightarrow> pu_outcome b = 1 \<longrightarrow> pu_layer a = pu_layer b \<longrightarrow> a = b))
     \<and> (\<forall>layer. published layer d \<longrightarrow> layer_rows layer d' = layer_rows layer d)
     \<and> (\<exists>more. db_attempts d' = db_attempts d @ more \<and> (\<forall>r \<in> set more. ar_id r \<notin> pu_id ` set (db_publications d)))"

lemma receipt_ok_grown:
  assumes "codecs_ok L" "grown (co_env L) d w d' w'" "keeps_publications d w d'" "row \<in> set (db_publications d)" "receipt_ok L d w row receipt"
  shows "receipt_ok L d' w' row receipt"
proof -
  let ?expected = "rc_expected receipt"
  obtain n a m node observed where
    h: "head_at d ?expected n" "lh_layer ?expected = pu_layer row" "pu_expected row = int n" "pu_checkpoint row = lh_checkpoint ?expected"
    and a: "pu_against row = int a" "a < length w" "rc_against receipt = version_of d a"
    and node: "checkpoint_node L d (lh_checkpoint ?expected) = Inr node" "unat (lb_version (lc_base node)) \<le> a"
    and at: "stored_attribution row = Inr (rc_attribution receipt)" "warnings_in L (rc_attribution receipt) d = Inr (rc_warnings receipt)"
    and o: "pu_observed row = int m" "n \<le> m" "m < length (layer_rows (pu_layer row) d)" "observed_ok d row m observed"
    and t: "heeds_terminal d row" "rc_operation receipt = pu_id row"
    and out: "outcome_bound L d w row m a node (observed = Active ?expected) observed (rc_outcome receipt)"
    and blob: "read_object (co_env L) d (pu_receipt row) Blob = Inr (co_receipt L receipt)"
    using assms(5) unfolding receipt_ok_def by (elim exE conjE) (rule that)
  have k: "keeps_objects d d'" using assms(2) by (simp add: grown_def)
  obtain more where more: "layer_rows (pu_layer row) d' = layer_rows (pu_layer row) d @ more" using layer_rows_grown [OF assms(2)] by blast
  obtain rows where rows: "db_publications d' = db_publications d @ rows"
      "\<forall>r \<in> set rows. pu_outcome r = 1 \<longrightarrow> pu_result r = Some (int (length w)) \<and> \<not> published (pu_layer r) d"
    using assms(3) unfolding keeps_publications_def by blast
  obtain as where as: "db_attempts d' = db_attempts d @ as" "\<forall>r \<in> set as. ar_id r \<notin> pu_id ` set (db_publications d)"
    using assms(3) unfolding keeps_publications_def by blast
  have attempt: "attempt_exists (pu_id row) d' = attempt_exists (pu_id row) d" 
  proof -
    have "pu_id row \<in> pu_id ` set (db_publications d)" using assms(4) by simp
    then have "pu_id row \<notin> ar_id ` set as" using as(2) by (metis imageE)
    then show ?thesis by (auto simp: attempt_exists_def as(1))
  qed
  have "observed_ok d' row m observed"
  proof (cases "pu_observed_publication row")
    case None
    then show ?thesis using o(3,4) identity_grown [OF assms(2)] by (simp add: observed_ok_def more nth_append)
  next
    case (Some i)
    then show ?thesis using o(4) success_state_grown [OF assms(2)] rows(1) unfolding observed_ok_def by force
  qed
  moreover have "heeds_terminal d' row" using t(1) rows a(1,2) by (auto simp: heeds_terminal_def)
  moreover have "outcome_bound L d' w' row m a node (observed = Active ?expected) observed (rc_outcome receipt)"
  proof (cases "rc_outcome receipt")
    case (PublishedAs v)
    note q = out [unfolded outcome_bound_def PublishedAs publication_outcome.case]
    have sa: "Suc a < length w" using q by blast
    have "published (pu_layer row) d" using assms(4) q by (auto simp: published_def)
    then have "layer_rows (pu_layer row) d' = layer_rows (pu_layer row) d" using assms(3) by (simp add: keeps_publications_def)
    moreover have "Suc a < length w'" "w' ! Suc a = w ! Suc a" using grown_map [OF assms(2) sa] by simp_all
    moreover have "rederives (co_env L) d' (vr_tree (db_versions d' ! a)) (lc_changes node) (wv_tree v)"
      unfolding tree_of_grown [OF assms(2) a(2)] by (rule rederives_keeps [OF _ k]) (use q in blast)
    ultimately show ?thesis
      using q attempt version_of_grown [OF assms(2) sa] conflicting_grown [OF assms(2) a(2) node(2)]
      by (simp only: outcome_bound_def PublishedAs publication_outcome.case) blast
  next
    case (PublishConflict found)
    then show ?thesis using out attempt conflicting_grown [OF assms(2) a(2) node(2)] by (simp add: outcome_bound_def)
  next
    case (PublishStale state)
    then show ?thesis using out attempt by (simp add: outcome_bound_def)
  qed
  moreover have "a < length w'" using grown_map [OF assms(2) a(2)] by simp
  moreover have "m < length (layer_rows (pu_layer row) d')" using o(3) by (simp add: more)
  ultimately show ?thesis
    unfolding receipt_ok_def
    using head_at_grown [OF assms(2) h(1)] h(2-4) a(1,3) version_of_grown [OF assms(2) a(2)] checkpoint_node_grown [OF assms(1,2) node(1)] node(2)
      at(1) warnings_grown [OF k at(2)] o(1,2) t(2) read_object_keeps [OF k blob]
    by (intro exI [of _ n] exI [of _ a] exI [of _ m] exI [of _ node] exI [of _ observed]) simp
qed

section \<open>New receipts\<close>

definition one_success :: "db \<Rightarrow> bool" where
  "one_success d \<longleftrightarrow> (\<forall>a \<in> set (db_publications d). \<forall>b \<in> set (db_publications d).
     pu_outcome a = 1 \<longrightarrow> pu_outcome b = 1 \<longrightarrow> pu_layer a = pu_layer b \<longrightarrow> a = b)"

definition receipts_ok :: "codecs \<Rightarrow> db \<Rightarrow> world_log \<Rightarrow> bool" where
  "receipts_ok L d w \<longleftrightarrow> distinct (map pu_id (db_publications d)) \<and> one_success d
     \<and> (\<forall>row \<in> set (db_publications d). \<exists>receipt. receipt_ok L d w row receipt)"

lemma receipt_success:
  assumes "receipt_ok L d w row receipt" "pu_outcome row = 1"
  shows "\<exists>a. pu_result row = Some (int (Suc a)) \<and> Suc a < length w"
proof -
  obtain a m node observed where "outcome_bound L d w row m a node (observed = Active (rc_expected receipt)) observed (rc_outcome receipt)"
    using assms(1) unfolding receipt_ok_def by blast
  then show ?thesis using assms(2) by (intro exI [of _ a]) (cases "rc_outcome receipt", auto simp: outcome_bound_def)
qed

lemma receipt_head:
  assumes "layers_ok L d w" "receipt_ok L d w row receipt"
  shows "\<exists>n. version_decode (pu_expected row) = Inr (num n) \<and> pu_expected row = int n \<and> n < 2 ^ 63
    \<and> layer_head_in (pu_layer row) (num n) d = Inr (rc_expected receipt) \<and> head_at d (rc_expected receipt) n \<and> lh_layer (rc_expected receipt) = pu_layer row"
proof -
  obtain n where n: "head_at d (rc_expected receipt) n" "lh_layer (rc_expected receipt) = pu_layer row" "pu_expected row = int n"
    using assms(2) unfolding receipt_ok_def by blast
  have "history_ok L d (layer_rows (pu_layer row) d)" using assms(1) by (simp add: layers_ok_def)
  then have "n < 2 ^ 63" using n(1,2) by (simp add: history_ok_def head_at_def)
  then show ?thesis using n layer_head_at [OF assms(1) n(1,2)] by (intro exI [of _ n]) simp
qed

text \<open>The state of a Layer that a new receipt observes.\<close>

lemma state_observed:
  assumes "layers_ok L d w" "receipts_ok L d w" "layer_state_in L layer d = Inr state"
    "pu_layer row = layer" "pu_observed row = version_sql (state_revision state)" "pu_id row \<notin> pu_id ` set (db_publications d)"
    "pu_observed_publication row = (case state of Published _ by _ \<Rightarrow> Some by | _ \<Rightarrow> None)" "pu_against row = int h" "length w = Suc h"
  shows "\<exists>m. pu_observed row = int m \<and> m < length (layer_rows layer d) \<and> observed_ok d row m state
    \<and> (\<forall>head. state = Active head \<longrightarrow> Suc m = length (layer_rows layer d))" "heeds_terminal d row"
proof -
  let ?rs = "layer_rows layer d" let ?good = "\<lambda>r. pu_layer r = layer \<and> pu_outcome r = 1"
  have h: "history_ok L d ?rs" using assms(1) by (simp add: layers_ok_def)
  then have len: "length ?rs \<le> 2 ^ 63" by (simp add: history_ok_def)
  have "(\<exists>m. pu_observed row = int m \<and> m < length ?rs \<and> observed_ok d row m state
      \<and> (\<forall>head. state = Active head \<longrightarrow> Suc m = length ?rs)) \<and> heeds_terminal d row"
  proof (cases "published layer d")
    case False
    then have "latest_event_state_in layer d = Inr state"
      using assms(3) published_rows [of layer d] by (simp add: layer_state_in_def published_state_in_def)
    moreover from this have ne: "?rs \<noteq> []" using latest_in_spec [OF h] by (auto simp: latest_event_state_in_def)
    ultimately obtain identity where i: "identity_in d = Inr identity" "state = event_state identity (event_of (last ?rs))"
      using latest_state [OF assms(1) ne] by auto
    have l: "last ?rs = ?rs ! (length ?rs - 1)" using ne by (simp add: last_conv_nth)
    then have "hr_revision (last ?rs) = int (length ?rs - 1)" using h ne by (simp add: history_ok_def)
    then have "state_revision state = num (length ?rs - 1)" "pu_observed_publication row = None"
      using i(2) assms(7) by (auto simp: state_revision_def event_state_def event_of_def num_def)
    moreover have "length ?rs - 1 < 2 ^ 63" using len ne by (cases ?rs) auto
    ultimately have "pu_observed row = int (length ?rs - 1)" "observed_ok d row (length ?rs - 1) state"
      using assms(4,5) i l by (simp_all add: observed_ok_def)
    moreover have "heeds_terminal d row" using False assms(4) by (auto simp: heeds_terminal_def published_def)
    ultimately show ?thesis using ne by (intro conjI exI [of _ "length ?rs - 1"]) auto
  next
    case True
    then obtain r rest where r: "rows_in ?good d = r # rest" using published_rows [of layer d] by (cases "rows_in ?good d") auto
    then have "r \<in> set (rows_in ?good d)" by simp
    then have mem: "r \<in> set (db_publications d)" "pu_layer r = layer" "pu_outcome r = 1" by (simp_all add: rows_in_set)
    obtain receipt where rc: "receipt_ok L d w r receipt" using assms(2) mem(1) unfolding receipts_ok_def by blast
    have s: "success_state r d = Inr state" using assms(3) r by (auto simp: layer_state_in_def published_state_in_def result_simps)
    from receipt_head [OF assms(1) rc] obtain n where
      n: "version_decode (pu_expected r) = Inr (num n)" "pu_expected r = int n" "n < 2 ^ 63"
        "layer_head_in layer (num n) d = Inr (rc_expected receipt)" "head_at d (rc_expected receipt) n" "lh_layer (rc_expected receipt) = layer"
      using mem(2) by auto
    then obtain version where state: "state = Published (rc_expected receipt) (pu_id r) version"
      using s by (auto simp: success_state_def result_simps mem(2) split: if_splits)
    have obs: "pu_observed row = int n" "pu_observed_publication row = Some (pu_id r)"
      using assms(5,7) n(3,5) by (simp_all add: state state_revision_def head_at_def)
    obtain a where a: "pu_result r = Some (int (Suc a))" "Suc a < length w" using receipt_success [OF rc mem(3)] by blast
    then have res: "\<exists>k. pu_result r = Some k \<and> k \<le> pu_against row" using assms(8,9) by simp
    have "pu_id r \<noteq> pu_id row" using assms(6) mem(1) by (auto simp: image_iff)
    then have "observed_ok d row n state" using obs mem(1,2) n(2) assms(4) s res unfolding observed_ok_def by auto
    moreover have "heeds_terminal d row"
      using assms(2,4) mem obs(2) unfolding heeds_terminal_def receipts_ok_def one_success_def by fastforce
    moreover have "n < length ?rs" using n(5,6) by (simp add: head_at_def)
    ultimately show ?thesis using obs(1) by (auto simp: state)
  qed
  then show "\<exists>m. pu_observed row = int m \<and> m < length ?rs \<and> observed_ok d row m state
      \<and> (\<forall>head. state = Active head \<longrightarrow> Suc m = length ?rs)" "heeds_terminal d row" by blast+
qed

lemma stored_attribution_of:
  assumes "\<forall>i. attribution \<noteq> ByAgent (Some i) True"
  shows "stored_attribution (publication_of operation expected attribution against state outcome blob) = Inr attribution"
  using assms
  by (cases attribution) (auto simp: stored_attribution_def publication_of_def attribution_columns_def Let_def)

text \<open>A new receipt is bound by its row.\<close>

lemma issued_ok:
  fixes L d w operation expected attribution state blob receipt
  defines "row \<equiv> publication_of operation expected attribution (version_of d (head_number w)) state (rc_outcome receipt) blob"
  assumes "codecs_ok L" "layers_ok L d w" "receipts_ok L d w" "issued L d w operation expected attribution state blob receipt d' w'"
    "grown (co_env L) d w d' w'"
  shows "receipt_ok L d' w' row receipt" "db_publications d' = db_publications d @ [row]" "keeps_publications d w d'"
    "pu_id row \<notin> pu_id ` set (db_publications d)" "pu_outcome row = 1 \<longrightarrow> \<not> published (pu_layer row) d"
proof -
  let ?E = "co_env L" let ?h = "head_number w" let ?layer = "lh_layer expected"
  have rp: "repo_ok ?E d w" and rp': "repo_ok ?E d' w'" using assms(6) by (simp_all add: grown_def)
  have h: "?h < length w" "length w = Suc ?h" using repo_versions(1) [OF rp] by (simp_all add: head_number_def)
  then have hb: "?h < 2 ^ 63" using repo_versions(5) [OF rp] by blast
  note i = assms(5) [unfolded issued_def, folded row_def]
  have st: "layer_state_in L ?layer d = Inr state" and vh: "verify_head expected d = Inr ()"
    and ws: "warnings_in L attribution d = Inr (rc_warnings receipt)" and at: "\<forall>i. attribution \<noteq> ByAgent (Some i) True"
    and rc: "receipt = \<lparr>rc_operation = operation, rc_expected = expected, rc_attribution = attribution, rc_against = version_of d ?h,
          rc_warnings = rc_warnings receipt, rc_outcome = rc_outcome receipt\<rparr>"
    and rd: "receipted L d row receipt d'" and pb: "publishes L d w operation expected (rc_outcome receipt) d' w'"
    and fresh: "operation \<notin> ar_id ` set (db_attempts d)"
    and tables: "if \<exists>v. rc_outcome receipt = PublishedAs v then db_attempts d' = db_attempts d @ [publish_attempt operation ?h]
      else db_attempts d' = db_attempts d" using i by (auto split: if_splits)
  have fields: "rc_operation receipt = operation" "rc_expected receipt = expected" "rc_attribution receipt = attribution"
    "rc_against receipt = version_of d ?h"
    using arg_cong [OF rc, of rc_operation] arg_cong [OF rc, of rc_expected] arg_cong [OF rc, of rc_attribution] arg_cong [OF rc, of rc_against] by simp_all
  note r = rd [unfolded receipted_def]
  have row: "pu_id row = operation" "pu_layer row = ?layer" "pu_checkpoint row = lh_checkpoint expected"
    "pu_expected row = version_sql (lh_revision expected)" "pu_against row = int ?h" "pu_observed row = version_sql (state_revision state)"
    "pu_observed_publication row = (case state of Published _ by _ \<Rightarrow> Some by | _ \<Rightarrow> None)"
    using hb by (simp_all add: row_def publication_of_def Let_def split: prod.split)
  show new: "db_publications d' = db_publications d @ [row]" and id: "pu_id row \<notin> pu_id ` set (db_publications d)"
    and np: "pu_outcome row = 1 \<longrightarrow> \<not> published (pu_layer row) d" using r by simp_all
  have heads: "layer_rows l d' = layer_rows l d" for l using r by (simp add: layer_rows_def)
  have k: "keeps_objects d d'" using assms(6) by (simp add: grown_def)
  have hist: "history_ok L d (layer_rows ?layer d)" using assms(3) by (simp add: layers_ok_def)
  from verify_head_iff [OF this] vh obtain n where n: "head_at d expected n" by blast
  have "length (layer_rows ?layer d) \<le> 2 ^ 63" using hist by (simp add: history_ok_def)
  then have exp: "pu_expected row = int n" using n by (simp add: row(4) head_at_def)
  note so = state_observed [OF assms(3,4) st row(2,6) id row(7,5) h(2)]
  then obtain m where m: "pu_observed row = int m" "m < length (layer_rows ?layer d)" "observed_ok d row m state"
      "\<forall>head. state = Active head \<longrightarrow> Suc m = length (layer_rows ?layer d)" by blast
  have nm: "n \<le> m" using r m(1) exp by (simp add: publication_checks_def)
  have obs: "observed_ok d' row m state"
    using m(3) success_state_grown [OF assms(6)] identity_grown [OF assms(6)] unfolding observed_ok_def heads new by (auto split: option.splits)
  have len: "length w < 2 ^ 63" if "w' = w @ [x]" for x using repo_versions(2) [OF rp'] that by simp
  have against: "heeds_terminal d' row"
    using so(2) len pb by (auto simp: heeds_terminal_def new publishes_def row Let_def row_def publication_of_def h(2)
      split: publication_outcome.splits prod.splits)
  have node: "\<exists>node. checkpoint_node L d (lh_checkpoint expected) = Inr node"
  proof -
    have "layer_rows ?layer d ! n \<in> set (layer_rows ?layer d)" using n by (simp add: head_at_def)
    then show ?thesis using hist n unfolding history_ok_def based_def head_at_def by metis
  qed
  then obtain node where node: "checkpoint_node L d (lh_checkpoint expected) = Inr node" by blast
  have base: "unat (lb_version (lc_base node)) \<le> ?h" using checkpoint_leads(1) [OF assms(2,3) node] h(2) by simp
  have conf: "conflicting w' ?h node = conflicting w ?h node" by (rule conflicting_grown [OF assms(6) h(1) base])
  have tree: "db_versions d' ! ?h = db_versions d ! ?h" by (rule tree_of_grown [OF assms(6) h(1)])
  have "outcome_bound L d' w' row m ?h node (state = Active expected) state (rc_outcome receipt)"
  proof (cases "rc_outcome receipt")
    case (PublishedAs v)
    then have p: "state = Active expected" "conflicting w ?h node = {}" "w' = w @ [(upd (fst (w ! ?h)) (lc_changes node), lc_changes node)]"
        "v = version_of d' (length w)" "wv_operation v = Some operation"
        "rederives (co_env L) d' (vr_tree (db_versions d ! ?h)) (lc_changes node) (wv_tree v)"
      using pb st node by (auto simp: publishes_def Let_def)
    have "version_sql (num (length w)) = int (length w)" using len [OF p(3)] by simp
    then have "pu_result row = Some (int (length w))" "pu_world_operation row = Some operation" "pu_outcome row = 1"
      by (simp_all add: row_def publication_of_def Let_def PublishedAs p(4) split: prod.split)
    moreover have "attempt_exists operation d'" using tables PublishedAs by (simp add: attempt_exists_def publish_attempt_def)
    ultimately show ?thesis using p m(4) h(2) conf tree
      by (auto simp: outcome_bound_def PublishedAs row(1,2,7) heads nth_append)
  next
    case (PublishConflict found)
    then have p: "state = Active expected" "oset_ok found" "found \<noteq> []" "set found = conflicting w ?h node"
      using pb st node by (auto simp: publishes_def Let_def)
    have "\<not> attempt_exists operation d'" using tables fresh PublishConflict by (auto simp: attempt_exists_def)
    then show ?thesis using p conf
      by (simp add: outcome_bound_def PublishConflict row(1)) (simp add: row_def publication_of_def Let_def PublishConflict split: prod.split)
  next
    case (PublishStale s)
    then have p: "state = s" "state \<noteq> Active expected" using pb st by (auto simp: publishes_def Let_def)
    have "\<not> attempt_exists operation d'" using tables fresh PublishStale by (auto simp: attempt_exists_def)
    then show ?thesis using p
      by (simp add: outcome_bound_def PublishStale row(1)) (simp add: row_def publication_of_def Let_def PublishStale split: prod.split)
  qed
  moreover have "?h < length w'" using grown_map [OF assms(6) h(1)] by simp
  moreover have "stored_attribution row = Inr attribution" unfolding row_def by (rule stored_attribution_of [OF at])
  ultimately show "receipt_ok L d' w' row receipt"
    unfolding receipt_ok_def fields heads row(2)
    using head_at_grown [OF assms(6) n] exp row(1,3,5) version_of_grown [OF assms(6) h(1)] checkpoint_node_grown [OF assms(2,6) node] base
      warnings_grown [OF k ws] m(1,2) nm obs against r
    by (intro exI [of _ n] exI [of _ ?h] exI [of _ m] exI [of _ node] exI [of _ state]) simp
  have "pu_outcome row = 1 \<longrightarrow> pu_result row = Some (int (length w))"
    using len pb by (auto simp: publishes_def Let_def row_def publication_of_def split: publication_outcome.splits prod.splits)
  moreover have "\<exists>more. db_attempts d' = db_attempts d @ more \<and> (\<forall>r \<in> set more. ar_id r \<notin> pu_id ` set (db_publications d))"
    using tables id row(1) by (auto simp: publish_attempt_def split: if_splits)
  moreover have "distinct (map pu_id (db_publications d'))" using assms(4) id by (simp add: receipts_ok_def new)
  ultimately show "keeps_publications d w d'" unfolding keeps_publications_def heads using np by (auto simp: new)
qed

end
