(* ===== verification/Projects.thy ===== *)
theory Projects
  imports Receipting LayerCalls
begin

text \<open>
  The whole repository: its World, Layers, index, receipts and blame hold together, and every step that the code offers, an
  operation on a Layer, a received tree, a received version or a round of a publication, keeps them so.
\<close>

section \<open>Advancing the World\<close>

text \<open>A received version touches the tables of the World alone.\<close>

definition world_frame :: "db \<Rightarrow> db \<Rightarrow> bool" where
  "world_frame d d' \<longleftrightarrow> (\<exists>os as vs cs. d' = d\<lparr>db_objects := db_objects d @ os, db_attempts := db_attempts d @ as,
       db_versions := db_versions d @ vs, db_changes := db_changes d @ cs\<rparr> \<and> (\<forall>r \<in> set os. or_kind r = kind_sql Tree))"

lemma world_frame_refl [simp]: "world_frame d d"
  unfolding world_frame_def by (intro exI [of _ "[]"]) simp

lemma world_frame_trans [trans]: "world_frame a b \<Longrightarrow> world_frame b c \<Longrightarrow> world_frame a c"
proof -
  assume "world_frame a b" "world_frame b c"
  then obtain o1 a1 v1 c1 o2 a2 v2 c2 where
    b: "b = a\<lparr>db_objects := db_objects a @ o1, db_attempts := db_attempts a @ a1,
       db_versions := db_versions a @ v1, db_changes := db_changes a @ c1\<rparr>" "\<forall>r \<in> set o1. or_kind r = kind_sql Tree"
    and c: "c = b\<lparr>db_objects := db_objects b @ o2, db_attempts := db_attempts b @ a2,
       db_versions := db_versions b @ v2, db_changes := db_changes b @ c2\<rparr>" "\<forall>r \<in> set o2. or_kind r = kind_sql Tree"
    unfolding world_frame_def by blast
  then show ?thesis unfolding world_frame_def
    by (intro exI [of _ "o1 @ o2"] exI [of _ "a1 @ a2"] exI [of _ "v1 @ v2"] exI [of _ "c1 @ c2"]) auto
qed

lemma world_frame_trees:
  assumes "adds_objects d d'" "db_objects d' = db_objects d @ os" "\<forall>r \<in> set os. or_kind r = kind_sql Tree"
  shows "world_frame d d'"
proof -
  have "d' = d\<lparr>db_objects := db_objects d @ os\<rparr>" using assms(1,2) by (auto simp: adds_objects_def)
  then have "d' = d\<lparr>db_objects := db_objects d @ os, db_attempts := db_attempts d @ [],
       db_versions := db_versions d @ [], db_changes := db_changes d @ []\<rparr>" by simp
  then show ?thesis unfolding world_frame_def using assms(3) by blast
qed

lemma world_frame_rows:
  "world_frame d (d\<lparr>db_attempts := db_attempts d @ as\<rparr>)" "world_frame d (d\<lparr>db_versions := db_versions d @ vs\<rparr>)"
  "world_frame d (d\<lparr>db_changes := db_changes d @ cs\<rparr>)"
proof -
  show "world_frame d (d\<lparr>db_attempts := db_attempts d @ as\<rparr>)" unfolding world_frame_def
    by (rule exI [of _ "[]"], rule exI [of _ as], rule exI [of _ "[]"], rule exI [of _ "[]"]) simp
  show "world_frame d (d\<lparr>db_versions := db_versions d @ vs\<rparr>)" unfolding world_frame_def
    by (rule exI [of _ "[]"], rule exI [of _ "[]"], rule exI [of _ vs], rule exI [of _ "[]"]) simp
  show "world_frame d (d\<lparr>db_changes := db_changes d @ cs\<rparr>)" unfolding world_frame_def
    by (rule exI [of _ "[]"], rule exI [of _ "[]"], rule exI [of _ "[]"], rule exI [of _ cs]) simp
qed

lemma insert_unique_snoc: "insert_unique key row rows = Inr rows' \<Longrightarrow> rows' = rows @ [row]"
  by (auto simp: insert_unique_def split: if_splits)

lemma settle_world:
  assumes "settle_attempt E head operation expected root changes d = Inr (outcome, d')"
  shows "world_frame d d'"
proof -
  have ch: "world_frame d d'" if "tx_each (insert_change n) ch d = Inr (u, d')" for n ch u d d'
    using that
  proof (induction ch arbitrary: d)
    case (Cons c ch)
    then obtain d1 where d1: "insert_change n c d = Inr ((), d1)" "tx_each (insert_change n) ch d1 = Inr (u, d')"
      by (auto simp: tx_bind_Inr)
    have "world_frame d d1"
      using d1(1) by (auto simp: insert_change_def result_simps world_frame_rows dest!: insert_unique_snoc split: prod.splits)
    then show ?case using Cons.IH [OF d1(2)] world_frame_trans by blast
  qed (simp add: tx_ret_Inr)
  have ver: "world_frame d d'" if "insert_version row d = Inr (u, d')" for row u d d'
    using that by (auto simp: insert_version_def result_simps world_frame_rows dest!: insert_unique_snoc split: if_splits)
  have app: "world_frame d d'" if "append_version_in E head operation ch root d = Inr (v, d')" for ch v d d'
    using that ver ch world_frame_trans unfolding append_version_in_def by (auto simp: tx_result Let_def) blast
  have att: "world_frame d d'" if "insert_attempt row d = Inr (u, d')" for row u d d'
    using that by (auto simp: insert_attempt_def result_simps world_frame_rows dest!: insert_unique_snoc)
  have hc: "d' = d" if "head_changes E head root changes d = Inr (c, d')" for c d d'
    using that by (auto simp: head_changes_def tx_result split: option.splits)
  show ?thesis
    using assms att app hc world_frame_trans unfolding settle_attempt_def Let_def
    by (auto simp: tx_bind_Inr tx_read_Inr tx_ret_Inr split: if_splits) blast+
qed

lemma sql_write_world:
  assumes "objects_ok E d" "steady (en_sha E) m" "sql_write E m d = Inr (x, d')"
  shows "world_frame d d'"
proof -
  obtain s where "adds_objects d d'" by (rule sql_write_Inr [OF assms])
  moreover obtain s :: memory_store where "tx_each (\<lambda>(_, bytes). tx_bind (insert_object E Tree bytes) (\<lambda>_. tx_ret ())) (ms_saved s) d = Inr ((), d')"
    using assms(3) unfolding sql_write_def by (auto simp: tx_result split: prod.splits sum.splits)
  from stored_trees [OF this] obtain os where "db_objects d' = db_objects d @ os" "\<forall>r \<in> set os. or_kind r = kind_sql Tree" by blast
  ultimately show ?thesis by (rule world_frame_trees)
qed

lemma advance_frame:
  assumes "objects_ok E d" "advance_to_tree E operation expected root d = Inr (outcome, d')"
  shows "world_frame d d'" "operation \<notin> pu_id ` set (db_publications d)"
proof -
  have a: "advance_in E operation expected root True d = Inr (outcome, d')" using assms(2) by (auto simp: advance_to_tree_def tx_result)
  then show "operation \<notin> pu_id ` set (db_publications d)"
    by (auto simp: advance_in_def tx_result operation_exists_in_def split: if_splits)
  have v: "world_frame d d1" if "verify_received E expected root d = Inr (ch, d1)" for ch d1
    using that sql_write_world [OF assms(1) steady_tree_apply] by (auto simp: verify_received_def tx_result split: if_splits)
  show "world_frame d d'"
    using a v settle_world world_frame_trans
    by (auto simp: advance_in_def record_attempt_def received_changes_def tx_result split: if_splits option.splits)
qed

section \<open>Blame\<close>

definition successes :: "db \<Rightarrow> publication_row list" where
  "successes d = filter (\<lambda>r. pu_outcome r = 1) (db_publications d)"

definition owners :: "codecs \<Rightarrow> db \<Rightarrow> string \<Rightarrow> (string \<times> object_id \<times> object_id option) list" where
  "owners L d layer = map (\<lambda>(path, _, origin). (path, origin)) (attributed L d (layer_rows layer d))"

definition published_changes :: "world_log \<Rightarrow> publication_row \<Rightarrow> changes" where
  "published_changes w row = snd (w ! nat (the (pu_result row)))"

definition blame_rows :: "codecs \<Rightarrow> db \<Rightarrow> world_log \<Rightarrow> publication_row \<Rightarrow> blame_row list" where
  "blame_rows L d w row = map (blame_row_of (num (nat (the (pu_result row)))) (owners L d (pu_layer row))) (map fst (published_changes w row))"

text \<open>The blame table holds, publication by publication, the attribution of each published path.\<close>

definition blame_ok :: "codecs \<Rightarrow> db \<Rightarrow> world_log \<Rightarrow> bool" where
  "blame_ok L d w \<longleftrightarrow> db_blame d = concat (map (blame_rows L d w) (successes d))
     \<and> sorted_wrt (<) (map (\<lambda>r. the (pu_result r)) (successes d))
     \<and> (\<forall>row \<in> set (successes d). \<forall>p \<in> fst ` set (published_changes w row). map_of (owners L d (pu_layer row)) p \<noteq> None)"

lemma success_row: "row \<in> set (successes d) \<Longrightarrow> published (pu_layer row) d \<and> row \<in> set (db_publications d) \<and> pu_outcome row = 1"
  by (auto simp: successes_def published_def)

lemma success_result:
  assumes "receipts_ok L d w" "row \<in> set (successes d)"
  shows "\<exists>a. pu_result row = Some (int (Suc a)) \<and> Suc a < length w"
  using assms receipt_success success_row unfolding receipts_ok_def by blast

lemma owners_grown:
  assumes "codecs_ok L" "layers_ok L d w" "grown (co_env L) d w d' w'" "layer_rows layer d' = layer_rows layer d"
  shows "owners L d' layer = owners L d layer"
  using attributed_grown [OF assms(1,3)] assms(2,4) by (simp add: owners_def layers_ok_def)

lemma blame_row_grown:
  assumes "codecs_ok L" "layers_ok L d w" "grown (co_env L) d w d' w'" "receipts_ok L d w" "row \<in> set (successes d)"
    "\<forall>l. published l d \<longrightarrow> layer_rows l d' = layer_rows l d"
  shows "blame_rows L d' w' row = blame_rows L d w row" "published_changes w' row = published_changes w row"
    "owners L d' (pu_layer row) = owners L d (pu_layer row)"
proof -
  obtain a where a: "pu_result row = Some (int (Suc a))" "Suc a < length w" using success_result [OF assms(4,5)] by blast
  then show c: "published_changes w' row = published_changes w row" using grown_map [OF assms(3) a(2)] by (simp add: published_changes_def del: of_nat_Suc)
  show o: "owners L d' (pu_layer row) = owners L d (pu_layer row)"
    by (rule owners_grown [OF assms(1-3)]) (use assms(5,6) success_row in blast)
  show "blame_rows L d' w' row = blame_rows L d w row" by (simp add: blame_rows_def c o)
qed

lemma blame_ok_frozen:
  assumes "codecs_ok L" "layers_ok L d w" "grown (co_env L) d w d' w'" "receipts_ok L d w" "blame_ok L d w"
    "\<forall>l. published l d \<longrightarrow> layer_rows l d' = layer_rows l d" "successes d' = successes d" "db_blame d' = db_blame d"
  shows "blame_ok L d' w'"
proof -
  note g = blame_row_grown [OF assms(1-4) _ assms(6)]
  have "map (blame_rows L d' w') (successes d) = map (blame_rows L d w) (successes d)" by (rule map_cong) (simp_all add: g(1))
  then have "concat (map (blame_rows L d' w') (successes d)) = concat (map (blame_rows L d w) (successes d))" by (rule arg_cong)
  then show ?thesis using assms(5) g(2,3) by (simp add: blame_ok_def assms(7,8))
qed

lemma blame_ok_published:
  assumes "codecs_ok L" "layers_ok L d w" "grown (co_env L) d w d' w'" "receipts_ok L d w" "blame_ok L d w"
    "\<forall>l. layer_rows l d' = layer_rows l d" "successes d' = successes d @ [row]" "pu_result row = Some (int (length w))"
    "w' = w @ [(g, ch)]" "db_blame d' = db_blame d @ map (blame_row_of (num (length w)) (owners L d (pu_layer row))) (map fst ch)"
    "\<forall>p \<in> fst ` set ch. map_of (owners L d (pu_layer row)) p \<noteq> None"
  shows "blame_ok L d' w'"
proof -
  note g = blame_row_grown [OF assms(1-4)]
  have old: "map (blame_rows L d' w') (successes d) = map (blame_rows L d w) (successes d)"
    by (rule map_cong) (simp_all add: g(1) assms(6))
  have own: "owners L d' (pu_layer row) = owners L d (pu_layer row)" by (rule owners_grown [OF assms(1-3)]) (simp add: assms(6))
  have c: "published_changes w' row = ch" by (simp add: published_changes_def assms(8,9))
  have "blame_rows L d' w' row = map (blame_row_of (num (length w)) (owners L d (pu_layer row))) (map fst ch)"
    by (simp add: blame_rows_def own c assms(8))
  then have "db_blame d' = concat (map (blame_rows L d' w') (successes d'))"
    using assms(5) by (simp add: blame_ok_def assms(7,10) old del: map_map)
  moreover have "the (pu_result r) < the (pu_result row)" if "r \<in> set (successes d)" for r
    using success_result [OF assms(4) that] assms(8) by auto
  moreover have "sorted_wrt (<) (map (\<lambda>r. the (pu_result r)) (successes d))" using assms(5) by (simp add: blame_ok_def)
  moreover have "map_of (owners L d' (pu_layer r)) p \<noteq> None" if "r \<in> set (successes d')" "p \<in> fst ` set (published_changes w' r)" for r p
  proof (cases "r \<in> set (successes d)")
    case True
    then have "p \<in> fst ` set (published_changes w r)" using that(2) g(2) [OF True] assms(6) by simp
    then show ?thesis using assms(5) True g(3) [OF True] assms(6) unfolding blame_ok_def by auto
  next
    case False
    then have "r = row" using that(1) by (simp add: assms(7))
    then show ?thesis using that(2) assms(11) unfolding \<open>r = row\<close> c own by blast
  qed
  ultimately show ?thesis unfolding blame_ok_def by (simp add: assms(7) sorted_wrt_append)
qed

section \<open>The invariant\<close>

definition project_ok :: "codecs \<Rightarrow> db \<Rightarrow> world_log \<Rightarrow> bool" where
  "project_ok L d w \<longleftrightarrow> layers_ok L d w \<and> index_ok L d \<and> receipts_ok L d w \<and> checked (co_env L) d w \<and> blame_ok L d w"

text \<open>What a later state keeps of an earlier one.\<close>

definition follows_on :: "codecs \<Rightarrow> db \<Rightarrow> world_log \<Rightarrow> db \<Rightarrow> world_log \<Rightarrow> bool" where
  "follows_on L d w d' w' \<longleftrightarrow> grown (co_env L) d w d' w'
     \<and> (\<forall>layer. published layer d \<longrightarrow> layer_rows layer d' = layer_rows layer d)
     \<and> (\<exists>rows. db_publications d' = db_publications d @ rows)
     \<and> (\<forall>row \<in> set (db_publications d). \<forall>receipt. receipt_ok L d w row receipt \<longrightarrow> receipt_ok L d' w' row receipt)"

lemma follows_on_refl: "project_ok L d w \<Longrightarrow> follows_on L d w d w"
  by (simp add: follows_on_def project_ok_def layers_ok_def grown_refl)

lemma published_append: "db_publications d' = db_publications d @ rows \<Longrightarrow> published l d \<Longrightarrow> published l d'"
  by (auto simp: published_def)

lemma follows_on_trans: "follows_on L a u b v \<Longrightarrow> follows_on L b v c w \<Longrightarrow> follows_on L a u c w"
  unfolding follows_on_def
proof (elim conjE exE, intro conjI allI impI ballI)
  fix rows rows'
  assume a: "grown (co_env L) a u b v" "\<forall>layer. published layer a \<longrightarrow> layer_rows layer b = layer_rows layer a" "db_publications b = db_publications a @ rows"
      "\<forall>row \<in> set (db_publications a). \<forall>receipt. receipt_ok L a u row receipt \<longrightarrow> receipt_ok L b v row receipt"
    and b: "grown (co_env L) b v c w" "\<forall>layer. published layer b \<longrightarrow> layer_rows layer c = layer_rows layer b" "db_publications c = db_publications b @ rows'"
      "\<forall>row \<in> set (db_publications b). \<forall>receipt. receipt_ok L b v row receipt \<longrightarrow> receipt_ok L c w row receipt"
  show "grown (co_env L) a u c w" by (rule grown_trans [OF a(1) b(1)])
  show "layer_rows layer c = layer_rows layer a" if "published layer a" for layer
    using that a(2) b(2) published_append [OF a(3)] by simp
  show "\<exists>rows. db_publications c = db_publications a @ rows" by (simp add: a(3) b(3))
  show "receipt_ok L c w row receipt" if "row \<in> set (db_publications a)" "receipt_ok L a u row receipt" for row receipt
    using that a(3,4) b(4) by simp
qed

lemma published_settled:
  assumes "receipts_ok L d w" "published layer d"
  shows "layer_rows layer d \<noteq> []"
proof -
  obtain row where row: "row \<in> set (db_publications d)" "pu_layer row = layer" using assms(2) by (auto simp: published_def)
  then obtain receipt where "receipt_ok L d w row receipt" using assms(1) unfolding receipts_ok_def by blast
  then obtain m where "m < length (layer_rows (pu_layer row) d)" unfolding receipt_ok_def by blast
  then show ?thesis using row(2) by auto
qed

text \<open>A step that adds no publication.\<close>

lemma project_kept:
  assumes "codecs_ok L" "project_ok L d w" "layers_ok L d' w'" "index_ok L d'" "grown (co_env L) d w d' w'" "checked (co_env L) d' w'"
    "\<forall>l. published l d \<longrightarrow> layer_rows l d' = layer_rows l d" "db_publications d' = db_publications d" "db_blame d' = db_blame d"
    "db_attempts d' = db_attempts d @ as" "\<forall>r \<in> set as. ar_id r \<notin> pu_id ` set (db_publications d)"
  shows "project_ok L d' w' \<and> follows_on L d w d' w'"
proof -
  have p: "layers_ok L d w" "receipts_ok L d w" "blame_ok L d w" using assms(2) by (simp_all add: project_ok_def)
  have "keeps_publications d w d'" unfolding keeps_publications_def using p(2) assms(7,8,10,11) by (simp add: receipts_ok_def)
  note r = receipt_ok_grown [OF assms(1,5) this]
  have "receipts_ok L d' w'" using p(2) r unfolding receipts_ok_def one_success_def by (simp add: assms(8)) blast
  moreover have "successes d' = successes d" by (simp add: successes_def assms(8))
  then have "blame_ok L d' w'" using blame_ok_frozen [OF assms(1) p(1) assms(5) p(2,3) assms(7)] assms(9) by blast
  ultimately show ?thesis using assms r by (simp add: project_ok_def follows_on_def)
qed

text \<open>A new receipt.\<close>

lemma index_owners:
  assumes "index_ok L d" "live layer d" "attributed_in layer d = Inr tracked"
  shows "tracked = owners L d layer"
  using assms(3) index_tracked [OF assms(1), of layer] assms(2) by (simp add: attributed_in_def owners_def index_of_def)

lemma active_live:
  assumes "layers_ok L d w" "layer_state_in L layer d = Inr (Active head)"
  shows "live layer d"
proof -
  let ?rs = "layer_rows layer d"
  have p: "\<not> published layer d" "?rs \<noteq> []" using active_state [OF assms] by simp_all
  then have "latest_event_state_in layer d = Inr (Active head)"
    using assms(2) published_rows [of layer d] by (simp add: layer_state_in_def published_state_in_def)
  then have "hr_discarded (last ?rs) \<noteq> 1" using latest_state [OF assms(1) p(2)] by (auto simp: event_state_def event_of_def)
  moreover have "last ?rs \<in> set ?rs" using p(2) by simp
  then have "hr_discarded (last ?rs) = 0 \<or> hr_discarded (last ?rs) = 1"
    using assms(1) by (auto simp: layers_ok_def history_ok_def based_def)
  ultimately show ?thesis using p by (simp add: live_def)
qed

lemma project_published:
  assumes "codecs_ok L" "project_ok L d w" "issued L d w operation expected attribution state blob receipt d' w'"
    "layers_ok L d' w'" "grown (co_env L) d w d' w'" "index_ok L d'"
  defines "row \<equiv> publication_of operation expected attribution (version_of d (head_number w)) state (rc_outcome receipt) blob"
  shows "project_ok L d' w' \<and> follows_on L d w d' w' \<and> row \<in> set (db_publications d') \<and> receipt_ok L d' w' row receipt"
proof -
  let ?E = "co_env L" let ?h = "head_number w" let ?layer = "lh_layer expected"
  have p: "layers_ok L d w" "index_ok L d" "receipts_ok L d w" "checked ?E d w" "blame_ok L d w" using assms(2) by (simp_all add: project_ok_def)
  have rp: "repo_ok ?E d w" using p(1) by (simp add: layers_ok_def)
  note v = repo_versions [OF rp]
  have h: "?h < length w" "length w - 1 = ?h" using v(1) by (auto simp: head_number_def)
  note i = issued_ok [OF assms(1) p(1,3) assms(3,5), folded row_def]
  note keep = receipt_ok_grown [OF assms(1,5) i(3)]
  have heads: "layer_rows l d' = layer_rows l d" for l
    using assms(3) by (auto simp: issued_def receipted_def layer_rows_def)
  have layer: "pu_layer row = ?layer" by (simp add: row_def publication_of_simps)
  have one: "one_success d'"
    using p(3) i(5) unfolding receipts_ok_def one_success_def i(2) published_def by auto
  have "\<exists>receipt. receipt_ok L d' w' r receipt" if "r \<in> set (db_publications d')" for r
    using that p(3) keep i(1) unfolding i(2) receipts_ok_def by (auto, blast)
  then have rok: "receipts_ok L d' w'" using i(4) p(3) one unfolding receipts_ok_def by (simp add: i(2))
  have later: "checked ?E d' w"
  proof -
    have "keeps_objects d d'" using assms(5) by (simp add: grown_def)
    then show ?thesis using p(4) tree_of_grown [OF assms(5)] rederives_keeps unfolding checked_def by fastforce
  qed
  have "checked ?E d' w' \<and> blame_ok L d' w'"
  proof (cases "\<exists>v. rc_outcome receipt = PublishedAs v")
    case True
    then obtain v where out: "rc_outcome receipt = PublishedAs v" by blast
    from assms(3) True obtain tracked ch where t: "attributed_in ?layer d = Inr tracked" "w' = w @ [(upd (fst (w ! ?h)) ch, ch)]"
        "\<forall>p \<in> fst ` set ch. map_of tracked p \<noteq> None" "db_blame d' = db_blame d @ map (blame_row_of (num (length w)) tracked) (map fst ch)"
      unfolding issued_def by (simp only: if_True) blast
    obtain node :: layer_checkpoint where pub: "layer_state_in L ?layer d = Inr (Active expected)" "w' = w @ [(upd (fst (w ! ?h)) (lc_changes node), lc_changes node)]"
        "v = version_of d' (length w)" "rederives ?E d' (vr_tree (db_versions d ! ?h)) (lc_changes node) (wv_tree v)"
      using assms(3) unfolding issued_def out publishes_def Let_def publication_outcome.case by blast
    have ch: "ch = lc_changes node" using t(2) pub(2) by simp
    have own: "tracked = owners L d ?layer" by (rule index_owners [OF p(2) active_live [OF p(1) pub(1)] t(1)])
    have "length w < 2 ^ 63" using assms(5) repo_versions(2) [of ?E d' w'] by (simp add: grown_def t(2))
    then have res: "pu_result row = Some (int (length w))" "pu_outcome row = 1"
      by (simp_all add: row_def publication_of_def out pub(3) Let_def split: prod.split)
    have "checked ?E d' w'"
      using later pub(4) tree_of_grown [OF assms(5) h(1)]
      unfolding checked_def t(2) ch by (auto simp: nth_append less_Suc_eq head_number_def pub(3))
    moreover have "blame_ok L d' w'"
      by (rule blame_ok_published [OF assms(1) p(1) assms(5) p(3,5) _ _ res(1) t(2)])
        (use t(3,4) heads res(2) in \<open>simp_all add: successes_def i(2) layer own\<close>)
    ultimately show ?thesis by blast
  next
    case False
    then have w': "w' = w" "db_blame d' = db_blame d"
      using assms(3) by (auto simp: issued_def publishes_def Let_def split: publication_outcome.splits)
    have "pu_outcome row \<noteq> 1" using False by (auto simp: row_def publication_of_simps split: publication_outcome.split)
    then have "successes d' = successes d" by (simp add: successes_def i(2))
    then have "blame_ok L d' w'" by (intro blame_ok_frozen [OF assms(1) p(1) assms(5) p(3,5)]) (simp_all add: heads w')
    then show ?thesis using later w' by simp
  qed
  then show ?thesis using assms(4-6) rok keep i(1,2) heads by (simp add: project_ok_def follows_on_def)
qed

section \<open>Steps\<close>

inductive project_step :: "codecs \<Rightarrow> db \<Rightarrow> db \<Rightarrow> bool" for L where
  layer: "layer_step L d d' \<Longrightarrow> project_step L d d'"
| tree: "put_tree (co_env L) bs d = Inr (i, d') \<Longrightarrow> project_step L d d'"
| advance: "advance_to_tree (co_env L) operation expected root d = Inr (outcome, d') \<Longrightarrow>
    (\<forall>w. repo_ok (co_env L) d w \<longrightarrow> tree_fits (co_env L) d w root) \<Longrightarrow> project_step L d d'"

text \<open>The tree of the head has room for the Layer's changes.\<close>

definition has_room :: "codecs \<Rightarrow> layer_head \<Rightarrow> db \<Rightarrow> bool" where
  "has_room L expected d \<longleftrightarrow> (\<forall>w node. layers_ok L d w \<longrightarrow> checkpoint_node L d (lh_checkpoint expected) = Inr node \<longrightarrow>
     roomy (co_env L) (fst (w ! head_number w)) (lc_changes node))"

text \<open>What may have happened to a repository; a publication prepares from a snapshot, which the rest of the run may leave behind.\<close>

inductive project_run :: "codecs \<Rightarrow> db \<Rightarrow> db \<Rightarrow> bool" for L where
  start: "project_run L d d"
| step: "project_run L d d' \<Longrightarrow> project_step L d' d'' \<Longrightarrow> project_run L d d''"
| publish: "project_run L d snapshot' \<Longrightarrow> project_run L snapshot' locked \<Longrightarrow>
    publish_round L guard' operation expected attribution snapshot' locked = Inr (r, d') \<Longrightarrow> has_room L expected locked \<Longrightarrow>
    project_run L d d'"

lemma put_tree_kept:
  assumes "codecs_ok L" "layers_ok L d w" "index_ok L d" "put_tree (co_env L) bs d = Inr (i, d')"
  shows "layers_ok L d' w" "adds_objects d d'" "index_ok L d'" "leaves_publications d d'" "grown (co_env L) d w d' w"
proof -
  have "insert_object (co_env L) Tree bs d = Inr (i, d')" using assms(4) by (auto simp: put_tree_def tx_bind_Inr tx_read_Inr)
  note o = insert_other [OF assms(1,2) this, simplified]
  show "layers_ok L d' w" "adds_objects d d'" using o(1,2) by simp_all
  show "index_ok L d'" "leaves_publications d d'" using objects_indexed [OF assms(1-3) o(4,2)] by simp_all
  show "grown (co_env L) d w d' w" by (rule objects_grown [OF assms(2) o(4,2)])
qed

text \<open>A step of the Layers, or objects alone.\<close>

lemma project_left:
  assumes "codecs_ok L" "project_ok L d w" "layers_ok L d' w" "index_ok L d'" "grown (co_env L) d w d' w" "leaves_publications d d'"
  shows "project_ok L d' w \<and> follows_on L d w d' w"
proof -
  have t: "db_publications d' = db_publications d" "db_attempts d' = db_attempts d" "db_blame d' = db_blame d"
    using assms(6) framed_tables by (auto simp: leaves_publications_def)
  have "keeps_objects d d'" using assms(5) by (simp add: grown_def)
  then have "checked (co_env L) d' w"
    using assms(2) tree_of_grown [OF assms(5)] rederives_keeps unfolding checked_def project_ok_def by fastforce
  then show ?thesis
    using project_kept [OF assms(1-5) _ _ t(1,3), of "[]"] assms(6) t(2) by (simp add: leaves_publications_def)
qed

lemma advance_kept:
  assumes "codecs_ok L" "project_ok L d w" "tree_fits (co_env L) d w root" "advance_to_tree (co_env L) operation expected root d = Inr (outcome, d')"
  shows "\<exists>w'. project_ok L d' w' \<and> follows_on L d w d' w'"
proof -
  let ?E = "co_env L"
  have p: "layers_ok L d w" "index_ok L d" "checked ?E d w" using assms(2) by (simp_all add: project_ok_def)
  have rp: "repo_ok ?E d w" and env: "env_ok ?E" using p(1) assms(1) by (simp_all add: layers_ok_def codecs_ok_def)
  then have ok: "objects_ok ?E d" by (simp add: repo_ok_def)
  obtain w' where w': "repo_ok ?E d' w'" "checked ?E d' w'" "later d d'" "\<exists>more. w' = w @ more"
    using advance_checked [OF env rp p(3) assms(3,4)] by blast
  obtain os as vs cs where d': "d' = d\<lparr>db_objects := db_objects d @ os, db_attempts := db_attempts d @ as,
       db_versions := db_versions d @ vs, db_changes := db_changes d @ cs\<rparr>" and os: "\<forall>r \<in> set os. or_kind r = kind_sql Tree"
    using advance_frame(1) [OF ok assms(4)] unfolding world_frame_def by blast
  have fresh: "operation \<notin> pu_id ` set (db_publications d)" by (rule advance_frame(2) [OF ok assms(4)])
  have t: "db_heads d' = db_heads d" "db_layer_attempts d' = db_layer_attempts d" "db_stacks d' = db_stacks d" "db_paths d' = db_paths d"
    "db_publications d' = db_publications d" "db_blame d' = db_blame d" "db_identity d' = db_identity d" "db_objects d' = db_objects d @ os"
    "db_attempts d' = db_attempts d @ as" "db_versions d' = db_versions d @ vs" by (simp_all add: d')
  have as: "\<forall>r \<in> set as. ar_id r \<notin> pu_id ` set (db_publications d)"
  proof -
    obtain w'' where "attempted ?E True d w operation expected root outcome d' w''"
      using advance_to_tree_spec [OF env rp assms(3,4)] by blast
    then have "as = [] \<or> (\<exists>row. as = [row] \<and> ar_id row = operation)"
      using t(9) unfolding attempted_def recorded_def by (auto split: if_splits)
    then show ?thesis using fresh by auto
  qed
  have g: "grown ?E d w d' w'" using rp w' t by (auto simp: grown_def later_def)
  have "layers_ok L d' w'"
    by (rule layers_ok_kept [OF assms(1) p(1) g t(1,2,3,8)]) (use os kind_sql_inj [of Tree Checkpoint] in auto)
  moreover have "index_ok L d'"
    by (rule index_same [OF assms(1) p(1) g t(5,1,4) p(2)])
  ultimately show ?thesis
    using project_kept [OF assms(1,2) _ _ g w'(2) _ t(5,6,9) as] by (auto simp: layer_rows_def t(1))
qed

lemma layer_step_project:
  assumes "codecs_ok L" "project_ok L d w" "layer_step L d d'"
  shows "project_ok L d' w \<and> follows_on L d w d' w \<and> leaves_publications d d'"
proof -
  have p: "layers_ok L d w" "index_ok L d" "receipts_ok L d w" using assms(2) by (simp_all add: project_ok_def)
  note k = layer_step_kept [OF assms(1) p(1) assms(3)]
  have "index_ok L d' \<and> leaves_publications d d'"
    using layer_step_indexed [OF assms(1) p(1,2) published_settled [OF p(3)] assms(3)] .
  then show ?thesis using project_left [OF assms(1,2)] k by blast
qed

lemma project_step_kept:
  assumes "codecs_ok L" "project_ok L d w" "project_step L d d'"
  shows "\<exists>w'. project_ok L d' w' \<and> follows_on L d w d' w'"
  using assms(3)
proof cases
  case layer
  then show ?thesis using layer_step_project [OF assms(1,2)] by blast
next
  case (tree bs i)
  have p: "layers_ok L d w" "index_ok L d" using assms(2) by (simp_all add: project_ok_def)
  note k = put_tree_kept [OF assms(1) p tree]
  show ?thesis using project_left [OF assms(1,2) k(1,3,5,4)] by blast
next
  case (advance operation expected root outcome)
  have "repo_ok (co_env L) d w" using assms(2) by (simp add: project_ok_def layers_ok_def)
  then show ?thesis using advance_kept [OF assms(1,2) _ advance(1)] advance(2) by blast
qed

text \<open>A round from a snapshot that the locked state follows on.\<close>

lemma publish_round_kept:
  assumes "codecs_ok L" "project_ok L d0 w0" "project_ok L d w" "follows_on L d0 w0 d w" "has_room L expected d"
    "publish_round L guard' operation expected attribution d0 d = Inr (r, d')"
  shows "\<exists>w'. project_ok L d' w' \<and> follows_on L d w d' w'
    \<and> (d' = d \<and> w' = w \<and> (r = None \<or> (\<exists>receipt. r = Some receipt \<and> prepare_in L operation expected attribution d0 = Inr (Replay receipt)))
       \<or> (\<exists>receipt state blob. r = Some receipt \<and> issued L d w operation expected attribution state blob receipt d' w'
           \<and> row_in operation d0 = None
           \<and> (\<exists>row \<in> set (db_publications d'). pu_id row = operation \<and> receipt_ok L d' w' row receipt)))"
proof -
  have l: "layers_ok L d0 w0" "layers_ok L d w" "index_ok L d" "grown (co_env L) d0 w0 d w"
    using assms(2-4) by (simp_all add: project_ok_def follows_on_def)
  have room: "roomy (co_env L) (fst (w ! head_number w)) (lc_changes node)" if "checkpoint_node L d (lh_checkpoint expected) = Inr node" for node
    using assms(5) l(2) that by (simp add: has_room_def)
  from publish_round_spec [OF assms(1) l room assms(6)] show ?thesis
  proof
    assume "d' = d \<and> (r = None \<or> (\<exists>receipt. r = Some receipt \<and> prepare_in L operation expected attribution d0 = Inr (Replay receipt)))"
    then show ?thesis using assms(3) follows_on_refl [OF assms(3)] by blast
  next
    assume "\<exists>receipt state blob w'. r = Some receipt \<and> issued L d w operation expected attribution state blob receipt d' w'
        \<and> layers_ok L d' w' \<and> grown (co_env L) d w d' w' \<and> index_ok L d'"
    then obtain receipt state blob w' where i: "r = Some receipt" "issued L d w operation expected attribution state blob receipt d' w'"
        "layers_ok L d' w'" "grown (co_env L) d w d' w'" "index_ok L d'" by blast
    note k = project_published [OF assms(1,3) i(2-5)]
    have "pu_id (publication_of operation expected attribution (version_of d (head_number w)) state (rc_outcome receipt) blob) = operation"
      by (simp add: publication_of_simps)
    moreover have "row_in operation d0 = None"
    proof -
      have "operation \<notin> pu_id ` set (db_publications d)" using i(2) by (simp add: issued_def receipted_def publication_of_simps)
      moreover obtain rows where "db_publications d = db_publications d0 @ rows" using assms(4) unfolding follows_on_def by blast
      ultimately have "set (rows_in (\<lambda>r. pu_id r = operation) d0) = {}" by (auto simp: rows_in_set)
      then show ?thesis by (simp add: row_in_def)
    qed
    ultimately show ?thesis using k i(1,2) by blast
  qed
qed

lemma project_run_kept:
  assumes "codecs_ok L" "project_run L d d'" "project_ok L d w"
  shows "\<exists>w'. project_ok L d' w' \<and> follows_on L d w d' w'"
  using assms(2,3)
proof (induction arbitrary: w rule: project_run.induct)
  case (start d)
  then show ?case using follows_on_refl by blast
next
  case (step d d' d'')
  then obtain w' where w': "project_ok L d' w'" "follows_on L d w d' w'" by blast
  then show ?case using project_step_kept [OF assms(1) _ step(2)] follows_on_trans by blast
next
  case (publish d s l guard' operation expected attribution r d')
  then obtain u where u: "project_ok L s u" "follows_on L d w s u" by blast
  with publish obtain v where v: "project_ok L l v" "follows_on L s u l v" by blast
  from publish_round_kept [OF assms(1) u(1) v publish(4,3)] obtain w' where "project_ok L d' w'" "follows_on L l v d' w'" by blast
  then show ?case using follows_on_trans [OF follows_on_trans [OF u(2) v(2)]] by blast
qed

text \<open>A repository without Layers or publications.\<close>

lemma project_initial:
  assumes "repo_ok (co_env L) d w" "checked (co_env L) d w" "no_layers d" "db_identity d = [(1, i)]" "db_publications d = []" "db_blame d = []"
  shows "project_ok L d w"
  using no_layers_ok [OF assms(1,3,4)] no_layers_index [OF assms(3)] assms(2,5,6)
  by (simp add: project_ok_def receipts_ok_def one_success_def blame_ok_def successes_def)

end
