(* ===== verification/ProjectChecks.thy ===== *)
theory ProjectChecks
  imports Projects
begin

text \<open>
  The full check of a repository (\<open>validate_state\<close> of \<open>src/repository.rs\<close>) accepts every state that the invariant of the whole
  repository describes: its history, Layers, Stacks, receipts, index and blame.
\<close>

section \<open>Stacks and receipts\<close>

lemma check_stacks_ok:
  assumes "attempts_ok L d"
  shows "check_stacks L d = Inr ()"
proof -
  have "check_bindings L d rows = Inr ()" if "set rows \<subseteq> set (db_stacks d)" for rows
    using that
  proof (induction rows)
    case (Cons r rows)
    from binding_checked [OF assms, of r] Cons.prems obtain stored resolution where
      "read_object (co_env L) d (sr_binding r) Blob = Inr stored" "stored_binding L stored = Inr resolution"
      "check_resolution L d resolution = Inr ()" by auto
    then show ?case using Cons by simp
  qed simp
  moreover have "\<not> list_ex (\<lambda>r. sr_id r \<notin> set (map la_id (db_layer_attempts d))) (db_stacks d)"
    using assms by (auto simp: attempts_ok_def list_ex_iff)
  ultimately show ?thesis by (simp add: check_stacks_def)
qed

lemma check_receipts_ok:
  assumes "codecs_ok L" "layers_ok L d w" "receipts_ok L d w" "set rows \<subseteq> set (db_publications d)" "distinct rows"
    "\<forall>r \<in> set rows. pu_outcome r = 1 \<longrightarrow> pu_layer r \<notin> set done"
  shows "check_receipts L d done rows = Inr ()"
  using assms(4-6)
proof (induction rows arbitrary: "done")
  case (Cons row rows)
  have one: "one_success d" and ids: "distinct (map pu_id (db_publications d))" using assms(3) by (simp_all add: receipts_ok_def)
  obtain receipt where "receipt_ok L d w row receipt" using assms(3) Cons.prems(1) unfolding receipts_ok_def by auto
  from receipt_read [OF assms(1,2) ids this] have r: "receipt_in L row d = Inr receipt" .
  have "\<forall>r \<in> set rows. pu_outcome r = 1 \<longrightarrow> pu_layer r \<notin> set (if pu_outcome row = 1 then pu_layer row # done else done)"
    using Cons.prems one unfolding one_success_def by auto
  then show ?case using Cons.IH Cons.prems r by auto
qed simp

lemma check_publications_ok:
  assumes "codecs_ok L" "layers_ok L d w" "receipts_ok L d w"
  shows "check_publications L d = Inr (length (db_publications d))"
proof -
  have "distinct (rows_in (\<lambda>_. True) d)"
    using distinct_rows_in [of d "\<lambda>_. True"] assms(3) by (simp add: receipts_ok_def distinct_map)
  then have "check_receipts L d [] (rows_in (\<lambda>_. True) d) = Inr ()"
    by (intro check_receipts_ok [OF assms]) (auto simp: rows_in_set)
  moreover have "length (rows_in (\<lambda>_. True) d) = length (db_publications d)" by (simp add: rows_in_def)
  ultimately show ?thesis by (simp add: check_publications_def Let_def)
qed

section \<open>The index\<close>

text \<open>The state of a published Layer is its receipt's.\<close>

lemma published_state:
  assumes "codecs_ok L" "layers_ok L d w" "receipts_ok L d w" "published layer d"
  shows "\<exists>head row version. layer_state_in L layer d = Inr (Published head (pu_id row) version) \<and> row \<in> set (db_publications d)
    \<and> pu_layer row = layer \<and> pu_outcome row = 1"
proof -
  let ?good = "\<lambda>r. pu_layer r = layer \<and> pu_outcome r = 1"
  obtain row rest where r: "rows_in ?good d = row # rest" using assms(4) published_rows [of layer d] by (cases "rows_in ?good d") auto
  then have "row \<in> set (rows_in ?good d)" by simp
  then have row: "row \<in> set (db_publications d)" "pu_layer row = layer" "pu_outcome row = 1" by (simp_all add: rows_in_set)
  obtain receipt where rc: "receipt_ok L d w row receipt" using assms(3) row(1) unfolding receipts_ok_def by blast
  have ids: "distinct (map pu_id (db_publications d))" using assms(3) by (simp add: receipts_ok_def)
  obtain a where a: "pu_result row = Some (int (Suc a))" "Suc a < length w" using receipt_success [OF rc row(3)] by blast
  have "repo_ok (co_env L) d w" using assms(2) by (simp add: layers_ok_def)
  from world_at_spec [OF this a(2)] have "world_at (int (Suc a)) d = Inr (version_of d (Suc a))" .
  then have "success_state row d = Inr (Published (rc_expected receipt) (pu_id row) (version_of d (Suc a)))"
    using receipt_head [OF assms(2) rc] row(3) a(1) by (auto simp: success_state_def ok_or_def simp del: of_nat_Suc)
  then show ?thesis using r row receipt_read [OF assms(1,2) ids rc]
    by (auto simp: layer_state_in_def published_state_in_def)
qed

lemma derived_indexed:
  assumes "codecs_ok L" "layers_ok L d w" "receipts_ok L d w" "layer \<in> set (layer_names d)" "ancestry L d True seen"
  shows "\<exists>seen'. derived_attribution L d layer seen = Inr (index_of L d layer, seen') \<and> ancestry L d True seen'"
proof (cases "published layer d")
  case True
  then have "\<not> live layer d" by (simp add: live_def)
  then show ?thesis using published_state [OF assms(1-3) True] assms(5) by (auto simp: derived_attribution_def index_of_def)
next
  case np: False
  let ?rs = "layer_rows layer d"
  have h: "history_ok L d ?rs" and "\<exists>identity. identity_in d = Inr identity" using assms(2) by (simp_all add: layers_ok_def)
  then obtain identity where i: "identity_in d = Inr identity" by blast
  have ne: "?rs \<noteq> []" using assms(4) by (auto simp: layer_names_set layer_rows_def filter_empty_conv)
  then have l: "last ?rs \<in> set ?rs" "last ?rs = ?rs ! (length ?rs - 1)" by (simp_all add: last_conv_nth)
  then have disc: "hr_discarded (last ?rs) = 0 \<or> hr_discarded (last ?rs) = 1" "hr_revision (last ?rs) = int (length ?rs - 1)"
    using h ne unfolding history_ok_def based_def by auto
  have state: "layer_state_in L layer d = Inr (event_state identity (event_of (last ?rs)))"
    using latest_state [OF assms(2) ne] np published_rows [of layer d] i by (auto simp: layer_state_in_def published_state_in_def)
  show ?thesis
  proof (cases "hr_discarded (last ?rs) = 1")
    case True
    then have "\<not> live layer d" by (simp add: live_def)
    then show ?thesis using True state assms(5) by (simp add: derived_attribution_def event_state_def event_of_def index_of_def)
  next
    case False
    then have "live layer d" using disc(1) ne np by (simp add: live_def)
    then show ?thesis using attribution_spec [OF assms(2) ne assms(5)] state False disc(2)
      by (auto simp: derived_attribution_def event_state_def event_of_def index_of_def num_def)
  qed
qed

lemma check_index_spec:
  assumes "codecs_ok L" "layers_ok L d w" "index_ok L d" "receipts_ok L d w" "ancestry L d True seen" "set layers \<subseteq> set (layer_names d)"
  shows "\<exists>seen'. check_index L d layers n seen = Inr (n + (\<Sum>layer \<leftarrow> layers. length (index_of L d layer)), seen') \<and> ancestry L d True seen'"
  using assms(5,6)
proof (induction layers arbitrary: n seen)
  case (Cons layer layers)
  have "layer \<in> set (layer_names d)" using Cons.prems(2) by simp
  from derived_indexed [OF assms(1,2,4) this Cons.prems(1)] obtain seen1 where
    s: "derived_attribution L d layer seen = Inr (index_of L d layer, seen1)" "ancestry L d True seen1" by blast
  have "omap_ok (index_of L d layer)" using assms(3) by (simp add: index_ok_def)
  then have "\<not> list_ex (\<lambda>(path, row). map_of (index_of L d layer) path \<noteq> Some row) (index_of L d layer)"
    by (auto simp: list_ex_iff omap_ok_def strict_sorted_iff)
  moreover obtain seen2 where "check_index L d layers (n + length (index_of L d layer)) seen1 =
      Inr (n + length (index_of L d layer) + (\<Sum>layer \<leftarrow> layers. length (index_of L d layer)), seen2)" "ancestry L d True seen2"
    using Cons.IH [OF s(2), of "n + length (index_of L d layer)"] Cons.prems(2) by auto
  ultimately show ?case using s(1) index_tracked [OF assms(3)] by (simp add: add.assoc)
qed simp

lemma check_radar_spec:
  assumes "codecs_ok L" "layers_ok L d w" "index_ok L d" "receipts_ok L d w" "ancestry L d True seen"
  shows "\<exists>seen'. check_radar L d seen = Inr seen' \<and> ancestry L d True seen'"
proof -
  have "\<forall>r \<in> set (db_paths d). pr_layer r \<in> set (layer_names d)"
  proof
    fix r assume r: "r \<in> set (db_paths d)"
    then have "index_of L d (pr_layer r) \<noteq> []" using assms(3) unfolding index_ok_def tracks_def by fastforce
    then show "pr_layer r \<in> set (layer_names d)" using live_named by (auto simp: index_of_def split: if_splits)
  qed
  from sum_by_key [OF layer_names_set(2) this]
  have "(\<Sum>layer \<leftarrow> layer_names d. length (index_of L d layer)) = length (db_paths d)" by (simp add: tracked_count [OF assms(3)])
  then show ?thesis using check_index_spec [OF assms order_refl, of 0] by (auto simp: check_radar_def)
qed

section \<open>Blame\<close>

lemma find_rowI: "x \<in> set xs \<Longrightarrow> P x \<Longrightarrow> (\<And>y. y \<in> set xs \<Longrightarrow> P y \<Longrightarrow> f y = z) \<Longrightarrow> map_option f (find_row P xs) = Some z"
  by (induction xs) (auto simp: find_row_def)

text \<open>The row of a published path.\<close>

lemma blame_row_spec:
  assumes "receipts_ok L d w" "blame_ok L d w" "row \<in> set (successes d)" "pu_result row = Some (int v)" "v < 2 ^ 63"
    "p \<in> fst ` set (published_changes w row)" "repo_ok (co_env L) d w"
  shows "map_option (\<lambda>r. (br_checkpoint r, br_provenance r)) (find_row (\<lambda>r. br_version r = int v \<and> br_path r = p) (db_blame d))
    = map_of (owners L d (pu_layer row)) p"
proof -
  have b: "db_blame d = concat (map (blame_rows L d w) (successes d))" "sorted_wrt (<) (map (\<lambda>r. the (pu_result r)) (successes d))"
    and own: "map_of (owners L d (pu_layer row)) p \<noteq> None"
    using assms(2,3,6) by (auto simp: blame_ok_def)
  then obtain c pr where o: "map_of (owners L d (pu_layer row)) p = Some (c, pr)" by fastforce
  have number: "r = blame_row_of (num u) (owners L d (pu_layer row')) (br_path r) \<and> br_version r = int u"
    if "r \<in> set (blame_rows L d w row')" "row' \<in> set (successes d)" "pu_result row' = Some (int u)" for r row' u
  proof -
    have "\<exists>a. pu_result row' = Some (int (Suc a)) \<and> Suc a < length w" using success_result [OF assms(1) that(2)] by blast
    then have "u < 2 ^ 63" using that(3) repo_versions(5) [OF assms(7)] by auto
    then show ?thesis using that(1,3) by (auto simp: blame_rows_def blame_row_of_def split: prod.splits)
  qed
  let ?r = "blame_row_of (num v) (owners L d (pu_layer row)) p"
  show ?thesis unfolding o
  proof (rule find_rowI)
    show "?r \<in> set (db_blame d)" proof -
      have "?r \<in> set (blame_rows L d w row)" using assms(4,6) by (simp add: blame_rows_def image_image [symmetric] del: image_image)
      then show ?thesis using assms(3) by (auto simp: b(1))
    qed
    show "br_version ?r = int v \<and> br_path ?r = p" using assms(5) by (simp add: blame_row_of_def o)
    fix r assume "r \<in> set (db_blame d)" and at: "br_version r = int v \<and> br_path r = p"
    then obtain row' where row': "row' \<in> set (successes d)" "r \<in> set (blame_rows L d w row')" by (auto simp: b(1))
    obtain a where a: "pu_result row' = Some (int (Suc a))" using success_result [OF assms(1) row'(1)] by blast
    have n: "r = blame_row_of (num (Suc a)) (owners L d (pu_layer row')) (br_path r)" "Suc a = v"
      using number [OF row'(2,1) a] at by (simp_all del: of_nat_Suc)
    have "inj_on (\<lambda>r. the (pu_result r)) (set (successes d))" using b(2) by (simp add: strict_sorted_iff distinct_map)
    then have "row' = row" using row'(1) assms(3,4) a n(2) by (auto simp: inj_on_def)
    then show "(br_checkpoint r, br_provenance r) = (c, pr)" using n at by (metis blame_row_of_def blame_row.select_convs(3,4) case_prod_conv o option.sel)
  qed
qed

lemma published_at:
  assumes "layers_ok L d w" "receipt_ok L d w row receipt" "pu_outcome row = 1"
  shows "pu_expected row = int (length (layer_rows (pu_layer row) d) - 1)" "layer_rows (pu_layer row) d \<noteq> []"
proof -
  obtain n a m node observed where h: "head_at d (rc_expected receipt) n" "lh_layer (rc_expected receipt) = pu_layer row" "pu_expected row = int n"
      "pu_observed row = int m" "m < length (layer_rows (pu_layer row) d)" "observed_ok d row m observed"
    and out: "outcome_bound L d w row m a node (observed = Active (rc_expected receipt)) observed (rc_outcome receipt)"
    using assms(2) unfolding receipt_ok_def by blast
  have p: "observed = Active (rc_expected receipt)" "Suc m = length (layer_rows (pu_layer row) d)" "pu_observed_publication row = None"
    using out assms(3) by (auto simp: outcome_bound_def split: publication_outcome.splits)
  have hist: "history_ok L d (layer_rows (pu_layer row) d)" using assms(1) by (simp add: layers_ok_def)
  then have bound: "length (layer_rows (pu_layer row) d) \<le> 2 ^ 63" and rev: "hr_revision (layer_rows (pu_layer row) d ! m) = int m"
    using h(5) by (simp_all add: history_ok_def)
  have "lh_revision (rc_expected receipt) = num m"
    using h(6) p(1,3) rev by (auto simp: observed_ok_def event_state_def event_of_def num_def split: if_splits)
  moreover have "lh_revision (rc_expected receipt) = num n" "n < length (layer_rows (pu_layer row) d)" using h(1,2) by (simp_all add: head_at_def)
  ultimately have "n = m" using h(5) bound num_inj [of m n] by (metis order_less_le_trans)
  then show "pu_expected row = int (length (layer_rows (pu_layer row) d) - 1)" using h(3) p(2) by simp
  show "layer_rows (pu_layer row) d \<noteq> []" using h(5) by auto
qed

lemma owners_at: "map_of (owners L d layer) p = map_option snd (map_of (attributed L d (layer_rows layer d)) p)"
proof -
  have "map_of (map (\<lambda>(path, _, origin). (path, origin)) xs) p = map_option snd (map_of xs p)" for xs :: path_attribution
    by (induction xs) auto
  then show ?thesis by (simp add: owners_def)
qed

lemma emap_unit: "\<forall>x \<in> set xs. f x = Inr () \<Longrightarrow> \<exists>us. emap f xs = Inr us"
  by (induction xs) auto

lemma check_blame_rows_spec:
  assumes "codecs_ok L" "project_ok L d w" "ancestry L d True seen" "set rows \<subseteq> set (successes d)"
  shows "\<exists>seen'. check_blame_rows L d rows n seen = Inr (n + (\<Sum>row \<leftarrow> rows. length (published_changes w row)), seen') \<and> ancestry L d True seen'"
  using assms(3,4)
proof (induction rows arbitrary: n seen)
  case (Cons row rows)
  have p: "layers_ok L d w" "receipts_ok L d w" "blame_ok L d w" using assms(2) by (simp_all add: project_ok_def)
  have rp: "repo_ok (co_env L) d w" using p(1) by (simp add: layers_ok_def)
  have row: "row \<in> set (successes d)" using Cons.prems(2) by simp
  let ?layer = "pu_layer row" let ?derived = "attributed L d (layer_rows ?layer d)"
  obtain a where a: "pu_result row = Some (int (Suc a))" "Suc a < length w" using success_result [OF p(2) row] by blast
  have v: "Suc a < 2 ^ 63" by (rule repo_versions(5) [OF rp a(2)])
  obtain receipt where rc: "receipt_ok L d w row receipt" using p(2) success_row [OF row] unfolding receipts_ok_def by blast
  note at = published_at [OF p(1) rc] success_row [OF row]
  then have e: "pu_expected row = int (length (layer_rows ?layer d) - 1)" "layer_rows ?layer d \<noteq> []" by blast+
  have "word_of_int (pu_expected row) = num (length (layer_rows ?layer d) - 1)" by (simp add: e(1) num_def)
  with attribution_spec [OF p(1) e(2) Cons.prems(1)] obtain seen1 where
    s: "attribution_in L d True ?layer (word_of_int (pu_expected row)) seen = Inr (?derived, seen1)" "ancestry L d True seen1" by auto
  have ch: "changeset_in (num (Suc a)) d = Inr (published_changes w row)"
    using changeset_in_spec [OF rp a(2)] by (simp add: published_changes_def a(1) del: of_nat_Suc)
  have one: "blame_row_ok d (int (Suc a)) ?derived path = Inr ()" if "path \<in> fst ` set (published_changes w row)" for path
  proof -
    have "map_of (owners L d ?layer) path \<noteq> None" using p(3) row that unfolding blame_ok_def by blast
    then obtain x c pr where "map_of ?derived path = Some (x, c, pr)" by (auto simp: owners_at)
    then show ?thesis using blame_row_spec [OF p(2,3) row a(1) v that rp]
      by (simp add: blame_row_ok_def ok_or_def owners_at guard_def del: of_nat_Suc)
  qed
  obtain us where us: "emap (blame_row_ok d (int (Suc a)) ?derived) (map fst (published_changes w row)) = Inr us"
    using emap_unit [of "map fst (published_changes w row)" "blame_row_ok d (int (Suc a)) ?derived"] one by auto
  obtain seen2 where "check_blame_rows L d rows (n + length (published_changes w row)) seen1 =
      Inr (n + length (published_changes w row) + (\<Sum>row \<leftarrow> rows. length (published_changes w row)), seen2)" "ancestry L d True seen2"
    using Cons.IH [OF s(2), of "n + length (published_changes w row)"] Cons.prems(2) by auto
  moreover have "\<not> pu_expected row < 0" by (simp add: e(1))
  ultimately show ?case using s(1) v ch us by (simp add: a(1) add.assoc del: of_nat_Suc)
qed simp

lemma check_blame_ok:
  assumes "codecs_ok L" "project_ok L d w" "ancestry L d True seen"
  shows "\<exists>seen'. check_blame L d seen = Inr seen'"
proof -
  have p: "receipts_ok L d w" "blame_ok L d w" using assms(2) by (simp_all add: project_ok_def)
  then have b: "db_blame d = concat (map (blame_rows L d w) (successes d))" "sorted_wrt (<) (map (\<lambda>r. the (pu_result r)) (successes d))"
    by (simp_all add: blame_ok_def)
  then have "sorted (map (\<lambda>r. the (pu_result r)) (successes d))" by (simp add: strict_sorted_iff)
  then have same: "sort_key (\<lambda>r. the (pu_result r)) (filter (\<lambda>r. pu_outcome r = 1) (db_publications d)) = successes d"
    unfolding successes_def by (rule sort_key_id_if_sorted)
  have "\<not> list_ex (\<lambda>r. pu_result r = None) (successes d)" using success_result [OF p(1)] by (fastforce simp: list_ex_iff)
  moreover have "length (db_blame d) = (\<Sum>row \<leftarrow> successes d. length (published_changes w row))"
    by (simp add: b(1) length_concat blame_rows_def comp_def)
  ultimately show ?thesis using check_blame_rows_spec [OF assms order_refl, of 0] by (auto simp: check_blame_def same Let_def)
qed

section \<open>The whole check\<close>

lemma project_checked:
  assumes "codecs_ok L" "project_ok L d w"
  shows "\<exists>seen. validate_state L d [] = Inr (map (version_of d) [0..<length w], seen)"
proof -
  have p: "layers_ok L d w" "index_ok L d" "receipts_ok L d w" "checked (co_env L) d w" "blame_ok L d w" using assms(2) by (simp_all add: project_ok_def)
  have rp: "repo_ok (co_env L) d w" and at: "attempts_ok L d" using p(1) by (simp_all add: layers_ok_def)
  obtain s1 where s1: "check_layers L d True [] = Inr (card (hr_layer ` set (db_heads d)), s1)" "ancestry L d True s1"
    using layers_checked [OF p(1) cache_ok_Nil] layers_ancestry [OF p(1)] by blast
  obtain s2 where s2: "check_radar L d s1 = Inr s2" "ancestry L d True s2" using check_radar_spec [OF assms(1) p(1-3) s1(2)] by blast
  obtain s3 where s3: "check_blame L d s2 = Inr s3" using check_blame_ok [OF assms s2(2)] by blast
  have "validate_format d = Inr ()" using rp by (simp add: repo_ok_def)
  then show ?thesis
    using history_in_spec [OF rp p(4)] s1(1) check_stacks_ok [OF at] check_publications_ok [OF assms(1) p(1,3)] s2(1) s3
    by (simp add: validate_state_def)
qed

end
