(* ===== verification/PublishProgress.thy ===== *)
theory PublishProgress
  imports ProjectChecks
begin

text \<open>
  A publication of the active head of a Layer, whose changes compose with the World, goes through unless SHA-256 collides on
  what the repository stores and the transaction writes; and what the loop over snapshots answers in every case.
\<close>

section \<open>Storing without collisions\<close>

definition id_of :: "(bytes \<Rightarrow> bytes) \<Rightarrow> object_kind \<times> bytes \<Rightarrow> object_id" where
  "id_of sha x = object_hash sha (fst x) (snd x)"

definition stored_values :: "db \<Rightarrow> (object_kind \<times> bytes) set" where
  "stored_values d = {x. \<exists>r \<in> set (db_objects d). or_kind r = kind_sql (fst x) \<and> or_bytes r = snd x}"

lemma insert_progress:
  assumes "objects_ok E d" "inj_on (id_of (en_sha E)) S" "stored_values d \<subseteq> S" "(k, bs) \<in> S"
  shows "\<exists>d'. insert_object E k bs d = Inr (object_hash (en_sha E) k bs, d') \<and> objects_ok E d' \<and> adds_objects d d' \<and> stored_values d' \<subseteq> S"
proof (cases "insert_object E k bs d")
  case (Inl e)
  then obtain r where r: "object_at d (object_hash (en_sha E) k bs) = Some r" "(or_kind r, or_bytes r) \<noteq> (kind_sql k, bs)"
    using insert_object_Inl [OF assms(1)] by blast
  have mem: "r \<in> set (db_objects d)" "or_id r = object_hash (en_sha E) k bs" using object_at_row [OF r(1)] by auto
  then obtain k' where k': "or_kind r = kind_sql k'" "or_id r = object_hash (en_sha E) k' (or_bytes r)"
    using assms(1) unfolding objects_ok_def row_ok_def by blast
  have "(k', or_bytes r) \<in> stored_values d" unfolding stored_values_def using mem(1) k'(1) by (auto intro!: bexI [of _ r])
  then have "(k', or_bytes r) \<in> S" using assms(3) by blast
  moreover have "id_of (en_sha E) (k', or_bytes r) = id_of (en_sha E) (k, bs)" using k'(2) mem(2) by (simp add: id_of_def)
  ultimately have "(k', or_bytes r) = (k, bs)" using assms(2,4) by (meson inj_onD)
  then show ?thesis using r(2) k'(1) by simp
next
  case (Inr x)
  then obtain i d' where x: "insert_object E k bs d = Inr (i, d')" by (cases x) simp
  note o = insert_object_Inr [OF assms(1) x]
  obtain rows where rows: "db_objects d' = db_objects d @ rows" "\<forall>r \<in> set rows. r = \<lparr>or_id = i, or_kind = kind_sql k, or_bytes = bs\<rparr>"
    by (rule insert_object_rows [OF x])
  have "stored_values d' \<subseteq> S"
  proof
    fix v assume "v \<in> stored_values d'"
    then obtain r where r: "r \<in> set (db_objects d) \<union> set rows" "or_kind r = kind_sql (fst v)" "or_bytes r = snd v"
      by (auto simp: stored_values_def rows(1))
    show "v \<in> S"
    proof (cases "r \<in> set (db_objects d)")
      case True
      then show ?thesis using assms(3) r(2,3) by (auto simp: stored_values_def)
    next
      case False
      then have "r = \<lparr>or_id = i, or_kind = kind_sql k, or_bytes = bs\<rparr>" using r(1) rows(2) by blast
      then have "v = (k, bs)" using r(2,3) kind_sql_inj [of k "fst v"] by (cases v) simp
      then show ?thesis using assms(4) by simp
    qed
  qed
  then show ?thesis using x o(1-3) by blast
qed

lemma store_progress:
  assumes "objects_ok (co_env L) d" "inj_on (id_of (en_sha (co_env L))) S" "stored_values d \<subseteq> S" "\<forall>c \<in> set chunks. (Tree, snd c) \<in> S"
  shows "\<exists>d'. store_chunks L chunks d = Inr ((), d') \<and> objects_ok (co_env L) d' \<and> adds_objects d d' \<and> stored_values d' \<subseteq> S"
  using assms(1,3,4)
proof (induction chunks arbitrary: d)
  case Nil
  then show ?case by (simp add: store_chunks_def tx_ret_def)
next
  case (Cons c chunks)
  obtain d1 where d1: "insert_object (co_env L) Tree (snd c) d = Inr (object_hash (en_sha (co_env L)) Tree (snd c), d1)"
      "objects_ok (co_env L) d1" "adds_objects d d1" "stored_values d1 \<subseteq> S"
    using insert_progress [OF Cons.prems(1) assms(2) Cons.prems(2), of Tree "snd c"] Cons.prems(3) by auto
  obtain d2 where "store_chunks L chunks d1 = Inr ((), d2)" "objects_ok (co_env L) d2" "adds_objects d1 d2" "stored_values d2 \<subseteq> S"
    using Cons.IH [OF d1(2,4)] Cons.prems(3) by auto
  then show ?case using d1(1,3) adds_objects_trans
    by (cases c) (auto simp: store_chunks_def tx_bind_def tx_ret_def)
qed

section \<open>Blame\<close>

lemma insert_unique_new: "key row \<notin> key ` set rows \<Longrightarrow> insert_unique key row rows = Inr (rows @ [row])"
  by (auto simp: insert_unique_def)

lemma blame_progress:
  assumes "distinct ps" "\<forall>p \<in> set ps. map_of tracked p \<noteq> None" "\<forall>r \<in> set (db_blame d). br_version r = version_sql v \<longrightarrow> br_path r \<notin> set ps"
  shows "\<exists>d'. tx_each (insert_blame v tracked) ps d = Inr ((), d')"
  using assms
proof (induction ps arbitrary: d)
  case (Cons p ps)
  let ?r = "blame_row_of v tracked p"
  obtain c pr where o: "map_of tracked p = Some (c, pr)" using Cons.prems(2) by fastforce
  then have r: "?r = \<lparr>br_path = p, br_version = version_sql v, br_checkpoint = c, br_provenance = pr\<rparr>" by (simp add: blame_row_of_def)
  have "(br_path ?r, br_version ?r) \<notin> (\<lambda>r. (br_path r, br_version r)) ` set (db_blame d)"
    unfolding r using Cons.prems(3) by auto
  from insert_unique_new [OF this] have "insert_blame v tracked p d = Inr ((), d\<lparr>db_blame := db_blame d @ [?r]\<rparr>)"
    by (simp add: insert_blame_def o ok_or_def r)
  moreover have "\<exists>d'. tx_each (insert_blame v tracked) ps (d\<lparr>db_blame := db_blame d @ [?r]\<rparr>) = Inr ((), d')"
    using Cons.prems by (intro Cons.IH) (auto simp: r)
  ultimately show ?case by (auto simp: tx_bind_def)
qed (simp add: tx_ret_def)

text \<open>The index has the path of every change of the latest checkpoint.\<close>

lemma latest_owners:
  assumes "codecs_ok L" "checkpoint_node L d i = Inr node" "layer_rows layer d \<noteq> []" "hr_checkpoint (last (layer_rows layer d)) = i"
    "p \<in> fst ` set (lc_changes node)"
  shows "map_of (owners L d layer) p \<noteq> None"
proof -
  let ?rs = "layer_rows layer d"
  have "attributed L d ?rs = attribute_paths node (attributed L d (butlast ?rs))"
    using attributed_snoc [of L d "butlast ?rs" "last ?rs"] assms(2-4) by (simp add: node_of_def)
  then have "map fst (attributed L d ?rs) = map fst (lc_changes node)" by (simp add: attribute_paths_def comp_def case_prod_beta)
  then have "p \<in> fst ` set (attributed L d ?rs)" using assms(5) by (metis set_map)
  then have "map_of (attributed L d ?rs) p \<noteq> None" by (simp add: map_of_eq_None_iff)
  then show ?thesis by (simp add: owners_at)
qed

lemma blame_versions:
  assumes "project_ok L d w" "r \<in> set (db_blame d)"
  shows "br_version r < int (length w)"
proof -
  have p: "receipts_ok L d w" "blame_ok L d w" and rp: "repo_ok (co_env L) d w" using assms(1) by (simp_all add: project_ok_def layers_ok_def)
  obtain row where row: "row \<in> set (successes d)" "r \<in> set (blame_rows L d w row)" using assms(2) p(2) by (auto simp: blame_ok_def)
  obtain a where a: "pu_result row = Some (int (Suc a))" "Suc a < length w" using success_result [OF p(1) row(1)] by blast
  have "Suc a < 2 ^ 63" by (rule repo_versions(5) [OF rp a(2)])
  then have "br_version r = int (Suc a)" using row(2) a(1) by (auto simp: blame_rows_def blame_row_of_def split: prod.splits)
  then show ?thesis using a(2) by simp
qed

section \<open>The transaction\<close>

definition published_version :: "env \<Rightarrow> db \<Rightarrow> world_log \<Rightarrow> string \<Rightarrow> composed_version \<Rightarrow> world_version" where
  "published_version E d w operation c = \<lparr>wv_number = num (length w), wv_id = vr_id (publish_version E d operation (head_number w) c),
     wv_tree = cv_tree c, wv_operation = Some operation\<rparr>"

lemma advance_published_progress:
  assumes "codecs_ok L" "project_ok L d w" "layer_state_in L (lh_layer expected) d = Inr (Active expected)"
    "checkpoint_node L d (lh_checkpoint expected) = Inr node" "cv_changes c = lc_changes node" "operation \<notin> ar_id ` set (db_attempts d)"
    "length w < 2 ^ 63" "guard' (version_of d (head_number w)) (cv_changes c) = Inr ()"
    "inj_on (id_of (en_sha (co_env L))) S" "stored_values d \<subseteq> S" "\<forall>x \<in> set (cv_chunks c). (Tree, snd x) \<in> S"
  shows "\<exists>d'. advance_published L guard' operation expected (version_of d (head_number w)) c d
      = Inr (PublishedAs (published_version (co_env L) d w operation c), d')
    \<and> objects_ok (co_env L) d' \<and> stored_values d' \<subseteq> S \<and> db_publications d' = db_publications d"
proof -
  let ?E = "co_env L" let ?h = "head_number w" let ?n = "length w" let ?layer = "lh_layer expected"
  have p: "layers_ok L d w" "index_ok L d" using assms(2) by (simp_all add: project_ok_def)
  have rp: "repo_ok ?E d w" using p(1) by (simp add: layers_ok_def)
  note v = repo_versions [OF rp]
  have h: "?h < 2 ^ 63" "Suc ?h = ?n" "?h = ?n - 1" using v(1) v(5) [of ?h] by (auto simp: head_number_def)
  have nn: "next_number (num ?h) = Inr (num ?n)" using next_number_num [OF h(1)] h(2) assms(7) by simp
  let ?d1 = "d\<lparr>db_attempts := db_attempts d @ [publish_attempt operation ?h]\<rparr>"
  have at: "insert_attempt \<lparr>ar_id = operation, ar_expected = version_sql (num ?h), ar_tree = None, ar_accepted = 1,
      ar_result = version_sql (num ?n)\<rparr> d = Inr ((), ?d1)"
    using assms(6,7) h(1,2) insert_unique_new [of ar_id "publish_attempt operation ?h" "db_attempts d"]
    by (simp add: insert_attempt_def publish_attempt_def)
  have "objects_ok ?E ?d1" using same_objects_ok [of ?d1 d ?E] rp by (simp add: repo_ok_def)
  moreover have "stored_values ?d1 \<subseteq> S" using assms(10) by (simp add: stored_values_def)
  ultimately obtain d2 where d2: "store_chunks L (cv_chunks c) ?d1 = Inr ((), d2)" "objects_ok ?E d2" "adds_objects ?d1 d2" "stored_values d2 \<subseteq> S"
    using store_progress [OF _ assms(9) _ assms(11)] by blast
  have same: "db_versions d2 = db_versions d" "db_changes d2 = db_changes d" "db_paths d2 = db_paths d" "db_blame d2 = db_blame d"
      "db_publications d2 = db_publications d"
    using d2(3) by (auto simp: adds_objects_def)
  have ch: "distinct (map fst (cv_changes c))"
    using checkpoint_leads(2) [OF assms(1) p(1) assms(4)] by (simp add: leads_def changes_valid_def omap_ok_def strict_sorted_iff assms(5))
  have "Some operation \<notin> vr_operation ` set (db_versions d)"
    using operation_unused [OF rp, of operation] assms(6) by (auto simp: attempt_row_in_def find_row_None)
  moreover have "\<forall>r \<in> set (db_changes d). cr_version r \<noteq> int ?n"
    using rp by (fastforce simp: repo_ok_def changes_rows_ok_def)
  moreover have "db_versions d \<noteq> []" "wv_number (version_of d ?h) = num (?n - 1)" using v(1,3) h(3) by auto
  moreover note append_version_run [of d2 operation "cv_changes c" "version_of d ?h" ?E "cv_tree c", unfolded same v(3)]
  ultimately obtain d3 where d3: "append_version_in ?E (version_of d ?h) operation (cv_changes c) (cv_tree c) d2 =
      Inr (published_version ?E d w operation c, d3)"
      "db_paths d3 = db_paths d" "db_blame d3 = db_blame d" "db_publications d3 = db_publications d" "db_objects d3 = db_objects d2"
    using v(4) assms(7) ch same by (simp add: v(3) publish_version_def published_version_def)
  have active: "layer_rows ?layer d \<noteq> []" "head_at d expected (length (layer_rows ?layer d) - 1)" "live ?layer d"
    using active_state [OF p(1) assms(3)] active_live [OF p(1) assms(3)] by simp_all
  have tracked: "attributed_in ?layer d3 = Inr (owners L d ?layer)"
    using index_tracked [OF p(2), of ?layer] active(3)
    by (simp add: attributed_in_def tracked_in_def d3(2) owners_def index_of_def)
  have "map_of (owners L d ?layer) q \<noteq> None" if "q \<in> fst ` set (lc_changes node)" for q
    using latest_owners [OF assms(1,4) active(1) _ that] active(1,2) by (simp add: head_at_def last_conv_nth)
  moreover have "br_version r \<noteq> version_sql (num ?n)" if "r \<in> set (db_blame d3)" for r
    using blame_versions [OF assms(2), of r] that assms(7) by (simp add: d3(3))
  ultimately obtain d4 where d4: "tx_each (insert_blame (num ?n) (owners L d ?layer)) (map fst (cv_changes c)) d3 = Inr ((), d4)"
    using blame_progress [OF ch, of "owners L d ?layer" d3 "num ?n"] assms(5) by auto
  then have d4': "d4 = d3\<lparr>db_blame := db_blame d3 @ map (blame_row_of (num ?n) (owners L d ?layer)) (map fst (cv_changes c))\<rparr>"
    using insert_blames by blast
  let ?d5 = "d4\<lparr>db_paths := filter (\<lambda>r. pr_layer r \<noteq> ?layer) (db_paths d4)\<rparr>"
  have "record_blame_in ?layer (num ?n) (cv_changes c) d3 = Inr ((), d4)"
    using tracked d4 by (simp add: record_blame_in_def tx_bind_def tx_read_def)
  then have run: "advance_published L guard' operation expected (version_of d ?h) c d = Inr (PublishedAs (published_version ?E d w operation c), ?d5)"
    using assms(8) nn at d2(1) d3(1)
    by (simp add: advance_published_def tx_bind_def tx_read_def tx_ret_def untrack_in_def published_version_def)
  have o: "db_objects ?d5 = db_objects d2" by (simp add: d4' d3(5))
  have "objects_ok ?E ?d5" using same_objects_ok [OF o] d2(2) by simp
  moreover have "stored_values ?d5 \<subseteq> S" using d2(4) by (simp add: stored_values_def o)
  moreover have "db_publications ?d5 = db_publications d" by (simp add: d4' d3(4))
  ultimately show ?thesis using run by blast
qed

section \<open>The receipt\<close>

text \<open>The state of a Layer is at its latest revision.\<close>

lemma state_latest:
  assumes "codecs_ok L" "project_ok L d w" "layer_state_in L layer d = Inr state"
  shows "layer_rows layer d \<noteq> []" "state_revision state = num (length (layer_rows layer d) - 1)"
    "state = Active head \<Longrightarrow> \<not> published layer d"
proof -
  have p: "layers_ok L d w" "receipts_ok L d w" using assms(2) by (simp_all add: project_ok_def)
  let ?rs = "layer_rows layer d"
  have h: "history_ok L d ?rs" using p(1) by (simp add: layers_ok_def)
  have "?rs \<noteq> [] \<and> state_revision state = num (length ?rs - 1)"
  proof (cases "published layer d")
    case False
    then have "latest_event_state_in layer d = Inr state"
      using assms(3) published_rows [of layer d] by (simp add: layer_state_in_def published_state_in_def)
    moreover from this have ne: "?rs \<noteq> []" using latest_in_spec [OF h] by (auto simp: latest_event_state_in_def)
    ultimately obtain identity where i: "state = event_state identity (event_of (last ?rs))" using latest_state [OF p(1) ne] by auto
    have "last ?rs = ?rs ! (length ?rs - 1)" using ne by (simp add: last_conv_nth)
    then have "hr_revision (last ?rs) = int (length ?rs - 1)" using h ne by (simp add: history_ok_def)
    then show ?thesis using ne i by (simp add: state_revision_def event_state_def event_of_def num_def)
  next
    case True
    let ?good = "\<lambda>r. pu_layer r = layer \<and> pu_outcome r = 1"
    obtain row rest where r: "rows_in ?good d = row # rest" using True published_rows [of layer d] by (cases "rows_in ?good d") auto
    then have "row \<in> set (rows_in ?good d)" by simp
    then have row: "row \<in> set (db_publications d)" "pu_layer row = layer" "pu_outcome row = 1" by (simp_all add: rows_in_set)
    obtain receipt where rc: "receipt_ok L d w row receipt" using p(2) row(1) unfolding receipts_ok_def by blast
    have "success_state row d = Inr state" using assms(3) r by (auto simp: layer_state_in_def published_state_in_def result_simps)
    from this receipt_head [OF p(1) rc] row(2) have state: "\<exists>version. state = Published (rc_expected receipt) (pu_id row) version"
      by (auto simp: success_state_def result_simps split: if_splits)
    note at = published_at [OF p(1) rc row(3)]
    obtain n where "pu_expected row = int n" "head_at d (rc_expected receipt) n" using receipt_head [OF p(1) rc] by blast
    then show ?thesis using state at row(2) by (auto simp: state_revision_def head_at_def)
  qed
  then show "?rs \<noteq> []" "state_revision state = num (length ?rs - 1)" by simp_all
  show "\<not> published layer d" if "state = Active head" using active_state(1) [OF p(1)] assms(3) that by blast
qed

lemma warned: "warnings_in L attribution d = Inr ws \<Longrightarrow> attribution \<noteq> ByAgent None False"
  by (auto simp: warnings_in_def)

lemma receipt_progress:
  assumes "objects_ok (co_env L) d" "inj_on (id_of (en_sha (co_env L))) S" "stored_values d \<subseteq> S" "(Blob, co_receipt L receipt) \<in> S"
    "pu_id row \<notin> pu_id ` set (db_publications d)" "pu_outcome row = 1 \<Longrightarrow> \<not> published (pu_layer row) d"
    "publication_checks row" "pu_receipt row = object_hash (en_sha (co_env L)) Blob (co_receipt L receipt)"
  shows "\<exists>d1 d'. insert_object (co_env L) Blob (co_receipt L receipt) d = Inr (pu_receipt row, d1) \<and> insert_publication row d1 = Inr ((), d')"
proof -
  obtain d1 where d1: "insert_object (co_env L) Blob (co_receipt L receipt) d = Inr (pu_receipt row, d1)" "adds_objects d d1"
    using insert_progress [OF assms(1-4)] assms(8) by auto
  have same: "db_publications d1 = db_publications d" using d1(2) by (auto simp: adds_objects_def)
  have "\<not> (pu_outcome row = 1 \<and> list_ex (\<lambda>r. pu_outcome r = 1 \<and> pu_layer r = pu_layer row) (db_publications d))"
    using assms(6) by (auto simp: list_ex_iff published_def)
  then have "insert_publication row d1 = Inr ((), d1\<lparr>db_publications := db_publications d @ [row]\<rparr>)"
    using assms(7) insert_unique_new [OF assms(5)] by (auto simp: insert_publication_def same)
  then show ?thesis using d1(1) by blast
qed

section \<open>A round that nothing moved\<close>

definition plan_outcome :: "env \<Rightarrow> db \<Rightarrow> world_log \<Rightarrow> string \<Rightarrow> publish_plan \<Rightarrow> publication_outcome" where
  "plan_outcome E d w operation plan =
     (case pp_composed plan of
       None \<Rightarrow> PublishStale (pp_actual plan)
     | Some (Inl found) \<Rightarrow> PublishConflict found
     | Some (Inr c) \<Rightarrow> PublishedAs (published_version E d w operation c))"

definition plan_receipt :: "env \<Rightarrow> db \<Rightarrow> world_log \<Rightarrow> string \<Rightarrow> layer_head \<Rightarrow> publish_attribution \<Rightarrow> publish_plan \<Rightarrow> publication_receipt" where
  "plan_receipt E d w operation expected attribution plan =
     \<lparr>rc_operation = operation, rc_expected = expected, rc_attribution = attribution, rc_against = pp_against plan,
      rc_warnings = pp_warnings plan, rc_outcome = plan_outcome E d w operation plan\<rparr>"

definition plan_chunks :: "publish_plan \<Rightarrow> (object_kind \<times> bytes) set" where
  "plan_chunks plan = (case pp_composed plan of Some (Inr c) \<Rightarrow> (\<lambda>x. (Tree, snd x)) ` set (cv_chunks c) | _ \<Rightarrow> {})"

text \<open>Under the state of the snapshot the plan holds.\<close>

lemma plan_unmoved:
  assumes "prepare_in L operation expected attribution d = Inr (Advance plan)"
  shows "plan_moved L operation expected plan d = Inr False"
proof -
  have a: "row_in operation d = None" "\<not> attempt_exists operation d" "\<exists>warnings. plan_in L expected warnings d = Inr plan"
    using assms by (auto simp: prepare_in_def result_simps split: option.splits if_splits publish_attribution.splits)
  have "set (rows_in (\<lambda>r. pu_id r = operation) d) = {}" using a(1) by (simp add: row_in_def split: list.splits)
  then have "\<not> operation_exists_in operation d" by (auto simp: rows_in_set operation_exists_in_def)
  then show ?thesis using a(2,3) by (auto simp: plan_in_def plan_moved_def ebind_Inr_iff)
qed

lemma publish_settles:
  assumes "codecs_ok L" "project_ok L d w" "prepare_in L operation expected attribution d = Inr (Advance plan)"
    "\<And>c. pp_composed plan = Some (Inr c) \<Longrightarrow> length w < 2 ^ 63 \<and> guard' (pp_against plan) (cv_changes c) = Inr ()"
    "inj_on (id_of (en_sha (co_env L)))
       (stored_values d \<union> plan_chunks plan \<union> {(Blob, co_receipt L (plan_receipt (co_env L) d w operation expected attribution plan))})"
  shows "\<exists>d'. publish_round L guard' operation expected attribution d d
    = Inr (Some (plan_receipt (co_env L) d w operation expected attribution plan), d')"
proof -
  let ?E = "co_env L" let ?h = "head_number w" let ?layer = "lh_layer expected"
  let ?receipt = "plan_receipt ?E d w operation expected attribution plan" let ?outcome = "plan_outcome ?E d w operation plan"
  let ?blob = "object_hash (en_sha ?E) Blob (co_receipt L ?receipt)"
  let ?row = "publication_of operation expected attribution (pp_against plan) (pp_actual plan) ?outcome ?blob"
  let ?S = "stored_values d \<union> plan_chunks plan \<union> {(Blob, co_receipt L ?receipt)}"
  have p: "layers_ok L d w" "receipts_ok L d w" using assms(2) by (simp_all add: project_ok_def)
  have rp: "repo_ok ?E d w" using p(1) by (simp add: layers_ok_def)
  then have ok: "objects_ok ?E d" by (simp add: repo_ok_def)
  note v = repo_versions [OF rp]
  have h: "?h < 2 ^ 63" "Suc ?h = length w" "?h < length w" using v(1) v(5) [of ?h] by (auto simp: head_number_def)
  note pl = prepared_plan [OF assms(1) p(1) assms(3)]
  have attempt: "operation \<notin> ar_id ` set (db_attempts d)"
    using assms(3) by (auto simp: prepare_in_def result_simps attempt_exists_def split: option.splits if_splits)
  have fresh: "operation \<notin> pu_id ` set (db_publications d)"
  proof -
    have "set (rows_in (\<lambda>r. pu_id r = operation) d) = {}" using pl(1) by (simp add: row_in_def split: list.splits)
    then show ?thesis by (auto simp: rows_in_set)
  qed
  have hist: "history_ok L d (layer_rows ?layer d)" using p(1) by (simp add: layers_ok_def)
  from verify_head_iff [OF hist] pl(2) obtain n where n: "head_at d expected n" by blast
  note st = state_latest [OF assms(1,2) pl(5)]
  have len: "length (layer_rows ?layer d) \<le> 2 ^ 63" using hist by (simp add: history_ok_def)
  then have small: "n < 2 ^ 63" "length (layer_rows ?layer d) - 1 < 2 ^ 63" "n \<le> length (layer_rows ?layer d) - 1"
    using n st(1) by (auto simp: head_at_def simp flip: length_greater_0_conv)
  have exp: "version_sql (lh_revision expected) = int n" "version_sql (state_revision (pp_actual plan)) = int (length (layer_rows ?layer d) - 1)"
    using n small st(2) by (simp_all add: head_at_def)
  have active: "pp_composed plan \<noteq> None \<Longrightarrow> pp_actual plan = Active expected" using pl(6) by auto
  have ws: "attribution \<noteq> ByAgent None False" by (rule warned [OF pl(3)])
  have ag: "\<And>i. attribution \<noteq> ByAgent (Some i) True" by (rule pl(8))
  have against: "pp_against plan = version_of d ?h" by (rule pl(4))
  have cols: "(pu_allow_missing_trace ?row = 0 \<or> pu_allow_missing_trace ?row = 1)
     \<and> (pu_attribution ?row = 0 \<and> pu_context ?row = None \<and> pu_allow_missing_trace ?row = 0
        \<or> pu_attribution ?row = 1 \<and> (pu_context ?row \<noteq> None \<or> pu_allow_missing_trace ?row = 1))"
    using ws ag by (auto simp: publication_of_def attribution_columns_def Let_def split: prod.split publish_attribution.split)
  have row: "pu_expected ?row = int n" "pu_observed ?row = int (length (layer_rows ?layer d) - 1)" "pu_against ?row = int ?h"
    "pu_result ?row = (case ?outcome of PublishedAs version \<Rightarrow> Some (version_sql (wv_number version)) | _ \<Rightarrow> None)"
    "pu_world_operation ?row = map_option (\<lambda>_. operation) (pu_result ?row)"
    "pu_observed_publication ?row = (case pp_actual plan of Published _ by _ \<Rightarrow> Some by | _ \<Rightarrow> None)"
    using h(1) exp by (simp_all add: publication_of_def Let_def against split: prod.split)
  have exact: "n = length (layer_rows ?layer d) - 1" if "pp_composed plan \<noteq> None"
  proof -
    have "num n = num (length (layer_rows ?layer d) - 1)"
      using active [OF that] st(2) n by (simp add: state_revision_def head_at_def)
    then show ?thesis using small num_inj by blast
  qed
  have checks: "publication_checks ?row"
  proof (cases "pp_composed plan")
    case None
    then have "?outcome = PublishStale (pp_actual plan)" by (simp add: plan_outcome_def)
    then show ?thesis using cols row small by (simp add: publication_checks_def publication_of_simps)
  next
    case (Some r)
    have e: "n = length (layer_rows ?layer d) - 1" "pp_actual plan = Active expected" using exact active Some by simp_all
    show ?thesis
    proof (cases r)
      case (Inl found)
      then have "?outcome = PublishConflict found" using Some by (simp add: plan_outcome_def)
      then show ?thesis using cols row e by (simp add: publication_checks_def publication_of_simps)
    next
      case (Inr c)
      then have o: "?outcome = PublishedAs (published_version ?E d w operation c)" using Some by (simp add: plan_outcome_def)
      have "length w < 2 ^ 63" using assms(4) Some Inr by blast
      then have "version_sql (num (length w)) = int ?h + 1" using h(2) by simp
      then show ?thesis using cols row e o
        by (simp add: publication_checks_def publication_of_simps published_version_def)
    qed
  qed
  have inj: "inj_on (id_of (en_sha ?E)) ?S" by (rule assms(5))
  have "\<exists>d1. (case pp_composed plan of
         None \<Rightarrow> tx_ret (PublishStale (pp_actual plan))
       | Some (Inl paths) \<Rightarrow> tx_ret (PublishConflict paths)
       | Some (Inr candidate) \<Rightarrow> advance_published L guard' operation expected (pp_against plan) candidate) d = Inr (?outcome, d1)
    \<and> objects_ok ?E d1 \<and> stored_values d1 \<subseteq> ?S \<and> db_publications d1 = db_publications d"
  proof (cases "\<exists>c. pp_composed plan = Some (Inr c)")
    case True
    then obtain c where c: "pp_composed plan = Some (Inr c)" by blast
    obtain node where node: "checkpoint_node L d (lh_checkpoint expected) = Inr node" "composes L d w ?h node (Inr c)" using pl(7) [OF c] by blast
    have st': "layer_state_in L ?layer d = Inr (Active expected)" using pl(5) active c by simp
    have ch: "cv_changes c = lc_changes node" using node(2) by (simp add: composes_def)
    have saved: "\<forall>x \<in> set (cv_chunks c). (Tree, snd x) \<in> ?S" by (simp add: plan_chunks_def c)
    have sub: "stored_values d \<subseteq> ?S" by (rule le_supI1 [OF Un_upper1])
    have gu: "length w < 2 ^ 63" "guard' (version_of d ?h) (cv_changes c) = Inr ()" using assms(4) [OF c] against by simp_all
    from advance_published_progress [where guard' = guard' and c = c and S = ?S and w = w, OF assms(1,2) st' node(1) ch attempt gu inj sub saved] obtain d1 where
      "advance_published L guard' operation expected (version_of d ?h) c d = Inr (PublishedAs (published_version ?E d w operation c), d1)"
      "objects_ok ?E d1" "stored_values d1 \<subseteq> ?S" "db_publications d1 = db_publications d" by blast
    then show ?thesis by (simp add: c against plan_outcome_def)
  next
    case False
    then show ?thesis using ok by (auto simp: plan_outcome_def tx_ret_def split: option.split sum.split)
  qed
  then obtain d1 where d1: "(case pp_composed plan of
         None \<Rightarrow> tx_ret (PublishStale (pp_actual plan))
       | Some (Inl paths) \<Rightarrow> tx_ret (PublishConflict paths)
       | Some (Inr candidate) \<Rightarrow> advance_published L guard' operation expected (pp_against plan) candidate) d = Inr (?outcome, d1)"
    "objects_ok ?E d1" "stored_values d1 \<subseteq> ?S" "db_publications d1 = db_publications d" by blast
  have np: "\<not> published ?layer d1" if "pu_outcome ?row = 1"
  proof -
    have "pp_composed plan \<noteq> None" using that by (cases "pp_composed plan") (simp_all add: publication_of_simps plan_outcome_def)
    then have "\<not> published ?layer d" using st(3) active by blast
    then show ?thesis by (simp add: published_def d1(4))
  qed
  have id: "pu_id ?row \<notin> pu_id ` set (db_publications d1)" using fresh by (simp add: publication_of_simps d1(4))
  have "\<exists>d2 d'. insert_object ?E Blob (co_receipt L ?receipt) d1 = Inr (pu_receipt ?row, d2) \<and> insert_publication ?row d2 = Inr ((), d')"
    by (rule receipt_progress [OF d1(2) inj d1(3) _ id _ checks]) (use np in \<open>simp_all add: publication_of_simps\<close>)
  then obtain d2 d' where "insert_object ?E Blob (co_receipt L ?receipt) d1 = Inr (?blob, d2)" "insert_publication ?row d2 = Inr ((), d')"
    by (auto simp: publication_of_simps)
  then have "commit_plan L guard' operation expected attribution plan d = Inr (?receipt, d')"
    using d1(1) by (simp add: commit_plan_def tx_bind_def tx_ret_def Let_def plan_receipt_def)
  then show ?thesis
    using assms(3) plan_unmoved [OF assms(3)] by (simp add: publish_round_def tx_bind_def tx_read_def tx_ret_def)
qed

end
