(* ===== verification/PublishCalls.thy ===== *)
theory PublishCalls
  imports PublishProgress LayerExamples
begin

text \<open>
  Lemmas on whole calls of a publication: what the preparation answers, stored receipts replayed, the loop over snapshots; and a
  publication on the example repository.
\<close>

section \<open>Receipts replayed\<close>

lemma row_in_iff:
  assumes "distinct (map pu_id (db_publications d))"
  shows "row_in operation d = Some row \<longleftrightarrow> row \<in> set (db_publications d) \<and> pu_id row = operation"
proof -
  let ?rs = "rows_in (\<lambda>r. pu_id r = operation) d"
  have one: "a = b" if "a \<in> set ?rs" "b \<in> set ?rs" for a b
    using assms that by (auto simp: rows_in_set distinct_map inj_on_def)
  have "row_in operation d = Some row \<longleftrightarrow> row \<in> set ?rs"
  proof (cases ?rs)
    case (Cons r rest)
    then have "r \<in> set ?rs" by simp
    then show ?thesis using one Cons by (auto simp: row_in_def)
  qed (simp add: row_in_def)
  then show ?thesis by (simp add: rows_in_set)
qed

lemma receipt_replayed:
  assumes "codecs_ok L" "project_ok L d w" "row \<in> set (db_publications d)" "receipt_ok L d w row receipt"
  shows "publication L (pu_id row) d = Inr (Some receipt)"
    "prepare_in L (pu_id row) expected attribution d =
      (if rc_expected receipt \<noteq> expected \<or> rc_attribution receipt \<noteq> attribution then Inl (OperationIdReused (pu_id row)) else Inr (Replay receipt))"
proof -
  have p: "layers_ok L d w" and ids: "distinct (map pu_id (db_publications d))" using assms(2) by (simp_all add: project_ok_def receipts_ok_def)
  have "validate_format d = Inr ()" using p by (simp add: layers_ok_def repo_ok_def)
  moreover have "row_in (pu_id row) d = Some row" using row_in_iff [OF ids] assms(3) by blast
  moreover have "receipt_in L row d = Inr receipt" by (rule receipt_read [OF assms(1) p ids assms(4)])
  ultimately show "publication L (pu_id row) d = Inr (Some receipt)"
    "prepare_in L (pu_id row) expected attribution d =
      (if rc_expected receipt \<noteq> expected \<or> rc_attribution receipt \<noteq> attribution then Inl (OperationIdReused (pu_id row)) else Inr (Replay receipt))"
    by (simp_all add: publication_def prepare_in_def)
qed

text \<open>A receipt that a round returned, new or replayed, is stored.\<close>

lemma round_receipt:
  assumes "codecs_ok L" "project_ok L d0 w0" "project_ok L d w" "follows_on L d0 w0 d w" "has_room L expected d"
    "publish_round L guard' operation expected attribution d0 d = Inr (Some receipt, d')"
  shows "\<exists>w' row. project_ok L d' w' \<and> follows_on L d w d' w' \<and> row \<in> set (db_publications d') \<and> pu_id row = operation
    \<and> receipt_ok L d' w' row receipt \<and> rc_expected receipt = expected \<and> rc_attribution receipt = attribution \<and> rc_operation receipt = operation"
proof -
  from publish_round_kept [OF assms] obtain w' where w': "project_ok L d' w'" "follows_on L d w d' w'"
    and cases: "(d' = d \<and> w' = w \<and> prepare_in L operation expected attribution d0 = Inr (Replay receipt))
       \<or> (\<exists>state blob. issued L d w operation expected attribution state blob receipt d' w'
           \<and> (\<exists>row \<in> set (db_publications d'). pu_id row = operation \<and> receipt_ok L d' w' row receipt))"
    by auto
  from cases show ?thesis
  proof
    assume r: "d' = d \<and> w' = w \<and> prepare_in L operation expected attribution d0 = Inr (Replay receipt)"
    have ids: "distinct (map pu_id (db_publications d0))" using assms(2) by (simp add: project_ok_def receipts_ok_def)
    obtain row where row: "row_in operation d0 = Some row" "receipt_in L row d0 = Inr receipt" "rc_expected receipt = expected"
        "rc_attribution receipt = attribution"
      using r by (auto simp: prepare_in_def result_simps split: option.splits if_splits)
    have mem: "row \<in> set (db_publications d0)" "pu_id row = operation" using row(1) row_in_iff [OF ids] by simp_all
    obtain receipt' where rc: "receipt_ok L d0 w0 row receipt'" using assms(2) mem(1) unfolding project_ok_def receipts_ok_def by blast
    have l0: "layers_ok L d0 w0" using assms(2) by (simp add: project_ok_def)
    have "receipt' = receipt" using receipt_read [OF assms(1) l0 ids rc] row(2) by simp
    moreover have "rc_operation receipt' = pu_id row" using rc unfolding receipt_ok_def by blast
    ultimately have "receipt_ok L d w row receipt" "rc_operation receipt = operation" "row \<in> set (db_publications d)"
      using assms(4) rc mem unfolding follows_on_def by auto
    then show ?thesis using w' r mem(2) row(3,4) by blast
  next
    assume "\<exists>state blob. issued L d w operation expected attribution state blob receipt d' w'
           \<and> (\<exists>row \<in> set (db_publications d'). pu_id row = operation \<and> receipt_ok L d' w' row receipt)"
    then obtain state blob row where i: "issued L d w operation expected attribution state blob receipt d' w'"
      "row \<in> set (db_publications d')" "pu_id row = operation" "receipt_ok L d' w' row receipt" by blast
    have rc: "receipt = \<lparr>rc_operation = operation, rc_expected = expected, rc_attribution = attribution, rc_against = version_of d (head_number w),
          rc_warnings = rc_warnings receipt, rc_outcome = rc_outcome receipt\<rparr>" using i(1) by (simp add: issued_def)
    have "rc_operation receipt = operation" "rc_expected receipt = expected" "rc_attribution receipt = attribution"
      using arg_cong [OF rc, of rc_operation] arg_cong [OF rc, of rc_expected] arg_cong [OF rc, of rc_attribution] by simp_all
    then show ?thesis using w' i(2-4) by blast
  qed
qed

section \<open>The loop\<close>

lemma round_unmoved: "publish_round L guard' operation expected attribution d d \<noteq> Inr (None, d')"
proof (cases "prepare_in L operation expected attribution d")
  case (Inr prepared)
  then show ?thesis
    by (cases prepared) (auto simp: publish_round_def tx_bind_Inr tx_read_Inr tx_ret_def plan_unmoved split: if_splits)
qed (simp add: publish_round_def tx_bind_def tx_read_def)

lemma publish_layer_ends: "publish_layer L guard' operation expected attribution (rounds @ (d, d) # rest) \<noteq> None"
proof (induction rounds)
  case Nil
  then show ?case using round_unmoved [of L guard' operation expected attribution d]
    by (auto split: sum.split prod.split option.split)
next
  case (Cons r rounds)
  then show ?case by (cases r) (auto split: sum.split prod.split option.split)
qed

section \<open>Preparation\<close>

lemma check_rows_ok: "\<forall>row \<in> set rows. \<exists>receipt. receipt_in L row d = Inr receipt \<Longrightarrow> check_rows L rows d = Inr ()"
  by (induction rows) auto

lemma prepare_progress:
  assumes "codecs_ok L" "project_ok L d w" "row_in operation d = None" "\<not> attempt_exists operation d" "verify_head expected d = Inr ()"
    "warnings_in L attribution d = Inr ws" "\<And>i. attribution \<noteq> ByAgent (Some i) True" "layer_state_in L (lh_layer expected) d = Inr state"
    "(if state = Active expected then ebind (compose_in L expected (version_of d (head_number w)) d) (\<lambda>c. Inr (Some c)) else Inr None) = Inr composed"
  shows "prepare_in L operation expected attribution d =
    Inr (Advance \<lparr>pp_against = version_of d (head_number w), pp_actual = state, pp_warnings = ws, pp_composed = composed\<rparr>)"
proof -
  have p: "layers_ok L d w" "receipts_ok L d w" and ids: "distinct (map pu_id (db_publications d))"
    using assms(2) by (simp_all add: project_ok_def receipts_ok_def)
  have rp: "repo_ok (co_env L) d w" using p(1) by (simp add: layers_ok_def)
  have read: "\<exists>receipt. receipt_in L row d = Inr receipt" if "row \<in> set (db_publications d)" for row
    using p(2) that receipt_read [OF assms(1) p(1) ids] unfolding receipts_ok_def by blast
  have "check_head_receipt L (version_of d (head_number w)) d = Inr ()"
  proof (cases "Option.bind (wv_operation (version_of d (head_number w))) (\<lambda>operation. row_in operation d)")
    case (Some row)
    then have "row \<in> set (db_publications d)" using row_in_iff [OF ids] by (auto simp: bind_eq_Some_conv)
    then show ?thesis using read Some by (fastforce simp: check_head_receipt_def)
  qed (simp add: check_head_receipt_def)
  moreover have "check_rows L (rows_in (\<lambda>r. pu_layer r = lh_layer expected) d) d = Inr ()"
    using read by (intro check_rows_ok) (auto simp: rows_in_set)
  moreover have "validate_format d = Inr ()" using rp by (simp add: repo_ok_def)
  moreover have "\<not> (case attribution of ByAgent (Some _) True \<Rightarrow> True | _ \<Rightarrow> False)"
    using assms(7) by (auto split: publish_attribution.split option.split bool.split)
  ultimately show ?thesis using assms(3-6,8,9) head_in_spec [OF rp]
    by (simp add: prepare_in_def plan_in_def)
qed

section \<open>An example\<close>

lemma layer_db_project: "project_ok example_codecs layer_db [(Map.empty, [])]"
proof -
  have "repo_ok (co_env example_codecs) new_db [(Map.empty, [])]" using new_db_ok(2) by (simp add: example_codecs_def)
  moreover have "checked (co_env example_codecs) new_db [(Map.empty, [])]" by (simp add: checked_def)
  ultimately have "project_ok example_codecs new_db [(Map.empty, [])]" using project_initial new_db_tables by blast
  moreover have "project_step example_codecs new_db layer_db" by (rule project_step.layer [OF layer_step.create [OF example_created]])
  ultimately obtain w where w: "project_ok example_codecs layer_db w" using project_step_kept [OF example_codecs_ok] by blast
  have "blame_ok example_codecs layer_db [(Map.empty, [])] \<and> receipts_ok example_codecs layer_db [(Map.empty, [])]"
    using layer_db_index(2) new_db_tables(5) by (simp add: blame_ok_def successes_def receipts_ok_def one_success_def layer_db_def)
  then show ?thesis using layer_db_ok(1) layer_db_index(1) by (simp add: project_ok_def checked_def)
qed

definition example_plan :: publish_plan where
  "example_plan = \<lparr>pp_against = version_of layer_db 0, pp_actual = Active example_head, pp_warnings = [],
     pp_composed = Some (Inr \<lparr>cv_changes = [], cv_tree = vr_tree (db_versions layer_db ! 0), cv_chunks = []\<rparr>)\<rparr>"

lemma example_prepare: "prepare_in example_codecs ''p'' example_head ByHuman layer_db = Inr (Advance example_plan)"
proof -
  let ?L = example_codecs let ?w = "[(Map.empty, [])] :: world_log"
  let ?c = "\<lparr>cv_changes = [], cv_tree = vr_tree (db_versions layer_db ! 0), cv_chunks = []\<rparr> :: composed_version"
  let ?node = "prepared_node example_base [] example_candidate"
  have node: "checkpoint_node ?L layer_db (lh_checkpoint example_head) = Inr ?node" using example_checkpoint by (simp add: checkpoint_in_eq)
  have h: "history_ok ?L layer_db (layer_rows (lh_layer example_head) layer_db)" using layer_db_ok(1) by (simp add: layers_ok_def)
  have vh: "verify_head example_head layer_db = Inr ()" using verify_head_iff [OF h] layer_db_ok(2) by blast
  have ne: "layer_rows (lh_layer example_head) layer_db \<noteq> []" using layer_db_length by auto
  from latest_state [OF layer_db_ok(1) ne] obtain identity where
    i: "identity_in layer_db = Inr identity" "latest_event_state_in (lh_layer example_head) layer_db =
      Inr (event_state identity (event_of (last (layer_rows (lh_layer example_head) layer_db))))" by blast
  have "identity = xs32" using layer_db_ok(2) i(1) by (simp add: head_at_def example_head_def)
  then have st: "layer_state_in ?L (lh_layer example_head) layer_db = Inr (Active example_head)"
    using i(2) layer_db_live published_rows [of "lh_layer example_head" layer_db]
    by (simp add: layer_state_in_def published_state_in_def layer_rows_def layer_db_def example_head_def event_of_def event_state_def)
  have "composes ?L layer_db ?w 0 ?node (Inr ?c)"
    by (simp add: composes_def conflicting_def clashing_def prepared_node_def example_candidate_def apply_nothing)
  moreover have "unat (lb_version (lc_base ?node)) \<le> 0" by (simp add: prepared_node_def example_base_def)
  ultimately have "compose_in ?L example_head (version_of layer_db 0) layer_db = Inr (Inr ?c)"
    using compose_in_iff [OF example_codecs_ok layer_db_ok(1) node, of 0] by simp
  moreover have "row_in ''p'' layer_db = None" by (simp add: row_in_def rows_in_def layer_db_index(2))
  moreover have "\<not> attempt_exists ''p'' layer_db" using new_db_ok(3) by (simp add: attempt_exists_def layer_db_def)
  moreover have "warnings_in ?L ByHuman layer_db = Inr []" by (simp add: warnings_in_def)
  ultimately show ?thesis
    using prepare_progress [OF example_codecs_ok layer_db_project _ _ vh _ _ st, of "''p''" ByHuman "[]"]
    by (simp add: head_number_def example_plan_def)
qed

lemma example_env_simps: "en_sha (co_env example_codecs) = last_byte_sha" "co_receipt example_codecs r = ''r''"
  by (simp_all add: example_codecs_def example_env_def)

lemma example_stored: "x \<in> stored_values layer_db \<Longrightarrow> x = (Tree, [CHR 0x00]) \<or> x = (Checkpoint, example_node)"
proof -
  assume "x \<in> stored_values layer_db"
  then have "kind_sql Tree = kind_sql (fst x) \<and> [CHR 0x00] = snd x \<or> kind_sql Checkpoint = kind_sql (fst x) \<and> example_node = snd x"
    by (auto simp: stored_values_def layer_db_def new_db_tables(1))
  then show ?thesis using kind_sql_inj [of Tree "fst x"] kind_sql_inj [of Checkpoint "fst x"] by (cases x) auto
qed

definition example_receipt :: publication_receipt where
  "example_receipt = plan_receipt (co_env example_codecs) layer_db [(Map.empty, [])] ''p'' example_head ByHuman example_plan"

lemma example_no_collision: "inj_on (id_of last_byte_sha) (stored_values layer_db \<union> {} \<union> {(Blob, ''r'')})"
proof (rule inj_onI)
  let ?S = "{(Tree, [CHR 0x00]), (Checkpoint, example_node), (Blob, ''r'')}"
  have id: "id_of last_byte_sha (Tree, [CHR 0x00]) = replicate 32 CHR 0x00" "id_of last_byte_sha (Blob, ''r'') = replicate 32 CHR ''r''"
    by (simp_all add: id_of_def object_hash_def last_byte_sha_def)
  have node: "id_of last_byte_sha (Checkpoint, example_node) = replicate 32 CHR ''c''" by (simp add: id_of_def example_node_hash)
  have hds: "hd (replicate 32 c) = c" for c :: char by (simp add: hd_replicate)
  fix x y assume h: "x \<in> stored_values layer_db \<union> {} \<union> {(Blob, ''r'')}" "y \<in> stored_values layer_db \<union> {} \<union> {(Blob, ''r'')}"
    and same: "id_of last_byte_sha x = id_of last_byte_sha y"
  then have xy: "x \<in> ?S" "y \<in> ?S" using example_stored [of x] example_stored [of y] by blast+
  have "hd (id_of last_byte_sha x) = hd (id_of last_byte_sha y)" by (simp add: same)
  then show "x = y" using xy id node hds by auto
qed

lemma example_published: "\<exists>d'. publish_round example_codecs (\<lambda>_ _. Inr ()) ''p'' example_head ByHuman layer_db layer_db = Inr (Some example_receipt, d')"
proof -
  have "plan_chunks example_plan = {}" by (simp add: plan_chunks_def example_plan_def)
  then have "inj_on (id_of (en_sha (co_env example_codecs))) (stored_values layer_db \<union> plan_chunks example_plan
      \<union> {(Blob, co_receipt example_codecs (plan_receipt (co_env example_codecs) layer_db [(Map.empty, [])] ''p'' example_head ByHuman example_plan))})"
    using example_no_collision by (simp add: example_env_simps)
  from publish_settles [OF example_codecs_ok layer_db_project example_prepare _ this, of "\<lambda>_ _. Inr ()"] show ?thesis
    by (simp add: example_receipt_def)
qed

lemma example_room: "has_room example_codecs example_head layer_db"
  unfolding has_room_def
proof (intro allI impI)
  fix w node assume w: "layers_ok example_codecs layer_db w" and n: "checkpoint_node example_codecs layer_db (lh_checkpoint example_head) = Inr node"
  have "node = prepared_node example_base [] example_candidate" using n example_checkpoint by (simp add: checkpoint_in_eq)
  then have ch: "lc_changes node = []" by (simp add: prepared_node_def example_candidate_def)
  have rp: "repo_ok (co_env example_codecs) layer_db w" "repo_ok (co_env example_codecs) layer_db [(Map.empty, [])]"
    using w layer_db_ok(1) by (simp_all add: layers_ok_def)
  have "length w = 1" using repo_versions(3) [OF rp(1)] repo_versions(3) [OF rp(2)] by simp
  then have "head_number w = 0" "0 < length w" by (simp_all add: head_number_def)
  moreover have "linked (co_env example_codecs) layer_db w 0" using repo_versions(6) [OF rp(1)] \<open>0 < length w\<close> by blast
  then have "fst (w ! 0) = Map.empty" by (simp add: linked_def Let_def)
  ultimately show "roomy (co_env example_codecs) (fst (w ! head_number w)) (lc_changes node)"
    by (simp add: roomy_def ch example_codecs_def example_env_def)
qed

end
