(* ===== verification/PublishExample.thy ===== *)
theory PublishExample
  imports PublishCalls
begin

text \<open>
  A repository in which a Layer with one file was published, from the initial database on, with a small hash that tells kinds of
  objects apart. The properties of publications are applied at it.
\<close>

section \<open>A new repository\<close>

lemma initial_trees:
  assumes "initial_db E identity = Inr d"
  shows "\<forall>r \<in> set (db_objects d). or_kind r = kind_sql Tree \<and> or_bytes r = [CHR 0x00]"
proof -
  define fresh where "fresh = \<lparr>db_format = FORMAT, db_application = APPLICATION, db_objects = [], db_attempts = [], db_versions = [],
     db_changes = [], db_identity = [(1, identity)], db_heads = [], db_layer_attempts = [],
     db_publications = [], db_stacks = [], db_paths = [], db_blame = []\<rparr>"
  obtain i d1 where i: "insert_object E Tree [CHR 0x00] fresh = Inr (i, d1)" and d: "db_objects d = db_objects d1"
    using assms unfolding initial_db_def fresh_def [symmetric] Let_def
    by (auto simp: tx_bind_Inr insert_version_def result_simps split: if_splits)
  obtain rows where "db_objects d1 = db_objects fresh @ rows" "\<forall>r \<in> set rows. r = \<lparr>or_id = i, or_kind = kind_sql Tree, or_bytes = [CHR 0x00]\<rparr>"
    by (rule insert_object_rows [OF i])
  then show ?thesis using d by (auto simp: fresh_def)
qed

lemma initial_project:
  assumes "initial_db (co_env L) identity = Inr d"
  shows "project_ok L d [(Map.empty, [])]" "db_identity d = [(1, identity)]" "db_publications d = []" "db_heads d = []" "db_attempts d = []"
    "db_layer_attempts d = []" "stored_values d \<subseteq> {(Tree, [CHR 0x00])}" "db_paths d = []"
proof -
  have i: "repo_ok (co_env L) d [(Map.empty, [])]" "db_identity d = [(1, identity)]" "db_publications d = []" "db_blame d = []"
      "db_heads d = [] \<and> db_layer_attempts d = [] \<and> db_stacks d = [] \<and> db_paths d = []" "db_attempts d = []"
    using initial_repo [of "co_env L" identity] assms by auto
  then show "db_identity d = [(1, identity)]" "db_publications d = []" "db_heads d = []" "db_attempts d = []" "db_layer_attempts d = []" "db_paths d = []" by simp_all
  have "or_kind r \<noteq> kind_sql Checkpoint" if "r \<in> set (db_objects d)" for r
    using initial_trees [OF assms] that kind_sql_inj [of Tree Checkpoint] by auto
  then have "no_layers d" using i(5) by (simp add: no_layers_def)
  then show "project_ok L d [(Map.empty, [])]" using project_initial [OF i(1) _ _ i(2-4)] by (simp add: checked_def)
  show "stored_values d \<subseteq> {(Tree, [CHR 0x00])}"
    using initial_trees [OF assms] kind_sql_inj [of Tree] by (fastforce simp: stored_values_def)
qed

section \<open>Encodings\<close>

definition kind_sha :: "bytes \<Rightarrow> bytes" where
  "kind_sha b = replicate 31 (last (CHR 0x00 # b)) @ [if 18 < length b then b ! 18 else CHR 0x00]"

definition sample_codecs :: codecs where
  "sample_codecs = example_codecs\<lparr>co_env := example_env\<lparr>en_sha := kind_sha, en_changes := (\<lambda>ch. if ch = [] then ''0'' else ''1'')\<rparr>,
     co_checkpoint := (\<lambda>e. unary (if ec_sources e \<noteq> [] then CHR ''e'' else if ec_changes e = [] then CHR ''c'' else CHR ''d'') (to_nat (checkpoint_tuple e)))\<rparr>"

lemma sample_env: "en_sha (co_env sample_codecs) = kind_sha" "en_fuel (co_env sample_codecs) = 3" "co_receipt sample_codecs r = ''r''"
  by (simp_all add: sample_codecs_def example_codecs_def example_env_def)

lemma kind_hash: "bs \<noteq> [] \<Longrightarrow> object_hash kind_sha k bs = replicate 31 (last bs) @ [kind_byte k]"
  by (simp add: object_hash_def kind_sha_def nth_Cons')

lemma sample_codecs_ok: "codecs_ok sample_codecs"
  unfolding codecs_ok_def
proof (intro conjI allI impI)
  have "env_ok example_env" by (rule example_env_ok)
  then show "env_ok (co_env sample_codecs)" by (simp add: sample_codecs_def env_ok_def hash_ok_def kind_sha_def example_env_def)
  fix e assume "encoded_ok e"
  moreover have "\<lparr>ec_repository = ec_repository e, ec_version = ec_version e, ec_world = ec_world e, ec_changes = ec_changes e,
      ec_sources = ec_sources e, ec_provenance = ec_provenance e\<rparr> = e" by simp
  ultimately show "co_uncheckpoint sample_codecs (co_checkpoint sample_codecs e) = Inr e"
    unfolding sample_codecs_def example_codecs_def
    by (simp only: codecs.simps unary_def length_replicate diff_Suc_1 from_nat_to_nat checkpoint_tuple_def case_prod_conv Let_def if_True)
next
  fix b e assume "co_uncheckpoint sample_codecs b = Inr e"
  then show "encoded_ok e" by (auto simp: sample_codecs_def example_codecs_def Let_def split: prod.splits if_splits)
next
  fix p :: provenance
  show "co_unprovenance sample_codecs (co_provenance sample_codecs p) = Inr p"
    by (simp add: sample_codecs_def example_codecs_def unary_def provenance_tuple_def)
next
  fix b show "co_unbinding sample_codecs (co_binding sample_codecs b) = Inr (sb_resolution b)"
    by (simp add: sample_codecs_def example_codecs_def unary_def)
qed

lemma sample_checkpoint: "checkpoint_bytes sample_codecs base ch sources provenance \<noteq> []"
    "last (checkpoint_bytes sample_codecs base ch sources provenance) = (if sources \<noteq> [] then CHR ''e'' else if ch = [] then CHR ''c'' else CHR ''d'')"
  by (simp_all add: checkpoint_bytes_def sample_codecs_def unary_def last_replicate del: replicate_Suc)

section \<open>A file\<close>

definition sample_content :: object_id where
  "sample_content = replicate 31 CHR ''y'' @ [CHR 0x01]"

definition sample_changes :: changes where
  "sample_changes = [(''a'', Some (Regular sample_content False))]"

definition sample_chunk :: chunk where
  "sample_chunk = \<lparr>ch_level = 0, ch_items = [\<lparr>it_name = ''a'', it_tag = Suc 0, it_id = sample_content\<rparr>]\<rparr>"

definition sample_root :: object_id where
  "sample_root = chunk_id kind_sha sample_chunk"

lemma sample_chunk_hash: "chunk_encode sample_chunk \<noteq> []" "last (chunk_encode sample_chunk) = CHR 0x01"
  by (simp_all add: sample_chunk_def chunk_encode_def item_encode_def sample_content_def)

lemma sample_apply:
  assumes "put_chunk kind_sha sample_chunk s = (Inr sample_root, s')"
  shows "tree_apply 3 kind_sha (empty_tree kind_sha) sample_changes s = (Inr sample_root, s')"
  using assms unfolding tbind_def
  by (simp add: sample_changes_def tree_apply_def apply_dir.simps apply_groups.simps group_changes_def
      group_change_def tbind_def tread_def tret_def find_empty tombstone_ambiguous_def next_node_def sample_chunk_def
      update_dir_def Let_def build_level.simps MAX_LEVEL_def push_first cut_level_def chunker_finish_cases tree_root_def)

lemma sample_text: "changes_text sample_changes" "omap_ok sample_changes"
  using example_path by (simp_all add: changes_text_def sample_changes_def path_valid_def)

section \<open>No collision\<close>

definition sample_values :: "layer_base \<Rightarrow> (object_kind \<times> bytes) set" where
  "sample_values base = {(Tree, [CHR 0x00]), (Blob, ''y''), (Checkpoint, checkpoint_bytes sample_codecs base [] [] None),
     (Checkpoint, checkpoint_bytes sample_codecs base sample_changes [] None), (Tree, chunk_encode sample_chunk), (Blob, ''r'')}"

lemma sample_no_collision: "inj_on (id_of (en_sha (co_env sample_codecs))) (sample_values base)"
proof (rule inj_onI)
  fix x y assume h: "x \<in> sample_values base" "y \<in> sample_values base" "id_of (en_sha (co_env sample_codecs)) x = id_of (en_sha (co_env sample_codecs)) y"
  have ne: "snd v \<noteq> []" if "v \<in> sample_values base" for v
    using that sample_checkpoint(1) sample_chunk_hash(1) by (auto simp: sample_values_def)
  have "31 = Suc 30" by simp
  then have hl: "hd (replicate 31 c @ [k]) = c" "last (replicate 31 c @ [k]) = k" for c k :: char by simp_all
  have g: "hd (id_of kind_sha v) = last (snd v)" "last (id_of kind_sha v) = kind_byte (fst v)" if "v \<in> sample_values base" for v
    unfolding id_of_def kind_hash [OF ne [OF that]] hl by simp_all
  have same: "last (snd x) = last (snd y)" "kind_byte (fst x) = kind_byte (fst y)"
    using h(3) g [OF h(1)] g [OF h(2)] by (simp_all add: sample_env)
  have ch: "sample_changes \<noteq> []" by (simp add: sample_changes_def)
  show "x = y"
    using h(1,2) same sample_checkpoint(2) [of base "[]" "[]" None] sample_checkpoint(2) [of base sample_changes "[]" None] sample_chunk_hash(2) ch
    by (simp add: sample_values_def) (elim disjE; simp)
qed

lemma kept_values: "db_objects d' = db_objects d \<Longrightarrow> stored_values d' = stored_values d"
  by (simp add: stored_values_def)

lemma track_tables: "track_in layer candidate d = Inr (u, d') \<Longrightarrow> db_objects d' = db_objects d \<and> db_identity d' = db_identity d"
  unfolding track_in_def ebind_Inr_iff
  by (elim exE conjE, rename_tac stale, case_tac "track_changes layer candidate (ca_changes candidate) stale (db_paths d)") auto

lemma head_tables: "insert_head row d = Inr (u, d') \<Longrightarrow> db_objects d' = db_objects d"
  by (auto simp: insert_head_def ebind_Inr_iff split: if_splits)

lemma update_objects:
  assumes "settle_update L operation expected candidate discard None None d = Inr (outcome, d')"
  shows "db_objects d' = db_objects d"
proof -
  have m: "db_objects e' = db_objects e" if "move_head operation expected candidate discard result e = Inr (u, e')" for result u e e'
    using that track_tables head_tables by (auto simp: move_head_def tx_bind_Inr untrack_in_def split: if_splits)
  have i: "db_objects e' = db_objects e" if "insert_layer_attempt row e = Inr (u, e')" for row u e e'
    using that by (auto simp: insert_layer_attempt_def result_simps split: if_splits)
  show ?thesis using assms m i
    by (auto simp: settle_update_def Let_def tx_bind_Inr tx_read_Inr tx_ret_def bind_stack_def split: if_splits)
qed

section \<open>The run\<close>

text \<open>A checkpoint that can be stored.\<close>

lemma prepare_progress_none:
  assumes "codecs_ok L" "layers_ok L d w" "validate_base base d = Inr ()" "normalize (index_in (co_env L) d (lb_version base)) ch = Inr ch'"
    "inj_on (id_of (en_sha (co_env L))) S" "stored_values d \<subseteq> S" "(Checkpoint, checkpoint_bytes L base ch' [] None) \<in> S"
  shows "\<exists>d'. prepare_checkpoint L base ch [] None d
      = Inr (\<lparr>ca_id = object_hash (en_sha (co_env L)) Checkpoint (checkpoint_bytes L base ch' [] None), ca_changes = ch', ca_provenance = None\<rparr>, d')
    \<and> adds_objects d d' \<and> stored_values d' \<subseteq> S"
proof -
  have "objects_ok (co_env L) d" using assms(2) by (simp add: layers_ok_def repo_ok_def)
  from insert_progress [OF this assms(5-7)] show ?thesis
    using assms(3,4) by (auto simp: prepare_checkpoint_def prepare_provenance_def tx_bind_def tx_read_def tx_ret_def)
qed

lemma first_head:
  assumes "db_heads d = []" "identity_in d = Inr identity" "track_in layer candidate (d\<lparr>db_heads := hs\<rparr>) = Inr ((), d')"
    "hs = [\<lparr>hr_layer = layer, hr_revision = 0, hr_checkpoint = ca_id candidate, hr_discarded = 0, hr_operation = None\<rparr>]"
  shows "create_in layer candidate d = Inr (\<lparr>lh_repository = identity, lh_layer = layer, lh_revision = 0, lh_checkpoint = ca_id candidate\<rparr>, d')"
proof -
  have "db_identity d' = db_identity d" using track_tables [OF assms(3)] by simp
  then have "identity_in d' = Inr identity" using assms(2) by (simp add: identity_in_def)
  then show ?thesis using assms
    by (simp add: create_in_def ensure_first_def layer_exists_def insert_head_def insert_unique_def tx_bind_def tx_read_def tx_ret_def)
qed

abbreviation (input) first_log :: world_log where "first_log \<equiv> [(Map.empty, [])]"

definition sample_head :: "object_id \<Rightarrow> layer_head" where
  "sample_head c = \<lparr>lh_repository = xs32, lh_layer = ''l'', lh_revision = 0, lh_checkpoint = c\<rparr>"

text \<open>The file's content is stored and an empty Layer stands on World 0.\<close>

lemma sample_created:
  "\<exists>d0 d base candidate. initial_db (co_env sample_codecs) xs32 = Inr d0 \<and> project_run sample_codecs d0 d
    \<and> project_ok sample_codecs d first_log \<and> db_publications d = [] \<and> db_attempts d = [] \<and> db_layer_attempts d = []
    \<and> stored_values d \<subseteq> sample_values base \<and> lb_version base = 0 \<and> validate_base base d = Inr ()
    \<and> read_object (co_env sample_codecs) d sample_content Blob = Inr ''y''
    \<and> checkpoint_node sample_codecs d (ca_id candidate) = Inr (prepared_node base [] candidate)
    \<and> head_at d (sample_head (ca_id candidate)) 0 \<and> length (layer_rows ''l'' d) = 1"
proof -
  let ?L = sample_codecs let ?E = "co_env sample_codecs"
  obtain d0 where d0: "initial_db ?E xs32 = Inr d0" using initial_repo [of ?E xs32] by blast
  note i = initial_project [of ?L xs32 d0, OF d0]
  define base where "base = \<lparr>lb_repository = xs32, lb_version = 0, lb_world = wv_id (version_of d0 0)\<rparr>"
  let ?S = "sample_values base"
  have inj: "inj_on (id_of (en_sha ?E)) ?S" by (rule sample_no_collision)
  have rp0: "repo_ok ?E d0 first_log" using i(1) by (simp add: project_ok_def layers_ok_def)
  have "objects_ok ?E d0" using rp0 by (simp add: repo_ok_def)
  moreover have "stored_values d0 \<subseteq> ?S" using i(7) by (auto simp: sample_values_def)
  moreover have "(Blob, ''y'') \<in> ?S" by (simp add: sample_values_def)
  ultimately obtain d1 where d1: "insert_object ?E Blob ''y'' d0 = Inr (object_hash (en_sha ?E) Blob ''y'', d1)" "adds_objects d0 d1"
      "stored_values d1 \<subseteq> ?S" "objects_ok ?E d1"
    using insert_progress [OF _ inj] by blast
  have content: "object_hash (en_sha ?E) Blob ''y'' = sample_content" by (simp add: sample_env kind_hash sample_content_def)
  have read: "read_object ?E d1 sample_content Blob = Inr ''y''"
    using insert_object_Inr(4) [OF _ d1(1)] rp0 content by (simp add: repo_ok_def)
  have step1: "layer_step ?L d0 d1" by (rule layer_step.blob) (use d1(1) in \<open>simp add: put_blob_def\<close>)
  then have p1: "project_ok ?L d1 first_log" using layer_step_project [OF sample_codecs_ok i(1)] by blast
  then have l1: "layers_ok ?L d1 first_log" and rp1: "repo_ok ?E d1 first_log" by (simp_all add: project_ok_def layers_ok_def)
  have t1: "db_identity d1 = [(1, xs32)]" "db_publications d1 = []" "db_heads d1 = []" "db_attempts d1 = []" "db_layer_attempts d1 = []"
      "db_paths d1 = []" "db_versions d1 = db_versions d0"
    using d1(2) i(2-6,8) by (auto simp: adds_objects_def)
  have "version_in 0 d1 = Inr (version_of d1 0)" using version_in_spec [OF rp1, of 0] by simp
  moreover have "version_of d1 0 = version_of d0 0" using t1(7) by (simp add: version_of_def)
  ultimately have base1: "validate_base base d1 = Inr ()" using t1(1) by (simp add: validate_base_iff base_def identity_in_def)
  have norm: "normalize (index_in ?E d1 (lb_version base)) [] = Inr []" by (rule normalize_nothing [OF rp1]) (simp add: base_def)
  define candidate where "candidate = \<lparr>ca_id = object_hash (en_sha ?E) Checkpoint (checkpoint_bytes ?L base [] [] None), ca_changes = [], ca_provenance = None\<rparr>"
  have "(Checkpoint, checkpoint_bytes ?L base [] [] None) \<in> ?S" by (simp add: sample_values_def)
  from prepare_progress_none [OF sample_codecs_ok l1 base1 norm inj d1(3) this] obtain d2 where
    d2: "prepare_checkpoint ?L base [] [] None d1 = Inr (candidate, d2)" "adds_objects d1 d2" "stored_values d2 \<subseteq> ?S"
    unfolding candidate_def by blast
  have t: "changes_text []" "provenance_ok None" "oset_ok ([] :: object_id list)" by (simp_all add: changes_text_def provenance_ok_def oset_ok_def)
  note p2 = prepare_checkpoint_spec [OF sample_codecs_ok l1 t _ d2(1), simplified]
  have t2: "db_identity d2 = [(1, xs32)]" "db_heads d2 = []" "db_paths d2 = []" using d2(2) t1 by (auto simp: adds_objects_def)
  let ?hs = "[\<lparr>hr_layer = ''l'', hr_revision = 0, hr_checkpoint = ca_id candidate, hr_discarded = 0, hr_operation = None\<rparr>]"
  let ?d3 = "d2\<lparr>db_heads := ?hs, db_paths := []\<rparr>"
  have "track_in ''l'' candidate (d2\<lparr>db_heads := ?hs\<rparr>) = Inr ((), ?d3)"
    by (simp add: track_in_def tracked_in_def omap_of_def candidate_def t2(3))
  moreover have "identity_in d2 = Inr xs32" using t2(1) by (simp add: identity_in_def)
  ultimately have c3: "create_in ''l'' candidate d2 = Inr (sample_head (ca_id candidate), ?d3)"
    using first_head [OF t2(2), of xs32 "''l''" candidate ?hs] by (simp add: sample_head_def)
  have "validate_format d1 = Inr ()" using rp1 by (simp add: repo_ok_def)
  then have step2: "layer_step ?L d1 ?d3"
    using d2(1) c3 by (intro layer_step.create [where layer = "''l''" and base = base and head = "sample_head (ca_id candidate)"])
      (simp add: create_layer_def tx_bind_def tx_read_def)
  have p3: "project_ok ?L ?d3 first_log" using layer_step_project [OF sample_codecs_ok p1 step2] by blast
  have g: "grown ?E d1 first_log ?d3 first_log" using layer_step_kept [OF sample_codecs_ok l1 step2] by blast
  note k = create_in_kept [OF sample_codecs_ok p2(1,4) c3]
  have "project_run ?L d0 ?d3"
    by (rule project_run.step [OF project_run.step [OF project_run.start project_step.layer [OF step1]] project_step.layer [OF step2]])
  moreover have "read_object ?E ?d3 sample_content Blob = Inr ''y''" using read_object_keeps [OF _ read] g by (simp add: grown_def)
  moreover have "validate_base base ?d3 = Inr ()" 
    using checkpoint_node_grown [OF sample_codecs_ok k(2) p2(4)]
    by (simp add: checkpoint_node_iff [OF sample_codecs_ok] checkpoint_at_def prepared_node_def)
  moreover have "db_publications ?d3 = [] \<and> db_attempts ?d3 = [] \<and> db_layer_attempts ?d3 = []" using d2(2) t1 by (auto simp: adds_objects_def)
  moreover have "stored_values ?d3 \<subseteq> ?S" using d2(3) by (simp add: stored_values_def)
  ultimately show ?thesis
    using d0 p3 k(4) checkpoint_node_grown [OF sample_codecs_ok k(2) p2(4)]
    by (intro exI [of _ d0] exI [of _ ?d3] exI [of _ base] exI [of _ candidate]) (simp add: base_def layer_rows_def)
qed

text \<open>The file is captured.\<close>

lemma sample_leads: "\<not> ambiguous Map.empty sample_changes" "disjoint_paths (upd Map.empty sample_changes)"
    "filter (\<lambda>(p, e). Map.empty p \<noteq> e) sample_changes = sample_changes"
proof -
  show "\<not> ambiguous Map.empty sample_changes" by (simp add: ambiguous_def sample_changes_def)
  show "filter (\<lambda>(p, e). Map.empty p \<noteq> e) sample_changes = sample_changes" by (simp add: sample_changes_def)
  have "upd Map.empty sample_changes p = None" if "p \<noteq> ''a''" for p using that by (simp add: upd_def sample_changes_def)
  then show "disjoint_paths (upd Map.empty sample_changes)"
    unfolding disjoint_paths_def below_iff by (metis append_is_Nil_conv list.inject append_Cons append_Nil list.distinct(1))
qed

lemma sample_captured:
  "\<exists>d0 d base candidate. initial_db (co_env sample_codecs) xs32 = Inr d0 \<and> project_run sample_codecs d0 d
    \<and> project_ok sample_codecs d first_log \<and> db_publications d = [] \<and> db_attempts d = []
    \<and> stored_values d \<subseteq> sample_values base \<and> lb_version base = 0 \<and> ca_changes candidate = sample_changes
    \<and> checkpoint_node sample_codecs d (ca_id candidate) = Inr (prepared_node base [] candidate)
    \<and> layer_state_in sample_codecs ''l'' d = Inr (Active ((sample_head (ca_id candidate))\<lparr>lh_revision := 1\<rparr>))"
proof -
  let ?L = sample_codecs let ?E = "co_env sample_codecs"
  obtain d0 d base first where a: "initial_db ?E xs32 = Inr d0" "project_run ?L d0 d" "project_ok ?L d first_log" "db_publications d = []"
      "db_attempts d = []" "db_layer_attempts d = []" "stored_values d \<subseteq> sample_values base" "lb_version base = 0" "validate_base base d = Inr ()"
      "read_object ?E d sample_content Blob = Inr ''y''" "checkpoint_node ?L d (ca_id first) = Inr (prepared_node base [] first)"
      "head_at d (sample_head (ca_id first)) 0" "length (layer_rows ''l'' d) = 1"
    using sample_created by blast
  let ?head = "sample_head (ca_id first)" let ?S = "sample_values base"
  have inj: "inj_on (id_of (en_sha ?E)) ?S" by (rule sample_no_collision)
  have l: "layers_ok ?L d first_log" "index_ok ?L d" and rp: "repo_ok ?E d first_log" using a(3) by (simp_all add: project_ok_def layers_ok_def)
  have "\<forall>p x. (p, Some x) \<in> set sample_changes \<longrightarrow> validate_entry ?E d x = Inr ()"
    using a(10) by (simp add: sample_changes_def validate_entry_def)
  then have norm: "normalize (index_in ?E d (lb_version base)) sample_changes = Inr sample_changes"
    using normalize_in_iff [OF rp, of "lb_version base" sample_changes sample_changes] sample_text(2) sample_leads a(8) by simp
  define candidate where "candidate = \<lparr>ca_id = object_hash (en_sha ?E) Checkpoint (checkpoint_bytes ?L base sample_changes [] None),
      ca_changes = sample_changes, ca_provenance = None\<rparr>"
  have "(Checkpoint, checkpoint_bytes ?L base sample_changes [] None) \<in> ?S" by (simp add: sample_values_def)
  from prepare_progress_none [OF sample_codecs_ok l(1) a(9) norm inj a(7) this] obtain d1 where
    d1: "prepare_checkpoint ?L base sample_changes [] None d = Inr (candidate, d1)" "adds_objects d d1" "stored_values d1 \<subseteq> ?S"
    unfolding candidate_def by blast
  let ?before = "prepared_node base [] first"
  have before: "checkpoint_in ?L (lh_checkpoint ?head) d = Inr ?before" using a(11) by (simp add: checkpoint_in_eq sample_head_def)
  have lb: "lc_base ?before = base" "lc_sources ?before = []" by (simp_all add: prepared_node_def)
  have none: "layer_attempt_row_in ''o'' d = None" by (simp add: layer_attempt_row_in_def a(6) find_row_def)
  have np: "\<not> published (lh_layer ?head) d" by (simp add: published_def a(4))
  have len: "Suc 0 = length (layer_rows (lh_layer ?head) d)" using a(13) by (simp add: sample_head_def)
  have prov: "provenance_ok None" by (simp add: provenance_ok_def)
  let ?next = "Active \<lparr>lh_repository = lh_repository ?head, lh_layer = lh_layer ?head, lh_revision = num (Suc 0), lh_checkpoint = ca_id candidate\<rparr>"
  from capture_applies [OF sample_codecs_ok l sample_text(1) prov a(12) len _ none np before, unfolded lb, OF _ d1(1)]
  obtain d2 where d2: "capture_layer ?L None ''o'' ?head sample_changes d = Inr (UpdateApplied ?next, d2)" by auto
  obtain before' candidate' d1' where u: "checkpoint_in ?L (lh_checkpoint ?head) d = Inr before'"
    "prepare_checkpoint ?L (lc_base before') sample_changes (lc_sources before') None d = Inr (candidate', d1')"
    "update_in ?L ''o'' ?head candidate' False None None d1' = Inr (UpdateApplied ?next, d2)"
    "layers_ok ?L d1' first_log" "update_input ?L d1' ?head candidate' False None None"
    by (rule capture_spec [OF sample_codecs_ok l(1) sample_text(1) prov d2])
  have same: "before' = ?before" "candidate' = candidate" "d1' = d1" using u(1,2) before d1(1) lb by simp_all
  have none1: "layer_attempt_row_in ''o'' d1 = None" using none d1(2) by (auto simp: layer_attempt_row_in_def adds_objects_def)
  note k = update_in_kept [OF sample_codecs_ok u(4,5,3), unfolded same]
  have "settle_update ?L ''o'' ?head candidate False None None d1 = Inr (UpdateApplied ?next, d2)"
    using u(3) none1 by (simp add: update_in_def tx_bind_def tx_read_def same)
  then have kept: "stored_values d2 \<subseteq> ?S" using kept_values [OF update_objects] d1(3) by blast
  have step: "layer_step ?L d d2" by (rule layer_step.capture [OF d2 sample_text(1) prov])
  have p2: "project_ok ?L d2 first_log" and leaves: "leaves_publications d d2" using layer_step_project [OF sample_codecs_ok a(3) step] by blast+
  have t: "db_publications d2 = []" "db_attempts d2 = []"
    using leaves framed_tables a(4,5) by (auto simp: leaves_publications_def)
  have p1: "checkpoint_node ?L d1 (ca_id candidate) = Inr (prepared_node base [] candidate)"
    using prepare_checkpoint_spec(4) [OF sample_codecs_ok l(1) sample_text(1) prov _ _ d1(1)] by (simp add: oset_ok_def)
  have node: "checkpoint_node ?L d2 (ca_id candidate) = Inr (prepared_node base [] candidate)"
    by (rule checkpoint_node_grown [OF sample_codecs_ok k(2) p1])
  have rows1: "layer_rows ''l'' d1 = layer_rows ''l'' d" using d1(2) by (auto simp: adds_objects_def layer_rows_def)
  let ?row = "\<lparr>hr_layer = ''l'', hr_revision = 1, hr_checkpoint = ca_id candidate, hr_discarded = 0, hr_operation = Some ''o''\<rparr>"
  have heads: "db_heads d2 = db_heads d1 @ [?row]"
    using k(4) [OF none1] a(13) by (simp add: swapped_def Let_def sample_head_def rows1)
  have rows: "layer_rows ''l'' d2 = layer_rows ''l'' d1 @ [?row]" by (simp add: layer_rows_def heads)
  have l2: "layers_ok ?L d2 first_log" using p2 by (simp add: project_ok_def)
  from latest_state [OF l2, of "''l''"] rows obtain identity where i: "identity_in d2 = Inr identity"
      "latest_event_state_in ''l'' d2 = Inr (event_state identity (event_of ?row))" by auto
  have "identity_in d = Inr xs32" using a(12) by (simp add: head_at_def sample_head_def)
  moreover have "grown ?E d first_log d2 first_log" using layer_step_kept [OF sample_codecs_ok l(1) step] by blast
  ultimately have "identity = xs32" using identity_grown i(1) by fastforce
  then have "layer_state_in ?L ''l'' d2 = Inr (Active ((sample_head (ca_id candidate))\<lparr>lh_revision := 1\<rparr>))"
    using i(2) by (simp add: layer_state_in_def published_state_in_def rows_in_def t(1) event_state_def event_of_def sample_head_def)
  then show ?thesis
    using a(1) project_run.step [OF a(2) project_step.layer [OF step]] p2 t kept a(8) node
    by (intro exI [of _ d0] exI [of _ d2] exI [of _ base] exI [of _ candidate]) (simp add: candidate_def)
qed

text \<open>The Layer is published.\<close>

lemma one_version:
  assumes "repo_ok E d first_log" "repo_ok E d w"
  shows "fst (w ! head_number w) = Map.empty"
proof -
  have "length w = 1" using repo_versions(3) [OF assms(1)] repo_versions(3) [OF assms(2)] by simp
  then have "head_number w = 0" "0 < length w" by (simp_all add: head_number_def)
  moreover have "linked E d w 0" using repo_versions(6) [OF assms(2)] \<open>0 < length w\<close> by blast
  then have "fst (w ! 0) = Map.empty" by (simp add: linked_def Let_def)
  ultimately show ?thesis by simp
qed

definition sample_published :: "db \<Rightarrow> db \<Rightarrow> db \<Rightarrow> layer_head \<Rightarrow> publish_plan \<Rightarrow> bool" where
  "sample_published d0 d d' head plan \<longleftrightarrow> initial_db (co_env sample_codecs) xs32 = Inr d0 \<and> project_run sample_codecs d0 d
    \<and> project_ok sample_codecs d first_log \<and> has_room sample_codecs head d \<and> row_in ''p'' d = None
    \<and> prepare_in sample_codecs ''p'' head ByHuman d = Inr (Advance plan)
    \<and> (\<exists>c. pp_composed plan = Some (Inr c) \<and> cv_changes c = sample_changes)
    \<and> (\<exists>node. checkpoint_node sample_codecs d (lh_checkpoint head) = Inr node \<and> lc_changes node = sample_changes) \<and> lh_layer head = ''l''
    \<and> inj_on (id_of (en_sha (co_env sample_codecs))) (stored_values d \<union> plan_chunks plan
        \<union> {(Blob, co_receipt sample_codecs (plan_receipt (co_env sample_codecs) d first_log ''p'' head ByHuman plan))})
    \<and> publish_round sample_codecs (\<lambda>_ _. Inr ()) ''p'' head ByHuman d d
       = Inr (Some (plan_receipt (co_env sample_codecs) d first_log ''p'' head ByHuman plan), d')"

lemma sample_publication: "\<exists>d0 d d' head plan. sample_published d0 d d' head plan"
proof -
  let ?L = sample_codecs let ?E = "co_env sample_codecs"
  obtain d0 d base candidate where a: "initial_db ?E xs32 = Inr d0" "project_run ?L d0 d" "project_ok ?L d first_log" "db_publications d = []"
      "db_attempts d = []" "stored_values d \<subseteq> sample_values base" "lb_version base = 0" "ca_changes candidate = sample_changes"
      "checkpoint_node ?L d (ca_id candidate) = Inr (prepared_node base [] candidate)"
      "layer_state_in ?L ''l'' d = Inr (Active ((sample_head (ca_id candidate))\<lparr>lh_revision := 1\<rparr>))"
    using sample_captured by blast
  let ?head = "(sample_head (ca_id candidate))\<lparr>lh_revision := 1\<rparr>" let ?node = "prepared_node base [] candidate"
  have layer: "lh_layer ?head = ''l''" "lh_checkpoint ?head = ca_id candidate" by (simp_all add: sample_head_def)
  have ch: "lc_changes ?node = sample_changes" "lc_base ?node = base" by (simp_all add: prepared_node_def a(8))
  have l: "layers_ok ?L d first_log" and rp: "repo_ok ?E d first_log" using a(3) by (simp_all add: project_ok_def layers_ok_def)
  have st: "layer_state_in ?L (lh_layer ?head) d = Inr (Active ?head)" using a(10) layer by simp
  have hist: "history_ok ?L d (layer_rows (lh_layer ?head) d)" using l by (simp add: layers_ok_def)
  have vh: "verify_head ?head d = Inr ()" using verify_head_iff [OF hist] active_state(3) [OF l st] by blast
  let ?s = "snd (put_chunk kind_sha sample_chunk (tree_view d))"
  have "put_chunk kind_sha sample_chunk (tree_view d) = (Inr sample_root, ?s)"
    using put_chunk_simps(1) [of kind_sha sample_chunk "tree_view d"] by (simp add: prod_eq_iff sample_root_def)
  from sample_apply [OF this] have app: "tree_apply 3 kind_sha (empty_tree kind_sha) sample_changes (tree_view d) = (Inr sample_root, ?s)" .
  have saved: "ms_saved ?s = [(sample_root, chunk_encode sample_chunk)]" by (simp add: sample_root_def)
  let ?c = "\<lparr>cv_changes = sample_changes, cv_tree = sample_root, cv_chunks = [(sample_root, chunk_encode sample_chunk)]\<rparr> :: composed_version"
  have root: "vr_tree (db_versions d ! 0) = empty_tree kind_sha" using genesis_tree [OF rp] by (simp add: sample_env)
  have "conflicting first_log 0 ?node = {}" using ch a(7) by (simp add: conflicting_def clashing_def base_map_def)
  then have "composes ?L d first_log 0 ?node (Inr ?c)"
    using app saved by (simp add: composes_def ch sample_env root)
  then have "compose_in ?L ?head (version_of d 0) d = Inr (Inr ?c)"
    using compose_in_iff [OF sample_codecs_ok l, of ?head ?node 0] a(7,9) layer ch by simp
  moreover have "row_in ''p'' d = None" by (simp add: row_in_def rows_in_def a(4))
  moreover have "\<not> attempt_exists ''p'' d" by (simp add: attempt_exists_def a(5))
  moreover have "warnings_in ?L ByHuman d = Inr []" by (simp add: warnings_in_def)
  ultimately obtain plan where plan: "prepare_in ?L ''p'' ?head ByHuman d = Inr (Advance plan)" "pp_composed plan = Some (Inr ?c)"
    using prepare_progress [OF sample_codecs_ok a(3) _ _ vh _ _ st, of "''p''" ByHuman "[]"]
    by (simp add: head_number_def)
  have "plan_chunks plan = {(Tree, chunk_encode sample_chunk)}" by (simp add: plan_chunks_def plan(2))
  then have "stored_values d \<union> plan_chunks plan \<union> {(Blob, co_receipt ?L r)} \<subseteq> sample_values base" for r
    using a(6) by (auto simp: sample_values_def sample_env)
  then have inj: "inj_on (id_of (en_sha ?E)) (stored_values d \<union> plan_chunks plan \<union> {(Blob, co_receipt ?L r)})" for r
    by (rule inj_on_subset [OF sample_no_collision])
  from publish_settles [OF sample_codecs_ok a(3) plan(1) _ inj, of "\<lambda>_ _. Inr ()"] obtain d' where
    run: "publish_round ?L (\<lambda>_ _. Inr ()) ''p'' ?head ByHuman d d = Inr (Some (plan_receipt ?E d first_log ''p'' ?head ByHuman plan), d')" by auto
  have "has_room ?L ?head d" unfolding has_room_def
  proof (intro allI impI)
    fix w node assume w: "layers_ok ?L d w" and n: "checkpoint_node ?L d (lh_checkpoint ?head) = Inr node"
    have "node = ?node" using n a(9) layer by simp
    then show "roomy ?E (fst (w ! head_number w)) (lc_changes node)"
      using one_version [OF rp, of w] w ch by (simp add: roomy_def layers_ok_def sample_env sample_changes_def MAX_LEVEL_def)
  qed
  then have "sample_published d0 d d' ?head plan"
    using a plan run inj layer ch(1) unfolding sample_published_def by (simp add: row_in_def rows_in_def)
  then show ?thesis by blast
qed

end
