(* ===== verification/Blaming.thy ===== *)
theory Blaming
  imports ProjectChecks
begin

text \<open>
  Path blame (\<open>blame\<close> of \<open>src/blame.rs\<close>) against the history: it answers with the last change of the path, and for a
  published change with the Layer and the checkpoint since which that Layer has had the content.
\<close>

section \<open>Attribution\<close>

text \<open>The event of a Layer since which a path has had its entry.\<close>

definition has_entry :: "codecs \<Rightarrow> db \<Rightarrow> head_row list \<Rightarrow> nat \<Rightarrow> string \<Rightarrow> file_entry option \<Rightarrow> bool" where
  "has_entry L d rs j p e \<longleftrightarrow> map_of (lc_changes (node_of L d (hr_checkpoint (rs ! j)))) p = Some e"

definition since :: "codecs \<Rightarrow> db \<Rightarrow> head_row list \<Rightarrow> string \<Rightarrow> file_entry option \<Rightarrow> nat \<Rightarrow> bool" where
  "since L d rs p e k \<longleftrightarrow> k < length rs \<and> (\<forall>j. k \<le> j \<longrightarrow> j < length rs \<longrightarrow> has_entry L d rs j p e)
     \<and> (k \<noteq> 0 \<longrightarrow> \<not> has_entry L d rs (k - 1) p e)"

lemma map_of_attribute: "map_of (attribute_paths node t) p = map_option (\<lambda>e. (e,
    case map_of t p of Some (before, origin) \<Rightarrow> if before = e then origin else (lc_id node, lc_provenance node) | None \<Rightarrow> (lc_id node, lc_provenance node)))
    (map_of (lc_changes node) p)"
proof -
  have "map_of (map (\<lambda>(path, entry). (path, entry, g path entry)) xs) p = map_option (\<lambda>e. (e, g p e)) (map_of xs p)"
    for g :: "string \<Rightarrow> file_entry option \<Rightarrow> object_id \<times> object_id option" and xs by (induction xs) auto
  then show ?thesis unfolding attribute_paths_def by simp
qed

lemma has_entry_snoc: "j < length rs \<Longrightarrow> has_entry L d (rs @ [r]) j p e = has_entry L d rs j p e"
  by (simp add: has_entry_def nth_append)

lemma attributed_since:
  "map_of (attributed L d rs) p = Some (e, c, pr) \<Longrightarrow> \<exists>k. since L d rs p e k
     \<and> c = lc_id (node_of L d (hr_checkpoint (rs ! k))) \<and> pr = lc_provenance (node_of L d (hr_checkpoint (rs ! k)))"
proof (induction rs arbitrary: e c pr rule: rev_induct)
  case Nil
  then show ?case by (simp add: attributed_def)
next
  case (snoc r rs)
  let ?node = "node_of L d (hr_checkpoint r)" let ?rs = "rs @ [r]"
  have e: "map_of (lc_changes ?node) p = Some e" and o: "(c, pr) = (case map_of (attributed L d rs) p of
      Some (before, origin) \<Rightarrow> if before = e then origin else (lc_id ?node, lc_provenance ?node) | None \<Rightarrow> (lc_id ?node, lc_provenance ?node))"
    using snoc.prems by (auto simp: attributed_snoc map_of_attribute)
  have last: "has_entry L d ?rs (length rs) p e" by (simp add: has_entry_def e)
  show ?case
  proof (cases "\<exists>c' pr'. map_of (attributed L d rs) p = Some (e, c', pr')")
    case True
    then have "map_of (attributed L d rs) p = Some (e, c, pr)" using o by auto
    then obtain k where k: "since L d rs p e k" "c = lc_id (node_of L d (hr_checkpoint (rs ! k)))"
        "pr = lc_provenance (node_of L d (hr_checkpoint (rs ! k)))" using snoc.IH by blast
    then have "since L d ?rs p e k"
      using last has_entry_snoc [where rs = rs and r = r and L = L and d = d and p = p and e = e] unfolding since_def
      by (auto simp: less_Suc_eq)
    then show ?thesis using k by (intro exI [of _ k]) (simp add: since_def nth_append)
  next
    case False
    then have new: "c = lc_id ?node" "pr = lc_provenance ?node" using o by (auto split: option.splits prod.splits if_splits)
    have "\<not> has_entry L d ?rs (length rs - 1) p e" if "rs \<noteq> []"
    proof
      let ?r' = "last rs"
      assume "has_entry L d ?rs (length rs - 1) p e"
      then have "map_of (lc_changes (node_of L d (hr_checkpoint ?r'))) p = Some e"
        using that by (simp add: has_entry_def nth_append last_conv_nth)
      then have "\<exists>o'. map_of (attributed L d (butlast rs @ [?r'])) p = Some (e, o')" by (simp add: attributed_snoc map_of_attribute)
      then show False using False that by auto
    qed
    then have "since L d ?rs p e (length rs)" using last by (auto simp: since_def le_less_Suc_eq)
    then show ?thesis using new by (intro exI [of _ "length rs"]) simp
  qed
qed

section \<open>The changes of a path\<close>

text \<open>The rows of a path's changes up to a version, in order.\<close>

lemma sorted_last: "sorted xs \<Longrightarrow> x \<in> set xs \<Longrightarrow> x \<le> last xs"
  by (induction xs) auto

lemma row_of_change_at [simp]: "cr_version (row_of_change j c) = int j" "cr_path (row_of_change j c) = fst c"
  by (simp_all add: row_of_change_def split: prod.split)

lemma path_change_rows:
  assumes "repo_ok E d w" "i < length w"
  shows "set (path_changes p (num i) d) = {row_of_change j c | j c. j \<le> i \<and> c \<in> set (snd (w ! j)) \<and> fst c = p}"
proof -
  have rows: "\<And>j. j < length w \<Longrightarrow> filter (\<lambda>r. cr_version r = int j) (db_changes d) = map (row_of_change j) (snd (w ! j))"
    and all: "\<And>r. r \<in> set (db_changes d) \<Longrightarrow> \<exists>j < length w. cr_version r = int j"
    using assms(1) by (auto simp: repo_ok_def changes_rows_ok_def)
  have b: "i < 2 ^ 63" by (rule repo_versions(5) [OF assms])
  show ?thesis
  proof (intro set_eqI iffI)
    fix r assume "r \<in> set (path_changes p (num i) d)"
    then have r: "r \<in> set (db_changes d)" "cr_path r = p" "cr_version r \<le> int i" using b by (auto simp: path_changes_def)
    obtain j where j: "j < length w" "cr_version r = int j" using all r(1) by blast
    then have "r \<in> set (filter (\<lambda>r. cr_version r = int j) (db_changes d))" using r(1) by simp
    then obtain q x where "(q, x) \<in> set (snd (w ! j))" "r = row_of_change j (q, x)" unfolding rows [OF j(1)] by auto
    then show "r \<in> {row_of_change j c | j c. j \<le> i \<and> c \<in> set (snd (w ! j)) \<and> fst c = p}"
      using r(2,3) j(2) by auto
  next
    fix r assume "r \<in> {row_of_change j c | j c. j \<le> i \<and> c \<in> set (snd (w ! j)) \<and> fst c = p}"
    then obtain j c where r: "r = row_of_change j c" "j \<le> i" "c \<in> set (snd (w ! j))" "fst c = p" by blast
    have "j < length w" using r(2) assms(2) by simp
    then have "r \<in> set (filter (\<lambda>r. cr_version r = int j) (db_changes d))" using r rows by simp
    then show "r \<in> set (path_changes p (num i) d)" using r b by (auto simp: path_changes_def)
  qed
qed

lemma last_path_change:
  assumes "repo_ok E d w" "i < length w" "v \<le> i" "(p, e) \<in> set (snd (w ! v))" "\<forall>j. v < j \<longrightarrow> j \<le> i \<longrightarrow> p \<notin> fst ` set (snd (w ! j))"
  shows "\<exists>rest. rev (path_changes p (num i) d) = row_of_change v (p, e) # rest"
proof -
  let ?rows = "path_changes p (num i) d"
  note rows = path_change_rows [OF assms(1,2), of p]
  have mem: "row_of_change v (p, e) \<in> set ?rows" unfolding rows using assms(3,4) by force
  then have ne: "?rows \<noteq> []" by auto
  then have l: "last ?rows \<in> set ?rows" by simp
  have "sorted (map cr_version ?rows)" by (simp add: path_changes_def)
  then have "cr_version (row_of_change v (p, e)) \<le> cr_version (last ?rows)"
    using sorted_last [of "map cr_version ?rows" "cr_version (row_of_change v (p, e))"] mem ne by (simp add: last_map del: row_of_change_at)
  moreover obtain j c where j: "last ?rows = row_of_change j c" "j \<le> i" "c \<in> set (snd (w ! j))" "fst c = p" using l unfolding rows by blast
  ultimately have "v \<le> j" by simp
  moreover have "\<not> v < j" using assms(5) j by force
  ultimately have "j = v" by simp
  have "w \<noteq> []" using assms(2) by auto
  then have "omap_ok (snd (w ! v))"
    using repo_versions(6) [OF assms(1), of v] assms(2-4) by (cases "v = 0") (auto simp: linked_def leads_def changes_valid_def Let_def)
  then have "c = (p, e)" using j(3,4) assms(4) \<open>j = v\<close> omap_map_of_iff by (metis option.inject prod.collapse)
  then have "last ?rows = row_of_change v (p, e)" using j(1) \<open>j = v\<close> by simp
  then have "rev ?rows = row_of_change v (p, e) # rev (butlast ?rows)" using arg_cong [OF append_butlast_last_id [OF ne], of rev] by simp
  then show ?thesis by blast
qed

section \<open>Origins\<close>

lemma provenance_readable:
  assumes "codecs_ok L" "checkpoint_node L d i = Inr node"
  shows "\<exists>p. optional_provenance L d (lc_provenance node) = Inr p"
proof -
  have "check_provenance L d (lc_provenance node) = Inr ()" using assms by (simp add: checkpoint_node_iff checkpoint_at_def)
  then show ?thesis by (auto simp: check_provenance_def optional_provenance_def result_simps split: option.splits sum.splits)
qed

text \<open>The publication that made a version is the one under its operation ID.\<close>

lemma publisher_of:
  assumes "project_ok L d w" "row \<in> successes_set" "successes_set = set (successes d)" "pu_result row = Some (int v)"
  shows "vr_operation (db_versions d ! v) = Some (pu_id row)"
proof -
  have p: "receipts_ok L d w" using assms(1) by (simp add: project_ok_def)
  have row: "row \<in> set (db_publications d)" "pu_outcome row = 1" using assms(2,3) success_row by blast+
  obtain receipt where rc: "receipt_ok L d w row receipt" using p row(1) unfolding receipts_ok_def by blast
  then obtain a m node observed where "outcome_bound L d w row m a node (observed = Active (rc_expected receipt)) observed (rc_outcome receipt)"
    unfolding receipt_ok_def by blast
  then show ?thesis using row(2) assms(4) by (auto simp: outcome_bound_def split: publication_outcome.splits simp del: of_nat_Suc)
qed

lemma blame_spec:
  assumes "codecs_ok L" "project_ok L d w" "i < length w" "v \<le> i" "(p, e) \<in> set (snd (w ! v))"
    "\<forall>j. v < j \<longrightarrow> j \<le> i \<longrightarrow> p \<notin> fst ` set (snd (w ! j))" "row \<in> set (successes d)" "pu_result row = Some (int v)"
  shows "\<exists>k provenance x. since L d (layer_rows (pu_layer row) d) p x k
    \<and> optional_provenance L d (lc_provenance (node_of L d (hr_checkpoint (layer_rows (pu_layer row) d ! k)))) = Inr provenance
    \<and> blame L p (Some (num i)) d = Inr (Some \<lparr>pb_path = p, pb_entry = e, pb_origin =
         \<lparr>og_version = version_of d v, og_layer = Some (pu_layer row),
          og_checkpoint = Some (hr_checkpoint (layer_rows (pu_layer row) d ! k)), og_provenance = provenance\<rparr>\<rparr>)"
proof -
  let ?rs = "layer_rows (pu_layer row) d"
  have p: "layers_ok L d w" "receipts_ok L d w" "blame_ok L d w" using assms(2) by (simp_all add: project_ok_def)
  have rp: "repo_ok (co_env L) d w" using p(1) by (simp add: layers_ok_def)
  have v: "v < length w" using assms(3,4) by simp
  have b: "v < 2 ^ 63" "i < 2 ^ 63" using repo_versions(5) [OF rp] v assms(3) by blast+
  have ch: "p \<in> fst ` set (published_changes w row)" using assms(5,8) by (force simp: published_changes_def)
  then have own: "map_of (owners L d (pu_layer row)) p \<noteq> None" using p(3) assms(7) unfolding blame_ok_def by blast
  then obtain x c pr where o: "map_of (attributed L d ?rs) p = Some (x, c, pr)" "map_of (owners L d (pu_layer row)) p = Some (c, pr)"
    by (auto simp: owners_at)
  obtain k where k: "since L d ?rs p x k" "c = lc_id (node_of L d (hr_checkpoint (?rs ! k)))" "pr = lc_provenance (node_of L d (hr_checkpoint (?rs ! k)))"
    using attributed_since [OF o(1)] by blast
  have "?rs ! k \<in> set ?rs" using k(1) by (simp add: since_def)
  then obtain node where node: "checkpoint_node L d (hr_checkpoint (?rs ! k)) = Inr node"
    using p(1) unfolding layers_ok_def history_ok_def based_def by blast
  have n: "node_of L d (hr_checkpoint (?rs ! k)) = node" "lc_id node = hr_checkpoint (?rs ! k)"
    using node checkpoint_node_iff [OF assms(1), of d "hr_checkpoint (?rs ! k)" node] by (simp_all add: node_of_def checkpoint_at_def)
  obtain provenance where prov: "optional_provenance L d (lc_provenance node) = Inr provenance"
    using provenance_readable [OF assms(1) node] by blast
  have at: "blame_at (Some (num i)) d = Inr (num i)" using version_in_spec [OF rp, of "num i"] assms(3) b by (simp add: blame_at_def)
  obtain rest where rows: "rev (path_changes p (num i) d) = row_of_change v (p, e) # rest" using last_path_change [OF rp assms(3-6)] by blast
  have entry: "decode_entry (cr_kind (row_of_change v (p, e))) (cr_content (row_of_change v (p, e))) = Inr e"
    using decode_encode_entry [of e] by (cases "encode_entry e") (simp add: row_of_change_def)
  have version: "version_in (num v) d = Inr (version_of d v)" using version_in_spec [OF rp, of "num v"] v b by simp
  have "map_option (\<lambda>r. (br_checkpoint r, br_provenance r)) (find_row (\<lambda>r. br_version r = int v \<and> br_path r = p) (db_blame d)) = Some (c, pr)"
    using blame_row_spec [OF p(2,3) assms(7,8) b(1) ch rp] o(2) by simp
  then obtain br where br: "find_row (\<lambda>r. br_path r = p \<and> br_version r = int v) (db_blame d) = Some br" "br_checkpoint br = c" "br_provenance br = pr"
    by (auto simp: conj_commute)
  have pub: "find_row (\<lambda>r. pu_id r = pu_id row \<and> pu_outcome r = 1) (db_publications d) = Some row"
  proof -
    have mem: "row \<in> set (db_publications d)" "pu_outcome row = 1" using success_row [OF assms(7)] by simp_all
    have ids: "distinct (map pu_id (db_publications d))" using p(2) by (simp add: receipts_ok_def)
    have one: "map_option (\<lambda>r. r) (find_row (\<lambda>r. pu_id r = pu_id row \<and> pu_outcome r = 1) (db_publications d)) = Some row"
      by (rule find_rowI [OF mem(1)]) (use mem ids in \<open>auto simp: distinct_map inj_on_def\<close>)
    then show ?thesis by (simp add: option.map_ident)
  qed
  have op: "vr_operation (db_versions d ! v) = Some (pu_id row)" by (rule publisher_of [OF assms(2,7) refl assms(8)])
  have "origin_in L d p (num v) = Inr \<lparr>og_version = version_of d v, og_layer = Some (pu_layer row), og_checkpoint = Some c, og_provenance = provenance\<rparr>"
    using version b br pub op prov n k(3) by (simp add: origin_in_def Let_def)
  moreover have "validate_format d = Inr ()" using rp by (simp add: repo_ok_def)
  ultimately have "blame L p (Some (num i)) d = Inr (Some \<lparr>pb_path = p, pb_entry = e, pb_origin =
      \<lparr>og_version = version_of d v, og_layer = Some (pu_layer row), og_checkpoint = Some c, og_provenance = provenance\<rparr>\<rparr>)"
    using at rows entry b by (simp add: blame_def)
  then show ?thesis using k n prov by (intro exI [of _ k] exI [of _ provenance] exI [of _ x]) simp
qed

end
