(* ===== verification/ProjectProperties.thy ===== *)
theory ProjectProperties
  imports PublishExample Blaming
begin

text \<open>
  What the repository as a whole promises, over every run of Layer operations, received versions and publications: the full
  check accepts what they leave, a publication has exactly the outcomes its composition says, its receipt is replayed forever,
  a published Layer never changes, and the loop over snapshots ends with the first round that nothing moved.
\<close>

section \<open>Reachable repositories\<close>

lemma project_run_ok:
  assumes "codecs_ok L" "initial_db (co_env L) identity = Inr d0" "project_run L d0 d"
  shows "\<exists>w. project_ok L d w"
  using project_run_kept [OF assms(1,3) initial_project(1) [OF assms(2)]] by blast

text \<open>The example: a Layer with a new file, before and after its publication.\<close>

lemma sample_run:
  assumes "sample_published d0 d d' head plan"
  shows "initial_db (co_env sample_codecs) xs32 = Inr d0" "project_run sample_codecs d0 d" "project_run sample_codecs d0 d'"
    "project_ok sample_codecs d first_log" "has_room sample_codecs head d" "row_in ''p'' d = None"
    "prepare_in sample_codecs ''p'' head ByHuman d = Inr (Advance plan)"
    "publish_round sample_codecs (\<lambda>_ _. Inr ()) ''p'' head ByHuman d d
       = Inr (Some (plan_receipt (co_env sample_codecs) d first_log ''p'' head ByHuman plan), d')"
    "rc_outcome (plan_receipt (co_env sample_codecs) d first_log ''p'' head ByHuman plan)
       = PublishedAs (published_version (co_env sample_codecs) d first_log ''p'' (projr (the (pp_composed plan))))"
    "cv_changes (projr (the (pp_composed plan))) = sample_changes"
  using assms project_run.publish [OF _ project_run.start] unfolding sample_published_def
  by (auto simp: plan_receipt_def plan_outcome_def)

lemma sample_landed:
  assumes "sample_published d0 d d' head plan"
  shows "\<exists>w row a. project_ok sample_codecs d' w \<and> row \<in> set (db_publications d') \<and> pu_outcome row = 1 \<and> pu_layer row = ''l''
    \<and> pu_result row = Some (int (Suc a)) \<and> Suc a < length w \<and> (''a'', Some (Regular sample_content False)) \<in> set (snd (w ! Suc a)) \<and> a = 0"
proof -
  note r = sample_run [OF assms]
  let ?L = sample_codecs let ?receipt = "plan_receipt (co_env sample_codecs) d first_log ''p'' head ByHuman plan"
  obtain w' row where k: "project_ok ?L d' w'" "follows_on ?L d first_log d' w'" "row \<in> set (db_publications d')" "receipt_ok ?L d' w' row ?receipt"
      "rc_expected ?receipt = head"
    using round_receipt [OF sample_codecs_ok r(4,4) follows_on_refl [OF r(4)] r(5,8)] by blast
  obtain node where node: "checkpoint_node ?L d (lh_checkpoint head) = Inr node" "lc_changes node = sample_changes" "lh_layer head = ''l''"
    using assms unfolding sample_published_def by blast
  have n: "checkpoint_node ?L d' (lh_checkpoint head) = Inr node"
    using checkpoint_node_grown [OF sample_codecs_ok _ node(1)] k(2) unfolding follows_on_def by blast
  obtain a where a: "pu_outcome row = 1" "pu_result row = Some (int (Suc a))" "Suc a < length w'" "snd (w' ! Suc a) = lc_changes node" "pu_layer row = ''l''"
    using k(4) n node(3) by (auto simp: receipt_ok_def outcome_bound_def k(5) r(9) simp del: of_nat_Suc)
  then have "(''a'', Some (Regular sample_content False)) \<in> set (snd (w' ! Suc a))" by (simp add: node(2) sample_changes_def)
  moreover have "a = 0"
  proof -
    have rp: "repo_ok (co_env ?L) d' w'" using k(1) by (simp add: project_ok_def layers_ok_def)
    obtain b where b: "pu_result row = Some (int (Suc b))" "Suc b < length w'"
        "published_version (co_env ?L) d first_log ''p'' (projr (the (pp_composed plan))) = version_of d' (Suc b)"
      using k(4) by (auto simp: receipt_ok_def outcome_bound_def r(9) simp del: of_nat_Suc)
    have "wv_number (version_of d' (Suc b)) = num 1" by (simp add: b(3) [symmetric] published_version_def)
    then have "num (Suc b) = num 1" by (simp add: version_of_def Let_def)
    then have "unat (num (Suc b)) = unat (num 1)" by simp
    then have "Suc b = 1" using repo_versions(5) [OF rp b(2)] by (simp del: of_nat_Suc)
    then show ?thesis using a(2) b(1) by simp
  qed
  ultimately show ?thesis using k(1,3) a by blast
qed

section \<open>The full check\<close>

text \<open>C1: Whatever Layer operations, received trees and versions, and publications a new repository goes through, the full
  validation of its state succeeds (the World history, the Layers, the Stacks, the publications, the index and the blame), and
  returns the versions in order.\<close>

theorem project_always_checked:
  assumes "codecs_ok L" "initial_db (co_env L) identity = Inr d0" "project_run L d0 d"
  shows "\<exists>versions seen. validate_state L d [] = Inr (versions, seen) \<and> history L d = Inr versions
    \<and> map wv_number versions = map num [0..<length versions] \<and> length versions = length (db_versions d)
    \<and> map wv_id versions = map vr_id (db_versions d)"
proof -
  obtain w where w: "project_ok L d w" using project_run_ok [OF assms] by blast
  have rp: "repo_ok (co_env L) d w" using w by (simp add: project_ok_def layers_ok_def)
  have n: "length (db_versions d) = length w" by (rule repo_versions(3) [OF rp])
  obtain seen where "validate_state L d [] = Inr (map (version_of d) [0..<length w], seen)" using project_checked [OF assms(1) w] by blast
  moreover have "map wv_id (map (version_of d) [0..<length w]) = map vr_id (db_versions d)"
    by (rule nth_equalityI) (simp_all add: n version_of_def Let_def)
  moreover have "map wv_number (map (version_of d) [0..<length w]) = map num [0..<length w]" by (simp add: version_of_def Let_def comp_def)
  ultimately show ?thesis using n by (simp add: history_def)
qed

theorem project_always_checked_witness:
  "\<exists>d0 d. initial_db (co_env sample_codecs) xs32 = Inr d0 \<and> project_run sample_codecs d0 d \<and> db_publications d \<noteq> []
    \<and> (\<exists>versions seen. validate_state sample_codecs d [] = Inr (versions, seen))"
proof -
  obtain d0 d d' head plan where s: "sample_published d0 d d' head plan" using sample_publication by blast
  note r = sample_run [OF s]
  have "db_publications d' \<noteq> []" using sample_landed [OF s] by force
  then show ?thesis using r(1,3) project_always_checked [OF sample_codecs_ok r(1,3)] by blast
qed
section \<open>Publication\<close>

text \<open>C2: A round of a publication that records a receipt, from a snapshot that the locked repository may have left behind: the
  receipt names the call and the World head of the locked state; and when it says published, the Layer was the expected one, none
  of its changes met a change of the World since its base, and the next version is the old head with exactly the Layer's changes;
  when it says conflict, the paths are exactly those that met, and at least one; when it says stale, the state is the Layer's and
  another than expected. In the last two cases the World stays as it was.\<close>

theorem publication_outcomes:
  assumes "codecs_ok L" "initial_db (co_env L) identity = Inr d0" "project_run L d0 snapshot'" "project_run L snapshot' locked"
    "has_room L expected locked" "row_in operation snapshot' = None"
    "publish_round L guard' operation expected attribution snapshot' locked = Inr (Some receipt, d')"
  shows "\<exists>w w'. repo_ok (co_env L) locked w \<and> repo_ok (co_env L) d' w'
    \<and> rc_operation receipt = operation \<and> rc_expected receipt = expected \<and> rc_attribution receipt = attribution
    \<and> rc_against receipt = version_of locked (head_number w)
    \<and> (case rc_outcome receipt of
         PublishedAs v \<Rightarrow> \<exists>node. checkpoint_node L locked (lh_checkpoint expected) = Inr node
           \<and> layer_state_in L (lh_layer expected) locked = Inr (Active expected) \<and> conflicting w (head_number w) node = {}
           \<and> w' = w @ [(upd (fst (w ! head_number w)) (lc_changes node), lc_changes node)]
           \<and> v = version_of d' (length w) \<and> wv_operation v = Some operation
       | PublishConflict found \<Rightarrow> \<exists>node. checkpoint_node L locked (lh_checkpoint expected) = Inr node
           \<and> layer_state_in L (lh_layer expected) locked = Inr (Active expected)
           \<and> sorted_wrt (<) found \<and> set found = conflicting w (head_number w) node \<and> found \<noteq> [] \<and> w' = w
       | PublishStale state \<Rightarrow> layer_state_in L (lh_layer expected) locked = Inr state \<and> state \<noteq> Active expected \<and> w' = w)"
proof -
  obtain w0 where w0: "project_ok L snapshot' w0" using project_run_ok [OF assms(1-3)] by blast
  obtain w where w: "project_ok L locked w" "follows_on L snapshot' w0 locked w" using project_run_kept [OF assms(1,4) w0] by blast
  from publish_round_kept [OF assms(1) w0 w assms(5,7)] obtain w' where ok: "project_ok L d' w'"
    and c: "prepare_in L operation expected attribution snapshot' = Inr (Replay receipt)
      \<or> (\<exists>state blob. issued L locked w operation expected attribution state blob receipt d' w')" by auto
  have "prepare_in L operation expected attribution snapshot' \<noteq> Inr (Replay receipt)"
    using assms(6) by (auto simp: prepare_in_def result_simps split: if_splits)
  with c obtain state blob where i: "issued L locked w operation expected attribution state blob receipt d' w'" by blast
  have rc: "receipt = \<lparr>rc_operation = operation, rc_expected = expected, rc_attribution = attribution, rc_against = version_of locked (head_number w),
        rc_warnings = rc_warnings receipt, rc_outcome = rc_outcome receipt\<rparr>" using i by (simp add: issued_def)
  have call: "rc_operation receipt = operation" "rc_expected receipt = expected" "rc_attribution receipt = attribution"
      "rc_against receipt = version_of locked (head_number w)"
    using arg_cong [OF rc, of rc_operation] arg_cong [OF rc, of rc_expected] arg_cong [OF rc, of rc_attribution] arg_cong [OF rc, of rc_against]
    by simp_all
  have "publishes L locked w operation expected (rc_outcome receipt) d' w'" using i by (simp add: issued_def)
  moreover have "repo_ok (co_env L) locked w" "repo_ok (co_env L) d' w'" using w(1) ok by (simp_all add: project_ok_def layers_ok_def)
  ultimately show ?thesis using call
    by (intro exI [of _ w] exI [of _ w']) (auto simp: publishes_def Let_def oset_ok_def split: publication_outcome.splits)
qed

theorem publication_outcomes_witness:
  "\<exists>d d' head receipt v. publish_round sample_codecs (\<lambda>_ _. Inr ()) ''p'' head ByHuman d d = Inr (Some receipt, d')
    \<and> rc_outcome receipt = PublishedAs v \<and> wv_operation v = Some ''p''"
proof -
  obtain d0 d d' head plan where s: "sample_published d0 d d' head plan" using sample_publication by blast
  note r = sample_run [OF s]
  from publication_outcomes [OF sample_codecs_ok r(1,2) project_run.start r(5,6,8)] show ?thesis using r(8,9) by fastforce
qed

text \<open>C5: The loop of a publication ends with the first round whose snapshot is the locked state, whatever moved before.\<close>

theorem publish_ends: "publish_layer L guard' operation expected attribution (rounds @ (d, d) # rest) \<noteq> None"
  by (rule publish_layer_ends)

text \<open>C6: A publication that nothing moves and that prepared a plan is carried out and returns the receipt of the plan, unless the
  caller's guard refuses the new version, the versions are used up, or two different values that it stores have the same hash.\<close>

theorem publish_decides:
  assumes "codecs_ok L" "project_ok L d w" "prepare_in L operation expected attribution d = Inr (Advance plan)"
    "\<And>c. pp_composed plan = Some (Inr c) \<Longrightarrow> length w < 2 ^ 63 \<and> guard' (pp_against plan) (cv_changes c) = Inr ()"
    "inj_on (id_of (en_sha (co_env L)))
       (stored_values d \<union> plan_chunks plan \<union> {(Blob, co_receipt L (plan_receipt (co_env L) d w operation expected attribution plan))})"
  shows "\<exists>d'. publish_round L guard' operation expected attribution d d
    = Inr (Some (plan_receipt (co_env L) d w operation expected attribution plan), d')"
  by (rule publish_settles [where guard' = guard', OF assms])

theorem publish_decides_witness:
  "\<exists>d'. publish_round example_codecs (\<lambda>_ _. Inr ()) ''p'' example_head ByHuman layer_db layer_db = Inr (Some example_receipt, d')"
proof -
  have "plan_chunks example_plan = {}" by (simp add: plan_chunks_def example_plan_def)
  then have "inj_on (id_of (en_sha (co_env example_codecs))) (stored_values layer_db \<union> plan_chunks example_plan
      \<union> {(Blob, co_receipt example_codecs (plan_receipt (co_env example_codecs) layer_db [(Map.empty, [])] ''p'' example_head ByHuman example_plan))})"
    using example_no_collision by (simp add: example_env_simps)
  from publish_decides [OF example_codecs_ok layer_db_project example_prepare _ this, of "\<lambda>_ _. Inr ()"] show ?thesis
    by (simp add: example_receipt_def)
qed

section \<open>Receipts\<close>

lemma receipt_kept:
  assumes "codecs_ok L" "initial_db (co_env L) identity = Inr d0" "project_run L d0 snapshot'" "project_run L snapshot' locked"
    "has_room L expected locked" "publish_round L guard' operation expected attribution snapshot' locked = Inr (Some receipt, d')"
    "project_run L d' d''"
  shows "\<exists>w row. project_ok L d'' w \<and> row \<in> set (db_publications d'') \<and> pu_id row = operation \<and> receipt_ok L d'' w row receipt
    \<and> rc_expected receipt = expected \<and> rc_attribution receipt = attribution"
proof -
  obtain w0 where w0: "project_ok L snapshot' w0" using project_run_ok [OF assms(1-3)] by blast
  obtain w where w: "project_ok L locked w" "follows_on L snapshot' w0 locked w" using project_run_kept [OF assms(1,4) w0] by blast
  from round_receipt [OF assms(1) w0 w assms(5,6)] obtain w' row where r: "project_ok L d' w'" "row \<in> set (db_publications d')"
      "pu_id row = operation" "receipt_ok L d' w' row receipt" "rc_expected receipt = expected" "rc_attribution receipt = attribution" by blast
  obtain u where u: "project_ok L d'' u" "follows_on L d' w' d'' u" using project_run_kept [OF assms(1,7) r(1)] by blast
  have "row \<in> set (db_publications d'')" "receipt_ok L d'' u row receipt" using u(2) r(2,4) unfolding follows_on_def by auto
  then show ?thesis using u(1) r(3,5,6) by blast
qed

text \<open>C3: Whatever happens after a publication returned a receipt, the receipt is read back under its operation ID, and the same
  call returns it again from any locked state and writes nothing.\<close>

theorem receipt_replays:
  assumes "codecs_ok L" "initial_db (co_env L) identity = Inr d0" "project_run L d0 snapshot'" "project_run L snapshot' locked"
    "has_room L expected locked" "publish_round L guard' operation expected attribution snapshot' locked = Inr (Some receipt, d')"
    "project_run L d' d''"
  shows "publication L operation d'' = Inr (Some receipt)
    \<and> publish_round L guard'' operation expected attribution d'' now = Inr (Some receipt, now)"
proof -
  obtain w row where r: "project_ok L d'' w" "row \<in> set (db_publications d'')" "pu_id row = operation" "receipt_ok L d'' w row receipt"
      "rc_expected receipt = expected" "rc_attribution receipt = attribution" using receipt_kept [OF assms] by blast
  note p = receipt_replayed [OF assms(1) r(1,2,4), unfolded r(3)]
  show ?thesis using p(1) p(2) [of expected attribution] r(5,6)
    by (simp add: publish_round_def tx_bind_def tx_read_def tx_ret_def)
qed

theorem receipt_replays_witness:
  "\<exists>d d' head receipt. publish_round sample_codecs (\<lambda>_ _. Inr ()) ''p'' head ByHuman d d = Inr (Some receipt, d')
    \<and> (\<forall>d''. project_run sample_codecs d' d'' \<longrightarrow> publication sample_codecs ''p'' d'' = Inr (Some receipt))"
proof -
  obtain d0 d d' head plan where s: "sample_published d0 d d' head plan" using sample_publication by blast
  note r = sample_run [OF s]
  from receipt_replays [OF sample_codecs_ok r(1,2) project_run.start r(5,8)] show ?thesis using r(8) by blast
qed

text \<open>C4: The operation ID of a receipt is refused for any other expected head or attribution.\<close>

theorem operation_reuse_refused:
  assumes "codecs_ok L" "initial_db (co_env L) identity = Inr d0" "project_run L d0 snapshot'" "project_run L snapshot' locked"
    "has_room L expected locked" "publish_round L guard' operation expected attribution snapshot' locked = Inr (Some receipt, d')"
    "project_run L d' d''" "(expected', attribution') \<noteq> (expected, attribution)"
  shows "publish_round L guard'' operation expected' attribution' d'' now = Inl (OperationIdReused operation)"
proof -
  obtain w row where r: "project_ok L d'' w" "row \<in> set (db_publications d'')" "pu_id row = operation" "receipt_ok L d'' w row receipt"
      "rc_expected receipt = expected" "rc_attribution receipt = attribution" using receipt_kept [OF assms(1-7)] by blast
  note p = receipt_replayed(2) [OF assms(1) r(1,2,4), unfolded r(3)]
  show ?thesis using p [of expected' attribution'] r(5,6) assms(8)
    by (auto simp: publish_round_def tx_bind_def tx_read_def tx_ret_def)
qed

theorem operation_reuse_refused_witness:
  "\<exists>d' head. project_run sample_codecs d' d' \<and> publish_round sample_codecs (\<lambda>_ _. Inr ()) ''p'' head (ByAgent None True) d' d' = Inl (OperationIdReused ''p'')"
proof -
  obtain d0 d d' head plan where s: "sample_published d0 d d' head plan" using sample_publication by blast
  note r = sample_run [OF s]
  from operation_reuse_refused [OF sample_codecs_ok r(1,2) project_run.start r(5,8) project_run.start, of head "ByAgent None True"]
  show ?thesis using project_run.start by blast
qed

section \<open>After a publication\<close>

text \<open>C7: A Layer is published at most once, and after that its history never changes.\<close>

theorem published_is_final:
  assumes "codecs_ok L" "initial_db (co_env L) identity = Inr d0" "project_run L d0 d" "project_run L d d'"
    "row \<in> set (db_publications d)" "pu_outcome row = 1"
  shows "layer_rows (pu_layer row) d' = layer_rows (pu_layer row) d
    \<and> [r \<leftarrow> db_publications d'. pu_layer r = pu_layer row \<and> pu_outcome r = 1] = [row]"
proof -
  obtain w where w: "project_ok L d w" using project_run_ok [OF assms(1-3)] by blast
  obtain w' where w': "project_ok L d' w'" "follows_on L d w d' w'" using project_run_kept [OF assms(1,4) w] by blast
  have "published (pu_layer row) d" using assms(5,6) by (auto simp: published_def)
  then have rows: "layer_rows (pu_layer row) d' = layer_rows (pu_layer row) d" using w'(2) by (simp add: follows_on_def)
  have "one_success d'" and ids: "distinct (map pu_id (db_publications d'))" using w'(1) by (simp_all add: project_ok_def receipts_ok_def)
  moreover have mem: "row \<in> set (db_publications d')" using w'(2) assms(5) by (auto simp: follows_on_def)
  moreover have "distinct (filter (\<lambda>r. pu_layer r = pu_layer row \<and> pu_outcome r = 1) (db_publications d'))"
    using ids by (simp add: distinct_map)
  moreover have single: "xs = [x]" if "distinct xs" "\<forall>y. y \<in> set xs \<longleftrightarrow> y = x" for xs and x :: publication_row
    using that by (metis distinct_singleton set_empty2 distinct.simps(1) distinct_length_2_or_more ex_in_conv length_0_conv list.exhaust list.set_intros(1) list.set_intros(2))
  ultimately have "filter (\<lambda>r. pu_layer r = pu_layer row \<and> pu_outcome r = 1) (db_publications d') = [row]"
    using assms(6) unfolding one_success_def by (intro single) auto
  then show ?thesis using rows by simp
qed

theorem published_is_final_witness:
  "\<exists>d row. row \<in> set (db_publications d) \<and> pu_outcome row = 1
    \<and> (\<forall>d'. project_run sample_codecs d d' \<longrightarrow> layer_rows (pu_layer row) d' = layer_rows (pu_layer row) d)"
proof -
  obtain d0 d d' head plan where s: "sample_published d0 d d' head plan" using sample_publication by blast
  note r = sample_run [OF s]
  from sample_landed [OF s] obtain row where row: "row \<in> set (db_publications d')" "pu_outcome row = 1" by blast
  from published_is_final [OF sample_codecs_ok r(1,3) _ row] show ?thesis using row by blast
qed

section \<open>Index and blame\<close>

text \<open>C8: In every reachable repository the indexed rows of a live Layer are its attribution recomputed from its whole history, a
  Layer that is published or discarded has none, and the check of the index accepts them.\<close>

theorem index_exact:
  assumes "codecs_ok L" "initial_db (co_env L) identity = Inr d0" "project_run L d0 d"
  shows "(\<exists>seen. check_radar L d [] = Inr seen)
    \<and> (\<forall>layer. live layer d \<longrightarrow> (\<exists>tracked seen. tracked_in layer d = Inr tracked
         \<and> attribution_in L d True layer (num (length (layer_rows layer d) - 1)) [] = Inr (tracked, seen)))
    \<and> (\<forall>layer. \<not> live layer d \<longrightarrow> tracked_in layer d = Inr [])"
proof -
  obtain w where w: "project_ok L d w" using project_run_ok [OF assms] by blast
  have p: "layers_ok L d w" "index_ok L d" "receipts_ok L d w" using w by (simp_all add: project_ok_def)
  note seen = layers_ancestry [OF p(1) cache_ok_Nil]
  show ?thesis
  proof (intro conjI allI impI)
    show "\<exists>seen. check_radar L d [] = Inr seen" using check_radar_spec [OF assms(1) p seen] by blast
  next
    fix layer assume "live layer d"
    then have "tracked_in layer d = Inr (attributed L d (layer_rows layer d))" "layer_rows layer d \<noteq> []"
      using index_tracked [OF p(2), of layer] by (simp_all add: index_of_def live_def)
    then show "\<exists>tracked seen. tracked_in layer d = Inr tracked
        \<and> attribution_in L d True layer (num (length (layer_rows layer d) - 1)) [] = Inr (tracked, seen)"
      using attribution_spec [OF p(1) _ seen, of layer] by blast
  next
    fix layer assume "\<not> live layer d"
    then show "tracked_in layer d = Inr []" using index_tracked [OF p(2), of layer] by (simp add: index_of_def)
  qed
qed

theorem index_exact_witness:
  "\<exists>d. live ''l'' d \<and> (\<exists>seen. check_radar sample_codecs d [] = Inr seen)"
proof -
  obtain d0 d base candidate where a: "initial_db (co_env sample_codecs) xs32 = Inr d0" "project_run sample_codecs d0 d"
      "checkpoint_node sample_codecs d (ca_id candidate) = Inr (prepared_node base [] candidate)"
      "project_ok sample_codecs d first_log" "layer_state_in sample_codecs ''l'' d = Inr (Active ((sample_head (ca_id candidate))\<lparr>lh_revision := 1\<rparr>))"
    using sample_captured by blast
  have "layers_ok sample_codecs d first_log" using a(4) by (simp add: project_ok_def)
  then have "live ''l'' d" using active_live a(5) by blast
  then show ?thesis using index_exact [OF sample_codecs_ok a(1,2)] by blast
qed

text \<open>C9: The blame of a path at a version answers with the last change of the path up to that version; when a publication made
  that change, with its Layer and with the checkpoint and provenance of the event since which the Layer has had the path as it is.\<close>

theorem blame_exact:
  assumes "codecs_ok L" "project_ok L d w" "i < length w" "v \<le> i" "(p, e) \<in> set (snd (w ! v))"
    "\<forall>j. v < j \<longrightarrow> j \<le> i \<longrightarrow> p \<notin> fst ` set (snd (w ! j))"
    "row \<in> set (db_publications d)" "pu_outcome row = 1" "pu_result row = Some (int v)"
  shows "\<exists>k provenance x. since L d (layer_rows (pu_layer row) d) p x k
    \<and> optional_provenance L d (lc_provenance (node_of L d (hr_checkpoint (layer_rows (pu_layer row) d ! k)))) = Inr provenance
    \<and> blame L p (Some (num i)) d = Inr (Some \<lparr>pb_path = p, pb_entry = e, pb_origin =
         \<lparr>og_version = version_of d v, og_layer = Some (pu_layer row),
          og_checkpoint = Some (hr_checkpoint (layer_rows (pu_layer row) d ! k)), og_provenance = provenance\<rparr>\<rparr>)"
  by (rule blame_spec [OF assms(1-6)]) (use assms(7-9) in \<open>simp_all add: successes_def\<close>)

theorem blame_exact_witness:
  "\<exists>d i blamed. blame sample_codecs ''a'' (Some (num i)) d = Inr (Some blamed) \<and> og_layer (pb_origin blamed) = Some ''l''
    \<and> pb_entry blamed = Some (Regular sample_content False)"
proof -
  obtain d0 d d' head plan where s: "sample_published d0 d d' head plan" using sample_publication by blast
  from sample_landed [OF s] obtain w row a where k: "project_ok sample_codecs d' w" "row \<in> set (db_publications d')" "pu_outcome row = 1"
      "pu_layer row = ''l''" "pu_result row = Some (int (Suc a))" "Suc a < length w" "(''a'', Some (Regular sample_content False)) \<in> set (snd (w ! Suc a))"
    by blast
  from blame_exact [OF sample_codecs_ok k(1,6) order_refl k(7) _ k(2,3,5)] show ?thesis by (force simp: k(4))
qed

section \<open>Version identity\<close>

text \<open>C17: The ID of a version pins the whole World up to it: two well-formed histories, of whatever repositories, with the same
  version ID at the same number have the same roots and the same maps from there back to the empty World, unless SHA-256
  collides on the bytes they hash.\<close>

theorem version_id_pins_world:
  assumes "env_ok E" "repo_ok E d w" "repo_ok E d' w'" "n < length w" "n < length w'"
    "vr_id (db_versions d ! n) = vr_id (db_versions d' ! n)"
    "inj_on (en_sha E) (chain_inputs (en_sha E) (en_changes E) (chain_of d w n) \<union> chain_inputs (en_sha E) (en_changes E) (chain_of d' w' n))"
    "inj_on (en_changes E) (snd ` set (chain_of d w n @ chain_of d' w' n))" "i \<le> n"
  shows "vr_tree (db_versions d ! i) = vr_tree (db_versions d' ! i) \<and> fst (w ! i) = fst (w' ! i)"
proof -
  have sha: "hash_ok (en_sha E)" "\<And>x. length (en_sha E x) = 32" using assms(1) by (simp_all add: env_ok_def hash_ok_def)
  have "chain_of d w n = chain_of d' w' n"
  proof (rule chain_id_inj [OF _ _ assms(7) sha(2) assms(8)])
    show "chain_id (en_sha E) (en_changes E) (chain_of d w n) = chain_id (en_sha E) (en_changes E) (chain_of d' w' n)"
      using assms(6) version_chain [OF assms(2,4)] version_chain [OF assms(3,5)] by simp
    show "length (chain_of d w n) = length (chain_of d' w' n)" by (simp add: chain_of_def)
    show "\<forall>v \<in> set (chain_of d w n @ chain_of d' w' n). oid_ok (fst v)"
      using chain_of_oid [OF sha(1) assms(2,4)] chain_of_oid [OF sha(1) assms(3,5)] by auto
  qed
  note same = chain_of_nth [OF this]
  show ?thesis
    using assms(9)
  proof (induction i)
    case 0
    have "linked E d w 0" "linked E d' w' 0" using repo_versions(6) [OF assms(2), of 0] repo_versions(6) [OF assms(3), of 0]
        repo_versions(1) [OF assms(2)] repo_versions(1) [OF assms(3)] by auto
    then show ?case using genesis_tree [OF assms(2)] genesis_tree [OF assms(3)] by (simp add: linked_def Let_def)
  next
    case (Suc i)
    have "linked E d w (Suc i)" "linked E d' w' (Suc i)"
      using repo_versions(6) [OF assms(2)] repo_versions(6) [OF assms(3)] assms(4,5) Suc.prems by auto
    then have "fst (w ! Suc i) = upd (fst (w ! i)) (snd (w ! Suc i))" "fst (w' ! Suc i) = upd (fst (w' ! i)) (snd (w' ! Suc i))"
      by (simp_all add: linked_def leads_def Let_def)
    then show ?case using Suc same [of "Suc i"] by simp
  qed
qed

lemma first_map:
  assumes "repo_ok E d w" "1 < length w"
  shows "fst (w ! 1) = upd Map.empty (snd (w ! 1))" "distinct (map fst (snd (w ! 1)))"
proof -
  have "0 < length w" using assms(2) by linarith
  then have "linked E d w 0" "linked E d w 1" using repo_versions(6) [OF assms(1)] assms(2) by blast+
  then show "fst (w ! 1) = upd Map.empty (snd (w ! 1))" "distinct (map fst (snd (w ! 1)))"
    by (simp_all add: linked_def leads_def changes_valid_def omap_okD_distinct Let_def)
qed

text \<open>Two new repositories receive the empty World again and get the same version ID; a third publishes a file instead.\<close>

lemma genesis_received:
  "\<exists>d w. repo_ok (co_env sample_codecs) d w \<and> length w = 2 \<and> db_identity d = [(1, identity)] \<and> chain_of d w 1 = [(empty_tree kind_sha, [])]"
proof -
  let ?E = "co_env sample_codecs"
  have E: "env_ok ?E" using sample_codecs_ok by (simp add: codecs_ok_def)
  obtain d where d: "repo_ok ?E d first_log" "db_attempts d = []" "db_publications d = []" "db_identity d = [(1, identity)]"
    using initial_repo [of ?E identity] by auto
  let ?root = "vr_tree (db_versions d ! 0)"
  have root: "?root = empty_tree kind_sha" using genesis_tree [OF d(1)] by (simp add: sample_env)
  have fits: "tree_fits ?E d first_log ?root"
    by (auto simp: tree_fits_def tree_diff_def diff_dir.simps changes_new_def omap_of_def roomy_def sample_env MAX_LEVEL_def)
  obtain d' where d': "advance_to_tree ?E ''q'' 0 ?root d = Inr (Advanced (version_of d' 1), d')"
    using receive_head [OF d(1), of "''q''"] d(2,3)
    by (auto simp: attempt_row_in_def find_row_None head_number_def operation_exists_in_def)
  from advance_to_tree_spec [OF E d(1) fits this] obtain w' where
    w': "attempted ?E True d first_log ''q'' 0 ?root (Advanced (version_of d' 1)) d' w'" "repo_ok ?E d' w'" "later d d'" by blast
  then obtain g ch where g: "w' = first_log @ [(g, ch)]" "stands ?E d' ?root g" "vr_tree (db_versions d' ! 1) = ?root"
    by (auto simp: attempted_def recorded_def d(2) head_number_def)
  have "linked ?E d' w' 1" using repo_versions(6) [OF w'(2), of 1] g(1) by simp
  then have leads: "leads Map.empty ch g" using g(1) by (simp add: linked_def Let_def)
  have "snapshot kind_sha (tree_view d') (empty_tree kind_sha) g" using g(2) root by (simp add: stands_def sample_env)
  moreover have "snapshot kind_sha (tree_view d') (empty_tree kind_sha) Map.empty" by (simp add: snapshot_def)
  ultimately have empty: "g = Map.empty" using snapshot_state state_fun by metis
  have "ch = []"
  proof (rule ccontr)
    assume "ch \<noteq> []"
    then obtain q e where q: "(q, e) \<in> set ch" by (cases ch) auto
    have "\<forall>(q, e) \<in> set ch. Map.empty q \<noteq> e" using leads unfolding leads_def by (rule conjunct2 [THEN conjunct2])
    from bspec [OF this q] have "e \<noteq> None" by auto
    moreover have dist: "distinct (map fst ch)" using leads by (simp add: leads_def changes_valid_def omap_okD_distinct)
    moreover have "upd Map.empty ch q = None" using leads empty unfolding leads_def by metis
    ultimately show False using map_of_is_SomeI [OF _ q] dist by (simp add: upd_def)
  qed
  then have "chain_of d' w' 1 = [(empty_tree kind_sha, [])]" using g root by (simp add: chain_of_def)
  moreover have "db_identity d' = [(1, identity)]" using w'(3) d(4) unfolding later_def by metis
  moreover have "length w' = 2" by (simp add: g(1))
  ultimately show ?thesis using w'(2) by blast
qed

theorem version_id_pins_world_witness:
  "\<exists>d1 w1 d2 w2 d3 w3. repo_ok (co_env sample_codecs) d1 w1 \<and> repo_ok (co_env sample_codecs) d2 w2 \<and> repo_ok (co_env sample_codecs) d3 w3
    \<and> length w1 = 2 \<and> length w2 = 2 \<and> 1 < length w3 \<and> db_identity d1 \<noteq> db_identity d2 \<and> vr_id (db_versions d1 ! 1) = vr_id (db_versions d2 ! 1)
    \<and> vr_tree (db_versions d1 ! 1) = vr_tree (db_versions d2 ! 1) \<and> fst (w1 ! 1) = fst (w2 ! 1) \<and> vr_id (db_versions d1 ! 1) \<noteq> vr_id (db_versions d3 ! 1)"
proof -
  let ?E = "co_env sample_codecs" let ?g = "[(empty_tree kind_sha, [])] :: (object_id \<times> changes) list"
  let ?json = "\<lambda>ch :: changes. if ch = [] then ''0'' else ''1''"
  have E: "env_ok ?E" "en_sha ?E = kind_sha" "en_changes ?E = ?json" using sample_codecs_ok by (simp_all add: codecs_ok_def sample_codecs_def)
  obtain d1 w1 where h1: "repo_ok ?E d1 w1" "length w1 = 2" "db_identity d1 = [(1, xs32)]" "chain_of d1 w1 1 = ?g" using genesis_received by blast
  obtain d2 w2 where h2: "repo_ok ?E d2 w2" "length w2 = 2" "db_identity d2 = [(1, [])]" "chain_of d2 w2 1 = ?g" using genesis_received by blast
  obtain d0 d d3 head plan where s: "sample_published d0 d d3 head plan" using sample_publication by blast
  obtain w3 where w3: "project_ok sample_codecs d3 w3" "1 < length w3" "(''a'', Some (Regular sample_content False)) \<in> set (snd (w3 ! 1))"
    using sample_landed [OF s] by auto
  have h3: "repo_ok ?E d3 w3" using w3(1) by (simp add: project_ok_def layers_ok_def)
  have ids: "vr_id (db_versions d1 ! 1) = vr_id (db_versions d2 ! 1)"
    using version_chain [OF h1(1), of 1] version_chain [OF h2(1), of 1] h1(2,4) h2(2,4) by (simp del: One_nat_def)
  have same: "vr_tree (db_versions d1 ! 1) = vr_tree (db_versions d2 ! 1) \<and> fst (w1 ! 1) = fst (w2 ! 1)"
    by (rule version_id_pins_world [OF E(1) h1(1) h2(1) _ _ ids]) (simp_all add: h1(2,4) h2(2,4) del: One_nat_def)
  have "snd (w3 ! 1) \<noteq> []" using w3(3) by force
  then obtain root ch where c3: "chain_of d3 w3 1 = [(root, ch)]" "ch \<noteq> []" by (simp add: chain_of_def)
  have "hd (kind_sha b) = last b" if "b \<noteq> []" for b using that by (simp add: kind_sha_def)
  from this [of "a @ ''0''" for a] this [of "b @ ''1''" for b] have apart: "kind_sha (a @ ''0'') \<noteq> kind_sha (b @ ''1'')" for a b
    by (auto dest: arg_cong [of _ _ hd])
  have "vr_id (db_versions d1 ! 1) \<noteq> vr_id (db_versions d3 ! 1)"
  proof
    assume eq: "vr_id (db_versions d1 ! 1) = vr_id (db_versions d3 ! 1)"
    have "fst (w1 ! 1) = fst (w3 ! 1)"
      by (rule version_id_pins_world [OF E(1) h1(1) h3 _ w3(2) eq, THEN conjunct2])
        (use c3 apart apart [symmetric] in \<open>simp_all add: h1(2,4) E hasher_update_def inj_on_def del: One_nat_def\<close>)
    moreover have "fst (w1 ! 1) ''a'' = None" using first_map(1) [OF h1(1)] h1(2,4) by (simp add: chain_of_def upd_def)
    moreover have "fst (w3 ! 1) ''a'' = Some (Regular sample_content False)" 
      using first_map [OF h3 w3(2)] w3(3) by (simp add: upd_def map_of_is_SomeI)
    ultimately show False by simp
  qed
  then show ?thesis using h1 h2 h3 w3(2) ids same by (intro exI [of _ d1] exI [of _ w1] exI [of _ d2] exI [of _ w2] exI [of _ d3] exI [of _ w3]) simp
qed

section \<open>Stored rows\<close>

lemma event_row:
  assumes "layers_ok L d w" "r \<in> set (db_heads d)"
  shows "\<exists>i. i < length (layer_rows (hr_layer r) d) \<and> layer_rows (hr_layer r) d ! i = r \<and> hr_revision r = int i"
proof -
  have "r \<in> set (layer_rows (hr_layer r) d)" using assms(2) by (simp add: layer_rows_def)
  then obtain i where i: "i < length (layer_rows (hr_layer r) d)" "layer_rows (hr_layer r) d ! i = r" by (auto simp: in_set_conv_nth)
  then have "hr_revision r = int i" using assms(1) unfolding layers_ok_def history_ok_def by metis
  then show ?thesis using i by blast
qed

lemma object_row_reads:
  assumes "objects_ok E d" "r \<in> set (db_objects d)"
  shows "\<exists>k. kind_decode (or_kind r) = Inr k \<and> read_object E d (or_id r) k = Inr (or_bytes r)"
proof -
  obtain k where k: "or_kind r = kind_sql k" using assms by (auto simp: objects_ok_def row_ok_def)
  have "object_at d (or_id r) = Some r" using object_at_id assms by (simp add: objects_ok_def)
  then have "read_object E d (or_id r) k = Inr (or_bytes r)" using k by (cases r) (simp add: read_object_iff [OF assms(1)])
  then show ?thesis using k by (intro exI [of _ k]) simp
qed

lemma attempt_row_reads:
  assumes "repo_ok E d w" "r \<in> set (db_attempts d)"
  shows "\<exists>a outcome. attempt_in (ar_id r) d = Inr (Some a) \<and> at_operation a = ar_id r \<and> at_tree a = ar_tree r \<and> at_accepted a = (ar_accepted r = 1)
    \<and> version_sql (at_expected a) = ar_expected r \<and> version_sql (at_result a) = ar_result r \<and> attempt_outcome a d = Inr outcome"
proof -
  have "attempt_row_in (ar_id r) d = Some r"
    unfolding attempt_row_in_def using find_row_key [of ar_id "db_attempts d" r] assms by (simp add: repo_ok_def)
  then have "attempt_in (ar_id r) d = Inr (Some (attempt_of r))" by (simp add: attempt_in_spec [OF assms(1)])
  moreover obtain e n where "ar_expected r = int e" "ar_result r = int n" "e < n" "n < 2 ^ 63" by (rule attempt_numbers [OF assms])
  ultimately show ?thesis using attempt_outcome_spec [OF assms] by (intro exI [of _ "attempt_of r"] exI [of _ "outcome_of d r"]) (simp add: attempt_of_def)
qed

lemma version_row_reads:
  assumes "repo_ok E d w" "r \<in> set (db_versions d)"
  shows "\<exists>n. version_in n d = Inr \<lparr>wv_number = n, wv_id = vr_id r, wv_tree = vr_tree r, wv_operation = vr_operation r\<rparr> \<and> version_sql n = vr_number r"
proof -
  obtain i where i: "i < length w" "r = db_versions d ! i" using repo_versions(3) [OF assms(1)] assms(2) by (auto simp: in_set_conv_nth)
  note b = repo_versions(4,5) [OF assms(1) i(1)]
  have "version_in (num i) d = Inr (version_of d i)" using version_in_spec [OF assms(1), of "num i"] i(1) b(2) by simp
  then show ?thesis using i(2) b by (intro exI [of _ "num i"]) (simp add: version_of_def Let_def)
qed

lemma change_row_reads:
  assumes "repo_ok E d w" "r \<in> set (db_changes d)"
  shows "\<exists>e. decode_change r = Inr (cr_path r, e)"
proof -
  obtain i where i: "i < length w" "cr_version r = int i" using assms by (auto simp: repo_ok_def changes_rows_ok_def)
  have "filter (\<lambda>r. cr_version r = int i) (db_changes d) = map (row_of_change i) (snd (w ! i))"
    using assms(1) i(1) by (simp add: repo_ok_def changes_rows_ok_def)
  moreover have "r \<in> set (filter (\<lambda>r. cr_version r = int i) (db_changes d))" using assms(2) i(2) by simp
  ultimately have "r \<in> set (map (row_of_change i) (snd (w ! i)))" by simp
  then obtain c where c: "c \<in> set (snd (w ! i))" "r = row_of_change i c" by auto
  have "changes_valid (snd (w ! i))"
    using repo_versions(6) [OF assms(1) i(1)] c(1) by (cases "i = 0") (auto simp: linked_def leads_def Let_def)
  then have "path_valid (fst c)" using c(1) by (auto simp: changes_valid_def)
  then show ?thesis using decode_change_row [of c i] c(2) by (cases c) simp
qed

text \<open>The origin of an attributed path is a checkpoint of the Layer that holds the path as it is.\<close>

lemma attributed_reads:
  assumes "codecs_ok L" "layers_ok L d w" "map_of (attributed L d (layer_rows layer d)) p = Some (e, c, pr)"
  shows "\<exists>node x. checkpoint_in L c d = Inr node \<and> map_of (lc_changes node) p = Some e \<and> pr = lc_provenance node
    \<and> path_parse p = Inr p \<and> optional_provenance L d pr = Inr x"
proof -
  let ?rs = "layer_rows layer d"
  obtain k where k: "since L d ?rs p e k" "c = lc_id (node_of L d (hr_checkpoint (?rs ! k)))" "pr = lc_provenance (node_of L d (hr_checkpoint (?rs ! k)))"
    using attributed_since [OF assms(3)] by blast
  have "?rs ! k \<in> set ?rs" using k(1) by (simp add: since_def)
  then obtain node where node: "checkpoint_node L d (hr_checkpoint (?rs ! k)) = Inr node"
    using assms(2) unfolding layers_ok_def history_ok_def based_def by blast
  have at: "checkpoint_at L d (hr_checkpoint (?rs ! k)) node" using node by (simp add: checkpoint_node_iff [OF assms(1)])
  have n: "node_of L d (hr_checkpoint (?rs ! k)) = node" "lc_id node = hr_checkpoint (?rs ! k)" using node at by (simp_all add: node_of_def checkpoint_at_def)
  have entry: "map_of (lc_changes node) p = Some e" using k(1) n(1) unfolding since_def has_entry_def by auto
  have "path_ok p" using map_of_SomeD [OF entry] at unfolding checkpoint_at_def by fastforce
  then show ?thesis using provenance_readable [OF assms(1) node] node n entry k(2,3) by (simp add: checkpoint_in_eq path_parse_def)
qed

lemma layer_attempt_reads:
  assumes "layers_ok L d w" "r \<in> set (db_layer_attempts d)"
  shows "\<exists>outcome. update_outcome L (la_id r) d = Inr outcome"
  using assms by (auto simp: layers_ok_def update_outcome_iff attempts_ok_def)

lemma stack_row_reads:
  assumes "layers_ok L d w" "r \<in> set (db_stacks d)"
  shows "\<exists>resolution node outcome. source_in (sr_id r) d = Some (sr_source r) \<and> checkpoint_in L (sr_source r) d = Inr node
    \<and> resolution_in L (sr_id r) d = Inr resolution \<and> update_outcome L (sr_id r) d = Inr outcome"
proof -
  have at: "attempts_ok L d" using assms(1) by (simp add: layers_ok_def)
  note r = assms(2)
  obtain outcome row prior after candidate node identity where s: "settled_as L d (sr_id r) outcome row prior after candidate node identity"
    using stack_settled [OF at r] unfolding settled_def by blast
  have row: "stack_row_in (sr_id r) d = Some r"
    unfolding stack_row_in_def using find_row_key [of sr_id "db_stacks d" r] at r by (simp add: attempts_ok_def)
  then have src: "source_in (sr_id r) d = Some (sr_source r)" by (simp add: source_in_def)
  have "\<exists>n. checkpoint_node L d (sr_source r) = Inr n" using s src unfolding settled_as_def sources_settled_def by auto
  then obtain n where "checkpoint_in L (sr_source r) d = Inr n" by (auto simp: checkpoint_in_eq)
  moreover obtain stored resolution where "read_object (co_env L) d (sr_binding r) Blob = Inr stored" "stored_binding L stored = Inr resolution"
    using binding_checked [OF at r] by blast
  then have "resolution_in L (sr_id r) d = Inr resolution" using row by (simp add: resolution_in_def)
  moreover have "update_outcome L (sr_id r) d = Inr outcome" using s unfolding update_outcome_iff settled_def by blast
  ultimately show ?thesis using src by simp
qed

lemma head_row_reads:
  assumes "layers_ok L d w" "r \<in> set (db_heads d)"
  shows "event_in (hr_layer r) (hr_revision r) d = Inr (event_of r) \<and> (\<exists>node. checkpoint_in L (hr_checkpoint r) d = Inr node)"
proof -
  let ?rs = "layer_rows (hr_layer r) d"
  have h: "history_ok L d ?rs" using assms(1) by (simp add: layers_ok_def)
  have "r \<in> set ?rs" using assms(2) by (simp add: layer_rows_def)
  then have "\<exists>node. checkpoint_in L (hr_checkpoint r) d = Inr node" using h by (auto simp: history_ok_def based_def checkpoint_in_eq)
  moreover obtain i where "i < length ?rs" "?rs ! i = r" "hr_revision r = int i" using event_row [OF assms] by blast
  ultimately show ?thesis using event_in_spec [OF h, of "hr_revision r"] by simp
qed

lemma path_row_reads:
  assumes "codecs_ok L" "layers_ok L d w" "index_ok L d" "r \<in> set (db_paths d)"
  shows "\<exists>e node x. tracked_row r = Inr (pr_path r, e, pr_checkpoint r, pr_provenance r) \<and> path_parse (pr_path r) = Inr (pr_path r)
    \<and> checkpoint_in L (pr_checkpoint r) d = Inr node \<and> map_of (lc_changes node) (pr_path r) = Some e \<and> optional_provenance L d (pr_provenance r) = Inr x"
proof -
  let ?f = "map_of (index_of L d (pr_layer r))"
  have t: "tracks (db_paths d) (pr_layer r) ?f" using assms(3) by (simp add: index_ok_def)
  then obtain e where e: "?f (pr_path r) = Some (e, pr_checkpoint r, pr_provenance r)" using assms(4) unfolding tracks_def by blast
  then have "map_of (attributed L d (layer_rows (pr_layer r) d)) (pr_path r) = Some (e, pr_checkpoint r, pr_provenance r)"
    by (auto simp: index_of_def split: if_splits)
  from attributed_reads [OF assms(1,2) this] show ?thesis using tracked_row_tracks [OF t assms(4) refl] e by auto
qed

lemma blame_row_reads:
  assumes "codecs_ok L" "project_ok L d w" "r \<in> set (db_blame d)"
  shows "\<exists>n node x. version_sql n = br_version r \<and> repo_version n d \<in> range Inr \<and> path_parse (br_path r) = Inr (br_path r)
    \<and> checkpoint_in L (br_checkpoint r) d = Inr node \<and> optional_provenance L d (br_provenance r) = Inr x"
proof -
  have p: "layers_ok L d w" "receipts_ok L d w" "blame_ok L d w" and rp: "repo_ok (co_env L) d w"
    using assms(2) by (simp_all add: project_ok_def layers_ok_def)
  obtain row where row: "row \<in> set (successes d)" "r \<in> set (blame_rows L d w row)" using assms(3) p(3) by (auto simp: blame_ok_def)
  obtain a where a: "pu_result row = Some (int (Suc a))" "Suc a < length w" using success_result [OF p(2) row(1)] by blast
  obtain q where q: "q \<in> fst ` set (published_changes w row)" "r = blame_row_of (num (Suc a)) (owners L d (pu_layer row)) q"
    using row(2) a(1) by (auto simp: blame_rows_def simp del: of_nat_Suc)
  then obtain e c pr where o: "map_of (attributed L d (layer_rows (pu_layer row) d)) q = Some (e, c, pr)"
    using p(3) row(1) unfolding blame_ok_def owners_at by fastforce
  have r: "br_path r = q" "br_version r = version_sql (num (Suc a))" "br_checkpoint r = c" "br_provenance r = pr"
    by (simp_all add: q(2) blame_row_of_def owners_at o)
  then show ?thesis using attributed_reads [OF assms(1) p(1) o] reads_spec(1) [OF rp a(2)] by (intro exI [of _ "num (Suc a)"]) auto
qed

text \<open>C11: In every reachable repository each row of each table decodes to a value of its type, and what it names can be read: an
  object under its kind and its hash, an attempt with its outcome, a version, the path and the entry of a change, the identity,
  a Layer event and its checkpoint, a Layer attempt with its outcome, the receipt of a publication, a Stack with its source, its
  resolution and its outcome, an indexed path with its entry, checkpoint and provenance, and a blamed path with its version,
  checkpoint and provenance.\<close>

theorem rows_decode:
  assumes "codecs_ok L" "initial_db (co_env L) identity = Inr d0" "project_run L d0 d"
  shows "(\<forall>r \<in> set (db_objects d). \<exists>k. kind_decode (or_kind r) = Inr k \<and> read_object (co_env L) d (or_id r) k = Inr (or_bytes r))
    \<and> (\<forall>r \<in> set (db_attempts d). \<exists>a outcome. attempt_in (ar_id r) d = Inr (Some a) \<and> at_operation a = ar_id r \<and> at_tree a = ar_tree r
         \<and> at_accepted a = (ar_accepted r = 1) \<and> version_sql (at_expected a) = ar_expected r \<and> version_sql (at_result a) = ar_result r
         \<and> attempt_outcome a d = Inr outcome)
    \<and> (\<forall>r \<in> set (db_versions d). \<exists>n. version_in n d = Inr \<lparr>wv_number = n, wv_id = vr_id r, wv_tree = vr_tree r, wv_operation = vr_operation r\<rparr>
         \<and> version_sql n = vr_number r)
    \<and> (\<forall>r \<in> set (db_changes d). \<exists>e. decode_change r = Inr (cr_path r, e))
    \<and> (\<exists>i. identity_in d = Inr i)
    \<and> (\<forall>r \<in> set (db_heads d). event_in (hr_layer r) (hr_revision r) d = Inr (event_of r) \<and> (\<exists>node. checkpoint_in L (hr_checkpoint r) d = Inr node))
    \<and> (\<forall>r \<in> set (db_layer_attempts d). \<exists>outcome. update_outcome L (la_id r) d = Inr outcome)
    \<and> (\<forall>r \<in> set (db_publications d). \<exists>receipt. receipt_in L r d = Inr receipt)
    \<and> (\<forall>r \<in> set (db_stacks d). \<exists>resolution node outcome. source_in (sr_id r) d = Some (sr_source r) \<and> checkpoint_in L (sr_source r) d = Inr node
         \<and> resolution_in L (sr_id r) d = Inr resolution \<and> update_outcome L (sr_id r) d = Inr outcome)
    \<and> (\<forall>r \<in> set (db_paths d). \<exists>e node x. tracked_row r = Inr (pr_path r, e, pr_checkpoint r, pr_provenance r)
         \<and> path_parse (pr_path r) = Inr (pr_path r) \<and> checkpoint_in L (pr_checkpoint r) d = Inr node
         \<and> map_of (lc_changes node) (pr_path r) = Some e \<and> optional_provenance L d (pr_provenance r) = Inr x)
    \<and> (\<forall>r \<in> set (db_blame d). \<exists>n node x. version_sql n = br_version r \<and> repo_version n d \<in> range Inr \<and> path_parse (br_path r) = Inr (br_path r)
         \<and> checkpoint_in L (br_checkpoint r) d = Inr node \<and> optional_provenance L d (br_provenance r) = Inr x)"
proof -
  obtain w where w: "project_ok L d w" using project_run_ok [OF assms] by blast
  then have p: "layers_ok L d w" "receipts_ok L d w" "index_ok L d" and rp: "repo_ok (co_env L) d w" by (simp_all add: project_ok_def layers_ok_def)
  have receipt: "\<exists>receipt. receipt_in L r d = Inr receipt" if "r \<in> set (db_publications d)" for r
  proof -
    from that obtain receipt where "receipt_ok L d w r receipt" using p(2) unfolding receipts_ok_def by blast
    then have "receipt_in L r d = Inr receipt" using receipt_read [OF assms(1) p(1)] p(2) by (simp add: receipts_ok_def)
    then show ?thesis by blast
  qed
  have o: "objects_ok (co_env L) d" and identity: "\<exists>i. identity_in d = Inr i" using rp p(1) by (simp_all add: repo_ok_def layers_ok_def)
  show ?thesis
    by (intro conjI) ((rule identity) | (rule ballI, (rule object_row_reads [OF o] attempt_row_reads [OF rp] version_row_reads [OF rp] change_row_reads [OF rp]
         head_row_reads [OF p(1)] layer_attempt_reads [OF p(1)] receipt stack_row_reads [OF p(1)]
         path_row_reads [OF assms(1) p(1,3)] blame_row_reads [OF assms(1) w]), assumption))+
qed

theorem rows_decode_witness:
  "\<exists>d0 d. initial_db (co_env sample_codecs) xs32 = Inr d0 \<and> project_run sample_codecs d0 d \<and> db_changes d \<noteq> [] \<and> (\<forall>r \<in> set (db_changes d). \<exists>e. decode_change r = Inr (cr_path r, e))
    \<and> (\<forall>r \<in> set (db_heads d). event_in (hr_layer r) (hr_revision r) d = Inr (event_of r)) \<and> (\<forall>r \<in> set (db_publications d). \<exists>receipt. receipt_in sample_codecs r d = Inr receipt)"
proof -
  obtain d0 d d' head plan where s: "sample_published d0 d d' head plan" using sample_publication by blast
  note r = sample_run [OF s]
  from sample_landed [OF s] obtain w a x where w: "project_ok sample_codecs d' w" "Suc a < length w" "x \<in> set (snd (w ! Suc a))" by blast
  have "filter (\<lambda>r. cr_version r = int (Suc a)) (db_changes d') = map (row_of_change (Suc a)) (snd (w ! Suc a))"
    using w(1,2) by (simp add: project_ok_def layers_ok_def repo_ok_def changes_rows_ok_def del: of_nat_Suc)
  then have "db_changes d' \<noteq> []" using w(3) by auto
  moreover note d = rows_decode [OF sample_codecs_ok r(1,3)]
  note d [THEN conjunct2, THEN conjunct2, THEN conjunct2]
  then have "\<forall>r \<in> set (db_changes d'). \<exists>e. decode_change r = Inr (cr_path r, e)"
      "\<forall>r \<in> set (db_heads d'). event_in (hr_layer r) (hr_revision r) d' = Inr (event_of r)" 
      "\<forall>r \<in> set (db_publications d'). \<exists>receipt. receipt_in sample_codecs r d' = Inr receipt"
    by - ((elim conjE, assumption) | (elim conjE, rule ballI, drule (1) bspec, elim conjE, assumption))+
  ultimately show ?thesis using r(1,3) by (intro exI [of _ d0] exI [of _ d']) simp
qed

text \<open>C12: The numbers of a reachable repository stay in the range of the columns and of the 64-bit words that name them: versions and
  revisions are non-negative, below 2 to the 63, and survive the conversion between column and word.\<close>

theorem numbers_in_range:
  assumes "codecs_ok L" "initial_db (co_env L) identity = Inr d0" "project_run L d0 d"
  shows "(\<forall>r \<in> set (db_versions d). 0 \<le> vr_number r \<and> vr_number r < 2 ^ 63 \<and> uint (word_of_int (vr_number r) :: 64 word) = vr_number r)
    \<and> (\<forall>r \<in> set (db_heads d). 0 \<le> hr_revision r \<and> hr_revision r < 2 ^ 63 \<and> uint (word_of_int (hr_revision r) :: 64 word) = hr_revision r)
    \<and> (\<forall>r \<in> set (db_attempts d). 0 \<le> ar_expected r \<and> ar_expected r < ar_result r \<and> ar_result r < int (length (db_versions d)))
    \<and> (\<forall>r \<in> set (db_publications d). 0 \<le> pu_against r \<and> pu_against r < int (length (db_versions d))
         \<and> 0 \<le> pu_expected r \<and> pu_expected r \<le> pu_observed r \<and> pu_observed r < 2 ^ 63)"
proof -
  obtain w where w: "project_ok L d w" using project_run_ok [OF assms] by blast
  then have p: "layers_ok L d w" "receipts_ok L d w" and rp: "repo_ok (co_env L) d w" by (simp_all add: project_ok_def layers_ok_def)
  note v = repo_versions [OF rp]
  have wide: "uint (word_of_int n :: 64 word) = n" if "0 \<le> n" "n < 2 ^ 63" for n :: int
    using that by (simp add: uint_word_of_int)
  have small: "length (layer_rows layer d) \<le> 2 ^ 63" for layer using p(1) by (simp add: layers_ok_def history_ok_def)
  have index: "int i < 2 ^ 63" if "i < k" "k \<le> 2 ^ 63" for i k :: nat using that by simp
  show ?thesis
  proof (intro conjI ballI)
    fix r assume "r \<in> set (db_versions d)"
    then obtain i where i: "i < length w" "r = db_versions d ! i" using v(3) by (auto simp: in_set_conv_nth)
    then show a: "0 \<le> vr_number r" "vr_number r < 2 ^ 63" using v(4) [OF i(1)] index [OF i(1) v(2)] by simp_all
    show "uint (word_of_int (vr_number r) :: 64 word) = vr_number r" by (rule wide [OF a])
  next
    fix r assume "r \<in> set (db_heads d)"
    then obtain i where i: "i < length (layer_rows (hr_layer r) d)" "hr_revision r = int i" using event_row [OF p(1)] by blast
    then show a: "0 \<le> hr_revision r" "hr_revision r < 2 ^ 63" using index [OF i(1) small] by simp_all
    show "uint (word_of_int (hr_revision r) :: 64 word) = hr_revision r" by (rule wide [OF a])
  next
    fix r assume "r \<in> set (db_attempts d)"
    then show "0 \<le> ar_expected r" "ar_expected r < ar_result r" "ar_result r < int (length (db_versions d))"
      using rp by (auto simp: repo_ok_def attempt_ok_def)
  next
    fix r assume "r \<in> set (db_publications d)"
    then obtain receipt where "receipt_ok L d w r receipt" using p(2) unfolding receipts_ok_def by blast
    then obtain n a m where r: "pu_expected r = int n" "pu_against r = int a" "a < length w" "pu_observed r = int m" "n \<le> m" "m < length (layer_rows (pu_layer r) d)"
      unfolding receipt_ok_def by blast
    show "0 \<le> pu_against r" "pu_against r < int (length (db_versions d))" "0 \<le> pu_expected r" "pu_expected r \<le> pu_observed r" "pu_observed r < 2 ^ 63"
      using r v(3) index [OF r(6) small] by simp_all
  qed
qed

theorem numbers_in_range_witness:
  "\<exists>d0. initial_db (co_env sample_codecs) xs32 = Inr d0 \<and> (\<forall>r \<in> set (db_versions d0). uint (word_of_int (vr_number r) :: 64 word) = vr_number r)"
proof -
  obtain d0 d d' head plan where s: "sample_published d0 d d' head plan" using sample_publication by blast
  note r = sample_run [OF s]
  from numbers_in_range [OF sample_codecs_ok r(1) project_run.start] show ?thesis using r(1) by blast
qed

end
