(* ===== verification/Stacking.thy ===== *)
theory Stacking
  imports Composing Merge
begin

text \<open>
  Stacking one Layer on another (\<open>crates/javelin-stack/src/lib.rs\<close>): the owner's choices are recorded, a recorded outcome is
  returned, and otherwise the changes of the source since its base are merged into the target and committed. Every call
  of the repository is a transaction of its own, so what was written before a failure stays. The volume's alias probe and
  the JSON of a resolution are parameters.
\<close>

section \<open>Calls in sequence\<close>

datatype stack_error = SStorage error | SMerge "error merge_error"

datatype stack_outcome = StackUpdated layer_update | StackConflicts "conflict list"

type_synonym 'a session = "db \<Rightarrow> (stack_error + 'a) \<times> db"

definition s_ret :: "'a \<Rightarrow> 'a session" where
  "s_ret x d = (Inr x, d)"

definition s_fail :: "stack_error \<Rightarrow> 'a session" where
  "s_fail e d = (Inl e, d)"

definition s_bind :: "'a session \<Rightarrow> ('a \<Rightarrow> 'b session) \<Rightarrow> 'b session" where
  "s_bind m f d = (case m d of (Inl e, d) \<Rightarrow> (Inl e, d) | (Inr x, d) \<Rightarrow> f x d)"

text \<open>A transaction that fails leaves the state as it was.\<close>

definition s_call :: "'a tx \<Rightarrow> 'a session" where
  "s_call t d = (case t d of Inl e \<Rightarrow> (Inl (SStorage e), d) | Inr (x, d') \<Rightarrow> (Inr x, d'))"

definition s_read :: "(db \<Rightarrow> error + 'a) \<Rightarrow> 'a session" where
  "s_read f d = (emap_err SStorage (f d), d)"

definition s_merge :: "(db \<Rightarrow> error merge_error + 'a) \<Rightarrow> 'a session" where
  "s_merge f d = (emap_err SMerge (f d), d)"

section \<open>Resolutions\<close>

datatype stored_choice = StoredOurs | StoredTheirs | StoredContent object_id "bool option"

fun store_choices :: "codecs \<Rightarrow> (string, choice) omap \<Rightarrow> (string \<times> stored_choice) list session" where
  "store_choices L [] = s_ret []"
| "store_choices L ((path, choice) # choices) =
     s_bind (case choice of
         Ours \<Rightarrow> s_ret StoredOurs
       | Theirs \<Rightarrow> s_ret StoredTheirs
       | Content bytes executable \<Rightarrow> s_bind (s_call (put_blob (co_env L) bytes)) (\<lambda>content. s_ret (StoredContent content executable)))
       (\<lambda>stored. s_bind (store_choices L choices) (\<lambda>rest. s_ret ((path, stored) # rest)))"

definition record_resolution ::
  "codecs \<Rightarrow> ((string \<times> stored_choice) list \<Rightarrow> bytes) \<Rightarrow> (string, choice) omap \<Rightarrow> object_id session" where
  "record_resolution L encode' choices =
     s_bind (store_choices L choices) (\<lambda>resolutions. s_call (put_blob (co_env L) (encode' resolutions)))"

section \<open>The merge\<close>

fun store_merged :: "codecs \<Rightarrow> (string \<times> merged) list \<Rightarrow> (string \<times> file_entry) list session" where
  "store_merged L [] = s_ret []"
| "store_merged L ((path, result) # merged) =
     s_bind (case result of
         Retained entry \<Rightarrow> s_ret entry
       | MContent bytes executable \<Rightarrow> s_bind (s_call (put_blob (co_env L) bytes)) (\<lambda>content. s_ret (Regular content executable)))
       (\<lambda>entry. s_bind (store_merged L merged) (\<lambda>rest. s_ret ((path, entry) # rest)))"

text \<open>The changes that lead from the target's base to the merged manifest.\<close>

definition stack_changes :: "manifest \<Rightarrow> manifest \<Rightarrow> changes" where
  "stack_changes target_base merged =
     List.map_filter (\<lambda>path. let after = map_of merged path in
         if map_of target_base path \<noteq> after then Some (path, after) else None)
       (oset_of (map fst target_base @ map fst merged))"

definition stack_merge ::
  "codecs \<Rightarrow> (string list \<Rightarrow> error + string list) \<Rightarrow> layer_head \<Rightarrow> object_id \<Rightarrow> (string, choice) omap \<Rightarrow> (layer_checkpoint \<times> merge_outcome) session" where
  "stack_merge L aliases target source choices =
     s_bind (s_read (read_checkpoint L (lh_checkpoint target))) (\<lambda>ours.
     s_bind (s_read (read_checkpoint L source)) (\<lambda>theirs.
     s_bind (s_read (manifest_at (co_env L) (lb_version (lc_base theirs)))) (\<lambda>base.
     s_bind (s_read (checkpoint_manifest L (lc_id ours))) (\<lambda>ours_manifest.
     s_bind (s_read (checkpoint_manifest L (lc_id theirs))) (\<lambda>theirs_manifest.
     s_bind (s_merge (\<lambda>d. merge_resolved base ours_manifest theirs_manifest choices aliases
                (\<lambda>i. read_blob_bounded (co_env L) i (limit BlobBytes) d))) (\<lambda>merged.
     s_ret (ours, merged)))))))"

definition stack_commit ::
  "codecs \<Rightarrow> provenance option \<Rightarrow> string \<Rightarrow> layer_head \<Rightarrow> object_id \<Rightarrow> object_id option \<Rightarrow> layer_checkpoint \<Rightarrow> (string \<times> merged) list \<Rightarrow> layer_update session" where
  "stack_commit L provenance operation target source resolution ours merged =
     s_bind (store_merged L merged) (\<lambda>entries.
     s_bind (s_read (\<lambda>_. manifest_new entries)) (\<lambda>manifest.
     s_bind (s_read (manifest_at (co_env L) (lb_version (lc_base ours)))) (\<lambda>target_base.
     s_bind (s_read (\<lambda>_. changes_new (stack_changes target_base manifest))) (\<lambda>changes.
     s_call (commit_stack_resolved L provenance operation target source changes resolution)))))"

text \<open>A Stack without a recorded outcome. The error for an unused choice also quotes its path.\<close>

definition stack_new ::
  "codecs \<Rightarrow> (string list \<Rightarrow> error + string list) \<Rightarrow> provenance option \<Rightarrow> string \<Rightarrow> layer_head \<Rightarrow> object_id \<Rightarrow> (string, choice) omap
     \<Rightarrow> object_id option \<Rightarrow> stack_outcome session" where
  "stack_new L aliases provenance operation target source choices resolution =
     s_bind (stack_merge L aliases target source choices) (\<lambda>(ours, merged).
     if mo_unused merged \<noteq> [] then s_fail (SStorage (InvalidInput ''resolution for a path which is not a conflict''))
     else if \<not> is_clean merged then s_ret (StackConflicts (mo_conflicts merged))
     else s_bind (stack_commit L provenance operation target source resolution ours (mo_merged merged)) (\<lambda>outcome.
          s_ret (StackUpdated outcome)))"

definition stack_layer_resolved ::
  "codecs \<Rightarrow> ((string \<times> stored_choice) list \<Rightarrow> bytes) \<Rightarrow> (string list \<Rightarrow> error + string list) \<Rightarrow> provenance option
     \<Rightarrow> string \<Rightarrow> layer_head \<Rightarrow> object_id \<Rightarrow> (string, choice) omap \<Rightarrow> stack_outcome session" where
  "stack_layer_resolved L encode' aliases provenance operation target source choices =
     s_bind (if choices = [] then s_ret None else s_bind (record_resolution L encode' choices) (\<lambda>i. s_ret (Some i))) (\<lambda>resolution.
     s_bind (s_read (stack_operation_resolved L operation target source resolution)) (\<lambda>recorded.
     case recorded of
       Some outcome \<Rightarrow> s_ret (StackUpdated outcome)
     | None \<Rightarrow> stack_new L aliases provenance operation target source choices resolution))"

definition stack_layer ::
  "codecs \<Rightarrow> ((string \<times> stored_choice) list \<Rightarrow> bytes) \<Rightarrow> (string list \<Rightarrow> error + string list) \<Rightarrow> provenance option
     \<Rightarrow> string \<Rightarrow> layer_head \<Rightarrow> object_id \<Rightarrow> stack_outcome session" where
  "stack_layer L encode' aliases provenance operation target source =
     stack_layer_resolved L encode' aliases provenance operation target source []"

end
