(* ===== verification/StackProperties.thy ===== *)
theory StackProperties
  imports Stacking
begin

text \<open>
  What a Stack does to a repository: it is a run of the Layers' operations whatever it returns, an outcome without an update
  leaves the Layers alone, an update commits exactly the clean merge, and it is retried safely.
\<close>

section \<open>Sequences\<close>

lemma s_ret_iff [simp]: "s_ret x d = (r, d') \<longleftrightarrow> r = Inr x \<and> d' = d"
  by (auto simp: s_ret_def)

lemma s_fail_iff [simp]: "s_fail e d = (r, d') \<longleftrightarrow> r = Inl e \<and> d' = d"
  by (auto simp: s_fail_def)

lemma s_bind_iff: "s_bind m f d = (r, d') \<longleftrightarrow>
    (\<exists>e. m d = (Inl e, d') \<and> r = Inl e) \<or> (\<exists>x d1. m d = (Inr x, d1) \<and> f x d1 = (r, d'))"
  by (auto simp: s_bind_def split: prod.splits sum.splits)

lemma s_call_iff: "s_call t d = (r, d') \<longleftrightarrow>
    (\<exists>e. t d = Inl e \<and> r = Inl (SStorage e) \<and> d' = d) \<or> (\<exists>x. t d = Inr (x, d') \<and> r = Inr x)"
  by (auto simp: s_call_def split: prod.splits sum.splits)

lemma s_read_iff: "s_read f d = (r, d') \<longleftrightarrow> r = emap_err SStorage (f d) \<and> d' = d"
  by (auto simp: s_read_def)

lemma s_read_Inr: "s_read f d = (Inr x, d') \<longleftrightarrow> f d = Inr x \<and> d' = d"
  by (cases "f d") (auto simp: s_read_def)

lemma s_merge_iff: "s_merge f d = (r, d') \<longleftrightarrow> r = emap_err SMerge (f d) \<and> d' = d"
  by (auto simp: s_merge_def)

lemma s_merge_Inr: "s_merge f d = (Inr x, d') \<longleftrightarrow> f d = Inr x \<and> d' = d"
  by (cases "f d") (auto simp: s_merge_def)

lemmas session_iff = s_bind_iff s_call_iff s_read_iff s_merge_iff

lemma layer_run_trans: "layer_run L d d' \<Longrightarrow> layer_run L d' d'' \<Longrightarrow> layer_run L d d''"
  by (rotate_tac 1, induction d' d'' rule: layer_run.induct) (auto intro: layer_run.more)

section \<open>Blobs\<close>

text \<open>Blobs alone are stored: the tables of the Layers stay as they are.\<close>

definition stores_blobs :: "codecs \<Rightarrow> db \<Rightarrow> db \<Rightarrow> bool" where
  "stores_blobs L d d' \<longleftrightarrow> objects_ok (co_env L) d' \<and> adds_objects d d' \<and> layer_run L d d'"

lemma stores_refl: "objects_ok (co_env L) d \<Longrightarrow> stores_blobs L d d"
  by (simp add: stores_blobs_def layer_run.start)

lemma stores_trans: "stores_blobs L d d' \<Longrightarrow> stores_blobs L d' d'' \<Longrightarrow> stores_blobs L d d''"
  unfolding stores_blobs_def using adds_objects_trans layer_run_trans by blast

lemma put_blob_stores: "objects_ok (co_env L) d \<Longrightarrow> put_blob (co_env L) bs d = Inr (i, d') \<Longrightarrow> stores_blobs L d d'"
  unfolding stores_blobs_def using put_objects(1) layer_run.more [OF layer_run.start layer_step.blob] by blast

lemma call_blob_stores: "objects_ok (co_env L) d \<Longrightarrow> s_call (put_blob (co_env L) bs) d = (r, d') \<Longrightarrow> stores_blobs L d d'"
  using put_blob_stores stores_refl by (auto simp: s_call_iff)

text \<open>A sequence of sessions that only store blobs does so.\<close>

lemma stores_bind:
  assumes "s_bind m f d = (r, d')" "\<And>x d'. m d = (x, d') \<Longrightarrow> stores_blobs L d d'"
    "\<And>x d1 r d'. m d = (Inr x, d1) \<Longrightarrow> stores_blobs L d d1 \<Longrightarrow> f x d1 = (r, d') \<Longrightarrow> stores_blobs L d1 d'"
  shows "stores_blobs L d d'"
  using assms stores_trans unfolding s_bind_iff by blast

lemma stores_ok: "stores_blobs L d d' \<Longrightarrow> objects_ok (co_env L) d'"
  by (simp add: stores_blobs_def)

lemma store_choices_stores: "objects_ok (co_env L) d \<Longrightarrow> store_choices L choices d = (r, d') \<Longrightarrow> stores_blobs L d d'"
proof (induction choices arbitrary: d r d')
  case (Cons c choices)
  obtain path choice where c: "c = (path, choice)" by (cases c)
  from Cons.prems(2) show ?case unfolding c store_choices.simps
  proof (rule stores_bind)
    fix x d1 assume "(case choice of Ours \<Rightarrow> s_ret StoredOurs | Theirs \<Rightarrow> s_ret StoredTheirs
        | Content bytes executable \<Rightarrow> s_bind (s_call (put_blob (co_env L) bytes)) (\<lambda>content. s_ret (StoredContent content executable))) d = (x, d1)"
    then show "stores_blobs L d d1"
      using Cons.prems(1) call_blob_stores stores_refl by (cases choice) (auto simp: s_bind_iff)
  next
    fix x d1 r d2
    assume "stores_blobs L d d1" "s_bind (store_choices L choices) (\<lambda>rest. s_ret ((path, x) # rest)) d1 = (r, d2)"
    then show "stores_blobs L d1 d2" using Cons.IH [OF stores_ok] by (auto simp: s_bind_iff)
  qed
qed (simp add: stores_refl)

lemma record_resolution_stores:
  assumes "objects_ok (co_env L) d" "record_resolution L encode' choices d = (r, d')"
  shows "stores_blobs L d d'"
  using assms(2) unfolding record_resolution_def
  by (rule stores_bind) (use assms(1) store_choices_stores call_blob_stores stores_ok in blast)+

text \<open>The entry that a merged path gets.\<close>

fun merged_entry :: "env \<Rightarrow> merged \<Rightarrow> file_entry" where
  "merged_entry E (Retained entry) = entry"
| "merged_entry E (MContent bytes executable) = Regular (object_hash (en_sha E) Blob bytes) executable"

lemma store_merged_spec:
  "objects_ok (co_env L) d \<Longrightarrow> store_merged L merged d = (r, d') \<Longrightarrow> stores_blobs L d d'
    \<and> (\<forall>entries. r = Inr entries \<longrightarrow> entries = map (\<lambda>(p, m). (p, merged_entry (co_env L) m)) merged)"
proof (induction merged arbitrary: d r d')
  case (Cons c merged)
  obtain path result where c: "c = (path, result)" by (cases c)
  let ?first = "(case result of Retained entry \<Rightarrow> s_ret entry
       | MContent bytes executable \<Rightarrow> s_bind (s_call (put_blob (co_env L) bytes)) (\<lambda>content. s_ret (Regular content executable)))"
  have first: "stores_blobs L d d1 \<and> (\<forall>e. x = Inr e \<longrightarrow> e = merged_entry (co_env L) result)" if "?first d = (x, d1)" for x d1
    using that Cons.prems(1) call_blob_stores stores_refl insert_object_Inr(1) [OF Cons.prems(1)]
    by (cases result) (auto simp: s_bind_iff s_call_iff put_blob_def put_blob_stores [unfolded put_blob_def])
  from Cons.prems(2) have "(\<exists>e. ?first d = (Inl e, d') \<and> r = Inl e)
      \<or> (\<exists>x d1. ?first d = (Inr x, d1) \<and> s_bind (store_merged L merged) (\<lambda>rest. s_ret ((path, x) # rest)) d1 = (r, d'))"
    unfolding c store_merged.simps s_bind_iff [of ?first] .
  then show ?case
  proof (elim disjE exE conjE)
    fix e assume "?first d = (Inl e, d')" "r = Inl e"
    then show ?thesis using first by blast
  next
    fix x d1 assume f: "?first d = (Inr x, d1)" and s: "s_bind (store_merged L merged) (\<lambda>rest. s_ret ((path, x) # rest)) d1 = (r, d')"
    note a = first [OF f]
    then have ok: "objects_ok (co_env L) d1" using stores_ok by blast
    from s show ?thesis unfolding s_bind_iff [of "store_merged L merged"]
    proof (elim disjE exE conjE)
      fix e assume "store_merged L merged d1 = (Inl e, d')" "r = Inl e"
      then show ?thesis using Cons.IH [OF ok] a stores_trans by blast
    next
      fix rest d2 assume "store_merged L merged d1 = (Inr rest, d2)" "s_ret ((path, x) # rest) d2 = (r, d')"
      then show ?thesis using Cons.IH [OF ok] a stores_trans by (auto simp: c)
    qed
  qed
qed (auto simp: stores_refl)

section \<open>The changes\<close>

lemma stack_changes_alt:
  "stack_changes target merged = map (\<lambda>p. (p, map_of merged p))
     (filter (\<lambda>p. map_of target p \<noteq> map_of merged p) (oset_of (map fst target @ map fst merged)))"
proof -
  have "List.map_filter (\<lambda>p. if P p then Some (f p) else None) ps = map f (filter P ps)" for P and f :: "string \<Rightarrow> string \<times> file_entry option" and ps
    by (induction ps) simp_all
  then show ?thesis by (simp add: stack_changes_def Let_def)
qed

lemma set_stack_changes:
  "set (stack_changes target merged) = {(p, map_of merged p) | p. map_of target p \<noteq> map_of merged p}"
proof -
  have "p \<in> fst ` set target \<union> fst ` set merged" if "map_of target p \<noteq> map_of merged p" for p
    using that by (metis UnI1 UnI2 map_of_eq_None_iff)
  then show ?thesis unfolding stack_changes_alt set_map set_filter set_oset_of by auto
qed

lemma stack_changes_ok: "omap_ok (stack_changes target merged)"
proof -
  have "sorted_wrt (<) (oset_of (map fst target @ map fst merged))" using oset_of_ok by (simp add: oset_ok_def)
  then show ?thesis unfolding stack_changes_alt omap_ok_def by (simp add: comp_def sorted_wrt_filter)
qed

lemma map_of_stack_changes:
  "map_of (stack_changes target merged) p = (if map_of target p \<noteq> map_of merged p then Some (map_of merged p) else None)"
proof (cases "map_of target p \<noteq> map_of merged p")
  case True
  then have "(p, map_of merged p) \<in> set (stack_changes target merged)" unfolding set_stack_changes by blast
  then show ?thesis using True omap_map_of_iff [OF stack_changes_ok] by metis
next
  case False
  then have "p \<notin> fst ` set (stack_changes target merged)" unfolding set_stack_changes by auto
  then have "map_of (stack_changes target merged) p = None" by (simp only: map_of_eq_None_iff not_False_eq_True)
  then show ?thesis using False by (simp only: if_False)
qed

lemma stack_changes_apply:
  assumes "omap_ok target" "omap_ok merged"
  shows "changes_new (stack_changes target merged) = Inr (stack_changes target merged)"
    "changes_apply (stack_changes target merged) target = merged"
proof -
  show "changes_new (stack_changes target merged) = Inr (stack_changes target merged)"
    by (simp add: changes_new_def collect_unique_omap [OF stack_changes_ok])
  show "changes_apply (stack_changes target merged) target = merged"
  proof (rule omap_extI [OF changes_apply_ok [OF stack_changes_ok assms(1)] assms(2)], rule ext)
    fix p show "map_of (changes_apply (stack_changes target merged) target) p = map_of merged p"
      by (cases "map_of target p = map_of merged p") (simp_all only: map_of_changes_apply [OF stack_changes_ok assms(1)] map_of_stack_changes if_True if_False option.case not_not simp_thms)
  qed
qed

section \<open>Manifests\<close>

lemma manifest_at_world:
  assumes "repo_ok E d w" "manifest_at E v d = Inr m"
  shows "unat v < length w" "omap_ok m" "map_of m = fst (w ! unat v)" "\<forall>p \<in> fst ` set m. path_valid p"
proof -
  show v: "unat v < length w" using assms(2) version_in_spec [OF assms(1), of v] by (auto simp: manifest_at_def split: if_splits)
  from reads_spec(3) [OF assms(1) v] assms(2) show m: "omap_ok m" "map_of m = fst (w ! unat v)" by (auto simp: num_unat)
  have "world (fst (w ! unat v))" using repo_versions(7) [OF assms(1) v] by (simp add: stands_def)
  then show "\<forall>p \<in> fst ` set m. path_valid p" using m unfolding world_def by (metis domIff dom_map_of_conv_image_fst option.exhaust)
qed

text \<open>The entries that a checkpoint stands for.\<close>

definition node_map :: "world_log \<Rightarrow> layer_checkpoint \<Rightarrow> file_entry paths" where
  "node_map w node = upd (base_map w node) (lc_changes node)"

lemma checkpoint_manifest_map:
  assumes "codecs_ok L" "layers_ok L d w" "checkpoint_manifest L i d = Inr m"
  shows "\<exists>node. checkpoint_node L d i = Inr node \<and> omap_ok m \<and> map_of m = node_map w node \<and> (\<forall>p \<in> fst ` set m. path_valid p)"
proof -
  have rp: "repo_ok (co_env L) d w" using assms(2) by (simp add: layers_ok_def)
  obtain node root entries where n: "checkpoint_node L d i = Inr node" "tree_in (lb_version (lc_base node)) d = Inr root"
      "tree_entries (en_sha (co_env L)) (tree_view d) root = Inr entries" "manifest_new (changes_apply (lc_changes node) entries) = Inr m"
    using assms(3) by (auto simp: checkpoint_manifest_def checkpoint_in_eq sql_read_def result_simps split: if_splits)
  note c = checkpoint_leads(1,2) [OF assms(1,2) n(1)]
  have root: "root = vr_tree (db_versions d ! unat (lb_version (lc_base node)))" using n(2) c(1) by (simp add: tree_in_spec [OF rp])
  have st: "snapshot (en_sha (co_env L)) (tree_view d) root (base_map w node)" "world (base_map w node)"
    using repo_versions(7) [OF rp c(1)] by (simp_all add: stands_def base_map_def root)
  obtain es where es: "tree_entries (en_sha (co_env L)) (tree_view d) root = Inr es" "omap_ok es" "map_of es = base_map w node" using entries_spec [OF st] by blast
  have valid: "changes_valid (lc_changes node)" using c(2) by (simp add: leads_def)
  then have ok: "omap_ok (lc_changes node)" by (simp add: changes_valid_def)
  have "manifest_ok m" "map_of m = map_of (changes_apply (lc_changes node) es)"
    using n(3,4) es(1) iffD1 [OF manifest_new_exact] by auto
  moreover have "map_of (changes_apply (lc_changes node) es) = node_map w node"
    unfolding node_map_def upd_def es(3) [symmetric] by (rule ext) (simp only: map_of_changes_apply [OF ok es(2)])
  ultimately have m: "omap_ok m" "map_of m = node_map w node" by (simp_all add: manifest_ok_def)
  have "world (node_map w node)" unfolding node_map_def by (rule world_upd [OF st(2) valid])
  then have "\<forall>p \<in> fst ` set m. path_valid p" using m unfolding world_def by (metis domIff dom_map_of_conv_image_fst option.exhaust)
  then show ?thesis using n(1) m by blast
qed

lemma read_checkpoint_node:
  assumes "layers_ok L d w" "read_checkpoint L i d = Inr node"
  shows "checkpoint_node L d i = Inr node"
proof (cases "checkpoint_node L d i")
  case (Inr n)
  obtain seen where "read_checkpoint_with L d True i [] = Inr (n, seen)"
    by (rule read_in [OF layers_ancestry [OF assms(1) cache_ok_Nil] Inr])
  then show ?thesis using assms(2) Inr by (simp add: read_checkpoint_def)
next
  case (Inl e)
  then show ?thesis using assms(2) by (simp add: read_checkpoint_def read_checkpoint_with_def)
qed

lemma node_id: "codecs_ok L \<Longrightarrow> checkpoint_node L d i = Inr node \<Longrightarrow> lc_id node = i"
  by (simp add: checkpoint_node_iff checkpoint_at_def)

section \<open>Merging\<close>

text \<open>The merge of the source's entries, relative to its base, into the target's.\<close>

definition merges ::
  "codecs \<Rightarrow> (string list \<Rightarrow> error + string list) \<Rightarrow> db \<Rightarrow> world_log \<Rightarrow> layer_checkpoint \<Rightarrow> layer_checkpoint \<Rightarrow> (string, choice) omap \<Rightarrow> merge_outcome \<Rightarrow> bool" where
  "merges L aliases d w ours theirs choices mo \<longleftrightarrow>
     (\<exists>b o' t. omap_ok b \<and> omap_ok o' \<and> omap_ok t
        \<and> map_of b = base_map w theirs \<and> map_of o' = node_map w ours \<and> map_of t = node_map w theirs
        \<and> merge_resolved b o' t choices aliases (\<lambda>i. read_blob_bounded (co_env L) i (limit BlobBytes) d) = Inr mo)"

lemma stack_merge_reads: "stack_merge L aliases target source choices d = (r, d') \<Longrightarrow> d' = d"
  unfolding stack_merge_def by (auto simp: session_iff)

lemma stack_merge_spec:
  assumes "codecs_ok L" "layers_ok L d w" "stack_merge L aliases target source choices d = (Inr (ours, mo), d')"
  shows "\<exists>theirs. checkpoint_node L d (lh_checkpoint target) = Inr ours \<and> checkpoint_node L d source = Inr theirs
    \<and> merges L aliases d w ours theirs choices mo \<and> omap_ok (mo_merged mo) \<and> (\<forall>p \<in> fst ` set (mo_merged mo). path_valid p)"
proof -
  have rp: "repo_ok (co_env L) d w" using assms(2) by (simp add: layers_ok_def)
  obtain theirs b o' t where s: "read_checkpoint L (lh_checkpoint target) d = Inr ours" "read_checkpoint L source d = Inr theirs"
      "manifest_at (co_env L) (lb_version (lc_base theirs)) d = Inr b" "checkpoint_manifest L (lc_id ours) d = Inr o'"
      "checkpoint_manifest L (lc_id theirs) d = Inr t"
      "merge_resolved b o' t choices aliases (\<lambda>i. read_blob_bounded (co_env L) i (limit BlobBytes) d) = Inr mo"
    using assms(3) unfolding stack_merge_def by (auto simp: s_bind_iff s_read_Inr s_merge_Inr)
  have n: "checkpoint_node L d (lh_checkpoint target) = Inr ours" "checkpoint_node L d source = Inr theirs"
    using read_checkpoint_node [OF assms(2)] s(1,2) by blast+
  note id = node_id [OF assms(1) n(1)] node_id [OF assms(1) n(2)]
  note b = manifest_at_world [OF rp s(3)]
  have o': "omap_ok o'" "map_of o' = node_map w ours" "\<forall>p \<in> fst ` set o'. path_valid p"
    and t: "omap_ok t" "map_of t = node_map w theirs" "\<forall>p \<in> fst ` set t. path_valid p"
    using checkpoint_manifest_map [OF assms(1,2) s(4)] checkpoint_manifest_map [OF assms(1,2) s(5)] n by (auto simp: id)
  have keys: "omap_ok (mo_merged mo) \<and> fst ` set (mo_merged mo) \<subseteq> fst ` set b \<union> fst ` set o' \<union> fst ` set t"
    using s(6)
  proof (rule merge_resolved_Inr)
    fix rs0 partner ap an rs
    assume keys: "map fst rs0 = oset_of (map fst b @ map fst o' @ map fst t)" and rs: "rs = settle choices (set ap) (mark_renames partner rs0)"
      and ok: "omap_ok rs" and mo: "mo_merged mo = List.map_filter (kept_at an) rs"
    have "map fst rs = map fst rs0" unfolding rs settle_keys(1) by (rule mark_renames_keys)
    then have "fst ` set rs = fst ` set rs0" unfolding set_map [symmetric] by (rule arg_cong)
    also have "\<dots> = set (oset_of (map fst b @ map fst o' @ map fst t))" unfolding set_map [symmetric] keys ..
    also have "\<dots> = fst ` set b \<union> fst ` set o' \<union> fst ` set t" unfolding set_oset_of by (simp only: set_append set_map Un_assoc)
    finally have e: "fst ` set rs = fst ` set b \<union> fst ` set o' \<union> fst ` set t" .
    show ?thesis unfolding mo e [symmetric] by (rule conjI [OF kept_ok [OF ok] kept_keys])
  qed
  have "\<forall>p \<in> fst ` set (mo_merged mo). path_valid p"
  proof
    fix p assume "p \<in> fst ` set (mo_merged mo)"
    then have "p \<in> fst ` set b \<or> p \<in> fst ` set o' \<or> p \<in> fst ` set t" using subsetD [OF conjunct2 [OF keys]] by simp
    then show "path_valid p" by (elim disjE) (erule bspec [OF b(4)], erule bspec [OF o'(3)], erule bspec [OF t(3)])
  qed
  moreover have "merges L aliases d w ours theirs choices mo"
    unfolding merges_def base_map_def by (rule exI [of _ b], rule exI [of _ o'], rule exI [of _ t]) (intro conjI b(2,3) o'(1,2) t(1,2) s(6))
  ultimately show ?thesis by (intro exI [of _ theirs] conjI n conjunct1 [OF keys])
qed

section \<open>Committing\<close>

text \<open>The entries after a clean merge.\<close>

definition merged_map :: "env \<Rightarrow> merge_outcome \<Rightarrow> file_entry paths" where
  "merged_map E mo = (\<lambda>p. map_option (merged_entry E) (map_of (mo_merged mo) p))"

lemma commit_stack_swaps:
  assumes "codecs_ok L" "layers_ok L d w" "changes_text ch" "provenance_ok provenance" "layer_attempt_row_in operation d = None"
    "commit_stack_resolved L provenance operation target source ch resolution d = Inr (u, d')"
    "checkpoint_node L d (lh_checkpoint target) = Inr ours" "\<forall>(p, e) \<in> set ch. base_map w ours p \<noteq> e"
  shows "\<exists>node. checkpoint_node L d' (lc_id node) = Inr node \<and> lc_base node = lc_base ours \<and> lc_changes node = ch
    \<and> lc_sources node = oset_of (lc_sources ours @ [source]) \<and> swapped L d operation target (lc_id node) False u d'"
proof -
  obtain before candidate d1 where a: "verify_head target d = Inr ()" "refuse_published_in L operation (lh_layer target) d = Inr ()"
    "\<exists>n. checkpoint_in L source d = Inr n" "checkpoint_in L (lh_checkpoint target) d = Inr before"
    "prepare_checkpoint L (lc_base before) ch (oset_of (lc_sources before @ [source])) provenance d = Inr (candidate, d1)"
    "update_in L operation target candidate False (Some source) resolution d1 = Inr (u, d')"
    "layers_ok L d1 w" "grown (co_env L) d w d1 w" "update_input L d1 target candidate False (Some source) resolution"
    by (rule stack_spec [OF assms(1-4,6)])
  have ours: "before = ours" using a(4) assms(7) by (simp add: checkpoint_in_eq)
  obtain n where n: "checkpoint_node L d source = Inr n" using a(3) by (auto simp: checkpoint_in_eq)
  have src: "oset_ok (oset_of (lc_sources ours @ [source]))" "\<forall>s \<in> set (oset_of (lc_sources ours @ [source])). \<exists>n. checkpoint_node L d s = Inr n"
    using node_sources(2) [OF assms(2,7,1)] n oset_of_ok by (auto simp: set_oset_of)
  note p = prepare_checkpoint_spec [OF assms(1-4) src a(5) [unfolded ours]]
  let ?node = "prepared_node (lc_base ours) (oset_of (lc_sources ours @ [source])) candidate"
  have same: "db_heads d1 = db_heads d" "db_layer_attempts d1 = db_layer_attempts d" using p(2) by (auto simp: adds_objects_def)
  have fresh: "layer_attempt_row_in operation d1 = None" using assms(5) same by (simp add: layer_attempt_row_in_def)
  note k = update_in_kept [OF assms(1) a(7,9,6)]
  have sw: "swapped L d operation target (ca_id candidate) False u d'" using k(4) [OF fresh] unfolding swapped_def layer_rows_def same(1) .
  have node: "checkpoint_node L d' (ca_id candidate) = Inr ?node" by (rule checkpoint_node_grown [OF assms(1) k(2) p(4)])
  have r: "repo_ok (co_env L) d w" and ok: "omap_ok ch" using assms(2,3) by (simp_all add: layers_ok_def changes_text_def)
  have "validate_base (lc_base ours) d = Inr ()" using assms(7) by (simp add: checkpoint_node_iff [OF assms(1)] checkpoint_at_def)
  from base_version(1) [OF r this] p(5) have "ca_changes candidate = filter (\<lambda>(p, e). base_map w ours p \<noteq> e) ch"
    by (simp add: normalize_in_iff [OF r _ ok] base_map_def)
  moreover have "filter (\<lambda>(p, e). base_map w ours p \<noteq> e) ch = ch" using assms(8) by (simp add: filter_id_conv)
  ultimately have "ca_changes candidate = ch" by simp
  then show ?thesis using node sw by (intro exI [of _ ?node]) (simp add: prepared_node_def)
qed

lemma stores_layers:
  assumes "codecs_ok L" "layers_ok L d w" "stores_blobs L d d'"
  shows "layers_ok L d' w" "grown (co_env L) d w d' w"
  using layer_run_kept [OF assms(1) _ assms(2), of d'] assms(3) by (simp_all add: stores_blobs_def)

lemma stack_changes_text:
  assumes "\<forall>p \<in> fst ` set target. path_valid p" "\<forall>p \<in> fst ` set merged. path_valid p"
  shows "changes_text (stack_changes target merged)"
proof -
  have "path_valid p" if "p \<in> fst ` set (stack_changes target merged)" for p
  proof -
    have "map_of target p \<noteq> map_of merged p" using that unfolding set_stack_changes by auto
    then have "p \<in> fst ` set target \<or> p \<in> fst ` set merged" by (metis map_of_eq_None_iff)
    then show ?thesis using assms by blast
  qed
  then show ?thesis unfolding changes_text_def path_valid_def using stack_changes_ok by blast
qed

text \<open>After a clean merge: blobs are stored, and the merged entries are committed as changes of the target's base.\<close>

lemma stack_commit_spec:
  assumes "codecs_ok L" "layers_ok L d w" "provenance_ok provenance" "checkpoint_node L d (lh_checkpoint target) = Inr ours"
    "omap_ok (mo_merged mo)" "\<forall>p \<in> fst ` set (mo_merged mo). path_valid p"
    "stack_commit L provenance operation target source resolution ours (mo_merged mo) d = (r, d')"
  shows "\<exists>d1. stores_blobs L d d1 \<and> (case r of
      Inl e \<Rightarrow> d' = d1
    | Inr u \<Rightarrow> \<exists>ch. changes_text ch \<and> commit_stack_resolved L provenance operation target source ch resolution d1 = Inr (u, d')
        \<and> upd (base_map w ours) ch = merged_map (co_env L) mo \<and> (\<forall>(p, e) \<in> set ch. base_map w ours p \<noteq> e))"
proof -
  have ok: "objects_ok (co_env L) d" using assms(2) by (simp add: layers_ok_def repo_ok_def)
  obtain q d1 where q: "store_merged L (mo_merged mo) d = (q, d1)" by (cases "store_merged L (mo_merged mo) d")
  note s = store_merged_spec [OF ok q]
  note l1 = stores_layers [OF assms(1,2) conjunct1 [OF s]]
  have rp: "repo_ok (co_env L) d1 w" using l1(1) by (simp add: layers_ok_def)
  show ?thesis
  proof (cases "\<exists>e. r = Inl e")
    case True
    then have "d' = d1" using assms(7) q unfolding stack_commit_def by (auto simp: session_iff)
    then show ?thesis using True s by auto
  next
    case False
    then obtain u where u: "r = Inr u" by (cases r) auto
    obtain entries manifest base changes where c: "q = Inr entries" "manifest_new entries = Inr manifest"
        "manifest_at (co_env L) (lb_version (lc_base ours)) d1 = Inr base" "changes_new (stack_changes base manifest) = Inr changes"
        "commit_stack_resolved L provenance operation target source changes resolution d1 = Inr (u, d')"
      using assms(7) q u unfolding stack_commit_def by (auto simp: s_bind_iff s_read_Inr s_call_iff)
    have e: "entries = map (\<lambda>(p, m). (p, merged_entry (co_env L) m)) (mo_merged mo)" using s c(1) by blast
    have m: "manifest_ok manifest" "map_of manifest = map_of entries" using iffD1 [OF manifest_new_exact c(2)] by simp_all
    then have mok: "omap_ok manifest" by (simp add: manifest_ok_def)
    have map: "map_of manifest = merged_map (co_env L) mo"
    proof
      fix p show "map_of manifest p = merged_map (co_env L) mo p"
        unfolding m(2) e merged_map_def by (induction "mo_merged mo") (auto simp: map_of_map)
    qed
    note b = manifest_at_world [OF rp c(3)]
    note ch = stack_changes_apply [OF b(2) mok]
    have changes: "changes = stack_changes base manifest" using c(4) ch(1) by simp
    have base: "map_of base = base_map w ours" using b(3) by (simp add: base_map_def)
    have "fst ` set manifest = dom (merged_map (co_env L) mo)" unfolding map [symmetric] dom_map_of_conv_image_fst ..
    then have "fst ` set manifest \<subseteq> fst ` set (mo_merged mo)"
      unfolding merged_map_def using dom_map_of_conv_image_fst [of "mo_merged mo"] by auto
    then have text_: "changes_text changes" unfolding changes using stack_changes_text [OF b(4), of manifest] assms(6) by blast
    have "upd (base_map w ours) changes = merged_map (co_env L) mo"
    proof
      fix p show "upd (base_map w ours) changes p = merged_map (co_env L) mo p"
        unfolding upd_def changes map_of_stack_changes base [symmetric] map [symmetric] by simp
    qed
    moreover have "\<forall>(p, e) \<in> set changes. base_map w ours p \<noteq> e" unfolding changes set_stack_changes base [symmetric] by auto
    ultimately show ?thesis using s c(5) text_ u by auto
  qed
qed

section \<open>A call\<close>

abbreviation (input) recording ::
  "codecs \<Rightarrow> ((string \<times> stored_choice) list \<Rightarrow> bytes) \<Rightarrow> (string, choice) omap \<Rightarrow> object_id option session" where
  "recording L encode' choices \<equiv>
     (if choices = [] then s_ret None else s_bind (record_resolution L encode' choices) (\<lambda>i. s_ret (Some i)))"

lemma recording_stores:
  "objects_ok (co_env L) d \<Longrightarrow> recording L encode' choices d = (x, d') \<Longrightarrow> stores_blobs L d d'"
  using record_resolution_stores stores_refl by (fastforce simp: s_bind_iff split: if_splits)

text \<open>The clean merge was committed from \<open>d0\<close>, with blobs stored on the way.\<close>

definition stacked ::
  "codecs \<Rightarrow> (string list \<Rightarrow> error + string list) \<Rightarrow> provenance option \<Rightarrow> string \<Rightarrow> layer_head \<Rightarrow> object_id \<Rightarrow> (string, choice) omap
     \<Rightarrow> object_id option \<Rightarrow> db \<Rightarrow> world_log \<Rightarrow> layer_update \<Rightarrow> db \<Rightarrow> bool" where
  "stacked L aliases provenance operation target source choices resolution d0 w u d' \<longleftrightarrow>
     (\<exists>d1 ours theirs mo ch. stores_blobs L d0 d1
        \<and> checkpoint_node L d0 (lh_checkpoint target) = Inr ours \<and> checkpoint_node L d0 source = Inr theirs
        \<and> merges L aliases d0 w ours theirs choices mo \<and> is_clean mo \<and> mo_unused mo = []
        \<and> changes_text ch \<and> commit_stack_resolved L provenance operation target source ch resolution d1 = Inr (u, d')
        \<and> upd (base_map w ours) ch = merged_map (co_env L) mo \<and> (\<forall>(p, e) \<in> set ch. base_map w ours p \<noteq> e))"

text \<open>The merge of what \<open>d0\<close> holds has these conflicts.\<close>

definition conflicted ::
  "codecs \<Rightarrow> (string list \<Rightarrow> error + string list) \<Rightarrow> layer_head \<Rightarrow> object_id \<Rightarrow> (string, choice) omap \<Rightarrow> db \<Rightarrow> world_log \<Rightarrow> conflict list \<Rightarrow> bool" where
  "conflicted L aliases target source choices d0 w cs \<longleftrightarrow>
     (\<exists>ours theirs mo. checkpoint_node L d0 (lh_checkpoint target) = Inr ours \<and> checkpoint_node L d0 source = Inr theirs
        \<and> merges L aliases d0 w ours theirs choices mo \<and> mo_unused mo = [] \<and> mo_conflicts mo = cs \<and> cs \<noteq> [])"

lemma stack_new_spec:
  assumes "codecs_ok L" "layers_ok L d w" "provenance_ok provenance"
    "stack_new L aliases provenance operation target source choices resolution d = (r, d')"
  shows "stores_blobs L d d' \<and> (\<forall>u. r \<noteq> Inr (StackUpdated u))
      \<and> (\<forall>cs. r = Inr (StackConflicts cs) \<longrightarrow> conflicted L aliases target source choices d w cs \<and> d' = d)
    \<or> (\<exists>u. r = Inr (StackUpdated u) \<and> stacked L aliases provenance operation target source choices resolution d w u d')"
proof -
  have s0: "stores_blobs L d d" using assms(2) by (simp add: layers_ok_def repo_ok_def stores_refl)
  obtain y d2 where y: "stack_merge L aliases target source choices d = (y, d2)" by (cases "stack_merge L aliases target source choices d")
  have d2: "d2 = d" by (rule stack_merge_reads [OF y])
  show ?thesis
  proof (cases y)
    case (Inl e)
    then have "d' = d \<and> r = Inl e" using assms(4) y d2 by (auto simp: stack_new_def s_bind_def)
    then show ?thesis using s0 by simp
  next
    case y': (Inr om)
    obtain ours mo where om: "om = (ours, mo)" by (cases om)
    from stack_merge_spec [OF assms(1,2), of aliases target source choices ours mo d2] y y' om obtain theirs where
      m: "checkpoint_node L d (lh_checkpoint target) = Inr ours" "checkpoint_node L d source = Inr theirs"
         "merges L aliases d w ours theirs choices mo" "omap_ok (mo_merged mo)" "\<forall>p \<in> fst ` set (mo_merged mo). path_valid p" by blast
    show ?thesis
    proof (cases "mo_unused mo = [] \<and> is_clean mo")
      case False
      then have "d' = d" "\<forall>u. r \<noteq> Inr (StackUpdated u)"
          "\<forall>cs. r = Inr (StackConflicts cs) \<longrightarrow> mo_unused mo = [] \<and> mo_conflicts mo = cs \<and> cs \<noteq> []"
        using assms(4) y y' om d2 by (auto simp: stack_new_def s_bind_def s_ret_def s_fail_def is_clean_def split: if_splits)
      then show ?thesis using s0 m(1-3) unfolding conflicted_def by blast
    next
      case True
      obtain z d3 where z: "stack_commit L provenance operation target source resolution ours (mo_merged mo) d = (z, d3)"
        by (cases "stack_commit L provenance operation target source resolution ours (mo_merged mo) d")
      have res: "d' = d3" "r = (case z of Inl e \<Rightarrow> Inl e | Inr u \<Rightarrow> Inr (StackUpdated u))"
        using assms(4) y y' om d2 True z by (auto simp: stack_new_def s_bind_def s_ret_def split: sum.splits)
      from stack_commit_spec [OF assms(1,2,3) m(1,4,5) z] obtain d1 where d1: "stores_blobs L d d1" "case z of Inl e \<Rightarrow> d3 = d1
          | Inr u \<Rightarrow> \<exists>ch. changes_text ch \<and> commit_stack_resolved L provenance operation target source ch resolution d1 = Inr (u, d3)
              \<and> upd (base_map w ours) ch = merged_map (co_env L) mo \<and> (\<forall>(p, e) \<in> set ch. base_map w ours p \<noteq> e)" by blast
      show ?thesis
      proof (cases z)
        case (Inl e)
        then show ?thesis using d1 res by simp
      next
        case (Inr u)
        then have "stacked L aliases provenance operation target source choices resolution d w u d'"
          unfolding stacked_def using d1 m(1-3) True res(1) by (intro exI [of _ d1] exI [of _ ours] exI [of _ theirs] exI [of _ mo]) simp
        then show ?thesis using Inr res(2) by simp
      qed
    qed
  qed
qed

text \<open>An update is one that was recorded before, or the commit of the clean merge; any other outcome left only blobs.\<close>

lemma stack_layer_spec:
  assumes "codecs_ok L" "layers_ok L d w" "provenance_ok provenance"
    "stack_layer_resolved L encode' aliases provenance operation target source choices d = (r, d')"
  shows "stores_blobs L d d' \<and> (\<forall>u. r \<noteq> Inr (StackUpdated u))
      \<and> (\<forall>cs. r = Inr (StackConflicts cs) \<longrightarrow> conflicted L aliases target source choices d' w cs)
    \<or> (\<exists>u resolution d0. r = Inr (StackUpdated u) \<and> recording L encode' choices d = (Inr resolution, d0) \<and> stores_blobs L d d0
        \<and> (stack_operation_resolved L operation target source resolution d0 = Inr (Some u) \<and> d' = d0
           \<or> stack_operation_resolved L operation target source resolution d0 = Inr None
             \<and> stacked L aliases provenance operation target source choices resolution d0 w u d'))"
proof -
  have ok: "objects_ok (co_env L) d" using assms(2) by (simp add: layers_ok_def repo_ok_def)
  obtain x d0 where x: "recording L encode' choices d = (x, d0)" by (cases "recording L encode' choices d")
  have s0: "stores_blobs L d d0" by (rule recording_stores [OF ok x])
  note l0 = stores_layers [OF assms(1,2) s0]
  show ?thesis
  proof (cases x)
    case (Inl e)
    then have "d' = d0 \<and> r = Inl e" using assms(4) x unfolding stack_layer_resolved_def s_bind_iff [of "recording L encode' choices"] by auto
    then show ?thesis using s0 by simp
  next
    case x': (Inr resolution)
    let ?op = "stack_operation_resolved L operation target source resolution d0"
    have rest: "s_bind (s_read (stack_operation_resolved L operation target source resolution)) (\<lambda>recorded.
       case recorded of Some outcome \<Rightarrow> s_ret (StackUpdated outcome)
       | None \<Rightarrow> stack_new L aliases provenance operation target source choices resolution) d0 = (r, d')"
      using assms(4) x x' unfolding stack_layer_resolved_def s_bind_iff [of "recording L encode' choices"] by auto
    show ?thesis
    proof (cases ?op)
      case (Inl e)
      then have "d' = d0 \<and> r = Inl (SStorage e)" using rest by (auto simp: session_iff)
      then show ?thesis using s0 by simp
    next
      case op: (Inr recorded)
      show ?thesis
      proof (cases recorded)
        case (Some u)
        then have "d' = d0" "r = Inr (StackUpdated u)" using rest op by (auto simp: session_iff)
        then show ?thesis using s0 x x' op Some by auto
      next
        case None
        then have "stack_new L aliases provenance operation target source choices resolution d0 = (r, d')"
          using rest op by (simp add: s_bind_def s_read_def)
        from stack_new_spec [OF assms(1) l0(1) assms(3) this] show ?thesis using s0 stores_trans x x' op None by blast
      qed
    qed
  qed
qed

text \<open>What a Stack commits, as a compare-and-swap on the state before the call.\<close>

lemma stacked_swaps:
  assumes "codecs_ok L" "layers_ok L d0 w" "provenance_ok provenance" "layer_attempt_row_in operation d0 = None"
    "stacked L aliases provenance operation target source choices resolution d0 w u d'"
  shows "layer_run L d0 d' \<and> (\<exists>ours theirs mo node. checkpoint_node L d0 (lh_checkpoint target) = Inr ours \<and> checkpoint_node L d0 source = Inr theirs
    \<and> merges L aliases d0 w ours theirs choices mo \<and> is_clean mo \<and> mo_unused mo = []
    \<and> checkpoint_node L d' (lc_id node) = Inr node \<and> lc_base node = lc_base ours \<and> lc_sources node = oset_of (lc_sources ours @ [source])
    \<and> node_map w node = merged_map (co_env L) mo \<and> swapped L d0 operation target (lc_id node) False u d')"
proof -
  obtain d1 ours theirs mo ch where s: "stores_blobs L d0 d1" "checkpoint_node L d0 (lh_checkpoint target) = Inr ours"
    "checkpoint_node L d0 source = Inr theirs" "merges L aliases d0 w ours theirs choices mo" "is_clean mo" "mo_unused mo = []"
    "changes_text ch" "commit_stack_resolved L provenance operation target source ch resolution d1 = Inr (u, d')"
    "upd (base_map w ours) ch = merged_map (co_env L) mo" "\<forall>(p, e) \<in> set ch. base_map w ours p \<noteq> e"
    using assms(5) unfolding stacked_def by blast
  note l1 = stores_layers [OF assms(1,2) s(1)]
  have same: "db_heads d1 = db_heads d0" "db_layer_attempts d1 = db_layer_attempts d0" using s(1) by (auto simp: stores_blobs_def adds_objects_def)
  have fresh: "layer_attempt_row_in operation d1 = None" using assms(4) by (simp add: layer_attempt_row_in_def same)
  have ours: "checkpoint_node L d1 (lh_checkpoint target) = Inr ours" by (rule checkpoint_node_grown [OF assms(1) l1(2) s(2)])
  obtain node where node: "checkpoint_node L d' (lc_id node) = Inr node" "lc_base node = lc_base ours" "lc_changes node = ch"
      "lc_sources node = oset_of (lc_sources ours @ [source])" "swapped L d1 operation target (lc_id node) False u d'"
    using commit_stack_swaps [OF assms(1) l1(1) s(7) assms(3) fresh s(8) ours s(10)] by blast
  have "swapped L d0 operation target (lc_id node) False u d'" using node(5) unfolding swapped_def layer_rows_def same(1) .
  moreover have "node_map w node = merged_map (co_env L) mo" using s(9) node(2,3) by (simp add: node_map_def base_map_def)
  moreover have "layer_run L d0 d'"
    using s(1) layer_run.more [OF _ layer_step.stack [OF s(8,7) assms(3)]] by (simp add: stores_blobs_def)
  ultimately show ?thesis using s(2-6) node(1,2,4) by (intro conjI exI [of _ ours] exI [of _ theirs] exI [of _ mo] exI [of _ node]) simp_all
qed

lemma stores_frame: "stores_blobs L d d' \<Longrightarrow> layer_run L d d' \<and> (\<exists>rows. d' = d\<lparr>db_objects := db_objects d @ rows\<rparr>)"
  by (auto simp: stores_blobs_def adds_objects_def)

lemma no_recorded_outcome:
  "layer_attempt_row_in operation d = None \<Longrightarrow> stack_operation_resolved L operation target source resolution d \<noteq> Inr (Some u)"
  by (auto simp: stack_operation_resolved_def replay_stack_in_def result_simps)

section \<open>Retries\<close>

lemma replay_iff: "replay_stack_in L operation target source resolution d = Inr (Some u) \<longleftrightarrow>
    verify_head target d = Inr () \<and> (\<exists>checkpoint discard. answered L operation target checkpoint discard (Some source) resolution u d)"
proof (cases "layer_attempt_row_in operation d")
  case None
  then show ?thesis by (simp add: replay_stack_in_def answered_def)
next
  case (Some row)
  have row: "answered L operation target checkpoint discard (Some source) resolution u d \<longleftrightarrow>
      update_outcome L operation d = Inr u \<and> la_layer row = lh_layer target \<and> la_expected row = version_sql (lh_revision target)
      \<and> la_checkpoint row = checkpoint \<and> (la_discard row \<noteq> 0) = discard \<and> source_in operation d = Some source
      \<and> resolution_in L operation d = Inr resolution" for checkpoint discard
    using Some by (auto simp add: answered_def update_outcome_iff same_attempt_def ebind_Inr_iff)
  have "replay_stack_in L operation target source resolution d = Inr (Some u) \<longleftrightarrow>
      update_outcome L operation d = Inr u \<and> la_layer row = lh_layer target \<and> la_expected row = version_sql (lh_revision target)
      \<and> source_in operation d = Some source \<and> resolution_in L operation d = Inr resolution \<and> verify_head target d = Inr ()"
    using Some by (simp add: replay_stack_in_def ebind_Inr_iff) blast
  then show ?thesis unfolding row by auto
qed

lemma put_blob_again:
  assumes "objects_ok E d" "put_blob E bs d = Inr (i, d')" "objects_ok E d''" "keeps_objects d' d''"
  shows "put_blob E bs d'' = Inr (i, d'')"
proof -
  have ins: "insert_object E Blob bs d = Inr (i, d')" using assms(2) by (simp add: put_blob_def)
  note o = insert_object_Inr [OF assms(1) ins]
  have "read_object E d'' i Blob = Inr bs" by (rule read_object_keeps [OF assms(4) o(4)])
  then show ?thesis using insert_object_again [OF assms(3), of Blob bs] by (simp add: put_blob_def o(1))
qed

lemma call_blob_again:
  assumes "objects_ok (co_env L) d" "s_call (put_blob (co_env L) bs) d = (Inr i, d')" "objects_ok (co_env L) d''" "keeps_objects d' d''"
  shows "s_call (put_blob (co_env L) bs) d'' = (Inr i, d'')"
proof -
  have "put_blob (co_env L) bs d = Inr (i, d')" using assms(2) by (simp add: s_call_iff)
  from put_blob_again [OF assms(1) this assms(3,4)] show ?thesis by (simp add: s_call_iff)
qed

lemma stores_keeps: "stores_blobs L d d' \<Longrightarrow> keeps_objects d' d'' \<Longrightarrow> keeps_objects d d''"
  unfolding stores_blobs_def using adds_keeps keeps_objects_trans by blast

lemma store_choices_again:
  "objects_ok (co_env L) d \<Longrightarrow> store_choices L choices d = (Inr stored, d') \<Longrightarrow> objects_ok (co_env L) d'' \<Longrightarrow> keeps_objects d' d'' \<Longrightarrow>
   store_choices L choices d'' = (Inr stored, d'')"
proof (induction choices arbitrary: d stored)
  case (Cons c choices)
  obtain path choice where c: "c = (path, choice)" by (cases c)
  let ?first = "(case choice of Ours \<Rightarrow> s_ret StoredOurs | Theirs \<Rightarrow> s_ret StoredTheirs
      | Content bytes executable \<Rightarrow> s_bind (s_call (put_blob (co_env L) bytes)) (\<lambda>content. s_ret (StoredContent content executable)))"
  obtain x d1 rest where f: "?first d = (Inr x, d1)" and r: "store_choices L choices d1 = (Inr rest, d')" "stored = (path, x) # rest"
    using Cons.prems(2) unfolding c store_choices.simps s_bind_iff [of ?first] by (auto simp: s_bind_iff [of "store_choices L choices"])
  have s: "stores_blobs L d d1" using f Cons.prems(1) call_blob_stores stores_refl by (cases choice) (auto simp: s_bind_iff)
  have "keeps_objects d1 d''" by (rule stores_keeps [OF store_choices_stores [OF stores_ok [OF s] r(1)] Cons.prems(4)])
  then have "?first d'' = (Inr x, d'')"
    using f call_blob_again [OF Cons.prems(1) _ Cons.prems(3)] by (cases choice) (auto simp: s_bind_iff)
  moreover have "store_choices L choices d'' = (Inr rest, d'')" by (rule Cons.IH [OF stores_ok [OF s] r(1) Cons.prems(3,4)])
  ultimately show ?case unfolding c store_choices.simps s_bind_iff [of ?first] by (auto simp: s_bind_iff [of "store_choices L choices"] r(2))
qed simp

lemma recording_again:
  assumes "objects_ok (co_env L) d" "recording L encode' choices d = (Inr resolution, d')" "objects_ok (co_env L) d''" "keeps_objects d' d''"
  shows "recording L encode' choices d'' = (Inr resolution, d'')"
proof (cases "choices = []")
  case False
  then obtain stored d1 i where r: "store_choices L choices d = (Inr stored, d1)" "s_call (put_blob (co_env L) (encode' stored)) d1 = (Inr i, d')" "resolution = Some i"
    using assms(2) by (auto simp: record_resolution_def s_bind_iff)
  have ok: "objects_ok (co_env L) d1" by (rule stores_ok [OF store_choices_stores [OF assms(1) r(1)]])
  have k: "keeps_objects d1 d''" by (rule stores_keeps [OF call_blob_stores [OF ok r(2)] assms(4)])
  have "store_choices L choices d'' = (Inr stored, d'')" by (rule store_choices_again [OF assms(1) r(1) assms(3) k])
  moreover have "s_call (put_blob (co_env L) (encode' stored)) d'' = (Inr i, d'')" by (rule call_blob_again [OF ok r(2) assms(3,4)])
  ultimately show ?thesis using False by (simp add: record_resolution_def s_bind_def s_ret_def r(3))
qed (use assms(2) in simp)

lemma stack_call_again:
  assumes "codecs_ok L" "layers_ok L d w" "provenance_ok provenance"
    "stack_layer_resolved L encode' aliases provenance operation target source choices d = (Inr (StackUpdated u), d1)" "layer_run L d1 d2"
  shows "stack_layer_resolved L encode' aliases provenance operation target source choices d2 = (Inr (StackUpdated u), d2)"
proof -
  have ok: "objects_ok (co_env L) d" using assms(2) by (simp add: layers_ok_def repo_ok_def)
  from stack_layer_spec [OF assms(1-4)] obtain resolution d0 where r: "recording L encode' choices d = (Inr resolution, d0)" "stores_blobs L d d0"
    "stack_operation_resolved L operation target source resolution d0 = Inr (Some u) \<and> d1 = d0
       \<or> stacked L aliases provenance operation target source choices resolution d0 w u d1" by auto
  note l0 = stores_layers [OF assms(1,2) r(2)]
  have a: "verify_head target d1 = Inr () \<and> (\<exists>checkpoint discard. answered L operation target checkpoint discard (Some source) resolution u d1)
      \<and> layers_ok L d1 w \<and> grown (co_env L) d0 w d1 w" using r(3)
  proof
    assume "stack_operation_resolved L operation target source resolution d0 = Inr (Some u) \<and> d1 = d0"
    then have "replay_stack_in L operation target source resolution d1 = Inr (Some u)" "d1 = d0" by (auto simp: stack_operation_resolved_def result_simps)
    then show ?thesis using l0(1) by (auto simp: replay_iff layers_ok_def grown_refl)
  next
    assume "stacked L aliases provenance operation target source choices resolution d0 w u d1"
    then obtain d3 ch where s: "stores_blobs L d0 d3" "changes_text ch" "commit_stack_resolved L provenance operation target source ch resolution d3 = Inr (u, d1)"
      unfolding stacked_def by blast
    note l3 = stores_layers [OF assms(1) l0(1) s(1)]
    obtain before candidate d4 where c: "verify_head target d3 = Inr ()" "update_in L operation target candidate False (Some source) resolution d4 = Inr (u, d1)"
      "layers_ok L d4 w" "grown (co_env L) d3 w d4 w" "update_input L d4 target candidate False (Some source) resolution"
      by (rule stack_spec [OF assms(1) l3(1) s(2) assms(3) s(3)])
    note k = update_in_kept [OF assms(1) c(3,5,2)]
    have g: "grown (co_env L) d3 w d1 w" by (rule grown_trans [OF c(4) k(2)])
    then show ?thesis using verified_grown [OF l3(1) k(1) g c(1)] k(1,3) grown_trans [OF l3(2) g] by blast
  qed
  then have l1: "layers_ok L d1 w" "grown (co_env L) d0 w d1 w" "verify_head target d1 = Inr ()" by simp_all
  obtain checkpoint discard where an: "answered L operation target checkpoint discard (Some source) resolution u d1" using a by blast
  have l2: "layers_ok L d2 w" "grown (co_env L) d1 w d2 w" using layer_run_kept [OF assms(1,5) l1(1)] by simp_all
  have g: "grown (co_env L) d0 w d2 w" by (rule grown_trans [OF l1(2) l2(2)])
  have "replay_stack_in L operation target source resolution d2 = Inr (Some u)"
    unfolding replay_iff using verified_grown [OF l1(1) l2 l1(3)] answered_grown [OF assms(1) l2(2) an] by blast
  moreover have "validate_format d2 = Inr ()" using l2(1) by (simp add: layers_ok_def repo_ok_def)
  moreover have "recording L encode' choices d2 = (Inr resolution, d2)"
    by (rule recording_again [OF ok r(1)]) (use g l2(1) in \<open>simp_all add: grown_def layers_ok_def repo_ok_def\<close>)
  ultimately show ?thesis by (simp add: stack_layer_resolved_def s_bind_def s_read_def s_ret_def stack_operation_resolved_def)
qed

end
