(* ===== verification/Stacks.thy ===== *)
theory Stacks
  imports StackProperties PublishExample
begin

text \<open>
  The outcome of a Stack, over every call: what it returns and what it leaves, with a Stack on the Layer of the example.
\<close>

section \<open>A Stack of one file\<close>










section \<open>The outcome\<close>



end
