(* ===== verification/Correspondence.thy ===== *)
theory Correspondence
  imports LineBlame
begin

text \<open>
  The correspondence of lines that trace blame carries origins along (\<open>matching\<close> of \<open>src/blame.rs\<close>): it pairs equal lines
  only, in order. The steps of Myers' diff are compared with the farthest points as a function of the step and the diagonal.
\<close>

section \<open>Farthest points\<close>

text \<open>What the vector holds after step \<open>d\<close> on the diagonals of that step.\<close>

primrec farthest :: "nat list \<Rightarrow> nat list \<Rightarrow> nat \<Rightarrow> int \<Rightarrow> int" where
  "farthest a b 0 = (\<lambda>k. slide a b k (step_start (\<lambda>_. 0) 0 k))"
| "farthest a b (Suc d) = (\<lambda>k. slide a b k (step_start (farthest a b d) (int (Suc d)) k))"

definition on_step :: "nat \<Rightarrow> int \<Rightarrow> bool" where
  "on_step d k \<longleftrightarrow> \<bar>k\<bar> \<le> int d \<and> even (int d - k)"

text \<open>Both ends are reached on diagonal \<open>k\<close>.\<close>

definition at_ends :: "nat list \<Rightarrow> nat list \<Rightarrow> nat \<Rightarrow> int \<Rightarrow> bool" where
  "at_ends a b d k \<longleftrightarrow> int (length a) \<le> farthest a b d k \<and> int (length b) \<le> farthest a b d k - k"

lemma on_step_0 [simp]: "on_step 0 k \<longleftrightarrow> k = 0"
  by (auto simp: on_step_def)

lemma on_step_next: "on_step d k \<Longrightarrow> on_step (Suc d) (k + 1) \<and> on_step (Suc d) (k - 1)"
  by (auto simp: on_step_def)

lemma on_step_down: "on_step (Suc d) k \<Longrightarrow> k \<noteq> int (Suc d) \<Longrightarrow> on_step d (k + 1)"
  by (cases "k = int d \<or> k = - int d") (auto simp: on_step_def)

lemma on_step_right: "on_step (Suc d) k \<Longrightarrow> k \<noteq> - int (Suc d) \<Longrightarrow> on_step d (k - 1)"
  by (cases "k = int d \<or> k = - int d") (auto simp: on_step_def)

text \<open>A slide runs along equal lines, and a point that slid is inside.\<close>

lemma slide_run: "\<exists>s :: nat. slide a b k x = x + int s
    \<and> (\<forall>i < s. 0 \<le> x + int i \<and> 0 \<le> x + int i - k \<and> x + int i < int (length a) \<and> x + int i - k < int (length b)
         \<and> a ! nat (x + int i) = b ! nat (x + int i - k))"
proof (induction a b k x rule: slide.induct)
  case (1 a b k x)
  show ?case
  proof (cases "0 \<le> x \<and> 0 \<le> x - k \<and> x < int (length a) \<and> x - k < int (length b) \<and> a ! nat x = b ! nat (x - k)")
    case True
    then obtain s :: nat where s: "slide a b k (x + 1) = x + 1 + int s"
      "\<forall>i < s. 0 \<le> x + 1 + int i \<and> 0 \<le> x + 1 + int i - k \<and> x + 1 + int i < int (length a) \<and> x + 1 + int i - k < int (length b)
         \<and> a ! nat (x + 1 + int i) = b ! nat (x + 1 + int i - k)" using 1 by auto
    show ?thesis
    proof (intro exI [of _ "Suc s"] conjI allI impI)
      show "slide a b k x = x + int (Suc s)" using True s(1) by (simp add: slide.simps [of a b k x])
      fix i assume i: "i < Suc s"
      show "0 \<le> x + int i" "0 \<le> x + int i - k" "x + int i < int (length a)" "x + int i - k < int (length b)"
        "a ! nat (x + int i) = b ! nat (x + int i - k)"
        using True s(2) i by (cases i; force simp: algebra_simps)+
    qed
  next
    case False
    then show ?thesis by (intro exI [of _ 0]) (auto simp: slide.simps [of a b k x])
  qed
qed

lemma slide_ge: "x \<le> slide a b k x"
  using slide_run [of a b k x] by auto

lemma slide_moved:
  assumes "slide a b k x \<noteq> x"
  shows "slide a b k x \<le> int (length a)" "slide a b k x - k \<le> int (length b)"
proof -
  obtain s :: nat where s: "slide a b k x = x + int s"
    "\<forall>i < s. x + int i < int (length a) \<and> x + int i - k < int (length b)" using slide_run [of a b k x] by blast
  then have "0 < s" using assms by simp
  then have "s - 1 < s" by simp
  from s(2) [rule_format, OF this] have "x + int (s - 1) < int (length a) \<and> x + int (s - 1) - k < int (length b)" .
  then show "slide a b k x \<le> int (length a)" "slide a b k x - k \<le> int (length b)" using s(1) \<open>0 < s\<close> by auto
qed

section \<open>Growth of the farthest points\<close>

lemma step_start_ge:
  assumes "on_step (Suc d) k"
  shows "k \<noteq> int (Suc d) \<Longrightarrow> at (k + 1) \<le> step_start at (int (Suc d)) k"
    "k \<noteq> - int (Suc d) \<Longrightarrow> at (k - 1) + 1 \<le> step_start at (int (Suc d)) k"
  using assms by (auto simp: step_start_def goes_down_def)

lemma farthest_down: "on_step d k \<Longrightarrow> farthest a b d k \<le> farthest a b (Suc d) (k - 1)"
proof -
  assume k: "on_step d k"
  then have "k - 1 \<noteq> int (Suc d)" by (auto simp: on_step_def)
  from step_start_ge(1) [OF conjunct2 [OF on_step_next [OF k]] this, of "farthest a b d"] slide_ge [of _ a b "k - 1"]
  show ?thesis by (auto intro: order_trans)
qed

lemma farthest_right: "on_step d k \<Longrightarrow> farthest a b d k + 1 \<le> farthest a b (Suc d) (k + 1)"
proof -
  assume k: "on_step d k"
  then have "k + 1 \<noteq> - int (Suc d)" by (auto simp: on_step_def)
  from step_start_ge(2) [OF conjunct1 [OF on_step_next [OF k]] this, of "farthest a b d"] slide_ge [of _ a b "k + 1"]
  show ?thesis by (auto intro: order_trans)
qed

text \<open>The point before a step, and the two ways to leave it.\<close>

lemma farthest_from:
  assumes "on_step (Suc d) k"
  obtains (down) "goes_down (farthest a b d) (int (Suc d)) k" "on_step d (k + 1)" "farthest a b (Suc d) k = slide a b k (farthest a b d (k + 1))"
  | (right) "\<not> goes_down (farthest a b d) (int (Suc d)) k" "on_step d (k - 1)" "farthest a b (Suc d) k = slide a b k (farthest a b d (k - 1) + 1)"
proof (cases "goes_down (farthest a b d) (int (Suc d)) k")
  case True
  then have "k \<noteq> int (Suc d)" by (auto simp: goes_down_def)
  then show ?thesis using down True on_step_down [OF assms] by (simp add: step_start_def)
next
  case False
  then have "k \<noteq> - int (Suc d)" by (auto simp: goes_down_def)
  then show ?thesis using right False on_step_right [OF assms] by (simp add: step_start_def)
qed

lemma farthest_nonneg: "on_step d k \<Longrightarrow> 0 \<le> farthest a b d k \<and> k \<le> farthest a b d k"
proof (induction d arbitrary: k)
  case 0
  then show ?case using slide_ge [of 0 a b 0] by (simp add: step_start_def goes_down_def)
next
  case (Suc d)
  from Suc.prems show ?case
  proof (cases rule: farthest_from [of d k a b])
    case down
    then show ?thesis using Suc.IH [OF down(2)] slide_ge [of "farthest a b d (k + 1)" a b k] by linarith
  next
    case right
    then show ?thesis using Suc.IH [OF right(2)] slide_ge [of "farthest a b d (k - 1) + 1" a b k] by linarith
  qed
qed

text \<open>A point beyond an end has a neighbour that is one step nearer to it.\<close>

lemma beyond_old:
  "on_step d k \<Longrightarrow> int (length a) < farthest a b d k \<Longrightarrow> on_step d (k - 2) \<and> farthest a b d k - 1 \<le> farthest a b d (k - 2)"
proof (induction d arbitrary: k)
  case 0
  then show ?case using slide_moved(1) [of a b 0 0] by (cases "slide a b 0 0 = 0") (auto simp: step_start_def goes_down_def)
next
  case (Suc d)
  have p: "k - 2 = (k - 1) - 1" by simp
  from Suc.prems(1) show ?case
  proof (cases rule: farthest_from [of d k a b])
    case down
    have x: "farthest a b (Suc d) k = farthest a b d (k + 1)" using slide_moved(1) [of a b k "farthest a b d (k + 1)"] down(3) Suc.prems(2) by linarith
    then have "on_step d (k - 1)" "farthest a b d (k + 1) - 1 \<le> farthest a b d (k - 1)" using Suc.IH [OF down(2)] Suc.prems(2) by simp_all
    then show ?thesis using on_step_next farthest_down [of d "k - 1" a b] x unfolding p by fastforce
  next
    case right
    have "farthest a b (Suc d) k = farthest a b d (k - 1) + 1" using slide_moved(1) [of a b k "farthest a b d (k - 1) + 1"] right(3) Suc.prems(2) by linarith
    then show ?thesis using on_step_next [OF right(2)] farthest_down [OF right(2), of a b] unfolding p by simp
  qed
qed

lemma beyond_new:
  "on_step d k \<Longrightarrow> int (length b) < farthest a b d k - k \<Longrightarrow> on_step d (k + 2) \<and> farthest a b d k + 1 \<le> farthest a b d (k + 2)"
proof (induction d arbitrary: k)
  case 0
  then show ?case using slide_moved(2) [of a b 0 0] by (cases "slide a b 0 0 = 0") (auto simp: step_start_def goes_down_def)
next
  case (Suc d)
  have p: "k + 2 = (k + 1) + 1" by simp
  from Suc.prems(1) show ?case
  proof (cases rule: farthest_from [of d k a b])
    case down
    have "farthest a b (Suc d) k = farthest a b d (k + 1)" using slide_moved(2) [of a b k "farthest a b d (k + 1)"] down(3) Suc.prems(2) by linarith
    then show ?thesis using on_step_next [OF down(2)] farthest_right [OF down(2), of a b] unfolding p by simp
  next
    case right
    have x: "farthest a b (Suc d) k = farthest a b d (k - 1) + 1" using slide_moved(2) [of a b k "farthest a b d (k - 1) + 1"] right(3) Suc.prems(2) by linarith
    then have "on_step d (k + 1)" "farthest a b d (k - 1) + 1 \<le> farthest a b d (k + 1)" using Suc.IH [OF right(2)] Suc.prems(2) by (simp_all add: add.commute)
    then show ?thesis using on_step_next farthest_right [of d "k + 1" a b] x unfolding p by fastforce
  qed
qed

text \<open>The first step that reaches both ends does so exactly.\<close>

lemma ends_exact:
  assumes "on_step d k" "at_ends a b d k" "\<forall>e < d. \<forall>k. on_step e k \<longrightarrow> \<not> at_ends a b e k"
  shows "k = int (length a) - int (length b) \<and> farthest a b d k = int (length a)"
proof -
  let ?n = "int (length a)" let ?m = "int (length b)" let ?x = "farthest a b d k"
  have r: "?n \<le> ?x" "?m \<le> ?x - k" using assms(2) by (simp_all add: at_ends_def)
  have "?x \<le> ?n \<and> ?x - k \<le> ?m"
  proof (cases d)
    case 0
    then show ?thesis using assms(1) slide_moved [of a b 0 0] by (cases "slide a b 0 0 = 0") (auto simp: step_start_def goes_down_def)
  next
    case (Suc e)
    have open_: "\<not> (?n \<le> farthest a b e q \<and> ?m \<le> farthest a b e q - q)" if "on_step e q" for q
      using assms(3) Suc that by (auto simp: at_ends_def)
    have k: "on_step (Suc e) k" using assms(1) Suc by simp
    from k show ?thesis
    proof (cases rule: farthest_from [of e k a b])
      case down
      let ?y = "farthest a b e (k + 1)"
      show ?thesis
      proof (cases "?x = ?y")
        case True
        have "?x - (k + 1) < ?m" using open_ [OF down(2)] True r by linarith
        moreover have "\<not> ?n < ?x"
        proof
          assume "?n < ?x"
          then have "on_step e (k - 1)" "?x - 1 \<le> farthest a b e (k - 1)" using beyond_old [OF down(2)] True by simp_all
          then show False using open_ [of "k - 1"] r \<open>?n < ?x\<close> by simp
        qed
        ultimately show ?thesis by simp
      next
        case False
        then show ?thesis using down(3) slide_moved [of a b k ?y] Suc by simp
      qed
    next
      case right
      let ?y = "farthest a b e (k - 1)"
      show ?thesis
      proof (cases "?x = ?y + 1")
        case True
        have "?y < ?n" using open_ [OF right(2)] True r by linarith
        moreover have "\<not> ?m < ?x - k"
        proof
          assume "?m < ?x - k"
          then have "on_step e (k + 1)" "?y + 1 \<le> farthest a b e (k + 1)" using beyond_new [OF right(2), of b a] True Suc by (simp_all add: add.commute)
          then show False using open_ [of "k + 1"] r True \<open>?m < ?x - k\<close> by simp
        qed
        ultimately show ?thesis using True by simp
      next
        case False
        then show ?thesis using right(3) slide_moved [of a b k "?y + 1"] Suc by simp
      qed
    qed
  qed
  then show ?thesis using r by simp
qed

section \<open>The walk back\<close>

text \<open>Pairs of equal lines before \<open>(x, y)\<close>, from the last to the first.\<close>

definition paired :: "nat list \<Rightarrow> nat list \<Rightarrow> int \<Rightarrow> int \<Rightarrow> (nat \<times> nat) list \<Rightarrow> bool" where
  "paired a b x y ps \<longleftrightarrow> sorted_wrt (\<lambda>(i, j) (i', j'). i' < i \<and> j' < j) ps
     \<and> (\<forall>(i, j) \<in> set ps. int i < x \<and> int j < y \<and> i < length a \<and> j < length b \<and> a ! i = b ! j)"

lemma paired_Nil [simp]: "paired a b x y []"
  by (simp add: paired_def)

lemma paired_weaken: "paired a b x y ps \<Longrightarrow> x \<le> x' \<Longrightarrow> y \<le> y' \<Longrightarrow> paired a b x' y' ps"
  by (fastforce simp: paired_def)

lemma paired_append:
  "paired a b x y ps \<Longrightarrow> (\<forall>(i, j) \<in> set ps. px \<le> int i \<and> py \<le> int j) \<Longrightarrow> paired a b px py qs \<Longrightarrow> px \<le> x \<Longrightarrow> py \<le> y \<Longrightarrow> paired a b x y (ps @ qs)"
  by (fastforce simp: paired_def sorted_wrt_append)

text \<open>Back along a slide of \<open>s\<close> lines that ended in \<open>(x, y)\<close>.\<close>

lemma slide_back_run:
  assumes "min (x - px) (y - py) = int s" "0 \<le> px" "0 \<le> py"
    "\<forall>i < s. x - 1 - int i < int (length a) \<and> y - 1 - int i < int (length b) \<and> a ! nat (x - 1 - int i) = b ! nat (y - 1 - int i)"
  shows "paired a b x y (slide_back px py x y) \<and> (\<forall>(i, j) \<in> set (slide_back px py x y). px \<le> int i \<and> py \<le> int j)"
  using assms(1,4)
proof (induction s arbitrary: x y)
  case 0
  then have "\<not> (x > px \<and> y > py)" by auto
  then have "slide_back px py x y = []" by (simp add: slide_back.simps)
  then show ?case by simp
next
  case (Suc s)
  then have more: "x > px" "y > py" by auto
  then have b: "slide_back px py x y = (nat (x - 1), nat (y - 1)) # slide_back px py (x - 1) (y - 1)" by (simp add: slide_back.simps)
  have "min (x - 1 - px) (y - 1 - py) = int s" using Suc.prems(1) by auto
  moreover have "\<forall>i < s. x - 1 - 1 - int i < int (length a) \<and> y - 1 - 1 - int i < int (length b)
      \<and> a ! nat (x - 1 - 1 - int i) = b ! nat (y - 1 - 1 - int i)"
  proof (intro allI impI)
    fix i assume "i < s"
    then have "Suc i < Suc s" by simp
    from Suc.prems(2) [rule_format, OF this] show "x - 1 - 1 - int i < int (length a) \<and> y - 1 - 1 - int i < int (length b)
      \<and> a ! nat (x - 1 - 1 - int i) = b ! nat (y - 1 - 1 - int i)" by (simp add: algebra_simps)
  qed
  ultimately have ih: "paired a b (x - 1) (y - 1) (slide_back px py (x - 1) (y - 1))"
      "\<forall>(i, j) \<in> set (slide_back px py (x - 1) (y - 1)). px \<le> int i \<and> py \<le> int j" using Suc.IH [of "x - 1" "y - 1"] by blast+
  have first: "x - 1 < int (length a)" "y - 1 < int (length b)" "a ! nat (x - 1) = b ! nat (y - 1)"
    using Suc.prems(2) [rule_format, of 0] by simp_all
  show ?case unfolding b using ih first more assms(2,3) by (fastforce simp: paired_def)
qed

definition recorded :: "nat list \<Rightarrow> nat list \<Rightarrow> int list list \<Rightarrow> nat \<Rightarrow> bool" where
  "recorded a b trace d \<longleftrightarrow> d \<le> length trace \<and> (\<forall>e < d. \<forall>k. on_step e k \<longrightarrow> trace ! e ! nat (k + int e) = farthest a b e k)"

lemma slid_back:
  assumes "x = slide a b k x0" "x0 - k = y0" "0 \<le> px" "0 \<le> py" "x0 = px \<and> y0 = py + 1 \<or> x0 = px + 1 \<and> y0 = py \<or> x0 = px \<and> y0 = py"
  shows "paired a b x (x - k) (slide_back px py x (x - k)) \<and> (\<forall>(i, j) \<in> set (slide_back px py x (x - k)). px \<le> int i \<and> py \<le> int j)"
proof -
  obtain s :: nat where s: "x = x0 + int s"
    "\<forall>i < s. x0 + int i < int (length a) \<and> x0 + int i - k < int (length b) \<and> a ! nat (x0 + int i) = b ! nat (x0 + int i - k)"
    using slide_run [of a b k x0] assms(1) by blast
  show ?thesis
  proof (rule slide_back_run [of x px "x - k" py s, OF _ assms(3,4)])
    show "min (x - px) (x - k - py) = int s" using assms(2,5) s(1) by auto
    show "\<forall>i < s. x - 1 - int i < int (length a) \<and> x - k - 1 - int i < int (length b) \<and> a ! nat (x - 1 - int i) = b ! nat (x - k - 1 - int i)"
    proof (intro allI impI)
      fix i assume i: "i < s"
      then have "s - 1 - i < s" "x0 + int (s - 1 - i) = x - 1 - int i" "x0 + int (s - 1 - i) - k = x - k - 1 - int i" using s(1) by auto
      then show "x - 1 - int i < int (length a) \<and> x - k - 1 - int i < int (length b) \<and> a ! nat (x - 1 - int i) = b ! nat (x - k - 1 - int i)"
        using s(2) by metis
    qed
  qed
qed

lemma goes_down_cong:
  "(k \<noteq> - d \<Longrightarrow> k \<noteq> d \<Longrightarrow> f (k - 1) = g (k - 1) \<and> f (k + 1) = g (k + 1)) \<Longrightarrow> goes_down f d k = goes_down g d k"
  by (auto simp: goes_down_def)

lemma backtrack_paired:
  "on_step d k \<Longrightarrow> recorded a b trace d \<Longrightarrow> paired a b (farthest a b d k) (farthest a b d k - k)
     (backtrack_loop trace (Suc d) (farthest a b d k) (farthest a b d k - k))"
proof (induction d arbitrary: k)
  case 0
  then have k: "k = 0" by simp
  have x: "farthest a b 0 0 = slide a b 0 0" by (simp add: step_start_def goes_down_def)
  from slid_back [of "farthest a b 0 0" a b 0 0 0 0 0] x show ?case by (simp add: k previous_at_def)
next
  case (Suc d)
  let ?x = "farthest a b (Suc d) k" let ?at = "\<lambda>k. trace ! d ! nat (k + int d)"
  have at: "?at q = farthest a b d q" if "on_step d q" for q using Suc.prems(2) that by (simp add: recorded_def)
  have same: "goes_down ?at (int (Suc d)) k = goes_down (farthest a b d) (int (Suc d)) k"
    using at on_step_down [OF Suc.prems(1)] on_step_right [OF Suc.prems(1)] by (intro goes_down_cong) simp
  have rec: "recorded a b trace d" using Suc.prems(2) by (simp add: recorded_def)
  have diag: "?x - (?x - k) = k" by simp
  have prev: "previous_at trace (Suc d) k = (let q = (if goes_down ?at (int (Suc d)) k then k + 1 else k - 1) in (?at q, ?at q - q))"
    by (simp add: previous_at_def Let_def algebra_simps)
  have step: ?case if q: "on_step d q" "previous_at trace (Suc d) k = (farthest a b d q, farthest a b d q - q)"
      and x: "?x = slide a b k x0" "x0 = farthest a b d q \<and> k = q - 1 \<or> x0 = farthest a b d q + 1 \<and> k = q + 1" for q x0
  proof -
    let ?px = "farthest a b d q" let ?ps = "slide_back ?px (?px - q) ?x (?x - k)"
    have nn: "0 \<le> ?px" "0 \<le> ?px - q" using farthest_nonneg [OF q(1), of a b] by simp_all
    have ps: "paired a b ?x (?x - k) ?ps \<and> (\<forall>(i, j) \<in> set ?ps. ?px \<le> int i \<and> ?px - q \<le> int j)"
      by (rule slid_back [OF x(1) refl nn]) (use x(2) in auto)
    have le: "?px \<le> ?x" "?px - q \<le> ?x - k" using slide_ge [of x0 a b k] x by auto
    have "backtrack_loop trace (Suc (Suc d)) ?x (?x - k) = ?ps @ backtrack_loop trace (Suc d) ?px (?px - q)"
      by (simp only: backtrack_loop.simps(2) [of trace "Suc d"] diag q(2) prod.case)
    then show ?case using paired_append [OF _ _ Suc.IH [OF q(1) rec] le] ps by metis
  qed
  from Suc.prems(1) show ?case
  proof (cases rule: farthest_from [of d k a b])
    case down
    then show ?thesis by (intro step [of "k + 1" "farthest a b d (k + 1)"]) (simp_all add: prev same at Let_def del: of_nat_Suc farthest.simps)
  next
    case right
    then show ?thesis by (intro step [of "k - 1" "farthest a b d (k - 1) + 1"]) (simp_all add: prev same at Let_def del: of_nat_Suc farthest.simps)
  qed
qed

section \<open>The vector\<close>

lemma vec_at_update:
  "0 \<le> offset + k \<Longrightarrow> 0 \<le> offset + q \<Longrightarrow> offset + k < int (length v) \<Longrightarrow>
   vec_at offset (v[nat (offset + k) := x]) q = (if q = k then x else vec_at offset v q)"
  by (auto simp: vec_at_def nth_list_update nat_eq_iff)

lemma step_start_cong:
  assumes "at (k + 1) = at' (k + 1)" "at (k - 1) = at' (k - 1)"
  shows "step_start at d k = step_start at' d k"
  using assms by (simp add: step_start_def goes_down_def)

text \<open>One step writes the diagonals of its parity and reads the others.\<close>

lemma step_diagonals_spec:
  assumes "step_diagonals a b offset (int d) ks v = (v', reached)" "\<forall>k \<in> set ks. on_step d k" "distinct ks"
    "int (length v) = 2 * offset + 1" "int d < offset"
  shows "if reached then \<exists>k \<in> set ks. let x = slide a b k (step_start (vec_at offset v) (int d) k) in int (length a) \<le> x \<and> int (length b) \<le> x - k
    else length v' = length v \<and> (\<forall>k \<in> set ks. vec_at offset v' k = slide a b k (step_start (vec_at offset v) (int d) k)
           \<and> \<not> (int (length a) \<le> vec_at offset v' k \<and> int (length b) \<le> vec_at offset v' k - k))
         \<and> (\<forall>q. - offset \<le> q \<longrightarrow> q \<notin> set ks \<longrightarrow> vec_at offset v' q = vec_at offset v q)"
  using assms(1-4)
proof (induction ks arbitrary: v)
  case (Cons k ks)
  define x where "x = slide a b k (step_start (vec_at offset v) (int d) k)"
  let ?v = "v[nat (offset + k) := x]"
  have "\<bar>k\<bar> \<le> int d" using Cons.prems(2) by (simp add: on_step_def)
  then have k: "- offset \<le> k" "offset + k < int (length v)" using Cons.prems(4) assms(5) by linarith+
  have at: "vec_at offset ?v q = (if q = k then x else vec_at offset v q)" if "- offset \<le> q" for q
    using vec_at_update [of offset k q v x] k that by simp
  have start: "step_start (vec_at offset ?v) (int d) q = step_start (vec_at offset v) (int d) q" if "q \<in> set ks" for q
  proof (rule step_start_cong)
    have "on_step d q" "on_step d k" using that Cons.prems(2) by simp_all
    then have p: "even (int d - q)" "even (int d - k)" "\<bar>q\<bar> \<le> int d" unfolding on_step_def by blast+
    have ne: "q + 1 \<noteq> k" "q - 1 \<noteq> k" using p(1,2) by auto
    have "- offset \<le> q + 1" "- offset \<le> q - 1" using p(3) assms(5) by linarith+
    note this ne
    then show "vec_at offset ?v (q + 1) = vec_at offset v (q + 1)" "vec_at offset ?v (q - 1) = vec_at offset v (q - 1)" by (simp_all only: at if_False)
  qed
  show ?case
  proof (cases "int (length a) \<le> x \<and> int (length b) \<le> x - k")
    case True
    then have "reached" using Cons.prems(1) by (simp add: x_def [symmetric] Let_def)
    then show ?thesis using True by (auto simp: x_def Let_def)
  next
    case False
    then have "step_diagonals a b offset (int d) ks ?v = (v', reached)" using Cons.prems(1) by (auto simp: x_def [symmetric] Let_def)
    note ih = Cons.IH [OF this]
    have p: "\<forall>k \<in> set ks. on_step d k" "distinct ks" "int (length ?v) = 2 * offset + 1" using Cons.prems(2-4) by simp_all
    have new: "k \<notin> set ks" using Cons.prems(3) by simp
    show ?thesis
    proof (cases reached)
      case True
      with ih [OF p] obtain q where "q \<in> set ks" "let x = slide a b q (step_start (vec_at offset ?v) (int d) q) in int (length a) \<le> x \<and> int (length b) \<le> x - q"
        by auto
      then show ?thesis using True start by auto
    next
      case r: False
      have i: "length v' = length v \<and>
          (\<forall>q \<in> set ks. vec_at offset v' q = slide a b q (step_start (vec_at offset ?v) (int d) q)
             \<and> \<not> (int (length a) \<le> vec_at offset v' q \<and> int (length b) \<le> vec_at offset v' q - q))
          \<and> (\<forall>q. - offset \<le> q \<longrightarrow> q \<notin> set ks \<longrightarrow> vec_at offset v' q = vec_at offset ?v q)"
        using ih [OF p] unfolding length_list_update if_not_P [OF r] .
      then have v': "vec_at offset v' q = (if q = k then x else vec_at offset v q)" if "- offset \<le> q" "q \<notin> set ks" for q using that at by simp
      show ?thesis unfolding if_not_P [OF r]
      proof (intro conjI ballI allI impI)
        show "length v' = length v" by (rule conjunct1 [OF i])
        fix q assume q: "q \<in> set (k # ks)"
        have "vec_at offset v' q = slide a b q (step_start (vec_at offset v) (int d) q)
            \<and> \<not> (int (length a) \<le> vec_at offset v' q \<and> int (length b) \<le> vec_at offset v' q - q)"
        proof (cases "q = k")
          case True
          then show ?thesis using v' [OF k(1) new] False unfolding x_def by simp
        next
          case other: False
          then show ?thesis using q i start [of q] by auto
        qed
        then show "vec_at offset v' q = slide a b q (step_start (vec_at offset v) (int d) q)"
          "\<not> (int (length a) \<le> vec_at offset v' q \<and> int (length b) \<le> vec_at offset v' q - q)" by blast+
      next
        fix q assume "- offset \<le> q" "q \<notin> set (k # ks)"
        then show "vec_at offset v' q = vec_at offset v q" using v' [of q] by simp
      qed
    qed
  qed
qed simp

lemma diagonals_on_step: "set (diagonals d) = {k. on_step d k}" "distinct (diagonals d)"
proof -
  show "set (diagonals d) = {k. on_step d k}"
  proof (intro set_eqI iffI)
    fix k assume "k \<in> {k. on_step d k}"
    then have k: "\<bar>k\<bar> \<le> int d" "even (k + int d)" by (auto simp: on_step_def)
    then obtain i where i: "k + int d = 2 * i" by blast
    then have "k = 2 * int (nat i) - int d" "nat i \<in> set [0 ..< Suc d]" using k(1) by auto
    then show "k \<in> set (diagonals d)" unfolding diagonals_def set_map by (rule image_eqI)
  qed (auto simp: diagonals_def on_step_def)
  show "distinct (diagonals d)" by (auto simp: diagonals_def distinct_map inj_on_def simp del: upt_Suc)
qed

text \<open>What the vector holds before step \<open>d\<close>.\<close>

definition vector_ok :: "nat list \<Rightarrow> nat list \<Rightarrow> int \<Rightarrow> nat \<Rightarrow> int list \<Rightarrow> bool" where
  "vector_ok a b offset d v \<longleftrightarrow> int (length v) = 2 * offset + 1
     \<and> (case d of 0 \<Rightarrow> \<forall>k. \<bar>k\<bar> \<le> offset \<longrightarrow> vec_at offset v k = 0 | Suc e \<Rightarrow> \<forall>k. on_step e k \<longrightarrow> vec_at offset v k = farthest a b e k)"

lemma vector_start:
  assumes "vector_ok a b offset d v" "on_step d k" "int d < offset"
  shows "slide a b k (step_start (vec_at offset v) (int d) k) = farthest a b d k"
proof (cases d)
  case 0
  then show ?thesis using assms by (simp add: vector_ok_def step_start_def goes_down_def)
next
  case (Suc e)
  have at: "vec_at offset v q = farthest a b e q" if "on_step e q" for q using assms(1) Suc that by (simp add: vector_ok_def)
  have k: "on_step (Suc e) k" using assms(2) Suc by simp
  have "goes_down (vec_at offset v) (int (Suc e)) k = goes_down (farthest a b e) (int (Suc e)) k"
    using at on_step_down [OF k] on_step_right [OF k] by (intro goes_down_cong) simp
  moreover have "goes_down (farthest a b e) (int (Suc e)) k \<Longrightarrow> vec_at offset v (k + 1) = farthest a b e (k + 1)"
    using at on_step_down [OF k] by (auto simp: goes_down_def)
  moreover have "\<not> goes_down (farthest a b e) (int (Suc e)) k \<Longrightarrow> vec_at offset v (k - 1) = farthest a b e (k - 1)"
    using at on_step_right [OF k] by (auto simp: goes_down_def)
  ultimately show ?thesis by (auto simp: Suc step_start_def simp del: of_nat_Suc)
qed

lemma recorded_snoc:
  assumes "recorded a b trace d" "length trace = d" "int (length v) = 2 * offset + 1" "int d < offset"
    "\<forall>k. on_step d k \<longrightarrow> vec_at offset v k = farthest a b d k"
  shows "recorded a b (trace @ [recorded_vec offset (int d) v]) (Suc d)"
proof -
  have "recorded_vec offset (int d) v ! nat (k + int d) = farthest a b d k" if k: "on_step d k" for k
  proof -
    have b: "\<bar>k\<bar> \<le> int d" using k by (simp add: on_step_def)
    then have "nat (offset - int d) + nat (k + int d) = nat (offset + k)" "nat (k + int d) < nat (2 * int d + 1)" using assms(4) by auto
    then have "recorded_vec offset (int d) v ! nat (k + int d) = vec_at offset v k"
      using assms(3,4) by (simp add: recorded_vec_def vec_at_def)
    then show ?thesis using assms(5) k by simp
  qed
  then show ?thesis using assms(1,2) by (auto simp: recorded_def nth_append less_Suc_eq)
qed

lemma recorded_more: "recorded a b trace d \<Longrightarrow> recorded a b (trace @ more') d"
  by (auto simp: recorded_def nth_append)

lemma myers_loop_paired:
  assumes "int d + int steps \<le> offset" "vector_ok a b offset d v" "recorded a b trace d" "length trace = d"
    "\<forall>e < d. \<forall>k. on_step e k \<longrightarrow> \<not> at_ends a b e k"
  shows "\<exists>ps. myers_loop a b offset d steps v trace = rev ps \<and> paired a b (int (length a)) (int (length b)) ps"
  using assms
proof (induction steps arbitrary: d v trace)
  case 0
  then show ?case by (intro exI [of _ "[]"]) simp
next
  case (Suc steps)
  obtain v' reached where run: "step_diagonals a b offset (int d) (diagonals d) v = (v', reached)" by (cases "step_diagonals a b offset (int d) (diagonals d) v")
  have small: "int d < offset" and len: "int (length v) = 2 * offset + 1" using Suc.prems(1,2) by (simp_all add: vector_ok_def)
  note start = vector_start [OF Suc.prems(2) _ small]
  have spec: "if reached then \<exists>k \<in> {k. on_step d k}. at_ends a b d k
    else length v' = length v \<and> (\<forall>k \<in> {k. on_step d k}. vec_at offset v' k = farthest a b d k \<and> \<not> at_ends a b d k)"
    using step_diagonals_spec [OF run _ diagonals_on_step(2) len small, unfolded diagonals_on_step(1)] start
    by (auto simp: at_ends_def Let_def split: if_splits)
  let ?trace = "trace @ [recorded_vec offset (int d) v']"
  show ?case
  proof (cases reached)
    case True
    then obtain k where k: "on_step d k" "at_ends a b d k" using spec by auto
    have e: "k = int (length a) - int (length b)" "farthest a b d k = int (length a)" using ends_exact [OF k Suc.prems(5)] by blast+
    have "paired a b (int (length a)) (int (length b)) (backtrack_loop ?trace (Suc d) (int (length a)) (int (length b)))"
      using backtrack_paired [OF k(1) recorded_more [OF Suc.prems(3)]] e by fastforce
    then show ?thesis using run True Suc.prems(4)
      by (intro exI [of _ "backtrack_loop ?trace (Suc d) (int (length a)) (int (length b))"]) (simp add: backtrack_def Let_def del: backtrack_loop.simps)
  next
    case False
    then have s: "int (length v') = 2 * offset + 1" "\<forall>k. on_step d k \<longrightarrow> vec_at offset v' k = farthest a b d k"
        "\<forall>k. on_step d k \<longrightarrow> \<not> at_ends a b d k" using spec len by auto
    have "vector_ok a b offset (Suc d) v'" using s(1,2) by (simp add: vector_ok_def)
    moreover have "\<forall>e < Suc d. \<forall>k. on_step e k \<longrightarrow> \<not> at_ends a b e k" using Suc.prems(5) s(3) by (auto simp: less_Suc_eq)
    ultimately show ?thesis
      using Suc.IH [of "Suc d" v' ?trace] recorded_snoc [OF Suc.prems(3,4) s(1) small s(2)] Suc.prems(1,4) run False by (simp add: Let_def)
  qed
qed

lemma myers_paired: "\<exists>ps. myers a b limit = rev ps \<and> paired a b (int (length a)) (int (length b)) ps"
  unfolding myers_def Let_def
  by (rule myers_loop_paired) (auto simp: vector_ok_def vec_at_def recorded_def nth_replicate)

section \<open>Matching\<close>

lemma common_prefix_le: "common_prefix xs ys \<le> length xs" "common_prefix xs ys \<le> length ys"
  by (induction xs ys rule: common_prefix.induct) auto

lemma common_prefix_nth: "i < common_prefix xs ys \<Longrightarrow> xs ! i = ys ! i"
proof (induction xs ys arbitrary: i rule: common_prefix.induct)
  case (1 x xs y ys)
  then show ?case by (cases i) (auto split: if_splits)
qed simp_all

lemma intern_line_nth: "line \<in> set ids \<Longrightarrow> intern_line line ids < length ids \<and> ids ! intern_line line ids = line"
  by (induction ids) auto

lemma intern_line_append: "line \<in> set ids \<Longrightarrow> intern_line line (ids @ rest) = intern_line line ids"
  by (induction ids) auto

lemma intern_spec:
  "intern xs ids = (ns, ids') \<Longrightarrow> (\<exists>rest. ids' = ids @ rest) \<and> length ns = length xs \<and> (\<forall>i < length xs. ns ! i < length ids' \<and> ids' ! (ns ! i) = xs ! i)"
proof (induction xs ids arbitrary: ns ids' rule: intern.induct)
  case (2 line rest ids)
  let ?ids = "if line \<in> set ids then ids else ids @ [line]"
  obtain ms where ms: "intern rest ?ids = (ms, ids')" "ns = intern_line line ?ids # ms" using 2(2) by (auto split: prod.splits)
  obtain more' where more': "ids' = ?ids @ more'" and ih: "length ms = length rest" "\<forall>i < length rest. ms ! i < length ids' \<and> ids' ! (ms ! i) = rest ! i"
    using 2(1) [OF ms(1)] by blast
  have "intern_line line ?ids < length ?ids \<and> ?ids ! intern_line line ?ids = line" by (rule intern_line_nth) simp
  then have "intern_line line ?ids < length ids' \<and> ids' ! intern_line line ?ids = line" unfolding more' by (simp add: nth_append)
  moreover have "\<exists>r. ids' = ids @ r" unfolding more' by (cases "line \<in> set ids") auto
  ultimately show ?case using ih by (auto simp: ms(2) nth_Cons split: nat.split)
qed simp

lemma fold_slots:
  "length (fold (\<lambda>e r. r[g e := Some (f e)]) es r) = length r"
  "x < length r \<Longrightarrow> fold (\<lambda>e r. r[g e := Some (f e)]) es r ! x = Some i \<Longrightarrow> (\<exists>e \<in> set es. x = g e \<and> i = f e) \<or> r ! x = Some i"
proof (induction es arbitrary: r)
  case (Cons e es)
  { case 1
    then show ?case using Cons.IH(1) by simp
  next
    case 2
    then have "(\<exists>e \<in> set es. x = g e \<and> i = f e) \<or> r[g e := Some (f e)] ! x = Some i" using Cons.IH(2) [of "r[g e := Some (f e)]"] by simp
    then show ?case using 2(1) by (cases "g e = x") auto }
qed simp_all

text \<open>Every slot that is set comes from the common prefix, the common suffix or the diff of the middle.\<close>

definition slots_from :: "'a list \<Rightarrow> 'a list \<Rightarrow> nat \<Rightarrow> nat \<Rightarrow> (nat \<times> nat) list \<Rightarrow> bool" where
  "slots_from old new p s ps \<longleftrightarrow> sorted_wrt (\<lambda>(i, j) (i', j'). i' < i \<and> j' < j) ps
     \<and> (\<forall>(i, j) \<in> set ps. p + i + s < length old \<and> p + j + s < length new \<and> old ! (p + i) = new ! (p + j))
     \<and> (\<forall>x < length new. \<forall>i. matching old new ! x = Some i \<longrightarrow> x = i \<and> i < p
          \<or> (\<exists>k < s. x = length new - 1 - k \<and> i = length old - 1 - k) \<or> (\<exists>(a, b) \<in> set ps. x = p + b \<and> i = p + a))"

lemma matching_slots:
  fixes old new :: "'a list"
  assumes p_def: "p = common_prefix old new" and s_def: "s = common_prefix (rev (drop p old)) (rev (drop p new))"
  shows "length (matching old new) = length new \<and> (\<exists>ps. slots_from old new p s ps)"
proof -
  obtain a ids where a: "intern (middle p s old) [] = (a, ids)" by (cases "intern (middle p s old) []")
  obtain b ids' where b: "intern (middle p s new) ids = (b, ids')" by (cases "intern (middle p s new) ids")
  obtain ps where ps: "myers a b MAX_EDITS = rev ps" "paired a b (int (length a)) (int (length b)) ps" using myers_paired by blast
  define r1 where "r1 = fold (\<lambda>i r. r[i := Some i]) [0 ..< p] (replicate (length new) None)"
  define r2 where "r2 = fold (\<lambda>k r. r[length new - 1 - k := Some (length old - 1 - k)]) [0 ..< s] r1"
  have m: "matching old new = fold (\<lambda>e r. r[p + snd e := Some (p + fst e)]) (rev ps) r2"
    using a b ps(1) by (simp add: matching_def Let_def p_def s_def r1_def r2_def case_prod_beta')
  have len: "length r1 = length new" "length r2 = length new" by (simp_all add: r1_def r2_def fold_slots(1))
  have slot: "x = i \<and> i < p \<or> (\<exists>k < s. x = length new - 1 - k \<and> i = length old - 1 - k) \<or> (\<exists>(a, b) \<in> set ps. x = p + b \<and> i = p + a)"
    if "x < length new" "matching old new ! x = Some i" for x i
  proof -
    have "(\<exists>e \<in> set (rev ps). x = p + snd e \<and> i = p + fst e) \<or> r2 ! x = Some i" 
      using that fold_slots(2) [where r = r2 and g = "\<lambda>e. p + snd e" and f = "\<lambda>e. p + fst e" and es = "rev ps"] by (simp add: m len)
    moreover have "r2 ! x = Some i \<Longrightarrow> (\<exists>k \<in> set [0 ..< s]. x = length new - 1 - k \<and> i = length old - 1 - k) \<or> r1 ! x = Some i"
      unfolding r2_def by (rule fold_slots(2)) (simp_all add: that(1) len)
    moreover have "r1 ! x = Some i \<Longrightarrow> (\<exists>k \<in> set [0 ..< p]. x = k \<and> i = k) \<or> replicate (length new) None ! x = Some i"
      unfolding r1_def by (rule fold_slots(2)) (simp_all add: that(1))
    ultimately show ?thesis using that(1) by fastforce
  qed
  have la: "length a = length old - s - p" "length b = length new - s - p" using intern_spec [OF a] intern_spec [OF b] by (simp_all add: middle_def)
  have lines: "old ! (p + i) = new ! (p + j)" if "i < length a" "j < length b" "a ! i = b ! j" for i j
  proof -
    obtain rest where rest: "ids' = ids @ rest" using intern_spec [OF b] by blast
    have "ids ! (a ! i) = middle p s old ! i" "a ! i < length ids" using intern_spec [OF a] that(1) by simp_all
    moreover have "ids' ! (b ! j) = middle p s new ! j" using intern_spec [OF b] that(2) by simp
    ultimately have "middle p s old ! i = middle p s new ! j" using that(3) rest by (simp add: nth_append)
    then show ?thesis using that la by (simp add: middle_def)
  qed
  have "\<forall>(i, j) \<in> set ps. p + i + s < length old \<and> p + j + s < length new \<and> old ! (p + i) = new ! (p + j)"
    using ps(2) la lines unfolding paired_def by fastforce
  moreover have "length (matching old new) = length new" by (simp add: m fold_slots(1) len)
  ultimately show ?thesis using slot ps(2) unfolding paired_def slots_from_def by blast
qed

text \<open>C10: The correspondence of two texts pairs equal lines only, each line at most once, and in order: a blamed line never takes
  the origin of a different line, whatever the limit on edits cuts off.\<close>

theorem matching_sound:
  "length (matching old new) = length new
    \<and> (\<forall>j < length new. \<forall>i. matching old new ! j = Some i \<longrightarrow> i < length old \<and> old ! i = new ! j)
    \<and> (\<forall>j' < length new. \<forall>j < j'. \<forall>i i'. matching old new ! j = Some i \<longrightarrow> matching old new ! j' = Some i' \<longrightarrow> i < i')"
proof -
  define p s where "p = common_prefix old new" "s = common_prefix (rev (drop p old)) (rev (drop p new))"
  note fit = common_prefix_le [of old new, folded p_s_def(1)] common_prefix_le [of "rev (drop p old)" "rev (drop p new)", folded p_s_def(2)]
  have prefix: "old ! i = new ! i" if "i < p" for i using common_prefix_nth that by (simp add: p_s_def(1))
  have suffix: "old ! (length old - 1 - k) = new ! (length new - 1 - k)" if "k < s" for k
    using common_prefix_nth [of k "rev (drop p old)" "rev (drop p new)"] that fit by (simp add: p_s_def(2) [symmetric] rev_nth)
  note slots = matching_slots [OF p_s_def]
  then obtain ps where fr: "slots_from old new p s ps" by blast
  have ps12: "length (matching old new) = length new" "sorted_wrt (\<lambda>(i, j) (i', j'). i' < i \<and> j' < j) ps"
    and ps34: "\<forall>(i, j) \<in> set ps. p + i + s < length old \<and> p + j + s < length new \<and> old ! (p + i) = new ! (p + j)"
    "\<forall>x < length new. \<forall>i. matching old new ! x = Some i \<longrightarrow> x = i \<and> i < p
         \<or> (\<exists>k < s. x = length new - 1 - k \<and> i = length old - 1 - k) \<or> (\<exists>(a, b) \<in> set ps. x = p + b \<and> i = p + a)"
    using slots fr unfolding slots_from_def by blast+
  have ps3: "p + i + s < length old \<and> p + j + s < length new \<and> old ! (p + i) = new ! (p + j)" if "(i, j) \<in> set ps" for i j
    using ps34(1) that by blast
  note ps4 = ps34(2) [rule_format]
  note ps = ps12 ps3 ps4
  have chain: "i < i'" if "(i, j) \<in> set ps" "(i', j') \<in> set ps" "j < j'" for i j i' j'
  proof -
    note t = that
    obtain u v where u: "u < length ps" "ps ! u = (i, j)" "v < length ps" "ps ! v = (i', j')" using t(1,2) by (metis in_set_conv_nth)
    then show ?thesis using ps(2) that(3) unfolding sorted_wrt_iff_nth_less by (cases u v rule: linorder_cases) fastforce+
  qed
  have sound: "i < length old \<and> old ! i = new ! j" if "j < length new" "matching old new ! j = Some i" for i j
    using ps(4) [OF that]
  proof (elim disjE)
    assume "j = i \<and> i < p"
    then show ?thesis using prefix fit(1) by simp
  next
    assume "\<exists>k < s. j = length new - 1 - k \<and> i = length old - 1 - k"
    then obtain k where k: "k < s" "j = length new - 1 - k" "i = length old - 1 - k" by blast
    moreover have "k < length old" using k(1) fit(3) by simp
    ultimately show ?thesis using suffix by simp
  next
    assume "\<exists>(a, b) \<in> set ps. j = p + b \<and> i = p + a"
    then show ?thesis using ps(3) by fastforce
  qed
  have mono: "i < i'" if "j < j'" "j' < length new" "matching old new ! j = Some i" "matching old new ! j' = Some i'" for i j i' j'
  proof -
    have "j < length new" using that(1,2) by simp
    have f: "p \<le> length old" "p \<le> length new" "s \<le> length old - p" "s \<le> length new - p" using fit by simp_all
    from ps(4) [OF \<open>j < length new\<close> that(3)] show ?thesis
    proof (elim disjE)
      assume a: "j = i \<and> i < p"
      from ps(4) [OF that(2,4)] show ?thesis
        using a that(1) f by (elim disjE) auto
    next
      assume a: "\<exists>k < s. j = length new - 1 - k \<and> i = length old - 1 - k"
      have "i' < p \<and> j' < p \<or> (\<exists>k < s. j' = length new - 1 - k \<and> i' = length old - 1 - k) \<or> j' + s < length new"
        using ps(4) [OF that(2,4)] ps(3) by fastforce
      moreover have "length old - 1 - k < length old - 1 - l" if "length new - 1 - k < length new - 1 - l" "k < s" "l < s" for k l
        using that f by linarith
      ultimately show ?thesis using a that(1) f by (elim disjE exE conjE) auto
    next
      assume "\<exists>(a, b) \<in> set ps. j = p + b \<and> i = p + a"
      then obtain a b where a: "(a, b) \<in> set ps" "j = p + b" "i = p + a" by blast
      from ps(4) [OF that(2,4)] show ?thesis
      proof (elim disjE)
        assume "j' = i' \<and> i' < p"
        then show ?thesis using a(2) that(1) by simp
      next
        assume "\<exists>k < s. j' = length new - 1 - k \<and> i' = length old - 1 - k"
        then show ?thesis using ps(3) [OF a(1)] a(3) by auto
      next
        assume "\<exists>(a, b) \<in> set ps. j' = p + b \<and> i' = p + a"
        then show ?thesis using chain [OF a(1)] a(2,3) that(1) by auto
      qed
    qed
  qed
  show ?thesis using ps(1) sound mono by blast
qed

lemma example_matching: "matching ''xabcey'' ''xbdefy'' = [Some 0, Some 2, None, Some 4, None, Some 5]"
  by code_simp

theorem matching_sound_witness:
  "matching ''xabcey'' ''xbdefy'' ! 1 = Some 2 \<and> ''xabcey'' ! 2 = ''xbdefy'' ! 1"
  using matching_sound [of "''xabcey''" "''xbdefy''"] unfolding example_matching by auto

end
