(* ===== verification/Spec2Isabelle.thy ===== *)
theory Spec2Isabelle
  imports Codec Merge Identity LayerProperties ProjectProperties Stacks Intersections Correspondence
begin

text \<open>
  \<^bold>\<open>Javelin: a verification development.\<close>

  Javelin is a version-control system in Rust: a local repository of content-addressed objects
  (\<open>src/src\<close>), a protocol between repositories (\<open>crates/javelin-protocol\<close>), merging
  (\<open>crates/javelin-merge\<close>), review of Publish Requests (\<open>crates/javelin-collaboration\<close>) and
  authorization of a node's requests (\<open>crates/javelin-identity\<close>). The theories below translate these
  parts function by function; paths are relative to the repository.

  \<^bold>\<open>Conventions.\<close> A byte is a \<open>char\<close>, so byte vectors and strings are character lists in byte order. A Rust
  \<open>Result\<close> is a sum with the error on the left, \<open>?\<close> is \<open>ebind\<close>; a \<open>BTreeMap\<close> is an association list with
  ascending keys, a \<open>BTreeSet\<close> an ascending list. Fixed-width integers of the wire, the versions, the
  epochs and the clocks are words; lengths and resource counters are \<open>nat\<close>, with the saturation of the
  source written out and bounds proved where the source multiplies without a check. SHA-256, JSON,
  base64, Ed25519, content loaders and the volume's alias probe are parameters of the definitions that
  use them, with the documented laws as hypotheses.

  \<^bold>\<open>Theories.\<close>
  \<^item> \<open>Prelude\<close>: results, ordered maps and sets, big-endian integers, UTF-8, splitting text.
  \<^item> \<open>Domain\<close> (\<open>src/src/domain.rs\<close>, errors of \<open>src/src/lib.rs\<close>): object, version, path and operation IDs,
    file entries, manifests, sparse changesets, renames, the version hash chain.
  \<^item> \<open>Resources\<close>, \<open>Matching\<close>, \<open>Diff3\<close>, \<open>Merge\<close> (\<open>crates/javelin-merge/src\<close>): admission limits, longest
    matching of lines, the three-way line merge, and the merge of manifests with renames, collisions,
    aliases and owner choices.
  \<^item> \<open>Chunk\<close>, \<open>Trees\<close> (\<open>src/src/tree.rs\<close>): the encoding of tree chunks, the content-defined cut of a level, and
    every operation of \<open>Trees\<close> over a store of chunks. \<open>Levels\<close>, \<open>Towers\<close>, \<open>Updates\<close>, \<open>Snapshots\<close>, \<open>Queries\<close>,
    \<open>Differences\<close> and \<open>Worlds\<close> show what they do to the map a root stands for; \<open>Replays\<close> that an operation run
    again on what it stored stores nothing new; \<open>Received\<close> what a tree from elsewhere can hold.
  \<^item> \<open>Normalize\<close> (\<open>normalize\<close> of \<open>src/src/domain.rs\<close>): a changeset against a World, over the trait \<open>WorldIndex\<close>.
  \<^item> \<open>Tables\<close>, \<open>Objects\<close>, \<open>History\<close> (\<open>src/src/repository.rs\<close>): the tables and transactions, the object store and
    trees over it, World versions, attempts and changesets, advancing the World and checking its history.
    \<open>Stored\<close>, \<open>Versions\<close>, \<open>Advancing\<close>, \<open>Repository\<close> and \<open>Checking\<close> hold the invariant of a repository, the outcome
    of every attempt, the runs of the writing operations, and the check of its history.
  \<^item> \<open>LayerValues\<close>, \<open>Tracking\<close>, \<open>Layers\<close>, \<open>LayerAttempts\<close>, \<open>LayerOps\<close> (\<open>src/src/layer.rs\<close>, \<open>stack.rs\<close>, the index of
    \<open>radar.rs\<close>): the values of Layers, Stacks and publications, immutable checkpoints, the events of a Layer's
    head, the compare-and-swap update with its recorded attempt, the methods that create, clone, capture, stack
    and discard, and the checks. \<open>Growth\<close>, \<open>Settled\<close>, \<open>LayerState\<close>, \<open>LayerUpdates\<close>, \<open>LayerSteps\<close>, \<open>LayerProgress\<close>,
    \<open>LayerIndex\<close> and \<open>LayerCalls\<close> show what a later state keeps, the invariant of the Layers and of the index, and
    that updates can be made; \<open>LayerExamples\<close> is a small repository with a Layer; \<open>LayerProperties\<close> states what
    Layers promise.
  \<^item> \<open>Publications\<close> (\<open>src/src/publish.rs\<close>): composition of a Layer with the World, preparation, the write transaction,
    the loop over snapshots, receipts and their check. \<open>Intersections\<close>, \<open>Composing\<close>, \<open>Publishing\<close>, \<open>PublishRounds\<close>,
    \<open>Issuing\<close>, \<open>Receipts\<close> and \<open>Receipting\<close> show what a round does and what a stored receipt says in every later
    state; \<open>PublishProgress\<close> and \<open>PublishCalls\<close> that an unmoved round ends and succeeds; \<open>PublishExample\<close> publishes a
    file in a new repository.
  \<^item> \<open>LineBlame\<close>, \<open>Radars\<close> (\<open>src/src/blame.rs\<close>, \<open>src/src/radar.rs\<close>, \<open>check\<close> of \<open>repository.rs\<close>): the matching of lines
    by Myers' diff, the radar, path and line blame, and the full check. \<open>Correspondence\<close> shows the matching sound,
    \<open>Blaming\<close> path blame exact.
  \<^item> \<open>Stacking\<close> (\<open>crates/javelin-stack/src/lib.rs\<close>): stacking one Layer on another, as a sequence of transactions: the
    owner's choices recorded, the outcome of an earlier call, the merge, the blobs of merged texts, the commit.
    \<open>StackProperties\<close> and \<open>Stacks\<close> show each outcome, what it leaves and that it is retried safely.
  \<^item> \<open>Projects\<close>, \<open>ProjectChecks\<close>, \<open>ProjectProperties\<close>: the whole repository, every run of its operations, and what it
    promises.
  \<^item> \<open>Wire\<close>, \<open>Messages\<close>, \<open>Codec\<close> (\<open>crates/javelin-protocol/src/codec.rs\<close> and \<open>codec/\<close>): the fields of the wire
    format, every message with its encoding, decoding and reserved length, and the frames of a stream.
  \<^item> \<open>Review\<close> (\<open>crates/javelin-collaboration/src/lib.rs\<close>): the commands and the state of one Publish Request.
  \<^item> \<open>Identity\<close> (\<open>crates/javelin-identity/src\<close>): tokens, and a node's decision for one request.

  \<^bold>\<open>Interfaces.\<close> Locales state the contracts the components rest on, each interpreted on the model:
  \<open>line_matching\<close> (what \<open>diff3\<close> needs of \<open>matches\<close>), \<open>field\<close> (a reader that inverts a writer, once per field of
  the wire format), \<open>world_reads\<close> (point reads of one World, kept by the derived trees in memory and in the table), \<open>event_sourced\<close> (a state rebuilt from its log), \<open>ratchet\<close> (a view no step takes back).

  \<^bold>\<open>What is shown.\<close> Encodings are canonical and round trips exact (IDs, changesets, chunks, messages,
  frames, tokens); merging is symmetric, loses no edit and yields paths that can live in one tree;
  resource accounting does not wrap; matchings are longest; a request's reachable states keep their
  invariant, publication needs the approvals it claims, retries are idempotent; a grant implies a
  trusted, current, unrevoked token and the newest permissions. A repository that only its operations touched
  passes its own full validation; updates of a Layer are compare-and-swap with one winner and safe retries; a
  publication puts exactly the Layer's changes on the head it was composed with, or says why not, and its
  receipt is replayed forever; a Stack commits exactly the clean merge of the source's changes, or reports its conflicts;
  every stored row reads back as a value of its type; a version ID pins its World; blame names the change, Layer and checkpoint a path comes from.

  \<^bold>\<open>Bounds and termination.\<close> Loops are structural or carry a measure (traceback by the sum of its indices,
  \<open>diff3_steps\<close> by the base left, \<open>resolve_loop\<close> by the paths not yet chosen, \<open>fill\<close> by the stream and the bytes
  missing); \<open>read_messages\<close> reads at most its fuel of frames, and any fuel above their number is enough. The loop of a
  publication runs over the snapshots and locked states that its rounds see, and ends with the first two that
  agree. The fuel of the tree operations is a field of the environment; any above the files of a World and of the change
  together is enough, and these must not exceed \<open>2 ^ MAX_LEVEL\<close>, so that no tree is too high (\<open>roomy\<close>, \<open>has_room\<close>,
  \<open>tree_fits\<close>). Versions and revisions stay below \<open>2 ^ 63\<close>.

  \<^bold>\<open>Not modelled.\<close> The SQLite file itself (opening, locking, migrations, \<open>PRAGMA integrity_check\<close>), file systems,
  sockets, the command line and the browser flows are I/O around these parts. The exchanges of the protocol
  (sender, receiver, fetch), the capture of a directory and its ignore rules, workspaces, the outbox, attaching and
  adopting, and the node are not modelled. Of the check of a
  repository, the validation of its state is shown to succeed; its reading of every stored object and its foreign
  keys are modelled without such a theorem.
\<close>

end
